(* ===== verification/Prelude.thy ===== *)
theory Prelude
  imports Main "HOL-Library.Word"
begin

unbundle bit_operations_syntax

text \<open>
  Shared vocabulary of the development: C integers with their wrap-around written out, a flat
  byte memory with block reads and writes, the little-endian encoding of machine words, and the
  run-time failures of the Prismio runtime as values.  The lemmas collected in
  \<open>mem_simps\<close> decide how a read sees an earlier write; every component proof that
  touches memory goes through them.
\<close>

named_theorems mem_simps
named_theorems layout_simps

subsection \<open>C integers\<close>

text \<open>\<open>int\<close> is 32 bits in two's complement, \<open>unsigned\<close> 32 bits, \<open>size_t\<close> and
  \<open>uintptr_t\<close> 64 bits.  Values are kept in \<open>int\<close> and \<open>nat\<close>; these functions are
  the conversions the source makes implicitly.\<close>

definition i32 :: "int \<Rightarrow> int" where
  "i32 x = (x + 2 ^ 31) mod 2 ^ 32 - 2 ^ 31"

definition u32 :: "int \<Rightarrow> nat" where
  "u32 x = nat (x mod 2 ^ 32)"

definition u64 :: "int \<Rightarrow> nat" where
  "u64 x = nat (x mod 2 ^ 64)"

definition INT_MAX :: int where
  "INT_MAX = 2147483647"

definition is_int32 :: "int \<Rightarrow> bool" where
  "is_int32 x \<longleftrightarrow> - (2 ^ 31) \<le> x \<and> x < 2 ^ 31"

lemma i32_id [simp]: "is_int32 x \<Longrightarrow> i32 x = x"
  by (simp add: i32_def is_int32_def)

lemma is_int32_i32 [simp]: "is_int32 (i32 x)"
  using pos_mod_bound [of "2 ^ 32" "x + 2 ^ 31"] pos_mod_sign [of "2 ^ 32" "x + 2 ^ 31"]
  by (simp add: i32_def is_int32_def)

lemma u32_nonneg: "0 \<le> x \<Longrightarrow> x < 2 ^ 32 \<Longrightarrow> u32 x = nat x"
  by (simp add: u32_def)

lemma u32_neg: "- (2 ^ 32) \<le> x \<Longrightarrow> x < 0 \<Longrightarrow> u32 x = nat (x + 2 ^ 32)"
proof -
  assume "- (2 ^ 32) \<le> x" "x < 0"
  then have "(x + 2 ^ 32) mod 2 ^ 32 = x + 2 ^ 32"
    by (intro mod_pos_pos_trivial) auto
  then show ?thesis
    by (simp add: u32_def)
qed

text \<open>The one unsigned compare that replaces \<open>index < 0 || index >= len\<close>.\<close>

lemma u32_bounds_check:
  assumes "is_int32 i" "is_int32 n" "0 \<le> n"
  shows "u32 i \<ge> u32 n \<longleftrightarrow> \<not> (0 \<le> i \<and> i < n)"
proof (cases "0 \<le> i")
  case True
  with assms show ?thesis
    by (auto simp: u32_nonneg is_int32_def)
next
  case False
  with assms have "u32 i = nat (i + 2 ^ 32)" "u32 n = nat n"
    by (auto simp: u32_neg u32_nonneg is_int32_def)
  with False assms show ?thesis
    by (auto simp: is_int32_def)
qed

subsection \<open>Failures\<close>

text \<open>How a call into the runtime can fail to return: it reports and leaves the process, or it stores
  through the null that a refused allocation returned without testing it.  \<open>Fuel\<close> is the model's own: a
  recursion over the heap was given too small a bound.\<close>

datatype rt_error = Exit string | Null_store | Fuel

text \<open>Go on with the result of a call that returned.\<close>

definition andthen :: "rt_error + 'a \<Rightarrow> ('a \<Rightarrow> rt_error + 'b) \<Rightarrow> rt_error + 'b" where
  "andthen r f = (case r of Inl e \<Rightarrow> Inl e | Inr x \<Rightarrow> f x)"

lemma andthen_simps [simp]: "andthen (Inl e) f = Inl e" "andthen (Inr x) f = f x"
  by (simp_all add: andthen_def)

lemma andthen_Inr: "andthen r f = Inr y \<longleftrightarrow> (\<exists>x. r = Inr x \<and> f x = Inr y)"
  by (auto simp: andthen_def split: sum.splits)

subsection \<open>Byte memory\<close>

type_synonym byte = "8 word"
type_synonym addr = nat
type_synonym mem = "addr \<Rightarrow> byte"

definition peek :: "mem \<Rightarrow> addr \<Rightarrow> nat \<Rightarrow> byte list" where
  "peek m a n = map (\<lambda>i. m (a + i)) [0..<n]"

definition poke :: "mem \<Rightarrow> addr \<Rightarrow> byte list \<Rightarrow> mem" where
  "poke m a bs = (\<lambda>x. if a \<le> x \<and> x < a + length bs then bs ! (x - a) else m x)"

text \<open>The text of a number, as \<open>printf\<close> writes it.\<close>

fun decimal :: "nat \<Rightarrow> byte list" where
  "decimal n = (if n < 10 then [word_of_nat (48 + n)] else decimal (n div 10) @ [word_of_nat (48 + n mod 10)])"

declare decimal.simps [simp del]

lemma decimal_digits: "b \<in> set (decimal n) \<Longrightarrow> 48 \<le> unat b \<and> unat b \<le> 57"
proof (induction n rule: decimal.induct)
  case (1 n)
  have "48 \<le> unat (word_of_nat (48 + d) :: byte) \<and> unat (word_of_nat (48 + d) :: byte) \<le> 57" if "d < 10" for d :: nat
    using that by (simp add: unat_of_nat del: of_nat_add)
  with 1 show ?case by (subst (asm) (2) decimal.simps) (auto split: if_splits simp del: of_nat_add)
qed

lemma decimal_length: "n < 10 ^ k \<Longrightarrow> 0 < k \<Longrightarrow> length (decimal n) \<le> k"
proof (induction n arbitrary: k rule: decimal.induct)
  case (1 n)
  show ?case
  proof (cases "n < 10")
    case False
    then obtain j where j: "k = Suc j" "0 < j" using "1.prems" by (cases k; cases "k - 1") auto
    then have "n div 10 < 10 ^ j" using "1.prems"(1) by (simp add: less_mult_imp_div_less)
    with 1 False j show ?thesis by (simp add: decimal.simps [of n])
  qed (use "1.prems" in \<open>simp add: decimal.simps [of n]\<close>)
qed

text \<open>Two address ranges that share no byte.\<close>

definition apart :: "addr \<Rightarrow> nat \<Rightarrow> addr \<Rightarrow> nat \<Rightarrow> bool" where
  "apart a n b k \<longleftrightarrow> a + n \<le> b \<or> b + k \<le> a \<or> n = 0 \<or> k = 0"

lemma length_peek [simp]: "length (peek m a n) = n"
  by (simp add: peek_def)

lemma peek_nth [simp]: "i < n \<Longrightarrow> peek m a n ! i = m (a + i)"
  by (simp add: peek_def)

lemma peek_0 [simp]: "peek m a 0 = []"
  by (simp add: peek_def)

lemma peek_eq_iff: "peek m a n = peek m' b n \<longleftrightarrow> (\<forall>i<n. m (a + i) = m' (b + i))"
  by (auto simp: peek_def list_eq_iff_nth_eq)

lemma peek_add: "peek m a (n + k) = peek m a n @ peek m (a + n) k"
  by (auto simp: list_eq_iff_nth_eq nth_append)

lemma peek_Suc: "peek m a (Suc n) = m a # peek m (Suc a) n"
  using peek_add [of m a 1 n] by (simp add: peek_def)

lemma take_peek [simp]: "take k (peek m a n) = peek m a (min k n)"
  by (auto simp: list_eq_iff_nth_eq)

lemma drop_peek [simp]: "drop k (peek m a n) = peek m (a + k) (n - k)"
  by (auto simp: list_eq_iff_nth_eq ac_simps)

lemma peek_sub:
  assumes "peek m' q k = peek m q k" "q \<le> p" "p + n \<le> q + k"
  shows "peek m' p n = peek m p n"
  unfolding peek_eq_iff
proof (intro allI impI)
  fix i assume "i < n"
  with assms(2,3) have "p - q + i < k" "q + (p - q + i) = p + i" by auto
  with assms(1) show "m' (p + i) = m (p + i)" unfolding peek_eq_iff by metis
qed

lemma poke_Nil [simp]: "poke m a [] = m"
  by (auto simp: poke_def fun_eq_iff)

lemma poke_same [mem_simps]: "peek (poke m a bs) a (length bs) = bs"
  by (auto simp: list_eq_iff_nth_eq poke_def)

lemma poke_same_len [mem_simps]: "length bs = n \<Longrightarrow> peek (poke m a bs) a n = bs"
  by (auto simp: list_eq_iff_nth_eq poke_def)

lemma peek_poke_apart [mem_simps]: "apart a n b (length bs) \<Longrightarrow> peek (poke m b bs) a n = peek m a n"
  unfolding peek_eq_iff by (auto simp: poke_def apart_def)

lemma poke_outside [mem_simps]: "x < a \<or> a + length bs \<le> x \<Longrightarrow> poke m a bs x = m x"
  by (auto simp: poke_def)

lemma poke_append: "poke m a (xs @ ys) = poke (poke m a xs) (a + length xs) ys"
  by (auto simp: poke_def fun_eq_iff nth_append)

lemma poke_Cons: "poke m a (b # bs) = poke (m(a := b)) (Suc a) bs"
  using poke_append [of m a "[b]" bs] by (simp add: poke_def fun_eq_iff)

lemma poke_single: "poke m a [b] = m(a := b)"
  by (auto simp: poke_def fun_eq_iff)

lemma poke_peek_self [simp]: "poke m a (peek m a n) = m"
  by (auto simp: poke_def fun_eq_iff)

lemma poke_commute:
  "apart a (length xs) b (length ys) \<Longrightarrow> poke (poke m a xs) b ys = poke (poke m b ys) a xs"
  by (auto simp: poke_def fun_eq_iff apart_def)

lemma poke_overwrite: "length xs = length ys \<Longrightarrow> poke (poke m a xs) a ys = poke m a ys"
  by (auto simp: poke_def fun_eq_iff)

lemma apart_sym: "apart a n b k = apart b k a n"
  by (auto simp: apart_def)

lemma apart_sub:
  "apart a n b k \<Longrightarrow> a \<le> a' \<Longrightarrow> a' + n' \<le> a + n \<Longrightarrow> b \<le> b' \<Longrightarrow> b' + k' \<le> b + k \<Longrightarrow> apart a' n' b' k'"
  by (auto simp: apart_def)

subsection \<open>Machine words in memory\<close>

text \<open>Little-endian, as every target the runtime is built for.\<close>

fun le_bytes :: "nat \<Rightarrow> nat \<Rightarrow> byte list" where
  "le_bytes 0 v = []"
| "le_bytes (Suc n) v = word_of_nat v # le_bytes n (v div 256)"

fun le_nat :: "byte list \<Rightarrow> nat" where
  "le_nat [] = 0"
| "le_nat (b # bs) = unat b + 256 * le_nat bs"

lemma length_le_bytes [simp]: "length (le_bytes n v) = n"
  by (induction n arbitrary: v) auto

lemma le_nat_bound: "le_nat bs < 256 ^ length bs"
proof (induction bs)
  case (Cons b bs)
  have "unat b < 256"
    using unsigned_less [of b] by simp
  with Cons show ?case by simp
qed simp

lemma le_nat_le_bytes: "le_nat (le_bytes n v) = v mod 256 ^ n"
proof (induction n arbitrary: v)
  case (Suc n)
  have "v mod 256 + 256 * (v div 256 mod 256 ^ n) = v mod (256 * 256 ^ n)"
    by (rule mod_mult2_eq [symmetric, THEN trans [OF add.commute]])
  with Suc show ?case by (simp add: unat_of_nat)
qed simp

lemma le_bytes_le_nat: "le_bytes (length bs) (le_nat bs) = bs"
proof (induction bs)
  case (Cons b bs)
  have lt: "unat b < 256"
    using unsigned_less [of b] by simp
  have "word_of_nat (unat b + 256 * le_nat bs) = b"
    unfolding word_unat_eq_iff unat_of_nat using lt by simp
  moreover have "(unat b + 256 * le_nat bs) div 256 = le_nat bs"
    using lt by simp
  ultimately show ?case using Cons by simp
qed simp

definition load64 :: "mem \<Rightarrow> addr \<Rightarrow> nat" where
  "load64 m a = le_nat (peek m a 8)"

definition store64 :: "mem \<Rightarrow> addr \<Rightarrow> nat \<Rightarrow> mem" where
  "store64 m a v = poke m a (le_bytes 8 v)"

lemma load64_bound: "load64 m a < 2 ^ 64"
  using le_nat_bound [of "peek m a 8"] by (simp add: load64_def)

lemma load64_store64 [mem_simps]: "load64 (store64 m a v) a = v mod 2 ^ 64"
  by (simp add: load64_def store64_def poke_same_len le_nat_le_bytes)

lemma load64_store64_apart [mem_simps]: "apart a 8 b 8 \<Longrightarrow> load64 (store64 m b v) a = load64 m a"
  by (simp add: load64_def store64_def peek_poke_apart)

lemma peek_store64_apart [mem_simps]: "apart a n b 8 \<Longrightarrow> peek (store64 m b v) a n = peek m a n"
  by (simp add: store64_def peek_poke_apart)

lemma load64_poke_apart [mem_simps]: "apart a 8 b (length bs) \<Longrightarrow> load64 (poke m b bs) a = load64 m a"
  by (simp add: load64_def peek_poke_apart)

lemma store64_outside [mem_simps]: "x < a \<or> a + 8 \<le> x \<Longrightarrow> store64 m a v x = m x"
  by (simp add: store64_def poke_outside)

lemma load64_cong: "peek m a 8 = peek m' a 8 \<Longrightarrow> load64 m a = load64 m' a"
  by (simp add: load64_def)

end
