(* ===== verification/Libc.thy ===== *)
theory Libc
  imports Prelude
begin

text \<open>
  The C library functions a freestanding program links (\<open>runtime/freestanding/libc.c\<close>):
  the byte functions with their word-at-a-time fast paths, and the string functions
  (\<open>qsort\<close> is in \<open>Libc_Sort\<close>).  Each is modelled on the flat byte memory of \<open>Prelude\<close>, loop by
  loop; the theorems say that every fast path computes what the plain byte-by-byte meaning of the
  function is.  A pointer that the C function returns unchanged (\<open>dst\<close>) is left out of
  the result.  A loop over a string that the C code would run past the end of the address space
  stops there.
\<close>

subsection \<open>Definitions\<close>

definition WORD :: nat where
  "WORD = 8"

definition ADDR_END :: nat where
  "ADDR_END = 2 ^ 64"

definition both_aligned :: "addr \<Rightarrow> addr \<Rightarrow> bool" where
  "both_aligned a b \<longleftrightarrow> (a OR b) AND (WORD - 1) = 0"

function memcpy_words :: "mem \<Rightarrow> addr \<Rightarrow> addr \<Rightarrow> nat \<Rightarrow> mem \<times> addr \<times> addr \<times> nat" where
  "memcpy_words m d s n =
     (if WORD \<le> n then memcpy_words (poke m d (peek m s WORD)) (d + WORD) (s + WORD) (n - WORD)
      else (m, d, s, n))"
  by pat_completeness auto
termination
  by (relation "measure (\<lambda>(m, d, s, n). n)") (auto simp: WORD_def)

fun memcpy_bytes :: "mem \<Rightarrow> addr \<Rightarrow> addr \<Rightarrow> nat \<Rightarrow> mem" where
  "memcpy_bytes m d s 0 = m"
| "memcpy_bytes m d s (Suc n) = memcpy_bytes (m(d := m s)) (Suc d) (Suc s) n"

definition memcpy :: "mem \<Rightarrow> addr \<Rightarrow> addr \<Rightarrow> nat \<Rightarrow> mem" where
  "memcpy m dst src n =
     (let (m', d, s, k) = (if both_aligned dst src then memcpy_words m dst src n else (m, dst, src, n))
      in memcpy_bytes m' d s k)"

function memmove_words_down :: "mem \<Rightarrow> addr \<Rightarrow> addr \<Rightarrow> nat \<Rightarrow> mem \<times> addr \<times> addr \<times> nat" where
  "memmove_words_down m d s n =
     (if WORD \<le> n
      then memmove_words_down (poke m (d - WORD) (peek m (s - WORD) WORD)) (d - WORD) (s - WORD) (n - WORD)
      else (m, d, s, n))"
  by pat_completeness auto
termination
  by (relation "measure (\<lambda>(m, d, s, n). n)") (auto simp: WORD_def)

fun memmove_bytes_down :: "mem \<Rightarrow> addr \<Rightarrow> addr \<Rightarrow> nat \<Rightarrow> mem" where
  "memmove_bytes_down m d s 0 = m"
| "memmove_bytes_down m d s (Suc n) = memmove_bytes_down (m(d - 1 := m (s - 1))) (d - 1) (s - 1) n"

definition memmove :: "mem \<Rightarrow> addr \<Rightarrow> addr \<Rightarrow> nat \<Rightarrow> mem" where
  "memmove m dst src n =
     (if dst = src \<or> n = 0 then m
      else if dst < src \<or> dst \<ge> src + n then memcpy m dst src n
      else let d = dst + n; s = src + n;
               (m', d', s', k) = (if both_aligned d s then memmove_words_down m d s n else (m, d, s, n))
           in memmove_bytes_down m' d' s' k)"

function memset_words :: "mem \<Rightarrow> addr \<Rightarrow> nat \<Rightarrow> nat \<Rightarrow> mem \<times> addr \<times> nat" where
  "memset_words m d word n =
     (if WORD \<le> n then memset_words (store64 m d word) (d + WORD) word (n - WORD) else (m, d, n))"
  by pat_completeness auto
termination
  by (relation "measure (\<lambda>(m, d, w, n). n)") (auto simp: WORD_def)

fun memset_bytes :: "mem \<Rightarrow> addr \<Rightarrow> byte \<Rightarrow> nat \<Rightarrow> mem" where
  "memset_bytes m d b 0 = m"
| "memset_bytes m d b (Suc n) = memset_bytes (m(d := b)) (Suc d) b n"

definition memset :: "mem \<Rightarrow> addr \<Rightarrow> int \<Rightarrow> nat \<Rightarrow> mem" where
  "memset m dst c n =
     (let b = (word_of_int c :: byte)
      in if dst AND (WORD - 1) = 0
         then let (m', d, k) = memset_words m dst ((0x0101010101010101 * unat b) mod 2 ^ 64) n
              in memset_bytes m' d b k
         else memset_bytes m dst b n)"

fun memcmp :: "mem \<Rightarrow> addr \<Rightarrow> addr \<Rightarrow> nat \<Rightarrow> int" where
  "memcmp m a b 0 = 0"
| "memcmp m a b (Suc n) =
     (if m a \<noteq> m b then (if m a < m b then -1 else 1) else memcmp m (Suc a) (Suc b) n)"

text \<open>The answer is an address, 0 for \<open>NULL\<close>.\<close>

fun memchr :: "mem \<Rightarrow> addr \<Rightarrow> int \<Rightarrow> nat \<Rightarrow> addr" where
  "memchr m s c 0 = 0"
| "memchr m s c (Suc n) = (if m s = word_of_int c then s else memchr m (Suc s) c n)"

function strlen_loop :: "mem \<Rightarrow> addr \<Rightarrow> addr" where
  "strlen_loop m p = (if p < ADDR_END \<and> m p \<noteq> 0 then strlen_loop m (Suc p) else p)"
  by pat_completeness auto
termination
  by (relation "measure (\<lambda>(m, p). ADDR_END - p)") auto

definition strlen :: "mem \<Rightarrow> addr \<Rightarrow> nat" where
  "strlen m s = strlen_loop m s - s"

function strcmp :: "mem \<Rightarrow> addr \<Rightarrow> addr \<Rightarrow> int" where
  "strcmp m a b =
     (if a < ADDR_END \<and> m a \<noteq> 0 \<and> m a = m b then strcmp m (Suc a) (Suc b)
      else int (unat (m a)) - int (unat (m b)))"
  by pat_completeness auto
termination
  by (relation "measure (\<lambda>(m, a, b). ADDR_END - a)") auto

function strcpy :: "mem \<Rightarrow> addr \<Rightarrow> addr \<Rightarrow> mem" where
  "strcpy m d s =
     (if s < ADDR_END \<and> m s \<noteq> 0 then strcpy (m(d := m s)) (Suc d) (Suc s) else m(d := m s))"
  by pat_completeness auto
termination
  by (relation "measure (\<lambda>(m, d, s). ADDR_END - s)") auto

fun strncpy_pad :: "mem \<Rightarrow> addr \<Rightarrow> nat \<Rightarrow> mem" where
  "strncpy_pad m d 0 = m"
| "strncpy_pad m d (Suc k) = strncpy_pad (m(d := 0)) (Suc d) k"

fun strncpy :: "mem \<Rightarrow> addr \<Rightarrow> addr \<Rightarrow> nat \<Rightarrow> mem" where
  "strncpy m d s 0 = m"
| "strncpy m d s (Suc n) =
     (if m s \<noteq> 0 then strncpy (m(d := m s)) (Suc d) (Suc s) n else strncpy_pad m d (Suc n))"

function strchr :: "mem \<Rightarrow> addr \<Rightarrow> int \<Rightarrow> addr" where
  "strchr m s c =
     (if m s = word_of_int c then s
      else if s < ADDR_END \<and> m s \<noteq> 0 then strchr m (Suc s) c else 0)"
  by pat_completeness auto
termination
  by (relation "measure (\<lambda>(m, s, c). ADDR_END - s)") auto

declare memcpy_words.simps [simp del] memmove_words_down.simps [simp del] memset_words.simps [simp del]
declare strlen_loop.simps [simp del] strcmp.simps [simp del] strcpy.simps [simp del] strchr.simps [simp del]

subsection \<open>Word-at-a-time copies are byte copies\<close>

lemma both_aligned_iff: "both_aligned a b \<longleftrightarrow> 8 dvd a \<and> 8 dvd b"
proof -
  have "(7::nat) = mask 3"
    by (simp add: mask_eq_exp_minus_1)
  then have "(a OR b) AND 7 = take_bit 3 (a OR b)"
    by (simp only: take_bit_eq_mask)
  then have "both_aligned a b \<longleftrightarrow> take_bit 3 a = 0 \<and> take_bit 3 b = 0"
    by (simp add: both_aligned_def WORD_def take_bit_or or_eq_0_iff)
  then show ?thesis
    by (simp add: take_bit_eq_mod dvd_eq_mod_eq_0)
qed

text \<open>One step forward: writing the first \<open>k\<close> bytes does not disturb the rest of the source
  as long as the destination starts no later than the source or past its end.\<close>

lemma poke_peek_split:
  assumes "d \<le> s \<or> s + (k + n) \<le> d"
    and "d + k \<le> s \<or> d = s \<or> s + (k + n) \<le> d"
  shows "poke (poke m d (peek m s k)) (d + k) (peek (poke m d (peek m s k)) (s + k) n)
           = poke m d (peek m s (k + n))"
proof -
  have "peek (poke m d (peek m s k)) (s + k) n = peek m (s + k) n"
    using assms(2) by (auto simp: peek_eq_iff poke_def)
  then show ?thesis
    by (simp add: peek_add poke_append)
qed

lemma memcpy_bytes_eq:
  "d \<le> s \<or> s + n \<le> d \<Longrightarrow> memcpy_bytes m d s n = poke m d (peek m s n)"
proof (induction m d s n rule: memcpy_bytes.induct)
  case (2 m d s n)
  then have "memcpy_bytes (m(d := m s)) (Suc d) (Suc s) n
               = poke (m(d := m s)) (Suc d) (peek (m(d := m s)) (Suc s) n)"
    by (intro "2.IH") auto
  also have "peek (m(d := m s)) (Suc s) n = peek m (Suc s) n"
    using "2.prems" by (auto simp: peek_eq_iff)
  finally show ?case
    by (simp only: memcpy_bytes.simps peek_Suc poke_Cons)
qed simp

lemma memcpy_words_eq:
  assumes "d \<le> s \<or> s + n \<le> d" "8 dvd d" "8 dvd s"
    and "memcpy_words m d s n = (m', d', s', k)"
  shows "memcpy_bytes m' d' s' k = poke m d (peek m s n)"
  using assms
proof (induction m d s n rule: memcpy_words.induct)
  case (1 m d s n)
  show ?case
  proof (cases "WORD \<le> n")
    case True
    let ?m = "poke m d (peek m s 8)"
    have step: "d + 8 \<le> s \<or> d = s \<or> s + n \<le> d"
      using "1.prems"(1-3) by (auto elim!: dvdE)
    from True "1.prems" have "memcpy_bytes m' d' s' k = poke ?m (d + 8) (peek ?m (s + 8) (n - 8))"
      by (intro "1.IH" [unfolded WORD_def]) (auto simp: WORD_def memcpy_words.simps [of m d s n])
    also have "\<dots> = poke m d (peek m s n)"
      using poke_peek_split [of d s 8 "n - 8" m] "1.prems"(1) step True by (auto simp: WORD_def)
    finally show ?thesis .
  next
    case False
    with "1.prems" show ?thesis
      by (simp add: memcpy_words.simps [of m d s n] memcpy_bytes_eq)
  qed
qed

lemma memcpy_eq:
  assumes "dst \<le> src \<or> src + n \<le> dst"
  shows "memcpy m dst src n = poke m dst (peek m src n)"
proof (cases "both_aligned dst src")
  case True
  obtain m' d' s' k where "memcpy_words m dst src n = (m', d', s', k)"
    by (metis prod_cases4)
  with True assms show ?thesis
    using memcpy_words_eq [of dst src n m m' d' s' k] by (simp add: memcpy_def both_aligned_iff)
next
  case False
  with assms show ?thesis
    by (simp add: memcpy_def memcpy_bytes_eq)
qed

text \<open>The downward copies: the destination lies above the source and overlaps it.\<close>

lemma poke_peek_split_down:
  assumes "s + (n + k) \<le> d + n + k" "s + k \<le> d + k" "s + n + k \<le> d + n \<or> d = s \<or> n = 0 \<or> s + n \<le> d + n"
  shows "poke (poke m (d + n) (peek m (s + n) k)) d (peek (poke m (d + n) (peek m (s + n) k)) s n)
           = poke m d (peek m s (n + k))"
proof -
  have "peek (poke m (d + n) (peek m (s + n) k)) s n = peek m s n"
    using assms by (auto simp: peek_eq_iff poke_def)
  moreover have "poke (poke m (d + n) (peek m (s + n) k)) d (peek m s n)
      = poke (poke m d (peek m s n)) (d + n) (peek m (s + n) k)"
    by (rule poke_commute) (auto simp: apart_def)
  ultimately show ?thesis
    by (simp add: peek_add poke_append)
qed

lemma memmove_bytes_down_eq:
  "s \<le> d \<Longrightarrow> memmove_bytes_down m (d + n) (s + n) n = poke m d (peek m s n)"
proof (induction n arbitrary: m)
  case (Suc n)
  let ?m = "m(d + n := m (s + n))"
  have "memmove_bytes_down m (d + Suc n) (s + Suc n) (Suc n) = poke ?m d (peek ?m s n)"
    using Suc by simp
  also have "?m = poke m (d + n) (peek m (s + n) 1)"
    by (simp add: peek_def poke_single)
  also have "poke \<dots> d (peek \<dots> s n) = poke m d (peek m s (n + 1))"
    using Suc.prems by (intro poke_peek_split_down) auto
  finally show ?case by simp
qed simp

lemma memmove_words_down_eq:
  assumes "s \<le> d" "8 dvd (d + n)" "8 dvd (s + n)"
    and "memmove_words_down m (d + n) (s + n) n = (m', d', s', k)"
  shows "memmove_bytes_down m' d' s' k = poke m d (peek m s n)"
  using assms
proof (induction n arbitrary: m rule: less_induct)
  case (less n)
  show ?case
  proof (cases "8 \<le> n")
    case True
    define j where "j = n - 8"
    with True have n: "n = j + 8" by simp
    let ?m = "poke m (d + j) (peek m (s + j) 8)"
    have "memmove_words_down ?m (d + j) (s + j) j = (m', d', s', k)"
      using less.prems(4) unfolding n memmove_words_down.simps [of m "d + (j + 8)"]
      by (simp add: WORD_def)
    moreover have "8 dvd (d + j)" "8 dvd (s + j)"
      using less.prems(2,3) unfolding n by (metis add.assoc dvd_add_left_iff dvd_refl)+
    ultimately have "memmove_bytes_down m' d' s' k = poke ?m d (peek ?m s j)"
      using less.IH [of j ?m] less.prems(1) n by simp
    also have "\<dots> = poke m d (peek m s (j + 8))"
      using less.prems(1) by (intro poke_peek_split_down) auto
    finally show ?thesis by (simp add: n)
  next
    case False
    with less.prems show ?thesis
      by (auto simp: memmove_words_down.simps [of m "d + n"] WORD_def memmove_bytes_down_eq)
  qed
qed

text \<open>C1. \<open>memmove\<close> leaves in the destination exactly the bytes the source held before the
  call, whether or not the ranges overlap and whichever of the two word-at-a-time paths runs, and
  touches no other byte.\<close>

lemma memmove_eq: "memmove m dst src n = poke m dst (peek m src n)"
proof (cases "dst = src \<or> n = 0 \<or> dst < src \<or> dst \<ge> src + n")
  case True
  then show ?thesis
    by (auto simp: memmove_def memcpy_eq)
next
  case False
  then have le: "src \<le> dst" and ne: "dst \<noteq> src" "n \<noteq> 0" by auto
  obtain m' d' s' k where w: "memmove_words_down m (dst + n) (src + n) n = (m', d', s', k)"
    by (metis prod_cases4)
  show ?thesis
  proof (cases "both_aligned (dst + n) (src + n)")
    case True
    with w le have "memmove_bytes_down m' d' s' k = poke m dst (peek m src n)"
      by (intro memmove_words_down_eq) (auto simp: both_aligned_iff)
    with True w False show ?thesis by (simp add: memmove_def)
  next
    case nal: False
    with False le show ?thesis by (simp add: memmove_def memmove_bytes_down_eq)
  qed
qed

subsection \<open>The other byte functions\<close>

lemma le_bytes_repeat: "le_bytes 8 (0x0101010101010101 * unat b) = replicate 8 b" for b :: byte
proof -
  let ?k = "unat b"
  have "?k < 256"
    using unsigned_less [of b] by simp
  have d: "(256 * q + ?k) div 256 = q" "word_of_nat (256 * q + ?k) = b" for q
  proof -
    show "(256 * q + ?k) div 256 = q"
      using \<open>?k < 256\<close> by simp
    show "word_of_nat (256 * q + ?k) = b"
      unfolding word_unat_eq_iff unat_of_nat using \<open>?k < 256\<close> by simp
  qed
  define r where "r n = (\<Sum>i<n. 256 ^ i) * ?k" for n :: nat
  have rS: "r (Suc n) = 256 * r n + ?k" for n
    by (simp add: r_def sum.lessThan_Suc_shift sum_distrib_left algebra_simps del: sum.lessThan_Suc)
  have "le_bytes n (r n) = replicate n b" for n
    by (induction n) (simp_all only: rS d le_bytes.simps replicate.simps)
  moreover have "r 8 = 0x0101010101010101 * ?k"
  proof -
    have "r (Suc (Suc (Suc (Suc (Suc (Suc (Suc (Suc 0)))))))) = 0x0101010101010101 * ?k"
      unfolding rS by (simp add: r_def)
    moreover have "Suc (Suc (Suc (Suc (Suc (Suc (Suc (Suc 0))))))) = 8" by simp
    ultimately show ?thesis by (simp only:)
  qed
  ultimately show ?thesis by metis
qed

lemma memset_bytes_eq: "memset_bytes m d b n = poke m d (replicate n b)"
  by (induction n arbitrary: m d) (simp_all add: poke_Cons)

lemma memset_words_eq:
  assumes "memset_words m d word n = (m', d', k)" "le_bytes 8 word = replicate 8 b"
  shows "memset_bytes m' d' b k = poke m d (replicate n b)"
  using assms
proof (induction m d word n rule: memset_words.induct)
  case (1 m d word n)
  show ?case
  proof (cases "8 \<le> n")
    case True
    then have n: "n = 8 + (n - 8)" by simp
    have "memset_bytes m' d' b k = poke (store64 m d word) (d + 8) (replicate (n - 8) b)"
      using "1.IH" [unfolded WORD_def] "1.prems" True
      by (simp add: memset_words.simps [of m d word n] WORD_def)
    also have "\<dots> = poke m d (replicate 8 b @ replicate (n - 8) b)"
      by (simp add: store64_def "1.prems"(2) poke_append)
    also have "replicate 8 b @ replicate (n - 8) b = replicate n b"
      by (metis n replicate_add)
    finally show ?thesis .
  next
    case False
    with "1.prems" show ?thesis
      by (auto simp: memset_words.simps [of m d word n] WORD_def memset_bytes_eq)
  qed
qed

lemma le_bytes_mod: "le_bytes n (v mod 256 ^ n) = le_bytes n v"
proof -
  have "le_bytes n (le_nat (le_bytes n v)) = le_bytes n v"
    using le_bytes_le_nat [of "le_bytes n v"] by simp
  then show ?thesis by (simp add: le_nat_le_bytes)
qed

lemma memset_eq: "memset m dst c n = poke m dst (replicate n (word_of_int c))"
proof -
  let ?b = "word_of_int c :: byte"
  let ?w = "(0x0101010101010101 * unat ?b) mod 2 ^ 64"
  obtain m' d' k where w: "memset_words m dst ?w n = (m', d', k)"
    by (metis prod_cases3)
  have "le_bytes 8 ?w = replicate 8 ?b"
    using le_bytes_mod [of 8 "0x0101010101010101 * unat ?b"] le_bytes_repeat [of ?b] by simp
  from memset_words_eq [OF w this] have "memset_bytes m' d' ?b k = poke m dst (replicate n ?b)" .
  then show ?thesis
    unfolding memset_def Let_def w by (simp add: memset_bytes_eq)
qed

lemma memcmp_eq_0: "memcmp m a b n = 0 \<longleftrightarrow> peek m a n = peek m b n"
  by (induction m a b n rule: memcmp.induct) (auto simp: peek_Suc)

text \<open>The sign is that of the first difference.\<close>

lemma memcmp_sign:
  assumes "i < n" "m (a + i) \<noteq> m (b + i)" "peek m a i = peek m b i"
  shows "memcmp m a b n = (if m (a + i) < m (b + i) then -1 else 1)"
  using assms
proof (induction m a b n arbitrary: i rule: memcmp.induct)
  case (2 m a b n)
  show ?case
  proof (cases i)
    case (Suc j)
    then show ?thesis using 2 by (auto simp: peek_Suc)
  qed (use 2 in auto)
qed simp

lemma memchr_eq:
  "memchr m s c n = (case List.find (\<lambda>i. m (s + i) = word_of_int c) [0..<n] of None \<Rightarrow> 0 | Some i \<Rightarrow> s + i)"
proof (induction m s c n rule: memchr.induct)
  case (2 m s c n)
  have "[0..<Suc n] = 0 # map Suc [0..<n]"
    by (simp add: map_Suc_upt upt_conv_Cons)
  moreover have "List.find P (map Suc xs) = map_option Suc (List.find (P \<circ> Suc) xs)" for P xs
    by (induction xs) auto
  ultimately show ?case
    using 2 by (simp add: comp_def split: option.splits del: upt_Suc)
qed simp

subsection \<open>C strings\<close>

text \<open>\<open>cstr m a s\<close>: the bytes \<open>s\<close> followed by the terminator stand at \<open>a\<close>.\<close>

definition cstr :: "mem \<Rightarrow> addr \<Rightarrow> byte list \<Rightarrow> bool" where
  "cstr m a s \<longleftrightarrow> peek m a (length s) = s \<and> m (a + length s) = 0 \<and> 0 \<notin> set s \<and> a + length s < ADDR_END"

lemma cstr_Nil [simp]: "cstr m a [] \<longleftrightarrow> m a = 0 \<and> a < ADDR_END"
  by (simp add: cstr_def)

lemma cstr_Cons [simp]: "cstr m a (b # s) \<longleftrightarrow> m a = b \<and> b \<noteq> 0 \<and> cstr m (Suc a) s"
  by (auto simp: cstr_def peek_Suc)

lemma cstr_cong: "(\<And>i. i \<le> length s \<Longrightarrow> m' (a + i) = m (a + i)) \<Longrightarrow> cstr m' a s = cstr m a s"
  by (auto simp: cstr_def list_eq_iff_nth_eq)

lemma cstr_upd: "d < a \<or> a + length s < d \<Longrightarrow> cstr (m(d := b)) a s = cstr m a s"
  by (intro cstr_cong) auto

lemma cstr_bound: "cstr m a s \<Longrightarrow> a < ADDR_END"
  by (simp add: cstr_def)

lemma strlen_loop_cstr: "cstr m a s \<Longrightarrow> strlen_loop m a = a + length s"
proof (induction s arbitrary: a)
  case Nil
  then show ?case by (subst strlen_loop.simps) simp
next
  case (Cons b s)
  then have "strlen_loop m a = strlen_loop m (Suc a)"
    using cstr_bound [of m "Suc a" s] by (subst strlen_loop.simps) auto
  with Cons show ?case by simp
qed

lemma strlen_cstr: "cstr m a s \<Longrightarrow> strlen m a = length s"
  by (simp add: strlen_def strlen_loop_cstr)

fun byte_cmp :: "byte list \<Rightarrow> byte list \<Rightarrow> int" where
  "byte_cmp [] [] = 0"
| "byte_cmp [] (y # ys) = - int (unat y)"
| "byte_cmp (x # xs) [] = int (unat x)"
| "byte_cmp (x # xs) (y # ys) = (if x = y then byte_cmp xs ys else int (unat x) - int (unat y))"

lemma strcmp_cstr: "cstr m a s \<Longrightarrow> cstr m b t \<Longrightarrow> strcmp m a b = byte_cmp s t"
proof (induction s t arbitrary: a b rule: byte_cmp.induct)
  case (4 x xs y ys)
  then show ?case
    using cstr_bound [of m "Suc a" xs] by (subst strcmp.simps) auto
qed (subst strcmp.simps, auto)+

lemma byte_cmp_eq_0: "0 \<notin> set s \<Longrightarrow> 0 \<notin> set t \<Longrightarrow> byte_cmp s t = 0 \<longleftrightarrow> s = t"
  by (induction s t rule: byte_cmp.induct) (auto simp flip: of_nat_eq_iff [where 'a = int] simp: word_unat_eq_iff)

lemma strcpy_cstr:
  "cstr m s t \<Longrightarrow> d \<le> s \<or> s + length t < d \<Longrightarrow> strcpy m d s = poke m d (t @ [0])"
proof (induction t arbitrary: m d s)
  case Nil
  then show ?case by (subst strcpy.simps) (simp add: poke_single)
next
  case (Cons b t)
  have "cstr (m(d := m s)) (Suc s) t"
    using Cons.prems by (subst cstr_upd) auto
  then have "strcpy (m(d := m s)) (Suc d) (Suc s) = poke (m(d := m s)) (Suc d) (t @ [0])"
    by (rule Cons.IH) (use Cons.prems in auto)
  moreover have "strcpy m d s = strcpy (m(d := m s)) (Suc d) (Suc s)"
    using Cons.prems cstr_bound [of m "Suc s" t] by (subst strcpy.simps) auto
  ultimately show ?case
    using Cons.prems by (simp only: append_Cons poke_Cons cstr_Cons)
qed

lemma strncpy_pad_eq: "strncpy_pad m d k = poke m d (replicate k 0)"
  by (induction k arbitrary: m d) (simp_all add: poke_Cons)

lemma strncpy_cstr:
  "cstr m s t \<Longrightarrow> d \<le> s \<or> s + length t < d \<Longrightarrow>
     strncpy m d s n = poke m d (take n t @ replicate (n - length t) 0)"
proof (induction n arbitrary: m d s t)
  case (Suc n)
  show ?case
  proof (cases t)
    case Nil
    with Suc.prems show ?thesis by (simp add: strncpy_pad_eq poke_Cons)
  next
    case (Cons b t')
    have "cstr (m(d := m s)) (Suc s) t'"
      using Suc.prems by (subst cstr_upd) (auto simp: Cons)
    then have "strncpy (m(d := m s)) (Suc d) (Suc s) n
        = poke (m(d := m s)) (Suc d) (take n t' @ replicate (n - length t') 0)"
      by (rule Suc.IH) (use Suc.prems in \<open>auto simp: Cons\<close>)
    with Suc.prems show ?thesis by (simp add: Cons poke_Cons)
  qed
qed simp

lemma strchr_cstr:
  assumes "cstr m a s"
  shows "strchr m a c = (case List.find (\<lambda>i. (s @ [0]) ! i = word_of_int c) [0..<Suc (length s)] of
           None \<Rightarrow> 0 | Some i \<Rightarrow> a + i)"
  using assms
proof (induction s arbitrary: a)
  case Nil
  then show ?case by (subst strchr.simps) simp
next
  case (Cons b s)
  have up: "[0..<Suc (Suc (length s))] = 0 # map Suc [0..<Suc (length s)]"
    by (simp add: map_Suc_upt upt_conv_Cons del: upt_Suc)
  have find: "List.find P (map Suc xs) = map_option Suc (List.find (P \<circ> Suc) xs)" for P xs
    by (induction xs) auto
  from Cons show ?case
    using cstr_bound [of m "Suc a" s]
    by (subst strchr.simps) (auto simp: up find comp_def split: option.splits simp del: upt_Suc)
qed

subsection \<open>Properties\<close>

text \<open>C4. \<open>memmove\<close>, by words or by bytes, upwards or downwards, and however the two ranges overlap,
  leaves at \<open>dst\<close> the bytes that stood at \<open>src\<close> before the call and changes no other byte.\<close>

theorem memmove_copies: "memmove m dst src n = poke m dst (peek m src n)"
  by (rule memmove_eq)

text \<open>On strings, \<open>strcmp\<close> is the order of their bytes: it is 0 exactly for equal strings, and its
  sign is the sign of the first difference.\<close>

theorem strcmp_orders:
  assumes "cstr m a s" "cstr m b t"
  shows "strcmp m a b = byte_cmp s t \<and> (strcmp m a b = 0 \<longleftrightarrow> s = t)"
  using strcmp_cstr [OF assms] byte_cmp_eq_0 [of s t] assms by (auto simp: cstr_def)

theorem strcmp_orders_witness:
  "(let m = poke (poke (\<lambda>_. 0) 100 [97, 98]) 200 [97, 99] in strcmp m 100 200 = -1 \<and> strcmp m 100 200 \<noteq> 0)"
proof -
  let ?m = "poke (poke (\<lambda>_. 0) 100 [97, 98]) 200 [97, 99] :: mem"
  have c: "cstr ?m 100 [97, 98]" "cstr ?m 200 [97, 99]"
    by (simp_all add: cstr_def peek_def poke_def ADDR_END_def upt_rec)
  have "byte_cmp [97, 98] [97, 99] = -1" by simp
  with strcmp_orders [OF c] show ?thesis by (simp add: Let_def)
qed

end
