(* ===== verification/Libc_Sort.thy ===== *)
theory Libc_Sort
  imports Libc "HOL-Library.Multiset"
begin

text \<open>
  The heapsort behind the freestanding \<open>qsort\<close> (\<open>runtime/freestanding/libc.c\<close>): the
  byte-level code, the same algorithm on lists, the refinement between the two, and the proof
  that it sorts under any comparator that is a total preorder.  The interface of a comparator is
  the locale \<open>comparator\<close>, interpreted on the order of names the directory listings
  sort by.
\<close>

subsection \<open>Definitions\<close>

text \<open>Heapsort.  The comparator reads the bytes of its two elements.\<close>

type_synonym comparator = "byte list \<Rightarrow> byte list \<Rightarrow> int"

fun swap_loop :: "mem \<Rightarrow> addr \<Rightarrow> addr \<Rightarrow> nat \<Rightarrow> mem" where
  "swap_loop m a b 0 = m"
| "swap_loop m a b (Suc k) = swap_loop (m(a := m b, b := m a)) (Suc a) (Suc b) k"

definition swap_bytes :: "mem \<Rightarrow> addr \<Rightarrow> addr \<Rightarrow> nat \<Rightarrow> mem" where
  "swap_bytes m a b sz = swap_loop m a b sz"

definition elem_at :: "mem \<Rightarrow> addr \<Rightarrow> nat \<Rightarrow> nat \<Rightarrow> byte list" where
  "elem_at m base sz i = peek m (base + i * sz) sz"

function sift_down :: "comparator \<Rightarrow> mem \<Rightarrow> addr \<Rightarrow> nat \<Rightarrow> nat \<Rightarrow> nat \<Rightarrow> mem" where
  "sift_down compare m base root cnt sz =
     (let child = 2 * root + 1 in
      if child \<ge> cnt then m
      else
        let child' = (if child + 1 < cnt
                        \<and> compare (elem_at m base sz child) (elem_at m base sz (child + 1)) < 0
                      then child + 1 else child) in
        if compare (elem_at m base sz root) (elem_at m base sz child') \<ge> 0 then m
        else sift_down compare (swap_bytes m (base + root * sz) (base + child' * sz) sz)
               base child' cnt sz)"
  by pat_completeness auto
termination
  by (relation "measure (\<lambda>(c, m, base, root, cnt, sz). cnt - root)") (auto simp: Let_def)

declare sift_down.simps [simp del]

fun qsort_heapify :: "comparator \<Rightarrow> mem \<Rightarrow> addr \<Rightarrow> nat \<Rightarrow> nat \<Rightarrow> nat \<Rightarrow> mem" where
  "qsort_heapify compare m base 0 cnt sz = m"
| "qsort_heapify compare m base (Suc i) cnt sz =
     qsort_heapify compare (sift_down compare m base i cnt sz) base i cnt sz"

fun qsort_drain :: "comparator \<Rightarrow> mem \<Rightarrow> addr \<Rightarrow> nat \<Rightarrow> nat \<Rightarrow> mem" where
  "qsort_drain compare m base 0 sz = m"
| "qsort_drain compare m base (Suc e) sz =
     qsort_drain compare
       (sift_down compare (swap_bytes m base (base + Suc e * sz) sz) base 0 (Suc e) sz)
       base e sz"

definition qsort :: "comparator \<Rightarrow> mem \<Rightarrow> addr \<Rightarrow> nat \<Rightarrow> nat \<Rightarrow> mem" where
  "qsort compare m base cnt sz =
     (if cnt < 2 then m
      else qsort_drain compare (qsort_heapify compare m base (cnt div 2) cnt sz) base (cnt - 1) sz)"

subsection \<open>Heapsort on lists\<close>

text \<open>The array as a list of elements, and the same algorithm on it.\<close>

definition elems :: "mem \<Rightarrow> addr \<Rightarrow> nat \<Rightarrow> nat \<Rightarrow> byte list list" where
  "elems m base sz n = map (elem_at m base sz) [0..<n]"

definition lswap :: "'a list \<Rightarrow> nat \<Rightarrow> nat \<Rightarrow> 'a list" where
  "lswap xs i j = xs[i := xs ! j, j := xs ! i]"

function lsift :: "('a \<Rightarrow> 'a \<Rightarrow> int) \<Rightarrow> 'a list \<Rightarrow> nat \<Rightarrow> nat \<Rightarrow> 'a list" where
  "lsift cmp xs root n =
     (let c = 2 * root + 1 in
      if c \<ge> n then xs
      else let c' = (if c + 1 < n \<and> cmp (xs ! c) (xs ! (c + 1)) < 0 then c + 1 else c) in
        if cmp (xs ! root) (xs ! c') \<ge> 0 then xs else lsift cmp (lswap xs root c') c' n)"
  by pat_completeness auto
termination
  by (relation "measure (\<lambda>(c, xs, root, n). n - root)") (auto simp: Let_def)

declare lsift.simps [simp del]

fun lheapify :: "('a \<Rightarrow> 'a \<Rightarrow> int) \<Rightarrow> 'a list \<Rightarrow> nat \<Rightarrow> nat \<Rightarrow> 'a list" where
  "lheapify cmp xs 0 n = xs"
| "lheapify cmp xs (Suc i) n = lheapify cmp (lsift cmp xs i n) i n"

fun ldrain :: "('a \<Rightarrow> 'a \<Rightarrow> int) \<Rightarrow> 'a list \<Rightarrow> nat \<Rightarrow> 'a list" where
  "ldrain cmp xs 0 = xs"
| "ldrain cmp xs (Suc e) = ldrain cmp (lsift cmp (lswap xs 0 (Suc e)) 0 (Suc e)) e"

definition lsort :: "('a \<Rightarrow> 'a \<Rightarrow> int) \<Rightarrow> 'a list \<Rightarrow> 'a list" where
  "lsort cmp xs =
     (if length xs < 2 then xs
      else ldrain cmp (lheapify cmp xs (length xs div 2) (length xs)) (length xs - 1))"

lemma length_lswap [simp]: "length (lswap xs i j) = length xs"
  by (simp add: lswap_def)

lemma mset_lswap: "i < length xs \<Longrightarrow> j < length xs \<Longrightarrow> mset (lswap xs i j) = mset xs"
  by (simp add: lswap_def mset_swap)

lemma nth_lswap:
  "i < length xs \<Longrightarrow> j < length xs \<Longrightarrow> k < length xs \<Longrightarrow>
     lswap xs i j ! k = (if k = j then xs ! i else if k = i then xs ! j else xs ! k)"
  by (simp add: lswap_def nth_list_update)

lemma lsift_perm:
  "n \<le> length xs \<Longrightarrow> length (lsift cmp xs r n) = length xs \<and> mset (lsift cmp xs r n) = mset xs
     \<and> (\<forall>i. n \<le> i \<longrightarrow> lsift cmp xs r n ! i = xs ! i)"
proof (induction cmp xs r n rule: lsift.induct)
  case (1 cmp xs r n)
  let ?c = "2 * r + 1"
  let ?c' = "if ?c + 1 < n \<and> cmp (xs ! ?c) (xs ! (?c + 1)) < 0 then ?c + 1 else ?c"
  show ?case
  proof (cases "?c \<ge> n \<or> cmp (xs ! r) (xs ! ?c') \<ge> 0")
    case True
    then have "lsift cmp xs r n = xs"
      by (subst lsift.simps) (auto simp: Let_def)
    then show ?thesis by simp
  next
    case False
    then have eq: "lsift cmp xs r n = lsift cmp (lswap xs r ?c') ?c' n"
      by (subst lsift.simps) (auto simp: Let_def)
    have lt: "r < length xs" "?c' < length xs" "r < n" "?c' < n"
      using False "1.prems" by (auto split: if_splits)
    have "length (lsift cmp (lswap xs r ?c') ?c' n) = length (lswap xs r ?c')
      \<and> mset (lsift cmp (lswap xs r ?c') ?c' n) = mset (lswap xs r ?c')
      \<and> (\<forall>i. n \<le> i \<longrightarrow> lsift cmp (lswap xs r ?c') ?c' n ! i = lswap xs r ?c' ! i)"
      using False "1.prems" by (intro "1.IH" [OF refl _ refl]) auto
    moreover have "lswap xs r ?c' ! i = xs ! i" if "n \<le> i" for i
      using that lt by (simp add: lswap_def)
    ultimately show ?thesis
      using lt by (simp add: eq mset_lswap)
  qed
qed

text \<open>A preorder given as a C comparator: total and transitive in its answers.\<close>

locale comparator =
  fixes cmp :: "'a \<Rightarrow> 'a \<Rightarrow> int"
  assumes cmp_total: "cmp a b < 0 \<Longrightarrow> cmp b a \<ge> 0"
    and cmp_trans: "cmp a b \<ge> 0 \<Longrightarrow> cmp b c \<ge> 0 \<Longrightarrow> cmp a c \<ge> 0"
begin

text \<open>\<open>heap k n xs\<close>: every parent from \<open>k\<close> on is no smaller than its children below
  \<open>n\<close>.  \<open>hole k r n xs\<close>: the same except at \<open>r\<close>, whose parent bounds its children.\<close>

definition child :: "nat \<Rightarrow> nat \<Rightarrow> bool" where
  "child i j \<longleftrightarrow> j = 2 * i + 1 \<or> j = 2 * i + 2"

definition heap :: "nat \<Rightarrow> nat \<Rightarrow> 'a list \<Rightarrow> bool" where
  "heap k n xs \<longleftrightarrow> (\<forall>i j. k \<le> i \<longrightarrow> child i j \<longrightarrow> j < n \<longrightarrow> cmp (xs ! i) (xs ! j) \<ge> 0)"

definition hole :: "nat \<Rightarrow> nat \<Rightarrow> nat \<Rightarrow> 'a list \<Rightarrow> bool" where
  "hole k r n xs \<longleftrightarrow> (\<forall>i j. k \<le> i \<longrightarrow> i \<noteq> r \<longrightarrow> child i j \<longrightarrow> j < n \<longrightarrow> cmp (xs ! i) (xs ! j) \<ge> 0)
     \<and> (\<forall>i j. k \<le> i \<longrightarrow> child i r \<longrightarrow> child r j \<longrightarrow> j < n \<longrightarrow> cmp (xs ! i) (xs ! j) \<ge> 0)"

lemma cmp_refl: "cmp a a \<ge> 0"
  using cmp_total [of a a] by linarith

text \<open>The larger child, as the code picks it, bounds both.\<close>

lemma larger_child:
  assumes "child r j" "j < n" "c' = (if 2 * r + 2 < n \<and> cmp (xs ! (2 * r + 1)) (xs ! (2 * r + 2)) < 0
             then 2 * r + 2 else 2 * r + 1)"
  shows "cmp (xs ! c') (xs ! j) \<ge> 0"
  using assms cmp_refl cmp_total [of "xs ! (2 * r + 1)" "xs ! (2 * r + 2)"]
  by (auto simp: child_def split: if_splits)

lemma hole_swap:
  assumes h: "hole k r n xs" and n: "n \<le> length xs" and c': "child r c'" "c' < n"
    and big: "\<And>j. child r j \<Longrightarrow> j < n \<Longrightarrow> cmp (xs ! c') (xs ! j) \<ge> 0"
    and lt: "cmp (xs ! r) (xs ! c') < 0" and kr: "k \<le> r"
  shows "hole k c' n (lswap xs r c')"
proof -
  have lts: "r < length xs" "c' < length xs" "r < c'"
    using c' n by (auto simp: child_def)
  note sw = nth_lswap [OF lts(1,2)]
  have up: "cmp (xs ! c') (xs ! r) \<ge> 0"
    by (rule cmp_total [OF lt])
  have "cmp (lswap xs r c' ! i) (lswap xs r c' ! j) \<ge> 0"
    if "k \<le> i" "i \<noteq> c'" "child i j" "j < n" for i j
  proof -
    have jl: "i < length xs" "j < length xs" "i < j"
      using that n by (auto simp: child_def)
    consider "i = r" | "j = r" "i \<noteq> r" | "j = c'" "i \<noteq> r" | "i \<noteq> r" "j \<noteq> r" "j \<noteq> c'" by blast
    then show ?thesis
    proof cases
      case 1
      then show ?thesis using that jl lts up big by (auto simp: sw)
    next
      case 2
      with that h c' have "cmp (xs ! i) (xs ! c') \<ge> 0" by (auto simp: hole_def)
      with 2 that jl lts show ?thesis by (auto simp: sw)
    next
      case 3
      with c'(1) that have "i = r" by (auto simp: child_def)
      with 3 show ?thesis by simp
    next
      case 4
      with that h have "cmp (xs ! i) (xs ! j) \<ge> 0" by (auto simp: hole_def)
      with 4 that jl lts show ?thesis by (auto simp: sw)
    qed
  qed
  moreover have "cmp (lswap xs r c' ! i) (lswap xs r c' ! j) \<ge> 0"
    if "k \<le> i" "child i c'" "child c' j" "j < n" for i j
  proof -
    have "i = r" using c'(1) that by (auto simp: child_def)
    moreover have "cmp (xs ! c') (xs ! j) \<ge> 0"
      using h that kr lts by (auto simp: hole_def)
    ultimately show ?thesis
      using that lts n by (auto simp: sw child_def)
  qed
  ultimately show ?thesis by (auto simp: hole_def)
qed

lemma lsift_heap: "hole k r n xs \<Longrightarrow> n \<le> length xs \<Longrightarrow> k \<le> r \<Longrightarrow> heap k n (lsift cmp xs r n)"
proof (induction "n - r" arbitrary: xs r rule: less_induct)
  case less
  let ?c = "2 * r + 1"
  let ?c' = "if ?c + 1 < n \<and> cmp (xs ! ?c) (xs ! (?c + 1)) < 0 then ?c + 1 else ?c"
  have big: "child r j \<Longrightarrow> j < n \<Longrightarrow> cmp (xs ! ?c') (xs ! j) \<ge> 0" for j
    by (rule larger_child) auto
  show ?case
  proof (cases "?c \<ge> n \<or> cmp (xs ! r) (xs ! ?c') \<ge> 0")
    case True
    then have eq: "lsift cmp xs r n = xs"
      by (subst lsift.simps) (auto simp: Let_def)
    have "cmp (xs ! r) (xs ! j) \<ge> 0" if "child r j" "j < n" for j
      using True that big [OF that] cmp_trans [of "xs ! r" "xs ! ?c'" "xs ! j"] by (auto simp: child_def)
    with less.prems(1) show ?thesis
      by (auto simp: eq heap_def hole_def)
  next
    case False
    then have eq: "lsift cmp xs r n = lsift cmp (lswap xs r ?c') ?c' n"
      by (subst lsift.simps) (auto simp: Let_def)
    have c': "child r ?c'" "?c' < n" "r < ?c'"
      using False by (auto simp: child_def)
    have "hole k ?c' n (lswap xs r ?c')"
      using False by (intro hole_swap less.prems c' big) auto
    with c' less.prems show ?thesis
      unfolding eq by (intro less.hyps) auto
  qed
qed

lemma hole_heap: "heap (Suc k) n xs \<Longrightarrow> hole k k n xs"
  by (auto simp: heap_def hole_def child_def)

lemma lheapify_heap:
  "n \<le> length xs \<Longrightarrow> heap i n xs \<Longrightarrow>
     heap 0 n (lheapify cmp xs i n) \<and> mset (lheapify cmp xs i n) = mset xs
       \<and> length (lheapify cmp xs i n) = length xs"
proof (induction i arbitrary: xs)
  case (Suc i)
  from Suc.prems have "heap i n (lsift cmp xs i n)"
    by (intro lsift_heap hole_heap) auto
  with Suc lsift_perm [OF Suc.prems(1), of cmp i] show ?case by auto
qed simp

lemma heap_root: "heap 0 n xs \<Longrightarrow> i < n \<Longrightarrow> cmp (xs ! 0) (xs ! i) \<ge> 0"
proof (induction i rule: less_induct)
  case (less i)
  show ?case
  proof (cases i)
    case 0
    then show ?thesis by (simp add: cmp_refl)
  next
    case (Suc j)
    let ?p = "j div 2"
    have "child ?p i" "?p < i"
      using Suc by (auto simp: child_def)
    with less have "cmp (xs ! 0) (xs ! ?p) \<ge> 0" "cmp (xs ! ?p) (xs ! i) \<ge> 0"
      by (auto simp: heap_def)
    then show ?thesis by (rule cmp_trans)
  qed
qed

definition ordered :: "'a list \<Rightarrow> bool" where
  "ordered xs \<longleftrightarrow> (\<forall>i j. i \<le> j \<longrightarrow> j < length xs \<longrightarrow> cmp (xs ! j) (xs ! i) \<ge> 0)"

text \<open>What the second loop keeps: the elements from \<open>e\<close> on are in order and no smaller
  than those before, which form a heap.\<close>

definition drained :: "nat \<Rightarrow> 'a list \<Rightarrow> bool" where
  "drained e xs \<longleftrightarrow> heap 0 (Suc e) xs
     \<and> (\<forall>i j. i \<le> j \<longrightarrow> e < j \<longrightarrow> j < length xs \<longrightarrow> cmp (xs ! j) (xs ! i) \<ge> 0)"

lemma lsift_bound:
  assumes "n \<le> length xs" "i < n" "\<And>k. k < n \<Longrightarrow> cmp y (xs ! k) \<ge> 0"
  shows "cmp y (lsift cmp xs r n ! i) \<ge> 0"
proof -
  let ?ys = "lsift cmp xs r n"
  have p: "mset ?ys = mset xs" "length ?ys = length xs" "\<And>i. n \<le> i \<Longrightarrow> ?ys ! i = xs ! i"
    using lsift_perm [OF assms(1)] by auto
  have "drop n ?ys = drop n xs"
    using p by (auto simp: list_eq_iff_nth_eq)
  moreover have "mset (take n ?ys) + mset (drop n ?ys) = mset (take n xs) + mset (drop n xs)"
    using p(1) by (metis append_take_drop_id mset_append)
  ultimately have "mset (take n ?ys) = mset (take n xs)" by simp
  then have "set (take n ?ys) = set (take n xs)" by (metis set_mset_mset)
  moreover have "?ys ! i \<in> set (take n ?ys)"
    using assms p(2) by (auto simp: in_set_conv_nth)
  ultimately obtain k where "k < n" "?ys ! i = xs ! k"
    using assms(1) by (auto simp: in_set_conv_nth)
  then show ?thesis using assms(3) by simp
qed

lemma drained_step:
  assumes d: "drained (Suc e) xs" and len: "Suc e < length xs"
  defines "ys \<equiv> lswap xs 0 (Suc e)"
  shows "drained e (lsift cmp ys 0 (Suc e))"
proof -
  let ?zs = "lsift cmp ys 0 (Suc e)"
  have ys: "length ys = length xs"
    and ysn: "k < length xs \<Longrightarrow> ys ! k = (if k = Suc e then xs ! 0 else if k = 0 then xs ! Suc e else xs ! k)" for k
    using len nth_lswap [of 0 xs "Suc e" k] by (cases xs; auto simp: ys_def)+
  have perm: "length ?zs = length ys" "\<And>i. Suc e \<le> i \<Longrightarrow> ?zs ! i = ys ! i"
    using lsift_perm [of "Suc e" ys cmp 0] len ys by auto
  have "hole 0 0 (Suc e) ys"
    using d len by (auto simp: hole_def drained_def heap_def child_def ysn)
  then have "heap 0 (Suc e) ?zs"
    using len ys by (intro lsift_heap) auto
  moreover have "cmp (?zs ! j) (?zs ! i) \<ge> 0" if ij: "i \<le> j" "e < j" "j < length xs" for i j
  proof -
    have low: "cmp (ys ! j) (ys ! k) \<ge> 0" if k: "k < Suc e" for k
    proof (cases "j = Suc e")
      case True
      then have "ys ! j = xs ! 0" "ys ! k = xs ! (if k = 0 then Suc e else k)"
        using len k by (auto simp: ysn)
      with d k show ?thesis
        using heap_root [of "Suc (Suc e)" xs "if k = 0 then Suc e else k"] by (auto simp: drained_def)
    next
      case False
      then have "ys ! j = xs ! j" "ys ! k = xs ! (if k = 0 then Suc e else k)"
        using ij k len by (auto simp: ysn)
      with d k ij False show ?thesis by (auto simp: drained_def)
    qed
    show ?thesis
    proof (cases "i < Suc e")
      case True
      then have "cmp (ys ! j) (?zs ! i) \<ge> 0"
        using low len ys by (intro lsift_bound) auto
      then show ?thesis using ij perm by simp
    next
      case False
      then have "?zs ! i = ys ! i" "?zs ! j = ys ! j"
        using ij perm by auto
      moreover have "cmp (ys ! j) (ys ! i) \<ge> 0"
        using d ij False len by (cases "i = Suc e"; cases "j = Suc e") (auto simp: ysn drained_def cmp_refl)
      ultimately show ?thesis by simp
    qed
  qed
  ultimately show ?thesis
    using perm(1) ys by (auto simp: drained_def)
qed

lemma ldrain_ordered:
  "drained e xs \<Longrightarrow> e < length xs \<Longrightarrow> ordered (ldrain cmp xs e) \<and> mset (ldrain cmp xs e) = mset xs"
proof (induction e arbitrary: xs)
  case 0
  then show ?case
    using cmp_refl by (force simp: ordered_def drained_def)
next
  case (Suc e)
  let ?ys = "lswap xs 0 (Suc e)"
  have "length (lsift cmp ?ys 0 (Suc e)) = length xs" "mset (lsift cmp ?ys 0 (Suc e)) = mset xs"
    using lsift_perm [of "Suc e" ?ys cmp 0] mset_lswap [of 0 xs "Suc e"] Suc.prems by (cases xs; auto)+
  with Suc.IH [OF drained_step [OF Suc.prems]] Suc.prems show ?case by simp
qed

lemma lsort_sorts: "ordered (lsort cmp xs) \<and> mset (lsort cmp xs) = mset xs"
proof (cases "length xs < 2")
  case True
  then show ?thesis
    using cmp_refl by (auto simp: lsort_def ordered_def less_Suc_eq numeral_2_eq_2)
next
  case False
  let ?n = "length xs" and ?ys = "lheapify cmp xs (length xs div 2) (length xs)"
  have "heap (?n div 2) ?n xs" by (auto simp: heap_def child_def)
  then have ys: "heap 0 ?n ?ys" "mset ?ys = mset xs" "length ?ys = ?n"
    using lheapify_heap [of ?n xs "?n div 2"] by auto
  then have "drained (?n - 1) ?ys"
    using False by (cases ?n) (auto simp: drained_def)
  then show ?thesis
    using ldrain_ordered [of "?n - 1" ?ys] False ys by (simp add: lsort_def)
qed

end

lemma swap_loop_eq:
  "apart a n b n \<Longrightarrow> swap_loop m a b n = poke (poke m a (peek m b n)) b (peek m a n)"
proof (induction n arbitrary: m a b)
  case (Suc n)
  let ?m = "m(a := m b, b := m a)"
  have ab: "a \<noteq> b" "apart (Suc a) n (Suc b) n"
    using Suc.prems by (auto simp: apart_def)
  have "peek ?m (Suc b) n = peek m (Suc b) n" "peek ?m (Suc a) n = peek m (Suc a) n"
    unfolding peek_eq_iff using Suc.prems by (auto simp: apart_def)
  then have "swap_loop m a b (Suc n) = poke (poke ?m (Suc a) (peek m (Suc b) n)) (Suc b) (peek m (Suc a) n)"
    by (simp only: swap_loop.simps Suc.IH [OF ab(2), of ?m])
  then show ?case
    using Suc.prems by (auto simp: fun_eq_iff poke_def peek_Suc nth_Cons' apart_def)
qed simp

lemma slots_apart: "i \<noteq> j \<Longrightarrow> apart (base + i * sz) sz (base + j * sz) sz" for i j :: nat
  using mult_le_mono1 [of "Suc i" j sz] mult_le_mono1 [of "Suc j" i sz]
  by (cases i j rule: linorder_cases) (auto simp: apart_def)

lemma slot_in: "i < n \<Longrightarrow> i * sz + sz \<le> n * sz" for i n sz :: nat
  using mult_le_mono1 [of "Suc i" n sz] by simp

lemma length_elems [simp]: "length (elems m base sz n) = n"
  by (simp add: elems_def)

lemma elems_nth [simp]: "i < n \<Longrightarrow> elems m base sz n ! i = elem_at m base sz i"
  by (simp add: elems_def)

definition same_outside :: "mem \<Rightarrow> mem \<Rightarrow> addr \<Rightarrow> nat \<Rightarrow> bool" where
  "same_outside m m' a n \<longleftrightarrow> (\<forall>x. x < a \<or> a + n \<le> x \<longrightarrow> m' x = m x)"

lemma swap_elems:
  assumes "i < n" "j < n" "i \<noteq> j"
  shows "elems (swap_bytes m (base + i * sz) (base + j * sz) sz) base sz n = lswap (elems m base sz n) i j"
    and "same_outside m (swap_bytes m (base + i * sz) (base + j * sz) sz) base (n * sz)"
proof -
  let ?a = "base + i * sz" and ?b = "base + j * sz"
  have eq: "swap_bytes m ?a ?b sz = poke (poke m ?a (peek m ?b sz)) ?b (peek m ?a sz)"
    by (simp add: swap_bytes_def swap_loop_eq slots_apart assms)
  show "elems (swap_bytes m ?a ?b sz) base sz n = lswap (elems m base sz n) i j"
  proof (rule nth_equalityI)
    fix k assume "k < length (elems (swap_bytes m ?a ?b sz) base sz n)"
    then show "elems (swap_bytes m ?a ?b sz) base sz n ! k = lswap (elems m base sz n) i j ! k"
      using assms slots_apart [of k i base sz] slots_apart [of k j base sz] slots_apart [of i j base sz]
      by (auto simp: eq nth_lswap elem_at_def mem_simps)
  qed simp
  show "same_outside m (swap_bytes m ?a ?b sz) base (n * sz)"
    using assms slot_in [of i n sz] slot_in [of j n sz]
    by (auto simp: same_outside_def eq poke_def)
qed

lemma same_outside_refl [simp]: "same_outside m m a n"
  by (simp add: same_outside_def)

lemma same_outside_trans: "same_outside m m' a n \<Longrightarrow> same_outside m' m'' a n \<Longrightarrow> same_outside m m'' a n"
  by (simp add: same_outside_def)

lemma sift_down_elems:
  "cnt \<le> n \<Longrightarrow> elems (sift_down cmp m base r cnt sz) base sz n = lsift cmp (elems m base sz n) r cnt
     \<and> same_outside m (sift_down cmp m base r cnt sz) base (n * sz)"
proof (induction "cnt - r" arbitrary: m r rule: less_induct)
  case less
  let ?xs = "elems m base sz n" and ?c = "2 * r + 1"
  show ?case
  proof (cases "?c \<ge> cnt")
    case True
    then show ?thesis by (simp add: sift_down.simps [of cmp m] lsift.simps [of cmp ?xs] Let_def)
  next
    case False
    define c' where "c' = (if ?c + 1 < cnt \<and> cmp (elem_at m base sz ?c) (elem_at m base sz (?c + 1)) < 0
      then ?c + 1 else ?c)"
    have c: "r < c'" "c' < cnt" "r < n" "c' < n"
      and xs: "?xs ! r = elem_at m base sz r" "?xs ! c' = elem_at m base sz c'"
        "?c + 1 < cnt \<Longrightarrow> ?xs ! (?c + 1) = elem_at m base sz (?c + 1)" "?xs ! ?c = elem_at m base sz ?c"
      using False less.prems by (auto simp: c'_def)
    have d: "(if ?c + 1 < cnt \<and> cmp (?xs ! ?c) (?xs ! (?c + 1)) < 0 then ?c + 1 else ?c) = c'"
      using xs by (auto simp: c'_def)
    let ?m = "swap_bytes m (base + r * sz) (base + c' * sz) sz"
    have *: "sift_down cmp m base r cnt sz =
          (if cmp (elem_at m base sz r) (elem_at m base sz c') \<ge> 0 then m else sift_down cmp ?m base c' cnt sz)"
      "lsift cmp ?xs r cnt =
         (if cmp (?xs ! r) (?xs ! c') \<ge> 0 then ?xs else lsift cmp (lswap ?xs r c') c' cnt)"
      using False
      by (simp_all only: sift_down.simps [of cmp m base r] lsift.simps [of cmp ?xs r] Let_def c'_def [symmetric] d if_False)
    have "elems ?m base sz n = lswap ?xs r c'" "same_outside m ?m base (n * sz)"
      using swap_elems [of r n c' m base sz] c by auto
    then show ?thesis
      using less.hyps [of c' ?m] c less.prems unfolding * xs
      by (auto intro: same_outside_trans)
  qed
qed

lemma qsort_heapify_elems:
  "cnt \<le> n \<Longrightarrow> elems (qsort_heapify cmp m base i cnt sz) base sz n = lheapify cmp (elems m base sz n) i cnt
     \<and> same_outside m (qsort_heapify cmp m base i cnt sz) base (n * sz)"
proof (induction i arbitrary: m)
  case (Suc i)
  with sift_down_elems [of cnt n cmp m base i sz] show ?case
    by (auto intro: same_outside_trans)
qed simp

lemma qsort_drain_elems:
  "e < n \<Longrightarrow> elems (qsort_drain cmp m base e sz) base sz n = ldrain cmp (elems m base sz n) e
     \<and> same_outside m (qsort_drain cmp m base e sz) base (n * sz)"
proof (induction e arbitrary: m)
  case (Suc e)
  let ?m = "swap_bytes m base (base + Suc e * sz) sz"
  have "elems ?m base sz n = lswap (elems m base sz n) 0 (Suc e)" "same_outside m ?m base (n * sz)"
    using swap_elems [of 0 n "Suc e" m base sz] Suc.prems by auto
  with sift_down_elems [of "Suc e" n cmp ?m base 0 sz] Suc show ?case
    by (auto intro: same_outside_trans)
qed simp

lemma qsort_elems:
  "elems (qsort cmp m base n sz) base sz n = lsort cmp (elems m base sz n)
     \<and> same_outside m (qsort cmp m base n sz) base (n * sz)"
proof (cases "n < 2")
  case False
  then show ?thesis
    using qsort_heapify_elems [of n n cmp m base "n div 2" sz]
      qsort_drain_elems [of "n - 1" n cmp "qsort_heapify cmp m base (n div 2) n sz" base sz]
    by (auto simp: qsort_def lsort_def intro: same_outside_trans)
qed (simp add: qsort_def lsort_def)

lemma lsift_set: "n \<le> length xs \<Longrightarrow> set (lsift cmp xs r n) = set xs \<and> length (lsift cmp xs r n) = length xs"
  by (metis lsift_perm set_mset_mset)

lemma lsift_cong:
  "n \<le> length xs \<Longrightarrow> (\<And>x y. x \<in> set xs \<Longrightarrow> y \<in> set xs \<Longrightarrow> cmp x y = cmp' x y) \<Longrightarrow>
     lsift cmp xs r n = lsift cmp' xs r n"
proof (induction "n - r" arbitrary: xs r rule: less_induct)
  case less
  let ?c = "2 * r + 1"
  show ?case
  proof (cases "?c \<ge> n")
    case True
    then show ?thesis by (simp add: lsift.simps [of _ xs] Let_def)
  next
    case False
    define c' where "c' = (if ?c + 1 < n \<and> cmp (xs ! ?c) (xs ! (?c + 1)) < 0 then ?c + 1 else ?c)"
    have c: "r < c'" "c' < n" "r < n" using False by (auto simp: c'_def)
    have d: "(if ?c + 1 < n \<and> cmp' (xs ! ?c) (xs ! (?c + 1)) < 0 then ?c + 1 else ?c) = c'"
      and e: "cmp' (xs ! r) (xs ! c') = cmp (xs ! r) (xs ! c')"
      using less.prems c False by (auto simp: c'_def)
    have "set (lswap xs r c') = set xs"
      using mset_lswap [of r xs c'] c less.prems(1) by (metis less_le_trans set_mset_mset)
    then have "lsift cmp (lswap xs r c') c' n = lsift cmp' (lswap xs r c') c' n"
      using c less.prems by (intro less.hyps) auto
    then show ?thesis
      by (simp only: lsift.simps [of _ xs] Let_def d c'_def [symmetric] e)
  qed
qed

lemma lheapify_cong:
  "n \<le> length xs \<Longrightarrow> (\<And>x y. x \<in> set xs \<Longrightarrow> y \<in> set xs \<Longrightarrow> cmp x y = cmp' x y) \<Longrightarrow>
     lheapify cmp xs i n = lheapify cmp' xs i n \<and> set (lheapify cmp xs i n) = set xs
     \<and> length (lheapify cmp xs i n) = length xs"
proof (induction i arbitrary: xs)
  case (Suc i)
  have eq: "lsift cmp' xs i n = lsift cmp xs i n"
    by (rule lsift_cong [symmetric]) (use Suc.prems in auto)
  show ?case
    unfolding lheapify.simps eq
    using Suc.IH [of "lsift cmp xs i n"] Suc.prems lsift_set [of n xs cmp i] by auto
qed simp

lemma ldrain_cong:
  "e < length xs \<Longrightarrow> (\<And>x y. x \<in> set xs \<Longrightarrow> y \<in> set xs \<Longrightarrow> cmp x y = cmp' x y) \<Longrightarrow>
     ldrain cmp xs e = ldrain cmp' xs e"
proof (induction e arbitrary: xs)
  case (Suc e)
  let ?ys = "lswap xs 0 (Suc e)"
  have ys: "set ?ys = set xs" "length ?ys = length xs"
    using mset_lswap [of 0 xs "Suc e"] Suc.prems(1)
    by (metis less_trans set_mset_mset zero_less_Suc) simp
  have eq: "lsift cmp' ?ys 0 (Suc e) = lsift cmp ?ys 0 (Suc e)"
    by (rule lsift_cong [symmetric]) (use Suc.prems ys in auto)
  show ?case
    unfolding ldrain.simps eq
    using Suc.IH [of "lsift cmp ?ys 0 (Suc e)"] Suc.prems ys lsift_set [of "Suc e" ?ys cmp 0] by auto
qed simp

lemma lsort_cong:
  "(\<And>x y. x \<in> set xs \<Longrightarrow> y \<in> set xs \<Longrightarrow> cmp x y = cmp' x y) \<Longrightarrow> lsort cmp xs = lsort cmp' xs"
  using lheapify_cong [of "length xs" xs cmp cmp' "length xs div 2"]
    ldrain_cong [of "length xs - 1" "lheapify cmp xs (length xs div 2) (length xs)" cmp cmp']
  by (auto simp: lsort_def)

text \<open>The string a pointer element names, and the order \<open>compare_names\<close> gives to
  pointers to strings.\<close>

definition string_at :: "mem \<Rightarrow> addr \<Rightarrow> byte list" where
  "string_at m a = takeWhile (\<lambda>x. x \<noteq> 0) (peek m a (ADDR_END - a))"

definition name_order :: "mem \<Rightarrow> byte list \<Rightarrow> byte list \<Rightarrow> int" where
  "name_order m x y = byte_cmp (string_at m (le_nat x)) (string_at m (le_nat y))"

lemma byte_cmp_pos: "0 \<notin> set t \<Longrightarrow> byte_cmp [] t \<ge> 0 \<longleftrightarrow> t = []"
  by (cases t) (auto simp: uint_0_iff)

lemma byte_cmp_total: "byte_cmp s t < 0 \<Longrightarrow> byte_cmp t s \<ge> 0"
  by (induction s t rule: byte_cmp.induct) auto

lemma byte_cmp_trans:
  "0 \<notin> set s \<Longrightarrow> 0 \<notin> set t \<Longrightarrow> 0 \<notin> set u \<Longrightarrow> byte_cmp s t \<ge> 0 \<Longrightarrow> byte_cmp t u \<ge> 0 \<Longrightarrow> byte_cmp s u \<ge> 0"
proof (induction s t arbitrary: u rule: byte_cmp.induct)
  case (4 x xs y ys)
  then show ?case
    by (cases u) (auto split: if_splits simp flip: word_le_def)
qed (auto simp: byte_cmp_pos uint_0_iff)

lemma string_at_no_0: "0 \<notin> set (string_at m a)"
  by (auto simp: string_at_def dest: set_takeWhileD)

interpretation names: comparator "name_order m" for m
  by unfold_locales
    (auto simp: name_order_def intro: byte_cmp_total byte_cmp_trans [OF string_at_no_0 string_at_no_0 string_at_no_0])

subsection \<open>Sorting an array\<close>

text \<open>C3. For every comparator that is a total preorder, \<open>qsort\<close> permutes the array into
  ascending order and changes no byte outside it.\<close>

theorem qsort_sorts:
  assumes "\<And>a b. cmp a b < 0 \<Longrightarrow> cmp b a \<ge> 0"
    and "\<And>a b c. cmp a b \<ge> 0 \<Longrightarrow> cmp b c \<ge> 0 \<Longrightarrow> cmp a c \<ge> 0"
  shows "let m' = qsort cmp m base n sz in
     mset (elems m' base sz n) = mset (elems m base sz n)
     \<and> (\<forall>i j. i \<le> j \<longrightarrow> j < n \<longrightarrow> cmp (elem_at m' base sz j) (elem_at m' base sz i) \<ge> 0)
     \<and> (\<forall>x. x < base \<or> base + n * sz \<le> x \<longrightarrow> m' x = m x)"
proof -
  let ?m = "qsort cmp m base n sz"
  have c: "comparator cmp"
    by (rule comparator.intro) (fact assms)+
  have q: "elems ?m base sz n = lsort cmp (elems m base sz n)" "same_outside m ?m base (n * sz)"
    using qsort_elems by auto
  have s: "comparator.ordered cmp (elems ?m base sz n)" "mset (elems ?m base sz n) = mset (elems m base sz n)"
    using comparator.lsort_sorts [OF c] by (auto simp: q(1))
  have "cmp (elem_at ?m base sz j) (elem_at ?m base sz i) \<ge> 0" if "i \<le> j" "j < n" for i j
    using s(1) that by (auto simp: comparator.ordered_def [OF c])
  with s(2) q(2) show ?thesis
    by (auto simp: same_outside_def Let_def)
qed

text \<open>Three one-byte elements, sorted by their byte.\<close>

theorem qsort_sorts_witness:
  "(let cmp = (\<lambda>a b. int (le_nat a) - int (le_nat b)); m = poke (\<lambda>_. 0) 100 [3, 1, 2];
        m' = qsort cmp m 100 3 1
    in elems m' 100 1 3 = [[1], [2], [3]] \<and> mset (elems m' 100 1 3) = mset (elems m 100 1 3)
       \<and> cmp (elem_at m' 100 1 2) (elem_at m' 100 1 0) \<ge> 0 \<and> m' 103 = m 103)"
proof -
  let ?cmp = "\<lambda>a b. int (le_nat a) - int (le_nat b)" and ?m = "poke (\<lambda>_. 0) 100 [3, 1, 2]"
  have "elems (qsort ?cmp ?m 100 3 1) 100 1 3 = [[1], [2], [3]]"
    by code_simp
  moreover have "let m' = qsort ?cmp ?m 100 3 1 in
     mset (elems m' 100 1 3) = mset (elems ?m 100 1 3)
     \<and> (\<forall>i j. i \<le> j \<longrightarrow> j < 3 \<longrightarrow> ?cmp (elem_at m' 100 1 j) (elem_at m' 100 1 i) \<ge> 0)
     \<and> (\<forall>x. x < 100 \<or> 100 + 3 * 1 \<le> x \<longrightarrow> m' x = ?m x)"
    by (rule qsort_sorts) auto
  ultimately show ?thesis
    unfolding Let_def by auto
qed

end
