(* ===== verification/Heap.thy ===== *)
theory Heap
  imports Prelude
begin

text \<open>
  The process heap: the byte memory, the C library's \<open>malloc\<close>, \<open>realloc\<close> and \<open>free\<close>, and
  the allocator seam of \<open>runtime/prismio_runtime.h\<close> (\<open>rt_base_alloc\<close>, \<open>rt_base_realloc\<close>,
  \<open>rt_free\<close>) that every other part of the runtime allocates through.

  The C library is not part of the sources.  Its placement decisions are two fields of the heap
  that nothing updates, and \<open>libc_ok\<close> states what the C standard promises of them.  The seam has
  four implementations, one per build configuration (the slab, the Windows recycler, the plain C
  library, the \<open>--verify\<close> ledger), so it is a record of functions (the fourth is what an exiting worker thread gives back); \<open>seam_spec\<close> is its
  contract.  This theory provides the plain one; \<open>Slab\<close>, \<open>Recycler\<close> and \<open>Ledger\<close> the others.
\<close>

subsection \<open>Definitions\<close>

text \<open>\<open>live\<close> has the C library's live blocks with their usable sizes.  \<open>pick\<close> answers where a new
  block of the given size goes and how large it really is, \<open>repick\<close> where a resized one goes;
  address 0 is a refusal.  \<open>self\<close> is the running thread, \<open>worker\<close> the thread-local
  \<open>prismio_memory_worker\<close>.\<close>

record heap =
  mem :: mem
  live :: "addr \<Rightarrow> nat option"
  pick :: "(addr \<Rightarrow> nat option) \<Rightarrow> nat \<Rightarrow> addr \<times> nat"
  repick :: "(addr \<Rightarrow> nat option) \<Rightarrow> addr \<Rightarrow> nat \<Rightarrow> addr \<times> nat"
  self :: nat
  worker :: "nat \<Rightarrow> bool"
  threads_enabled :: bool

definition prismio_memory_threads_are_enabled :: "'a heap_scheme \<Rightarrow> bool" where
  "prismio_memory_threads_are_enabled h = threads_enabled h"

definition prismio_memory_threads_enable :: "'a heap_scheme \<Rightarrow> 'a heap_scheme" where
  "prismio_memory_threads_enable h = h\<lparr>threads_enabled := True\<rparr>"

definition prismio_memory_thread_enter :: "'a heap_scheme \<Rightarrow> 'a heap_scheme" where
  "prismio_memory_thread_enter h = h\<lparr>worker := (worker h)(self h := True)\<rparr>"

text \<open>\<open>threads_are_enabled() && prismio_memory_worker\<close>: the test by which the arena, the hint and
  the slab route a thread to its own state.\<close>

definition on_worker :: "'a heap_scheme \<Rightarrow> bool" where
  "on_worker h \<longleftrightarrow> prismio_memory_threads_are_enabled h \<and> worker h (self h)"

definition malloc :: "nat \<Rightarrow> 'a heap_scheme \<Rightarrow> addr \<times> 'a heap_scheme" where
  "malloc n h =
     (let (p, u) = pick h (live h) n
      in if p = 0 then (0, h) else (p, h\<lparr>live := (live h)(p \<mapsto> u)\<rparr>))"

definition tmp_free :: "addr \<Rightarrow> 'a heap_scheme \<Rightarrow> 'a heap_scheme" where
  "tmp_free p h = (if p = 0 then h else h\<lparr>live := (live h)(p := None)\<rparr>)"

definition usable_size :: "addr \<Rightarrow> 'a heap_scheme \<Rightarrow> nat" where
  "usable_size p h = (case live h p of None \<Rightarrow> 0 | Some u \<Rightarrow> u)"

definition tmp_realloc :: "addr \<Rightarrow> nat \<Rightarrow> 'a heap_scheme \<Rightarrow> addr \<times> 'a heap_scheme" where
  "tmp_realloc p n h =
     (if p = 0 then malloc n h
      else let (q, u) = repick h (live h) p n
           in if q = 0 then (0, h)
              else (q, h\<lparr>mem := poke (mem h) q (peek (mem h) p (min (usable_size p h) u)),
                         live := (live h)(p := None, q \<mapsto> u)\<rparr>))"

record 'a seam =
  seam_alloc :: "nat \<Rightarrow> 'a heap_scheme \<Rightarrow> addr \<times> 'a heap_scheme"
  seam_realloc :: "addr \<Rightarrow> nat \<Rightarrow> 'a heap_scheme \<Rightarrow> addr \<times> 'a heap_scheme"
  seam_free :: "addr \<Rightarrow> 'a heap_scheme \<Rightarrow> 'a heap_scheme"
  seam_flush :: "'a heap_scheme \<Rightarrow> 'a heap_scheme option"

definition plain_rt_base_alloc :: "nat \<Rightarrow> 'a heap_scheme \<Rightarrow> addr \<times> 'a heap_scheme" where
  "plain_rt_base_alloc n h = malloc n h"

definition plain_rt_base_realloc :: "addr \<Rightarrow> nat \<Rightarrow> 'a heap_scheme \<Rightarrow> addr \<times> 'a heap_scheme" where
  "plain_rt_base_realloc p n h = tmp_realloc p n h"

definition plain_rt_free :: "addr \<Rightarrow> 'a heap_scheme \<Rightarrow> 'a heap_scheme" where
  "plain_rt_free p h = tmp_free p h"

definition plain_seam :: "'a seam" where
  "plain_seam = \<lparr>seam_alloc = plain_rt_base_alloc, seam_realloc = plain_rt_base_realloc,
     seam_free = plain_rt_free, seam_flush = Some\<rparr>"

subsection \<open>What the C library promises\<close>

text \<open>A new block is not null, ends below the top of the address space and shares no byte with a
  live one, except with the block that is being resized.\<close>

definition placed :: "(addr \<Rightarrow> nat option) \<Rightarrow> nat \<Rightarrow> addr \<times> nat \<Rightarrow> bool" where
  "placed lv n r \<longleftrightarrow> fst r \<noteq> 0 \<and> fst r mod 16 = 0 \<and> n \<le> snd r \<and> 0 < snd r \<and> fst r + snd r < 2 ^ 64
     \<and> (\<forall>a k. lv a = Some k \<longrightarrow> apart a k (fst r) (snd r))"

definition live_wf :: "(addr \<Rightarrow> nat option) \<Rightarrow> bool" where
  "live_wf lv \<longleftrightarrow> (\<forall>a k. lv a = Some k \<longrightarrow> a \<noteq> 0 \<and> 0 < k \<and> a + k < 2 ^ 64)
     \<and> (\<forall>a k b j. lv a = Some k \<longrightarrow> lv b = Some j \<longrightarrow> a \<noteq> b \<longrightarrow> apart a k b j)"

definition libc_ok :: "'a heap_scheme \<Rightarrow> bool" where
  "libc_ok h \<longleftrightarrow>
     (\<forall>lv n. live_wf lv \<longrightarrow> fst (pick h lv n) \<noteq> 0 \<longrightarrow> placed lv n (pick h lv n))
     \<and> (\<forall>lv p n. live_wf lv \<longrightarrow> p \<in> dom lv \<longrightarrow> fst (repick h lv p n) \<noteq> 0 \<longrightarrow>
          placed (lv(p := None)) n (repick h lv p n))"

subsection \<open>The contract of the seam\<close>

text \<open>The blocks a client holds, each with where it came from (the seam; \<open>malloc\<close> directly, the
  runtime's own \<open>tmp_free\<close> blocks; or an arena, with its stack and slot) and how many bytes it
  asked for.\<close>

datatype origin = Seam | Tmp | Region "nat option" nat

type_synonym owned = "addr \<Rightarrow> (origin \<times> nat) option"

definition fresh_block :: "owned \<Rightarrow> addr \<Rightarrow> nat \<Rightarrow> bool" where
  "fresh_block B p n \<longleftrightarrow> p \<noteq> 0 \<and> p + n < 2 ^ 64 \<and> B p = None \<and> (\<forall>a w k. B a = Some (w, k) \<longrightarrow> apart a k p n)"

definition kept :: "owned \<Rightarrow> 'a heap_scheme \<Rightarrow> 'a heap_scheme \<Rightarrow> bool" where
  "kept B h h' \<longleftrightarrow> (\<forall>a w k. B a = Some (w, k) \<longrightarrow> peek (mem h') a k = peek (mem h) a k)"

definition owned_wf :: "owned \<Rightarrow> bool" where
  "owned_wf B \<longleftrightarrow> (\<forall>a w k. B a = Some (w, k) \<longrightarrow> a \<noteq> 0 \<and> a + k < 2 ^ 64)
     \<and> (\<forall>a w k b v j. B a = Some (w, k) \<longrightarrow> B b = Some (v, j) \<longrightarrow> a \<noteq> b \<longrightarrow> apart a k b j)"

locale seam_spec =
  fixes S :: "'a seam" and inv :: "owned \<Rightarrow> 'a heap_scheme \<Rightarrow> bool"
  assumes inv_wf: "inv B h \<Longrightarrow> owned_wf B"
    and alloc_law: "inv B h \<Longrightarrow> n < 2 ^ 64 \<Longrightarrow> seam_alloc S n h = (p, h') \<Longrightarrow>
      kept B h h' \<and> (if p = 0 then inv B h' else fresh_block B p n \<and> inv (B(p \<mapsto> (Seam, n))) h')"
    and realloc_law: "inv B h \<Longrightarrow> B p = Some (Seam, k) \<Longrightarrow> 0 < k \<Longrightarrow> n < 2 ^ 64 \<Longrightarrow>
      seam_realloc S p n h = (q, h') \<Longrightarrow>
      kept (B(p := None)) h h'
      \<and> (if q = 0 then inv B h' \<and> kept B h h'
         else fresh_block (B(p := None)) q n \<and> inv (B(p := None, q \<mapsto> (Seam, n))) h'
           \<and> peek (mem h') q (min k n) = peek (mem h) p (min k n))"
    and realloc_null_law: "inv B h \<Longrightarrow> n < 2 ^ 64 \<Longrightarrow> seam_realloc S 0 n h = (p, h') \<Longrightarrow>
      kept B h h' \<and> (if p = 0 then inv B h' else fresh_block B p n \<and> inv (B(p \<mapsto> (Seam, n))) h')"
    and free_law: "inv B h \<Longrightarrow> B p = Some (Seam, k) \<Longrightarrow>
      inv (B(p := None)) (seam_free S p h) \<and> kept (B(p := None)) h (seam_free S p h)"
    and free_null: "seam_free S 0 h = h"
    and malloc_law: "inv B h \<Longrightarrow> malloc n h = (p, h') \<Longrightarrow>
      kept B h h' \<and> (if p = 0 then inv B h' else fresh_block B p n \<and> inv (B(p \<mapsto> (Tmp, n))) h')"
    and tmp_free_law: "inv B h \<Longrightarrow> B p = Some (Tmp, k) \<Longrightarrow>
      inv (B(p := None)) (tmp_free p h) \<and> kept (B(p := None)) h (tmp_free p h)"
    and tmp_realloc_law: "inv B h \<Longrightarrow> B p = Some (Tmp, k) \<Longrightarrow> tmp_realloc p n h = (q, h') \<Longrightarrow>
      kept (B(p := None)) h h'
      \<and> (if q = 0 then inv B h' \<and> kept B h h'
         else fresh_block (B(p := None)) q n \<and> inv (B(p := None, q \<mapsto> (Tmp, n))) h'
           \<and> peek (mem h') q (min k n) = peek (mem h) p (min k n))"
    and write_law: "inv B h \<Longrightarrow> B p = Some (w, k) \<Longrightarrow> p \<le> q \<Longrightarrow> q + length bs \<le> p + k \<Longrightarrow>
      inv B (h\<lparr>mem := poke (mem h) q bs\<rparr>)"
    and flush_law: "inv B h \<Longrightarrow> \<exists>h'. seam_flush S h = Some h' \<and> inv B h' \<and> kept B h h'"

subsection \<open>The plain C library as the seam\<close>

text \<open>\<open>plain_core\<close>: what a client holds is live.  \<open>plain_inv\<close> adds the converse, that nothing else is
  live, so a block that is given up must really have been freed.\<close>

definition plain_core :: "owned \<Rightarrow> 'a heap_scheme \<Rightarrow> bool" where
  "plain_core B h \<longleftrightarrow> libc_ok h \<and> live_wf (live h)
     \<and> (\<forall>a w k. B a = Some (w, k) \<longrightarrow> (\<exists>u. live h a = Some u \<and> k \<le> u))"

definition plain_inv :: "owned \<Rightarrow> 'a heap_scheme \<Rightarrow> bool" where
  "plain_inv B h \<longleftrightarrow> plain_core B h \<and> (\<forall>a. live h a \<noteq> None \<longrightarrow> B a \<noteq> None)"

lemma fresh_block_shrink:
  assumes "fresh_block B p k" "n \<le> k"
  shows "fresh_block B p n"
proof -
  have "apart a j p n" if "B a = Some (w, j)" for a w j
  proof -
    have "apart a j p k" using assms(1) that by (simp add: fresh_block_def)
    then show ?thesis using assms(2) by (auto elim: apart_sub)
  qed
  then show ?thesis using assms by (auto simp: fresh_block_def)
qed

lemma kept_refl [simp]: "kept B h h"
  by (simp add: kept_def)

lemma kept_mem: "mem h' = mem h \<Longrightarrow> kept B h h'"
  by (simp add: kept_def)

lemma kept_trans: "kept B h h' \<Longrightarrow> kept B h' h'' \<Longrightarrow> kept B h h''"
  by (simp add: kept_def)

lemma plain_coreD:
  assumes "plain_core B h"
  shows "libc_ok h" "live_wf (live h)" "B a = Some (w, k) \<Longrightarrow> \<exists>u. live h a = Some u \<and> k \<le> u"
  using assms unfolding plain_core_def by blast+

lemma live_wfD:
  assumes "live_wf lv"
  shows "lv a = Some k \<Longrightarrow> a \<noteq> 0 \<and> 0 < k \<and> a + k < 2 ^ 64"
    and "lv a = Some k \<Longrightarrow> lv b = Some j \<Longrightarrow> a \<noteq> b \<Longrightarrow> apart a k b j"
  using assms unfolding live_wf_def by blast+

lemma plain_coreI:
  assumes "libc_ok h" "live_wf (live h)" "\<And>a w k. B a = Some (w, k) \<Longrightarrow> \<exists>u. live h a = Some u \<and> k \<le> u"
  shows "plain_core B h"
  unfolding plain_core_def using assms by blast

lemma live_wf_fresh: "live_wf lv \<Longrightarrow> placed lv n (p, u) \<Longrightarrow> live_wf (lv(p \<mapsto> u))"
  unfolding live_wf_def placed_def by (auto simp: apart_sym split: if_splits)

lemma live_wf_drop: "live_wf lv \<Longrightarrow> live_wf (lv(p := None))"
  unfolding live_wf_def by (auto split: if_splits)

lemma placed_not_live: "live_wf lv \<Longrightarrow> placed lv n (p, u) \<Longrightarrow> lv p = None"
proof (rule ccontr)
  assume "live_wf lv" "placed lv n (p, u)" "lv p \<noteq> None"
  then obtain k where "lv p = Some k" "0 < k" "0 < u" "apart p k p u"
    unfolding live_wf_def placed_def by auto
  then show False by (auto simp: apart_def)
qed

lemma fresh_from_placed:
  assumes "placed lv n (p, u)" "live_wf lv" "\<And>a w k. B a = Some (w, k) \<Longrightarrow> \<exists>u. lv a = Some u \<and> k \<le> u"
  shows "fresh_block B p n"
proof -
  have "B p = None"
    using placed_not_live [OF assms(2,1)] assms(3) [of p] by (cases "B p") force+
  moreover have "apart a k p n" if ba: "B a = Some (w, k)" for a w k
  proof -
    obtain v where "lv a = Some v" "k \<le> v" using assms(3) [OF ba] by blast
    with assms(1) have "apart a v p u" "n \<le> u" by (auto simp: placed_def)
    with \<open>k \<le> v\<close> show ?thesis by (auto elim: apart_sub)
  qed
  ultimately show ?thesis using assms(1) by (auto simp: fresh_block_def placed_def)
qed

lemma libc_ok_cong: "pick h' = pick h \<Longrightarrow> repick h' = repick h \<Longrightarrow> libc_ok h' = libc_ok h"
  by (simp add: libc_ok_def)

lemma plain_core_wf: "plain_core B h \<Longrightarrow> owned_wf B"
proof -
  assume I: "plain_core B h"
  have "apart a k b j" if ab: "B a = Some (w, k)" "B b = Some (v, j)" "a \<noteq> b" for a b w v k j
  proof -
    obtain x y where "live h a = Some x" "k \<le> x" "live h b = Some y" "j \<le> y"
      using plain_coreD(3) [OF I ab(1)] plain_coreD(3) [OF I ab(2)] by blast
    with live_wfD(2) [OF plain_coreD(2) [OF I] _ _ ab(3)] have "apart a x b y" by blast
    with \<open>k \<le> x\<close> \<open>j \<le> y\<close> show ?thesis by (auto elim: apart_sub)
  qed
  moreover have "a \<noteq> 0 \<and> a + k < 2 ^ 64" if ba: "B a = Some (w, k)" for a w k
  proof -
    obtain x where "live h a = Some x" "k \<le> x"
      using plain_coreD(3) [OF I ba] by blast
    then show ?thesis using live_wfD(1) [OF plain_coreD(2) [OF I], of a x] by linarith
  qed
  ultimately show ?thesis unfolding owned_wf_def by blast
qed

lemma libc_okD:
  assumes "libc_ok h" "live_wf lv"
  shows "fst (pick h lv n) \<noteq> 0 \<Longrightarrow> placed lv n (pick h lv n)"
    and "p \<in> dom lv \<Longrightarrow> fst (repick h lv p n) \<noteq> 0 \<Longrightarrow> placed (lv(p := None)) n (repick h lv p n)"
  using assms unfolding libc_ok_def by blast+

lemma malloc_cases:
  assumes "libc_ok h" "live_wf (live h)" "malloc n h = (p, h')"
  obtains "p = 0" "h' = h"
    | u where "p \<noteq> 0" "placed (live h) n (p, u)" "h' = h\<lparr>live := (live h)(p \<mapsto> u)\<rparr>"
proof (cases "pick h (live h) n")
  case (Pair q u)
  show thesis
  proof (cases "q = 0")
    case True
    with Pair assms(3) have "p = 0" "h' = h" by (auto simp: malloc_def)
    then show thesis by (rule that(1))
  next
    case False
    with Pair assms(3) have "p = q" "p \<noteq> 0" "h' = h\<lparr>live := (live h)(p \<mapsto> u)\<rparr>" by (auto simp: malloc_def)
    moreover have "placed (live h) n (q, u)"
      using libc_okD(1) [OF assms(1,2), of n] False Pair by simp
    ultimately show thesis by (intro that(2)) auto
  qed
qed

lemma malloc_mem: "malloc n h = (p, h') \<Longrightarrow> mem h' = mem h"
  by (auto simp: malloc_def split: prod.splits if_splits)

lemma plain_malloc:
  assumes I: "plain_core B h" and m: "malloc n h = (p, h')"
  shows "kept B h h' \<and> (if p = 0 then plain_core B h' else fresh_block B p n \<and> plain_core (B(p \<mapsto> (w, n))) h')"
proof -
  have "libc_ok h" "live_wf (live h)" using I by (auto simp: plain_core_def)
  from malloc_cases [OF this m] show ?thesis
  proof cases
    case 1
    then show ?thesis using I by (simp add: kept_def)
  next
    case (2 u)
    have pi: "\<And>a w k. B a = Some (w, k) \<Longrightarrow> \<exists>u. live h a = Some u \<and> k \<le> u" "live_wf (live h)"
      using plain_coreD [OF I] by blast+
    have "fresh_block B p n"
      using 2(2) pi(2,1) by (rule fresh_from_placed)
    moreover have "live h p = None" "n \<le> u"
      using 2 pi(2) placed_not_live [of "live h" n p u] by (auto simp: placed_def)
    ultimately show ?thesis
      using 2 pi live_wf_fresh [of "live h" n p u] plain_coreD(1) [OF I] libc_ok_cong [of h' h]
      by (auto simp: kept_def intro!: plain_coreI split: if_splits)
  qed
qed

lemma plain_tmp_free:
  "plain_core B h \<Longrightarrow> B p = Some (w, k) \<Longrightarrow>
     plain_core (B(p := None)) (tmp_free p h) \<and> kept (B(p := None)) h (tmp_free p h)"
  using libc_ok_cong [of "h\<lparr>live := (live h)(p := None)\<rparr>" h] live_wf_drop [of "live h" p]
    plain_coreD [of B h] live_wfD(1) [of "live h" 0]
  by (auto simp: tmp_free_def kept_def intro!: plain_coreI split: if_splits)

lemma plain_write: "plain_core B h \<Longrightarrow> plain_core B (h\<lparr>mem := m\<rparr>)"
  using libc_ok_cong [of "h\<lparr>mem := m\<rparr>" h] by (simp add: plain_core_def)

lemma plain_realloc:
  assumes I: "plain_core B h" and p: "B p = Some (w, k)" and r: "tmp_realloc p n h = (q, h')"
  shows "kept (B(p := None)) h h'
    \<and> (if q = 0 then h' = h
       else fresh_block (B(p := None)) q n \<and> plain_core (B(p := None, q \<mapsto> (w, n))) h'
         \<and> peek (mem h') q (min k n) = peek (mem h) p (min k n))"
proof -
  obtain x where x: "live h p = Some x" "k \<le> x" using plain_coreD(3) [OF I p] by blast
  have wf: "live_wf (live h)" "libc_ok h" "p \<noteq> 0"
    using plain_coreD(1,2) [OF I] live_wfD(1) [of "live h" p x] x by auto
  obtain q' u where rp: "repick h (live h) p n = (q', u)" by (cases "repick h (live h) p n")
  show ?thesis
  proof (cases "q' = 0")
    case True
    then show ?thesis using r rp wf by (simp add: tmp_realloc_def kept_def)
  next
    case False
    let ?lv = "(live h)(p := None)" and ?B = "B(p := None)"
    have q: "q = q'" and h': "h' = h\<lparr>mem := poke (mem h) q (peek (mem h) p (min x u)), live := ?lv(q \<mapsto> u)\<rparr>"
      using False r rp wf x by (auto simp: tmp_realloc_def usable_size_def)
    have pl: "placed ?lv n (q, u)"
      using libc_okD(2) [OF wf(2,1), of p n] False rp x(1) q by auto
    have lv: "live_wf ?lv" by (rule live_wf_drop [OF wf(1)])
    have B: "\<exists>u. ?lv a = Some u \<and> k \<le> u" if "?B a = Some (w, k)" for a w k
      using plain_coreD(3) [OF I] that by (auto split: if_splits)
    have fr: "fresh_block ?B q n"
      by (rule fresh_from_placed [OF pl lv B])
    have "kept ?B h h'"
      unfolding kept_def
    proof (intro allI impI)
      fix a w k assume a: "?B a = Some (w, k)"
      obtain v where "?lv a = Some v" "k \<le> v" using B [OF a] by blast
      with pl have "apart a v q u" by (auto simp: placed_def)
      with \<open>k \<le> v\<close> have "apart a k q (length (peek (mem h) p (min x u)))"
        by (auto elim: apart_sub)
      then show "peek (mem h') a k = peek (mem h) a k"
        by (simp add: h' peek_poke_apart)
    qed
    moreover have "n \<le> u" using pl by (simp add: placed_def)
    moreover have "plain_core (?B(q \<mapsto> (w, n))) h'"
      using wf live_wf_fresh [OF lv pl] \<open>n \<le> u\<close> plain_coreD(3) [OF I] placed_not_live [OF lv pl] libc_ok_cong [of h' h]
      unfolding h' by (intro plain_coreI) (auto split: if_splits)
    moreover have "peek (mem h') q (min k n) = peek (mem h) p (min k n)"
      unfolding peek_eq_iff h' using x(2) \<open>n \<le> u\<close> by (auto simp: poke_def)
    ultimately show ?thesis using fr False q by simp
  qed
qed

lemma plain_invI:
  assumes "libc_ok h" "live_wf (live h)" "\<And>a w k. B a = Some (w, k) \<Longrightarrow> \<exists>u. live h a = Some u \<and> k \<le> u"
    and "\<And>a u. live h a = Some u \<Longrightarrow> \<exists>x. B a = Some x"
  shows "plain_inv B h"
  unfolding plain_inv_def using plain_coreI [OF assms(1,2)] assms(3,4) by blast

text \<open>The live blocks are exactly those held.\<close>

lemma plain_inv_live: "plain_inv B h \<Longrightarrow> live h a = None \<longleftrightarrow> B a = None"
  unfolding plain_inv_def using plain_coreD(3) [of B h a] by (cases "B a") auto

lemma malloc_exact:
  assumes I: "plain_inv B h" and m: "malloc n h = (p, h')"
  shows "kept B h h' \<and> (if p = 0 then plain_inv B h' else fresh_block B p n \<and> plain_inv (B(p \<mapsto> (w, n))) h')"
proof -
  have c: "plain_core B h" using I by (simp add: plain_inv_def)
  have "live h' = live h \<or> (p \<noteq> 0 \<and> (\<exists>u. live h' = (live h)(p \<mapsto> u)))"
    using m by (auto simp: malloc_def split: prod.splits if_splits)
  moreover have "live h' = live h" if "p = 0"
    using m that by (auto simp: malloc_def split: prod.splits if_splits)
  ultimately show ?thesis
    using plain_malloc [OF c m, of w] I by (auto simp: plain_inv_def)
qed

lemma tmp_free_exact:
  assumes "plain_inv B h" "B p = Some (w, k)"
  shows "plain_inv (B(p := None)) (tmp_free p h) \<and> kept (B(p := None)) h (tmp_free p h)"
proof -
  have c: "plain_core B h" using assms(1) by (simp add: plain_inv_def)
  have "p \<noteq> 0" using plain_core_wf [OF c] assms(2) unfolding owned_wf_def by blast
  then have "live (tmp_free p h) = (live h)(p := None)" by (simp add: tmp_free_def)
  then show ?thesis using plain_tmp_free [OF c assms(2)] assms(1) by (auto simp: plain_inv_def)
qed

lemma realloc_exact:
  assumes I: "plain_inv B h" and p: "B p = Some (w, k)" and r: "tmp_realloc p n h = (q, h')"
  shows "kept (B(p := None)) h h'
    \<and> (if q = 0 then plain_inv B h' \<and> kept B h h'
       else fresh_block (B(p := None)) q n \<and> plain_inv (B(p := None, q \<mapsto> (w, n))) h'
         \<and> peek (mem h') q (min k n) = peek (mem h) p (min k n))"
proof -
  have c: "plain_core B h" using I by (simp add: plain_inv_def)
  have "p \<noteq> 0" using plain_core_wf [OF c] p unfolding owned_wf_def by blast
  then have "q \<noteq> 0 \<longrightarrow> (\<exists>u. live h' = (live h)(p := None, q \<mapsto> u))"
    using r by (auto simp: tmp_realloc_def split: prod.splits if_splits)
  then show ?thesis using plain_realloc [OF c p r] I by (auto simp: plain_inv_def kept_def)
qed

interpretation plain: seam_spec "plain_seam :: 'a seam" plain_inv
proof unfold_locales
  fix B and h :: "'a heap_scheme"
  show "plain_inv B h \<Longrightarrow> owned_wf B" by (auto simp: plain_inv_def intro: plain_core_wf)
next
  fix B n p and h h' :: "'a heap_scheme"
  assume "plain_inv B h" "seam_alloc plain_seam n h = (p, h')"
  then show "kept B h h' \<and> (if p = 0 then plain_inv B h' else fresh_block B p n \<and> plain_inv (B(p \<mapsto> (Seam, n))) h')"
    using malloc_exact [of B h n p h' Seam] by (simp add: plain_seam_def plain_rt_base_alloc_def)
next
  fix B p k n q and h h' :: "'a heap_scheme"
  assume "plain_inv B h" "B p = Some (Seam, k)" "seam_realloc plain_seam p n h = (q, h')"
  then show "kept (B(p := None)) h h'
      \<and> (if q = 0 then plain_inv B h' \<and> kept B h h'
         else fresh_block (B(p := None)) q n \<and> plain_inv (B(p := None, q \<mapsto> (Seam, n))) h'
           \<and> peek (mem h') q (min k n) = peek (mem h) p (min k n))"
    using realloc_exact [of B h p Seam k n q h']
    by (auto simp: plain_seam_def plain_rt_base_realloc_def kept_def)
next
  fix B n p and h h' :: "'a heap_scheme"
  assume "plain_inv B h" "seam_realloc plain_seam 0 n h = (p, h')"
  then show "kept B h h' \<and> (if p = 0 then plain_inv B h' else fresh_block B p n \<and> plain_inv (B(p \<mapsto> (Seam, n))) h')"
    using malloc_exact [of B h n p h' Seam] by (simp add: plain_seam_def plain_rt_base_realloc_def tmp_realloc_def)
next
  fix B n p and h h' :: "'a heap_scheme"
  assume "plain_inv B h" "malloc n h = (p, h')"
  then show "kept B h h' \<and> (if p = 0 then plain_inv B h' else fresh_block B p n \<and> plain_inv (B(p \<mapsto> (Tmp, n))) h')"
    by (rule malloc_exact)
next
  fix B p k and h :: "'a heap_scheme"
  assume "plain_inv B h" "B p = Some (Seam, k)"
  then show "plain_inv (B(p := None)) (seam_free plain_seam p h) \<and> kept (B(p := None)) h (seam_free plain_seam p h)"
    using tmp_free_exact [of B h p Seam k] by (simp add: plain_seam_def plain_rt_free_def)
next
  fix B p k and h :: "'a heap_scheme"
  assume "plain_inv B h" "B p = Some (Tmp, k)"
  then show "plain_inv (B(p := None)) (tmp_free p h) \<and> kept (B(p := None)) h (tmp_free p h)"
    by (rule tmp_free_exact)
next
  fix B p k n q and h h' :: "'a heap_scheme"
  assume "plain_inv B h" "B p = Some (Tmp, k)" "tmp_realloc p n h = (q, h')"
  then show "kept (B(p := None)) h h'
      \<and> (if q = 0 then plain_inv B h' \<and> kept B h h'
         else fresh_block (B(p := None)) q n \<and> plain_inv (B(p := None, q \<mapsto> (Tmp, n))) h'
           \<and> peek (mem h') q (min k n) = peek (mem h) p (min k n))"
    using realloc_exact [of B h p Tmp k n q h'] by (auto simp: kept_def)
qed (simp_all add: plain_seam_def plain_rt_free_def plain_write tmp_free_def plain_inv_def)

end
