(* ===== verification/Chains.thy ===== *)
theory Chains
  imports Heap
begin

text \<open>
  Free lists threaded through the blocks themselves, as the slab and the recycler keep them: the
  first word of a free block is the address of the next one, 0 at the end.
\<close>

fun chain :: "mem \<Rightarrow> addr \<Rightarrow> addr list \<Rightarrow> bool" where
  "chain m p [] \<longleftrightarrow> p = 0"
| "chain m p (x # xs) \<longleftrightarrow> p = x \<and> x \<noteq> 0 \<and> chain m (load64 m x) xs"

text \<open>The first two words of a block, which is all the allocator itself writes.\<close>

definition same16 :: "mem \<Rightarrow> mem \<Rightarrow> addr \<Rightarrow> bool" where
  "same16 m m' x \<longleftrightarrow> peek m' x 16 = peek m x 16"

lemma same16_loads: "same16 m m' x \<Longrightarrow> load64 m' x = load64 m x \<and> load64 m' (x + 8) = load64 m (x + 8)"
  unfolding same16_def load64_def using peek_add [of m x 8 8] peek_add [of m' x 8 8] by simp

lemma chain_cong: "(\<And>x. x \<in> set xs \<Longrightarrow> same16 m m' x) \<Longrightarrow> chain m' p xs = chain m p xs"
proof (induction xs arbitrary: p)
  case (Cons x xs)
  then have "load64 m' x = load64 m x" using same16_loads [of m m' x] by simp
  with Cons show ?case by simp
qed simp

text \<open>Cutting a chain after a prefix: the last block of the prefix gets a null link.\<close>

lemma chain_cut:
  assumes "chain m p (xs @ ys)" "xs \<noteq> []" "distinct xs"
    and "\<And>x. x \<in> set xs \<Longrightarrow> x \<noteq> last xs \<Longrightarrow> load64 m' x = load64 m x" "load64 m' (last xs) = 0"
  shows "chain m' p xs"
  using assms
proof (induction xs arbitrary: p)
  case (Cons x xs)
  show ?case
  proof (cases xs)
    case Nil
    with Cons.prems show ?thesis by auto
  next
    case (Cons y zs)
    with Cons.prems have "x \<noteq> last (x # xs)" "last (x # xs) = last xs" by auto
    then have "load64 m' x = load64 m x" using Cons.prems(4) [of x] by simp
    moreover have "chain m' (load64 m x) xs"
      by (rule Cons.IH) (use Cons.prems Cons in auto)
    ultimately show ?thesis using Cons.prems by simp
  qed
qed simp

lemma chain_rest: "chain m p (xs @ ys) \<Longrightarrow> xs \<noteq> [] \<Longrightarrow> chain m (load64 m (last xs)) ys"
proof (induction xs arbitrary: p)
  case (Cons x xs)
  then show ?case by (cases "xs = []") auto
qed simp

lemma chain_push:
  "chain m p xs \<Longrightarrow> x \<noteq> 0 \<Longrightarrow> p < 2 ^ 64 \<Longrightarrow> (\<And>y. y \<in> set xs \<Longrightarrow> same16 m m' y) \<Longrightarrow> load64 m' x = p \<Longrightarrow>
     chain m' x (x # xs)"
  using chain_cong [of xs m m' p] by simp

lemma chain_head: "chain m p xs \<Longrightarrow> p = (if xs = [] then 0 else hd xs)"
  by (cases xs) auto

end
