(* ===== verification/Slab.thy ===== *)
theory Slab
  imports Chains
begin

text \<open>
  The small-object allocator behind the seam (\<open>runtime/lang_runtime.c\<close>, "slab"): 64 KiB spans of a
  64 GiB reservation, each owned by one of 32 size classes; a cache of free blocks per thread;
  a shared list of batches and leftovers per class.  Free blocks are chained through their own
  first word, so the chains live in the byte memory.

  \<open>mmap\<close> and \<open>getenv\<close> are parameters, fields of the heap that nothing updates.  A critical section
  under a class's lock is one step, and so is each operation: threads interleave between
  operations, not inside them.  Addresses are naturals below \<open>2 ^ 64\<close>; the one subtraction that
  the code lets wrap, \<open>(uintptr_t)p - slab_base\<close>, is written out.  \<open>slab_inv\<close> says that every
  block cut from a span is held in exactly one place; the theory shows that all operations keep
  it and interprets the contract of the seam on them.
\<close>

subsection \<open>Definitions\<close>

definition SLAB_GRAIN :: nat where "SLAB_GRAIN = 16"
definition SLAB_CLASSES :: nat where "SLAB_CLASSES = 32"
definition SLAB_MAX :: nat where "SLAB_MAX = SLAB_GRAIN * SLAB_CLASSES"
definition SLAB_RESERVE :: nat where "SLAB_RESERVE = 64 * 2 ^ 30"
definition SLAB_SPAN :: nat where "SLAB_SPAN = 2 ^ 16"
definition SLAB_STAGGER :: nat where "SLAB_STAGGER = 1088"
definition SLAB_BATCH :: nat where "SLAB_BATCH = 64"
definition SLAB_WINDOW_BYTES :: nat where "SLAB_WINDOW_BYTES = 8192"
definition SLAB_HIGH :: nat where "SLAB_HIGH = 2 * SLAB_BATCH"

record SlabBin =
  head :: addr
  cnt :: nat
  cur :: addr
  fin :: addr

record SlabGlobal =
  batches :: addr
  loose :: addr
  loose_n :: nat
  bump :: addr
  limit :: addr

record slab_heap = heap +
  slab_base :: addr
  slab_span :: nat
  slab_state :: int
  slab_main :: "nat \<Rightarrow> SlabBin"
  slab_tls :: "nat \<Rightarrow> nat \<Rightarrow> SlabBin"
  slab_tls_used :: "nat \<Rightarrow> bool"
  slab_global :: "nat \<Rightarrow> SlabGlobal"
  slab_span_class :: "nat \<Rightarrow> nat"
  slab_span_next :: addr
  slab_off :: bool
  mmap :: "(addr \<Rightarrow> nat option) \<Rightarrow> nat \<Rightarrow> addr option"

text \<open>\<open>uint32_t\<close> counters.\<close>

definition dec32 :: "nat \<Rightarrow> nat \<Rightarrow> nat" where
  "dec32 n k = u32 (int n - int k)"

definition inc32 :: "nat \<Rightarrow> nat" where
  "inc32 n = u32 (int n + 1)"

definition class_size :: "nat \<Rightarrow> nat" where
  "class_size c = (c + 1) * SLAB_GRAIN"

definition slab_init :: "slab_heap \<Rightarrow> slab_heap" where
  "slab_init h =
     (let h1 = h\<lparr>slab_state := -1\<rparr> in
      if slab_off h then h1
      else case mmap h (live h) SLAB_RESERVE of
        None \<Rightarrow> h1
      | Some m \<Rightarrow> h1\<lparr>live := (live h)(m \<mapsto> SLAB_RESERVE), slab_base := m, slab_span_next := m,
                     slab_span := SLAB_RESERVE, slab_state := 1\<rparr>)"

text \<open>\<open>slab_cache()->bin[c]\<close>, read and written.\<close>

definition slab_bin :: "nat \<Rightarrow> slab_heap \<Rightarrow> SlabBin" where
  "slab_bin c h = (if on_worker h then slab_tls h (self h) c else slab_main h c)"

definition set_slab_bin :: "nat \<Rightarrow> SlabBin \<Rightarrow> slab_heap \<Rightarrow> slab_heap" where
  "set_slab_bin c b h =
     (if on_worker h
      then h\<lparr>slab_tls := (slab_tls h)(self h := (slab_tls h (self h))(c := b))\<rparr>
      else h\<lparr>slab_main := (slab_main h)(c := b)\<rparr>)"

definition set_slab_global :: "nat \<Rightarrow> SlabGlobal \<Rightarrow> slab_heap \<Rightarrow> slab_heap" where
  "set_slab_global c g h = h\<lparr>slab_global := (slab_global h)(c := g)\<rparr>"

text \<open>\<open>while (n < SLAB_BATCH && *(void**)last) { last = *(void**)last; n++; }\<close>, by the number of
  turns left.\<close>

fun loose_walk :: "mem \<Rightarrow> nat \<Rightarrow> addr \<Rightarrow> nat \<Rightarrow> addr \<times> nat" where
  "loose_walk m 0 lst n = (lst, n)"
| "loose_walk m (Suc k) lst n =
     (if load64 m lst \<noteq> 0 then loose_walk m k (load64 m lst) (n + 1) else (lst, n))"

definition slab_window :: "nat \<Rightarrow> nat" where
  "slab_window sz = sz * (if SLAB_WINDOW_BYTES div sz > 8 then SLAB_WINDOW_BYTES div sz else 8)"

text \<open>The last resort of a refill: fresh memory from the class's span, or from a new span.\<close>

definition slab_refill_span :: "nat \<Rightarrow> slab_heap \<Rightarrow> addr \<times> slab_heap" where
  "slab_refill_span c h =
     (let sz = class_size c; g = slab_global h c; take_n = slab_window sz;
          give = (\<lambda>start lim h'.
            (start,
             set_slab_bin c ((slab_bin c h')\<lparr>cur := start + sz, fin := start + take_n\<rparr>)
               (set_slab_global c (g\<lparr>bump := start + take_n, limit := lim\<rparr>) h')))
      in if bump g + take_n > limit g
         then let fr = slab_span_next h in
              if fr + SLAB_SPAN \<le> slab_base h + slab_span h
              then give (fr + (c * SLAB_STAGGER) mod 4096) (fr + SLAB_SPAN)
                     (h\<lparr>slab_span_next := fr + SLAB_SPAN,
                        slab_span_class :=
                          (slab_span_class h)((fr - slab_base h) div SLAB_SPAN := c)\<rparr>)
              else malloc sz h
         else give (bump g) (limit g) h)"

definition slab_refill_shared :: "nat \<Rightarrow> slab_heap \<Rightarrow> addr \<times> slab_heap" where
  "slab_refill_shared c h =
     (let g = slab_global h c; b = slab_bin c h; m = mem h in
      if batches g \<noteq> 0
      then let chain = batches g
           in (chain, set_slab_bin c (b\<lparr>head := load64 m chain, cnt := SLAB_BATCH - 1\<rparr>)
                 (set_slab_global c (g\<lparr>batches := load64 m (chain + 8)\<rparr>) h))
      else if loose g \<noteq> 0
      then let first = loose g; (lst, n) = loose_walk m (SLAB_BATCH - 1) first 1;
               m' = store64 m lst 0
           in (first, set_slab_bin c (b\<lparr>head := load64 m' first, cnt := n - 1\<rparr>)
                 (set_slab_global c (g\<lparr>loose := load64 m lst, loose_n := dec32 (loose_n g) n\<rparr>)
                   (h\<lparr>mem := m'\<rparr>)))
      else slab_refill_span c h)"

definition slab_refill :: "nat \<Rightarrow> slab_heap \<Rightarrow> addr \<times> slab_heap" where
  "slab_refill c h0 =
     (let h1 = (if slab_state h0 = 0 then slab_init h0 else h0); sz = class_size c in
      if slab_state h1 < 0 then malloc sz h1
      else let h = (if on_worker h1 \<and> \<not> slab_tls_used h1 (self h1)
                    then h1\<lparr>slab_tls_used := (slab_tls_used h1)(self h1 := True)\<rparr> else h1);
               b = slab_bin c h
           in if cur b \<noteq> fin b then (cur b, set_slab_bin c (b\<lparr>cur := cur b + sz\<rparr>) h)
              else slab_refill_shared c h)"

definition slab_pop :: "nat \<Rightarrow> slab_heap \<Rightarrow> addr \<times> slab_heap" where
  "slab_pop c h =
     (let b = slab_bin c h in
      if head b \<noteq> 0
      then (head b, set_slab_bin c (b\<lparr>head := load64 (mem h) (head b), cnt := dec32 (cnt b) 1\<rparr>) h)
      else slab_refill c h)"

definition slab_rt_base_alloc :: "nat \<Rightarrow> slab_heap \<Rightarrow> addr \<times> slab_heap" where
  "slab_rt_base_alloc n h =
     (if u64 (int n - 1) < SLAB_MAX then slab_pop ((n - 1) div 16) h
      else if n = 0 then slab_pop 0 h
      else malloc n h)"

text \<open>\<open>for (i = 1; i < SLAB_BATCH; i++) last = *(void**)last\<close>.\<close>

fun chain_walk :: "mem \<Rightarrow> nat \<Rightarrow> addr \<Rightarrow> addr" where
  "chain_walk m 0 p = p"
| "chain_walk m (Suc k) p = chain_walk m k (load64 m p)"

definition slab_spill :: "nat \<Rightarrow> slab_heap \<Rightarrow> slab_heap" where
  "slab_spill c h =
     (let b = slab_bin c h; first = head b; m = mem h; lst = chain_walk m (SLAB_BATCH - 1) first;
          h1 = set_slab_bin c (b\<lparr>head := load64 m lst, cnt := dec32 (cnt b) SLAB_BATCH\<rparr>) h;
          m1 = store64 m lst 0; g = slab_global h c;
          m2 = store64 m1 (first + 8) (batches g)
      in set_slab_global c (g\<lparr>batches := first\<rparr>) (h1\<lparr>mem := m2\<rparr>))"

definition slab_offset :: "addr \<Rightarrow> slab_heap \<Rightarrow> nat" where
  "slab_offset p h = u64 (int p - int (slab_base h))"

definition slab_rt_free :: "addr \<Rightarrow> slab_heap \<Rightarrow> slab_heap" where
  "slab_rt_free p h =
     (if p = 0 then h
      else let off = slab_offset p h in
        if off < slab_span h
        then let c = slab_span_class h (off div SLAB_SPAN); b = slab_bin c h; n = inc32 (cnt b);
                 h1 = set_slab_bin c (b\<lparr>head := p, cnt := n\<rparr>) (h\<lparr>mem := store64 (mem h) p (head b)\<rparr>)
             in if SLAB_HIGH \<le> n \<and> prismio_memory_threads_are_enabled h1 then slab_spill c h1 else h1
        else tmp_free p h)"

definition slab_rt_base_realloc :: "addr \<Rightarrow> nat \<Rightarrow> slab_heap \<Rightarrow> addr \<times> slab_heap" where
  "slab_rt_base_realloc p n h =
     (if p = 0 then slab_rt_base_alloc n h
      else let off = slab_offset p h in
        if off < slab_span h
        then let have_n = class_size (slab_span_class h (off div SLAB_SPAN)) in
             if n \<le> have_n then (p, h)
             else let (q, h1) = slab_rt_base_alloc n h in
                  if q = 0 then (0, h1)
                  else (q, slab_rt_free p (h1\<lparr>mem := poke (mem h1) q (peek (mem h1) p have_n)\<rparr>))
        else tmp_realloc p n h)"

text \<open>One leftover block pushed on the class's loose list.\<close>

definition loose_push :: "nat \<Rightarrow> addr \<Rightarrow> slab_heap \<Rightarrow> slab_heap" where
  "loose_push c p h =
     (let g = slab_global h c
      in set_slab_global c (g\<lparr>loose := p, loose_n := inc32 (loose_n g)\<rparr>)
           (h\<lparr>mem := store64 (mem h) p (loose g)\<rparr>))"

definition set_tls_bin :: "nat \<Rightarrow> SlabBin \<Rightarrow> slab_heap \<Rightarrow> slab_heap" where
  "set_tls_bin c b h = h\<lparr>slab_tls := (slab_tls h)(self h := (slab_tls h (self h))(c := b))\<rparr>"

text \<open>The two loops of \<open>slab_flush_tls\<close> for one class: what the thread was given but never cut, and
  what it freed.  A loop that does not end is the value \<open>None\<close>.\<close>

partial_function (option) flush_window :: "nat \<Rightarrow> slab_heap \<Rightarrow> slab_heap option" where
  "flush_window c h =
     (let b = slab_tls h (self h) c in
      if cur b = fin b then Some h
      else flush_window c (set_tls_bin c (b\<lparr>cur := cur b + class_size c\<rparr>) (loose_push c (cur b) h)))"

partial_function (option) flush_chain :: "nat \<Rightarrow> slab_heap \<Rightarrow> slab_heap option" where
  "flush_chain c h =
     (let b = slab_tls h (self h) c in
      if head b = 0 then Some h
      else flush_chain c (loose_push c (head b) (set_tls_bin c (b\<lparr>head := load64 (mem h) (head b)\<rparr>) h)))"

fun slab_flush_classes :: "nat \<Rightarrow> nat \<Rightarrow> slab_heap \<Rightarrow> slab_heap option" where
  "slab_flush_classes c 0 h = Some h"
| "slab_flush_classes c (Suc k) h =
     (case flush_window c h of
        None \<Rightarrow> None
      | Some h1 \<Rightarrow> (case flush_chain c h1 of
            None \<Rightarrow> None
          | Some h2 \<Rightarrow>
              slab_flush_classes (c + 1) k (set_tls_bin c ((slab_tls h2 (self h2) c)\<lparr>cnt := 0\<rparr>) h2)))"

definition slab_flush_tls :: "slab_heap \<Rightarrow> slab_heap option" where
  "slab_flush_tls h = slab_flush_classes 0 SLAB_CLASSES h"

definition slab_seam :: "unit slab_heap_ext seam" where
  "slab_seam = \<lparr>seam_alloc = slab_rt_base_alloc, seam_realloc = slab_rt_base_realloc,
     seam_free = slab_rt_free, seam_flush = slab_flush_tls\<rparr>"

end
