(* ===== verification/Slab_Inv.thy ===== *)
theory Slab_Inv
  imports Slab
begin

text \<open>
  The invariant of the slab allocator and its preservation.  \<open>holder\<close> names the places a block cut
  from a span can be in; \<open>slab_rep\<close> ties the chains, windows and shared lists of the code to
  lists of addresses, and \<open>slab_placed\<close> says that each block is in one place only.
\<close>

subsection \<open>Batches and windows\<close>

fun batch_chain :: "mem \<Rightarrow> addr \<Rightarrow> addr list list \<Rightarrow> bool" where
  "batch_chain m p [] \<longleftrightarrow> p = 0"
| "batch_chain m p (xs # xss) \<longleftrightarrow>
     length xs = SLAB_BATCH \<and> chain m p xs \<and> batch_chain m (load64 m (p + 8)) xss"

definition blocks_from :: "addr \<Rightarrow> nat \<Rightarrow> nat \<Rightarrow> addr list" where
  "blocks_from a sz n = map (\<lambda>k. a + k * sz) [0..<n]"

lemma batch_chain_cong:
  "(\<And>x. x \<in> set (concat xss) \<Longrightarrow> same16 m m' x) \<Longrightarrow> batch_chain m' p xss = batch_chain m p xss"
proof (induction xss arbitrary: p)
  case (Cons xs xss)
  have eq: "chain m' p xs = chain m p xs"
    using Cons.prems by (intro chain_cong) auto
  show ?case
  proof (cases "length xs = SLAB_BATCH \<and> chain m p xs")
    case True
    then obtain ys where "xs = p # ys" by (cases xs) (auto simp: SLAB_BATCH_def)
    then have "load64 m' (p + 8) = load64 m (p + 8)"
      using Cons.prems same16_loads by auto
    then show ?thesis using eq Cons by simp
  qed (auto simp: eq)
qed simp

lemma chain_walk_last: "chain m p (xs @ ys) \<Longrightarrow> length xs = Suc k \<Longrightarrow> chain_walk m k p = last xs"
proof (induction k arbitrary: p xs)
  case 0
  then obtain x where "xs = [x]" by (auto simp: length_Suc_conv)
  with 0 show ?case by simp
next
  case (Suc k)
  then obtain x xs' where xs: "xs = x # xs'" "length xs' = Suc k" by (auto simp: length_Suc_conv)
  with Suc.prems have "chain m (load64 m p) (xs' @ ys)" by simp
  from Suc.IH [OF this xs(2)] show ?case using xs by auto
qed

lemma loose_walk_last:
  "chain m p xs \<Longrightarrow> xs \<noteq> [] \<Longrightarrow>
     loose_walk m k p n = (last (take (Suc k) xs), n + (length (take (Suc k) xs) - 1))"
proof (induction k arbitrary: p xs n)
  case 0
  then show ?case by (cases xs) auto
next
  case (Suc k)
  then obtain x ys where xs: "xs = x # ys" "p = x" "chain m (load64 m x) ys" by (cases xs) auto
  show ?case
  proof (cases ys)
    case Nil
    with xs show ?thesis by simp
  next
    case (Cons y zs)
    then have "load64 m x \<noteq> 0" using xs by auto
    with Suc.IH [OF xs(3), of "n + 1"] Cons xs show ?thesis by auto
  qed
qed

subsection \<open>The state as lists of blocks\<close>

datatype holder = Cache "nat option" nat | Window "nat option" nat | Batches nat | Loose nat | Tail nat
  | Client | Lost

fun holder_class :: "holder \<Rightarrow> nat" where
  "holder_class (Cache w c) = c"
| "holder_class (Window w c) = c"
| "holder_class (Batches c) = c"
| "holder_class (Loose c) = c"
| "holder_class (Tail c) = c"
| "holder_class Client = SLAB_CLASSES"
| "holder_class Lost = SLAB_CLASSES"

text \<open>The cache of the main thread, or of a worker.\<close>

definition bin_of :: "slab_heap \<Rightarrow> nat option \<Rightarrow> nat \<Rightarrow> SlabBin" where
  "bin_of h w c = (case w of None \<Rightarrow> slab_main h c | Some t \<Rightarrow> slab_tls h t c)"

definition me :: "slab_heap \<Rightarrow> nat option" where
  "me h = (if on_worker h then Some (self h) else None)"

text \<open>\<open>slot h c a\<close>: \<open>a\<close> is where a block of class \<open>c\<close> can start, in a span that class owns.\<close>

definition slot_in :: "slab_heap \<Rightarrow> nat \<Rightarrow> nat \<Rightarrow> addr \<Rightarrow> bool" where
  "slot_in h i c a \<longleftrightarrow> slab_base h + (i + 1) * SLAB_SPAN \<le> slab_span_next h \<and> slab_span_class h i = c
     \<and> (\<exists>k. a = slab_base h + i * SLAB_SPAN + (c * SLAB_STAGGER) mod 4096 + k * class_size c)
     \<and> a + class_size c \<le> slab_base h + (i + 1) * SLAB_SPAN"

definition slot :: "slab_heap \<Rightarrow> nat \<Rightarrow> addr \<Rightarrow> bool" where
  "slot h c a \<longleftrightarrow> (\<exists>i. slot_in h i c a)"

definition cache_ok :: "mem \<Rightarrow> SlabBin \<Rightarrow> addr list \<Rightarrow> bool" where
  "cache_ok m b xs \<longleftrightarrow> chain m (head b) xs \<and> cnt b = length xs mod 2 ^ 32"

definition window_ok :: "SlabBin \<Rightarrow> nat \<Rightarrow> addr list \<Rightarrow> bool" where
  "window_ok b sz ws \<longleftrightarrow> (\<exists>n. fin b = cur b + n * sz \<and> ws = blocks_from (cur b) sz n)"

definition shared_ok :: "mem \<Rightarrow> SlabGlobal \<Rightarrow> addr list \<Rightarrow> addr list \<Rightarrow> bool" where
  "shared_ok m g bs ls \<longleftrightarrow> (\<exists>xss. batch_chain m (batches g) xss \<and> bs = concat xss)
     \<and> chain m (loose g) ls \<and> loose_n g = length ls mod 2 ^ 32"

definition tail_ok :: "SlabGlobal \<Rightarrow> nat \<Rightarrow> addr list \<Rightarrow> bool" where
  "tail_ok g sz ts \<longleftrightarrow> bump g \<le> limit g \<and> ts = blocks_from (bump g) sz ((limit g - bump g) div sz)"

definition slab_rep :: "(holder \<Rightarrow> addr list) \<Rightarrow> slab_heap \<Rightarrow> bool" where
  "slab_rep G h \<longleftrightarrow> (\<forall>c < SLAB_CLASSES.
     (\<forall>w. cache_ok (mem h) (bin_of h w c) (G (Cache w c))
        \<and> window_ok (bin_of h w c) (class_size c) (G (Window w c)))
     \<and> shared_ok (mem h) (slab_global h c) (G (Batches c)) (G (Loose c))
     \<and> tail_ok (slab_global h c) (class_size c) (G (Tail c)))"

definition slab_placed :: "(addr \<Rightarrow> holder) \<Rightarrow> (holder \<Rightarrow> addr list) \<Rightarrow> slab_heap \<Rightarrow> bool" where
  "slab_placed own G h \<longleftrightarrow> (\<forall>pl. distinct (G pl)
     \<and> (\<forall>a \<in> set (G pl). own a = pl \<and> holder_class pl < SLAB_CLASSES \<and> slot h (holder_class pl) a))"

definition slab_geometry :: "slab_heap \<Rightarrow> bool" where
  "slab_geometry h \<longleftrightarrow> slab_state h \<in> {-1, 0, 1}
     \<and> (slab_state h = 1 \<longrightarrow> live h (slab_base h) = Some SLAB_RESERVE \<and> slab_span h = SLAB_RESERVE)
     \<and> (slab_state h \<noteq> 1 \<longrightarrow> slab_span h = 0)
     \<and> slab_span_next h \<le> slab_base h + slab_span h
     \<and> (\<exists>n. slab_span_next h = slab_base h + n * SLAB_SPAN)
     \<and> (\<forall>i. slab_base h + (i + 1) * SLAB_SPAN \<le> slab_span_next h \<longrightarrow> slab_span_class h i < SLAB_CLASSES)"

definition mmap_ok :: "slab_heap \<Rightarrow> bool" where
  "mmap_ok h \<longleftrightarrow> (\<forall>lv n m. live_wf lv \<longrightarrow> mmap h lv n = Some m \<longrightarrow> placed lv n (m, n))"

definition slab_clients :: "(addr \<Rightarrow> holder) \<Rightarrow> owned \<Rightarrow> slab_heap \<Rightarrow> bool" where
  "slab_clients own B h \<longleftrightarrow> (\<forall>a w k. B a = Some (w, k) \<longrightarrow>
     (w = Seam \<and> own a = Client \<and> (\<exists>c < SLAB_CLASSES. slot h c a \<and> k \<le> class_size c))
     \<or> (\<exists>u. live h a = Some u \<and> k \<le> u \<and> (slab_state h = 1 \<longrightarrow> a \<noteq> slab_base h)))"

definition slab_inv :: "owned \<Rightarrow> slab_heap \<Rightarrow> bool" where
  "slab_inv B h \<longleftrightarrow> libc_ok h \<and> live_wf (live h) \<and> mmap_ok h \<and> slab_geometry h
     \<and> (\<exists>own G. slab_rep G h \<and> slab_placed own G h \<and> slab_clients own B h)"

subsection \<open>Slots\<close>

lemma class_size_pos [simp]: "0 < class_size c"
  by (simp add: class_size_def SLAB_GRAIN_def)

lemma class_size_16: "16 \<le> class_size c"
  by (simp add: class_size_def SLAB_GRAIN_def)

lemma slot_apart:
  assumes "slot h c a" "slot h d b" "a \<noteq> b"
  shows "apart a (class_size c) b (class_size d)"
proof -
  obtain i j where i: "slot_in h i c a" and j: "slot_in h j d b" using assms by (auto simp: slot_def)
  obtain k l where
    k: "a = slab_base h + i * SLAB_SPAN + (c * SLAB_STAGGER) mod 4096 + k * class_size c"
      "a + class_size c \<le> slab_base h + (i + 1) * SLAB_SPAN" and
    l: "b = slab_base h + j * SLAB_SPAN + (d * SLAB_STAGGER) mod 4096 + l * class_size d"
      "b + class_size d \<le> slab_base h + (j + 1) * SLAB_SPAN"
    using i j unfolding slot_in_def by blast
  consider "i < j" | "j < i" | "i = j" by linarith
  then show ?thesis
  proof cases
    case 1
    then have "(i + 1) * SLAB_SPAN \<le> j * SLAB_SPAN" by (intro mult_le_mono1) simp
    then have "a + class_size c \<le> b" using k l by linarith
    then show ?thesis by (simp add: apart_def)
  next
    case 2
    then have "(j + 1) * SLAB_SPAN \<le> i * SLAB_SPAN" by (intro mult_le_mono1) simp
    then have "b + class_size d \<le> a" using k l by linarith
    then show ?thesis by (simp add: apart_def)
  next
    case 3
    then have cd: "c = d" using i j by (simp add: slot_in_def)
    with 3 k l assms have "k \<noteq> l" by auto
    then have "(k + 1) * class_size c \<le> l * class_size c \<or> (l + 1) * class_size c \<le> k * class_size c"
      by (metis Suc_eq_plus1 Suc_leI linorder_neqE_nat mult_le_mono1)
    then show ?thesis using k l cd 3 by (auto simp: apart_def)
  qed
qed

lemma slot_bounds: "slot h c a \<Longrightarrow> slab_base h \<le> a \<and> a + class_size c \<le> slab_span_next h"
  by (auto simp: slot_def slot_in_def)

text \<open>The test of \<open>rt_free\<close>: a slot is in range, and the side table gives its class.\<close>

lemma slot_offset:
  assumes g: "slab_geometry h" "live_wf (live h)" and s: "slot h c a"
  shows "slab_state h = 1" "slab_offset a h < slab_span h" "slab_span_class h (slab_offset a h div SLAB_SPAN) = c"
    "a \<noteq> 0" "a + class_size c < 2 ^ 64" "slab_base h \<le> a" "a + class_size c \<le> slab_base h + SLAB_RESERVE"
proof -
  have b: "slab_base h \<le> a" "a + class_size c \<le> slab_span_next h" using slot_bounds [OF s] by auto
  have nx: "slab_span_next h \<le> slab_base h + slab_span h"
    using g(1) unfolding slab_geometry_def by blast
  have lt: "a < slab_base h + slab_span h"
    using b nx class_size_pos [of c] by linarith
  then have "slab_span h \<noteq> 0" using b by linarith
  then show st: "slab_state h = 1"
    using g(1) unfolding slab_geometry_def by metis
  then have l: "live h (slab_base h) = Some SLAB_RESERVE" "slab_span h = SLAB_RESERVE"
    using g(1) by (auto simp: slab_geometry_def)
  then have top: "slab_base h \<noteq> 0" "slab_base h + SLAB_RESERVE < 2 ^ 64"
    using live_wfD(1) [OF g(2)] by auto
  show "a \<noteq> 0" "a + class_size c < 2 ^ 64" "slab_base h \<le> a" "a + class_size c \<le> slab_base h + SLAB_RESERVE"
    using top b nx l by linarith+
  have off: "slab_offset a h = a - slab_base h"
    using b lt top l by (auto simp: slab_offset_def u64_def nat_diff_distrib simp flip: of_nat_diff)
  then show "slab_offset a h < slab_span h" using lt b by simp
  obtain i k where i: "slab_span_class h i = c" "a = slab_base h + i * SLAB_SPAN + (c * SLAB_STAGGER) mod 4096 + k * class_size c"
    "a + class_size c \<le> slab_base h + (i + 1) * SLAB_SPAN"
    using s unfolding slot_def slot_in_def by blast
  then have "i * SLAB_SPAN \<le> a - slab_base h" "a - slab_base h < (i + 1) * SLAB_SPAN"
    using class_size_pos [of c] by (simp_all only: algebra_simps)
  then have "(a - slab_base h) div SLAB_SPAN = i"
    by (intro div_nat_eqI) (auto simp: algebra_simps)
  then show "slab_span_class h (slab_offset a h div SLAB_SPAN) = c"
    using i off by simp
qed

text \<open>A libc block of a client is outside the reservation.\<close>

lemma libc_outside:
  assumes "slab_geometry h" "live_wf (live h)" "live h a = Some u" "slab_state h = 1 \<longrightarrow> a \<noteq> slab_base h"
  shows "\<not> slab_offset a h < slab_span h" "slab_state h = 1 \<Longrightarrow> apart a u (slab_base h) SLAB_RESERVE"
proof -
  have a: "a \<noteq> 0" "0 < u" "a + u < 2 ^ 64" using live_wfD(1) [OF assms(2,3)] by auto
  have ap: "apart a u (slab_base h) SLAB_RESERVE" if "slab_state h = 1"
    using live_wfD(2) [OF assms(2,3), of "slab_base h"] assms that by (auto simp: slab_geometry_def)
  then show "slab_state h = 1 \<Longrightarrow> apart a u (slab_base h) SLAB_RESERVE" .
  show "\<not> slab_offset a h < slab_span h"
  proof (cases "slab_state h = 1")
    case True
    then have l: "live h (slab_base h) = Some SLAB_RESERVE" "slab_span h = SLAB_RESERVE"
      using assms(1) by (auto simp: slab_geometry_def)
    then have b: "slab_base h + SLAB_RESERVE < 2 ^ 64"
      using live_wfD(1) [OF assms(2)] by auto
    consider "a + u \<le> slab_base h" | "slab_base h + SLAB_RESERVE \<le> a"
      using ap [OF True] a by (auto simp: apart_def SLAB_RESERVE_def)
    then show ?thesis
    proof cases
      case 1
      have "(int a - int (slab_base h)) mod 2 ^ 64 = int a - int (slab_base h) + 2 ^ 64"
        using 1 a b by (subst mod_add_self2 [symmetric], intro mod_pos_pos_trivial) auto
      then show ?thesis using 1 a b l by (simp add: slab_offset_def u64_def)
    next
      case 2
      have "(int a - int (slab_base h)) mod 2 ^ 64 = int a - int (slab_base h)"
        using 2 a by (intro mod_pos_pos_trivial) auto
      then show ?thesis using 2 a l by (simp add: slab_offset_def u64_def)
    qed
  qed (use assms(1) in \<open>auto simp: slab_geometry_def\<close>)
qed

subsection \<open>Fields\<close>

definition put_bin :: "nat option \<Rightarrow> nat \<Rightarrow> SlabBin \<Rightarrow> slab_heap \<Rightarrow> slab_heap" where
  "put_bin w c b h = (case w of
      None \<Rightarrow> h\<lparr>slab_main := (slab_main h)(c := b)\<rparr>
    | Some t \<Rightarrow> h\<lparr>slab_tls := (slab_tls h)(t := (slab_tls h t)(c := b))\<rparr>)"

lemma slab_bin_me: "slab_bin c h = bin_of h (me h) c"
  by (simp add: slab_bin_def bin_of_def me_def)

lemma set_slab_bin_me: "set_slab_bin c b h = put_bin (me h) c b h"
  by (simp add: set_slab_bin_def put_bin_def me_def)

lemma set_tls_bin_put: "set_tls_bin c b h = put_bin (Some (self h)) c b h"
  by (simp add: set_tls_bin_def put_bin_def)

lemma bin_of_put [simp]: "bin_of (put_bin w c b h) w' c' = (if w' = w \<and> c' = c then b else bin_of h w' c')"
  by (auto simp: bin_of_def put_bin_def split: option.splits)

lemma bin_of_other [simp]:
  "bin_of (set_slab_global c g h) w d = bin_of h w d" "bin_of (h\<lparr>mem := m\<rparr>) w d = bin_of h w d"
  "bin_of (h\<lparr>live := lv\<rparr>) w d = bin_of h w d" "bin_of (h\<lparr>slab_tls_used := u\<rparr>) w d = bin_of h w d"
  by (auto simp: bin_of_def set_slab_global_def split: option.splits)

lemma put_bin_fields [simp]:
  "mem (put_bin w c b h) = mem h" "live (put_bin w c b h) = live h" "slab_base (put_bin w c b h) = slab_base h"
  "slab_span (put_bin w c b h) = slab_span h" "slab_state (put_bin w c b h) = slab_state h"
  "slab_global (put_bin w c b h) = slab_global h" "slab_span_class (put_bin w c b h) = slab_span_class h"
  "slab_span_next (put_bin w c b h) = slab_span_next h" "self (put_bin w c b h) = self h"
  "pick (put_bin w c b h) = pick h" "repick (put_bin w c b h) = repick h" "mmap (put_bin w c b h) = mmap h"
  "threads_enabled (put_bin w c b h) = threads_enabled h" "worker (put_bin w c b h) = worker h"
  by (auto simp: put_bin_def split: option.splits)

lemma set_slab_global_fields [simp]:
  "mem (set_slab_global c g h) = mem h" "live (set_slab_global c g h) = live h"
  "slab_base (set_slab_global c g h) = slab_base h" "slab_span (set_slab_global c g h) = slab_span h"
  "slab_state (set_slab_global c g h) = slab_state h" "slab_span_class (set_slab_global c g h) = slab_span_class h"
  "slab_span_next (set_slab_global c g h) = slab_span_next h" "self (set_slab_global c g h) = self h"
  "slab_tls (set_slab_global c g h) = slab_tls h"
  "pick (set_slab_global c g h) = pick h" "repick (set_slab_global c g h) = repick h"
  "mmap (set_slab_global c g h) = mmap h" "threads_enabled (set_slab_global c g h) = threads_enabled h"
  "worker (set_slab_global c g h) = worker h"
  "slab_global (set_slab_global c g h) = (slab_global h)(c := g)"
  by (auto simp: set_slab_global_def)

lemma me_other [simp]:
  "me (put_bin w c b h) = me h" "me (set_slab_global c g h) = me h" "me (h\<lparr>mem := m\<rparr>) = me h"
  "me (h\<lparr>live := lv\<rparr>) = me h"
  by (simp_all add: me_def on_worker_def prismio_memory_threads_are_enabled_def)

definition slab_static :: "slab_heap \<Rightarrow> bool" where
  "slab_static h \<longleftrightarrow> libc_ok h \<and> live_wf (live h) \<and> mmap_ok h \<and> slab_geometry h"

definition slab_core :: "(addr \<Rightarrow> holder) \<Rightarrow> (holder \<Rightarrow> addr list) \<Rightarrow> owned \<Rightarrow> slab_heap \<Rightarrow> bool" where
  "slab_core own G B h \<longleftrightarrow> slab_static h \<and> slab_rep G h \<and> slab_placed own G h \<and> slab_clients own B h"

lemma slab_inv_core: "slab_inv B h \<longleftrightarrow> (\<exists>own G. slab_core own G B h)"
  by (auto simp: slab_inv_def slab_core_def slab_static_def)

definition own_set :: "(addr \<Rightarrow> holder) \<Rightarrow> addr set \<Rightarrow> holder \<Rightarrow> addr \<Rightarrow> holder" where
  "own_set own A pl = (\<lambda>a. if a \<in> A then pl else own a)"

text \<open>The parts of a heap the placement of blocks depends on.\<close>

definition same_frame :: "slab_heap \<Rightarrow> slab_heap \<Rightarrow> bool" where
  "same_frame h h' \<longleftrightarrow> live h' = live h \<and> slab_base h' = slab_base h \<and> slab_span h' = slab_span h
     \<and> slab_state h' = slab_state h \<and> slab_span_class h' = slab_span_class h
     \<and> slab_span_next h' = slab_span_next h \<and> pick h' = pick h \<and> repick h' = repick h \<and> mmap h' = mmap h"

lemma same_frame_slot: "same_frame h h' \<Longrightarrow> slot h' c a = slot h c a"
  by (simp add: same_frame_def slot_def slot_in_def)

lemma same_frame_static: "same_frame h h' \<Longrightarrow> slab_static h' = slab_static h"
  by (simp add: same_frame_def slab_static_def libc_ok_def mmap_ok_def slab_geometry_def)

lemma same_frame_clients:
  assumes "same_frame h h'" "slab_clients own B h" "\<And>a. own a = Client \<Longrightarrow> own' a = Client"
  shows "slab_clients own' B h'"
proof -
  have *: "live h' = live h" "slab_state h' = slab_state h" "slab_base h' = slab_base h"
    using assms(1) by (auto simp: same_frame_def)
  show ?thesis
    using assms(2,3) unfolding slab_clients_def * same_frame_slot [OF assms(1)] by blast
qed

lemma same_frame_put [simp]:
  "same_frame h (put_bin w c b h)" "same_frame h (set_slab_global c g h)" "same_frame h (h\<lparr>mem := m\<rparr>)"
  "same_frame h (h\<lparr>slab_tls_used := u\<rparr>)"
  by (auto simp: same_frame_def)

lemma slab_placedD:
  assumes "slab_placed own G h"
  shows "distinct (G pl)" "a \<in> set (G pl) \<Longrightarrow> own a = pl" "a \<in> set (G pl) \<Longrightarrow> holder_class pl < SLAB_CLASSES"
    "a \<in> set (G pl) \<Longrightarrow> slot h (holder_class pl) a"
  using assms unfolding slab_placed_def by blast+

text \<open>Blocks change hands: the lists of the holders in \<open>D\<close> are new, the others are as before.\<close>

lemma slab_placed_move:
  assumes "slab_placed own G h" "\<And>c a. slot h c a \<Longrightarrow> slot h' c a"
    and "\<And>pl. pl \<notin> D \<Longrightarrow> G' pl = G pl"
    and "\<And>pl a. pl \<notin> D \<Longrightarrow> a \<in> set (G pl) \<Longrightarrow> own' a = own a"
    and "\<And>pl. pl \<in> D \<Longrightarrow> distinct (G' pl)"
    and "\<And>pl a. pl \<in> D \<Longrightarrow> a \<in> set (G' pl) \<Longrightarrow>
           own' a = pl \<and> holder_class pl < SLAB_CLASSES \<and> slot h' (holder_class pl) a"
  shows "slab_placed own' G' h'"
  unfolding slab_placed_def
proof (intro allI)
  fix pl
  show "distinct (G' pl)
      \<and> (\<forall>a\<in>set (G' pl). own' a = pl \<and> holder_class pl < SLAB_CLASSES \<and> slot h' (holder_class pl) a)"
    using assms(2-) slab_placedD [OF assms(1), where pl = pl] by (cases "pl \<in> D") auto
qed

lemma slab_repD:
  assumes "slab_rep G h" "c < SLAB_CLASSES"
  shows "cache_ok (mem h) (bin_of h w c) (G (Cache w c))"
    "window_ok (bin_of h w c) (class_size c) (G (Window w c))"
    "shared_ok (mem h) (slab_global h c) (G (Batches c)) (G (Loose c))"
    "tail_ok (slab_global h c) (class_size c) (G (Tail c))"
  using assms unfolding slab_rep_def by blast+

lemma slab_rep_bin:
  assumes "slab_rep G h" "c < SLAB_CLASSES" "cache_ok (mem h) b xs" "window_ok b (class_size c) ws"
  shows "slab_rep (G(Cache w c := xs, Window w c := ws)) (put_bin w c b h)"
  using assms unfolding slab_rep_def by auto

lemma slab_rep_global:
  assumes "slab_rep G h" "c < SLAB_CLASSES" "shared_ok (mem h) g bs ls" "tail_ok g (class_size c) ts"
  shows "slab_rep (G(Batches c := bs, Loose c := ls, Tail c := ts)) (set_slab_global c g h)"
  using assms unfolding slab_rep_def by auto

lemma slab_rep_mem:
  assumes "slab_rep G h" "\<And>pl a. a \<in> set (G pl) \<Longrightarrow> same16 (mem h) m a"
  shows "slab_rep G (h\<lparr>mem := m\<rparr>)"
  unfolding slab_rep_def
proof (intro allI impI conjI)
  fix c w assume c: "c < SLAB_CLASSES"
  note r = slab_repD [OF assms(1) c]
  show "cache_ok (mem (h\<lparr>mem := m\<rparr>)) (bin_of (h\<lparr>mem := m\<rparr>) w c) (G (Cache w c))"
    using r(1) [of w] chain_cong [of "G (Cache w c)" "mem h" m, OF assms(2)] by (simp add: cache_ok_def)
  show "window_ok (bin_of (h\<lparr>mem := m\<rparr>) w c) (class_size c) (G (Window w c))"
    using r(2) by simp
  show "tail_ok (slab_global (h\<lparr>mem := m\<rparr>) c) (class_size c) (G (Tail c))"
    using r(4) by simp
  obtain xss where "batch_chain (mem h) (batches (slab_global h c)) xss" "G (Batches c) = concat xss"
    using r(3) by (auto simp: shared_ok_def)
  moreover from this(2) have "batch_chain m p xss = batch_chain (mem h) p xss" for p
    by (intro batch_chain_cong assms(2) [of _ "Batches c"]) auto
  ultimately show "shared_ok (mem (h\<lparr>mem := m\<rparr>)) (slab_global (h\<lparr>mem := m\<rparr>) c) (G (Batches c)) (G (Loose c))"
    using r(3) chain_cong [of "G (Loose c)" "mem h" m, OF assms(2)] by (auto simp: shared_ok_def)
qed

subsection \<open>Moving blocks\<close>

lemma len32: "dec32 (n mod 2 ^ 32) k = (n - k) mod 2 ^ 32" if "k \<le> n" "k < 2 ^ 32" for n k :: nat
proof -
  have "(int (n mod 2 ^ 32) - int k) mod 2 ^ 32 = (int n - int k) mod 2 ^ 32"
    by (simp add: zmod_int mod_diff_left_eq)
  also have "\<dots> = int ((n - k) mod 2 ^ 32)"
    using that by (simp add: zmod_int of_nat_diff)
  finally show ?thesis by (simp add: dec32_def u32_def)
qed

lemma inc32_len: "inc32 (n mod 2 ^ 32) = Suc n mod 2 ^ 32"
proof -
  have "(int (n mod 2 ^ 32) + 1) mod 2 ^ 32 = int (Suc n mod 2 ^ 32)"
    by (simp add: zmod_int mod_add_left_eq mod_add_right_eq ac_simps)
  then show ?thesis by (simp add: inc32_def u32_def)
qed

lemma own_setI: "a \<in> A \<Longrightarrow> own_set own A pl a = pl" "a \<notin> A \<Longrightarrow> own_set own A pl a = own a"
  by (simp_all add: own_set_def)

text \<open>Taking a prefix out of one holder's list puts it in nobody's hands.\<close>

lemma slab_core_take:
  assumes core: "slab_core own G B h" and fr: "same_frame h h'" and pl: "pl \<noteq> Client" "G pl = xs @ ys"
    and rep: "slab_rep (G(pl := ys)) h'"
  shows "slab_core (own_set own (set xs) Lost) (G(pl := ys)) B h'"
    and "\<And>x. x \<in> set xs \<Longrightarrow> slot h' (holder_class pl) x" "distinct xs" "xs \<noteq> [] \<Longrightarrow> holder_class pl < SLAB_CLASSES"
proof -
  have P: "slab_placed own G h" using core by (simp add: slab_core_def)
  note D = slab_placedD [OF P, where pl = pl]
  have "slab_placed (own_set own (set xs) Lost) (G(pl := ys)) h'"
  proof (rule slab_placed_move [OF P, where D = "{pl}"])
    fix pl' a assume "pl' \<notin> {pl}" "a \<in> set (G pl')"
    then have "own a \<noteq> pl" using slab_placedD(2) [OF P, of a pl'] by auto
    then have "a \<notin> set xs" using D(2) [of a] pl by auto
    then show "own_set own (set xs) Lost a = own a" by (rule own_setI)
  next
    fix pl' a assume a: "pl' \<in> {pl}" "a \<in> set ((G(pl := ys)) pl')"
    then have "a \<notin> set xs" "a \<in> set (G pl)" using D(1) pl by auto
    with D(2-4) [of a] a show "own_set own (set xs) Lost a = pl' \<and> holder_class pl' < SLAB_CLASSES \<and> slot h' (holder_class pl') a"
      by (auto simp: own_setI same_frame_slot [OF fr])
  qed (use D(1) pl same_frame_slot [OF fr] in auto)
  moreover have "own a \<noteq> Client" if "a \<in> set xs" for a
    using D(2) [of a] pl that by auto
  then have "slab_clients (own_set own (set xs) Lost) B h'"
    using core by (intro same_frame_clients [OF fr, of own]) (auto simp: slab_core_def own_set_def)
  ultimately show "slab_core (own_set own (set xs) Lost) (G(pl := ys)) B h'"
    using core rep same_frame_static [OF fr] by (simp add: slab_core_def)
  show "\<And>x. x \<in> set xs \<Longrightarrow> slot h' (holder_class pl) x" "distinct xs"
    using D pl same_frame_slot [OF fr] by auto
  show "xs \<noteq> [] \<Longrightarrow> holder_class pl < SLAB_CLASSES"
    using D(3) [of "hd xs"] pl by auto
qed

text \<open>Blocks in nobody's hands are added to one holder's list.\<close>

lemma slab_core_give:
  assumes core: "slab_core own G B h" and fr: "same_frame h h'" and pl: "pl \<noteq> Client" "holder_class pl < SLAB_CLASSES"
    and xs: "distinct xs" "\<And>x. x \<in> set xs \<Longrightarrow> own x = Lost \<and> slot h (holder_class pl) x" 
    and rep: "slab_rep (G(pl := xs @ G pl)) h'"
  shows "slab_core (own_set own (set xs) pl) (G(pl := xs @ G pl)) B h'"
proof -
  have P: "slab_placed own G h" using core by (simp add: slab_core_def)
  have out: "a \<notin> set xs" if "a \<in> set (G pl')" for a pl'
    using slab_placedD(2,3) [OF P that] xs(2) [of a] by auto
  have "slab_placed (own_set own (set xs) pl) (G(pl := xs @ G pl)) h'"
  proof (rule slab_placed_move [OF P, where D = "{pl}"])
    fix pl' a assume "pl' \<notin> {pl}" "a \<in> set (G pl')"
    then show "own_set own (set xs) pl a = own a" using out by (simp add: own_setI)
  next
    fix pl' assume "pl' \<in> {pl}"
    then show "distinct ((G(pl := xs @ G pl)) pl')"
      using xs(1) slab_placedD(1) [OF P, of pl] out by auto
  next
    fix pl' a assume "pl' \<in> {pl}" "a \<in> set ((G(pl := xs @ G pl)) pl')"
    then show "own_set own (set xs) pl a = pl' \<and> holder_class pl' < SLAB_CLASSES \<and> slot h' (holder_class pl') a"
      using slab_placedD(2,4) [OF P, of a pl] xs(2) pl by (auto simp: own_set_def same_frame_slot [OF fr])
  qed (auto simp: same_frame_slot [OF fr])
  moreover have "slab_clients (own_set own (set xs) pl) B h'"
    using core xs(2) by (intro same_frame_clients [OF fr, of own]) (auto simp: slab_core_def own_set_def)
  ultimately show ?thesis
    using core rep same_frame_static [OF fr] by (simp add: slab_core_def)
qed

lemma slab_clientsD:
  assumes "slab_clients own B h" "B a = Some (w, k)"
  obtains c where "w = Seam" "own a = Client" "c < SLAB_CLASSES" "slot h c a" "k \<le> class_size c"
    | u where "live h a = Some u" "k \<le> u" "slab_state h = 1 \<longrightarrow> a \<noteq> slab_base h"
  using assms unfolding slab_clients_def by blast

lemma slab_coreD:
  assumes "slab_core own G B h"
  shows "slab_rep G h" "slab_placed own G h" "slab_clients own B h" "libc_ok h" "live_wf (live h)" "mmap_ok h"
    "slab_geometry h"
  using assms by (simp_all add: slab_core_def slab_static_def)

text \<open>A client's block shares no byte with another slot.\<close>

lemma client_apart_slot:
  assumes core: "slab_core own G B h" and a: "B a = Some (w, k)" and x: "slot h c x" "own x \<noteq> Client \<or> x \<noteq> a"
  shows "apart a k x (class_size c)"
  using slab_coreD(3) [OF core] a
proof (cases rule: slab_clientsD)
  case (1 d)
  then have "a \<noteq> x" using x by auto
  with slot_apart [OF 1(4) x(1)] 1 show ?thesis by (auto elim: apart_sub)
next
  case (2 u)
  note g = slab_coreD(7) [OF core] slab_coreD(5) [OF core]
  have "slab_state h = 1" "slab_base h \<le> x" "x + class_size c \<le> slab_base h + SLAB_RESERVE"
    using slot_offset [OF g x(1)] by auto
  with libc_outside(2) [OF g 2(1) 2(3)] 2(2) show ?thesis by (auto elim: apart_sub)
qed

lemma slab_core_wf: "slab_core own G B h \<Longrightarrow> owned_wf B"
proof -
  assume core: "slab_core own G B h"
  note g = slab_coreD(7) [OF core] slab_coreD(5) [OF core]
  have "a \<noteq> 0 \<and> a + k < 2 ^ 64" if a: "B a = Some (w, k)" for a w k
    using slab_coreD(3) [OF core] a
  proof (cases rule: slab_clientsD)
    case (1 c)
    then show ?thesis using slot_offset(4,5) [OF g 1(4)] by linarith
  next
    case (2 u)
    then show ?thesis using live_wfD(1) [OF g(2) 2(1)] by linarith
  qed
  moreover have "apart a k b j" if ab: "B a = Some (w, k)" "B b = Some (v, j)" "a \<noteq> b" for a w k b v j
    using slab_coreD(3) [OF core] ab(2)
  proof (cases rule: slab_clientsD)
    case (1 c)
    then have "apart a k b (class_size c)"
      using client_apart_slot [OF core ab(1) 1(4)] ab(3) by auto
    with 1 show ?thesis by (auto elim: apart_sub)
  next
    case b: (2 y)
    from slab_coreD(3) [OF core] ab(1) show ?thesis
    proof (cases rule: slab_clientsD)
      case (1 c)
      then have "apart b j a (class_size c)"
        using client_apart_slot [OF core ab(2) 1(4)] ab(3) by auto
      with 1 show ?thesis by (auto elim: apart_sub simp: apart_sym)
    next
      case (2 x)
      from live_wfD(2) [OF g(2) 2(1) b(1) ab(3)] 2 b show ?thesis by (auto elim: apart_sub)
    qed
  qed
  ultimately show ?thesis unfolding owned_wf_def by blast
qed

text \<open>A block in nobody's hands becomes a client's, and back.\<close>

lemma slab_core_client:
  assumes core: "slab_core own G B h" and x: "own x = Lost" "slot h c x" "c < SLAB_CLASSES" "n \<le> class_size c"
  shows "fresh_block B x n" "slab_core (own(x := Client)) G (B(x \<mapsto> (Seam, n))) h"
proof -
  note g = slab_coreD(7) [OF core] slab_coreD(5) [OF core]
  have no: "B x = None"
  proof (rule ccontr)
    assume "B x \<noteq> None"
    then obtain w k where b: "B x = Some (w, k)" by auto
    from slab_coreD(3) [OF core] b show False
    proof (cases rule: slab_clientsD)
      case (2 u)
      then show False using libc_outside(1) [OF g 2(1,3)] slot_offset(2) [OF g x(2)] by simp
    qed (use x in simp)
  qed
  moreover have "apart a k x n" if "B a = Some (w, k)" for a w k
    using client_apart_slot [OF core that x(2)] x by (auto elim: apart_sub)
  ultimately show "fresh_block B x n"
    using slot_offset(4,5) [OF g x(2)] x(4) by (auto simp: fresh_block_def)
  have "x \<notin> set (G pl)" for pl
    using slab_placedD(2,3) [OF slab_coreD(2) [OF core], of x pl] x(1) by auto
  then have "slab_placed (own(x := Client)) G h"
    using slab_coreD(2) [OF core] by (auto simp: slab_placed_def)
  moreover have "slab_clients (own(x := Client)) (B(x \<mapsto> (Seam, n))) h"
    unfolding slab_clients_def
  proof (intro allI impI)
    fix a w k assume a: "(B(x \<mapsto> (Seam, n))) a = Some (w, k)"
    show "w = Seam \<and> (own(x := Client)) a = Client \<and> (\<exists>c<SLAB_CLASSES. slot h c a \<and> k \<le> class_size c)
        \<or> (\<exists>u. live h a = Some u \<and> k \<le> u \<and> (slab_state h = 1 \<longrightarrow> a \<noteq> slab_base h))"
    proof (cases "a = x")
      case True
      with a x show ?thesis by auto
    next
      case False
      with a have "B a = Some (w, k)" by simp
      with slab_coreD(3) [OF core] show ?thesis
        by (cases rule: slab_clientsD) auto
    qed
  qed
  ultimately show "slab_core (own(x := Client)) G (B(x \<mapsto> (Seam, n))) h"
    using core by (simp add: slab_core_def)
qed

lemma slab_core_unclient:
  assumes core: "slab_core own G B h" and x: "own x = Client"
  shows "slab_core (own(x := Lost)) G (B(x := None)) h"
proof -
  have "x \<notin> set (G pl)" for pl
    using slab_placedD(2,3) [OF slab_coreD(2) [OF core], of x pl] x by auto
  then have "slab_placed (own(x := Lost)) G h"
    using slab_coreD(2) [OF core] by (auto simp: slab_placed_def)
  moreover have "slab_clients (own(x := Lost)) (B(x := None)) h"
    using slab_coreD(3) [OF core] unfolding slab_clients_def by (auto split: if_splits)
  ultimately show ?thesis
    using core by (simp add: slab_core_def)
qed

text \<open>Writing inside a block that no chain goes through.\<close>

lemma slab_core_write:
  assumes core: "slab_core own G B h" and m: "\<And>pl a. a \<in> set (G pl) \<Longrightarrow> same16 (mem h) m a"
  shows "slab_core own G B (h\<lparr>mem := m\<rparr>)"
proof -
  have fr: "same_frame h (h\<lparr>mem := m\<rparr>)" by simp
  have "slab_placed own G (h\<lparr>mem := m\<rparr>)"
    using slab_coreD(2) [OF core] unfolding slab_placed_def same_frame_slot [OF fr] .
  then show ?thesis
    using core same_frame_static [OF fr] same_frame_clients [OF fr, of own B own] slab_rep_mem [of G h m] m
    by (simp add: slab_core_def)
qed

lemma same16_slot:
  assumes "slot h c x" "slot h d a" "a \<noteq> x" "x \<le> q" "q + length bs \<le> x + class_size c"
  shows "same16 m (poke m q bs) a"
proof -
  have "apart a (class_size d) x (class_size c)"
    by (rule slot_apart) (use assms in auto)
  then have "apart a 16 q (length bs)"
    using assms class_size_16 [of d] by (auto elim: apart_sub)
  then show ?thesis by (simp add: same16_def peek_poke_apart)
qed

lemma slab_core_poke:
  assumes core: "slab_core own G B h" and x: "own x \<in> {Lost, Client}" "slot h c x"
    and q: "x \<le> q" "q + length bs \<le> x + class_size c"
  shows "slab_core own G B (h\<lparr>mem := poke (mem h) q bs\<rparr>)"
    and "own x = Lost \<Longrightarrow> kept B h (h\<lparr>mem := poke (mem h) q bs\<rparr>)"
proof -
  note P = slab_coreD(2) [OF core]
  show "slab_core own G B (h\<lparr>mem := poke (mem h) q bs\<rparr>)"
  proof (rule slab_core_write [OF core])
    fix pl a assume a: "a \<in> set (G pl)"
    then have "a \<noteq> x" using slab_placedD(2,3) [OF P a] x(1) by auto
    then show "same16 (mem h) (poke (mem h) q bs) a"
      using same16_slot [OF x(2) slab_placedD(4) [OF P a] _ q] by simp
  qed
  show "kept B h (h\<lparr>mem := poke (mem h) q bs\<rparr>)" if "own x = Lost"
    unfolding kept_def
  proof (intro allI impI)
    fix a w k assume "B a = Some (w, k)"
    from client_apart_slot [OF core this x(2)] that have "apart a k q (length bs)"
      using q by (auto elim: apart_sub)
    then show "peek (mem (h\<lparr>mem := poke (mem h) q bs\<rparr>)) a k = peek (mem h) a k"
      by (simp add: peek_poke_apart)
  qed
qed

subsection \<open>Allocation\<close>

definition alloc_post :: "owned \<Rightarrow> nat \<Rightarrow> slab_heap \<Rightarrow> addr \<times> slab_heap \<Rightarrow> bool" where
  "alloc_post B n h r \<longleftrightarrow> kept B h (snd r)
     \<and> (if fst r = 0 then slab_inv B (snd r)
        else fresh_block B (fst r) n \<and> slab_inv (B(fst r \<mapsto> (Seam, n))) (snd r))"

lemma alloc_post_client:
  assumes "slab_core own G B h'" "own x = Lost" "slot h' c x" "c < SLAB_CLASSES" "n \<le> class_size c"
    and "kept B h h'"
  shows "alloc_post B n h (x, h')"
  using slab_core_client [OF assms(1-5)] assms(6)
  by (auto simp: alloc_post_def slab_inv_core fresh_block_def)

lemma slab_core_placed:
  assumes core: "slab_core own G B h" and pl: "placed (live h) n (p, u)"
  defines "h' \<equiv> h\<lparr>live := (live h)(p \<mapsto> u)\<rparr>"
  shows "fresh_block B p n \<and> slab_core own G (B(p \<mapsto> (w, n))) h'"
proof -
  note g = slab_coreD(7) [OF core] slab_coreD(5) [OF core]
  have lp: "live h p = None" by (rule placed_not_live [OF g(2) pl])
  have pu: "n \<le> u" "p + u < 2 ^ 64" "0 < u" "p \<noteq> 0" using pl by (auto simp: placed_def)
  have base: "apart (slab_base h) SLAB_RESERVE p u \<and> p \<noteq> slab_base h" if "slab_state h = 1"
    using that pl lp g(1) by (auto simp: placed_def slab_geometry_def)
  have st: "slab_static h'"
  proof -
    have "slab_geometry h'" using g(1) base unfolding h'_def by (auto simp: slab_geometry_def)
    moreover have "live_wf (live h')" using live_wf_fresh [OF g(2) pl] by (simp add: h'_def)
    moreover have "libc_ok h'" "mmap_ok h'"
      using slab_coreD(4,6) [OF core] by (simp_all add: h'_def libc_ok_def mmap_ok_def)
    ultimately show ?thesis by (simp add: slab_static_def)
  qed
  have sl: "slot h' c a = slot h c a" for c a by (simp add: h'_def slot_def slot_in_def)
  have "slab_placed own G h'" using slab_coreD(2) [OF core] unfolding slab_placed_def sl .
  moreover have "slab_rep G h'" using slab_coreD(1) [OF core] by (simp add: h'_def slab_rep_def)
  moreover have "slab_clients own (B(p \<mapsto> (w, n))) h'"
    unfolding slab_clients_def sl
  proof (intro allI impI)
    fix a v k assume a: "(B(p \<mapsto> (w, n))) a = Some (v, k)"
    show "v = Seam \<and> own a = Client \<and> (\<exists>c<SLAB_CLASSES. slot h c a \<and> k \<le> class_size c)
        \<or> (\<exists>u. live h' a = Some u \<and> k \<le> u \<and> (slab_state h' = 1 \<longrightarrow> a \<noteq> slab_base h'))"
    proof (cases "a = p")
      case True
      with a pu base show ?thesis by (auto simp: h'_def)
    next
      case False
      with a have "B a = Some (v, k)" by simp
      with slab_coreD(3) [OF core] show ?thesis
        by (cases rule: slab_clientsD) (use False in \<open>auto simp: h'_def\<close>)
    qed
  qed
  moreover have "fresh_block B p n"
    unfolding fresh_block_def
  proof (intro conjI allI impI)
    have ap: "apart a k p n \<and> a \<noteq> p" if a: "B a = Some (w, k)" for a w k
      using slab_coreD(3) [OF core] a
    proof (cases rule: slab_clientsD)
      case (1 c)
      note o = slot_offset [OF g 1(4)]
      have "apart a k p n"
        using base [OF o(1)] o(6,7) 1 pu by (auto elim!: apart_sub)
      moreover have "a \<noteq> p" using base [OF o(1)] o(6,7) pu class_size_16 [of c] by (auto simp: apart_def)
      ultimately show ?thesis by simp
    next
      case l: (2 x)
      then have "apart a x p u" using pl by (auto simp: placed_def)
      then show ?thesis using l pu lp by (auto elim: apart_sub)
    qed
    show "p \<noteq> 0" "p + n < 2 ^ 64" using pu by auto
    show "B p = None" using ap [of p] by (cases "B p") auto
    show "apart a k p n" if "B a = Some (w, k)" for a w k using ap [OF that] by simp
  qed
  ultimately show ?thesis
    using st by (simp add: slab_core_def)
qed

lemma slab_core_malloc:
  assumes core: "slab_core own G B h" and m: "malloc k h = (p, h')" and n: "n \<le> k"
  shows "kept B h h' \<and> (if p = 0 then slab_core own G B h'
    else fresh_block B p n \<and> slab_core own G (B(p \<mapsto> (w, n))) h')"
  using slab_coreD(4,5) [OF core] m
proof (cases rule: malloc_cases)
  case 1
  then show ?thesis using core by (simp add: kept_def)
next
  case (2 u)
  then have "placed (live h) n (p, u)" using n by (simp add: placed_def)
  from slab_core_placed [OF core this, of w] 2 show ?thesis by (simp add: kept_def)
qed

lemma slab_inv_shrink:
  assumes "slab_inv (B(p \<mapsto> (w, k))) h" "n \<le> k"
  shows "slab_inv (B(p \<mapsto> (w, n))) h"
proof -
  obtain own G where core: "slab_core own G (B(p \<mapsto> (w, k))) h" using assms(1) by (auto simp: slab_inv_core)
  have "slab_clients own (B(p \<mapsto> (w, n))) h"
    unfolding slab_clients_def
  proof (intro allI impI)
    fix a v j assume a: "(B(p \<mapsto> (w, n))) a = Some (v, j)"
    obtain j' where "(B(p \<mapsto> (w, k))) a = Some (v, j')" "j \<le> j'"
      using a assms(2) by (cases "a = p") auto
    from slab_coreD(3) [OF core] this(1)
    show "v = Seam \<and> own a = Client \<and> (\<exists>c<SLAB_CLASSES. slot h c a \<and> j \<le> class_size c)
        \<or> (\<exists>u. live h a = Some u \<and> j \<le> u \<and> (slab_state h = 1 \<longrightarrow> a \<noteq> slab_base h))"
      by (cases rule: slab_clientsD) (use \<open>j \<le> j'\<close> le_trans in blast)+
  qed
  then show ?thesis using core by (auto simp: slab_core_def slab_inv_core)
qed

lemma malloc_post: "slab_core own G B h \<Longrightarrow> n \<le> k \<Longrightarrow> alloc_post B n h (malloc k h)"
  using slab_core_malloc [of own G B h k "fst (malloc k h)" "snd (malloc k h)" n Seam]
  unfolding alloc_post_def slab_inv_core by (simp split: if_splits) blast+

text \<open>Popping the cache.\<close>

lemma pop_core:
  assumes core: "slab_core own G B h" and c: "c < SLAB_CLASSES" and ne: "head (bin_of h w c) \<noteq> 0"
  defines "b \<equiv> bin_of h w c"
  defines "h' \<equiv> put_bin w c (b\<lparr>head := load64 (mem h) (head b), cnt := dec32 (cnt b) 1\<rparr>) h"
  shows "\<exists>ys. G (Cache w c) = head b # ys
    \<and> slab_core (own_set own {head b} Lost) (G(Cache w c := ys)) B h' \<and> slot h' c (head b)"
proof -
  have ch: "cache_ok (mem h) b (G (Cache w c))"
    using slab_repD(1) [OF slab_coreD(1) [OF core] c] by (simp add: b_def)
  then obtain ys where ys: "G (Cache w c) = [head b] @ ys" "chain (mem h) (load64 (mem h) (head b)) ys"
    "cnt b = length (head b # ys) mod 2 ^ 32"
    using ne by (cases "G (Cache w c)") (auto simp: cache_ok_def b_def)
  have "slab_rep (G(Cache w c := ys, Window w c := G (Window w c))) h'"
    unfolding h'_def
    by (rule slab_rep_bin [OF slab_coreD(1) [OF core] c])
      (use ys slab_repD(2) [OF slab_coreD(1) [OF core] c, of w] len32 [of 1 "length (head b # ys)"] in
        \<open>auto simp: cache_ok_def window_ok_def b_def\<close>)
  then have rep: "slab_rep (G(Cache w c := ys)) h'"
    by (simp add: fun_upd_idem)
  have fr: "same_frame h h'" by (simp add: h'_def)
  from slab_core_take [OF core fr _ ys(1) rep] ys(1) show ?thesis by auto
qed

lemma slab_rep_window:
  assumes "slab_rep G h" "c < SLAB_CLASSES" "head b = head (bin_of h w c)" "cnt b = cnt (bin_of h w c)"
    and "window_ok b (class_size c) ws"
  shows "slab_rep (G(Window w c := ws)) (put_bin w c b h)"
proof -
  have "slab_rep (G(Cache w c := G (Cache w c), Window w c := ws)) (put_bin w c b h)"
    using assms slab_repD(1) [OF assms(1,2), of w] by (intro slab_rep_bin) (auto simp: cache_ok_def)
  then show ?thesis by simp
qed

lemma slab_rep_cache:
  assumes "slab_rep G h" "c < SLAB_CLASSES" "cur b = cur (bin_of h w c)" "fin b = fin (bin_of h w c)"
    and "cache_ok (mem h) b xs"
  shows "slab_rep (G(Cache w c := xs)) (put_bin w c b h)"
proof -
  have "slab_rep (G(Cache w c := xs, Window w c := G (Window w c))) (put_bin w c b h)"
    using assms slab_repD(2) [OF assms(1,2), of w] by (intro slab_rep_bin) (auto simp: window_ok_def)
  then show ?thesis by (simp add: fun_upd_idem)
qed

lemma blocks_from_Suc: "blocks_from a sz (Suc n) = a # blocks_from (a + sz) sz n"
proof -
  have "[0..<Suc n] = 0 # map Suc [0..<n]"
    by (simp add: map_Suc_upt upt_conv_Cons del: upt_Suc)
  then show ?thesis by (simp add: blocks_from_def del: upt_Suc)
qed

lemma blocks_from_add: "blocks_from a sz (n + k) = blocks_from a sz n @ blocks_from (a + n * sz) sz k"
  by (induction n arbitrary: a) (simp_all add: blocks_from_Suc algebra_simps, simp add: blocks_from_def)

lemma window_core:
  assumes core: "slab_core own G B h" and c: "c < SLAB_CLASSES" and ne: "cur (bin_of h w c) \<noteq> fin (bin_of h w c)"
  defines "b \<equiv> bin_of h w c"
  defines "h' \<equiv> put_bin w c (b\<lparr>cur := cur b + class_size c\<rparr>) h"
  shows "\<exists>ws. G (Window w c) = cur b # ws
    \<and> slab_core (own_set own {cur b} Lost) (G(Window w c := ws)) B h' \<and> slot h' c (cur b)"
proof -
  note rep = slab_coreD(1) [OF core]
  obtain n where n: "fin b = cur b + n * class_size c" "G (Window w c) = blocks_from (cur b) (class_size c) n"
    using slab_repD(2) [OF rep c, of w] by (auto simp: window_ok_def b_def)
  then obtain k where k: "n = Suc k" using ne by (cases n) (auto simp: b_def)
  have ws: "G (Window w c) = [cur b] @ blocks_from (cur b + class_size c) (class_size c) k"
    using n k by (simp add: blocks_from_Suc)
  have r: "slab_rep (G(Window w c := blocks_from (cur b + class_size c) (class_size c) k)) h'"
    unfolding h'_def by (rule slab_rep_window [OF rep c]) (use n k in \<open>auto simp: window_ok_def b_def\<close>)
  have fr: "same_frame h h'" by (simp add: h'_def)
  from slab_core_take [OF core fr _ ws r] ws show ?thesis by auto
qed

text \<open>An empty cache takes over blocks that are in nobody's hands, as a chain.\<close>

lemma give_cache:
  assumes core: "slab_core own G B h" and c: "c < SLAB_CLASSES" and e: "G (Cache w c) = []"
    and xs: "distinct xs" "\<And>x. x \<in> set xs \<Longrightarrow> own x = Lost \<and> slot h c x" "chain (mem h) p xs"
    and n: "n = length xs" "n < 2 ^ 32"
  shows "slab_core (own_set own (set xs) (Cache w c)) (G(Cache w c := xs)) B
           (put_bin w c ((bin_of h w c)\<lparr>head := p, cnt := n\<rparr>) h)"
proof -
  let ?h = "put_bin w c ((bin_of h w c)\<lparr>head := p, cnt := n\<rparr>) h"
  have "slab_rep (G(Cache w c := xs @ G (Cache w c))) ?h"
    using slab_coreD(1) [OF core] c xs n e by (intro slab_rep_cache) (auto simp: cache_ok_def)
  from slab_core_give [OF core _ _ _ xs(1) _ this] xs c e show ?thesis by simp
qed

lemma slab_rep_shared:
  assumes "slab_rep G h" "c < SLAB_CLASSES" "bump g = bump (slab_global h c)" "limit g = limit (slab_global h c)"
    and "shared_ok (mem h) g bs ls"
  shows "slab_rep (G(Batches c := bs, Loose c := ls)) (set_slab_global c g h)"
proof -
  have "slab_rep (G(Batches c := bs, Loose c := ls, Tail c := G (Tail c))) (set_slab_global c g h)"
    using assms slab_repD(4) [OF assms(1,2)] by (intro slab_rep_global) (auto simp: tail_ok_def)
  then show ?thesis by (simp add: fun_upd_idem fun_upd_twist)
qed

lemma cache_empty: "slab_core own G B h \<Longrightarrow> c < SLAB_CLASSES \<Longrightarrow> head (bin_of h w c) = 0 \<Longrightarrow> G (Cache w c) = []"
  using slab_repD(1) [OF slab_coreD(1), of own G B h c w] by (cases "G (Cache w c)") (auto simp: cache_ok_def)

lemma batch_core:
  assumes core: "slab_core own G B h" and c: "c < SLAB_CLASSES" and e: "head (bin_of h w c) = 0"
  defines "g \<equiv> slab_global h c"
  defines "p \<equiv> batches g"
  assumes p: "p \<noteq> 0"
  shows "\<exists>own' G'. slab_core own' G' B
      (put_bin w c ((bin_of h w c)\<lparr>head := load64 (mem h) p, cnt := SLAB_BATCH - 1\<rparr>)
        (set_slab_global c (g\<lparr>batches := load64 (mem h) (p + 8)\<rparr>) h)) \<and> own' p = Lost \<and> slot h c p"
proof -
  note rep = slab_coreD(1) [OF core]
  have sh: "shared_ok (mem h) g (G (Batches c)) (G (Loose c))" using slab_repD(3) [OF rep c] by (simp add: g_def)
  then obtain xss where "batch_chain (mem h) p xss" "G (Batches c) = concat xss" 
    by (auto simp: shared_ok_def p_def)
  then obtain xs xss' where xs: "length xs = SLAB_BATCH" "chain (mem h) p xs"
    "batch_chain (mem h) (load64 (mem h) (p + 8)) xss'" "G (Batches c) = xs @ concat xss'"
    using p by (cases xss) auto
  then obtain ys where ys: "xs = p # ys" by (cases xs) (auto simp: SLAB_BATCH_def)
  let ?h = "set_slab_global c (g\<lparr>batches := load64 (mem h) (p + 8)\<rparr>) h"
  have "slab_rep (G(Batches c := concat xss', Loose c := G (Loose c))) ?h"
    using rep c xs sh by (intro slab_rep_shared) (auto simp: g_def shared_ok_def)
  then have r: "slab_rep (G(Batches c := concat xss')) ?h" by (simp add: fun_upd_idem)
  have fr: "same_frame h ?h" by simp
  note t = slab_core_take [OF core fr _ xs(4) r]
  have core1: "slab_core (own_set own (set xs) Lost) (G(Batches c := concat xss')) B ?h"
    and sl: "\<And>x. x \<in> set xs \<Longrightarrow> slot ?h c x" and d: "distinct xs"
    using t by simp_all
  have "slab_core (own_set (own_set own (set xs) Lost) (set ys) (Cache w c))
      (G(Batches c := concat xss', Cache w c := ys)) B
      (put_bin w c ((bin_of ?h w c)\<lparr>head := load64 (mem h) p, cnt := SLAB_BATCH - 1\<rparr>) ?h)"
    by (rule give_cache [OF core1 c])
      (use cache_empty [OF core c e] ys d sl xs in \<open>auto simp: own_set_def SLAB_BATCH_def\<close>)
  moreover have "own_set (own_set own (set xs) Lost) (set ys) (Cache w c) p = Lost"
    using ys d by (auto simp: own_set_def)
  moreover have "slot h c p" using sl [of p] ys same_frame_slot [OF fr] by simp
  ultimately show ?thesis by auto
qed

lemma mem_set_global: "(set_slab_global c g h)\<lparr>mem := m\<rparr> = set_slab_global c g (h\<lparr>mem := m\<rparr>)"
  by (simp add: set_slab_global_def)

lemma store64_poke: "store64 m a v = poke m a (le_bytes 8 v)"
  by (simp add: store64_def)

lemma store64_keeps: "apart x 8 a 8 \<Longrightarrow> load64 (store64 m a v) x = load64 m x"
  by (rule load64_store64_apart)

lemma slots_apart8: "slot h c x \<Longrightarrow> slot h d y \<Longrightarrow> x \<noteq> y \<Longrightarrow> apart x 8 y 8"
  using slot_apart [of h c x d y] class_size_16 [of c] class_size_16 [of d] by (auto elim: apart_sub)

lemma loose_core:
  assumes core: "slab_core own G B h" and c: "c < SLAB_CLASSES" and e: "head (bin_of h w c) = 0"
  defines "g \<equiv> slab_global h c"
  defines "p \<equiv> loose g"
  assumes p: "p \<noteq> 0" and lw: "loose_walk (mem h) (SLAB_BATCH - 1) p 1 = (l, n)"
  defines "m \<equiv> store64 (mem h) l 0"
  defines "h' \<equiv> put_bin w c ((bin_of h w c)\<lparr>head := load64 m p, cnt := n - 1\<rparr>)
        (set_slab_global c (g\<lparr>loose := load64 (mem h) l, loose_n := dec32 (loose_n g) n\<rparr>) (h\<lparr>mem := m\<rparr>))"
  shows "(\<exists>own' G'. slab_core own' G' B h' \<and> own' p = Lost) \<and> slot h c p \<and> kept B h h'"
proof -
  note rep = slab_coreD(1) [OF core]
  have sh: "shared_ok (mem h) g (G (Batches c)) (G (Loose c))" using slab_repD(3) [OF rep c] by (simp add: g_def)
  define xs where "xs = take SLAB_BATCH (G (Loose c))"
  define ys where "ys = drop SLAB_BATCH (G (Loose c))"
  have G: "G (Loose c) = xs @ ys" by (simp add: xs_def ys_def)
  have ch: "chain (mem h) p (xs @ ys)" using sh G by (simp add: shared_ok_def p_def)
  then have xne: "xs \<noteq> []" using p by (cases "xs @ ys") (auto simp: xs_def ys_def SLAB_BATCH_def)
  have B: "Suc (SLAB_BATCH - 1) = SLAB_BATCH" by (simp add: SLAB_BATCH_def)
  have tk: "take (Suc (SLAB_BATCH - 1)) (xs @ ys) = xs"
    unfolding B G [symmetric] by (simp add: xs_def)
  have "(l, n) = (last xs, 1 + (length xs - 1))"
    using loose_walk_last [OF ch, of "SLAB_BATCH - 1" 1] xne unfolding lw tk by simp
  then have l: "l = last xs" "n = length xs" using xne by (cases xs; simp)+
  have len: "length xs \<le> SLAB_BATCH" by (simp add: xs_def)
  let ?h = "set_slab_global c (g\<lparr>loose := load64 (mem h) l, loose_n := dec32 (loose_n g) n\<rparr>) h"
  have "slab_rep (G(Batches c := G (Batches c), Loose c := ys)) ?h"
    using rep c sh chain_rest [OF ch xne] l len len32 [of "length xs" "length (xs @ ys)"] G
    by (intro slab_rep_shared) (auto simp: g_def shared_ok_def SLAB_BATCH_def)
  then have r: "slab_rep (G(Loose c := ys)) ?h" by simp
  have fr: "same_frame h ?h" by simp
  note t = slab_core_take [OF core fr _ G r]
  have core1: "slab_core (own_set own (set xs) Lost) (G(Loose c := ys)) B ?h"
    and sl: "\<And>x. x \<in> set xs \<Longrightarrow> slot ?h c x" and d: "distinct xs"
    using t by simp_all
  have lx: "l \<in> set xs" using l xne by simp
  have core2: "slab_core (own_set own (set xs) Lost) (G(Loose c := ys)) B (?h\<lparr>mem := m\<rparr>)"
    and k: "kept B ?h (?h\<lparr>mem := m\<rparr>)"
    using slab_core_poke [OF core1 _ sl [OF lx], of l "le_bytes 8 0"] lx class_size_16 [of c]
    by (auto simp: own_set_def m_def store64_poke)
  have p_hd: "p = hd xs" using chain_head [OF ch] xne by simp
  then obtain zs where zs: "xs = p # zs" using xne by (cases xs) auto
  have "load64 m x = load64 (mem h) x" if "x \<in> set xs" "x \<noteq> last xs" for x
    using slots_apart8 [OF sl sl, of x l] that lx l unfolding m_def by (intro store64_keeps) auto
  then have "chain m p xs"
    by (intro chain_cut [OF ch xne d]) (auto simp: m_def l load64_store64)
  then have "chain m (load64 m p) zs" using zs by simp
  moreover have "slot (?h\<lparr>mem := m\<rparr>) c x" if "x \<in> set zs" for x
    using sl [of x] that zs same_frame_slot [of ?h "?h\<lparr>mem := m\<rparr>" c x] by simp
  moreover have "length zs < 2 ^ 32" using len zs by (simp add: SLAB_BATCH_def)
  ultimately have "slab_core (own_set (own_set own (set xs) Lost) (set zs) (Cache w c))
      (G(Loose c := ys, Cache w c := zs)) B
      (put_bin w c ((bin_of (?h\<lparr>mem := m\<rparr>) w c)\<lparr>head := load64 m p, cnt := n - 1\<rparr>) (?h\<lparr>mem := m\<rparr>))"
    using cache_empty [OF core c e] d l zs
    by (intro give_cache [OF core2 c]) (auto simp: own_set_def)
  moreover have "own_set (own_set own (set xs) Lost) (set zs) (Cache w c) p = Lost"
    using zs d by (auto simp: own_set_def)
  ultimately have "\<exists>own' G'. slab_core own' G' B h' \<and> own' p = Lost"
    unfolding h'_def by (auto simp: mem_set_global)
  moreover have "slot h c p" using sl [of p] zs same_frame_slot [OF fr] by simp
  moreover have "kept B h h'" using k by (simp add: kept_def h'_def)
  ultimately show ?thesis by blast
qed

lemma slab_rep_tail:
  assumes "slab_rep G h" "c < SLAB_CLASSES" "batches g = batches (slab_global h c)" "loose g = loose (slab_global h c)"
    "loose_n g = loose_n (slab_global h c)" "tail_ok g (class_size c) ts"
  shows "slab_rep (G(Tail c := ts)) (set_slab_global c g h)"
proof -
  have "slab_rep (G(Batches c := G (Batches c), Loose c := G (Loose c), Tail c := ts)) (set_slab_global c g h)"
    using assms slab_repD(3) [OF assms(1,2)] by (intro slab_rep_global) (auto simp: shared_ok_def)
  then show ?thesis by simp
qed

lemma window_empty:
  "slab_core own G B h \<Longrightarrow> c < SLAB_CLASSES \<Longrightarrow> cur (bin_of h w c) = fin (bin_of h w c) \<Longrightarrow> G (Window w c) = []"
  using slab_repD(2) [OF slab_coreD(1), of own G B h c w] class_size_16 [of c]
  by (auto simp: window_ok_def blocks_from_def)

text \<open>Cutting a window from the class's current span.\<close>

lemma tail_core:
  assumes core: "slab_core own G B h" and c: "c < SLAB_CLASSES" and e: "cur (bin_of h w c) = fin (bin_of h w c)"
  defines "g \<equiv> slab_global h c"
  defines "p \<equiv> bump g"
  assumes fit: "p + Suc k * class_size c \<le> limit g"
  defines "h' \<equiv> put_bin w c ((bin_of h w c)\<lparr>cur := p + class_size c, fin := p + Suc k * class_size c\<rparr>)
        (set_slab_global c (g\<lparr>bump := p + Suc k * class_size c\<rparr>) h)"
  shows "\<exists>own' G'. slab_core own' G' B h' \<and> own' p = Lost \<and> slot h c p"
proof -
  let ?sz = "class_size c"
  note rep = slab_coreD(1) [OF core]
  define ts where "ts = blocks_from (p + Suc k * ?sz) ?sz ((limit g - (p + Suc k * ?sz)) div ?sz)"
  have "(limit g - p) div ?sz = Suc k + (limit g - (p + Suc k * ?sz)) div ?sz"
  proof -
    have "limit g - p = Suc k * ?sz + (limit g - (p + Suc k * ?sz))" using fit by simp
    then show ?thesis by (simp only: div_mult_self3 class_size_pos neq0_conv simp_thms)
  qed
  then have G: "G (Tail c) = blocks_from p ?sz (Suc k) @ ts"
    using slab_repD(4) [OF rep c] by (simp only: tail_ok_def g_def [symmetric] p_def [symmetric] blocks_from_add ts_def)
  let ?h = "set_slab_global c (g\<lparr>bump := p + Suc k * ?sz\<rparr>) h"
  have r: "slab_rep (G(Tail c := ts)) ?h"
    by (rule slab_rep_tail [OF rep c]) (use fit in \<open>auto simp: g_def tail_ok_def ts_def\<close>)
  have fr: "same_frame h ?h" by simp
  note t = slab_core_take [OF core fr _ G r]
  let ?ws = "blocks_from (p + ?sz) ?sz k"
  have bl: "blocks_from p ?sz (Suc k) = p # ?ws" by (rule blocks_from_Suc)
  have core1: "slab_core (own_set own (set (p # ?ws)) Lost) (G(Tail c := ts)) B ?h"
    and sl: "\<And>x. x \<in> set (p # ?ws) \<Longrightarrow> slot ?h c x" and d: "distinct (p # ?ws)"
    using t by (simp_all add: bl)
  have emp: "G (Window w c) = []" by (rule window_empty [OF core c e])
  have rw: "slab_rep ((G(Tail c := ts))(Window w c := ?ws @ (G(Tail c := ts)) (Window w c))) h'"
    unfolding h'_def using emp
    by (intro slab_rep_window [OF r c]) (auto simp: window_ok_def)
  have "slab_core (own_set (own_set own (set (p # ?ws)) Lost) (set ?ws) (Window w c))
      ((G(Tail c := ts))(Window w c := ?ws @ (G(Tail c := ts)) (Window w c))) B h'"
    by (rule slab_core_give [OF core1 _ _ _ _ _ rw])
      (use d sl c in \<open>auto simp: h'_def own_set_def\<close>)
  moreover have "own_set (own_set own (set (p # ?ws)) Lost) (set ?ws) (Window w c) p = Lost"
    using d by (auto simp: own_set_def)
  moreover have "slot h c p" using sl [of p] same_frame_slot [OF fr] by simp
  ultimately show ?thesis by blast
qed

text \<open>A new span for the class: the old one's tail is given up.\<close>

lemma span_core:
  assumes core: "slab_core own G B h" and c: "c < SLAB_CLASSES"
  defines "fr \<equiv> slab_span_next h" and "g \<equiv> slab_global h c"
  assumes fit: "fr + SLAB_SPAN \<le> slab_base h + slab_span h"
  defines "h1 \<equiv> h\<lparr>slab_span_next := fr + SLAB_SPAN,
                    slab_span_class := (slab_span_class h)((fr - slab_base h) div SLAB_SPAN := c)\<rparr>"
  defines "h' \<equiv> set_slab_global c (g\<lparr>bump := fr + (c * SLAB_STAGGER) mod 4096, limit := fr + SLAB_SPAN\<rparr>) h1"
  shows "\<exists>own' G'. slab_core own' G' B h'"
proof -
  note g = slab_coreD(7) [OF core] slab_coreD(5) [OF core] and P = slab_coreD(2) [OF core]
  obtain n where n: "fr = slab_base h + n * SLAB_SPAN"
    using g(1) unfolding slab_geometry_def fr_def by blast
  have pos: "0 < SLAB_SPAN" by (simp add: SLAB_SPAN_def)
  have idx: "(fr - slab_base h) div SLAB_SPAN = n" using n pos by simp
  have old: "i \<noteq> n" if "slab_base h + (i + 1) * SLAB_SPAN \<le> fr" for i
    using that n pos by (auto simp: algebra_simps)
  have sl: "slot h1 d a" if "slot h d a" for d a
  proof -
    obtain i where i: "slot_in h i d a" using \<open>slot h d a\<close> by (auto simp: slot_def)
    then have "i \<noteq> n" "slab_base h + (i + 1) * SLAB_SPAN \<le> fr"
      using old [of i] by (auto simp: slot_in_def fr_def)
    then have "slot_in h1 i d a" using i unfolding slot_in_def h1_def idx by auto
    then show ?thesis by (auto simp: slot_def)
  qed
  let ?own = "\<lambda>a. if fr \<le> a then Lost else own a"
  have below: "a < fr" if "slot h d a" for d a
    using slot_bounds [OF that] class_size_16 [of d] by (auto simp: fr_def)
  have core1: "slab_core ?own G B h1"
  proof -
    have "slab_placed ?own G h1"
      using slab_placedD [OF P] sl below unfolding slab_placed_def by (metis not_le)
    moreover have "slab_clients ?own B h1"
      unfolding slab_clients_def
    proof (intro allI impI)
      fix a w k assume "B a = Some (w, k)"
      with slab_coreD(3) [OF core] show "w = Seam \<and> ?own a = Client \<and> (\<exists>c<SLAB_CLASSES. slot h1 c a \<and> k \<le> class_size c)
        \<or> (\<exists>u. live h1 a = Some u \<and> k \<le> u \<and> (slab_state h1 = 1 \<longrightarrow> a \<noteq> slab_base h1))"
      proof (cases rule: slab_clientsD)
        case (1 d)
        then show ?thesis using sl [OF 1(4)] below [OF 1(4)] by auto
      qed (auto simp: h1_def)
    qed
    moreover have "slab_rep G h1"
    proof -
      have "bin_of h1 w d = bin_of h w d" for w d by (cases w) (simp_all add: h1_def bin_of_def)
      then show ?thesis using slab_coreD(1) [OF core] by (simp add: slab_rep_def h1_def)
    qed
    moreover have "slab_geometry h1"
    proof -
      have "i < n" if "i \<noteq> n" "slab_base h + (i + 1) * SLAB_SPAN \<le> fr + SLAB_SPAN" for i
        using that n pos by (simp add: algebra_simps)
      then have "slab_base h + (i + 1) * SLAB_SPAN \<le> fr" if "i \<noteq> n" "slab_base h + (i + 1) * SLAB_SPAN \<le> fr + SLAB_SPAN" for i
        using that n mult_le_mono1 [of "i + 1" n SLAB_SPAN] by fastforce
      moreover have "fr + SLAB_SPAN = slab_base h + (n + 1) * SLAB_SPAN" using n by simp
      ultimately show ?thesis
        using g(1) fit c unfolding slab_geometry_def h1_def idx
        by (auto simp: fr_def simp del: mult_Suc)
    qed
    ultimately show ?thesis
      using slab_coreD(4-6) [OF core] by (simp add: slab_core_def slab_static_def libc_ok_def mmap_ok_def h1_def)
  qed
  let ?lim = "fr + SLAB_SPAN" and ?sz = "class_size c"
  let ?h2 = "set_slab_global c (g\<lparr>bump := ?lim, limit := ?lim\<rparr>) h1"
  have r2: "slab_rep (G(Tail c := [])) ?h2"
    by (rule slab_rep_tail [OF slab_coreD(1) [OF core1] c]) (auto simp: g_def h1_def tail_ok_def blocks_from_def)
  have core2: "slab_core (own_set ?own (set (G (Tail c))) Lost) (G(Tail c := [])) B ?h2"
    by (rule slab_core_take(1) [OF core1 _ _ _ r2]) auto
  let ?start = "fr + (c * SLAB_STAGGER) mod 4096"
  let ?ts = "blocks_from ?start ?sz ((?lim - ?start) div ?sz)"
  have st: "(c * SLAB_STAGGER) mod 4096 < 4096" by simp
  then have le: "?start \<le> ?lim" by (simp add: SLAB_SPAN_def)
  have r3: "slab_rep ((G(Tail c := []))(Tail c := ?ts @ (G(Tail c := [])) (Tail c))) h'"
  proof -
    have "slab_rep ((G(Tail c := []))(Tail c := ?ts)) (set_slab_global c (g\<lparr>bump := ?start, limit := ?lim\<rparr>) ?h2)"
      by (rule slab_rep_tail [OF slab_coreD(1) [OF core2] c]) (use le in \<open>auto simp: g_def h1_def tail_ok_def\<close>)
    then show ?thesis by (simp add: h'_def set_slab_global_def)
  qed
  have inside: "own_set ?own (set (G (Tail c))) Lost x = Lost \<and> slot ?h2 c x" if x: "x \<in> set ?ts" for x
  proof -
    have "x \<in> (\<lambda>k. ?start + k * ?sz) ` {0..<(?lim - ?start) div ?sz}"
      using x by (simp add: blocks_from_def)
    then obtain k where k: "x = ?start + k * ?sz" "k \<in> {0..<(?lim - ?start) div ?sz}"
      by (rule imageE)
    then have k: "x = ?start + k * ?sz" "k < (?lim - ?start) div ?sz" by simp_all
    have "Suc k * ?sz \<le> (?lim - ?start) div ?sz * ?sz" using k(2) by (intro mult_le_mono1) simp
    also have "\<dots> \<le> ?lim - ?start" by simp
    finally have "x + ?sz \<le> ?lim" using k(1) le by simp
    then have "slot_in h1 n c x"
      using k(1) n unfolding slot_in_def h1_def idx by (auto simp: algebra_simps)
    moreover have "fr \<le> x" using k(1) by simp
    ultimately show ?thesis
      using same_frame_slot [of h1 ?h2 c x] by (auto simp: own_set_def slot_def)
  qed
  have d: "distinct ?ts"
    using class_size_pos [of c] by (auto simp: blocks_from_def distinct_map inj_on_def)
  have "slab_core (own_set (own_set ?own (set (G (Tail c))) Lost) (set ?ts) (Tail c))
      ((G(Tail c := []))(Tail c := ?ts @ (G(Tail c := [])) (Tail c))) B h'"
    by (rule slab_core_give [OF core2 _ _ _ d _ r3]) (use inside c in \<open>auto simp: h'_def same_frame_def\<close>)
  then show ?thesis by blast
qed

lemma set_slab_global_twice [simp]:
  "set_slab_global c g (set_slab_global c g' h) = set_slab_global c g h"
  by (simp add: set_slab_global_def)

lemma slab_window_Suc: "c < SLAB_CLASSES \<Longrightarrow> \<exists>k. slab_window (class_size c) = Suc k * class_size c"
proof -
  let ?q = "if SLAB_WINDOW_BYTES div class_size c > 8 then SLAB_WINDOW_BYTES div class_size c else 8"
  have "slab_window (class_size c) = ?q * class_size c" by (simp add: slab_window_def)
  moreover have "?q = Suc (?q - 1)" by simp
  ultimately show ?thesis by metis
qed

lemma slab_window_bound: "c < SLAB_CLASSES \<Longrightarrow> slab_window (class_size c) \<le> 8192"
proof -
  assume c: "c < SLAB_CLASSES"
  have "class_size c * (8192 div class_size c) \<le> 8192" by (rule times_div_less_eq_dividend)
  moreover have "class_size c * 8 \<le> 8192"
    using c by (simp add: class_size_def SLAB_GRAIN_def SLAB_CLASSES_def)
  ultimately show ?thesis by (simp add: slab_window_def SLAB_WINDOW_BYTES_def)
qed

lemma refill_span_post:
  assumes core: "slab_core own G B h" and c: "c < SLAB_CLASSES" and n: "n \<le> class_size c"
    and e: "cur (slab_bin c h) = fin (slab_bin c h)"
  shows "alloc_post B n h (slab_refill_span c h)"
proof -
  let ?sz = "class_size c" and ?g = "slab_global h c"
  obtain k where k: "slab_window ?sz = Suc k * ?sz" using slab_window_Suc [OF c] by blast
  show ?thesis
  proof (cases "bump ?g + slab_window ?sz > limit ?g")
    case False
    obtain own' G' where *: "slab_core own' G' B (put_bin (me h) c
        ((bin_of h (me h) c)\<lparr>cur := bump ?g + ?sz, fin := bump ?g + Suc k * ?sz\<rparr>)
        (set_slab_global c (?g\<lparr>bump := bump ?g + Suc k * ?sz\<rparr>) h))" (is "slab_core _ _ _ ?h")
      "own' (bump ?g) = Lost" "slot h c (bump ?g)"
      using tail_core [OF core c, of "me h" k] e False k by (auto simp: slab_bin_me)
    have "slab_refill_span c h = (bump ?g, ?h)"
      using False by (simp add: slab_refill_span_def Let_def k slab_bin_me set_slab_bin_me)
    moreover have "slot ?h c (bump ?g)" using *(3) same_frame_slot [of h ?h] by (simp add: same_frame_def)
    ultimately show ?thesis
      using alloc_post_client [OF *(1,2) _ c n] kept_mem [of ?h h B] by simp
  next
    case new: True
    let ?fr = "slab_span_next h"
    show ?thesis
    proof (cases "?fr + SLAB_SPAN \<le> slab_base h + slab_span h")
      case False
      then show ?thesis using new malloc_post [OF core n] by (simp add: slab_refill_span_def Let_def)
    next
      case True
      let ?h1 = "h\<lparr>slab_span_next := ?fr + SLAB_SPAN,
                   slab_span_class := (slab_span_class h)((?fr - slab_base h) div SLAB_SPAN := c)\<rparr>"
      let ?start = "?fr + (c * SLAB_STAGGER) mod 4096"
      let ?g1 = "?g\<lparr>bump := ?start, limit := ?fr + SLAB_SPAN\<rparr>"
      let ?h2 = "set_slab_global c ?g1 ?h1"
      obtain own1 G1 where core1: "slab_core own1 G1 B ?h2" using span_core [OF core c True] by blast
      have bins: "bin_of ?h1 w d = bin_of h w d" for w d by (cases w) (simp_all add: bin_of_def)
      have st: "(c * SLAB_STAGGER) mod 4096 < 4096" by simp
      have fit: "?start + Suc k * ?sz \<le> ?fr + SLAB_SPAN"
        using slab_window_bound [OF c] st unfolding k by (simp add: SLAB_SPAN_def)
      obtain own' G' where *: "slab_core own' G' B (put_bin (me h) c
          ((bin_of ?h2 (me h) c)\<lparr>cur := ?start + ?sz, fin := ?start + Suc k * ?sz\<rparr>)
          (set_slab_global c (?g1\<lparr>bump := ?start + Suc k * ?sz\<rparr>) ?h2))" (is "slab_core _ _ _ ?h")
        "own' ?start = Lost" "slot ?h2 c ?start"
        using tail_core [OF core1 c, of "me h" k] e fit by (auto simp: slab_bin_me bins)
      have "me ?h1 = me h" by (simp add: me_def on_worker_def prismio_memory_threads_are_enabled_def)
      moreover have "?g\<lparr>bump := ?start + Suc k * ?sz, limit := ?fr + SLAB_SPAN\<rparr> = ?g1\<lparr>bump := ?start + Suc k * ?sz\<rparr>"
        by simp
      ultimately have "slab_refill_span c h = (?start, ?h)"
        unfolding slab_refill_span_def Let_def k slab_bin_me set_slab_bin_me
        using new [unfolded k] True by (simp only: if_True bins bin_of_other me_other set_slab_global_twice)
      moreover have "slot ?h c ?start" using *(3) same_frame_slot [of ?h2 ?h] by (simp add: same_frame_def)
      ultimately show ?thesis
        using alloc_post_client [OF *(1,2) _ c n] kept_mem [of ?h h B] by simp
    qed
  qed
qed

lemma refill_shared_post:
  assumes core: "slab_core own G B h" and c: "c < SLAB_CLASSES" and n: "n \<le> class_size c"
    and e: "head (slab_bin c h) = 0" "cur (slab_bin c h) = fin (slab_bin c h)"
  shows "alloc_post B n h (slab_refill_shared c h)"
proof -
  let ?g = "slab_global h c"
  have hd: "head (bin_of h (me h) c) = 0" using e by (simp add: slab_bin_me)
  consider "batches ?g \<noteq> 0" | "batches ?g = 0" "loose ?g \<noteq> 0" | "batches ?g = 0" "loose ?g = 0" by blast
  then show ?thesis
  proof cases
    case 1
    let ?h = "put_bin (me h) c ((bin_of h (me h) c)\<lparr>head := load64 (mem h) (batches ?g), cnt := SLAB_BATCH - 1\<rparr>)
        (set_slab_global c (?g\<lparr>batches := load64 (mem h) (batches ?g + 8)\<rparr>) h)"
    obtain own' G' where *: "slab_core own' G' B ?h" "own' (batches ?g) = Lost" "slot h c (batches ?g)"
      using batch_core [OF core c hd] 1 by blast
    have "slab_refill_shared c h = (batches ?g, ?h)"
      using 1 by (simp add: slab_refill_shared_def Let_def slab_bin_me set_slab_bin_me)
    moreover have "slot ?h c (batches ?g)" using *(3) same_frame_slot [of h ?h] by (simp add: same_frame_def)
    ultimately show ?thesis
      using alloc_post_client [OF *(1,2) _ c n] kept_mem [of ?h h B] by simp
  next
    case 2
    obtain l j where lw: "loose_walk (mem h) (SLAB_BATCH - 1) (loose ?g) 1 = (l, j)" by (metis surj_pair)
    let ?m = "store64 (mem h) l 0"
    let ?h = "put_bin (me h) c ((bin_of h (me h) c)\<lparr>head := load64 ?m (loose ?g), cnt := j - 1\<rparr>)
        (set_slab_global c (?g\<lparr>loose := load64 (mem h) l, loose_n := dec32 (loose_n ?g) j\<rparr>) (h\<lparr>mem := ?m\<rparr>))"
    obtain own' G' where *: "slab_core own' G' B ?h" "own' (loose ?g) = Lost" "slot h c (loose ?g)" "kept B h ?h"
      using loose_core [OF core c hd 2(2) lw] by blast
    have "slab_refill_shared c h = (loose ?g, ?h)"
      using 2 lw by (simp add: slab_refill_shared_def Let_def slab_bin_me set_slab_bin_me)
    moreover have "slot ?h c (loose ?g)" using *(3) same_frame_slot [of h ?h] by (simp add: same_frame_def)
    ultimately show ?thesis
      using alloc_post_client [OF *(1,2) _ c n *(4)] by simp
  next
    case 3
    then show ?thesis
      using refill_span_post [OF core c n e(2)] by (simp add: slab_refill_shared_def Let_def)
  qed
qed

lemma init_core:
  assumes core: "slab_core own G B h" and s: "slab_state h = 0"
  shows "\<exists>own' G'. slab_core own' G' B (slab_init h)" "mem (slab_init h) = mem h" "on_worker (slab_init h) = on_worker h"
    "self (slab_init h) = self h" "bin_of (slab_init h) = bin_of h" "slab_state (slab_init h) \<noteq> 0"
proof -
  show "mem (slab_init h) = mem h" "on_worker (slab_init h) = on_worker h" "self (slab_init h) = self h"
    "slab_state (slab_init h) \<noteq> 0"
    by (auto simp: slab_init_def Let_def on_worker_def prismio_memory_threads_are_enabled_def split: option.splits)
  show bins: "bin_of (slab_init h) = bin_of h"
    by (auto simp: slab_init_def Let_def bin_of_def fun_eq_iff split: option.splits)
  note g = slab_coreD(7) [OF core] slab_coreD(5) [OF core]
  have nx: "slab_span_next h = slab_base h" "slab_span h = 0"
    using g(1) s by (auto simp: slab_geometry_def)
  have noslot: "\<not> slot h c a" for c a
    using slot_bounds [of h c a] class_size_16 [of c] nx by auto
  have emp: "G pl = []" for pl
    using slab_placedD(4) [OF slab_coreD(2) [OF core], of "hd (G pl)" pl] noslot by (cases "G pl") auto
  have placed: "slab_placed own G h'" for h' by (simp add: slab_placed_def emp)
  have rep: "slab_rep G (slab_init h)"
  proof -
    have "slab_global (slab_init h) = slab_global h" "mem (slab_init h) = mem h"
      by (auto simp: slab_init_def Let_def split: option.splits)
    then show ?thesis using slab_coreD(1) [OF core] by (simp add: slab_rep_def bins)
  qed
  have B: "\<exists>u. live h a = Some u \<and> k \<le> u" if "B a = Some (w, k)" for a w k
    using slab_coreD(3) [OF core] that by (cases rule: slab_clientsD) (use noslot in auto)
  show "\<exists>own' G'. slab_core own' G' B (slab_init h)"
  proof (cases "slab_off h \<or> mmap h (live h) SLAB_RESERVE = None")
    case True
    then have i: "slab_init h = h\<lparr>slab_state := -1\<rparr>" by (auto simp: slab_init_def Let_def)
    have "slab_clients own B (slab_init h)" using B unfolding slab_clients_def i by auto
    moreover have "slab_static (slab_init h)"
      using core nx s unfolding i slab_core_def slab_static_def
      by (auto simp: slab_geometry_def libc_ok_def mmap_ok_def)
    ultimately show ?thesis using rep placed by (auto simp: slab_core_def)
  next
    case False
    then obtain m where m: "mmap h (live h) SLAB_RESERVE = Some m" "\<not> slab_off h" by auto
    have pl: "placed (live h) SLAB_RESERVE (m, SLAB_RESERVE)"
      using slab_coreD(6) [OF core] g(2) m(1) by (auto simp: mmap_ok_def)
    have i: "slab_init h = h\<lparr>slab_state := 1, live := (live h)(m \<mapsto> SLAB_RESERVE), slab_base := m,
        slab_span_next := m, slab_span := SLAB_RESERVE\<rparr>" using m by (simp add: slab_init_def Let_def)
    have nl: "live h m = None" by (rule placed_not_live [OF g(2) pl])
    have "slab_clients own B (slab_init h)"
      unfolding slab_clients_def
    proof (intro allI impI disjI2)
      fix a w k assume "B a = Some (w, k)"
      from B [OF this] obtain u where "live h a = Some u" "k \<le> u" by blast
      with nl show "\<exists>u. live (slab_init h) a = Some u \<and> k \<le> u \<and> (slab_state (slab_init h) = 1 \<longrightarrow> a \<noteq> slab_base (slab_init h))"
        by (auto simp: i)
    qed
    moreover have "slab_geometry (slab_init h)"
    proof -
      have "\<not> m + (j + 1) * SLAB_SPAN \<le> m" for j by (simp add: SLAB_SPAN_def)
      then show ?thesis unfolding slab_geometry_def i by (auto intro: exI [of _ 0])
    qed
    moreover have "live_wf (live (slab_init h))" using live_wf_fresh [OF g(2) pl] by (simp add: i)
    ultimately show ?thesis
      using rep placed slab_coreD(4,6) [OF core]
      by (auto simp: slab_core_def slab_static_def libc_ok_def mmap_ok_def i)
  qed
qed

lemma alloc_post_from: "alloc_post B n h1 r \<Longrightarrow> mem h1 = mem h \<Longrightarrow> alloc_post B n h r"
  by (simp add: alloc_post_def kept_def)

lemma refill_ready_post:
  assumes core: "slab_core own G B h" and c: "c < SLAB_CLASSES" and n: "n \<le> class_size c"
    and e: "head (slab_bin c h) = 0" and s: "slab_state h \<noteq> 0"
  shows "alloc_post B n h (slab_refill c h)"
proof (cases "slab_state h < 0")
  case True
  then show ?thesis using malloc_post [OF core n] s by (simp add: slab_refill_def Let_def)
next
  case False
  let ?h = "if on_worker h \<and> \<not> slab_tls_used h (self h)
            then h\<lparr>slab_tls_used := (slab_tls_used h)(self h := True)\<rparr> else h"
  have fr: "same_frame h ?h" by (simp add: same_frame_def)
  have bins: "bin_of ?h w d = bin_of h w d" for w d by simp
  have same: "me ?h = me h" "mem ?h = mem h" "slab_global ?h = slab_global h"
    by (auto simp: me_def on_worker_def prismio_memory_threads_are_enabled_def)
  have core': "slab_core own G B ?h"
    using core same_frame_static [OF fr] same_frame_clients [OF fr, of own B own] same_frame_slot [OF fr]
    by (simp add: slab_core_def slab_rep_def slab_placed_def bins same)
  have eq: "slab_refill c h = (if cur (slab_bin c ?h) \<noteq> fin (slab_bin c ?h)
      then (cur (slab_bin c ?h), set_slab_bin c ((slab_bin c ?h)\<lparr>cur := cur (slab_bin c ?h) + class_size c\<rparr>) ?h)
      else slab_refill_shared c ?h)"
    using False s by (simp add: slab_refill_def Let_def)
  show ?thesis
  proof (cases "cur (slab_bin c ?h) = fin (slab_bin c ?h)")
    case True
    moreover have "head (slab_bin c ?h) = 0" using e by (simp add: slab_bin_me bins same)
    ultimately have "alloc_post B n ?h (slab_refill_shared c ?h)"
      by (intro refill_shared_post [OF core' c n])
    then show ?thesis using True eq alloc_post_from [of B n ?h _ h] same by simp
  next
    case ne: False
    let ?b = "bin_of ?h (me ?h) c"
    let ?h' = "put_bin (me ?h) c (?b\<lparr>cur := cur ?b + class_size c\<rparr>) ?h"
    obtain ws where *: "slab_core (own_set own {cur ?b} Lost) (G(Window (me ?h) c := ws)) B ?h'" "slot ?h' c (cur ?b)"
      using window_core [OF core' c, of "me ?h"] ne unfolding slab_bin_me by blast
    have "alloc_post B n h (cur ?b, ?h')"
      by (rule alloc_post_client [OF *(1) _ *(2) c n]) (auto simp: own_set_def kept_def same)
    then show ?thesis unfolding eq slab_bin_me set_slab_bin_me using ne by (simp add: slab_bin_me)
  qed
qed

lemma refill_post:
  assumes core: "slab_core own G B h" and c: "c < SLAB_CLASSES" and n: "n \<le> class_size c"
    and e: "head (slab_bin c h) = 0"
  shows "alloc_post B n h (slab_refill c h)"
proof (cases "slab_state h = 0")
  case True
  note i = init_core [OF core True]
  obtain own' G' where core': "slab_core own' G' B (slab_init h)" using i(1) by blast
  have "slab_bin c (slab_init h) = slab_bin c h" by (simp add: slab_bin_me i me_def)
  then have "alloc_post B n (slab_init h) (slab_refill c (slab_init h))"
    using e i(6) by (intro refill_ready_post [OF core' c n]) auto
  moreover have "slab_refill c (slab_init h) = slab_refill c h"
    using True i(6) by (simp add: slab_refill_def Let_def)
  ultimately show ?thesis using alloc_post_from i(2) by metis
qed (use refill_ready_post [OF assms] in simp)

lemma pop_post:
  assumes core: "slab_core own G B h" and c: "c < SLAB_CLASSES" and n: "n \<le> class_size c"
  shows "alloc_post B n h (slab_pop c h)"
proof (cases "head (slab_bin c h) = 0")
  case True
  then show ?thesis using refill_post [OF assms] by (simp add: slab_pop_def Let_def)
next
  case False
  let ?b = "bin_of h (me h) c"
  let ?h' = "put_bin (me h) c (?b\<lparr>head := load64 (mem h) (head ?b), cnt := dec32 (cnt ?b) 1\<rparr>) h"
  obtain ys where *: "slab_core (own_set own {head ?b} Lost) (G(Cache (me h) c := ys)) B ?h'" "slot ?h' c (head ?b)"
    using pop_core [OF core c, of "me h"] False unfolding slab_bin_me by blast
  have "alloc_post B n h (head ?b, ?h')"
    by (rule alloc_post_client [OF *(1) _ *(2) c n]) (auto simp: own_set_def kept_def)
  then show ?thesis using False by (simp add: slab_pop_def Let_def slab_bin_me set_slab_bin_me)
qed

lemma slab_alloc_post:
  assumes inv: "slab_inv B h" and n: "n < 2 ^ 64"
  shows "alloc_post B n h (slab_rt_base_alloc n h)"
proof -
  obtain own G where core: "slab_core own G B h" using inv by (auto simp: slab_inv_core)
  show ?thesis
  proof (cases "n = 0")
    case True
    then show ?thesis
      using pop_post [OF core, of 0 0] by (simp add: slab_rt_base_alloc_def u64_def SLAB_MAX_def SLAB_GRAIN_def SLAB_CLASSES_def)
  next
    case False
    then have u: "u64 (int n - 1) = n - 1" using n by (simp add: u64_def)
    show ?thesis
    proof (cases "n - 1 < SLAB_MAX")
      case True
      let ?c = "(n - 1) div 16"
      have "?c < SLAB_CLASSES" "n \<le> class_size ?c"
        using True False by (auto simp: SLAB_MAX_def SLAB_GRAIN_def SLAB_CLASSES_def class_size_def)
      then show ?thesis using True pop_post [OF core] u by (simp add: slab_rt_base_alloc_def)
    next
      case big: False
      then show ?thesis using False u malloc_post [OF core, of n n] by (simp add: slab_rt_base_alloc_def)
    qed
  qed
qed

subsection \<open>Release\<close>

text \<open>One block in nobody's hands is pushed on a cache, its first word linking to the old head.\<close>

lemma push_core:
  fixes w :: "nat option"
  assumes core: "slab_core own G B h" and c: "c < SLAB_CLASSES" and p: "own p = Lost" "slot h c p"
  defines "b \<equiv> bin_of h w c"
  defines "h' \<equiv> put_bin w c (b\<lparr>head := p, cnt := inc32 (cnt b)\<rparr>) (h\<lparr>mem := store64 (mem h) p (head b)\<rparr>)"
  shows "slab_core (own_set own {p} (Cache w c)) (G(Cache w c := p # G (Cache w c))) B h'" "kept B h h'"
    "cnt (bin_of h' w c) = length (p # G (Cache w c)) mod 2 ^ 32"
proof -
  let ?m = "store64 (mem h) p (head b)"
  have core1: "slab_core own G B (h\<lparr>mem := ?m\<rparr>)" and k: "kept B h (h\<lparr>mem := ?m\<rparr>)"
    using slab_core_poke [OF core _ p(2), of p "le_bytes 8 (head b)"] p class_size_16 [of c]
    by (auto simp: store64_poke)
  have co: "cache_ok (mem h) b (G (Cache w c))" "cache_ok ?m b (G (Cache w c))"
    using slab_repD(1) [OF slab_coreD(1) [OF core] c, of w] slab_repD(1) [OF slab_coreD(1) [OF core1] c, of w]
    by (auto simp: b_def)
  have "p \<noteq> 0" using slot_offset(4) [OF slab_coreD(7,5) [OF core] p(2)] .
  have "head b < 2 ^ 64"
  proof (cases "G (Cache w c)")
    case (Cons x xs)
    then have "x \<in> set (G (Cache w c))" "head b = x" using co by (auto simp: cache_ok_def)
    with slab_placedD(4) [OF slab_coreD(2) [OF core]] have "slot h c x" by fastforce
    then show ?thesis using slot_offset(5) [OF slab_coreD(7,5) [OF core]] \<open>head b = x\<close> by fastforce
  qed (use co in \<open>auto simp: cache_ok_def\<close>)
  then have ld: "load64 ?m p = head b" by (simp add: load64_store64)
  have "slab_rep (G(Cache w c := [p] @ G (Cache w c))) h'"
    unfolding h'_def
    by (rule slab_rep_cache [OF slab_coreD(1) [OF core1] c])
      (use co ld \<open>p \<noteq> 0\<close> inc32_len in \<open>auto simp: cache_ok_def b_def\<close>)
  from slab_core_give [OF core1 _ _ _ _ _ this] p c
  show "slab_core (own_set own {p} (Cache w c)) (G(Cache w c := p # G (Cache w c))) B h'"
    using same_frame_slot [of h "h\<lparr>mem := ?m\<rparr>"] by (auto simp: h'_def)
  show "kept B h h'" using k by (simp add: kept_def h'_def)
  show "cnt (bin_of h' w c) = length (p # G (Cache w c)) mod 2 ^ 32"
    using co(1) inc32_len [of "length (G (Cache w c))"] by (simp add: h'_def cache_ok_def)
qed

lemma spill_core:
  assumes core: "slab_core own G B h" and c: "c < SLAB_CLASSES" and len: "SLAB_BATCH \<le> length (G (Cache (me h) c))"
  shows "\<exists>own' G'. slab_core own' G' B (slab_spill c h)" "kept B h (slab_spill c h)"
proof -
  let ?w = "me h" and ?m = "mem h"
  let ?b = "bin_of h ?w c" and ?g = "slab_global h c"
  note rep = slab_coreD(1) [OF core]
  define xs where "xs = take SLAB_BATCH (G (Cache ?w c))"
  define ys where "ys = drop SLAB_BATCH (G (Cache ?w c))"
  have G: "G (Cache ?w c) = xs @ ys" by (simp add: xs_def ys_def)
  have lx: "length xs = SLAB_BATCH" using len by (simp add: xs_def)
  then have xne: "xs \<noteq> []" by (auto simp: SLAB_BATCH_def)
  have co: "cache_ok ?m ?b (xs @ ys)" using slab_repD(1) [OF rep c, of ?w] G by simp
  then have ch: "chain ?m (head ?b) (xs @ ys)" by (simp add: cache_ok_def)
  define f where "f = head ?b"
  define l where "l = chain_walk ?m (SLAB_BATCH - 1) f"
  have l_last: "l = last xs" using chain_walk_last [OF ch, of "SLAB_BATCH - 1"] lx by (simp add: SLAB_BATCH_def l_def f_def)
  have f_hd: "f = hd xs" using chain_head [OF ch] xne by (simp add: f_def)
  define h1 where "h1 = put_bin ?w c (?b\<lparr>head := load64 ?m l, cnt := dec32 (cnt ?b) SLAB_BATCH\<rparr>) h"
  have h1: "mem h1 = ?m" "slab_global h1 = slab_global h" by (simp_all add: h1_def)
  have r: "slab_rep (G(Cache ?w c := ys)) h1"
    unfolding h1_def by (rule slab_rep_cache [OF rep c])
      (use co chain_rest [OF ch xne] l_last lx len32 [of SLAB_BATCH "length (xs @ ys)"] in
        \<open>auto simp: cache_ok_def SLAB_BATCH_def\<close>)
  have fr: "same_frame h h1" by (simp add: h1_def)
  note t = slab_core_take [OF core fr _ G r]
  let ?own = "own_set own (set xs) Lost" and ?G = "G(Cache ?w c := ys)"
  have core1: "slab_core ?own ?G B h1" and sl: "\<And>x. x \<in> set xs \<Longrightarrow> slot h1 c x" and d: "distinct xs"
    using t by simp_all
  have in_xs: "l \<in> set xs" "f \<in> set xs" using l_last f_hd xne by auto
  define m1 where "m1 = store64 ?m l 0"
  define m2 where "m2 = store64 m1 (f + 8) (batches ?g)"
  have core2: "slab_core ?own ?G B (h1\<lparr>mem := m1\<rparr>)" and k1: "kept B h1 (h1\<lparr>mem := m1\<rparr>)"
    using slab_core_poke [OF core1 _ sl [OF in_xs(1)], of l "le_bytes 8 0"] in_xs class_size_16 [of c]
    by (auto simp: own_set_def store64_poke m1_def h1)
  have sf: "slot (h1\<lparr>mem := m\<rparr>) c x \<longleftrightarrow> slot h1 c x" for m x by (rule same_frame_slot) simp
  have core3: "slab_core ?own ?G B (h1\<lparr>mem := m2\<rparr>)" and k2: "kept B (h1\<lparr>mem := m1\<rparr>) (h1\<lparr>mem := m2\<rparr>)"
    using slab_core_poke [OF core2, of f c "f + 8" "le_bytes 8 (batches ?g)"] sl [OF in_xs(2)] in_xs class_size_16 [of c]
    by (auto simp: own_set_def store64_poke m2_def sf)
  have ap: "apart x 8 (f + 8) 8" if "x \<in> set xs" for x
  proof (cases "x = f")
    case False
    with slot_apart [OF sl [OF that] sl [OF in_xs(2)]] show ?thesis
      using class_size_16 [of c] by (auto elim: apart_sub)
  qed (simp add: apart_def)
  have ld: "load64 m2 x = load64 m1 x" if "x \<in> set xs" for x
    using ap [OF that] unfolding m2_def by (rule store64_keeps)
  have "load64 m1 x = load64 ?m x" if "x \<in> set xs" "x \<noteq> last xs" for x
    using slots_apart8 [OF sl sl, of x l] that in_xs l_last unfolding m1_def by (intro store64_keeps) auto
  then have cx: "chain m2 f xs"
    by (intro chain_cut [OF ch [folded f_def] xne d]) (use ld in_xs l_last in \<open>auto simp: load64_store64 m1_def\<close>)
  have sh: "shared_ok m2 ?g (G (Batches c)) (G (Loose c))"
    using slab_repD(3) [OF slab_coreD(1) [OF core3] c] by (simp add: h1)
  then obtain xss where xss: "batch_chain m2 (batches ?g) xss" "G (Batches c) = concat xss"
    by (auto simp: shared_ok_def)
  have "batches ?g < 2 ^ 64"
  proof (cases xss)
    case (Cons zs zss)
    then obtain z where "z \<in> set (G (Batches c))" "batches ?g = z"
      using xss by (cases zs) (auto simp: SLAB_BATCH_def)
    then show ?thesis
      using slab_placedD(4) [OF slab_coreD(2) [OF core], of z "Batches c"] slot_offset(5) [OF slab_coreD(7,5) [OF core], of c z]
      by auto
  qed (use xss in simp)
  then have b8: "load64 m2 (f + 8) = batches ?g" by (simp add: load64_store64 m2_def)
  let ?h4 = "set_slab_global c (?g\<lparr>batches := f\<rparr>) (h1\<lparr>mem := m2\<rparr>)"
  have "shared_ok m2 (?g\<lparr>batches := f\<rparr>) (xs @ G (Batches c)) (G (Loose c))"
    using sh xss cx lx b8 unfolding shared_ok_def by (auto intro!: exI [of _ "xs # xss"])
  then have "slab_rep (?G(Batches c := xs @ ?G (Batches c), Loose c := ?G (Loose c))) ?h4"
    using c by (intro slab_rep_shared [OF slab_coreD(1) [OF core3]]) (auto simp: h1)
  then have "slab_rep (?G(Batches c := xs @ ?G (Batches c))) ?h4" by (simp add: fun_upd_idem)
  from slab_core_give [OF core3 _ _ _ d _ this]
  have "slab_core (own_set ?own (set xs) (Batches c)) (?G(Batches c := xs @ ?G (Batches c))) B ?h4"
    using c sl by (auto simp: own_set_def sf)
  moreover have "slab_spill c h = ?h4"
    by (simp add: slab_spill_def Let_def slab_bin_me set_slab_bin_me h1_def m2_def m1_def f_def l_def)
  ultimately show "\<exists>own' G'. slab_core own' G' B (slab_spill c h)" "kept B h (slab_spill c h)"
    using k1 k2 by (auto simp: kept_def h1)
qed

lemma slab_core_tmp_free:
  assumes core: "slab_core own G B h" and p: "live h p = Some u" "slab_state h = 1 \<longrightarrow> p \<noteq> slab_base h"
  shows "slab_core own G (B(p := None)) (tmp_free p h)"
proof -
  note g = slab_coreD(7) [OF core] slab_coreD(5) [OF core]
  have p0: "p \<noteq> 0" using live_wfD(1) [OF g(2) p(1)] by simp
  let ?h = "tmp_free p h"
  have h: "?h = h\<lparr>live := (live h)(p := None)\<rparr>" using p0 by (simp add: tmp_free_def)
  have sl: "slot ?h c a = slot h c a" for c a by (simp add: h slot_def slot_in_def)
  have "slab_static ?h"
    using core p(2) live_wf_drop [OF g(2)] unfolding h slab_core_def slab_static_def
    by (auto simp: libc_ok_def mmap_ok_def slab_geometry_def)
  moreover have "slab_rep G ?h" using slab_coreD(1) [OF core] by (simp add: h slab_rep_def)
  moreover have "slab_placed own G ?h" using slab_coreD(2) [OF core] unfolding slab_placed_def sl .
  moreover have "slab_clients own (B(p := None)) ?h"
    using slab_coreD(3) [OF core] unfolding slab_clients_def sl by (auto simp: h split: if_splits)
  ultimately show ?thesis by (simp add: slab_core_def)
qed

lemma slab_free_libc:
  assumes core: "slab_core own G B h" and p: "live h p = Some u" "slab_state h = 1 \<longrightarrow> p \<noteq> slab_base h"
  shows "slab_rt_free p h = tmp_free p h" "slab_inv (B(p := None)) (tmp_free p h)" "kept (B(p := None)) h (tmp_free p h)"
proof -
  note g = slab_coreD(7) [OF core] slab_coreD(5) [OF core]
  show "slab_rt_free p h = tmp_free p h"
    using libc_outside(1) [OF g p] live_wfD(1) [OF g(2) p(1)] by (simp add: slab_rt_free_def Let_def)
  show "slab_inv (B(p := None)) (tmp_free p h)"
    using slab_core_tmp_free [OF core p] by (auto simp: slab_inv_core)
  show "kept (B(p := None)) h (tmp_free p h)" by (simp add: kept_def tmp_free_def)
qed

lemma slab_free_slot:
  assumes core: "slab_core own G B h" and p: "own p = Client" "slot h c p" "c < SLAB_CLASSES"
  shows "slab_inv (B(p := None)) (slab_rt_free p h)" "kept (B(p := None)) h (slab_rt_free p h)"
proof -
  note g = slab_coreD(7) [OF core] slab_coreD(5) [OF core]
  have cls: "slab_span_class h (slab_offset p h div SLAB_SPAN) = c" "slab_offset p h < slab_span h" "p \<noteq> 0"
    using slot_offset [OF g p(2)] by auto
  let ?B = "B(p := None)" and ?w = "me h"
  define b where "b = bin_of h ?w c"
  define h1 where "h1 = put_bin ?w c (b\<lparr>head := p, cnt := inc32 (cnt b)\<rparr>) (h\<lparr>mem := store64 (mem h) p (head b)\<rparr>)"
  have core0: "slab_core (own(p := Lost)) G ?B h" by (rule slab_core_unclient [OF core p(1)])
  note pc = push_core [OF core0 p(3), of p ?w, folded b_def, folded h1_def]
  have core1: "slab_core (own_set (own(p := Lost)) {p} (Cache ?w c)) (G(Cache ?w c := p # G (Cache ?w c))) ?B h1"
    and k1: "kept ?B h h1" and n: "cnt (bin_of h1 ?w c) = length (p # G (Cache ?w c)) mod 2 ^ 32"
    using pc p(2) by auto
  have free: "slab_rt_free p h = (if SLAB_HIGH \<le> inc32 (cnt b) \<and> prismio_memory_threads_are_enabled h1
      then slab_spill c h1 else h1)"
    using cls by (simp add: slab_rt_free_def Let_def slab_bin_me set_slab_bin_me h1_def b_def)
  have me1: "me h1 = ?w" by (simp add: h1_def)
  show "slab_inv ?B (slab_rt_free p h)" "kept ?B h (slab_rt_free p h)"
  proof -
    have "slab_inv ?B (slab_rt_free p h) \<and> kept ?B h (slab_rt_free p h)"
    proof (cases "SLAB_HIGH \<le> inc32 (cnt b) \<and> prismio_memory_threads_are_enabled h1")
      case True
      then have "128 \<le> length (p # G (Cache ?w c)) mod 2 ^ 32"
        using n by (simp add: h1_def SLAB_HIGH_def SLAB_BATCH_def)
      then have "SLAB_BATCH \<le> length (p # G (Cache ?w c))"
        using mod_less_eq_dividend [of "length (p # G (Cache ?w c))" "2 ^ 32"] unfolding SLAB_BATCH_def by linarith
      then have "SLAB_BATCH \<le> length ((G(Cache ?w c := p # G (Cache ?w c))) (Cache (me h1) c))"
        by (simp add: me1)
      from spill_core [OF core1 p(3) this] have "slab_inv ?B (slab_spill c h1)" "kept ?B h1 (slab_spill c h1)"
        by (auto simp: slab_inv_core)
      then show ?thesis using True free k1 kept_trans by auto
    next
      case False
      then have "slab_rt_free p h = h1" using free by (simp only: if_False)
      then show ?thesis using core1 k1 by (auto simp: slab_inv_core)
    qed
    then show "slab_inv ?B (slab_rt_free p h)" "kept ?B h (slab_rt_free p h)" by simp_all
  qed
qed

lemma slab_free_post:
  assumes inv: "slab_inv B h" and p: "B p = Some (Seam, k)"
  shows "slab_inv (B(p := None)) (slab_rt_free p h) \<and> kept (B(p := None)) h (slab_rt_free p h)"
proof -
  obtain own G where core: "slab_core own G B h" using inv by (auto simp: slab_inv_core)
  from slab_coreD(3) [OF core] p show ?thesis
  proof (cases rule: slab_clientsD)
    case (1 c)
    then show ?thesis using slab_free_slot [OF core] by blast
  next
    case (2 u)
    then show ?thesis using slab_free_libc [OF core] by metis
  qed
qed

lemma slab_write_post:
  assumes inv: "slab_inv B h" and p: "B p = Some (w, k)" "p \<le> q" "q + length bs \<le> p + k"
  shows "slab_inv B (h\<lparr>mem := poke (mem h) q bs\<rparr>)"
proof -
  obtain own G where core: "slab_core own G B h" using inv by (auto simp: slab_inv_core)
  from slab_coreD(3) [OF core] p(1) show ?thesis
  proof (cases rule: slab_clientsD)
    case (1 c)
    then show ?thesis using slab_core_poke(1) [OF core, of p c q bs] p by (auto simp: slab_inv_core)
  next
    case (2 u)
    note g = slab_coreD(7) [OF core] slab_coreD(5) [OF core] and P = slab_coreD(2) [OF core]
    have "same16 (mem h) (poke (mem h) q bs) a" if a: "a \<in> set (G pl)" for pl a
    proof -
      note o = slot_offset [OF g slab_placedD(4) [OF P a]]
      have "apart p u (slab_base h) SLAB_RESERVE" by (rule libc_outside(2) [OF g 2(1,3) o(1)])
      then have "apart a 16 q (length bs)"
        using o(6,7) class_size_16 [of "holder_class pl"] p 2 apart_sub [of p u "slab_base h" SLAB_RESERVE q "length bs" a 16]
        by (simp add: apart_sym)
      then show ?thesis by (simp add: same16_def peek_poke_apart)
    qed
    then have "slab_core own G B (h\<lparr>mem := poke (mem h) q bs\<rparr>)" by (rule slab_core_write [OF core])
    then show ?thesis by (auto simp: slab_inv_core)
  qed
qed

lemma slab_malloc_post:
  assumes "slab_inv B h" "malloc n h = (p, h')"
  shows "kept B h h' \<and> (if p = 0 then slab_inv B h' else fresh_block B p n \<and> slab_inv (B(p \<mapsto> (w, n))) h')"
  using assms slab_core_malloc [of _ _ B h n p h' n w] unfolding slab_inv_core by (metis order_refl)

lemma slab_tmp_free_post:
  assumes inv: "slab_inv B h" and p: "B p = Some (Tmp, k)"
  shows "slab_inv (B(p := None)) (tmp_free p h) \<and> kept (B(p := None)) h (tmp_free p h)"
proof -
  obtain own G where core: "slab_core own G B h" using inv by (auto simp: slab_inv_core)
  from slab_coreD(3) [OF core] p show ?thesis
    by (cases rule: slab_clientsD) (use slab_free_libc(2,3) [OF core] in auto)
qed

text \<open>Resizing a block of the C library.\<close>

lemma slab_realloc_libc:
  assumes core: "slab_core own G B h" and b: "B p = Some (v, k)"
    and p: "live h p = Some x" "k \<le> x" "slab_state h = 1 \<longrightarrow> p \<noteq> slab_base h"
    and r: "tmp_realloc p n h = (q, h')"
  shows "kept (B(p := None)) h h'
      \<and> (if q = 0 then slab_inv B h' \<and> kept B h h'
         else fresh_block (B(p := None)) q n \<and> slab_inv (B(p := None, q \<mapsto> (v, n))) h'
           \<and> peek (mem h') q (min k n) = peek (mem h) p (min k n))"
proof -
  note g = slab_coreD(7) [OF core] slab_coreD(5) [OF core]
  have p0: "p \<noteq> 0" using live_wfD(1) [OF g(2) p(1)] by simp
  obtain q' u where rp: "repick h (live h) p n = (q', u)" by (cases "repick h (live h) p n")
  show ?thesis
  proof (cases "q' = 0")
    case True
    then show ?thesis using r rp p0 core by (auto simp: tmp_realloc_def slab_inv_core)
  next
    case False
    let ?h1 = "tmp_free p h" and ?B = "B(p := None)"
    have h1: "?h1 = h\<lparr>live := (live h)(p := None)\<rparr>" using p0 by (simp add: tmp_free_def)
    have core1: "slab_core own G ?B ?h1" by (rule slab_core_tmp_free [OF core p(1,3)])
    have pl: "placed (live ?h1) n (q', u)"
      using libc_okD(2) [OF slab_coreD(4) [OF core] g(2), of p n] p(1) rp False by (auto simp: h1)
    let ?h2 = "?h1\<lparr>pick := \<lambda>_ _. (q', u)\<rparr>"
    let ?bs = "peek (mem h) p (min x u)"
    have q: "q = q'" and h': "h' = h\<lparr>mem := poke (mem h) q ?bs, live := (live h)(p := None, q \<mapsto> u)\<rparr>"
      using False r rp p0 p(1) by (auto simp: tmp_realloc_def usable_size_def)
    have "n \<le> u" using pl by (simp add: placed_def)
    have c2: "fresh_block ?B q u \<and> slab_core own G (?B(q \<mapsto> (v, u))) (?h1\<lparr>live := (live ?h1)(q \<mapsto> u)\<rparr>)"
      by (rule slab_core_placed [OF core1]) (use pl q in \<open>auto simp: placed_def\<close>)
    then have "slab_inv (?B(q \<mapsto> (v, u))) (?h1\<lparr>live := (live ?h1)(q \<mapsto> u)\<rparr>)"
      by (auto simp: slab_inv_core)
    from slab_write_post [OF this, of q v u q ?bs]
    have "slab_inv (?B(q \<mapsto> (v, u))) (h\<lparr>live := (live h)(p := None, q \<mapsto> u), mem := poke (mem h) q ?bs\<rparr>)"
      by (simp add: h1)
    moreover have "h\<lparr>live := (live h)(p := None, q \<mapsto> u), mem := poke (mem h) q ?bs\<rparr> = h'" by (simp add: h')
    ultimately have "slab_inv (?B(q \<mapsto> (v, u))) h'" by simp
    then have "slab_inv (?B(q \<mapsto> (v, n))) h'" by (rule slab_inv_shrink) (use \<open>n \<le> u\<close> in auto)
    moreover have "fresh_block ?B q n"
      using c2 \<open>n \<le> u\<close> by (auto intro: fresh_block_shrink)
    moreover have "kept ?B h h'"
      unfolding kept_def
    proof (intro allI impI)
      fix a w j assume "?B a = Some (w, j)"
      then have "apart a j q u" using c2 by (simp add: fresh_block_def)
      then have "apart a j q (length ?bs)" by (auto elim: apart_sub)
      then show "peek (mem h') a j = peek (mem h) a j" by (simp add: h' peek_poke_apart)
    qed
    moreover have "peek (mem h') q (min k n) = peek (mem h) p (min k n)"
      unfolding peek_eq_iff h' using p(2) \<open>n \<le> u\<close> by (auto simp: poke_def)
    ultimately show ?thesis using False q by simp
  qed
qed

lemma slab_tmp_realloc_post:
  assumes inv: "slab_inv B h" and p: "B p = Some (Tmp, k)" and r: "tmp_realloc p n h = (q, h')"
  shows "kept (B(p := None)) h h'
      \<and> (if q = 0 then slab_inv B h' \<and> kept B h h'
         else fresh_block (B(p := None)) q n \<and> slab_inv (B(p := None, q \<mapsto> (Tmp, n))) h'
           \<and> peek (mem h') q (min k n) = peek (mem h) p (min k n))"
proof -
  obtain own G where core: "slab_core own G B h" using inv by (auto simp: slab_inv_core)
  from slab_coreD(3) [OF core] p show ?thesis
    by (cases rule: slab_clientsD) (use slab_realloc_libc [OF core p _ _ _ r] in auto)
qed

lemma slab_inv_resize:
  assumes core: "slab_core own G B h" and p: "own p = Client" "slot h c p" "c < SLAB_CLASSES" "n \<le> class_size c"
    "B p = Some (Seam, k)"
  shows "fresh_block (B(p := None)) p n" "slab_inv (B(p \<mapsto> (Seam, n))) h"
proof -
  have "slab_core (own(p := Lost)) G (B(p := None)) h" by (rule slab_core_unclient [OF core p(1)])
  from slab_core_client [OF this _ p(2,3,4)]
  show "fresh_block (B(p := None)) p n" "slab_inv (B(p \<mapsto> (Seam, n))) h"
    by (auto simp: slab_inv_core)
qed

lemma slab_realloc_post:
  assumes inv: "slab_inv B h" and b: "B p = Some (Seam, k)" and n: "n < 2 ^ 64"
    and r: "slab_rt_base_realloc p n h = (q, h')"
  shows "kept (B(p := None)) h h'
      \<and> (if q = 0 then slab_inv B h' \<and> kept B h h'
         else fresh_block (B(p := None)) q n \<and> slab_inv (B(p := None, q \<mapsto> (Seam, n))) h'
           \<and> peek (mem h') q (min k n) = peek (mem h) p (min k n))"
proof -
  obtain own G where core: "slab_core own G B h" using inv by (auto simp: slab_inv_core)
  note g = slab_coreD(7) [OF core] slab_coreD(5) [OF core]
  from slab_coreD(3) [OF core] b show ?thesis
  proof (cases rule: slab_clientsD)
    case (2 u)
    then have "slab_rt_base_realloc p n h = tmp_realloc p n h"
      using libc_outside(1) [OF g 2(1,3)] live_wfD(1) [OF g(2) 2(1)] by (simp add: slab_rt_base_realloc_def Let_def)
    with r show ?thesis by (intro slab_realloc_libc [OF core b 2]) simp
  next
    case (1 c)
    note o = slot_offset [OF g 1(4)]
    show ?thesis
    proof (cases "n \<le> class_size c")
      case True
      then have "q = p" "h' = h" using r o by (auto simp: slab_rt_base_realloc_def Let_def)
      then show ?thesis
        using slab_inv_resize [OF core 1(2,4,3) True b] o(4) by simp
    next
      case False
      obtain q1 h1 where a: "slab_rt_base_alloc n h = (q1, h1)" by (metis surj_pair)
      have post: "kept B h h1" "q1 = 0 \<Longrightarrow> slab_inv B h1"
        "q1 \<noteq> 0 \<Longrightarrow> fresh_block B q1 n \<and> slab_inv (B(q1 \<mapsto> (Seam, n))) h1"
        using slab_alloc_post [OF inv n] by (auto simp: alloc_post_def a)
      show ?thesis
      proof (cases "q1 = 0")
        case True
        then have "q = 0" "h' = h1" using r o a False by (auto simp: slab_rt_base_realloc_def Let_def)
        then show ?thesis using post True by (auto simp: kept_def)
      next
        case ok: False
        let ?m = "poke (mem h1) q1 (peek (mem h1) p (class_size c))"
        let ?h2 = "h1\<lparr>mem := ?m\<rparr>" and ?B1 = "B(q1 \<mapsto> (Seam, n))"
        have q: "q = q1" and h': "h' = slab_rt_free p ?h2"
          using ok r o a False by (auto simp: slab_rt_base_realloc_def Let_def)
        have f: "fresh_block B q1 n" "slab_inv ?B1 h1" using post(3) [OF ok] by auto
        then have pq: "p \<noteq> q1" using b by (auto simp: fresh_block_def)
        have "slab_inv ?B1 ?h2"
          by (rule slab_write_post [OF f(2), of q1 Seam n]) (use False in auto)
        from slab_free_post [OF this, of p k] pq b
        have fr: "slab_inv (?B1(p := None)) h'" "kept (?B1(p := None)) ?h2 h'" by (auto simp: h')
        have comm: "?B1(p := None) = (B(p := None))(q1 \<mapsto> (Seam, n))" using pq by (auto simp: fun_upd_twist)
        have kw: "kept B h1 ?h2"
          unfolding kept_def
        proof (intro allI impI)
          fix a w j assume "B a = Some (w, j)"
          then have "apart a j q1 n" using f(1) by (simp add: fresh_block_def)
          then have "apart a j q1 (length (peek (mem h1) p (class_size c)))"
            using False by (auto elim: apart_sub)
          then show "peek (mem ?h2) a j = peek (mem h1) a j" by (simp add: peek_poke_apart)
        qed
        have kp: "kept (B(p := None)) h h'"
          using post(1) kw fr(2) f(1) unfolding kept_def by (auto simp: fresh_block_def split: if_splits)
        have "peek (mem h') q1 n = peek (mem ?h2) q1 n" using fr(2) pq by (auto simp: kept_def)
        then have "peek (mem h') q1 (min k n) = peek (mem ?h2) q1 (min k n)"
          by (metis min.commute min.right_idem take_peek)
        also have "\<dots> = peek (mem h1) p (min k n)"
          unfolding peek_eq_iff using 1(5) by (auto simp: poke_def)
        also have "\<dots> = peek (mem h) p (min k n)"
          using post(1) b unfolding kept_def by (metis min.commute min.right_idem take_peek)
        finally have "peek (mem h') q1 (min k n) = peek (mem h) p (min k n)" .
        moreover have "fresh_block (B(p := None)) q1 n" using f(1) by (auto simp: fresh_block_def)
        ultimately show ?thesis using ok q kp fr(1) comm by simp
      qed
    qed
  qed
qed

end
