(* ===== verification/Slab_Threads.thy ===== *)
theory Slab_Threads
  imports Slab_Inv
begin

text \<open>
  The slab under several threads: what a worker's exit does with its leftovers, and the state
  machine of all allocator operations of all threads, one operation at a time.
\<close>

subsection \<open>A worker's leftovers\<close>

lemma loose_push_core:
  assumes core: "slab_core own G B h" and c: "c < SLAB_CLASSES" and p: "own p = Lost" "slot h c p"
  shows "slab_core (own_set own {p} (Loose c)) (G(Loose c := p # G (Loose c))) B (loose_push c p h)"
    and "kept B h (loose_push c p h)"
proof -
  define g where "g = slab_global h c"
  let ?m = "store64 (mem h) p (loose g)"
  have core1: "slab_core own G B (h\<lparr>mem := ?m\<rparr>)" and k: "kept B h (h\<lparr>mem := ?m\<rparr>)"
    using slab_core_poke [OF core _ p(2), of p "le_bytes 8 (loose g)"] p class_size_16 [of c]
    by (auto simp: store64_poke)
  have sh: "shared_ok (mem h) g (G (Batches c)) (G (Loose c))" "shared_ok ?m g (G (Batches c)) (G (Loose c))"
    using slab_repD(3) [OF slab_coreD(1) [OF core] c] slab_repD(3) [OF slab_coreD(1) [OF core1] c]
    by (auto simp: g_def)
  have "p \<noteq> 0" using slot_offset(4) [OF slab_coreD(7,5) [OF core] p(2)] .
  have "loose g < 2 ^ 64"
  proof (cases "G (Loose c)")
    case (Cons x xs)
    then have "x \<in> set (G (Loose c))" "loose g = x" using sh by (auto simp: shared_ok_def)
    with slab_placedD(4) [OF slab_coreD(2) [OF core]] have "slot h c x" by fastforce
    then show ?thesis using slot_offset(5) [OF slab_coreD(7,5) [OF core]] \<open>loose g = x\<close> by fastforce
  qed (use sh in \<open>auto simp: shared_ok_def\<close>)
  then have ld: "load64 ?m p = loose g" by (simp add: load64_store64)
  let ?g = "g\<lparr>loose := p, loose_n := inc32 (loose_n g)\<rparr>"
  have lp: "loose_push c p h = set_slab_global c ?g (h\<lparr>mem := ?m\<rparr>)"
    by (simp add: loose_push_def Let_def g_def)
  have "shared_ok ?m ?g (G (Batches c)) (p # G (Loose c))"
    using sh ld \<open>p \<noteq> 0\<close> inc32_len [of "length (G (Loose c))"] by (auto simp: shared_ok_def)
  then have "slab_rep (G(Batches c := G (Batches c), Loose c := p # G (Loose c))) (loose_push c p h)"
    unfolding lp by (intro slab_rep_shared [OF slab_coreD(1) [OF core1] c]) (auto simp: g_def)
  then have "slab_rep (G(Loose c := [p] @ G (Loose c))) (loose_push c p h)" by simp
  from slab_core_give [OF core1 _ _ _ _ _ this] p c
  show "slab_core (own_set own {p} (Loose c)) (G(Loose c := p # G (Loose c))) B (loose_push c p h)"
    using same_frame_slot [of h "h\<lparr>mem := ?m\<rparr>"] by (auto simp: lp)
  show "kept B h (loose_push c p h)" using k by (simp add: kept_def lp)
qed

lemma loose_push_other [simp]:
  "self (loose_push c p h) = self h" "bin_of (loose_push c p h) = bin_of h"
  "slab_tls (loose_push c p h) = slab_tls h"
  by (simp_all add: loose_push_def Let_def fun_eq_iff)

lemma put_tls: "slab_tls (put_bin (Some t) c b h) = (slab_tls h)(t := (slab_tls h t)(c := b))"
  by (simp add: put_bin_def)

text \<open>What flushing a class leaves: a heap in order, every client's bytes, the thread's other bins.\<close>

definition flushed :: "nat \<Rightarrow> owned \<Rightarrow> slab_heap \<Rightarrow> slab_heap \<Rightarrow> bool" where
  "flushed c B h h' \<longleftrightarrow> (\<exists>own G. slab_core own G B h') \<and> kept B h h' \<and> self h' = self h
     \<and> (\<forall>d. d \<noteq> c \<longrightarrow> slab_tls h' (self h) d = slab_tls h (self h) d)"

lemma flushed_trans: "flushed c B h h1 \<Longrightarrow> flushed c B h1 h2 \<Longrightarrow> flushed c B h h2"
  unfolding flushed_def using kept_trans by metis

lemma flush_window_ok:
  "slab_core own G B h \<Longrightarrow> c < SLAB_CLASSES \<Longrightarrow> length (G (Window (Some (self h)) c)) = n \<Longrightarrow>
     \<exists>h'. flush_window c h = Some h' \<and> flushed c B h h'
        \<and> cur (slab_tls h' (self h) c) = fin (slab_tls h' (self h) c)"
proof (induction n arbitrary: own G h)
  case 0
  let ?b = "slab_tls h (self h) c"
  have "cur ?b = fin ?b"
    using slab_repD(2) [OF slab_coreD(1) [OF 0(1)] 0(2), of "Some (self h)"] 0(3)
    by (auto simp: window_ok_def bin_of_def blocks_from_def)
  then have "flush_window c h = Some h" by (subst flush_window.simps) simp
  with 0 \<open>cur ?b = fin ?b\<close> show ?case by (auto simp: flushed_def)
next
  case (Suc n)
  let ?w = "Some (self h)" and ?b = "slab_tls h (self h) c"
  have bo: "bin_of h ?w c = ?b" by (simp add: bin_of_def)
  have ne: "cur ?b \<noteq> fin ?b"
    using window_empty [OF Suc.prems(1,2), of ?w] Suc.prems(3) by (auto simp: bo)
  let ?h1 = "put_bin ?w c (?b\<lparr>cur := cur ?b + class_size c\<rparr>) h"
  obtain ws where ws: "G (Window ?w c) = cur ?b # ws"
    "slab_core (own_set own {cur ?b} Lost) (G(Window ?w c := ws)) B ?h1" "slot ?h1 c (cur ?b)"
    using window_core [OF Suc.prems(1,2), of ?w] ne unfolding bo by blast
  let ?h2 = "loose_push c (cur ?b) ?h1"
  have core2: "slab_core (own_set (own_set own {cur ?b} Lost) {cur ?b} (Loose c))
      (G(Window ?w c := ws, Loose c := cur ?b # G (Loose c))) B ?h2" and k: "kept B ?h1 ?h2"
    using loose_push_core [OF ws(2) Suc.prems(2) _ ws(3)] by (auto simp: own_set_def)
  have step: "set_tls_bin c (?b\<lparr>cur := cur ?b + class_size c\<rparr>) (loose_push c (cur ?b) h) = ?h2"
    by (simp add: set_tls_bin_def put_bin_def loose_push_def Let_def set_slab_global_def)
  have "flush_window c h = flush_window c ?h2"
    using ne step by (subst flush_window.simps) (simp add: Let_def)
  moreover have f: "flushed c B h ?h2"
    using core2 k by (auto simp: flushed_def kept_def put_tls)
  moreover obtain h' where "flush_window c ?h2 = Some h'" "flushed c B ?h2 h'"
    "cur (slab_tls h' (self ?h2) c) = fin (slab_tls h' (self ?h2) c)"
    using Suc.IH [OF core2 Suc.prems(2)] ws(1) Suc.prems(3) by auto
  ultimately show ?case using flushed_trans [OF f] by auto
qed

text \<open>While the second loop runs, the counter of the bin is stale; it is set to 0 at the end.\<close>

definition with_cnt :: "nat \<Rightarrow> nat \<Rightarrow> slab_heap \<Rightarrow> slab_heap" where
  "with_cnt c n h = put_bin (Some (self h)) c ((slab_tls h (self h) c)\<lparr>cnt := n\<rparr>) h"

lemma with_cnt_fields [simp]:
  "self (with_cnt c n h) = self h" "mem (with_cnt c n h) = mem h"
  "slab_tls (with_cnt c n h) (self h) d = (if d = c then (slab_tls h (self h) c)\<lparr>cnt := n\<rparr> else slab_tls h (self h) d)"
  by (simp_all add: with_cnt_def put_tls)

lemma flush_chain_ok:
  "slab_core own G B (with_cnt c (n mod 2 ^ 32) h) \<Longrightarrow> c < SLAB_CLASSES \<Longrightarrow>
     length (G (Cache (Some (self h)) c)) = n \<Longrightarrow> cur (slab_tls h (self h) c) = fin (slab_tls h (self h) c) \<Longrightarrow>
     \<exists>h'. flush_chain c h = Some h' \<and> flushed c B h (with_cnt c 0 h') \<and> self h' = self h
        \<and> head (slab_tls h' (self h) c) = 0 \<and> cur (slab_tls h' (self h) c) = fin (slab_tls h' (self h) c)"
proof (induction n arbitrary: own G h)
  case 0
  let ?b = "slab_tls h (self h) c"
  have "head ?b = 0"
    using slab_repD(1) [OF slab_coreD(1) [OF 0(1)] 0(2), of "Some (self h)"] 0(3)
    by (auto simp: cache_ok_def bin_of_def)
  then have "flush_chain c h = Some h" by (subst flush_chain.simps) simp
  with 0 \<open>head ?b = 0\<close> show ?case by (auto simp: flushed_def kept_def)
next
  case (Suc n)
  let ?w = "Some (self h)" and ?b = "slab_tls h (self h) c"
  let ?h0 = "with_cnt c (Suc n mod 2 ^ 32) h"
  have bo: "bin_of ?h0 ?w c = ?b\<lparr>cnt := Suc n mod 2 ^ 32\<rparr>" by (simp add: bin_of_def)
  have "head (bin_of ?h0 ?w c) \<noteq> 0"
    using cache_empty [OF Suc.prems(1,2), of ?w] Suc.prems(3) by force
  then have ne: "head ?b \<noteq> 0" unfolding bo by simp
  let ?b1 = "?b\<lparr>head := load64 (mem h) (head ?b)\<rparr>"
  have d: "dec32 (Suc n mod 2 ^ 32) 1 = n mod 2 ^ 32" using len32 [of 1 "Suc n"] by simp
  have eq1: "put_bin ?w c ((bin_of ?h0 ?w c)\<lparr>head := load64 (mem ?h0) (head (bin_of ?h0 ?w c)),
      cnt := dec32 (cnt (bin_of ?h0 ?w c)) 1\<rparr>) ?h0 = put_bin ?w c (?b1\<lparr>cnt := n mod 2 ^ 32\<rparr>) h"
  proof -
    have "(?b\<lparr>cnt := Suc n mod 2 ^ 32\<rparr>)\<lparr>head := load64 (mem ?h0) (head (?b\<lparr>cnt := Suc n mod 2 ^ 32\<rparr>)),
      cnt := dec32 (cnt (?b\<lparr>cnt := Suc n mod 2 ^ 32\<rparr>)) 1\<rparr> = ?b1\<lparr>cnt := dec32 (Suc n mod 2 ^ 32) 1\<rparr>"
      by simp
    then show ?thesis unfolding bo d by (simp add: with_cnt_def put_bin_def)
  qed
  obtain ys where ys: "G (Cache ?w c) = head ?b # ys"
    "slab_core (own_set own {head ?b} Lost) (G(Cache ?w c := ys)) B (put_bin ?w c (?b1\<lparr>cnt := n mod 2 ^ 32\<rparr>) h)"
    "slot (put_bin ?w c (?b1\<lparr>cnt := n mod 2 ^ 32\<rparr>) h) c (head ?b)"
    using pop_core [OF Suc.prems(1,2), of ?w] ne unfolding eq1 unfolding bo by auto
  define h2 where "h2 = loose_push c (head ?b) (set_tls_bin c ?b1 h)"
  have w2: "with_cnt c (n mod 2 ^ 32) h2 = loose_push c (head ?b) (put_bin ?w c (?b1\<lparr>cnt := n mod 2 ^ 32\<rparr>) h)"
    by (simp add: h2_def with_cnt_def set_tls_bin_def put_bin_def loose_push_def Let_def set_slab_global_def)
  have s2: "self h2 = self h" "slab_tls h2 = (slab_tls h)(self h := (slab_tls h (self h))(c := ?b1))"
    by (simp_all add: h2_def set_tls_bin_def)
  have core2: "slab_core (own_set (own_set own {head ?b} Lost) {head ?b} (Loose c))
      (G(Cache ?w c := ys, Loose c := head ?b # G (Loose c))) B (with_cnt c (n mod 2 ^ 32) h2)"
    and k: "kept B h (with_cnt c (n mod 2 ^ 32) h2)"
    using loose_push_core [OF ys(2) Suc.prems(2) _ ys(3), folded w2] by (simp_all add: own_setI kept_def)
  have "flush_chain c h = flush_chain c h2"
    using ne by (subst flush_chain.simps) (simp add: Let_def h2_def)
  moreover obtain h' where "flush_chain c h2 = Some h'" "flushed c B h2 (with_cnt c 0 h')" "self h' = self h2"
    "head (slab_tls h' (self h2) c) = 0" "cur (slab_tls h' (self h2) c) = fin (slab_tls h' (self h2) c)"
    using Suc.IH [OF core2 Suc.prems(2)] ys(1) Suc.prems(3,4) by (auto simp: s2)
  ultimately show ?case using k by (auto simp: s2 flushed_def kept_def)
qed

lemma slab_flush_classes_ok:
  "slab_core own G B h \<Longrightarrow> c + k = SLAB_CLASSES \<Longrightarrow>
     \<exists>h'. slab_flush_classes c k h = Some h' \<and> (\<exists>own G. slab_core own G B h') \<and> kept B h h' \<and> self h' = self h
       \<and> (\<forall>d < c. slab_tls h' (self h) d = slab_tls h (self h) d)
       \<and> (\<forall>d < SLAB_CLASSES. c \<le> d \<longrightarrow> head (slab_tls h' (self h) d) = 0 \<and> cnt (slab_tls h' (self h) d) = 0
            \<and> cur (slab_tls h' (self h) d) = fin (slab_tls h' (self h) d))"
proof (induction k arbitrary: c h own G)
  case 0
  then show ?case by auto
next
  case (Suc k)
  then have c: "c < SLAB_CLASSES" by simp
  obtain h1 where h1: "flush_window c h = Some h1" "flushed c B h h1"
    "cur (slab_tls h1 (self h) c) = fin (slab_tls h1 (self h) c)"
    using flush_window_ok [OF Suc.prems(1) c refl] by blast
  have s1: "self h1 = self h" using h1(2) by (simp add: flushed_def)
  obtain own1 G1 where core1: "slab_core own1 G1 B h1" using h1(2) by (auto simp: flushed_def)
  let ?n = "length (G1 (Cache (Some (self h1)) c))"
  have "cnt (slab_tls h1 (self h1) c) = ?n mod 2 ^ 32"
    using slab_repD(1) [OF slab_coreD(1) [OF core1] c, of "Some (self h1)"] by (simp add: cache_ok_def bin_of_def)
  moreover have "with_cnt c (cnt (slab_tls h1 (self h1) c)) h1 = h1"
    by (simp add: with_cnt_def put_bin_def)
  ultimately have "with_cnt c (?n mod 2 ^ 32) h1 = h1" by simp
  then obtain h2 where h2: "flush_chain c h1 = Some h2" "flushed c B h1 (with_cnt c 0 h2)" "self h2 = self h1"
    "head (slab_tls h2 (self h1) c) = 0" "cur (slab_tls h2 (self h1) c) = fin (slab_tls h2 (self h1) c)"
    using flush_chain_ok [of own1 G1 B c ?n h1] core1 c h1(3) s1 by auto
  let ?h3 = "with_cnt c 0 h2"
  have h3: "set_tls_bin c ((slab_tls h2 (self h2) c)\<lparr>cnt := 0\<rparr>) h2 = ?h3"
    by (simp add: with_cnt_def set_tls_bin_put)
  obtain own3 G3 where core3: "slab_core own3 G3 B ?h3" using h2(2) by (auto simp: flushed_def)
  obtain h' where h': "slab_flush_classes (c + 1) k ?h3 = Some h'" "\<exists>own G. slab_core own G B h'"
    "kept B ?h3 h'" "self h' = self h2" "\<forall>d<c + 1. slab_tls h' (self h2) d = slab_tls ?h3 (self h2) d"
    "\<forall>d<SLAB_CLASSES. c + 1 \<le> d \<longrightarrow> head (slab_tls h' (self h2) d) = 0 \<and> cnt (slab_tls h' (self h2) d) = 0
       \<and> cur (slab_tls h' (self h2) d) = fin (slab_tls h' (self h2) d)"
    using Suc.IH [OF core3, of "c + 1"] Suc.prems(2) by auto
  have "slab_flush_classes c (Suc k) h = Some h'"
    using h1(1) h2(1) h'(1) h3 by simp
  moreover have "kept B h h'"
    using h1(2) h2(2) h'(3) kept_trans unfolding flushed_def by metis
  moreover have "slab_tls h' (self h) d = slab_tls h (self h) d" if "d < c" for d
    using that h'(5) h2(2,3) h1(2) s1 by (simp add: flushed_def)
  moreover have "head (slab_tls h' (self h) d) = 0 \<and> cnt (slab_tls h' (self h) d) = 0
      \<and> cur (slab_tls h' (self h) d) = fin (slab_tls h' (self h) d)" if "d < SLAB_CLASSES" "c \<le> d" for d
  proof (cases "d = c")
    case True
    then have "slab_tls h' (self h2) d = (slab_tls h2 (self h2) c)\<lparr>cnt := 0\<rparr>" using h'(5) by simp
    then show ?thesis using True h2(3,4,5) s1 by simp
  qed (use that h'(6) h2(3) s1 in simp)
  ultimately show ?case using h'(2,4) h2(3) s1 by auto
qed

text \<open>The flush ends, and leaves the thread's caches empty and every client's bytes as they were.\<close>

lemma slab_flush_tls_ok:
  assumes "slab_inv B h"
  shows "\<exists>h'. slab_flush_tls h = Some h' \<and> slab_inv B h' \<and> kept B h h' \<and> self h' = self h
       \<and> (\<forall>c < SLAB_CLASSES. head (slab_tls h' (self h) c) = 0 \<and> cnt (slab_tls h' (self h) c) = 0
            \<and> cur (slab_tls h' (self h) c) = fin (slab_tls h' (self h) c))"
proof -
  obtain own G where core: "slab_core own G B h" using assms by (auto simp: slab_inv_core)
  from slab_flush_classes_ok [OF core, of 0 SLAB_CLASSES] show ?thesis
    by (auto simp: slab_flush_tls_def slab_inv_core)
qed

interpretation slab: seam_spec slab_seam slab_inv
proof unfold_locales
  fix B h
  show "slab_inv B h \<Longrightarrow> owned_wf B" using slab_core_wf by (auto simp: slab_inv_core)
next
  fix B n p h h'
  assume "slab_inv B h" "n < 2 ^ 64" "seam_alloc slab_seam n h = (p, h')"
  then show "kept B h h' \<and> (if p = 0 then slab_inv B h' else fresh_block B p n \<and> slab_inv (B(p \<mapsto> (Seam, n))) h')"
    using slab_alloc_post [of B h n] by (auto simp: slab_seam_def alloc_post_def)
next
  fix B p k n q h h'
  assume "slab_inv B h" "B p = Some (Seam, k)" "n < 2 ^ 64" "seam_realloc slab_seam p n h = (q, h')"
  then show "kept (B(p := None)) h h'
      \<and> (if q = 0 then slab_inv B h' \<and> kept B h h'
         else fresh_block (B(p := None)) q n \<and> slab_inv (B(p := None, q \<mapsto> (Seam, n))) h'
           \<and> peek (mem h') q (min k n) = peek (mem h) p (min k n))"
    by (intro slab_realloc_post) (auto simp: slab_seam_def)
next
  fix B n p h h'
  assume "slab_inv B h" "n < 2 ^ 64" "seam_realloc slab_seam 0 n h = (p, h')"
  then show "kept B h h' \<and> (if p = 0 then slab_inv B h' else fresh_block B p n \<and> slab_inv (B(p \<mapsto> (Seam, n))) h')"
    using slab_alloc_post [of B h n] by (auto simp: slab_seam_def slab_rt_base_realloc_def alloc_post_def)
next
  fix B p k n q and h h' :: slab_heap
  assume "slab_inv B h" "B p = Some (Tmp, k)" "tmp_realloc p n h = (q, h')"
  then show "kept (B(p := None)) h h'
      \<and> (if q = 0 then slab_inv B h' \<and> kept B h h'
         else fresh_block (B(p := None)) q n \<and> slab_inv (B(p := None, q \<mapsto> (Tmp, n))) h'
           \<and> peek (mem h') q (min k n) = peek (mem h) p (min k n))"
    by (rule slab_tmp_realloc_post)
next
  fix B p k h
  assume "slab_inv B h" "B p = Some (Seam, k)"
  then show "slab_inv (B(p := None)) (seam_free slab_seam p h) \<and> kept (B(p := None)) h (seam_free slab_seam p h)"
    using slab_free_post by (simp add: slab_seam_def)
next
  fix B n p and h h' :: slab_heap
  assume "slab_inv B h" "malloc n h = (p, h')"
  then show "kept B h h' \<and> (if p = 0 then slab_inv B h' else fresh_block B p n \<and> slab_inv (B(p \<mapsto> (Tmp, n))) h')"
    by (rule slab_malloc_post)
next
  fix B p k and h :: slab_heap
  assume "slab_inv B h" "B p = Some (Tmp, k)"
  then show "slab_inv (B(p := None)) (tmp_free p h) \<and> kept (B(p := None)) h (tmp_free p h)"
    by (rule slab_tmp_free_post)
next
  fix B p q w k and bs :: "byte list" and h :: slab_heap
  assume "slab_inv B h" "B p = Some (w, k)" "p \<le> q" "q + length bs \<le> p + k"
  then show "slab_inv B (h\<lparr>mem := poke (mem h) q bs\<rparr>)" by (rule slab_write_post)
next
  fix B h
  assume "slab_inv B h"
  then show "\<exists>h'. seam_flush slab_seam h = Some h' \<and> slab_inv B h' \<and> kept B h h'"
    using slab_flush_tls_ok [of B h] by (auto simp: slab_seam_def)
qed (simp add: slab_seam_def slab_rt_free_def)

subsection \<open>All threads\<close>

text \<open>One step of a program: an allocator call, a write into a block it holds, or a thread event.
  The first component is what the program holds.\<close>

inductive slab_step :: "owned \<times> slab_heap \<Rightarrow> owned \<times> slab_heap \<Rightarrow> bool" where
  alloc: "n < 2 ^ 64 \<Longrightarrow> slab_rt_base_alloc n h = (p, h') \<Longrightarrow> p \<noteq> 0 \<Longrightarrow> slab_step (B, h) (B(p \<mapsto> (Seam, n)), h')"
| alloc_fails: "n < 2 ^ 64 \<Longrightarrow> slab_rt_base_alloc n h = (0, h') \<Longrightarrow> slab_step (B, h) (B, h')"
| free: "B p = Some (Seam, k) \<Longrightarrow> slab_step (B, h) (B(p := None), slab_rt_free p h)"
| free_null: "slab_step (B, h) (B, slab_rt_free 0 h)"
| realloc: "B p = Some (Seam, k) \<Longrightarrow> n < 2 ^ 64 \<Longrightarrow> slab_rt_base_realloc p n h = (q, h') \<Longrightarrow> q \<noteq> 0 \<Longrightarrow>
    slab_step (B, h) (B(p := None, q \<mapsto> (Seam, n)), h')"
| realloc_fails: "B p = Some (Seam, k) \<Longrightarrow> n < 2 ^ 64 \<Longrightarrow> slab_rt_base_realloc p n h = (0, h') \<Longrightarrow>
    slab_step (B, h) (B, h')"
| tmp_alloc: "malloc n h = (p, h') \<Longrightarrow> p \<noteq> 0 \<Longrightarrow> slab_step (B, h) (B(p \<mapsto> (Tmp, n)), h')"
| tmp_release: "B p = Some (Tmp, k) \<Longrightarrow> slab_step (B, h) (B(p := None), tmp_free p h)"
| store: "B p = Some (w, k) \<Longrightarrow> p \<le> q \<Longrightarrow> q + length bs \<le> p + k \<Longrightarrow>
    slab_step (B, h) (B, h\<lparr>mem := poke (mem h) q bs\<rparr>)"
| switch: "slab_step (B, h) (B, h\<lparr>self := t\<rparr>)"
| enable: "slab_step (B, h) (B, prismio_memory_threads_enable h)"
| enter: "slab_step (B, h) (B, prismio_memory_thread_enter h)"
| flush: "slab_flush_tls h = Some h' \<Longrightarrow> slab_step (B, h) (B, h')"

text \<open>A process at its start, on any C library and any answer of \<open>mmap\<close> and \<open>getenv\<close>.\<close>

definition empty_bin :: SlabBin where
  "empty_bin = \<lparr>head = 0, cnt = 0, cur = 0, fin = 0\<rparr>"

definition empty_global :: SlabGlobal where
  "empty_global = \<lparr>batches = 0, loose = 0, loose_n = 0, bump = 0, limit = 0\<rparr>"

definition slab_boot :: "heap \<Rightarrow> bool \<Rightarrow> ((addr \<Rightarrow> nat option) \<Rightarrow> nat \<Rightarrow> addr option) \<Rightarrow> slab_heap" where
  "slab_boot h0 env_off map_at = heap.extend h0
     \<lparr>slab_base = 0, slab_span = 0, slab_state = 0, slab_main = \<lambda>_. empty_bin, slab_tls = \<lambda>_ _. empty_bin,
      slab_tls_used = \<lambda>_. False, slab_global = \<lambda>_. empty_global, slab_span_class = \<lambda>_. 0,
      slab_span_next = 0, slab_off = env_off, mmap = map_at\<rparr>"

lemma slab_boot_inv:
  assumes "libc_ok h0" "live h0 = Map.empty" "\<And>lv n m. live_wf lv \<Longrightarrow> map_at lv n = Some m \<Longrightarrow> placed lv n (m, n)"
  shows "slab_inv Map.empty (slab_boot h0 env_off map_at)"
proof -
  let ?h = "slab_boot h0 env_off map_at"
  have f: "live ?h = Map.empty" "pick ?h = pick h0" "repick ?h = repick h0"
    using assms(2) by (simp_all add: slab_boot_def heap.defs)
  have "libc_ok ?h" using assms(1) f by (simp add: libc_ok_def)
  moreover have "live_wf (live ?h)" by (simp add: f live_wf_def)
  moreover have "mmap_ok ?h" using assms(3) by (simp add: mmap_ok_def slab_boot_def heap.defs)
  moreover have "slab_geometry ?h"
    by (simp add: slab_geometry_def slab_boot_def heap.defs SLAB_SPAN_def)
  moreover have "bin_of ?h w c = empty_bin" for w c
    by (cases w) (simp_all add: bin_of_def slab_boot_def heap.defs)
  then have "slab_rep (\<lambda>_. []) ?h"
    by (auto simp: slab_rep_def cache_ok_def window_ok_def shared_ok_def tail_ok_def empty_bin_def empty_global_def
        blocks_from_def slab_boot_def heap.defs intro!: exI [of _ 0] exI [of _ "[]"])
  moreover have "slab_placed (\<lambda>_. Lost) (\<lambda>_. []) ?h" by (simp add: slab_placed_def)
  moreover have "slab_clients (\<lambda>_. Lost) Map.empty ?h" by (simp add: slab_clients_def)
  ultimately show ?thesis by (auto simp: slab_inv_def)
qed

lemma slab_inv_thread:
  assumes "slab_inv B h"
  shows "slab_inv B (h\<lparr>self := t\<rparr>)" "slab_inv B (h\<lparr>threads_enabled := e\<rparr>)" "slab_inv B (h\<lparr>worker := w\<rparr>)"
proof -
  have bins: "bin_of (h\<lparr>self := t\<rparr>) = bin_of h" "bin_of (h\<lparr>threads_enabled := e\<rparr>) = bin_of h"
    "bin_of (h\<lparr>worker := w\<rparr>) = bin_of h"
    by (auto simp: bin_of_def fun_eq_iff split: option.splits)
  have sl: "slot (h\<lparr>self := t\<rparr>) = slot h" "slot (h\<lparr>threads_enabled := e\<rparr>) = slot h" "slot (h\<lparr>worker := w\<rparr>) = slot h"
    by (auto simp: slot_def slot_in_def fun_eq_iff)
  show "slab_inv B (h\<lparr>self := t\<rparr>)" "slab_inv B (h\<lparr>threads_enabled := e\<rparr>)" "slab_inv B (h\<lparr>worker := w\<rparr>)"
    using assms unfolding slab_inv_def
    by (simp_all add: slab_rep_def slab_placed_def slab_clients_def bins sl libc_ok_def mmap_ok_def slab_geometry_def)
qed

lemma slab_step_inv: "slab_step s s' \<Longrightarrow> slab_inv (fst s) (snd s) \<Longrightarrow> slab_inv (fst s') (snd s')"
proof (induction rule: slab_step.induct)
  case (alloc n h p h' B)
  then show ?case using slab_alloc_post [of B h n] by (simp add: alloc_post_def del: fun_upd_apply)
next
  case (alloc_fails n h h' B)
  then show ?case using slab_alloc_post [of B h n] by (simp add: alloc_post_def del: fun_upd_apply)
next
  case (free B p k h)
  then show ?case using slab_free_post by (simp del: fun_upd_apply)
next
  case (realloc B p k n h q h')
  then show ?case using slab_realloc_post [of B h p k n q h'] by (simp del: fun_upd_apply)
next
  case (realloc_fails B p k n h h')
  then show ?case using slab_realloc_post [of B h p k n 0 h'] by simp
next
  case (tmp_alloc n h p h' B)
  then show ?case using slab_malloc_post [of B h n p h' Tmp] by (simp del: fun_upd_apply)
next
  case (tmp_release B p k h)
  then show ?case using slab_tmp_free_post by (simp del: fun_upd_apply)
next
  case (store B p w k q bs h)
  then show ?case using slab_write_post by simp
next
  case (flush h h' B)
  then show ?case using slab_flush_tls_ok [of B h] by auto
qed (simp_all add: slab_inv_thread prismio_memory_threads_enable_def prismio_memory_thread_enter_def slab_rt_free_def)

lemma slab_run_inv:
  "slab_step\<^sup>*\<^sup>* s s' \<Longrightarrow> slab_inv (fst s) (snd s) \<Longrightarrow> slab_inv (fst s') (snd s')"
  by (induction rule: rtranclp_induct) (auto intro: slab_step_inv)

subsection \<open>Properties\<close>

text \<open>C1. Whatever allocator calls, writes and thread events a program makes, in whatever order its
  threads interleave, the blocks it holds never overlap, are never null and end below the top of
  the address space.\<close>

theorem slab_no_overlap:
  assumes "libc_ok h0" "live h0 = Map.empty" "\<And>lv n m. live_wf lv \<Longrightarrow> map_at lv n = Some m \<Longrightarrow> placed lv n (m, n)"
    and "slab_step\<^sup>*\<^sup>* (Map.empty, slab_boot h0 env_off map_at) (B, h)"
    and "B a = Some (v, k)" "B b = Some (w, j)" "a \<noteq> b"
  shows "apart a k b j \<and> a \<noteq> 0 \<and> a + k < 2 ^ 64"
proof -
  have "slab_inv B h"
    using slab_run_inv [OF assms(4)] slab_boot_inv [OF assms(1-3)] by simp
  then have "owned_wf B" using slab.inv_wf by blast
  with assms(5-7) show ?thesis unfolding owned_wf_def by blast
qed

text \<open>A C library that refuses every request, and a system that grants one reservation.\<close>

definition stingy_heap :: heap where
  "stingy_heap = \<lparr>mem = \<lambda>_. 0, live = \<lambda>_. None, pick = \<lambda>_ _. (0, 0), repick = \<lambda>_ _ _. (0, 0), self = 0,
     worker = \<lambda>_. False, threads_enabled = False\<rparr>"

definition one_map :: "(addr \<Rightarrow> nat option) \<Rightarrow> nat \<Rightarrow> addr option" where
  "one_map lv n = (if lv = Map.empty \<and> n = SLAB_RESERVE then Some 0x600000000000 else None)"

lemma one_map_placed: "one_map lv n = Some m \<Longrightarrow> placed lv n (m, n)"
  by (auto simp: one_map_def placed_def SLAB_RESERVE_def split: if_splits)

lemma first_alloc:
  obtains h1 where "slab_rt_base_alloc 24 (slab_boot stingy_heap False one_map) = (0x600000000440, h1)"
    "slab_bin 1 h1 = \<lparr>head = 0, cnt = 0, cur = 0x600000000460, fin = 0x600000002440\<rparr>" "slab_state h1 = 1"
    "\<not> on_worker h1" "\<not> threads_enabled h1" "slab_base h1 = 0x600000000000" "slab_span h1 = SLAB_RESERVE"
    "slab_span_class h1 0 = 1"
    by (simp add: slab_rt_base_alloc_def u64_def slab_boot_def stingy_heap_def heap.defs slab_pop_def slab_refill_def
        slab_refill_shared_def slab_refill_span_def slab_init_def one_map_def slab_bin_def set_slab_bin_def
        set_slab_global_def on_worker_def prismio_memory_threads_are_enabled_def empty_bin_def empty_global_def
        class_size_def slab_window_def SLAB_MAX_def SLAB_GRAIN_def SLAB_CLASSES_def SLAB_RESERVE_def SLAB_SPAN_def
        SLAB_STAGGER_def SLAB_WINDOW_BYTES_def Let_def)

lemma boot_inv: "slab_inv Map.empty (slab_boot stingy_heap False one_map)"
  by (rule slab_boot_inv) (auto simp: one_map_placed libc_ok_def stingy_heap_def)

theorem slab_no_overlap_witness:
  "\<exists>B h. slab_step\<^sup>*\<^sup>* (Map.empty, slab_boot stingy_heap False one_map) (B, h)
     \<and> B 0x600000000440 = Some (Seam, 24) \<and> B 0x600000000460 = Some (Seam, 30)
     \<and> apart 0x600000000440 24 0x600000000460 30"
proof -
  let ?h = "slab_boot stingy_heap False one_map"
  obtain h1 where h1: "slab_rt_base_alloc 24 ?h = (0x600000000440, h1)"
    "slab_bin 1 h1 = \<lparr>head = 0, cnt = 0, cur = 0x600000000460, fin = 0x600000002440\<rparr>" "slab_state h1 = 1"
    "\<not> on_worker h1"
    by (rule first_alloc)
  obtain h2 where h2: "slab_rt_base_alloc 30 h1 = (0x600000000460, h2)"
    using h1(2-4)
    by (simp add: slab_rt_base_alloc_def u64_def slab_pop_def slab_refill_def Let_def
        SLAB_MAX_def SLAB_GRAIN_def SLAB_CLASSES_def)
  let ?B = "[0x600000000440 \<mapsto> (Seam, 24), 0x600000000460 \<mapsto> (Seam, 30)]"
  have run: "slab_step\<^sup>*\<^sup>* (Map.empty, ?h) (?B, h2)"
    by (rule rtranclp_trans [OF r_into_rtranclp r_into_rtranclp])
      (rule slab_step.alloc [OF _ h1(1)], simp, simp, rule slab_step.alloc [OF _ h2], simp_all)
  have "apart 0x600000000440 24 0x600000000460 30 \<and> (0x600000000440 :: nat) \<noteq> 0 \<and> 0x600000000440 + 24 < (2 :: nat) ^ 64"
    by (rule slab_no_overlap [OF _ _ _ run, where v = Seam and w = Seam])
      (auto simp: one_map_placed libc_ok_def stingy_heap_def)
  with run show ?thesis by (intro exI [of _ ?B] exI [of _ h2]) simp
qed

text \<open>C2. An allocation that succeeds returns a block of at least the requested size, disjoint from
  every block the program holds, and changes no byte of those; one that fails changes nothing the
  program can see.  Either way the heap stays in order.\<close>

theorem slab_alloc_fresh:
  assumes "slab_inv B h" "n < 2 ^ 64" "slab_rt_base_alloc n h = (p, h')"
  shows "kept B h h' \<and> (if p = 0 then slab_inv B h' else fresh_block B p n \<and> slab_inv (B(p \<mapsto> (Seam, n))) h')"
  using slab.alloc_law [OF assms(1,2)] assms(3) by (simp add: slab_seam_def)

theorem slab_alloc_fresh_witness:
  "\<exists>p h'. slab_rt_base_alloc 24 (slab_boot stingy_heap False one_map) = (p, h') \<and> p \<noteq> 0
     \<and> fresh_block Map.empty p 24 \<and> slab_inv [p \<mapsto> (Seam, 24)] h'"
proof -
  obtain h1 where "slab_rt_base_alloc 24 (slab_boot stingy_heap False one_map) = (0x600000000440, h1)"
    by (rule first_alloc)
  with slab_alloc_fresh [OF boot_inv _ this] show ?thesis by (intro exI) auto
qed

text \<open>In a program that has started no thread, a freed block of a size class is the next one
  handed out for that class.\<close>

theorem slab_free_then_alloc:
  assumes inv: "slab_inv B h" and p: "B p = Some (Seam, k)" "slab_offset p h < slab_span h"
    and n: "0 < n" "(n - 1) div 16 = slab_span_class h (slab_offset p h div SLAB_SPAN)"
    and quiet: "\<not> threads_enabled h"
  shows "fst (slab_rt_base_alloc n (slab_rt_free p h)) = p"
proof -
  obtain own G where core: "slab_core own G B h" using inv by (auto simp: slab_inv_core)
  note g = slab_coreD(7) [OF core] slab_coreD(5) [OF core]
  let ?c = "slab_span_class h (slab_offset p h div SLAB_SPAN)"
  from slab_coreD(3) [OF core] p(1) have "?c < SLAB_CLASSES \<and> p \<noteq> 0"
  proof (cases rule: slab_clientsD)
    case (1 c)
    then show ?thesis using slot_offset [OF g 1(4)] by simp
  next
    case (2 u)
    then show ?thesis using libc_outside(1) [OF g 2(1,3)] p(2) by simp
  qed
  then have sl: "?c < SLAB_CLASSES" "p \<noteq> 0" by simp_all
  let ?b = "slab_bin ?c h"
  let ?h1 = "set_slab_bin ?c (?b\<lparr>head := p, cnt := inc32 (cnt ?b)\<rparr>) (h\<lparr>mem := store64 (mem h) p (head ?b)\<rparr>)"
  have t: "threads_enabled ?h1 = threads_enabled h" by (simp add: set_slab_bin_def)
  have "slab_rt_free p h = ?h1"
    using p(2) sl(2) quiet t by (simp add: slab_rt_free_def Let_def prismio_memory_threads_are_enabled_def)
  moreover have "head (slab_bin ?c ?h1) = p" by (simp add: slab_bin_me set_slab_bin_me)
  moreover have "n - 1 < SLAB_MAX" "n < 2 ^ 64"
    using n sl(1) by (auto simp: SLAB_MAX_def SLAB_GRAIN_def SLAB_CLASSES_def)
  moreover have "u64 (int n - 1) = n - 1" using n(1) \<open>n < 2 ^ 64\<close> by (simp add: u64_def)
  ultimately show ?thesis
    using sl(2) n(2) by (simp add: slab_rt_base_alloc_def slab_pop_def Let_def)
qed

theorem slab_free_then_alloc_witness:
  "\<exists>h. slab_rt_base_alloc 24 (slab_boot stingy_heap False one_map) = (0x600000000440, h)
     \<and> fst (slab_rt_base_alloc 17 (slab_rt_free 0x600000000440 h)) = 0x600000000440"
proof -
  obtain h1 where h1: "slab_rt_base_alloc 24 (slab_boot stingy_heap False one_map) = (0x600000000440, h1)"
    "\<not> threads_enabled h1" "slab_base h1 = 0x600000000000" "slab_span h1 = SLAB_RESERVE" "slab_span_class h1 0 = 1"
    by (rule first_alloc)
  have inv: "slab_inv [0x600000000440 \<mapsto> (Seam, 24)] h1"
    using slab_alloc_post [OF boot_inv, of 24] by (simp add: alloc_post_def h1(1) del: fun_upd_apply)
  have off: "slab_offset 0x600000000440 h1 = 0x440"
    by (simp add: slab_offset_def u64_def h1(3))
  have "fst (slab_rt_base_alloc 17 (slab_rt_free 0x600000000440 h1)) = 0x600000000440"
    by (rule slab_free_then_alloc [OF inv, where k = 24])
      (simp_all add: off h1 SLAB_RESERVE_def SLAB_SPAN_def)
  with h1(1) show ?thesis by blast
qed

text \<open>C5. When a worker exits, the flush of its cache ends and leaves every bin of that thread empty,
  with the heap in order and the program's bytes untouched.\<close>

theorem slab_flush_total:
  assumes "slab_inv B h"
  shows "\<exists>h'. slab_flush_tls h = Some h' \<and> slab_inv B h' \<and> kept B h h'
     \<and> (\<forall>c < SLAB_CLASSES. head (slab_tls h' (self h) c) = 0 \<and> cnt (slab_tls h' (self h) c) = 0
          \<and> cur (slab_tls h' (self h) c) = fin (slab_tls h' (self h) c))"
  using slab_flush_tls_ok [OF assms] by blast

theorem slab_flush_total_witness:
  "\<exists>h'. slab_flush_tls (slab_boot stingy_heap False one_map) = Some h'"
  using slab_flush_total [OF boot_inv] by blast

end
