(* ===== verification/Recycler.thy ===== *)
theory Recycler
  imports Chains
begin

text \<open>
  The small-block recycler that is the seam on Windows (\<open>runtime/lang_runtime.c\<close>): freed blocks of
  up to 128 bytes are kept in eight buckets, chained through their first word, at most 512 in
  all, and only while no thread exists.  \<open>_msize\<close> is \<open>usable_size\<close> of the C library's block.
\<close>

subsection \<open>Definitions\<close>

definition RT_RECYCLE_GRAIN :: nat where "RT_RECYCLE_GRAIN = 16"
definition RT_RECYCLE_BUCKETS :: nat where "RT_RECYCLE_BUCKETS = 8"
definition RT_RECYCLE_HELD_MAX :: int where "RT_RECYCLE_HELD_MAX = 512"

record recycle_heap = heap +
  rt_recycle_head :: "nat \<Rightarrow> addr"
  rt_recycle_held :: int

definition recycle_rt_base_alloc :: "nat \<Rightarrow> recycle_heap \<Rightarrow> addr \<times> recycle_heap" where
  "recycle_rt_base_alloc n h =
     (if n \<le> RT_RECYCLE_GRAIN * RT_RECYCLE_BUCKETS \<and> \<not> prismio_memory_threads_are_enabled h
      then let k0 = (n + RT_RECYCLE_GRAIN - 1) div RT_RECYCLE_GRAIN; k = (if k0 = 0 then 1 else k0);
               reused = rt_recycle_head h (k - 1)
           in if reused \<noteq> 0
              then (reused, h\<lparr>rt_recycle_head := (rt_recycle_head h)(k - 1 := load64 (mem h) reused),
                              rt_recycle_held := rt_recycle_held h - 1\<rparr>)
              else malloc (k * RT_RECYCLE_GRAIN) h
      else malloc n h)"

definition recycle_rt_base_realloc :: "addr \<Rightarrow> nat \<Rightarrow> recycle_heap \<Rightarrow> addr \<times> recycle_heap" where
  "recycle_rt_base_realloc p n h = tmp_realloc p n h"

definition rt_pool_put_or_free :: "addr \<Rightarrow> recycle_heap \<Rightarrow> recycle_heap" where
  "rt_pool_put_or_free p h =
     (let k = usable_size p h div RT_RECYCLE_GRAIN in
      if k \<ge> 1 \<and> k \<le> RT_RECYCLE_BUCKETS
      then h\<lparr>mem := store64 (mem h) p (rt_recycle_head h (k - 1)),
             rt_recycle_head := (rt_recycle_head h)(k - 1 := p),
             rt_recycle_held := rt_recycle_held h + 1\<rparr>
      else tmp_free p h)"

definition recycle_rt_free :: "addr \<Rightarrow> recycle_heap \<Rightarrow> recycle_heap" where
  "recycle_rt_free p h =
     (if p = 0 then h
      else if rt_recycle_held h < RT_RECYCLE_HELD_MAX \<and> \<not> prismio_memory_threads_are_enabled h
      then rt_pool_put_or_free p h
      else tmp_free p h)"

definition recycle_seam :: "unit recycle_heap_ext seam" where
  "recycle_seam = \<lparr>seam_alloc = recycle_rt_base_alloc, seam_realloc = recycle_rt_base_realloc,
     seam_free = recycle_rt_free, seam_flush = Some\<rparr>"

subsection \<open>The invariant\<close>

text \<open>Bucket \<open>k\<close> is a chain of live C library blocks of at least \<open>16 (k + 1)\<close> bytes that no client
  holds and no other bucket has; the counter is what they hold together.\<close>

definition bucket_ok :: "(nat \<Rightarrow> addr list) \<Rightarrow> owned \<Rightarrow> recycle_heap \<Rightarrow> nat \<Rightarrow> bool" where
  "bucket_ok G B h k \<longleftrightarrow> chain (mem h) (rt_recycle_head h k) (G k) \<and> distinct (G k)
     \<and> (\<forall>a \<in> set (G k). B a = None \<and> (\<exists>u. live h a = Some u \<and> (k + 1) * 16 \<le> u))"

definition recycle_core :: "(nat \<Rightarrow> addr list) \<Rightarrow> owned \<Rightarrow> recycle_heap \<Rightarrow> bool" where
  "recycle_core G B h \<longleftrightarrow> plain_core B h \<and> (\<forall>k < RT_RECYCLE_BUCKETS. bucket_ok G B h k)
     \<and> (\<forall>k < RT_RECYCLE_BUCKETS. \<forall>j < RT_RECYCLE_BUCKETS. k \<noteq> j \<longrightarrow> set (G k) \<inter> set (G j) = {})
     \<and> rt_recycle_held h = int (\<Sum>k < RT_RECYCLE_BUCKETS. length (G k))"

definition recycle_inv :: "owned \<Rightarrow> recycle_heap \<Rightarrow> bool" where
  "recycle_inv B h \<longleftrightarrow> (\<exists>G. recycle_core G B h)"

lemma recycle_coreD:
  assumes "recycle_core G B h"
  shows "plain_core B h" "k < RT_RECYCLE_BUCKETS \<Longrightarrow> bucket_ok G B h k"
    "k < RT_RECYCLE_BUCKETS \<Longrightarrow> j < RT_RECYCLE_BUCKETS \<Longrightarrow> k \<noteq> j \<Longrightarrow> set (G k) \<inter> set (G j) = {}"
    "rt_recycle_held h = int (\<Sum>k < RT_RECYCLE_BUCKETS. length (G k))"
  using assms unfolding recycle_core_def by blast+

lemma bucket_okD:
  assumes "bucket_ok G B h k"
  shows "chain (mem h) (rt_recycle_head h k) (G k)" "distinct (G k)" "a \<in> set (G k) \<Longrightarrow> B a = None"
    "a \<in> set (G k) \<Longrightarrow> \<exists>u. live h a = Some u \<and> (k + 1) * 16 \<le> u"
  using assms unfolding bucket_ok_def by blast+

text \<open>Buckets see neither a write into another live block nor a change of who holds that block.\<close>

lemma bucket_keep:
  assumes "bucket_ok G B h k" "rt_recycle_head h' k = rt_recycle_head h k"
    and "\<And>a. a \<in> set (G k) \<Longrightarrow> same16 (mem h) (mem h') a \<and> live h' a = live h a \<and> B' a = None"
  shows "bucket_ok G B' h' k"
  using assms chain_cong [of "G k" "mem h" "mem h'"] unfolding bucket_ok_def by auto

lemma same16_live:
  assumes "live_wf lv" "lv a = Some u" "16 \<le> u" "lv p = Some v" "a \<noteq> p" "p \<le> q" "q + length bs \<le> p + v"
  shows "same16 m (poke m q bs) a"
proof -
  have "apart a u p v" by (rule live_wfD(2) [OF assms(1,2,4,5)])
  then have "apart a 16 q (length bs)" using assms by (auto elim: apart_sub)
  then show ?thesis by (simp add: same16_def peek_poke_apart)
qed

lemma held_upd:
  "k < RT_RECYCLE_BUCKETS \<Longrightarrow> (\<Sum>j < RT_RECYCLE_BUCKETS. length ((G(k := xs)) j)) + length (G k)
     = (\<Sum>j < RT_RECYCLE_BUCKETS. length (G j)) + length xs"
  by (simp add: sum.remove [of "{..<RT_RECYCLE_BUCKETS}" k] algebra_simps)

lemma bucket_outside:
  assumes "recycle_core G B h" "k < RT_RECYCLE_BUCKETS" "a \<in> set (G k)"
  shows "\<exists>u. live h a = Some u \<and> 16 \<le> u" "B a = None"
  using bucket_okD(3,4) [OF recycle_coreD(2) [OF assms(1,2)] assms(3)] by auto

lemma recycle_core_change:
  assumes core: "recycle_core G B h" and "plain_core B' h'" "rt_recycle_head h' = rt_recycle_head h"
    "rt_recycle_held h' = rt_recycle_held h"
    and "\<And>k a. k < RT_RECYCLE_BUCKETS \<Longrightarrow> a \<in> set (G k) \<Longrightarrow>
       same16 (mem h) (mem h') a \<and> live h' a = live h a \<and> B' a = None"
  shows "recycle_core G B' h'"
proof -
  have "bucket_ok G B' h' k" if "k < RT_RECYCLE_BUCKETS" for k
    by (rule bucket_keep [OF recycle_coreD(2) [OF core that]]) (use assms(3,5) that in auto)
  then show ?thesis
    using assms(2,4) recycle_coreD(3,4) [OF core] unfolding recycle_core_def by simp
qed

lemma same16_refl [simp]: "same16 m m a"
  by (simp add: same16_def)

lemma recycle_malloc:
  assumes core: "recycle_core G B h" and m: "malloc k h = (p, h')" and n: "n \<le> k"
  shows "kept B h h' \<and> (if p = 0 then recycle_core G B h' else fresh_block B p n \<and> recycle_core G (B(p \<mapsto> (w, n))) h')"
proof -
  note I = recycle_coreD(1) [OF core]
  from plain_coreD(1,2) [OF I] m show ?thesis
  proof (cases rule: malloc_cases)
    case 1
    then show ?thesis using core by simp
  next
    case (2 u)
    have pl: "placed (live h) n (p, u)" using 2 n by (simp add: placed_def)
    have pn: "live h p = None" by (rule placed_not_live [OF plain_coreD(2) [OF I] 2(2)])
    have I': "plain_core (B(p \<mapsto> (w, n))) h'" "fresh_block B p n"
      using I pl fresh_from_placed [OF pl plain_coreD(2) [OF I] plain_coreD(3) [OF I]] pn
        live_wf_fresh [OF plain_coreD(2) [OF I] pl] libc_ok_cong [of h' h] plain_coreD(1,3) [OF I]
      by (auto simp: 2 placed_def intro!: plain_coreI split: if_splits)
    have "recycle_core G (B(p \<mapsto> (w, n))) h'"
    proof (rule recycle_core_change [OF core I'(1)])
      fix k a assume "k < RT_RECYCLE_BUCKETS" "a \<in> set (G k)"
      then show "same16 (mem h) (mem h') a \<and> live h' a = live h a \<and> (B(p \<mapsto> (w, n))) a = None"
        using bucket_outside [OF core] pn by (fastforce simp: 2)
    qed (simp_all add: 2)
    then show ?thesis using 2 I' by (simp add: kept_def)
  qed
qed

lemma recycle_pop:
  assumes core: "recycle_core G B h" and k: "k < RT_RECYCLE_BUCKETS" "rt_recycle_head h k \<noteq> 0"
    and n: "n \<le> (k + 1) * 16"
  defines "p \<equiv> rt_recycle_head h k"
  defines "h' \<equiv> h\<lparr>rt_recycle_head := (rt_recycle_head h)(k := load64 (mem h) p), rt_recycle_held := rt_recycle_held h - 1\<rparr>"
  shows "fresh_block B p n \<and> recycle_inv (B(p \<mapsto> (Seam, n))) h'"
proof -
  note I = recycle_coreD(1) [OF core] and b = recycle_coreD(2) [OF core k(1)]
  obtain ys where ys: "G k = p # ys" using bucket_okD(1) [OF b] k(2) by (cases "G k") (auto simp: p_def)
  then obtain u where u: "live h p = Some u" "(k + 1) * 16 \<le> u" and nb: "B p = None"
    using bucket_okD(3,4) [OF b, of p] by auto
  have fresh: "fresh_block B p n"
    unfolding fresh_block_def
  proof (intro conjI allI impI)
    fix a w j assume a: "B a = Some (w, j)"
    then obtain v where v: "live h a = Some v" "j \<le> v" using plain_coreD(3) [OF I] by blast
    with a nb have "apart a v p u" by (intro live_wfD(2) [OF plain_coreD(2) [OF I] _ u(1)]) auto
    then show "apart a j p n" using v u n by (auto elim: apart_sub)
  qed (use live_wfD(1) [OF plain_coreD(2) [OF I] u(1)] u n nb in auto)
  let ?B = "B(p \<mapsto> (Seam, n))" and ?G = "G(k := ys)"
  have I': "plain_core ?B h'"
    using plain_coreD [OF I] libc_ok_cong [of h' h] u n by (intro plain_coreI) (auto simp: h'_def split: if_splits)
  have keep: "bucket_ok ?G ?B h' j" if j: "j < RT_RECYCLE_BUCKETS" for j
  proof (cases "j = k")
    case True
    then show ?thesis
      using bucket_okD [OF b] ys by (auto simp: bucket_ok_def h'_def p_def)
  next
    case False
    then have "p \<notin> set (G j)" using recycle_coreD(3) [OF core j k(1)] ys by auto
    then show ?thesis
      using recycle_coreD(2) [OF core j] False by (auto simp: bucket_ok_def h'_def)
  qed
  have "set (?G i) \<inter> set (?G j) = {}" if "i < RT_RECYCLE_BUCKETS" "j < RT_RECYCLE_BUCKETS" "i \<noteq> j" for i j
    using recycle_coreD(3) [OF core that] ys by (auto split: if_splits)
  moreover have "rt_recycle_held h' = int (\<Sum>j < RT_RECYCLE_BUCKETS. length (?G j))"
    using recycle_coreD(4) [OF core] held_upd [OF k(1), of G ys] ys by (simp add: h'_def flip: of_nat_sum)
  ultimately have "recycle_core ?G ?B h'" using I' keep unfolding recycle_core_def by blast
  with fresh show ?thesis by (auto simp: recycle_inv_def)
qed

lemma recycle_alloc:
  assumes inv: "recycle_inv B h" and a: "recycle_rt_base_alloc n h = (p, h')"
  shows "kept B h h' \<and> (if p = 0 then recycle_inv B h' else fresh_block B p n \<and> recycle_inv (B(p \<mapsto> (Seam, n))) h')"
proof -
  obtain G where core: "recycle_core G B h" using inv by (auto simp: recycle_inv_def)
  have mal: ?thesis if "malloc j h = (p, h')" "n \<le> j" for j
    using recycle_malloc [OF core that, of Seam] by (auto simp: recycle_inv_def)
  let ?k0 = "(n + RT_RECYCLE_GRAIN - 1) div RT_RECYCLE_GRAIN"
  let ?k = "if ?k0 = 0 then 1 else ?k0"
  show ?thesis
  proof (cases "n \<le> RT_RECYCLE_GRAIN * RT_RECYCLE_BUCKETS \<and> \<not> prismio_memory_threads_are_enabled h")
    case False
    then have "malloc n h = (p, h')" using a unfolding recycle_rt_base_alloc_def by (simp only: if_False)
    then show ?thesis by (rule mal) simp
  next
    case True
    have k: "?k - 1 < RT_RECYCLE_BUCKETS" "n \<le> (?k - 1 + 1) * 16"
      using True by (auto simp: RT_RECYCLE_GRAIN_def RT_RECYCLE_BUCKETS_def)
    show ?thesis
    proof (cases "rt_recycle_head h (?k - 1) = 0")
      case False
      then have ph: "p = rt_recycle_head h (?k - 1)"
        "h' = h\<lparr>rt_recycle_head := (rt_recycle_head h)(?k - 1 := load64 (mem h) p), rt_recycle_held := rt_recycle_held h - 1\<rparr>"
        using a True unfolding recycle_rt_base_alloc_def Let_def by auto
      from recycle_pop [OF core k(1) False k(2)] False
      show ?thesis unfolding ph by (simp add: kept_def)
    next
      case z: True
      then have "malloc (?k * RT_RECYCLE_GRAIN) h = (p, h')"
        using a True unfolding recycle_rt_base_alloc_def Let_def by (simp only: if_True simp_thms if_False)
      moreover have "n \<le> ?k * RT_RECYCLE_GRAIN" using k(2) by (simp add: RT_RECYCLE_GRAIN_def split: if_splits)
      ultimately show ?thesis by (rule mal)
    qed
  qed
qed

lemma recycle_tmp_free:
  assumes inv: "recycle_inv B h" and p: "B p = Some (w, k)"
  shows "recycle_inv (B(p := None)) (tmp_free p h) \<and> kept (B(p := None)) h (tmp_free p h)"
proof -
  obtain G where core: "recycle_core G B h" using inv by (auto simp: recycle_inv_def)
  note f = plain_tmp_free [OF recycle_coreD(1) [OF core] p]
  have "recycle_core G (B(p := None)) (tmp_free p h)"
  proof (rule recycle_core_change [OF core])
    fix k a assume "k < RT_RECYCLE_BUCKETS" "a \<in> set (G k)"
    then show "same16 (mem h) (mem (tmp_free p h)) a \<and> live (tmp_free p h) a = live h a \<and> (B(p := None)) a = None"
      using bucket_outside(2) [OF core] p by (auto simp: tmp_free_def)
  qed (use f in \<open>auto simp: tmp_free_def\<close>)
  then show ?thesis using f by (auto simp: recycle_inv_def)
qed

lemma recycle_put:
  assumes core: "recycle_core G B h" and p: "B p = Some (w, j)" "live h p = Some u"
    and k: "k < RT_RECYCLE_BUCKETS" "(k + 1) * 16 \<le> u"
  defines "h' \<equiv> h\<lparr>mem := store64 (mem h) p (rt_recycle_head h k), rt_recycle_head := (rt_recycle_head h)(k := p),
     rt_recycle_held := rt_recycle_held h + 1\<rparr>"
  shows "recycle_inv (B(p := None)) h' \<and> kept (B(p := None)) h h'"
proof -
  note I = recycle_coreD(1) [OF core] and wf = plain_coreD(2) [OF recycle_coreD(1) [OF core]]
  let ?B = "B(p := None)" and ?G = "G(k := p # G k)"
  have p0: "p \<noteq> 0" using live_wfD(1) [OF wf p(2)] by simp
  have pG: "p \<notin> set (G i)" if "i < RT_RECYCLE_BUCKETS" for i using bucket_outside(2) [OF core that, of p] p(1) by auto
  have s16: "same16 (mem h) (mem h') a" if i: "i < RT_RECYCLE_BUCKETS" "a \<in> set (G i)" for i a
  proof -
    obtain v where "live h a = Some v" "16 \<le> v" using bucket_outside(1) [OF core i] by blast
    with same16_live [OF wf this(1,2) p(2), of p "le_bytes 8 (rt_recycle_head h k)"] k(2) i pG show ?thesis
      by (auto simp: h'_def store64_def)
  qed
  have hb: "rt_recycle_head h k < 2 ^ 64"
  proof (cases "G k")
    case Nil
    then show ?thesis using bucket_okD(1) [OF recycle_coreD(2) [OF core k(1)]] by simp
  next
    case (Cons x xs)
    then have "rt_recycle_head h k = x" using bucket_okD(1) [OF recycle_coreD(2) [OF core k(1)]] by simp
    moreover obtain v where "live h x = Some v" using bucket_outside(1) [OF core k(1), of x] Cons by auto
    ultimately show ?thesis using live_wfD(1) [OF wf, of x v] by simp
  qed
  have keep: "bucket_ok ?G ?B h' i" if i: "i < RT_RECYCLE_BUCKETS" for i
  proof -
    note b = bucket_okD [OF recycle_coreD(2) [OF core i]]
    have ch: "chain (mem h') q (G i) = chain (mem h) q (G i)" for q
      by (rule chain_cong) (use s16 i in auto)
    show ?thesis
    proof (cases "i = k")
      case True
      have "load64 (mem h') p = rt_recycle_head h k" using hb by (simp add: h'_def load64_store64)
      then show ?thesis
        using True b ch p0 p k pG [OF i] unfolding bucket_ok_def by (auto simp: h'_def)
    next
      case False
      then show ?thesis using b ch pG [OF i] unfolding bucket_ok_def by (auto simp: h'_def)
    qed
  qed
  have I': "plain_core ?B h'"
    using plain_coreD [OF I] libc_ok_cong [of h' h] by (intro plain_coreI) (auto simp: h'_def split: if_splits)
  have "set (?G i) \<inter> set (?G j) = {}" if "i < RT_RECYCLE_BUCKETS" "j < RT_RECYCLE_BUCKETS" "i \<noteq> j" for i j
    using recycle_coreD(3) [OF core that] pG that by (auto split: if_splits)
  moreover have "rt_recycle_held h' = int (\<Sum>j < RT_RECYCLE_BUCKETS. length (?G j))"
    using recycle_coreD(4) [OF core] held_upd [OF k(1), of G "p # G k"] by (simp add: h'_def flip: of_nat_sum)
  ultimately have "recycle_core ?G ?B h'" using I' keep unfolding recycle_core_def by blast
  moreover have "kept ?B h h'"
    unfolding kept_def
  proof (intro allI impI)
    fix a v i assume a: "?B a = Some (v, i)"
    then have ap: "a \<noteq> p" "B a = Some (v, i)" by (auto split: if_splits)
    then obtain x where "live h a = Some x" "i \<le> x" using plain_coreD(3) [OF I] by blast
    with live_wfD(2) [OF wf this(1) p(2) ap(1)] k(2) have "apart a i p (length (le_bytes 8 (rt_recycle_head h k)))"
      by (auto elim: apart_sub)
    then show "peek (mem h') a i = peek (mem h) a i" by (simp add: h'_def store64_def peek_poke_apart)
  qed
  ultimately show ?thesis by (auto simp: recycle_inv_def)
qed

lemma recycle_free:
  assumes inv: "recycle_inv B h" and p: "B p = Some (Seam, j)"
  shows "recycle_inv (B(p := None)) (recycle_rt_free p h) \<and> kept (B(p := None)) h (recycle_rt_free p h)"
proof -
  obtain G where core: "recycle_core G B h" using inv by (auto simp: recycle_inv_def)
  note I = recycle_coreD(1) [OF core]
  obtain u where u: "live h p = Some u" using plain_coreD(3) [OF I p] by blast
  have p0: "p \<noteq> 0" using live_wfD(1) [OF plain_coreD(2) [OF I] u] by simp
  let ?k = "u div RT_RECYCLE_GRAIN"
  show ?thesis
  proof (cases "rt_recycle_held h < RT_RECYCLE_HELD_MAX \<and> \<not> prismio_memory_threads_are_enabled h
      \<and> ?k \<ge> 1 \<and> ?k \<le> RT_RECYCLE_BUCKETS")
    case True
    then have "?k - 1 < RT_RECYCLE_BUCKETS" "(?k - 1 + 1) * 16 \<le> u"
      by (auto simp: RT_RECYCLE_GRAIN_def)
    from recycle_put [OF core p u this] True p0 u show ?thesis
      by (simp add: recycle_rt_free_def rt_pool_put_or_free_def Let_def usable_size_def)
  next
    case False
    then have "recycle_rt_free p h = tmp_free p h"
      using p0 u by (auto simp: recycle_rt_free_def rt_pool_put_or_free_def Let_def usable_size_def)
    then show ?thesis using recycle_tmp_free [OF inv p] by simp
  qed
qed

lemma recycle_realloc:
  assumes inv: "recycle_inv B h" and p: "B p = Some (w, k)" and r: "tmp_realloc p n h = (q, h')"
  shows "kept (B(p := None)) h h'
      \<and> (if q = 0 then recycle_inv B h' \<and> kept B h h'
         else fresh_block (B(p := None)) q n \<and> recycle_inv (B(p := None, q \<mapsto> (w, n))) h'
           \<and> peek (mem h') q (min k n) = peek (mem h) p (min k n))"
proof -
  obtain G where core: "recycle_core G B h" using inv by (auto simp: recycle_inv_def)
  note I = recycle_coreD(1) [OF core] and pr = plain_realloc [OF recycle_coreD(1) [OF core] p r]
  show ?thesis
  proof (cases "q = 0")
    case True
    then show ?thesis using pr inv by simp
  next
    case False
    obtain x where x: "live h p = Some x" using plain_coreD(3) [OF I p] by blast
    have wf: "live_wf (live h)" "libc_ok h" "p \<noteq> 0"
      using plain_coreD(1,2) [OF I] live_wfD(1) [of "live h" p x] x by auto
    obtain u where rp: "repick h (live h) p n = (q, u)"
      and h': "h' = h\<lparr>mem := poke (mem h) q (peek (mem h) p (min x u)), live := (live h)(p := None, q \<mapsto> u)\<rparr>"
      using r wf False x by (auto simp: tmp_realloc_def usable_size_def split: prod.splits if_splits)
    have pl: "placed ((live h)(p := None)) n (q, u)"
      using libc_okD(2) [OF wf(2,1), of p n] rp False x by auto
    have "recycle_core G (B(p := None, q \<mapsto> (w, n))) h'"
    proof (rule recycle_core_change [OF core])
      fix i a assume i: "i < RT_RECYCLE_BUCKETS" "a \<in> set (G i)"
      obtain v where v: "live h a = Some v" "16 \<le> v" using bucket_outside(1) [OF core i] by blast
      have ap: "a \<noteq> p" using bucket_outside(2) [OF core i] p by auto
      then have apt: "apart a v q u" using pl v by (auto simp: placed_def)
      then have "a \<noteq> q" using v pl by (auto simp: apart_def placed_def)
      have "apart a 16 q (length (peek (mem h) p (min x u)))"
        using apt v by (auto elim: apart_sub)
      then have "same16 (mem h) (mem h') a" by (simp add: h' same16_def peek_poke_apart)
      then show "same16 (mem h) (mem h') a \<and> live h' a = live h a \<and> (B(p := None, q \<mapsto> (w, n))) a = None"
        using ap \<open>a \<noteq> q\<close> bucket_outside(2) [OF core i] by (simp add: h')
    qed (use pr False in \<open>auto simp: h'\<close>)
    then show ?thesis using pr False by (auto simp: recycle_inv_def)
  qed
qed

lemma recycle_write:
  assumes inv: "recycle_inv B h" and p: "B p = Some (w, k)" "p \<le> q" "q + length bs \<le> p + k"
  shows "recycle_inv B (h\<lparr>mem := poke (mem h) q bs\<rparr>)"
proof -
  obtain G where core: "recycle_core G B h" using inv by (auto simp: recycle_inv_def)
  note I = recycle_coreD(1) [OF core]
  obtain u where u: "live h p = Some u" "k \<le> u" using plain_coreD(3) [OF I p(1)] by blast
  have "recycle_core G B (h\<lparr>mem := poke (mem h) q bs\<rparr>)"
  proof (rule recycle_core_change [OF core plain_write [OF I]])
    fix i a assume i: "i < RT_RECYCLE_BUCKETS" "a \<in> set (G i)"
    obtain v where "live h a = Some v" "16 \<le> v" using bucket_outside(1) [OF core i] by blast
    moreover have "a \<noteq> p" "B a = None" using bucket_outside(2) [OF core i] p by auto
    ultimately show "same16 (mem h) (mem (h\<lparr>mem := poke (mem h) q bs\<rparr>)) a
        \<and> live (h\<lparr>mem := poke (mem h) q bs\<rparr>) a = live h a \<and> B a = None"
      using same16_live [OF plain_coreD(2) [OF I], of a v p u q bs] u p by simp
  qed simp_all
  then show ?thesis by (auto simp: recycle_inv_def)
qed

interpretation recycle: seam_spec recycle_seam recycle_inv
proof unfold_locales
  fix B h
  show "recycle_inv B h \<Longrightarrow> owned_wf B" by (auto simp: recycle_inv_def intro: plain_core_wf [OF recycle_coreD(1)])
next
  fix B n p h h'
  assume "recycle_inv B h" "seam_alloc recycle_seam n h = (p, h')"
  then show "kept B h h' \<and> (if p = 0 then recycle_inv B h' else fresh_block B p n \<and> recycle_inv (B(p \<mapsto> (Seam, n))) h')"
    by (intro recycle_alloc) (auto simp: recycle_seam_def)
next
  fix B p k n q h h'
  assume "recycle_inv B h" "B p = Some (Seam, k)" "seam_realloc recycle_seam p n h = (q, h')"
  then show "kept (B(p := None)) h h'
      \<and> (if q = 0 then recycle_inv B h' \<and> kept B h h'
         else fresh_block (B(p := None)) q n \<and> recycle_inv (B(p := None, q \<mapsto> (Seam, n))) h'
           \<and> peek (mem h') q (min k n) = peek (mem h) p (min k n))"
    by (intro recycle_realloc) (auto simp: recycle_seam_def recycle_rt_base_realloc_def)
next
  fix B n p h h'
  assume "recycle_inv B h" "seam_realloc recycle_seam 0 n h = (p, h')"
  then show "kept B h h' \<and> (if p = 0 then recycle_inv B h' else fresh_block B p n \<and> recycle_inv (B(p \<mapsto> (Seam, n))) h')"
    using recycle_malloc [of _ B h n p h' n Seam]
    by (fastforce simp: recycle_inv_def recycle_seam_def recycle_rt_base_realloc_def tmp_realloc_def)
next
  fix B p k n q and h h' :: recycle_heap
  assume "recycle_inv B h" "B p = Some (Tmp, k)" "tmp_realloc p n h = (q, h')"
  then show "kept (B(p := None)) h h'
      \<and> (if q = 0 then recycle_inv B h' \<and> kept B h h'
         else fresh_block (B(p := None)) q n \<and> recycle_inv (B(p := None, q \<mapsto> (Tmp, n))) h'
           \<and> peek (mem h') q (min k n) = peek (mem h) p (min k n))"
    by (rule recycle_realloc)
next
  fix B p k h
  assume "recycle_inv B h" "B p = Some (Seam, k)"
  then show "recycle_inv (B(p := None)) (seam_free recycle_seam p h) \<and> kept (B(p := None)) h (seam_free recycle_seam p h)"
    using recycle_free by (simp add: recycle_seam_def)
next
  fix B n p and h h' :: recycle_heap
  assume "recycle_inv B h" "malloc n h = (p, h')"
  then show "kept B h h' \<and> (if p = 0 then recycle_inv B h' else fresh_block B p n \<and> recycle_inv (B(p \<mapsto> (Tmp, n))) h')"
    using recycle_malloc [of _ B h n p h' n Tmp] by (fastforce simp: recycle_inv_def)
next
  fix B p k and h :: recycle_heap
  assume "recycle_inv B h" "B p = Some (Tmp, k)"
  then show "recycle_inv (B(p := None)) (tmp_free p h) \<and> kept (B(p := None)) h (tmp_free p h)"
    by (rule recycle_tmp_free)
next
  fix B p q w k and bs :: "byte list" and h :: recycle_heap
  assume "recycle_inv B h" "B p = Some (w, k)" "p \<le> q" "q + length bs \<le> p + k"
  then show "recycle_inv B (h\<lparr>mem := poke (mem h) q bs\<rparr>)" by (rule recycle_write)
qed (simp_all add: recycle_seam_def recycle_rt_free_def)

subsection \<open>Properties\<close>

text \<open>C6. The recycler holds a freed block only under a bucket its usable size covers: a block it hands
  out again has room for the request, overlaps nothing the program holds and keeps the program's
  bytes.\<close>

theorem recycle_alloc_fresh:
  assumes "recycle_inv B h" "recycle_rt_base_alloc n h = (p, h')" "p \<noteq> 0"
  shows "fresh_block B p n \<and> n \<le> usable_size p h' \<and> kept B h h' \<and> recycle_inv (B(p \<mapsto> (Seam, n))) h'"
proof -
  have *: "kept B h h'" "fresh_block B p n" "recycle_inv (B(p \<mapsto> (Seam, n))) h'"
    using recycle_alloc [OF assms(1,2)] assms(3) by auto
  then obtain G where "recycle_core G (B(p \<mapsto> (Seam, n))) h'" by (auto simp: recycle_inv_def)
  from plain_coreD(3) [OF recycle_coreD(1) [OF this], of p Seam n] obtain u where "live h' p = Some u" "n \<le> u"
    by auto
  with * show ?thesis by (simp add: usable_size_def)
qed

text \<open>One freed block of 40 bytes in bucket 1, reused for a request of 20.\<close>

definition pool_of_one :: recycle_heap where
  "pool_of_one = \<lparr>mem = \<lambda>_. 0, live = [4096 \<mapsto> 40], pick = \<lambda>_ _. (0, 0), repick = \<lambda>_ _ _. (0, 0), self = 0,
     worker = \<lambda>_. False, threads_enabled = False, rt_recycle_head = (\<lambda>_. 0)(1 := 4096), rt_recycle_held = 1\<rparr>"

theorem recycle_alloc_fresh_witness:
  "\<exists>h'. recycle_rt_base_alloc 20 pool_of_one = (4096, h') \<and> fresh_block Map.empty 4096 20 \<and> 20 \<le> usable_size 4096 h'"
proof -
  let ?G = "(\<lambda>_. [])(1 := [4096]) :: nat \<Rightarrow> addr list"
  have ld: "load64 (\<lambda>_. 0) 4096 = 0" by (simp add: load64_def peek_def upt_rec)
  have "bucket_ok ?G Map.empty pool_of_one k" for k
    by (simp add: bucket_ok_def pool_of_one_def ld)
  moreover have "plain_core Map.empty pool_of_one"
    by (intro plain_coreI) (auto simp: pool_of_one_def libc_ok_def live_wf_def split: if_splits)
  moreover have "(\<Sum>k<RT_RECYCLE_BUCKETS. length (?G k)) = 1"
    using held_upd [of 1 "\<lambda>_. []" "[4096]"] by (simp add: RT_RECYCLE_BUCKETS_def)
  ultimately have "recycle_core ?G Map.empty pool_of_one"
    unfolding recycle_core_def by (auto simp: pool_of_one_def)
  then have inv: "recycle_inv Map.empty pool_of_one" by (auto simp: recycle_inv_def)
  obtain h' where "recycle_rt_base_alloc 20 pool_of_one = (4096, h')"
    by (simp add: recycle_rt_base_alloc_def pool_of_one_def prismio_memory_threads_are_enabled_def
        RT_RECYCLE_GRAIN_def RT_RECYCLE_BUCKETS_def Let_def)
  with recycle_alloc_fresh [OF inv this] show ?thesis by auto
qed

end
