(* ===== verification/Ledger.thy ===== *)
theory Ledger
  imports Heap
begin

text \<open>
  The \<open>--verify\<close> ledger (\<open>runtime/lang_runtime.c\<close>, \<open>aif_verify_*\<close>): the seam of a verify build.  Every
  block is entered in a hash table of live blocks; a release of a block that is not there, or a
  second one, is counted as a violation and frees nothing; a released block is overwritten with
  0xDD.  A hash chain is a list of nodes, the newest first, each with the address \<open>malloc\<close> gave
  it; the messages on stderr are a log.  The trace of an allocation (\<open>PRISMIO_VERIFY_TRACE\<close>) is
  diagnostic output and is left out, and the ledger's mutex makes each operation one step.
\<close>

subsection \<open>Definitions\<close>

definition AIF_VERIFY_BUCKETS :: nat where "AIF_VERIFY_BUCKETS = 4096"
definition AIF_VERIFY_POISON :: byte where "AIF_VERIFY_POISON = 0xDD"

record AifLive =
  node :: addr
  blk :: addr
  bytes :: nat
  serial :: nat

definition sizeof_AifLive :: nat where "sizeof_AifLive = 104"

datatype verify_msg = Realloc_not_live addr | Release_not_live addr

record verify_heap = heap +
  aif_live :: "nat \<Rightarrow> AifLive list"
  aif_allocs :: nat
  aif_releases :: nat
  aif_violations :: nat
  aif_allocated_bytes :: nat
  aif_released_bytes :: nat
  aif_live_bytes :: nat
  aif_peak_live_bytes :: nat
  aif_size_buckets :: "nat \<Rightarrow> nat"
  aif_report_armed :: bool
  aif_log :: "verify_msg list"

definition aif_live_hash :: "addr \<Rightarrow> nat" where
  "aif_live_hash p =
     (let v0 = (word_of_nat p :: 64 word);
          v1 = xor v0 (drop_bit 33 v0);
          v2 = v1 * 0xff51afd7ed558ccd;
          v3 = xor v2 (drop_bit 29 v2)
      in unat (ucast v3 AND (word_of_nat (AIF_VERIFY_BUCKETS - 1) :: 32 word)))"

text \<open>What the report prints of the counts: leaked blocks in all, and whether it says FAILED.\<close>

definition aif_leaked :: "verify_heap \<Rightarrow> nat" where
  "aif_leaked h = (\<Sum>i < AIF_VERIFY_BUCKETS. length (aif_live h i))"

definition aif_verify_report :: "verify_heap \<Rightarrow> nat \<times> nat \<times> nat \<times> nat \<times> bool" where
  "aif_verify_report h =
     (aif_allocs h, aif_releases h, aif_leaked h, aif_violations h,
      aif_leaked h \<noteq> 0 \<or> aif_violations h \<noteq> 0)"

definition aif_verify_arm :: "verify_heap \<Rightarrow> verify_heap" where
  "aif_verify_arm h = (if aif_report_armed h then h else h\<lparr>aif_report_armed := True\<rparr>)"

definition size_bucket :: "nat \<Rightarrow> nat" where
  "size_bucket n =
     (if n \<le> 16 then 0 else if n \<le> 32 then 1 else if n \<le> 64 then 2 else if n \<le> 128 then 3
      else if n \<le> 256 then 4 else if n \<le> 512 then 5 else if n \<le> 1024 then 6 else if n \<le> 4096 then 7 else 8)"

definition aif_verify_alloc :: "nat \<Rightarrow> verify_heap \<Rightarrow> addr \<times> verify_heap" where
  "aif_verify_alloc n h0 =
     (let (p, h1) = malloc n (aif_verify_arm h0) in
      if p = 0 then (0, h1)
      else let (nd, h2) = malloc sizeof_AifLive h1;
               lb = (aif_live_bytes h2 + n) mod 2 ^ 64;
               h3 = h2\<lparr>aif_allocs := aif_allocs h2 + 1,
                       aif_allocated_bytes := (aif_allocated_bytes h2 + n) mod 2 ^ 64,
                       aif_live_bytes := lb,
                       aif_peak_live_bytes := (if lb > aif_peak_live_bytes h2 then lb else aif_peak_live_bytes h2),
                       aif_size_buckets := (aif_size_buckets h2)
                         (size_bucket n := aif_size_buckets h2 (size_bucket n) + 1)\<rparr>
           in (p, if nd = 0 then h3
                  else let b = aif_live_hash p
                       in h3\<lparr>aif_live := (aif_live h3)(b :=
                            \<lparr>node = nd, blk = p, bytes = n, serial = aif_allocs h3\<rparr> # aif_live h3 b)\<rparr>))"

definition aif_find :: "addr \<Rightarrow> verify_heap \<Rightarrow> AifLive option" where
  "aif_find p h = List.find (\<lambda>x. blk x = p) (aif_live h (aif_live_hash p))"

definition aif_verify_usable_size :: "addr \<Rightarrow> verify_heap \<Rightarrow> nat" where
  "aif_verify_usable_size p h =
     (if p = 0 then 0 else case aif_find p h of None \<Rightarrow> 0 | Some x \<Rightarrow> bytes x)"

text \<open>Unlinks the first node of the chain that names \<open>p\<close>.\<close>

fun unlink :: "addr \<Rightarrow> AifLive list \<Rightarrow> AifLive list" where
  "unlink p [] = []"
| "unlink p (x # xs) = (if blk x = p then xs else x # unlink p xs)"

definition aif_verify_release :: "addr \<Rightarrow> verify_heap \<Rightarrow> verify_heap" where
  "aif_verify_release p h =
     (if p = 0 then h
      else case aif_find p h of
        None \<Rightarrow> h\<lparr>aif_violations := aif_violations h + 1, aif_log := aif_log h @ [Release_not_live p]\<rparr>
      | Some x \<Rightarrow>
          let b = aif_live_hash p;
              h1 = h\<lparr>aif_live := (aif_live h)(b := unlink p (aif_live h b)),
                     aif_releases := aif_releases h + 1,
                     aif_released_bytes := (aif_released_bytes h + bytes x) mod 2 ^ 64\<rparr>;
              h2 = (if aif_live_bytes h1 \<ge> bytes x then h1\<lparr>aif_live_bytes := aif_live_bytes h1 - bytes x\<rparr>
                    else h1\<lparr>aif_live_bytes := 0, aif_violations := aif_violations h1 + 1\<rparr>);
              h3 = h2\<lparr>mem := poke (mem h2) p (replicate (bytes x) AIF_VERIFY_POISON)\<rparr>
          in tmp_free p (tmp_free (node x) h3))"

definition aif_verify_realloc :: "addr \<Rightarrow> nat \<Rightarrow> verify_heap \<Rightarrow> addr \<times> verify_heap" where
  "aif_verify_realloc p n h =
     (if p = 0 then aif_verify_alloc n h
      else let old_size = aif_verify_usable_size p h in
        if old_size = 0
        then (0, h\<lparr>aif_violations := aif_violations h + 1, aif_log := aif_log h @ [Realloc_not_live p]\<rparr>)
        else let (moved, h1) = aif_verify_alloc n h in
          if moved = 0 then (0, h1)
          else (moved, aif_verify_release p
            (h1\<lparr>mem := poke (mem h1) moved
               (peek (mem h1) p (if old_size < n then old_size else n))\<rparr>)))"

definition verify_seam :: "unit verify_heap_ext seam" where
  "verify_seam = \<lparr>seam_alloc = aif_verify_alloc, seam_realloc = aif_verify_realloc,
     seam_free = aif_verify_release, seam_flush = Some\<rparr>"

subsection \<open>The ledger as a map\<close>

text \<open>Every node is in the chain its block hashes to, and names a block the program holds with the
  size it asked for; no two nodes name the same block; the nodes' own blocks are nobody else's.\<close>

definition nodes :: "verify_heap \<Rightarrow> AifLive set" where
  "nodes h = (\<Union>i < AIF_VERIFY_BUCKETS. set (aif_live h i))"

definition ledger_ok :: "owned \<Rightarrow> verify_heap \<Rightarrow> bool" where
  "ledger_ok B h \<longleftrightarrow>
     (\<forall>i. \<forall>x \<in> set (aif_live h i). aif_live_hash (blk x) = i \<and> B (blk x) = Some (Seam, bytes x) \<and> B (node x) = None
        \<and> (\<exists>u. live h (node x) = Some u))
     \<and> (\<forall>i. distinct (map blk (aif_live h i)))
     \<and> (\<forall>i j. \<forall>x \<in> set (aif_live h i). \<forall>y \<in> set (aif_live h j). node x = node y \<longrightarrow> x = y)"

definition verify_inv :: "owned \<Rightarrow> verify_heap \<Rightarrow> bool" where
  "verify_inv B h \<longleftrightarrow> plain_core B h \<and> ledger_ok B h"

lemma hash_bound: "aif_live_hash p < AIF_VERIFY_BUCKETS"
proof -
  have "unat (w AND (word_of_nat 4095 :: 32 word)) < 4096" for w :: "32 word"
    using word_and_le1 [of w "word_of_nat 4095"] by (simp add: word_le_nat_alt)
  then show ?thesis by (simp add: aif_live_hash_def Let_def AIF_VERIFY_BUCKETS_def)
qed

lemma ledger_okD:
  assumes "ledger_ok B h" "x \<in> set (aif_live h i)"
  shows "aif_live_hash (blk x) = i" "B (blk x) = Some (Seam, bytes x)" "B (node x) = None"
    "\<exists>u. live h (node x) = Some u"
  using assms unfolding ledger_ok_def by blast+

lemma ledger_okD2:
  assumes "ledger_ok B h"
  shows "distinct (map blk (aif_live h i))"
    "x \<in> set (aif_live h i) \<Longrightarrow> y \<in> set (aif_live h j) \<Longrightarrow> node x = node y \<Longrightarrow> x = y"
  using assms unfolding ledger_ok_def by blast+

lemma unlink_set: "distinct (map blk xs) \<Longrightarrow> set (unlink p xs) = {x \<in> set xs. blk x \<noteq> p}"
  by (induction p xs rule: unlink.induct) (auto simp: image_iff)

lemma unlink_distinct: "distinct (map blk xs) \<Longrightarrow> distinct (map blk (unlink p xs))"
  by (induction p xs rule: unlink.induct) (auto simp: unlink_set)

lemma unlink_length: "\<exists>x \<in> set xs. blk x = p \<Longrightarrow> Suc (length (unlink p xs)) = length xs"
  by (induction p xs rule: unlink.induct) auto

lemma aif_find_Some:
  assumes "aif_find p h = Some x"
  shows "x \<in> set (aif_live h (aif_live_hash p))" "blk x = p"
  using assms unfolding aif_find_def by (auto simp: find_Some_iff)

lemma aif_find_None: "aif_find p h = None \<Longrightarrow> x \<in> set (aif_live h (aif_live_hash p)) \<Longrightarrow> blk x \<noteq> p"
  unfolding aif_find_def by (auto simp: find_None_iff)

text \<open>A block that no node names may leave the program's hands, or a new one come into them.\<close>

lemma ledger_ok_change:
  assumes "ledger_ok B h" "aif_live h' = aif_live h"
    and "\<And>i x. x \<in> set (aif_live h i) \<Longrightarrow> B' (blk x) = B (blk x) \<and> B' (node x) = None \<and> live h' (node x) = live h (node x)"
  shows "ledger_ok B' h'"
proof -
  have "aif_live_hash (blk x) = i \<and> B' (blk x) = Some (Seam, bytes x) \<and> B' (node x) = None
      \<and> (\<exists>u. live h' (node x) = Some u)" if x: "x \<in> set (aif_live h i)" for x i
    using ledger_okD [OF assms(1) x] assms(3) [OF x] by auto
  then show ?thesis
    using ledger_okD2 [OF assms(1)] unfolding ledger_ok_def assms(2) by blast
qed

lemma plain_core_sub: "plain_core B h \<Longrightarrow> (\<And>a w k. B' a = Some (w, k) \<Longrightarrow> B a = Some (w, k)) \<Longrightarrow> plain_core B' h"
  by (rule plain_coreI) (blast dest: plain_coreD)+

lemma plain_core_cong:
  "live h' = live h \<Longrightarrow> pick h' = pick h \<Longrightarrow> repick h' = repick h \<Longrightarrow> plain_core B h' = plain_core B h"
  by (simp add: plain_core_def libc_ok_def)

lemma verify_malloc:
  assumes inv: "verify_inv B h" and m: "malloc n h = (p, h')"
  shows "kept B h h' \<and> (if p = 0 then verify_inv B h' else fresh_block B p n \<and> verify_inv (B(p \<mapsto> (w, n))) h'
    \<and> live h p = None \<and> aif_live h' = aif_live h)"
proof -
  have I: "plain_core B h" and L: "ledger_ok B h" using inv by (auto simp: verify_inv_def)
  note pm = plain_malloc [OF I m, of w]
  from plain_coreD(1,2) [OF I] m show ?thesis
  proof (cases rule: malloc_cases)
    case 1
    then show ?thesis using inv by simp
  next
    case (2 u)
    have pn: "live h p = None" by (rule placed_not_live [OF plain_coreD(2) [OF I] 2(2)])
    have B: "B p = None" using pm 2(1) by (simp add: fresh_block_def)
    have "ledger_ok (B(p \<mapsto> (w, n))) h'"
    proof (rule ledger_ok_change [OF L])
      fix i x assume x: "x \<in> set (aif_live h i)"
      show "(B(p \<mapsto> (w, n))) (blk x) = B (blk x) \<and> (B(p \<mapsto> (w, n))) (node x) = None \<and> live h' (node x) = live h (node x)"
        using ledger_okD [OF L x] pn B by (auto simp: 2)
    qed (simp add: 2)
    then show ?thesis using pm 2 pn by (simp add: verify_inv_def)
  qed
qed

lemma verify_alloc:
  assumes inv: "verify_inv B h" and a: "aif_verify_alloc n h = (p, h')"
  shows "kept B h h' \<and> (if p = 0 then verify_inv B h' else fresh_block B p n \<and> verify_inv (B(p \<mapsto> (Seam, n))) h')"
proof -
  let ?h0 = "aif_verify_arm h"
  have inv0: "verify_inv B ?h0" and k0: "mem ?h0 = mem h"
    using inv plain_core_cong [of ?h0 h B] ledger_ok_change [of B h ?h0 B] ledger_okD(3) [of B h]
    by (auto simp: verify_inv_def aif_verify_arm_def)
  obtain q h1 where m1: "malloc n ?h0 = (q, h1)" by (metis surj_pair)
  note v1 = verify_malloc [OF inv0 m1, of Seam]
  show ?thesis
  proof (cases "q = 0")
    case True
    then show ?thesis using a m1 v1 k0 by (auto simp: aif_verify_alloc_def kept_def)
  next
    case q: False
    obtain nd h2 where m2: "malloc sizeof_AifLive h1 = (nd, h2)" by (metis surj_pair)
    let ?B = "B(q \<mapsto> (Seam, n))"
    have inv1: "verify_inv ?B h1" using v1 q by simp
    note v2 = verify_malloc [OF inv1 m2, of Tmp]
    have pq: "p = q" using a m1 m2 q by (auto simp: aif_verify_alloc_def Let_def)
    have k: "kept B h h'" 
    proof (rule kept_mem)
      have "mem h' = mem h2" using a m1 m2 q by (auto simp: aif_verify_alloc_def Let_def)
      then show "mem h' = mem h" using malloc_mem [OF m1] malloc_mem [OF m2] k0 by simp
    qed
    have "verify_inv ?B h'"
    proof (cases "nd = 0")
      case True
      then have "live h' = live h2" "pick h' = pick h2" "repick h' = repick h2" "aif_live h' = aif_live h2"
        using a m1 m2 q by (auto simp: aif_verify_alloc_def Let_def)
      then show ?thesis
        using v2 True plain_core_cong [of h' h2 ?B] ledger_ok_change [of ?B h2 h' ?B] ledger_okD(3) [of ?B h2]
        by (auto simp: verify_inv_def)
    next
      case nd: False
      let ?b = "aif_live_hash q" and ?x = "\<lparr>node = nd, blk = q, bytes = n, serial = aif_allocs h2 + 1\<rparr>"
      have h': "live h' = live h2" "pick h' = pick h2" "repick h' = repick h2"
        "aif_live h' = (aif_live h1)(?b := ?x # aif_live h1 ?b)"
        using a m1 m2 q nd v2 by (auto simp: aif_verify_alloc_def Let_def)
      have inv2: "verify_inv (?B(nd \<mapsto> (Tmp, sizeof_AifLive))) h2" and al2: "aif_live h2 = aif_live h1"
        and fr: "?B nd = None" "live h1 nd = None" using v2 nd by (auto simp: fresh_block_def)
      have P: "plain_core ?B h'"
        unfolding plain_core_cong [OF h'(1-3)]
        by (rule plain_core_sub [of "?B(nd \<mapsto> (Tmp, sizeof_AifLive))"]) (use inv2 fr(1) in \<open>auto simp: verify_inv_def\<close>)
      have L1: "ledger_ok ?B h1" using inv1 by (simp add: verify_inv_def)
      have L2: "ledger_ok (?B(nd \<mapsto> (Tmp, sizeof_AifLive))) h2" using inv2 by (simp add: verify_inv_def)
      have old: "blk y \<noteq> q" if "y \<in> set (aif_live h1 i)" for y i
      proof -
        have "ledger_ok B ?h0" using inv0 by (simp add: verify_inv_def)
        moreover have "y \<in> set (aif_live ?h0 i)" using that v1 q by simp
        ultimately have "B (blk y) \<noteq> None" using ledger_okD(2) by fastforce
        then show ?thesis using v1 q by (auto simp: fresh_block_def)
      qed
      have nn: "node y \<noteq> nd" if "y \<in> set (aif_live h1 i)" for y i
        using ledger_okD(4) [OF L1 that] fr(2) by auto
      have l2: "\<exists>u. live h2 (node y) = Some u" if "y \<in> set (aif_live h1 i)" for y i
        using ledger_okD(4) [OF L2, of y i] that al2 by simp
      obtain un where un: "live h2 nd = Some un"
        using plain_coreD(3) [of "?B(nd \<mapsto> (Tmp, sizeof_AifLive))" h2 nd Tmp] inv2 by (auto simp: verify_inv_def)
      have mem': "y = ?x \<and> i = ?b \<or> y \<in> set (aif_live h1 i)" if "y \<in> set (aif_live h' i)" for y i
        using that by (auto simp: h' split: if_splits)
      have "ledger_ok ?B h'"
        unfolding ledger_ok_def
      proof (intro conjI allI ballI impI)
        fix i y assume y: "y \<in> set (aif_live h' i)"
        from mem' [OF y] show "aif_live_hash (blk y) = i" using ledger_okD(1) [OF L1] by auto
        from mem' [OF y] show "?B (blk y) = Some (Seam, bytes y)" using ledger_okD(2) [OF L1, of y i] by auto
        from mem' [OF y] show "?B (node y) = None" using ledger_okD(3) [OF L1, of y i] fr(1) by auto
        from mem' [OF y] show "\<exists>u. live h' (node y) = Some u" using l2 un h'(1) by auto
      next
        fix i show "distinct (map blk (aif_live h' i))"
          using ledger_okD2(1) [OF L1, of i] old by (auto simp: h')
      next
        fix i j x y assume xy: "x \<in> set (aif_live h' i)" "y \<in> set (aif_live h' j)" "node x = node y"
        then show "x = y"
          using mem' [OF xy(1)] mem' [OF xy(2)] nn [of y j] nn [of x i] ledger_okD2(2) [OF L1, of x i y j] by auto
      qed
      then show ?thesis using P by (simp add: verify_inv_def)
    qed
    then show ?thesis using k v1 q pq by simp
  qed
qed

lemma verify_release:
  assumes inv: "verify_inv B h" and p: "B p = Some (Seam, k)"
  shows "verify_inv (B(p := None)) (aif_verify_release p h) \<and> kept (B(p := None)) h (aif_verify_release p h)"
proof -
  have I: "plain_core B h" and L: "ledger_ok B h" using inv by (auto simp: verify_inv_def)
  obtain u where u: "live h p = Some u" "k \<le> u" using plain_coreD(3) [OF I p] by blast
  have p0: "p \<noteq> 0" using live_wfD(1) [OF plain_coreD(2) [OF I] u(1)] by simp
  let ?B = "B(p := None)" and ?b = "aif_live_hash p"
  have P: "plain_core ?B h" by (rule plain_core_sub [OF I]) (auto split: if_splits)
  show ?thesis
  proof (cases "aif_find p h")
    case None
    then have h': "aif_verify_release p h = h\<lparr>aif_violations := aif_violations h + 1, aif_log := aif_log h @ [Release_not_live p]\<rparr>"
      using p0 by (simp add: aif_verify_release_def)
    have "ledger_ok ?B (aif_verify_release p h)"
    proof (rule ledger_ok_change [OF L])
      fix i x assume x: "x \<in> set (aif_live h i)"
      then have "blk x \<noteq> p" using aif_find_None [OF None] ledger_okD(1) [OF L x] by auto
      then show "?B (blk x) = B (blk x) \<and> ?B (node x) = None
          \<and> live (aif_verify_release p h) (node x) = live h (node x)"
        using ledger_okD(3) [OF L x] by (simp add: h')
    qed (simp add: h')
    then show ?thesis
      using P plain_core_cong [of "aif_verify_release p h" h ?B] by (simp add: verify_inv_def h' kept_def)
  next
    case (Some x)
    note x = aif_find_Some [OF Some]
    have bx: "bytes x = k" using ledger_okD(2) [OF L x(1)] x(2) p by simp
    have nx: "B (node x) = None" "node x \<noteq> p" using ledger_okD(3) [OF L x(1)] p by auto
    define h' where "h' = aif_verify_release p h"
    have h': "live h' = (live h)(node x := None, p := None)" "pick h' = pick h" "repick h' = repick h"
      "aif_live h' = (aif_live h)(?b := unlink p (aif_live h ?b))"
      "mem h' = poke (mem h) p (replicate k AIF_VERIFY_POISON)"
      using p0 Some bx ledger_okD(4) [OF L x(1)] live_wfD(1) [OF plain_coreD(2) [OF I], of "node x"]
      by (auto simp: h'_def aif_verify_release_def Let_def tmp_free_def)
    have "plain_core ?B h'"
    proof (rule plain_coreI)
      show "libc_ok h'" using plain_coreD(1) [OF I] libc_ok_cong [OF h'(2,3)] by simp
      show "live_wf (live h')" unfolding h' by (intro live_wf_drop plain_coreD(2) [OF I])
      fix a w j assume "?B a = Some (w, j)"
      then show "\<exists>u. live h' a = Some u \<and> j \<le> u"
        using plain_coreD(3) [OF P, of a w j] nx(1) by (auto simp: h' split: if_splits)
    qed
    moreover have "ledger_ok ?B h'"
    proof -
      have mem': "y \<in> set (aif_live h i) \<and> blk y \<noteq> p" if "y \<in> set (aif_live h' i)" for y i
        using that unlink_set [OF ledger_okD2(1) [OF L], of p ?b] ledger_okD(1) [OF L, of y i]
        by (auto simp: h' split: if_splits)
      have nd: "node y \<noteq> node x" if "y \<in> set (aif_live h' i)" for y i
        using mem' [OF that] ledger_okD2(2) [OF L _ x(1)] x(2) by auto
      show ?thesis
        unfolding ledger_ok_def
      proof (intro conjI allI ballI impI)
        fix i y assume y: "y \<in> set (aif_live h' i)"
        note y' = mem' [OF y]
        show "aif_live_hash (blk y) = i" "?B (blk y) = Some (Seam, bytes y)" "?B (node y) = None"
          using y' ledger_okD(1,2,3) [OF L, of y i] by auto
        have "node y \<noteq> p" using y' ledger_okD(3) [OF L, of y i] p by auto
        then show "\<exists>u. live h' (node y) = Some u"
          using y' ledger_okD(4) [OF L, of y i] nd [OF y] by (simp add: h')
      next
        fix i show "distinct (map blk (aif_live h' i))"
          using ledger_okD2(1) [OF L, of i] unlink_distinct [OF ledger_okD2(1) [OF L], of p ?b] by (simp add: h')
      next
        fix i j y z assume "y \<in> set (aif_live h' i)" "z \<in> set (aif_live h' j)" "node y = node z"
        then show "y = z" using mem' ledger_okD2(2) [OF L] by blast
      qed
    qed
    moreover have "kept ?B h h'"
      unfolding kept_def
    proof (intro allI impI)
      fix a w j assume "?B a = Some (w, j)"
      then have a: "B a = Some (w, j)" "a \<noteq> p" by (auto split: if_splits)
      then have "apart a j p k" using plain_core_wf [OF I] p unfolding owned_wf_def by blast
      then show "peek (mem h') a j = peek (mem h) a j" by (simp add: h' peek_poke_apart)
    qed
    ultimately show ?thesis by (simp add: verify_inv_def h'_def)
  qed
qed

lemma verify_write: "verify_inv B h \<Longrightarrow> verify_inv B (h\<lparr>mem := m\<rparr>)"
  using plain_write [of B h m] ledger_ok_change [of B h "h\<lparr>mem := m\<rparr>" B] ledger_okD(3) [of B h]
  by (auto simp: verify_inv_def)

lemma verify_tmp_free:
  assumes inv: "verify_inv B h" and p: "B p = Some (Tmp, k)"
  shows "verify_inv (B(p := None)) (tmp_free p h) \<and> kept (B(p := None)) h (tmp_free p h)"
proof -
  have I: "plain_core B h" and L: "ledger_ok B h" using inv by (auto simp: verify_inv_def)
  have "ledger_ok (B(p := None)) (tmp_free p h)"
  proof (rule ledger_ok_change [OF L])
    fix i x assume x: "x \<in> set (aif_live h i)"
    show "(B(p := None)) (blk x) = B (blk x) \<and> (B(p := None)) (node x) = None
        \<and> live (tmp_free p h) (node x) = live h (node x)"
    proof -
      have "blk x \<noteq> p" "node x \<noteq> p" using ledger_okD(2,3) [OF L x] p by auto
      then show ?thesis using ledger_okD(3) [OF L x] by (simp add: tmp_free_def)
    qed
  qed (simp add: tmp_free_def)
  then show ?thesis using plain_tmp_free [OF I p] by (simp add: verify_inv_def)
qed

lemma verify_tmp_realloc:
  assumes inv: "verify_inv B h" and p: "B p = Some (Tmp, k)" and r: "tmp_realloc p n h = (q, h')"
  shows "kept (B(p := None)) h h'
      \<and> (if q = 0 then verify_inv B h' \<and> kept B h h'
         else fresh_block (B(p := None)) q n \<and> verify_inv (B(p := None, q \<mapsto> (Tmp, n))) h'
           \<and> peek (mem h') q (min k n) = peek (mem h) p (min k n))"
proof -
  have I: "plain_core B h" and L: "ledger_ok B h" using inv by (auto simp: verify_inv_def)
  note pr = plain_realloc [OF I p r]
  show ?thesis
  proof (cases "q = 0")
    case True
    then show ?thesis using pr inv by simp
  next
    case False
    obtain u where h': "live h' = (live h)(p := None, q \<mapsto> u)" "aif_live h' = aif_live h" and qn: "((live h)(p := None)) q = None"
    proof -
      obtain x where x: "live h p = Some x" using plain_coreD(3) [OF I p] by blast
      have wf: "live_wf (live h)" "libc_ok h" "p \<noteq> 0"
        using plain_coreD(1,2) [OF I] live_wfD(1) [of "live h" p x] x by auto
      obtain u where rp: "repick h (live h) p n = (q, u)" "live h' = (live h)(p := None, q \<mapsto> u)" "aif_live h' = aif_live h"
        using r wf(3) False x by (auto simp: tmp_realloc_def split: prod.splits if_splits)
      have "placed ((live h)(p := None)) n (q, u)" using libc_okD(2) [OF wf(2,1), of p n] rp(1) False x by auto
      from placed_not_live [OF live_wf_drop [OF wf(1)] this] that rp show thesis by blast
    qed
    have "ledger_ok (B(p := None, q \<mapsto> (Tmp, n))) h'"
    proof (rule ledger_ok_change [OF L h'(2)])
      fix i x assume x: "x \<in> set (aif_live h i)"
      note D = ledger_okD [OF L x]
      have np: "blk x \<noteq> p" "node x \<noteq> p" using D(2,3) p by auto
      obtain v where "live h (blk x) = Some v" using plain_coreD(3) [OF I D(2)] by blast
      then have nq: "blk x \<noteq> q" "node x \<noteq> q" using D(4) qn np by auto
      show "(B(p := None, q \<mapsto> (Tmp, n))) (blk x) = B (blk x) \<and> (B(p := None, q \<mapsto> (Tmp, n))) (node x) = None
          \<and> live h' (node x) = live h (node x)"
        using np nq D(3) by (simp add: h'(1))
    qed
    then show ?thesis using pr False by (simp add: verify_inv_def)
  qed
qed

lemma verify_realloc:
  assumes inv: "verify_inv B h" and p: "B p = Some (Seam, k)" and r: "aif_verify_realloc p n h = (q, h')"
  shows "kept (B(p := None)) h h'
      \<and> (if q = 0 then verify_inv B h' \<and> kept B h h'
         else fresh_block (B(p := None)) q n \<and> verify_inv (B(p := None, q \<mapsto> (Seam, n))) h'
           \<and> peek (mem h') q (min k n) = peek (mem h) p (min k n))"
proof -
  have I: "plain_core B h" and L: "ledger_ok B h" using inv by (auto simp: verify_inv_def)
  have p0: "p \<noteq> 0" using plain_core_wf [OF I] p unfolding owned_wf_def by blast
  show ?thesis
  proof (cases "aif_verify_usable_size p h = 0")
    case True
    then have q: "q = 0" and h': "h' = h\<lparr>aif_violations := aif_violations h + 1, aif_log := aif_log h @ [Realloc_not_live p]\<rparr>"
      using r p0 by (auto simp: aif_verify_realloc_def Let_def)
    have "verify_inv B h'"
      using I L plain_core_cong [of h' h B] ledger_ok_change [OF L, of h' B] ledger_okD(3) [OF L]
      by (auto simp: verify_inv_def h')
    then show ?thesis using q by (simp add: kept_def h')
  next
    case False
    then obtain x where fx: "aif_find p h = Some x" by (auto simp: aif_verify_usable_size_def split: option.splits if_splits)
    have old: "aif_verify_usable_size p h = k"
      using ledger_okD(2) [OF L aif_find_Some(1) [OF fx]] aif_find_Some(2) [OF fx] fx p p0
      by (simp add: aif_verify_usable_size_def)
    obtain mv h1 where a: "aif_verify_alloc n h = (mv, h1)" by (metis surj_pair)
    note va = verify_alloc [OF inv a]
    show ?thesis
    proof (cases "mv = 0")
      case True
      then have "q = 0" "h' = h1" using r a p0 False by (auto simp: aif_verify_realloc_def Let_def)
      then show ?thesis using va True by (auto simp: kept_def)
    next
      case ok: False
      let ?l = "if k < n then k else n"
      let ?h2 = "h1\<lparr>mem := poke (mem h1) mv (peek (mem h1) p ?l)\<rparr>" and ?B1 = "B(mv \<mapsto> (Seam, n))"
      have q: "q = mv" and h': "h' = aif_verify_release p ?h2"
        using r a p0 False ok old by (auto simp: aif_verify_realloc_def Let_def)
      have f: "fresh_block B mv n" "verify_inv ?B1 h1" using va ok by auto
      then have pq: "p \<noteq> mv" using p by (auto simp: fresh_block_def)
      have "verify_inv ?B1 ?h2" by (rule verify_write [OF f(2)])
      from verify_release [OF this, of p k] pq p
      have fr: "verify_inv (?B1(p := None)) h'" "kept (?B1(p := None)) ?h2 h'" by (auto simp: h')
      have comm: "?B1(p := None) = (B(p := None))(mv \<mapsto> (Seam, n))" using pq by (auto simp: fun_upd_twist)
      have kw: "kept B h1 ?h2"
        unfolding kept_def
      proof (intro allI impI)
        fix a w j assume "B a = Some (w, j)"
        then have "apart a j mv n" using f(1) by (simp add: fresh_block_def)
        then have "apart a j mv (length (peek (mem h1) p ?l))" by (auto elim: apart_sub)
        then show "peek (mem ?h2) a j = peek (mem h1) a j" by (simp add: peek_poke_apart)
      qed
      have kp: "kept (B(p := None)) h h'"
        using va kw fr(2) f(1) unfolding kept_def by (auto simp: fresh_block_def split: if_splits)
      have "peek (mem h') mv n = peek (mem ?h2) mv n" using fr(2) pq by (auto simp: kept_def)
      then have "peek (mem h') mv (min k n) = peek (mem ?h2) mv (min k n)"
        by (metis min.commute min.right_idem take_peek)
      also have "\<dots> = peek (mem h1) p (min k n)"
        unfolding peek_eq_iff by (auto simp: poke_def)
      also have "\<dots> = peek (mem h) p (min k n)"
        using va p unfolding kept_def by (metis min.commute min.right_idem take_peek)
      finally have "peek (mem h') mv (min k n) = peek (mem h) p (min k n)" .
      moreover have "fresh_block (B(p := None)) mv n" using f(1) by (auto simp: fresh_block_def)
      ultimately show ?thesis using ok q kp fr(1) comm by simp
    qed
  qed
qed

interpretation verify: seam_spec verify_seam verify_inv
proof unfold_locales
  fix B h
  show "verify_inv B h \<Longrightarrow> owned_wf B" by (auto simp: verify_inv_def intro: plain_core_wf)
next
  fix B n p h h'
  assume "verify_inv B h" "seam_alloc verify_seam n h = (p, h')"
  then show "kept B h h' \<and> (if p = 0 then verify_inv B h' else fresh_block B p n \<and> verify_inv (B(p \<mapsto> (Seam, n))) h')"
    by (intro verify_alloc) (auto simp: verify_seam_def)
next
  fix B p k n q h h'
  assume "verify_inv B h" "B p = Some (Seam, k)" "seam_realloc verify_seam p n h = (q, h')"
  then show "kept (B(p := None)) h h'
      \<and> (if q = 0 then verify_inv B h' \<and> kept B h h'
         else fresh_block (B(p := None)) q n \<and> verify_inv (B(p := None, q \<mapsto> (Seam, n))) h'
           \<and> peek (mem h') q (min k n) = peek (mem h) p (min k n))"
    by (intro verify_realloc) (auto simp: verify_seam_def)
next
  fix B n p h h'
  assume "verify_inv B h" "seam_realloc verify_seam 0 n h = (p, h')"
  then show "kept B h h' \<and> (if p = 0 then verify_inv B h' else fresh_block B p n \<and> verify_inv (B(p \<mapsto> (Seam, n))) h')"
    by (intro verify_alloc) (auto simp: verify_seam_def aif_verify_realloc_def)
next
  fix B p k n q and h h' :: verify_heap
  assume "verify_inv B h" "B p = Some (Tmp, k)" "tmp_realloc p n h = (q, h')"
  then show "kept (B(p := None)) h h'
      \<and> (if q = 0 then verify_inv B h' \<and> kept B h h'
         else fresh_block (B(p := None)) q n \<and> verify_inv (B(p := None, q \<mapsto> (Tmp, n))) h'
           \<and> peek (mem h') q (min k n) = peek (mem h) p (min k n))"
    by (rule verify_tmp_realloc)
next
  fix B p k h
  assume "verify_inv B h" "B p = Some (Seam, k)"
  then show "verify_inv (B(p := None)) (seam_free verify_seam p h) \<and> kept (B(p := None)) h (seam_free verify_seam p h)"
    using verify_release by (simp add: verify_seam_def)
next
  fix B n p and h h' :: verify_heap
  assume "verify_inv B h" "malloc n h = (p, h')"
  then show "kept B h h' \<and> (if p = 0 then verify_inv B h' else fresh_block B p n \<and> verify_inv (B(p \<mapsto> (Tmp, n))) h')"
    using verify_malloc [of B h n p h' Tmp] by simp
next
  fix B p k and h :: verify_heap
  assume "verify_inv B h" "B p = Some (Tmp, k)"
  then show "verify_inv (B(p := None)) (tmp_free p h) \<and> kept (B(p := None)) h (tmp_free p h)"
    by (rule verify_tmp_free)
qed (simp_all add: verify_seam_def aif_verify_release_def verify_write)

subsection \<open>The balance\<close>

datatype verify_op = VAlloc nat | VRelease addr | VRealloc addr nat

fun verify_do :: "verify_op \<Rightarrow> verify_heap \<Rightarrow> verify_heap" where
  "verify_do (VAlloc n) h = snd (aif_verify_alloc n h)"
| "verify_do (VRelease p) h = aif_verify_release p h"
| "verify_do (VRealloc p n) h = snd (aif_verify_realloc p n h)"

definition balanced :: "verify_heap \<Rightarrow> bool" where
  "balanced h \<longleftrightarrow> aif_allocs h = aif_releases h + aif_leaked h"

lemma leaked_upd:
  "b < AIF_VERIFY_BUCKETS \<Longrightarrow> (\<Sum>i < AIF_VERIFY_BUCKETS. length ((f(b := xs)) i)) + length (f b)
     = (\<Sum>i < AIF_VERIFY_BUCKETS. length (f i)) + length xs" for f :: "nat \<Rightarrow> AifLive list"
  by (simp add: sum.remove [of "{..<AIF_VERIFY_BUCKETS}" b] algebra_simps)

lemma malloc_fields:
  "malloc n (h :: verify_heap) = (p, h') \<Longrightarrow> pick h' = pick h \<and> aif_allocs h' = aif_allocs h \<and> aif_releases h' = aif_releases h
     \<and> aif_live h' = aif_live h"
  by (auto simp: malloc_def split: prod.splits if_splits)

lemma alloc_balanced:
  assumes "\<And>lv n. fst (pick h lv n) \<noteq> 0" "balanced h"
  shows "balanced (snd (aif_verify_alloc n h))" "pick (snd (aif_verify_alloc n h)) = pick h"
proof -
  obtain p h1 where m1: "malloc n (aif_verify_arm h) = (p, h1)" by (metis surj_pair)
  obtain nd h2 where m2: "malloc sizeof_AifLive h1 = (nd, h2)" by (metis surj_pair)
  have arm: "pick (aif_verify_arm h) = pick h" "aif_allocs (aif_verify_arm h) = aif_allocs h"
    "aif_releases (aif_verify_arm h) = aif_releases h" "aif_live (aif_verify_arm h) = aif_live h"
    by (simp_all add: aif_verify_arm_def)
  note f = malloc_fields [OF m1] malloc_fields [OF m2]
  have grant: "fst (malloc j h') \<noteq> 0" if "pick h' = pick h" for j and h' :: verify_heap
    using assms(1) [of "live h'" j] that by (auto simp: malloc_def split: prod.splits)
  have "p \<noteq> 0" "nd \<noteq> 0"
    using grant [of "aif_verify_arm h" n] grant [of h1 sizeof_AifLive] m1 m2 arm(1) f(1) by simp_all
  then have "aif_allocs (snd (aif_verify_alloc n h)) = aif_allocs h + 1"
    "aif_releases (snd (aif_verify_alloc n h)) = aif_releases h"
    "pick (snd (aif_verify_alloc n h)) = pick h"
    and ex: "\<exists>x. aif_live (snd (aif_verify_alloc n h)) = (aif_live h)(aif_live_hash p := x # aif_live h (aif_live_hash p))"
    using m1 m2 f arm by (auto simp: aif_verify_alloc_def Let_def)
  moreover obtain x where "aif_live (snd (aif_verify_alloc n h)) = (aif_live h)(aif_live_hash p := x # aif_live h (aif_live_hash p))"
    using ex ..
  ultimately show "balanced (snd (aif_verify_alloc n h))" "pick (snd (aif_verify_alloc n h)) = pick h"
    using assms(2) leaked_upd [OF hash_bound [of p], of "aif_live h" "x # aif_live h (aif_live_hash p)"]
    by (simp_all add: balanced_def aif_leaked_def del: fun_upd_apply)
qed

lemma release_balanced:
  assumes "balanced h"
  shows "balanced (aif_verify_release p h)" "pick (aif_verify_release p h) = pick h"
proof -
  show "pick (aif_verify_release p h) = pick h"
    by (auto simp: aif_verify_release_def Let_def tmp_free_def split: option.splits)
  show "balanced (aif_verify_release p h)"
  proof (cases "p = 0 \<or> aif_find p h = None")
    case True
    then show ?thesis using assms by (auto simp: aif_verify_release_def balanced_def aif_leaked_def)
  next
    case False
    then obtain x where x: "aif_find p h = Some x" "p \<noteq> 0" by auto
    let ?b = "aif_live_hash p"
    have "Suc (length (unlink p (aif_live h ?b))) = length (aif_live h ?b)"
      using aif_find_Some [OF x(1)] by (intro unlink_length) blast
    moreover have "aif_live (aif_verify_release p h) = (aif_live h)(?b := unlink p (aif_live h ?b))"
      "aif_releases (aif_verify_release p h) = aif_releases h + 1" "aif_allocs (aif_verify_release p h) = aif_allocs h"
      using x by (auto simp: aif_verify_release_def Let_def tmp_free_def)
    ultimately show ?thesis
      using assms leaked_upd [OF hash_bound [of p], of "aif_live h" "unlink p (aif_live h ?b)"]
      by (simp add: balanced_def aif_leaked_def del: fun_upd_apply)
  qed
qed

lemma do_balanced:
  assumes "\<And>lv n. fst (pick h lv n) \<noteq> 0" "balanced h"
  shows "balanced (verify_do x h) \<and> pick (verify_do x h) = pick h"
proof (cases x)
  case (VRealloc p n)
  have mm: "balanced (h'\<lparr>mem := m\<rparr>) = balanced h'" for h' m by (simp add: balanced_def aif_leaked_def)
  show ?thesis
    using VRealloc assms alloc_balanced [OF assms, of n] release_balanced [of _ p] mm
    by (auto simp: aif_verify_realloc_def Let_def balanced_def aif_leaked_def split: prod.splits)
qed (use assms alloc_balanced release_balanced in auto)

subsection \<open>Pointers the ledger does not know\<close>

definition unnamed :: "addr \<Rightarrow> verify_heap \<Rightarrow> bool" where
  "unnamed p h \<longleftrightarrow> (\<forall>x \<in> nodes h. blk x \<noteq> p)"

text \<open>The addresses that a run of the program is handed.\<close>

fun verify_handed :: "verify_op list \<Rightarrow> verify_heap \<Rightarrow> addr set" where
  "verify_handed [] h = {}"
| "verify_handed (x # xs) h = (case x of
       VAlloc n \<Rightarrow> {fst (aif_verify_alloc n h)}
     | VRelease p \<Rightarrow> {}
     | VRealloc p n \<Rightarrow> {fst (aif_verify_realloc p n h)}) \<union> verify_handed xs (verify_do x h)"

lemma in_nodes: "x \<in> set (aif_live h (aif_live_hash p)) \<Longrightarrow> x \<in> nodes h"
  using hash_bound by (auto simp: nodes_def)

lemma unnamed_find: "unnamed p h \<Longrightarrow> aif_find p h = None"
  using in_nodes [of _ h p] by (auto simp: unnamed_def aif_find_def find_None_iff)

lemma find_unnamed:
  assumes "ledger_ok B h"
  shows "aif_find p h = None \<longleftrightarrow> unnamed p h"
proof
  assume f: "aif_find p h = None"
  show "unnamed p h"
    unfolding unnamed_def
  proof (intro ballI notI)
    fix x assume "x \<in> nodes h" "blk x = p"
    then obtain i where "x \<in> set (aif_live h i)" by (auto simp: nodes_def)
    moreover from this have "aif_live_hash (blk x) = i" by (rule ledger_okD(1) [OF assms])
    ultimately show False using aif_find_None [OF f, of x] \<open>blk x = p\<close> by blast
  qed
qed (rule unnamed_find)

lemma unnamed_release:
  assumes "unnamed p h"
  shows "p \<noteq> 0 \<Longrightarrow> aif_verify_release p h = h\<lparr>aif_violations := aif_violations h + 1, aif_log := aif_log h @ [Release_not_live p]\<rparr>"
  using unnamed_find [OF assms] by (simp add: aif_verify_release_def)

lemma unlink_subset: "set (unlink p xs) \<subseteq> set xs"
  by (induction p xs rule: unlink.induct) auto

lemma nodes_upd: "nodes h' \<subseteq> nodes h \<union> set xs" if "aif_live h' = (aif_live h)(b := ys)" "set ys \<subseteq> set xs \<union> set (aif_live h b)"
  "b < AIF_VERIFY_BUCKETS"
proof
  fix x assume "x \<in> nodes h'"
  then obtain i where i: "i < AIF_VERIFY_BUCKETS" "x \<in> set (aif_live h' i)" by (auto simp: nodes_def)
  show "x \<in> nodes h \<union> set xs"
  proof (cases "i = b")
    case True
    then have "x \<in> set xs \<union> set (aif_live h b)" using i(2) that(1,2) by auto
    then show ?thesis using that(3) by (auto simp: nodes_def)
  next
    case False
    then show ?thesis using i that(1) by (auto simp: nodes_def)
  qed
qed

lemma release_nodes: "nodes (aif_verify_release q h) \<subseteq> nodes h"
proof (cases "q = 0 \<or> aif_find q h = None")
  case True
  then show ?thesis by (auto simp: aif_verify_release_def nodes_def)
next
  case False
  then obtain x where "aif_find q h = Some x" "q \<noteq> 0" by auto
  then have "aif_live (aif_verify_release q h) = (aif_live h)(aif_live_hash q := unlink q (aif_live h (aif_live_hash q)))"
    by (simp add: aif_verify_release_def Let_def tmp_free_def)
  from nodes_upd [OF this, of "[]"] hash_bound [of q] show ?thesis by (simp add: unlink_subset)
qed

lemma alloc_nodes: "x \<in> nodes (snd (aif_verify_alloc n h)) \<Longrightarrow> x \<in> nodes h \<or> blk x = fst (aif_verify_alloc n h)"
proof -
  assume x: "x \<in> nodes (snd (aif_verify_alloc n h))"
  obtain p h1 where m1: "malloc n (aif_verify_arm h) = (p, h1)" by (metis surj_pair)
  obtain nd h2 where m2: "malloc sizeof_AifLive h1 = (nd, h2)" by (metis surj_pair)
  have l: "aif_live h1 = aif_live h" "aif_live h2 = aif_live h"
    using malloc_fields [OF m1] malloc_fields [OF m2] by (simp_all add: aif_verify_arm_def)
  show ?thesis
  proof (cases "p = 0 \<or> nd = 0")
    case True
    then have "aif_live (snd (aif_verify_alloc n h)) = aif_live h" using m1 m2 l by (auto simp: aif_verify_alloc_def Let_def)
    then show ?thesis using x by (simp add: nodes_def)
  next
    case False
    define y where "y = \<lparr>node = nd, blk = p, bytes = n, serial = aif_allocs h2 + 1\<rparr>"
    have y: "blk y = p" "fst (aif_verify_alloc n h) = p"
      "aif_live (snd (aif_verify_alloc n h)) = (aif_live h)(aif_live_hash p := y # aif_live h (aif_live_hash p))"
      using False m1 m2 l by (auto simp: aif_verify_alloc_def Let_def y_def)
    from nodes_upd [OF y(3), of "[y]"] hash_bound [of p] x y(1,2) show ?thesis by auto
  qed
qed

lemma unnamed_step:
  assumes "unnamed p h" "p \<notin> verify_handed [x] h"
  shows "unnamed p (verify_do x h)"
proof (cases x)
  case (VAlloc n)
  then show ?thesis using assms alloc_nodes [of _ n h] by (auto simp: unnamed_def)
next
  case (VRelease q)
  then show ?thesis using assms release_nodes [of q h] by (auto simp: unnamed_def)
next
  case (VRealloc q n)
  consider (new) "q = 0" | (bad) "q \<noteq> 0" "aif_verify_usable_size q h = 0" | (move) "q \<noteq> 0" "aif_verify_usable_size q h \<noteq> 0" by blast
  then show ?thesis
  proof cases
    case new
    then show ?thesis using VRealloc assms alloc_nodes [of _ n h] by (auto simp: unnamed_def aif_verify_realloc_def)
  next
    case bad
    then show ?thesis using VRealloc assms by (simp add: unnamed_def aif_verify_realloc_def nodes_def)
  next
    case move
    obtain a h1 where a: "aif_verify_alloc n h = (a, h1)" by (metis surj_pair)
    have h1: "unnamed p h1" if "p \<noteq> a" using that assms(1) alloc_nodes [of _ n h] a by (auto simp: unnamed_def)
    have w: "unnamed p (h1\<lparr>mem := m\<rparr>) = unnamed p h1" for m by (simp add: unnamed_def nodes_def)
    show ?thesis
    proof (cases "a = 0")
      case True
      then show ?thesis using VRealloc move a assms h1
        by (cases "p = a") (auto simp: aif_verify_realloc_def Let_def)
    next
      case False
      then have "p \<noteq> a" using VRealloc move a assms(2) by (auto simp: aif_verify_realloc_def Let_def)
      then show ?thesis
        using VRealloc move a False h1 release_nodes [of q "h1\<lparr>mem := m\<rparr>" for m] w
        by (fastforce simp: aif_verify_realloc_def Let_def unnamed_def)
    qed
  qed
qed

lemma unnamed_run: "unnamed p h \<Longrightarrow> p \<notin> verify_handed ops h \<Longrightarrow> unnamed p (fold verify_do ops h)"
proof (induction ops arbitrary: h)
  case (Cons x xs)
  have "p \<notin> verify_handed [x] h" "p \<notin> verify_handed xs (verify_do x h)" using Cons.prems(2) by auto
  then show ?case using Cons.IH [OF unnamed_step [OF Cons.prems(1)]] by simp
qed simp

text \<open>A release of a block that the ledger has: poisoned, given back, and out of the ledger.\<close>

lemma release_named:
  assumes inv: "verify_inv B h" and x: "x \<in> nodes h"
  defines "h1 \<equiv> aif_verify_release (blk x) h"
  shows "B (blk x) = Some (Seam, bytes x)" "mem h1 = poke (mem h) (blk x) (replicate (bytes x) 0xDD)"
    "live h1 = (live h)(node x := None, blk x := None)" "nodes h1 = nodes h - {x}" "unnamed (blk x) h1"
    "aif_releases h1 = aif_releases h + 1"
proof -
  have I: "plain_core B h" and L: "ledger_ok B h" using inv by (auto simp: verify_inv_def)
  let ?p = "blk x" and ?b = "aif_live_hash (blk x)"
  obtain i where i: "x \<in> set (aif_live h i)" using x by (auto simp: nodes_def)
  have b: "x \<in> set (aif_live h ?b)" using i ledger_okD(1) [OF L i] by simp
  show B: "B ?p = Some (Seam, bytes x)" by (rule ledger_okD(2) [OF L i])
  have p0: "?p \<noteq> 0" using plain_core_wf [OF I] B unfolding owned_wf_def by blast
  have n0: "node x \<noteq> 0" using ledger_okD(4) [OF L i] plain_coreD(2) [OF I] live_wfD(1) [of "live h" "node x"] by blast
  have dist: "distinct (map blk (aif_live h ?b))" by (rule ledger_okD2(1) [OF L])
  obtain y where y: "aif_find ?p h = Some y"
    using aif_find_None [of ?p h x] b by (cases "aif_find ?p h") auto
  have "y = x" using aif_find_Some [OF y] b dist unfolding distinct_map inj_on_def by blast
  then have f: "aif_find ?p h = Some x" using y by simp
  have l: "aif_live h1 = (aif_live h)(?b := unlink ?p (aif_live h ?b))"
    and rest: "mem h1 = poke (mem h) ?p (replicate (bytes x) AIF_VERIFY_POISON)" "live h1 = (live h)(node x := None, ?p := None)"
      "aif_releases h1 = aif_releases h + 1"
    using p0 n0 f by (simp_all add: h1_def aif_verify_release_def Let_def tmp_free_def)
  show "mem h1 = poke (mem h) ?p (replicate (bytes x) 0xDD)" "live h1 = (live h)(node x := None, blk x := None)"
    "aif_releases h1 = aif_releases h + 1" using rest by (simp_all add: AIF_VERIFY_POISON_def)
  have same: "z = x" if z: "z \<in> nodes h" "blk z = ?p" for z
  proof -
    obtain j where j: "z \<in> set (aif_live h j)" using z(1) by (auto simp: nodes_def)
    then have "j = ?b" using ledger_okD(1) [OF L j] z(2) by simp
    then show ?thesis using j b dist z(2) unfolding distinct_map inj_on_def by blast
  qed
  have s: "set (aif_live h1 j) = {z \<in> set (aif_live h j). blk z \<noteq> ?p}" for j
  proof (cases "j = ?b")
    case False
    have "blk z \<noteq> ?p" if "z \<in> set (aif_live h j)" for z using ledger_okD(1) [OF L that] False by auto
    then show ?thesis using False by (auto simp: l)
  qed (simp add: l unlink_set [OF dist])
  show "nodes h1 = nodes h - {x}" using same unfolding nodes_def s by (auto simp: nodes_def)
  show "unnamed ?p h1" unfolding unnamed_def nodes_def s by blast
qed

subsection \<open>Properties\<close>

text \<open>C7. Releasing a pointer that is not live, whatever it is, is counted as one violation, logged, and touches
  nothing else: neither memory, nor the allocator, nor the ledger.  The ledger does not know a pointer that
  the program does not hold from the seam (never allocated, foreign to the ledger, obtained from \<open>malloc\<close>
  directly), nor a block once it has been released, and it stays so through any allocations, releases and
  reallocations that do not hand that address out again.  Releasing a block that the ledger knows fills
  every byte of it with \<open>0xDD\<close>, changes no other byte, gives back the block and its node, and takes
  exactly that node out of the ledger.\<close>

theorem verify_double_release:
  assumes inv: "verify_inv B h" and p: "p \<noteq> 0"
  shows "((\<nexists>k. B p = Some (Seam, k)) \<longrightarrow> unnamed p h)
    \<and> (\<forall>x \<in> nodes h. blk x = p \<longrightarrow> (let h1 = aif_verify_release p h in
         B p = Some (Seam, bytes x) \<and> mem h1 = poke (mem h) p (replicate (bytes x) 0xDD)
         \<and> live h1 = (live h)(node x := None, p := None) \<and> nodes h1 = nodes h - {x} \<and> unnamed p h1))
    \<and> (\<forall>h0 ops. unnamed p h0 \<longrightarrow> p \<notin> verify_handed ops h0 \<longrightarrow> (let h2 = fold verify_do ops h0 in
         aif_verify_release p h2 = h2\<lparr>aif_violations := aif_violations h2 + 1, aif_log := aif_log h2 @ [Release_not_live p]\<rparr>))"
proof (intro conjI)
  have L: "ledger_ok B h" using inv by (simp add: verify_inv_def)
  show "(\<nexists>k. B p = Some (Seam, k)) \<longrightarrow> unnamed p h"
    using ledger_okD(2) [OF L] by (fastforce simp: unnamed_def nodes_def)
  show "\<forall>x \<in> nodes h. blk x = p \<longrightarrow> (let h1 = aif_verify_release p h in
         B p = Some (Seam, bytes x) \<and> mem h1 = poke (mem h) p (replicate (bytes x) 0xDD)
         \<and> live h1 = (live h)(node x := None, p := None) \<and> nodes h1 = nodes h - {x} \<and> unnamed p h1)"
    using release_named [OF inv] unfolding Let_def by blast
  show "\<forall>h0 ops. unnamed p h0 \<longrightarrow> p \<notin> verify_handed ops h0 \<longrightarrow> (let h2 = fold verify_do ops h0 in
         aif_verify_release p h2 = h2\<lparr>aif_violations := aif_violations h2 + 1, aif_log := aif_log h2 @ [Release_not_live p]\<rparr>)"
    using unnamed_release [OF unnamed_run p] unfolding Let_def by blast
qed

text \<open>A block of three bytes at 4096 with its node at 8192.\<close>

definition ledger_of_one :: verify_heap where
  "ledger_of_one = \<lparr>mem = \<lambda>_. 1, live = [4096 \<mapsto> 3, 8192 \<mapsto> 104], pick = \<lambda>_ _. (0, 0), repick = \<lambda>_ _ _. (0, 0),
     self = 0, worker = \<lambda>_. False, threads_enabled = False,
     aif_live = (\<lambda>_. [])(aif_live_hash 4096 := [\<lparr>node = 8192, blk = 4096, bytes = 3, serial = 1\<rparr>]),
     aif_allocs = 1, aif_releases = 0, aif_violations = 0, aif_allocated_bytes = 3, aif_released_bytes = 0,
     aif_live_bytes = 3, aif_peak_live_bytes = 3, aif_size_buckets = (\<lambda>_. 0)(0 := 1), aif_report_armed = True,
     aif_log = []\<rparr>"

theorem verify_double_release_witness:
  "let h1 = aif_verify_release 4096 ledger_of_one; h2 = aif_verify_release 99 h1; h3 = aif_verify_release 4096 h2 in
     peek (mem h1) 4096 3 = replicate 3 0xDD \<and> aif_violations h3 = aif_violations h1 + 2
     \<and> aif_log h3 = [Release_not_live 99, Release_not_live 4096] \<and> mem h3 = mem h1 \<and> live h3 = live h1"
proof -
  have wf: "live_wf [4096 \<mapsto> 3, 8192 \<mapsto> 104]"
    unfolding live_wf_def by (simp add: apart_def)
  have "plain_core [4096 \<mapsto> (Seam, 3)] ledger_of_one"
  proof (rule plain_coreI)
    show "libc_ok ledger_of_one" by (simp add: libc_ok_def ledger_of_one_def)
    show "live_wf (live ledger_of_one)" using wf by (simp add: ledger_of_one_def)
  qed (auto simp: ledger_of_one_def split: if_splits)
  moreover have "ledger_ok [4096 \<mapsto> (Seam, 3)] ledger_of_one"
    by (auto simp: ledger_ok_def ledger_of_one_def split: if_splits)
  ultimately have inv: "verify_inv [4096 \<mapsto> (Seam, 3)] ledger_of_one" by (simp add: verify_inv_def)
  let ?x = "\<lparr>node = 8192, blk = 4096, bytes = 3, serial = 1\<rparr>" and ?h = ledger_of_one
  let ?h1 = "aif_verify_release 4096 ?h" and ?h2 = "aif_verify_release 99 (aif_verify_release 4096 ?h)"
  have n: "?x \<in> nodes ?h" using hash_bound [of 4096] by (auto simp: nodes_def ledger_of_one_def)
  note R = verify_double_release [OF inv, of 4096] and F = verify_double_release [OF inv, of 99]
  from R n have h1: "mem ?h1 = poke (mem ?h) 4096 (replicate 3 0xDD)" "nodes ?h1 = nodes ?h - {?x}" "unnamed 4096 ?h1"
    by (auto simp: Let_def)
  have "aif_log ?h1 = []" by (simp add: aif_verify_release_def aif_find_def Let_def tmp_free_def ledger_of_one_def)
  moreover have "unnamed 99 ?h" using F by simp
  then have "unnamed 99 ?h1" unfolding unnamed_def h1(2) by blast
  then have h2: "?h2 = ?h1\<lparr>aif_violations := aif_violations ?h1 + 1, aif_log := aif_log ?h1 @ [Release_not_live 99]\<rparr>"
    using F [THEN conjunct2, THEN conjunct2, rule_format, of ?h1 "[]"] by (simp add: Let_def)
  have "aif_verify_release 4096 ?h2 = ?h2\<lparr>aif_violations := aif_violations ?h2 + 1, aif_log := aif_log ?h2 @ [Release_not_live 4096]\<rparr>"
    using R [THEN conjunct2, THEN conjunct2, rule_format, of ?h1 "[VRelease 99]"] h1(3) by (simp add: Let_def)
  ultimately show ?thesis unfolding Let_def by (simp add: h2 h1(1) poke_same_len)
qed

text \<open>On a C library that grants every request, whatever allocations, releases (of live blocks or
  not) and reallocations a program makes, the report's counts add up: blocks allocated are the
  blocks released plus the blocks reported as leaked.\<close>

theorem verify_report_adds_up:
  assumes "\<And>lv n. fst (pick h lv n) \<noteq> 0" "aif_allocs h = aif_releases h + aif_leaked h"
    and "aif_verify_report (fold verify_do ops h) = (a, r, l, v, failed)"
  shows "a = r + l \<and> (failed \<longleftrightarrow> l \<noteq> 0 \<or> v \<noteq> 0)"
proof -
  have "balanced (fold verify_do xs h0) \<and> pick (fold verify_do xs h0) = pick h0"
    if "\<And>lv n. fst (pick h0 lv n) \<noteq> 0" "balanced h0" for xs h0
    using that
  proof (induction xs arbitrary: h0)
    case (Cons x xs)
    from do_balanced [OF Cons.prems, of x] Cons.IH [of "verify_do x h0"] Cons.prems(1) show ?case by simp
  qed simp
  from this [of h ops] assms have "balanced (fold verify_do ops h)" by (simp add: balanced_def)
  with assms(3) show ?thesis by (auto simp: aif_verify_report_def balanced_def)
qed

text \<open>A library that hands out the same large address each time, which is enough for the counts.\<close>

definition empty_ledger :: verify_heap where
  "empty_ledger = ledger_of_one\<lparr>live := \<lambda>_. None, pick := \<lambda>_ n. (4096, n), aif_live := \<lambda>_. [], aif_allocs := 0\<rparr>"

theorem verify_report_adds_up_witness:
  "case aif_verify_report (fold verify_do [VAlloc 5, VAlloc 7, VRelease 4096, VRelease 99] empty_ledger) of
     (a, r, l, v, failed) \<Rightarrow> a = r + l"
  using verify_report_adds_up [of empty_ledger "[VAlloc 5, VAlloc 7, VRelease 4096, VRelease 99]"]
  by (auto simp: empty_ledger_def aif_leaked_def ledger_of_one_def split: prod.splits)

end
