(* ===== verification/Arena.thy ===== *)
theory Arena
  imports Heap
begin

text \<open>
  The arenas of \<open>runtime/lang_runtime.c\<close>: a stack of bump allocators per thread (\<open>arena_push\<close>,
  \<open>arena_alloc\<close>, \<open>arena_pop\<close>), the pool of default-sized chunks, the hint that sends a runtime
  allocation to the innermost arena, and \<open>rt_alloc\<close> on top of both the arenas and the seam.

  The main thread's state and each worker's are told apart by a key: \<open>None\<close> is the process-local
  state, \<open>Some t\<close> the thread-local one of thread \<open>t\<close>.  The stack of chunk lists has one entry per
  open region, the outermost first, so its length is the code's \<open>depth\<close>; the chunks of a region
  are a list, the newest first.  A chunk's header fields are a record; \<open>hdr\<close> is where \<open>malloc\<close> put
  it.
\<close>

subsection \<open>Definitions\<close>

definition ARENA_CHUNK_MIN :: nat where "ARENA_CHUNK_MIN = 8192"
definition ARENA_MAX_DEPTH :: nat where "ARENA_MAX_DEPTH = 64"
definition ARENA_POOL_MAX :: nat where "ARENA_POOL_MAX = 8"
definition sizeof_ArenaChunk :: nat where "sizeof_ArenaChunk = 32"

record ArenaChunk =
  hdr :: addr
  used :: nat
  cap :: nat
  base :: addr

record ArenaState =
  stack :: "ArenaChunk list list"
  bytes_served :: nat
  objects_served :: nat
  regions_entered :: nat
  pool :: "ArenaChunk list"
  pool_count :: nat

record 'a rt =
  hp :: "'a heap_scheme"
  arena_main_state :: ArenaState
  arena_worker_state :: "nat \<Rightarrow> ArenaState"
  rt_arena_hint :: int
  rt_worker_arena_hint :: "nat \<Rightarrow> int"

text \<open>The exits of the runtime that this part can take.\<close>

datatype arena_error = Regions_too_deep

definition state_key :: "('a, 'b) rt_scheme \<Rightarrow> nat option" where
  "state_key s = (if on_worker (hp s) then Some (self (hp s)) else None)"

definition arena_of :: "nat option \<Rightarrow> ('a, 'b) rt_scheme \<Rightarrow> ArenaState" where
  "arena_of w s = (case w of None \<Rightarrow> arena_main_state s | Some t \<Rightarrow> arena_worker_state s t)"

definition put_arena :: "nat option \<Rightarrow> ArenaState \<Rightarrow> ('a, 'b) rt_scheme \<Rightarrow> ('a, 'b) rt_scheme" where
  "put_arena w a s = (case w of
      None \<Rightarrow> s\<lparr>arena_main_state := a\<rparr>
    | Some t \<Rightarrow> s\<lparr>arena_worker_state := (arena_worker_state s)(t := a)\<rparr>)"

definition rt_arena_hint_state :: "('a, 'b) rt_scheme \<Rightarrow> int" where
  "rt_arena_hint_state s =
     (case state_key s of None \<Rightarrow> rt_arena_hint s | Some t \<Rightarrow> rt_worker_arena_hint s t)"

definition set_rt_arena_hint :: "int \<Rightarrow> ('a, 'b) rt_scheme \<Rightarrow> ('a, 'b) rt_scheme" where
  "set_rt_arena_hint n s = (case state_key s of
      None \<Rightarrow> s\<lparr>rt_arena_hint := n\<rparr>
    | Some t \<Rightarrow> s\<lparr>rt_worker_arena_hint := (rt_worker_arena_hint s)(t := n)\<rparr>)"

definition rt_arena_hint_push :: "('a, 'b) rt_scheme \<Rightarrow> ('a, 'b) rt_scheme" where
  "rt_arena_hint_push s = set_rt_arena_hint (i32 (rt_arena_hint_state s + 1)) s"

definition rt_arena_hint_pop :: "('a, 'b) rt_scheme \<Rightarrow> ('a, 'b) rt_scheme" where
  "rt_arena_hint_pop s =
     (if rt_arena_hint_state s > 0 then set_rt_arena_hint (rt_arena_hint_state s - 1) s else s)"

text \<open>Calls into the seam and the C library from here.\<close>

definition rt_base_alloc :: "'a seam \<Rightarrow> nat \<Rightarrow> ('a, 'b) rt_scheme \<Rightarrow> addr \<times> ('a, 'b) rt_scheme" where
  "rt_base_alloc S n s = (let (p, h) = seam_alloc S n (hp s) in (p, s\<lparr>hp := h\<rparr>))"

definition rt_base_realloc :: "'a seam \<Rightarrow> addr \<Rightarrow> nat \<Rightarrow> ('a, 'b) rt_scheme \<Rightarrow> addr \<times> ('a, 'b) rt_scheme" where
  "rt_base_realloc S p n s = (let (q, h) = seam_realloc S p n (hp s) in (q, s\<lparr>hp := h\<rparr>))"

definition rt_free :: "'a seam \<Rightarrow> addr \<Rightarrow> ('a, 'b) rt_scheme \<Rightarrow> ('a, 'b) rt_scheme" where
  "rt_free S p s = s\<lparr>hp := seam_free S p (hp s)\<rparr>"

definition rt_tmp_realloc :: "addr \<Rightarrow> nat \<Rightarrow> ('a, 'b) rt_scheme \<Rightarrow> addr \<times> ('a, 'b) rt_scheme" where
  "rt_tmp_realloc p n s = (let (q, h) = tmp_realloc p n (hp s) in (q, s\<lparr>hp := h\<rparr>))"

definition rt_tmp_free :: "addr \<Rightarrow> ('a, 'b) rt_scheme \<Rightarrow> ('a, 'b) rt_scheme" where
  "rt_tmp_free p s = s\<lparr>hp := tmp_free p (hp s)\<rparr>"

definition arena_chunk_new ::
  "nat option \<Rightarrow> nat \<Rightarrow> ('a, 'b) rt_scheme \<Rightarrow> ArenaChunk option \<times> ('a, 'b) rt_scheme" where
  "arena_chunk_new w need s =
     (let a = arena_of w s in
      if need \<le> ARENA_CHUNK_MIN \<and> pool a \<noteq> []
      then (Some ((hd (pool a))\<lparr>used := 0\<rparr>),
            put_arena w (a\<lparr>pool := tl (pool a), pool_count := pool_count a - 1\<rparr>) s)
      else let c = (if need > ARENA_CHUNK_MIN then need else ARENA_CHUNK_MIN);
               (nd, h1) = malloc sizeof_ArenaChunk (hp s)
           in if nd = 0 then (None, s\<lparr>hp := h1\<rparr>)
              else let (b, h2) = malloc c h1
                   in if b = 0 then (None, s\<lparr>hp := tmp_free nd h2\<rparr>)
                      else (Some \<lparr>hdr = nd, used = 0, cap = c, base = b\<rparr>, s\<lparr>hp := h2\<rparr>))"

definition arena_push :: "('a, 'b) rt_scheme \<Rightarrow> arena_error + ('a, 'b) rt_scheme" where
  "arena_push s =
     (let w = state_key s; a = arena_of w s in
      if length (stack a) \<ge> ARENA_MAX_DEPTH then Inl Regions_too_deep
      else Inr (put_arena w (a\<lparr>stack := stack a @ [[]], regions_entered := regions_entered a + 1\<rparr>) s))"

text \<open>The loop of \<open>arena_pop\<close>: each chunk goes to the pool or back to the C library.\<close>

fun arena_pop_chunks :: "ArenaChunk list \<Rightarrow> ArenaState \<Rightarrow> 'a heap_scheme \<Rightarrow> ArenaState \<times> 'a heap_scheme" where
  "arena_pop_chunks [] a h = (a, h)"
| "arena_pop_chunks (c # cs) a h =
     (if cap c = ARENA_CHUNK_MIN \<and> pool_count a < ARENA_POOL_MAX
      then arena_pop_chunks cs (a\<lparr>pool := c # pool a, pool_count := pool_count a + 1\<rparr>) h
      else arena_pop_chunks cs a (tmp_free (hdr c) (tmp_free (base c) h)))"

definition arena_pop :: "('a, 'b) rt_scheme \<Rightarrow> ('a, 'b) rt_scheme" where
  "arena_pop s =
     (let w = state_key s; a = arena_of w s in
      if stack a = [] then s
      else let (a', h) = arena_pop_chunks (last (stack a)) (a\<lparr>stack := butlast (stack a)\<rparr>) (hp s)
           in put_arena w a' (s\<lparr>hp := h\<rparr>))"

definition arena_need :: "nat \<Rightarrow> nat" where
  "arena_need n = ((n + 15) mod 2 ^ 64) div 16 * 16"

definition arena_bump ::
  "nat option \<Rightarrow> nat \<Rightarrow> ArenaChunk \<Rightarrow> ArenaChunk list \<Rightarrow> nat \<Rightarrow> ('a, 'b) rt_scheme \<Rightarrow> addr \<times> ('a, 'b) rt_scheme" where
  "arena_bump w index c cs need s =
     (let a = arena_of w s
      in (base c + used c,
          put_arena w (a\<lparr>stack := (stack a)[index := (c\<lparr>used := used c + need\<rparr>) # cs],
                         bytes_served := bytes_served a + need,
                         objects_served := objects_served a + 1\<rparr>) s))"

definition arena_alloc_slot ::
  "'a seam \<Rightarrow> nat option \<Rightarrow> nat \<Rightarrow> nat \<Rightarrow> ('a, 'b) rt_scheme \<Rightarrow> addr \<times> ('a, 'b) rt_scheme" where
  "arena_alloc_slot S w index n s =
     (let need = arena_need n; cs = stack (arena_of w s) ! index in
      if cs = [] \<or> used (hd cs) + need > cap (hd cs)
      then (case arena_chunk_new w need s of
              (None, s') \<Rightarrow> rt_base_alloc S n s'
            | (Some c, s') \<Rightarrow> arena_bump w index c cs need s')
      else arena_bump w index (hd cs) (tl cs) need s)"

definition arena_alloc :: "'a seam \<Rightarrow> nat \<Rightarrow> ('a, 'b) rt_scheme \<Rightarrow> addr \<times> ('a, 'b) rt_scheme" where
  "arena_alloc S n s =
     (let w = state_key s; d = length (stack (arena_of w s)) in
      if d = 0 then rt_base_alloc S n s else arena_alloc_slot S w (d - 1) n s)"

definition arena_current_slot :: "('a, 'b) rt_scheme \<Rightarrow> nat" where
  "arena_current_slot s = length (stack (arena_of (state_key s) s))"

definition arena_alloc_at :: "'a seam \<Rightarrow> int \<Rightarrow> nat \<Rightarrow> ('a, 'b) rt_scheme \<Rightarrow> addr \<times> ('a, 'b) rt_scheme" where
  "arena_alloc_at S slot n s =
     (let w = state_key s in
      if slot \<le> 0 \<or> slot > int (length (stack (arena_of w s))) then rt_base_alloc S n s
      else arena_alloc_slot S w (nat slot - 1) n s)"

definition rt_alloc :: "'a seam \<Rightarrow> nat \<Rightarrow> ('a, 'b) rt_scheme \<Rightarrow> addr \<times> ('a, 'b) rt_scheme" where
  "rt_alloc S n s = (if rt_arena_hint_state s > 0 then arena_alloc S n s else rt_base_alloc S n s)"

definition rt_arena_slot :: "('a, 'b) rt_scheme \<Rightarrow> nat" where
  "rt_arena_slot s = (if rt_arena_hint_state s > 0 then arena_current_slot s else 0)"

definition arena_objects :: "('a, 'b) rt_scheme \<Rightarrow> nat" where
  "arena_objects s = objects_served (arena_of (state_key s) s)"

definition arena_bytes :: "('a, 'b) rt_scheme \<Rightarrow> nat" where
  "arena_bytes s = bytes_served (arena_of (state_key s) s)"

definition arena_regions :: "('a, 'b) rt_scheme \<Rightarrow> nat" where
  "arena_regions s = regions_entered (arena_of (state_key s) s)"

text \<open>\<open>while (state->depth > 0) arena_pop()\<close>, by the number of open regions.\<close>

fun arena_pop_all :: "nat \<Rightarrow> ('a, 'b) rt_scheme \<Rightarrow> ('a, 'b) rt_scheme" where
  "arena_pop_all 0 s = s"
| "arena_pop_all (Suc d) s = arena_pop_all d (arena_pop s)"

fun free_pool :: "ArenaChunk list \<Rightarrow> 'a heap_scheme \<Rightarrow> 'a heap_scheme" where
  "free_pool [] h = h"
| "free_pool (c # cs) h = free_pool cs (tmp_free (hdr c) (tmp_free (base c) h))"

definition prismio_memory_thread_cleanup :: "'a seam \<Rightarrow> ('a, 'b) rt_scheme \<Rightarrow> ('a, 'b) rt_scheme option" where
  "prismio_memory_thread_cleanup S s =
     (let w = state_key s in
      case seam_flush S (hp s) of
        None \<Rightarrow> None
      | Some h \<Rightarrow>
          let s1 = arena_pop_all (length (stack (arena_of w (s\<lparr>hp := h\<rparr>)))) (s\<lparr>hp := h\<rparr>);
              a = arena_of w s1;
              s2 = put_arena w (a\<lparr>pool := [], pool_count := 0\<rparr>) (s1\<lparr>hp := free_pool (pool a) (hp s1)\<rparr>);
              t = self (hp s2)
          in Some (s2\<lparr>rt_worker_arena_hint := (rt_worker_arena_hint s2)(t := 0),
                      hp := (hp s2)\<lparr>worker := (worker (hp s2))(t := False)\<rparr>\<rparr>))"

end
