(* ===== verification/Arena_Inv.thy ===== *)
theory Arena_Inv
  imports Arena "HOL-Library.Multiset"
begin

text \<open>
  The arenas over any seam that keeps its contract.  \<open>rt_inv\<close> ties what a program holds (blocks of
  the seam, of the C library, and of open regions) to what the runtime holds of the heap; the
  theory shows that every operation keeps it, and states the result as the contract \<open>rt_spec\<close>
  that the rest of the runtime is proved against.
\<close>

subsection \<open>The contract of the runtime's allocator\<close>

definition rt_kept :: "owned \<Rightarrow> ('a, 'b) rt_scheme \<Rightarrow> ('a, 'b) rt_scheme \<Rightarrow> bool" where
  "rt_kept B s s' \<longleftrightarrow> kept B (hp s) (hp s')"

definition rt_poke :: "addr \<Rightarrow> byte list \<Rightarrow> ('a, 'b) rt_scheme \<Rightarrow> ('a, 'b) rt_scheme" where
  "rt_poke q bs s = s\<lparr>hp := (hp s)\<lparr>mem := poke (mem (hp s)) q bs\<rparr>\<rparr>"

text \<open>The state besides the heap and the arenas is the client's own; an allocation leaves it alone.\<close>

locale rt_spec =
  fixes S :: "'a seam" and rinv :: "owned \<Rightarrow> ('a, 'b) rt_scheme \<Rightarrow> bool"
  assumes rinv_wf: "rinv B s \<Longrightarrow> owned_wf B"
    and rt_alloc_law: "rinv B s \<Longrightarrow> 0 < n \<Longrightarrow> n < 2 ^ 63 \<Longrightarrow> rt_alloc S n s = (p, s') \<Longrightarrow>
      rt_kept B s s' \<and> rt.more s' = rt.more s
      \<and> (if p = 0 then rinv B s' else fresh_block B p n \<and> (\<exists>w. rinv (B(p \<mapsto> (w, n))) s'))"
    and base_alloc_law: "rinv B s \<Longrightarrow> 0 < n \<Longrightarrow> n < 2 ^ 64 \<Longrightarrow> rt_base_alloc S n s = (p, s') \<Longrightarrow>
      rt_kept B s s' \<and> rt.more s' = rt.more s
      \<and> (if p = 0 then rinv B s' else fresh_block B p n \<and> rinv (B(p \<mapsto> (Seam, n))) s')"
    and base_realloc_law: "rinv B s \<Longrightarrow> B p = Some (Seam, k) \<Longrightarrow> 0 < k \<Longrightarrow> 0 < n \<Longrightarrow> n < 2 ^ 64 \<Longrightarrow>
      rt_base_realloc S p n s = (q, s') \<Longrightarrow>
      rt_kept (B(p := None)) s s' \<and> rt.more s' = rt.more s
      \<and> (if q = 0 then rinv B s' \<and> rt_kept B s s'
         else fresh_block (B(p := None)) q n \<and> rinv (B(p := None, q \<mapsto> (Seam, n))) s'
           \<and> peek (mem (hp s')) q (min k n) = peek (mem (hp s)) p (min k n))"
    and rt_free_law: "rinv B s \<Longrightarrow> B p = Some (Seam, k) \<Longrightarrow>
      rinv (B(p := None)) (rt_free S p s) \<and> rt_kept (B(p := None)) s (rt_free S p s)"
    and rt_free_null: "rt_free S 0 s = s"
    and base_realloc_null_law: "rinv B s \<Longrightarrow> 0 < n \<Longrightarrow> n < 2 ^ 64 \<Longrightarrow> rt_base_realloc S 0 n s = (p, s') \<Longrightarrow>
      rt_kept B s s' \<and> rt.more s' = rt.more s
      \<and> (if p = 0 then rinv B s' else fresh_block B p n \<and> rinv (B(p \<mapsto> (Seam, n))) s')"
    and arena_at_law: "rinv B s \<Longrightarrow> 0 < n \<Longrightarrow> n < 2 ^ 63 \<Longrightarrow> arena_alloc_at S i n s = (p, s') \<Longrightarrow>
      rt_kept B s s' \<and> rt.more s' = rt.more s
      \<and> (if p = 0 then rinv B s' else fresh_block B p n \<and> (\<exists>w. rinv (B(p \<mapsto> (w, n))) s'))"
    and rt_tmp_null_law: "rinv B s \<Longrightarrow> 0 < n \<Longrightarrow> rt_tmp_realloc 0 n s = (p, s') \<Longrightarrow>
      rt_kept B s s' \<and> rt.more s' = rt.more s
      \<and> (if p = 0 then rinv B s' else fresh_block B p n \<and> rinv (B(p \<mapsto> (Tmp, n))) s')"
    and rt_tmp_realloc_law: "rinv B s \<Longrightarrow> B p = Some (Tmp, k) \<Longrightarrow> 0 < n \<Longrightarrow> rt_tmp_realloc p n s = (q, s') \<Longrightarrow>
      rt_kept (B(p := None)) s s' \<and> rt.more s' = rt.more s
      \<and> (if q = 0 then rinv B s' \<and> rt_kept B s s'
         else fresh_block (B(p := None)) q n \<and> rinv (B(p := None, q \<mapsto> (Tmp, n))) s'
           \<and> peek (mem (hp s')) q (min k n) = peek (mem (hp s)) p (min k n))"
    and rt_tmp_free_law: "rinv B s \<Longrightarrow> B p = Some (Tmp, k) \<Longrightarrow>
      rinv (B(p := None)) (rt_tmp_free p s) \<and> rt_kept (B(p := None)) s (rt_tmp_free p s)"
    and rt_write_law: "rinv B s \<Longrightarrow> B p = Some (w, k) \<Longrightarrow> p \<le> q \<Longrightarrow> q + length bs \<le> p + k \<Longrightarrow> rinv B (rt_poke q bs s)"

subsection \<open>What the runtime holds\<close>

definition chunks :: "nat option \<Rightarrow> ('a, 'b) rt_scheme \<Rightarrow> ArenaChunk list" where
  "chunks w s = concat (stack (arena_of w s)) @ pool (arena_of w s)"

definition chunk_ok :: "(addr \<Rightarrow> nat option option) \<Rightarrow> owned \<Rightarrow> nat option \<Rightarrow> ArenaChunk \<Rightarrow> bool" where
  "chunk_ok own H w c \<longleftrightarrow> H (hdr c) = Some (Tmp, sizeof_ArenaChunk) \<and> H (base c) = Some (Tmp, cap c)
     \<and> used c \<le> cap c \<and> own (hdr c) = Some w \<and> own (base c) = Some w"

definition chunk_addrs :: "ArenaChunk list \<Rightarrow> addr list" where
  "chunk_addrs cs = map hdr cs @ map base cs"

definition in_region :: "('a, 'b) rt_scheme \<Rightarrow> nat option \<Rightarrow> nat \<Rightarrow> addr \<Rightarrow> nat \<Rightarrow> bool" where
  "in_region s w i p n \<longleftrightarrow> i < length (stack (arena_of w s))
     \<and> (\<exists>c \<in> set (stack (arena_of w s) ! i). base c \<le> p \<and> p + n \<le> base c + used c)"

definition held_ok :: "(addr \<Rightarrow> nat option option) \<Rightarrow> owned \<Rightarrow> owned \<Rightarrow> ('a, 'b) rt_scheme \<Rightarrow> bool" where
  "held_ok own H B s \<longleftrightarrow>
     (\<forall>p v n. B p = Some (v, n) \<longrightarrow>
        0 < n \<and> (case v of Region w i \<Rightarrow> in_region s w i p n | _ \<Rightarrow> H p = Some (v, n) \<and> own p = None))
     \<and> (\<forall>p q w i n v j k. B p = Some (Region w i, n) \<longrightarrow> B q = Some (Region v j, k) \<longrightarrow> p \<noteq> q \<longrightarrow> apart p n q k)"

definition arenas_ok :: "(addr \<Rightarrow> nat option option) \<Rightarrow> owned \<Rightarrow> ('a, 'b) rt_scheme \<Rightarrow> bool" where
  "arenas_ok own H s \<longleftrightarrow> (\<forall>w. distinct (chunk_addrs (chunks w s)) \<and> (\<forall>c \<in> set (chunks w s). chunk_ok own H w c)
     \<and> pool_count (arena_of w s) = length (pool (arena_of w s))
     \<and> (\<forall>c \<in> set (pool (arena_of w s)). cap c = ARENA_CHUNK_MIN))"

text \<open>Nothing is leaked: a block that the runtime holds is a block of the program, or belongs to a chunk
  that some thread's arenas still reach.\<close>

definition chunk_set :: "('a, 'b) rt_scheme \<Rightarrow> nat option \<Rightarrow> addr set" where
  "chunk_set s w = set (chunk_addrs (chunks w s))"

definition all_held :: "(addr \<Rightarrow> nat option option) \<Rightarrow> owned \<Rightarrow> owned \<Rightarrow> (nat option \<Rightarrow> addr set) \<Rightarrow> bool" where
  "all_held own H B C \<longleftrightarrow> (\<forall>p x. H p = Some x \<longrightarrow> (case own p of None \<Rightarrow> B p = Some x | Some w \<Rightarrow> p \<in> C w))"

definition rt_inv :: "(owned \<Rightarrow> 'a heap_scheme \<Rightarrow> bool) \<Rightarrow> owned \<Rightarrow> ('a, 'b) rt_scheme \<Rightarrow> bool" where
  "rt_inv hinv B s \<longleftrightarrow> (\<exists>own H. hinv H (hp s) \<and> arenas_ok own H s \<and> held_ok own H B s \<and> all_held own H B (chunk_set s))"

lemma chunk_set_hp [simp]: "chunk_set (s\<lparr>hp := h\<rparr>) = chunk_set s"
  by (simp add: chunk_set_def chunks_def fun_eq_iff arena_of_def split: option.splits)

lemma all_heldD:
  assumes "all_held own H B C" "H p = Some x"
  shows "own p = None \<Longrightarrow> B p = Some x" "own p = Some w \<Longrightarrow> p \<in> C w"
  using assms unfolding all_held_def by (fastforce split: option.splits)+

lemma all_heldI:
  assumes "\<And>p x. H p = Some x \<Longrightarrow> own p = None \<Longrightarrow> B p = Some x" "\<And>p x w. H p = Some x \<Longrightarrow> own p = Some w \<Longrightarrow> p \<in> C w"
  shows "all_held own H B C"
  using assms unfolding all_held_def by (auto split: option.splits)

lemma all_held_fresh: "all_held own H B C \<Longrightarrow> fresh_block B p n \<Longrightarrow> all_held own H (B(p \<mapsto> x)) C"
  by (rule all_heldI) (auto simp: fresh_block_def dest: all_heldD)

lemma all_held_drop: "all_held own H B C \<Longrightarrow> all_held own (H(p := None)) (B(p := None)) C"
  by (rule all_heldI) (auto dest: all_heldD split: if_splits)

lemma all_held_add: "all_held own H B C \<Longrightarrow> all_held (own(q := None)) (H(q \<mapsto> x)) (B(q \<mapsto> x)) C"
  by (rule all_heldI) (auto dest: all_heldD split: if_splits)

lemma arena_of_put [simp]: "arena_of v (put_arena w a s) = (if v = w then a else arena_of v s)"
  by (auto simp: arena_of_def put_arena_def split: option.splits)

lemma hp_put [simp]: "hp (put_arena w a s) = hp s" "rt.more (put_arena w a s) = rt.more s"
  by (auto simp: put_arena_def split: option.splits)

lemma arena_of_hp [simp]: "arena_of w (s\<lparr>hp := h\<rparr>) = arena_of w s"
  by (auto simp: arena_of_def split: option.splits)

lemma arenas_okD:
  assumes "arenas_ok own H s"
  shows "distinct (chunk_addrs (chunks w s))" "c \<in> set (chunks w s) \<Longrightarrow> chunk_ok own H w c"
    "pool_count (arena_of w s) = length (pool (arena_of w s))" "c \<in> set (pool (arena_of w s)) \<Longrightarrow> cap c = ARENA_CHUNK_MIN"
  using assms unfolding arenas_ok_def by blast+

lemma arenas_ok_chunks:
  assumes "arenas_ok own H s" "\<And>w. chunks w s' = chunks w s" "\<And>w. arena_of w s' = arena_of w s"
    and "\<And>w c. c \<in> set (chunks w s) \<Longrightarrow> H' (hdr c) = H (hdr c) \<and> H' (base c) = H (base c)
       \<and> own' (hdr c) = own (hdr c) \<and> own' (base c) = own (base c)"
  shows "arenas_ok own' H' s'"
  using assms unfolding arenas_ok_def chunk_ok_def by auto

lemma in_region_hp [simp]: "in_region (s\<lparr>hp := h\<rparr>) w i p n = in_region s w i p n"
  by (simp add: in_region_def)

lemma held_ok_hp [simp]: "held_ok own H B (s\<lparr>hp := h\<rparr>) = held_ok own H B s"
  unfolding held_ok_def by (simp cong: origin.case_cong)

lemma held_okD:
  assumes "held_ok own H B s"
  shows "B p = Some (Seam, n) \<Longrightarrow> 0 < n \<and> H p = Some (Seam, n) \<and> own p = None"
    "B p = Some (Tmp, n) \<Longrightarrow> 0 < n \<and> H p = Some (Tmp, n) \<and> own p = None"
    "B p = Some (Region w i, n) \<Longrightarrow> 0 < n \<and> in_region s w i p n"
    "B p = Some (Region w i, n) \<Longrightarrow> B q = Some (Region v j, k) \<Longrightarrow> p \<noteq> q \<Longrightarrow> apart p n q k"
  using assms unfolding held_ok_def by (fastforce split: origin.splits)+

lemma in_region_chunk:
  assumes "in_region s w i p n"
  obtains c where "c \<in> set (chunks w s)" "base c \<le> p" "p + n \<le> base c + used c" "c \<in> set (stack (arena_of w s) ! i)"
    "i < length (stack (arena_of w s))"
proof -
  obtain c where "i < length (stack (arena_of w s))" "c \<in> set (stack (arena_of w s) ! i)" "base c \<le> p"
    "p + n \<le> base c + used c"
    using assms unfolding in_region_def by blast
  moreover from this(1,2) have "c \<in> set (chunks w s)" unfolding chunks_def by (auto intro: nth_mem)
  ultimately show thesis using that by blast
qed

text \<open>Every block a program holds lies inside a heap block that the runtime holds for it.\<close>

definition holder_key :: "origin \<Rightarrow> nat option option" where
  "holder_key v = (case v of Region u i \<Rightarrow> Some u | _ \<Rightarrow> None)"

lemma held_inside:
  assumes h: "held_ok own H B s" and a: "arenas_ok own H s" and p: "B p = Some (v, n)"
  shows "\<exists>q w k. H q = Some (w, k) \<and> q \<le> p \<and> p + n \<le> q + k \<and> own q = holder_key v
     \<and> (holder_key v = None \<longrightarrow> q = p) \<and> 0 < n"
proof (cases v)
  case (Region u i)
  with held_okD(3) [OF h] p have r: "in_region s u i p n" "0 < n" by blast+
  from r(1) obtain c where c: "c \<in> set (chunks u s)" "base c \<le> p" "p + n \<le> base c + used c"
    by (rule in_region_chunk)
  with arenas_okD(2) [OF a c(1)] r(2) show ?thesis
    by (intro exI [of _ "base c"] exI [of _ Tmp] exI [of _ "cap c"]) (auto simp: chunk_ok_def Region holder_key_def)
qed (use held_okD(1,2) [OF h] p in \<open>auto simp: holder_key_def\<close>)

definition loose_chunk ::
  "(addr \<Rightarrow> nat option option) \<Rightarrow> owned \<Rightarrow> owned \<Rightarrow> nat option \<Rightarrow> ArenaChunk \<Rightarrow> ('a, 'b) rt_scheme \<Rightarrow> bool" where
  "loose_chunk own H B w c s \<longleftrightarrow> held_ok own H B s
     \<and> (\<forall>v. v \<noteq> w \<longrightarrow> distinct (chunk_addrs (chunks v s)) \<and> (\<forall>d \<in> set (chunks v s). chunk_ok own H v d))
     \<and> (\<forall>v. pool_count (arena_of v s) = length (pool (arena_of v s))
          \<and> (\<forall>d \<in> set (pool (arena_of v s)). cap d = ARENA_CHUNK_MIN))
     \<and> distinct (chunk_addrs (c # chunks w s)) \<and> (\<forall>d \<in> set (c # chunks w s). chunk_ok own H w d)"

text \<open>Without an open region or a pooled chunk, the program's blocks are the heap's.\<close>

lemma rt_inv_no_arena:
  assumes "hinv B (hp s)" "\<And>v. chunks v s = []" "\<And>v. pool_count (arena_of v s) = 0"
    and "\<And>p v n. B p = Some (v, n) \<Longrightarrow> 0 < n \<and> (v = Seam \<or> v = Tmp)"
  shows "rt_inv hinv B s"
proof -
  have "pool (arena_of v s) = []" for v using assms(2) [of v] by (simp add: chunks_def)
  then have "arenas_ok (\<lambda>_. None) B s" by (simp add: arenas_ok_def assms(2,3) chunk_addrs_def)
  moreover have "held_ok (\<lambda>_. None) B B s" using assms(4) by (fastforce simp: held_ok_def)
  moreover have "all_held (\<lambda>_. None) B B (chunk_set s)" by (simp add: all_held_def)
  ultimately show ?thesis using assms(1) unfolding rt_inv_def by blast
qed

text \<open>What a program holds once a region is closed.\<close>

definition drop_region :: "nat option \<Rightarrow> nat \<Rightarrow> owned \<Rightarrow> owned" where
  "drop_region w i B = (\<lambda>p. case B p of Some (Region v j, n) \<Rightarrow> if v = w \<and> j = i then None else B p | _ \<Rightarrow> B p)"

lemma drop_region_eq:
  "drop_region w i B p = Some (v, n) \<longleftrightarrow> B p = Some (v, n) \<and> v \<noteq> Region w i"
  by (auto simp: drop_region_def split: option.splits origin.splits if_splits)

lemma kept_sym: "kept B h h' \<Longrightarrow> kept B h' h"
  by (simp add: kept_def)

text \<open>What closing a region does to the C library's blocks: every chunk is pooled or has both its blocks
  freed, and nothing else is touched.\<close>

lemma pop_chunks_live:
  "arena_pop_chunks cs a h = (a', h') \<Longrightarrow> distinct cs \<Longrightarrow> set cs \<inter> set (pool a) = {} \<Longrightarrow>
   (\<forall>c \<in> set cs. hdr c \<noteq> 0 \<and> base c \<noteq> 0) \<Longrightarrow>
   live h' = live h |` (- set (chunk_addrs (filter (\<lambda>c. c \<notin> set (pool a')) cs)))
     \<and> set (pool a) \<subseteq> set (pool a') \<and> set (pool a') \<subseteq> set cs \<union> set (pool a) \<and> pool_count a \<le> pool_count a'
     \<and> (\<forall>c \<in> set cs. c \<in> set (pool a') \<or> cap c \<noteq> ARENA_CHUNK_MIN \<or> ARENA_POOL_MAX \<le> pool_count a')"
proof (induction cs arbitrary: a h)
  case Nil
  then show ?case by (simp add: chunk_addrs_def)
next
  case (Cons c cs)
  have cs: "distinct cs" "c \<notin> set cs" "\<forall>c \<in> set cs. hdr c \<noteq> 0 \<and> base c \<noteq> 0" "hdr c \<noteq> 0" "base c \<noteq> 0"
    "c \<notin> set (pool a)" "set cs \<inter> set (pool a) = {}"
    using Cons.prems by auto
  show ?case
  proof (cases "cap c = ARENA_CHUNK_MIN \<and> pool_count a < ARENA_POOL_MAX")
    case True
    let ?a = "a\<lparr>pool := c # pool a, pool_count := pool_count a + 1\<rparr>"
    have "arena_pop_chunks cs ?a h = (a', h')" using Cons.prems(1) True by simp
    from Cons.IH [OF this cs(1) _ cs(3)] cs(2,7) have IH:
      "live h' = live h |` (- set (chunk_addrs (filter (\<lambda>c. c \<notin> set (pool a')) cs)))"
      "set (c # pool a) \<subseteq> set (pool a')" "set (pool a') \<subseteq> set cs \<union> set (c # pool a)" "pool_count a + 1 \<le> pool_count a'"
      "\<forall>c \<in> set cs. c \<in> set (pool a') \<or> cap c \<noteq> ARENA_CHUNK_MIN \<or> ARENA_POOL_MAX \<le> pool_count a'"
      by auto
    then show ?thesis by auto
  next
    case False
    let ?h = "tmp_free (hdr c) (tmp_free (base c) h)"
    have "arena_pop_chunks cs a ?h = (a', h')" using Cons.prems(1) False by auto
    from Cons.IH [OF this cs(1,7,3)] have IH:
      "live h' = live ?h |` (- set (chunk_addrs (filter (\<lambda>c. c \<notin> set (pool a')) cs)))"
      "set (pool a) \<subseteq> set (pool a')" "set (pool a') \<subseteq> set cs \<union> set (pool a)" "pool_count a \<le> pool_count a'"
      "\<forall>c \<in> set cs. c \<in> set (pool a') \<or> cap c \<noteq> ARENA_CHUNK_MIN \<or> ARENA_POOL_MAX \<le> pool_count a'"
      by blast+
    have "c \<notin> set (pool a')" using IH(3) cs(2,6) by blast
    moreover have "live ?h = live h |` (- {hdr c, base c})"
      using cs(4,5) by (auto simp: tmp_free_def restrict_map_def fun_eq_iff)
    ultimately have "live h' = live h |` (- set (chunk_addrs (filter (\<lambda>c. c \<notin> set (pool a')) (c # cs))))"
      unfolding IH(1) by (auto simp: chunk_addrs_def restrict_map_def fun_eq_iff)
    then show ?thesis using IH(2-5) False by auto
  qed
qed

context seam_spec
begin

lemma held_wf:
  assumes I: "inv H h" and h: "held_ok own H B s" and a: "arenas_ok own H s"
  shows "owned_wf B"
proof -
  note wf = inv_wf [OF I]
  have "p \<noteq> 0 \<and> p + n < 2 ^ 64" if p: "B p = Some (v, n)" for p v n
  proof -
    obtain q w k where "H q = Some (w, k)" "q \<le> p" "p + n \<le> q + k" using held_inside [OF h a p] by blast
    moreover from this(1) wf have "q \<noteq> 0 \<and> q + k < 2 ^ 64" unfolding owned_wf_def by blast
    ultimately show ?thesis by linarith
  qed
  moreover have "apart p n q k" if pq: "B p = Some (v, n)" "B q = Some (u, k)" "p \<noteq> q" for p v n q u k
  proof (cases "holder_key v \<noteq> None \<and> holder_key u \<noteq> None")
    case True
    then show ?thesis using held_okD(4) [OF h] pq by (auto simp: holder_key_def split: origin.splits)
  next
    case False
    from held_inside [OF h a pq(1)] obtain a1 w1 k1 where "H a1 = Some (w1, k1) \<and> a1 \<le> p \<and> p + n \<le> a1 + k1
      \<and> own a1 = holder_key v \<and> (holder_key v = None \<longrightarrow> a1 = p) \<and> 0 < n" by (elim exE)
    then have 1: "H a1 = Some (w1, k1)" "a1 \<le> p" "p + n \<le> a1 + k1"
      "own a1 = holder_key v" "holder_key v = None \<longrightarrow> a1 = p" by auto
    from held_inside [OF h a pq(2)] obtain a2 w2 k2 where "H a2 = Some (w2, k2) \<and> a2 \<le> q \<and> q + k \<le> a2 + k2
      \<and> own a2 = holder_key u \<and> (holder_key u = None \<longrightarrow> a2 = q) \<and> 0 < k" by (elim exE)
    then have 2: "H a2 = Some (w2, k2)" "a2 \<le> q" "q + k \<le> a2 + k2"
      "own a2 = holder_key u" "holder_key u = None \<longrightarrow> a2 = q" by auto
    have "a1 \<noteq> a2" using False 1(4,5) 2(4,5) pq(3) by (cases "holder_key v = None"; cases "holder_key u = None") auto
    then have "apart a1 k1 a2 k2" using wf 1(1) 2(1) unfolding owned_wf_def by blast
    then show ?thesis using 1 2 by (auto elim: apart_sub)
  qed
  ultimately show ?thesis unfolding owned_wf_def by blast
qed

text \<open>A block of a region is no heap block of its own.\<close>

lemma held_not_region:
  assumes I: "inv H h" and h: "held_ok own H B s" and a: "arenas_ok own H s"
    and p: "B p = Some (v, n)" "H p = Some (v, n)" "own p = None"
  shows "holder_key v = None"
proof (rule ccontr)
  assume "holder_key v \<noteq> None"
  moreover obtain q w k where "H q = Some (w, k)" "q \<le> p" "p + n \<le> q + k" "own q = holder_key v" "0 < n"
    using held_inside [OF h a p(1)] by blast
  moreover from calculation p(3) have "q \<noteq> p" by auto
  moreover from this calculation have "apart q k p n" using inv_wf [OF I] p(2) unfolding owned_wf_def by blast
  ultimately show False by (auto simp: apart_def)
qed

lemma held_kept:
  assumes h: "held_ok own H B s" and a: "arenas_ok own H s" and k: "kept H (hp s) (hp s')"
  shows "rt_kept B s s'"
  unfolding rt_kept_def kept_def
proof (intro allI impI)
  fix p v n assume "B p = Some (v, n)"
  from held_inside [OF h a this] obtain q w k where q: "H q = Some (w, k)" "q \<le> p" "p + n \<le> q + k" by blast
  have "peek (mem (hp s')) q k = peek (mem (hp s)) q k" using k q(1) by (simp add: kept_def)
  then show "peek (mem (hp s')) p n = peek (mem (hp s)) p n" using q(2,3) by (rule peek_sub)
qed

text \<open>A block that is fresh on the heap is fresh for the program.\<close>

lemma held_fresh:
  assumes h: "held_ok own H B s" and a: "arenas_ok own H s" and f: "fresh_block H p n" and n: "0 < n"
  shows "fresh_block B p n"
  unfolding fresh_block_def
proof (intro conjI allI impI)
  show "p \<noteq> 0" "p + n < 2 ^ 64" using f by (auto simp: fresh_block_def)
  have ap: "apart b k p n \<and> b \<noteq> p" if b: "B b = Some (v, k)" for b v k
  proof -
    from held_inside [OF h a b] obtain q w j where "H q = Some (w, j) \<and> q \<le> b \<and> b + k \<le> q + j
      \<and> own q = holder_key v \<and> (holder_key v = None \<longrightarrow> q = b) \<and> 0 < k" by (elim exE)
    then have q: "H q = Some (w, j)" "q \<le> b" "b + k \<le> q + j" "0 < k" by auto
    have "apart q j p n" "q \<noteq> p" using f q(1) by (auto simp: fresh_block_def)
    then show ?thesis using q n by (auto simp: apart_def)
  qed
  then show "B p = None" by (cases "B p") fastforce+
  show "apart b k p n" if "B b = Some (v, k)" for b v k using ap [OF that] by simp
qed

text \<open>A new block of the seam or of the C library comes into the program's hands.\<close>

lemma place_ok:
  assumes r: "rt_inv inv B s" and v: "v = Seam \<or> v = Tmp" and n: "0 < n" and s': "s' = s\<lparr>hp := h'\<rparr>"
    and law: "\<And>H. inv H (hp s) \<Longrightarrow> kept H (hp s) h' \<and> (if p = 0 then inv H h' else fresh_block H p n \<and> inv (H(p \<mapsto> (v, n))) h')"
  shows "rt_kept B s s' \<and> rt.more s' = rt.more s
      \<and> (if p = 0 then rt_inv inv B s' else fresh_block B p n \<and> rt_inv inv (B(p \<mapsto> (v, n))) s')"
proof -
  obtain own H where I: "inv H (hp s)" and a: "arenas_ok own H s" and h: "held_ok own H B s"
    and ah: "all_held own H B (chunk_set s)"
    using r by (auto simp: rt_inv_def)
  note L = law [OF I]
  have k: "rt_kept B s s'" by (rule held_kept [OF h a]) (use L s' in simp)
  show ?thesis
  proof (cases "p = 0")
    case True
    have "arenas_ok own H s'" by (rule arenas_ok_chunks [OF a]) (auto simp: s' chunks_def)
    moreover have "held_ok own H B s'" "all_held own H B (chunk_set s')" using h ah by (simp_all add: s')
    ultimately show ?thesis using True L k s' by (auto simp: rt_inv_def)
  next
    case False
    then have f: "fresh_block H p n" "inv (H(p \<mapsto> (v, n))) h'" using L by auto
    have Hp: "H p = None" using f(1) by (simp add: fresh_block_def)
    have fb: "fresh_block B p n" by (rule held_fresh [OF h a f(1) n])
    let ?own = "own(p := None)" and ?H = "H(p \<mapsto> (v, n))"
    have "arenas_ok ?own ?H s'"
    proof (rule arenas_ok_chunks [OF a])
      fix w c assume "c \<in> set (chunks w s)"
      then have "hdr c \<noteq> p" "base c \<noteq> p" using arenas_okD(2) [OF a] Hp by (fastforce simp: chunk_ok_def)+
      then show "?H (hdr c) = H (hdr c) \<and> ?H (base c) = H (base c) \<and> ?own (hdr c) = own (hdr c) \<and> ?own (base c) = own (base c)"
        by simp
    qed (auto simp: s' chunks_def)
    moreover have "held_ok ?own ?H (B(p \<mapsto> (v, n))) s'"
      using h Hp n v unfolding s' held_ok_hp by (auto simp: held_ok_def split: origin.splits if_splits)
    moreover have "all_held ?own ?H (B(p \<mapsto> (v, n))) (chunk_set s')"
      using all_held_add [OF ah] by (simp add: s')
    ultimately show ?thesis using False f(2) fb k s' by (auto simp: rt_inv_def)
  qed
qed

lemma base_alloc_ok:
  assumes r: "rt_inv inv B s" and n: "0 < n" "n < 2 ^ 64" and al: "rt_base_alloc S n s = (p, s')"
  shows "rt_kept B s s' \<and> rt.more s' = rt.more s
      \<and> (if p = 0 then rt_inv inv B s' else fresh_block B p n \<and> rt_inv inv (B(p \<mapsto> (Seam, n))) s')"
  by (rule place_ok [OF r _ n(1), where h' = "hp s'"])
    (use al alloc_law [OF _ n(2)] in \<open>auto simp: rt_base_alloc_def split: prod.splits\<close>)

lemma realloc_null_ok:
  assumes r: "rt_inv inv B s" and n: "0 < n" "n < 2 ^ 64" and al: "rt_base_realloc S 0 n s = (p, s')"
  shows "rt_kept B s s' \<and> rt.more s' = rt.more s
      \<and> (if p = 0 then rt_inv inv B s' else fresh_block B p n \<and> rt_inv inv (B(p \<mapsto> (Seam, n))) s')"
  by (rule place_ok [OF r _ n(1), where h' = "hp s'"])
    (use al realloc_null_law [OF _ n(2)] in \<open>auto simp: rt_base_realloc_def split: prod.splits\<close>)

lemma tmp_null_ok:
  assumes r: "rt_inv inv B s" and n: "0 < n" and al: "rt_tmp_realloc 0 n s = (p, s')"
  shows "rt_kept B s s' \<and> rt.more s' = rt.more s
      \<and> (if p = 0 then rt_inv inv B s' else fresh_block B p n \<and> rt_inv inv (B(p \<mapsto> (Tmp, n))) s')"
  by (rule place_ok [OF r _ n, where h' = "hp s'"])
    (use al malloc_law in \<open>auto simp: rt_tmp_realloc_def tmp_realloc_def split: prod.splits\<close>)

text \<open>A chunk that is in no list, or the newest of its region, serves an allocation.\<close>

lemma bump_ok:
  assumes I: "inv H (hp s)" and h: "held_ok own H B s" and idx: "index < length (stack (arena_of w s))"
    and out: "\<And>v. v \<noteq> w \<Longrightarrow> distinct (chunk_addrs (chunks v s)) \<and> (\<forall>d \<in> set (chunks v s). chunk_ok own H v d)"
    and pc: "\<And>v. pool_count (arena_of v s) = length (pool (arena_of v s)) \<and> (\<forall>c \<in> set (pool (arena_of v s)). cap c = ARENA_CHUNK_MIN)"
    and st: "set (stack (arena_of w s) ! index) \<subseteq> insert c (set cs)"
  defines "rest \<equiv> concat ((stack (arena_of w s))[index := cs]) @ pool (arena_of w s)"
  assumes d: "distinct (chunk_addrs (c # rest))" and ok: "\<And>d. d \<in> set (c # rest) \<Longrightarrow> chunk_ok own H w d"
    and fit: "used c + need \<le> cap c" "0 < n" "n \<le> need"
    and al: "arena_bump w index c cs need s = (p, s')"
  shows "fresh_block B p n \<and> arenas_ok own H s' \<and> held_ok own H (B(p \<mapsto> (Region w index, n))) s'
    \<and> hp s' = hp s \<and> rt.more s' = rt.more s \<and> chunk_set s' = (chunk_set s)(w := set (chunk_addrs (c # rest)))"
proof -
  let ?a = "arena_of w s" and ?c = "c\<lparr>used := used c + need\<rparr>"
  have p: "p = base c + used c" and s': "arena_of w s' = ?a\<lparr>stack := (stack ?a)[index := ?c # cs],
      bytes_served := bytes_served ?a + need, objects_served := objects_served ?a + 1\<rparr>"
    and s'': "\<And>v. v \<noteq> w \<Longrightarrow> arena_of v s' = arena_of v s" "hp s' = hp s" "rt.more s' = rt.more s"
    using al by (auto simp: arena_bump_def Let_def)
  have msets: "mset (chunks w s') = add_mset ?c (mset rest)"
    using idx by (simp add: chunks_def s' rest_def upd_conv_take_nth_drop)
  have perm: "mset (chunk_addrs (chunks w s')) = mset (chunk_addrs (c # rest))"
  proof -
    have "mset (map f (chunks w s')) = add_mset (f ?c) (mset (map f rest))" for f :: "ArenaChunk \<Rightarrow> addr"
      using arg_cong [OF msets, of "image_mset f"] by simp
    then show ?thesis by (simp add: chunk_addrs_def)
  qed
  have setw: "set (chunks w s') = insert ?c (set rest)" using arg_cong [OF msets, of set_mset] by simp
  have okc: "chunk_ok own H w c" using ok by simp
  have A: "arenas_ok own H s'"
    unfolding arenas_ok_def
  proof (intro allI conjI ballI)
    fix v
    show "distinct (chunk_addrs (chunks v s'))"
    proof (cases "v = w")
      case True
      then show ?thesis using d mset_eq_imp_distinct_iff [OF perm] by simp
    qed (use out s'' in \<open>simp add: chunks_def\<close>)
    show "pool_count (arena_of v s') = length (pool (arena_of v s'))"
      using pc [of v] s' s''(1) by (cases "v = w") auto
    show "cap e = ARENA_CHUNK_MIN" if "e \<in> set (pool (arena_of v s'))" for e
      using pc [of v] s' s''(1) that by (cases "v = w") auto
    fix e assume e: "e \<in> set (chunks v s')"
    show "chunk_ok own H v e"
    proof (cases "v = w")
      case True
      then have "e = ?c \<or> e \<in> set rest" using e setw by auto
      then show ?thesis using True ok [of e] okc fit(1) by (auto simp: chunk_ok_def)
    next
      case False
      then show ?thesis using e out [OF False] s''(1) [OF False] by (simp add: chunks_def)
    qed
  qed
  have old_in: "set (chunks w s) \<subseteq> insert c (set rest)"
  proof -
    have "set (concat (stack ?a)) \<subseteq> insert c (set (concat ((stack ?a)[index := cs])))"
    proof
      fix e assume "e \<in> set (concat (stack ?a))"
      then obtain xs where xs: "xs \<in> set (stack ?a)" "e \<in> set xs" by auto
      then obtain i where "i < length (stack ?a)" "stack ?a ! i = xs" by (auto simp: in_set_conv_nth)
      with xs(2) have i: "i < length (stack ?a)" "e \<in> set (stack ?a ! i)" by simp_all
      show "e \<in> insert c (set (concat ((stack ?a)[index := cs])))"
      proof (cases "i = index")
        case True
        then have "e = c \<or> e \<in> set cs" using i(2) st by auto
        moreover have "cs \<in> set ((stack ?a)[index := cs])" using idx by (rule set_update_memI)
        ultimately show ?thesis by auto
      next
        case False
        then have "stack ?a ! i \<in> set ((stack ?a)[index := cs])" using i(1)
          by (metis length_list_update nth_list_update_neq nth_mem)
        then show ?thesis using i(2) by auto
      qed
    qed
    then show ?thesis by (auto simp: chunks_def rest_def)
  qed
  have Hwf: "owned_wf H" by (rule inv_wf [OF I])
  have bases: "base e \<noteq> base c" if "e \<in> set rest" for e
    using d imageI [OF that, of base] by (auto simp: chunk_addrs_def)
  have Hc: "H (base c) = Some (Tmp, cap c)" "own (base c) = Some w" using okc by (auto simp: chunk_ok_def)
  have ap: "apart b k p n \<and> b \<noteq> p" if b: "B b = Some (v, k)" for b v k
  proof (cases v)
    case (Region u i)
    have r: "in_region s u i b k" "0 < k" using held_okD(3) [OF h] b Region by auto
    from r(1) obtain e where e: "e \<in> set (chunks u s)" "base e \<le> b" "b + k \<le> base e + used e" by (rule in_region_chunk)
    show ?thesis
    proof (cases "u = w \<and> e = c")
      case True
      then show ?thesis using e p fit(2) r(2) by (auto simp: apart_def)
    next
      case False
      have ne: "base e \<noteq> base c \<and> H (base e) = Some (Tmp, cap e) \<and> used e \<le> cap e"
      proof (cases "u = w")
        case True
        with False e(1) old_in have "e \<in> set rest" by auto
        then show ?thesis using bases ok [of e] by (auto simp: chunk_ok_def)
      next
        case neq: False
        then show ?thesis using out [OF neq] e(1) Hc(2) by (fastforce simp: chunk_ok_def)
      qed
      then have "apart (base e) (cap e) (base c) (cap c)"
        using Hwf Hc(1) unfolding owned_wf_def by blast
      then show ?thesis using e p fit r(2) ne by (auto simp: apart_def)
    qed
  next
    case Seam
    with held_okD(1) [OF h] b have hb: "H b = Some (Seam, k)" "own b = None" "0 < k" by auto
    then have "b \<noteq> base c" using Hc(2) by auto
    then have "apart b k (base c) (cap c)" using Hwf Hc(1) hb(1) unfolding owned_wf_def by blast
    then show ?thesis using p fit hb(3) by (auto simp: apart_def)
  next
    case Tmp
    with held_okD(2) [OF h] b have hb: "H b = Some (Tmp, k)" "own b = None" "0 < k" by auto
    then have "b \<noteq> base c" using Hc(2) by auto
    then have "apart b k (base c) (cap c)" using Hwf Hc(1) hb(1) unfolding owned_wf_def by blast
    then show ?thesis using p fit hb(3) by (auto simp: apart_def)
  qed
  have "base c \<noteq> 0 \<and> base c + cap c < 2 ^ 64" using Hwf Hc(1) unfolding owned_wf_def by blast
  moreover have Bp: "B p = None" using ap [of p] by (cases "B p") fastforce+
  ultimately have fresh: "fresh_block B p n" using ap p fit unfolding fresh_block_def by auto
  have reg: "in_region s' u i b k" if r: "in_region s u i b k" for u i b k
  proof -
    obtain e where e: "e \<in> set (stack (arena_of u s) ! i)" "base e \<le> b" "b + k \<le> base e + used e"
      "i < length (stack (arena_of u s))"
      using r unfolding in_region_def by blast
    show ?thesis
    proof (cases "u = w \<and> i = index")
      case True
      then have "e = c \<or> e \<in> set cs" using e(1) st by auto
      then show ?thesis
      proof
        assume "e = c"
        then show ?thesis using True e idx unfolding in_region_def by (intro conjI bexI [of _ ?c]) (auto simp: s')
      next
        assume "e \<in> set cs"
        then show ?thesis using True e idx unfolding in_region_def by (intro conjI bexI [of _ e]) (auto simp: s')
      qed
    next
      case False
      then show ?thesis using e s' s''(1) [of u] unfolding in_region_def by (cases "u = w") auto
    qed
  qed
  have newr: "in_region s' w index p n"
    unfolding in_region_def using idx fit p by (intro conjI bexI [of _ ?c]) (auto simp: s')
  have "held_ok own H (B(p \<mapsto> (Region w index, n))) s'"
    unfolding held_ok_def
  proof (intro conjI allI impI)
    fix b v k assume b: "(B(p \<mapsto> (Region w index, n))) b = Some (v, k)"
    show "0 < k" using b held_inside [of own H B] held_okD(1,2,3) [OF h, where p = b and n = k] fit(2)
      by (cases "b = p"; cases v) auto
    show "case v of Region w i \<Rightarrow> in_region s' w i b k | _ \<Rightarrow> H b = Some (v, k) \<and> own b = None"
    proof (cases "b = p")
      case True
      then show ?thesis using b newr by auto
    next
      case False
      then show ?thesis using b held_okD(1,2,3) [OF h, where p = b and n = k] reg by (cases v) auto
    qed
  next
    fix b q u i k v j l
    assume "(B(p \<mapsto> (Region w index, n))) b = Some (Region u i, k)" "(B(p \<mapsto> (Region w index, n))) q = Some (Region v j, l)" "b \<noteq> q"
    then show "apart b k q l"
      using ap [of b "Region u i" k] ap [of q "Region v j" l] held_okD(4) [OF h]
      by (cases "b = p"; cases "q = p") (auto simp: apart_sym)
  qed
  moreover have "chunk_set s' = (chunk_set s)(w := set (chunk_addrs (c # rest)))"
    using arg_cong [OF perm, of set_mset] s''(1) by (auto simp: chunk_set_def chunks_def fun_eq_iff)
  ultimately show ?thesis using fresh A s'' by simp
qed

text \<open>The chunk an allocation gets when the newest one is full: from the pool, or two new blocks.\<close>

lemma chunk_new_ok:
  assumes I: "inv H (hp s)" and a: "arenas_ok own H s" and h: "held_ok own H B s"
    and ah: "all_held own H B (chunk_set s)" and need: "need < 2 ^ 64" and al: "arena_chunk_new w need s = (r, s')"
  shows "rt_kept B s s' \<and> rt.more s' = rt.more s \<and> stack (arena_of w s') = stack (arena_of w s)
    \<and> (case r of None \<Rightarrow> rt_inv inv B s'
       | Some c \<Rightarrow> used c = 0 \<and> need \<le> cap c \<and> (\<exists>own' H'. inv H' (hp s') \<and> loose_chunk own' H' B w c s'
           \<and> all_held own' H' B ((chunk_set s')(w := set (chunk_addrs (c # chunks w s'))))))"
proof (cases "need \<le> ARENA_CHUNK_MIN \<and> pool (arena_of w s) \<noteq> []")
  case True
  let ?a = "arena_of w s"
  obtain c ps where ps: "pool ?a = c # ps" using True by (cases "pool ?a") auto
  have r: "r = Some (c\<lparr>used := 0\<rparr>)" and s': "s' = put_arena w (?a\<lparr>pool := ps, pool_count := pool_count ?a - 1\<rparr>) s"
    using al True ps by (auto simp: arena_chunk_new_def Let_def)
  have "rt_kept B s s'" by (simp add: rt_kept_def s')
  moreover have "used (c\<lparr>used := 0\<rparr>) = 0" "need \<le> cap (c\<lparr>used := 0\<rparr>)"
    using arenas_okD(4) [OF a, of c w] ps True by auto
  moreover have "held_ok own H B s'"
  proof -
    have "in_region s' v i p n = in_region s v i p n" for v i p n by (simp add: in_region_def s')
    then show ?thesis using h unfolding held_ok_def by (simp cong: origin.case_cong)
  qed
  moreover have "distinct (chunk_addrs (chunks v s')) \<and> (\<forall>d \<in> set (chunks v s'). chunk_ok own H v d)" if "v \<noteq> w" for v
    using arenas_okD(1,2) [OF a, where w = v] that by (auto simp: s' chunks_def)
  moreover have "pool_count (arena_of v s') = length (pool (arena_of v s'))
      \<and> (\<forall>d \<in> set (pool (arena_of v s')). cap d = ARENA_CHUNK_MIN)" for v
    using arenas_okD(3,4) [OF a, where w = v] ps by (auto simp: s')
  moreover have "distinct (chunk_addrs (c\<lparr>used := 0\<rparr> # chunks w s'))"
    using arenas_okD(1) [OF a, of w] ps by (auto simp: s' chunks_def chunk_addrs_def)
  moreover have "chunk_ok own H w d" if d: "d \<in> set (c\<lparr>used := 0\<rparr> # chunks w s')" for d
  proof (cases "d = c\<lparr>used := 0\<rparr>")
    case True
    have "chunk_ok own H w c" using arenas_okD(2) [OF a, of c w] ps by (simp add: chunks_def)
    then show ?thesis using True by (simp add: chunk_ok_def)
  next
    case False
    then have "d \<in> set (chunks w s)" using d ps by (auto simp: s' chunks_def)
    then show ?thesis using arenas_okD(2) [OF a] by blast
  qed
  ultimately have "loose_chunk own H B w (c\<lparr>used := 0\<rparr>) s'" unfolding loose_chunk_def by blast
  moreover have "all_held own H B ((chunk_set s')(w := set (chunk_addrs (c\<lparr>used := 0\<rparr> # chunks w s'))))"
  proof -
    have "(chunk_set s')(w := set (chunk_addrs (c\<lparr>used := 0\<rparr> # chunks w s'))) = chunk_set s"
      using ps by (auto simp: s' fun_eq_iff chunk_set_def chunks_def chunk_addrs_def)
    then show ?thesis using ah by simp
  qed
  moreover have "hp s' = hp s" "rt.more s' = rt.more s" "stack (arena_of w s') = stack ?a" by (simp_all add: s')
  ultimately show ?thesis
    using I r \<open>rt_kept B s s'\<close> \<open>need \<le> cap (c\<lparr>used := 0\<rparr>)\<close> by auto
next
  case False
  define cc where "cc = (if need > ARENA_CHUNK_MIN then need else ARENA_CHUNK_MIN)"
  have nohdr: "hdr e \<noteq> x \<and> base e \<noteq> x" if "H x = None" "e \<in> set (chunks v s)" for x e v
    using arenas_okD(2) [OF a that(2)] that(1) by (auto simp: chunk_ok_def)
  obtain nd h1 where m1: "malloc sizeof_ArenaChunk (hp s) = (nd, h1)" by (metis surj_pair)
  note L1 = malloc_law [OF I m1]
  have stable: "arenas_ok own' H' (s\<lparr>hp := g\<rparr>) \<and> held_ok own' H' B (s\<lparr>hp := g\<rparr>)"
    if "\<And>x. H x \<noteq> None \<Longrightarrow> H' x = H x \<and> own' x = own x" for own' H' g
  proof
    show "arenas_ok own' H' (s\<lparr>hp := g\<rparr>)"
    proof (rule arenas_ok_chunks [OF a])
      fix v e assume "e \<in> set (chunks v s)"
      then have "H (hdr e) \<noteq> None" "H (base e) \<noteq> None" using arenas_okD(2) [OF a] by (auto simp: chunk_ok_def)
      then show "H' (hdr e) = H (hdr e) \<and> H' (base e) = H (base e) \<and> own' (hdr e) = own (hdr e) \<and> own' (base e) = own (base e)"
        using that by blast
    qed (auto simp: chunks_def)
    have "H' p = Some (v, n) \<and> own' p = None" if "H p = Some (v, n) \<and> own p = None" for p v n
      using that \<open>\<And>x. H x \<noteq> None \<Longrightarrow> H' x = H x \<and> own' x = own x\<close> [of p] by auto
    then show "held_ok own' H' B (s\<lparr>hp := g\<rparr>)"
      using h unfolding held_ok_hp held_ok_def by (auto split: origin.splits)
  qed
  have kp: "rt_kept B s (s\<lparr>hp := g\<rparr>)" if "kept H (hp s) g" for g
    using held_kept [OF h a, of "s\<lparr>hp := g\<rparr>"] that by simp
  show ?thesis
  proof (cases "nd = 0")
    case True
    then have "r = None" "s' = s\<lparr>hp := h1\<rparr>" using al False m1 by (auto simp: arena_chunk_new_def Let_def cc_def)
    moreover have "arenas_ok own H (s\<lparr>hp := h1\<rparr>) \<and> held_ok own H B (s\<lparr>hp := h1\<rparr>)" by (rule stable) simp
    ultimately show ?thesis using L1 True kp [of h1] ah unfolding rt_inv_def by auto
  next
    case nd: False
    let ?H1 = "H(nd \<mapsto> (Tmp, sizeof_ArenaChunk))"
    have f1: "H nd = None" "inv ?H1 h1" "kept H (hp s) h1" using L1 nd by (auto simp: fresh_block_def)
    obtain b h2 where m2: "malloc cc h1 = (b, h2)" by (metis surj_pair)
    note L2 = malloc_law [OF f1(2) m2]
    have k2: "kept H (hp s) h2"
      using L2 f1(1,3) unfolding kept_def by (metis fun_upd_other option.distinct(1))
    show ?thesis
    proof (cases "b = 0")
      case True
      then have r: "r = None" "s' = s\<lparr>hp := tmp_free nd h2\<rparr>"
        using al False m1 m2 nd by (auto simp: arena_chunk_new_def Let_def cc_def split: prod.splits if_splits)
      have "inv (?H1(nd := None)) (tmp_free nd h2)" "kept (?H1(nd := None)) h2 (tmp_free nd h2)"
        using tmp_free_law [of ?H1 h2 nd sizeof_ArenaChunk] L2 True by auto
      moreover have "?H1(nd := None) = H" using f1(1) by auto
      ultimately have iv: "inv H (tmp_free nd h2)" "kept H (hp s) (tmp_free nd h2)"
        using k2 kept_trans by auto
      moreover have "arenas_ok own H s' \<and> held_ok own H B s'" unfolding r(2) by (rule stable) simp
      ultimately show ?thesis using r kp [of "tmp_free nd h2"] ah unfolding rt_inv_def by auto
    next
      case b: False
      let ?H2 = "?H1(b \<mapsto> (Tmp, cc))" and ?own = "own(nd := Some w, b := Some w)"
      let ?ch = "\<lparr>hdr = nd, used = 0, cap = cc, base = b\<rparr>"
      have r: "r = Some ?ch" "s' = s\<lparr>hp := h2\<rparr>"
        using al False m1 m2 nd b by (auto simp: arena_chunk_new_def Let_def cc_def split: prod.splits)
      have f2: "?H1 b = None" "inv ?H2 h2" using L2 b by (auto simp: fresh_block_def)
      then have Hb: "H b = None" "b \<noteq> nd" by (auto split: if_splits)
      have st: "arenas_ok ?own ?H2 s' \<and> held_ok ?own ?H2 B s'"
        unfolding r(2) by (rule stable) (use f1(1) Hb in auto)
      have "chunk_ok ?own ?H2 w ?ch" using Hb by (simp add: chunk_ok_def)
      moreover have "distinct (chunk_addrs (?ch # chunks w s'))"
      proof -
        have cs: "chunks w s' = chunks w s" by (simp add: r chunks_def)
        have "nd \<notin> set (chunk_addrs (chunks w s))" "b \<notin> set (chunk_addrs (chunks w s))"
          using nohdr [OF f1(1)] nohdr [OF Hb(1)] unfolding chunk_addrs_def by fastforce+
        then show ?thesis using arenas_okD(1) [OF a, of w] Hb(2) cs by (auto simp: chunk_addrs_def)
      qed
      ultimately have "loose_chunk ?own ?H2 B w ?ch s'"
        using st arenas_okD [OF conjunct1 [OF st]] unfolding loose_chunk_def by simp
      moreover have "all_held ?own ?H2 B ((chunk_set s')(w := set (chunk_addrs (?ch # chunks w s'))))"
      proof -
        have cs: "chunk_set s' = chunk_set s" "chunks w s' = chunks w s" by (simp_all add: r chunks_def)
        show ?thesis
        proof (rule all_heldI)
          fix q x assume q: "?H2 q = Some x" "?own q = None"
          then have "H q = Some x" "own q = None" by (auto split: if_splits)
          then show "B q = Some x" by (rule all_heldD(1) [OF ah])
        next
          fix q x v assume q: "?H2 q = Some x" "?own q = Some v"
          then have "v = w \<and> (q = nd \<or> q = b) \<or> H q = Some x \<and> own q = Some v" by (auto split: if_splits)
          then show "q \<in> ((chunk_set s')(w := set (chunk_addrs (?ch # chunks w s')))) v"
            using all_heldD(2) [OF ah, of q x v] by (auto simp: cs chunk_set_def chunk_addrs_def)
        qed
      qed
      ultimately have "\<exists>own' H'. inv H' (hp s') \<and> loose_chunk own' H' B w ?ch s'
          \<and> all_held own' H' B ((chunk_set s')(w := set (chunk_addrs (?ch # chunks w s'))))"
        using f2(2) by (intro exI [of _ ?own] exI [of _ ?H2]) (simp add: r)
      moreover have "need \<le> cap ?ch" by (simp add: cc_def)
      ultimately show ?thesis
        using kp [OF k2] by (simp add: r)
    qed
  qed
qed

lemma arena_need_bound: "0 < n \<Longrightarrow> n < 2 ^ 63 \<Longrightarrow> n \<le> arena_need n \<and> arena_need n < 2 ^ 64"
proof -
  assume n: "0 < n" "n < 2 ^ 63"
  then have "arena_need n = (n + 15) div 16 * 16" by (simp add: arena_need_def)
  moreover have "n \<le> (n + 15) div 16 * 16" "(n + 15) div 16 * 16 \<le> n + 15" by linarith+
  ultimately show ?thesis using n by simp
qed

lemma alloc_slot_ok:
  assumes r: "rt_inv inv B s" and n: "0 < n" "n < 2 ^ 63" and idx: "index < length (stack (arena_of w s))"
    and al: "arena_alloc_slot S w index n s = (p, s')"
  shows "rt_kept B s s' \<and> rt.more s' = rt.more s
    \<and> (if p = 0 then rt_inv inv B s' else fresh_block B p n \<and> (\<exists>v. rt_inv inv (B(p \<mapsto> (v, n))) s'))"
proof -
  obtain own H where I: "inv H (hp s)" and a: "arenas_ok own H s" and h: "held_ok own H B s"
    and ah: "all_held own H B (chunk_set s)"
    using r by (auto simp: rt_inv_def)
  let ?need = "arena_need n" and ?cs = "stack (arena_of w s) ! index"
  have need: "n \<le> ?need" "?need < 2 ^ 64" using arena_need_bound [OF n] by auto
  show ?thesis
  proof (cases "?cs = [] \<or> used (hd ?cs) + ?need > cap (hd ?cs)")
    case False
    then obtain c cs where cs: "?cs = c # cs" by (cases ?cs) auto
    have al': "arena_bump w index c cs ?need s = (p, s')"
      using al False cs by (simp add: arena_alloc_slot_def Let_def)
    let ?rest = "concat ((stack (arena_of w s))[index := cs]) @ pool (arena_of w s)"
    have ms: "mset (chunks w s) = add_mset c (mset ?rest)"
    proof -
      have "stack (arena_of w s) = take index (stack (arena_of w s)) @ (c # cs) # drop (Suc index) (stack (arena_of w s))"
        using id_take_nth_drop [OF idx] cs by simp
      then have "mset (concat (stack (arena_of w s)))
          = mset (concat (take index (stack (arena_of w s)))) + mset (c # cs) + mset (concat (drop (Suc index) (stack (arena_of w s))))"
        by (metis concat.simps(2) concat_append mset_append add.assoc)
      then show ?thesis using idx by (simp add: chunks_def upd_conv_take_nth_drop)
    qed
    have perm: "mset (chunk_addrs (chunks w s)) = mset (chunk_addrs (c # ?rest))"
    proof -
      have "mset (map f (chunks w s)) = add_mset (f c) (mset (map f ?rest))" for f :: "ArenaChunk \<Rightarrow> addr"
        using arg_cong [OF ms, of "image_mset f"] by simp
      then show ?thesis by (simp add: chunk_addrs_def)
    qed
    have sets: "set (c # ?rest) = set (chunks w s)" using arg_cong [OF ms, of set_mset] by simp
    have R: "fresh_block B p n \<and> arenas_ok own H s' \<and> held_ok own H (B(p \<mapsto> (Region w index, n))) s'
        \<and> hp s' = hp s \<and> rt.more s' = rt.more s \<and> chunk_set s' = (chunk_set s)(w := set (chunk_addrs (c # ?rest)))"
    proof (rule bump_ok [OF I h idx _ _ _ _ _ _ n(1) need(1) al'])
      show "distinct (chunk_addrs (c # ?rest))"
        using arenas_okD(1) [OF a, of w] mset_eq_imp_distinct_iff [OF perm] by simp
      show "chunk_ok own H w d" if "d \<in> set (c # ?rest)" for d
        using arenas_okD(2) [OF a, of d w] that [unfolded sets] by blast
      show "used c + ?need \<le> cap c" using False cs by simp
    qed (use arenas_okD [OF a] cs in auto)
    have "set (chunk_addrs (c # ?rest)) = chunk_set s w"
      unfolding chunk_set_def by (metis perm set_mset_mset)
    then have "chunk_set s' = chunk_set s" using R by (simp add: fun_eq_iff)
    then have "all_held own H (B(p \<mapsto> (Region w index, n))) (chunk_set s')" using all_held_fresh [OF ah, of p n] R by simp
    moreover have "p \<noteq> 0" using R by (simp add: fresh_block_def)
    ultimately show ?thesis using I R by (auto simp: rt_inv_def rt_kept_def)
  next
    case True
    obtain r0 s1 where cn: "arena_chunk_new w ?need s = (r0, s1)" by (metis surj_pair)
    note C = chunk_new_ok [OF I a h ah need(2) cn]
    show ?thesis
    proof (cases r0)
      case None
      then have al': "rt_base_alloc S n s1 = (p, s')" using al True cn by (simp add: arena_alloc_slot_def Let_def)
      have "rt_inv inv B s1" using C None by simp
      from base_alloc_ok [OF this n(1) _ al'] n(2) C show ?thesis
        by (auto simp: rt_kept_def intro: kept_trans)
    next
      case (Some c)
      then have al': "arena_bump w index c ?cs ?need s1 = (p, s')"
        using al True cn by (simp add: arena_alloc_slot_def Let_def)
      obtain own' H' where I': "inv H' (hp s1)" and lc: "loose_chunk own' H' B w c s1"
        and ah': "all_held own' H' B ((chunk_set s1)(w := set (chunk_addrs (c # chunks w s1))))"
        using C Some by auto
      have st: "stack (arena_of w s1) = stack (arena_of w s)" using C by simp
      have same: "concat ((stack (arena_of w s1))[index := ?cs]) @ pool (arena_of w s1) = chunks w s1"
        by (simp add: st chunks_def)
      have R: "fresh_block B p n \<and> arenas_ok own' H' s' \<and> held_ok own' H' (B(p \<mapsto> (Region w index, n))) s'
          \<and> hp s' = hp s1 \<and> rt.more s' = rt.more s1
          \<and> chunk_set s' = (chunk_set s1)(w := set (chunk_addrs (c # concat ((stack (arena_of w s1))[index := ?cs]) @ pool (arena_of w s1))))"
      proof (rule bump_ok [OF I' _ _ _ _ _ _ _ _ n(1) need(1) al'])
        show "distinct (chunk_addrs (c # concat ((stack (arena_of w s1))[index := ?cs]) @ pool (arena_of w s1)))"
          using lc unfolding same loose_chunk_def by blast
        show "chunk_ok own' H' w d" if "d \<in> set (c # concat ((stack (arena_of w s1))[index := ?cs]) @ pool (arena_of w s1))" for d
          using lc that unfolding same loose_chunk_def by blast
        show "used c + ?need \<le> cap c" using C Some by simp
        show "set (stack (arena_of w s1) ! index) \<subseteq> insert c (set ?cs)" by (auto simp: st)
      qed (use lc idx st in \<open>auto simp: loose_chunk_def\<close>)
      have "all_held own' H' (B(p \<mapsto> (Region w index, n))) (chunk_set s')"
        using all_held_fresh [OF ah', of p n] R unfolding same by simp
      moreover have "p \<noteq> 0" using R by (simp add: fresh_block_def)
      ultimately show ?thesis using I' C R unfolding rt_inv_def rt_kept_def by auto
    qed
  qed
qed

lemma rt_alloc_ok:
  assumes r: "rt_inv inv B s" and n: "0 < n" "n < 2 ^ 63" and al: "rt_alloc S n s = (p, s')"
  shows "rt_kept B s s' \<and> rt.more s' = rt.more s
    \<and> (if p = 0 then rt_inv inv B s' else fresh_block B p n \<and> (\<exists>v. rt_inv inv (B(p \<mapsto> (v, n))) s'))"
proof (cases "rt_arena_hint_state s > 0 \<and> stack (arena_of (state_key s) s) \<noteq> []")
  case True
  then show ?thesis
    using al alloc_slot_ok [OF r n, of "length (stack (arena_of (state_key s) s)) - 1" "state_key s" p s']
    by (simp add: rt_alloc_def arena_alloc_def Let_def)
next
  case False
  then have "rt_base_alloc S n s = (p, s')" using al by (auto simp: rt_alloc_def arena_alloc_def Let_def split: if_splits)
  from base_alloc_ok [OF r n(1) _ this] n(2) show ?thesis by auto
qed

text \<open>A heap block of the program leaves, or is replaced.\<close>

lemma held_heap:
  "held_ok own H B s \<Longrightarrow> B p = Some (v, k) \<Longrightarrow> v = Seam \<or> v = Tmp \<Longrightarrow> 0 < k \<and> H p = Some (v, k) \<and> own p = None"
  using held_okD(1,2) [of own H B s p k] by auto

lemma held_swap:
  assumes a: "arenas_ok own H s" and h: "held_ok own H B s" and p: "B p = Some (v, k)" and v: "v = Seam \<or> v = Tmp"
  shows "arenas_ok own (H(p := None)) s" "held_ok own (H(p := None)) (B(p := None)) s"
proof -
  have op: "own p = None" using held_heap [OF h p v] by auto
  show "arenas_ok own (H(p := None)) s"
  proof (rule arenas_ok_chunks [OF a])
    fix w c assume "c \<in> set (chunks w s)"
    then have "hdr c \<noteq> p" "base c \<noteq> p" using arenas_okD(2) [OF a] op by (fastforce simp: chunk_ok_def)+
    then show "(H(p := None)) (hdr c) = H (hdr c) \<and> (H(p := None)) (base c) = H (base c) \<and> own (hdr c) = own (hdr c) \<and> own (base c) = own (base c)"
      by simp
  qed simp_all
  show "held_ok own (H(p := None)) (B(p := None)) s"
    using h unfolding held_ok_def by (auto split: origin.splits if_splits)
qed

lemma held_add:
  assumes a: "arenas_ok own H s" and h: "held_ok own H B s" and q: "H q = None" "0 < n" and v: "v = Seam \<or> v = Tmp"
  shows "arenas_ok (own(q := None)) (H(q \<mapsto> (v, n))) s" "held_ok (own(q := None)) (H(q \<mapsto> (v, n))) (B(q \<mapsto> (v, n))) s"
proof -
  show "arenas_ok (own(q := None)) (H(q \<mapsto> (v, n))) s"
  proof (rule arenas_ok_chunks [OF a])
    fix w c assume "c \<in> set (chunks w s)"
    then have "hdr c \<noteq> q" "base c \<noteq> q" using arenas_okD(2) [OF a] q by (fastforce simp: chunk_ok_def)+
    then show "(H(q \<mapsto> (v, n))) (hdr c) = H (hdr c) \<and> (H(q \<mapsto> (v, n))) (base c) = H (base c)
        \<and> (own(q := None)) (hdr c) = own (hdr c) \<and> (own(q := None)) (base c) = own (base c)"
      by simp
  qed simp_all
  show "held_ok (own(q := None)) (H(q \<mapsto> (v, n))) (B(q \<mapsto> (v, n))) s"
    using h q v unfolding held_ok_def by (auto split: origin.splits if_splits)
qed

lemma arenas_ok_hp [simp]: "arenas_ok own H (s\<lparr>hp := g\<rparr>) = arenas_ok own H s"
  by (simp add: arenas_ok_def chunks_def)

lemma drop_ok:
  assumes r: "rt_inv inv B s" and p: "B p = Some (v, k)" and v: "v = Seam \<or> v = Tmp" and s': "s' = s\<lparr>hp := h'\<rparr>"
    and law: "\<And>H. inv H (hp s) \<Longrightarrow> H p = Some (v, k) \<Longrightarrow> inv (H(p := None)) h' \<and> kept (H(p := None)) (hp s) h'"
  shows "rt_inv inv (B(p := None)) s' \<and> rt_kept (B(p := None)) s s'"
proof -
  obtain own H where I: "inv H (hp s)" and a: "arenas_ok own H s" and h: "held_ok own H B s"
    and ah: "all_held own H B (chunk_set s)"
    using r by (auto simp: rt_inv_def)
  have Hp: "H p = Some (v, k)" using held_heap [OF h p v] by auto
  note F = law [OF I Hp] and hs = held_swap [OF a h p v]
  have "rt_inv inv (B(p := None)) s'"
    unfolding rt_inv_def s' using all_held_drop [OF ah, of p]
    by (intro exI [of _ own] exI [of _ "H(p := None)"]) (use F hs in simp)
  moreover have "rt_kept (B(p := None)) s s'" by (rule held_kept [OF hs(2,1)]) (use F in \<open>simp add: s'\<close>)
  ultimately show ?thesis by simp
qed

lemma rt_free_ok:
  assumes r: "rt_inv inv B s" and p: "B p = Some (Seam, k)"
  shows "rt_inv inv (B(p := None)) (rt_free S p s) \<and> rt_kept (B(p := None)) s (rt_free S p s)"
  by (rule drop_ok [OF r p]) (use free_law in \<open>auto simp: rt_free_def\<close>)

lemma rt_tmp_free_ok:
  assumes r: "rt_inv inv B s" and p: "B p = Some (Tmp, k)"
  shows "rt_inv inv (B(p := None)) (rt_tmp_free p s) \<and> rt_kept (B(p := None)) s (rt_tmp_free p s)"
  by (rule drop_ok [OF r p]) (use tmp_free_law in \<open>auto simp: rt_tmp_free_def\<close>)

lemma rt_write_ok:
  assumes r: "rt_inv inv B s" and p: "B p = Some (w, k)" "p \<le> q" "q + length bs \<le> p + k"
  shows "rt_inv inv B (rt_poke q bs s)"
proof -
  obtain own H where I: "inv H (hp s)" and a: "arenas_ok own H s" and h: "held_ok own H B s"
    and ah: "all_held own H B (chunk_set s)"
    using r by (auto simp: rt_inv_def)
  obtain x v j where x: "H x = Some (v, j)" "x \<le> p" "p + k \<le> x + j" using held_inside [OF h a p(1)] by blast
  have "inv H ((hp s)\<lparr>mem := poke (mem (hp s)) q bs\<rparr>)"
    by (rule write_law [OF I x(1)]) (use p x in auto)
  then show ?thesis
    unfolding rt_inv_def rt_poke_def using a h ah by (intro exI [of _ own] exI [of _ H]) simp
qed

lemma move_ok:
  assumes r: "rt_inv inv B s" and p: "B p = Some (v, k)" and v: "v = Seam \<or> v = Tmp" and n: "0 < n" and s': "s' = s\<lparr>hp := h'\<rparr>"
    and law: "\<And>H. inv H (hp s) \<Longrightarrow> H p = Some (v, k) \<Longrightarrow> 0 < k \<Longrightarrow> kept (H(p := None)) (hp s) h'
      \<and> (if q = 0 then inv H h' \<and> kept H (hp s) h'
         else fresh_block (H(p := None)) q n \<and> inv (H(p := None, q \<mapsto> (v, n))) h'
           \<and> peek (mem h') q (min k n) = peek (mem (hp s)) p (min k n))"
  shows "rt_kept (B(p := None)) s s' \<and> rt.more s' = rt.more s
      \<and> (if q = 0 then rt_inv inv B s' \<and> rt_kept B s s'
         else fresh_block (B(p := None)) q n \<and> rt_inv inv (B(p := None, q \<mapsto> (v, n))) s'
           \<and> peek (mem (hp s')) q (min k n) = peek (mem (hp s)) p (min k n))"
proof -
  obtain own H where I: "inv H (hp s)" and a: "arenas_ok own H s" and h: "held_ok own H B s"
    and ah: "all_held own H B (chunk_set s)"
    using r by (auto simp: rt_inv_def)
  have Hp: "H p = Some (v, k)" "0 < k" using held_heap [OF h p v] by auto
  note L = law [OF I Hp] and hs = held_swap [OF a h p v]
  have k: "rt_kept (B(p := None)) s s'" by (rule held_kept [OF hs(2,1)]) (use L s' in simp)
  show ?thesis
  proof (cases "q = 0")
    case True
    have "rt_inv inv B s'"
      unfolding rt_inv_def s' by (intro exI [of _ own] exI [of _ H]) (use a h ah L True in simp)
    moreover have "rt_kept B s s'" by (rule held_kept [OF h a]) (use L True s' in simp)
    ultimately show ?thesis using True k s' by simp
  next
    case False
    then have f: "fresh_block (H(p := None)) q n" "inv (H(p := None, q \<mapsto> (v, n))) h'"
      "peek (mem h') q (min k n) = peek (mem (hp s)) p (min k n)" using L by auto
    have fb: "fresh_block (B(p := None)) q n" by (rule held_fresh [OF hs(2,1) f(1) n])
    have Hq: "(H(p := None)) q = None" using f(1) by (simp add: fresh_block_def)
    note ha = held_add [OF hs Hq n v]
    have "rt_inv inv (B(p := None, q \<mapsto> (v, n))) s'"
      unfolding rt_inv_def s' using all_held_add [OF all_held_drop [OF ah], of q p]
      by (intro exI [of _ "own(q := None)"] exI [of _ "H(p := None, q \<mapsto> (v, n))"]) (use ha f(2) in \<open>simp del: fun_upd_apply\<close>)
    then show ?thesis using False fb k f(3) s' by simp
  qed
qed

lemma realloc_ok:
  assumes r: "rt_inv inv B s" and p: "B p = Some (Seam, k)" and n: "0 < n" "n < 2 ^ 64"
    and al: "rt_base_realloc S p n s = (q, s')"
  shows "rt_kept (B(p := None)) s s' \<and> rt.more s' = rt.more s
      \<and> (if q = 0 then rt_inv inv B s' \<and> rt_kept B s s'
         else fresh_block (B(p := None)) q n \<and> rt_inv inv (B(p := None, q \<mapsto> (Seam, n))) s'
           \<and> peek (mem (hp s')) q (min k n) = peek (mem (hp s)) p (min k n))"
proof -
  obtain h' where sr: "seam_realloc S p n (hp s) = (q, h')" and s': "s' = s\<lparr>hp := h'\<rparr>"
    using al by (auto simp: rt_base_realloc_def split: prod.splits)
  show ?thesis by (rule move_ok [OF r p _ n(1) s']) (use realloc_law [OF _ _ _ n(2) sr] in auto)
qed

lemma tmp_realloc_ok:
  assumes r: "rt_inv inv B s" and p: "B p = Some (Tmp, k)" and n: "0 < n" and al: "rt_tmp_realloc p n s = (q, s')"
  shows "rt_kept (B(p := None)) s s' \<and> rt.more s' = rt.more s
      \<and> (if q = 0 then rt_inv inv B s' \<and> rt_kept B s s'
         else fresh_block (B(p := None)) q n \<and> rt_inv inv (B(p := None, q \<mapsto> (Tmp, n))) s'
           \<and> peek (mem (hp s')) q (min k n) = peek (mem (hp s)) p (min k n))"
proof -
  obtain h' where sr: "tmp_realloc p n (hp s) = (q, h')" and s': "s' = s\<lparr>hp := h'\<rparr>"
    using al by (auto simp: rt_tmp_realloc_def split: prod.splits)
  show ?thesis by (rule move_ok [OF r p _ n(1) s']) (use tmp_realloc_law [OF _ _ sr] in auto)
qed

lemma arena_at_ok:
  assumes r: "rt_inv inv B s" and n: "0 < n" "n < 2 ^ 63" and al: "arena_alloc_at S i n s = (p, s')"
  shows "rt_kept B s s' \<and> rt.more s' = rt.more s
    \<and> (if p = 0 then rt_inv inv B s' else fresh_block B p n \<and> (\<exists>v. rt_inv inv (B(p \<mapsto> (v, n))) s'))"
proof (cases "i \<le> 0 \<or> i > int (length (stack (arena_of (state_key s) s)))")
  case True
  then have "rt_base_alloc S n s = (p, s')" using al by (auto simp: arena_alloc_at_def Let_def)
  from base_alloc_ok [OF r n(1) _ this] n(2) show ?thesis by auto
next
  case False
  then have "nat i - 1 < length (stack (arena_of (state_key s) s))" by linarith
  with False show ?thesis
    using al alloc_slot_ok [OF r n, of "nat i - 1" "state_key s" p s'] by (simp add: arena_alloc_at_def Let_def)
qed

lemma rt_inv_wf: "rt_inv inv B s \<Longrightarrow> owned_wf B"
  using held_wf by (auto simp: rt_inv_def)

lemma chunk_addrs_apart:
  assumes "distinct (chunk_addrs (c # cs))" "d \<in> set cs"
  shows "hdr d \<noteq> hdr c" "hdr d \<noteq> base c" "base d \<noteq> hdr c" "base d \<noteq> base c"
proof -
  have "hdr d \<in> hdr ` set cs" "base d \<in> base ` set cs" using assms(2) by (rule imageI)+
  then show "hdr d \<noteq> hdr c" "hdr d \<noteq> base c" "base d \<noteq> hdr c" "base d \<noteq> base c"
    using assms(1) by (simp_all add: chunk_addrs_def) metis+
qed

text \<open>Closing a region: its chunks go to the pool or back to the C library.\<close>

lemma pop_chunks_ok:
  "inv H h \<Longrightarrow> distinct (chunk_addrs (cs @ concat (stack a) @ pool a)) \<Longrightarrow>
   (\<forall>c \<in> set (cs @ concat (stack a) @ pool a). chunk_ok own H w c) \<Longrightarrow>
   pool_count a = length (pool a) \<Longrightarrow> (\<forall>c \<in> set (pool a). cap c = ARENA_CHUNK_MIN) \<Longrightarrow>
   arena_pop_chunks cs a h = (a', h') \<Longrightarrow>
   (\<forall>x. own x = Some w \<longrightarrow> H x \<noteq> None \<longrightarrow> x \<in> set (chunk_addrs (cs @ concat (stack a) @ pool a))) \<Longrightarrow>
   \<exists>H'. inv H' h' \<and> kept H' h h' \<and> (\<forall>x. own x \<noteq> Some w \<longrightarrow> H' x = H x) \<and> (\<forall>x. H' x = None \<or> H' x = H x)
     \<and> distinct (chunk_addrs (concat (stack a') @ pool a')) \<and> (\<forall>c \<in> set (concat (stack a') @ pool a'). chunk_ok own H' w c)
     \<and> pool_count a' = length (pool a') \<and> (\<forall>c \<in> set (pool a'). cap c = ARENA_CHUNK_MIN) \<and> stack a' = stack a
     \<and> (\<forall>x. own x = Some w \<longrightarrow> H' x \<noteq> None \<longrightarrow> x \<in> set (chunk_addrs (concat (stack a') @ pool a')))"
proof (induction cs arbitrary: H h a)
  case Nil
  then show ?case by (intro exI [of _ H]) auto
next
  case (Cons c cs)
  show ?case
  proof (cases "cap c = ARENA_CHUNK_MIN \<and> pool_count a < ARENA_POOL_MAX")
    case True
    let ?a = "a\<lparr>pool := c # pool a, pool_count := pool_count a + 1\<rparr>"
    have "arena_pop_chunks cs ?a h = (a', h')" using Cons.prems(6) True by simp
    moreover have "distinct (chunk_addrs (cs @ concat (stack ?a) @ pool ?a))"
      using Cons.prems(2) by (auto simp: chunk_addrs_def)
    moreover have "\<forall>c \<in> set (cs @ concat (stack ?a) @ pool ?a). chunk_ok own H w c"
      using Cons.prems(3) by auto
    moreover have "pool_count ?a = length (pool ?a)" "\<forall>c \<in> set (pool ?a). cap c = ARENA_CHUNK_MIN"
      using Cons.prems(4,5) True by auto
    moreover have "stack ?a = stack a" by simp
    moreover have "\<forall>x. own x = Some w \<longrightarrow> H x \<noteq> None \<longrightarrow> x \<in> set (chunk_addrs (cs @ concat (stack ?a) @ pool ?a))"
      using Cons.prems(7) by (auto simp: chunk_addrs_def)
    ultimately show ?thesis using Cons.IH [OF Cons.prems(1), of ?a] by simp
  next
    case False
    have okc: "H (hdr c) = Some (Tmp, sizeof_ArenaChunk)" "H (base c) = Some (Tmp, cap c)"
      "own (hdr c) = Some w" "own (base c) = Some w" "hdr c \<noteq> base c"
      using Cons.prems(2,3) by (auto simp: chunk_ok_def chunk_addrs_def)
    let ?H1 = "H(base c := None)" and ?h1 = "tmp_free (base c) h"
    let ?H2 = "?H1(hdr c := None)" and ?h2 = "tmp_free (hdr c) (tmp_free (base c) h)"
    have f1: "inv ?H1 ?h1" "kept ?H1 h ?h1" using tmp_free_law [OF Cons.prems(1) okc(2)] by auto
    have f2: "inv ?H2 ?h2" "kept ?H2 ?h1 ?h2"
      using tmp_free_law [OF f1(1), of "hdr c" sizeof_ArenaChunk] okc by auto
    have ok': "chunk_ok own ?H2 w d" if d: "d \<in> set (cs @ concat (stack a) @ pool a)" for d
    proof -
      have "distinct (chunk_addrs (c # (cs @ concat (stack a) @ pool a)))" using Cons.prems(2) by simp
      note n = chunk_addrs_apart [OF this d]
      have "chunk_ok own H w d" using Cons.prems(3) d by auto
      then show ?thesis using n by (simp add: chunk_ok_def)
    qed
    have "arena_pop_chunks cs a ?h2 = (a', h')" using Cons.prems(6) False by auto
    moreover have "distinct (chunk_addrs (cs @ concat (stack a) @ pool a))"
      using Cons.prems(2) by (auto simp: chunk_addrs_def)
    moreover have "\<forall>x. own x = Some w \<longrightarrow> ?H2 x \<noteq> None \<longrightarrow> x \<in> set (chunk_addrs (cs @ concat (stack a) @ pool a))"
    proof (intro allI impI)
      fix x assume "own x = Some w" "?H2 x \<noteq> None"
      then have "x \<in> set (chunk_addrs ((c # cs) @ concat (stack a) @ pool a))" "x \<noteq> hdr c" "x \<noteq> base c"
        using Cons.prems(7) by (auto split: if_splits)
      then show "x \<in> set (chunk_addrs (cs @ concat (stack a) @ pool a))" by (auto simp: chunk_addrs_def)
    qed
    ultimately have "\<exists>H'. inv H' h' \<and> kept H' ?h2 h' \<and> (\<forall>x. own x \<noteq> Some w \<longrightarrow> H' x = ?H2 x) \<and> (\<forall>x. H' x = None \<or> H' x = ?H2 x)
     \<and> distinct (chunk_addrs (concat (stack a') @ pool a')) \<and> (\<forall>c \<in> set (concat (stack a') @ pool a'). chunk_ok own H' w c)
     \<and> pool_count a' = length (pool a') \<and> (\<forall>c \<in> set (pool a'). cap c = ARENA_CHUNK_MIN) \<and> stack a' = stack a
     \<and> (\<forall>x. own x = Some w \<longrightarrow> H' x \<noteq> None \<longrightarrow> x \<in> set (chunk_addrs (concat (stack a') @ pool a')))"
      by (intro Cons.IH [OF f2(1) _ _ Cons.prems(4,5)] ballI ok')
    then obtain H' where H': "inv H' h'" "kept H' ?h2 h'" "\<forall>x. own x \<noteq> Some w \<longrightarrow> H' x = ?H2 x"
      "\<forall>x. H' x = None \<or> H' x = ?H2 x"
      "distinct (chunk_addrs (concat (stack a') @ pool a'))" "\<forall>c \<in> set (concat (stack a') @ pool a'). chunk_ok own H' w c"
      "pool_count a' = length (pool a')" "\<forall>c \<in> set (pool a'). cap c = ARENA_CHUNK_MIN" "stack a' = stack a"
      "\<forall>x. own x = Some w \<longrightarrow> H' x \<noteq> None \<longrightarrow> x \<in> set (chunk_addrs (concat (stack a') @ pool a'))"
      by (elim exE conjE)
    have sub: "H' x = None \<or> H' x = H x" for x
    proof -
      have "?H2 x = None \<or> ?H2 x = H x" by simp
      then show ?thesis using spec [OF H'(4), of x] by metis
    qed
    have "kept H' h h'"
      unfolding kept_def
    proof (intro allI impI)
      fix x v k assume x: "H' x = Some (v, k)"
      then have "?H2 x = Some (v, k)" using H'(4) by (metis option.distinct(1))
      moreover from this have "?H1 x = Some (v, k)" by (auto split: if_splits)
      ultimately show "peek (mem h') x k = peek (mem h) x k"
        using f1(2) f2(2) H'(2) x unfolding kept_def by metis
    qed
    moreover have "H' x = H x" if x: "own x \<noteq> Some w" for x
    proof -
      have "x \<noteq> base c" "x \<noteq> hdr c" using okc x by auto
      then show ?thesis using H'(3) x by simp
    qed
    ultimately show ?thesis using H'(1,5-10) sub by (intro exI [of _ H']) simp
  qed
qed

lemma arena_push_ok:
  assumes r: "rt_inv inv B s" and p: "arena_push s = Inr s'"
  shows "rt_inv inv B s' \<and> hp s' = hp s \<and> rt.more s' = rt.more s
     \<and> arena_current_slot s' = arena_current_slot s + 1 \<and> arena_current_slot s < ARENA_MAX_DEPTH"
proof -
  obtain own H where I: "inv H (hp s)" and a: "arenas_ok own H s" and h: "held_ok own H B s"
    and ah: "all_held own H B (chunk_set s)"
    using r by (auto simp: rt_inv_def)
  let ?w = "state_key s" and ?a = "arena_of (state_key s) s"
  have s': "s' = put_arena ?w (?a\<lparr>stack := stack ?a @ [[]], regions_entered := regions_entered ?a + 1\<rparr>) s"
    and d: "length (stack ?a) < ARENA_MAX_DEPTH"
    using p by (auto simp: arena_push_def Let_def split: if_splits)
  have ch: "chunks v s' = chunks v s" "pool (arena_of v s') = pool (arena_of v s)"
    "pool_count (arena_of v s') = pool_count (arena_of v s)" for v
    by (simp_all add: s' chunks_def)
  have "arenas_ok own H s'" using a unfolding arenas_ok_def by (simp add: ch)
  moreover have reg: "in_region s v i q n \<Longrightarrow> in_region s' v i q n" for v i q n
    by (auto simp: in_region_def s' nth_append)
  have "held_ok own H B s'"
    unfolding held_ok_def
  proof (intro conjI allI impI)
    fix q v n assume q: "B q = Some (v, n)"
    show "0 < n" using h q unfolding held_ok_def by blast
    show "case v of Region w i \<Rightarrow> in_region s' w i q n | _ \<Rightarrow> H q = Some (v, n) \<and> own q = None"
      using held_okD(1-3) [OF h] q reg by (cases v) auto
  next
    fix q b w i n v j k
    assume "B q = Some (Region w i, n)" "B b = Some (Region v j, k)" "q \<noteq> b"
    then show "apart q n b k" by (rule held_okD(4) [OF h])
  qed
  moreover have "hp s' = hp s" "rt.more s' = rt.more s" "state_key s' = ?w" by (simp_all add: s' state_key_def)
  moreover have "chunk_set s' = chunk_set s" by (simp add: chunk_set_def ch(1) fun_eq_iff)
  ultimately show ?thesis using I d ah by (auto simp: rt_inv_def arena_current_slot_def s')
qed

lemma pop_arenas_ok:
  assumes a: "arenas_ok own H s" and H': "\<forall>x. own x \<noteq> Some w \<longrightarrow> H' x = H x"
    "distinct (chunk_addrs (concat (stack a') @ pool a'))" "\<forall>c \<in> set (concat (stack a') @ pool a'). chunk_ok own H' w c"
    "pool_count a' = length (pool a')" "\<forall>c \<in> set (pool a'). cap c = ARENA_CHUNK_MIN"
  shows "arenas_ok own H' (put_arena w a' (s\<lparr>hp := h'\<rparr>))"
proof -
  have "chunk_ok own H' v c" if v: "v \<noteq> w" and c: "c \<in> set (chunks v s)" for v c
  proof -
    have "chunk_ok own H v c" by (rule arenas_okD(2) [OF a c])
    moreover from this v have "own (hdr c) \<noteq> Some w" "own (base c) \<noteq> Some w" by (auto simp: chunk_ok_def)
    ultimately show ?thesis using H'(1) by (simp add: chunk_ok_def)
  qed
  moreover have "chunks v (put_arena w a' (s\<lparr>hp := h'\<rparr>)) = (if v = w then concat (stack a') @ pool a' else chunks v s)" for v
    by (simp add: chunks_def)
  ultimately show ?thesis
    unfolding arenas_ok_def using H'(2-5) arenas_okD(1,3,4) [OF a] arenas_okD(4) [OF a] by auto
qed

lemma pop_held_ok:
  assumes h: "held_ok own H B s" and H': "\<forall>x. own x \<noteq> Some w \<longrightarrow> H' x = H x"
    and st: "stack a' = stack ((arena_of w s)\<lparr>stack := butlast (stack (arena_of w s))\<rparr>)" "length (stack (arena_of w s)) = Suc i"
  shows "held_ok own H' (drop_region w i B) (put_arena w a' (s\<lparr>hp := h'\<rparr>))"
  unfolding held_ok_def
proof (intro conjI allI impI)
  fix q v n assume "drop_region w i B q = Some (v, n)"
  then have q: "B q = Some (v, n)" "v \<noteq> Region w i" by (simp_all add: drop_region_eq)
  show "0 < n" using h q unfolding held_ok_def by blast
  show "case v of Region u j \<Rightarrow> in_region (put_arena w a' (s\<lparr>hp := h'\<rparr>)) u j q n
      | _ \<Rightarrow> H' q = Some (v, n) \<and> own q = None"
  proof (cases v)
    case (Region u j)
    then have r: "in_region s u j q n" using held_okD(3) [OF h] q by blast
    show ?thesis
    proof (cases "u = w")
      case True
      with r q(2) Region st(2) have "j < i" by (auto simp: in_region_def)
      with r True st show ?thesis by (auto simp: Region in_region_def nth_butlast)
    next
      case False
      with r show ?thesis by (simp add: Region in_region_def)
    qed
  qed (use held_okD(1,2) [OF h] q H' in auto)
next
  fix q b u j n v l k
  assume "drop_region w i B q = Some (Region u j, n)" "drop_region w i B b = Some (Region v l, k)" "q \<noteq> b"
  then show "apart q n b k" using held_okD(4) [OF h] by (auto simp: drop_region_eq)
qed

lemma arena_pop_ok:
  assumes r: "rt_inv inv B s" and d: "arena_current_slot s = Suc i"
  shows "rt_inv inv (drop_region (state_key s) i B) (arena_pop s)
    \<and> rt_kept (drop_region (state_key s) i B) s (arena_pop s) \<and> rt.more (arena_pop s) = rt.more s
    \<and> stack (arena_of (state_key s) (arena_pop s)) = butlast (stack (arena_of (state_key s) s))
    \<and> (\<forall>v. v \<noteq> state_key s \<longrightarrow> arena_of v (arena_pop s) = arena_of v s)"
proof -
  obtain own H where I: "inv H (hp s)" and a: "arenas_ok own H s" and h: "held_ok own H B s"
    and ah: "all_held own H B (chunk_set s)"
    using r by (auto simp: rt_inv_def)
  let ?w = "state_key s" and ?B = "drop_region (state_key s) i B"
  let ?st = "stack (arena_of ?w s)"
  let ?a = "(arena_of ?w s)\<lparr>stack := butlast ?st\<rparr>"
  have st: "?st \<noteq> []" "length ?st = Suc i" using d by (auto simp: arena_current_slot_def)
  obtain a' h' where pc: "arena_pop_chunks (last ?st) ?a (hp s) = (a', h')" by fastforce
  have s': "arena_pop s = put_arena ?w a' (s\<lparr>hp := h'\<rparr>)" using st pc by (simp add: arena_pop_def Let_def)
  have cc: "concat ?st = concat (butlast ?st) @ last ?st"
    using append_butlast_last_id [OF st(1)] by (metis append_Nil2 concat.simps concat_append)
  have dist: "distinct (chunk_addrs (last ?st @ concat (stack ?a) @ pool ?a))"
  proof -
    have "mset (chunk_addrs (last ?st @ concat (stack ?a) @ pool ?a)) = mset (chunk_addrs (chunks ?w s))"
      by (simp add: chunks_def cc chunk_addrs_def del: concat_append)
    then show ?thesis using arenas_okD(1) [OF a, of ?w] by (metis mset_eq_imp_distinct_iff)
  qed
  have ok: "\<forall>c \<in> set (last ?st @ concat (stack ?a) @ pool ?a). chunk_ok own H ?w c"
  proof
    fix c assume "c \<in> set (last ?st @ concat (stack ?a) @ pool ?a)"
    then have "c \<in> set (chunks ?w s)" unfolding chunks_def cc by auto
    then show "chunk_ok own H ?w c" by (rule arenas_okD(2) [OF a])
  qed
  have pool: "pool_count ?a = length (pool ?a)" "\<forall>c \<in> set (pool ?a). cap c = ARENA_CHUNK_MIN"
    using arenas_okD(3) [OF a, of ?w] arenas_okD(4) [OF a, where w = ?w] by auto
  have all: "\<forall>x. own x = Some ?w \<longrightarrow> H x \<noteq> None \<longrightarrow> x \<in> set (chunk_addrs (last ?st @ concat (stack ?a) @ pool ?a))"
  proof (intro allI impI)
    fix x assume x: "own x = Some ?w" "H x \<noteq> None"
    then have "x \<in> chunk_set s ?w" using all_heldD(2) [OF ah] by blast
    then show "x \<in> set (chunk_addrs (last ?st @ concat (stack ?a) @ pool ?a))"
      unfolding chunk_set_def chunks_def cc by (auto simp: chunk_addrs_def)
  qed
  obtain H' where H': "inv H' h'" "kept H' (hp s) h'" "\<forall>x. own x \<noteq> Some ?w \<longrightarrow> H' x = H x"
      "distinct (chunk_addrs (concat (stack a') @ pool a'))" "\<forall>c \<in> set (concat (stack a') @ pool a'). chunk_ok own H' ?w c"
      "pool_count a' = length (pool a')" "\<forall>c \<in> set (pool a'). cap c = ARENA_CHUNK_MIN" "stack a' = stack ?a"
      "\<forall>x. H' x = None \<or> H' x = H x" "\<forall>x. own x = Some ?w \<longrightarrow> H' x \<noteq> None \<longrightarrow> x \<in> set (chunk_addrs (concat (stack a') @ pool a'))"
    using pop_chunks_ok [OF I dist ok pool pc all] by (elim exE conjE)
  have ar: "arenas_ok own H' (arena_pop s)" unfolding s' by (rule pop_arenas_ok [OF a H'(3-7)])
  have hd: "held_ok own H' ?B (arena_pop s)" unfolding s' by (rule pop_held_ok [OF h H'(3,8) st(2)])
  have ap: "all_held own H' ?B (chunk_set (arena_pop s))"
  proof (rule all_heldI)
    fix x v assume x: "H' x = Some v" "own x = None"
    then have "H x = Some v" using H'(3) by simp
    with x(2) have "B x = Some v" using all_heldD(1) [OF ah] by blast
    moreover have "fst v \<noteq> Region ?w i"
      using held_not_region [OF I h a, of x "Region ?w i" "snd v"] \<open>H x = Some v\<close> calculation x(2)
      by (cases v) (auto simp: holder_key_def)
    ultimately show "?B x = Some v" by (cases v) (auto simp: drop_region_eq)
  next
    fix x v u assume x: "H' x = Some v" "own x = Some u"
    show "x \<in> chunk_set (arena_pop s) u"
    proof (cases "u = ?w")
      case True
      then show ?thesis using H'(10) x by (simp add: s' chunk_set_def chunks_def)
    next
      case False
      then have "H x = Some v" using H'(3) x by simp
      then have "x \<in> chunk_set s u" by (rule all_heldD(2) [OF ah _ x(2)])
      then show ?thesis using False by (simp add: s' chunk_set_def chunks_def)
    qed
  qed
  have "rt_kept ?B (arena_pop s) s"
    by (rule held_kept [OF hd ar]) (use H'(2) in \<open>simp add: s' kept_sym\<close>)
  then have "rt_kept ?B s (arena_pop s)" by (simp add: rt_kept_def kept_sym)
  then show ?thesis using H'(1,8) ar hd ap by (auto simp: rt_inv_def s')
qed

lemma arena_pop_live:
  assumes r: "rt_inv inv B s" and d: "arena_current_slot s = Suc i"
  defines "cs \<equiv> last (stack (arena_of (state_key s) s))" and "a \<equiv> arena_of (state_key s) s"
    and "a' \<equiv> arena_of (state_key s) (arena_pop s)"
  shows "live (hp (arena_pop s)) = live (hp s) |` (- set (chunk_addrs (filter (\<lambda>c. c \<notin> set (pool a')) cs)))
    \<and> set (pool a) \<subseteq> set (pool a') \<and> set (pool a') \<subseteq> set cs \<union> set (pool a)
    \<and> (\<forall>c \<in> set cs. c \<in> set (pool a') \<or> cap c \<noteq> ARENA_CHUNK_MIN \<or> ARENA_POOL_MAX \<le> pool_count a')"
proof -
  obtain own H where I: "inv H (hp s)" and ok: "arenas_ok own H s" using r by (auto simp: rt_inv_def)
  let ?st = "stack (arena_of (state_key s) s)"
  have st: "?st \<noteq> []" using d by (auto simp: arena_current_slot_def)
  let ?a = "a\<lparr>stack := butlast ?st\<rparr>"
  obtain b h' where pc: "arena_pop_chunks cs ?a (hp s) = (b, h')" by fastforce
  have s': "arena_pop s = put_arena (state_key s) b (s\<lparr>hp := h'\<rparr>)"
    using st pc by (simp add: arena_pop_def Let_def cs_def a_def)
  have "concat ?st = concat (butlast ?st) @ cs"
    using append_butlast_last_id [OF st] unfolding cs_def by (metis append_Nil2 concat.simps concat_append)
  then have ch: "chunks (state_key s) s = concat (butlast ?st) @ cs @ pool a" by (simp add: chunks_def a_def)
  have "distinct (chunk_addrs (chunks (state_key s) s))" by (rule arenas_okD(1) [OF ok])
  then have "distinct (map hdr (chunks (state_key s) s))" unfolding chunk_addrs_def by simp
  then have "distinct (chunks (state_key s) s)" by (simp add: distinct_map)
  then have dj: "distinct cs" "set cs \<inter> set (pool ?a) = {}" unfolding ch by auto
  have nz: "\<forall>c \<in> set cs. hdr c \<noteq> 0 \<and> base c \<noteq> 0"
  proof
    fix c assume "c \<in> set cs"
    then have "chunk_ok own H (state_key s) c" by (intro arenas_okD(2) [OF ok]) (simp add: ch)
    then show "hdr c \<noteq> 0 \<and> base c \<noteq> 0" using inv_wf [OF I] unfolding owned_wf_def chunk_ok_def by blast
  qed
  show ?thesis using pop_chunks_live [OF pc dj nz] by (simp add: s' a'_def)
qed

end

sublocale seam_spec \<subseteq> rt: rt_spec S "rt_inv inv :: owned \<Rightarrow> ('a, 'b) rt_scheme \<Rightarrow> bool"
proof
  fix B and s :: "('a, 'b) rt_scheme"
  show "rt_inv inv B s \<Longrightarrow> owned_wf B" by (rule rt_inv_wf)
next
  fix B n p and s s' :: "('a, 'b) rt_scheme"
  assume "rt_inv inv B s" "0 < n" "n < 2 ^ 63" "rt_alloc S n s = (p, s')"
  then show "rt_kept B s s' \<and> rt.more s' = rt.more s
      \<and> (if p = 0 then rt_inv inv B s' else fresh_block B p n \<and> (\<exists>w. rt_inv inv (B(p \<mapsto> (w, n))) s'))"
    by (rule rt_alloc_ok)
next
  fix B n p and s s' :: "('a, 'b) rt_scheme"
  assume "rt_inv inv B s" "0 < n" "n < 2 ^ 64" "rt_base_alloc S n s = (p, s')"
  then show "rt_kept B s s' \<and> rt.more s' = rt.more s
      \<and> (if p = 0 then rt_inv inv B s' else fresh_block B p n \<and> rt_inv inv (B(p \<mapsto> (Seam, n))) s')"
    by (rule base_alloc_ok)
next
  fix B p k n q and s s' :: "('a, 'b) rt_scheme"
  assume "rt_inv inv B s" "B p = Some (Seam, k)" "0 < n" "n < 2 ^ 64" "rt_base_realloc S p n s = (q, s')"
  then show "rt_kept (B(p := None)) s s' \<and> rt.more s' = rt.more s
      \<and> (if q = 0 then rt_inv inv B s' \<and> rt_kept B s s'
         else fresh_block (B(p := None)) q n \<and> rt_inv inv (B(p := None, q \<mapsto> (Seam, n))) s'
           \<and> peek (mem (hp s')) q (min k n) = peek (mem (hp s)) p (min k n))"
    by (rule realloc_ok)
next
  fix B p k and s :: "('a, 'b) rt_scheme"
  assume "rt_inv inv B s" "B p = Some (Seam, k)"
  then show "rt_inv inv (B(p := None)) (rt_free S p s) \<and> rt_kept (B(p := None)) s (rt_free S p s)"
    by (rule rt_free_ok)
next
  fix s :: "('a, 'b) rt_scheme"
  show "rt_free S 0 s = s" by (simp add: rt_free_def free_null)
next
  fix B n p and s s' :: "('a, 'b) rt_scheme"
  assume "rt_inv inv B s" "0 < n" "n < 2 ^ 64" "rt_base_realloc S 0 n s = (p, s')"
  then show "rt_kept B s s' \<and> rt.more s' = rt.more s
      \<and> (if p = 0 then rt_inv inv B s' else fresh_block B p n \<and> rt_inv inv (B(p \<mapsto> (Seam, n))) s')"
    by (rule realloc_null_ok)
next
  fix B n i p and s s' :: "('a, 'b) rt_scheme"
  assume "rt_inv inv B s" "0 < n" "n < 2 ^ 63" "arena_alloc_at S i n s = (p, s')"
  then show "rt_kept B s s' \<and> rt.more s' = rt.more s
      \<and> (if p = 0 then rt_inv inv B s' else fresh_block B p n \<and> (\<exists>w. rt_inv inv (B(p \<mapsto> (w, n))) s'))"
    by (rule arena_at_ok)
next
  fix B n p and s s' :: "('a, 'b) rt_scheme"
  assume "rt_inv inv B s" "0 < n" "rt_tmp_realloc 0 n s = (p, s')"
  then show "rt_kept B s s' \<and> rt.more s' = rt.more s
      \<and> (if p = 0 then rt_inv inv B s' else fresh_block B p n \<and> rt_inv inv (B(p \<mapsto> (Tmp, n))) s')"
    by (rule tmp_null_ok)
next
  fix B p k n q and s s' :: "('a, 'b) rt_scheme"
  assume "rt_inv inv B s" "B p = Some (Tmp, k)" "0 < n" "rt_tmp_realloc p n s = (q, s')"
  then show "rt_kept (B(p := None)) s s' \<and> rt.more s' = rt.more s
      \<and> (if q = 0 then rt_inv inv B s' \<and> rt_kept B s s'
         else fresh_block (B(p := None)) q n \<and> rt_inv inv (B(p := None, q \<mapsto> (Tmp, n))) s'
           \<and> peek (mem (hp s')) q (min k n) = peek (mem (hp s)) p (min k n))"
    by (rule tmp_realloc_ok)
next
  fix B p k and s :: "('a, 'b) rt_scheme"
  assume "rt_inv inv B s" "B p = Some (Tmp, k)"
  then show "rt_inv inv (B(p := None)) (rt_tmp_free p s) \<and> rt_kept (B(p := None)) s (rt_tmp_free p s)"
    by (rule rt_tmp_free_ok)
next
  fix B p w k q and bs :: "byte list" and s :: "('a, 'b) rt_scheme"
  assume "rt_inv inv B s" "B p = Some (w, k)" "p \<le> q" "q + length bs \<le> p + k"
  then show "rt_inv inv B (rt_poke q bs s)" by (rule rt_write_ok)
qed

text \<open>Over the plain C library the accounting is exact: the live blocks are the program's heap blocks and
  the arenas' chunks, which no program block is.\<close>

lemma chunk_set_own: "arenas_ok own H s \<Longrightarrow> p \<in> chunk_set s w \<Longrightarrow> own p = Some w"
  using arenas_okD(2) [of own H s _ w] unfolding chunk_set_def chunk_addrs_def chunk_ok_def by fastforce

lemma held_not_chunk:
  assumes "rt_inv hinv B s" "B p = Some (v, n)" "v = Seam \<or> v = Tmp"
  shows "p \<notin> chunk_set s w"
proof
  assume p: "p \<in> chunk_set s w"
  obtain own H where a: "arenas_ok own H s" "held_ok own H B s" using assms(1) by (auto simp: rt_inv_def)
  have "own p = Some w" by (rule chunk_set_own [OF a(1) p])
  moreover have "own p = None" using held_okD(1,2) [OF a(2), of p n] assms(2,3) by auto
  ultimately show False by simp
qed

lemma plain_live:
  assumes "rt_inv plain_inv B s" "live (hp s) p \<noteq> None"
  shows "B p \<noteq> None \<or> (\<exists>w. p \<in> chunk_set s w)"
proof -
  obtain own H where I: "plain_inv H (hp s)" "all_held own H B (chunk_set s)" using assms(1) by (auto simp: rt_inv_def)
  then obtain x where x: "H p = Some x" using plain_inv_live [OF I(1)] assms(2) by (cases "H p") auto
  show ?thesis
  proof (cases "own p")
    case None
    then show ?thesis using all_heldD(1) [OF I(2) x] by simp
  next
    case (Some w)
    then show ?thesis using all_heldD(2) [OF I(2) x] by blast
  qed
qed

subsection \<open>Properties\<close>

text \<open>C8. On every allocator that keeps the contract of the seam, closing the innermost region of a
  thread takes back exactly the blocks of that region: every other block the program holds keeps
  its bytes, no two blocks overlap and the other threads' arenas are untouched.  Each chunk of the
  region either joins the thread's pool, or both its heap blocks are given back to the C library; no
  other live block of the C library changes.  Only a chunk of another size than the default, or one that finds
  the pool full, is given back.  Nothing leaks: the invariant that holds afterwards has every block of the
  heap in the program's hands or in a chunk that the arenas still reach.\<close>

theorem arena_pop_frees_region:
  assumes "seam_spec S hinv" and "rt_inv hinv B s" and "arena_current_slot s = Suc i"
  shows "rt_inv hinv (drop_region (state_key s) i B) (arena_pop s)
    \<and> rt_kept (drop_region (state_key s) i B) s (arena_pop s)
    \<and> owned_wf (drop_region (state_key s) i B)
    \<and> stack (arena_of (state_key s) (arena_pop s)) = butlast (stack (arena_of (state_key s) s))
    \<and> (\<forall>v. v = state_key s \<or> arena_of v (arena_pop s) = arena_of v s)
    \<and> (let cs = last (stack (arena_of (state_key s) s)); a = arena_of (state_key s) s; a' = arena_of (state_key s) (arena_pop s) in
        live (hp (arena_pop s)) = live (hp s) |` (- set (chunk_addrs (filter (\<lambda>c. c \<notin> set (pool a')) cs)))
        \<and> set (pool a) \<subseteq> set (pool a') \<and> set (pool a') \<subseteq> set cs \<union> set (pool a)
        \<and> (\<forall>c \<in> set cs. c \<in> set (pool a') \<or> cap c \<noteq> ARENA_CHUNK_MIN \<or> ARENA_POOL_MAX \<le> pool_count a'))"
  unfolding Let_def using seam_spec.arena_pop_ok [OF assms] seam_spec.arena_pop_live [OF assms] seam_spec.rt_inv_wf [OF assms(1)] by blast

text \<open>One open region with two chunks, the newest larger than the default, and a block of ten bytes
  from the older one.\<close>

definition mixed_region :: "unit rt" where
  "mixed_region = \<lparr>hp = \<lparr>mem = \<lambda>_. 0, live = [4096 \<mapsto> 32, 8192 \<mapsto> 8192, 4160 \<mapsto> 32, 32768 \<mapsto> 16384], pick = \<lambda>_ _. (0, 0),
       repick = \<lambda>_ _ _. (0, 0), self = 0, worker = \<lambda>_. False, threads_enabled = False\<rparr>,
     arena_main_state = \<lparr>stack = [[\<lparr>hdr = 4160, used = 0, cap = 16384, base = 32768\<rparr>, \<lparr>hdr = 4096, used = 16, cap = 8192, base = 8192\<rparr>]],
       bytes_served = 16, objects_served = 1, regions_entered = 1, pool = [], pool_count = 0\<rparr>,
     arena_worker_state = \<lambda>_. \<lparr>stack = [], bytes_served = 0, objects_served = 0, regions_entered = 0,
       pool = [], pool_count = 0\<rparr>,
     rt_arena_hint = 1, rt_worker_arena_hint = \<lambda>_. 0\<rparr>"

lemma mixed_region_inv: "rt_inv plain_inv [8192 \<mapsto> (Region None 0, 10)] mixed_region"
proof -
  let ?H = "[4096 \<mapsto> (Tmp, 32), 8192 \<mapsto> (Tmp, 8192), 4160 \<mapsto> (Tmp, 32), 32768 \<mapsto> (Tmp, 16384)] :: owned"
    and ?own = "\<lambda>_. Some None :: nat option option"
  have "plain_inv ?H (hp mixed_region)"
    by (intro plain_invI) (auto simp: mixed_region_def libc_ok_def live_wf_def apart_def split: if_splits)
  moreover have ch: "chunks v mixed_region = (case v of None \<Rightarrow> [\<lparr>hdr = 4160, used = 0, cap = 16384, base = 32768\<rparr>,
      \<lparr>hdr = 4096, used = 16, cap = 8192, base = 8192\<rparr>] | _ \<Rightarrow> [])"
    "pool (arena_of v mixed_region) = []" "pool_count (arena_of v mixed_region) = 0" for v
    by (auto simp: chunks_def arena_of_def mixed_region_def split: option.splits)
  then have "arenas_ok ?own ?H mixed_region"
    by (auto simp: arenas_ok_def chunk_ok_def chunk_addrs_def sizeof_ArenaChunk_def split: option.splits)
  moreover have "held_ok ?own ?H [8192 \<mapsto> (Region None 0, 10)] mixed_region"
    by (auto simp: held_ok_def in_region_def arena_of_def mixed_region_def split: if_splits)
  moreover have "all_held ?own ?H [8192 \<mapsto> (Region None 0, 10)] (chunk_set mixed_region)"
    by (rule all_heldI) (auto simp: chunk_set_def chunk_addrs_def ch split: if_splits)
  ultimately show ?thesis unfolding rt_inv_def by blast
qed

theorem arena_pop_frees_region_witness:
  "rt_inv plain_inv Map.empty (arena_pop mixed_region) \<and> stack (arena_main_state (arena_pop mixed_region)) = []
    \<and> dom (live (hp (arena_pop mixed_region))) = {4096, 8192} \<and> map hdr (pool (arena_main_state (arena_pop mixed_region))) = [4096]"
proof -
  have k: "state_key mixed_region = None" "arena_current_slot mixed_region = Suc 0"
    by (simp_all add: state_key_def on_worker_def prismio_memory_threads_are_enabled_def mixed_region_def
        arena_current_slot_def arena_of_def)
  have "drop_region None 0 [8192 \<mapsto> (Region None 0, 10)] = Map.empty"
    by (auto simp: drop_region_def fun_eq_iff split: option.splits if_splits)
  moreover have p: "pool (arena_main_state (arena_pop mixed_region)) = [\<lparr>hdr = 4096, used = 16, cap = 8192, base = 8192\<rparr>]"
    by (simp add: arena_pop_def k(1) Let_def arena_of_def) (simp add: mixed_region_def put_arena_def ARENA_CHUNK_MIN_def ARENA_POOL_MAX_def)
  note R = arena_pop_frees_region [OF plain.seam_spec_axioms mixed_region_inv k(2)]
  have l: "live (hp (arena_pop mixed_region)) = live (hp mixed_region) |` (- {4160, 32768})"
    using R by (simp add: k(1) Let_def arena_of_def p) (simp add: mixed_region_def chunk_addrs_def)
  have "dom (live (hp (arena_pop mixed_region))) = {4096, 8192}"
    unfolding l by (auto simp: mixed_region_def restrict_map_def split: if_splits)
  moreover have "stack (arena_main_state (arena_pop mixed_region)) = []"
    using R by (simp add: k(1) arena_of_def) (simp add: mixed_region_def)
  ultimately show ?thesis using R k(1) p by simp
qed

end
