(* ===== verification/String_Search.thy ===== *)
theory String_Search
  imports Libc
begin

unbundle bit_operations_syntax

text \<open>
  Hashing and searching of strings in \<open>runtime/lang_runtime.c\<close>: \<open>str_hash_words\<close> and \<open>str_hash\<close> with
  both forms of the 128-bit product, \<open>str_find_byte\<close>, the packed-pair scan with its vector blocks, and
  \<open>str_find_needle\<close>.  These only read memory.
\<close>

subsection \<open>Hashing\<close>

definition K1 :: "64 word" where "K1 = 0xBF58476D1CE4E5B9"
definition K2 :: "64 word" where "K2 = 0xD6E8FEB86659FD93"
definition K0 :: "64 word" where "K0 = 0x9E3779B97F4A7C15"

definition low32 :: "64 word \<Rightarrow> 64 word" where
  "low32 x = x AND 0xFFFFFFFF"

text \<open>The 64 by 64 bit product as its two halves: by the widening multiply, and by the four 32-bit
  products of a target without one.\<close>

definition mum_wide :: "64 word \<Rightarrow> 64 word \<Rightarrow> 64 word \<times> 64 word" where
  "mum_wide a b =
     (let product = (ucast a :: 128 word) * ucast b in (ucast product, ucast (drop_bit 64 product)))"

definition mum_narrow :: "64 word \<Rightarrow> 64 word \<Rightarrow> 64 word \<times> 64 word" where
  "mum_narrow a b =
     (let a0 = low32 a; a1 = drop_bit 32 a; b0 = low32 b; b1 = drop_bit 32 b;
          p00 = a0 * b0; p01 = a0 * b1; p10 = a1 * b0; p11 = a1 * b1;
          mid = drop_bit 32 p00 + low32 p01 + low32 p10
      in (push_bit 32 mid OR low32 p00, p11 + drop_bit 32 p01 + drop_bit 32 p10 + drop_bit 32 mid))"

definition str_hash_words :: "(64 word \<Rightarrow> 64 word \<Rightarrow> 64 word \<times> 64 word) \<Rightarrow> 64 word \<Rightarrow> 64 word \<Rightarrow> int" where
  "str_hash_words mum lo hi =
     (let (low, high) = mum (lo XOR K1) (hi XOR K2);
          h = low XOR high XOR drop_bit 32 hi
      in uint (h AND 0x7FFFFFFF))"

definition word_at :: "byte list \<Rightarrow> 64 word" where
  "word_at bs = word_of_nat (le_nat bs)"

function hash_loop :: "mem \<Rightarrow> addr \<Rightarrow> nat \<Rightarrow> nat \<Rightarrow> 64 word \<Rightarrow> 64 word \<times> nat" where
  "hash_loop m p i len h =
     (if i + 8 \<le> len then hash_loop m p (i + 8) len ((h XOR word_at (peek m (p + i) 8)) * K1) else (h, i))"
  by pat_completeness auto
termination
  by (relation "measure (\<lambda>(m, p, i, len, h). len - i)") auto

definition hash_tail :: "mem \<Rightarrow> addr \<Rightarrow> nat \<Rightarrow> nat \<Rightarrow> 64 word" where
  "hash_tail m p i len =
     (let rest = len - i in
      if rest \<ge> 4 then word_at (peek m (p + i) 4) OR push_bit 32 (word_at (peek m (p + len - 4) 4))
      else ucast (m (p + i)) OR push_bit 8 (ucast (m (p + i + rest div 2))) OR push_bit 16 (ucast (m (p + len - 1))))"

definition str_hash :: "(64 word \<Rightarrow> 64 word \<Rightarrow> 64 word \<times> 64 word) \<Rightarrow> mem \<Rightarrow> addr \<Rightarrow> int \<Rightarrow> int" where
  "str_hash mum m s len0 =
     (let len = nat (if s = 0 \<or> len0 < 0 then 0 else len0) in
      if len \<le> 12
      then let bytes = peek m s len @ replicate (12 - len) 0;
               lo = word_at (take 8 bytes); rest = word_at (drop 8 bytes)
           in str_hash_words mum lo (push_bit 32 rest OR word_of_nat len)
      else let (h, i) = hash_loop m s 0 len (K0 XOR word_of_nat len);
               h = (if len - i > 0 then (h XOR hash_tail m s i len) * K1 else h);
               h = h XOR drop_bit 32 h;
               h = h * K2;
               h = h XOR drop_bit 32 h
           in uint (h AND 0x7FFFFFFF))"

subsection \<open>Searching\<close>

definition str_find_byte :: "mem \<Rightarrow> addr \<Rightarrow> int \<Rightarrow> byte \<Rightarrow> int" where
  "str_find_byte m s from b =
     (if s = 0 \<or> from < 0 then -1
      else let hit = strchr m (s + nat from) (uint b) in if hit \<noteq> 0 then i32 (int hit - int s) else -1)"

text \<open>The sixteen lanes of a vector compare as a mask (\<open>_mm_movemask_epi8\<close>) and its lowest set bit
  (\<open>__builtin_ctz\<close>).\<close>

definition movemask :: "(nat \<Rightarrow> bool) \<Rightarrow> nat" where
  "movemask lane = horner_sum of_bool 2 (map lane [0..<16])"

fun ctz_upto :: "nat \<Rightarrow> nat \<Rightarrow> nat" where
  "ctz_upto 0 v = 0"
| "ctz_upto (Suc n) v = (if odd v then 0 else Suc (ctz_upto n (v div 2)))"

definition ctz :: "nat \<Rightarrow> nat" where
  "ctz v = ctz_upto 32 v"

type_synonym pair = "(int \<times> byte) \<times> (int \<times> byte)"

definition pair_at :: "mem \<Rightarrow> addr \<Rightarrow> pair \<Rightarrow> int \<Rightarrow> bool" where
  "pair_at m s pr i = (case pr of ((offset1, byte1), (offset2, byte2)) \<Rightarrow>
     m (nat (int s + i + offset1)) = byte1 \<and> m (nat (int s + i + offset2)) = byte2)"

definition pair_mask :: "mem \<Rightarrow> addr \<Rightarrow> pair \<Rightarrow> int \<Rightarrow> nat" where
  "pair_mask m s pr i = movemask (\<lambda>k. pair_at m s pr (i + int k))"

function pair_scan32 :: "mem \<Rightarrow> addr \<Rightarrow> pair \<Rightarrow> int \<Rightarrow> int \<Rightarrow> int + int" where
  "pair_scan32 m s pr stop i =
     (if i \<le> stop - 31
      then let mask0 = pair_mask m s pr i; mask1 = pair_mask m s pr (i + 16) in
           if mask0 \<noteq> 0 then Inl (i + int (ctz mask0))
           else if mask1 \<noteq> 0 then Inl (i + 16 + int (ctz mask1))
           else pair_scan32 m s pr stop (i + 32)
      else Inr i)"
  by pat_completeness auto
termination
  by (relation "measure (\<lambda>(m, s, pr, stop, i). nat (stop - i))") auto

function pair_scan16 :: "mem \<Rightarrow> addr \<Rightarrow> pair \<Rightarrow> int \<Rightarrow> int \<Rightarrow> int + int" where
  "pair_scan16 m s pr stop i =
     (if i \<le> stop - 15
      then let mask = pair_mask m s pr i in
           if mask \<noteq> 0 then Inl (i + int (ctz mask)) else pair_scan16 m s pr stop (i + 16)
      else Inr i)"
  by pat_completeness auto
termination
  by (relation "measure (\<lambda>(m, s, pr, stop, i). nat (stop - i))") auto

function pair_scan1 :: "mem \<Rightarrow> addr \<Rightarrow> pair \<Rightarrow> int \<Rightarrow> int \<Rightarrow> int" where
  "pair_scan1 m s pr stop i =
     (if i \<le> stop then if pair_at m s pr i then i else pair_scan1 m s pr stop (i + 1) else -1)"
  by pat_completeness auto
termination
  by (relation "measure (\<lambda>(m, s, pr, stop, i). nat (stop + 1 - i))") auto

definition str_pair_scan :: "mem \<Rightarrow> addr \<Rightarrow> int \<Rightarrow> int \<Rightarrow> pair \<Rightarrow> int" where
  "str_pair_scan m s from stop pr =
     (case pair_scan32 m s pr stop from of
        Inl hit \<Rightarrow> hit
      | Inr i \<Rightarrow> (case pair_scan16 m s pr stop i of Inl hit \<Rightarrow> hit | Inr i \<Rightarrow> pair_scan1 m s pr stop i))"

definition str_find_byte_pair :: "mem \<Rightarrow> addr \<Rightarrow> int \<Rightarrow> int \<Rightarrow> pair \<Rightarrow> int" where
  "str_find_byte_pair m s from stop pr =
     (if s = 0 \<or> from < 0 \<or> stop < from \<or> fst (fst pr) < 0 \<or> fst (snd pr) < 0 then -1
      else str_pair_scan m s from stop pr)"

definition str_search_letter_rank :: "int list" where
  "str_search_letter_rank = [249, 216, 238, 236, 253, 227, 218, 230, 247, 135, 180, 241, 233,
     246, 244, 231, 139, 245, 243, 251, 235, 201, 196, 240, 214, 152]"

definition str_search_rank :: "byte \<Rightarrow> int" where
  "str_search_rank b0 =
     (let b = (if 65 \<le> b0 \<and> b0 \<le> 90 then b0 + 32 else b0) in
      if 97 \<le> b \<and> b \<le> 122 then str_search_letter_rank ! unat (b - 97)
      else if b = 32 then 255
      else if 48 \<le> b \<and> b \<le> 57 then 220
      else if b \<ge> 128 then 254
      else 100)"

text \<open>The choice of the two rarest bytes: each has its index, its value and its rank.\<close>

type_synonym pick3 = "int \<times> byte \<times> int"

definition pick_start :: "mem \<Rightarrow> addr \<Rightarrow> pick3 \<times> pick3" where
  "pick_start m needle =
     (let byte1 = m needle; byte2 = m (needle + 1);
          rank1 = str_search_rank byte1; rank2 = str_search_rank byte2
      in if rank2 < rank1 then ((1, byte2, rank2), (0, byte1, rank1)) else ((0, byte1, rank1), (1, byte2, rank2)))"

definition pick_step :: "mem \<Rightarrow> addr \<Rightarrow> nat \<Rightarrow> pick3 \<times> pick3 \<Rightarrow> pick3 \<times> pick3" where
  "pick_step m needle p st =
     (case st of ((index1, byte1, rank1), (index2, byte2, rank2)) \<Rightarrow>
        let b = m (needle + p); rank = str_search_rank b in
        if rank < rank1 then ((int p, b, rank), (index1, byte1, rank1))
        else if b \<noteq> byte1 \<and> rank < rank2 then ((index1, byte1, rank1), (int p, b, rank))
        else st)"

definition pick_pair :: "mem \<Rightarrow> addr \<Rightarrow> nat \<Rightarrow> pair" where
  "pick_pair m needle k =
     (case fold (pick_step m needle) [2..<k] (pick_start m needle) of
        ((index1, byte1, _), (index2, byte2, _)) \<Rightarrow> ((index1, byte1), (index2, byte2)))"

text \<open>The candidate loop.  A hit never lies before \<open>i\<close>, so the loop ends; the test of that is the
  model's own, for the termination proof.\<close>

function needle_loop :: "mem \<Rightarrow> addr \<Rightarrow> addr \<Rightarrow> nat \<Rightarrow> pair \<Rightarrow> int \<Rightarrow> int \<Rightarrow> int \<Rightarrow> int \<Rightarrow> int" where
  "needle_loop m s needle k pr stop candidates skipped i =
     (if i \<le> stop
      then let hit = str_pair_scan m s i stop pr in
           if hit < 0 \<or> hit < i then -1
           else if memcmp m (s + nat hit) needle k = 0 then hit
           else if candidates + 1 \<ge> 50 \<and> skipped + (hit - i) < (candidates + 1) * 8 then -2 - (hit + 1)
           else needle_loop m s needle k pr stop (candidates + 1) (skipped + (hit - i)) (hit + 1)
      else -1)"
  by pat_completeness auto
termination
  by (relation "measure (\<lambda>(m, s, needle, k, pr, stop, candidates, skipped, i). nat (stop + 1 - i))") auto

definition str_find_needle :: "mem \<Rightarrow> addr \<Rightarrow> int \<Rightarrow> int \<Rightarrow> addr \<Rightarrow> int \<Rightarrow> int" where
  "str_find_needle m s from len needle needle_length =
     (if s = 0 \<or> needle = 0 \<or> from < 0 \<or> needle_length < 2 \<or> needle_length > 32 then -1
      else let stop = i32 (len - needle_length) in
           if from > stop then -1
           else needle_loop m s needle (nat needle_length) (pick_pair m needle (nat needle_length)) stop 0 0 from)"

subsection \<open>The two products agree\<close>

lemma halves_split:
  fixes K P Q R T :: nat
  defines "mid \<equiv> P div K + Q mod K + R mod K"
  shows "T * K * K + (Q + R) * K + P = K * K * (T + Q div K + R div K + mid div K) + (K * (mid mod K) + P mod K)"
proof -
  have "P = K * (P div K) + P mod K" by simp
  then have "T * K * K + (Q + R) * K + P = T * K * K + (K * (Q div K) + Q mod K + (K * (R div K) + R mod K)) * K + (K * (P div K) + P mod K)"
    by simp
  also have "\<dots> = K * K * (T + Q div K + R div K) + K * mid + P mod K" unfolding mid_def by (simp only: algebra_simps)
  also have "\<dots> = K * K * (T + Q div K + R div K) + K * (K * (mid div K) + mid mod K) + P mod K" by simp
  finally show ?thesis by (simp only: algebra_simps)
qed

lemma low32_take: "low32 x = take_bit 32 x"
  by (simp add: low32_def take_bit_eq_mask mask_eq_exp_minus_1)

lemma unat_low32: "unat (low32 x) = unat x mod 2 ^ 32"
  by (simp add: low32_take unat_mod_distrib take_bit_eq_mod)

lemma unat_high32: "unat (drop_bit 32 x) = unat x div 2 ^ 32" for x :: "64 word"
  by (simp add: drop_bit_eq_div unat_div)

lemma unat_split: "unat x = unat (low32 x) + 2 ^ 32 * unat (drop_bit 32 x)"
  by (simp add: unat_low32 unat_high32)

lemma unat_half_bounds: "unat (low32 x) < 2 ^ 32" "unat (drop_bit 32 x) < 2 ^ 32" for x :: "64 word"
  using unsigned_less [of x, where ?'a = nat] by (auto simp: unat_low32 unat_high32 less_mult_imp_div_less)

lemma unat_mult_half:
  fixes x y :: "64 word"
  assumes "unat x < 2 ^ 32" "unat y < 2 ^ 32"
  shows "unat (x * y) = unat x * unat y"
proof -
  have "unat x * unat y < 2 ^ 32 * 2 ^ 32" using assms by (intro mult_strict_mono') auto
  then show ?thesis by (simp add: unat_mult_lem [THEN iffD1])
qed


lemma or_disjoint: "take_bit 32 x = 0 \<Longrightarrow> drop_bit 32 y = 0 \<Longrightarrow> x OR y = x + y" for x y :: "64 word"
proof (rule disjunctive_add_eq_or [symmetric], rule bit_word_eqI)
  fix n assume l: "take_bit 32 x = 0" "drop_bit 32 y = 0" and n: "n < LENGTH(64)"
  have "bit (take_bit 32 x) n = (n < 32 \<and> bit x n)" "bit (drop_bit 32 y) (n - 32) = bit y (32 + (n - 32))"
    by (simp_all add: bit_take_bit_iff bit_drop_bit_eq)
  with l show "bit (x AND y) n = bit 0 n" by (cases "n < 32") (auto simp: bit_and_iff)
qed

lemma mum_narrow_wide: "mum_narrow a b = mum_wide a b"
proof -
  define A0 A1 B0 B1 where d: "A0 = unat (low32 a)" "A1 = unat (drop_bit 32 a)" "B0 = unat (low32 b)" "B1 = unat (drop_bit 32 b)"
  have bd: "A0 < 2 ^ 32" "A1 < 2 ^ 32" "B0 < 2 ^ 32" "B1 < 2 ^ 32"
    by (simp_all only: d unat_half_bounds)
  define mid where "mid = A0 * B0 div 2 ^ 32 + A0 * B1 mod 2 ^ 32 + A1 * B0 mod 2 ^ 32"
  define hi where "hi = A1 * B1 + A0 * B1 div 2 ^ 32 + A1 * B0 div 2 ^ 32 + mid div 2 ^ 32"
  define lo where "lo = 2 ^ 32 * (mid mod 2 ^ 32) + A0 * B0 mod 2 ^ 32"
  have prod: "unat a * unat b = 2 ^ 64 * hi + lo"
  proof -
    have "unat a * unat b = (A0 + 2 ^ 32 * A1) * (B0 + 2 ^ 32 * B1)"
      unfolding d by (simp only: unat_split [of a, symmetric] unat_split [of b, symmetric])
    also have "\<dots> = A1 * B1 * 2 ^ 32 * 2 ^ 32 + (A0 * B1 + A1 * B0) * 2 ^ 32 + A0 * B0"
      by (simp only: algebra_simps)
    also have "\<dots> = 2 ^ 32 * 2 ^ 32 * hi + lo"
      unfolding halves_split [of "A1 * B1" "2 ^ 32" "A0 * B1" "A1 * B0" "A0 * B0"] hi_def lo_def mid_def ..
    finally show ?thesis by simp
  qed
  have lo64: "lo < 2 ^ 64"
  proof -
    have "mid mod 2 ^ 32 \<le> 2 ^ 32 - 1" "A0 * B0 mod 2 ^ 32 < 2 ^ 32" by (simp_all add: less_Suc_eq_le flip: less_Suc_eq_le)
    then show ?thesis unfolding lo_def by simp
  qed
  let ?mid = "drop_bit 32 (low32 a * low32 b) + low32 (low32 a * drop_bit 32 b) + low32 (drop_bit 32 a * low32 b)"
  have um: "unat (low32 a * low32 b) = A0 * B0" "unat (low32 a * drop_bit 32 b) = A0 * B1"
    "unat (drop_bit 32 a * low32 b) = A1 * B0" "unat (drop_bit 32 a * drop_bit 32 b) = A1 * B1"
    by (simp_all only: d unat_mult_half unat_half_bounds)
  have "mid < 2 ^ 32 + 2 ^ 32 + 2 ^ 32"
    using unat_half_bounds [of "low32 a * low32 b"] unfolding mid_def unat_high32 um
    by (intro add_strict_mono) simp_all
  then have midw: "unat ?mid = mid" unfolding unat_word_ariths(1) unat_low32 unat_high32 um by (simp add: mid_def mod_simps)
  have "push_bit 32 ?mid OR low32 (low32 a * low32 b) = push_bit 32 ?mid + low32 (low32 a * low32 b)"
    by (rule or_disjoint) (simp_all only: low32_take take_bit_push_bit drop_bit_take_bit, simp_all)
  also have "\<dots> = word_of_nat (unat (push_bit 32 ?mid + low32 (low32 a * low32 b)))" by simp
  also have "unat (push_bit 32 ?mid + low32 (low32 a * low32 b)) = (2 ^ 32 * mid + A0 * B0 mod 2 ^ 32) mod 2 ^ 64"
  proof -
    have "unat (push_bit 32 ?mid) = 2 ^ 32 * mid mod 2 ^ 64"
      unfolding push_bit_eq_mult unat_word_ariths(2) [of ?mid] midw by (simp add: mult.commute)
    then show ?thesis
      by (simp only: unat_word_ariths(1) [of "push_bit 32 ?mid"] unat_low32 um) (simp add: mod_simps)
  qed
  also have "\<dots> = lo mod 2 ^ 64"
  proof -
    have "2 ^ 32 * mid mod 2 ^ 64 = (2 ^ 32 * (mid mod 2 ^ 32) :: nat)"
      using mult_mod_right [of "2 ^ 32" mid "2 ^ 32"] by simp
    then show ?thesis unfolding lo_def by (metis mod_add_left_eq mod_mod_trivial)
  qed
  finally have low: "push_bit 32 ?mid OR low32 (low32 a * low32 b) = word_of_nat lo" using lo64 by simp
  define mw where mw: "mw = ?mid"
  have umw: "unat mw = mid" unfolding mw by (rule midw)
  have high: "drop_bit 32 a * drop_bit 32 b + drop_bit 32 (low32 a * drop_bit 32 b) + drop_bit 32 (drop_bit 32 a * low32 b)
      + drop_bit 32 mw = word_of_nat hi"
    by (subst word_unat_eq_iff) (simp only: unat_word_ariths(1) unat_high32 um umw unat_of_nat hi_def, simp add: mod_simps)
  let ?p = "ucast a * ucast b :: 128 word"
  have "unat a * unat b < 2 ^ 64 * 2 ^ 64"
    using unsigned_less [of a, where ?'a = nat] unsigned_less [of b, where ?'a = nat] by (intro mult_strict_mono') auto
  then have up: "unat ?p = 2 ^ 64 * hi + lo"
    unfolding prod [symmetric] by (simp add: unat_word_ariths unsigned_ucast_eq take_bit_eq_mod mod_mult_eq)
  have "ucast ?p = (word_of_nat lo :: 64 word)"
    by (subst word_unat_eq_iff) (simp add: unsigned_ucast_eq up unat_of_nat take_bit_eq_mod)
  moreover have "ucast (drop_bit 64 ?p) = (word_of_nat hi :: 64 word)"
    using lo64 by (subst word_unat_eq_iff) (simp add: unsigned_ucast_eq up unat_of_nat drop_bit_eq_div unat_div_distrib take_bit_eq_mod)
  ultimately show ?thesis
    unfolding mum_narrow_def mum_wide_def Let_def low high [unfolded mw] by simp
qed

subsection \<open>The vector scan is the scalar loop\<close>

declare pair_scan32.simps [simp del] pair_scan16.simps [simp del] pair_scan1.simps [simp del] needle_loop.simps [simp del] hash_loop.simps [simp del]

lemma horner_nonzero: "horner_sum of_bool 2 bs \<noteq> (0 :: nat) \<longleftrightarrow> True \<in> set bs"
  by (induction bs) auto

lemma ctz_upto_horner:
  "True \<in> set bs \<Longrightarrow> length bs \<le> n \<Longrightarrow> ctz_upto n (horner_sum of_bool 2 bs) = length (takeWhile Not bs)"
proof (induction bs arbitrary: n)
  case (Cons b bs)
  then obtain k where "n = Suc k" by (cases n) auto
  with Cons show ?case by (cases b) auto
qed simp

lemma movemask_nonzero: "movemask lane \<noteq> 0 \<longleftrightarrow> (\<exists>k<16. lane k)"
  unfolding movemask_def horner_nonzero by (auto simp: image_iff)

lemma ctz_movemask:
  assumes "movemask lane \<noteq> 0"
  shows "ctz (movemask lane) < 16 \<and> lane (ctz (movemask lane)) \<and> (\<forall>k<ctz (movemask lane). \<not> lane k)"
proof -
  let ?bs = "map lane [0..<16]" and ?n = "length (takeWhile Not (map lane [0..<16]))"
  have t: "True \<in> set ?bs" using assms unfolding movemask_def horner_nonzero .
  have c: "ctz (movemask lane) = ?n"
    unfolding ctz_def movemask_def by (rule ctz_upto_horner [OF t]) simp
  have "takeWhile Not ?bs \<noteq> ?bs" using t by (metis takeWhile_eq_all_conv)
  then have n: "?n < 16" using length_takeWhile_le [of Not ?bs] takeWhile_eq_take [of Not ?bs] by (metis le_neq_implies_less length_map length_upt minus_nat.diff_0 take_all)
  have "?bs ! ?n" using nth_length_takeWhile [of Not ?bs] n by simp
  moreover have "\<not> ?bs ! k" if k: "k < ?n" for k
    using takeWhile_nth [of k Not ?bs] set_takeWhileD nth_mem k by metis
  ultimately show ?thesis unfolding c using n by auto
qed

lemma pair_scan1_hit: "i \<le> stop \<Longrightarrow> pair_at m s pr i \<Longrightarrow> pair_scan1 m s pr stop i = i"
  by (subst pair_scan1.simps) simp

lemma pair_scan1_skip:
  "(\<And>k. k < n \<Longrightarrow> \<not> pair_at m s pr (i + int k)) \<Longrightarrow> i + int n \<le> stop + 1 \<Longrightarrow>
     pair_scan1 m s pr stop i = pair_scan1 m s pr stop (i + int n)"
proof (induction n arbitrary: i)
  case (Suc n)
  have "\<not> pair_at m s pr i" using Suc.prems(1) [of 0] by simp
  then have "pair_scan1 m s pr stop i = pair_scan1 m s pr stop (i + 1)"
    using Suc.prems(2) by (subst pair_scan1.simps) simp
  also have "\<dots> = pair_scan1 m s pr stop (i + 1 + int n)"
  proof (rule Suc.IH)
    fix k assume "k < n"
    then show "\<not> pair_at m s pr (i + 1 + int k)" using Suc.prems(1) [of "Suc k"] by (simp add: ac_simps)
  qed (use Suc.prems(2) in simp)
  finally show ?case by (simp add: ac_simps)
qed simp

lemma pair_block:
  assumes "i + 15 \<le> stop"
  shows "pair_mask m s pr i \<noteq> 0 \<Longrightarrow> pair_scan1 m s pr stop i = i + int (ctz (pair_mask m s pr i))"
    "pair_mask m s pr i = 0 \<Longrightarrow> pair_scan1 m s pr stop i = pair_scan1 m s pr stop (i + 16)"
proof -
  assume z: "pair_mask m s pr i \<noteq> 0"
  let ?c = "ctz (pair_mask m s pr i)"
  have c: "?c < 16" "pair_at m s pr (i + int ?c)" "\<And>k. k < ?c \<Longrightarrow> \<not> pair_at m s pr (i + int k)"
    using ctz_movemask [OF z [unfolded pair_mask_def]] unfolding pair_mask_def by blast+
  have "pair_scan1 m s pr stop i = pair_scan1 m s pr stop (i + int ?c)"
    by (rule pair_scan1_skip) (use c assms in auto)
  then show "pair_scan1 m s pr stop i = i + int ?c" using c assms by (simp add: pair_scan1_hit)
next
  assume "pair_mask m s pr i = 0"
  then have "\<And>k. k < 16 \<Longrightarrow> \<not> pair_at m s pr (i + int k)"
    using movemask_nonzero unfolding pair_mask_def by blast
  then show "pair_scan1 m s pr stop i = pair_scan1 m s pr stop (i + 16)"
    using pair_scan1_skip [of 16 m s pr i stop] assms by simp
qed

lemma pair_scan32_eq:
  "(case pair_scan32 m s pr stop i of Inl hit \<Rightarrow> hit | Inr j \<Rightarrow> pair_scan1 m s pr stop j) = pair_scan1 m s pr stop i"
proof (induction m s pr stop i rule: pair_scan32.induct)
  case (1 m s pr stop i)
  show ?case
  proof (cases "i \<le> stop - 31 \<and> pair_mask m s pr i = 0 \<and> pair_mask m s pr (i + 16) = 0")
    case True
    then show ?thesis using 1 pair_block(2) [of i stop m s pr] pair_block(2) [of "i + 16" stop m s pr]
      by (subst pair_scan32.simps) (simp add: Let_def ac_simps)
  next
    case False
    then show ?thesis using pair_block [of i stop m s pr] pair_block [of "i + 16" stop m s pr]
      by (subst pair_scan32.simps) (auto simp: Let_def)
  qed
qed

lemma pair_scan16_eq:
  "(case pair_scan16 m s pr stop i of Inl hit \<Rightarrow> hit | Inr j \<Rightarrow> pair_scan1 m s pr stop j) = pair_scan1 m s pr stop i"
proof (induction m s pr stop i rule: pair_scan16.induct)
  case (1 m s pr stop i)
  show ?case
    using 1 pair_block [of i stop m s pr] by (subst pair_scan16.simps) (auto simp: Let_def)
qed

lemma str_pair_scan_eq: "str_pair_scan m s i stop pr = pair_scan1 m s pr stop i"
  using pair_scan32_eq [of m s pr stop i] pair_scan16_eq [of m s pr stop]
  by (simp add: str_pair_scan_def split: sum.splits)

lemma pair_scan1_cases:
  obtains "pair_scan1 m s pr stop i = -1" "\<And>j. i \<le> j \<Longrightarrow> j \<le> stop \<Longrightarrow> \<not> pair_at m s pr j"
  | h where "pair_scan1 m s pr stop i = h" "i \<le> h" "h \<le> stop" "pair_at m s pr h"
      "\<And>j. i \<le> j \<Longrightarrow> j < h \<Longrightarrow> \<not> pair_at m s pr j"
proof (induction m s pr stop i arbitrary: thesis rule: pair_scan1.induct)
  case (1 m s pr stop i)
  show ?case
  proof (cases "i \<le> stop \<and> \<not> pair_at m s pr i")
    case False
    show ?thesis
    proof (cases "i \<le> stop")
      case True
      with False show ?thesis by (intro "1.prems"(2) [of i]) (auto simp: pair_scan1_hit)
    next
      case False
      then have "pair_scan1 m s pr stop i = -1" by (subst pair_scan1.simps) simp
      with False show ?thesis by (intro "1.prems"(1)) auto
    qed
  next
    case True
    then have e: "pair_scan1 m s pr stop i = pair_scan1 m s pr stop (i + 1)" by (subst pair_scan1.simps) simp
    have first: "\<not> pair_at m s pr j" if "i \<le> j" "i + 1 \<le> j \<Longrightarrow> \<not> pair_at m s pr j" for j
      using that True by (cases "j = i") auto
    show ?thesis
    proof (rule "1.IH")
      show "i \<le> stop" "\<not> pair_at m s pr i" using True by auto
      assume "pair_scan1 m s pr stop (i + 1) = -1" "\<And>j. i + 1 \<le> j \<Longrightarrow> j \<le> stop \<Longrightarrow> \<not> pair_at m s pr j"
      with e first show thesis by (intro "1.prems"(1)) auto
    next
      fix h
      assume "pair_scan1 m s pr stop (i + 1) = h" "i + 1 \<le> h" "h \<le> stop" "pair_at m s pr h"
        "\<And>j. i + 1 \<le> j \<Longrightarrow> j < h \<Longrightarrow> \<not> pair_at m s pr j"
      with e first show thesis by (intro "1.prems"(2) [of h]) auto
    qed
  qed
qed

subsection \<open>The search\<close>

definition occurs :: "mem \<Rightarrow> addr \<Rightarrow> addr \<Rightarrow> nat \<Rightarrow> int \<Rightarrow> bool" where
  "occurs m s needle k i \<longleftrightarrow> peek m (s + nat i) k = peek m needle k"

definition pick_ok :: "mem \<Rightarrow> addr \<Rightarrow> nat \<Rightarrow> pick3 \<Rightarrow> bool" where
  "pick_ok m needle k p = (case p of (i, b, _) \<Rightarrow> 0 \<le> i \<and> i < int k \<and> b = m (needle + nat i))"

lemma pick_fold_ok:
  assumes "2 \<le> k" "set ps \<subseteq> {..<k}" "pick_ok m needle k (fst st)" "pick_ok m needle k (snd st)"
  shows "pick_ok m needle k (fst (fold (pick_step m needle) ps st)) \<and> pick_ok m needle k (snd (fold (pick_step m needle) ps st))"
  using assms(2-4)
proof (induction ps arbitrary: st)
  case (Cons p ps)
  have "pick_ok m needle k (fst (pick_step m needle p st))" "pick_ok m needle k (snd (pick_step m needle p st))"
    using Cons.prems by (auto simp: pick_step_def pick_ok_def Let_def split: prod.splits)
  with Cons show ?case by simp
qed simp

lemma pick_pair_ok:
  assumes "2 \<le> k"
  shows "case pick_pair m needle k of ((i1, b1), (i2, b2)) \<Rightarrow>
    0 \<le> i1 \<and> i1 < int k \<and> b1 = m (needle + nat i1) \<and> 0 \<le> i2 \<and> i2 < int k \<and> b2 = m (needle + nat i2)"
proof -
  have s: "pick_ok m needle k (fst (pick_start m needle))" "pick_ok m needle k (snd (pick_start m needle))"
    using assms by (auto simp: pick_start_def pick_ok_def Let_def)
  have r: "set [2..<k] \<subseteq> {..<k}" by auto
  show ?thesis
    using pick_fold_ok [OF assms r s] by (auto simp: pick_pair_def pick_ok_def split: prod.splits)
qed

lemma occurs_pair:
  assumes "2 \<le> k" "0 \<le> i" "occurs m s needle k i"
  shows "pair_at m s (pick_pair m needle k) i"
proof -
  obtain i1 b1 i2 b2 where p: "pick_pair m needle k = ((i1, b1), (i2, b2))" by (metis prod.exhaust)
  have o: "m (s + nat i + j) = m (needle + j)" if "j < k" for j
    using assms(3) that unfolding occurs_def peek_eq_iff by blast
  have "m (nat (int s + i + j)) = m (needle + nat j)" if "0 \<le> j" "j < int k" for j
    using o [of "nat j"] that assms(2) by (simp add: nat_add_distrib)
  then show ?thesis using pick_pair_ok [OF assms(1), of m needle] by (simp add: p pair_at_def)
qed

definition needle_answer :: "mem \<Rightarrow> addr \<Rightarrow> addr \<Rightarrow> nat \<Rightarrow> int \<Rightarrow> int \<Rightarrow> int \<Rightarrow> bool" where
  "needle_answer m s needle k stop i r \<longleftrightarrow>
     (if 0 \<le> r then i \<le> r \<and> r \<le> stop \<and> occurs m s needle k r \<and> (\<forall>j. i \<le> j \<and> j < r \<longrightarrow> \<not> occurs m s needle k j)
      else if r = -1 then \<forall>j. i \<le> j \<and> j \<le> stop \<longrightarrow> \<not> occurs m s needle k j
      else i < -2 - r \<and> -2 - r \<le> stop + 1 \<and> (\<forall>j. i \<le> j \<and> j < -2 - r \<longrightarrow> \<not> occurs m s needle k j))"

lemma needle_answer_step:
  assumes "needle_answer m s needle k stop j r" "i < j" "\<And>l. i \<le> l \<Longrightarrow> l < j \<Longrightarrow> \<not> occurs m s needle k l"
  shows "needle_answer m s needle k stop i r"
proof -
  have "\<not> occurs m s needle k l" if "i \<le> l" "j \<le> l \<Longrightarrow> \<not> occurs m s needle k l" for l
    using assms(3) that by (cases "l < j") auto
  then show ?thesis using assms(1,2) by (auto simp: needle_answer_def split: if_splits)
qed

lemma needle_loop_ok:
  "2 \<le> k \<Longrightarrow> 0 \<le> i \<Longrightarrow> pr = pick_pair m needle k \<Longrightarrow>
     needle_answer m s needle k stop i (needle_loop m s needle k pr stop candidates skipped i)"
proof (induction m s needle k pr stop candidates skipped i rule: needle_loop.induct)
  case (1 m s needle k pr stop candidates skipped i)
  have none: "\<not> occurs m s needle k j" if "i \<le> j" "\<not> pair_at m s pr j" for j
    using occurs_pair [OF "1.prems"(1), of j] "1.prems"(2,3) that by auto
  show ?case
  proof (cases "i \<le> stop")
    case False
    then show ?thesis by (subst needle_loop.simps) (auto simp: needle_answer_def)
  next
    case i: True
    show ?thesis
    proof (cases rule: pair_scan1_cases [of m s pr stop i])
      case 1
      then show ?thesis using i none
        by (subst needle_loop.simps) (auto simp: Let_def str_pair_scan_eq needle_answer_def)
    next
      case (2 h)
      have h: "0 \<le> h" using 2(2) "1.prems"(2) by simp
      let ?c = "candidates + 1" and ?k = "skipped + (h - i)"
      have unf: "needle_loop m s needle k pr stop candidates skipped i =
        (if occurs m s needle k h then h else if ?c \<ge> 50 \<and> ?k < ?c * 8 then -2 - (h + 1)
         else needle_loop m s needle k pr stop ?c ?k (h + 1))"
        using i 2 h by (subst needle_loop.simps) (simp add: Let_def str_pair_scan_eq memcmp_eq_0 occurs_def)
      have before: "\<not> occurs m s needle k j" if "i \<le> j" "j < h" for j using none 2(5) that by blast
      show ?thesis
      proof (cases "occurs m s needle k h")
        case True
        then show ?thesis using unf before 2 h by (auto simp: needle_answer_def)
      next
        case no: False
        have upto: "\<not> occurs m s needle k j" if "i \<le> j" "j < h + 1" for j
          using before no that by (cases "j = h") auto
        show ?thesis
        proof (cases "?c \<ge> 50 \<and> ?k < ?c * 8")
          case True
          then show ?thesis using unf no upto 2 h by (auto simp: needle_answer_def)
        next
          case False
          have "needle_answer m s needle k stop (h + 1) (needle_loop m s needle k pr stop ?c ?k (h + 1))"
            by (rule "1.IH" [where x = h]) (use i 2 h no False "1.prems" in \<open>auto simp: str_pair_scan_eq memcmp_eq_0 occurs_def\<close>)
          then have "needle_answer m s needle k stop i (needle_loop m s needle k pr stop ?c ?k (h + 1))"
            by (rule needle_answer_step) (use 2 upto in auto)
          moreover have "needle_loop m s needle k pr stop candidates skipped i = needle_loop m s needle k pr stop ?c ?k (h + 1)"
            unfolding unf using no False by (simp only: if_False)
          ultimately show ?thesis by (simp only:)
        qed
      qed
    qed
  qed
qed


text \<open>The answer of the search, and the restart it asks for.\<close>

lemma str_find_needle_ok:
  assumes "s \<noteq> 0" "needle \<noteq> 0" "0 \<le> i" "2 \<le> k" "k \<le> 32" "0 \<le> len" "is_int32 len"
  shows "needle_answer m s needle k (len - int k) i (str_find_needle m s i len needle (int k))"
proof -
  have st: "i32 (len - int k) = len - int k" using assms(4-7) by (intro i32_id) (auto simp: is_int32_def)
  show ?thesis
  proof (cases "i > len - int k")
    case True
    then show ?thesis using assms st by (auto simp: str_find_needle_def needle_answer_def)
  next
    case False
    then show ?thesis using assms st needle_loop_ok [OF assms(4,3)] by (simp add: str_find_needle_def)
  qed
qed

subsection \<open>Properties\<close>

lemma hash_loop_range: "hash_loop m p i len h = (h', j) \<Longrightarrow> i \<le> len \<Longrightarrow> i \<le> j \<and> j \<le> len \<and> len < j + 8"
proof (induction m p i len h rule: hash_loop.induct)
  case (1 m p i len h)
  then show ?case by (cases "i + 8 \<le> len") (auto simp: hash_loop.simps [of m p i len h])
qed

lemma hash_loop_cong:
  "peek m p len = peek m' p' len \<Longrightarrow> hash_loop m p i len h = hash_loop m' p' i len h"
proof (induction m p i len h rule: hash_loop.induct)
  case (1 m p i len h)
  show ?case
  proof (cases "i + 8 \<le> len")
    case True
    have "peek m (p + i) 8 = peek m' (p' + i) 8"
      using "1.prems" True unfolding peek_eq_iff by (auto simp: add.assoc)
    with 1 True show ?thesis by (simp add: hash_loop.simps [of m p i len h] hash_loop.simps [of m' p' i len h])
  qed (simp add: hash_loop.simps [of m p i len h] hash_loop.simps [of m' p' i len h])
qed

lemma hash_tail_cong:
  assumes "peek m p len = peek m' p' len" "i < len"
  shows "hash_tail m p i len = hash_tail m' p' i len"
proof -
  have b: "m (p + j) = m' (p' + j)" if "j < len" for j using assms(1) that unfolding peek_eq_iff by blast
  show ?thesis
  proof (cases "len - i \<ge> 4")
    case True
    have e: "p + len - 4 = p + (len - 4)" "p' + len - 4 = p' + (len - 4)" using True by auto
    have w: "peek m (p + j) 4 = peek m' (p' + j) 4" if "j + 4 \<le> len" for j
      unfolding peek_eq_iff add.assoc
    proof (intro allI impI)
      fix x :: nat assume "x < 4"
      with that show "m (p + (j + x)) = m' (p' + (j + x))" by (intro b) simp
    qed
    have "peek m (p + i) 4 = peek m' (p' + i) 4" by (rule w) (use True in simp)
    moreover have "peek m (p + (len - 4)) 4 = peek m' (p' + (len - 4)) 4" by (rule w) (use True in simp)
    ultimately show ?thesis using True unfolding hash_tail_def Let_def e by (simp only: if_True)
  next
    case False
    have "m (p + (len - 1)) = m' (p' + (len - 1))" "m (p + (i + (len - i) div 2)) = m' (p' + (i + (len - i) div 2))"
      by (rule b, use assms(2) in simp)+
    moreover have "p + len - 1 = p + (len - 1)" "p' + len - 1 = p' + (len - 1)" using assms(2) by auto
    ultimately show ?thesis using False b [OF assms(2)] unfolding hash_tail_def Let_def by (simp only: if_False add.assoc)
  qed
qed

lemma hash_31: "0 \<le> uint (h AND 0x7FFFFFFF) \<and> uint (h AND 0x7FFFFFFF) < 2 ^ 31" for h :: "64 word"
proof -
  have "h AND 0x7FFFFFFF = take_bit 31 h" by (simp add: take_bit_eq_mask mask_eq_exp_minus_1)
  then have "uint (h AND 0x7FFFFFFF) = uint h mod 2 ^ 31" by (simp only: unsigned_take_bit_eq) (simp add: take_bit_eq_mod)
  then show ?thesis by simp
qed

lemma str_hash_31: "0 \<le> str_hash mum m p n \<and> str_hash mum m p n < 2 ^ 31"
  unfolding str_hash_def str_hash_words_def Let_def by (simp only: hash_31 split: prod.split if_split) blast

lemma str_hash_cong:
  assumes "p \<noteq> 0" "p' \<noteq> 0" "peek m p (nat n) = peek m' p' (nat n)"
  shows "str_hash mum m p n = str_hash mum m' p' n"
proof -
  define k where "k = nat (if n < 0 then 0 else n)"
  have k: "peek m p k = peek m' p' k" using assms(3) by (simp add: k_def)
  obtain h i where l: "hash_loop m p 0 k (K0 XOR word_of_nat k) = (h, i)" by fastforce
  with hash_loop_cong [OF k] have l': "hash_loop m' p' 0 k (K0 XOR word_of_nat k) = (h, i)" by metis
  have "hash_tail m p i k = hash_tail m' p' i k \<or> \<not> k - i > 0" using hash_tail_cong [OF k, of i] by auto
  with l l' show ?thesis using assms(1,2)
    unfolding str_hash_def Let_def by (simp only: k simp_thms if_False flip: k_def) auto
qed

text \<open>C9. A string key has one hash: the bytes alone decide it, wherever they lie, and a target without
  a 128-bit product computes the same number as one with it.  The answer fits a non-negative
  \<open>Int\<close>.\<close>

theorem str_hash_one_answer:
  assumes "p \<noteq> 0" "p' \<noteq> 0" "peek m p (nat n) = peek m' p' (nat n)"
  shows "str_hash mum_narrow m p n = str_hash mum_wide m' p' n
    \<and> 0 \<le> str_hash mum_wide m' p' n \<and> str_hash mum_wide m' p' n < 2 ^ 31"
proof -
  have "mum_narrow = mum_wide" by (simp add: fun_eq_iff mum_narrow_wide)
  then show ?thesis
    using str_hash_cong [OF assms, of mum_wide] str_hash_31 [of mum_wide m' p' n] by simp
qed

theorem str_hash_one_answer_witness:
  "str_hash mum_narrow (poke (\<lambda>_. 0) 100 [107, 101, 121]) 100 3 = str_hash mum_wide (poke (\<lambda>_. 1) 200 [107, 101, 121]) 200 3"
  using str_hash_one_answer [of 100 200 "poke (\<lambda>_. 0) 100 [107, 101, 121]" 3 "poke (\<lambda>_. 1) 200 [107, 101, 121]"]
  by (simp add: poke_same_len)

text \<open>C10. \<open>str_find_needle\<close> answers with the first occurrence at or after the start, -1 only when there is
  none, and \<open>-2 - at\<close> only when every start before \<open>at\<close> has been ruled out, so that the caller may go on
  from \<open>at\<close>.\<close>

theorem str_find_needle_first:
  assumes "s \<noteq> 0" "needle \<noteq> 0" "0 \<le> i" "2 \<le> k" "k \<le> 32" "0 \<le> len" "is_int32 len"
    and r: "r = str_find_needle m s i len needle (int k)"
  shows "(if 0 \<le> r then i \<le> r \<and> r \<le> len - int k \<and> occurs m s needle k r
            \<and> (\<forall>j. i \<le> j \<and> j < r \<longrightarrow> \<not> occurs m s needle k j)
          else if r = -1 then \<forall>j. i \<le> j \<and> j \<le> len - int k \<longrightarrow> \<not> occurs m s needle k j
          else i < -2 - r \<and> -2 - r \<le> len - int k + 1 \<and> (\<forall>j. i \<le> j \<and> j < -2 - r \<longrightarrow> \<not> occurs m s needle k j))"
  using str_find_needle_ok [OF assms(1-7)] unfolding needle_answer_def r .

theorem str_find_needle_first_witness:
  "let m = poke (poke (\<lambda>_. 0) 100 [97, 98, 97, 99]) 200 [97, 99]; r = str_find_needle m 100 0 4 200 2 in
   (if 0 \<le> r then occurs m 100 200 2 r else if r = -1 then \<not> occurs m 100 200 2 2 else -2 - r \<le> 3)"
proof -
  let ?m = "poke (poke (\<lambda>_. 0) 100 [97, 98, 97, 99]) 200 [97, 99] :: mem"
  show ?thesis
    using str_find_needle_first [of 100 200 0 2 4 "str_find_needle ?m 100 0 4 200 2" ?m]
    by (auto simp: is_int32_def Let_def split: if_splits)
qed

end
