(* ===== verification/Strings.thy ===== *)
theory Strings
  imports Libc Arena_Inv
begin

unbundle bit_operations_syntax

text \<open>
  The string runtime of \<open>runtime/lang_runtime.c\<close>, from \<open>str_equals\<close> to \<open>str_equals_n\<close>: building,
  slicing, hashing, searching and appending to byte strings in memory.  A C string is an address; a
  call that allocates takes the seam and the runtime state and returns the new state or the failure.
  Signed arithmetic wraps at 32 bits and a conversion to \<open>size_t\<close> is \<open>u64\<close>.
\<close>

subsection \<open>Definitions\<close>

text \<open>The bytes of the process, and a change of them.\<close>

abbreviation rmem :: "('a, 'b) rt_scheme \<Rightarrow> mem" where
  "rmem s \<equiv> mem (hp s)"

definition upd_mem :: "(mem \<Rightarrow> mem) \<Rightarrow> ('a, 'b) rt_scheme \<Rightarrow> ('a, 'b) rt_scheme" where
  "upd_mem f s = s\<lparr>hp := (hp s)\<lparr>mem := f (mem (hp s))\<rparr>\<rparr>"

type_synonym ('a, 'b) built = "rt_error + addr \<times> ('a, 'b) rt_scheme"

text \<open>Allocate, then fill: the result pointer is never tested, so a refusal is a store through null.\<close>

definition build :: "'a seam \<Rightarrow> nat \<Rightarrow> (addr \<Rightarrow> mem \<Rightarrow> mem) \<Rightarrow> ('a, 'b) rt_scheme \<Rightarrow> ('a, 'b) built" where
  "build S n fill s =
     (let (r, s') = rt_alloc S n s in if r = 0 then Inl Null_store else Inr (r, upd_mem (fill r) s'))"

definition str_equals :: "mem \<Rightarrow> addr \<Rightarrow> addr \<Rightarrow> int" where
  "str_equals m s1 s2 = (if strcmp m s1 s2 = 0 then 1 else 0)"

definition str_concat :: "'a seam \<Rightarrow> addr \<Rightarrow> addr \<Rightarrow> ('a, 'b) rt_scheme \<Rightarrow> ('a, 'b) built" where
  "str_concat S s1 s2 s =
     (let len1 = strlen (rmem s) s1; len2 = strlen (rmem s) s2 in
      build S (u64 (int len1 + int len2 + 1))
        (\<lambda>r m. memcpy (memcpy m r s1 len1) (r + len1) s2 (len2 + 1)) s)"

text \<open>The clamps of \<open>str_substring\<close> and \<open>str_slice\<close>.\<close>

definition substring_bounds :: "int \<Rightarrow> int \<Rightarrow> int \<Rightarrow> int \<times> int" where
  "substring_bounds start len str_len =
     (let (start, len) = (if start < 0 \<or> start \<ge> str_len then (str_len, 0) else (start, len));
          len = (if i32 (start + len) > str_len then str_len - start else len)
      in (start, len))"

definition cut :: "'a seam \<Rightarrow> addr \<Rightarrow> int \<times> int \<Rightarrow> ('a, 'b) rt_scheme \<Rightarrow> ('a, 'b) built" where
  "cut S s r st =
     (let (start, len) = r in
      build S (u64 (i32 (len + 1)))
        (\<lambda>r m. (strncpy m r (s + nat start) (u64 len))(nat (int r + len) := 0)) st)"

definition str_substring :: "'a seam \<Rightarrow> addr \<Rightarrow> int \<Rightarrow> int \<Rightarrow> ('a, 'b) rt_scheme \<Rightarrow> ('a, 'b) built" where
  "str_substring S s start len st =
     cut S s (substring_bounds start len (i32 (int (strlen (rmem st) s)))) st"

definition slice_bounds :: "int \<Rightarrow> int \<Rightarrow> int \<Rightarrow> int \<times> int" where
  "slice_bounds start len base_len =
     (let base_len = (if base_len < 0 then 0 else base_len);
          (start, len) = (if start < 0 \<or> start \<ge> base_len then (base_len, 0) else (start, len));
          len = (if len < 0 then 0 else len);
          len = (if i32 (start + len) > base_len then base_len - start else len)
      in (start, len))"

definition str_slice :: "'a seam \<Rightarrow> addr \<Rightarrow> int \<Rightarrow> int \<Rightarrow> int \<Rightarrow> ('a, 'b) rt_scheme \<Rightarrow> ('a, 'b) built" where
  "str_slice S s start len base_len st = cut S s (slice_bounds start len base_len) st"

definition prismio_cstr_len :: "mem \<Rightarrow> addr \<Rightarrow> rt_error + int" where
  "prismio_cstr_len m s =
     (if s = 0 then Inr 0
      else let n = strlen m s in
           if int n > INT_MAX then Inl (Exit ''string exceeds the maximum'') else Inr (int n))"

definition str_with_capacity :: "'a seam \<Rightarrow> int \<Rightarrow> ('a, 'b) rt_scheme \<Rightarrow> ('a, 'b) built" where
  "str_with_capacity S len0 st =
     (let len = nat (if len0 < 0 then 0 else len0) in build S (len + 1) (\<lambda>r m. m(r + len := 0)) st)"

definition str_clone :: "'a seam \<Rightarrow> addr \<Rightarrow> ('a, 'b) rt_scheme \<Rightarrow> ('a, 'b) built" where
  "str_clone S s st =
     (let len = i32 (int (strlen (rmem st) s)) in build S (u64 (i32 (len + 1))) (\<lambda>r m. strcpy m r s) st)"

definition str_own :: "'a seam \<Rightarrow> addr \<Rightarrow> 64 word \<Rightarrow> ('a, 'b) rt_scheme \<Rightarrow> ('a, 'b) built" where
  "str_own S data word st =
     (if word AND 0x580000000 = 0 then Inr (data, st)
      else let len = unat (word AND 0x7FFFFFFF) in
           build S (len + 1) (\<lambda>r m. (memcpy m r data len)(r + len := 0)) st)"

definition str_clone_n :: "'a seam \<Rightarrow> addr \<Rightarrow> int \<Rightarrow> ('a, 'b) rt_scheme \<Rightarrow> ('a, 'b) built" where
  "str_clone_n S s n0 st =
     (let n = nat (if n0 < 0 then 0 else n0) in build S (n + 1) (\<lambda>r m. (memcpy m r s n)(r + n := 0)) st)"

definition str_equals_n :: "mem \<Rightarrow> addr \<Rightarrow> addr \<Rightarrow> int \<Rightarrow> int" where
  "str_equals_n m a b n = (if n \<le> 0 then 1 else if memcmp m a b (nat n) = 0 then 1 else 0)"

definition ptr_null :: addr where
  "ptr_null = 0"

definition ptr_is_null :: "addr \<Rightarrow> int" where
  "ptr_is_null p = (if p = 0 then 1 else 0)"

text \<open>The digits of an integer, least significant first (the \<open>do\<close> loop of \<open>int_to_str\<close>).\<close>

fun digits_loop :: "nat \<Rightarrow> byte list" where
  "digits_loop magnitude =
     (let d = word_of_nat (48 + magnitude mod 10) in
      if magnitude div 10 = 0 then [d] else d # digits_loop (magnitude div 10))"

definition int_to_str :: "'a seam \<Rightarrow> int \<Rightarrow> ('a, 'b) rt_scheme \<Rightarrow> ('a, 'b) built" where
  "int_to_str S n st =
     (let magnitude = (if n < 0 then u32 (0 - int (u32 n)) else u32 n);
          digits = digits_loop magnitude
      in build S 32 (\<lambda>r m. poke m r ((if n < 0 then [45] else []) @ rev digits @ [0])) st)"

text \<open>The two-digit formatter of \<open>str_int_inline_words\<close>: \<open>at\<close> walks down from the end of the scratch
  buffer, so the bytes written so far are a list that grows at its head.\<close>

definition pairs_text :: string where
  "pairs_text = ''00010203040506070809101112131415161718192021222324252627282930313233343536373839404142434445464748495051525354555657585960616263646566676869707172737475767778798081828384858687888990919293949596979899''"

definition pairs :: "nat \<Rightarrow> byte" where
  "pairs i = of_char (pairs_text ! i)"

function inline_loop :: "nat \<Rightarrow> byte list \<Rightarrow> nat \<times> byte list" where
  "inline_loop magnitude out =
     (if magnitude \<ge> 100
      then let quotient = magnitude div 100; pair = (magnitude - quotient * 100) * 2
           in inline_loop quotient (pairs pair # pairs (pair + 1) # out)
      else (magnitude, out))"
  by pat_completeness auto
termination
  by (relation "measure fst") auto

definition str_int_inline_bytes :: "int \<Rightarrow> byte list" where
  "str_int_inline_bytes v =
     (let magnitude = (if v < 0 then u32 (- v) else u32 v);
          (rest, out) = inline_loop magnitude [];
          out = (if rest < 10 then word_of_nat (48 + rest) # out
                 else pairs (rest * 2) # pairs (rest * 2 + 1) # out)
      in if v < 0 then 45 # out else out)"

definition str_int_inline_words :: "int \<Rightarrow> nat \<times> byte list" where
  "str_int_inline_words v =
     (let out = str_int_inline_bytes v in (length out, out @ replicate (16 - length out) 0))"

subsection \<open>Building\<close>

lemma upd_mem_poke: "f (rmem s) = poke (rmem s) q bs \<Longrightarrow> upd_mem f s = rt_poke q bs s"
  by (simp add: upd_mem_def rt_poke_def)

lemma rmem_upd [simp]: "rmem (upd_mem f s) = f (rmem s)" "rt.more (upd_mem f s) = rt.more s"
  by (simp_all add: upd_mem_def)

text \<open>Bytes that lie inside a block the program holds.\<close>

definition within :: "owned \<Rightarrow> addr \<Rightarrow> nat \<Rightarrow> bool" where
  "within B p n \<longleftrightarrow> (\<exists>q w k. B q = Some (w, k) \<and> q \<le> p \<and> p + n \<le> q + k)"

lemma within_kept:
  assumes "within B p n" "rt_kept B s s'"
  shows "peek (rmem s') p n = peek (rmem s) p n"
proof -
  obtain q w k where q: "B q = Some (w, k)" "q \<le> p" "p + n \<le> q + k" using assms(1) by (auto simp: within_def)
  then have "peek (rmem s') q k = peek (rmem s) q k" using assms(2) by (simp add: rt_kept_def kept_def)
  then show ?thesis using q(2,3) by (rule peek_sub)
qed

lemma within_fresh:
  assumes "within B p n" "fresh_block B r k"
  shows "apart p n r k"
proof -
  obtain q w j where q: "B q = Some (w, j)" "q \<le> p" "p + n \<le> q + j" using assms(1) by (auto simp: within_def)
  then have "apart q j r k" using assms(2) by (auto simp: fresh_block_def)
  then show ?thesis using q by (auto elim: apart_sub)
qed

lemma cstr_kept:
  assumes "cstr (rmem s) p a" "within B p (length a + 1)" "rt_kept B s s'"
  shows "cstr (rmem s') p a"
proof -
  have "peek (rmem s') p (length a + 1) = peek (rmem s) p (length a + 1)" using within_kept [OF assms(2,3)] .
  then have "\<And>i. i \<le> length a \<Longrightarrow> rmem s' (p + i) = rmem s (p + i)" unfolding peek_eq_iff by simp
  with cstr_cong [of a "rmem s'" p "rmem s"] assms(1) show ?thesis by simp
qed

lemma cstr_peek: "cstr m p a \<Longrightarrow> peek m p (length a + 1) = a @ [0]"
  unfolding peek_add by (simp add: cstr_def peek_def)

lemma strncpy_view:
  "0 \<notin> set (peek m s n) \<Longrightarrow> d \<le> s \<or> s + n \<le> d \<Longrightarrow> strncpy m d s n = poke m d (peek m s n)"
proof (induction m d s n rule: strncpy.induct)
  case (2 m d s n)
  have b: "m s \<noteq> 0" "0 \<notin> set (peek m (Suc s) n)" using "2.prems"(1) by (auto simp: peek_Suc)
  have "peek (m(d := m s)) (Suc s) n = peek m (Suc s) n"
    using "2.prems"(2) unfolding peek_eq_iff by auto
  moreover have "Suc d \<le> Suc s \<or> Suc s + n \<le> Suc d" using "2.prems"(2) by auto
  ultimately show ?case using "2.IH" [OF b(1)] b by (simp add: peek_Suc poke_Cons del: fun_upd_apply)
qed simp

text \<open>What a slice should be: out of range is empty, a negative length is 0, a long one stops at the
  end.\<close>

definition slice_of :: "int \<Rightarrow> int \<Rightarrow> byte list \<Rightarrow> byte list" where
  "slice_of start len v =
     (if start < 0 \<or> start \<ge> int (length v) then [] else take (nat len) (drop (nat start) v))"

lemma slice_bounds_ok:
  assumes "is_int32 start" "is_int32 len" "0 \<le> n" "n < INT_MAX" "start + len < 2 ^ 31"
    and "slice_bounds start len n = (a, k)"
  shows "0 \<le> a" "0 \<le> k" "a + k \<le> n" "start < 0 \<or> start \<ge> n \<Longrightarrow> a = n \<and> k = 0"
    "0 \<le> start \<Longrightarrow> start < n \<Longrightarrow> a = start \<and> k = min (max 0 len) (n - start)"
proof -
  have i: "is_int32 (start + len) \<or> start < 0 \<or> len < 0" "is_int32 n"
    using assms(1-5) by (auto simp: is_int32_def INT_MAX_def)
  show "0 \<le> a" "0 \<le> k" "a + k \<le> n" "start < 0 \<or> start \<ge> n \<Longrightarrow> a = n \<and> k = 0"
    "0 \<le> start \<Longrightarrow> start < n \<Longrightarrow> a = start \<and> k = min (max 0 len) (n - start)"
    using assms(6,3) i assms(1) by (auto simp: slice_bounds_def Let_def min_def max_def split: if_splits)
qed

text \<open>The clamp adds before it compares, so a length that overflows the sum is not clamped.\<close>

lemma slice_overflow_escapes: "slice_bounds 1 2147483647 5 = (1, 2147483647)"
  by (simp add: slice_bounds_def i32_def)

lemma substring_negative_escapes: "substring_bounds 1 (-1) 5 = (1, -1)"
  by (simp add: substring_bounds_def i32_def)

text \<open>The outcome of a builder: a new block with the bytes, or a store through null.\<close>

definition built_ok :: "'a seam \<Rightarrow> (owned \<Rightarrow> ('a, 'b) rt_scheme \<Rightarrow> bool) \<Rightarrow> owned \<Rightarrow> ('a, 'b) rt_scheme \<Rightarrow> nat \<Rightarrow> byte list \<Rightarrow> ('a, 'b) built \<Rightarrow> bool" where
  "built_ok S rinv B s n bs out = (case out of
       Inl e \<Rightarrow> e = Null_store \<and> fst (rt_alloc S n s) = 0
     | Inr (r, s') \<Rightarrow> fresh_block B r n \<and> (\<exists>w. rinv (B(r \<mapsto> (w, n))) s') \<and> rt_kept B s s'
         \<and> rt.more s' = rt.more s \<and> peek (rmem s') r (length bs) = bs)"

context rt_spec
begin

lemma build_ok:
  assumes inv: "rinv B s" and n: "0 < n" "n < 2 ^ 63" "length bs \<le> n"
    and fill: "\<And>r s'. fresh_block B r n \<Longrightarrow> rt_kept B s s' \<Longrightarrow> fill r (rmem s') = poke (rmem s') r bs"
  shows "built_ok S rinv B s n bs (build S n fill s)"
proof -
  obtain r s1 where al: "rt_alloc S n s = (r, s1)" by fastforce
  note L = rt_alloc_law [OF inv n(1,2) al]
  show ?thesis
  proof (cases "r = 0")
    case True
    then show ?thesis by (simp add: build_def al built_ok_def)
  next
    case False
    then obtain w where f: "fresh_block B r n" "rinv (B(r \<mapsto> (w, n))) s1" and k: "rt_kept B s s1" "rt.more s1 = rt.more s"
      using L by auto
    let ?s = "rt_poke r bs s1"
    have e: "upd_mem (fill r) s1 = ?s" by (rule upd_mem_poke) (rule fill [OF f(1) k(1)])
    have "rinv (B(r \<mapsto> (w, n))) ?s" by (rule rt_write_law [OF f(2), of r w n]) (use n in simp_all)
    moreover have "rt_kept B s ?s"
      unfolding rt_kept_def kept_def
    proof (intro allI impI)
      fix a v j assume a: "B a = Some (v, j)"
      then have "apart a j r n" using f(1) by (auto simp: fresh_block_def)
      then have "apart a j r (length bs)" using n(3) by (auto elim: apart_sub)
      then show "peek (rmem ?s) a j = peek (rmem s) a j"
        using k(1) a by (simp add: rt_poke_def peek_poke_apart rt_kept_def kept_def)
    qed
    moreover have "peek (rmem ?s) r (length bs) = bs" "rt.more ?s = rt.more s"
      using k(2) by (simp_all add: rt_poke_def poke_same)
    ultimately show ?thesis using False f(1) by (auto simp: build_def al built_ok_def e)
  qed
qed

lemma str_concat_ok:
  assumes inv: "rinv B s" and a: "cstr (rmem s) s1 a" "within B s1 (length a + 1)"
    and b: "cstr (rmem s) s2 b" "within B s2 (length b + 1)" and n: "length a + length b + 1 < 2 ^ 63"
  shows "built_ok S rinv B s (length a + length b + 1) (a @ b @ [0]) (str_concat S s1 s2 s)"
proof -
  let ?n = "length a + length b + 1"
  have u: "u64 (int (length a) + int (length b) + 1) = ?n" using n by (simp add: u64_def)
  have "built_ok S rinv B s ?n (a @ b @ [0])
    (build S ?n (\<lambda>r m. memcpy (memcpy m r s1 (length a)) (r + length a) s2 (length b + 1)) s)"
  proof (rule build_ok [OF inv])
    fix r s' assume f: "fresh_block B r ?n" and k: "rt_kept B s s'"
    have ap: "apart s1 (length a + 1) r ?n" "apart s2 (length b + 1) r ?n"
      using within_fresh [OF a(2) f] within_fresh [OF b(2) f] by auto
    have pa: "peek (rmem s') s1 (length a) = a" using cstr_kept [OF a k] by (simp add: cstr_def)
    have pb: "peek (poke (rmem s') r a) s2 (length b + 1) = b @ [0]"
    proof -
      have "apart s2 (length b + 1) r (length a)" using ap(2) by (auto simp: apart_def)
      with cstr_peek [OF cstr_kept [OF b k]] show ?thesis by (simp only: peek_poke_apart)
    qed
    show "memcpy (memcpy (rmem s') r s1 (length a)) (r + length a) s2 (length b + 1) = poke (rmem s') r (a @ b @ [0])"
    proof -
      have 1: "memcpy (rmem s') r s1 (length a) = poke (rmem s') r a"
        using ap(1) by (subst memcpy_eq) (auto simp: apart_def pa)
      have 2: "memcpy m (r + length a) s2 (length b + 1) = poke m (r + length a) (peek m s2 (length b + 1))" for m
        using ap(2) by (intro memcpy_eq) (auto simp: apart_def)
      show ?thesis unfolding 1 2 by (simp only: poke_append pb)
    qed
  qed (use n in simp_all)
  then show ?thesis unfolding str_concat_def Let_def strlen_cstr [OF a(1)] strlen_cstr [OF b(1)] u .
qed

lemma cut_ok:
  assumes inv: "rinv B st" and r: "0 \<le> start" "0 \<le> len" "len < INT_MAX"
    and w: "len = 0 \<or> within B (s + nat start) (nat len)" and z: "0 \<notin> set (peek (rmem st) (s + nat start) (nat len))"
  shows "built_ok S rinv B st (nat len + 1) (peek (rmem st) (s + nat start) (nat len) @ [0]) (cut S s (start, len) st)"
proof -
  let ?p = "s + nat start" and ?k = "nat len"
  have u: "u64 (i32 (len + 1)) = ?k + 1" "u64 len = ?k"
    using r by (simp_all add: u64_def is_int32_def INT_MAX_def nat_add_distrib)
  have "built_ok S rinv B st (?k + 1) (peek (rmem st) ?p ?k @ [0])
    (build S (?k + 1) (\<lambda>r m. (strncpy m r ?p ?k)(nat (int r + len) := 0)) st)"
  proof (rule build_ok [OF inv])
    fix r s' assume f: "fresh_block B r (?k + 1)" and k: "rt_kept B st s'"
    have e: "nat (int r + len) = r + ?k" using r by (simp add: nat_add_distrib)
    have p: "peek (rmem s') ?p ?k = peek (rmem st) ?p ?k" using w within_kept [OF _ k] by fastforce
    have "strncpy (rmem s') r ?p ?k = poke (rmem s') r (peek (rmem st) ?p ?k)"
    proof (cases "len = 0")
      case False
      then have "apart ?p ?k r (?k + 1)" using w within_fresh [OF _ f] by blast
      then show ?thesis using z unfolding p [symmetric] by (intro strncpy_view) (auto simp: apart_def)
    qed simp
    then show "(strncpy (rmem s') r ?p ?k)(nat (int r + len) := 0) = poke (rmem s') r (peek (rmem st) ?p ?k @ [0])"
      unfolding e by (simp add: poke_append poke_single)
  qed (use r in \<open>auto simp: INT_MAX_def\<close>)
  then show ?thesis unfolding cut_def prod.case Let_def u .
qed

lemma str_slice_ok:
  assumes inv: "rinv B st" and v: "peek (rmem st) s (length v) = v" "0 \<notin> set v" "within B s (length v)"
    and i: "is_int32 start" "is_int32 len" "int (length v) < INT_MAX" and no: "start + len < 2 ^ 31"
  shows "built_ok S rinv B st (nat (snd (slice_bounds start len (int (length v)))) + 1)
    (slice_of start len v @ [0]) (str_slice S s start len (int (length v)) st)"
proof -
  obtain a n where b: "slice_bounds start len (int (length v)) = (a, n)" by fastforce
  note B = slice_bounds_ok [OF i(1,2) _ i(3) no b]
  have a: "0 \<le> a" "0 \<le> n" "nat a + nat n \<le> length v" using B by auto
  have p: "peek (rmem st) (s + nat a) (nat n) = slice_of start len v"
  proof -
    have "peek (rmem st) (s + nat a) (nat n) = take (nat n) (drop (nat a) (peek (rmem st) s (length v)))"
      using a(3) by (simp add: min_absorb1)
    moreover have "take (nat (min (max 0 len) (int (length v) - start))) (drop (nat start) v) = take (nat len) (drop (nat start) v)"
      if "0 \<le> start" "start < int (length v)"
      using that by (intro nth_equalityI) (auto simp: min_def max_def)
    ultimately show ?thesis using B by (auto simp: v(1) slice_of_def)
  qed
  have w: "within B (s + nat a) (nat n)"
  proof -
    obtain q x k where "B q = Some (x, k)" "q \<le> s" "s + length v \<le> q + k" using v(3) by (auto simp: within_def)
    with a(3) show ?thesis unfolding within_def by (intro exI [of _ q] exI [of _ x] exI [of _ k]) simp
  qed
  have z: "0 \<notin> set (slice_of start len v)"
    using v(2) set_take_subset [of "nat len" "drop (nat start) v"] set_drop_subset [of "nat start" v]
    by (auto simp: slice_of_def)
  have "n < INT_MAX" using B(1,2,3) i(3) by linarith
  from cut_ok [OF inv a(1,2) this, of s] w z show ?thesis unfolding p str_slice_def b by simp
qed

lemma str_clone_ok:
  assumes inv: "rinv B st" and a: "cstr (rmem st) s a" "within B s (length a + 1)" and n: "int (length a) < INT_MAX"
  shows "built_ok S rinv B st (length a + 1) (a @ [0]) (str_clone S s st)"
proof -
  have u: "u64 (i32 (i32 (int (length a)) + 1)) = length a + 1"
    using n by (simp add: is_int32_def INT_MAX_def u64_def nat_add_distrib)
  have "built_ok S rinv B st (length a + 1) (a @ [0]) (build S (length a + 1) (\<lambda>r m. strcpy m r s) st)"
  proof (rule build_ok [OF inv])
    fix r s' assume f: "fresh_block B r (length a + 1)" and k: "rt_kept B st s'"
    show "strcpy (rmem s') r s = poke (rmem s') r (a @ [0])"
      by (rule strcpy_cstr [OF cstr_kept [OF a k]]) (use within_fresh [OF a(2) f] in \<open>auto simp: apart_def\<close>)
  qed (use n in \<open>auto simp: INT_MAX_def\<close>)
  then show ?thesis unfolding str_clone_def Let_def strlen_cstr [OF a(1)] u .
qed

text \<open>The copy by length, for a string without a terminator.\<close>

lemma copy_n_ok:
  assumes inv: "rinv B st" and w: "within B s k" and n: "k + 1 < 2 ^ 63"
  shows "built_ok S rinv B st (k + 1) (peek (rmem st) s k @ [0])
    (build S (k + 1) (\<lambda>r m. (memcpy m r s k)(r + k := 0)) st)"
proof (rule build_ok [OF inv])
  fix r s' assume f: "fresh_block B r (k + 1)" and kp: "rt_kept B st s'"
  have "memcpy (rmem s') r s k = poke (rmem s') r (peek (rmem st) s k)"
    using within_fresh [OF w f] by (subst memcpy_eq) (auto simp: apart_def within_kept [OF w kp])
  then show "(memcpy (rmem s') r s k)(r + k := 0) = poke (rmem s') r (peek (rmem st) s k @ [0])"
    by (simp add: poke_append poke_single)
qed (use n in simp_all)

lemma str_clone_n_ok:
  assumes "rinv B st" "within B s (nat n)" "is_int32 n"
  shows "built_ok S rinv B st (nat n + 1) (peek (rmem st) s (nat n) @ [0]) (str_clone_n S s n st)"
proof -
  have "nat (if n < 0 then 0 else n) = nat n" by simp
  moreover have "nat n < 2 ^ 31" using assms(3) by (auto simp: is_int32_def)
  ultimately show ?thesis using copy_n_ok [OF assms(1,2)] unfolding str_clone_n_def Let_def by simp
qed

end

subsection \<open>Properties\<close>

text \<open>Two strings of two bytes on a plain heap that grants one more block.\<close>

definition two_strings :: "unit rt" where
  "two_strings = \<lparr>hp = \<lparr>mem = poke (poke (\<lambda>_. 0) 4096 [104, 105]) 8192 [121, 111], live = [4096 \<mapsto> 16, 8192 \<mapsto> 16],
       pick = \<lambda>lv n. if lv = [4096 \<mapsto> 16, 8192 \<mapsto> 16] \<and> n \<le> 64 then (16384, 64) else (0, 0),
       repick = \<lambda>_ _ _. (0, 0), self = 0, worker = \<lambda>_. False, threads_enabled = False\<rparr>,
     arena_main_state = \<lparr>stack = [], bytes_served = 0, objects_served = 0, regions_entered = 0, pool = [], pool_count = 0\<rparr>,
     arena_worker_state = \<lambda>_. \<lparr>stack = [], bytes_served = 0, objects_served = 0, regions_entered = 0,
       pool = [], pool_count = 0\<rparr>,
     rt_arena_hint = 0, rt_worker_arena_hint = \<lambda>_. 0\<rparr>"

abbreviation two_blocks :: owned where
  "two_blocks \<equiv> [4096 \<mapsto> (Seam, 16), 8192 \<mapsto> (Seam, 16)]"

lemma two_strings_inv: "rt_inv plain_inv two_blocks two_strings"
proof -
  have "plain_inv two_blocks (hp two_strings)"
    by (intro plain_invI) (auto simp: two_strings_def libc_ok_def live_wf_def placed_def apart_def split: if_splits)
  then show ?thesis
    by (rule rt_inv_no_arena) (auto simp: chunks_def arena_of_def two_strings_def split: option.splits if_splits)
qed

lemma two_strings_facts:
  "cstr (rmem two_strings) 4096 [104, 105]" "cstr (rmem two_strings) 8192 [121, 111]"
  "within two_blocks 4096 3" "within two_blocks 8192 3"
  "n \<le> 64 \<Longrightarrow> fst (rt_alloc plain_seam n two_strings) = 16384"
  by (auto simp: two_strings_def poke_def ADDR_END_def rt_alloc_def rt_arena_hint_state_def state_key_def on_worker_def
      prismio_memory_threads_are_enabled_def rt_base_alloc_def plain_seam_def plain_rt_base_alloc_def malloc_def within_def
      Let_def intro: exI [of _ 4096] exI [of _ 8192])

text \<open>On every allocator that keeps its contract, \<open>str_concat\<close> returns a new block with the bytes of
  the two strings one after the other and a terminator, and changes nothing the program holds; it
  fails only where the allocator refused.\<close>

theorem str_concat_joins:
  assumes "rt_spec S rinv" and "rinv B s"
    and "cstr (rmem s) s1 a" "within B s1 (length a + 1)" "cstr (rmem s) s2 b" "within B s2 (length b + 1)"
    and "length a + length b + 1 < 2 ^ 63"
  shows "case str_concat S s1 s2 s of
      Inl e \<Rightarrow> e = Null_store \<and> fst (rt_alloc S (length a + length b + 1) s) = 0
    | Inr (r, s') \<Rightarrow> fresh_block B r (length a + length b + 1)
        \<and> (\<exists>w. rinv (B(r \<mapsto> (w, length a + length b + 1))) s') \<and> rt_kept B s s' \<and> cstr (rmem s') r (a @ b)"
proof -
  have z: "0 \<notin> set (a @ b)" using assms(3,5) by (simp add: cstr_def)
  have "cstr m r (a @ b)" if "peek m r (length (a @ b @ [0])) = a @ b @ [0]" "fresh_block B r (length a + length b + 1)" for m r
  proof -
    have "peek m r (length (a @ b) + 1) = (a @ b) @ [0]" using that(1) by simp
    then have "peek m r (length (a @ b)) = a @ b" "m (r + length (a @ b)) = 0"
      unfolding peek_add by (simp_all add: peek_def)
    then show ?thesis using z that(2) unfolding cstr_def by (auto simp: fresh_block_def ADDR_END_def)
  qed
  then show ?thesis using rt_spec.str_concat_ok [OF assms] by (auto simp: built_ok_def split: sum.splits prod.splits)
qed

theorem str_concat_joins_witness:
  "\<exists>r s'. str_concat plain_seam 4096 8192 two_strings = Inr (r, s') \<and> cstr (rmem s') r [104, 105, 121, 111]"
proof -
  have w: "within two_blocks 4096 (length [104 :: byte, 105] + 1)" "within two_blocks 8192 (length [121 :: byte, 111] + 1)"
    using two_strings_facts(3,4) by (simp_all add: eval_nat_numeral del: fun_upd_apply)
  note C = str_concat_joins [OF plain.rt.rt_spec_axioms two_strings_inv two_strings_facts(1) w(1) two_strings_facts(2) w(2)]
  show ?thesis
  proof (cases "str_concat plain_seam 4096 8192 two_strings")
    case (Inl e)
    moreover have "length [104 :: byte, 105] + length [121 :: byte, 111] + 1 \<le> 64" by simp
    ultimately show ?thesis using C two_strings_facts(5) by simp
  next
    case (Inr x)
    then show ?thesis using C by (cases x) simp
  qed
qed

text \<open>As long as start and length do not overflow their sum, \<open>str_slice\<close> copies exactly the part of
  the view that lies in range: an empty string for a start outside, a negative length as 0, a long
  one cut at the end.\<close>

theorem str_slice_cuts:
  assumes "rt_spec S rinv" and "rinv B st" and "peek (rmem st) s (length v) = v" "0 \<notin> set v" "within B s (length v)"
    and "is_int32 start" "is_int32 len" "int (length v) < INT_MAX" "start + len < 2 ^ 31"
  shows "case str_slice S s start len (int (length v)) st of
      Inl e \<Rightarrow> e = Null_store
    | Inr (r, s') \<Rightarrow> rt_kept B st s'
        \<and> peek (rmem s') r (length (slice_of start len v) + 1) = slice_of start len v @ [0]"
  using rt_spec.str_slice_ok [OF assms] by (auto simp: built_ok_def split: sum.splits prod.splits)

theorem str_slice_cuts_witness:
  "\<exists>r s'. str_slice plain_seam 4096 1 10 2 two_strings = Inr (r, s') \<and> peek (rmem s') r 2 = [105, 0]"
proof -
  have v: "peek (rmem two_strings) 4096 2 = [104, 105]" "within two_blocks 4096 2"
    using two_strings_facts(1) by (simp add: cstr_def eval_nat_numeral, auto simp: within_def intro!: exI [of _ 4096])
  have b: "slice_bounds 1 10 2 = (1, 1)" by (simp add: slice_bounds_def i32_def)
  have "slice_of 1 10 [104, 105] = [105]" by (simp add: slice_of_def)
  moreover have "\<exists>x. str_slice plain_seam 4096 1 10 2 two_strings = Inr x"
    using two_strings_facts(5) [of 2]
    by (auto simp: str_slice_def b cut_def build_def u64_def i32_def split: prod.splits)
  moreover have "length [104 :: byte, 105] = 2" "0 \<notin> set [104 :: byte, 105]" "is_int32 1" "is_int32 10" "(1 :: int) + 10 < 2 ^ 31"
    "int (length [104 :: byte, 105]) < INT_MAX"
    by (simp_all add: is_int32_def INT_MAX_def)
  ultimately show ?thesis
    using str_slice_cuts [OF plain.rt.rt_spec_axioms two_strings_inv, of 4096 "[104, 105]" 1 10] v
    by (auto simp del: fun_upd_apply list.size) (simp add: numeral_2_eq_2)
qed

end
