(* ===== verification/String_Build.thy ===== *)
theory String_Build
  imports Strings
begin

unbundle bit_operations_syntax

text \<open>
  Two more builders of \<open>runtime/lang_runtime.c\<close>: the integer formatters \<open>int_to_str\<close> and
  \<open>str_int_inline_words\<close> against one decimal notation, and the consuming append
  \<open>str_append_reuse_many\<close>, which may move its base while its parts point into it.
\<close>

subsection \<open>The consuming append\<close>

definition smear :: "32 word \<Rightarrow> 32 word" where
  "smear v =
     (let v = v OR drop_bit 1 v;
          v = v OR drop_bit 2 v;
          v = v OR drop_bit 4 v;
          v = v OR drop_bit 8 v
      in v OR drop_bit 16 v)"

definition str_append_bit_ceil :: "nat \<Rightarrow> nat" where
  "str_append_bit_ceil needed =
     (let v = (word_of_nat needed :: 32 word) in
      if v \<le> 16 then 16
      else unat (smear (v - 1)) + 1)"

definition STR_APPEND_MAX_PARTS :: int where
  "STR_APPEND_MAX_PARTS = 5"

definition str_append_grow ::
  "'a seam \<Rightarrow> addr \<Rightarrow> nat \<Rightarrow> 64 word \<Rightarrow> nat \<Rightarrow> addr list \<Rightarrow> ('a, 'b) rt_scheme \<Rightarrow> rt_error + addr \<times> addr list \<times> ('a, 'b) rt_scheme" where
  "str_append_grow S bas left word needed parts s =
     (let base_is_inline = bit word 31;
          base_is_geometric = (\<not> base_is_inline \<and> bit word 33);
          base_is_inline = (base_is_inline \<or> bit word 34)
      in if base_is_geometric \<and> str_append_bit_ceil (left + 1) \<ge> needed then Inr (bas, parts, s)
         else let grown = str_append_bit_ceil needed;
                  (moved, s') = (if base_is_inline then rt_base_alloc S grown s else rt_base_realloc S bas grown s)
              in if moved = 0 then Inl (Exit ''out of memory growing String'')
                 else Inr (moved,
                           map (\<lambda>p. if bas \<le> p \<and> p \<le> bas + left then moved + (p - bas) else p) parts,
                           if base_is_inline then upd_mem (\<lambda>m. memmove m moved bas left) s' else s'))"

text \<open>The sum of the lengths with its two exits, and the moves of the parts behind the base.\<close>

fun append_total :: "int list \<Rightarrow> nat \<Rightarrow> rt_error + nat" where
  "append_total [] tot = Inr tot"
| "append_total (n # ns) tot =
     (if n < 0 then Inl (Exit ''invalid String append'')
      else if n > INT_MAX - int tot then Inl (Exit ''String length exceeds the maximum'')
      else append_total ns (tot + nat n))"

fun append_parts :: "(addr \<times> nat) list \<Rightarrow> addr \<Rightarrow> mem \<Rightarrow> mem" where
  "append_parts [] d m = m"
| "append_parts ((p, n) # ps) d m = append_parts ps (d + n) (if n > 0 then memmove m d p n else m)"

definition str_append_reuse_many ::
  "'a seam \<Rightarrow> addr \<Rightarrow> int \<Rightarrow> 64 word \<Rightarrow> int \<Rightarrow> addr list \<Rightarrow> int list \<Rightarrow> ('a, 'b) rt_scheme \<Rightarrow> ('a, 'b) built" where
  "str_append_reuse_many S bas base_length base_word cnt parts lengths s =
     (if bas = 0 \<or> base_length < 0 \<or> cnt < 1 \<or> cnt > STR_APPEND_MAX_PARTS then Inl (Exit ''invalid String append'')
      else let left = nat base_length; lengths = take (nat cnt) lengths in
           case append_total lengths left of
             Inl e \<Rightarrow> Inl e
           | Inr tot \<Rightarrow>
              (case str_append_grow S bas left base_word (tot + 1) (take (nat cnt) parts) s of
                 Inl e \<Rightarrow> Inl e
               | Inr (bas, parts, s') \<Rightarrow>
                   Inr (bas, upd_mem (\<lambda>m. (append_parts (zip parts (map nat lengths)) (bas + left) m)(bas + tot := 0)) s')))"

definition str_append_reuse ::
  "'a seam \<Rightarrow> addr \<Rightarrow> int \<Rightarrow> 64 word \<Rightarrow> addr \<Rightarrow> int \<Rightarrow> ('a, 'b) rt_scheme \<Rightarrow> ('a, 'b) built" where
  "str_append_reuse S bas base_length base_word suffix suffix_length s =
     str_append_reuse_many S bas base_length base_word 1 [suffix, 0, 0, 0, 0] [suffix_length, 0, 0, 0, 0] s"

lemma unat_or_ge: "unat v \<le> unat (v OR w)"
proof -
  have "uint v \<le> uint (v OR w)" unfolding unsigned_or_eq by (rule or_greater_eq) simp
  then show ?thesis by (simp add: word_le_def [symmetric] word_le_nat_alt)
qed

lemma bit_ceil_ge:
  assumes "needed \<le> 2 ^ 31"
  shows "needed \<le> str_append_bit_ceil needed" "str_append_bit_ceil needed < 2 ^ 33" "16 \<le> str_append_bit_ceil needed"
proof -
  let ?v = "word_of_nat needed :: 32 word"
  have u: "unat ?v = needed" using assms by (simp add: unat_of_nat)
  have sm: "unat v \<le> unat (smear v)" for v :: "32 word"
    unfolding smear_def Let_def by (meson unat_or_ge order_trans)
  show "needed \<le> str_append_bit_ceil needed" "str_append_bit_ceil needed < 2 ^ 33" "16 \<le> str_append_bit_ceil needed"
  proof -
    have 1: "?v \<le> 16 \<longleftrightarrow> needed \<le> 16" by (simp add: word_le_nat_alt u)
    have 2: "unat (?v - 1) = needed - 1" if "needed > 16"
      using u that by (subst unat_minus_one) auto
    have 3: "unat (smear (?v - 1)) < 2 ^ 32" using unsigned_less [of "smear (?v - 1)", where ?'a = nat] by simp
    show "needed \<le> str_append_bit_ceil needed" "str_append_bit_ceil needed < 2 ^ 33" "16 \<le> str_append_bit_ceil needed"
      using 2 3 sm [of "?v - 1"] unfolding str_append_bit_ceil_def Let_def 1 by auto
  qed
qed


definition part_bytes :: "mem \<Rightarrow> (addr \<times> nat) list \<Rightarrow> byte list" where
  "part_bytes m ps = concat (map (\<lambda>(p, n). peek m p n) ps)"

lemma length_part_bytes: "length (part_bytes m ps) = sum_list (map snd ps)"
  by (induction ps) (auto simp: part_bytes_def)

lemma append_parts_eq:
  "(\<And>p n. (p, n) \<in> set ps \<Longrightarrow> apart p n d (sum_list (map snd ps))) \<Longrightarrow>
     append_parts ps d m = poke m d (part_bytes m ps)"
proof (induction ps arbitrary: d m)
  case (Cons pn ps)
  obtain p n where pn: "pn = (p, n)" by fastforce
  let ?m = "poke m d (peek m p n)" and ?t = "sum_list (map snd ps)"
  have m': "(if n > 0 then memmove m d p n else m) = ?m" by (simp add: memmove_eq)
  have ap: "apart q k d (n + ?t)" if "(q, k) \<in> set ps" for q k using Cons.prems [of q k] that by (simp add: pn)
  have "append_parts (pn # ps) d m = poke ?m (d + n) (part_bytes ?m ps)"
    unfolding pn append_parts.simps m'
  proof (rule Cons.IH)
    fix q k assume "(q, k) \<in> set ps"
    from ap [OF this] show "apart q k (d + n) ?t" by (auto simp: apart_def)
  qed
  also have "part_bytes ?m ps = part_bytes m ps"
    unfolding part_bytes_def
  proof (intro arg_cong [of _ _ concat] map_cong [OF refl])
    fix x assume x: "x \<in> set ps"
    then have "apart (fst x) (snd x) d n" using ap [of "fst x" "snd x"] by (auto simp: apart_def)
    then show "(case x of (p, n) \<Rightarrow> peek ?m p n) = (case x of (p, n) \<Rightarrow> peek m p n)"
      by (cases x) (simp add: peek_poke_apart)
  qed
  finally show ?case by (simp add: pn part_bytes_def poke_append)
qed (simp add: part_bytes_def)

lemma append_total_ok:
  "(\<And>n. n \<in> set ns \<Longrightarrow> 0 \<le> n) \<Longrightarrow> int t + sum_list ns \<le> INT_MAX \<Longrightarrow>
     append_total ns t = Inr (t + sum_list (map nat ns))"
proof (induction ns arbitrary: t)
  case (Cons n ns)
  have n: "0 \<le> n" "0 \<le> sum_list ns" using Cons.prems(1) by (auto intro!: sum_list_nonneg)
  have "append_total ns (t + nat n) = Inr (t + nat n + sum_list (map nat ns))"
    by (rule Cons.IH) (use Cons.prems n in auto)
  then show ?case using n Cons.prems(2) by simp
qed simp

text \<open>A part is empty, or lies in the text of the base, or in another block.\<close>

definition part_ok :: "owned \<Rightarrow> addr \<Rightarrow> nat \<Rightarrow> addr \<Rightarrow> nat \<Rightarrow> bool" where
  "part_ok B b left p n \<longleftrightarrow> n = 0 \<or> b \<le> p \<and> p + n \<le> b + left \<or> within (B(b := None)) p n"

definition rebase :: "addr \<Rightarrow> nat \<Rightarrow> addr \<Rightarrow> addr \<Rightarrow> addr" where
  "rebase b left r p = (if b \<le> p \<and> p \<le> b + left then r + (p - b) else p)"

lemma within_outside:
  assumes "owned_wf B" "B b = Some (v, k)" "within (B(b := None)) p n" "0 < n" "left < k"
  shows "\<not> (b \<le> p \<and> p \<le> b + left)"
proof -
  obtain q w j where q: "B q = Some (w, j)" "q \<noteq> b" "q \<le> p" "p + n \<le> q + j"
    using assms(3) by (auto simp: within_def split: if_splits)
  then have "apart q j b k" using assms(1,2) unfolding owned_wf_def by blast
  with q assms(4,5) show ?thesis by (auto simp: apart_def)
qed


lemma peek_shift: "peek m' r k = peek m b k \<Longrightarrow> i + n \<le> k \<Longrightarrow> peek m' (r + i) n = peek m (b + i) n"
  unfolding peek_eq_iff by (metis (no_types, lifting) add.assoc add_less_cancel_left order_less_le_trans)

lemma within_apart:
  assumes "owned_wf (B(r \<mapsto> (v, k)))" "within (B(r := None)) p n"
  shows "apart p n r k"
proof -
  obtain q w j where q: "B q = Some (w, j)" "q \<noteq> r" "q \<le> p" "p + n \<le> q + j"
    using assms(2) by (auto simp: within_def split: if_splits)
  then have "(B(r \<mapsto> (v, k))) q = Some (w, j)" "(B(r \<mapsto> (v, k))) r = Some (v, k)" by simp_all
  then have "apart q j r k" using assms(1) q(2) unfolding owned_wf_def by blast
  with q show ?thesis by (auto elim: apart_sub)
qed

lemma rt_kept_poke:
  assumes "owned_wf (B(r \<mapsto> (v, k)))" "rt_kept (B(r := None)) s s1" "r \<le> q" "q + length bs \<le> r + k"
  shows "rt_kept (B(r := None)) s (rt_poke q bs s1)"
  unfolding rt_kept_def kept_def
proof (intro allI impI)
  fix a w j assume a: "(B(r := None)) a = Some (w, j)"
  have "apart a j r k"
    by (rule within_apart [OF assms(1)]) (use a in \<open>auto simp: within_def intro!: exI [of _ a] split: if_splits\<close>)
  then have "apart a j q (length bs)" using assms(3,4) by (auto elim: apart_sub)
  then show "peek (rmem (rt_poke q bs s1)) a j = peek (rmem s) a j"
    using assms(2) a by (simp add: rt_poke_def peek_poke_apart rt_kept_def kept_def)
qed

lemma append_total_parts:
  assumes "int left + int (sum_list (map snd ps)) \<le> INT_MAX"
  shows "append_total (map (int \<circ> snd) ps) left = Inr (left + sum_list (map snd ps))"
proof -
  have "sum_list (map (int \<circ> snd) ps) = int (sum_list (map snd ps))" by (induction ps) auto
  moreover have "\<And>n. n \<in> set (map (int \<circ> snd) ps) \<Longrightarrow> 0 \<le> n" by auto
  ultimately show ?thesis
    using append_total_ok [of "map (int \<circ> snd) ps" left] assms by (simp add: comp_def)
qed

text \<open>A base is copied out when it is inline (bit 31 of its word) or a literal (bit 34); then its own storage stays,
  otherwise the append consumes it.\<close>

definition copied :: "64 word \<Rightarrow> bool" where
  "copied word \<longleftrightarrow> bit word 31 \<or> bit word 34"

definition base_left :: "owned \<Rightarrow> addr \<Rightarrow> 64 word \<Rightarrow> owned" where
  "base_left B b word = (if copied word then B else B(b := None))"

lemma within_base_left: "within (B(b := None)) p n \<Longrightarrow> within (base_left B b word) p n"
  by (auto simp: within_def base_left_def split: if_splits)

context rt_spec
begin

lemma append_grow_ok:
  assumes inv: "rinv B s" and b: "B b = Some (v, k)" "left + 1 \<le> k" and w: "copied word \<or> v = Seam"
    and geo: "bit word 33 \<Longrightarrow> bit word 31 \<or> \<not> bit word 34 \<and> str_append_bit_ceil (left + 1) \<le> k"
    and n: "left < needed" "needed \<le> 2 ^ 31" and g: "str_append_grow S b left word needed ps s = Inr (r, qs, s')"
  shows "qs = map (rebase b left r) ps \<and> (\<exists>k'\<ge>needed. rinv ((base_left B b word)(r \<mapsto> (Seam, k'))) s')
    \<and> base_left B b word r = None \<and> rt_kept (base_left B b word) s s' \<and> rt.more s' = rt.more s
    \<and> peek (rmem s') r left = peek (rmem s) b left"
proof -
  let ?n = "str_append_bit_ceil needed"
  have nn: "0 < ?n" "?n < 2 ^ 64" "needed \<le> ?n" using bit_ceil_ge [OF n(2)] by auto
  consider (place) "\<not> copied word" "bit word 33 \<and> str_append_bit_ceil (left + 1) \<ge> needed"
    | (move) "\<not> copied word" "\<not> (bit word 33 \<and> str_append_bit_ceil (left + 1) \<ge> needed)" | (copy) "copied word" by blast
  then show ?thesis
  proof cases
    case place
    then have B: "base_left B b word = B(b := None)" and w': "\<not> bit word 31" "\<not> bit word 34" by (auto simp: base_left_def copied_def)
    have e: "r = b" "qs = ps" "s' = s" using g place w' by (auto simp: str_append_grow_def Let_def)
    have "B(b := None, b \<mapsto> (Seam, k)) = B" using b(1) w place(1) by auto
    moreover have "map (rebase b left b) ps = ps" by (rule map_idI) (auto simp: rebase_def)
    ultimately show ?thesis using e inv geo place(2) w' unfolding B by (auto simp: rt_kept_def intro!: exI [of _ k] simp del: fun_upd_apply) simp
  next
    case move
    then have B: "base_left B b word = B(b := None)" and w': "\<not> bit word 31" "\<not> bit word 34" and v: "v = Seam"
      using w by (auto simp: base_left_def copied_def)
    obtain q s1 where al: "rt_base_realloc S b ?n s = (q, s1)" by fastforce
    have e: "q \<noteq> 0" "r = q" "qs = map (rebase b left q) ps" "s' = s1"
      using g w' move(2) al by (auto simp: str_append_grow_def Let_def rebase_def split: if_splits)
    note L = base_realloc_law [OF inv b(1) [unfolded v] _ nn(1,2) al]
    have "fresh_block (B(b := None)) q ?n" "rinv (B(b := None, q \<mapsto> (Seam, ?n))) s1" "rt_kept (B(b := None)) s s1"
      "rt.more s1 = rt.more s" and p: "peek (rmem s1) q (min k ?n) = peek (rmem s) b (min k ?n)"
      using L b(2) e(1) by auto
    moreover have "peek (rmem s1) q left = peek (rmem s) b left"
      using peek_shift [OF p, of 0 left] b(2) n(1) nn(3) by simp
    ultimately show ?thesis using e nn(3) unfolding B by (auto simp: fresh_block_def simp del: fun_upd_apply)
  next
    case copy
    then have B: "base_left B b word = B" by (simp add: base_left_def)
    have ng: "\<not> (\<not> bit word 31 \<and> bit word 33)" using geo copy by (auto simp: copied_def)
    obtain q s1 where al: "rt_base_alloc S ?n s = (q, s1)" by fastforce
    have e: "q \<noteq> 0" "r = q" "qs = map (rebase b left q) ps" "s' = upd_mem (\<lambda>m. memmove m q b left) s1"
      using g ng copy al by (auto simp: str_append_grow_def Let_def rebase_def copied_def split: if_splits)
    have L: "fresh_block B q ?n" "rinv (B(q \<mapsto> (Seam, ?n))) s1" "rt_kept B s s1" "rt.more s1 = rt.more s"
      using base_alloc_law [OF inv nn(1,2) al] e(1) by auto
    have "within B b left" using b unfolding within_def by (intro exI [of _ b] exI [of _ v] exI [of _ k]) simp
    then have same: "peek (rmem s1) b left = peek (rmem s) b left" using L(3) by (rule within_kept)
    let ?s = "rt_poke q (peek (rmem s) b left) s1"
    have s': "s' = ?s" unfolding e(4) by (rule upd_mem_poke) (simp add: memmove_eq same)
    have fits: "q + length (peek (rmem s) b left) \<le> q + ?n" using n(1) nn(3) by simp
    have "rinv (B(q \<mapsto> (Seam, ?n))) ?s" by (rule rt_write_law [OF L(2), of q Seam ?n]) (use fits in auto)
    moreover have Bq: "B(q := None) = B" "B q = None" using L(1) by (auto simp: fresh_block_def fun_eq_iff)
    moreover have "rt_kept (B(q := None)) s ?s" by (rule rt_kept_poke [OF rinv_wf [OF L(2)]]) (use L(3) fits Bq in auto)
    moreover have "peek (rmem ?s) q left = peek (rmem s) b left" by (simp add: rt_poke_def) (rule poke_same_len, simp)
    moreover have "rt.more ?s = rt.more s" using L(4) by (simp add: rt_poke_def)
    ultimately show ?thesis using e(2,3) nn(3) unfolding s' B by (auto simp del: fun_upd_apply)
  qed
qed

lemma append_ok:
  assumes inv: "rinv B s" and b: "B b = Some (v, k)" "left + 1 \<le> k" and w: "copied word \<or> v = Seam"
    and geo: "bit word 33 \<Longrightarrow> bit word 31 \<or> \<not> bit word 34 \<and> str_append_bit_ceil (left + 1) \<le> k"
    and ps: "1 \<le> length ps" "length ps \<le> 5" "\<And>p n. (p, n) \<in> set ps \<Longrightarrow> part_ok B b left p n"
    and tot: "int left + int (sum_list (map snd ps)) \<le> INT_MAX"
    and ap: "str_append_reuse_many S b (int left) word (int (length ps)) (map fst ps @ xs) (map (int \<circ> snd) ps @ ys) s = Inr (r, s')"
  defines "t \<equiv> left + sum_list (map snd ps)"
  shows "(\<exists>k'>t. rinv ((base_left B b word)(r \<mapsto> (Seam, k'))) s') \<and> rt_kept (base_left B b word) s s'
    \<and> base_left B b word r = None
    \<and> peek (rmem s') r (t + 1) = peek (rmem s) b left @ part_bytes (rmem s) ps @ [0]"
proof -
  have b0: "b \<noteq> 0" using rinv_wf [OF inv] b(1) unfolding owned_wf_def by blast
  have at: "append_total (map (int \<circ> snd) ps) left = Inr t"
    using append_total_parts [OF tot] by (simp add: t_def)
  obtain qs s1 where g: "str_append_grow S b left word (t + 1) (map fst ps) s = Inr (r, qs, s1)"
    and s': "s' = upd_mem (\<lambda>m. (append_parts (zip qs (map snd ps)) (r + left) m)(r + t := 0)) s1"
  proof -
    have ne: "ps \<noteq> []" using ps(1) by auto
    show thesis
    proof (cases "str_append_grow S b left word (t + 1) (map fst ps) s")
      case (Inl e)
      then show ?thesis using ap ps(2) b0 at ne by (simp add: str_append_reuse_many_def STR_APPEND_MAX_PARTS_def Let_def comp_def)
    next
      case (Inr x)
      obtain r1 qs s1 where x: "x = (r1, qs, s1)" by (cases x) auto
      have "r1 = r" "s' = upd_mem (\<lambda>m. (append_parts (zip qs (map snd ps)) (r + left) m)(r + t := 0)) s1"
        using ap ps(2) b0 at ne Inr by (auto simp: x str_append_reuse_many_def STR_APPEND_MAX_PARTS_def Let_def comp_def)
      then show ?thesis using that Inr x by blast
    qed
  qed
  have t31: "t + 1 \<le> 2 ^ 31" using tot by (simp add: t_def INT_MAX_def)
  obtain k' where G: "qs = map (rebase b left r) (map fst ps)" "k' \<ge> t + 1" "rinv ((base_left B b word)(r \<mapsto> (Seam, k'))) s1"
    "base_left B b word r = None" "rt_kept (base_left B b word) s s1" "peek (rmem s1) r left = peek (rmem s) b left"
    using append_grow_ok [OF inv b w geo _ t31 g] by (auto simp: t_def)
  note wf' = rinv_wf [OF G(3)] and wf = rinv_wf [OF inv]
  let ?B = "base_left B b word" and ?qs = "map (\<lambda>(p, n). (rebase b left r p, n)) ps"
  have Br: "?B(r := None) = ?B" using G(4) by (auto simp: fun_eq_iff)
  have zip: "zip qs (map snd ps) = ?qs" unfolding G(1) by (induction ps) auto
  have reb: "apart (rebase b left r p) n (r + left) (t - left) \<and> peek (rmem s1) (rebase b left r p) n = peek (rmem s) p n"
    if pn: "(p, n) \<in> set ps" for p n
  proof (cases "n = 0 \<or> b \<le> p \<and> p + n \<le> b + left")
    case True
    then show ?thesis using peek_shift [OF G(6), of "p - b" n] by (cases "n = 0") (auto simp: rebase_def apart_def)
  next
    case False
    then have wo: "within (B(b := None)) p n" "0 < n" using ps(3) [OF pn] by (auto simp: part_ok_def)
    then have wi: "within ?B p n" by (intro within_base_left)
    have "rebase b left r p = p" using within_outside [OF wf b(1) wo, of left] b(2) by (auto simp: rebase_def)
    moreover have "apart p n r k'" by (rule within_apart [OF wf']) (use wi Br in simp)
    then have "apart p n (r + left) (t - left)" using G(2) by (auto elim: apart_sub simp: t_def)
    ultimately show ?thesis using within_kept [OF wi G(5)] by simp
  qed
  have sums: "sum_list (map snd ?qs) = t - left" "map snd ?qs = map snd ps" by (auto simp: t_def comp_def case_prod_unfold)
  have pb: "part_bytes (rmem s1) ?qs = part_bytes (rmem s) ps"
    unfolding part_bytes_def map_map by (intro arg_cong [of _ _ concat] map_cong [OF refl]) (use reb in auto)
  have "append_parts ?qs (r + left) (rmem s1) = poke (rmem s1) (r + left) (part_bytes (rmem s1) ?qs)"
    by (rule append_parts_eq) (use reb sums in auto)
  then have "s' = rt_poke (r + left) (part_bytes (rmem s) ps @ [0]) s1"
    unfolding s' zip pb by (intro upd_mem_poke) (simp add: poke_append poke_single length_part_bytes t_def ac_simps)
  moreover have len: "length (part_bytes (rmem s) ps @ [0]) = t - left + 1" "left \<le> t" by (simp_all add: length_part_bytes t_def)
  moreover have "rinv (?B(r \<mapsto> (Seam, k'))) (rt_poke (r + left) (part_bytes (rmem s) ps @ [0]) s1)"
    by (rule rt_write_law [OF G(3), of r Seam k']) (use len G(2) in auto)
  moreover have "rt_kept (?B(r := None)) s (rt_poke (r + left) (part_bytes (rmem s) ps @ [0]) s1)"
    by (rule rt_kept_poke [OF wf']) (use len G(2,5) Br in auto)
  moreover have "peek (poke (rmem s1) (r + left) (part_bytes (rmem s) ps @ [0])) r (left + (t - left + 1))
      = peek (rmem s) b left @ part_bytes (rmem s) ps @ [0]"
  proof -
    let ?m = "poke (rmem s1) (r + left) (part_bytes (rmem s) ps @ [0])"
    have "peek ?m (r + left) (t - left + 1) = part_bytes (rmem s) ps @ [0]" by (rule poke_same_len [OF len(1)])
    moreover have "peek ?m r left = peek (rmem s) b left"
      unfolding G(6) [symmetric] by (rule peek_poke_apart) (simp add: apart_def)
    ultimately show ?thesis by (simp only: peek_add [of _ r left])
  qed
  ultimately show ?thesis using G(2,4) Br by (auto simp: rt_poke_def intro!: exI [of _ k'] simp del: fun_upd_apply)
qed

end

subsection \<open>Decimal text\<close>

declare digits_loop.simps [simp del] inline_loop.simps [simp del]

definition decimal_int :: "int \<Rightarrow> byte list" where
  "decimal_int v = (if v < 0 then 45 # decimal (nat (- v)) else decimal (nat v))"

definition digit_val :: "byte \<Rightarrow> nat" where
  "digit_val b = unat b - 48"

definition undecimal :: "byte list \<Rightarrow> nat" where
  "undecimal bs = foldl (\<lambda>a b. 10 * a + digit_val b) 0 bs"

definition parse_int :: "byte list \<Rightarrow> int" where
  "parse_int bs = (case bs of b # ds \<Rightarrow> if b = 45 then - int (undecimal ds) else int (undecimal bs) | [] \<Rightarrow> 0)"

lemma digits_loop_decimal: "rev (digits_loop n) = decimal n"
proof (induction n rule: digits_loop.induct)
  case (1 n)
  then show ?case
    by (cases "n div 10 = 0") (auto simp: digits_loop.simps [of n] decimal.simps [of n] Let_def)
qed

lemma pairs_digits: "k < 100 \<Longrightarrow> pairs (k * 2) = word_of_nat (48 + k div 10) \<and> pairs (k * 2 + 1) = word_of_nat (48 + k mod 10)"
proof -
  have "\<forall>k \<in> set [0..<100]. pairs (k * 2) = word_of_nat (48 + k div 10) \<and> pairs (k * 2 + 1) = word_of_nat (48 + k mod 10)"
    by code_simp
  then show "k < 100 \<Longrightarrow> ?thesis" by simp
qed

lemma decimal_two:
  assumes "10 \<le> n"
  shows "decimal n = decimal (n div 10) @ [word_of_nat (48 + n mod 10)]"
  using assms by (simp add: decimal.simps [of n])

lemma inline_loop_decimal:
  "inline_loop n out = (r, out') \<Longrightarrow> decimal n @ out = decimal r @ out' \<and> r < 100"
proof (induction n out rule: inline_loop.induct)
  case (1 n out)
  show ?case
  proof (cases "n \<ge> 100")
    case True
    let ?k = "n - n div 100 * 100"
    have k: "?k = n mod 100" by (simp add: minus_div_mult_eq_mod)
    have "inline_loop (n div 100) (pairs (?k * 2) # pairs (?k * 2 + 1) # out) = (r, out')"
      using "1.prems" True by (subst (asm) inline_loop.simps) (simp add: Let_def)
    with "1.IH" [OF True refl refl] have ih: "decimal (n div 100) @ (pairs (?k * 2) # pairs (?k * 2 + 1) # out) = decimal r @ out'" "r < 100"
      by simp_all
    have "decimal n = decimal (n div 100) @ [word_of_nat (48 + n div 10 mod 10), word_of_nat (48 + n mod 10)]"
      using decimal_two [of n] decimal_two [of "n div 10"] True by (simp add: div_mult2_eq [symmetric])
    moreover have "pairs (?k * 2) = word_of_nat (48 + n div 10 mod 10)" "pairs (?k * 2 + 1) = word_of_nat (48 + n mod 10)"
    proof -
      have "n mod 100 div 10 = n div 10 mod 10" "n mod 100 mod 10 = n mod 10"
        by (simp_all add: mod_mult2_eq [of n 10 10, simplified] mod_mod_cancel)
      then show "pairs (?k * 2) = word_of_nat (48 + n div 10 mod 10)" "pairs (?k * 2 + 1) = word_of_nat (48 + n mod 10)"
        using pairs_digits [of "n mod 100"] unfolding k by simp_all
    qed
    ultimately show ?thesis using ih by simp
  next
    case False
    then show ?thesis using "1.prems" by (subst (asm) inline_loop.simps) simp
  qed
qed

lemma magnitude_eq:
  assumes "is_int32 v"
  shows "(if v < 0 then u32 (- v) else u32 v) = nat \<bar>v\<bar>" "(if v < 0 then u32 (0 - int (u32 v)) else u32 v) = nat \<bar>v\<bar>"
proof -
  have "u32 (0 - int (u32 v)) = nat (- v)" if "v < 0"
  proof -
    have "u32 v = nat (v + 2 ^ 32)" using assms that by (intro u32_neg) (auto simp: is_int32_def)
    then have "0 - int (u32 v) = - v - 2 ^ 32" using assms by (simp add: is_int32_def)
    then show ?thesis using assms that by (simp add: u32_def is_int32_def mod_diff_eq [of "- v" "4294967296", symmetric])
  qed
  then show "(if v < 0 then u32 (- v) else u32 v) = nat \<bar>v\<bar>" "(if v < 0 then u32 (0 - int (u32 v)) else u32 v) = nat \<bar>v\<bar>"
    using assms by (auto simp: u32_nonneg is_int32_def)
qed

lemma str_int_inline_bytes_eq: "is_int32 v \<Longrightarrow> str_int_inline_bytes v = decimal_int v"
proof -
  assume v: "is_int32 v"
  obtain r out where l: "inline_loop (nat \<bar>v\<bar>) [] = (r, out)" by fastforce
  note d = inline_loop_decimal [OF l]
  have "decimal r = (if r < 10 then [word_of_nat (48 + r)] else [pairs (r * 2), pairs (r * 2 + 1)])"
    using d pairs_digits [of r] by (auto simp: decimal.simps [of r] decimal.simps [of "r div 10"])
  then show ?thesis
    using d unfolding str_int_inline_bytes_def magnitude_eq(1) [OF v] l Let_def decimal_int_def by auto
qed

lemma undecimal_snoc: "undecimal (bs @ [b]) = 10 * undecimal bs + digit_val b"
  by (simp add: undecimal_def)

lemma digit_val_of: "d < 10 \<Longrightarrow> digit_val (word_of_nat (48 + d)) = d"
  by (simp add: digit_val_def unat_of_nat del: of_nat_add)

lemma undecimal_decimal: "undecimal (decimal n) = n"
proof (induction n rule: decimal.induct)
  case (1 n)
  show ?case
  proof (cases "n < 10")
    case True
    then show ?thesis by (simp add: decimal.simps [of n] undecimal_def digit_val_of del: of_nat_add)
  next
    case False
    have "undecimal (decimal n) = 10 * (n div 10) + n mod 10"
      using 1 False unfolding decimal_two [of n, OF False [unfolded not_less]] undecimal_snoc
      by (simp add: digit_val_of del: of_nat_add)
    then show ?thesis by simp
  qed
qed

lemma parse_decimal_int: "parse_int (decimal_int v) = v"
proof -
  have "decimal n \<noteq> []" for n by (simp add: decimal.simps [of n])
  then obtain b ds where c: "decimal (nat v) = b # ds" by (cases "decimal (nat v)") auto
  have "48 \<le> unat b" using decimal_digits [of b "nat v"] c by simp
  then have "b \<noteq> 45" by auto
  then show ?thesis using c undecimal_decimal [of "nat v"]
    by (auto simp: parse_int_def decimal_int_def undecimal_decimal)
qed

lemma decimal_int_length: "is_int32 v \<Longrightarrow> length (decimal_int v) \<le> 11"
proof -
  assume "is_int32 v"
  then have "nat (- v) < 10 ^ 10" "nat v < 10 ^ 10" by (auto simp: is_int32_def)
  from this [THEN decimal_length] show ?thesis by (auto simp: decimal_int_def)
qed

context rt_spec
begin

lemma int_to_str_ok:
  assumes "rinv B s" "is_int32 v"
  shows "built_ok S rinv B s 32 (decimal_int v @ [0]) (int_to_str S v s)"
proof -
  have e: "(if v < 0 then [45] else []) @ rev (digits_loop (nat \<bar>v\<bar>)) @ [0] = decimal_int v @ [0]"
    by (auto simp: digits_loop_decimal decimal_int_def)
  show ?thesis
    unfolding int_to_str_def magnitude_eq(2) [OF assms(2)] Let_def e
    by (rule build_ok [OF assms(1)]) (use decimal_int_length [OF assms(2)] in auto)
qed

end

subsection \<open>Properties\<close>

text \<open>Both integer formatters write the same decimal text, which reads back as the integer, for every
  32-bit value; the text has at most eleven bytes, so it fits the inline form, whose unused bytes are
  zero.\<close>

theorem int_text_round_trip:
  assumes "is_int32 v" "str_int_inline_words v = (n, bytes)" "rt_spec S rinv" "rinv B s"
  shows "parse_int (take n bytes) = v \<and> n \<le> 11 \<and> length bytes = 16 \<and> drop n bytes = replicate (16 - n) 0
    \<and> (case int_to_str S v s of
         Inl e \<Rightarrow> e = Null_store
       | Inr (r, s') \<Rightarrow> peek (rmem s') r (n + 1) = take n bytes @ [0] \<and> rt_kept B s s')"
proof -
  have d: "n = length (decimal_int v)" "bytes = decimal_int v @ replicate (16 - n) 0"
    using assms(2) by (auto simp: str_int_inline_words_def str_int_inline_bytes_eq [OF assms(1)] Let_def)
  then have t: "take n bytes = decimal_int v" "drop n bytes = replicate (16 - n) 0" "n \<le> 11" "length bytes = 16"
    using decimal_int_length [OF assms(1)] by simp_all
  moreover have "case int_to_str S v s of Inl e \<Rightarrow> e = Null_store
       | Inr (r, s') \<Rightarrow> peek (rmem s') r (n + 1) = decimal_int v @ [0] \<and> rt_kept B s s'"
    using rt_spec.int_to_str_ok [OF assms(3,4,1)] d(1) by (auto simp: built_ok_def split: sum.splits prod.splits)
  ultimately show ?thesis unfolding t(1) by (simp only: parse_decimal_int simp_thms)
qed

theorem int_text_round_trip_witness:
  "parse_int (take (fst (str_int_inline_words (- 2147483648))) (snd (str_int_inline_words (- 2147483648)))) = - 2147483648"
proof -
  obtain n bytes where w: "str_int_inline_words (- 2147483648) = (n, bytes)" by fastforce
  have "is_int32 (- 2147483648)" by (simp add: is_int32_def)
  from int_text_round_trip [OF this w plain.rt.rt_spec_axioms two_strings_inv] show ?thesis by (simp add: w)
qed

text \<open>C11. The consuming append yields the old text followed by every part, whether its base is a heap string, an inline
  one or a literal, and also when a part is the base itself or a view of it and the base moves.  The parts may lie in
  any other block the program holds, all of which keep their bytes.  A heap base is grown in place or reallocated, and
  its block is given up for the result's; the storage of an inline base (bit 31 of its word) or of a literal (bit
  34), which is some held block at the base's address, is copied out of and stays as it was, and the result is a new block.
  It leaves the process only when the heap is full.  The base's storage has a byte more than its text; a base
  marked geometric (bit 33), unless inline, is no literal and has the power of two that the mark promises.\<close>

theorem append_joins_aliased_parts:
  assumes "rt_spec S rinv" and "rinv B s" and "B b = Some (v, k)" "left + 1 \<le> k"
    and "copied word \<or> v = Seam" and "bit word 33 \<Longrightarrow> bit word 31 \<or> \<not> bit word 34 \<and> str_append_bit_ceil (left + 1) \<le> k"
    and "1 \<le> length ps" "length ps \<le> 5" and "\<And>p n. (p, n) \<in> set ps \<Longrightarrow> part_ok B b left p n"
    and "int left + int (sum_list (map snd ps)) \<le> INT_MAX"
  shows "case str_append_reuse_many S b (int left) word (int (length ps)) (map fst ps) (map (int \<circ> snd) ps) s of
      Inl e \<Rightarrow> e = Exit ''out of memory growing String''
    | Inr (r, s') \<Rightarrow> rt_kept (base_left B b word) s s' \<and> base_left B b word r = None
        \<and> (\<exists>k'>left + sum_list (map snd ps). rinv ((base_left B b word)(r \<mapsto> (Seam, k'))) s')
        \<and> peek (rmem s') r (left + sum_list (map snd ps) + 1) = peek (rmem s) b left @ part_bytes (rmem s) ps @ [0]"
proof (cases "str_append_reuse_many S b (int left) word (int (length ps)) (map fst ps) (map (int \<circ> snd) ps) s")
  case (Inl e)
  have "b \<noteq> 0" using rt_spec.rinv_wf [OF assms(1,2)] assms(3) unfolding owned_wf_def by blast
  then have "e = Exit ''out of memory growing String''"
    using Inl assms(7,8) append_total_parts [OF assms(10)]
    by (auto simp: str_append_reuse_many_def STR_APPEND_MAX_PARTS_def Let_def str_append_grow_def
        split: if_splits sum.splits prod.splits)
  then show ?thesis using Inl by simp
next
  case (Inr x)
  obtain r s' where x: "x = (r, s')" by fastforce
  have "str_append_reuse_many S b (int left) word (int (length ps)) (map fst ps @ []) (map (int \<circ> snd) ps @ []) s = Inr (r, s')"
    using Inr x by simp
  from rt_spec.append_ok [OF assms(1-5) _ assms(7,8) _ assms(10) this] assms(6,9) show ?thesis
    using Inr x by (simp del: fun_upd_apply)
qed

text \<open>The same text appended to itself, in place in a geometric block of 16 bytes, and from a literal.\<close>

theorem append_joins_aliased_parts_witness:
  "(\<exists>r s'. str_append_reuse_many plain_seam 4096 2 0x200000000 1 [4096] [2] two_strings = Inr (r, s')
     \<and> peek (rmem s') r 5 = [104, 105, 104, 105, 0])
   \<and> (\<exists>r s'. str_append_reuse_many plain_seam 4096 2 0x400000000 1 [4096] [2] two_strings = Inr (r, s')
     \<and> peek (rmem s') r 5 = [104, 105, 104, 105, 0] \<and> peek (rmem s') 4096 16 = peek (rmem two_strings) 4096 16)"
proof -
  have c: "str_append_bit_ceil 3 = 16" "str_append_bit_ceil 5 = 16" by (simp_all add: str_append_bit_ceil_def)
  have b: "\<not> bit (0x200000000 :: 64 word) 31" "\<not> bit (0x200000000 :: 64 word) 34" "bit (0x200000000 :: 64 word) 33"
      "\<not> bit (0x400000000 :: 64 word) 31" "bit (0x400000000 :: 64 word) 34" "\<not> bit (0x400000000 :: 64 word) 33"
    by (simp_all add: bit_numeral_rec)
  have p: "peek (rmem two_strings) 4096 2 = [104, 105]"
    using two_strings_facts(1) by (simp add: cstr_def eval_nat_numeral)
  let ?ps = "[(4096 :: addr, 2 :: nat)]"
  let ?out = "\<lambda>w. str_append_reuse_many plain_seam 4096 (int 2) w (int (length ?ps)) (map fst ?ps) (map (int \<circ> snd) ?ps) two_strings"
  have R: "case ?out w of
      Inl e \<Rightarrow> e = Exit ''out of memory growing String''
    | Inr (r, s') \<Rightarrow> rt_kept (base_left two_blocks 4096 w) two_strings s' \<and> base_left two_blocks 4096 w r = None
        \<and> (\<exists>k'>2 + sum_list (map snd ?ps). rt_inv plain_inv ((base_left two_blocks 4096 w)(r \<mapsto> (Seam, k'))) s')
        \<and> peek (rmem s') r (2 + sum_list (map snd ?ps) + 1)
            = peek (rmem two_strings) 4096 2 @ part_bytes (rmem two_strings) ?ps @ [0]"
    if "bit w 33 \<Longrightarrow> bit w 31 \<or> \<not> bit w 34" for w :: "64 word"
    by (rule append_joins_aliased_parts [OF plain.rt.rt_spec_axioms two_strings_inv, where k = 16 and v = Seam])
      (use that c in \<open>simp_all add: part_ok_def INT_MAX_def numeral_3_eq_3 numeral_2_eq_2\<close>)
  have 1: "\<exists>x. ?out 0x200000000 = Inr x"
    using b c by (simp add: str_append_reuse_many_def STR_APPEND_MAX_PARTS_def str_append_grow_def Let_def INT_MAX_def)
  have "fst (rt_base_alloc plain_seam 16 two_strings) \<noteq> 0"
    by (simp add: rt_base_alloc_def plain_seam_def plain_rt_base_alloc_def malloc_def two_strings_def Let_def)
  then have 2: "\<exists>x. ?out 0x400000000 = Inr x"
    using b c by (auto simp: str_append_reuse_many_def STR_APPEND_MAX_PARTS_def str_append_grow_def Let_def INT_MAX_def split: prod.splits)
  have kept: "peek (rmem s') 4096 16 = peek (rmem two_strings) 4096 16" if "rt_kept (base_left two_blocks 4096 0x400000000) two_strings s'" for s'
    using that b by (auto simp: base_left_def copied_def rt_kept_def kept_def)
  show ?thesis using 1 2 R [of "0x200000000"] R [of "0x400000000"] b kept by (auto simp: p part_bytes_def)
qed

end
