(* ===== verification/Cycles.thy ===== *)
theory Cycles
  imports Prelude
begin

text \<open>
  The cycle collector of \<open>runtime/lang_runtime.c\<close> (\<open>cyc_alloc\<close> to \<open>cyc_collections_run\<close>): reference
  counts with trial deletion.  An object is named by the address the program holds; its header is a
  record.  The visitor that codegen stamps into a header is modelled by what it visits: the list of
  the object's cyclic fields, null ones included.  Every entry point runs under one lock, so it is
  one step.

  \<open>freed\<close> has the objects whose storage went back, the latest first.  A header is read after that in
  one place; the model lets the read see the last contents, as the slab allocator leaves them, and
  logs it in \<open>stale\<close>.

  The traversals recurse in C; here they take fuel and return \<open>None\<close> without it.  The window
  \<open>cyc_walk\<close> that holds the children while an object is visited is the list of children itself, and a
  count is a natural number: a \<open>size_t\<close> wraps only after 2^64 retains of one object.
\<close>

subsection \<open>Definitions\<close>

datatype colour = CYC_BLACK | CYC_GREY | CYC_WHITE | CYC_PURPLE

record CycHeader =
  rc :: nat
  colour :: colour
  buffered :: bool
  children :: "addr list option"

record cyc =
  hdrs :: "addr \<Rightarrow> CycHeader"
  freed :: "addr list"
  stale :: "addr list"
  cyc_candidates :: "addr list"
  cyc_cand_cap :: nat
  cyc_allocated :: nat
  cyc_collected :: nat
  cyc_collections :: nat

definition CYC_THETA_BUFFER :: nat where "CYC_THETA_BUFFER = 4096"
definition CYC_K_ROOTS :: nat where "CYC_K_ROOTS = 256"

definition cyc_hdr :: "addr \<Rightarrow> cyc \<Rightarrow> CycHeader" where
  "cyc_hdr x s = hdrs s x"

definition set_hdr :: "addr \<Rightarrow> CycHeader \<Rightarrow> cyc \<Rightarrow> cyc" where
  "set_hdr x h s = s\<lparr>hdrs := (hdrs s)(x := h)\<rparr>"

definition cyc_buffer :: "addr \<Rightarrow> cyc \<Rightarrow> cyc" where
  "cyc_buffer p s =
     (let n = length (cyc_candidates s);
          s = (if n = cyc_cand_cap s then s\<lparr>cyc_cand_cap := (if n = 0 then 256 else n * 2)\<rparr> else s)
      in s\<lparr>cyc_candidates := cyc_candidates s @ [p]\<rparr>)"

definition cyc_free_object :: "addr \<Rightarrow> cyc \<Rightarrow> cyc" where
  "cyc_free_object p s = s\<lparr>cyc_collected := cyc_collected s + 1, freed := p # freed s\<rparr>"

fun cyc_mark_grey :: "nat \<Rightarrow> addr \<Rightarrow> cyc \<Rightarrow> cyc option"
  and mark_kids :: "nat \<Rightarrow> addr list \<Rightarrow> cyc \<Rightarrow> cyc option" where
  "cyc_mark_grey 0 x s = None"
| "cyc_mark_grey (Suc n) x s =
     (let h = cyc_hdr x s in
      if colour h = CYC_GREY then Some s
      else let s = set_hdr x (h\<lparr>colour := CYC_GREY\<rparr>) s in
           case children h of None \<Rightarrow> Some s | Some ys \<Rightarrow> mark_kids n ys s)"
| "mark_kids n [] s = Some s"
| "mark_kids n (y # ys) s =
     (if y = 0 then mark_kids n ys s
      else let yh = cyc_hdr y s;
               s = (if rc yh > 0 then set_hdr y (yh\<lparr>rc := rc yh - 1\<rparr>) s else s)
           in case cyc_mark_grey n y s of None \<Rightarrow> None | Some s \<Rightarrow> mark_kids n ys s)"

fun cyc_scan_black :: "nat \<Rightarrow> addr \<Rightarrow> cyc \<Rightarrow> cyc option"
  and black_kids :: "nat \<Rightarrow> addr list \<Rightarrow> cyc \<Rightarrow> cyc option" where
  "cyc_scan_black 0 x s = None"
| "cyc_scan_black (Suc n) x s =
     (let h = cyc_hdr x s; s = set_hdr x (h\<lparr>colour := CYC_BLACK\<rparr>) s in
      case children h of None \<Rightarrow> Some s | Some ys \<Rightarrow> black_kids n ys s)"
| "black_kids n [] s = Some s"
| "black_kids n (y # ys) s =
     (if y = 0 then black_kids n ys s
      else let yh = cyc_hdr y s; s = set_hdr y (yh\<lparr>rc := rc yh + 1\<rparr>) s in
           if colour yh \<noteq> CYC_BLACK
           then (case cyc_scan_black n y s of None \<Rightarrow> None | Some s \<Rightarrow> black_kids n ys s)
           else black_kids n ys s)"

fun cyc_scan :: "nat \<Rightarrow> addr \<Rightarrow> cyc \<Rightarrow> cyc option"
  and scan_kids :: "nat \<Rightarrow> addr list \<Rightarrow> cyc \<Rightarrow> cyc option" where
  "cyc_scan 0 x s = None"
| "cyc_scan (Suc n) x s =
     (let h = cyc_hdr x s in
      if colour h \<noteq> CYC_GREY then Some s
      else if rc h > 0 then cyc_scan_black n x s
      else let s = set_hdr x (h\<lparr>colour := CYC_WHITE\<rparr>) s in
           case children h of None \<Rightarrow> Some s | Some ys \<Rightarrow> scan_kids n ys s)"
| "scan_kids n [] s = Some s"
| "scan_kids n (y # ys) s =
     (if y = 0 then scan_kids n ys s
      else case cyc_scan n y s of None \<Rightarrow> None | Some s \<Rightarrow> scan_kids n ys s)"

fun cyc_collect_white :: "nat \<Rightarrow> addr \<Rightarrow> cyc \<Rightarrow> cyc option"
  and white_kids :: "nat \<Rightarrow> addr list \<Rightarrow> cyc \<Rightarrow> cyc option" where
  "cyc_collect_white 0 x s = None"
| "cyc_collect_white (Suc n) x s =
     (let s = (if x \<in> set (freed s) then s\<lparr>stale := x # stale s\<rparr> else s); h = cyc_hdr x s in
      if colour h \<noteq> CYC_WHITE \<or> buffered h then Some s
      else let s = set_hdr x (h\<lparr>colour := CYC_BLACK\<rparr>) s;
               kids = (case children h of None \<Rightarrow> [] | Some ys \<Rightarrow> ys);
               s = cyc_free_object x s
           in white_kids n kids s)"
| "white_kids n [] s = Some s"
| "white_kids n (y # ys) s =
     (if y = 0 then white_kids n ys s
      else case cyc_collect_white n y s of None \<Rightarrow> None | Some s \<Rightarrow> white_kids n ys s)"

fun each :: "(addr \<Rightarrow> cyc \<Rightarrow> cyc option) \<Rightarrow> addr list \<Rightarrow> cyc \<Rightarrow> cyc option" where
  "each f [] s = Some s"
| "each f (x # xs) s = (case f x s of None \<Rightarrow> None | Some s \<Rightarrow> each f xs s)"

fun unbuffer :: "addr list \<Rightarrow> cyc \<Rightarrow> cyc" where
  "unbuffer [] s = s"
| "unbuffer (x # xs) s = unbuffer xs (set_hdr x ((cyc_hdr x s)\<lparr>buffered := False\<rparr>) s)"

text \<open>\<open>MarkRoots\<close>: a root whose count is zero is garbage by itself.\<close>

fun drop_dead :: "addr list \<Rightarrow> cyc \<Rightarrow> addr list \<times> cyc" where
  "drop_dead [] s = ([], s)"
| "drop_dead (x # xs) s =
     (if rc (cyc_hdr x s) = 0 then drop_dead xs (cyc_free_object x s)
      else let (ys, s') = drop_dead xs s in (x # ys, s'))"

definition cyc_collect :: "nat \<Rightarrow> bool \<Rightarrow> cyc \<Rightarrow> cyc option" where
  "cyc_collect n all s =
     (let m = length (cyc_candidates s); tk = (if all then m else if m < CYC_K_ROOTS then m else CYC_K_ROOTS) in
      if tk = 0 then Some s
      else let s = s\<lparr>cyc_collections := cyc_collections s + 1\<rparr>;
               roots = take tk (cyc_candidates s);
               s = s\<lparr>cyc_candidates := drop tk (cyc_candidates s)\<rparr>;
               s = unbuffer roots s;
               (roots, s) = drop_dead roots s
           in case each (cyc_mark_grey n) roots s of
                None \<Rightarrow> None
              | Some s \<Rightarrow> (case each (cyc_scan n) roots s of
                  None \<Rightarrow> None
                | Some s \<Rightarrow> each (cyc_collect_white n) roots s))"

text \<open>\<open>while (cyc_cand_count > 0) cyc_collect(1)\<close>: the first round empties the buffer, and nothing is
  buffered while it runs.\<close>

definition cyc_final :: "nat \<Rightarrow> cyc \<Rightarrow> cyc option" where
  "cyc_final n s =
     map_option (\<lambda>s. s\<lparr>cyc_candidates := [], cyc_cand_cap := 0\<rparr>)
       (if cyc_candidates s = [] then Some s else cyc_collect n True s)"

text \<open>Where the storage of a new object lies is the seam's answer, 0 for a refusal.\<close>

definition cyc_alloc :: "addr \<Rightarrow> cyc \<Rightarrow> addr \<times> cyc" where
  "cyc_alloc p s =
     (if p = 0 then (0, s)
      else (p, (set_hdr p \<lparr>rc = 0, colour = CYC_BLACK, buffered = False, children = None\<rparr> s)
                 \<lparr>cyc_allocated := cyc_allocated s + 1, freed := removeAll p (freed s)\<rparr>))"

definition cyc_set_type :: "addr \<Rightarrow> addr list option \<Rightarrow> cyc \<Rightarrow> cyc" where
  "cyc_set_type p ch s = (if p = 0 then s else set_hdr p ((cyc_hdr p s)\<lparr>children := ch\<rparr>) s)"

definition cyc_retain :: "addr \<Rightarrow> cyc \<Rightarrow> cyc" where
  "cyc_retain p s = (if p = 0 then s else set_hdr p ((cyc_hdr p s)\<lparr>rc := rc (cyc_hdr p s) + 1\<rparr>) s)"

definition cyc_release :: "nat \<Rightarrow> addr \<Rightarrow> cyc \<Rightarrow> cyc option" where
  "cyc_release n p s =
     (if p = 0 then Some s
      else let h = cyc_hdr p s in
           if rc h = 0 then Some s
           else let h = h\<lparr>rc := rc h - 1\<rparr> in
                if rc h = 0
                then if buffered h then Some (set_hdr p (h\<lparr>colour := CYC_BLACK\<rparr>) s)
                     else Some (cyc_free_object p (set_hdr p h s))
                else if \<not> buffered h
                     then let s = cyc_buffer p (set_hdr p (h\<lparr>colour := CYC_PURPLE, buffered := True\<rparr>) s) in
                          if length (cyc_candidates s) \<ge> CYC_THETA_BUFFER then cyc_collect n False s else Some s
                     else Some (set_hdr p h s))"

definition cyc_collect_now :: "nat \<Rightarrow> cyc \<Rightarrow> cyc option" where
  "cyc_collect_now n s = cyc_collect n True s"

definition cyc_objects :: "cyc \<Rightarrow> nat" where "cyc_objects s = cyc_allocated s"
definition cyc_reclaimed :: "cyc \<Rightarrow> nat" where "cyc_reclaimed s = cyc_collected s"
definition cyc_collections_run :: "cyc \<Rightarrow> nat" where "cyc_collections_run s = cyc_collections s"

end
