(* ===== verification/Cycles_Walk.thy ===== *)
theory Cycles_Walk
  imports Cycles
begin

text \<open>
  The traversals of the collector as sets: marking and blackening visit exactly the objects that were
  not yet coloured and change every count by the number of edges they walked.
\<close>

definition kids_in :: "addr list \<Rightarrow> addr list" where
  "kids_in ys = filter (\<lambda>y. y \<noteq> 0) ys"

definition kidsof :: "cyc \<Rightarrow> addr \<Rightarrow> addr list" where
  "kidsof s x = (case children (hdrs s x) of None \<Rightarrow> [] | Some ys \<Rightarrow> kids_in ys)"

definition edges :: "cyc \<Rightarrow> addr set \<Rightarrow> addr \<Rightarrow> nat" where
  "edges s N y = (\<Sum>n\<in>N. count_list (kidsof s n) y)"

definition reach :: "cyc \<Rightarrow> addr set \<Rightarrow> addr set" where
  "reach s X = {(a, b). b \<in> set (kidsof s a)}\<^sup>* `` X"

definition coloured :: "colour \<Rightarrow> cyc \<Rightarrow> addr set" where
  "coloured c s = {x. colour (hdrs s x) = c}"

definition shade :: "colour \<Rightarrow> addr set \<Rightarrow> (addr \<Rightarrow> nat) \<Rightarrow> (addr \<Rightarrow> nat) \<Rightarrow> cyc \<Rightarrow> cyc" where
  "shade c N d u s = s\<lparr>hdrs := \<lambda>y. (hdrs s y)\<lparr>rc := rc (hdrs s y) - d y + u y,
     colour := (if y \<in> N then c else colour (hdrs s y))\<rparr>\<rparr>"

definition dfs :: "colour \<Rightarrow> cyc \<Rightarrow> addr set \<Rightarrow> addr set \<Rightarrow> bool" where
  "dfs c s N X \<longleftrightarrow> finite N \<and> N \<inter> coloured c s = {} \<and> X \<subseteq> coloured c s \<union> N
     \<and> (\<forall>x\<in>N. set (kidsof s x) \<subseteq> coloured c s \<union> N) \<and> N \<subseteq> reach s X"

lemma kids_in_simps [simp]: "kids_in [] = []" "kids_in (y # ys) = (if y = 0 then kids_in ys else y # kids_in ys)"
  by (simp_all add: kids_in_def)

lemma shade_fields [simp]:
  "children (hdrs (shade c N d u s) x) = children (hdrs s x)" "buffered (hdrs (shade c N d u s) x) = buffered (hdrs s x)"
  "rc (hdrs (shade c N d u s) x) = rc (hdrs s x) - d x + u x"
  "colour (hdrs (shade c N d u s) x) = (if x \<in> N then c else colour (hdrs s x))"
  "freed (shade c N d u s) = freed s" "stale (shade c N d u s) = stale s"
  "cyc_candidates (shade c N d u s) = cyc_candidates s" "cyc_collected (shade c N d u s) = cyc_collected s"
  "cyc_cand_cap (shade c N d u s) = cyc_cand_cap s" "cyc_allocated (shade c N d u s) = cyc_allocated s"
  "cyc_collections (shade c N d u s) = cyc_collections s"
  by (simp_all add: shade_def)

lemma kidsof_cong: "(\<And>x. children (hdrs s' x) = children (hdrs s x)) \<Longrightarrow> kidsof s' = kidsof s"
  by (simp add: kidsof_def fun_eq_iff)

lemma kidsof_shade [simp]: "kidsof (shade c N d u s) = kidsof s"
  by (rule kidsof_cong) simp

lemma edges_cong: "kidsof s' = kidsof s \<Longrightarrow> edges s' = edges s"
  by (simp add: edges_def fun_eq_iff)

lemma reach_cong: "kidsof s' = kidsof s \<Longrightarrow> reach s' = reach s"
  by (simp add: reach_def fun_eq_iff)

lemma edges_shade [simp]: "edges (shade c N d u s) = edges s" "reach (shade c N d u s) = reach s"
  by (rule edges_cong, rule kidsof_shade) (rule reach_cong, rule kidsof_shade)

lemma coloured_shade [simp]: "coloured c (shade c N d u s) = coloured c s \<union> N"
  by (auto simp: coloured_def)

lemma coloured_shade_other: "c \<noteq> e \<Longrightarrow> coloured e (shade c N d u s) = coloured e s - N"
  by (auto simp: coloured_def)

lemma shade_eqI:
  assumes "\<And>y. colour (hdrs s' y) = (if y \<in> N then c else colour (hdrs s y))"
    "\<And>y. rc (hdrs s' y) = rc (hdrs s y) - d y + u y" "\<And>y. buffered (hdrs s' y) = buffered (hdrs s y)"
    "\<And>y. children (hdrs s' y) = children (hdrs s y)" "s'\<lparr>hdrs := hdrs s\<rparr> = s"
  shows "s' = shade c N d u s"
proof -
  have "hdrs s' y = hdrs (shade c N d u s) y" for y
    by (rule CycHeader.equality) (simp_all add: assms)
  then have "hdrs s' = hdrs (shade c N d u s)" by (rule ext)
  moreover have "s' = (s'\<lparr>hdrs := hdrs s\<rparr>)\<lparr>hdrs := hdrs s'\<rparr>" by simp
  ultimately show ?thesis unfolding assms(5) by (simp add: shade_def)
qed

lemma shade_rest [simp]: "(shade c N d u s)\<lparr>hdrs := h\<rparr> = s\<lparr>hdrs := h\<rparr>" "s\<lparr>hdrs := hdrs s\<rparr> = (s :: cyc)"
  by (simp_all add: shade_def)

lemma shade_down: "shade c M e (\<lambda>_. 0) (shade c N d (\<lambda>_. 0) s) = shade c (N \<union> M) (\<lambda>y. d y + e y) (\<lambda>_. 0) s"
  by (rule shade_eqI) auto

lemma shade_up: "shade c M (\<lambda>_. 0) v (shade c N (\<lambda>_. 0) u s) = shade c (N \<union> M) (\<lambda>_. 0) (\<lambda>y. u y + v y) s"
  by (rule shade_eqI) auto

lemma shade_none [simp]: "shade c {} (\<lambda>_. 0) (\<lambda>_. 0) s = s"
  by (simp add: shade_def)

lemma set_hdr_shade:
  "set_hdr x ((cyc_hdr x s)\<lparr>colour := c\<rparr>) s = shade c {x} (\<lambda>_. 0) (\<lambda>_. 0) s"
  "(if rc (cyc_hdr y s) > 0 then set_hdr y ((cyc_hdr y s)\<lparr>rc := rc (cyc_hdr y s) - 1\<rparr>) s else s)
     = shade c {} (\<lambda>z. if z = y then 1 else 0) (\<lambda>_. 0) s"
  "set_hdr y ((cyc_hdr y s)\<lparr>rc := rc (cyc_hdr y s) + 1\<rparr>) s = shade c {} (\<lambda>_. 0) (\<lambda>z. if z = y then 1 else 0) s"
  by (rule shade_eqI; simp add: set_hdr_def cyc_hdr_def)+

lemma edges_empty [simp]: "edges s {} y = 0"
  by (simp add: edges_def)

lemma edges_Un: "finite N \<Longrightarrow> finite M \<Longrightarrow> N \<inter> M = {} \<Longrightarrow> edges s (N \<union> M) y = edges s N y + edges s M y"
  by (simp add: edges_def sum.union_disjoint)

lemma edges_insert: "finite N \<Longrightarrow> x \<notin> N \<Longrightarrow> edges s (insert x N) y = count_list (kidsof s x) y + edges s N y"
  by (simp add: edges_def)

lemma edges_mono: "finite M \<Longrightarrow> N \<subseteq> M \<Longrightarrow> edges s N y \<le> edges s M y"
  unfolding edges_def by (rule sum_mono2) auto

lemma edges_zero: "(\<And>x. x \<in> N \<Longrightarrow> y \<notin> set (kidsof s x)) \<Longrightarrow> edges s N y = 0"
  unfolding edges_def by (rule sum.neutral) (auto simp: count_list_0_iff)

lemma edges_zeroD: "finite N \<Longrightarrow> edges s N y = 0 \<Longrightarrow> x \<in> N \<Longrightarrow> y \<notin> set (kidsof s x)"
  unfolding edges_def by (simp add: count_list_0_iff)

lemma reach_self: "X \<subseteq> reach s X"
  by (auto simp: reach_def)

lemma reach_mono: "X \<subseteq> Y \<Longrightarrow> reach s X \<subseteq> reach s Y"
  by (auto simp: reach_def)

lemma reach_kids: "x \<in> reach s X \<Longrightarrow> set (kidsof s x) \<subseteq> reach s X"
  unfolding reach_def by (auto intro: rtrancl_into_rtrancl)

lemma reach_closed:
  assumes "X \<subseteq> C" "\<And>x. x \<in> C \<Longrightarrow> set (kidsof s x) \<subseteq> C"
  shows "reach s X \<subseteq> C"
proof -
  have "y \<in> C" if "(x, y) \<in> {(a, b). b \<in> set (kidsof s a)}\<^sup>*" "x \<in> C" for x y
    using that by (induction rule: rtrancl_induct) (use assms(2) in blast)+
  with assms(1) show ?thesis by (auto simp: reach_def)
qed

lemma reach_reach: "X \<subseteq> reach s Y \<Longrightarrow> reach s X \<subseteq> reach s Y"
  using reach_closed [of X "reach s Y" s] reach_kids by blast

lemma dfs_done: "x \<in> coloured c s \<Longrightarrow> dfs c s {} {x}"
  by (simp add: dfs_def)

lemma dfs_enter:
  assumes "x \<notin> coloured c s" "dfs c (shade c {x} d u s) N (set (kidsof s x))"
  shows "dfs c s (insert x N) {x}"
proof -
  have "N \<subseteq> reach s {x}" using assms(2) reach_reach [of "set (kidsof s x)" s "{x}"] reach_kids [of x s "{x}"] reach_self [of "{x}" s]
    by (auto simp: dfs_def)
  then show ?thesis using assms reach_self [of "{x}" s] by (auto simp: dfs_def)
qed

lemma dfs_next:
  assumes "dfs c s N {y}" "dfs c (shade c N d u s) M Y"
  shows "dfs c s (N \<union> M) (insert y Y)" "N \<inter> M = {}" "finite N" "finite M"
proof -
  have "N \<subseteq> reach s (insert y Y)" "M \<subseteq> reach s (insert y Y)"
    using assms reach_mono [of "{y}" "insert y Y" s] reach_mono [of Y "insert y Y" s] subset_insertI [of Y y] by (auto simp: dfs_def)
  then show "dfs c s (N \<union> M) (insert y Y)" using assms by (auto simp: dfs_def)
  show "N \<inter> M = {}" "finite N" "finite M" using assms by (auto simp: dfs_def)
qed

lemma dfs_recount: "dfs c (shade c {} d u s) N X = dfs c s N X"
  by (simp add: dfs_def)

subsection \<open>Marking\<close>

definition mark_post :: "cyc \<Rightarrow> addr set \<Rightarrow> (addr \<Rightarrow> nat) \<Rightarrow> cyc \<Rightarrow> bool" where
  "mark_post s X k s' \<longleftrightarrow> (\<exists>N. dfs CYC_GREY s N X \<and> s' = shade CYC_GREY N (\<lambda>y. edges s N y + k y) (\<lambda>_. 0) s)"

lemma mark_grey_post:
  "cyc_mark_grey n x s = Some s' \<Longrightarrow> mark_post s {x} (\<lambda>_. 0) s'"
  "mark_kids n ys s = Some s' \<Longrightarrow> mark_post s (set (kids_in ys)) (count_list (kids_in ys)) s'"
proof (induction n x s and n ys s arbitrary: s' and s' rule: cyc_mark_grey_mark_kids.induct)
  case (2 n x s)
  let ?s = "shade CYC_GREY {x} (\<lambda>_. 0) (\<lambda>_. 0) s"
  show ?case
  proof (cases "colour (cyc_hdr x s) = CYC_GREY")
    case True
    then show ?thesis using "2.prems" unfolding mark_post_def
      by (intro exI [of _ "{}"]) (auto simp: dfs_done coloured_def cyc_hdr_def)
  next
    case False
    then have x: "x \<notin> coloured CYC_GREY s" by (simp add: coloured_def cyc_hdr_def)
    have "mark_post ?s (set (kidsof s x)) (count_list (kidsof s x)) s'"
    proof (cases "children (cyc_hdr x s)")
      case None
      then have "s' = ?s" using "2.prems" False by (simp add: Let_def set_hdr_shade)
      moreover have "kidsof s x = []" using None by (simp add: kidsof_def cyc_hdr_def)
      ultimately show ?thesis unfolding mark_post_def by (intro exI [of _ "{}"]) (simp add: dfs_def)
    next
      case (Some ys)
      then have "mark_kids n ys ?s = Some s'" using "2.prems" False by (simp add: Let_def set_hdr_shade)
      with "2.IH" [OF refl False refl Some] have "mark_post ?s (set (kids_in ys)) (count_list (kids_in ys)) s'"
        by (simp only: set_hdr_shade)
      with Some show ?thesis by (simp add: kidsof_def cyc_hdr_def)
    qed
    then obtain N where N: "dfs CYC_GREY ?s N (set (kidsof s x))"
      "s' = shade CYC_GREY N (\<lambda>y. edges s N y + count_list (kidsof s x) y) (\<lambda>_. 0) ?s"
      by (auto simp: mark_post_def)
    have "x \<notin> N" "finite N" using N(1) by (auto simp: dfs_def)
    then have "s' = shade CYC_GREY (insert x N) (\<lambda>y. edges s (insert x N) y) (\<lambda>_. 0) s"
      unfolding N(2) shade_down
      by (intro arg_cong2 [where f = "\<lambda>M d. shade CYC_GREY M d (\<lambda>_. 0) s"]) (auto simp: edges_insert)
    then show ?thesis using dfs_enter [OF x N(1)] unfolding mark_post_def by auto
  qed
next
  case (3 n s)
  then show ?case unfolding mark_post_def by (intro exI [of _ "{}"]) (simp add: dfs_def)
next
  case (4 n y ys s)
  show ?case
  proof (cases "y = 0")
    case True
    then show ?thesis using 4 by simp
  next
    case False
    let ?s = "shade CYC_GREY {} (\<lambda>z. if z = y then 1 else 0) (\<lambda>_. 0) s"
    note up = set_hdr_shade(2) [of y s CYC_GREY]
    have "(case cyc_mark_grey n y ?s of None \<Rightarrow> None | Some s \<Rightarrow> mark_kids n ys s) = Some s'"
      using "4.prems" False by (simp only: mark_kids.simps Let_def up if_False)
    then obtain s1 where s1: "cyc_mark_grey n y ?s = Some s1" "mark_kids n ys s1 = Some s'"
      by (auto split: option.splits)
    have m1: "mark_post ?s {y} (\<lambda>_. 0) s1"
      using "4.IH"(2) [OF False refl refl, unfolded up, OF s1(1)] .
    have m2: "mark_post s1 (set (kids_in ys)) (count_list (kids_in ys)) s'"
      using "4.IH"(3) [OF False refl refl, unfolded up, OF s1] .
    obtain N where N: "dfs CYC_GREY s N {y}" "s1 = shade CYC_GREY N (edges s N) (\<lambda>_. 0) ?s"
      using m1 by (auto simp: mark_post_def dfs_recount)
    then have s1': "s1 = shade CYC_GREY N (\<lambda>z. (if z = y then 1 else 0) + edges s N z) (\<lambda>_. 0) s"
      unfolding N(2) shade_down by simp
    obtain M where M: "dfs CYC_GREY s1 M (set (kids_in ys))"
      "s' = shade CYC_GREY M (\<lambda>z. edges s M z + count_list (kids_in ys) z) (\<lambda>_. 0) s1"
      using m2 unfolding mark_post_def s1' by auto
    note D = dfs_next [OF N(1) M(1) [unfolded s1']]
    have "s' = shade CYC_GREY (N \<union> M) (\<lambda>z. edges s (N \<union> M) z + count_list (kids_in (y # ys)) z) (\<lambda>_. 0) s"
      unfolding M(2) s1' shade_down using False D by (intro arg_cong [of _ _ "\<lambda>d. shade _ _ d _ _"]) (auto simp: edges_Un)
    with D(1) False show ?thesis unfolding mark_post_def by auto
  qed
qed simp_all


subsection \<open>Blackening\<close>

definition black_post :: "cyc \<Rightarrow> addr set \<Rightarrow> (addr \<Rightarrow> nat) \<Rightarrow> cyc \<Rightarrow> bool" where
  "black_post s X k s' \<longleftrightarrow> (\<exists>N. dfs CYC_BLACK s N X \<and> s' = shade CYC_BLACK N (\<lambda>_. 0) (\<lambda>y. edges s N y + k y) s)"

lemma black_post_next:
  assumes "black_post (shade CYC_BLACK {} (\<lambda>_. 0) (\<lambda>z. if z = y then 1 else 0) s) {y} (\<lambda>_. 0) s1" "y \<noteq> 0"
    and "black_post s1 (set (kids_in ys)) (count_list (kids_in ys)) s'"
  shows "black_post s (set (kids_in (y # ys))) (count_list (kids_in (y # ys))) s'"
proof -
  let ?s = "shade CYC_BLACK {} (\<lambda>_. 0) (\<lambda>z. if z = y then 1 else 0) s"
  obtain N where N: "dfs CYC_BLACK s N {y}" "s1 = shade CYC_BLACK N (\<lambda>_. 0) (edges s N) ?s"
    using assms(1) by (auto simp: black_post_def dfs_recount)
  then have s1': "s1 = shade CYC_BLACK N (\<lambda>_. 0) (\<lambda>z. (if z = y then 1 else 0) + edges s N z) s"
    unfolding N(2) shade_up by simp
  obtain M where M: "dfs CYC_BLACK s1 M (set (kids_in ys))"
    "s' = shade CYC_BLACK M (\<lambda>_. 0) (\<lambda>z. edges s M z + count_list (kids_in ys) z) s1"
    using assms(3) unfolding black_post_def s1' by auto
  note D = dfs_next [OF N(1) M(1) [unfolded s1']]
  have "s' = shade CYC_BLACK (N \<union> M) (\<lambda>_. 0) (\<lambda>z. edges s (N \<union> M) z + count_list (kids_in (y # ys)) z) s"
    unfolding M(2) s1' shade_up using assms(2) D by (intro arg_cong [of _ _ "\<lambda>u. shade _ _ _ u _"]) (auto simp: edges_Un)
  with D(1) assms(2) show ?thesis unfolding black_post_def by auto
qed

lemma scan_black_post:
  "cyc_scan_black n x s = Some s' \<Longrightarrow> x \<notin> coloured CYC_BLACK s \<Longrightarrow> black_post s {x} (\<lambda>_. 0) s'"
  "black_kids n ys s = Some s' \<Longrightarrow> black_post s (set (kids_in ys)) (count_list (kids_in ys)) s'"
proof (induction n x s and n ys s arbitrary: s' and s' rule: cyc_scan_black_black_kids.induct)
  case (2 n x s)
  let ?s = "shade CYC_BLACK {x} (\<lambda>_. 0) (\<lambda>_. 0) s"
  have "black_post ?s (set (kidsof s x)) (count_list (kidsof s x)) s'"
  proof (cases "children (cyc_hdr x s)")
    case None
    then have "s' = ?s" using "2.prems" by (simp add: Let_def set_hdr_shade)
    moreover have "kidsof s x = []" using None by (simp add: kidsof_def cyc_hdr_def)
    ultimately show ?thesis unfolding black_post_def by (intro exI [of _ "{}"]) (simp add: dfs_def)
  next
    case (Some ys)
    then have "black_kids n ys ?s = Some s'" using "2.prems" by (simp add: Let_def set_hdr_shade)
    with "2.IH" [OF refl refl Some] have "black_post ?s (set (kids_in ys)) (count_list (kids_in ys)) s'"
      by (simp only: set_hdr_shade)
    with Some show ?thesis by (simp add: kidsof_def cyc_hdr_def)
  qed
  then obtain N where N: "dfs CYC_BLACK ?s N (set (kidsof s x))"
    "s' = shade CYC_BLACK N (\<lambda>_. 0) (\<lambda>y. edges s N y + count_list (kidsof s x) y) ?s"
    by (auto simp: black_post_def)
  have "x \<notin> N" "finite N" using N(1) by (auto simp: dfs_def)
  then have "s' = shade CYC_BLACK (insert x N) (\<lambda>_. 0) (\<lambda>y. edges s (insert x N) y) s"
    unfolding N(2) shade_up
    by (intro arg_cong2 [where f = "\<lambda>M u. shade CYC_BLACK M (\<lambda>_. 0) u s"]) (auto simp: edges_insert)
  then show ?case using dfs_enter [OF "2.prems"(2) N(1)] unfolding black_post_def by auto
next
  case (3 n s)
  then show ?case unfolding black_post_def by (intro exI [of _ "{}"]) (simp add: dfs_def)
next
  case (4 n y ys s)
  show ?case
  proof (cases "y = 0")
    case True
    then show ?thesis using 4 by simp
  next
    case False
    let ?s = "shade CYC_BLACK {} (\<lambda>_. 0) (\<lambda>z. if z = y then 1 else 0) s"
    note up = set_hdr_shade(3) [of y s CYC_BLACK]
    show ?thesis
    proof (cases "colour (cyc_hdr y s) = CYC_BLACK")
      case True
      have k: "black_kids n ys ?s = Some s'"
        using "4.prems" False True by (simp only: black_kids.simps Let_def up if_False) simp
      have "black_post ?s {y} (\<lambda>_. 0) ?s"
        unfolding black_post_def using True by (intro exI [of _ "{}"]) (simp add: dfs_def coloured_def cyc_hdr_def)
      moreover have "black_post ?s (set (kids_in ys)) (count_list (kids_in ys)) s'"
        using "4.IH"(4) [OF False refl refl, unfolded up] True k by simp
      ultimately show ?thesis using False by (intro black_post_next)
    next
      case nb: False
      have "(case cyc_scan_black n y ?s of None \<Rightarrow> None | Some s \<Rightarrow> black_kids n ys s) = Some s'"
        using "4.prems" False nb by (simp only: black_kids.simps Let_def up if_False) simp
      then obtain s1 where s1: "cyc_scan_black n y ?s = Some s1" "black_kids n ys s1 = Some s'"
        by (auto split: option.splits)
      have "y \<notin> coloured CYC_BLACK ?s" using nb by (simp add: coloured_def cyc_hdr_def)
      then have "black_post ?s {y} (\<lambda>_. 0) s1"
        using "4.IH"(2) [OF False refl refl nb, unfolded up, OF s1(1)] by blast
      moreover have "black_post s1 (set (kids_in ys)) (count_list (kids_in ys)) s'"
        using "4.IH"(3) [OF False refl refl nb, unfolded up, OF s1] .
      ultimately show ?thesis using False by (intro black_post_next)
    qed
  qed
qed simp_all

subsection \<open>Enough fuel\<close>

lemma card_paint: "finite A \<Longrightarrow> x \<in> A \<Longrightarrow> card A < Suc n \<Longrightarrow> card (A - {x}) < n"
  using card_Diff1_less [of A x] by linarith

lemma mark_fuel:
  assumes "finite L" "\<And>x. x \<in> L \<Longrightarrow> set (kidsof s x) \<subseteq> L"
  shows "x \<in> L \<Longrightarrow> card (L - coloured CYC_GREY s) < n \<Longrightarrow> \<exists>s'. cyc_mark_grey n x s = Some s'"
    "set (kids_in ys) \<subseteq> L \<Longrightarrow> card (L - coloured CYC_GREY s) < n \<Longrightarrow> \<exists>s'. mark_kids n ys s = Some s'"
  using assms
proof (induction n x s and n ys s rule: cyc_mark_grey_mark_kids.induct)
  case (2 n x s)
  let ?s = "shade CYC_GREY {x} (\<lambda>_. 0) (\<lambda>_. 0) s"
  show ?case
  proof (cases "colour (cyc_hdr x s) = CYC_GREY")
    case False
    show ?thesis
    proof (cases "children (cyc_hdr x s)")
      case (Some ys)
      have "x \<in> L - coloured CYC_GREY s" using "2.prems"(1) False by (simp add: coloured_def cyc_hdr_def)
      moreover have "L - coloured CYC_GREY ?s = (L - coloured CYC_GREY s) - {x}" by auto
      ultimately have "card (L - coloured CYC_GREY ?s) < n"
        using "2.prems"(2,3) by (simp only: card_paint finite_Diff)
      moreover have "set (kids_in ys) \<subseteq> L" using "2.prems"(4) [OF "2.prems"(1)] Some by (simp add: kidsof_def cyc_hdr_def)
      ultimately have "\<exists>s'. mark_kids n ys ?s = Some s'"
        using "2.IH" [OF refl False refl Some, unfolded set_hdr_shade] "2.prems"(3,4) by simp
      then show ?thesis using False Some by (simp add: Let_def set_hdr_shade)
    qed (use False in \<open>simp add: Let_def\<close>)
  qed (simp add: Let_def)
next
  case (4 n y ys s)
  show ?case
  proof (cases "y = 0")
    case True
    then show ?thesis using 4 by simp
  next
    case False
    let ?s = "shade CYC_GREY {} (\<lambda>z. if z = y then 1 else 0) (\<lambda>_. 0) s"
    note up = set_hdr_shade(2) [of y s CYC_GREY]
    obtain s1 where s1: "cyc_mark_grey n y ?s = Some s1"
      using "4.IH"(2) [OF False refl refl, unfolded up] "4.prems" False by auto
    obtain N where "s1 = shade CYC_GREY N (\<lambda>y. edges ?s N y + 0) (\<lambda>_. 0) ?s"
      using mark_grey_post(1) [OF s1] by (auto simp: mark_post_def)
    then have k: "kidsof s1 = kidsof s" "coloured CYC_GREY s \<subseteq> coloured CYC_GREY s1" by auto
    then have "card (L - coloured CYC_GREY s1) \<le> card (L - coloured CYC_GREY s)"
      using "4.prems"(3) by (intro card_mono) auto
    then have "\<exists>s'. mark_kids n ys s1 = Some s'"
      using "4.IH"(3) [OF False refl refl, unfolded up, OF s1] "4.prems" k False by auto
    then show ?thesis using False s1 by (simp only: mark_kids.simps Let_def up if_False) simp
  qed
qed simp_all

lemma black_fuel:
  assumes "finite L" "\<And>x. x \<in> L \<Longrightarrow> set (kidsof s x) \<subseteq> L"
  shows "x \<in> L \<Longrightarrow> x \<notin> coloured CYC_BLACK s \<Longrightarrow> card (L - coloured CYC_BLACK s) < n \<Longrightarrow> \<exists>s'. cyc_scan_black n x s = Some s'"
    "set (kids_in ys) \<subseteq> L \<Longrightarrow> card (L - coloured CYC_BLACK s) < n \<Longrightarrow> \<exists>s'. black_kids n ys s = Some s'"
  using assms
proof (induction n x s and n ys s rule: cyc_scan_black_black_kids.induct)
  case (2 n x s)
  let ?s = "shade CYC_BLACK {x} (\<lambda>_. 0) (\<lambda>_. 0) s"
  show ?case
  proof (cases "children (cyc_hdr x s)")
    case (Some ys)
    have "x \<in> L - coloured CYC_BLACK s" using "2.prems"(1,2) by simp
    moreover have "L - coloured CYC_BLACK ?s = (L - coloured CYC_BLACK s) - {x}" by auto
    ultimately have "card (L - coloured CYC_BLACK ?s) < n"
      using "2.prems"(3,4) by (simp only: card_paint finite_Diff)
    moreover have "set (kids_in ys) \<subseteq> L" using "2.prems"(5) [OF "2.prems"(1)] Some by (simp add: kidsof_def cyc_hdr_def)
    ultimately have "\<exists>s'. black_kids n ys ?s = Some s'"
      using "2.IH" [OF refl refl Some, unfolded set_hdr_shade] "2.prems"(4,5) by simp
    then show ?thesis using Some by (simp add: Let_def set_hdr_shade)
  qed (simp add: Let_def)
next
  case (4 n y ys s)
  show ?case
  proof (cases "y = 0")
    case True
    then show ?thesis using 4 by simp
  next
    case False
    let ?s = "shade CYC_BLACK {} (\<lambda>_. 0) (\<lambda>z. if z = y then 1 else 0) s"
    note up = set_hdr_shade(3) [of y s CYC_BLACK]
    show ?thesis
    proof (cases "colour (cyc_hdr y s) = CYC_BLACK")
      case True
      have "\<exists>s'. black_kids n ys ?s = Some s'"
        using "4.IH"(4) [OF False refl refl, unfolded up] True "4.prems" False by simp
      then show ?thesis using False True by (simp only: black_kids.simps Let_def up if_False) simp
    next
      case nb: False
      have ny: "y \<notin> coloured CYC_BLACK ?s" using nb by (simp add: coloured_def cyc_hdr_def)
      obtain s1 where s1: "cyc_scan_black n y ?s = Some s1"
        using "4.IH"(2) [OF False refl refl nb, unfolded up] "4.prems" False ny by auto
      obtain N where "s1 = shade CYC_BLACK N (\<lambda>_. 0) (\<lambda>y. edges ?s N y + 0) ?s"
        using scan_black_post(1) [OF s1 ny] by (auto simp: black_post_def)
      then have k: "kidsof s1 = kidsof s" "coloured CYC_BLACK s \<subseteq> coloured CYC_BLACK s1" by auto
      then have "card (L - coloured CYC_BLACK s1) \<le> card (L - coloured CYC_BLACK s)"
        using "4.prems"(3) by (intro card_mono) auto
      then have "\<exists>s'. black_kids n ys s1 = Some s'"
        using "4.IH"(3) [OF False refl refl nb, unfolded up, OF s1] "4.prems" k False by auto
      then show ?thesis using False nb s1 by (simp only: black_kids.simps Let_def up if_False) simp
    qed
  qed
qed simp_all

end
