(* ===== verification/Cycles_Scan.thy ===== *)
theory Cycles_Scan
  imports Cycles_Walk
begin

text \<open>
  The scan phase.  \<open>scan_ok\<close> is its invariant over the marked part of the graph: a count is what the
  outside holds plus the edges of the objects found alive so far, white objects have none, and the
  live ones are closed under edges.
\<close>

definition live_from :: "cyc \<Rightarrow> addr set \<Rightarrow> (addr \<Rightarrow> nat) \<Rightarrow> addr set" where
  "live_from s G E = reach s {z \<in> G. E z > 0}"

definition scan_ok :: "addr set \<Rightarrow> (addr \<Rightarrow> nat) \<Rightarrow> cyc \<Rightarrow> cyc \<Rightarrow> bool" where
  "scan_ok G E s0 s \<longleftrightarrow> finite G \<and> (\<forall>x\<in>G. set (kidsof s0 x) \<subseteq> G)
     \<and> s\<lparr>hdrs := hdrs s0\<rparr> = s0 \<and> (\<forall>x. children (hdrs s x) = children (hdrs s0 x))
     \<and> (\<forall>x. buffered (hdrs s x) = buffered (hdrs s0 x)) \<and> (\<forall>x. x \<notin> G \<longrightarrow> colour (hdrs s x) = colour (hdrs s0 x))
     \<and> G \<subseteq> coloured CYC_GREY s \<union> coloured CYC_WHITE s \<union> coloured CYC_BLACK s
     \<and> (\<forall>y. rc (hdrs s y) = E y + edges s0 (G \<inter> coloured CYC_BLACK s) y)
     \<and> (\<forall>x \<in> G \<inter> coloured CYC_BLACK s. set (kidsof s0 x) \<subseteq> coloured CYC_BLACK s)
     \<and> (\<forall>x \<in> G \<inter> coloured CYC_WHITE s. rc (hdrs s x) = 0)
     \<and> G \<inter> coloured CYC_BLACK s \<subseteq> live_from s0 G E"

lemma scan_okD:
  assumes "scan_ok G E s0 s"
  shows "finite G" "x \<in> G \<Longrightarrow> set (kidsof s0 x) \<subseteq> G" "kidsof s = kidsof s0" "edges s = edges s0" "reach s = reach s0"
    "rc (hdrs s y) = E y + edges s0 (G \<inter> coloured CYC_BLACK s) y"
    "x \<in> G \<Longrightarrow> x \<in> coloured CYC_BLACK s \<Longrightarrow> set (kidsof s0 x) \<subseteq> coloured CYC_BLACK s"
proof -
  show k: "kidsof s = kidsof s0" using assms by (intro kidsof_cong) (simp add: scan_ok_def)
  then show "edges s = edges s0" "reach s = reach s0" by (rule edges_cong, rule reach_cong)
qed (use assms in \<open>auto simp: scan_ok_def\<close>)

definition scan_post :: "addr set \<Rightarrow> (addr \<Rightarrow> nat) \<Rightarrow> cyc \<Rightarrow> addr set \<Rightarrow> cyc \<Rightarrow> cyc \<Rightarrow> bool" where
  "scan_post G E s0 X s s' \<longleftrightarrow> scan_ok G E s0 s' \<and> coloured CYC_GREY s' \<subseteq> coloured CYC_GREY s
     \<and> X \<inter> coloured CYC_GREY s' = {}
     \<and> (\<forall>w \<in> G \<inter> coloured CYC_GREY s - coloured CYC_GREY s'. set (kidsof s0 w) \<inter> coloured CYC_GREY s' = {})"

lemma scan_post_next:
  assumes "scan_post G E s0 X s s1" "scan_post G E s0 Y s1 s2"
  shows "scan_post G E s0 (X \<union> Y) s s2"
  using assms unfolding scan_post_def by blast

lemma scan_black_step:
  assumes ok: "scan_ok G E s0 s" and x: "x \<in> G" "x \<in> coloured CYC_GREY s" "rc (hdrs s x) > 0"
    and b: "cyc_scan_black n x s = Some s'"
  shows "scan_post G E s0 {x} s s'"
proof -
  note D = scan_okD [OF ok]
  have nb: "x \<notin> coloured CYC_BLACK s" using x(2) by (auto simp: coloured_def)
  obtain N where N: "dfs CYC_BLACK s N {x}" "s' = shade CYC_BLACK N (\<lambda>_. 0) (edges s0 N) s"
    using scan_black_post(1) [OF b nb] D(4) by (auto simp: black_post_def)
  have "reach s {x} \<subseteq> G" unfolding D(5) by (rule reach_closed) (use x(1) D(2) in auto)
  then have NG: "N \<subseteq> G" "x \<in> N" "finite N" "N \<inter> coloured CYC_BLACK s = {}"
    "\<And>y. y \<in> N \<Longrightarrow> set (kidsof s0 y) \<subseteq> coloured CYC_BLACK s \<union> N"
    using N(1) nb D(3) by (auto simp: dfs_def)
  have bl: "coloured CYC_BLACK s' = coloured CYC_BLACK s \<union> N" "coloured CYC_GREY s' = coloured CYC_GREY s - N"
    "coloured CYC_WHITE s' = coloured CYC_WHITE s - N"
    unfolding N(2) by (simp_all add: coloured_shade_other)
  have GB: "G \<inter> coloured CYC_BLACK s' = (G \<inter> coloured CYC_BLACK s) \<union> N" using NG(1) bl(1) by auto
  have out: "edges s0 (G \<inter> coloured CYC_BLACK s) y = 0" if "y \<notin> coloured CYC_BLACK s" for y
    by (rule edges_zero) (use D(7) that in blast)
  have Ex: "E x > 0" using D(6) [of x] out [OF nb] x(3) by simp
  have "N \<subseteq> live_from s0 G E"
  proof -
    have "N \<subseteq> reach s0 {x}" using N(1) D(5) by (simp add: dfs_def)
    also have "\<dots> \<subseteq> live_from s0 G E" unfolding live_from_def by (rule reach_mono) (use Ex x(1) in auto)
    finally show ?thesis .
  qed
  moreover have "rc (hdrs s' y) = E y + edges s0 (G \<inter> coloured CYC_BLACK s') y" for y
    unfolding GB using D(1) NG by (subst edges_Un) (auto simp: N(2) D(6) [of y])
  moreover have "rc (hdrs s' y) = 0" if y: "y \<in> G" "y \<in> coloured CYC_WHITE s'" for y
  proof -
    have yw: "y \<notin> N" "y \<in> coloured CYC_WHITE s" using y(2) bl(3) by auto
    then have "y \<notin> coloured CYC_BLACK s \<union> N" by (auto simp: coloured_def)
    then have "edges s0 N y = 0" using NG(5) by (intro edges_zero) blast
    moreover have "rc (hdrs s y) = 0" using ok y(1) yw by (auto simp: scan_ok_def)
    ultimately show ?thesis by (simp add: N(2))
  qed
  moreover have "set (kidsof s0 y) \<subseteq> coloured CYC_BLACK s'" if "y \<in> G \<inter> coloured CYC_BLACK s'" for y
    using that D(7) [of y] NG(5) [of y] unfolding GB unfolding bl(1) by blast
  moreover have "G \<subseteq> coloured CYC_GREY s' \<union> coloured CYC_WHITE s' \<union> coloured CYC_BLACK s'"
    using ok unfolding bl by (auto simp: scan_ok_def)
  moreover have "G \<inter> coloured CYC_BLACK s \<subseteq> live_from s0 G E" "s\<lparr>hdrs := hdrs s0\<rparr> = s0"
    using ok by (auto simp: scan_ok_def)
  moreover have "s'\<lparr>hdrs := hdrs s0\<rparr> = s\<lparr>hdrs := hdrs s0\<rparr>" unfolding N(2) by (rule shade_rest)
  moreover have "\<forall>y. y \<notin> G \<longrightarrow> colour (hdrs s' y) = colour (hdrs s0 y)"
    using ok NG(1) unfolding N(2) by (auto simp: scan_ok_def)
  moreover have "children (hdrs s' y) = children (hdrs s0 y)" "buffered (hdrs s' y) = buffered (hdrs s0 y)" for y
    using ok unfolding N(2) by (auto simp: scan_ok_def)
  ultimately have "scan_ok G E s0 s'"
    unfolding scan_ok_def using D(1,2) GB by (intro conjI allI ballI impI) auto
  moreover have "set (kidsof s0 w) \<inter> coloured CYC_GREY s' = {}" if "w \<in> N" for w
    using NG(5) [OF that] unfolding bl(2) by (auto simp: coloured_def)
  ultimately show ?thesis unfolding scan_post_def using NG(2) bl(2) by auto
qed

lemma scan_white_step:
  assumes ok: "scan_ok G E s0 s" and x: "x \<in> G" "x \<in> coloured CYC_GREY s" "rc (hdrs s x) = 0"
  shows "scan_ok G E s0 (shade CYC_WHITE {x} (\<lambda>_. 0) (\<lambda>_. 0) s)"
proof -
  let ?s = "shade CYC_WHITE {x} (\<lambda>_. 0) (\<lambda>_. 0) s"
  have c: "coloured CYC_BLACK ?s = coloured CYC_BLACK s" "coloured CYC_GREY ?s = coloured CYC_GREY s - {x}"
    "coloured CYC_WHITE ?s = insert x (coloured CYC_WHITE s)"
    using x(2) by (auto simp: coloured_def)
  have "?s\<lparr>hdrs := hdrs s0\<rparr> = s0" using ok unfolding shade_rest scan_ok_def by blast
  then show ?thesis using ok x unfolding scan_ok_def c by auto
qed

lemma scan_ok_post:
  "cyc_scan n x s = Some s' \<Longrightarrow> scan_ok G E s0 s \<Longrightarrow> x \<in> G \<Longrightarrow> scan_post G E s0 {x} s s'"
  "scan_kids n ys s = Some s' \<Longrightarrow> scan_ok G E s0 s \<Longrightarrow> set (kids_in ys) \<subseteq> G \<Longrightarrow> scan_post G E s0 (set (kids_in ys)) s s'"
proof (induction n x s and n ys s arbitrary: s' and s' rule: cyc_scan_scan_kids.induct)
  case (2 n x s)
  show ?case
  proof (cases "colour (cyc_hdr x s) = CYC_GREY")
    case False
    then show ?thesis using 2 by (auto simp: Let_def scan_post_def coloured_def cyc_hdr_def)
  next
    case g: True
    then have xg: "x \<in> coloured CYC_GREY s" by (simp add: coloured_def cyc_hdr_def)
    show ?thesis
    proof (cases "rc (cyc_hdr x s) > 0")
      case True
      then show ?thesis using 2 g xg by (intro scan_black_step) (auto simp: Let_def cyc_hdr_def)
    next
      case False
      let ?s = "shade CYC_WHITE {x} (\<lambda>_. 0) (\<lambda>_. 0) s"
      have ok: "scan_ok G E s0 ?s" by (rule scan_white_step) (use 2 xg False in \<open>auto simp: cyc_hdr_def\<close>)
      have c: "coloured CYC_GREY ?s = coloured CYC_GREY s - {x}" by (simp add: coloured_shade_other)
      note D = scan_okD [OF "2.prems"(2)]
      have "scan_post G E s0 (set (kidsof s0 x)) ?s s'"
      proof (cases "children (cyc_hdr x s)")
        case None
        then have "s' = ?s" using "2.prems" g False by (simp add: Let_def set_hdr_shade)
        moreover have "kidsof s x = []" using None by (simp add: kidsof_def cyc_hdr_def)
        ultimately show ?thesis using ok D(3) by (auto simp: scan_post_def)
      next
        case (Some ys)
        have k: "kidsof s0 x = kids_in ys" using Some D(3) by (metis kidsof_def option.simps(5) cyc_hdr_def)
        have "scan_kids n ys ?s = Some s'" using "2.prems" g False Some by (simp add: Let_def set_hdr_shade)
        with "2.IH" [OF refl _ False refl Some, unfolded set_hdr_shade] g ok D(2) [OF "2.prems"(3)]
        show ?thesis by (simp add: k)
      qed
      then show ?thesis using xg unfolding scan_post_def c by blast
    qed
  qed
next
  case (3 n s)
  then show ?case by (auto simp: scan_post_def)
next
  case (4 n y ys s)
  show ?case
  proof (cases "y = 0")
    case True
    then show ?thesis using 4 by simp
  next
    case False
    then obtain s1 where s1: "cyc_scan n y s = Some s1" "scan_kids n ys s1 = Some s'"
      using "4.prems"(1) by (auto split: option.splits)
    have p1: "scan_post G E s0 {y} s s1" using "4.IH"(2) [OF False s1(1)] "4.prems" False by auto
    moreover have "scan_post G E s0 (set (kids_in ys)) s1 s'"
      using "4.IH"(3) [OF False s1] "4.prems" False p1 by (auto simp: scan_post_def)
    ultimately show ?thesis using scan_post_next False by fastforce
  qed
qed simp_all

lemma scan_fuel:
  "scan_ok G E s0 s \<Longrightarrow> x \<in> G \<Longrightarrow> card G + card (G \<inter> coloured CYC_GREY s) < n \<Longrightarrow> \<exists>s'. cyc_scan n x s = Some s'"
  "scan_ok G E s0 s \<Longrightarrow> set (kids_in ys) \<subseteq> G \<Longrightarrow> card G + card (G \<inter> coloured CYC_GREY s) < n \<Longrightarrow> \<exists>s'. scan_kids n ys s = Some s'"
proof (induction n x s and n ys s rule: cyc_scan_scan_kids.induct)
  case (2 n x s)
  note D = scan_okD [OF "2.prems"(1)]
  show ?case
  proof (cases "colour (cyc_hdr x s) = CYC_GREY")
    case g: True
    then have xg: "x \<in> G \<inter> coloured CYC_GREY s" using "2.prems"(2) by (simp add: coloured_def cyc_hdr_def)
    have c0: "card (G \<inter> coloured CYC_GREY s) > 0" using xg D(1) by (auto simp: card_gt_0_iff)
    show ?thesis
    proof (cases "rc (cyc_hdr x s) > 0")
      case True
      have "card (G - coloured CYC_BLACK s) \<le> card G" using D(1) by (intro card_mono) auto
      then have "\<exists>s'. cyc_scan_black n x s = Some s'"
        using "2.prems"(2,3) c0 D(1-3) xg by (intro black_fuel [of G]) (auto simp: coloured_def)
      then show ?thesis using g True by (simp add: Let_def)
    next
      case False
      let ?s = "shade CYC_WHITE {x} (\<lambda>_. 0) (\<lambda>_. 0) s"
      have ok: "scan_ok G E s0 ?s" by (rule scan_white_step) (use 2 xg False in \<open>auto simp: cyc_hdr_def\<close>)
      have "G \<inter> coloured CYC_GREY ?s = (G \<inter> coloured CYC_GREY s) - {x}" by (auto simp: coloured_shade_other)
      then have c: "card G + card (G \<inter> coloured CYC_GREY ?s) < n"
        using "2.prems"(3) xg D(1) c0 by simp
      show ?thesis
      proof (cases "children (cyc_hdr x s)")
        case (Some ys)
        have "kidsof s x = kids_in ys" using Some by (simp add: kidsof_def cyc_hdr_def)
        then have "\<exists>s'. scan_kids n ys ?s = Some s'"
          using "2.IH" [OF refl _ False refl Some, unfolded set_hdr_shade] g ok c D(2) [OF "2.prems"(2)] D(3) by simp
        then show ?thesis using g False Some by (simp add: Let_def set_hdr_shade)
      qed (use g False in \<open>simp add: Let_def\<close>)
    qed
  qed (simp add: Let_def)
next
  case (4 n y ys s)
  show ?case
  proof (cases "y = 0")
    case True
    then show ?thesis using 4 by simp
  next
    case False
    obtain s1 where s1: "cyc_scan n y s = Some s1" using "4.IH"(2) [OF False] "4.prems" False by auto
    have p: "scan_post G E s0 {y} s s1" using scan_ok_post(1) [OF s1] "4.prems" False by auto
    have "card (G \<inter> coloured CYC_GREY s1) \<le> card (G \<inter> coloured CYC_GREY s)"
      using p scan_okD(1) [OF "4.prems"(1)] by (intro card_mono) (auto simp: scan_post_def)
    then have "\<exists>s'. scan_kids n ys s1 = Some s'"
      using "4.IH"(3) [OF False s1] "4.prems" False p by (auto simp: scan_post_def)
    then show ?thesis using False s1 by simp
  qed
qed simp_all

end
