(* ===== verification/Cycles_Collect.thy ===== *)
theory Cycles_Collect
  imports Cycles_Scan
begin

text \<open>
  The third phase and the whole collection.  \<open>cyc_inv\<close> is the invariant of the collector between
  calls, over the objects a program can still reach or holds counted edges between; the collection
  keeps it and gives back only objects that nothing outside the graph holds, directly or not.
\<close>

subsection \<open>Freeing the white objects\<close>

definition doomed :: "cyc \<Rightarrow> addr set" where
  "doomed s = {x \<in> coloured CYC_WHITE s. \<not> buffered (hdrs s x)}"

definition after_free :: "addr list \<Rightarrow> addr list \<Rightarrow> cyc \<Rightarrow> cyc" where
  "after_free fs st s = (shade CYC_BLACK (set fs) (\<lambda>_. 0) (\<lambda>_. 0) s)
     \<lparr>freed := fs @ freed s, stale := st, cyc_collected := cyc_collected s + length fs\<rparr>"

definition white_post :: "addr set \<Rightarrow> cyc \<Rightarrow> cyc \<Rightarrow> bool" where
  "white_post X s s' \<longleftrightarrow> (\<exists>fs st. distinct fs \<and> set fs \<subseteq> doomed s \<inter> reach s X \<and> s' = after_free fs st s
     \<and> X \<inter> doomed s' = {} \<and> (\<forall>w \<in> set fs. set (kidsof s w) \<inter> doomed s' = {}))"

lemma white_postI:
  "distinct fs \<Longrightarrow> set fs \<subseteq> doomed s \<inter> reach s X \<Longrightarrow> s' = after_free fs st s \<Longrightarrow> X \<inter> doomed s' = {} \<Longrightarrow>
   (\<And>w. w \<in> set fs \<Longrightarrow> set (kidsof s w) \<inter> doomed s' = {}) \<Longrightarrow> white_post X s s'"
  unfolding white_post_def by blast

lemma after_free_fields [simp]:
  "kidsof (after_free fs st s) = kidsof s" "doomed (after_free fs st s) = doomed s - set fs"
  "freed (after_free fs st s) = fs @ freed s" "cyc_candidates (after_free fs st s) = cyc_candidates s"
  "rc (hdrs (after_free fs st s) x) = rc (hdrs s x)" "buffered (hdrs (after_free fs st s) x) = buffered (hdrs s x)"
  "colour (hdrs (after_free fs st s) x) = (if x \<in> set fs then CYC_BLACK else colour (hdrs s x))"
  "children (hdrs (after_free fs st s) x) = children (hdrs s x)"
proof -
  show "kidsof (after_free fs st s) = kidsof s" by (rule kidsof_cong) (simp add: after_free_def)
qed (auto simp: after_free_def doomed_def coloured_def)

lemma reach_after_free [simp]: "reach (after_free fs st s) = reach s"
  by (rule reach_cong) simp

lemma after_free_twice: "after_free gs st' (after_free fs st s) = after_free (gs @ fs) st' s"
proof -
  let ?s = "after_free gs st' (after_free fs st s)"
  have "hdrs ?s y = hdrs (after_free (gs @ fs) st' s) y" for y
    by (rule CycHeader.equality) simp_all
  then have "hdrs ?s = hdrs (after_free (gs @ fs) st' s)" by (rule ext)
  then show ?thesis by (intro cyc.equality) (simp_all add: after_free_def)
qed

lemma after_free_none: "after_free [] (stale s) s = s" "after_free [] st s = s\<lparr>stale := st\<rparr>"
  by (simp_all add: after_free_def)

lemma white_post_next:
  assumes "white_post {y} s s1" "white_post Y s1 s2"
  shows "white_post (insert y Y) s s2"
proof -
  obtain fs st where f: "distinct fs" "set fs \<subseteq> doomed s \<inter> reach s {y}" "s1 = after_free fs st s"
    "y \<notin> doomed s1" "\<And>w. w \<in> set fs \<Longrightarrow> set (kidsof s w) \<inter> doomed s1 = {}"
    using assms(1) by (auto simp: white_post_def)
  obtain gs st' where g: "distinct gs" "set gs \<subseteq> doomed s1 \<inter> reach s Y" "s2 = after_free gs st' s1"
    "Y \<inter> doomed s2 = {}" "\<And>w. w \<in> set gs \<Longrightarrow> set (kidsof s w) \<inter> doomed s2 = {}"
    using assms(2) by (auto simp: white_post_def f(3))
  have sub: "doomed s2 \<subseteq> doomed s1" "doomed s1 = doomed s - set fs" unfolding g(3) f(3) by auto
  have "reach s {y} \<subseteq> reach s (insert y Y)" "reach s Y \<subseteq> reach s (insert y Y)" by (rule reach_mono, blast)+
  then have "set (gs @ fs) \<subseteq> doomed s \<inter> reach s (insert y Y)" using f(2) g(2) sub(2) by auto
  moreover have "distinct (gs @ fs)" using f(1) g(1,2) sub(2) by auto
  moreover have "s2 = after_free (gs @ fs) st' s" unfolding g(3) f(3) by (rule after_free_twice)
  moreover have "insert y Y \<inter> doomed s2 = {}" using f(4) g(4) sub(1) by blast
  moreover have "set (kidsof s w) \<inter> doomed s2 = {}" if "w \<in> set (gs @ fs)" for w
    using that f(5) [of w] g(5) [of w] sub(1) by auto
  ultimately show ?thesis unfolding white_post_def by blast
qed

lemma collect_white_post:
  "cyc_collect_white n x s = Some s' \<Longrightarrow> white_post {x} s s'"
  "white_kids n ys s = Some s' \<Longrightarrow> white_post (set (kids_in ys)) s s'"
proof (induction n x s and n ys s arbitrary: s' and s' rule: cyc_collect_white_white_kids.induct)
  case (2 n x s)
  define t where "t = (if x \<in> set (freed s) then s\<lparr>stale := x # stale s\<rparr> else s)"
  have t: "t = after_free [] (stale t) s" by (simp add: t_def after_free_def)
  have h: "cyc_hdr x t = hdrs s x" by (simp add: t_def cyc_hdr_def)
  show ?case
  proof (cases "x \<in> doomed s")
    case False
    then have "s' = t" using "2.prems" h by (auto simp: Let_def doomed_def coloured_def simp flip: t_def)
    moreover have "doomed t = doomed s" by (subst t) simp
    ultimately show ?thesis using False t by (intro white_postI [of "[]" _ _ _ "stale t"]) auto
  next
    case True
    let ?s = "after_free [x] (stale t) s"
    have "cyc_free_object x (set_hdr x ((cyc_hdr x t)\<lparr>colour := CYC_BLACK\<rparr>) t) = ?s"
      unfolding set_hdr_shade by (intro cyc.equality) (simp_all add: t_def cyc_free_object_def after_free_def shade_def cong: if_cong)
    moreover have c: "\<not> (colour (cyc_hdr x t) \<noteq> CYC_WHITE \<or> buffered (cyc_hdr x t))"
      using True h by (auto simp: doomed_def coloured_def)
    moreover have k: "kidsof s x = kids_in (case children (cyc_hdr x t) of None \<Rightarrow> [] | Some ys \<Rightarrow> ys)"
      unfolding h by (simp add: kidsof_def split: option.splits)
    ultimately have "white_kids n (case children (cyc_hdr x t) of None \<Rightarrow> [] | Some ys \<Rightarrow> ys) ?s = Some s'"
      using "2.prems" unfolding cyc_collect_white.simps Let_def t_def [symmetric] by simp
    then have "white_post (set (kidsof s x)) ?s s'"
      using "2.IH" [OF t_def refl c refl refl refl] \<open>cyc_free_object _ _ = _\<close> k by simp
    then obtain gs st where g: "distinct gs" "set gs \<subseteq> doomed ?s \<inter> reach s (set (kidsof s x))" "s' = after_free gs st ?s"
      "set (kidsof s x) \<inter> doomed s' = {}" "\<forall>w \<in> set gs. set (kidsof s w) \<inter> doomed s' = {}"
      by (auto simp: white_post_def)
    have "reach s (set (kidsof s x)) \<subseteq> reach s {x}" by (rule reach_reach) (use reach_kids reach_self in blast)
    then show ?thesis
      using g True reach_self [of "{x}" s]
      by (intro white_postI [of "gs @ [x]" _ _ _ st]) (auto simp: after_free_twice)
  qed
next
  case (3 n s)
  then show ?case by (intro white_postI [of "[]" _ _ _ "stale s"]) (auto simp: after_free_none)
next
  case (4 n y ys s)
  show ?case
  proof (cases "y = 0")
    case True
    then show ?thesis using 4 by simp
  next
    case False
    then obtain s1 where s1: "cyc_collect_white n y s = Some s1" "white_kids n ys s1 = Some s'"
      using "4.prems" by (auto split: option.splits)
    show ?thesis
      using white_post_next [OF "4.IH"(2) [OF False s1(1)] "4.IH"(3) [OF False s1]] False by simp
  qed
qed simp_all


lemma white_fuel:
  assumes "finite L" "\<And>x. x \<in> L \<Longrightarrow> set (kidsof s x) \<subseteq> L"
  shows "x \<in> L \<Longrightarrow> card (L \<inter> doomed s) < n \<Longrightarrow> \<exists>s'. cyc_collect_white n x s = Some s'"
    "set (kids_in ys) \<subseteq> L \<Longrightarrow> card (L \<inter> doomed s) < n \<Longrightarrow> \<exists>s'. white_kids n ys s = Some s'"
  using assms
proof (induction n x s and n ys s rule: cyc_collect_white_white_kids.induct)
  case (2 n x s)
  define t where "t = (if x \<in> set (freed s) then s\<lparr>stale := x # stale s\<rparr> else s)"
  have h: "cyc_hdr x t = hdrs s x" by (simp add: t_def cyc_hdr_def)
  show ?case
  proof (cases "x \<in> doomed s")
    case False
    then show ?thesis using h by (auto simp: Let_def doomed_def coloured_def simp flip: t_def)
  next
    case True
    let ?s = "after_free [x] (stale t) s"
    let ?ys = "case children (cyc_hdr x t) of None \<Rightarrow> [] | Some ys \<Rightarrow> ys"
    have e: "cyc_free_object x (set_hdr x ((cyc_hdr x t)\<lparr>colour := CYC_BLACK\<rparr>) t) = ?s"
      unfolding set_hdr_shade by (intro cyc.equality) (simp_all add: t_def cyc_free_object_def after_free_def shade_def cong: if_cong)
    have c: "\<not> (colour (cyc_hdr x t) \<noteq> CYC_WHITE \<or> buffered (cyc_hdr x t))"
      using True h by (auto simp: doomed_def coloured_def)
    have k: "kidsof s x = kids_in ?ys"
      unfolding h by (simp add: kidsof_def split: option.splits)
    have "L \<inter> doomed ?s = (L \<inter> doomed s) - {x}" by auto
    then have "card (L \<inter> doomed ?s) < n"
      using card_paint [of "L \<inter> doomed s" x n] "2.prems"(1,2,3) True by simp
    then have "\<exists>s'. white_kids n ?ys ?s = Some s'"
      using "2.IH" [OF t_def refl c refl refl refl, unfolded e] "2.prems"(3,4) "2.prems"(4) [OF "2.prems"(1)] k by simp
    then show ?thesis unfolding cyc_collect_white.simps Let_def t_def [symmetric] using c e by simp
  qed
next
  case (4 n y ys s)
  show ?case
  proof (cases "y = 0")
    case True
    then show ?thesis using 4 by simp
  next
    case False
    obtain s1 where s1: "cyc_collect_white n y s = Some s1" using "4.IH"(2) [OF False] "4.prems" False by auto
    obtain fs st where f: "s1 = after_free fs st s" using collect_white_post(1) [OF s1] by (auto simp: white_post_def)
    have "card (L \<inter> doomed s1) \<le> card (L \<inter> doomed s)" using "4.prems"(3) by (intro card_mono) (auto simp: f)
    then have "\<exists>s'. white_kids n ys s1 = Some s'"
      using "4.IH"(3) [OF False s1] "4.prems" False by (auto simp: f)
    then show ?thesis using False s1 by simp
  qed
qed simp_all

subsection \<open>The phases over all roots\<close>

lemma each_mark:
  "each (cyc_mark_grey n) xs s = Some s' \<Longrightarrow> mark_post s (set xs) (\<lambda>_. 0) s'"
proof (induction xs arbitrary: s)
  case Nil
  then show ?case unfolding mark_post_def by (intro exI [of _ "{}"]) (simp add: dfs_def)
next
  case (Cons x xs)
  then obtain s1 where s1: "cyc_mark_grey n x s = Some s1" "each (cyc_mark_grey n) xs s1 = Some s'"
    by (auto split: option.splits)
  obtain N where N: "dfs CYC_GREY s N {x}" "s1 = shade CYC_GREY N (edges s N) (\<lambda>_. 0) s"
    using mark_grey_post(1) [OF s1(1)] by (auto simp: mark_post_def)
  obtain M where M: "dfs CYC_GREY s1 M (set xs)" "s' = shade CYC_GREY M (edges s M) (\<lambda>_. 0) s1"
    using Cons.IH [OF s1(2)] unfolding mark_post_def N(2) by auto
  note D = dfs_next [OF N(1) M(1) [unfolded N(2)]]
  have "s' = shade CYC_GREY (N \<union> M) (edges s (N \<union> M)) (\<lambda>_. 0) s"
    unfolding M(2) N(2) shade_down using D by (intro arg_cong [of _ _ "\<lambda>d. shade _ _ d _ _"]) (auto simp: edges_Un)
  with D(1) show ?case unfolding mark_post_def by auto
qed

lemma each_scan:
  "each (cyc_scan n) xs s = Some s' \<Longrightarrow> scan_ok G E s0 s \<Longrightarrow> set xs \<subseteq> G \<Longrightarrow> scan_post G E s0 (set xs) s s'"
proof (induction xs arbitrary: s)
  case Nil
  then show ?case by (auto simp: scan_post_def)
next
  case (Cons x xs)
  then obtain s1 where s1: "cyc_scan n x s = Some s1" "each (cyc_scan n) xs s1 = Some s'"
    by (auto split: option.splits)
  have p: "scan_post G E s0 {x} s s1" using scan_ok_post(1) [OF s1(1)] Cons.prems by auto
  then have "scan_post G E s0 (set xs) s1 s'" using Cons.IH [OF s1(2)] Cons.prems by (auto simp: scan_post_def)
  from scan_post_next [OF p this] show ?case by simp
qed

lemma each_white:
  "each (cyc_collect_white n) xs s = Some s' \<Longrightarrow> white_post (set xs) s s'"
proof (induction xs arbitrary: s)
  case Nil
  then show ?case by (intro white_postI [of "[]" _ _ _ "stale s"]) (auto simp: after_free_none)
next
  case (Cons x xs)
  then obtain s1 where s1: "cyc_collect_white n x s = Some s1" "each (cyc_collect_white n) xs s1 = Some s'"
    by (auto split: option.splits)
  from white_post_next [OF collect_white_post(1) [OF s1(1)] Cons.IH [OF s1(2)]] show ?case by simp
qed

lemma each_total:
  assumes "\<And>x s. x \<in> set xs \<Longrightarrow> P s \<Longrightarrow> \<exists>s'. f x s = Some s' \<and> P s'"
  shows "P s \<Longrightarrow> \<exists>s'. each f xs s = Some s' \<and> P s'"
  using assms by (induction xs arbitrary: s) force+


subsection \<open>The invariant\<close>

definition cyc_inv :: "addr set \<Rightarrow> cyc \<Rightarrow> bool" where
  "cyc_inv L s \<longleftrightarrow> finite L \<and> (\<forall>x\<in>L. set (kidsof s x) \<subseteq> L) \<and> L \<inter> set (freed s) = {} \<and> distinct (freed s)
     \<and> distinct (cyc_candidates s) \<and> (\<forall>x\<in>L. buffered (hdrs s x) \<longleftrightarrow> x \<in> set (cyc_candidates s))
     \<and> (\<forall>x\<in>set (cyc_candidates s). x \<notin> set (freed s) \<and> buffered (hdrs s x) \<and> (x \<in> L \<or> rc (hdrs s x) = 0))
     \<and> L \<subseteq> coloured CYC_BLACK s \<union> coloured CYC_PURPLE s \<and> (\<forall>y\<in>L. edges s L y \<le> rc (hdrs s y))"

text \<open>The objects that something outside the counted graph still holds.\<close>

definition held :: "addr set \<Rightarrow> cyc \<Rightarrow> addr set" where
  "held L s = {z \<in> L. edges s L z < rc (hdrs s z)}"

text \<open>The three phases on a graph without grey or white objects, whose roots have a positive count.\<close>

definition phases :: "nat \<Rightarrow> addr list \<Rightarrow> cyc \<Rightarrow> cyc option" where
  "phases n roots s = (case each (cyc_mark_grey n) roots s of
      None \<Rightarrow> None
    | Some s \<Rightarrow> (case each (cyc_scan n) roots s of None \<Rightarrow> None | Some s \<Rightarrow> each (cyc_collect_white n) roots s))"

definition graph_ok :: "addr set \<Rightarrow> cyc \<Rightarrow> bool" where
  "graph_ok L s \<longleftrightarrow> finite L \<and> (\<forall>x\<in>L. set (kidsof s x) \<subseteq> L)
     \<and> L \<inter> (coloured CYC_GREY s \<union> coloured CYC_WHITE s) = {} \<and> (\<forall>y\<in>L. edges s L y \<le> rc (hdrs s y))"

lemma scan_start:
  assumes g: "graph_ok L s" and r: "set roots \<subseteq> L" and m: "each (cyc_mark_grey n) roots s = Some s1"
  defines "N \<equiv> reach s (set roots)"
  shows "s1 = shade CYC_GREY N (edges s N) (\<lambda>_. 0) s" "N \<subseteq> L" "\<And>x. x \<in> N \<Longrightarrow> set (kidsof s x) \<subseteq> N"
    "scan_ok N (\<lambda>y. rc (hdrs s y) - edges s N y) s1 s1"
proof -
  have L: "finite L" "\<And>x. x \<in> L \<Longrightarrow> set (kidsof s x) \<subseteq> L" "L \<inter> coloured CYC_GREY s = {}"
    using g by (auto simp: graph_ok_def)
  show NL: "N \<subseteq> L" unfolding N_def by (rule reach_closed) (use r L(2) in auto)
  obtain M where M: "dfs CYC_GREY s M (set roots)" "s1 = shade CYC_GREY M (edges s M) (\<lambda>_. 0) s"
    using each_mark [OF m] by (auto simp: mark_post_def)
  have MN: "M \<subseteq> N" using M(1) by (auto simp: dfs_def N_def)
  have "M = N"
  proof
    have "set (kidsof s x) \<subseteq> M" if "x \<in> M" for x
      using M(1) that L(2,3) NL MN unfolding dfs_def by blast
    moreover have "set roots \<subseteq> M" using M(1) r L(3) unfolding dfs_def by blast
    ultimately show "N \<subseteq> M" unfolding N_def by (intro reach_closed)
  qed (rule MN)
  then show s1: "s1 = shade CYC_GREY N (edges s N) (\<lambda>_. 0) s" using M(2) by simp
  show kN: "set (kidsof s x) \<subseteq> N" if "x \<in> N" for x using that reach_kids unfolding N_def by blast
  have "finite N" using NL L(1) by (rule finite_subset)
  moreover have "N \<subseteq> coloured CYC_GREY s1" "N \<inter> coloured CYC_BLACK s1 = {}" "N \<inter> coloured CYC_WHITE s1 = {}"
    by (auto simp: s1 coloured_def)
  ultimately show "scan_ok N (\<lambda>y. rc (hdrs s y) - edges s N y) s1 s1"
    unfolding scan_ok_def using kN by (auto simp: s1)
qed

text \<open>After marking and scanning: \<open>N\<close> is what was marked, \<open>W\<close> its garbage.\<close>

lemma scanned:
  assumes g: "graph_ok L s" and r: "set roots \<subseteq> L"
    and m: "each (cyc_mark_grey n) roots s = Some s1" and sc: "each (cyc_scan n) roots s1 = Some s2"
  defines "N \<equiv> reach s (set roots)"
  defines "E \<equiv> \<lambda>y. rc (hdrs s y) - edges s N y"
  defines "W \<equiv> N - reach s {z \<in> N. E z > 0}"
  shows "N \<subseteq> L" "scan_ok N E s1 s2" "coloured CYC_WHITE s2 \<inter> L = W" "N - W \<subseteq> coloured CYC_BLACK s2"
    "\<And>y. rc (hdrs s2 y) = E y + edges s (N - W) y" "s1 = shade CYC_GREY N (edges s N) (\<lambda>_. 0) s"
proof -
  have L: "L \<inter> coloured CYC_WHITE s = {}" using g by (auto simp: graph_ok_def)
  note start = scan_start [OF g r m, folded N_def]
  show s1: "s1 = shade CYC_GREY N (edges s N) (\<lambda>_. 0) s" and NL: "N \<subseteq> L" by (rule start)+
  have k: "kidsof s1 = kidsof s" "edges s1 = edges s" "reach s1 = reach s" by (simp_all add: s1)
  note kN = start(3) and ok1 = start(4) [folded E_def]
  have c1: "N \<subseteq> coloured CYC_GREY s1" by (auto simp: s1)
  have post: "scan_post N E s1 (set roots) s1 s2"
    by (rule each_scan [OF sc ok1]) (simp add: N_def reach_self)
  then show ok2: "scan_ok N E s1 s2" by (simp add: scan_post_def)
  note D = scan_okD [OF ok2]
  have "N \<subseteq> N - coloured CYC_GREY s2"
  proof -
    have "set (kidsof s x) \<subseteq> N - coloured CYC_GREY s2" if "x \<in> N - coloured CYC_GREY s2" for x
      using post that c1 kN [of x] unfolding scan_post_def k by blast
    moreover have "set roots \<subseteq> N - coloured CYC_GREY s2" using post reach_self [of "set roots" s] unfolding scan_post_def N_def by blast
    ultimately have "reach s (set roots) \<subseteq> N - coloured CYC_GREY s2" by (intro reach_closed)
    then show ?thesis by (simp add: N_def)
  qed
  then have bw: "N \<subseteq> coloured CYC_BLACK s2 \<union> coloured CYC_WHITE s2" using ok2 unfolding scan_ok_def by blast
  let ?K = "N \<inter> coloured CYC_BLACK s2" and ?R = "reach s {z \<in> N. E z > 0}"
  have "?K \<subseteq> ?R" using ok2 by (simp add: scan_ok_def live_from_def k)
  moreover have "?R \<subseteq> ?K"
  proof (rule reach_closed)
    show "{z \<in> N. E z > 0} \<subseteq> ?K"
    proof
      fix z assume "z \<in> {z \<in> N. E z > 0}"
      then have z: "z \<in> N" "E z > 0" by auto
      have "rc (hdrs s2 z) > 0" using D(6) [of z] z(2) by simp
      then have "z \<notin> coloured CYC_WHITE s2" using ok2 z(1) by (auto simp: scan_ok_def)
      then show "z \<in> ?K" using bw z(1) by auto
    qed
    show "set (kidsof s x) \<subseteq> ?K" if "x \<in> ?K" for x using D(7) [of x] kN [of x] that by (auto simp: k)
  qed
  ultimately have KR: "N - W = ?K" by (auto simp: W_def)
  then show "N - W \<subseteq> coloured CYC_BLACK s2" by simp
  show "rc (hdrs s2 y) = E y + edges s (N - W) y" for y using D(6) [of y] unfolding KR k(2) .
  have out: "x \<notin> coloured CYC_WHITE s2" if "x \<in> L - N" for x
  proof -
    have "colour (hdrs s2 x) = colour (hdrs s x)" using ok2 that by (simp add: scan_ok_def s1)
    then show ?thesis using that L by (auto simp: coloured_def)
  qed
  have "W \<subseteq> N" by (auto simp: W_def)
  moreover have "coloured CYC_BLACK s2 \<inter> coloured CYC_WHITE s2 = {}" by (auto simp: coloured_def)
  ultimately show "coloured CYC_WHITE s2 \<inter> L = W"
    using bw KR out NL by blast
qed


lemma phases_total:
  assumes g: "graph_ok L s" and r: "set roots \<subseteq> L" and n: "2 * card L < n"
  obtains s1 s2 s' where "each (cyc_mark_grey n) roots s = Some s1" "each (cyc_scan n) roots s1 = Some s2"
    "each (cyc_collect_white n) roots s2 = Some s'" "phases n roots s = Some s'"
proof -
  have L: "finite L" "\<And>x. x \<in> L \<Longrightarrow> set (kidsof s x) \<subseteq> L" using g by (auto simp: graph_ok_def)
  have "\<exists>s1. each (cyc_mark_grey n) roots s = Some s1 \<and> kidsof s1 = kidsof s"
  proof (rule each_total [where P = "\<lambda>t. kidsof t = kidsof s"])
    fix x t assume x: "x \<in> set roots" and k: "kidsof t = kidsof s"
    have "card (L - coloured CYC_GREY t) \<le> card L" using L(1) by (intro card_mono) auto
    then obtain t' where "cyc_mark_grey n x t = Some t'" using mark_fuel(1) [of L t x n] L k x r n by auto
    with mark_grey_post(1) [OF this] show "\<exists>t'. cyc_mark_grey n x t = Some t' \<and> kidsof t' = kidsof s"
      by (auto simp: mark_post_def k)
  qed simp
  then obtain s1 where s1: "each (cyc_mark_grey n) roots s = Some s1" "kidsof s1 = kidsof s" by blast
  let ?N = "reach s (set roots)" and ?E = "\<lambda>y. rc (hdrs s y) - edges s (reach s (set roots)) y"
  have NL: "?N \<subseteq> L" by (rule reach_closed) (use r L(2) in auto)
  obtain s2 where s2: "each (cyc_scan n) roots s1 = Some s2"
  proof -
    have e: "s1 = shade CYC_GREY ?N (edges s ?N) (\<lambda>_. 0) s" "scan_ok ?N ?E s1 s1" using scan_start [OF g r s1(1)] by auto
    have "\<exists>s2. each (cyc_scan n) roots s1 = Some s2 \<and> scan_ok ?N ?E s1 s2"
    proof (rule each_total [where P = "scan_ok ?N ?E s1"])
      fix x t assume x: "x \<in> set roots" and ok: "scan_ok ?N ?E s1 t"
      have xN: "x \<in> ?N" using x reach_self by blast
      have "finite ?N" using NL L(1) by (rule finite_subset)
      then have "card ?N \<le> card L" "card (?N \<inter> coloured CYC_GREY t) \<le> card ?N" using NL L(1) by (auto intro: card_mono)
      then obtain t' where "cyc_scan n x t = Some t'" using scan_fuel(1) [OF ok xN, of n] n by auto
      with scan_ok_post(1) [OF this ok xN] show "\<exists>t'. cyc_scan n x t = Some t' \<and> scan_ok ?N ?E s1 t'"
        by (auto simp: scan_post_def)
    qed (rule e(2))
    then show thesis using that by blast
  qed
  have k2: "kidsof s2 = kidsof s" using scan_okD(3) [OF scanned(2) [OF g r s1(1) s2]] s1(2) by simp
  have "\<exists>s'. each (cyc_collect_white n) roots s2 = Some s' \<and> kidsof s' = kidsof s"
  proof (rule each_total [where P = "\<lambda>t. kidsof t = kidsof s"])
    fix x t assume x: "x \<in> set roots" and k: "kidsof t = kidsof s"
    have "card (L \<inter> doomed t) \<le> card L" using L(1) by (intro card_mono) auto
    then obtain t' where "cyc_collect_white n x t = Some t'" using white_fuel(1) [of L t x n] L k x r n by auto
    with collect_white_post(1) [OF this] show "\<exists>t'. cyc_collect_white n x t = Some t' \<and> kidsof t' = kidsof s"
      by (auto simp: white_post_def k)
  qed (rule k2)
  then obtain s' where "each (cyc_collect_white n) roots s2 = Some s'" by blast
  then show thesis using that [OF s1(1) s2] s1(1) s2 by (simp add: phases_def)
qed

text \<open>What the three phases leave.\<close>

definition collected :: "addr set \<Rightarrow> addr list \<Rightarrow> addr set \<Rightarrow> cyc \<Rightarrow> cyc \<Rightarrow> addr list \<Rightarrow> bool" where
  "collected L roots W s s' fs \<longleftrightarrow> freed s' = fs @ freed s \<and> distinct fs \<and> set fs \<subseteq> W
     \<and> W \<subseteq> reach s (set roots) \<and> cyc_candidates s' = cyc_candidates s \<and> kidsof s' = kidsof s
     \<and> (\<forall>x. buffered (hdrs s' x) = buffered (hdrs s x)) \<and> (\<forall>x\<in>set fs. \<not> buffered (hdrs s x))
     \<and> (\<forall>x\<in>L - W. set (kidsof s x) \<inter> W = {}) \<and> (\<forall>x\<in>W. edges s L x = rc (hdrs s x)) \<and> (\<forall>x\<in>W. rc (hdrs s' x) = 0)
     \<and> (\<forall>x\<in>L - W. colour (hdrs s' x) = CYC_BLACK \<or> colour (hdrs s' x) = colour (hdrs s x))
     \<and> (\<forall>x\<in>L - W. rc (hdrs s' x) + edges s W x = rc (hdrs s x)) \<and> (\<forall>x. x \<notin> L \<longrightarrow> rc (hdrs s' x) = rc (hdrs s x))
     \<and> (\<forall>x\<in>W. x \<in> set fs \<or> colour (hdrs s' x) = CYC_WHITE) \<and> ((\<forall>x\<in>W. \<not> buffered (hdrs s x)) \<longrightarrow> W \<subseteq> set fs)
     \<and> ((\<forall>z\<in>reach s (set roots). rc (hdrs s z) = edges s (reach s (set roots)) z) \<longrightarrow> W = reach s (set roots))"

lemma collectedD:
  assumes "collected L roots W s s' fs"
  shows "freed s' = fs @ freed s" "distinct fs" "set fs \<subseteq> W" "W \<subseteq> reach s (set roots)"
    "cyc_candidates s' = cyc_candidates s" "kidsof s' = kidsof s"
    "buffered (hdrs s' x) = buffered (hdrs s x)" "x \<in> set fs \<Longrightarrow> \<not> buffered (hdrs s x)"
    "x \<in> L - W \<Longrightarrow> set (kidsof s x) \<inter> W = {}" "x \<in> W \<Longrightarrow> edges s L x = rc (hdrs s x)"
    "x \<in> W \<Longrightarrow> rc (hdrs s' x) = 0"
    "x \<in> L - W \<Longrightarrow> colour (hdrs s' x) = CYC_BLACK \<or> colour (hdrs s' x) = colour (hdrs s x)"
    "x \<in> L - W \<Longrightarrow> rc (hdrs s' x) + edges s W x = rc (hdrs s x)"
    "x \<notin> L \<Longrightarrow> rc (hdrs s' x) = rc (hdrs s x)"
    "x \<in> W \<Longrightarrow> x \<in> set fs \<or> colour (hdrs s' x) = CYC_WHITE"
    "(\<And>x. x \<in> W \<Longrightarrow> \<not> buffered (hdrs s x)) \<Longrightarrow> W \<subseteq> set fs"
    "(\<And>z. z \<in> reach s (set roots) \<Longrightarrow> rc (hdrs s z) = edges s (reach s (set roots)) z) \<Longrightarrow> W = reach s (set roots)"
  using assms by (simp_all add: collected_def)

lemma phases_ok:
  assumes g: "graph_ok L s" and r: "set roots \<subseteq> L" and n: "2 * card L < n"
  shows "\<exists>s' W fs. phases n roots s = Some s' \<and> collected L roots W s s' fs"
proof -
  obtain s1 s2 s' where p: "each (cyc_mark_grey n) roots s = Some s1" "each (cyc_scan n) roots s1 = Some s2"
    "each (cyc_collect_white n) roots s2 = Some s'" "phases n roots s = Some s'"
    using phases_total [OF g r n] .
  define N where "N = reach s (set roots)"
  define E where "E y = rc (hdrs s y) - edges s N y" for y
  define W where "W = N - reach s {z \<in> N. E z > 0}"
  note S = scanned [OF g r p(1,2), folded N_def, folded E_def, folded W_def]
  note D = scan_okD [OF S(2)]
  have L: "finite L" "\<And>x. x \<in> L \<Longrightarrow> set (kidsof s x) \<subseteq> L" "\<And>y. y \<in> L \<Longrightarrow> edges s L y \<le> rc (hdrs s y)"
    using g by (auto simp: graph_ok_def)
  have WN: "W \<subseteq> N" by (auto simp: W_def)
  have fin: "finite N" "finite W" "finite (N - W)" "finite (L - N)" using S(1) WN L(1) by (auto intro: finite_subset)
  have k: "kidsof s2 = kidsof s" "reach s2 = reach s" using D(3,5) by (simp_all add: S(6))
  obtain fs st where f: "distinct fs" "set fs \<subseteq> doomed s2 \<inter> N" "s' = after_free fs st s2" "set roots \<inter> doomed s' = {}"
    "\<And>w. w \<in> set fs \<Longrightarrow> set (kidsof s w) \<inter> doomed s' = {}"
    using each_white [OF p(3)] unfolding white_post_def k N_def [symmetric] by blast
  have buf: "buffered (hdrs s2 x) = buffered (hdrs s x)" for x using S(2) by (simp add: scan_ok_def S(6))
  have fsW: "set fs \<subseteq> W" using f(2) S(1,3) by (auto simp: doomed_def)
  have e: "s2\<lparr>hdrs := hdrs s1\<rparr> = s1" using S(2) by (simp add: scan_ok_def)
  have "freed (s2\<lparr>hdrs := hdrs s1\<rparr>) = freed s1" "cyc_candidates (s2\<lparr>hdrs := hdrs s1\<rparr>) = cyc_candidates s1" by (simp_all only: e)
  then have rest: "freed s2 = freed s" "cyc_candidates s2 = cyc_candidates s" by (simp_all add: S(6))
  have E0: "E y = 0" if "y \<in> W" for y
    using that reach_self [of "{z \<in> N. E z > 0}" s] by (auto simp: W_def)
  have sp: "edges s L y = edges s N y + edges s (L - N) y" "edges s N y = edges s W y + edges s (N - W) y" for y
    using edges_Un [of N "L - N" s y] edges_Un [of W "N - W" s y] fin S(1) WN by (simp_all add: Un_absorb1)
  have Wrc: "edges s L y = rc (hdrs s y)" "edges s (L - N) y = 0" if "y \<in> W" for y
    using E0 [OF that] L(3) [of y] that WN S(1) sp(1) [of y] by (auto simp: E_def)
  have noW: "set (kidsof s x) \<inter> W = {}" if x: "x \<in> L - W" for x
  proof (cases "x \<in> N")
    case True
    then have "x \<in> reach s {z \<in> N. E z > 0}" using x by (auto simp: W_def)
    from reach_kids [OF this] show ?thesis by (auto simp: W_def)
  next
    case False
    then show ?thesis using edges_zeroD [OF fin(4) Wrc(2), of _ x] x by blast
  qed
  have in0: "edges s (N - W) y = 0" if "y \<in> W" for y by (rule edges_zero) (use noW that S(1) in blast)
  have out0: "edges s N y = 0" "edges s (N - W) y = 0" if "y \<notin> L" for y
    using that L(2) S(1) by (auto intro!: edges_zero)
  have rc': "rc (hdrs s' y) = E y + edges s (N - W) y" for y using S(5) by (simp add: f(3))
  have all: "W \<subseteq> set fs" if u: "\<forall>x\<in>W. \<not> buffered (hdrs s x)"
  proof -
    have dW: "W \<subseteq> doomed s2" using S(3) u buf by (auto simp: doomed_def)
    have "N \<subseteq> N - doomed s'"
      unfolding N_def
    proof (rule reach_closed)
      show "set roots \<subseteq> reach s (set roots) - doomed s'" using f(4) reach_self by blast
      fix x assume x: "x \<in> reach s (set roots) - doomed s'"
      have kx: "set (kidsof s x) \<subseteq> reach s (set roots)" using x reach_kids by blast
      show "set (kidsof s x) \<subseteq> reach s (set roots) - doomed s'"
      proof (cases "x \<in> W")
        case True
        then have "x \<in> set fs" using x dW by (auto simp: f(3))
        then show ?thesis using f(5) kx by blast
      next
        case False
        have "x \<in> L - W" using False x S(1) by (auto simp: N_def)
        then have "set (kidsof s x) \<subseteq> N - W" using noW [of x] kx by (auto simp: N_def)
        then have "set (kidsof s x) \<inter> coloured CYC_WHITE s2 = {}" using S(4) by (auto simp: coloured_def)
        moreover have "doomed s' \<subseteq> coloured CYC_WHITE s2" unfolding f(3) after_free_fields by (auto simp: doomed_def)
        ultimately show ?thesis using kx by blast
      qed
    qed
    then show ?thesis using dW WN by (auto simp: f(3))
  qed
  have "collected L roots W s s' fs"
    unfolding collected_def
  proof (intro conjI)
    show "freed s' = fs @ freed s" "cyc_candidates s' = cyc_candidates s" "kidsof s' = kidsof s"
      by (simp_all add: f(3) rest k)
    show "\<forall>x\<in>set fs. \<not> buffered (hdrs s x)" using f(2) buf by (auto simp: doomed_def)
    show "\<forall>x\<in>W. rc (hdrs s' x) = 0" using rc' E0 in0 by simp
    show "\<forall>x\<in>L - W. colour (hdrs s' x) = CYC_BLACK \<or> colour (hdrs s' x) = colour (hdrs s x)"
    proof
      fix x assume x: "x \<in> L - W"
      show "colour (hdrs s' x) = CYC_BLACK \<or> colour (hdrs s' x) = colour (hdrs s x)"
        using S(4) S(2) x by (cases "x \<in> N") (auto simp: f(3) coloured_def scan_ok_def S(6))
    qed
    show "\<forall>x\<in>L - W. rc (hdrs s' x) + edges s W x = rc (hdrs s x)"
    proof
      fix x assume x: "x \<in> L - W"
      have "edges s N x \<le> rc (hdrs s x)" using L(3) [of x] sp(1) [of x] x by simp
      then show "rc (hdrs s' x) + edges s W x = rc (hdrs s x)" using sp(2) [of x] by (simp add: rc' E_def)
    qed
    show "\<forall>x\<in>W. x \<in> set fs \<or> colour (hdrs s' x) = CYC_WHITE" using S(3) by (auto simp: f(3) coloured_def)
    show "\<forall>x. x \<notin> L \<longrightarrow> rc (hdrs s' x) = rc (hdrs s x)" using out0 by (simp add: rc' E_def)
    show "(\<forall>z\<in>reach s (set roots). rc (hdrs s z) = edges s (reach s (set roots)) z) \<longrightarrow> W = reach s (set roots)"
    proof
      assume "\<forall>z\<in>reach s (set roots). rc (hdrs s z) = edges s (reach s (set roots)) z"
      then have "{z \<in> N. E z > 0} = {}" by (auto simp: N_def E_def)
      moreover have "reach s {} = {}" by (simp add: reach_def)
      ultimately show "W = reach s (set roots)" unfolding W_def by (simp only: N_def Diff_empty)
    qed
  qed (use f(1) fsW WN noW Wrc(1) all buf in \<open>auto simp: N_def f(3)\<close>)
  with p(4) show ?thesis by blast
qed


subsection \<open>The collection\<close>

lemma unbuffer_fields:
  "rc (hdrs (unbuffer xs s) x) = rc (hdrs s x)" "colour (hdrs (unbuffer xs s) x) = colour (hdrs s x)"
  "children (hdrs (unbuffer xs s) x) = children (hdrs s x)"
  "buffered (hdrs (unbuffer xs s) x) = (buffered (hdrs s x) \<and> x \<notin> set xs)"
  "freed (unbuffer xs s) = freed s" "cyc_candidates (unbuffer xs s) = cyc_candidates s"
  by (induction xs arbitrary: s) (auto simp: set_hdr_def cyc_hdr_def)

lemma drop_dead_eq:
  "drop_dead xs s = (filter (\<lambda>x. rc (hdrs s x) \<noteq> 0) xs,
     s\<lparr>freed := rev (filter (\<lambda>x. rc (hdrs s x) = 0) xs) @ freed s,
       cyc_collected := cyc_collected s + length (filter (\<lambda>x. rc (hdrs s x) = 0) xs)\<rparr>)"
  by (induction xs arbitrary: s) (auto simp: cyc_hdr_def cyc_free_object_def Let_def)

text \<open>The state in which the phases start, and the roots they start from.\<close>

definition taken :: "bool \<Rightarrow> cyc \<Rightarrow> addr list" where
  "taken all s = (if all then cyc_candidates s else take CYC_K_ROOTS (cyc_candidates s))"

definition prepared :: "bool \<Rightarrow> cyc \<Rightarrow> cyc" where
  "prepared all s = snd (drop_dead (taken all s) (unbuffer (taken all s)
     (s\<lparr>cyc_collections := cyc_collections s + 1, cyc_candidates := drop (length (taken all s)) (cyc_candidates s)\<rparr>)))"

definition live_roots :: "bool \<Rightarrow> cyc \<Rightarrow> addr list" where
  "live_roots all s = filter (\<lambda>x. rc (hdrs s x) \<noteq> 0) (taken all s)"

definition dead_roots :: "bool \<Rightarrow> cyc \<Rightarrow> addr list" where
  "dead_roots all s = filter (\<lambda>x. rc (hdrs s x) = 0) (taken all s)"

lemma cyc_collect_phases:
  "cyc_candidates s \<noteq> [] \<Longrightarrow> cyc_collect n all s = phases n (live_roots all s) (prepared all s)"
proof -
  assume ne: "cyc_candidates s \<noteq> []"
  define m where "m = length (cyc_candidates s)"
  define tk where "tk = (if all then m else if m < CYC_K_ROOTS then m else CYC_K_ROOTS)"
  have t: "taken all s = take tk (cyc_candidates s)" "length (taken all s) = tk" "tk \<noteq> 0"
    using ne by (auto simp: taken_def tk_def m_def CYC_K_ROOTS_def)
  let ?s = "s\<lparr>cyc_collections := cyc_collections s + 1\<rparr>"
  have e: "?s\<lparr>cyc_candidates := drop tk (cyc_candidates s)\<rparr>
      = s\<lparr>cyc_collections := cyc_collections s + 1, cyc_candidates := drop tk (cyc_candidates s)\<rparr>" by simp
  show ?thesis
    unfolding cyc_collect_def Let_def m_def [symmetric] tk_def [symmetric] prepared_def phases_def live_roots_def t(2)
    using t(3) by (simp add: t(1) [symmetric] drop_dead_eq unbuffer_fields neq0_conv cong: option.case_cong)
qed

lemma prepared_fields:
  "rc (hdrs (prepared all s) x) = rc (hdrs s x)" "colour (hdrs (prepared all s) x) = colour (hdrs s x)"
  "children (hdrs (prepared all s) x) = children (hdrs s x)"
  "buffered (hdrs (prepared all s) x) = (buffered (hdrs s x) \<and> x \<notin> set (taken all s))"
  "freed (prepared all s) = rev (dead_roots all s) @ freed s"
  "cyc_candidates (prepared all s) = drop (length (taken all s)) (cyc_candidates s)"
  by (simp_all add: prepared_def drop_dead_eq unbuffer_fields dead_roots_def)

lemma prepared_kids [simp]:
  "kidsof (prepared all s) = kidsof s" "edges (prepared all s) = edges s" "reach (prepared all s) = reach s"
proof -
  show k: "kidsof (prepared all s) = kidsof s" by (rule kidsof_cong) (simp add: prepared_fields)
  then show "edges (prepared all s) = edges s" "reach (prepared all s) = reach s" by (rule edges_cong, rule reach_cong)
qed

lemma cyc_invD:
  assumes "cyc_inv L s"
  shows "finite L" "\<And>x. x \<in> L \<Longrightarrow> set (kidsof s x) \<subseteq> L" "L \<inter> set (freed s) = {}" "distinct (freed s)"
    "distinct (cyc_candidates s)" "\<And>x. x \<in> L \<Longrightarrow> buffered (hdrs s x) \<longleftrightarrow> x \<in> set (cyc_candidates s)"
    "\<And>x. x \<in> set (cyc_candidates s) \<Longrightarrow> x \<notin> set (freed s) \<and> buffered (hdrs s x) \<and> (x \<in> L \<or> rc (hdrs s x) = 0)"
    "L \<subseteq> coloured CYC_BLACK s \<union> coloured CYC_PURPLE s" "\<And>y. y \<in> L \<Longrightarrow> edges s L y \<le> rc (hdrs s y)"
  using assms by (simp_all add: cyc_inv_def)

lemma prepared_ok:
  fixes all :: bool
  assumes inv: "cyc_inv L s"
  defines "L1 \<equiv> L - set (dead_roots all s)"
  shows "graph_ok L1 (prepared all s)" "set (live_roots all s) \<subseteq> L1" "\<And>y. y \<in> L \<Longrightarrow> edges s L1 y \<le> edges s L y"
proof -
  note D = cyc_invD [OF inv]
  have T: "set (taken all s) \<subseteq> set (cyc_candidates s)" by (auto simp: taken_def dest: in_set_takeD)
  show le: "edges s L1 y \<le> edges s L y" if "y \<in> L" for y using D(1) by (intro edges_mono) (auto simp: L1_def)
  have "set (kidsof s x) \<subseteq> L1" if x: "x \<in> L1" for x
  proof -
    have "y \<notin> set (dead_roots all s)" if y: "y \<in> set (kidsof s x)" for y
    proof
      assume d: "y \<in> set (dead_roots all s)"
      have "y \<in> L" using D(2) x y by (auto simp: L1_def)
      then have "edges s L y = 0" using D(9) [of y] d by (simp add: dead_roots_def)
      then show False using edges_zeroD [OF D(1), of s y x] x y by (auto simp: L1_def)
    qed
    then show ?thesis using D(2) x by (auto simp: L1_def)
  qed
  moreover have "edges s L1 y \<le> rc (hdrs s y)" if "y \<in> L1" for y
    using le [of y] D(9) [of y] that by (auto simp: L1_def)
  moreover have "L1 \<inter> (coloured CYC_GREY s \<union> coloured CYC_WHITE s) = {}" using D(8) by (auto simp: L1_def coloured_def)
  ultimately show "graph_ok L1 (prepared all s)"
    using D(1) by (auto simp: graph_ok_def prepared_fields coloured_def L1_def)
  show "set (live_roots all s) \<subseteq> L1"
  proof
    fix x assume "x \<in> set (live_roots all s)"
    then have "x \<in> set (cyc_candidates s)" "rc (hdrs s x) \<noteq> 0" using T by (auto simp: live_roots_def)
    then show "x \<in> L1" using D(7) [of x] by (auto simp: L1_def dead_roots_def)
  qed
qed

lemma set_drop_taken:
  assumes "distinct (cyc_candidates s)"
  shows "set (drop (length (taken all s)) (cyc_candidates s)) = set (cyc_candidates s) - set (taken all s)"
proof -
  have "cyc_candidates s = taken all s @ drop (length (taken all s)) (cyc_candidates s)"
    by (auto simp: taken_def min_def)
  then obtain d where d: "cyc_candidates s = taken all s @ d" "d = drop (length (taken all s)) (cyc_candidates s)" by blast
  have "set (cyc_candidates s) = set (taken all s) \<union> set d" "set (taken all s) \<inter> set d = {}"
    using assms unfolding d(1) by simp_all
  then show ?thesis unfolding d(2) [symmetric] by blast
qed

lemma collected_inv:
  assumes inv: "cyc_inv L s" and c: "collected (L - set (dead_roots all s)) (live_roots all s) W (prepared all s) s' fs"
  defines "L' \<equiv> L - set (dead_roots all s) - W"
  shows "cyc_inv L' s'" "held L s \<subseteq> held L' s'" "set (freed s') \<inter> L \<subseteq> L - L'"
proof -
  note D = cyc_invD [OF inv] and P = prepared_ok [OF inv, where all = all]
  let ?L1 = "L - set (dead_roots all s)"
  note C = collectedD [OF c, unfolded prepared_fields prepared_kids]
  have ed: "edges s' = edges s" using C(6) by (rule edges_cong)
  have k1: "\<And>x. x \<in> ?L1 \<Longrightarrow> set (kidsof s x) \<subseteq> ?L1" using P(1) by (simp add: graph_ok_def)
  have WL: "W \<subseteq> ?L1"
  proof -
    have "reach s (set (live_roots all s)) \<subseteq> ?L1" by (rule reach_closed) (use P(2) k1 in auto)
    then show ?thesis using C(4) by blast
  qed
  have fin: "finite W" "finite L'" using WL D(1) by (auto intro: finite_subset simp: L'_def)
  have sp: "edges s ?L1 y = edges s W y + edges s L' y" for y
    using edges_Un [of W L' s y] fin WL by (simp add: L'_def Un_absorb1)
  have T: "set (taken all s) \<subseteq> set (cyc_candidates s)" by (auto simp: taken_def dest: in_set_takeD)
  have dead: "set (dead_roots all s) \<subseteq> set (taken all s)" "distinct (dead_roots all s)"
    using D(5) by (auto simp: dead_roots_def taken_def)
  note dr = set_drop_taken [OF D(5), of all]
  have ext: "rc (hdrs s' y) - edges s' L' y = rc (hdrs s y) - edges s ?L1 y" "edges s' L' y \<le> rc (hdrs s' y)" if "y \<in> L'" for y
    using C(13) [of y] sp [of y] P(3) [of y] D(9) [of y] that unfolding ed by (auto simp: L'_def)
  show "set (freed s') \<inter> L \<subseteq> L - L'" using C(1,3) D(3) by (auto simp: L'_def)
  show "cyc_inv L' s'"
    unfolding cyc_inv_def C(6)
  proof (intro conjI ballI)
    show "finite L'" by (rule fin)
    show "set (kidsof s x) \<subseteq> L'" if "x \<in> L'" for x using k1 [of x] C(9) [of x] that unfolding L'_def by blast
    show "L' \<inter> set (freed s') = {}" using C(1,3) D(3) by (auto simp: L'_def)
    show "distinct (freed s')"
      using C(1,2,3) dead D(3,4,7) WL T by (auto simp: subset_iff disjoint_iff)
    show "distinct (cyc_candidates s')" using D(5) by (simp add: C(5))
    show "buffered (hdrs s' x) = (x \<in> set (cyc_candidates s'))" if "x \<in> L'" for x
      using D(6) [of x] that by (auto simp: C(5,7) dr L'_def)
    show "L' \<subseteq> coloured CYC_BLACK s' \<union> coloured CYC_PURPLE s'"
    proof
      fix x assume x: "x \<in> L'"
      then have "colour (hdrs s' x) = CYC_BLACK \<or> colour (hdrs s' x) = colour (hdrs s x)" using C(12) by (simp add: L'_def)
      moreover have "x \<in> coloured CYC_BLACK s \<union> coloured CYC_PURPLE s" using D(8) x by (auto simp: L'_def)
      ultimately show "x \<in> coloured CYC_BLACK s' \<union> coloured CYC_PURPLE s'" by (auto simp: coloured_def)
    qed
    show "edges s' L' y \<le> rc (hdrs s' y)" if "y \<in> L'" for y by (rule ext(2) [OF that])
    fix x assume x: "x \<in> set (cyc_candidates s')"
    then have x': "x \<in> set (cyc_candidates s)" "x \<notin> set (taken all s)" by (auto simp: C(5) dr)
    have xb: "x \<notin> set (freed s)" "buffered (hdrs s x)" "x \<in> L \<or> rc (hdrs s x) = 0" using D(7) [OF x'(1)] by auto
    show "x \<notin> set (freed s')" using C(1) C(8) [of x] xb x'(2) dead(1) by auto
    show "buffered (hdrs s' x)" using xb x' by (simp add: C(7))
    show "x \<in> L' \<or> rc (hdrs s' x) = 0" using xb(3) x'(2) dead(1) C(11,14) [of x] by (cases "x \<in> L") (auto simp: L'_def)
  qed
  show "held L s \<subseteq> held L' s'"
  proof
    fix z assume "z \<in> held L s"
    then have z: "z \<in> L" "edges s L z < rc (hdrs s z)" by (auto simp: held_def)
    have "z \<notin> W" using C(10) [of z] P(3) [OF z(1)] z(2) by auto
    moreover have "z \<notin> set (dead_roots all s)" using z(2) by (auto simp: dead_roots_def)
    ultimately have zL: "z \<in> L'" using z(1) by (simp add: L'_def)
    then show "z \<in> held L' s'" using ext [OF zL] P(3) [OF z(1)] z(2) by (auto simp: held_def)
  qed
qed

end
