(* ===== verification/Cycles_Run.thy ===== *)
theory Cycles_Run
  imports Cycles_Collect
begin

text \<open>
  The collector among the program's own operations.  \<open>cyc_step\<close> lists what a compiled program does:
  it allocates, retains what it has, releases a count that it holds, stores a retained reference into
  a field, and collects.  The invariant holds in every state it can reach.
\<close>

definition survivors :: "addr set \<Rightarrow> cyc \<Rightarrow> addr set" where
  "survivors L s = {x \<in> L. x \<notin> set (freed s) \<and> colour (hdrs s x) \<noteq> CYC_WHITE}"

lemma cyc_collect_ok:
  assumes inv: "cyc_inv L s" and n: "2 * card L < n"
  shows "\<exists>s'. cyc_collect n all s = Some s' \<and> cyc_inv (survivors L s') s' \<and> held L s \<subseteq> held (survivors L s') s'
    \<and> kidsof s' = kidsof s"
proof (cases "cyc_candidates s = []")
  case True
  have "survivors L s = L" using cyc_invD(3,8) [OF inv] by (auto simp: survivors_def coloured_def)
  then show ?thesis using True inv by (auto simp: cyc_collect_def Let_def CYC_K_ROOTS_def)
next
  case False
  note D = cyc_invD [OF inv] and P = prepared_ok [OF inv, where all = all]
  let ?L1 = "L - set (dead_roots all s)"
  have "card ?L1 \<le> card L" using D(1) by (intro card_mono) auto
  then obtain s' W fs where p: "phases n (live_roots all s) (prepared all s) = Some s'"
    and c: "collected ?L1 (live_roots all s) W (prepared all s) s' fs"
    using phases_ok [OF P(1,2), of n] n by auto
  have s': "cyc_collect n all s = Some s'" using cyc_collect_phases [OF False] p by simp
  note C = collectedD [OF c, unfolded prepared_fields prepared_kids]
  have bp: "colour (hdrs s x) \<noteq> CYC_WHITE" if "x \<in> L" for x using D(8) that by (auto simp: coloured_def)
  have "survivors L s' = ?L1 - W"
  proof (rule set_eqI)
    fix x
    show "x \<in> survivors L s' \<longleftrightarrow> x \<in> ?L1 - W"
      using C(1,3) C(12,15) [of x] bp [of x] D(3) by (auto simp: survivors_def)
  qed
  with collected_inv [OF inv c] s' C(6) show ?thesis by auto
qed


subsection \<open>The operations keep the invariant\<close>

lemma hdr_upd [simp]: "hdrs (set_hdr x h s) = (hdrs s)(x := h)" "freed (set_hdr x h s) = freed s"
  "cyc_candidates (set_hdr x h s) = cyc_candidates s"
  by (simp_all add: set_hdr_def)

lemma kidsof_recount [simp]: "children h = children (hdrs s x) \<Longrightarrow> kidsof (set_hdr x h s) = kidsof s"
  by (rule kidsof_cong) simp

lemma edges_recount [simp]: "children h = children (hdrs s x) \<Longrightarrow> edges (set_hdr x h s) = edges s"
  by (rule edges_cong) simp

lemma kidsof_buffer [simp]: "kidsof (cyc_buffer p s) = kidsof s" "edges (cyc_buffer p s) = edges s"
  "hdrs (cyc_buffer p s) = hdrs s" "freed (cyc_buffer p s) = freed s"
  "cyc_candidates (cyc_buffer p s) = cyc_candidates s @ [p]"
proof -
  show h: "hdrs (cyc_buffer p s) = hdrs s" by (simp add: cyc_buffer_def Let_def)
  then show k: "kidsof (cyc_buffer p s) = kidsof s" by (intro kidsof_cong) simp
  then show "edges (cyc_buffer p s) = edges s" by (rule edges_cong)
qed (simp_all add: cyc_buffer_def Let_def)

lemma alloc_inv:
  assumes inv: "cyc_inv L s" and p: "p \<noteq> 0" "p \<notin> L" "p \<notin> set (cyc_candidates s)"
  shows "cyc_inv (insert p L) (snd (cyc_alloc p s))"
proof -
  note D = cyc_invD [OF inv]
  let ?s = "snd (cyc_alloc p s)"
  have h: "hdrs ?s = (hdrs s)(p := \<lparr>rc = 0, colour = CYC_BLACK, buffered = False, children = None\<rparr>)"
    "freed ?s = removeAll p (freed s)" "cyc_candidates ?s = cyc_candidates s"
    using p(1) by (simp_all add: cyc_alloc_def)
  have k: "kidsof ?s x = (if x = p then [] else kidsof s x)" for x by (simp add: kidsof_def h)
  have e: "edges ?s (insert p L) y = edges s L y" for y
    using D(1) p(2) by (auto simp: edges_def k intro!: sum.cong)
  have "edges s L p = 0" by (rule edges_zero) (use D(2) p(2) in blast)
  then have "edges ?s (insert p L) y \<le> rc (hdrs ?s y)" if "y \<in> insert p L" for y
    using that D(9) [of y] p(2) by (auto simp: e h)
  moreover have "insert p L \<subseteq> coloured CYC_BLACK ?s \<union> coloured CYC_PURPLE ?s"
    using D(8) by (auto simp: coloured_def h)
  ultimately show ?thesis
    unfolding cyc_inv_def using D(1-7) p(2,3) by (auto simp: h k distinct_removeAll)
qed

lemma retain_inv:
  assumes inv: "cyc_inv L s" and p: "p \<in> L"
  shows "cyc_inv L (cyc_retain p s)"
proof -
  note D = cyc_invD [OF inv]
  let ?s = "set_hdr p ((cyc_hdr p s)\<lparr>rc := rc (cyc_hdr p s) + 1\<rparr>) s"
  have k: "kidsof ?s = kidsof s" "edges ?s = edges s" by (simp_all add: cyc_hdr_def)
  have "coloured CYC_BLACK ?s = coloured CYC_BLACK s" "coloured CYC_PURPLE ?s = coloured CYC_PURPLE s"
    by (auto simp: coloured_def cyc_hdr_def)
  then have "cyc_inv L ?s"
    unfolding cyc_inv_def k using D p by (auto simp: cyc_hdr_def le_SucI)
  then show ?thesis using inv by (simp add: cyc_retain_def)
qed

text \<open>A store into field \<open>i\<close> of \<open>x\<close>: the new reference is null or one whose count is already held.\<close>

lemma store_inv:
  assumes inv: "cyc_inv L s" and x: "x \<in> L" "x \<noteq> 0" and ys: "children (hdrs s x) = Some ys" "i < length ys"
    and v: "v = 0 \<or> v \<in> held L s"
  shows "cyc_inv L (cyc_set_type x (Some (ys[i := v])) s)"
proof -
  note D = cyc_invD [OF inv]
  let ?s = "set_hdr x ((cyc_hdr x s)\<lparr>children := Some (ys[i := v])\<rparr>) s"
  have k: "kidsof ?s z = (if z = x then kids_in (ys[i := v]) else kidsof s z)" for z by (simp add: kidsof_def)
  have kx: "kidsof s x = kids_in ys" using ys(1) by (simp add: kidsof_def)
  have ct: "count_list (kids_in (ys[i := v])) y \<le> count_list (kids_in ys) y + (if y = v \<and> v \<noteq> 0 then 1 else 0)" for y
  proof -
    have "count_list (kids_in zs) y = (if y = 0 then 0 else count_list zs y)" for zs
      by (induction zs) auto
    moreover have "count_list (ys[i := v]) y \<le> count_list ys y + (if y = v then 1 else 0)"
      using ys(2)
    proof (induction ys arbitrary: i)
      case (Cons a ys)
      show ?case
      proof (cases i)
        case (Suc j)
        then show ?thesis using Cons.IH [of j] Cons.prems by (auto split: if_splits)
      qed simp
    qed simp
    ultimately show ?thesis by auto
  qed
  have sub: "set (kids_in (ys[i := v])) \<subseteq> L"
  proof
    fix z assume "z \<in> set (kids_in (ys[i := v]))"
    then have "z \<noteq> 0" "z \<in> insert v (set ys)" using set_update_subset_insert [of ys i v] by (auto simp: kids_in_def)
    then show "z \<in> L" using D(2) [OF x(1)] v by (auto simp: kx kids_in_def held_def)
  qed
  have sp: "edges t L y = count_list (kidsof t x) y + edges t (L - {x}) y" for t y
    using edges_insert [of "L - {x}" x t y] D(1) x(1) by (simp add: insert_absorb)
  have rest: "edges ?s (L - {x}) y = edges s (L - {x}) y" for y by (auto simp: edges_def k intro!: sum.cong)
  have "edges ?s L y \<le> rc (hdrs ?s y)" if y: "y \<in> L" for y
  proof -
    have "edges ?s L y \<le> edges s L y + (if y = v \<and> v \<noteq> 0 then 1 else 0)"
      using ct [of y] by (simp add: sp [of ?s] sp [of s] rest k kx)
    also have "\<dots> \<le> rc (hdrs s y)" using v D(9) [OF y] by (auto simp: held_def)
    finally show ?thesis by (auto simp: cyc_hdr_def)
  qed
  moreover have "coloured CYC_BLACK ?s = coloured CYC_BLACK s" "coloured CYC_PURPLE ?s = coloured CYC_PURPLE s"
    by (auto simp: coloured_def cyc_hdr_def)
  moreover have "set (kidsof ?s z) \<subseteq> L" if "z \<in> L" for z using D(2) [OF that] sub by (simp add: k)
  ultimately have "cyc_inv L ?s"
    unfolding cyc_inv_def using D(1,3-8) by (auto simp: cyc_hdr_def)
  then show ?thesis using x(2) by (simp add: cyc_set_type_def)
qed

lemma survivors_all: "cyc_inv L s \<Longrightarrow> survivors L s = L"
  using cyc_invD(3,8) by (fastforce simp: survivors_def coloured_def)

lemma survivors_drop: "cyc_inv (L - {p}) s \<Longrightarrow> p \<in> set (freed s) \<Longrightarrow> survivors L s = L - {p}"
  using survivors_all [of "L - {p}" s] by (auto simp: survivors_def)

text \<open>What \<open>cyc_release\<close> leaves before a collection that the buffer's size may call for.\<close>

lemma uncount_inv:
  assumes inv: "cyc_inv L s" and p: "p \<in> held L s" and c: "c = CYC_BLACK \<or> c = CYC_PURPLE"
  shows "cyc_inv L (set_hdr p ((hdrs s p)\<lparr>rc := rc (hdrs s p) - 1, colour := c\<rparr>) s)"
proof -
  note D = cyc_invD [OF inv]
  let ?s = "set_hdr p ((hdrs s p)\<lparr>rc := rc (hdrs s p) - 1, colour := c\<rparr>) s"
  have k: "kidsof ?s = kidsof s" "edges ?s = edges s" by simp_all
  have pL: "p \<in> L" "edges s L p \<le> rc (hdrs s p) - 1" using p by (auto simp: held_def)
  have "L \<subseteq> coloured CYC_BLACK ?s \<union> coloured CYC_PURPLE ?s" using D(8) c by (auto simp: coloured_def)
  then show ?thesis unfolding cyc_inv_def k using D(1-7) D(9) pL by auto
qed

lemma buffer_inv:
  assumes inv: "cyc_inv L s" and p: "p \<in> L" "\<not> buffered (hdrs s p)"
  shows "cyc_inv L (cyc_buffer p (set_hdr p ((hdrs s p)\<lparr>buffered := True\<rparr>) s))"
proof -
  note D = cyc_invD [OF inv]
  let ?s = "cyc_buffer p (set_hdr p ((hdrs s p)\<lparr>buffered := True\<rparr>) s)"
  have k: "kidsof ?s = kidsof s" "edges ?s = edges s" by simp_all
  have "p \<notin> set (cyc_candidates s)" "p \<notin> set (freed s)" using D(3,6) p by auto
  moreover have "L \<subseteq> coloured CYC_BLACK ?s \<union> coloured CYC_PURPLE ?s" using D(8) by (auto simp: coloured_def)
  ultimately show ?thesis unfolding cyc_inv_def k using D(1-7) D(9) p by auto
qed

lemma free_inv:
  assumes inv: "cyc_inv L s" and p: "p \<in> L" "\<not> buffered (hdrs s p)" "rc (hdrs s p) = 0"
  shows "cyc_inv (L - {p}) (cyc_free_object p s)"
proof -
  note D = cyc_invD [OF inv]
  let ?s = "cyc_free_object p s"
  have h: "hdrs ?s = hdrs s" "freed ?s = p # freed s" "cyc_candidates ?s = cyc_candidates s"
    by (simp_all add: cyc_free_object_def)
  have k: "kidsof ?s = kidsof s" by (rule kidsof_cong) (simp add: h)
  have e: "edges ?s = edges s" using k by (rule edges_cong)
  have "edges s L p = 0" using D(9) [OF p(1)] p(3) by simp
  then have np: "p \<notin> set (kidsof s x)" if "x \<in> L" for x using edges_zeroD [OF D(1)] that by blast
  have "edges s (L - {p}) y \<le> rc (hdrs s y)" if "y \<in> L" for y
    using edges_mono [of L "L - {p}" s y] D(1) D(9) [OF that] by auto
  moreover have "L - {p} \<subseteq> coloured CYC_BLACK ?s \<union> coloured CYC_PURPLE ?s" using D(8) by (auto simp: coloured_def h)
  moreover have "p \<notin> set (cyc_candidates s)" "p \<notin> set (freed s)" using D(3,6) p by auto
  moreover have "\<forall>x\<in>set (cyc_candidates ?s). x \<notin> set (freed ?s) \<and> buffered (hdrs ?s x)
      \<and> (x \<in> L - {p} \<or> rc (hdrs ?s x) = 0)"
  proof
    fix x assume x: "x \<in> set (cyc_candidates ?s)"
    then have "x \<noteq> p" using D(6) [OF p(1)] p(2) by (auto simp: h)
    then show "x \<notin> set (freed ?s) \<and> buffered (hdrs ?s x) \<and> (x \<in> L - {p} \<or> rc (hdrs ?s x) = 0)"
      using D(7) [of x] x by (simp add: h)
  qed
  moreover have "\<forall>x\<in>L - {p}. set (kidsof s x) \<subseteq> L - {p}" using D(2) np by blast
  ultimately show ?thesis unfolding cyc_inv_def k e
    by (intro conjI) (use D(1,3-6) in \<open>auto simp: h\<close>)
qed

lemma cyc_release_ok:
  assumes inv: "cyc_inv L s" and p: "p \<in> held L s" and n: "2 * card L < n"
  shows "\<exists>s'. cyc_release n p s = Some s' \<and> cyc_inv (survivors L s') s'"
proof (cases "p = 0")
  case True
  then show ?thesis using inv survivors_all [OF inv] by (auto simp: cyc_release_def)
next
  case False
  note D = cyc_invD [OF inv]
  have pL: "p \<in> L" "rc (hdrs s p) > 0" using p by (auto simp: held_def)
  let ?h = "hdrs s p"
  note U = uncount_inv [OF inv p]
  have col: "colour ?h = CYC_BLACK \<or> colour ?h = CYC_PURPLE" using D(8) pL by (auto simp: coloured_def)
  consider (zero) "rc ?h = 1" "buffered ?h" | (gone) "rc ?h = 1" "\<not> buffered ?h"
    | (held) "rc ?h > 1" "buffered ?h" | (born) "rc ?h > 1" "\<not> buffered ?h" using pL by linarith
  then show ?thesis
  proof cases
    case zero
    then show ?thesis using U [of CYC_BLACK] False survivors_all by (auto simp: cyc_release_def cyc_hdr_def Let_def)
  next
    case gone
    let ?s = "set_hdr p (?h\<lparr>rc := 0\<rparr>) s"
    have i: "cyc_inv L ?s" using U [OF col] gone by simp
    have "cyc_inv (L - {p}) (cyc_free_object p ?s)" by (rule free_inv [OF i]) (use pL gone in auto)
    moreover from this have "survivors L (cyc_free_object p ?s) = L - {p}"
      by (rule survivors_drop) (simp add: cyc_free_object_def)
    ultimately show ?thesis using gone False by (simp add: cyc_release_def cyc_hdr_def Let_def)
  next
    case held
    then show ?thesis using U [OF col] False survivors_all by (auto simp: cyc_release_def cyc_hdr_def Let_def)
  next
    case born
    let ?s = "set_hdr p (?h\<lparr>rc := rc ?h - 1, colour := CYC_PURPLE\<rparr>) s"
    let ?t = "cyc_buffer p (set_hdr p (?h\<lparr>rc := rc ?h - 1, colour := CYC_PURPLE, buffered := True\<rparr>) s)"
    have t: "?t = cyc_buffer p (set_hdr p ((hdrs ?s p)\<lparr>buffered := True\<rparr>) ?s)" by (simp add: set_hdr_def)
    have i: "cyc_inv L ?t" unfolding t by (rule buffer_inv [OF U]) (use pL born in auto)
    obtain s' where s': "cyc_collect n False ?t = Some s'" "cyc_inv (survivors L s') s'"
      using cyc_collect_ok [OF i n, of False] by blast
    show ?thesis
      using born False i s' survivors_all [OF i]
      by (cases "length (cyc_candidates ?t) \<ge> CYC_THETA_BUFFER") (simp_all add: cyc_release_def cyc_hdr_def Let_def)
  qed
qed

lemma type_inv:
  assumes inv: "cyc_inv L s" and p: "p \<in> L" "kidsof s p = []"
  shows "cyc_inv L (cyc_set_type p (Some (replicate k 0)) s)"
proof -
  note D = cyc_invD [OF inv]
  let ?s = "set_hdr p ((cyc_hdr p s)\<lparr>children := Some (replicate k 0)\<rparr>) s"
  have "kidsof ?s x = kidsof s x" for x using p(2) by (auto simp: kidsof_def kids_in_def filter_empty_conv)
  then have k: "kidsof ?s = kidsof s" by (rule ext)
  have e: "edges ?s = edges s" by (rule edges_cong [OF k])
  have "coloured CYC_BLACK ?s = coloured CYC_BLACK s" "coloured CYC_PURPLE ?s = coloured CYC_PURPLE s"
    by (auto simp: coloured_def cyc_hdr_def)
  then have "cyc_inv L ?s" unfolding cyc_inv_def k e using D by (auto simp: cyc_hdr_def)
  then show ?thesis using inv by (simp add: cyc_set_type_def)
qed


subsection \<open>Runs\<close>

text \<open>Enough fuel for a walk over the live objects: twice their number, because a scan that meets a held
  object walks what it reaches a second time.\<close>

definition enough :: "addr set \<Rightarrow> nat" where
  "enough L = 2 * card L + 1"

text \<open>The steps of a compiled program.  \<open>L\<close> is the set of objects that its references may lead to.  A
  release gives up a count that is not a field's; a store puts such a count into a field.\<close>

inductive cyc_step :: "addr set \<times> cyc \<Rightarrow> addr set \<times> cyc \<Rightarrow> bool" where
  alloc: "p \<noteq> 0 \<Longrightarrow> p \<notin> L \<Longrightarrow> p \<notin> set (cyc_candidates s) \<Longrightarrow> cyc_step (L, s) (insert p L, snd (cyc_alloc p s))"
| stamp: "p \<in> L \<Longrightarrow> kidsof s p = [] \<Longrightarrow> cyc_step (L, s) (L, cyc_set_type p (Some (replicate k 0)) s)"
| retain: "p \<in> L \<Longrightarrow> cyc_step (L, s) (L, cyc_retain p s)"
| store: "x \<in> L \<Longrightarrow> x \<noteq> 0 \<Longrightarrow> children (hdrs s x) = Some ys \<Longrightarrow> i < length ys \<Longrightarrow> v = 0 \<or> v \<in> held L s
    \<Longrightarrow> cyc_step (L, s) (L, cyc_set_type x (Some (ys[i := v])) s)"
| release: "p \<in> held L s \<Longrightarrow> cyc_release (enough L) p s = Some s' \<Longrightarrow> cyc_step (L, s) (survivors L s', s')"
| collect: "cyc_collect_now (enough L) s = Some s' \<Longrightarrow> cyc_step (L, s) (survivors L s', s')"

definition cyc_start :: cyc where
  "cyc_start = \<lparr>hdrs = \<lambda>_. \<lparr>rc = 0, colour = CYC_BLACK, buffered = False, children = None\<rparr>, freed = [], stale = [],
     cyc_candidates = [], cyc_cand_cap = 0, cyc_allocated = 0, cyc_collected = 0, cyc_collections = 0\<rparr>"

lemma cyc_start_inv: "cyc_inv {} cyc_start"
  by (simp add: cyc_inv_def cyc_start_def)

lemma cyc_step_inv:
  assumes "cyc_step (L, s) (L', s')" and inv: "cyc_inv L s"
  shows "cyc_inv L' s'"
  using assms(1)
proof (cases rule: cyc_step.cases)
  case (release p)
  then show ?thesis using cyc_release_ok [OF inv, of p "enough L"] by (simp add: enough_def)
next
  case collect
  then show ?thesis using cyc_collect_ok [OF inv, of "enough L" True] by (auto simp: enough_def cyc_collect_now_def)
qed (use inv alloc_inv type_inv retain_inv store_inv in auto)

lemma cyc_run_inv: "cyc_step\<^sup>*\<^sup>* (L, s) (L', s') \<Longrightarrow> cyc_inv L s \<Longrightarrow> cyc_inv L' s'"
  by (induction rule: rtranclp_induct2) (auto intro: cyc_step_inv)

lemma reach_held: "cyc_inv L s \<Longrightarrow> reach s (held L s) \<subseteq> L"
  by (rule reach_closed) (use cyc_invD(2) in \<open>auto simp: held_def\<close>)

text \<open>C12.  Memory safety of cycle-managed objects: whatever a program does with them, starting from an
  empty heap, no object is freed twice, no object that a field leads to is freed, and the candidate
  buffer has no freed object and no object twice.
\<close>

theorem cyc_runs_safe:
  assumes "cyc_step\<^sup>*\<^sup>* ({}, cyc_start) (L, s)"
  shows "distinct (freed s) \<and> L \<inter> set (freed s) = {} \<and> (\<Union>x\<in>L. set (kidsof s x)) \<subseteq> L
    \<and> distinct (cyc_candidates s) \<and> set (cyc_candidates s) \<inter> set (freed s) = {}"
  using cyc_invD(2-5,7) [OF cyc_run_inv [OF assms cyc_start_inv]] by (auto simp: subset_iff)

text \<open>C13.  A collection ends and is safe: with fuel for twice the live objects it returns, and no object that
  can be reached from one the program still holds is freed, nor is a field of it changed.
\<close>

theorem cyc_collect_keeps_reachable:
  assumes inv: "cyc_inv L s" and n: "2 * card L < n"
  shows "\<exists>s'. cyc_collect n all s = Some s' \<and> reach s (held L s) \<inter> set (freed s') = {} \<and> kidsof s' = kidsof s"
proof -
  obtain s' where s': "cyc_collect n all s = Some s'" "cyc_inv (survivors L s') s'"
    "held L s \<subseteq> held (survivors L s') s'" "kidsof s' = kidsof s"
    using cyc_collect_ok [OF assms] by blast
  have "reach s (held L s) \<subseteq> survivors L s'"
    using reach_held [OF s'(2)] reach_mono [OF s'(3), of s'] reach_cong [OF s'(4)] by auto
  then show ?thesis using s'(1,4) cyc_invD(3) [OF s'(2)] by blast
qed

text \<open>C14.  A collection finds every cycle: when nothing outside the objects that the candidates reach holds
  any of them, an explicit collection frees them all.
\<close>

theorem cyc_collect_now_frees_cycles:
  fixes s :: cyc
  defines "R \<equiv> reach s (set (cyc_candidates s))"
  assumes inv: "cyc_inv L s" and n: "2 * card L < n"
    and dead: "\<And>z. z \<in> R \<Longrightarrow> 0 < rc (hdrs s z) \<and> rc (hdrs s z) = edges s R z"
  shows "\<exists>s'. cyc_collect_now n s = Some s' \<and> R \<subseteq> set (freed s')"
proof (cases "cyc_candidates s = []")
  case True
  then show ?thesis by (auto simp: cyc_collect_now_def cyc_collect_def R_def reach_def)
next
  case False
  note D = cyc_invD [OF inv] and P = prepared_ok [OF inv, where all = True]
  have cR: "set (cyc_candidates s) \<subseteq> R" unfolding R_def by (rule reach_self)
  have roots: "live_roots True s = cyc_candidates s" "dead_roots True s = []"
    using dead cR by (auto simp: live_roots_def dead_roots_def taken_def filter_id_conv filter_empty_conv)
  then obtain s' W fs where p: "phases n (cyc_candidates s) (prepared True s) = Some s'"
    and c: "collected L (cyc_candidates s) W (prepared True s) s' fs"
    using phases_ok [OF P(1,2), of n] n by auto
  note C = collectedD [OF c, unfolded prepared_fields prepared_kids, folded R_def]
  have W: "W = R" using C(17) dead by blast
  have "R \<subseteq> L" unfolding R_def by (rule reach_closed) (use D(2,7) dead cR in force)+
  then have "\<not> (buffered (hdrs s x) \<and> x \<notin> set (taken True s))" if "x \<in> W" for x
    using D(6) [of x] that W by (auto simp: taken_def)
  then have "W \<subseteq> set fs" by (rule C(16))
  then show ?thesis using p C(1) W roots(1) by (auto simp: cyc_collect_now_def cyc_collect_phases [OF False])
qed


subsection \<open>Two objects that hold each other\<close>

definition ring :: cyc where
  "ring = cyc_start\<lparr>hdrs := (hdrs cyc_start)
     (8 := \<lparr>rc = 1, colour = CYC_PURPLE, buffered = True, children = Some [16, 0]\<rparr>,
      16 := \<lparr>rc = 1, colour = CYC_BLACK, buffered = False, children = Some [8]\<rparr>),
     cyc_candidates := [8], cyc_cand_cap := 256\<rparr>"

lemma ring_kids: "kidsof ring = (\<lambda>_. [])(8 := [16], 16 := [8])"
  by (rule ext) (simp add: ring_def kidsof_def cyc_start_def)

lemma ring_edges: "edges ring {8, 16} y = (if y = 8 \<or> y = 16 then 1 else 0)"
  by (simp add: edges_def ring_kids)

lemma ring_fields:
  "rc (hdrs ring 8) = 1" "rc (hdrs ring 16) = 1" "colour (hdrs ring 8) = CYC_PURPLE" "colour (hdrs ring 16) = CYC_BLACK"
  "buffered (hdrs ring 8)" "\<not> buffered (hdrs ring 16)" "cyc_candidates ring = [8]" "freed ring = []"
  by (simp_all add: ring_def cyc_start_def)

lemma ring_inv: "cyc_inv {8, 16} ring"
  by (simp add: cyc_inv_def ring_kids ring_edges coloured_def ring_fields)

lemma ring_reach: "reach ring {8} = {8, 16}"
proof
  show "reach ring {8} \<subseteq> {8, 16}" by (rule reach_closed) (auto simp: ring_kids)
  have "8 \<in> reach ring {8}" using reach_self by blast
  then show "{8, 16} \<subseteq> reach ring {8}" using reach_kids [of 8 ring "{8}"] by (simp add: ring_kids)
qed

text \<open>The ring with a reference from a local variable to its second object.\<close>

definition held_ring :: cyc where
  "held_ring = cyc_retain 16 ring"

lemma held_ring_inv: "cyc_inv {8, 16} held_ring"
  unfolding held_ring_def by (rule retain_inv [OF ring_inv]) simp

lemma held_ring_held: "held {8, 16} held_ring = {16}"
proof -
  have "edges held_ring = edges ring" by (simp add: held_ring_def cyc_retain_def cyc_hdr_def)
  then show ?thesis
    by (auto simp: held_def ring_edges) (auto simp: held_ring_def cyc_retain_def cyc_hdr_def ring_def)
qed

theorem cyc_collect_keeps_reachable_witness:
  "\<exists>s'. cyc_collect 5 True held_ring = Some s' \<and> reach held_ring {16} \<inter> set (freed s') = {} \<and> kidsof s' = kidsof held_ring"
  using cyc_collect_keeps_reachable [OF held_ring_inv, of 5 True] by (simp add: held_ring_held)

theorem cyc_collect_now_frees_cycles_witness:
  "\<exists>s'. cyc_collect_now 5 ring = Some s' \<and> {8, 16} \<subseteq> set (freed s')"
proof -
  have c: "set (cyc_candidates ring) = {8}" by (simp add: ring_fields)
  have d: "0 < rc (hdrs ring z) \<and> rc (hdrs ring z) = edges ring {8, 16} z" if "z \<in> {8, 16}" for z
    using that by (auto simp: ring_edges ring_fields)
  show ?thesis
    using cyc_collect_now_frees_cycles [OF ring_inv, of 5, unfolded c ring_reach, OF _ d] by simp
qed

theorem cyc_runs_safe_witness:
  "\<exists>L s. cyc_step\<^sup>*\<^sup>* ({}, cyc_start) (L, s) \<and> freed s = [8] \<and> distinct (freed s) \<and> L \<inter> set (freed s) = {}"
proof -
  let ?a = "snd (cyc_alloc 8 cyc_start)"
  let ?r = "cyc_retain 8 ?a"
  have k: "kidsof ?r = (\<lambda>_. [])"
    by (rule ext) (simp add: kidsof_def cyc_retain_def cyc_alloc_def cyc_start_def cyc_hdr_def)
  then have "8 \<in> held {8} ?r"
    by (simp add: held_def edges_def cyc_retain_def cyc_alloc_def cyc_hdr_def)
  moreover obtain s where s: "cyc_release (enough {8}) 8 ?r = Some s" "freed s = [8]"
    by (simp add: cyc_release_def cyc_retain_def cyc_alloc_def cyc_hdr_def cyc_free_object_def cyc_start_def Let_def)
  ultimately have "cyc_step ({8}, ?r) (survivors {8} s, s)" by (intro cyc_step.release)
  moreover have "cyc_step ({}, cyc_start) ({8}, ?a)" using cyc_step.alloc [of 8 "{}" cyc_start] by (simp add: cyc_start_def)
  moreover have "cyc_step ({8}, ?a) ({8}, ?r)" by (rule cyc_step.retain) simp
  ultimately have run: "cyc_step\<^sup>*\<^sup>* ({}, cyc_start) (survivors {8} s, s)" by (meson converse_rtranclp_into_rtranclp rtranclp.rtrancl_refl)
  show ?thesis using run s(2) cyc_runs_safe [OF run] by blast
qed

text \<open> The order in which white objects are freed: an object goes back to the allocator before its
  children are visited, so the last object of a ring has its reference followed to storage that is
  already free, and the header there is read.  Collecting the ring reads the freed header of its root.
\<close>

theorem cyc_collect_white_reads_freed:
  "map_option (\<lambda>s. (freed s, stale s)) (cyc_collect_now 5 ring) = Some ([16, 8], [8])"
  by (simp add: cyc_collect_now_def cyc_collect_def ring_def cyc_start_def cyc_hdr_def set_hdr_def Let_def
      cyc_free_object_def eval_nat_numeral)

end
