(* ===== verification/Profile.thy ===== *)
theory Profile
  imports Prelude "HOL-Library.List_Lexorder" "HOL-Library.Char_ord" "HOL-Library.Product_Lexorder" "HOL-Library.Multiset"
begin

unbundle bit_operations_syntax

text \<open>
  The access profile of an instrumented workload (\<open>rt_profile_begin\<close> to \<open>rt_workload_stub\<close> in
  \<open>runtime/lang_runtime.c\<close>): two open-addressing tables of counters with linear probing, the profile
  file they are written to, and the stubs that warn once.  Type and field names are string literals
  of the program, so a name is its text and \<open>strcmp\<close> compares texts.

  The two tables share their probing loop.  The locale \<open>probed\<close> states what a table needs of its entries
  (a used flag, a key, how an empty slot is claimed) and proves once that such a table is a finite map;
  it is interpreted for the field table and for the type table.
\<close>

subsection \<open>Definitions\<close>

definition RT_PROF_SLOTS :: nat where "RT_PROF_SLOTS = 8192"

record RtProfField =
  ftype :: string
  ffield :: string
  reads :: nat
  writes :: nat
  lo :: int
  hi :: int
  has_range :: bool
  fld_used :: bool

record RtProfType =
  ttype :: string
  allocs :: nat
  liven :: nat
  peak_live :: nat
  typ_used :: bool

record prof =
  g_prof_fields :: "nat \<Rightarrow> RtProfField"
  g_prof_types :: "nat \<Rightarrow> RtProfType"
  g_prof_depth :: nat

definition fnv_step :: "32 word \<Rightarrow> char \<Rightarrow> 32 word" where
  "fnv_step h c = (h XOR of_char c) * 16777619"

definition rt_prof_hash :: "string \<Rightarrow> string \<Rightarrow> 32 word" where
  "rt_prof_hash a b = foldl fnv_step (fnv_step (foldl fnv_step 2166136261 a) (CHR ''.'')) b"

text \<open>The probing loop of \<open>rt_prof_slot\<close> and \<open>rt_prof_type_slot\<close>: from slot \<open>i\<close>, at most \<open>n\<close> slots.\<close>

fun prof_probe :: "nat \<Rightarrow> nat \<Rightarrow> (nat \<Rightarrow> bool) \<Rightarrow> (nat \<Rightarrow> bool) \<Rightarrow> nat option" where
  "prof_probe 0 i used same = None"
| "prof_probe (Suc n) i used same =
     (let j = i mod RT_PROF_SLOTS in
      if \<not> used j \<or> same j then Some j else prof_probe n (i + 1) used same)"

definition prof_start :: "string \<Rightarrow> string \<Rightarrow> nat" where
  "prof_start a b = unat (rt_prof_hash a b AND (word_of_nat RT_PROF_SLOTS - 1))"

definition rt_prof_slot :: "string \<Rightarrow> string \<Rightarrow> prof \<Rightarrow> (nat \<times> prof) option" where
  "rt_prof_slot t f s =
     (case prof_probe RT_PROF_SLOTS (prof_start t f) (\<lambda>i. fld_used (g_prof_fields s i))
             (\<lambda>i. ftype (g_prof_fields s i) = t \<and> ffield (g_prof_fields s i) = f) of
        None \<Rightarrow> None
      | Some i \<Rightarrow> Some (i, if fld_used (g_prof_fields s i) then s
          else s\<lparr>g_prof_fields := (g_prof_fields s)(i := (g_prof_fields s i)\<lparr>fld_used := True, ftype := t, ffield := f\<rparr>)\<rparr>))"

definition rt_prof_type_slot :: "string \<Rightarrow> prof \<Rightarrow> (nat \<times> prof) option" where
  "rt_prof_type_slot t s =
     (case prof_probe RT_PROF_SLOTS (prof_start t []) (\<lambda>i. typ_used (g_prof_types s i)) (\<lambda>i. ttype (g_prof_types s i) = t) of
        None \<Rightarrow> None
      | Some i \<Rightarrow> Some (i, if typ_used (g_prof_types s i) then s
          else s\<lparr>g_prof_types := (g_prof_types s)(i := (g_prof_types s i)\<lparr>typ_used := True, ttype := t\<rparr>)\<rparr>))"

definition rt_profile_begin :: "prof \<Rightarrow> prof" where
  "rt_profile_begin s = s\<lparr>g_prof_depth := g_prof_depth s + 1\<rparr>"

definition rt_profile_end :: "prof \<Rightarrow> prof" where
  "rt_profile_end s = (if g_prof_depth s > 0 then s\<lparr>g_prof_depth := g_prof_depth s - 1\<rparr> else s)"

text \<open>A count of one slot: the update that the caller makes through the pointer it was given.\<close>

definition count_access :: "bool \<Rightarrow> RtProfField \<Rightarrow> RtProfField" where
  "count_access is_write e = (if is_write then e\<lparr>writes := writes e + 1\<rparr> else e\<lparr>reads := reads e + 1\<rparr>)"

definition count_range :: "int \<Rightarrow> RtProfField \<Rightarrow> RtProfField" where
  "count_range v e =
     (if \<not> has_range e then e\<lparr>has_range := True, lo := v, hi := v\<rparr>
      else e\<lparr>lo := (if v < lo e then v else lo e), hi := (if v > hi e then v else hi e)\<rparr>)"

definition count_alloc :: "RtProfType \<Rightarrow> RtProfType" where
  "count_alloc e =
     (let e = e\<lparr>allocs := allocs e + 1, liven := liven e + 1\<rparr>
      in if liven e > peak_live e then e\<lparr>peak_live := liven e\<rparr> else e)"

definition count_release :: "RtProfType \<Rightarrow> RtProfType" where
  "count_release e = (if liven e > 0 then e\<lparr>liven := liven e - 1\<rparr> else e)"

definition on_field :: "string \<Rightarrow> string \<Rightarrow> (RtProfField \<Rightarrow> RtProfField) \<Rightarrow> prof \<Rightarrow> prof" where
  "on_field t f g s =
     (if g_prof_depth s = 0 then s
      else case rt_prof_slot t f s of
             None \<Rightarrow> s
           | Some (i, s) \<Rightarrow> s\<lparr>g_prof_fields := (g_prof_fields s)(i := g (g_prof_fields s i))\<rparr>)"

definition on_type :: "string \<Rightarrow> (RtProfType \<Rightarrow> RtProfType) \<Rightarrow> prof \<Rightarrow> prof" where
  "on_type t g s =
     (if g_prof_depth s = 0 then s
      else case rt_prof_type_slot t s of
             None \<Rightarrow> s
           | Some (i, s) \<Rightarrow> s\<lparr>g_prof_types := (g_prof_types s)(i := g (g_prof_types s i))\<rparr>)"

definition rt_profile_field :: "string \<Rightarrow> string \<Rightarrow> bool \<Rightarrow> prof \<Rightarrow> prof" where
  "rt_profile_field t f is_write = on_field t f (count_access is_write)"

definition rt_profile_range :: "string \<Rightarrow> string \<Rightarrow> int \<Rightarrow> prof \<Rightarrow> prof" where
  "rt_profile_range t f v = on_field t f (count_range v)"

definition rt_profile_alloc :: "string \<Rightarrow> prof \<Rightarrow> prof" where
  "rt_profile_alloc t = on_type t count_alloc"

definition rt_profile_release :: "string \<Rightarrow> prof \<Rightarrow> prof" where
  "rt_profile_release t = on_type t count_release"

text \<open>The profile file.  \<open>qsort\<close> orders the used slots by name; the names are distinct.\<close>

fun dec_digits :: "nat \<Rightarrow> string" where
  "dec_digits n = (if n < 10 then [char_of (48 + n)] else dec_digits (n div 10) @ [char_of (48 + n mod 10)])"

declare dec_digits.simps [simp del]

definition dec :: "int \<Rightarrow> string" where
  "dec v = (if v < 0 then CHR ''-'' # dec_digits (nat (- v)) else dec_digits (nat v))"

definition pad_left :: "nat \<Rightarrow> string \<Rightarrow> string" where
  "pad_left n t = replicate (n - length t) (CHR '' '') @ t"

definition pad_right :: "nat \<Rightarrow> string \<Rightarrow> string" where
  "pad_right n t = t @ replicate (n - length t) (CHR '' '')"

definition NL :: string where "NL = [CHR 0x0A]"

definition used_fields :: "prof \<Rightarrow> RtProfField list" where
  "used_fields s = filter fld_used (map (g_prof_fields s) [0..<RT_PROF_SLOTS])"

definition used_types :: "prof \<Rightarrow> RtProfType list" where
  "used_types s = filter typ_used (map (g_prof_types s) [0..<RT_PROF_SLOTS])"

definition rt_prof_field_cmp :: "RtProfField \<Rightarrow> string \<times> string" where
  "rt_prof_field_cmp e = (ftype e, ffield e)"

definition rt_prof_type_cmp :: "RtProfType \<Rightarrow> string" where
  "rt_prof_type_cmp e = ttype e"

definition type_line :: "RtProfType \<Rightarrow> string" where
  "type_line e = ''type  '' @ pad_right 16 (ttype e) @ '' '' @ pad_left 10 (dec (int (allocs e)))
     @ '' '' @ pad_left 9 (dec (int (peak_live e))) @ NL"

definition field_line :: "RtProfField \<Rightarrow> string" where
  "field_line e = ''field '' @ ftype e @ ''.'' @ pad_right 14 (ffield e) @ '' '' @ pad_left 10 (dec (int (reads e)))
     @ '' '' @ pad_left 10 (dec (int (writes e))) @ '' ''
     @ (if has_range e then dec (lo e) @ ''..'' @ dec (hi e) else ''-'') @ NL"

definition rt_profile_dump :: "string option \<Rightarrow> int \<Rightarrow> prof \<Rightarrow> string" where
  "rt_profile_dump workload runs s =
     ''aif-profile 1'' @ NL @ ''source      workload:'' @ (case workload of None \<Rightarrow> ''?'' | Some w \<Rightarrow> w) @ NL
     @ ''runs        '' @ dec runs @ NL @ ''#'' @ NL @ ''# type              allocs      live'' @ NL
     @ concat (map type_line (sort_key rt_prof_type_cmp (used_types s)))
     @ ''#'' @ NL @ ''# type.field         reads       writes    range'' @ NL
     @ concat (map field_line (sort_key rt_prof_field_cmp (used_fields s)))"

definition RT_STUB_WARNED_MAX :: nat where "RT_STUB_WARNED_MAX = 64"

text \<open>The state is the names warned about; the answer is the result, 0, and whether it warned.\<close>

definition rt_workload_stub :: "string \<Rightarrow> string list \<Rightarrow> int \<times> bool \<times> string list" where
  "rt_workload_stub nm warned =
     (if nm \<in> set warned then (0, False, warned)
      else (0, True, if length warned < RT_STUB_WARNED_MAX then warned @ [nm] else warned))"


subsection \<open>Linear probing\<close>

text \<open>The keys of a table, slot by slot.  A key sits where a probe for it stops: every slot before it on
  its way is taken by another key.\<close>

definition way :: "nat \<Rightarrow> nat \<Rightarrow> nat" where
  "way h d = (h + d) mod RT_PROF_SLOTS"

lemma slots_pos [simp]: "0 < RT_PROF_SLOTS"
  by (simp add: RT_PROF_SLOTS_def)

lemma way_lt [simp]: "way h d < RT_PROF_SLOTS"
  by (simp add: way_def)

lemma way_covers: "i < RT_PROF_SLOTS \<Longrightarrow> \<exists>d<RT_PROF_SLOTS. way h d = i"
proof -
  assume i: "i < RT_PROF_SLOTS"
  let ?N = "RT_PROF_SLOTS"
  have "(h + (i + (?N - h mod ?N)) mod ?N) mod ?N = (h mod ?N + (i + (?N - h mod ?N))) mod ?N"
    by (simp add: mod_add_left_eq mod_add_right_eq)
  also have "h mod ?N + (i + (?N - h mod ?N)) = i + ?N" using mod_less_divisor [OF slots_pos, of h] by linarith
  finally have "way h ((i + (?N - h mod ?N)) mod ?N) = i" using i by (simp add: way_def)
  then show ?thesis by (intro exI [of _ "(i + (?N - h mod ?N)) mod ?N"]) simp
qed

lemma probe_Some:
  "prof_probe n h u e = Some j \<longleftrightarrow> (\<exists>d<n. j = way h d \<and> (\<not> u j \<or> e j) \<and> (\<forall>x<d. u (way h x) \<and> \<not> e (way h x)))"
proof (induction n arbitrary: h)
  case (Suc n)
  have s: "way (Suc h) d = way h (Suc d)" for d by (simp add: way_def)
  have z: "way h 0 = h mod RT_PROF_SLOTS" by (simp add: way_def)
  show ?case
    unfolding prof_probe.simps Let_def z [symmetric] Ex_less_Suc2 All_less_Suc2 using Suc [of "Suc h"] by (auto simp: s)
qed simp

lemma probe_None: "prof_probe n h u e = None \<longleftrightarrow> (\<forall>d<n. u (way h d) \<and> \<not> e (way h d))"
proof (induction n arbitrary: h)
  case (Suc n)
  have s: "way (Suc h) d = way h (Suc d)" for d by (simp add: way_def)
  have z: "way h 0 = h mod RT_PROF_SLOTS" by (simp add: way_def)
  show ?case unfolding prof_probe.simps Let_def z [symmetric] All_less_Suc2 using Suc [of "Suc h"] by (auto simp: s)
qed simp

definition bump_map :: "('k \<Rightarrow> 'v) \<Rightarrow> 'k \<Rightarrow> ('v \<Rightarrow> 'v) \<Rightarrow> ('k \<Rightarrow> 'v option) \<Rightarrow> 'k \<Rightarrow> 'v option" where
  "bump_map fresh k g m = m(k \<mapsto> g (case m k of None \<Rightarrow> fresh k | Some e \<Rightarrow> e))"

lemma option_ext: "(\<And>v. a = Some v \<longleftrightarrow> b = Some v) \<Longrightarrow> a = b"
  by (cases b) (auto simp: option.expand)

locale probed =
  fixes start :: "'k \<Rightarrow> nat" and used :: "'e \<Rightarrow> bool" and key :: "'e \<Rightarrow> 'k" and blank :: 'e and fresh :: "'k \<Rightarrow> 'e"
  assumes blank_unused: "\<not> used blank" and fresh_used: "used (fresh k)" and fresh_key: "key (fresh k) = k"
begin

definition find :: "(nat \<Rightarrow> 'k option) \<Rightarrow> 'k \<Rightarrow> nat option" where
  "find T k = prof_probe RT_PROF_SLOTS (start k) (\<lambda>i. T i \<noteq> None) (\<lambda>i. T i = Some k)"

definition table_ok :: "(nat \<Rightarrow> 'k option) \<Rightarrow> bool" where
  "table_ok T \<longleftrightarrow> (\<forall>i k. T i = Some k \<longrightarrow>
     (\<exists>d<RT_PROF_SLOTS. i = way (start k) d \<and> (\<forall>x<d. T (way (start k) x) \<noteq> None \<and> T (way (start k) x) \<noteq> Some k)))"

lemma find_present: "table_ok T \<Longrightarrow> T i = Some k \<Longrightarrow> find T k = Some i"
  unfolding find_def probe_Some table_ok_def by blast

lemma find_inj: "table_ok T \<Longrightarrow> T i = Some k \<Longrightarrow> T j = Some k \<Longrightarrow> i = j"
  using find_present [of T i k] find_present [of T j k] by simp

lemma find_lt: "find T k = Some i \<Longrightarrow> i < RT_PROF_SLOTS"
  by (auto simp: find_def probe_Some)

lemma find_cases: "find T k = Some i \<Longrightarrow> T i = None \<or> T i = Some k"
  by (auto simp: find_def probe_Some)

lemma find_absent: "find T k = Some i \<Longrightarrow> T i = None \<Longrightarrow> table_ok T \<Longrightarrow> k \<notin> ran T"
  using find_present by (fastforce simp: ran_def)

lemma find_room: "find T k = None \<Longrightarrow> k \<notin> ran T \<or> \<not> table_ok T" "find T k = None \<Longrightarrow> i < RT_PROF_SLOTS \<Longrightarrow> T i \<noteq> None"
proof -
  show "find T k = None \<Longrightarrow> k \<notin> ran T \<or> \<not> table_ok T" using find_present by (fastforce simp: ran_def)
  show "find T k = None \<Longrightarrow> i < RT_PROF_SLOTS \<Longrightarrow> T i \<noteq> None"
    using way_covers [of i "start k"] by (auto simp: find_def probe_None)
qed

lemma claim_ok:
  assumes ok: "table_ok T" and f: "find T k = Some i" "T i = None"
  shows "table_ok (T(i \<mapsto> k))"
  unfolding table_ok_def
proof (intro allI impI)
  fix j l assume j: "(T(i \<mapsto> k)) j = Some l"
  show "\<exists>d<RT_PROF_SLOTS. j = way (start l) d \<and> (\<forall>x<d. (T(i \<mapsto> k)) (way (start l) x) \<noteq> None \<and> (T(i \<mapsto> k)) (way (start l) x) \<noteq> Some l)"
  proof (cases "j = i")
    case True
    then have "l = k" using j by simp
    moreover obtain d where d: "d < RT_PROF_SLOTS" "i = way (start k) d"
      "\<forall>x<d. T (way (start k) x) \<noteq> None \<and> T (way (start k) x) \<noteq> Some k"
      using f by (auto simp: find_def probe_Some)
    moreover have "way (start k) x \<noteq> i" if "x < d" for x using d(3) f(2) that by fastforce
    ultimately show ?thesis using True by auto
  next
    case False
    then have l: "T j = Some l" using j by simp
    then obtain d where d: "d < RT_PROF_SLOTS" "j = way (start l) d"
      "\<forall>x<d. T (way (start l) x) \<noteq> None \<and> T (way (start l) x) \<noteq> Some l"
      using ok unfolding table_ok_def by blast
    moreover have "way (start l) x \<noteq> i" if "x < d" for x using d(3) f(2) that by fastforce
    ultimately show ?thesis by auto
  qed
qed

lemma room_left:
  assumes ok: "table_ok T" and sub: "ran T \<subseteq> K" and fin: "finite K" and k: "k \<in> K" and n: "card K \<le> RT_PROF_SLOTS"
  shows "find T k \<noteq> None"
proof
  assume none: "find T k = None"
  have full: "T i \<noteq> None" if "i < RT_PROF_SLOTS" for i using find_room(2) [OF none that] .
  have kr: "k \<notin> ran T" using find_room(1) [OF none] ok by blast
  have inj: "inj_on (\<lambda>i. the (T i)) {..<RT_PROF_SLOTS}"
  proof (rule inj_onI)
    fix i j assume ij: "i \<in> {..<RT_PROF_SLOTS}" "j \<in> {..<RT_PROF_SLOTS}" "the (T i) = the (T j)"
    then obtain a b where "T i = Some a" "T j = Some b" using full by (metis lessThan_iff not_None_eq)
    then show "i = j" using find_inj [OF ok, of i a j] ij(3) by simp
  qed
  have "(\<lambda>i. the (T i)) ` {..<RT_PROF_SLOTS} \<subseteq> ran T" using full by (force simp: ran_def)
  then have "(\<lambda>i. the (T i)) ` {..<RT_PROF_SLOTS} \<subseteq> K - {k}" using sub kr by auto
  then have "RT_PROF_SLOTS \<le> card (K - {k})" using card_inj_on_le [OF inj] fin by fastforce
  also have "\<dots> < card K" using fin k by (rule card_Diff1_less)
  finally show False using n by simp
qed

text \<open>Tables of entries.\<close>

definition keys :: "(nat \<Rightarrow> 'e) \<Rightarrow> nat \<Rightarrow> 'k option" where
  "keys E i = (if used (E i) then Some (key (E i)) else None)"

definition entries_ok :: "(nat \<Rightarrow> 'e) \<Rightarrow> bool" where
  "entries_ok E \<longleftrightarrow> table_ok (keys E) \<and> (\<forall>i. \<not> used (E i) \<longrightarrow> E i = blank) \<and> (\<forall>i. RT_PROF_SLOTS \<le> i \<longrightarrow> \<not> used (E i))"

definition lookup :: "(nat \<Rightarrow> 'e) \<Rightarrow> 'k \<Rightarrow> 'e option" where
  "lookup E k = (case find (keys E) k of None \<Rightarrow> None | Some i \<Rightarrow> if used (E i) then Some (E i) else None)"

definition keeps :: "('e \<Rightarrow> 'e) \<Rightarrow> bool" where
  "keeps g \<longleftrightarrow> (\<forall>e. used (g e) = used e \<and> key (g e) = key e)"

definition claimed :: "'k \<Rightarrow> ('e \<Rightarrow> 'e) \<Rightarrow> nat \<Rightarrow> (nat \<Rightarrow> 'e) \<Rightarrow> nat \<Rightarrow> 'e" where
  "claimed k g i E = E(i := g (if used (E i) then E i else fresh k))"

lemma find_keys:
  "find (keys E) k = prof_probe RT_PROF_SLOTS (start k) (\<lambda>i. used (E i)) (\<lambda>i. key (E i) = k)"
proof -
  have "(\<lambda>i. keys E i \<noteq> None) = (\<lambda>i. used (E i))" by (auto simp: keys_def fun_eq_iff)
  moreover have "prof_probe n h (\<lambda>i. used (E i)) (\<lambda>i. keys E i = Some k)
      = prof_probe n h (\<lambda>i. used (E i)) (\<lambda>i. key (E i) = k)" for n h
    by (induction n arbitrary: h) (auto simp: keys_def Let_def)
  ultimately show ?thesis by (simp add: find_def)
qed

lemma keys_Some: "keys E i = Some k \<longleftrightarrow> used (E i) \<and> k = key (E i)"
  by (auto simp: keys_def)

lemma lookup_Some: "table_ok (keys E) \<Longrightarrow> lookup E k = Some e \<longleftrightarrow> (\<exists>i. keys E i = Some k \<and> e = E i)"
  using find_present [of "keys E" _ k] find_cases [of "keys E" k]
  by (fastforce simp: lookup_def keys_def split: option.splits if_splits)

lemma empty_ok: "entries_ok (\<lambda>_. blank)" "lookup (\<lambda>_. blank) k = None" "keys (\<lambda>_. blank) = Map.empty"
  using blank_unused by (auto simp: entries_ok_def table_ok_def keys_def lookup_def split: option.splits)

lemma bump_ok:
  assumes ok: "entries_ok E" and g: "keeps g" and i: "find (keys E) k = Some i"
  shows "entries_ok (claimed k g i E)" "lookup (claimed k g i E) = bump_map fresh k g (lookup E)"
    "ran (keys (claimed k g i E)) \<subseteq> insert k (ran (keys E))"
proof -
  have T: "table_ok (keys E)" "\<And>i. \<not> used (E i) \<Longrightarrow> E i = blank" "\<And>i. RT_PROF_SLOTS \<le> i \<Longrightarrow> \<not> used (E i)"
    using ok by (auto simp: entries_ok_def)
  define e where "e = (if used (E i) then E i else fresh k)"
  let ?E = "E(i := g e)"
  have E: "claimed k g i E = ?E" by (simp add: claimed_def e_def)
  have ci: "keys E i = None \<or> keys E i = Some k" by (rule find_cases [OF i])
  have e: "used (g e)" "key (g e) = k"
    using g ci fresh_used fresh_key by (auto simp: keeps_def keys_def e_def split: if_splits)
  have k: "keys ?E = (keys E)(i \<mapsto> k)" using e by (auto simp: keys_def fun_eq_iff)
  have ok': "table_ok (keys ?E)" using ci claim_ok [OF T(1) i] T(1) unfolding k by (metis fun_upd_triv)
  show "entries_ok (claimed k g i E)" unfolding E entries_ok_def using ok' T(2,3) e(1) find_lt [OF i] by auto
  show "ran (keys (claimed k g i E)) \<subseteq> insert k (ran (keys E))" unfolding E k by (auto simp: ran_def)
  have "lookup ?E q = Some v \<longleftrightarrow> bump_map fresh k g (lookup E) q = Some v" for q v
  proof (cases "q = k")
    case True
    have old: "(case lookup E k of None \<Rightarrow> fresh k | Some e \<Rightarrow> e) = e" using i by (auto simp: lookup_def e_def)
    have at: "keys ?E i = Some k" by (simp add: k)
    have "lookup ?E q = Some v \<longleftrightarrow> v = g e"
      unfolding lookup_Some [OF ok'] True using at find_inj [OF ok' at] by (metis fun_upd_same)
    then show ?thesis using True old by (auto simp: bump_map_def)
  next
    case False
    then have "keys E j = Some q \<Longrightarrow> j \<noteq> i" for j using ci by auto
    then have "(\<exists>j. ((keys E)(i \<mapsto> k)) j = Some q \<and> v = ?E j) \<longleftrightarrow> (\<exists>j. keys E j = Some q \<and> v = E j)"
      using False by (metis fun_upd_other fun_upd_same option.inject)
    then show ?thesis unfolding lookup_Some [OF ok'] k using False by (simp add: bump_map_def lookup_Some [OF T(1)])
  qed
  then show "lookup (claimed k g i E) = bump_map fresh k g (lookup E)" unfolding E by (intro ext option_ext) auto
qed

text \<open>The entries a dump collects, in slot order, are those of the map.\<close>

lemma used_entries:
  assumes ok: "entries_ok E"
  defines "xs \<equiv> filter used (map E [0..<RT_PROF_SLOTS])"
  shows "set xs = ran (lookup E)" "distinct (map key xs)"
proof -
  have T: "table_ok (keys E)" "\<And>i. used (E i) \<Longrightarrow> i < RT_PROF_SLOTS" using ok by (auto simp: entries_ok_def not_le [symmetric])
  show "set xs = ran (lookup E)"
    using T(2) by (auto simp: xs_def ran_def lookup_Some [OF T(1)] keys_Some)
  have "inj_on (\<lambda>i. key (E i)) {i. used (E i)}"
    by (rule inj_onI) (use find_inj [OF T(1)] in \<open>simp add: keys_Some\<close>)
  moreover have "map key xs = map (\<lambda>i. key (E i)) (filter (\<lambda>i. used (E i)) [0..<RT_PROF_SLOTS])"
    by (simp add: xs_def filter_map comp_def)
  ultimately show "distinct (map key xs)" by (auto simp: distinct_map intro: inj_on_subset)
qed

end


subsection \<open>The two tables\<close>

definition no_field :: RtProfField where
  "no_field = \<lparr>ftype = [], ffield = [], reads = 0, writes = 0, lo = 0, hi = 0, has_range = False, fld_used = False\<rparr>"

definition no_type :: RtProfType where
  "no_type = \<lparr>ttype = [], allocs = 0, liven = 0, peak_live = 0, typ_used = False\<rparr>"

definition new_field :: "string \<times> string \<Rightarrow> RtProfField" where
  "new_field k = no_field\<lparr>fld_used := True, ftype := fst k, ffield := snd k\<rparr>"

definition new_type :: "string \<Rightarrow> RtProfType" where
  "new_type k = no_type\<lparr>typ_used := True, ttype := k\<rparr>"

interpretation flds: probed "\<lambda>(t, f). prof_start t f" fld_used rt_prof_field_cmp no_field new_field
  by unfold_locales (simp_all add: no_field_def new_field_def rt_prof_field_cmp_def)

interpretation typs: probed "\<lambda>t. prof_start t []" typ_used rt_prof_type_cmp no_type new_type
  by unfold_locales (simp_all add: no_type_def new_type_def rt_prof_type_cmp_def)

definition prof_init :: prof where
  "prof_init = \<lparr>g_prof_fields = \<lambda>_. no_field, g_prof_types = \<lambda>_. no_type, g_prof_depth = 0\<rparr>"

definition prof_ok :: "prof \<Rightarrow> bool" where
  "prof_ok s \<longleftrightarrow> flds.entries_ok (g_prof_fields s) \<and> typs.entries_ok (g_prof_types s)"

text \<open>What a profile says: per field and per type, the counters.\<close>

record profile =
  pfields :: "string \<times> string \<Rightarrow> RtProfField option"
  ptypes :: "string \<Rightarrow> RtProfType option"
  pdepth :: nat

definition profile_of :: "prof \<Rightarrow> profile" where
  "profile_of s = \<lparr>pfields = flds.lookup (g_prof_fields s), ptypes = typs.lookup (g_prof_types s), pdepth = g_prof_depth s\<rparr>"

lemma keeps_counts [simp]:
  "flds.keeps (count_access w)" "flds.keeps (count_range v)" "typs.keeps count_alloc" "typs.keeps count_release"
  by (simp_all add: flds.keeps_def typs.keeps_def count_access_def count_range_def count_alloc_def count_release_def
      rt_prof_field_cmp_def rt_prof_type_cmp_def Let_def)

lemma on_field_claims:
  assumes "0 < g_prof_depth s" "flds.entries_ok (g_prof_fields s)" "flds.find (flds.keys (g_prof_fields s)) (t, f) = Some i"
  shows "on_field t f g s = s\<lparr>g_prof_fields := flds.claimed (t, f) g i (g_prof_fields s)\<rparr>"
proof -
  have "\<not> fld_used (g_prof_fields s i) \<Longrightarrow> g_prof_fields s i = no_field" using assms(2) by (simp add: flds.entries_ok_def)
  then show ?thesis
    using assms(1,3) unfolding flds.find_keys
    by (auto simp: on_field_def rt_prof_slot_def flds.claimed_def new_field_def rt_prof_field_cmp_def)
qed

lemma on_type_claims:
  assumes "0 < g_prof_depth s" "typs.entries_ok (g_prof_types s)" "typs.find (typs.keys (g_prof_types s)) t = Some i"
  shows "on_type t g s = s\<lparr>g_prof_types := typs.claimed t g i (g_prof_types s)\<rparr>"
proof -
  have "\<not> typ_used (g_prof_types s i) \<Longrightarrow> g_prof_types s i = no_type" using assms(2) by (simp add: typs.entries_ok_def)
  then show ?thesis
    using assms(1,3) unfolding typs.find_keys
    by (auto simp: on_type_def rt_prof_type_slot_def typs.claimed_def new_type_def rt_prof_type_cmp_def)
qed


subsection \<open>Runs of a workload\<close>

datatype event = Begin | End | Access string string bool | Value string string int | Alloc string | Release string

fun prof_step :: "event \<Rightarrow> prof \<Rightarrow> prof" where
  "prof_step Begin s = rt_profile_begin s"
| "prof_step End s = rt_profile_end s"
| "prof_step (Access t f w) s = rt_profile_field t f w s"
| "prof_step (Value t f v) s = rt_profile_range t f v s"
| "prof_step (Alloc t) s = rt_profile_alloc t s"
| "prof_step (Release t) s = rt_profile_release t s"

text \<open>What a workload's profile should be, with no table and no hash.\<close>

fun spec_step :: "event \<Rightarrow> profile \<Rightarrow> profile" where
  "spec_step Begin m = m\<lparr>pdepth := pdepth m + 1\<rparr>"
| "spec_step End m = m\<lparr>pdepth := pdepth m - 1\<rparr>"
| "spec_step (Access t f w) m =
     (if pdepth m = 0 then m else m\<lparr>pfields := bump_map new_field (t, f) (count_access w) (pfields m)\<rparr>)"
| "spec_step (Value t f v) m =
     (if pdepth m = 0 then m else m\<lparr>pfields := bump_map new_field (t, f) (count_range v) (pfields m)\<rparr>)"
| "spec_step (Alloc t) m = (if pdepth m = 0 then m else m\<lparr>ptypes := bump_map new_type t count_alloc (ptypes m)\<rparr>)"
| "spec_step (Release t) m = (if pdepth m = 0 then m else m\<lparr>ptypes := bump_map new_type t count_release (ptypes m)\<rparr>)"

fun field_named :: "event \<Rightarrow> (string \<times> string) set" where
  "field_named (Access t f w) = {(t, f)}"
| "field_named (Value t f v) = {(t, f)}"
| "field_named _ = {}"

fun type_named :: "event \<Rightarrow> string set" where
  "type_named (Alloc t) = {t}"
| "type_named (Release t) = {t}"
| "type_named _ = {}"

definition small :: "event list \<Rightarrow> bool" where
  "small es \<longleftrightarrow> card (\<Union>e\<in>set es. field_named e) \<le> RT_PROF_SLOTS \<and> card (\<Union>e\<in>set es. type_named e) \<le> RT_PROF_SLOTS"

definition within_names :: "(string \<times> string) set \<Rightarrow> string set \<Rightarrow> prof \<Rightarrow> bool" where
  "within_names K N s \<longleftrightarrow> prof_ok s \<and> ran (flds.keys (g_prof_fields s)) \<subseteq> K \<and> ran (typs.keys (g_prof_types s)) \<subseteq> N"

lemma field_event:
  assumes w: "within_names K N s" and K: "finite K" "card K \<le> RT_PROF_SLOTS" "(t, f) \<in> K" and g: "flds.keeps g"
  shows "within_names K N (on_field t f g s) \<and> profile_of (on_field t f g s)
    = (if g_prof_depth s = 0 then profile_of s else (profile_of s)\<lparr>pfields := bump_map new_field (t, f) g (pfields (profile_of s))\<rparr>)"
proof (cases "g_prof_depth s = 0")
  case True
  then show ?thesis using w by (simp add: on_field_def)
next
  case False
  have ok: "flds.entries_ok (g_prof_fields s)" and sub: "ran (flds.keys (g_prof_fields s)) \<subseteq> K"
    using w by (auto simp: within_names_def prof_ok_def)
  then obtain i where i: "flds.find (flds.keys (g_prof_fields s)) (t, f) = Some i"
    using flds.room_left [OF _ sub K(1,3,2)] by (auto simp: flds.entries_ok_def)
  note B = flds.bump_ok [OF ok g i]
  have "on_field t f g s = s\<lparr>g_prof_fields := flds.claimed (t, f) g i (g_prof_fields s)\<rparr>"
    using on_field_claims [OF _ ok i] False by simp
  then show ?thesis using B w K(3) False by (auto simp: within_names_def prof_ok_def profile_of_def)
qed

lemma type_event:
  assumes w: "within_names K N s" and N: "finite N" "card N \<le> RT_PROF_SLOTS" "t \<in> N" and g: "typs.keeps g"
  shows "within_names K N (on_type t g s) \<and> profile_of (on_type t g s)
    = (if g_prof_depth s = 0 then profile_of s else (profile_of s)\<lparr>ptypes := bump_map new_type t g (ptypes (profile_of s))\<rparr>)"
proof (cases "g_prof_depth s = 0")
  case True
  then show ?thesis using w by (simp add: on_type_def)
next
  case False
  have ok: "typs.entries_ok (g_prof_types s)" and sub: "ran (typs.keys (g_prof_types s)) \<subseteq> N"
    using w by (auto simp: within_names_def prof_ok_def)
  then obtain i where i: "typs.find (typs.keys (g_prof_types s)) t = Some i"
    using typs.room_left [OF _ sub N(1,3,2)] by (auto simp: typs.entries_ok_def)
  note B = typs.bump_ok [OF ok g i]
  have "on_type t g s = s\<lparr>g_prof_types := typs.claimed t g i (g_prof_types s)\<rparr>"
    using on_type_claims [OF _ ok i] False by simp
  then show ?thesis using B w N(3) False by (auto simp: within_names_def prof_ok_def profile_of_def)
qed

lemma prof_step_refines:
  assumes w: "within_names K N s" and "finite K" "card K \<le> RT_PROF_SLOTS" "finite N" "card N \<le> RT_PROF_SLOTS"
    and "field_named e \<subseteq> K" "type_named e \<subseteq> N"
  shows "within_names K N (prof_step e s) \<and> profile_of (prof_step e s) = spec_step e (profile_of s)"
proof (cases e)
  case (Access t f wr)
  then show ?thesis using field_event [OF w, of t f "count_access wr"] assms by (simp add: rt_profile_field_def profile_of_def)
next
  case (Value t f v)
  then show ?thesis using field_event [OF w, of t f "count_range v"] assms by (simp add: rt_profile_range_def profile_of_def)
next
  case (Alloc t)
  then show ?thesis using type_event [OF w, of t count_alloc] assms by (simp add: rt_profile_alloc_def profile_of_def)
next
  case (Release t)
  then show ?thesis using type_event [OF w, of t count_release] assms by (simp add: rt_profile_release_def profile_of_def)
qed (use w in \<open>simp_all add: rt_profile_begin_def rt_profile_end_def profile_of_def within_names_def prof_ok_def\<close>)

lemma prof_run_refines:
  assumes w: "within_names K N s" and "finite K" "card K \<le> RT_PROF_SLOTS" "finite N" "card N \<le> RT_PROF_SLOTS"
    and "\<And>e. e \<in> set es \<Longrightarrow> field_named e \<subseteq> K \<and> type_named e \<subseteq> N"
  shows "within_names K N (fold prof_step es s) \<and> profile_of (fold prof_step es s) = fold spec_step es (profile_of s)"
  using assms(1,6)
proof (induction es arbitrary: s)
  case (Cons e es)
  then show ?case using prof_step_refines [OF Cons.prems(1) assms(2-5), of e] by simp
qed simp

lemma prof_init_within: "within_names K N prof_init"
  by (simp add: within_names_def prof_ok_def prof_init_def flds.empty_ok typs.empty_ok)

lemma names_finite: "finite (\<Union>e\<in>set es. field_named e)" "finite (\<Union>e\<in>set es. type_named e)"
proof -
  have "finite (field_named e)" "finite (type_named e)" for e by (cases e; simp)+
  then show "finite (\<Union>e\<in>set es. field_named e)" "finite (\<Union>e\<in>set es. type_named e)" by simp_all
qed

lemma workload_refines:
  "small es \<Longrightarrow> prof_ok (fold prof_step es prof_init) \<and> profile_of (fold prof_step es prof_init) = fold spec_step es (profile_of prof_init)"
  using prof_run_refines [OF prof_init_within names_finite(1) _ names_finite(2), of es es es]
  by (auto simp: small_def within_names_def)

lemma dump_by_profile:
  assumes ok: "prof_ok s" "prof_ok s'" and eq: "pfields (profile_of s) = pfields (profile_of s')" "ptypes (profile_of s) = ptypes (profile_of s')"
  shows "rt_profile_dump w r s = rt_profile_dump w r s'"
proof -
  have one: "sort_key f xs = sort_key f ys" if "set xs = set ys" "distinct (map f xs)" "distinct (map f ys)" for f :: "'e \<Rightarrow> 'k :: linorder" and xs ys
  proof -
    have "mset xs = mset ys" using that by (simp add: distinct_map set_eq_iff_mset_eq_distinct)
    then show ?thesis using that by (intro sort_key_inj_key_eq) (auto simp: distinct_map)
  qed
  have "sort_key rt_prof_field_cmp (used_fields s) = sort_key rt_prof_field_cmp (used_fields s')"
    unfolding used_fields_def
    by (rule one) (use flds.used_entries ok eq(1) in \<open>simp_all add: prof_ok_def profile_of_def\<close>)
  moreover have "sort_key rt_prof_type_cmp (used_types s) = sort_key rt_prof_type_cmp (used_types s')"
    unfolding used_types_def
    by (rule one) (use typs.used_entries ok eq(2) in \<open>simp_all add: prof_ok_def profile_of_def\<close>)
  ultimately show ?thesis by (simp add: rt_profile_dump_def)
qed

lemma stub_warns_once: "\<lbrakk>rt_workload_stub nm w = (a, b, w'); length w < RT_STUB_WARNED_MAX\<rbrakk> \<Longrightarrow> rt_workload_stub nm w' = (0, False, w')"
  by (auto simp: rt_workload_stub_def split: if_splits)

text \<open>C15.  The hash tables lose and mix nothing: after any workload that names at most 8192 fields and at
  most 8192 types, what the tables say of every field and type is what counting the events says,
  accesses outside a measured region left out.\<close>

theorem profile_counts_events:
  assumes "small es"
  shows "profile_of (fold prof_step es prof_init)
    = fold spec_step es \<lparr>pfields = Map.empty, ptypes = Map.empty, pdepth = 0\<rparr>"
proof -
  have "profile_of prof_init = \<lparr>pfields = Map.empty, ptypes = Map.empty, pdepth = 0\<rparr>"
    by (auto simp: profile_of_def prof_init_def flds.empty_ok typs.empty_ok fun_eq_iff)
  then show ?thesis using workload_refines [OF assms] by simp
qed

theorem profile_counts_events_witness:
  "map_option reads (pfields (profile_of (fold prof_step
     [Access ''P'' ''x'' False, Begin, Access ''P'' ''x'' False, Access ''P'' ''y'' True, Access ''P'' ''x'' False, End] prof_init))
     (''P'', ''x'')) = Some 2"
proof -
  let ?es = "[Access ''P'' ''x'' False, Begin, Access ''P'' ''x'' False, Access ''P'' ''y'' True, Access ''P'' ''x'' False, End]"
  have "small ?es" by (simp add: small_def RT_PROF_SLOTS_def card_insert_if)
  from profile_counts_events [OF this] show ?thesis
    by (simp add: bump_map_def count_access_def new_field_def no_field_def)
qed

text \<open> The profile file is reproducible: two workloads that count the same, in whatever order, write the
  same text.\<close>

theorem profile_dump_reproducible:
  assumes "small es" "small es'"
    and "fold spec_step es (profile_of prof_init) = fold spec_step es' (profile_of prof_init)"
  shows "rt_profile_dump w r (fold prof_step es prof_init) = rt_profile_dump w r (fold prof_step es' prof_init)"
  by (rule dump_by_profile) (use workload_refines assms in simp_all)

theorem profile_dump_reproducible_witness:
  "rt_profile_dump None 1 (fold prof_step [Begin, Access ''A'' ''x'' True, Access ''B'' ''y'' False] prof_init)
     = rt_profile_dump None 1 (fold prof_step [Begin, Access ''B'' ''y'' False, Access ''A'' ''x'' True] prof_init)"
  by (rule profile_dump_reproducible)
    (simp_all add: small_def RT_PROF_SLOTS_def card_insert_if bump_map_def profile_of_def prof_init_def flds.empty_ok typs.empty_ok
      fun_upd_twist)

end
