(* ===== verification/RefCount.thy ===== *)
theory RefCount
  imports Strings
begin

text \<open>
  Reference-counted objects of \<open>runtime/lang_runtime.c\<close> (\<open>rc_alloc\<close> to \<open>rc_release\<close>).  An object is a
  block of the seam with a sixteen-byte header in front of what the program sees: the count in the
  word before the payload, and in the word before that the offset of the payload's link to a cold
  block, 0 for an object that is not split.  The atomic entry points do the same to the same words;
  each is one step.
\<close>

subsection \<open>Definitions\<close>

definition RC_HDR :: nat where "RC_HDR = 16"

definition rc_slot :: "addr \<Rightarrow> addr" where "rc_slot p = p - 8"

definition rc_cold_slot :: "addr \<Rightarrow> addr" where "rc_cold_slot p = p - 16"

definition rc_alloc :: "'a seam \<Rightarrow> nat \<Rightarrow> ('a, 'b) rt_scheme \<Rightarrow> addr \<times> ('a, 'b) rt_scheme" where
  "rc_alloc S n s =
     (let (b, s) = rt_base_alloc S (u64 (int n + int RC_HDR)) s in
      if b = 0 then (0, s)
      else let payload = b + RC_HDR
           in (payload, upd_mem (\<lambda>m. store64 (store64 m (rc_slot payload) 0) (rc_cold_slot payload) 0) s))"

definition rc_attach_cold :: "'a seam \<Rightarrow> addr \<Rightarrow> nat \<Rightarrow> nat \<Rightarrow> ('a, 'b) rt_scheme \<Rightarrow> ('a, 'b) rt_scheme" where
  "rc_attach_cold S p cold_size link_offset s =
     (if p = 0 \<or> link_offset = 0 then s
      else let (cold, s) = rt_base_alloc S cold_size s
           in upd_mem (\<lambda>m. store64 (store64 m (p + link_offset) cold) (rc_cold_slot p) link_offset) s)"

definition rc_retain :: "addr \<Rightarrow> ('a, 'b) rt_scheme \<Rightarrow> ('a, 'b) rt_scheme" where
  "rc_retain p s = (if p = 0 then s else upd_mem (\<lambda>m. store64 m (rc_slot p) (load64 m (rc_slot p) + 1)) s)"

definition rc_retain_atomic :: "addr \<Rightarrow> ('a, 'b) rt_scheme \<Rightarrow> ('a, 'b) rt_scheme" where
  "rc_retain_atomic p s = (if p = 0 then s else upd_mem (\<lambda>m. store64 m (rc_slot p) (load64 m (rc_slot p) + 1)) s)"

text \<open>The cold block goes first: its address lies inside the payload.\<close>

definition rc_free :: "'a seam \<Rightarrow> addr \<Rightarrow> ('a, 'b) rt_scheme \<Rightarrow> ('a, 'b) rt_scheme" where
  "rc_free S p s =
     (let off = load64 (rmem s) (rc_cold_slot p);
          s = (if off \<noteq> 0 then rt_free S (load64 (rmem s) (p + off)) s else s)
      in rt_free S (p - RC_HDR) s)"

definition rc_release :: "'a seam \<Rightarrow> addr \<Rightarrow> ('a, 'b) rt_scheme \<Rightarrow> ('a, 'b) rt_scheme" where
  "rc_release S p s =
     (if p = 0 then s
      else let c = load64 (rmem s) (rc_slot p) in
           if c = 0 then s
           else let s = upd_mem (\<lambda>m. store64 m (rc_slot p) (c - 1)) s
                in if c - 1 = 0 then rc_free S p s else s)"

definition rc_release_atomic :: "'a seam \<Rightarrow> addr \<Rightarrow> ('a, 'b) rt_scheme \<Rightarrow> ('a, 'b) rt_scheme" where
  "rc_release_atomic S p s =
     (if p = 0 then s
      else let c = load64 (rmem s) (rc_slot p) in
           if c = 0 then s
           else let s = upd_mem (\<lambda>m. store64 m (rc_slot p) (c - 1)) s
                in if c - 1 = 0 then rc_free S p s else s)"


subsection \<open>A counted object\<close>

text \<open>\<open>rc_obj B m p n c q\<close>: the program holds at \<open>p\<close> a counted object of \<open>n\<close> bytes with count \<open>c\<close>; \<open>q\<close> is
  its cold block, if it has one.\<close>

definition rc_obj :: "owned \<Rightarrow> mem \<Rightarrow> addr \<Rightarrow> nat \<Rightarrow> nat \<Rightarrow> addr option \<Rightarrow> bool" where
  "rc_obj B m p n c q \<longleftrightarrow> RC_HDR \<le> p \<and> B (p - RC_HDR) = Some (Seam, n + RC_HDR) \<and> load64 m (rc_slot p) = c
     \<and> (case q of
          None \<Rightarrow> load64 m (rc_cold_slot p) = 0
        | Some x \<Rightarrow> \<exists>off k. load64 m (rc_cold_slot p) = off \<and> 0 < off \<and> off + 8 \<le> n \<and> load64 m (p + off) = x
            \<and> B x = Some (Seam, k) \<and> x \<noteq> p - RC_HDR)"

definition rc_drop :: "owned \<Rightarrow> addr \<Rightarrow> addr option \<Rightarrow> owned" where
  "rc_drop B p q = (case q of None \<Rightarrow> B | Some x \<Rightarrow> B(x := None))(p - RC_HDR := None)"

lemma rc_objD:
  assumes "rc_obj B m p n c q"
  shows "16 \<le> p" "B (p - 16) = Some (Seam, n + 16)" "load64 m (p - 8) = c" "q = None \<Longrightarrow> load64 m (p - 16) = 0"
  using assms by (auto simp: rc_obj_def RC_HDR_def rc_slot_def rc_cold_slot_def)

lemma upd_store64: "upd_mem (\<lambda>m. store64 m a v) s = rt_poke a (le_bytes 8 v) s"
  by (simp add: upd_mem_def rt_poke_def store64_def)

lemma rmem_poke: "rmem (rt_poke a bs s) = poke (rmem s) a bs" "rt.more (rt_poke a bs s) = rt.more s"
  by (simp_all add: rt_poke_def)

lemma store64_kept:
  assumes wf: "owned_wf B" and p: "B b = Some (v, k)" "b \<le> a" "a + 8 \<le> b + k"
  shows "rt_kept (B(b := None)) s (rt_poke a (le_bytes 8 x) s)"
  unfolding rt_kept_def kept_def
proof (intro allI impI)
  fix c w j assume c: "(B(b := None)) c = Some (w, j)"
  then have "apart c j b k" using wf p(1) unfolding owned_wf_def by (auto split: if_splits)
  then have "apart c j a (length (le_bytes 8 x))" using p(2,3) by (auto elim: apart_sub)
  then show "peek (mem (hp (rt_poke a (le_bytes 8 x) s))) c j = peek (mem (hp s)) c j"
    by (simp add: rt_poke_def peek_poke_apart)
qed

context rt_spec
begin

lemma recount_ok:
  assumes inv: "rinv B s" and o: "rc_obj B (rmem s) p n c q" and d: "d < 2 ^ 64"
  defines "s' \<equiv> upd_mem (\<lambda>m. store64 m (rc_slot p) d) s"
  shows "rinv B s'" "rc_obj B (rmem s') p n d q" "rt_kept (B(p - RC_HDR := None)) s s'" "rt.more s' = rt.more s"
    "peek (rmem s') p n = peek (rmem s) p n"
proof -
  note D = rc_objD [OF o]
  have a: "p - 16 \<le> p - 8" "p - 8 + 8 \<le> p - 16 + (n + 16)" "p - 8 + 8 = p" "p - 16 + 8 = p - 8" using D(1) by linarith+
  have s': "s' = rt_poke (p - 8) (le_bytes 8 d) s" by (simp add: s'_def upd_store64 rc_slot_def)
  show "rinv B s'" unfolding s' by (rule rt_write_law [OF inv D(2)]) (use a in simp_all)
  show "rt_kept (B(p - RC_HDR := None)) s s'"
    unfolding s' RC_HDR_def by (rule store64_kept [OF rinv_wf [OF inv] D(2)]) (use a in simp_all)
  show "rt.more s' = rt.more s" by (simp add: s' rmem_poke)
  have m: "load64 (rmem s') (p - 8) = d" "load64 (rmem s') (p - 16) = load64 (rmem s) (p - 16)"
    "load64 (rmem s') (p + i) = load64 (rmem s) (p + i)" for i
    using a d unfolding s' rmem_poke
    by (simp_all add: store64_def [symmetric] load64_store64) (intro load64_store64_apart; simp add: apart_def)+
  then show "rc_obj B (rmem s') p n d q" using o by (auto simp: rc_obj_def rc_slot_def rc_cold_slot_def split: option.splits)
  show "peek (rmem s') p n = peek (rmem s) p n"
    unfolding s' rmem_poke by (rule peek_poke_apart) (use a in \<open>simp add: apart_def\<close>)
qed

lemma rc_free_ok:
  assumes inv: "rinv B s" and o: "rc_obj B (rmem s) p n c q"
  shows "rinv (rc_drop B p q) (rc_free S p s) \<and> rt_kept (rc_drop B p q) s (rc_free S p s)"
proof (cases q)
  case None
  note D = rc_objD [OF o]
  have "rc_free S p s = rt_free S (p - 16) s"
    using D(4) [OF None] by (simp add: rc_free_def rc_cold_slot_def RC_HDR_def Let_def)
  then show ?thesis using rt_free_law [OF inv D(2)] None by (simp add: rc_drop_def RC_HDR_def)
next
  case (Some x)
  note D = rc_objD [OF o]
  obtain off k where x: "load64 (rmem s) (p - 16) = off" "0 < off" "load64 (rmem s) (p + off) = x" "B x = Some (Seam, k)" "x \<noteq> p - 16"
    using o Some by (auto simp: rc_obj_def rc_cold_slot_def RC_HDR_def)
  let ?s = "rt_free S x s" and ?B = "B(x := None)"
  have f: "rinv ?B ?s" "rt_kept ?B s ?s" using rt_free_law [OF inv x(4)] by auto
  have "?B (p - 16) = Some (Seam, n + 16)" using D(2) x(5) by simp
  from rt_free_law [OF f(1) this]
  have "rinv (?B(p - 16 := None)) (rt_free S (p - 16) ?s)" "rt_kept (?B(p - 16 := None)) ?s (rt_free S (p - 16) ?s)"
    by (simp_all del: fun_upd_apply)
  moreover have "rt_kept (?B(p - 16 := None)) s ?s" using f(2) by (simp add: rt_kept_def kept_def)
  moreover have "rc_free S p s = rt_free S (p - 16) ?s"
    using x by (simp add: rc_free_def rc_cold_slot_def RC_HDR_def Let_def)
  ultimately show ?thesis using Some by (auto simp: rc_drop_def RC_HDR_def rt_kept_def intro: kept_trans simp del: fun_upd_apply)
qed

lemma rc_retain_ok:
  assumes inv: "rinv B s" and o: "rc_obj B (rmem s) p n c q" and c: "c + 1 < 2 ^ 64"
  shows "rinv B (rc_retain p s)" "rc_obj B (rmem (rc_retain p s)) p n (c + 1) q"
    "rt_kept (B(p - RC_HDR := None)) s (rc_retain p s)" "peek (rmem (rc_retain p s)) p n = peek (rmem s) p n"
    "rt.more (rc_retain p s) = rt.more s"
proof -
  have "rc_retain p s = upd_mem (\<lambda>m. store64 m (rc_slot p) (c + 1)) s"
    using rc_objD(1,3) [OF o] by (auto simp: rc_retain_def upd_mem_def rc_slot_def)
  then show "rinv B (rc_retain p s)" "rc_obj B (rmem (rc_retain p s)) p n (c + 1) q"
    "rt_kept (B(p - RC_HDR := None)) s (rc_retain p s)" "peek (rmem (rc_retain p s)) p n = peek (rmem s) p n"
    "rt.more (rc_retain p s) = rt.more s"
    using recount_ok [OF inv o, of "c + 1"] c by simp_all
qed

lemma rc_release_ok:
  assumes inv: "rinv B s" and o: "rc_obj B (rmem s) p n (Suc c) q"
  defines "s' \<equiv> rc_release S p s"
  shows "if c = 0 then rinv (rc_drop B p q) s' \<and> rt_kept (rc_drop B p q) s s'
    else rinv B s' \<and> rc_obj B (rmem s') p n c q \<and> rt_kept (B(p - RC_HDR := None)) s s' \<and> peek (rmem s') p n = peek (rmem s) p n"
proof -
  note D = rc_objD [OF o]
  have c: "Suc c < 2 ^ 64" using D(3) load64_bound [of "rmem s" "p - 8"] by simp
  let ?s = "upd_mem (\<lambda>m. store64 m (rc_slot p) c) s"
  have c': "c < 2 ^ 64" using c by simp
  note R = recount_ok [OF inv o c']
  have s': "s' = (if c = 0 then rc_free S p ?s else ?s)"
    using D(1,3) by (simp add: s'_def rc_release_def rc_slot_def Let_def)
  show ?thesis
  proof (cases "c = 0")
    case True
    note F = rc_free_ok [OF R(1,2)]
    have "rt_kept (rc_drop B p q) s ?s" using R(3) by (auto simp: rt_kept_def kept_def rc_drop_def split: option.splits if_splits)
    then show ?thesis using True F s' by (auto simp: rt_kept_def intro: kept_trans)
  next
    case False
    then show ?thesis using R s' by simp
  qed
qed

lemma rc_alloc_ok:
  assumes inv: "rinv B s" and n: "n + 16 < 2 ^ 64" and al: "rc_alloc S n s = (p, s')" and p: "p \<noteq> 0"
  shows "fresh_block B (p - 16) (n + 16) \<and> rinv (B(p - 16 \<mapsto> (Seam, n + 16))) s' \<and> rt_kept B s s'
    \<and> rc_obj (B(p - 16 \<mapsto> (Seam, n + 16))) (rmem s') p n 0 None"
proof -
  have u: "u64 (int n + int RC_HDR) = n + 16" using n by (simp add: u64_def RC_HDR_def nat_add_distrib)
  obtain b s1 where b: "rt_base_alloc S (n + 16) s = (b, s1)" by fastforce
  let ?bs = "le_bytes 8 0 @ le_bytes 8 0"
  have ne: "b \<noteq> 0" and p': "p = b + 16"
    using al p b u by (auto simp: rc_alloc_def RC_HDR_def Let_def split: if_splits)
  have s': "s' = rt_poke b ?bs s1"
  proof -
    have "store64 (store64 m (b + 8) 0) b 0 = poke m b ?bs" for m
      unfolding store64_def poke_append length_le_bytes by (rule poke_commute) (simp add: apart_def)
    then show ?thesis
      using al p b u ne by (auto simp: rc_alloc_def RC_HDR_def rc_slot_def rc_cold_slot_def Let_def upd_mem_def rt_poke_def ac_simps)
  qed
  have L: "rt_kept B s s1" "fresh_block B b (n + 16)" "rinv (B(b \<mapsto> (Seam, n + 16))) s1"
    using base_alloc_law [OF inv _ n b] ne by auto
  have i: "rinv (B(b \<mapsto> (Seam, n + 16))) s'" unfolding s' by (rule rt_write_law [OF L(3), of b Seam "n + 16"]) simp_all
  have "rt_kept B s s'"
    unfolding rt_kept_def kept_def
  proof (intro allI impI)
    fix a w k assume a: "B a = Some (w, k)"
    then have "apart a k b (n + 16)" using L(2) by (auto simp: fresh_block_def)
    then have "apart a k b (length ?bs)" by (auto elim: apart_sub)
    then show "peek (mem (hp s')) a k = peek (mem (hp s)) a k"
      using L(1) a by (simp add: s' rt_poke_def peek_poke_apart rt_kept_def kept_def)
  qed
  moreover have "load64 (rmem s') b = 0" "load64 (rmem s') (b + 8) = 0"
  proof -
    have z: "peek (rmem s') b 16 = ?bs" unfolding s' rmem_poke by (rule poke_same_len) simp
    have "peek (rmem s') b 8 = le_bytes 8 0" "peek (rmem s') (b + 8) 8 = le_bytes 8 0"
      using arg_cong [OF z, of "take 8"] arg_cong [OF z, of "drop 8"] by simp_all
    then show "load64 (rmem s') b = 0" "load64 (rmem s') (b + 8) = 0" by (simp_all add: load64_def le_nat_le_bytes)
  qed
  ultimately show ?thesis
    using L(2) i p' by (simp add: rc_obj_def rc_slot_def rc_cold_slot_def RC_HDR_def ac_simps)
qed

end

lemma rc_atomic: "rc_retain_atomic = rc_retain" "rc_release_atomic = rc_release"
  by (intro ext; simp add: rc_retain_atomic_def rc_retain_def rc_release_atomic_def rc_release_def)+

text \<open>C16. On every allocator that keeps its contract, giving up a reference to a counted object keeps the
  object, its payload and all else the program holds while other references remain; the last one
  gives back exactly the object's block and its cold block.  The atomic entry point does the same.\<close>

theorem rc_release_last_frees:
  assumes "rt_spec S rinv" and "rinv B s" and "rc_obj B (rmem s) p n (Suc c) q"
  shows "rc_release_atomic S p s = rc_release S p s
    \<and> (if c = 0 then rinv (rc_drop B p q) (rc_release S p s) \<and> rt_kept (rc_drop B p q) s (rc_release S p s)
       else rinv B (rc_release S p s) \<and> rc_obj B (rmem (rc_release S p s)) p n c q
         \<and> rt_kept (B(p - RC_HDR := None)) s (rc_release S p s)
         \<and> peek (rmem (rc_release S p s)) p n = peek (rmem s) p n)"
  using rt_spec.rc_release_ok [OF assms] by (simp add: rc_atomic)

text \<open>One counted object without payload, held once, beside another block.\<close>

definition counted :: "unit rt" where
  "counted = rt_poke 4096 (le_bytes 8 0 @ le_bytes 8 1) two_strings"

lemma counted_ok: "rt_inv plain_inv two_blocks counted" "rc_obj two_blocks (rmem counted) 4112 0 1 None"
proof -
  show "rt_inv plain_inv two_blocks counted"
    unfolding counted_def by (rule plain.rt.rt_write_law [OF two_strings_inv, of 4096 Seam 16]) simp_all
  have z: "peek (rmem counted) 4096 16 = le_bytes 8 0 @ le_bytes 8 1"
    unfolding counted_def rmem_poke by (rule poke_same_len) simp
  have "peek (rmem counted) 4096 8 = le_bytes 8 0" "peek (rmem counted) 4104 8 = le_bytes 8 1"
    using arg_cong [OF z, of "take 8"] arg_cong [OF z, of "drop 8"] by simp_all
  then show "rc_obj two_blocks (rmem counted) 4112 0 1 None"
    by (simp add: rc_obj_def rc_slot_def rc_cold_slot_def RC_HDR_def load64_def le_nat_le_bytes)
qed

theorem rc_release_last_frees_witness:
  "rt_inv plain_inv [8192 \<mapsto> (Seam, 16)] (rc_release plain_seam 4112 counted)"
proof -
  have "rc_drop two_blocks 4112 None = [8192 \<mapsto> (Seam, 16)]" by (auto simp: rc_drop_def RC_HDR_def fun_eq_iff)
  then show ?thesis
    using rc_release_last_frees [OF plain.rt.rt_spec_axioms counted_ok(1), of 4112 0 0 None] counted_ok(2)
    by (simp del: fun_upd_apply)
qed

end
