(* ===== verification/Lists.thy ===== *)
theory Lists
  imports RefCount Cycles
begin

unbundle bit_operations_syntax

text \<open>
  The lists of \<open>runtime/lang_runtime.c\<close> (\<open>RtList\<close>; \<open>list_new_cap\<close> to \<open>list_len\<close>): growable arrays whose
  elements are boxed (eight-byte pointers) or stored inline, with the rule by which the list disposes
  of an element it owns.

  A list's header is a record found by the handle; the element block is bytes in memory, so that
  growth, moves, aliasing with the list's own block and a width that a call site gets wrong mean what
  they mean in C.  \<open>grave\<close> has the parked elements; \<open>grave_at\<close> is where the C library put that array.
  The release function of an element type is generated code: \<open>R\<close>, from its address and the object.
  A release follows lists of lists and the cycle collector; \<open>n\<close> bounds that recursion.
\<close>

subsection \<open>Data\<close>

definition AIF_ELEM_NONE :: nat where "AIF_ELEM_NONE = 0"
definition AIF_ELEM_OBJECT :: nat where "AIF_ELEM_OBJECT = 1"
definition AIF_ELEM_LIST :: nat where "AIF_ELEM_LIST = 2"
definition AIF_ELEM_RC :: nat where "AIF_ELEM_RC = 3"
definition AIF_ELEM_TYPED :: nat where "AIF_ELEM_TYPED = 4"
definition AIF_ELEM_CYCLE :: nat where "AIF_ELEM_CYCLE = 5"
definition AIF_ELEM_RC_ATOMIC :: nat where "AIF_ELEM_RC_ATOMIC = 6"
definition AIF_ELEM_CYCLE_ATOMIC :: nat where "AIF_ELEM_CYCLE_ATOMIC = 7"
definition AIF_ELEM_STRING :: nat where "AIF_ELEM_STRING = 8"

lemmas elem_modes = AIF_ELEM_NONE_def AIF_ELEM_OBJECT_def AIF_ELEM_LIST_def AIF_ELEM_RC_def AIF_ELEM_TYPED_def
  AIF_ELEM_CYCLE_def AIF_ELEM_RC_ATOMIC_def AIF_ELEM_CYCLE_ATOMIC_def AIF_ELEM_STRING_def

record RtList =
  data :: addr
  len :: int
  lcap :: int
  elem_own :: nat
  elem_release :: addr
  larena :: int
  elem_size :: int
  grave_at :: addr
  grave :: "addr list"
  grave_cap :: int
  fused :: bool

record 'a lrt = "'a rt" +
  lhdr :: "addr \<Rightarrow> RtList"
  cycs :: cyc

type_synonym ('a, 'b) lres = "rt_error + ('a, 'b) lrt_scheme"
type_synonym ('a, 'b) lnew = "rt_error + addr \<times> ('a, 'b) lrt_scheme"
type_synonym ('a, 'b) releaser = "addr \<Rightarrow> addr \<Rightarrow> ('a, 'b) lrt_scheme \<Rightarrow> ('a, 'b) lres"

definition sizeof_RtList :: nat where "sizeof_RtList = 64"
definition RT_LIST_FUSED_HDR :: nat where "RT_LIST_FUSED_HDR = (sizeof_RtList + 15) div 16 * 16"
definition RT_LIST_FUSED_MAX :: nat where "RT_LIST_FUSED_MAX = 256"

definition upd_hdr :: "addr \<Rightarrow> (RtList \<Rightarrow> RtList) \<Rightarrow> ('a, 'b) lrt_scheme \<Rightarrow> ('a, 'b) lrt_scheme" where
  "upd_hdr lp f s = s\<lparr>lhdr := (lhdr s)(lp := f (lhdr s lp))\<rparr>"

text \<open>A slot's address, and the reads and writes of the pointers in a boxed list.\<close>

definition slot_at :: "RtList \<Rightarrow> int \<Rightarrow> nat \<Rightarrow> addr" where
  "slot_at l i width = data l + nat i * width"

definition ptr_get :: "addr \<Rightarrow> int \<Rightarrow> ('a, 'b) lrt_scheme \<Rightarrow> addr" where
  "ptr_get lp i s = load64 (rmem s) (slot_at (lhdr s lp) i 8)"

definition ptr_set :: "addr \<Rightarrow> int \<Rightarrow> addr \<Rightarrow> ('a, 'b) lrt_scheme \<Rightarrow> ('a, 'b) lrt_scheme" where
  "ptr_set lp i v s = upd_mem (\<lambda>m. store64 m (slot_at (lhdr s lp) i 8) v) s"

subsection \<open>Construction\<close>

definition list_free_data :: "'a seam \<Rightarrow> addr \<Rightarrow> ('a, 'b) lrt_scheme \<Rightarrow> ('a, 'b) lrt_scheme" where
  "list_free_data S lp s =
     (let l = lhdr s lp in if data l \<noteq> 0 \<and> larena l = 0 \<and> \<not> fused l then rt_free S (data l) s else s)"

definition list_new_cap :: "'a seam \<Rightarrow> int \<Rightarrow> int \<Rightarrow> ('a, 'b) lrt_scheme \<Rightarrow> ('a, 'b) lnew" where
  "list_new_cap S c es s =
     (let stride = (if es > 0 then nat es else 8); first = (if c > 0 then nat c * stride else 0);
          l = \<lparr>data = 0, len = 0, lcap = c, elem_own = AIF_ELEM_NONE, elem_release = 0, larena = 0, elem_size = es,
               grave_at = 0, grave = [], grave_cap = 0, fused = False\<rparr>
      in if first > 0 \<and> first \<le> RT_LIST_FUSED_MAX \<and> rt_arena_slot s = 0 \<and> rt_arena_hint_state s \<le> 0
         then let (f, s) = rt_base_alloc S (RT_LIST_FUSED_HDR + first) s in
              if f = 0 then Inl Null_store
              else Inr (f, upd_hdr f (\<lambda>_. l\<lparr>fused := True, data := f + RT_LIST_FUSED_HDR\<rparr>) s)
         else let (p, s) = rt_alloc S sizeof_RtList s in
              if p = 0 then Inl Null_store
              else let a = int (rt_arena_slot s); (d, s) = (if first > 0 then rt_alloc S first s else (0, s))
                   in Inr (p, upd_hdr p (\<lambda>_. l\<lparr>larena := a, data := d\<rparr>) s))"

definition list_new :: "'a seam \<Rightarrow> ('a, 'b) lrt_scheme \<Rightarrow> ('a, 'b) lnew" where
  "list_new S s = list_new_cap S 0 0 s"

definition list_new_inline :: "'a seam \<Rightarrow> int \<Rightarrow> ('a, 'b) lrt_scheme \<Rightarrow> ('a, 'b) lnew" where
  "list_new_inline S es s = list_new_cap S 0 es s"

definition list_new_with_capacity :: "'a seam \<Rightarrow> int \<Rightarrow> ('a, 'b) lrt_scheme \<Rightarrow> ('a, 'b) lnew" where
  "list_new_with_capacity S n s = list_new_cap S (if n > 0 then n else 4) 0 s"

definition list_new_with_capacity_inline :: "'a seam \<Rightarrow> int \<Rightarrow> int \<Rightarrow> ('a, 'b) lrt_scheme \<Rightarrow> ('a, 'b) lnew" where
  "list_new_with_capacity_inline S n es s = list_new_cap S (if n > 0 then n else 4) es s"

text \<open>One typed loop per width.\<close>

fun fill_units :: "nat \<Rightarrow> nat \<Rightarrow> nat \<Rightarrow> addr \<Rightarrow> mem \<Rightarrow> mem" where
  "fill_units w 0 v a m = m"
| "fill_units w (Suc k) v a m = fill_units w k v (a + w) (poke m a (le_bytes w v))"

definition list_new_filled_inline :: "'a seam \<Rightarrow> int \<Rightarrow> nat \<Rightarrow> int \<Rightarrow> ('a, 'b) lrt_scheme \<Rightarrow> ('a, 'b) lnew" where
  "list_new_filled_inline S n bits es s =
     (if n < 0 then Inl (Exit ''Vec.filled count must not be negative'')
      else andthen (list_new_cap S (if n > 0 then n else 4) es s) (\<lambda>(lp, s).
        let d = data (lhdr s lp); cnt = nat n in
        if d = 0 \<and> cnt > 0 then Inl Null_store
        else let fill = (if bits = 0 \<or> es = 1 then (\<lambda>m. memset m d (int (bits mod 256)) (cnt * nat es))
                         else if es = 2 then fill_units 2 cnt bits d
                         else if es = 4 then fill_units 4 cnt bits d
                         else fill_units 8 cnt bits d)
             in Inr (lp, upd_hdr lp (\<lambda>l. l\<lparr>len := n\<rparr>) (upd_mem fill s))))"

definition list_set_elem_owner :: "addr \<Rightarrow> nat \<Rightarrow> ('a, 'b) lrt_scheme \<Rightarrow> ('a, 'b) lrt_scheme" where
  "list_set_elem_owner lp mode s = (if lp = 0 then s else upd_hdr lp (\<lambda>l. l\<lparr>elem_own := mode\<rparr>) s)"

definition list_set_elem_releaser :: "addr \<Rightarrow> addr \<Rightarrow> ('a, 'b) lrt_scheme \<Rightarrow> ('a, 'b) lrt_scheme" where
  "list_set_elem_releaser lp fn s = (if lp = 0 then s else upd_hdr lp (\<lambda>l. l\<lparr>elem_release := fn\<rparr>) s)"

text \<open>An element's bytes, by the widest unit that divides its size.\<close>

fun copy_units :: "nat \<Rightarrow> nat \<Rightarrow> addr \<Rightarrow> addr \<Rightarrow> mem \<Rightarrow> mem" where
  "copy_units w 0 d a m = m"
| "copy_units w (Suc k) d a m = copy_units w k (d + w) (a + w) (poke m d (peek m a w))"

definition list_copy_elem :: "addr \<Rightarrow> addr \<Rightarrow> nat \<Rightarrow> mem \<Rightarrow> mem" where
  "list_copy_elem d a n m =
     (if n = 1 then poke m d (peek m a 1)
      else if n = 2 then poke m d (peek m a 2)
      else if n mod 8 = 0 then copy_units 8 (n div 8) d a m
      else if n mod 4 = 0 then copy_units 4 (n div 4) d a m
      else memcpy m d a n)"

definition list_set_elem_inline :: "'a seam \<Rightarrow> addr \<Rightarrow> int \<Rightarrow> ('a, 'b) lrt_scheme \<Rightarrow> ('a, 'b) lrt_scheme" where
  "list_set_elem_inline S lp es s =
     (let l = lhdr s lp in
      if lp = 0 \<or> es \<le> 0 then s
      else if elem_size l \<noteq> 0 \<or> len l \<noteq> 0 then s
      else if elem_own l \<in> {AIF_ELEM_RC, AIF_ELEM_CYCLE, AIF_ELEM_RC_ATOMIC, AIF_ELEM_CYCLE_ATOMIC} then s
      else let s = upd_hdr lp (\<lambda>l. l\<lparr>elem_size := es\<rparr>) s in
           if data l = 0 then s
           else if lcap l > 0 \<and> es = 8 then s
           else let s = list_free_data S lp s; s = upd_hdr lp (\<lambda>l. l\<lparr>fused := False\<rparr>) s;
                    n = u64 (lcap l * es);
                    (d, s) = (if larena l \<noteq> 0 then arena_alloc_at S (larena l) n s else rt_alloc S n s)
                in upd_hdr lp (\<lambda>l. l\<lparr>data := d\<rparr>) s)"

subsection \<open>Growth\<close>

definition list_grows_by_realloc :: "addr \<Rightarrow> ('a, 'b) lrt_scheme \<Rightarrow> bool" where
  "list_grows_by_realloc lp s \<longleftrightarrow> larena (lhdr s lp) = 0 \<and> rt_arena_hint_state s \<le> 0"

definition next_cap :: "RtList \<Rightarrow> int" where
  "next_cap l = (if lcap l \<noteq> 0 then i32 (lcap l * 2) else 4)"

text \<open>A block of \<open>n\<close> bytes in the arena that owns the list, or from \<open>rt_alloc\<close>.\<close>

definition list_block :: "'a seam \<Rightarrow> addr \<Rightarrow> nat \<Rightarrow> ('a, 'b) lrt_scheme \<Rightarrow> addr \<times> ('a, 'b) lrt_scheme" where
  "list_block S lp n s =
     (if larena (lhdr s lp) \<noteq> 0 then arena_alloc_at S (larena (lhdr s lp)) n s else rt_alloc S n s)"

text \<open>The elements go to a block of their own: \<open>copy\<close> moves them, the old block is given up.\<close>

definition list_move ::
  "'a seam \<Rightarrow> addr \<Rightarrow> int \<Rightarrow> nat \<Rightarrow> (addr \<Rightarrow> addr \<Rightarrow> mem \<Rightarrow> mem) \<Rightarrow> ('a, 'b) lrt_scheme \<Rightarrow> ('a, 'b) lres" where
  "list_move S lp c n copy s =
     (let (nd, s) = list_block S lp n s; l = lhdr s lp in
      if nd = 0 \<and> len l > 0 then Inl Null_store
      else let s = (if data l \<noteq> 0 then upd_mem (copy nd (data l)) s else s);
               s = list_free_data S lp s
           in Inr (upd_hdr lp (\<lambda>l. l\<lparr>fused := False, data := nd, lcap := c\<rparr>) s))"

definition list_inline_grow :: "'a seam \<Rightarrow> addr \<Rightarrow> ('a, 'b) lrt_scheme \<Rightarrow> ('a, 'b) lres" where
  "list_inline_grow S lp s =
     (let l = lhdr s lp; nc = next_cap l; n = u64 (nc * elem_size l) in
      if list_grows_by_realloc lp s \<and> \<not> fused l
      then let (d, s) = rt_base_realloc S (data l) n s in Inr (upd_hdr lp (\<lambda>l. l\<lparr>data := d, lcap := nc\<rparr>) s)
      else list_move S lp nc n (\<lambda>nd d. list_copy_elem nd d (u64 (len l * elem_size l))) s)"

definition list_push_grow :: "'a seam \<Rightarrow> addr \<Rightarrow> ('a, 'b) lrt_scheme \<Rightarrow> ('a, 'b) lres" where
  "list_push_grow S lp s =
     (let l = lhdr s lp; nc = next_cap l; n = u64 (8 * nc) in
      if list_grows_by_realloc lp s \<and> \<not> fused l
      then let (d, s) = rt_base_realloc S (data l) n s in Inr (upd_hdr lp (\<lambda>l. l\<lparr>data := d, lcap := nc\<rparr>) s)
      else list_move S lp nc n (\<lambda>nd d. copy_units 8 (nat (len l)) nd d) s)"

definition list_stride :: "RtList \<Rightarrow> nat" where
  "list_stride l = (if elem_size l \<noteq> 0 then nat (elem_size l) else 8)"

definition list_capacity :: "addr \<Rightarrow> ('a, 'b) lrt_scheme \<Rightarrow> int" where
  "list_capacity lp s = lcap (lhdr s lp)"

definition list_len :: "addr \<Rightarrow> ('a, 'b) lrt_scheme \<Rightarrow> int" where
  "list_len lp s = len (lhdr s lp)"

definition list_reserve :: "'a seam \<Rightarrow> addr \<Rightarrow> int \<Rightarrow> ('a, 'b) lrt_scheme \<Rightarrow> ('a, 'b) lres" where
  "list_reserve S lp n s =
     (let l = lhdr s lp in
      if n \<le> lcap l then Inr s
      else list_move S lp n (nat n * list_stride l) (\<lambda>nd d m. memcpy m nd d (nat (len l) * list_stride l)) s)"

subsection \<open>Release\<close>

fun release_each :: "(addr \<Rightarrow> ('a, 'b) lrt_scheme \<Rightarrow> ('a, 'b) lres) \<Rightarrow> addr list \<Rightarrow> ('a, 'b) lrt_scheme \<Rightarrow> ('a, 'b) lres" where
  "release_each f [] s = Inr s"
| "release_each f (e # es) s = andthen (f e s) (release_each f es)"

definition cyc_do :: "cyc option \<Rightarrow> ('a, 'b) lrt_scheme \<Rightarrow> ('a, 'b) lres" where
  "cyc_do r s = (case r of None \<Rightarrow> Inl Fuel | Some c \<Rightarrow> Inr (s\<lparr>cycs := c\<rparr>))"

definition STR_WORD_INLINE :: "64 word" where "STR_WORD_INLINE = 0x80000000"
definition STR_WORD_VIEW :: "64 word" where "STR_WORD_VIEW = 0x100000000"
definition STR_WORD_BORROWED :: "64 word" where "STR_WORD_BORROWED = 0x400000000"
definition STR_WORD_LENGTH :: "64 word" where "STR_WORD_LENGTH = 0x7FFFFFFF"

definition STR_WORD_IS_VIEW :: "64 word \<Rightarrow> bool" where
  "STR_WORD_IS_VIEW w \<longleftrightarrow> w AND STR_WORD_INLINE = 0 \<and> w AND STR_WORD_VIEW \<noteq> 0"

text \<open>A \<open>StrPair\<close> is two words: the data pointer and the length word.\<close>

definition sizeof_StrPair :: int where "sizeof_StrPair = 16"

definition pair_data :: "RtList \<Rightarrow> int \<Rightarrow> mem \<Rightarrow> addr" where
  "pair_data l i m = load64 m (slot_at l i 16)"

definition pair_word :: "RtList \<Rightarrow> int \<Rightarrow> mem \<Rightarrow> 64 word" where
  "pair_word l i m = word_of_nat (load64 m (slot_at l i 16 + 8))"

definition pair_set :: "addr \<Rightarrow> int \<Rightarrow> addr \<Rightarrow> 64 word \<Rightarrow> ('a, 'b) lrt_scheme \<Rightarrow> ('a, 'b) lrt_scheme" where
  "pair_set lp i raw w s =
     upd_mem (\<lambda>m. store64 (store64 m (slot_at (lhdr s lp) i 16) raw) (slot_at (lhdr s lp) i 16 + 8) (unat w)) s"

text \<open>An owned long form: neither inline, nor a view, nor a literal.\<close>

definition pair_owned :: "64 word \<Rightarrow> bool" where
  "pair_owned w \<longleftrightarrow> w AND (STR_WORD_INLINE OR STR_WORD_VIEW OR STR_WORD_BORROWED) = 0"

definition forget_grave :: "addr \<Rightarrow> ('a, 'b) lrt_scheme \<Rightarrow> ('a, 'b) lrt_scheme" where
  "forget_grave lp s = upd_hdr lp (\<lambda>l. l\<lparr>grave_at := 0, grave := [], grave_cap := 0\<rparr>) (rt_tmp_free (grave_at (lhdr s lp)) s)"

text \<open>A loop over the indices below \<open>i + k\<close> from the last down to \<open>i\<close>.\<close>

fun each_down :: "(int \<Rightarrow> ('a, 'b) lrt_scheme \<Rightarrow> ('a, 'b) lres) \<Rightarrow> nat \<Rightarrow> int \<Rightarrow> ('a, 'b) lrt_scheme \<Rightarrow> ('a, 'b) lres" where
  "each_down f 0 i s = Inr s"
| "each_down f (Suc k) i s = andthen (f (i + int k) s) (each_down f k i)"

text \<open>The disposition of one element; \<open>rel\<close> releases an element that is a list itself.\<close>

definition release_as ::
  "(addr \<Rightarrow> ('a, 'b) lrt_scheme \<Rightarrow> ('a, 'b) lres) \<Rightarrow> 'a seam \<Rightarrow> ('a, 'b) releaser \<Rightarrow> nat \<Rightarrow> addr \<Rightarrow> addr \<Rightarrow> ('a, 'b) lrt_scheme \<Rightarrow> ('a, 'b) lres" where
  "release_as rel S R n lp e s =
     (let l = lhdr s lp in
      if elem_own l = AIF_ELEM_LIST then rel e s
      else if elem_own l = AIF_ELEM_RC then Inr (rc_release S e s)
      else if elem_own l = AIF_ELEM_CYCLE then cyc_do (cyc_release n e (cycs s)) s
      else if elem_own l = AIF_ELEM_RC_ATOMIC then Inr (rc_release_atomic S e s)
      else if elem_own l = AIF_ELEM_CYCLE_ATOMIC
           then let s = rc_release_atomic S e s in cyc_do (cyc_release n e (cycs s)) s
      else if elem_own l = AIF_ELEM_TYPED
           then (if elem_release l \<noteq> 0 then R (elem_release l) e s else Inr s)
      else Inr (rt_free S e s))"

text \<open>A pair's block, where the list owns it.\<close>

definition free_pair :: "'a seam \<Rightarrow> addr \<Rightarrow> int \<Rightarrow> ('a, 'b) lrt_scheme \<Rightarrow> ('a, 'b) lres" where
  "free_pair S lp i s =
     (let l = lhdr s lp; m = rmem s in if pair_owned (pair_word l i m) then Inr (rt_free S (pair_data l i m) s) else Inr s)"

text \<open>\<open>list_release_parked\<close>, the element block and the header, which end both branches of \<open>list_release\<close>.\<close>

definition list_teardown ::
  "(addr \<Rightarrow> ('a, 'b) lrt_scheme \<Rightarrow> ('a, 'b) lres) \<Rightarrow> 'a seam \<Rightarrow> addr \<Rightarrow> ('a, 'b) lrt_scheme \<Rightarrow> ('a, 'b) lres" where
  "list_teardown rel S lp s =
     andthen (release_each rel (rev (grave (lhdr s lp))) s) (\<lambda>s.
       Inr (rt_free S lp (list_free_data S lp (forget_grave lp s))))"

fun list_release :: "'a seam \<Rightarrow> ('a, 'b) releaser \<Rightarrow> nat \<Rightarrow> addr \<Rightarrow> ('a, 'b) lrt_scheme \<Rightarrow> ('a, 'b) lres" where
  "list_release S R 0 lp s = (if lp = 0 then Inr s else Inl Fuel)"
| "list_release S R (Suc n) lp s =
     (if lp = 0 then Inr s
      else let l = lhdr s lp; rel = release_as (list_release S R n) S R n lp in
           if larena l \<noteq> 0 then Inr s
           else if elem_size l \<noteq> 0
           then andthen (if elem_own l = AIF_ELEM_STRING \<and> elem_size l = sizeof_StrPair \<and> data l \<noteq> 0
                         then each_down (free_pair S lp) (nat (len l)) 0 s else Inr s) (list_teardown rel S lp)
           else andthen (if elem_own l \<noteq> AIF_ELEM_NONE
                         then each_down (\<lambda>i s. let e = ptr_get lp i s in if e \<noteq> 0 then rel e s else Inr s) (nat (len l)) 0 s
                         else Inr s) (list_teardown rel S lp))"

definition list_release_element :: "'a seam \<Rightarrow> ('a, 'b) releaser \<Rightarrow> nat \<Rightarrow> addr \<Rightarrow> addr \<Rightarrow> ('a, 'b) lrt_scheme \<Rightarrow> ('a, 'b) lres" where
  "list_release_element S R n lp e s = release_as (list_release S R n) S R n lp e s"

definition list_release_source :: "'a seam \<Rightarrow> ('a, 'b) releaser \<Rightarrow> nat \<Rightarrow> addr \<Rightarrow> addr \<Rightarrow> ('a, 'b) lrt_scheme \<Rightarrow> ('a, 'b) lres" where
  "list_release_source S R n lp e s =
     (let l = lhdr s lp in
      if e = 0 \<or> larena l \<noteq> 0 \<or> elem_own l = AIF_ELEM_NONE then Inr s
      else if elem_size l \<noteq> 0 \<and> e \<ge> data l \<and> e < data l + nat (lcap l) * nat (elem_size l) then Inr s
      else list_release_element S R n lp e s)"

definition list_release_parked :: "'a seam \<Rightarrow> ('a, 'b) releaser \<Rightarrow> nat \<Rightarrow> addr \<Rightarrow> ('a, 'b) lrt_scheme \<Rightarrow> ('a, 'b) lres" where
  "list_release_parked S R n lp s =
     andthen (release_each (list_release_element S R n lp) (rev (grave (lhdr s lp))) s) (\<lambda>s. Inr (forget_grave lp s))"

definition list_park :: "addr \<Rightarrow> addr \<Rightarrow> ('a, 'b) lrt_scheme \<Rightarrow> ('a, 'b) lres" where
  "list_park lp owned s =
     (let l = lhdr s lp in
      if int (length (grave l)) = grave_cap l
      then let nx = (if grave_cap l \<noteq> 0 then i32 (grave_cap l * 2) else 4);
               (g, s) = rt_tmp_realloc (grave_at l) (u64 (8 * nx)) s
           in if g = 0 then Inl (Exit ''out of memory removing an element'')
              else Inr (upd_hdr lp (\<lambda>l. l\<lparr>grave_at := g, grave_cap := nx, grave := grave l @ [owned]\<rparr>) s)
      else Inr (upd_hdr lp (\<lambda>l. l\<lparr>grave := grave l @ [owned]\<rparr>) s))"

definition list_discard_slot :: "'a seam \<Rightarrow> ('a, 'b) releaser \<Rightarrow> nat \<Rightarrow> addr \<Rightarrow> int \<Rightarrow> bool \<Rightarrow> ('a, 'b) lrt_scheme \<Rightarrow> ('a, 'b) lres" where
  "list_discard_slot S R n lp index now s =
     (let l = lhdr s lp in
      if larena l \<noteq> 0 \<or> elem_own l = AIF_ELEM_NONE then Inr s
      else if elem_size l \<noteq> 0 \<and> (elem_own l \<noteq> AIF_ELEM_STRING \<or> elem_size l \<noteq> sizeof_StrPair) then Inr s
      else if elem_size l \<noteq> 0 \<and> \<not> pair_owned (pair_word l index (rmem s)) then Inr s
      else let owned = (if elem_size l \<noteq> 0 then pair_data l index (rmem s) else ptr_get lp index s) in
           if owned = 0 then Inr s
           else if now then list_release_element S R n lp owned s
           else list_park lp owned s)"

subsection \<open>Access and update\<close>

definition list_index_fail :: rt_error where
  "list_index_fail = Exit ''index is out of range for a Vec''"

definition array_index_fail :: rt_error where
  "array_index_fail = Exit ''index is out of range for an array''"

text \<open>The single unsigned compare that every accessor makes.\<close>

definition in_range :: "int \<Rightarrow> RtList \<Rightarrow> bool" where
  "in_range index l \<longleftrightarrow> \<not> u32 index \<ge> u32 (len l)"

definition list_retain_element :: "addr \<Rightarrow> addr \<Rightarrow> ('a, 'b) lrt_scheme \<Rightarrow> ('a, 'b) lrt_scheme" where
  "list_retain_element lp v s =
     (let m = elem_own (lhdr s lp);
          s = (if m = AIF_ELEM_RC then rc_retain v s else s);
          s = (if m = AIF_ELEM_CYCLE then s\<lparr>cycs := cyc_retain v (cycs s)\<rparr> else s);
          s = (if m = AIF_ELEM_RC_ATOMIC then rc_retain_atomic v s else s)
      in if m = AIF_ELEM_CYCLE_ATOMIC
         then let s = rc_retain_atomic v s in s\<lparr>cycs := cyc_retain v (cycs s)\<rparr>
         else s)"

definition list_push :: "'a seam \<Rightarrow> addr \<Rightarrow> addr \<Rightarrow> ('a, 'b) lrt_scheme \<Rightarrow> ('a, 'b) lres" where
  "list_push S lp v s =
     (let s = list_retain_element lp v s; l = lhdr s lp in
      andthen (if len l \<ge> lcap l then list_push_grow S lp s else Inr s) (\<lambda>s.
        let l = lhdr s lp in
        if data l = 0 then Inl Null_store
        else Inr (upd_hdr lp (\<lambda>l. l\<lparr>len := i32 (len l + 1)\<rparr>) (ptr_set lp (len l) v s))))"

definition list_push_slot_boxed :: "'a seam \<Rightarrow> addr \<Rightarrow> int \<Rightarrow> ('a, 'b) lrt_scheme \<Rightarrow> ('a, 'b) lnew" where
  "list_push_slot_boxed S lp es s =
     (let (box, s) = rt_alloc S (if es > 0 then nat es else 1) s
      in andthen (list_push S lp box s) (\<lambda>s. Inr (box, s)))"

definition list_push_slot :: "'a seam \<Rightarrow> addr \<Rightarrow> int \<Rightarrow> ('a, 'b) lrt_scheme \<Rightarrow> ('a, 'b) lnew" where
  "list_push_slot S lp es s =
     (let l = lhdr s lp in
      if elem_size l = 0 then list_push_slot_boxed S lp es s
      else andthen (if len l \<ge> lcap l then list_inline_grow S lp s else Inr s) (\<lambda>s.
        let l = lhdr s lp
        in Inr (slot_at l (len l) (nat (elem_size l)), upd_hdr lp (\<lambda>l. l\<lparr>len := i32 (len l + 1)\<rparr>) s)))"

definition list_push_inline :: "'a seam \<Rightarrow> ('a, 'b) releaser \<Rightarrow> nat \<Rightarrow> addr \<Rightarrow> addr \<Rightarrow> int \<Rightarrow> ('a, 'b) lrt_scheme \<Rightarrow> ('a, 'b) lres" where
  "list_push_inline S R n lp v es s =
     (let l = lhdr s lp in
      if elem_size l = 0 then list_push S lp v s
      else andthen (if len l \<ge> lcap l then list_inline_grow S lp s else Inr s) (\<lambda>s.
        let l = lhdr s lp; w = nat (elem_size l) in
        if data l = 0 then Inl Null_store
        else list_release_source S R n lp v
          (upd_hdr lp (\<lambda>l. l\<lparr>len := i32 (len l + 1)\<rparr>) (upd_mem (list_copy_elem (slot_at l (len l) w) v w) s))))"

definition scalar_store :: "addr \<Rightarrow> nat \<Rightarrow> int \<Rightarrow> mem \<Rightarrow> mem" where
  "scalar_store d v w m =
     (if w = 1 then poke m d (le_bytes 1 v)
      else if w = 2 then poke m d (le_bytes 2 v)
      else if w = 4 then poke m d (le_bytes 4 v)
      else poke m d (le_bytes 8 v))"

definition scalar_load :: "addr \<Rightarrow> int \<Rightarrow> mem \<Rightarrow> nat" where
  "scalar_load a w m =
     (if w = 1 then le_nat (peek m a 1)
      else if w = 2 then le_nat (peek m a 2)
      else if w = 4 then le_nat (peek m a 4)
      else le_nat (peek m a 8))"

definition list_get :: "addr \<Rightarrow> int \<Rightarrow> ('a, 'b) lrt_scheme \<Rightarrow> rt_error + addr" where
  "list_get lp index s = (if \<not> in_range index (lhdr s lp) then Inl list_index_fail else Inr (ptr_get lp index s))"

definition list_get_inline :: "addr \<Rightarrow> int \<Rightarrow> ('a, 'b) lrt_scheme \<Rightarrow> rt_error + addr" where
  "list_get_inline lp index s =
     (let l = lhdr s lp in
      if \<not> in_range index l then Inl list_index_fail
      else if elem_size l = 0 then Inr (ptr_get lp index s)
      else Inr (slot_at l index (nat (elem_size l))))"

definition list_get_inline_scalar :: "addr \<Rightarrow> int \<Rightarrow> int \<Rightarrow> ('a, 'b) lrt_scheme \<Rightarrow> rt_error + nat" where
  "list_get_inline_scalar lp index es s =
     (let l = lhdr s lp in
      if \<not> in_range index l then Inl list_index_fail
      else if elem_size l \<noteq> es then Inr (ptr_get lp index s)
      else Inr (scalar_load (slot_at l index (nat es)) es (rmem s)))"

definition list_set_park_slow :: "'a seam \<Rightarrow> ('a, 'b) releaser \<Rightarrow> nat \<Rightarrow> addr \<Rightarrow> int \<Rightarrow> addr \<Rightarrow> ('a, 'b) lrt_scheme \<Rightarrow> ('a, 'b) lres" where
  "list_set_park_slow S R n lp index v s =
     andthen (list_discard_slot S R n lp index False s) (\<lambda>s. Inr (ptr_set lp index v s))"

text \<open>The modes under which the list owns its elements without counting them.\<close>

definition parks :: "nat \<Rightarrow> bool" where
  "parks m \<longleftrightarrow> m = AIF_ELEM_OBJECT \<or> m = AIF_ELEM_LIST \<or> m = AIF_ELEM_TYPED \<or> m = AIF_ELEM_STRING"

definition list_set :: "'a seam \<Rightarrow> ('a, 'b) releaser \<Rightarrow> nat \<Rightarrow> addr \<Rightarrow> int \<Rightarrow> addr \<Rightarrow> ('a, 'b) lrt_scheme \<Rightarrow> ('a, 'b) lres" where
  "list_set S R n lp index v s =
     (let l = lhdr s lp in
      if \<not> in_range index l then Inl list_index_fail
      else if elem_own l = AIF_ELEM_RC
           then let s = rc_retain v s; s = rc_release S (ptr_get lp index s) s in Inr (ptr_set lp index v s)
      else if elem_own l = AIF_ELEM_RC_ATOMIC \<or> elem_own l = AIF_ELEM_CYCLE_ATOMIC
           then let s = rc_retain_atomic v s; s = rc_release_atomic S (ptr_get lp index s) s in Inr (ptr_set lp index v s)
      else if parks (elem_own l) \<and> elem_size l = 0 \<and> larena l = 0 \<and> ptr_get lp index s \<noteq> 0 \<and> ptr_get lp index s \<noteq> v
           then list_set_park_slow S R n lp index v s
      else Inr (ptr_set lp index v s))"

definition list_set_now :: "'a seam \<Rightarrow> ('a, 'b) releaser \<Rightarrow> nat \<Rightarrow> addr \<Rightarrow> int \<Rightarrow> addr \<Rightarrow> ('a, 'b) lrt_scheme \<Rightarrow> ('a, 'b) lres" where
  "list_set_now S R n lp index v s =
     (let l = lhdr s lp in
      if \<not> in_range index l then Inl list_index_fail
      else if \<not> parks (elem_own l) \<or> elem_size l \<noteq> 0 \<or> larena l \<noteq> 0 then list_set S R n lp index v s
      else let old = ptr_get lp index s; s = ptr_set lp index v s in
           if old \<noteq> 0 \<and> old \<noteq> v then list_release_element S R n lp old s else Inr s)"

definition list_set_exclusive :: "'a seam \<Rightarrow> ('a, 'b) releaser \<Rightarrow> nat \<Rightarrow> addr \<Rightarrow> int \<Rightarrow> addr \<Rightarrow> ('a, 'b) lrt_scheme \<Rightarrow> ('a, 'b) lres" where
  "list_set_exclusive S R n lp index v s =
     (let l = lhdr s lp in
      if index < 0 \<or> index \<ge> len l then Inl (Exit ''list_set_exclusive index out of bounds'')
      else if elem_size l \<noteq> 0 then Inl (Exit ''list_set_exclusive requires boxed elements'')
      else let old = ptr_get lp index s in list_release_source S R n lp old (ptr_set lp index v s))"

definition list_set_unstamped :: "'a seam \<Rightarrow> ('a, 'b) releaser \<Rightarrow> nat \<Rightarrow> addr \<Rightarrow> int \<Rightarrow> nat \<Rightarrow> ('a, 'b) lrt_scheme \<Rightarrow> ('a, 'b) lres" where
  "list_set_unstamped S R n lp index bits s = list_set S R n lp index bits s"

definition list_set_inline_scalar :: "'a seam \<Rightarrow> ('a, 'b) releaser \<Rightarrow> nat \<Rightarrow> addr \<Rightarrow> int \<Rightarrow> nat \<Rightarrow> int \<Rightarrow> ('a, 'b) lrt_scheme \<Rightarrow> ('a, 'b) lres" where
  "list_set_inline_scalar S R n lp index bits es s =
     (let l = lhdr s lp in
      if elem_size l \<noteq> es then list_set_unstamped S R n lp index bits s
      else if \<not> in_range index l then Inl list_index_fail
      else Inr (upd_mem (scalar_store (slot_at l index (nat es)) bits es) s))"

definition list_set_inline :: "'a seam \<Rightarrow> ('a, 'b) releaser \<Rightarrow> nat \<Rightarrow> addr \<Rightarrow> int \<Rightarrow> addr \<Rightarrow> ('a, 'b) lrt_scheme \<Rightarrow> ('a, 'b) lres" where
  "list_set_inline S R n lp index v s =
     (let l = lhdr s lp; w = nat (elem_size l) in
      if elem_size l = 0 then list_set S R n lp index v s
      else if \<not> in_range index l then Inl list_index_fail
      else list_release_source S R n lp v (upd_mem (list_copy_elem (slot_at l index w) v w) s))"

definition list_push_inline_scalar_slow :: "'a seam \<Rightarrow> addr \<Rightarrow> nat \<Rightarrow> int \<Rightarrow> ('a, 'b) lrt_scheme \<Rightarrow> ('a, 'b) lres" where
  "list_push_inline_scalar_slow S lp bits es s =
     (let l = lhdr s lp in
      if elem_size l = 0 then list_push S lp bits s
      else if elem_size l \<noteq> es then list_push S lp bits s
      else andthen (if len l \<ge> lcap l then list_inline_grow S lp s else Inr s) (\<lambda>s.
        let l = lhdr s lp in
        if data l = 0 then Inl Null_store
        else Inr (upd_hdr lp (\<lambda>l. l\<lparr>len := i32 (len l + 1)\<rparr>) (upd_mem (scalar_store (slot_at l (len l) (nat es)) bits es) s))))"

definition list_push_inline_scalar :: "'a seam \<Rightarrow> addr \<Rightarrow> nat \<Rightarrow> int \<Rightarrow> ('a, 'b) lrt_scheme \<Rightarrow> ('a, 'b) lres" where
  "list_push_inline_scalar S lp bits es s =
     (let l = lhdr s lp in
      if elem_size l \<noteq> es \<or> len l \<ge> lcap l then list_push_inline_scalar_slow S lp bits es s
      else Inr (upd_hdr lp (\<lambda>l. l\<lparr>len := i32 (len l + 1)\<rparr>) (upd_mem (scalar_store (slot_at l (len l) (nat es)) bits es) s)))"

text \<open>The exchange of two elements: one fixed-size exchange for the common widths, else words and then bytes.\<close>

definition exchange :: "nat \<Rightarrow> addr \<Rightarrow> addr \<Rightarrow> mem \<Rightarrow> mem" where
  "exchange w a b m = (let t = peek m a w; m = poke m a (peek m b w) in poke m b t)"

function swap_span :: "nat \<Rightarrow> addr \<Rightarrow> addr \<Rightarrow> mem \<Rightarrow> mem" where
  "swap_span w a b m =
     (if w \<ge> 8 then swap_span (w - 8) (a + 8) (b + 8) (exchange 8 a b m)
      else if w > 0 then swap_span (w - 1) (a + 1) (b + 1) (exchange 1 a b m)
      else m)"
  by pat_completeness auto
termination
  by (relation "measure fst") auto

declare swap_span.simps [simp del]

definition list_swap :: "addr \<Rightarrow> int \<Rightarrow> int \<Rightarrow> ('a, 'b) lrt_scheme \<Rightarrow> ('a, 'b) lres" where
  "list_swap lp i j s =
     (let l = lhdr s lp in
      if \<not> in_range i l then Inl list_index_fail
      else if \<not> in_range j l then Inl list_index_fail
      else let w = list_stride l; a = slot_at l i w; b = slot_at l j w in
           Inr (upd_mem (if w = 4 then exchange 4 a b else if w = 8 then exchange 8 a b else if w = 16 then exchange 16 a b
                         else swap_span w a b) s))"

subsection \<open>Removal and insertion\<close>

definition list_truncate :: "'a seam \<Rightarrow> ('a, 'b) releaser \<Rightarrow> nat \<Rightarrow> addr \<Rightarrow> int \<Rightarrow> bool \<Rightarrow> ('a, 'b) lrt_scheme \<Rightarrow> ('a, 'b) lres" where
  "list_truncate S R n lp k now s =
     (let l = lhdr s lp; k = (if k < 0 then 0 else k) in
      if k \<ge> len l then Inr s
      else andthen (each_down (\<lambda>i s. list_discard_slot S R n lp i now s) (nat (len l - k)) k s)
             (\<lambda>s. Inr (upd_hdr lp (\<lambda>l. l\<lparr>len := k\<rparr>) s)))"

definition list_remove_at :: "'a seam \<Rightarrow> ('a, 'b) releaser \<Rightarrow> nat \<Rightarrow> addr \<Rightarrow> int \<Rightarrow> bool \<Rightarrow> ('a, 'b) lrt_scheme \<Rightarrow> ('a, 'b) lres" where
  "list_remove_at S R n lp index now s =
     (let l = lhdr s lp in
      if \<not> in_range index l then Inl (Exit ''removeAt index is out of range'')
      else andthen (list_discard_slot S R n lp index now s) (\<lambda>s.
        let l = lhdr s lp; w = list_stride l in
        Inr (upd_hdr lp (\<lambda>l. l\<lparr>len := len l - 1\<rparr>)
          (upd_mem (\<lambda>m. memmove m (slot_at l index w) (slot_at l (index + 1) w) (nat (len l - index - 1) * w)) s))))"

definition list_check_insert_index :: "addr \<Rightarrow> int \<Rightarrow> ('a, 'b) lrt_scheme \<Rightarrow> ('a, 'b) lres" where
  "list_check_insert_index lp index s =
     (let l = lhdr s lp in if index < 0 \<or> index > len l then Inl (Exit ''insert index is out of range'') else Inr s)"

text \<open>The element that moves is held on the stack, or for a wide one in a block of the C library, which
  may refuse it.\<close>

definition list_move_last :: "addr \<Rightarrow> int \<Rightarrow> ('a, 'b) lrt_scheme \<Rightarrow> ('a, 'b) lres" where
  "list_move_last lp index s =
     (let l = lhdr s lp; w = list_stride l in
      if index \<ge> len l - 1 then Inr s
      else let shift = upd_mem (\<lambda>m. let held = peek m (slot_at l (len l - 1) w) w;
                   m = memmove m (slot_at l (index + 1) w) (slot_at l index w) (nat (len l - 1 - index) * w)
                 in poke m (slot_at l index w) held)
           in if w \<le> 64 then Inr (shift s)
              else let (g, s) = rt_tmp_realloc 0 w s in
                   if g = 0 then Inl (Exit ''out of memory inserting an element'')
                   else Inr (rt_tmp_free g (shift s)))"

definition list_insert :: "'a seam \<Rightarrow> addr \<Rightarrow> int \<Rightarrow> addr \<Rightarrow> ('a, 'b) lrt_scheme \<Rightarrow> ('a, 'b) lres" where
  "list_insert S lp index v s =
     andthen (list_check_insert_index lp index s) (\<lambda>s. andthen (list_push S lp v s) (list_move_last lp index))"

definition list_insert_inline :: "'a seam \<Rightarrow> ('a, 'b) releaser \<Rightarrow> nat \<Rightarrow> addr \<Rightarrow> int \<Rightarrow> addr \<Rightarrow> int \<Rightarrow> ('a, 'b) lrt_scheme \<Rightarrow> ('a, 'b) lres" where
  "list_insert_inline S R n lp index v es s =
     andthen (list_check_insert_index lp index s) (\<lambda>s. andthen (list_push_inline S R n lp v es s) (list_move_last lp index))"

definition list_insert_inline_scalar :: "'a seam \<Rightarrow> addr \<Rightarrow> int \<Rightarrow> nat \<Rightarrow> int \<Rightarrow> ('a, 'b) lrt_scheme \<Rightarrow> ('a, 'b) lres" where
  "list_insert_inline_scalar S lp index bits es s =
     andthen (list_check_insert_index lp index s) (\<lambda>s. andthen (list_push_inline_scalar S lp bits es s) (list_move_last lp index))"

end
