(* ===== verification/List_Cells.thy ===== *)
theory List_Cells
  imports Lists
begin

text \<open>
  An element block as a list of cells of equal width, and what the byte operations of the lists do to
  it: storing one cell, moving a run of cells by one place, exchanging two.
\<close>

definition cells :: "mem \<Rightarrow> addr \<Rightarrow> nat \<Rightarrow> nat \<Rightarrow> byte list list" where
  "cells m d w n = map (\<lambda>i. peek m (d + i * w) w) [0..<n]"

lemma length_cells [simp]: "length (cells m d w n) = n"
  by (simp add: cells_def)

lemma nth_cells [simp]: "i < n \<Longrightarrow> cells m d w n ! i = peek m (d + i * w) w"
  by (simp add: cells_def)

lemma cells_width: "c \<in> set (cells m d w n) \<Longrightarrow> length c = w"
  by (auto simp: cells_def)

lemma cell_end: "i < n \<Longrightarrow> i * w + w \<le> n * (w :: nat)"
proof -
  assume "i < n"
  then have "Suc i * w \<le> n * w" by (intro mult_le_mono1) simp
  then show ?thesis by simp
qed

lemma cell_apart: "i \<noteq> j \<Longrightarrow> apart (d + i * w) w (d + j * w) w"
proof -
  assume "i \<noteq> j"
  then have "i < j \<or> j < i" by auto
  then show ?thesis using cell_end [of i j w] cell_end [of j i w] by (auto simp: apart_def)
qed

lemma cells_cong: "peek m' d' (n * w) = peek m d (n * w) \<Longrightarrow> cells m' d' w n = cells m d w n"
proof (rule nth_equalityI)
  fix i assume e: "peek m' d' (n * w) = peek m d (n * w)" and i: "i < length (cells m' d' w n)"
  have "m' (d' + i * w + t) = m (d + i * w + t)" if "t < w" for t
  proof -
    have "i * w + t < n * w" using cell_end [of i n w] i that by simp
    then show ?thesis using e unfolding peek_eq_iff by (metis add.assoc)
  qed
  then show "cells m' d' w n ! i = cells m d w n ! i" using i by (simp add: peek_eq_iff)
qed simp

lemma cells_take: "k \<le> n \<Longrightarrow> cells m d w k = take k (cells m d w n)"
  by (rule nth_equalityI) auto

lemma cells_outside: "apart d (n * w) a (length bs) \<Longrightarrow> cells (poke m a bs) d w n = cells m d w n"
  by (rule cells_cong) (rule peek_poke_apart)

lemma cells_push:
  assumes "length bs = w"
  shows "cells (poke m (d + n * w) bs) d w (Suc n) = cells m d w n @ [bs]"
proof -
  have "cells (poke m (d + n * w) bs) d w n = cells m d w n" by (rule cells_outside) (simp add: apart_def)
  then show ?thesis using assms by (simp add: cells_def poke_same_len)
qed

lemma cells_set:
  assumes "i < n" "length bs = w"
  shows "cells (poke m (d + i * w) bs) d w n = (cells m d w n)[i := bs]"
proof (rule nth_equalityI)
  fix j assume j: "j < length (cells (poke m (d + i * w) bs) d w n)"
  show "cells (poke m (d + i * w) bs) d w n ! j = (cells m d w n)[i := bs] ! j"
  proof (cases "j = i")
    case False
    then show ?thesis using j assms cell_apart [of j i d w] by (simp add: peek_poke_apart)
  qed (use j assms in \<open>simp add: poke_same_len\<close>)
qed simp

text \<open>A run of cells one place down, and one place up.\<close>

lemma cells_down:
  assumes "i < n"
  shows "cells (poke m (d + i * w) (peek m (d + (i + 1) * w) ((n - i - 1) * w))) d w (n - 1)
    = take i (cells m d w n) @ drop (Suc i) (cells m d w n)"
proof (rule nth_equalityI)
  let ?bs = "peek m (d + (i + 1) * w) ((n - i - 1) * w)" and ?xs = "cells m d w n"
  show "length (cells (poke m (d + i * w) ?bs) d w (n - 1)) = length (take i ?xs @ drop (Suc i) ?xs)" using assms by simp
  fix j assume "j < length (cells (poke m (d + i * w) ?bs) d w (n - 1))"
  then have j: "j < n - 1" by simp
  have "peek (poke m (d + i * w) ?bs) (d + j * w) w = peek m (d + (if j < i then j else Suc j) * w) w"
  proof (cases "j < i")
    case True
    then show ?thesis using cell_end [of j i w] by (simp add: peek_poke_apart apart_def)
  next
    case False
    then obtain k where k: "j = i + k" by (metis le_Suc_ex not_le)
    have lim: "k * w + w \<le> (n - i - 1) * w" by (rule cell_end) (use j k in linarith)
    have "poke m (d + i * w) ?bs (d + j * w + t) = m (d + Suc j * w + t)" if "t < w" for t
    proof -
      define c where "c = (n - i - 1) * w"
      have "k * w + t < c" using lim that by (simp add: c_def)
      then show ?thesis unfolding k c_def [symmetric] by (simp add: poke_def algebra_simps)
    qed
    then show ?thesis using False by (simp add: peek_eq_iff)
  qed
  then show "cells (poke m (d + i * w) ?bs) d w (n - 1) ! j = (take i ?xs @ drop (Suc i) ?xs) ! j"
    using j assms by (auto simp: nth_append)
qed

lemma cells_up:
  assumes "i < n"
  shows "cells (poke m (d + (i + 1) * w) (peek m (d + i * w) ((n - 1 - i) * w))) d w n
    = take (Suc i) (cells m d w n) @ take (n - 1 - i) (drop i (cells m d w n))"
proof (rule nth_equalityI)
  let ?bs = "peek m (d + i * w) ((n - 1 - i) * w)" and ?xs = "cells m d w n"
  show "length (cells (poke m (d + (i + 1) * w) ?bs) d w n) = length (take (Suc i) ?xs @ take (n - 1 - i) (drop i ?xs))"
    using assms by simp
  fix j assume "j < length (cells (poke m (d + (i + 1) * w) ?bs) d w n)"
  then have j: "j < n" by simp
  have "peek (poke m (d + (i + 1) * w) ?bs) (d + j * w) w = peek m (d + (if j \<le> i then j else j - 1) * w) w"
  proof (cases "j \<le> i")
    case True
    then show ?thesis using cell_end [of j "Suc i" w] by (simp add: peek_poke_apart apart_def)
  next
    case False
    then obtain k where k: "j = i + 1 + k" using le_Suc_ex [of "i + 1" j] by auto
    have lim: "k * w + w \<le> (n - 1 - i) * w" by (rule cell_end) (use j k in linarith)
    have "poke m (d + (i + 1) * w) ?bs (d + j * w + t) = m (d + (j - 1) * w + t)" if "t < w" for t
    proof -
      define c where "c = (n - 1 - i) * w"
      have "k * w + t < c" using lim that by (simp add: c_def)
      then show ?thesis unfolding k c_def [symmetric] by (simp add: poke_def algebra_simps)
    qed
    then show ?thesis using False by (simp add: peek_eq_iff)
  qed
  then show "cells (poke m (d + (i + 1) * w) ?bs) d w n ! j = (take (Suc i) ?xs @ take (n - 1 - i) (drop i ?xs)) ! j"
    using j assms by (auto simp: nth_append le_Suc_eq not_le)
qed

lemma exchange_cells:
  assumes "i < n" "j < n"
  shows "cells (exchange w (d + i * w) (d + j * w) m) d w n = (cells m d w n)[i := cells m d w n ! j, j := cells m d w n ! i]"
  using assms by (simp add: exchange_def Let_def cells_set)

lemma exchange_self [simp]: "exchange w a a m = m"
  by (simp add: exchange_def poke_overwrite)

lemma exchange_split:
  assumes ap: "apart a (u + v) b (u + v)"
  shows "exchange (u + v) a b m = exchange v (a + u) (b + u) (exchange u a b m)"
proof -
  let ?A = "peek m a u" and ?A' = "peek m (a + u) v" and ?B = "peek m b u" and ?B' = "peek m (b + u) v"
  let ?m = "poke (poke m a ?B) b ?A"
  have x: "apart a u b u" "apart (a + u) v b u" "apart (a + u) v a u" "apart (b + u) v a u" "apart (b + u) v b u" "apart b u (a + u) v"
    using ap by (auto simp: apart_def)
  have r: "peek ?m (b + u) v = ?B'" "peek ?m (a + u) v = ?A'" using x by (simp_all add: peek_poke_apart)
  have "exchange (u + v) a b m = poke (poke (poke (poke m a ?B) (a + u) ?B') b ?A) (b + u) ?A'"
    by (simp add: exchange_def Let_def peek_add poke_append)
  also have "poke (poke (poke m a ?B) (a + u) ?B') b ?A = poke ?m (a + u) ?B'"
    by (rule poke_commute) (use x in \<open>simp add: apart_sym\<close>)
  also have "poke (poke ?m (a + u) ?B') (b + u) ?A' = exchange v (a + u) (b + u) ?m" by (simp add: exchange_def Let_def r)
  finally show ?thesis by (simp add: exchange_def Let_def)
qed

lemma swap_span_exchange:
  assumes "a = b \<or> apart a w b w"
  shows "swap_span w a b m = exchange w a b m"
  using assms
proof (induction w a b m rule: swap_span.induct)
  case (1 w a b m)
  have ap: "a = b \<or> apart a (u + v) b (u + v)" if "w = u + v" for u v using "1.prems" that by simp
  consider "w \<ge> 8" | "0 < w" "w < 8" | "w = 0" by linarith
  then show ?case
  proof cases
    case 1
    then have e: "w = 8 + (w - 8)" by simp
    have "a + 8 = b + 8 \<or> apart (a + 8) (w - 8) (b + 8) (w - 8)" using "1.prems" 1 by (auto simp: apart_def)
    from "1.IH"(1) [OF 1 this] have "swap_span w a b m = exchange (w - 8) (a + 8) (b + 8) (exchange 8 a b m)"
      using 1 by (simp add: swap_span.simps [of w])
    also have "\<dots> = exchange (8 + (w - 8)) a b m"
      using ap [OF e] by (auto simp: exchange_split)
    finally show ?thesis using e by simp
  next
    case 2
    then have e: "w = 1 + (w - 1)" by simp
    have "a + 1 = b + 1 \<or> apart (a + 1) (w - 1) (b + 1) (w - 1)" using "1.prems" 2 by (auto simp: apart_def)
    from "1.IH"(2) [OF _ 2(1) this] 2 have "swap_span w a b m = exchange (w - 1) (a + 1) (b + 1) (exchange 1 a b m)"
      by (simp add: swap_span.simps [of w])
    also have "\<dots> = exchange (1 + (w - 1)) a b m"
      using ap [OF e] exchange_split [of a 1 "w - 1" b m] by auto
    finally show ?thesis using e by simp
  next
    case 3
    then show ?thesis by (simp add: swap_span.simps [of 0] exchange_def)
  qed
qed

lemma copy_units_eq:
  "apart d (k * w) a (k * w) \<Longrightarrow> copy_units w k d a m = poke m d (peek m a (k * w))"
proof (induction k arbitrary: d a m)
  case (Suc k)
  let ?m = "poke m d (peek m a w)"
  have "apart (d + w) (k * w) (a + w) (k * w)" using Suc.prems by (auto simp: apart_def)
  from Suc.IH [OF this] have "copy_units w (Suc k) d a m = poke ?m (d + w) (peek ?m (a + w) (k * w))" by simp
  also have "peek ?m (a + w) (k * w) = peek m (a + w) (k * w)"
    by (rule peek_poke_apart) (use Suc.prems in \<open>auto simp: apart_def\<close>)
  also have "poke ?m (d + w) (peek m (a + w) (k * w)) = poke m d (peek m a w @ peek m (a + w) (k * w))"
    by (simp add: poke_append)
  finally show ?case by (simp add: peek_add)
qed simp

lemma list_copy_elem_eq: "apart d n a n \<Longrightarrow> list_copy_elem d a n m = poke m d (peek m a n)"
proof -
  assume ap: "apart d n a n"
  have "copy_units w (n div w) d a m = poke m d (peek m a n)" if "n mod w = 0" for w
    using copy_units_eq [of d "n div w" w a m] ap that by (simp add: mod_0_imp_dvd)
  moreover have "memcpy m d a n = poke m d (peek m a n)"
    by (rule memcpy_eq) (use ap in \<open>auto simp: apart_def\<close>)
  ultimately show ?thesis by (simp add: list_copy_elem_def)
qed

end
