(* ===== verification/List_Inv.thy ===== *)
theory List_Inv
  imports List_Cells String_Build
begin

text \<open>
  The invariant of a list over any allocator that keeps its contract, and that growth and the stores
  into its block keep it and change nothing else that the program holds.
\<close>

subsection \<open>The invariant\<close>

lemma more_fields:
  fixes s s' :: "('a, 'b) lrt_scheme"
  assumes "rt.more s' = rt.more s"
  shows "lhdr s' = lhdr s" "cycs s' = cycs s" "lrt.more s' = lrt.more s"
  using assms by (cases s; cases s'; simp)+

lemma hp_upd_hdr [simp]: "hp (upd_hdr lp f s) = hp s" "lhdr (upd_hdr lp f s) = (lhdr s)(lp := f (lhdr s lp))"
  "cycs (upd_hdr lp f s) = cycs s" "lrt.more (upd_hdr lp f s) = lrt.more s"
  by (simp_all add: upd_hdr_def)

lemma upd_mem_fields [simp]: "lhdr (upd_mem f s) = lhdr s" "cycs (upd_mem f s) = cycs s" "lrt.more (upd_mem f s) = lrt.more s"
  by (simp_all add: upd_mem_def)

lemma rt_poke_fields [simp]: "lhdr (rt_poke a bs s) = lhdr s" "cycs (rt_poke a bs s) = cycs s" "lrt.more (rt_poke a bs s) = lrt.more s"
  by (simp_all add: rt_poke_def)

lemma rt_free_fields [simp]: "lhdr (rt_free S p s) = lhdr s" "cycs (rt_free S p s) = cycs s" "lrt.more (rt_free S p s) = lrt.more s"
  by (simp_all add: rt_free_def)

lemma stride_upd [simp]: "list_stride (l\<lparr>data := d\<rparr>) = list_stride l" "list_stride (l\<lparr>lcap := c\<rparr>) = list_stride l"
  "list_stride (l\<lparr>fused := f\<rparr>) = list_stride l" "list_stride (l\<lparr>len := n\<rparr>) = list_stride l"
  by (simp_all add: list_stride_def)

text \<open>The block that a list's elements lie in: the header's own for a fused list.\<close>

definition list_ok :: "owned \<Rightarrow> (addr \<Rightarrow> RtList) \<Rightarrow> addr \<Rightarrow> bool" where
  "list_ok B L lp \<longleftrightarrow> (let l = L lp; n = nat (lcap l) * list_stride l in
     lp \<noteq> 0 \<and> 0 \<le> len l \<and> len l \<le> lcap l \<and> lcap l < 2 ^ 31 \<and> 0 \<le> elem_size l \<and> elem_size l < 2 ^ 31
     \<and> (if fused l then larena l = 0 \<and> data l = lp + 64 \<and> (\<exists>k. B lp = Some (Seam, k) \<and> 64 + n \<le> k)
        else (\<exists>v k. B lp = Some (v, k) \<and> 64 \<le> k \<and> (larena l = 0 \<longrightarrow> v = Seam))
          \<and> (if data l = 0 then lcap l = 0
             else data l \<noteq> lp \<and> 0 < lcap l \<and> (\<exists>v. B (data l) = Some (v, n) \<and> (larena l = 0 \<longrightarrow> v = Seam)))))"

definition elems :: "('a, 'b) lrt_scheme \<Rightarrow> addr \<Rightarrow> byte list list" where
  "elems s lp = (let l = lhdr s lp in cells (rmem s) (data l) (list_stride l) (nat (len l)))"

text \<open>The blocks that are the list's own, and what an operation on one list leaves alone: every other
  block the program holds, with its bytes, and every other header.\<close>

definition own_blocks :: "RtList \<Rightarrow> addr \<Rightarrow> addr set" where
  "own_blocks l lp = (if fused l then {lp} else {lp, data l})"

definition others :: "owned \<Rightarrow> RtList \<Rightarrow> addr \<Rightarrow> owned" where
  "others B l lp = (\<lambda>a. if a \<in> own_blocks l lp then None else B a)"

definition only_list :: "owned \<Rightarrow> ('a, 'b) lrt_scheme \<Rightarrow> addr \<Rightarrow> owned \<Rightarrow> ('a, 'b) lrt_scheme \<Rightarrow> bool" where
  "only_list B s lp B' s' \<longleftrightarrow> rt_kept (others B (lhdr s lp) lp) s s'
     \<and> (\<forall>a u k. others B (lhdr s lp) lp a = Some (u, k) \<longrightarrow> others B' (lhdr s' lp) lp a = Some (u, k))
     \<and> (\<forall>x. x \<noteq> lp \<longrightarrow> lhdr s' x = lhdr s x) \<and> cycs s' = cycs s"

lemma only_list_refl [simp]: "only_list B s lp B s"
  by (simp add: only_list_def rt_kept_def)

lemma only_list_trans:
  assumes 1: "only_list B s lp B1 s1" and 2: "only_list B1 s1 lp B2 s2"
  shows "only_list B s lp B2 s2"
proof -
  have o: "others B1 (lhdr s1 lp) lp a = Some (u, k)" if "others B (lhdr s lp) lp a = Some (u, k)" for a u k
    using 1 that by (simp add: only_list_def)
  have "rt_kept (others B (lhdr s lp) lp) s s2"
    using 1 2 o unfolding only_list_def rt_kept_def kept_def by metis
  then show ?thesis using 1 2 o by (simp add: only_list_def)
qed

lemma only_list_hdr: "only_list B s lp B s' \<Longrightarrow> own_blocks (f (lhdr s' lp)) lp = own_blocks (lhdr s' lp) lp \<Longrightarrow> only_list B s lp B (upd_hdr lp f s')"
  by (simp add: only_list_def rt_kept_def others_def)

lemma list_okD:
  assumes "list_ok B L lp"
  shows "lp \<noteq> 0" "0 \<le> len (L lp)" "len (L lp) \<le> lcap (L lp)" "lcap (L lp) < 2 ^ 31" "0 \<le> elem_size (L lp)" "elem_size (L lp) < 2 ^ 31"
  using assms by (auto simp: list_ok_def Let_def)

lemma owned_null: "owned_wf B \<Longrightarrow> B 0 = None"
  by (cases "B 0") (auto simp: owned_wf_def)

lemma stride_bound: "list_ok B L lp \<Longrightarrow> 0 < list_stride (L lp) \<and> list_stride (L lp) < 2 ^ 31"
  using list_okD(5,6) [of B L lp] by (auto simp: list_stride_def)

lemma list_ok_size:
  assumes ok: "list_ok B L lp" and c: "0 \<le> c" "c < 2 ^ 31"
  shows "nat c * list_stride (L lp) < 2 ^ 62"
proof -
  have "nat c < 2 ^ 31" "list_stride (L lp) < 2 ^ 31" using c stride_bound [OF ok] by auto
  then have "nat c * list_stride (L lp) < 2 ^ 31 * 2 ^ 31" by (intro mult_strict_mono) auto
  then show ?thesis by simp
qed

text \<open>Where the elements lie.\<close>

lemma list_ok_block:
  assumes "list_ok B L lp" "data (L lp) \<noteq> 0"
  obtains b v k where "B b = Some (v, k)" "b = lp \<or> b = data (L lp)" "b \<le> data (L lp)"
    "data (L lp) + nat (lcap (L lp)) * list_stride (L lp) \<le> b + k" "fused (L lp) \<longleftrightarrow> b = lp"
proof (cases "fused (L lp)")
  case True
  then obtain k where "B lp = Some (Seam, k)" "64 + nat (lcap (L lp)) * list_stride (L lp) \<le> k" "data (L lp) = lp + 64"
    using assms(1) by (auto simp: list_ok_def Let_def)
  then show thesis using True by (intro that [of lp Seam k]) auto
next
  case False
  then obtain v where "B (data (L lp)) = Some (v, nat (lcap (L lp)) * list_stride (L lp))" "data (L lp) \<noteq> lp"
    using assms by (auto simp: list_ok_def Let_def)
  then show thesis using False by (intro that [of "data (L lp)" v]) auto
qed

context rt_spec
begin

text \<open>A store inside the element block.\<close>

lemma list_write:
  fixes s :: "('a, 'b) rt_scheme"
  assumes inv: "rinv B s" and ok: "list_ok B L lp" and d: "data (L lp) \<noteq> 0"
    and q: "data (L lp) \<le> q" "q + length bs \<le> data (L lp) + nat (lcap (L lp)) * list_stride (L lp)"
  shows "rinv B (rt_poke q bs s)" "rt_kept (others B (L lp) lp) s (rt_poke q bs s)"
proof -
  obtain b v k where b: "B b = Some (v, k)" "b = lp \<or> b = data (L lp)" "b \<le> data (L lp)"
    "data (L lp) + nat (lcap (L lp)) * list_stride (L lp) \<le> b + k" "fused (L lp) \<longleftrightarrow> b = lp"
    using list_ok_block [OF ok d] by metis
  show "rinv B (rt_poke q bs s)" by (rule rt_write_law [OF inv b(1)]) (use b q in linarith)+
  show "rt_kept (others B (L lp) lp) s (rt_poke q bs s)"
    unfolding rt_kept_def kept_def
  proof (intro allI impI)
    fix a u j assume a: "others B (L lp) lp a = Some (u, j)"
    then have "B a = Some (u, j)" "a \<noteq> b" using b(2,5) by (auto simp: others_def own_blocks_def split: if_splits)
    then have "apart a j b k" using rinv_wf [OF inv] b(1) unfolding owned_wf_def by blast
    then have "apart a j q (length bs)" using b q by (auto elim: apart_sub)
    then show "peek (mem (hp (rt_poke q bs s))) a j = peek (mem (hp s)) a j" by (simp add: rt_poke_def peek_poke_apart)
  qed
qed

end

text \<open>The runtime's contract with the list headers beside it, which no allocation touches.\<close>

locale list_rt = rt_spec S rinv for S :: "'a seam" and rinv :: "owned \<Rightarrow> ('a, 'b) lrt_scheme \<Rightarrow> bool" +
  assumes rinv_hdr: "rinv B (upd_hdr lp f s) = rinv B s"
begin

lemma list_store:
  fixes s :: "('a, 'b) lrt_scheme"
  assumes inv: "rinv B s" and ok: "list_ok B (lhdr s) lp" and d: "data (lhdr s lp) \<noteq> 0"
    and q: "data (lhdr s lp) \<le> q" "q + length bs \<le> data (lhdr s lp) + nat (lcap (lhdr s lp)) * list_stride (lhdr s lp)"
  shows "rinv B (rt_poke q bs s) \<and> only_list B s lp B (rt_poke q bs s)"
  using list_write [OF inv ok d q] by (simp add: only_list_def)

lemma list_block_ok:
  assumes inv: "rinv B s" and n: "0 < n" "n < 2 ^ 63" and hint: "larena (lhdr s lp) = 0 \<Longrightarrow> rt_arena_slot s = 0"
    and al: "list_block S lp n s = (p, s')"
  shows "rt_kept B s s' \<and> rt.more s' = rt.more s
    \<and> (p \<noteq> 0 \<longrightarrow> fresh_block B p n \<and> (\<exists>v. rinv (B(p \<mapsto> (v, n))) s' \<and> (larena (lhdr s lp) = 0 \<longrightarrow> v = Seam)))"
proof (cases "larena (lhdr s lp) = 0")
  case True
  then have "rt_base_alloc S n s = (p, s')"
    using al hint by (auto simp: list_block_def rt_alloc_def arena_alloc_def rt_arena_slot_def arena_current_slot_def Let_def split: if_splits)
  then show ?thesis using base_alloc_law [OF inv n(1)] n(2) by fastforce
next
  case False
  then have "arena_alloc_at S (larena (lhdr s lp)) n s = (p, s')" using al by (simp add: list_block_def)
  from arena_at_law [OF inv n this] False show ?thesis by auto
qed

text \<open>What growth leaves: the same elements in a block with room for \<open>c\<close> of them.\<close>

definition grown :: "owned \<Rightarrow> ('a, 'b) lrt_scheme \<Rightarrow> addr \<Rightarrow> int \<Rightarrow> ('a, 'b) lrt_scheme \<Rightarrow> bool" where
  "grown B s lp c s' \<longleftrightarrow> (\<exists>B'. rinv B' s' \<and> list_ok B' (lhdr s') lp \<and> only_list B s lp B' s') \<and> elems s' lp = elems s lp
     \<and> lhdr s' lp = (lhdr s lp)\<lparr>fused := fused (lhdr s' lp), data := data (lhdr s' lp), lcap := c\<rparr>"

lemma grownI:
  assumes "rinv B' s'" "list_ok B' (lhdr s') lp" "only_list B s lp B' s'" "elems s' lp = elems s lp"
    "lhdr s' lp = (lhdr s lp)\<lparr>fused := fused (lhdr s' lp), data := data (lhdr s' lp), lcap := c\<rparr>"
  shows "grown B s lp c s'"
  using assms unfolding grown_def by blast

text \<open>The header after a move to block \<open>d\<close>.\<close>

lemma moved_ok:
  assumes ok: "list_ok B L lp" and c: "lcap (L lp) \<le> c" "0 < c" "c < 2 ^ 31"
    and d: "d \<noteq> 0" "d \<noteq> lp" "B' lp = B lp" "B' d = Some (v, nat c * list_stride (L lp))" "larena (L lp) = 0 \<Longrightarrow> v = Seam"
  shows "list_ok B' (L(lp := (L lp)\<lparr>fused := False, data := d, lcap := c\<rparr>)) lp"
proof -
  have "\<exists>v k. B lp = Some (v, k) \<and> 64 \<le> k \<and> (larena (L lp) = 0 \<longrightarrow> v = Seam)"
    using ok by (auto simp: list_ok_def Let_def split: if_splits)
  then show ?thesis using list_okD [OF ok] c d by (simp add: list_ok_def Let_def)
qed

lemma list_move_ok:
  assumes inv: "rinv B s" and ok: "list_ok B (lhdr s) lp" and hint: "larena (lhdr s lp) = 0 \<Longrightarrow> rt_arena_slot s = 0"
    and c: "lcap (lhdr s lp) \<le> c" "0 < c" "c < 2 ^ 31" and n: "n = nat c * list_stride (lhdr s lp)"
    and copy: "\<And>nd m. apart nd n (data (lhdr s lp)) (nat (len (lhdr s lp)) * list_stride (lhdr s lp)) \<Longrightarrow>
      copy nd (data (lhdr s lp)) m = poke m nd (peek m (data (lhdr s lp)) (nat (len (lhdr s lp)) * list_stride (lhdr s lp)))"
    and r: "list_move S lp c n copy s = Inr s'" and d': "data (lhdr s' lp) \<noteq> 0"
  shows "grown B s lp c s'"
proof -
  define l where "l = lhdr s lp"
  define k where "k = nat (len l) * list_stride l"
  note D = list_okD [OF ok, folded l_def]
  obtain nd s1 where b: "list_block S lp n s = (nd, s1)" by fastforce
  have n': "0 < n" "n < 2 ^ 62" "k \<le> n"
    using stride_bound [OF ok] c list_ok_size [OF ok, of c] D n by (auto simp: l_def k_def intro!: mult_le_mono1)
  have L: "rt_kept B s s1" "rt.more s1 = rt.more s" "nd \<noteq> 0 \<Longrightarrow> fresh_block B nd n"
    "nd \<noteq> 0 \<Longrightarrow> \<exists>v. rinv (B(nd \<mapsto> (v, n))) s1 \<and> (larena l = 0 \<longrightarrow> v = Seam)"
    using list_block_ok [OF inv n'(1) _ hint b] n' by (auto simp: l_def)
  note M = more_fields [OF L(2)]
  define s2 where "s2 = (if data l \<noteq> 0 then upd_mem (copy nd (data l)) s1 else s1)"
  have r': "s' = upd_hdr lp (\<lambda>l. l\<lparr>fused := False, data := nd, lcap := c\<rparr>) (list_free_data S lp s2)"
    using r b M(1) by (auto simp: list_move_def Let_def s2_def l_def split: if_splits)
  have h2: "lhdr s2 = lhdr s" "cycs s2 = cycs s" using M by (auto simp: s2_def)
  have hf: "lhdr (list_free_data S lp s2) = lhdr s" "cycs (list_free_data S lp s2) = cycs s"
    using h2 by (simp_all add: list_free_data_def Let_def)
  have nd: "nd \<noteq> 0" using d' by (simp add: r' hf)
  obtain v where f: "fresh_block B nd n" "rinv (B(nd \<mapsto> (v, n))) s1" "larena l = 0 \<Longrightarrow> v = Seam" using L(3,4) nd by blast
  have Bn: "B nd = None" using f(1) by (simp add: fresh_block_def)
  let ?B1 = "B(nd \<mapsto> (v, n))"
  have lpB: "B lp \<noteq> None" using ok by (auto simp: list_ok_def Let_def split: if_splits)
  have ndl: "nd \<noteq> lp" "data l \<noteq> 0 \<Longrightarrow> \<not> fused l \<Longrightarrow> nd \<noteq> data l"
    using Bn lpB ok by (auto simp: list_ok_def Let_def l_def split: if_splits)
  have s2: "rinv ?B1 s2 \<and> rt_kept B s s2 \<and> peek (rmem s2) nd k = peek (rmem s) (data l) k"
  proof (cases "data l = 0")
    case True
    then have "k = 0" using ok by (auto simp: list_ok_def Let_def l_def k_def split: if_splits)
    then show ?thesis using True f(2) L(1) by (simp add: s2_def)
  next
    case False
    obtain b w j where bb: "B b = Some (w, j)" "b \<le> data l" "data l + nat (lcap l) * list_stride l \<le> b + j"
      using list_ok_block [OF ok] False by (metis l_def)
    have kk: "data l + k \<le> b + j"
    proof -
      have "k \<le> nat (lcap l) * list_stride l" using D by (auto simp: k_def intro!: mult_le_mono1)
      then show ?thesis using bb by linarith
    qed
    have w: "within B (data l) k" using bb kk by (auto simp: within_def)
    have ap: "apart (data l) k nd n" by (rule within_fresh [OF w f(1)])
    have cp: "copy nd (data l) (rmem s1) = poke (rmem s1) nd (peek (rmem s1) (data l) k)"
      using copy [of nd "rmem s1"] ap by (simp add: l_def k_def apart_sym)
    have e: "s2 = rt_poke nd (peek (rmem s1) (data l) k) s1" using False upd_mem_poke [of "copy nd (data l)" s1 nd] cp by (simp add: s2_def)
    have "rinv ?B1 s2" unfolding e by (rule rt_write_law [OF f(2), of nd v n]) (use n' in simp_all)
    moreover have "rt_kept B s s2"
      unfolding rt_kept_def kept_def
    proof (intro allI impI)
      fix a u i assume a: "B a = Some (u, i)"
      then have "apart a i nd n" using f(1) by (auto simp: fresh_block_def)
      then have "apart a i nd (length (peek (rmem s1) (data l) k))" using n' by (auto elim: apart_sub)
      then show "peek (mem (hp s2)) a i = peek (mem (hp s)) a i"
        using L(1) a by (simp add: e rt_poke_def peek_poke_apart rt_kept_def kept_def)
    qed
    moreover have "peek (rmem s2) nd k = peek (rmem s) (data l) k"
      using within_kept [OF w L(1)] by (simp add: e rmem_poke poke_same_len)
    ultimately show ?thesis by simp
  qed
  define fr where "fr \<longleftrightarrow> data l \<noteq> 0 \<and> larena l = 0 \<and> \<not> fused l"
  define B' where "B' = (if fr then ?B1(data l := None) else ?B1)"
  have s3: "rinv B' (list_free_data S lp s2) \<and> rt_kept B' s2 (list_free_data S lp s2)"
  proof (cases fr)
    case True
    then have "?B1 (data l) = Some (Seam, nat (lcap l) * list_stride l)"
      using ok ndl by (auto simp: list_ok_def Let_def l_def fr_def split: if_splits)
    from rt_free_law [OF conjunct1 [OF s2] this] True show ?thesis
      by (simp add: B'_def list_free_data_def h2 fr_def l_def Let_def del: fun_upd_apply)
  next
    case False
    then show ?thesis using s2 by (auto simp: B'_def list_free_data_def h2 fr_def l_def Let_def rt_kept_def)
  qed
  have dlp: "data l \<noteq> 0 \<Longrightarrow> \<not> fused l \<Longrightarrow> data l \<noteq> lp" using ok by (auto simp: list_ok_def Let_def l_def)
  have Bd: "B' nd = Some (v, n)" "B' lp = B lp" using ndl dlp by (auto simp: B'_def fr_def)
  have mem': "rmem s' = rmem (list_free_data S lp s2)" "lhdr s' = (lhdr s)(lp := l\<lparr>fused := False, data := nd, lcap := c\<rparr>)"
    by (simp_all add: r' hf l_def)
  show ?thesis
  proof (rule grownI [of B'])
    show "rinv B' s'" using s3 by (simp add: r' rinv_hdr)
    have "list_ok B' ((lhdr s)(lp := (lhdr s lp)\<lparr>fused := False, data := nd, lcap := c\<rparr>)) lp"
      by (rule moved_ok [where B' = B' and d = nd and v = v, OF ok c nd ndl(1) Bd(2) Bd(1) [unfolded n] f(3) [unfolded l_def]])
    then show "list_ok B' (lhdr s') lp" by (simp add: mem' l_def)
    have oth: "others B' (lhdr s' lp) lp a = Some (u, i)" "B' a = Some (u, i)" "B a = Some (u, i)" if "others B l lp a = Some (u, i)" for a u i
    proof -
      have a: "B a = Some (u, i)" "a \<noteq> lp" "fused l \<or> a \<noteq> data l"
        using that by (auto simp: others_def own_blocks_def split: if_splits)
      then have "a \<noteq> nd" using Bn by auto
      with a show "others B' (lhdr s' lp) lp a = Some (u, i)" "B' a = Some (u, i)" "B a = Some (u, i)"
        by (auto simp: others_def own_blocks_def mem' B'_def fr_def)
    qed
    have "rt_kept (others B l lp) s s'"
      using s2 s3 oth unfolding rt_kept_def kept_def mem' by metis
    then show "only_list B s lp B' s'" using oth hf by (simp add: only_list_def l_def [symmetric] mem' r')
    have "peek (rmem s') nd k = peek (rmem s2) nd k"
    proof -
      have "peek (rmem s') nd n = peek (rmem s2) nd n" using s3 Bd(1) by (simp add: mem' rt_kept_def kept_def)
      from peek_sub [OF this, of nd k] n' show ?thesis by simp
    qed
    then have "cells (rmem s') nd (list_stride l) (nat (len l)) = cells (rmem s) (data l) (list_stride l) (nat (len l))"
      using s2 by (intro cells_cong) (simp add: k_def)
    then show "elems s' lp = elems s lp" by (simp add: elems_def Let_def mem' l_def)
    show "lhdr s' lp = (lhdr s lp)\<lparr>fused := fused (lhdr s' lp), data := data (lhdr s' lp), lcap := c\<rparr>" by (simp add: mem' l_def)
  qed
qed

lemma list_realloc_ok:
  assumes inv: "rinv B s" and ok: "list_ok B (lhdr s) lp" and h: "larena (lhdr s lp) = 0" "\<not> fused (lhdr s lp)"
    and c: "lcap (lhdr s lp) \<le> c" "0 < c" "c < 2 ^ 31" and n: "n = nat c * list_stride (lhdr s lp)"
    and r: "rt_base_realloc S (data (lhdr s lp)) n s = (d, s1)" and d: "d \<noteq> 0"
  shows "grown B s lp c (upd_hdr lp (\<lambda>l. l\<lparr>data := d, lcap := c\<rparr>) s1)"
proof -
  define l where "l = lhdr s lp"
  define k where "k = nat (len l) * list_stride l"
  note D = list_okD [OF ok, folded l_def]
  let ?s = "upd_hdr lp (\<lambda>l. l\<lparr>data := d, lcap := c\<rparr>) s1" and ?B = "B(data l := None, d \<mapsto> (Seam, n))"
  have n': "0 < n" "n < 2 ^ 62" "k \<le> n"
    using stride_bound [OF ok] c list_ok_size [OF ok, of c] D n by (auto simp: l_def k_def intro!: mult_le_mono1)
  have lpB: "B lp \<noteq> None" using ok by (auto simp: list_ok_def Let_def split: if_splits)
  have L: "rt_kept (B(data l := None)) s s1 \<and> rt.more s1 = rt.more s \<and> fresh_block (B(data l := None)) d n \<and> rinv ?B s1
    \<and> peek (rmem s1) d k = peek (rmem s) (data l) k \<and> (data l \<noteq> 0 \<longrightarrow> data l \<noteq> lp)"
  proof (cases "data l = 0")
    case True
    have "k = 0" using ok True h by (auto simp: list_ok_def Let_def l_def k_def)
    moreover have "B(data l := None) = B" using owned_null [OF rinv_wf [OF inv]] True by (simp add: fun_upd_idem)
    ultimately have z: "k = 0" "B(data l := None) = B" by auto
    from base_realloc_null_law [OF inv n'(1)] n' r d True z show ?thesis by (simp add: l_def del: fun_upd_apply)
  next
    case False
    have b: "B (data l) = Some (Seam, nat (lcap l) * list_stride l)" "data l \<noteq> lp" "0 < lcap l"
      using ok h False by (auto simp: list_ok_def Let_def l_def split: if_splits)
    have kk: "k \<le> nat (lcap l) * list_stride l" using D by (auto simp: k_def intro!: mult_le_mono1)
    have pos: "0 < nat (lcap l) * list_stride l" using b(3) stride_bound [OF ok] by (simp add: l_def)
    have big: "n < 2 ^ 64" using n' by simp
    note R = base_realloc_law [OF inv b(1) pos n'(1) big r [folded l_def]]
    then have "peek (rmem s1) d (min (nat (lcap l) * list_stride l) n) = peek (rmem s) (data l) (min (nat (lcap l) * list_stride l) n)"
      using d by simp
    from peek_shift [OF this, of 0 k] kk n' have "peek (rmem s1) d k = peek (rmem s) (data l) k" by simp
    with R d b(2) show ?thesis by (simp del: fun_upd_apply)
  qed
  then have M: "lhdr s1 = lhdr s" "cycs s1 = cycs s" using more_fields by blast+
  have dlp: "d \<noteq> lp" "?B lp = B lp"
  proof -
    have "(B(data l := None)) d = None" using L by (simp add: fresh_block_def)
    then show "d \<noteq> lp" using lpB L D(1) by (cases "data l = 0") (auto split: if_splits)
    then show "?B lp = B lp" using L D(1) by auto
  qed
  have hd: "lhdr ?s = (lhdr s)(lp := l\<lparr>fused := False, data := d, lcap := c\<rparr>)" using h by (cases "lhdr s lp") (simp add: M l_def)
  show ?thesis
  proof (rule grownI [of ?B])
    show "rinv ?B ?s" using L by (simp add: rinv_hdr)
    have "list_ok ?B ((lhdr s)(lp := (lhdr s lp)\<lparr>fused := False, data := d, lcap := c\<rparr>)) lp"
      by (rule moved_ok [where B' = ?B and d = d, OF ok c d dlp]) (use n in \<open>simp_all add: l_def\<close>)
    then show "list_ok ?B (lhdr ?s) lp" unfolding hd l_def .
    have oth: "others ?B (lhdr ?s lp) lp a = Some (u, i)" "(B(data l := None)) a = Some (u, i)" if "others B l lp a = Some (u, i)" for a u i
    proof -
      have a: "B a = Some (u, i)" "a \<noteq> lp" "a \<noteq> data l"
        using that h by (auto simp: others_def own_blocks_def l_def split: if_splits)
      then have "a \<noteq> d" using L by (auto simp: fresh_block_def)
      with a show "others ?B (lhdr ?s lp) lp a = Some (u, i)" "(B(data l := None)) a = Some (u, i)"
        unfolding hd by (auto simp: others_def own_blocks_def)
    qed
    have "rt_kept (others B l lp) s ?s" using L oth(2) unfolding rt_kept_def kept_def hp_upd_hdr by metis
    then show "only_list B s lp ?B ?s" using oth(1) M by (simp add: only_list_def l_def [symmetric] del: fun_upd_apply) (simp add: l_def)
    have "cells (rmem ?s) d (list_stride l) (nat (len l)) = cells (rmem s) (data l) (list_stride l) (nat (len l))"
      using L by (intro cells_cong) (simp add: k_def)
    then show "elems ?s lp = elems s lp" by (simp add: elems_def Let_def M l_def)
    show "lhdr ?s lp = (lhdr s lp)\<lparr>fused := fused (lhdr ?s lp), data := data (lhdr ?s lp), lcap := c\<rparr>" by (simp add: M)
  qed
qed

text \<open>The two growth functions double.\<close>

lemma next_cap_ok:
  assumes ok: "list_ok B L lp" and c: "lcap (L lp) < 2 ^ 30"
  shows "lcap (L lp) < next_cap (L lp)" "0 < next_cap (L lp)" "next_cap (L lp) < 2 ^ 31"
proof -
  have "is_int32 (lcap (L lp) * 2)" using c list_okD(2,3) [OF ok] by (simp add: is_int32_def)
  then show "lcap (L lp) < next_cap (L lp)" "0 < next_cap (L lp)" "next_cap (L lp) < 2 ^ 31"
    using c list_okD(2,3) [OF ok] by (auto simp: next_cap_def)
qed

lemma u64_id: "0 \<le> x \<Longrightarrow> x < 2 ^ 64 \<Longrightarrow> u64 x = nat x"
  by (simp add: u64_def)

lemma u64_int: "x < 2 ^ 64 \<Longrightarrow> u64 (int x) = x"
  by (simp add: u64_def)

lemma list_inline_grow_ok:
  assumes inv: "rinv B s" and ok: "list_ok B (lhdr s) lp" and hint: "larena (lhdr s lp) = 0 \<Longrightarrow> rt_arena_slot s = 0"
    and c: "lcap (lhdr s lp) < 2 ^ 30" and es: "elem_size (lhdr s lp) \<noteq> 0"
    and r: "list_inline_grow S lp s = Inr s'" and d': "data (lhdr s' lp) \<noteq> 0"
  shows "grown B s lp (next_cap (lhdr s lp)) s'"
proof -
  define l where "l = lhdr s lp"
  define n where "n = nat (next_cap l) * list_stride l"
  note D = list_okD [OF ok, folded l_def] and N = next_cap_ok [OF ok c, folded l_def]
  have st: "list_stride l = nat (elem_size l)" using es by (simp add: list_stride_def l_def)
  have size: "u64 (a * elem_size l) = nat a * list_stride l" if "0 \<le> a" "a < 2 ^ 31" for a
  proof -
    have e: "a * elem_size l = int (nat a * list_stride l)" using that(1) D(5) st by simp
    have "nat a * list_stride l < 2 ^ 64" using list_ok_size [OF ok that] by (simp add: l_def)
    then show ?thesis unfolding e by (rule u64_int)
  qed
  have nn: "u64 (next_cap l * elem_size l) = n" "u64 (len l * elem_size l) = nat (len l) * list_stride l"
    using size [of "next_cap l"] size [of "len l"] N D by (auto simp: n_def)
  show ?thesis
  proof (cases "list_grows_by_realloc lp s \<and> \<not> fused l")
    case True
    obtain d s1 where rr: "rt_base_realloc S (data l) n s = (d, s1)" by fastforce
    have s': "s' = upd_hdr lp (\<lambda>l. l\<lparr>data := d, lcap := next_cap (lhdr s lp)\<rparr>) s1"
      using r True rr nn by (simp add: list_inline_grow_def Let_def l_def)
    show ?thesis unfolding s'
    proof (rule list_realloc_ok [OF inv ok])
      show "d \<noteq> 0" using d' by (simp add: s')
      show "rt_base_realloc S (data (lhdr s lp)) n s = (d, s1)" using rr by (simp add: l_def)
    qed (use True N in \<open>auto simp: list_grows_by_realloc_def l_def n_def\<close>)
  next
    case False
    then have mv: "list_move S lp (next_cap l) n (\<lambda>nd d. list_copy_elem nd d (nat (len l) * list_stride l)) s = Inr s'"
      using r nn by (auto simp: list_inline_grow_def Let_def l_def split: if_splits)
    show ?thesis
    proof (rule list_move_ok [OF inv ok hint _ _ _ _ _ mv [unfolded l_def] d'])
      fix nd m assume ap: "apart nd n (data (lhdr s lp)) (nat (len (lhdr s lp)) * list_stride (lhdr s lp))"
      have "nat (len l) * list_stride l \<le> n" using N D by (auto simp: n_def intro!: mult_le_mono1)
      then have "apart nd (nat (len l) * list_stride l) (data l) (nat (len l) * list_stride l)"
        using ap by (auto elim: apart_sub simp: l_def)
      then show "list_copy_elem nd (data (lhdr s lp)) (nat (len (lhdr s lp)) * list_stride (lhdr s lp)) m =
          poke m nd (peek m (data (lhdr s lp)) (nat (len (lhdr s lp)) * list_stride (lhdr s lp)))"
        unfolding l_def by (rule list_copy_elem_eq)
    qed (use N in \<open>auto simp: l_def n_def\<close>)
  qed
qed

lemma list_push_grow_ok:
  assumes inv: "rinv B s" and ok: "list_ok B (lhdr s) lp" and hint: "larena (lhdr s lp) = 0 \<Longrightarrow> rt_arena_slot s = 0"
    and c: "lcap (lhdr s lp) < 2 ^ 30" and es: "elem_size (lhdr s lp) = 0"
    and r: "list_push_grow S lp s = Inr s'" and d': "data (lhdr s' lp) \<noteq> 0"
  shows "grown B s lp (next_cap (lhdr s lp)) s'"
proof -
  define l where "l = lhdr s lp"
  define n where "n = nat (next_cap l) * list_stride l"
  note D = list_okD [OF ok, folded l_def] and N = next_cap_ok [OF ok c, folded l_def]
  have st: "list_stride l = 8" using es by (simp add: list_stride_def l_def)
  have nn: "u64 (8 * next_cap l) = n" using N by (subst u64_id) (auto simp: n_def st)
  show ?thesis
  proof (cases "list_grows_by_realloc lp s \<and> \<not> fused l")
    case True
    obtain d s1 where rr: "rt_base_realloc S (data l) n s = (d, s1)" by fastforce
    have s': "s' = upd_hdr lp (\<lambda>l. l\<lparr>data := d, lcap := next_cap (lhdr s lp)\<rparr>) s1"
      using r True rr nn by (simp add: list_push_grow_def Let_def l_def)
    show ?thesis unfolding s'
    proof (rule list_realloc_ok [OF inv ok])
      show "d \<noteq> 0" using d' by (simp add: s')
      show "rt_base_realloc S (data (lhdr s lp)) n s = (d, s1)" using rr by (simp add: l_def)
    qed (use True N in \<open>auto simp: list_grows_by_realloc_def l_def n_def\<close>)
  next
    case False
    then have mv: "list_move S lp (next_cap l) n (\<lambda>nd d. copy_units 8 (nat (len l)) nd d) s = Inr s'"
      using r nn by (auto simp: list_push_grow_def Let_def l_def split: if_splits)
    show ?thesis
    proof (rule list_move_ok [OF inv ok hint _ _ _ _ _ mv [unfolded l_def] d'])
      fix nd m assume ap: "apart nd n (data (lhdr s lp)) (nat (len (lhdr s lp)) * list_stride (lhdr s lp))"
      have "nat (len l) * 8 \<le> n" using N D by (auto simp: n_def st intro!: mult_le_mono1)
      then have "apart nd (nat (len l) * 8) (data l) (nat (len l) * 8)"
        using ap by (auto elim: apart_sub simp: l_def [symmetric] st)
      then show "copy_units 8 (nat (len (lhdr s lp))) nd (data (lhdr s lp)) m =
          poke m nd (peek m (data (lhdr s lp)) (nat (len (lhdr s lp)) * list_stride (lhdr s lp)))"
        unfolding l_def [symmetric] st by (rule copy_units_eq)
    qed (use N in \<open>auto simp: l_def n_def\<close>)
  qed
qed

end

end
