(* ===== verification/List_Ops.thy ===== *)
theory List_Ops
  imports List_Inv
begin

text \<open>
  The operations on a list of scalars stored inline, against a list of cells: what each returns, when it
  fails, and that it changes nothing but the list.
\<close>

subsection \<open>Edits of the element block\<close>

definition same_kind :: "RtList \<Rightarrow> RtList \<Rightarrow> bool" where
  "same_kind l l' \<longleftrightarrow> elem_own l' = elem_own l \<and> elem_release l' = elem_release l \<and> larena l' = larena l
     \<and> elem_size l' = elem_size l \<and> grave_at l' = grave_at l \<and> grave l' = grave l \<and> grave_cap l' = grave_cap l"

text \<open>The outcome of an operation: the list is sound, its elements are \<open>xs\<close>, its kind is unchanged, and so is
  everything else.\<close>

definition list_now :: "(owned \<Rightarrow> ('a, 'b) lrt_scheme \<Rightarrow> bool) \<Rightarrow> owned \<Rightarrow> ('a, 'b) lrt_scheme \<Rightarrow> addr \<Rightarrow> byte list list \<Rightarrow> ('a, 'b) lrt_scheme \<Rightarrow> bool" where
  "list_now rinv B s lp xs s' \<longleftrightarrow> (\<exists>B'. rinv B' s' \<and> list_ok B' (lhdr s') lp \<and> only_list B s lp B' s') \<and> elems s' lp = xs
     \<and> same_kind (lhdr s lp) (lhdr s' lp)"

lemma list_nowI:
  "rinv B' s' \<Longrightarrow> list_ok B' (lhdr s') lp \<Longrightarrow> only_list B s lp B' s' \<Longrightarrow> elems s' lp = xs \<Longrightarrow> same_kind (lhdr s lp) (lhdr s' lp)
     \<Longrightarrow> list_now rinv B s lp xs s'"
  unfolding list_now_def by blast

lemma same_kind_refl [simp]: "same_kind l l"
  by (simp add: same_kind_def)

lemma same_kind_block: "same_kind l (l\<lparr>fused := f, data := d, lcap := c\<rparr>)"
  by (simp add: same_kind_def)

lemma list_ok_len:
  assumes "list_ok B L lp" "0 \<le> n" "n \<le> lcap (L lp)"
  shows "list_ok B (L(lp := (L lp)\<lparr>len := n\<rparr>)) lp"
  using assms by (simp add: list_ok_def Let_def)

lemma list_ok_data: "list_ok B L lp \<Longrightarrow> 0 < lcap (L lp) \<Longrightarrow> data (L lp) \<noteq> 0"
  by (auto simp: list_ok_def Let_def split: if_splits)

context list_rt
begin

lemma edit_ok:
  assumes inv: "rinv B s" and ok: "list_ok B (lhdr s) lp" and n: "0 \<le> n" "n \<le> lcap (lhdr s lp)"
    and q: "bs = [] \<or> data (lhdr s lp) \<le> q \<and> q + length bs \<le> data (lhdr s lp) + nat (lcap (lhdr s lp)) * list_stride (lhdr s lp)"
  shows "list_now rinv B s lp (cells (poke (rmem s) q bs) (data (lhdr s lp)) (list_stride (lhdr s lp)) (nat n))
    (upd_hdr lp (\<lambda>l. l\<lparr>len := n\<rparr>) (rt_poke q bs s))"
proof -
  let ?s = "rt_poke q bs s"
  have p: "rinv B ?s \<and> only_list B s lp B ?s"
  proof (cases "bs = []")
    case True
    then have "?s = s" by (simp add: rt_poke_def)
    then show ?thesis using inv by simp
  next
    case False
    then have "0 < length bs" by simp
    then have "lcap (lhdr s lp) \<noteq> 0" using q False by (cases bs) auto
    then have "0 < lcap (lhdr s lp)" using list_okD(2,3) [OF ok] by linarith
    then show ?thesis using list_store [OF inv ok list_ok_data [OF ok]] q False by blast
  qed
  show ?thesis
  proof (rule list_nowI [of _ B])
    show "rinv B (upd_hdr lp (\<lambda>l. l\<lparr>len := n\<rparr>) ?s)" using p by (simp add: rinv_hdr)
    show "list_ok B (lhdr (upd_hdr lp (\<lambda>l. l\<lparr>len := n\<rparr>) ?s)) lp" using list_ok_len [OF ok n] by simp
    show "only_list B s lp B (upd_hdr lp (\<lambda>l. l\<lparr>len := n\<rparr>) ?s)"
      by (rule only_list_hdr) (use p in \<open>simp_all add: own_blocks_def\<close>)
    show "elems (upd_hdr lp (\<lambda>l. l\<lparr>len := n\<rparr>) ?s) lp
        = cells (poke (rmem s) q bs) (data (lhdr s lp)) (list_stride (lhdr s lp)) (nat n)"
      by (simp add: elems_def Let_def rmem_poke)
  qed (simp add: same_kind_def)
qed

text \<open>An edit in a block that growth has just made.\<close>

lemma grown_then:
  assumes g: "grown B s lp c s1" and step: "\<And>B1. rinv B1 s1 \<Longrightarrow> list_ok B1 (lhdr s1) lp \<Longrightarrow> list_now rinv B1 s1 lp xs s'"
  shows "list_now rinv B s lp xs s'"
proof -
  obtain B1 where B1: "rinv B1 s1" "list_ok B1 (lhdr s1) lp" "only_list B s lp B1 s1" using g unfolding grown_def by blast
  from step [OF B1(1,2)] obtain B' where "rinv B' s'" "list_ok B' (lhdr s') lp" "only_list B1 s1 lp B' s'"
    "elems s' lp = xs" "same_kind (lhdr s1 lp) (lhdr s' lp)" unfolding list_now_def by blast
  moreover have "lhdr s1 lp = (lhdr s lp)\<lparr>fused := fused (lhdr s1 lp), data := data (lhdr s1 lp), lcap := c\<rparr>"
    using g unfolding grown_def by blast
  then have "same_kind (lhdr s lp) (lhdr s1 lp)" by (rule ssubst) (rule same_kind_block)
  ultimately show ?thesis using only_list_trans [OF B1(3)] by (intro list_nowI [of _ B']) (auto simp: same_kind_def)
qed

lemma list_now_then:
  assumes "list_now rinv B s lp xs s1" and step: "\<And>B1. rinv B1 s1 \<Longrightarrow> list_ok B1 (lhdr s1) lp \<Longrightarrow> list_now rinv B1 s1 lp ys s'"
  shows "list_now rinv B s lp ys s'"
proof -
  obtain B1 where B1: "rinv B1 s1" "list_ok B1 (lhdr s1) lp" "only_list B s lp B1 s1" "same_kind (lhdr s lp) (lhdr s1 lp)"
    using assms(1) unfolding list_now_def by blast
  from step [OF B1(1,2)] obtain B' where "rinv B' s'" "list_ok B' (lhdr s') lp" "only_list B1 s1 lp B' s'"
    "elems s' lp = ys" "same_kind (lhdr s1 lp) (lhdr s' lp)" unfolding list_now_def by blast
  then show ?thesis using only_list_trans [OF B1(3)] B1(4) by (intro list_nowI [of _ B']) (auto simp: same_kind_def)
qed

text \<open>A store that leaves the length alone.\<close>

lemma poke_ok:
  assumes inv: "rinv B s" and ok: "list_ok B (lhdr s) lp"
    and q: "bs = [] \<or> data (lhdr s lp) \<le> q \<and> q + length bs \<le> data (lhdr s lp) + nat (lcap (lhdr s lp)) * list_stride (lhdr s lp)"
  shows "list_now rinv B s lp (cells (poke (rmem s) q bs) (data (lhdr s lp)) (list_stride (lhdr s lp)) (nat (len (lhdr s lp)))) (rt_poke q bs s)"
proof -
  have "upd_hdr lp (\<lambda>l. l\<lparr>len := len (lhdr s lp)\<rparr>) (rt_poke q bs s) = rt_poke q bs s" by (simp add: upd_hdr_def)
  then show ?thesis using edit_ok [OF inv ok list_okD(2,3) [OF ok] q] by simp
qed

end

subsection \<open>The operations\<close>

lemma in_range_iff:
  assumes "list_ok B L lp" "is_int32 i"
  shows "in_range i (L lp) \<longleftrightarrow> 0 \<le> i \<and> i < len (L lp)"
  using u32_bounds_check [OF assms(2), of "len (L lp)"] list_okD [OF assms(1)] by (simp add: in_range_def is_int32_def)

definition scalar_list :: "int \<Rightarrow> RtList \<Rightarrow> bool" where
  "scalar_list es l \<longleftrightarrow> es \<in> {1, 2, 4, 8} \<and> elem_size l = es"

lemma scalar_stride: "scalar_list es l \<Longrightarrow> list_stride l = nat es \<and> elem_size l = es \<and> elem_size l \<noteq> 0"
  by (auto simp: scalar_list_def list_stride_def)

lemma scalar_store_eq: "scalar_list es l \<Longrightarrow> scalar_store d v es m = poke m d (le_bytes (nat es) v)"
  by (auto simp: scalar_list_def scalar_store_def)

lemma scalar_discard: "scalar_list es (lhdr s lp) \<Longrightarrow> list_discard_slot S R n lp i now s = Inr s"
  by (auto simp: scalar_list_def list_discard_slot_def Let_def sizeof_StrPair_def)

lemma scalar_each_down: "scalar_list es (lhdr s lp) \<Longrightarrow> each_down (\<lambda>i s. list_discard_slot S R n lp i now s) k i s = Inr s"
  by (induction k arbitrary: i) (simp_all add: scalar_discard)

lemma slot_end: "0 \<le> i \<Longrightarrow> i < c \<Longrightarrow> nat i * w + w \<le> nat c * w"
  by (rule cell_end) simp

context list_rt
begin

lemma scalar_put:
  assumes inv: "rinv B s" and ok: "list_ok B (lhdr s) lp" and sc: "scalar_list es (lhdr s lp)" and i: "0 \<le> i" "i < len (lhdr s lp)"
  shows "list_now rinv B s lp ((elems s lp)[nat i := le_bytes (nat es) v])
    (upd_mem (scalar_store (slot_at (lhdr s lp) i (nat es)) v es) s)"
proof -
  let ?l = "lhdr s lp" and ?bs = "le_bytes (nat es) v"
  have e: "upd_mem (scalar_store (slot_at ?l i (nat es)) v es) s = rt_poke (data ?l + nat i * nat es) ?bs s"
    by (rule upd_mem_poke) (simp add: scalar_store_eq [OF sc] slot_at_def)
  have st: "list_stride ?l = nat es" using scalar_stride [OF sc] by simp
  have "nat i * nat es + nat es \<le> nat (lcap ?l) * nat es" using i list_okD(3) [OF ok] by (intro slot_end) auto
  then have "list_now rinv B s lp (cells (poke (rmem s) (data ?l + nat i * nat es) ?bs) (data ?l) (nat es) (nat (len ?l)))
      (rt_poke (data ?l + nat i * nat es) ?bs s)"
    using poke_ok [OF inv ok, of ?bs "data ?l + nat i * nat es"] by (simp add: st)
  then show ?thesis using i by (simp add: e cells_set elems_def Let_def st)
qed

lemma scalar_append:
  assumes inv: "rinv B s" and ok: "list_ok B (lhdr s) lp" and sc: "scalar_list es (lhdr s lp)" and c: "len (lhdr s lp) < lcap (lhdr s lp)"
  shows "list_now rinv B s lp (elems s lp @ [le_bytes (nat es) v])
    (upd_hdr lp (\<lambda>l. l\<lparr>len := i32 (len l + 1)\<rparr>) (upd_mem (scalar_store (slot_at (lhdr s lp) (len (lhdr s lp)) (nat es)) v es) s))"
proof -
  let ?l = "lhdr s lp" and ?bs = "le_bytes (nat es) v"
  let ?q = "data ?l + nat (len ?l) * nat es"
  note D = list_okD [OF ok]
  have e: "upd_mem (scalar_store (slot_at ?l (len ?l) (nat es)) v es) s = rt_poke ?q ?bs s"
    by (rule upd_mem_poke) (simp add: scalar_store_eq [OF sc] slot_at_def)
  have st: "list_stride ?l = nat es" using scalar_stride [OF sc] by simp
  have i: "i32 (len ?l + 1) = len ?l + 1" "nat (len ?l + 1) = Suc (nat (len ?l))" using D c by (auto simp: is_int32_def)
  have h: "upd_hdr lp (\<lambda>l. l\<lparr>len := i32 (len l + 1)\<rparr>) (rt_poke ?q ?bs s) = upd_hdr lp (\<lambda>l. l\<lparr>len := len ?l + 1\<rparr>) (rt_poke ?q ?bs s)"
    by (simp add: upd_hdr_def i)
  have "nat (len ?l) * nat es + nat es \<le> nat (lcap ?l) * nat es" using D c by (intro slot_end) auto
  then have "list_now rinv B s lp (cells (poke (rmem s) ?q ?bs) (data ?l) (nat es) (nat (len ?l + 1)))
      (upd_hdr lp (\<lambda>l. l\<lparr>len := len ?l + 1\<rparr>) (rt_poke ?q ?bs s))"
    using edit_ok [OF inv ok, of "len ?l + 1" ?bs ?q] D c by (simp add: st)
  then show ?thesis by (simp add: e h i cells_push elems_def Let_def st)
qed

text \<open>A push: where the list is full it grows first, which is the one step that can fail, when no block is given.\<close>

lemma scalar_push:
  assumes inv: "rinv B s" and ok: "list_ok B (lhdr s) lp" and sc: "scalar_list es (lhdr s lp)"
    and hint: "larena (lhdr s lp) = 0 \<Longrightarrow> rt_arena_slot s = 0" and c: "lcap (lhdr s lp) < 2 ^ 30"
  shows "case list_push_inline_scalar S lp v es s of
      Inl e \<Rightarrow> e = Null_store \<and> len (lhdr s lp) = lcap (lhdr s lp)
    | Inr s' \<Rightarrow> list_now rinv B s lp (elems s lp @ [le_bytes (nat es) v]) s' \<and> len (lhdr s' lp) = len (lhdr s lp) + 1"
proof -
  note D = list_okD [OF ok] and st = scalar_stride [OF sc]
  show ?thesis
  proof (cases "len (lhdr s lp) < lcap (lhdr s lp)")
    case True
    then have "i32 (len (lhdr s lp) + 1) = len (lhdr s lp) + 1" using D by (simp add: is_int32_def)
    then show ?thesis using True scalar_append [OF inv ok sc True, of v] st by (simp add: list_push_inline_scalar_def Let_def)
  next
    case False
    then have full: "len (lhdr s lp) = lcap (lhdr s lp)" using D by simp
    have unf: "list_push_inline_scalar S lp v es s = andthen (list_inline_grow S lp s) (\<lambda>s. if data (lhdr s lp) = 0 then Inl Null_store
        else Inr (upd_hdr lp (\<lambda>l. l\<lparr>len := i32 (len l + 1)\<rparr>)
          (upd_mem (scalar_store (slot_at (lhdr s lp) (len (lhdr s lp)) (nat es)) v es) s)))"
      using False st by (simp add: list_push_inline_scalar_def list_push_inline_scalar_slow_def Let_def)
    show ?thesis
    proof (cases "list_inline_grow S lp s")
      case (Inl e)
      then have "e = Null_store" by (auto simp: list_inline_grow_def list_move_def Let_def split: if_splits prod.splits)
      then show ?thesis using Inl unf full by simp
    next
      case (Inr s1)
      show ?thesis
      proof (cases "data (lhdr s1 lp) = 0")
        case True
        then show ?thesis using Inr unf full by simp
      next
        case False
        have g: "grown B s lp (next_cap (lhdr s lp)) s1"
          using list_inline_grow_ok [OF inv ok hint c _ Inr False] st by blast
        then have h: "lhdr s1 lp = (lhdr s lp)\<lparr>fused := fused (lhdr s1 lp), data := data (lhdr s1 lp), lcap := next_cap (lhdr s lp)\<rparr>"
          and el: "elems s1 lp = elems s lp" unfolding grown_def by blast+
        have f: "len (lhdr s1 lp) = len (lhdr s lp)" "lcap (lhdr s1 lp) = next_cap (lhdr s lp)" "elem_size (lhdr s1 lp) = elem_size (lhdr s lp)"
          by (subst h, simp)+
        have room: "len (lhdr s1 lp) < lcap (lhdr s1 lp)" using full D c f by (auto simp: next_cap_def is_int32_def)
        have sc1: "scalar_list es (lhdr s1 lp)" using sc f by (simp add: scalar_list_def)
        have i: "i32 (len (lhdr s lp) + 1) = len (lhdr s lp) + 1" using D c full by (simp add: is_int32_def)
        have "list_now rinv B s lp (elems s lp @ [le_bytes (nat es) v]) (upd_hdr lp (\<lambda>l. l\<lparr>len := i32 (len l + 1)\<rparr>)
            (upd_mem (scalar_store (slot_at (lhdr s1 lp) (len (lhdr s1 lp)) (nat es)) v es) s1))"
          by (rule grown_then [OF g]) (use scalar_append [OF _ _ sc1 room] el in simp)
        then show ?thesis using False by (simp add: unf Inr f i)
      qed
    qed
  qed
qed

lemma list_swap_ok:
  assumes inv: "rinv B s" and ok: "list_ok B (lhdr s) lp"
    and ij: "0 \<le> i" "i < len (lhdr s lp)" "0 \<le> j" "j < len (lhdr s lp)"
  shows "\<exists>s'. list_swap lp i j s = Inr s'
    \<and> list_now rinv B s lp ((elems s lp)[nat i := elems s lp ! nat j, nat j := elems s lp ! nat i]) s'"
proof -
  let ?l = "lhdr s lp" and ?m = "rmem s"
  define w where "w = list_stride ?l"
  define a where "a = data ?l + nat i * w"
  define b where "b = data ?l + nat j * w"
  note D = list_okD [OF ok]
  have rng: "in_range i ?l" "in_range j ?l" using in_range_iff [OF ok] ij D by (auto simp: is_int32_def)
  have ap: "a = b \<or> apart a w b w"
    using cell_apart [of "nat i" "nat j" "data ?l" w] by (cases "nat i = nat j") (auto simp: a_def b_def)
  let ?s = "rt_poke b (peek ?m a w) (rt_poke a (peek ?m b w) s)"
  have "upd_mem (if w = 4 then exchange 4 a b else if w = 8 then exchange 8 a b else if w = 16 then exchange 16 a b else swap_span w a b) s
      = upd_mem (exchange w a b) s"
    using swap_span_exchange [OF ap, of ?m] by (auto simp: upd_mem_def)
  also have "\<dots> = ?s" by (simp add: upd_mem_def rt_poke_def exchange_def Let_def)
  finally have x: "upd_mem (if w = 4 then exchange 4 a b else if w = 8 then exchange 8 a b else if w = 16 then exchange 16 a b
      else swap_span w a b) s = ?s" .
  have r: "list_swap lp i j s = Inr ?s"
    using rng arg_cong [OF x [unfolded w_def a_def b_def], of Inr]
    by (simp only: list_swap_def Let_def slot_at_def w_def a_def b_def not_True_eq_False if_False)
  have e: "nat i * w + w \<le> nat (lcap ?l) * w" "nat j * w + w \<le> nat (lcap ?l) * w" using ij D by (auto intro!: slot_end)
  have 1: "list_now rinv B s lp (cells (poke ?m a (peek ?m b w)) (data ?l) w (nat (len ?l))) (rt_poke a (peek ?m b w) s)"
    using poke_ok [OF inv ok, of "peek ?m b w" a] e by (simp add: w_def [symmetric] a_def)
  have c: "cells (exchange w a b ?m) (data ?l) w (nat (len ?l))
      = (elems s lp)[nat i := elems s lp ! nat j, nat j := elems s lp ! nat i]"
    unfolding a_def b_def using ij by (subst exchange_cells) (simp_all add: elems_def Let_def w_def)
  have "list_now rinv B s lp (cells (exchange w a b ?m) (data ?l) w (nat (len ?l))) ?s"
  proof (rule list_now_then [OF 1])
    fix B1 assume "rinv B1 (rt_poke a (peek ?m b w) s)" "list_ok B1 (lhdr (rt_poke a (peek ?m b w) s)) lp"
    from poke_ok [OF this, of "peek ?m a w" b] e
    show "list_now rinv B1 (rt_poke a (peek ?m b w) s) lp (cells (exchange w a b ?m) (data ?l) w (nat (len ?l))) ?s"
      by (simp add: w_def [symmetric] b_def exchange_def Let_def rmem_poke)
  qed
  then show ?thesis using r c by simp
qed

lemma scalar_truncate:
  assumes inv: "rinv B s" and ok: "list_ok B (lhdr s) lp" and sc: "scalar_list es (lhdr s lp)"
  shows "\<exists>s'. list_truncate S R n lp k now s = Inr s' \<and> list_now rinv B s lp (take (nat k) (elems s lp)) s'"
proof -
  let ?l = "lhdr s lp"
  define k' where "k' = (if k < 0 then 0 else k)"
  note D = list_okD [OF ok]
  show ?thesis
  proof (cases "k' \<ge> len ?l")
    case True
    then have "list_truncate S R n lp k now s = Inr s" by (simp add: list_truncate_def Let_def k'_def)
    moreover have "take (nat k) (elems s lp) = elems s lp" using True D by (auto simp: elems_def Let_def k'_def split: if_splits)
    ultimately show ?thesis using inv ok by (auto intro: list_nowI)
  next
    case False
    then have "list_truncate S R n lp k now s = Inr (upd_hdr lp (\<lambda>l. l\<lparr>len := k'\<rparr>) s)"
      by (simp add: list_truncate_def Let_def k'_def scalar_each_down [OF sc])
    moreover have "list_now rinv B s lp (cells (rmem s) (data ?l) (list_stride ?l) (nat k')) (upd_hdr lp (\<lambda>l. l\<lparr>len := k'\<rparr>) s)"
      using edit_ok [OF inv ok, of k' "[]" 0] False D by (simp add: k'_def rt_poke_def)
    moreover have "cells (rmem s) (data ?l) (list_stride ?l) (nat k') = take (nat k) (elems s lp)"
      using cells_take [of "nat k'" "nat (len ?l)"] False by (auto simp: elems_def Let_def k'_def split: if_splits)
    ultimately show ?thesis by auto
  qed
qed

lemma scalar_remove:
  assumes inv: "rinv B s" and ok: "list_ok B (lhdr s) lp" and sc: "scalar_list es (lhdr s lp)" and i: "0 \<le> i" "i < len (lhdr s lp)"
  shows "\<exists>s'. list_remove_at S R n lp i now s = Inr s'
    \<and> list_now rinv B s lp (take (nat i) (elems s lp) @ drop (Suc (nat i)) (elems s lp)) s'"
proof -
  let ?l = "lhdr s lp" and ?m = "rmem s"
  define w where "w = list_stride ?l"
  define k where "k = nat (len ?l) - nat i - 1"
  define bs where "bs = peek ?m (data ?l + (nat i + 1) * w) (k * w)"
  note D = list_okD [OF ok]
  let ?s = "upd_hdr lp (\<lambda>l. l\<lparr>len := len ?l - 1\<rparr>) (rt_poke (data ?l + nat i * w) bs s)"
  have rng: "in_range i ?l" using in_range_iff [OF ok] i D by (auto simp: is_int32_def)
  have nn: "nat (len ?l - i - 1) = k" "nat (i + 1) = nat i + 1" using i by (auto simp: k_def)
  have "upd_mem (\<lambda>m. memmove m (slot_at ?l i w) (slot_at ?l (i + 1) w) (nat (len ?l - i - 1) * w)) s = rt_poke (data ?l + nat i * w) bs s"
    by (rule upd_mem_poke) (simp add: memmove_eq slot_at_def nn bs_def)
  then have r: "list_remove_at S R n lp i now s = Inr ?s"
    using rng by (simp add: list_remove_at_def Let_def scalar_discard [OF sc] w_def upd_hdr_def)
  have "nat i * w + k * w \<le> nat (lcap ?l) * w"
  proof -
    have "(nat i + k) * w \<le> nat (lcap ?l) * w" using D i by (intro mult_le_mono1) (auto simp: k_def)
    then show ?thesis by (simp add: distrib_right)
  qed
  then have "list_now rinv B s lp (cells (poke ?m (data ?l + nat i * w) bs) (data ?l) w (nat (len ?l - 1))) ?s"
    using edit_ok [OF inv ok, of "len ?l - 1" bs "data ?l + nat i * w"] D i by (simp add: w_def [symmetric] bs_def)
  moreover have "cells (poke ?m (data ?l + nat i * w) bs) (data ?l) w (nat (len ?l - 1))
      = take (nat i) (elems s lp) @ drop (Suc (nat i)) (elems s lp)"
    using cells_down [of "nat i" "nat (len ?l)" ?m "data ?l" w] i
    by (simp add: bs_def k_def elems_def Let_def w_def nat_diff_distrib)
  ultimately show ?thesis using r by auto
qed

text \<open>The rotation that puts the last element at \<open>i\<close>.\<close>

lemma scalar_move_last:
  assumes inv: "rinv B s" and ok: "list_ok B (lhdr s) lp" and w64: "list_stride (lhdr s lp) \<le> 64" and i: "0 \<le> i" "i < len (lhdr s lp)"
  shows "\<exists>s'. list_move_last lp i s = Inr s' \<and> list_now rinv B s lp
    (take (nat i) (elems s lp) @ [last (elems s lp)] @ drop (nat i) (butlast (elems s lp))) s'"
proof -
  let ?l = "lhdr s lp" and ?m = "rmem s"
  define w where "w = list_stride ?l"
  define c where "c = nat (len ?l)"
  define xs where "xs = elems s lp"
  note D = list_okD [OF ok]
  have ic: "nat i < c" using i by (simp add: c_def)
  have xs: "xs = cells ?m (data ?l) w c" by (simp add: xs_def elems_def Let_def w_def c_def)
  then have xl: "length xs = c" by simp
  then have xn: "xs \<noteq> []" using ic by auto
  show ?thesis
  proof (cases "i \<ge> len ?l - 1")
    case True
    then have e: "nat i = c - 1" using i by (auto simp: c_def)
    have b: "take (c - 1) xs = butlast xs" using xl by (simp add: butlast_conv_take)
    have "take (nat i) xs @ [last xs] @ drop (nat i) (butlast xs) = xs"
      unfolding e b using xl xn by simp
    moreover have "list_move_last lp i s = Inr s" using True by (simp add: list_move_last_def Let_def)
    ultimately show ?thesis using inv ok by (auto simp: xs_def intro: list_nowI)
  next
    case False
    define held where "held = peek ?m (data ?l + (c - 1) * w) w"
    define bs where "bs = peek ?m (data ?l + nat i * w) ((c - 1 - nat i) * w)"
    let ?q = "data ?l + (nat i + 1) * w"
    let ?s1 = "rt_poke ?q bs s" and ?s2 = "rt_poke (data ?l + nat i * w) held (rt_poke ?q bs s)"
    have nn: "nat (len ?l - 1) = c - 1" "nat (i + 1) = nat i + 1" "nat (len ?l - 1 - i) = c - 1 - nat i" using i by (auto simp: c_def)
    have r: "list_move_last lp i s = Inr ?s2"
      using False w64 by (simp add: list_move_last_def Let_def slot_at_def w_def [symmetric] upd_mem_def rt_poke_def memmove_eq held_def bs_def
          nn del: nat_1_add_1)
    have lim: "(nat i + 1) * w + (c - 1 - nat i) * w \<le> nat (lcap ?l) * w"
    proof -
      have "(nat i + 1 + (c - 1 - nat i)) * w \<le> nat (lcap ?l) * w" using D ic by (intro mult_le_mono1) (auto simp: c_def)
      then show ?thesis by (simp only: distrib_right)
    qed
    have lim2: "nat i * w + w \<le> nat (lcap ?l) * w" using D i by (intro slot_end) auto
    have 1: "list_now rinv B s lp (cells (poke ?m ?q bs) (data ?l) w c) ?s1"
      using poke_ok [OF inv ok, of bs ?q] lim by (simp add: w_def [symmetric] bs_def c_def [symmetric])
    have 2: "list_now rinv B s lp (cells (poke (poke ?m ?q bs) (data ?l + nat i * w) held) (data ?l) w c) ?s2"
    proof (rule list_now_then [OF 1])
      fix B1 assume "rinv B1 ?s1" "list_ok B1 (lhdr ?s1) lp"
      from poke_ok [OF this, of held "data ?l + nat i * w"] lim2
      show "list_now rinv B1 ?s1 lp (cells (poke (poke ?m ?q bs) (data ?l + nat i * w) held) (data ?l) w c) ?s2"
        by (simp add: w_def [symmetric] held_def c_def [symmetric] rmem_poke)
    qed
    have "cells (poke (poke ?m ?q bs) (data ?l + nat i * w) held) (data ?l) w c
        = (take (Suc (nat i)) xs @ take (c - 1 - nat i) (drop (nat i) xs))[nat i := xs ! (c - 1)]"
      using ic cells_up [OF ic, of ?m "data ?l" w] xs by (simp add: cells_set held_def bs_def)
    also have "\<dots> = take (nat i) xs @ [last xs] @ drop (nat i) (butlast xs)"
      using ic xl xn by (simp add: take_Suc_conv_app_nth list_update_append last_conv_nth butlast_conv_take drop_take)
    finally show ?thesis using r 2 xs_def by auto
  qed
qed

end

subsection \<open>Against an abstract list\<close>

datatype list_op = Push nat | Put int nat | Swap int int | Truncate int | Remove int | Insert int nat

text \<open>The calls that the compiler emits on a list of scalars of \<open>es\<close> bytes.\<close>

fun list_do :: "'a seam \<Rightarrow> ('a, 'b) releaser \<Rightarrow> nat \<Rightarrow> int \<Rightarrow> addr \<Rightarrow> list_op \<Rightarrow> ('a, 'b) lrt_scheme \<Rightarrow> ('a, 'b) lres" where
  "list_do S R n es lp (Push v) s = list_push_inline_scalar S lp v es s"
| "list_do S R n es lp (Put i v) s = list_set_inline_scalar S R n lp i v es s"
| "list_do S R n es lp (Swap i j) s = list_swap lp i j s"
| "list_do S R n es lp (Truncate k) s = list_truncate S R n lp k False s"
| "list_do S R n es lp (Remove i) s = list_remove_at S R n lp i False s"
| "list_do S R n es lp (Insert i v) s = list_insert_inline_scalar S lp i v es s"

fun list_spec :: "int \<Rightarrow> list_op \<Rightarrow> byte list list \<Rightarrow> rt_error + byte list list" where
  "list_spec es (Push v) xs = Inr (xs @ [le_bytes (nat es) v])"
| "list_spec es (Put i v) xs = (if 0 \<le> i \<and> i < int (length xs) then Inr (xs[nat i := le_bytes (nat es) v]) else Inl list_index_fail)"
| "list_spec es (Swap i j) xs =
     (if 0 \<le> i \<and> i < int (length xs) \<and> 0 \<le> j \<and> j < int (length xs) then Inr (xs[nat i := xs ! nat j, nat j := xs ! nat i])
      else Inl list_index_fail)"
| "list_spec es (Truncate k) xs = Inr (take (nat k) xs)"
| "list_spec es (Remove i) xs =
     (if 0 \<le> i \<and> i < int (length xs) then Inr (take (nat i) xs @ drop (Suc (nat i)) xs)
      else Inl (Exit ''removeAt index is out of range''))"
| "list_spec es (Insert i v) xs =
     (if 0 \<le> i \<and> i \<le> int (length xs) then Inr (take (nat i) xs @ [le_bytes (nat es) v] @ drop (nat i) xs)
      else Inl (Exit ''insert index is out of range''))"

fun op_int32 :: "list_op \<Rightarrow> bool" where
  "op_int32 (Push v) = True"
| "op_int32 (Put i v) = is_int32 i"
| "op_int32 (Swap i j) = (is_int32 i \<and> is_int32 j)"
| "op_int32 (Truncate k) = is_int32 k"
| "op_int32 (Remove i) = is_int32 i"
| "op_int32 (Insert i v) = is_int32 i"

text \<open>The outcome allowed to a call: what the abstract list does, or, for one that adds to a full list, the
  store through the null pointer that a refused growth leaves.\<close>

definition list_outcome :: "(owned \<Rightarrow> ('a, 'b) lrt_scheme \<Rightarrow> bool) \<Rightarrow> owned \<Rightarrow> ('a, 'b) lrt_scheme \<Rightarrow> addr \<Rightarrow> rt_error + byte list list \<Rightarrow> ('a, 'b) lres \<Rightarrow> bool" where
  "list_outcome rinv B s lp spec r \<longleftrightarrow>
     (case r of Inr s' \<Rightarrow> (\<exists>xs. spec = Inr xs \<and> list_now rinv B s lp xs s')
      | Inl e \<Rightarrow> spec = Inl e \<or> e = Null_store \<and> \<not> isl spec \<and> len (lhdr s lp) = lcap (lhdr s lp))"

lemma elems_len: "list_ok B (lhdr s) lp \<Longrightarrow> int (length (elems s lp)) = len (lhdr s lp)"
  using list_okD(2) [of B "lhdr s" lp] by (simp add: elems_def Let_def)

context list_rt
begin

lemma scalar_insert:
  assumes inv: "rinv B s" and ok: "list_ok B (lhdr s) lp" and sc: "scalar_list es (lhdr s lp)"
    and hint: "larena (lhdr s lp) = 0 \<Longrightarrow> rt_arena_slot s = 0" and c: "lcap (lhdr s lp) < 2 ^ 30"
  shows "list_outcome rinv B s lp (list_spec es (Insert i v) (elems s lp)) (list_insert_inline_scalar S lp i v es s)"
proof (cases "0 \<le> i \<and> i \<le> len (lhdr s lp)")
  case False
  then show ?thesis
    using elems_len [OF ok] by (auto simp: list_outcome_def list_insert_inline_scalar_def list_check_insert_index_def Let_def)
next
  case True
  then have u: "list_insert_inline_scalar S lp i v es s = andthen (list_push_inline_scalar S lp v es s) (list_move_last lp i)"
    by (simp add: list_insert_inline_scalar_def list_check_insert_index_def Let_def)
  note P = scalar_push [OF inv ok sc hint c, of v]
  show ?thesis
  proof (cases "list_push_inline_scalar S lp v es s")
    case (Inl e)
    then show ?thesis using P True u elems_len [OF ok] by (simp add: list_outcome_def)
  next
    case (Inr s1)
    let ?xs = "elems s lp" and ?x = "le_bytes (nat es) v"
    have 1: "list_now rinv B s lp (?xs @ [?x]) s1" and n: "len (lhdr s1 lp) = len (lhdr s lp) + 1" using P Inr by auto
    have "elem_size (lhdr s1 lp) = es" using 1 sc by (simp add: list_now_def same_kind_def scalar_list_def)
    then have w: "list_stride (lhdr s1 lp) \<le> 64" using sc by (auto simp: list_stride_def scalar_list_def)
    have el: "elems s1 lp = ?xs @ [?x]" using 1 by (simp add: list_now_def)
    obtain B1 where B1: "rinv B1 s1" "list_ok B1 (lhdr s1) lp" using 1 unfolding list_now_def by blast
    have i: "0 \<le> i" "i < len (lhdr s1 lp)" "nat i \<le> length ?xs" using True n elems_len [OF ok] by auto
    obtain s' where s': "list_move_last lp i s1 = Inr s'" using scalar_move_last [OF B1 w i(1,2)] by blast
    have "list_now rinv B s lp (take (nat i) ?xs @ [?x] @ drop (nat i) ?xs) s'"
      by (rule list_now_then [OF 1]) (use scalar_move_last [OF _ _ w i(1,2)] s' el i(3) in auto)
    then show ?thesis using s' u Inr True elems_len [OF ok] by (simp add: list_outcome_def)
  qed
qed

lemma list_do_ok:
  assumes inv: "rinv B s" and ok: "list_ok B (lhdr s) lp" and sc: "scalar_list es (lhdr s lp)"
    and hint: "larena (lhdr s lp) = 0 \<Longrightarrow> rt_arena_slot s = 0" and c: "lcap (lhdr s lp) < 2 ^ 30" and op: "op_int32 op"
  shows "list_outcome rinv B s lp (list_spec es op (elems s lp)) (list_do S R n es lp op s)"
proof (cases op)
  case (Push v)
  then show ?thesis using scalar_push [OF inv ok sc hint c, of v] by (auto simp: list_outcome_def split: sum.splits)
next
  case (Put i v)
  then have "in_range i (lhdr s lp) \<longleftrightarrow> 0 \<le> i \<and> i < len (lhdr s lp)" using in_range_iff [OF ok] op by simp
  then show ?thesis
    using Put scalar_put [OF inv ok sc, of i v] scalar_stride [OF sc] elems_len [OF ok]
    by (auto simp: list_outcome_def list_set_inline_scalar_def Let_def)
next
  case (Swap i j)
  show ?thesis
  proof (cases "0 \<le> i \<and> i < len (lhdr s lp) \<and> 0 \<le> j \<and> j < len (lhdr s lp)")
    case True
    then show ?thesis using Swap list_swap_ok [OF inv ok, of i j] elems_len [OF ok] by (auto simp: list_outcome_def)
  next
    case False
    then have "list_swap lp i j s = Inl list_index_fail"
      using Swap op in_range_iff [OF ok] by (auto simp: list_swap_def Let_def)
    then show ?thesis using Swap False elems_len [OF ok] by (auto simp: list_outcome_def)
  qed
next
  case (Truncate k)
  then show ?thesis using scalar_truncate [OF inv ok sc, of R n k False] by (auto simp: list_outcome_def)
next
  case (Remove i)
  then have "in_range i (lhdr s lp) \<longleftrightarrow> 0 \<le> i \<and> i < len (lhdr s lp)" using in_range_iff [OF ok] op by simp
  then show ?thesis
    using Remove scalar_remove [OF inv ok sc, of i R n False] elems_len [OF ok]
    by (cases "0 \<le> i \<and> i < len (lhdr s lp)") (auto simp: list_outcome_def list_remove_at_def Let_def)
next
  case (Insert i v)
  then show ?thesis using scalar_insert [OF inv ok sc hint c] by simp
qed

end

lemma rt_inv_hdr: "rt_inv hinv B (upd_hdr lp f s) = rt_inv hinv B s"
proof -
  have a: "arena_of w (upd_hdr lp f s) = arena_of w s" for w by (auto simp: arena_of_def upd_hdr_def split: option.splits)
  then have c: "chunks w (upd_hdr lp f s) = chunks w s" for w by (simp add: chunks_def)
  then have k: "chunk_set (upd_hdr lp f s) = chunk_set s" by (simp add: chunk_set_def fun_eq_iff)
  have r: "in_region (upd_hdr lp f s) = in_region s" using a by (simp add: in_region_def fun_eq_iff)
  show ?thesis unfolding rt_inv_def arenas_ok_def held_ok_def a c r k hp_upd_hdr ..
qed

sublocale seam_spec \<subseteq> lists: list_rt S "rt_inv inv :: owned \<Rightarrow> ('a, 'b) lrt_scheme \<Rightarrow> bool"
  by unfold_locales (rule rt_inv_hdr)

context seam_spec
begin

lemma list_rt_laws: "list_rt S (rt_inv inv :: owned \<Rightarrow> ('a, 'b) lrt_scheme \<Rightarrow> bool)"
  by (rule lists.list_rt_axioms)

end

text \<open>C17. On every allocator that keeps its contract, each operation on a list of inline scalars does to the
  elements what the operation on a mathematical list does, or ends with the error that the
  mathematical list gives; the one other outcome is a push to a full list for which no block was
  given.  The list stays sound, and every other block and header that the program holds keeps its
  contents.  The list has fewer than \<open>2 ^ 30\<close> slots, and a heap list is not grown under an arena hint.\<close>

theorem list_ops_refine:
  assumes "seam_spec S hinv" and "rt_inv hinv B s" and "list_ok B (lhdr s) lp" and "scalar_list es (lhdr s lp)"
    and "larena (lhdr s lp) = 0 \<longrightarrow> rt_arena_slot s = 0" and "lcap (lhdr s lp) < 2 ^ 30" and "op_int32 op"
  shows "list_outcome (rt_inv hinv) B s lp (list_spec es op (elems s lp)) (list_do S R n es lp op s)"
  using list_rt.list_do_ok [OF seam_spec.list_rt_laws [OF assms(1)]] assms(2-) by blast

text \<open>A fused list with room for four numbers of four bytes and two of them in it.\<close>

definition no_arena :: ArenaState where
  "no_arena = \<lparr>stack = [], bytes_served = 0, objects_served = 0, regions_entered = 0, pool = [], pool_count = 0\<rparr>"

definition no_cycles :: cyc where
  "no_cycles = \<lparr>hdrs = \<lambda>_. \<lparr>rc = 0, colour = CYC_BLACK, buffered = False, children = None\<rparr>, freed = [], stale = [],
     cyc_candidates = [], cyc_cand_cap = 0, cyc_allocated = 0, cyc_collected = 0, cyc_collections = 0\<rparr>"

definition pair_list :: "unit lrt" where
  "pair_list = \<lparr>hp = \<lparr>mem = \<lambda>_. 0, live = [4096 \<mapsto> 80], pick = \<lambda>_ _. (0, 0), repick = \<lambda>_ _ _. (0, 0), self = 0,
       worker = \<lambda>_. False, threads_enabled = False\<rparr>,
     arena_main_state = no_arena, arena_worker_state = \<lambda>_. no_arena, rt_arena_hint = 0, rt_worker_arena_hint = \<lambda>_. 0,
     lhdr = \<lambda>_. \<lparr>data = 4160, len = 2, lcap = 4, elem_own = 0, elem_release = 0, larena = 0, elem_size = 4, grave_at = 0, grave = [],
       grave_cap = 0, fused = True\<rparr>,
     cycs = no_cycles\<rparr>"

lemma pair_list_inv: "rt_inv plain_inv [4096 \<mapsto> (Seam, 80)] pair_list"
proof -
  have "plain_inv [4096 \<mapsto> (Seam, 80)] (hp pair_list)"
    by (intro plain_invI) (auto simp: pair_list_def libc_ok_def live_wf_def apart_def split: if_splits)
  then show ?thesis
    by (rule rt_inv_no_arena) (auto simp: chunks_def arena_of_def pair_list_def no_arena_def split: option.splits if_splits)
qed

theorem list_ops_refine_witness:
  "\<exists>s'. list_do plain_seam (\<lambda>f p s. Inr s) 0 4 4096 (Insert 1 258) pair_list = Inr s'
     \<and> elems s' 4096 = [[0, 0, 0, 0], [2, 1, 0, 0], [0, 0, 0, 0]]"
proof -
  have ok: "list_ok [4096 \<mapsto> (Seam, 80)] (lhdr pair_list) 4096" "scalar_list 4 (lhdr pair_list 4096)"
    by (simp_all add: list_ok_def Let_def pair_list_def list_stride_def scalar_list_def)
  have st: "larena (lhdr pair_list 4096) = 0 \<longrightarrow> rt_arena_slot pair_list = 0" "lcap (lhdr pair_list 4096) < 2 ^ 30"
      "len (lhdr pair_list 4096) \<noteq> lcap (lhdr pair_list 4096)"
    by (simp_all add: pair_list_def rt_arena_slot_def rt_arena_hint_state_def state_key_def on_worker_def
        prismio_memory_threads_are_enabled_def)
  have u: "[0..<4] = [0, 1, 2, 3 :: nat]" "[0..<2] = [0, 1 :: nat]" by (simp_all add: upt_conv_Cons)
  have e: "elems pair_list 4096 = [[0, 0, 0, 0], [0, 0, 0, 0]]"
    by (simp add: elems_def Let_def pair_list_def list_stride_def cells_def peek_def u)
  have "le_bytes (Suc (Suc (Suc (Suc 0)))) 258 = [2, 1, 0, 0]" by simp
  moreover have "(4 :: nat) = Suc (Suc (Suc (Suc 0)))" by simp
  ultimately have "le_bytes 4 258 = [2, 1, 0, 0]" by (simp only:)
  then have sp: "list_spec 4 (Insert 1 258) (elems pair_list 4096) = Inr [[0, 0, 0, 0], [2, 1, 0, 0], [0, 0, 0, 0]]" by (simp add: e)
  have "list_outcome (rt_inv plain_inv) [4096 \<mapsto> (Seam, 80)] pair_list 4096 (list_spec 4 (Insert 1 258) (elems pair_list 4096))
      (list_do plain_seam (\<lambda>f p s. Inr s) 0 4 4096 (Insert 1 258) pair_list)"
    by (rule list_ops_refine [OF plain.seam_spec_axioms pair_list_inv ok st(1,2)]) (simp add: is_int32_def)
  then show ?thesis unfolding sp using st(3) by (auto simp: list_outcome_def list_now_def split: sum.splits)
qed

subsection \<open>Growth under an arena hint\<close>

text \<open>One open region with one chunk that has served a block of up to sixteen bytes.\<close>

definition one_region :: "unit rt" where
  "one_region = \<lparr>hp = \<lparr>mem = \<lambda>_. 0, live = [4096 \<mapsto> 32, 8192 \<mapsto> 8192], pick = \<lambda>_ _. (0, 0),
       repick = \<lambda>_ _ _. (0, 0), self = 0, worker = \<lambda>_. False, threads_enabled = False\<rparr>,
     arena_main_state = \<lparr>stack = [[\<lparr>hdr = 4096, used = 16, cap = 8192, base = 8192\<rparr>]], bytes_served = 16,
       objects_served = 1, regions_entered = 1, pool = [], pool_count = 0\<rparr>,
     arena_worker_state = \<lambda>_. \<lparr>stack = [], bytes_served = 0, objects_served = 0, regions_entered = 0,
       pool = [], pool_count = 0\<rparr>,
     rt_arena_hint = 1, rt_worker_arena_hint = \<lambda>_. 0\<rparr>"

text \<open>A full heap list that a program pushes to while a region is open and an arena hint is set: its new block is
  a piece of the region's chunk, which \<open>malloc\<close> never returned, and its header still says heap.  Its
  release then gives that address to \<open>free\<close>.\<close>

definition hinted_list :: "unit lrt" where
  "hinted_list = \<lparr>hp = hp one_region, arena_main_state = arena_main_state one_region, arena_worker_state = \<lambda>_. no_arena,
     rt_arena_hint = 1, rt_worker_arena_hint = \<lambda>_. 0,
     lhdr = \<lambda>_. \<lparr>data = 24576, len = 4, lcap = 4, elem_own = 0, elem_release = 0, larena = 0, elem_size = 4, grave_at = 0, grave = [],
       grave_cap = 0, fused = False\<rparr>,
     cycs = no_cycles\<rparr>\<lparr>hp := (hp one_region)\<lparr>live := (live (hp one_region))(20480 \<mapsto> 64, 24576 \<mapsto> 16)\<rparr>\<rparr>"

theorem list_push_hinted_leaves_heap:
  "case list_push_inline_scalar plain_seam 20480 7 4 hinted_list of Inl e \<Rightarrow> False
   | Inr s' \<Rightarrow> larena (lhdr s' 20480) = 0 \<and> \<not> fused (lhdr s' 20480) \<and> data (lhdr s' 20480) = 8208 \<and> live (hp s') 8208 = None
     \<and> list_free_data plain_seam 20480 s' = rt_free plain_seam 8208 s'"
proof -
  let ?l = "lhdr hinted_list 20480" and ?c = "\<lparr>hdr = 4096, used = 16, cap = 8192, base = 8192\<rparr>"
  have k: "state_key hinted_list = None"
    by (simp add: hinted_list_def one_region_def state_key_def on_worker_def prismio_memory_threads_are_enabled_def)
  have h: "rt_arena_hint_state hinted_list = 1" by (simp add: rt_arena_hint_state_def k) (simp add: hinted_list_def)
  have a: "stack (arena_of None hinted_list) = [[?c]]" by (simp add: arena_of_def) (simp add: hinted_list_def one_region_def)
  have l: "data ?l = 24576" "len ?l = 4" "lcap ?l = 4" "larena ?l = 0" "elem_size ?l = 4" "\<not> fused ?l" by (simp_all add: hinted_list_def)
  have n: "next_cap ?l = 8" "u64 32 = 32" by (simp_all add: next_cap_def l i32_def u64_def)
  have seam_free_plain: "seam_free plain_seam 24576 g = g\<lparr>live := (live g)(24576 := None)\<rparr>" for g
    by (simp add: plain_seam_def plain_rt_free_def tmp_free_def)
  have live: "live (hp hinted_list) 8208 = None" "live (hp hinted_list) 24576 = Some 16" by (simp_all add: hinted_list_def one_region_def)
  obtain s1 where s1: "rt_alloc plain_seam 32 hinted_list = (8208, s1)" "hp s1 = hp hinted_list" "lhdr s1 = lhdr hinted_list"
  proof
    show "rt_alloc plain_seam 32 hinted_list = (8208, put_arena None ((arena_of None hinted_list)\<lparr>stack := [[?c\<lparr>used := 48\<rparr>]],
        bytes_served := bytes_served (arena_of None hinted_list) + 32, objects_served := objects_served (arena_of None hinted_list) + 1\<rparr>) hinted_list)"
      by (simp add: rt_alloc_def h arena_alloc_def k a arena_alloc_slot_def arena_need_def arena_bump_def Let_def)
  qed (simp_all add: put_arena_def)
  show ?thesis
    using s1 live l n h by (simp add: list_push_inline_scalar_def list_push_inline_scalar_slow_def list_inline_grow_def list_grows_by_realloc_def
        Let_def list_move_def list_block_def list_free_data_def upd_hdr_def upd_mem_def rt_free_def seam_free_plain)
qed

end
