(* ===== verification/List_Release.thy ===== *)
theory List_Release
  imports List_Ops
begin

text \<open>
  Teardown: a list that owns its boxed elements gives back each of them, its parked elements, its block
  and its header, each once.
\<close>

definition without :: "owned \<Rightarrow> addr set \<Rightarrow> owned" where
  "without B A = (\<lambda>a. if a \<in> A then None else B a)"

lemma without_empty [simp]: "without B {} = B"
  by (simp add: without_def)

lemma without_insert: "without B (insert p A) = without (B(p := None)) A"
  by (auto simp: without_def)

lemma without_without: "without (without B A) C = without B (A \<union> C)"
  by (auto simp: without_def)

lemma rt_kept_sub: "rt_kept B s s' \<Longrightarrow> (\<And>a x. B' a = Some x \<Longrightarrow> B a = Some x) \<Longrightarrow> rt_kept B' s s'"
  unfolding rt_kept_def kept_def by (metis (no_types, lifting))

lemma rt_kept_without: "rt_kept B s s' \<Longrightarrow> rt_kept (without B A) s s'"
  by (erule rt_kept_sub) (auto simp: without_def split: if_splits)

lemma rt_kept_trans: "rt_kept B s s1 \<Longrightarrow> rt_kept B s1 s2 \<Longrightarrow> rt_kept B s s2"
  unfolding rt_kept_def kept_def by (metis (no_types, lifting))

text \<open>Blocks that the program holds from the seam.\<close>

definition seam_blocks :: "owned \<Rightarrow> addr list \<Rightarrow> bool" where
  "seam_blocks B ps \<longleftrightarrow> distinct ps \<and> (\<forall>p \<in> set ps. \<exists>k. B p = Some (Seam, k))"

text \<open>The first \<open>k\<close> elements of a boxed list, which stores them as pointers, null ones left out.\<close>

definition pointers :: "nat \<Rightarrow> ('a, 'b) lrt_scheme \<Rightarrow> addr \<Rightarrow> addr list" where
  "pointers k s lp = filter (\<lambda>p. p \<noteq> 0) (map le_nat (take k (elems s lp)))"

lemma ptr_get_elems:
  assumes "elem_size (lhdr s lp) = 0" "0 \<le> i" "i < len (lhdr s lp)"
  shows "ptr_get lp i s = le_nat (elems s lp ! nat i)"
  using assms by (simp add: ptr_get_def slot_at_def load64_def elems_def Let_def list_stride_def)

lemma list_ok_without:
  assumes "list_ok B L lp" "A \<inter> own_blocks (L lp) lp = {}"
  shows "list_ok (without B A) L lp"
proof -
  have "without B A a = B a" if "a \<in> own_blocks (L lp) lp" for a using that assms(2) by (auto simp: without_def)
  then have "without B A lp = B lp" "\<not> fused (L lp) \<Longrightarrow> without B A (data (L lp)) = B (data (L lp))"
    by (auto simp: own_blocks_def split: if_splits)
  then show ?thesis using assms(1) by (simp add: list_ok_def Let_def split: if_splits)
qed

lemma kept_elems:
  assumes ok: "list_ok B (lhdr s) lp" and k: "rt_kept B s s'" and h: "lhdr s' = lhdr s"
  shows "elems s' lp = elems s lp"
proof (cases "data (lhdr s lp) = 0")
  case True
  then have "len (lhdr s lp) = 0" using ok by (auto simp: list_ok_def Let_def split: if_splits)
  then show ?thesis by (simp add: elems_def Let_def h cells_def)
next
  case False
  let ?l = "lhdr s lp"
  obtain b v j where b: "B b = Some (v, j)" "b \<le> data ?l" "data ?l + nat (lcap ?l) * list_stride ?l \<le> b + j"
    using list_ok_block [OF ok False] by metis
  have "nat (len ?l) * list_stride ?l \<le> nat (lcap ?l) * list_stride ?l"
    using list_okD [OF ok] by (intro mult_le_mono1) auto
  then have "data ?l + nat (len ?l) * list_stride ?l \<le> b + j" using b(3) by linarith
  then have "within B (data ?l) (nat (len ?l) * list_stride ?l)" using b(1,2) by (auto simp: within_def)
  from within_kept [OF this k] show ?thesis by (auto simp: elems_def Let_def h intro: cells_cong)
qed

lemma chunk_set_upd [simp]: "chunk_set (upd_hdr lp f s) = chunk_set s" "chunk_set (rt_free S p s) = chunk_set s"
  by (simp_all add: chunk_set_def chunks_def fun_eq_iff arena_of_def upd_hdr_def rt_free_def split: option.splits)

context list_rt
begin

lemma free_one:
  assumes "rinv B s" "B p = Some (Seam, k)"
  shows "rinv (without B {p}) (rt_free S p s)" "rt_kept (without B {p}) s (rt_free S p s)"
  using rt_free_law [OF assms] by (simp_all add: without_insert)

lemma parked_freed:
  assumes "rinv B s" "seam_blocks B ps" "\<And>s. lhdr s = L \<Longrightarrow> \<forall>e. rel e s = Inr (rt_free S e s)" "lhdr s = L"
  shows "\<exists>s'. release_each rel ps s = Inr s' \<and> rinv (without B (set ps)) s' \<and> rt_kept (without B (set ps)) s s'
    \<and> lhdr s' = L \<and> cycs s' = cycs s \<and> chunk_set s' = chunk_set s"
  using assms(1,2,4)
proof (induction ps arbitrary: B s)
  case Nil
  then show ?case by (simp add: rt_kept_def)
next
  case (Cons p ps)
  obtain k where k: "B p = Some (Seam, k)" using Cons.prems(2) by (auto simp: seam_blocks_def)
  note F = free_one [OF Cons.prems(1) k]
  have "seam_blocks (without B {p}) ps" using Cons.prems(2) by (auto simp: seam_blocks_def without_def)
  from Cons.IH [OF F(1) this] Cons.prems(3) obtain s' where s': "release_each rel ps (rt_free S p s) = Inr s'"
    "rinv (without B (set (p # ps))) s'" "rt_kept (without B (set (p # ps))) (rt_free S p s) s'" "lhdr s' = L" "cycs s' = cycs s \<and> chunk_set s' = chunk_set s"
    by (auto simp: without_without)
  have "rt_kept (without B (set (p # ps))) s (rt_free S p s)"
    by (rule rt_kept_sub [OF F(2)]) (auto simp: without_def split: if_splits)
  with s' have "rt_kept (without B (set (p # ps))) s s'" by (blast intro: rt_kept_trans)
  then show ?case using s' assms(3) [of s] Cons.prems(3) by simp
qed

text \<open>The loop over the elements, last to first.\<close>

lemma elements_freed:
  assumes rel: "\<And>s e. lhdr s = L \<Longrightarrow> rel e s = Inr (rt_free S e s)" and es: "elem_size (L lp) = 0"
    and "rinv B s" "lhdr s = L" "list_ok B L lp" "k \<le> nat (len (L lp))"
    and "seam_blocks B (pointers k s lp)" "set (pointers k s lp) \<inter> own_blocks (L lp) lp = {}"
  shows "\<exists>s'. each_down (\<lambda>i s. let e = ptr_get lp i s in if e \<noteq> 0 then rel e s else Inr s) k 0 s = Inr s'
    \<and> rinv (without B (set (pointers k s lp))) s' \<and> rt_kept (without B (set (pointers k s lp))) s s' \<and> lhdr s' = L \<and> cycs s' = cycs s \<and> chunk_set s' = chunk_set s"
  using assms(3-)
proof (induction k arbitrary: B s)
  case 0
  then show ?case by (simp add: pointers_def rt_kept_def)
next
  case (Suc k)
  define e where "e = ptr_get lp (int k) s"
  have len: "length (elems s lp) = nat (len (L lp))" using Suc.prems(2) by (simp add: elems_def Let_def)
  have e': "e = le_nat (elems s lp ! k)" using Suc.prems(2,4) es by (simp add: e_def ptr_get_elems)
  have P: "pointers (Suc k) s lp = pointers k s lp @ (if e \<noteq> 0 then [e] else [])"
    using Suc.prems(4) len by (simp add: pointers_def take_Suc_conv_app_nth e')
  show ?case
  proof (cases "e = 0")
    case True
    then have "pointers (Suc k) s lp = pointers k s lp" using P by simp
    then show ?thesis using Suc.IH [OF Suc.prems(1-3)] Suc.prems(4-6) True by (simp add: e_def [symmetric] Let_def)
  next
    case False
    let ?s = "rt_free S e s" and ?B = "without B {e}"
    have Pe: "pointers (Suc k) s lp = pointers k s lp @ [e]" using P False by simp
    then obtain j where j: "B e = Some (Seam, j)" using Suc.prems(5) by (auto simp: seam_blocks_def)
    note F = free_one [OF Suc.prems(1) j]
    have ok: "list_ok ?B L lp" by (rule list_ok_without) (use Suc.prems(3,6) Pe in auto)
    have "elems ?s lp = elems s lp" by (rule kept_elems [OF _ F(2)]) (use ok Suc.prems(2) in auto)
    then have el: "pointers k ?s lp = pointers k s lp" by (simp add: pointers_def)
    have "seam_blocks ?B (pointers k ?s lp)" using Suc.prems(5) unfolding Pe el by (auto simp: seam_blocks_def without_def)
    moreover have "set (pointers k ?s lp) \<inter> own_blocks (L lp) lp = {}" using Suc.prems(6) unfolding Pe el by auto
    ultimately obtain s' where s': "each_down (\<lambda>i s. let e = ptr_get lp i s in if e \<noteq> 0 then rel e s else Inr s) k 0 ?s = Inr s'"
        "rinv (without B (set (pointers (Suc k) s lp))) s'" "rt_kept (without B (set (pointers (Suc k) s lp))) ?s s'" "lhdr s' = L" "cycs s' = cycs s \<and> chunk_set s' = chunk_set s"
      using Suc.IH [OF F(1) _ ok] Suc.prems(2,4) unfolding Pe el by (auto simp: without_without)
    have "rt_kept (without B (set (pointers (Suc k) s lp))) s ?s"
      by (rule rt_kept_sub [OF F(2)]) (auto simp: Pe without_def split: if_splits)
    with s' have "rt_kept (without B (set (pointers (Suc k) s lp))) s s'" by (blast intro: rt_kept_trans)
    moreover have "each_down (\<lambda>i s. let e = ptr_get lp i s in if e \<noteq> 0 then rel e s else Inr s) (Suc k) 0 s = Inr s'"
      using s'(1) False rel [OF Suc.prems(2), of e] by (simp add: e_def [symmetric] Let_def)
    ultimately show ?thesis using s' by blast
  qed
qed

text \<open>The array of parked elements, the element block and the header.\<close>

lemma blocks_freed:
  assumes inv: "rinv B s" and ok: "list_ok B (lhdr s) lp" and a: "larena (lhdr s lp) = 0"
    and g: "grave_at (lhdr s lp) = 0 \<or> (\<exists>k. B (grave_at (lhdr s lp)) = Some (Tmp, k))"
  defines "A \<equiv> insert (grave_at (lhdr s lp)) (own_blocks (lhdr s lp) lp)"
  shows "rinv (without B A) (rt_free S lp (list_free_data S lp (forget_grave lp s)))
    \<and> rt_kept (without B A) s (rt_free S lp (list_free_data S lp (forget_grave lp s)))"
proof -
  let ?l = "lhdr s lp"
  have B0: "B 0 = None" by (rule owned_null [OF rinv_wf [OF inv]])
  define s1 where "s1 = forget_grave lp s"
  define B1 where "B1 = without B {grave_at ?l}"
  have s1: "rinv B1 s1 \<and> rt_kept B1 s s1"
  proof (cases "grave_at ?l = 0")
    case True
    then have "B1 = B" using B0 by (auto simp: B1_def without_def)
    then show ?thesis using True inv by (simp add: s1_def forget_grave_def rinv_hdr rt_kept_def rt_tmp_free_def tmp_free_def)
  next
    case False
    then obtain k where "B (grave_at ?l) = Some (Tmp, k)" using g by auto
    from rt_tmp_free_law [OF inv this] show ?thesis
      by (simp add: s1_def B1_def without_insert forget_grave_def rinv_hdr rt_kept_def)
  qed
  have own: "\<exists>k. B1 x = Some (Seam, k)" if x: "x \<in> own_blocks ?l lp" "x \<noteq> 0" for x
  proof -
    obtain k where k: "B x = Some (Seam, k)" using x ok a by (auto simp: own_blocks_def list_ok_def Let_def split: if_splits)
    then have "x \<noteq> grave_at ?l" using g x by auto
    then show ?thesis using k by (simp add: B1_def without_def)
  qed
  have h: "data (lhdr s1 lp) = data ?l" "larena (lhdr s1 lp) = 0" "fused (lhdr s1 lp) = fused ?l"
    using a by (simp_all add: s1_def forget_grave_def rt_tmp_free_def)
  define s2 where "s2 = list_free_data S lp s1"
  define B2 where "B2 = without B1 (own_blocks ?l lp - {lp})"
  have s2: "rinv B2 s2 \<and> rt_kept B2 s1 s2"
  proof (cases "data ?l \<noteq> 0 \<and> \<not> fused ?l")
    case True
    then have d: "data ?l \<noteq> lp" using ok by (auto simp: list_ok_def Let_def)
    then have B2: "B2 = without B1 {data ?l}" using True by (auto simp: B2_def own_blocks_def)
    obtain k where "B1 (data ?l) = Some (Seam, k)" using own [of "data ?l"] True by (auto simp: own_blocks_def)
    from free_one [of B1 s1, OF conjunct1 [OF s1] this] show ?thesis using True by (auto simp: s2_def list_free_data_def Let_def h B2)
  next
    case False
    then have "B2 = B1" using B0 by (auto simp: B2_def B1_def without_def own_blocks_def fun_eq_iff)
    then show ?thesis using False s1 by (auto simp: s2_def list_free_data_def Let_def h rt_kept_def)
  qed
  have "lp \<in> own_blocks ?l lp" by (simp add: own_blocks_def)
  then obtain k where "B1 lp = Some (Seam, k)" using own [of lp] list_okD(1) [OF ok] by blast
  then have "B2 lp = Some (Seam, k)" by (simp add: B2_def without_def)
  note F = free_one [of B2 s2, OF conjunct1 [OF s2] this]
  have e: "without B2 {lp} = without B A"
    by (auto simp: B2_def B1_def A_def without_without own_blocks_def intro!: arg_cong [of _ _ "without B"])
  have "rt_kept (without B A) s s1" "rt_kept (without B A) s1 s2"
    by (rule rt_kept_sub [OF conjunct2 [OF s1]], auto simp: A_def B1_def without_def split: if_splits)
      (rule rt_kept_sub [OF conjunct2 [OF s2]], auto simp: A_def B2_def B1_def without_def split: if_splits)
  then show ?thesis using F unfolding e by (auto simp: s1_def s2_def intro: rt_kept_trans)
qed

lemma list_release_ok:
  assumes inv: "rinv B s" and ok: "list_ok B (lhdr s) lp" and h: "larena (lhdr s lp) = 0" "elem_own (lhdr s lp) = AIF_ELEM_OBJECT"
      "elem_size (lhdr s lp) = 0"
    and P: "seam_blocks B (pointers (nat (len (lhdr s lp))) s lp @ rev (grave (lhdr s lp)))"
      "set (pointers (nat (len (lhdr s lp))) s lp @ rev (grave (lhdr s lp))) \<inter> own_blocks (lhdr s lp) lp = {}"
    and g: "grave_at (lhdr s lp) = 0 \<or> (\<exists>k. B (grave_at (lhdr s lp)) = Some (Tmp, k))"
  defines "A \<equiv> set (pointers (nat (len (lhdr s lp))) s lp) \<union> set (grave (lhdr s lp))
      \<union> insert (grave_at (lhdr s lp)) (own_blocks (lhdr s lp) lp)"
  shows "\<exists>s'. list_release S R (Suc n) lp s = Inr s' \<and> rinv (without B A) s' \<and> rt_kept (without B A) s s' \<and> cycs s' = cycs s \<and> chunk_set s' = chunk_set s"
proof -
  let ?l = "lhdr s lp" and ?k = "nat (len (lhdr s lp))"
  let ?P = "set (pointers ?k s lp)" and ?G = "set (rev (grave ?l))"
  define rel where "rel = release_as (list_release S R n) S R n lp"
  have rel: "rel e t = Inr (rt_free S e t)" if "lhdr t = lhdr s" for e t
    using that h(2) by (simp add: rel_def release_as_def Let_def elem_modes)
  have P1: "seam_blocks B (pointers ?k s lp)" "?P \<inter> own_blocks ?l lp = {}" using P by (auto simp: seam_blocks_def)
  obtain s1 where s1: "each_down (\<lambda>i s. let e = ptr_get lp i s in if e \<noteq> 0 then rel e s else Inr s) ?k 0 s = Inr s1"
      "rinv (without B ?P) s1" "rt_kept (without B ?P) s s1" "lhdr s1 = lhdr s" "cycs s1 = cycs s" "chunk_set s1 = chunk_set s"
    using elements_freed [OF rel h(3) inv refl ok order_refl P1] by blast
  have "seam_blocks (without B ?P) (rev (grave ?l))" using P(1) by (auto simp: seam_blocks_def without_def)
  from parked_freed [OF s1(2) this, of "lhdr s" rel] rel s1(4)
  obtain s2 where s2: "release_each rel (rev (grave ?l)) s1 = Inr s2" "rinv (without B (?P \<union> ?G)) s2"
      "rt_kept (without B (?P \<union> ?G)) s1 s2" "lhdr s2 = lhdr s" "cycs s2 = cycs s" "chunk_set s2 = chunk_set s"
    using s1(5,6) by (auto simp: without_without)
  let ?s = "rt_free S lp (list_free_data S lp (forget_grave lp s2))"
  have ok2: "list_ok (without B (?P \<union> ?G)) (lhdr s2) lp" unfolding s2(4) by (rule list_ok_without [OF ok]) (use P(2) in auto)
  have g2: "grave_at (lhdr s2 lp) = 0 \<or> (\<exists>k. without B (?P \<union> ?G) (grave_at (lhdr s2 lp)) = Some (Tmp, k))"
  proof (cases "grave_at ?l = 0")
    case False
    then obtain k where k: "B (grave_at ?l) = Some (Tmp, k)" using g by auto
    have "\<exists>j. B x = Some (Seam, j)" if "x \<in> ?P \<union> ?G" for x using that P(1) by (auto simp: seam_blocks_def)
    from this [of "grave_at ?l"] k have "grave_at ?l \<notin> ?P \<union> ?G" by auto
    then show ?thesis using k by (simp add: s2(4) without_def)
  qed (simp add: s2(4))
  have F: "rinv (without B A) ?s" "rt_kept (without B A) s2 ?s"
    using blocks_freed [OF s2(2) ok2 _ g2] h(1) by (auto simp: s2(4) without_without A_def)
  have "rt_kept (without B A) s s1" "rt_kept (without B A) s1 s2"
    using rt_kept_without [OF s1(3), of A] rt_kept_without [OF s2(3), of A] by (simp_all add: without_without A_def ac_simps)
  then have "rt_kept (without B A) s ?s" using F(2) by (blast intro: rt_kept_trans)
  moreover have "list_release S R (Suc n) lp s = Inr ?s"
    using h s1(1,4) s2(1,4) list_okD(1) [OF ok] by (simp add: Let_def rel_def [symmetric] list_teardown_def elem_modes)
  moreover have "cycs ?s = cycs s" using s2(5) by (simp add: list_free_data_def Let_def forget_grave_def rt_tmp_free_def)
  moreover have "chunk_set ?s = chunk_set s" using s2(6) by (simp add: list_free_data_def Let_def forget_grave_def rt_tmp_free_def)
  ultimately show ?thesis using F(1) by blast
qed

end

text \<open>Over the plain C library, what the program no longer holds is no longer live.\<close>

lemma plain_freed:
  assumes s: "rt_inv plain_inv B s" and s': "rt_inv plain_inv (without B A) s'" and c: "chunk_set s' = chunk_set s"
    and A: "\<And>p. p \<in> A \<Longrightarrow> p = 0 \<or> (\<exists>v n. B p = Some (v, n) \<and> (v = Seam \<or> v = Tmp))" and p: "p \<in> A"
  shows "live (hp s') p = None"
proof (rule ccontr)
  assume l: "live (hp s') p \<noteq> None"
  then obtain w where w: "p \<in> chunk_set s w" using plain_live [OF s' l] p c by (auto simp: without_def)
  have "p \<noteq> 0"
  proof
    assume "p = 0"
    moreover obtain H where "plain_inv H (hp s')" using s' by (auto simp: rt_inv_def)
    then have "live_wf (live (hp s'))" unfolding plain_inv_def by (blast dest: plain_coreD)
    ultimately show False using l live_wfD(1) [of "live (hp s')" 0] by auto
  qed
  then show False using A [OF p] held_not_chunk [OF s, of p _ _ w] w by blast
qed

text \<open>C18. On every allocator that keeps its contract, the teardown of a heap list that owns its boxed elements
  gives back every element still in it, every element removed earlier and parked, the array of
  parked elements, the element block and the header, each exactly once; all else that the program
  holds keeps its bytes.  The invariant counts every block of the heap, so each of them must really have
  reached the allocator; over the plain C library none of them is live any more.  One unit of fuel is enough,
  whatever the list.\<close>

theorem list_release_frees_owned:
  assumes "seam_spec S hinv" and "rt_inv hinv B s" and "list_ok B (lhdr s) lp"
    and "larena (lhdr s lp) = 0" "elem_own (lhdr s lp) = AIF_ELEM_OBJECT" "elem_size (lhdr s lp) = 0"
    and "seam_blocks B (pointers (nat (len (lhdr s lp))) s lp @ rev (grave (lhdr s lp)))"
    and "set (pointers (nat (len (lhdr s lp))) s lp @ rev (grave (lhdr s lp))) \<inter> own_blocks (lhdr s lp) lp = {}"
    and "grave_at (lhdr s lp) = 0 \<or> (\<exists>k. B (grave_at (lhdr s lp)) = Some (Tmp, k))"
  shows "let A = set (pointers (nat (len (lhdr s lp))) s lp) \<union> set (grave (lhdr s lp))
        \<union> insert (grave_at (lhdr s lp)) (own_blocks (lhdr s lp) lp)
    in \<exists>s'. list_release S R (Suc n) lp s = Inr s'
      \<and> rt_inv hinv (without B A) s' \<and> rt_kept (without B A) s s'
      \<and> (hinv = plain_inv \<longrightarrow> (\<forall>p \<in> A. live (hp s') p = None))"
proof -
  define A where "A = set (pointers (nat (len (lhdr s lp))) s lp) \<union> set (grave (lhdr s lp))
        \<union> insert (grave_at (lhdr s lp)) (own_blocks (lhdr s lp) lp)"
  obtain s' where s': "list_release S R (Suc n) lp s = Inr s'" "rt_inv hinv (without B A) s'" "rt_kept (without B A) s s'"
      "chunk_set s' = chunk_set s"
    using list_rt.list_release_ok [OF seam_spec.list_rt_laws [OF assms(1)] assms(2-9), of R n] unfolding A_def by blast
  have A: "p = 0 \<or> (\<exists>v k. B p = Some (v, k) \<and> (v = Seam \<or> v = Tmp))" if "p \<in> A" for p
    using that assms(3,4,7,9) by (auto simp: A_def seam_blocks_def own_blocks_def list_ok_def Let_def split: if_splits)
  have "live (hp s') p = None" if "hinv = plain_inv" "p \<in> A" for p
    using plain_freed [OF _ _ s'(4) A] assms(2) s'(2) that by blast
  then show ?thesis using s' unfolding A_def [symmetric] Let_def by blast
qed

text \<open>A list of one object, with another object parked, beside a block of the program.\<close>

definition parked_list :: "unit lrt" where
  "parked_list = rt_poke 4160 (le_bytes 8 8192) (pair_list
     \<lparr>hp := (hp pair_list)\<lparr>live := [4096 \<mapsto> 80, 8192 \<mapsto> 16, 12288 \<mapsto> 16, 16384 \<mapsto> 32, 20480 \<mapsto> 8]\<rparr>,
      lhdr := \<lambda>_. \<lparr>data = 4160, len = 1, lcap = 2, elem_own = AIF_ELEM_OBJECT, elem_release = 0, larena = 0, elem_size = 0, grave_at = 16384,
        grave = [12288], grave_cap = 4, fused = True\<rparr>\<rparr>)"

theorem list_release_frees_owned_witness:
  "\<exists>s'. list_release plain_seam (\<lambda>f p s. Inr s) 1 4096 parked_list = Inr s' \<and> rt_inv plain_inv [20480 \<mapsto> (Seam, 8)] s'
     \<and> (\<forall>p \<in> {4096, 8192, 12288, 16384}. live (hp s') p = None)"
proof -
  let ?B = "[4096 \<mapsto> (Seam, 80), 8192 \<mapsto> (Seam, 16), 12288 \<mapsto> (Seam, 16), 16384 \<mapsto> (Tmp, 32), 20480 \<mapsto> (Seam, 8)] :: owned"
  define s0 where "s0 = pair_list
     \<lparr>hp := (hp pair_list)\<lparr>live := [4096 \<mapsto> 80, 8192 \<mapsto> 16, 12288 \<mapsto> 16, 16384 \<mapsto> 32, 20480 \<mapsto> 8]\<rparr>,
      lhdr := \<lambda>_. \<lparr>data = 4160, len = 1, lcap = 2, elem_own = AIF_ELEM_OBJECT, elem_release = 0, larena = 0, elem_size = 0, grave_at = 16384,
        grave = [12288], grave_cap = 4, fused = True\<rparr>\<rparr>"
  have "plain_inv ?B (hp s0)"
    by (intro plain_invI) (auto simp: s0_def pair_list_def libc_ok_def live_wf_def apart_def split: if_splits)
  then have i0: "rt_inv plain_inv ?B s0"
    by (rule rt_inv_no_arena) (auto simp: chunks_def arena_of_def s0_def pair_list_def no_arena_def split: option.splits if_splits)
  have inv: "rt_inv plain_inv ?B parked_list"
    unfolding parked_list_def s0_def [symmetric] by (rule plain.rt.rt_write_law [OF i0, of 4096 Seam 80]) simp_all
  have h: "lhdr parked_list = (\<lambda>_. \<lparr>data = 4160, len = 1, lcap = 2, elem_own = AIF_ELEM_OBJECT, elem_release = 0, larena = 0, elem_size = 0,
      grave_at = 16384, grave = [12288], grave_cap = 4, fused = True\<rparr>)" by (simp add: parked_list_def)
  have ok: "list_ok ?B (lhdr parked_list) 4096" by (simp add: list_ok_def Let_def h list_stride_def)
  have "elems parked_list 4096 = [le_bytes 8 8192]"
    by (simp add: elems_def Let_def h list_stride_def cells_def) (simp add: parked_list_def rmem_poke poke_same_len)
  then have p: "pointers 1 parked_list 4096 = [8192]" by (simp add: pointers_def le_nat_le_bytes)
  then have p': "pointers (Suc 0) parked_list 4096 = [8192]" by simp
  have "without ?B {8192, 12288, 16384, 4096} = [20480 \<mapsto> (Seam, 8)]" by (auto simp: without_def fun_eq_iff)
  moreover have "\<exists>s'. list_release plain_seam (\<lambda>f p s. Inr s) (Suc 0) 4096 parked_list = Inr s'
      \<and> rt_inv plain_inv (without ?B {8192, 12288, 16384, 4096}) s' \<and> (\<forall>p \<in> {8192, 12288, 16384, 4096}. live (hp s') p = None)"
    using list_release_frees_owned [OF plain.seam_spec_axioms inv ok, of "\<lambda>f p s. Inr s" 0]
    by (simp add: h p' seam_blocks_def own_blocks_def insert_commute del: list_release.simps) metis
  ultimately show ?thesis by (auto simp del: list_release.simps)
qed

end
