(* ===== verification/List_Views.thy ===== *)
theory List_Views
  imports Lists
begin

unbundle bit_operations_syntax

text \<open>
  What \<open>runtime/lang_runtime.c\<close> builds on its lists: lists of strings, whose element is the sixteen-byte
  pair of pointer and length word (\<open>str_own_pair\<close> to \<open>list_set_str_now\<close>); slices, which keep the list's
  handle and two indices (\<open>prismio_slice_check\<close> to \<open>list_slice_set_str\<close>); manual memory and byte buffers
  (\<open>mem_alloc\<close> to \<open>mem_bytes_text\<close>).
\<close>

subsection \<open>Lists of strings\<close>

text \<open>The bytes of an inline pair are rebuilt in a scratch buffer on the C stack for \<open>str_own\<close> to copy: eight
  of the pointer field, then the upper half of the word, then four zeros.\<close>

definition inline_bytes :: "addr \<Rightarrow> 64 word \<Rightarrow> byte list" where
  "inline_bytes raw w = le_bytes 8 raw @ le_bytes 4 (unat (drop_bit 32 w)) @ replicate 4 0"

definition str_own_pair :: "'a seam \<Rightarrow> addr \<Rightarrow> 64 word \<Rightarrow> ('a, 'b) lrt_scheme \<Rightarrow> ('a, 'b) lnew" where
  "str_own_pair S raw w s =
     (if w AND STR_WORD_INLINE = 0 then str_own S raw w s
      else let n = unat (w AND STR_WORD_LENGTH)
           in build S (n + 1) (\<lambda>r m. (poke m r (take n (inline_bytes raw w)))(r + n := 0)) s)"

definition list_str_data :: "addr \<Rightarrow> int \<Rightarrow> ('a, 'b) lrt_scheme \<Rightarrow> rt_error + addr" where
  "list_str_data lp index s =
     (let l = lhdr s lp in
      if \<not> in_range index l then Inl list_index_fail
      else if elem_size l = sizeof_StrPair then Inr (pair_data l index (rmem s))
      else Inr (ptr_get lp index s))"

definition list_str_word_boxed :: "addr \<Rightarrow> int \<Rightarrow> ('a, 'b) lrt_scheme \<Rightarrow> rt_error + 64 word" where
  "list_str_word_boxed lp index s =
     andthen (prismio_cstr_len (rmem s) (ptr_get lp index s)) (\<lambda>k. Inr (word_of_int k))"

definition list_str_word :: "addr \<Rightarrow> int \<Rightarrow> ('a, 'b) lrt_scheme \<Rightarrow> rt_error + 64 word" where
  "list_str_word lp index s =
     (let l = lhdr s lp in
      if \<not> in_range index l then Inl list_index_fail
      else if elem_size l = sizeof_StrPair then Inr (pair_word l index (rmem s))
      else list_str_word_boxed lp index s)"

text \<open>A view borrows a buffer that the list does not own, so its bytes are copied out.\<close>

definition settle_pair :: "'a seam \<Rightarrow> addr \<Rightarrow> 64 word \<Rightarrow> ('a, 'b) lrt_scheme \<Rightarrow> rt_error + (addr \<times> 64 word) \<times> ('a, 'b) lrt_scheme" where
  "settle_pair S raw w s =
     (if STR_WORD_IS_VIEW w
      then let n = uint (w AND STR_WORD_LENGTH)
           in andthen (str_clone_n S raw n s) (\<lambda>(r, s). Inr ((r, word_of_int n), s))
      else Inr ((raw, w), s))"

definition list_push_str_slow :: "'a seam \<Rightarrow> addr \<Rightarrow> addr \<Rightarrow> 64 word \<Rightarrow> ('a, 'b) lrt_scheme \<Rightarrow> ('a, 'b) lres" where
  "list_push_str_slow S lp raw w s =
     (if elem_size (lhdr s lp) \<noteq> sizeof_StrPair
      then andthen (str_own_pair S raw w s) (\<lambda>(r, s). list_push S lp r s)
      else andthen (settle_pair S raw w s) (\<lambda>((r, v), s).
        andthen (if len (lhdr s lp) \<ge> lcap (lhdr s lp) then list_inline_grow S lp s else Inr s) (\<lambda>s.
          let l = lhdr s lp in
          if data l = 0 then Inl Null_store
          else Inr (upd_hdr lp (\<lambda>l. l\<lparr>len := i32 (len l + 1)\<rparr>) (pair_set lp (len l) r v s)))))"

definition list_push_str :: "'a seam \<Rightarrow> addr \<Rightarrow> addr \<Rightarrow> 64 word \<Rightarrow> ('a, 'b) lrt_scheme \<Rightarrow> ('a, 'b) lres" where
  "list_push_str S lp raw w s =
     (let l = lhdr s lp in
      if elem_size l \<noteq> sizeof_StrPair \<or> len l \<ge> lcap l \<or> STR_WORD_IS_VIEW w then list_push_str_slow S lp raw w s
      else Inr (upd_hdr lp (\<lambda>l. l\<lparr>len := i32 (len l + 1)\<rparr>) (pair_set lp (len l) raw w s)))"

definition list_set_str_slow :: "'a seam \<Rightarrow> ('a, 'b) releaser \<Rightarrow> nat \<Rightarrow> addr \<Rightarrow> int \<Rightarrow> addr \<Rightarrow> 64 word \<Rightarrow> ('a, 'b) lrt_scheme \<Rightarrow> ('a, 'b) lres" where
  "list_set_str_slow S R n lp index raw w s =
     (let l = lhdr s lp in
      if \<not> in_range index l then Inl list_index_fail
      else if elem_size l \<noteq> sizeof_StrPair
           then andthen (str_own_pair S raw w s) (\<lambda>(r, s). list_set S R n lp index r s)
      else andthen (if pair_data l index (rmem s) \<noteq> raw then list_discard_slot S R n lp index False s else Inr s) (\<lambda>s.
        andthen (settle_pair S raw w s) (\<lambda>((r, v), s). Inr (pair_set lp index r v s))))"

definition list_set_str :: "'a seam \<Rightarrow> ('a, 'b) releaser \<Rightarrow> nat \<Rightarrow> addr \<Rightarrow> int \<Rightarrow> addr \<Rightarrow> 64 word \<Rightarrow> ('a, 'b) lrt_scheme \<Rightarrow> ('a, 'b) lres" where
  "list_set_str S R n lp index raw w s =
     (let l = lhdr s lp in
      if elem_size l \<noteq> sizeof_StrPair \<or> STR_WORD_IS_VIEW w then list_set_str_slow S R n lp index raw w s
      else if \<not> in_range index l then Inl list_index_fail
      else if elem_own l \<noteq> AIF_ELEM_NONE \<and> larena l = 0 \<and> pair_data l index (rmem s) \<noteq> raw \<and> pair_owned (pair_word l index (rmem s))
           then list_set_str_slow S R n lp index raw w s
      else Inr (pair_set lp index raw w s))"

definition list_set_str_now :: "'a seam \<Rightarrow> ('a, 'b) releaser \<Rightarrow> nat \<Rightarrow> addr \<Rightarrow> int \<Rightarrow> addr \<Rightarrow> 64 word \<Rightarrow> ('a, 'b) lrt_scheme \<Rightarrow> ('a, 'b) lres" where
  "list_set_str_now S R n lp index raw w s =
     (let l = lhdr s lp in
      if \<not> in_range index l then Inl list_index_fail
      else if elem_size l \<noteq> sizeof_StrPair
           then andthen (str_own_pair S raw w s) (\<lambda>(r, s). list_set_now S R n lp index r s)
      else andthen (if pair_data l index (rmem s) \<noteq> raw then list_discard_slot S R n lp index True s else Inr s) (\<lambda>s.
        andthen (settle_pair S raw w s) (\<lambda>((r, v), s). Inr (pair_set lp index r v s))))"

definition list_insert_str :: "'a seam \<Rightarrow> addr \<Rightarrow> int \<Rightarrow> addr \<Rightarrow> 64 word \<Rightarrow> ('a, 'b) lrt_scheme \<Rightarrow> ('a, 'b) lres" where
  "list_insert_str S lp index raw w s =
     andthen (list_check_insert_index lp index s) (\<lambda>s. andthen (list_push_str S lp raw w s) (list_move_last lp index))"

subsection \<open>Slices\<close>

definition prismio_slice_check :: "int \<Rightarrow> int \<Rightarrow> int \<Rightarrow> rt_error + unit" where
  "prismio_slice_check available start fin =
     (if available < 0 \<or> start < 0 \<or> fin < start \<or> fin > available
      then Inl (Exit ''slice range is outside the collection'') else Inr ())"

definition list_slice_index :: "addr \<Rightarrow> int \<Rightarrow> int \<Rightarrow> int \<Rightarrow> ('a, 'b) lrt_scheme \<Rightarrow> rt_error + int" where
  "list_slice_index lp offset n index s =
     (if lp = 0 then Inl (Exit ''slice refers to a null List handle'')
      else let actual = offset + index in
           if offset < 0 \<or> n < 0 \<or> index < 0 \<or> index \<ge> n \<or> actual < 0 \<or> actual \<ge> len (lhdr s lp)
           then Inl (Exit ''slice index is outside the view'') else Inr actual)"

definition list_slice_get :: "addr \<Rightarrow> int \<Rightarrow> int \<Rightarrow> int \<Rightarrow> ('a, 'b) lrt_scheme \<Rightarrow> rt_error + addr" where
  "list_slice_get lp offset n index s = andthen (list_slice_index lp offset n index s) (\<lambda>i. list_get lp i s)"

definition list_slice_get_inline :: "addr \<Rightarrow> int \<Rightarrow> int \<Rightarrow> int \<Rightarrow> ('a, 'b) lrt_scheme \<Rightarrow> rt_error + addr" where
  "list_slice_get_inline lp offset n index s = andthen (list_slice_index lp offset n index s) (\<lambda>i. list_get_inline lp i s)"

definition list_slice_get_inline_scalar :: "addr \<Rightarrow> int \<Rightarrow> int \<Rightarrow> int \<Rightarrow> int \<Rightarrow> ('a, 'b) lrt_scheme \<Rightarrow> rt_error + nat" where
  "list_slice_get_inline_scalar lp offset n index es s =
     andthen (list_slice_index lp offset n index s) (\<lambda>i. list_get_inline_scalar lp i es s)"

definition list_slice_set_inline_scalar :: "'a seam \<Rightarrow> ('a, 'b) releaser \<Rightarrow> nat \<Rightarrow> addr \<Rightarrow> int \<Rightarrow> int \<Rightarrow> int \<Rightarrow> nat \<Rightarrow> int \<Rightarrow> ('a, 'b) lrt_scheme \<Rightarrow> ('a, 'b) lres" where
  "list_slice_set_inline_scalar S R k lp offset n index bits es s =
     andthen (list_slice_index lp offset n index s) (\<lambda>i. list_set_inline_scalar S R k lp i bits es s)"

definition list_slice_set :: "'a seam \<Rightarrow> ('a, 'b) releaser \<Rightarrow> nat \<Rightarrow> addr \<Rightarrow> int \<Rightarrow> int \<Rightarrow> int \<Rightarrow> addr \<Rightarrow> ('a, 'b) lrt_scheme \<Rightarrow> ('a, 'b) lres" where
  "list_slice_set S R k lp offset n index v s =
     andthen (list_slice_index lp offset n index s) (\<lambda>i. list_set S R k lp i v s)"

definition list_slice_set_inline :: "'a seam \<Rightarrow> ('a, 'b) releaser \<Rightarrow> nat \<Rightarrow> addr \<Rightarrow> int \<Rightarrow> int \<Rightarrow> int \<Rightarrow> addr \<Rightarrow> ('a, 'b) lrt_scheme \<Rightarrow> ('a, 'b) lres" where
  "list_slice_set_inline S R k lp offset n index v s =
     andthen (list_slice_index lp offset n index s) (\<lambda>i. list_set_inline S R k lp i v s)"

definition list_slice_str_data :: "addr \<Rightarrow> int \<Rightarrow> int \<Rightarrow> int \<Rightarrow> ('a, 'b) lrt_scheme \<Rightarrow> rt_error + addr" where
  "list_slice_str_data lp offset n index s = andthen (list_slice_index lp offset n index s) (\<lambda>i. list_str_data lp i s)"

definition list_slice_str_word :: "addr \<Rightarrow> int \<Rightarrow> int \<Rightarrow> int \<Rightarrow> ('a, 'b) lrt_scheme \<Rightarrow> rt_error + 64 word" where
  "list_slice_str_word lp offset n index s = andthen (list_slice_index lp offset n index s) (\<lambda>i. list_str_word lp i s)"

definition list_slice_set_str :: "'a seam \<Rightarrow> ('a, 'b) releaser \<Rightarrow> nat \<Rightarrow> addr \<Rightarrow> int \<Rightarrow> int \<Rightarrow> int \<Rightarrow> addr \<Rightarrow> 64 word \<Rightarrow> ('a, 'b) lrt_scheme \<Rightarrow> ('a, 'b) lres" where
  "list_slice_set_str S R k lp offset n index raw w s =
     andthen (list_slice_index lp offset n index s) (\<lambda>i. list_set_str S R k lp i raw w s)"

subsection \<open>Manual memory\<close>

definition mem_exhausted :: rt_error where
  "mem_exhausted = Exit ''out of memory''"

definition mem_alloc :: "'a seam \<Rightarrow> nat \<Rightarrow> ('a, 'b) rt_scheme \<Rightarrow> rt_error + addr \<times> ('a, 'b) rt_scheme" where
  "mem_alloc S n s = (let (p, s) = rt_base_alloc S (if n \<noteq> 0 then n else 1) s in if p = 0 then Inl mem_exhausted else Inr (p, s))"

definition mem_alloc_zeroed :: "'a seam \<Rightarrow> nat \<Rightarrow> ('a, 'b) rt_scheme \<Rightarrow> rt_error + addr \<times> ('a, 'b) rt_scheme" where
  "mem_alloc_zeroed S n s = andthen (mem_alloc S n s) (\<lambda>(a, s). Inr (a, upd_mem (\<lambda>m. memset m a 0 n) s))"

definition mem_realloc :: "'a seam \<Rightarrow> addr \<Rightarrow> nat \<Rightarrow> ('a, 'b) rt_scheme \<Rightarrow> rt_error + addr \<times> ('a, 'b) rt_scheme" where
  "mem_realloc S a n s =
     (if a = 0 then mem_alloc S n s
      else let (p, s) = rt_base_realloc S a (if n \<noteq> 0 then n else 1) s in if p = 0 then Inl mem_exhausted else Inr (p, s))"

definition mem_free :: "'a seam \<Rightarrow> addr \<Rightarrow> ('a, 'b) rt_scheme \<Rightarrow> ('a, 'b) rt_scheme" where
  "mem_free S a s = rt_free S a s"

definition mem_copy :: "addr \<Rightarrow> addr \<Rightarrow> nat \<Rightarrow> mem \<Rightarrow> mem" where
  "mem_copy d a n m = (if n \<noteq> 0 then memmove m d a n else m)"

definition mem_fill :: "addr \<Rightarrow> int \<Rightarrow> nat \<Rightarrow> mem \<Rightarrow> mem" where
  "mem_fill a b n m = (if n \<noteq> 0 then memset m a b n else m)"

definition mem_compare :: "addr \<Rightarrow> addr \<Rightarrow> nat \<Rightarrow> mem \<Rightarrow> int" where
  "mem_compare a b n m = (let c = (if n \<noteq> 0 then memcmp m a b n else 0) in of_bool (c > 0) - of_bool (c < 0))"

subsection \<open>Byte buffers\<close>

definition mem_bytes_not_bytes :: rt_error where
  "mem_bytes_not_bytes = Exit ''a Buffer's bytes must be a Vec<U8> it built itself''"

definition mem_bytes_out_of_range :: rt_error where
  "mem_bytes_out_of_range = Exit ''bytes are out of range for a Buffer''"

definition mem_bytes_at :: "addr \<Rightarrow> int \<Rightarrow> int \<Rightarrow> ('a, 'b) lrt_scheme \<Rightarrow> rt_error + addr" where
  "mem_bytes_at lp offset cnt s =
     (let l = lhdr s lp in
      if elem_size l \<noteq> 1 then Inl mem_bytes_not_bytes
      else if offset < 0 \<or> cnt < 0 \<or> offset > i32 (len l - cnt) then Inl mem_bytes_out_of_range
      else Inr (data l + nat offset))"

definition mem_bytes_data :: "addr \<Rightarrow> ('a, 'b) lrt_scheme \<Rightarrow> rt_error + addr" where
  "mem_bytes_data lp s = mem_bytes_at lp 0 0 s"

definition mem_bytes_address :: "addr \<Rightarrow> int \<Rightarrow> int \<Rightarrow> ('a, 'b) lrt_scheme \<Rightarrow> rt_error + addr" where
  "mem_bytes_address lp offset cnt s = mem_bytes_at lp offset cnt s"

definition mem_bytes_resize :: "'a seam \<Rightarrow> addr \<Rightarrow> int \<Rightarrow> ('a, 'b) lrt_scheme \<Rightarrow> ('a, 'b) lres" where
  "mem_bytes_resize S lp k s =
     andthen (mem_bytes_at lp 0 0 s) (\<lambda>_.
       let k = (if k < 0 then 0 else k) in
       andthen (if k > len (lhdr s lp)
                then andthen (list_reserve S lp k s) (\<lambda>s.
                  let l = lhdr s lp in
                  if data l = 0 then Inl Null_store
                  else Inr (upd_mem (\<lambda>m. memset m (data l + nat (len l)) 0 (nat (k - len l))) s))
                else Inr s)
         (\<lambda>s. Inr (upd_hdr lp (\<lambda>l. l\<lparr>len := k\<rparr>) s)))"

definition mem_bytes_fill :: "addr \<Rightarrow> int \<Rightarrow> int \<Rightarrow> int \<Rightarrow> ('a, 'b) lrt_scheme \<Rightarrow> ('a, 'b) lres" where
  "mem_bytes_fill lp b start cnt s =
     andthen (mem_bytes_at lp start cnt s) (\<lambda>p.
       if cnt = 0 then Inr s else Inr (upd_mem (\<lambda>m. memset m p b (nat cnt)) s))"

definition mem_bytes_copy :: "addr \<Rightarrow> int \<Rightarrow> addr \<Rightarrow> int \<Rightarrow> int \<Rightarrow> ('a, 'b) lrt_scheme \<Rightarrow> ('a, 'b) lres" where
  "mem_bytes_copy dst dst_off src src_off cnt s =
     andthen (mem_bytes_at dst dst_off cnt s) (\<lambda>d.
       andthen (mem_bytes_at src src_off cnt s) (\<lambda>a.
         if cnt = 0 then Inr s else Inr (upd_mem (\<lambda>m. memmove m d a (nat cnt)) s)))"

definition mem_bytes_equal :: "addr \<Rightarrow> addr \<Rightarrow> ('a, 'b) lrt_scheme \<Rightarrow> rt_error + int" where
  "mem_bytes_equal a b s =
     (let n = len (lhdr s a) in
      if n \<noteq> len (lhdr s b) then Inr 0
      else if n = 0 then Inr 1
      else andthen (mem_bytes_at a 0 n s) (\<lambda>x. andthen (mem_bytes_at b 0 n s) (\<lambda>y.
             Inr (if memcmp (rmem s) x y (nat n) = 0 then 1 else 0))))"

definition mem_bytes_index_of :: "addr \<Rightarrow> int \<Rightarrow> int \<Rightarrow> ('a, 'b) lrt_scheme \<Rightarrow> rt_error + int" where
  "mem_bytes_index_of lp b start s =
     (let l = lhdr s lp; start = (if start < 0 then 0 else start) in
      if start \<ge> len l then Inr (- 1)
      else andthen (mem_bytes_at lp 0 (len l) s) (\<lambda>a.
             let hit = memchr (rmem s) (a + nat start) b (nat (len l - start))
             in Inr (if hit \<noteq> 0 then i32 (int hit - int a) else - 1)))"

definition mem_bytes_write_text :: "addr \<Rightarrow> int \<Rightarrow> addr \<Rightarrow> int \<Rightarrow> ('a, 'b) lrt_scheme \<Rightarrow> ('a, 'b) lres" where
  "mem_bytes_write_text lp offset text_at cnt s =
     andthen (mem_bytes_at lp offset cnt s) (\<lambda>p.
       if cnt = 0 then Inr s else Inr (upd_mem (\<lambda>m. memcpy m p text_at (nat cnt)) s))"

definition mem_bytes_text :: "'a seam \<Rightarrow> addr \<Rightarrow> int \<Rightarrow> int \<Rightarrow> ('a, 'b) lrt_scheme \<Rightarrow> ('a, 'b) lnew" where
  "mem_bytes_text S lp start cnt s =
     andthen (mem_bytes_at lp start cnt s) (\<lambda>p.
       let z = (if cnt \<noteq> 0 then memchr (rmem s) p 0 (nat cnt) else 0);
           n = (if z \<noteq> 0 then z - p else nat cnt);
           (r, s) = rt_base_alloc S (n + 1) s
       in if r = 0 then Inl mem_exhausted
          else Inr (r, upd_mem (\<lambda>m. (if n \<noteq> 0 then memcpy m r p n else m)(r + n := 0)) s))"

end
