(* ===== verification/Slices.thy ===== *)
theory Slices
  imports List_Ops List_Views
begin

text \<open>
  Slices and byte buffers: what a view of a list reads, and that the byte operations act on the list's
  elements and on nothing else.
\<close>

subsection \<open>Slices\<close>

lemma scalar_load_eq: "scalar_list es l \<Longrightarrow> scalar_load a es m = le_nat (peek m a (nat es))"
  by (auto simp: scalar_list_def scalar_load_def)

lemma nth_elems: "0 \<le> i \<Longrightarrow> i < len (lhdr s lp) \<Longrightarrow>
    elems s lp ! nat i = peek (rmem s) (data (lhdr s lp) + nat i * list_stride (lhdr s lp)) (list_stride (lhdr s lp))"
  by (simp add: elems_def Let_def)

text \<open>C19. A slice keeps the list's handle and a window.  A read through it gives the element of the list at
  the window's offset plus the index exactly when the index is inside the window and the element still
  exists; in every other case (a negative or too large index, a list that has shrunk since the
  slice was made, a sum past the range of \<open>int\<close>) the program ends with the slice's own error and reads nothing.\<close>

theorem slice_reads_window:
  assumes "list_ok B (lhdr s) lp" and "scalar_list es (lhdr s lp)"
    and "is_int32 offset" "is_int32 n" "is_int32 index"
  shows "list_slice_get_inline_scalar lp offset n index es s =
    (if 0 \<le> offset \<and> 0 \<le> index \<and> index < n \<and> offset + index < int (length (elems s lp))
     then Inr (le_nat (elems s lp ! nat (offset + index)))
     else Inl (Exit ''slice index is outside the view''))"
proof (cases "0 \<le> offset \<and> 0 \<le> index \<and> index < n \<and> offset + index < len (lhdr s lp)")
  case True
  let ?i = "offset + index"
  have "is_int32 ?i" using True list_okD [OF assms(1)] by (auto simp: is_int32_def)
  then have r: "in_range ?i (lhdr s lp)" using in_range_iff [OF assms(1)] True by simp
  have e: "le_nat (elems s lp ! nat ?i) = scalar_load (slot_at (lhdr s lp) ?i (nat es)) es (rmem s)"
    using nth_elems [of ?i s lp] True scalar_stride [OF assms(2)] scalar_load_eq [OF assms(2)] by (simp add: slot_at_def)
  show ?thesis
    using True r scalar_stride [OF assms(2)] list_okD(1) [OF assms(1)] elems_len [OF assms(1)]
    by (simp add: list_slice_get_inline_scalar_def list_slice_index_def list_get_inline_scalar_def Let_def e)
next
  case False
  then show ?thesis
    using list_okD(1) [OF assms(1)] elems_len [OF assms(1)]
    by (auto simp: list_slice_get_inline_scalar_def list_slice_index_def Let_def)
qed

theorem slice_reads_window_witness:
  "list_slice_get_inline_scalar 4096 1 1 0 4 pair_list = Inr 0
   \<and> list_slice_get_inline_scalar 4096 1 2147483647 2147483646 4 pair_list = Inl (Exit ''slice index is outside the view'')"
proof -
  have ok: "list_ok [4096 \<mapsto> (Seam, 80)] (lhdr pair_list) 4096" "scalar_list 4 (lhdr pair_list 4096)"
    by (simp_all add: list_ok_def Let_def pair_list_def list_stride_def scalar_list_def)
  have u: "[0..<4] = [0, 1, 2, 3 :: nat]" "[0..<2] = [0, 1 :: nat]" by (simp_all add: upt_conv_Cons)
  have e: "elems pair_list 4096 = [[0, 0, 0, 0], [0, 0, 0, 0]]"
    by (simp add: elems_def Let_def pair_list_def list_stride_def cells_def peek_def u)
  show ?thesis
    using slice_reads_window [OF ok, of 1 1 0] slice_reads_window [OF ok, of 1 2147483647 2147483646]
    by (simp add: is_int32_def e)
qed

subsection \<open>Byte buffers\<close>

definition byte_list :: "RtList \<Rightarrow> bool" where
  "byte_list l \<longleftrightarrow> elem_size l = 1"

definition bytes :: "('a, 'b) lrt_scheme \<Rightarrow> addr \<Rightarrow> byte list" where
  "bytes s lp = concat (elems s lp)"

lemma bytes_eq:
  assumes "byte_list (lhdr s lp)"
  shows "bytes s lp = peek (rmem s) (data (lhdr s lp)) (nat (len (lhdr s lp)))"
proof -
  have "concat (cells m d 1 n) = peek m d n" for m d n
    by (simp add: cells_def peek_def concat_map_singleton)
  then show ?thesis using assms by (simp add: bytes_def elems_def Let_def list_stride_def byte_list_def)
qed

lemma mem_bytes_at_eq:
  assumes "list_ok B (lhdr s) lp" "byte_list (lhdr s lp)" "is_int32 off" "is_int32 cnt"
  shows "mem_bytes_at lp off cnt s = (if 0 \<le> off \<and> 0 \<le> cnt \<and> off + cnt \<le> len (lhdr s lp)
     then Inr (data (lhdr s lp) + nat off) else Inl mem_bytes_out_of_range)"
proof -
  have "i32 (len (lhdr s lp) - cnt) = len (lhdr s lp) - cnt" if "0 \<le> cnt"
    using that assms(4) list_okD [OF assms(1)] by (intro i32_id) (auto simp: is_int32_def)
  then show ?thesis using assms(2) by (auto simp: mem_bytes_at_def Let_def byte_list_def)
qed

definition splice :: "'x list \<Rightarrow> nat \<Rightarrow> 'x list \<Rightarrow> 'x list" where
  "splice xs k zs = take k xs @ zs @ drop (k + length zs) xs"

lemma peek_poke_inside:
  assumes "k + length bs \<le> n"
  shows "peek (poke m (d + k) bs) d n = splice (peek m d n) k bs"
proof (rule nth_equalityI)
  fix i assume "i < length (peek (poke m (d + k) bs) d n)"
  then have i: "i < n" by simp
  consider "i < k" | "k \<le> i" "i < k + length bs" | "k + length bs \<le> i" by linarith
  then show "peek (poke m (d + k) bs) d n ! i = splice (peek m d n) k bs ! i"
    using i assms by cases (auto simp: peek_def poke_def splice_def nth_append)
qed (use assms in \<open>simp add: splice_def\<close>)

text \<open>What a byte operation may do: replace a range of the buffer, or refuse a range that is not inside it.\<close>

definition spliced :: "(owned \<Rightarrow> ('a, 'b) lrt_scheme \<Rightarrow> bool) \<Rightarrow> owned \<Rightarrow> ('a, 'b) lrt_scheme \<Rightarrow> addr \<Rightarrow> int \<Rightarrow> byte list \<Rightarrow> ('a, 'b) lres \<Rightarrow> bool" where
  "spliced rinv B s lp off zs r \<longleftrightarrow>
     (\<exists>s'. r = Inr s' \<and> bytes s' lp = splice (bytes s lp) (nat off) zs \<and> list_now rinv B s lp (elems s' lp) s')"

context list_rt
begin

lemma splice_ok:
  assumes inv: "rinv B s" and ok: "list_ok B (lhdr s) lp" and b: "byte_list (lhdr s lp)"
    and o: "0 \<le> off" "off + int (length zs) \<le> len (lhdr s lp)"
  shows "spliced rinv B s lp off zs (Inr (rt_poke (data (lhdr s lp) + nat off) zs s))"
proof -
  let ?l = "lhdr s lp"
  have st: "list_stride ?l = 1" using b by (simp add: byte_list_def list_stride_def)
  have lim: "nat off + length zs \<le> nat (len ?l)" "nat (len ?l) \<le> nat (lcap ?l)" using o list_okD [OF ok] by auto
  have n: "list_now rinv B s lp (elems (rt_poke (data ?l + nat off) zs s) lp) (rt_poke (data ?l + nat off) zs s)"
    using poke_ok [OF inv ok, of zs "data ?l + nat off"] lim by (simp add: st elems_def Let_def rmem_poke)
  have "bytes (rt_poke (data ?l + nat off) zs s) lp = splice (bytes s lp) (nat off) zs"
    using b peek_poke_inside [OF lim(1)] by (simp add: bytes_eq rmem_poke)
  then show ?thesis using n by (auto simp: spliced_def)
qed

lemma mem_bytes_copy_ok:
  assumes inv: "rinv B s" and ok: "list_ok B (lhdr s) dst" "list_ok B (lhdr s) src" and b: "byte_list (lhdr s dst)" "byte_list (lhdr s src)"
    and i: "is_int32 d" "is_int32 a" "is_int32 cnt"
  shows "if 0 \<le> d \<and> 0 \<le> a \<and> 0 \<le> cnt \<and> d + cnt \<le> len (lhdr s dst) \<and> a + cnt \<le> len (lhdr s src)
    then spliced rinv B s dst d (take (nat cnt) (drop (nat a) (bytes s src))) (mem_bytes_copy dst d src a cnt s)
    else mem_bytes_copy dst d src a cnt s = Inl mem_bytes_out_of_range"
proof (cases "0 \<le> d \<and> 0 \<le> a \<and> 0 \<le> cnt \<and> d + cnt \<le> len (lhdr s dst) \<and> a + cnt \<le> len (lhdr s src)")
  case True
  let ?zs = "peek (rmem s) (data (lhdr s src) + nat a) (nat cnt)"
  have z: "?zs = take (nat cnt) (drop (nat a) (bytes s src))"
    using True by (intro nth_equalityI) (auto simp: bytes_eq [OF b(2)] peek_def nat_add_distrib [symmetric] ac_simps)
  have "mem_bytes_copy dst d src a cnt s = Inr (rt_poke (data (lhdr s dst) + nat d) ?zs s)"
    using True mem_bytes_at_eq [OF ok(1) b(1) i(1,3)] mem_bytes_at_eq [OF ok(2) b(2) i(2,3)]
    by (simp add: mem_bytes_copy_def upd_mem_def rt_poke_def memmove_eq)
  then show ?thesis using True splice_ok [OF inv ok(1) b(1), of d ?zs] by (simp add: z [symmetric])
next
  case False
  then show ?thesis
    using mem_bytes_at_eq [OF ok(1) b(1) i(1,3)] mem_bytes_at_eq [OF ok(2) b(2) i(2,3)] by (auto simp: mem_bytes_copy_def)
qed

end

text \<open>C20. Copying bytes between two buffers replaces exactly the named range of the destination by the bytes the
  source had before the call, also when the two ranges overlap in one buffer, and touches nothing else;
  a range that is not inside its buffer, a negative offset or count included, ends the program before any write.\<close>

theorem buffer_copy_splices:
  assumes "seam_spec S hinv" and "rt_inv hinv B s" and "list_ok B (lhdr s) dst" "list_ok B (lhdr s) src"
    and "byte_list (lhdr s dst)" "byte_list (lhdr s src)" and "is_int32 d" "is_int32 a" "is_int32 cnt"
  shows "if 0 \<le> d \<and> 0 \<le> a \<and> 0 \<le> cnt \<and> d + cnt \<le> int (length (bytes s dst)) \<and> a + cnt \<le> int (length (bytes s src))
    then spliced (rt_inv hinv) B s dst d (take (nat cnt) (drop (nat a) (bytes s src))) (mem_bytes_copy dst d src a cnt s)
    else mem_bytes_copy dst d src a cnt s = Inl mem_bytes_out_of_range"
  using list_rt.mem_bytes_copy_ok [OF seam_spec.list_rt_laws [OF assms(1)] assms(2-)] list_okD(2) [OF assms(3)] list_okD(2) [OF assms(4)]
  by (simp add: bytes_eq assms(5,6))

text \<open>The list of two numbers, seen as one of eight bytes with a four in the third place.\<close>

definition byte_buffer :: "unit lrt" where
  "byte_buffer = rt_poke 4162 [4] (upd_hdr 4096 (\<lambda>l. l\<lparr>len := 8, lcap := 16, elem_size := 1\<rparr>) pair_list)"

theorem buffer_copy_splices_witness:
  "\<exists>s'. mem_bytes_copy 4096 3 4096 2 2 byte_buffer = Inr s' \<and> bytes s' 4096 = [0, 0, 4, 4, 0, 0, 0, 0]"
proof -
  let ?B = "[4096 \<mapsto> (Seam, 80)] :: owned"
  have inv: "rt_inv plain_inv ?B byte_buffer"
    unfolding byte_buffer_def by (rule plain.rt.rt_write_law [of ?B _ 4096 Seam 80]) (simp_all add: rt_inv_hdr pair_list_inv)
  have h: "lhdr byte_buffer 4096 = \<lparr>data = 4160, len = 8, lcap = 16, elem_own = 0, elem_release = 0, larena = 0, elem_size = 1,
      grave_at = 0, grave = [], grave_cap = 0, fused = True\<rparr>"
    by (simp add: byte_buffer_def pair_list_def)
  have ok: "list_ok ?B (lhdr byte_buffer) 4096" "byte_list (lhdr byte_buffer 4096)"
    by (simp_all add: list_ok_def Let_def h list_stride_def byte_list_def)
  have u: "[0..<8] = [0, 1, 2, 3, 4, 5, 6, 7 :: nat]" by (simp add: upt_conv_Cons)
  have b: "bytes byte_buffer 4096 = [0, 0, 4, 0, 0, 0, 0, 0]"
    by (simp add: bytes_eq [OF ok(2)] h) (simp add: byte_buffer_def rmem_poke peek_def poke_def u pair_list_def)
  have "spliced (rt_inv plain_inv) ?B byte_buffer 4096 3 [4, 0] (mem_bytes_copy 4096 3 4096 2 2 byte_buffer)"
    using buffer_copy_splices [OF plain.seam_spec_axioms inv ok(1) ok(1) ok(2) ok(2), of 3 2 2]
    by (simp add: is_int32_def b)
  then show ?thesis by (auto simp: spliced_def b splice_def)
qed

end
