(* ===== verification/DataView.thy ===== *)
theory DataView
  imports List_Views
begin

text \<open>
  Data views of \<open>runtime/lang_runtime.c\<close> (\<open>data_view_begin\<close> to \<open>data_view_to_list\<close>): a list of rows turned
  into one array per field, and back.  A view's header and its array of column descriptors are a
  record found by the handle, with \<open>columns_at\<close> for where the array lies; the columns themselves are
  bytes in memory.
\<close>

subsection \<open>Definitions\<close>

record RtDataColumn =
  cdata :: addr
  coffset :: int
  csize :: int

record RtDataView =
  source :: addr
  columns_at :: addr
  columns :: "RtDataColumn list"
  vlen :: int
  field_count :: int
  built_fields :: int
  velem_size :: int
  varena :: int

record 'a vrt = "'a lrt" +
  views :: "addr \<Rightarrow> RtDataView"

type_synonym ('a, 'b) vres = "rt_error + ('a, 'b) vrt_scheme"

definition sizeof_RtDataView :: nat where "sizeof_RtDataView = 40"
definition sizeof_RtDataColumn :: nat where "sizeof_RtDataColumn = 16"

definition data_view_fail :: "string \<Rightarrow> rt_error" where
  "data_view_fail message = Exit (''invalid DataView conversion: '' @ message)"

definition data_view_access_fail :: "int \<Rightarrow> rt_error" where
  "data_view_access_fail reason =
     data_view_fail (if reason = 1 then ''view is not ready for access'' else ''element index out of range'')"

definition upd_view :: "addr \<Rightarrow> (RtDataView \<Rightarrow> RtDataView) \<Rightarrow> ('a, 'b) vrt_scheme \<Rightarrow> ('a, 'b) vrt_scheme" where
  "upd_view vp f s = s\<lparr>views := (views s)(vp := f (views s vp))\<rparr>"

definition data_view_begin :: "'a seam \<Rightarrow> addr \<Rightarrow> int \<Rightarrow> int \<Rightarrow> ('a, 'b) vrt_scheme \<Rightarrow> rt_error + addr \<times> ('a, 'b) vrt_scheme" where
  "data_view_begin S lp nf es s =
     (if lp = 0 then Inl (data_view_fail ''null source list'')
      else if nf \<le> 0 \<or> es \<le> 0 then Inl (data_view_fail ''invalid struct layout'')
      else let (v, s) = rt_alloc S sizeof_RtDataView s in
           if v = 0 then Inl Null_store
           else let (c, s) = rt_alloc S (sizeof_RtDataColumn * nat nf) s in
                if c = 0 then Inl Null_store
                else Inr (v, upd_view v (\<lambda>_. \<lparr>source = lp, columns_at = c,
                       columns = replicate (nat nf) \<lparr>cdata = 0, coffset = 0, csize = 0\<rparr>, vlen = len (lhdr s lp),
                       field_count = nf, built_fields = 0, velem_size = es, varena = int (rt_arena_slot s)\<rparr>) s))"

text \<open>Row \<open>i\<close> of the source: its body in an inline list, what the slot points to in a boxed one.\<close>

definition row_at :: "addr \<Rightarrow> nat \<Rightarrow> ('a, 'b) vrt_scheme \<Rightarrow> addr" where
  "row_at lp i s = (let l = lhdr s lp in
     if elem_size l \<noteq> 0 then slot_at l (int i) (nat (elem_size l)) else ptr_get lp (int i) s)"

fun gather :: "addr \<Rightarrow> addr \<Rightarrow> nat \<Rightarrow> nat \<Rightarrow> nat \<Rightarrow> nat \<Rightarrow> ('a, 'b) vrt_scheme \<Rightarrow> ('a, 'b) vres" where
  "gather lp col off w 0 i s = Inr s"
| "gather lp col off w (Suc k) i s =
     (let row = row_at lp i s in
      if row = 0 then Inl (data_view_fail ''null row in source list'')
      else gather lp col off w k (Suc i) (upd_mem (\<lambda>m. memcpy m (col + i * w) (row + off) w) s))"

definition data_view_add_column :: "'a seam \<Rightarrow> addr \<Rightarrow> int \<Rightarrow> int \<Rightarrow> int \<Rightarrow> ('a, 'b) vrt_scheme \<Rightarrow> ('a, 'b) vres" where
  "data_view_add_column S vp field off w s =
     (let v = views s vp in
      if vp = 0 \<or> source v = 0 then Inl (data_view_fail ''column added outside construction'')
      else if field < 0 \<or> field \<ge> field_count v then Inl (data_view_fail ''field index out of range'')
      else if off < 0 \<or> w \<le> 0 \<or> i32 (off + w) > velem_size v then Inl (data_view_fail ''field layout outside element'')
      else if cdata (columns v ! nat field) \<noteq> 0 then Inl (data_view_fail ''field column added twice'')
      else let put = (\<lambda>d. upd_view vp (\<lambda>v. v\<lparr>columns := (columns v)[nat field := \<lparr>cdata = d, coffset = off, csize = w\<rparr>]\<rparr>));
               built = upd_view vp (\<lambda>v. v\<lparr>built_fields := built_fields v + 1\<rparr>)
           in if vlen v > 0
              then let (d, s) = rt_alloc S (nat (vlen v) * nat w) s in
                   if d = 0 then Inl Null_store
                   else andthen (gather (source v) d (nat off) (nat w) (nat (vlen v)) 0 (put d s)) (\<lambda>s. Inr (built s))
              else Inr (built (put 0 s)))"

definition data_view_finish :: "'a seam \<Rightarrow> ('a, 'b vrt_ext) releaser \<Rightarrow> nat \<Rightarrow> addr \<Rightarrow> ('a, 'b) vrt_scheme \<Rightarrow> ('a, 'b) vres" where
  "data_view_finish S R n vp s =
     (let v = views s vp in
      if vp = 0 \<or> source v = 0 then Inl (data_view_fail ''conversion already finished'')
      else if built_fields v \<noteq> field_count v then Inl (data_view_fail ''not all field columns were built'')
      else andthen (list_release S R n (source v) s) (\<lambda>s. Inr (upd_view vp (\<lambda>v. v\<lparr>source := 0\<rparr>) s)))"

definition data_view_len :: "addr \<Rightarrow> ('a, 'b) vrt_scheme \<Rightarrow> int" where
  "data_view_len vp s = (if vp = 0 then 0 else vlen (views s vp))"

definition data_view_check_index :: "addr \<Rightarrow> int \<Rightarrow> ('a, 'b) vrt_scheme \<Rightarrow> rt_error + unit" where
  "data_view_check_index vp index s =
     (if vp = 0 \<or> source (views s vp) \<noteq> 0 then Inl (data_view_access_fail 1)
      else if index < 0 \<or> index \<ge> vlen (views s vp) then Inl (data_view_access_fail 2)
      else Inr ())"

definition data_view_column :: "addr \<Rightarrow> int \<Rightarrow> ('a, 'b) vrt_scheme \<Rightarrow> addr" where
  "data_view_column vp field s = cdata (columns (views s vp) ! nat field)"

definition data_view_release :: "'a seam \<Rightarrow> ('a, 'b vrt_ext) releaser \<Rightarrow> nat \<Rightarrow> addr \<Rightarrow> ('a, 'b) vrt_scheme \<Rightarrow> ('a, 'b) vres" where
  "data_view_release S R n vp s =
     (if vp = 0 then Inr s
      else let v = views s vp in
           andthen (if source v \<noteq> 0 then list_release S R n (source v) s else Inr s) (\<lambda>s.
             if varena v \<noteq> 0 then Inr s
             else Inr (rt_free S vp (rt_free S (columns_at v)
                    (fold (rt_free S) (rev (filter (\<lambda>d. d \<noteq> 0) (map cdata (columns v)))) s)))))"

text \<open>One row rebuilt from the columns.\<close>

fun scatter :: "RtDataColumn list \<Rightarrow> addr \<Rightarrow> nat \<Rightarrow> mem \<Rightarrow> mem" where
  "scatter [] row i m = m"
| "scatter (c # cs) row i m =
     scatter cs row i (memcpy m (row + nat (coffset c)) (cdata c + i * nat (csize c)) (nat (csize c)))"

fun rows_back :: "'a seam \<Rightarrow> addr \<Rightarrow> addr \<Rightarrow> nat \<Rightarrow> nat \<Rightarrow> ('a, 'b) vrt_scheme \<Rightarrow> ('a, 'b) vres" where
  "rows_back S vp lp 0 i s = Inr s"
| "rows_back S vp lp (Suc k) i s =
     (let v = views s vp in
      andthen (list_push_slot S lp (velem_size v) s) (\<lambda>(row, s).
        if row = 0 then Inl Null_store
        else rows_back S vp lp k (Suc i)
          (upd_mem (\<lambda>m. scatter (columns v) row i (memset m row 0 (nat (velem_size v)))) s)))"

definition data_view_to_list :: "'a seam \<Rightarrow> ('a, 'b vrt_ext) releaser \<Rightarrow> nat \<Rightarrow> addr \<Rightarrow> ('a, 'b) vrt_scheme \<Rightarrow> rt_error + addr \<times> ('a, 'b) vrt_scheme" where
  "data_view_to_list S R n vp s =
     (let v = views s vp in
      if vp = 0 \<or> source v \<noteq> 0 then Inl (data_view_fail ''view is not ready for materialisation'')
      else andthen (list_new_with_capacity_inline S (vlen v) (velem_size v) s) (\<lambda>(lp, s).
             andthen (rows_back S vp lp (nat (vlen v)) 0 s) (\<lambda>s.
               andthen (data_view_release S R n vp s) (\<lambda>s. Inr (lp, s)))))"

end
