(* ===== verification/Channels.thy ===== *)
theory Channels
  imports Prelude
begin

text \<open>
  The channels of \<open>runtime/program_support.c\<close> (\<open>chan_new\<close> to \<open>chan_free\<close>): a bounded ring that tasks
  share, of pointers (\<open>chan_send\<close>, \<open>chan_recv\<close>) or of values copied in and out (\<open>chan_send_copy\<close>,
  \<open>chan_recv_copy\<close>).

  The lock makes each pass through an operation one step, from taking the lock, or from waking with it,
  to giving it up.  A pass ends in \<open>Wait\<close>, on the condition it then sleeps on, or in \<open>Done\<close>, with the
  condition it signals.  A handle is \<open>None\<close> where it is null.  \<open>al\<close> says whether \<open>calloc\<close> gives a block.
  The bytes at a source are a list; what \<open>chan_recv_copy\<close> stores at its destination is its result.
\<close>

subsection \<open>Definitions\<close>

record PrismioChan =
  slots :: "addr list"
  cbytes :: "byte list option"
  celem_size :: nat
  ccap :: nat
  head :: nat
  clen :: nat
  closed :: bool

datatype condition = Not_empty | Not_full

datatype 'r attempt = Wait condition | Done 'r "PrismioChan option" "condition option"

definition chan_new :: "bool \<Rightarrow> bool \<Rightarrow> int \<Rightarrow> PrismioChan option" where
  "chan_new al al' capacity =
     (let n = (if capacity < 1 then 1 else nat capacity) in
      if \<not> al then None
      else if \<not> al' then None
      else Some \<lparr>slots = replicate n 0, cbytes = None, celem_size = 0, ccap = n, head = 0, clen = 0, closed = False\<rparr>)"

definition chan_send :: "addr \<Rightarrow> PrismioChan option \<Rightarrow> int attempt" where
  "chan_send msg h = (case h of None \<Rightarrow> Done 0 None None | Some c \<Rightarrow>
     if clen c = ccap c \<and> \<not> closed c then Wait Not_full
     else if closed c then Done 0 (Some c) None
     else Done 1 (Some (c\<lparr>slots := (slots c)[(head c + clen c) mod ccap c := msg], clen := clen c + 1\<rparr>)) (Some Not_empty))"

definition chan_recv :: "PrismioChan option \<Rightarrow> addr attempt" where
  "chan_recv h = (case h of None \<Rightarrow> Done 0 None None | Some c \<Rightarrow>
     if clen c = 0 \<and> \<not> closed c then Wait Not_empty
     else if clen c = 0 then Done 0 (Some c) None
     else Done (slots c ! head c) (Some (c\<lparr>head := (head c + 1) mod ccap c, clen := clen c - 1\<rparr>)) (Some Not_full))"

definition chan_bytes_ready :: "bool \<Rightarrow> int \<Rightarrow> PrismioChan \<Rightarrow> bool \<times> PrismioChan" where
  "chan_bytes_ready al k c =
     (if cbytes c \<noteq> None then (True, c)
      else let w = (if k < 1 then 1 else nat k) in
           if \<not> al then (False, c)
           else (True, c\<lparr>cbytes := Some (replicate (ccap c * w) 0), celem_size := w\<rparr>))"

text \<open>\<open>memcpy\<close> to and from a cell of the ring.\<close>

definition put_cell :: "nat \<Rightarrow> byte list \<Rightarrow> PrismioChan \<Rightarrow> PrismioChan" where
  "put_cell i src c = (let w = celem_size c; bs = the (cbytes c) in
     c\<lparr>cbytes := Some (take (i * w) bs @ take w src @ drop (i * w + w) bs)\<rparr>)"

definition get_cell :: "nat \<Rightarrow> PrismioChan \<Rightarrow> byte list" where
  "get_cell i c = take (celem_size c) (drop (i * celem_size c) (the (cbytes c)))"

definition chan_send_copy :: "bool \<Rightarrow> byte list \<Rightarrow> int \<Rightarrow> PrismioChan option \<Rightarrow> int attempt" where
  "chan_send_copy al src k h = (case h of None \<Rightarrow> Done 0 None None | Some c \<Rightarrow>
     if clen c = ccap c \<and> \<not> closed c then Wait Not_full
     else if closed c then Done 0 (Some c) None
     else let (ready, c) = chan_bytes_ready al k c in
          if \<not> ready then Done 0 (Some c) None
          else let tail = head c + clen c; tail = (if tail \<ge> ccap c then tail - ccap c else tail)
               in Done 1 (Some ((put_cell tail src c)\<lparr>clen := clen c + 1\<rparr>)) (Some Not_empty))"

definition chan_recv_copy :: "bool \<Rightarrow> int \<Rightarrow> PrismioChan option \<Rightarrow> (int \<times> byte list) attempt" where
  "chan_recv_copy al k h = (case h of None \<Rightarrow> Done (0, []) None None | Some c \<Rightarrow>
     if clen c = 0 \<and> \<not> closed c then Wait Not_empty
     else if clen c = 0 then Done (0, []) (Some c) None
     else let (ready, c) = chan_bytes_ready al k c in
          if \<not> ready then Done (0, []) (Some c) None
          else Done (1, get_cell (head c) c)
            (Some (c\<lparr>head := (if head c + 1 = ccap c then 0 else head c + 1), clen := clen c - 1\<rparr>)) (Some Not_full))"

definition chan_close :: "PrismioChan option \<Rightarrow> PrismioChan option" where
  "chan_close h = (case h of None \<Rightarrow> None | Some c \<Rightarrow> Some (c\<lparr>closed := True\<rparr>))"

definition chan_share :: "PrismioChan option \<Rightarrow> PrismioChan option" where
  "chan_share h = h"

definition chan_len :: "PrismioChan option \<Rightarrow> int" where
  "chan_len h = (case h of None \<Rightarrow> 0 | Some c \<Rightarrow> int (clen c))"

definition chan_free :: "PrismioChan option \<Rightarrow> PrismioChan option" where
  "chan_free h = None"

subsection \<open>A ring as a bounded queue\<close>

text \<open>What either family of operations promises: \<open>msgs\<close> are the messages under way, oldest first, and \<open>ready\<close>
  that nothing but a close can make a send fail.\<close>

locale bounded_queue =
  fixes ok :: "PrismioChan \<Rightarrow> bool" and msgs :: "PrismioChan \<Rightarrow> 'm list" and good :: "'m \<Rightarrow> bool"
    and ready :: "PrismioChan \<Rightarrow> bool"
    and send :: "'m \<Rightarrow> PrismioChan \<Rightarrow> bool attempt" and recv :: "PrismioChan \<Rightarrow> 'm option attempt"
  assumes msgs_len: "ok c \<Longrightarrow> length (msgs c) = clen c"
    and ok_len: "ok c \<Longrightarrow> clen c \<le> ccap c \<and> 0 < ccap c"
    and ok_ready: "ok c \<Longrightarrow> 0 < clen c \<Longrightarrow> ready c"
    and ok_close: "ok c \<Longrightarrow> ok (c\<lparr>closed := True\<rparr>) \<and> msgs (c\<lparr>closed := True\<rparr>) = msgs c"
    and send_cases: "ok c \<Longrightarrow> good m \<Longrightarrow>
      (case send m c of
         Wait w \<Rightarrow> w = Not_full \<and> clen c = ccap c \<and> \<not> closed c
       | Done b h sg \<Rightarrow> \<exists>c'. h = Some c' \<and> ok c' \<and> ccap c' = ccap c \<and> closed c' = closed c \<and> (ready c \<longrightarrow> ready c')
           \<and> (if b then msgs c' = msgs c @ [m] \<and> sg = Some Not_empty \<and> \<not> closed c
              else msgs c' = msgs c \<and> sg = None \<and> (closed c \<or> \<not> ready c)))"
    and recv_cases: "ok c \<Longrightarrow>
      (case recv c of
         Wait w \<Rightarrow> w = Not_empty \<and> clen c = 0 \<and> \<not> closed c
       | Done r h sg \<Rightarrow> \<exists>c'. h = Some c' \<and> ok c' \<and> ccap c' = ccap c \<and> closed c' = closed c \<and> (ready c \<longrightarrow> ready c')
           \<and> (case r of Some m \<Rightarrow> msgs c = m # msgs c' \<and> sg = Some Not_full | None \<Rightarrow> msgs c = [] \<and> msgs c' = [] \<and> sg = None \<and> closed c))"

text \<open>Tasks at the two ends: who sleeps on which condition, who has been woken and not yet run, and what was sent
  and received so far.  A signal wakes one sleeper, if there is one; a sleeper may also wake by itself.\<close>

record 'm chan_sys =
  chan :: PrismioChan
  asleep :: "condition \<Rightarrow> nat set"
  woken :: "condition \<Rightarrow> nat set"
  sent :: "'m list"
  received :: "'m list"

definition idle :: "nat \<Rightarrow> ('m, 'z) chan_sys_scheme \<Rightarrow> bool" where
  "idle t s \<longleftrightarrow> (\<forall>w. t \<notin> asleep s w \<and> t \<notin> woken s w)"

definition may_run :: "nat \<Rightarrow> condition \<Rightarrow> ('m, 'z) chan_sys_scheme \<Rightarrow> bool" where
  "may_run t w s \<longleftrightarrow> idle t s \<or> t \<in> woken s w"

definition sleep :: "nat \<Rightarrow> condition \<Rightarrow> ('m, 'z) chan_sys_scheme \<Rightarrow> ('m, 'z) chan_sys_scheme" where
  "sleep t w s = s\<lparr>asleep := (asleep s)(w := insert t (asleep s w)), woken := (woken s)(w := woken s w - {t})\<rparr>"

definition wake :: "nat \<Rightarrow> condition \<Rightarrow> ('m, 'z) chan_sys_scheme \<Rightarrow> ('m, 'z) chan_sys_scheme" where
  "wake u w s = s\<lparr>asleep := (asleep s)(w := asleep s w - {u}), woken := (woken s)(w := insert u (woken s w))\<rparr>"

definition leave :: "nat \<Rightarrow> condition \<Rightarrow> ('m, 'z) chan_sys_scheme \<Rightarrow> ('m, 'z) chan_sys_scheme" where
  "leave t w s = s\<lparr>woken := (woken s)(w := woken s w - {t})\<rparr>"

text \<open>\<open>PRISMIO_COND_SIGNAL\<close>: the sleeper \<open>u\<close>, or nobody.\<close>

definition signalled :: "condition option \<Rightarrow> nat option \<Rightarrow> ('m, 'z) chan_sys_scheme \<Rightarrow> bool" where
  "signalled sg u s \<longleftrightarrow> (case sg of None \<Rightarrow> u = None
     | Some w \<Rightarrow> (case u of None \<Rightarrow> asleep s w = {} | Some t \<Rightarrow> t \<in> asleep s w))"

definition deliver :: "condition option \<Rightarrow> nat option \<Rightarrow> ('m, 'z) chan_sys_scheme \<Rightarrow> ('m, 'z) chan_sys_scheme" where
  "deliver sg u s = (case (sg, u) of (Some w, Some t) \<Rightarrow> wake t w s | _ \<Rightarrow> s)"

context bounded_queue
begin

inductive step :: "'m chan_sys \<Rightarrow> 'm chan_sys \<Rightarrow> bool" where
  send_waits: "may_run t Not_full s \<Longrightarrow> good m \<Longrightarrow> send m (chan s) = Wait w \<Longrightarrow> step s (sleep t w s)"
| sends: "may_run t Not_full s \<Longrightarrow> good m \<Longrightarrow> send m (chan s) = Done b (Some c) sg \<Longrightarrow> signalled sg u s \<Longrightarrow>
    step s (deliver sg u (leave t Not_full (s\<lparr>chan := c, sent := sent s @ (if b then [m] else [])\<rparr>)))"
| recv_waits: "may_run t Not_empty s \<Longrightarrow> recv (chan s) = Wait w \<Longrightarrow> step s (sleep t w s)"
| receives: "may_run t Not_empty s \<Longrightarrow> recv (chan s) = Done r (Some c) sg \<Longrightarrow> signalled sg u s \<Longrightarrow>
    step s (deliver sg u (leave t Not_empty (s\<lparr>chan := c, received := received s @ (case r of Some m \<Rightarrow> [m] | None \<Rightarrow> [])\<rparr>)))"
| spurious: "t \<in> asleep s w \<Longrightarrow> step s (wake t w s)"
| closes: "chan_close (Some (chan s)) = Some c \<Longrightarrow>
    step s (s\<lparr>chan := c, asleep := (\<lambda>_. {}), woken := (\<lambda>w. woken s w \<union> asleep s w)\<rparr>)"

text \<open>Nobody sleeps while there is something for it to do that no woken task is about to take.\<close>

definition sys_ok :: "'m chan_sys \<Rightarrow> bool" where
  "sys_ok s \<longleftrightarrow> (let c = chan s in ok c \<and> received s @ msgs c = sent s
     \<and> (\<forall>w. finite (asleep s w) \<and> finite (woken s w))
     \<and> (closed c \<longrightarrow> (\<forall>w. asleep s w = {}))
     \<and> (asleep s Not_full \<noteq> {} \<longrightarrow> ready c \<and> ccap c - clen c \<le> card (woken s Not_full))
     \<and> (asleep s Not_empty \<noteq> {} \<longrightarrow> clen c \<le> card (woken s Not_empty))
     \<and> (\<forall>w. asleep s w \<inter> woken s w = {}))"

lemma sys_okD:
  assumes "sys_ok s"
  shows "ok (chan s)" "received s @ msgs (chan s) = sent s" "finite (asleep s w) \<and> finite (woken s w)" "closed (chan s) \<Longrightarrow> asleep s w = {}"
    "asleep s Not_full \<noteq> {} \<Longrightarrow> ready (chan s)"
    "asleep s Not_full \<noteq> {} \<Longrightarrow> ccap (chan s) \<le> clen (chan s) + card (woken s Not_full)"
    "asleep s Not_empty \<noteq> {} \<Longrightarrow> clen (chan s) \<le> card (woken s Not_empty)" "asleep s w \<inter> woken s w = {}"
  using assms by (auto simp: sys_ok_def Let_def)

lemma sys_okI:
  assumes "ok (chan s)" "received s @ msgs (chan s) = sent s" "\<And>w. finite (asleep s w) \<and> finite (woken s w)" "\<And>w. closed (chan s) \<Longrightarrow> asleep s w = {}"
    "asleep s Not_full \<noteq> {} \<Longrightarrow> ready (chan s)"
    "asleep s Not_full \<noteq> {} \<Longrightarrow> ccap (chan s) \<le> clen (chan s) + card (woken s Not_full)"
    "asleep s Not_empty \<noteq> {} \<Longrightarrow> clen (chan s) \<le> card (woken s Not_empty)" "\<And>w. asleep s w \<inter> woken s w = {}"
  shows "sys_ok s"
  using assms unfolding sys_ok_def Let_def by (intro conjI impI allI) auto

lemma card_leave: "finite A \<Longrightarrow> card A \<le> card (A - {t}) + 1"
  by (metis Suc_eq_plus1 card_Diff1_le card_Suc_Diff1 le_SucI order_refl Diff_empty Diff_insert0)

lemma sleep_ok:
  assumes s: "sys_ok s" and w: "w = Not_full \<and> clen (chan s) = ccap (chan s) \<or> w = Not_empty \<and> clen (chan s) = 0" and "\<not> closed (chan s)"
    and r: "may_run t w s"
  shows "sys_ok (sleep t w s)"
proof -
  note D = sys_okD [OF s] and L = ok_len [OF sys_okD(1) [OF s]]
  have "ready (chan s)" if "w = Not_full" using ok_ready [OF D(1)] that w L by auto
  moreover have "asleep s v \<inter> woken s v = {}" for v by (rule D(8))
  ultimately show ?thesis
    using D(1,2) w assms(3) by (intro sys_okI) (auto simp: sleep_def D(3) intro: D(5) D(6) D(7))
qed

lemma fewer_asleep:
  assumes s: "sys_ok s" and "chan s' = chan s" "sent s' = sent s" "received s' = received s"
    and a: "\<And>w. asleep s' w \<subseteq> asleep s w" and w: "\<And>w. woken s w \<subseteq> woken s' w"
    and "\<And>w. finite (asleep s' w) \<and> finite (woken s' w)" "\<And>w. asleep s' w \<inter> woken s' w = {}"
  shows "sys_ok s'"
proof -
  note D = sys_okD [OF s]
  have n: "asleep s w \<noteq> {}" if "asleep s' w \<noteq> {}" for w using a that by blast
  have k: "card (woken s w) \<le> card (woken s' w)" for w using w assms(7) by (blast intro: card_mono)
  show ?thesis
  proof (rule sys_okI)
    fix w assume "closed (chan s')"
    then show "asleep s' w = {}" using D(4) [of w] a [of w] assms(2) by simp
  qed (use assms D n [of Not_full] n [of Not_empty] k [of Not_full] k [of Not_empty] in \<open>simp_all\<close>)
qed

text \<open>A pass that ends: the caller leaves, one sleeper is woken.\<close>

lemma deliver_ok:
  assumes s: "sys_ok s" and c: "ok c" "ccap c = ccap (chan s)" "closed c = closed (chan s)" "ready (chan s) \<Longrightarrow> ready c"
    and h: "rcv @ msgs c = snt"
    and sg: "signalled sg u s"
    and full: "asleep s Not_full \<noteq> {} \<Longrightarrow> ccap c \<le> clen c + card (woken (deliver sg u (leave t v s)) Not_full)"
    and empty: "asleep s Not_empty \<noteq> {} \<Longrightarrow> clen c \<le> card (woken (deliver sg u (leave t v s)) Not_empty)"
  shows "sys_ok (deliver sg u (leave t v (s\<lparr>chan := c, sent := snt, received := rcv\<rparr>)))"
proof -
  note D = sys_okD [OF s]
  have e: "deliver sg u (leave t v (s\<lparr>chan := c, sent := snt, received := rcv\<rparr>))
      = (deliver sg u (leave t v s))\<lparr>chan := c, sent := snt, received := rcv\<rparr>"
    by (auto simp: deliver_def leave_def wake_def split: option.splits)
  have a: "asleep (deliver sg u (leave t v s)) w \<subseteq> asleep s w" for w
    by (auto simp: deliver_def leave_def wake_def split: option.splits if_splits)
  have f: "finite (asleep (deliver sg u (leave t v s)) w) \<and> finite (woken (deliver sg u (leave t v s)) w)" for w
    using D(3) by (auto simp: deliver_def leave_def wake_def split: option.splits)
  have d: "asleep (deliver sg u (leave t v s)) w \<inter> woken (deliver sg u (leave t v s)) w = {}" for w
    using D(8) [of w] by (auto simp: deliver_def leave_def wake_def split: option.splits if_splits)
  have n: "asleep s w \<noteq> {}" if "asleep (deliver sg u (leave t v s)) w \<noteq> {}" for w using a that by blast
  show ?thesis
  proof (unfold e, rule sys_okI)
    fix w assume "closed (chan ((deliver sg u (leave t v s))\<lparr>chan := c, sent := snt, received := rcv\<rparr>))"
    then have "asleep s w = {}" using D(4) c(3) by simp
    then show "asleep ((deliver sg u (leave t v s))\<lparr>chan := c, sent := snt, received := rcv\<rparr>) w = {}" using a [of w] by simp
  qed (use c(1) h f d full empty n [of Not_full] n [of Not_empty] D(5) c(4) in \<open>simp_all\<close>)
qed

lemma woken_deliver:
  assumes s: "sys_ok s"
  shows "sg \<noteq> Some w \<Longrightarrow> card (woken s w) \<le> card (woken (deliver sg u (leave t v s)) w) + (if v = w then 1 else 0)"
    "signalled (Some w) u s \<Longrightarrow> asleep s w \<noteq> {} \<Longrightarrow> v \<noteq> w \<Longrightarrow> card (woken (deliver (Some w) u (leave t v s)) w) = card (woken s w) + 1"
proof -
  note D = sys_okD [OF s]
  show "card (woken s w) \<le> card (woken (deliver sg u (leave t v s)) w) + (if v = w then 1 else 0)" if "sg \<noteq> Some w"
    using that card_leave [OF conjunct2 [OF D(3)], of w t] by (auto simp: deliver_def leave_def wake_def split: option.splits)
  show "card (woken (deliver (Some w) u (leave t v s)) w) = card (woken s w) + 1"
    if "signalled (Some w) u s" "asleep s w \<noteq> {}" "v \<noteq> w"
    using that D(3) [of w] D(8) [of w]
    by (auto simp: deliver_def leave_def wake_def signalled_def card_insert_if split: option.splits)
qed

lemma step_ok:
  assumes "step s s'" and s: "sys_ok s"
  shows "sys_ok s'"
  using assms(1)
proof cases
  case (send_waits t m w)
  then have "w = Not_full \<and> clen (chan s) = ccap (chan s) \<and> \<not> closed (chan s)"
    using send_cases [OF sys_okD(1) [OF s], of m] by simp
  then show ?thesis using send_waits sleep_ok [OF s, of w t] by simp
next
  case (recv_waits t w)
  then have "w = Not_empty \<and> clen (chan s) = 0 \<and> \<not> closed (chan s)"
    using recv_cases [OF sys_okD(1) [OF s]] by simp
  then show ?thesis using recv_waits sleep_ok [OF s, of w t] by simp
next
  case (sends t m b c sg u)
  note D = sys_okD [OF s]
  from send_cases [OF D(1), of m] sends
  have c: "ok c" "ccap c = ccap (chan s)" "closed c = closed (chan s)" "ready (chan s) \<Longrightarrow> ready c"
    and r: "if b then msgs c = msgs (chan s) @ [m] \<and> sg = Some Not_empty \<and> \<not> closed (chan s)
            else msgs c = msgs (chan s) \<and> sg = None \<and> (closed (chan s) \<or> \<not> ready (chan s))" by auto
  have len: "clen c = clen (chan s) + of_bool b" using msgs_len [OF D(1)] msgs_len [OF c(1)] r by (auto split: if_splits)
  have snd: "received s @ msgs c = sent s @ (if b then [m] else [])" using D(2) r by (auto split: if_splits)
  have full: "ccap c \<le> clen c + card (woken (deliver sg u (leave t Not_full s)) Not_full)" if a: "asleep s Not_full \<noteq> {}"
  proof (cases b)
    case True
    then have "sg \<noteq> Some Not_full" using r by simp
    from woken_deliver(1) [OF s this, of u t Not_full] show ?thesis using D(6) [OF a] True len c(2) by simp
  next
    case False
    then show ?thesis using r D(4,5) a by auto
  qed
  have empty: "clen c \<le> card (woken (deliver sg u (leave t Not_full s)) Not_empty)" if a: "asleep s Not_empty \<noteq> {}"
  proof (cases b)
    case True
    then show ?thesis using woken_deliver(2) [OF s _ a, of u Not_full t] sends(5) r len D(7) [OF a] by simp
  next
    case False
    then show ?thesis using woken_deliver(1) [OF s, of sg Not_empty u t Not_full] r len D(7) [OF a] by simp
  qed
  show ?thesis using sends(1) deliver_ok [OF s c snd sends(5) full empty] by simp
next
  case (receives t r c sg u)
  note D = sys_okD [OF s]
  from recv_cases [OF D(1)] receives
  have c: "ok c" "ccap c = ccap (chan s)" "closed c = closed (chan s)" "ready (chan s) \<Longrightarrow> ready c"
    and r: "case r of Some m \<Rightarrow> msgs (chan s) = m # msgs c \<and> sg = Some Not_full
            | None \<Rightarrow> msgs (chan s) = [] \<and> msgs c = [] \<and> sg = None \<and> closed (chan s)" by auto
  have len: "clen (chan s) = clen c + of_bool (r \<noteq> None)"
    using msgs_len [OF D(1)] msgs_len [OF c(1)] r by (auto split: option.splits)
  have snd: "(received s @ (case r of Some m \<Rightarrow> [m] | None \<Rightarrow> [])) @ msgs c = sent s" using D(2) r by (auto split: option.splits)
  have full: "ccap c \<le> clen c + card (woken (deliver sg u (leave t Not_empty s)) Not_full)" if a: "asleep s Not_full \<noteq> {}"
  proof (cases r)
    case None
    then show ?thesis using r D(4) a by auto
  next
    case (Some m)
    then show ?thesis using woken_deliver(2) [OF s _ a, of u Not_empty t] receives(4) r len D(6) [OF a] c(2) by simp
  qed
  have empty: "clen c \<le> card (woken (deliver sg u (leave t Not_empty s)) Not_empty)" if a: "asleep s Not_empty \<noteq> {}"
  proof (cases r)
    case None
    then show ?thesis using r D(4) a by auto
  next
    case (Some m)
    then show ?thesis using woken_deliver(1) [OF s, of sg Not_empty u t Not_empty] r len D(7) [OF a] by simp
  qed
  have "s' = deliver sg u (leave t Not_empty (s\<lparr>chan := c, sent := sent s,
      received := received s @ (case r of Some m \<Rightarrow> [m] | None \<Rightarrow> [])\<rparr>))" using receives(1) by simp
  then show ?thesis using deliver_ok [OF s c snd receives(4) full empty] by simp
next
  case (spurious t w)
  note D = sys_okD [OF s]
  have "asleep s v \<inter> woken s v = {}" for v by (rule D(8))
  then show ?thesis unfolding spurious by (intro fewer_asleep [OF s]) (auto simp: wake_def D(3))
next
  case (closes c)
  note D = sys_okD [OF s]
  have c: "c = (chan s)\<lparr>closed := True\<rparr>" using closes by (simp add: chan_close_def)
  show ?thesis unfolding closes(1) c using D(2,3) ok_close [OF D(1)] by (intro sys_okI) simp_all
qed

definition fresh_sys :: "PrismioChan \<Rightarrow> 'm chan_sys \<Rightarrow> bool" where
  "fresh_sys c s \<longleftrightarrow> ok c \<and> msgs c = [] \<and> chan s = c \<and> (\<forall>w. asleep s w = {} \<and> woken s w = {}) \<and> sent s = [] \<and> received s = []"

lemma run_ok: "step\<^sup>*\<^sup>* s s' \<Longrightarrow> sys_ok s \<Longrightarrow> sys_ok s'"
  by (induction rule: rtranclp_induct) (auto intro: step_ok)

lemma fresh_ok: "fresh_sys c s \<Longrightarrow> sys_ok s"
  by (intro sys_okI) (auto simp: fresh_sys_def)

lemma fifo:
  assumes "fresh_sys c s" "step\<^sup>*\<^sup>* s s'"
  shows "received s' @ msgs (chan s') = sent s' \<and> length (msgs (chan s')) \<le> ccap (chan s')"
  using sys_okD(1,2) [OF run_ok [OF assms(2) fresh_ok [OF assms(1)]]] msgs_len ok_len by fastforce

lemma step_ccap:
  assumes "step s s'" "ok (chan s)"
  shows "ccap (chan s') = ccap (chan s)"
  using assms(1)
proof cases
  case (sends t m b c sg u)
  then show ?thesis using send_cases [OF assms(2), of m]
    by (auto simp: deliver_def leave_def wake_def split: option.splits)
next
  case (receives t r c sg u)
  then show ?thesis using recv_cases [OF assms(2)]
    by (auto simp: deliver_def leave_def wake_def split: option.splits)
qed (auto simp: sleep_def wake_def chan_close_def)

lemma run_ccap:
  assumes "step\<^sup>*\<^sup>* s s'" "sys_ok s"
  shows "ccap (chan s') = ccap (chan s)"
  using assms
proof (induction rule: rtranclp_induct)
  case (step t u)
  then show ?case using step_ccap [of t u] sys_okD(1) [OF run_ok [OF step(1)]] by simp
qed simp

text \<open>Whoever sleeps sleeps for a reason, or somebody awake is about to take what it waits for.\<close>

lemma no_lost_wakeup:
  assumes "fresh_sys c s" "step\<^sup>*\<^sup>* s s'"
  shows "(asleep s' Not_full \<noteq> {} \<longrightarrow> clen (chan s') = ccap (chan s') \<or> woken s' Not_full \<noteq> {})
    \<and> (asleep s' Not_empty \<noteq> {} \<longrightarrow> clen (chan s') = 0 \<or> woken s' Not_empty \<noteq> {})
    \<and> (asleep s' Not_full \<noteq> {} \<longrightarrow> asleep s' Not_empty \<noteq> {} \<longrightarrow> woken s' Not_full \<noteq> {} \<or> woken s' Not_empty \<noteq> {})
    \<and> (closed (chan s') \<longrightarrow> asleep s' Not_full = {} \<and> asleep s' Not_empty = {})"
proof -
  have s: "sys_ok s'" using run_ok [OF assms(2) fresh_ok [OF assms(1)]] .
  note D = sys_okD [OF s] and L = ok_len [OF sys_okD(1) [OF s]]
  show ?thesis using D(4) D(6,7) L by fastforce
qed

end

subsection \<open>The two rings\<close>

definition ring_ok :: "PrismioChan \<Rightarrow> bool" where
  "ring_ok c \<longleftrightarrow> length (slots c) = ccap c \<and> head c < ccap c \<and> clen c \<le> ccap c"

definition ring_index :: "PrismioChan \<Rightarrow> nat \<Rightarrow> nat" where
  "ring_index c i = (head c + i) mod ccap c"

lemma ring_index_inj:
  assumes "head c < ccap c" "i < ccap c" "j < ccap c" "ring_index c i = ring_index c j"
  shows "i = j"
proof -
  have *: "(h + k) mod n = (if h + k < n then h + k else h + k - n)" if "h < n" "k < n" for h k n :: nat
    using that by (auto simp: le_mod_geq not_less)
  show ?thesis using assms by (auto simp: ring_index_def * split: if_splits)
qed

lemma ring_index_lt: "head c < ccap c \<Longrightarrow> ring_index c i < ccap c"
  by (simp add: ring_index_def)

fun map_done :: "('r \<Rightarrow> condition option \<Rightarrow> 's) \<Rightarrow> 'r attempt \<Rightarrow> 's attempt" where
  "map_done f (Wait w) = Wait w"
| "map_done f (Done r h sg) = Done (f r sg) h sg"

text \<open>Pointers.\<close>

definition ptr_msgs :: "PrismioChan \<Rightarrow> addr list" where
  "ptr_msgs c = map (\<lambda>i. slots c ! ring_index c i) [0..<clen c]"

definition ptr_send :: "addr \<Rightarrow> PrismioChan \<Rightarrow> bool attempt" where
  "ptr_send m c = map_done (\<lambda>r sg. r = 1) (chan_send m (Some c))"

definition ptr_recv :: "PrismioChan \<Rightarrow> addr option attempt" where
  "ptr_recv c = map_done (\<lambda>r sg. if sg = None then None else Some r) (chan_recv (Some c))"

lemma upt_shift: "0 < n \<Longrightarrow> [0..<n] = 0 # map Suc [0..<n - 1]"
  by (cases n) (simp_all add: map_Suc_upt upt_conv_Cons del: upt_Suc)

interpretation ptr: bounded_queue ring_ok ptr_msgs "\<lambda>_. True" "\<lambda>_. True" ptr_send ptr_recv
proof
  fix c :: PrismioChan assume ok: "ring_ok c"
  show "length (ptr_msgs c) = clen c" "clen c \<le> ccap c \<and> 0 < ccap c" using ok by (auto simp: ptr_msgs_def ring_ok_def)
  show "ring_ok (c\<lparr>closed := True\<rparr>) \<and> ptr_msgs (c\<lparr>closed := True\<rparr>) = ptr_msgs c"
    using ok by (simp add: ring_ok_def ptr_msgs_def ring_index_def)
next
  fix c m assume ok: "ring_ok c"
  let ?c = "c\<lparr>slots := (slots c)[(head c + clen c) mod ccap c := m], clen := clen c + 1\<rparr>"
  have "ptr_msgs ?c = ptr_msgs c @ [m]" "ring_ok ?c" if room: "clen c \<noteq> ccap c"
  proof -
    have lt: "clen c < ccap c" using ok room by (simp add: ring_ok_def)
    have "(slots c)[ring_index c (clen c) := m] ! ring_index c i = slots c ! ring_index c i" if "i < clen c" for i
    proof -
      have "ring_index c i \<noteq> ring_index c (clen c)" using ring_index_inj [of c i "clen c"] ok that lt by (auto simp: ring_ok_def)
      then show ?thesis by simp
    qed
    moreover have "(slots c)[ring_index c (clen c) := m] ! ring_index c (clen c) = m"
      using ok ring_index_lt [of c] by (simp add: ring_ok_def)
    ultimately show "ptr_msgs ?c = ptr_msgs c @ [m]" by (simp add: ptr_msgs_def ring_index_def)
    show "ring_ok ?c" using ok lt by (simp add: ring_ok_def)
  qed
  then show "case ptr_send m c of
       Wait w \<Rightarrow> w = Not_full \<and> clen c = ccap c \<and> \<not> closed c
     | Done b h sg \<Rightarrow> \<exists>c'. h = Some c' \<and> ring_ok c' \<and> ccap c' = ccap c \<and> closed c' = closed c \<and> (True \<longrightarrow> True)
         \<and> (if b then ptr_msgs c' = ptr_msgs c @ [m] \<and> sg = Some Not_empty \<and> \<not> closed c
            else ptr_msgs c' = ptr_msgs c \<and> sg = None \<and> (closed c \<or> \<not> True))"
    using ok by (simp add: ptr_send_def chan_send_def)
next
  fix c assume ok: "ring_ok c"
  let ?c = "c\<lparr>head := (head c + 1) mod ccap c, clen := clen c - 1\<rparr>"
  have "ptr_msgs c = slots c ! head c # ptr_msgs ?c" "ring_ok ?c" if "clen c \<noteq> 0"
  proof -
    have e: "(Suc (head c) mod ccap c + i) mod ccap c = (head c + Suc i) mod ccap c" for i by (simp add: mod_add_left_eq)
    have "0 < clen c" "head c < ccap c" using that ok by (auto simp: ring_ok_def)
    then show "ptr_msgs c = slots c ! head c # ptr_msgs ?c"
      by (simp add: ptr_msgs_def upt_shift [of "clen c"] ring_index_def e comp_def)
    show "ring_ok ?c" using ok by (auto simp: ring_ok_def)
  qed
  then show "case ptr_recv c of
       Wait w \<Rightarrow> w = Not_empty \<and> clen c = 0 \<and> \<not> closed c
     | Done r h sg \<Rightarrow> \<exists>c'. h = Some c' \<and> ring_ok c' \<and> ccap c' = ccap c \<and> closed c' = closed c \<and> (True \<longrightarrow> True)
         \<and> (case r of Some m \<Rightarrow> ptr_msgs c = m # ptr_msgs c' \<and> sg = Some Not_full
            | None \<Rightarrow> ptr_msgs c = [] \<and> ptr_msgs c' = [] \<and> sg = None \<and> closed c)"
    using ok by (simp add: ptr_recv_def chan_recv_def ptr_msgs_def)
qed simp

text \<open>Values of \<open>k\<close> bytes.\<close>

definition cell_width :: "int \<Rightarrow> nat" where
  "cell_width k = (if k < 1 then 1 else nat k)"

definition bytes_ok :: "nat \<Rightarrow> PrismioChan \<Rightarrow> bool" where
  "bytes_ok w c \<longleftrightarrow> head c < ccap c \<and> clen c \<le> ccap c
     \<and> (case cbytes c of None \<Rightarrow> clen c = 0 | Some bs \<Rightarrow> celem_size c = w \<and> length bs = ccap c * w)"

definition byte_msgs :: "PrismioChan \<Rightarrow> byte list list" where
  "byte_msgs c = map (\<lambda>i. get_cell (ring_index c i) c) [0..<clen c]"

definition byte_send :: "bool \<Rightarrow> int \<Rightarrow> byte list \<Rightarrow> PrismioChan \<Rightarrow> bool attempt" where
  "byte_send al k m c = map_done (\<lambda>r sg. r = 1) (chan_send_copy al m k (Some c))"

definition byte_recv :: "bool \<Rightarrow> int \<Rightarrow> PrismioChan \<Rightarrow> byte list option attempt" where
  "byte_recv al k c = map_done (\<lambda>r sg. if fst r = 1 then Some (snd r) else None) (chan_recv_copy al k (Some c))"

lemma row_end: "i < n \<Longrightarrow> i * w + w \<le> n * (w :: nat)"
  using mult_le_mono1 [of "Suc i" n w] by simp

lemma other_span:
  assumes "a + w \<le> b \<or> b + w \<le> a" "a + w \<le> length bs" "b + w \<le> length bs" "length x = w"
  shows "take w (drop a (take b bs @ x @ drop (b + w) bs)) = take w (drop a bs)"
  using assms(1)
proof
  assume "a + w \<le> b"
  then show ?thesis using assms(2-) by (simp add: drop_take)
next
  assume "b + w \<le> a"
  then show ?thesis using assms(2-) by (simp add: min_absorb2)
qed

lemma other_row:
  assumes "i \<noteq> j" "i < n" "j < n" "length bs = n * w" "length x = w"
  shows "take w (drop (i * w) (take (j * w) bs @ x @ drop (j * w + w) bs)) = take w (drop (i * w) bs)"
proof (rule other_span)
  show "i * w + w \<le> j * w \<or> j * w + w \<le> i * w" using assms(1) row_end [of i j w] row_end [of j i w] by linarith
qed (use assms row_end [OF assms(2), of w] row_end [OF assms(3), of w] in simp_all)

lemma get_put_cell:
  assumes "cbytes c = Some bs" "celem_size c = w" "length bs = n * w" "i < n" "j < n" "length x = w"
  shows "get_cell i (put_cell j x c) = (if i = j then x else get_cell i c)"
  using assms row_end [OF assms(5), of w] other_row [of i j n bs w x]
  by (auto simp: get_cell_def put_cell_def Let_def)

lemma put_cell_fields [simp]:
  "head (put_cell j x c) = head c" "clen (put_cell j x c) = clen c" "ccap (put_cell j x c) = ccap c" "closed (put_cell j x c) = closed c"
  "celem_size (put_cell j x c) = celem_size c" "\<exists>bs. cbytes (put_cell j x c) = Some bs"
  by (simp_all add: put_cell_def Let_def)

lemma get_cell_upd [simp]: "get_cell i (c\<lparr>clen := n\<rparr>) = get_cell i c" "get_cell i (c\<lparr>head := h\<rparr>) = get_cell i c" "get_cell i (c\<lparr>closed := b\<rparr>) = get_cell i c"
  by (simp_all add: get_cell_def)

lemma bytes_ready_ok:
  assumes ok: "bytes_ok (cell_width k) c" and r: "chan_bytes_ready al k c = (b, d)"
  shows "bytes_ok (cell_width k) d \<and> ccap d = ccap c \<and> closed d = closed c \<and> head d = head c \<and> clen d = clen c \<and> byte_msgs d = byte_msgs c
    \<and> (b \<longleftrightarrow> cbytes d \<noteq> None) \<and> (cbytes c \<noteq> None \<or> al \<longleftrightarrow> b)"
proof (cases "cbytes c")
  case None
  then have "clen c = 0" using ok by (simp add: bytes_ok_def)
  then show ?thesis using None assms by (auto simp: chan_bytes_ready_def Let_def bytes_ok_def byte_msgs_def cell_width_def split: if_splits)
next
  case (Some bs)
  then show ?thesis using assms by (auto simp: chan_bytes_ready_def)
qed

lemma byte_send_ok:
  assumes ok: "bytes_ok (cell_width k) c" and m: "length m = cell_width k" and b: "cbytes c \<noteq> None" and room: "clen c \<noteq> ccap c"
  defines "tail \<equiv> (if head c + clen c \<ge> ccap c then head c + clen c - ccap c else head c + clen c)"
  shows "bytes_ok (cell_width k) ((put_cell tail m c)\<lparr>clen := clen c + 1\<rparr>)"
    "byte_msgs ((put_cell tail m c)\<lparr>clen := clen c + 1\<rparr>) = byte_msgs c @ [m]"
proof -
  obtain bs where bs: "cbytes c = Some bs" "celem_size c = cell_width k" "length bs = ccap c * cell_width k"
    using ok b by (auto simp: bytes_ok_def split: option.splits)
  have r: "head c < ccap c" "clen c < ccap c" using ok room by (auto simp: bytes_ok_def)
  have tail: "tail = ring_index c (clen c)" using r by (auto simp: tail_def ring_index_def le_mod_geq)
  have lt: "tail < ccap c" unfolding tail by (rule ring_index_lt [OF r(1)])
  have "get_cell (ring_index c i) (put_cell tail m c) = (if i = clen c then m else get_cell (ring_index c i) c)" if "i \<le> clen c" for i
    using get_put_cell [OF bs(1,2,3) ring_index_lt [OF r(1)] lt, of m i] ring_index_inj [OF r(1), of i "clen c"] m that r(2)
    by (auto simp: tail)
  then show "byte_msgs ((put_cell tail m c)\<lparr>clen := clen c + 1\<rparr>) = byte_msgs c @ [m]"
    by (simp add: byte_msgs_def ring_index_def)
  show "bytes_ok (cell_width k) ((put_cell tail m c)\<lparr>clen := clen c + 1\<rparr>)"
    using r bs m row_end [OF lt, of "cell_width k"] by (auto simp: bytes_ok_def put_cell_def Let_def)
qed

lemma byte_recv_ok:
  assumes ok: "bytes_ok w c" and n: "0 < clen c"
  defines "d \<equiv> c\<lparr>head := (if head c + 1 = ccap c then 0 else head c + 1), clen := clen c - 1\<rparr>"
  shows "bytes_ok w d" "byte_msgs c = get_cell (head c) c # byte_msgs d"
proof -
  have h: "head c < ccap c" using ok by (auto simp: bytes_ok_def)
  have e: "ring_index d i = ring_index c (Suc i)" for i
  proof -
    have "head d = Suc (head c) mod ccap c" using h by (auto simp: d_def)
    then show ?thesis using h by (simp add: ring_index_def d_def mod_add_left_eq)
  qed
  show "bytes_ok w d" using ok n h by (auto simp: d_def bytes_ok_def split: option.splits)
  have g: "get_cell i d = get_cell i c" "clen d = clen c - 1" for i by (simp_all add: d_def)
  show "byte_msgs c = get_cell (head c) c # byte_msgs d"
    using n h by (simp add: byte_msgs_def upt_shift [of "clen c"] e g comp_def) (simp add: ring_index_def)
qed

interpretation byt: bounded_queue "bytes_ok (cell_width k)" byte_msgs "\<lambda>m. length m = cell_width k" "\<lambda>c. cbytes c \<noteq> None \<or> al"
  "byte_send al k" "byte_recv al k" for k al
proof
  fix c :: PrismioChan assume ok: "bytes_ok (cell_width k) c"
  show "length (byte_msgs c) = clen c" "clen c \<le> ccap c \<and> 0 < ccap c" using ok by (auto simp: byte_msgs_def bytes_ok_def)
  show "bytes_ok (cell_width k) (c\<lparr>closed := True\<rparr>) \<and> byte_msgs (c\<lparr>closed := True\<rparr>) = byte_msgs c"
    using ok by (simp add: bytes_ok_def byte_msgs_def ring_index_def cong: option.case_cong)
  assume "0 < clen c"
  then show "cbytes c \<noteq> None \<or> al" using ok by (auto simp: bytes_ok_def split: option.splits)
next
  fix c and m :: "byte list" assume ok: "bytes_ok (cell_width k) c" and m: "length m = cell_width k"
  obtain b d where r: "chan_bytes_ready al k c = (b, d)" by fastforce
  note R = bytes_ready_ok [OF ok r]
  show "case byte_send al k m c of
       Wait w \<Rightarrow> w = Not_full \<and> clen c = ccap c \<and> \<not> closed c
     | Done b h sg \<Rightarrow> \<exists>c'. h = Some c' \<and> bytes_ok (cell_width k) c' \<and> ccap c' = ccap c \<and> closed c' = closed c
         \<and> (cbytes c \<noteq> None \<or> al \<longrightarrow> cbytes c' \<noteq> None \<or> al)
         \<and> (if b then byte_msgs c' = byte_msgs c @ [m] \<and> sg = Some Not_empty \<and> \<not> closed c
            else byte_msgs c' = byte_msgs c \<and> sg = None \<and> (closed c \<or> \<not> (cbytes c \<noteq> None \<or> al)))"
  proof (cases "clen c \<noteq> ccap c \<and> \<not> closed c \<and> b")
    case True
    then have "clen d \<noteq> ccap d" "cbytes d \<noteq> None" using R by auto
    from byte_send_ok [OF conjunct1 [OF R] m this(2,1)]
    show ?thesis using True R r by (simp add: byte_send_def chan_send_copy_def Let_def)
  next
    case False
    then show ?thesis using R r ok by (auto simp: byte_send_def chan_send_copy_def)
  qed
next
  fix c assume ok: "bytes_ok (cell_width k) c"
  obtain b d where r: "chan_bytes_ready al k c = (b, d)" by fastforce
  note R = bytes_ready_ok [OF ok r]
  show "case byte_recv al k c of
       Wait w \<Rightarrow> w = Not_empty \<and> clen c = 0 \<and> \<not> closed c
     | Done r h sg \<Rightarrow> \<exists>c'. h = Some c' \<and> bytes_ok (cell_width k) c' \<and> ccap c' = ccap c \<and> closed c' = closed c
         \<and> (cbytes c \<noteq> None \<or> al \<longrightarrow> cbytes c' \<noteq> None \<or> al)
         \<and> (case r of Some m \<Rightarrow> byte_msgs c = m # byte_msgs c' \<and> sg = Some Not_full
            | None \<Rightarrow> byte_msgs c = [] \<and> byte_msgs c' = [] \<and> sg = None \<and> closed c)"
  proof (cases "clen c = 0")
    case True
    then show ?thesis using ok by (simp add: byte_recv_def chan_recv_copy_def byte_msgs_def)
  next
    case False
    then have "cbytes c \<noteq> None" using ok by (auto simp: bytes_ok_def split: option.splits)
    then have d: "b" "d = c" "0 < clen c" using r False by (auto simp: chan_bytes_ready_def)
    then show ?thesis using byte_recv_ok [OF ok d(3)] r False by (simp add: byte_recv_def chan_recv_copy_def)
  qed
qed

subsection \<open>Properties\<close>

definition new_sys :: "PrismioChan \<Rightarrow> 'm chan_sys" where
  "new_sys c = \<lparr>chan = c, asleep = \<lambda>_. {}, woken = \<lambda>_. {}, sent = [], received = []\<rparr>"

lemma chan_new_facts:
  assumes "chan_new al al' n = Some c"
  shows "ring_ok c" "bytes_ok w c" "clen c = 0" "ccap c = (if n < 1 then 1 else nat n)"
  using assms by (auto simp: chan_new_def Let_def ring_ok_def bytes_ok_def split: if_splits)

lemma new_sys_fresh:
  assumes "chan_new al al' n = Some c"
  shows "ptr.fresh_sys c (new_sys c)" "byt.fresh_sys k c (new_sys c)"
  using chan_new_facts [OF assms] by (auto simp: ptr.fresh_sys_def byt.fresh_sys_def new_sys_def ptr_msgs_def byte_msgs_def)


definition attended :: "PrismioChan \<Rightarrow> (condition \<Rightarrow> nat set) \<Rightarrow> (condition \<Rightarrow> nat set) \<Rightarrow> bool" where
  "attended c sleeping awake \<longleftrightarrow>
     (sleeping Not_full \<noteq> {} \<longrightarrow> clen c = ccap c \<or> awake Not_full \<noteq> {})
   \<and> (sleeping Not_empty \<noteq> {} \<longrightarrow> clen c = 0 \<or> awake Not_empty \<noteq> {})
   \<and> (sleeping Not_full \<noteq> {} \<longrightarrow> sleeping Not_empty \<noteq> {} \<longrightarrow> awake Not_full \<noteq> {} \<or> awake Not_empty \<noteq> {})
   \<and> (closed c \<longrightarrow> sleeping Not_full = {} \<and> sleeping Not_empty = {})"

text \<open>C24. No wakeup is lost.  In every reachable state of a channel a sender sleeps only while the channel
  is full, unless a woken sender is about to look again; a receiver sleeps only while it is empty, or
  a woken receiver is about to look; senders and receivers never all sleep together; and on a closed
  channel nobody sleeps.\<close>

theorem chan_no_lost_wakeup:
  assumes "chan_new al al' n = Some c"
    and "ptr.step\<^sup>*\<^sup>* (new_sys c) s" and "(byt.step k am)\<^sup>*\<^sup>* (new_sys c) t"
  shows "attended (chan s) (asleep s) (woken s) \<and> attended (chan t) (asleep t) (woken t)"
  using ptr.no_lost_wakeup [OF new_sys_fresh(1) [OF assms(1)] assms(2)] byt.no_lost_wakeup [OF new_sys_fresh(2) [OF assms(1)] assms(3)]
  by (simp only: attended_def simp_thms)

text \<open>A channel of one slot: task 1 sends, task 2 finds it full and sleeps, task 3 receives and wakes it.\<close>

definition one_slot :: PrismioChan where
  "one_slot = \<lparr>slots = [0], cbytes = None, celem_size = 0, ccap = 1, head = 0, clen = 0, closed = False\<rparr>"

definition after_three :: "addr chan_sys" where
  "after_three = \<lparr>chan = one_slot\<lparr>slots := [7]\<rparr>, asleep = \<lambda>_. {}, woken = (\<lambda>_. {})(Not_full := {2}), sent = [7], received = [7]\<rparr>"

lemma three_steps: "ptr.step\<^sup>*\<^sup>* (new_sys one_slot) after_three"
proof -
  let ?c = "one_slot\<lparr>slots := [7], clen := 1\<rparr>" and ?d = "one_slot\<lparr>slots := [7]\<rparr>"
  let ?a = "\<lparr>chan = ?c, asleep = \<lambda>_. {}, woken = \<lambda>_. {}, sent = [7], received = []\<rparr> :: addr chan_sys"
  let ?b = "\<lparr>chan = ?c, asleep = (\<lambda>_. {})(Not_full := {2}), woken = \<lambda>_. {}, sent = [7], received = []\<rparr> :: addr chan_sys"
  have "ptr_send 7 one_slot = Done True (Some ?c) (Some Not_empty)"
    by (simp add: ptr_send_def chan_send_def one_slot_def)
  then have "ptr.step (new_sys one_slot) (deliver (Some Not_empty) None (leave 1 Not_full ((new_sys one_slot)\<lparr>chan := ?c, sent := [7]\<rparr>)))"
    using ptr.sends [of 1 "new_sys one_slot" 7 True ?c "Some Not_empty" None]
    by (simp add: new_sys_def may_run_def idle_def signalled_def)
  moreover have "deliver (Some Not_empty) None (leave 1 Not_full ((new_sys one_slot)\<lparr>chan := ?c, sent := [7]\<rparr>)) = ?a"
    by (simp add: deliver_def leave_def new_sys_def fun_eq_iff)
  ultimately have 1: "ptr.step (new_sys one_slot) ?a" by simp
  have "ptr_send 8 ?c = Wait Not_full" by (simp add: ptr_send_def chan_send_def one_slot_def)
  then have "ptr.step ?a (sleep 2 Not_full ?a)"
    by (intro ptr.send_waits [of 2 _ 8]) (simp_all add: may_run_def idle_def)
  moreover have "sleep 2 Not_full ?a = ?b" by (simp add: sleep_def fun_eq_iff)
  ultimately have 2: "ptr.step ?a ?b" by simp
  have "ptr_recv ?c = Done (Some 7) (Some ?d) (Some Not_full)"
    by (simp add: ptr_recv_def chan_recv_def one_slot_def)
  then have "ptr.step ?b (deliver (Some Not_full) (Some 2) (leave 3 Not_empty (?b\<lparr>chan := ?d, received := [7]\<rparr>)))"
    using ptr.receives [of 3 ?b "Some 7" ?d "Some Not_full" "Some 2"] by (simp add: may_run_def idle_def signalled_def)
  moreover have "deliver (Some Not_full) (Some 2) (leave 3 Not_empty (?b\<lparr>chan := ?d, received := [7]\<rparr>)) = after_three"
    by (simp add: deliver_def leave_def wake_def after_three_def fun_eq_iff)
  ultimately have 3: "ptr.step ?b after_three" by simp
  show ?thesis using 1 2 3 by (meson converse_rtranclp_into_rtranclp rtranclp.rtrancl_refl)
qed

lemma one_slot_new: "chan_new True True 1 = Some one_slot"
  by (simp add: chan_new_def one_slot_def)


theorem chan_no_lost_wakeup_witness:
  "asleep after_three Not_empty = {} \<or> clen (chan after_three) = 0 \<or> woken after_three Not_empty \<noteq> {}"
  using chan_no_lost_wakeup [OF one_slot_new three_steps rtranclp.rtrancl_refl [of "byt.step 4 True"]] unfolding attended_def by blast

end
