(* ===== verification/Line_Reader.thy ===== *)
theory Line_Reader
  imports Prelude
begin

text \<open>
  The buffered reader of \<open>runtime/program_support.c\<close> (\<open>LineReader\<close>, \<open>line_reader_fill\<close> to
  \<open>io_stdin_take_bytes\<close>).  The table of open files over it is in \<open>File_Lines\<close>.

  The kernel is a parameter: \<open>gives os room rest\<close> is what one \<open>read\<close> of at most \<open>room\<close> bytes returns
  when the descriptor still has \<open>rest\<close>, cut to what was asked and what there is; 0 is the end of
  input or an error.  \<open>grants os n\<close> says whether \<open>realloc\<close> gives \<open>n\<close> bytes.  A reader carries the rest of
  its descriptor's input.
\<close>

subsection \<open>Definitions\<close>

definition LINE_READER_CHUNK :: nat where "LINE_READER_CHUNK = 65536"

record kernel =
  gives :: "nat \<Rightarrow> byte list \<Rightarrow> nat"
  grants :: "nat \<Rightarrow> bool"

record LineReader =
  buffer :: "byte list"
  start :: nat
  fin :: nat
  line_end :: nat
  next_line :: nat
  pending :: bool
  eof :: bool
  input :: "byte list"

definition capacity :: "LineReader \<Rightarrow> nat" where
  "capacity r = length (buffer r)"

function grow_enough :: "nat \<Rightarrow> nat \<Rightarrow> nat" where
  "grow_enough grown used =
     (if grown \<noteq> 0 \<and> grown - used < LINE_READER_CHUNK then grow_enough (grown * 2) used else grown)"
  by pat_completeness auto
termination
  by (relation "measure (\<lambda>(grown, used). used + LINE_READER_CHUNK - grown)") auto

declare grow_enough.simps [simp del]

definition move_front :: "LineReader \<Rightarrow> LineReader" where
  "move_front r =
     (let unread = fin r - start r in
      if start r > 0
      then r\<lparr>buffer := take unread (drop (start r) (buffer r)) @ drop unread (buffer r), start := 0, fin := unread\<rparr>
      else r)"

definition make_room :: "kernel \<Rightarrow> LineReader \<Rightarrow> LineReader option" where
  "make_room os r =
     (if capacity r - fin r < LINE_READER_CHUNK
      then let grown = grow_enough (if capacity r \<noteq> 0 then capacity r * 2 else LINE_READER_CHUNK) (fin r)
           in if grants os grown then Some (r\<lparr>buffer := buffer r @ replicate (grown - capacity r) 0\<rparr>) else None
      else Some r)"

definition line_reader_fill :: "kernel \<Rightarrow> LineReader \<Rightarrow> nat \<times> LineReader" where
  "line_reader_fill os r =
     (if eof r then (0, r)
      else let r = move_front r in
           case make_room os r of
             None \<Rightarrow> (0, r\<lparr>eof := True\<rparr>)
           | Some r \<Rightarrow>
               let room = capacity r - fin r; n = min (gives os room (input r)) (min room (length (input r))) in
               if n = 0 then (0, r\<lparr>eof := True\<rparr>)
               else (n, r\<lparr>buffer := take (fin r) (buffer r) @ take n (input r) @ drop (fin r + n) (buffer r),
                          fin := fin r + n, input := drop n (input r)\<rparr>))"

lemma fill_consumes:
  assumes "line_reader_fill os r = (n, r')" "n \<noteq> 0"
  shows "length (input r') < length (input r)"
proof -
  have "input (move_front r) = input r" by (simp add: move_front_def Let_def)
  moreover have "make_room os q = Some q' \<Longrightarrow> input q' = input q" for q q'
    by (auto simp: make_room_def Let_def split: if_splits)
  ultimately show ?thesis
    using assms by (fastforce simp: line_reader_fill_def Let_def split: option.splits if_splits)
qed

text \<open>\<open>memchr\<close> for the newline, from \<open>scanned\<close> on.\<close>

definition find_newline :: "nat \<Rightarrow> LineReader \<Rightarrow> nat option" where
  "find_newline scanned r = find (\<lambda>i. buffer r ! i = 10) [start r + scanned..<fin r]"

function scan_lines :: "kernel \<Rightarrow> nat \<Rightarrow> LineReader \<Rightarrow> bool \<times> LineReader" where
  "scan_lines os scanned r =
     (case find_newline scanned r of
        Some i \<Rightarrow>
          let e = (if i > start r \<and> buffer r ! (i - 1) = 13 then i - 1 else i)
          in (True, r\<lparr>line_end := e, next_line := i + 1, pending := True\<rparr>)
      | None \<Rightarrow>
          let scanned = fin r - start r; (n, r) = line_reader_fill os r in
          if n \<noteq> 0 then scan_lines os scanned r
          else if fin r = start r then (False, r)
          else (True, r\<lparr>line_end := fin r, next_line := fin r, pending := True\<rparr>))"
  by pat_completeness auto
termination
  by (relation "measure (\<lambda>(os, k, r). length (input r))") (auto dest: fill_consumes [OF sym])

declare scan_lines.simps [simp del]

definition line_reader_has_line :: "kernel \<Rightarrow> LineReader \<Rightarrow> bool \<times> LineReader" where
  "line_reader_has_line os r = (if pending r then (True, r) else scan_lines os 0 r)"

text \<open>The bytes handed out are \<open>None\<close> where \<open>rt_base_alloc\<close> gives no block; \<open>al\<close> says whether it does.\<close>

definition line_reader_take_line :: "kernel \<Rightarrow> (nat \<Rightarrow> bool) \<Rightarrow> LineReader \<Rightarrow> byte list option \<times> LineReader" where
  "line_reader_take_line os al r =
     (let (b, r) = line_reader_has_line os r; n = (if b then line_end r - start r else 0) in
      if \<not> al (n + 1) then (None, r)
      else (Some (take n (drop (start r) (buffer r))),
            if pending r then r\<lparr>start := next_line r, pending := False\<rparr> else r))"

function fill_all :: "kernel \<Rightarrow> LineReader \<Rightarrow> LineReader" where
  "fill_all os r = (let (n, r) = line_reader_fill os r in if n \<noteq> 0 then fill_all os r else r)"
  by pat_completeness auto
termination
  by (relation "measure (\<lambda>(os, r). length (input r))") (auto dest: fill_consumes [OF sym])

function fill_to :: "kernel \<Rightarrow> nat \<Rightarrow> LineReader \<Rightarrow> LineReader" where
  "fill_to os want r =
     (if fin r - start r < want then let (n, r) = line_reader_fill os r in if n \<noteq> 0 then fill_to os want r else r else r)"
  by pat_completeness auto
termination
  by (relation "measure (\<lambda>(os, k, r). length (input r))") (auto dest: fill_consumes [OF sym])

declare fill_all.simps [simp del] fill_to.simps [simp del]

definition io_stdin_read_all :: "kernel \<Rightarrow> (nat \<Rightarrow> bool) \<Rightarrow> LineReader \<Rightarrow> byte list option \<times> LineReader" where
  "io_stdin_read_all os al r =
     (let r = fill_all os (r\<lparr>pending := False\<rparr>); n = fin r - start r in
      if \<not> al (n + 1) then (None, r)
      else (Some (take n (drop (start r) (buffer r))), r\<lparr>start := fin r\<rparr>))"

definition io_stdin_take_bytes :: "kernel \<Rightarrow> (nat \<Rightarrow> bool) \<Rightarrow> int \<Rightarrow> LineReader \<Rightarrow> byte list option \<times> LineReader" where
  "io_stdin_take_bytes os al cnt r =
     (let want = (if cnt > 0 then nat cnt else 0); r = fill_to os want (r\<lparr>pending := False\<rparr>);
          n = min (fin r - start r) want
      in if \<not> al (n + 1) then (None, r)
         else (Some (take n (drop (start r) (buffer r))), r\<lparr>start := start r + n\<rparr>))"

definition io_stdin_has_line :: "kernel \<Rightarrow> LineReader \<Rightarrow> bool \<times> LineReader" where
  "io_stdin_has_line os r = line_reader_has_line os r"

definition io_stdin_take_line :: "kernel \<Rightarrow> (nat \<Rightarrow> bool) \<Rightarrow> LineReader \<Rightarrow> byte list option \<times> LineReader" where
  "io_stdin_take_line os al r = line_reader_take_line os al r"

subsection \<open>What a reader stands for\<close>

text \<open>The text still to be handed out: what the buffer holds, and what the descriptor has left.\<close>

definition unread :: "LineReader \<Rightarrow> byte list" where
  "unread r = take (fin r - start r) (drop (start r) (buffer r))"

definition text_of :: "LineReader \<Rightarrow> byte list" where
  "text_of r = unread r @ (if eof r then [] else input r)"

text \<open>The first line of a text, without its \<open>\n\<close> or \<open>\r\n\<close>, and what follows it.\<close>

definition first_line :: "byte list \<Rightarrow> byte list" where
  "first_line bs = (if 10 \<in> set bs
     then let l = takeWhile (\<lambda>b. b \<noteq> 10) bs in if l \<noteq> [] \<and> last l = 13 then butlast l else l
     else bs)"

definition after_line :: "byte list \<Rightarrow> byte list" where
  "after_line bs = (if 10 \<in> set bs then tl (dropWhile (\<lambda>b. b \<noteq> 10) bs) else [])"

definition span_ok :: "LineReader \<Rightarrow> bool" where
  "span_ok r \<longleftrightarrow> start r \<le> fin r \<and> fin r \<le> length (buffer r)"

definition reader_ok :: "LineReader \<Rightarrow> bool" where
  "reader_ok r \<longleftrightarrow> span_ok r \<and> (pending r \<longrightarrow> start r \<le> line_end r \<and> line_end r \<le> next_line r \<and> next_line r \<le> fin r
     \<and> text_of r \<noteq> [] \<and> first_line (text_of r) = take (line_end r - start r) (unread r)
     \<and> after_line (text_of r) = drop (next_line r - start r) (unread r) @ (if eof r then [] else input r))"

definition reliable :: "kernel \<Rightarrow> bool" where
  "reliable os \<longleftrightarrow> (\<forall>room rest. 0 < room \<longrightarrow> rest \<noteq> [] \<longrightarrow> 0 < gives os room rest) \<and> (\<forall>n. grants os n)"

lemma length_unread: "span_ok r \<Longrightarrow> length (unread r) = fin r - start r"
  by (auto simp: unread_def span_ok_def)

lemma grow_enough_room: "grown \<noteq> 0 \<Longrightarrow> LINE_READER_CHUNK \<le> grow_enough grown used - used"
  by (induction grown used rule: grow_enough.induct) (subst grow_enough.simps, simp)

lemma grow_enough_ge: "grown \<le> grow_enough grown used"
  by (induction grown used rule: grow_enough.induct) (subst grow_enough.simps, auto)

lemma move_front_ok:
  assumes "span_ok r"
  shows "span_ok (move_front r) \<and> unread (move_front r) = unread r \<and> input (move_front r) = input r
    \<and> eof (move_front r) = eof r \<and> start (move_front r) = 0 \<and> pending (move_front r) = pending r"
  using assms by (auto simp: move_front_def Let_def span_ok_def unread_def)

lemma make_room_ok:
  assumes "span_ok r" "make_room os r = Some q"
  shows "span_ok q \<and> unread q = unread r \<and> input q = input r \<and> eof q = eof r \<and> start q = start r \<and> fin q = fin r
    \<and> pending q = pending r \<and> LINE_READER_CHUNK \<le> capacity q - fin q"
proof (cases "capacity r - fin r < LINE_READER_CHUNK")
  case False
  then show ?thesis using assms by (auto simp: make_room_def)
next
  case True
  define g where "g = grow_enough (if capacity r \<noteq> 0 then capacity r * 2 else LINE_READER_CHUNK) (fin r)"
  have g: "LINE_READER_CHUNK \<le> g - fin r" "capacity r \<le> g"
    using grow_enough_room [of "if capacity r \<noteq> 0 then capacity r * 2 else LINE_READER_CHUNK" "fin r"]
      grow_enough_ge [of "if capacity r \<noteq> 0 then capacity r * 2 else LINE_READER_CHUNK" "fin r"]
    by (auto simp: g_def LINE_READER_CHUNK_def split: if_splits)
  have "q = r\<lparr>buffer := buffer r @ replicate (g - capacity r) 0\<rparr>"
    using assms(2) True unfolding make_room_def g_def Let_def by (auto split: if_split_asm)
  then show ?thesis using assms(1) g by (auto simp: span_ok_def unread_def capacity_def)
qed

text \<open>One refill adds to what the buffer holds and loses nothing; when it adds nothing there is no more.\<close>

lemma fill_ok:
  assumes os: "reliable os" and ok: "span_ok r" and f: "line_reader_fill os r = (n, r')"
  shows "span_ok r' \<and> text_of r' = text_of r \<and> pending r' = pending r \<and> (\<exists>u. unread r' = unread r @ u \<and> length u = n)
    \<and> (n = 0 \<longrightarrow> text_of r' = unread r')"
proof (cases "eof r")
  case True
  then show ?thesis using ok f by (auto simp: line_reader_fill_def text_of_def)
next
  case False
  define q where "q = move_front r"
  note M = move_front_ok [OF ok, folded q_def]
  have mr: "make_room os q \<noteq> None" using os by (auto simp: make_room_def Let_def reliable_def split: if_splits)
  then obtain p where p: "make_room os q = Some p" by auto
  note R = make_room_ok [OF conjunct1 [OF M] p]
  define k where "k = min (gives os (capacity p - fin p) (input p)) (min (capacity p - fin p) (length (input p)))"
  have f': "(n, r') = (if k = 0 then (0, p\<lparr>eof := True\<rparr>)
      else (k, p\<lparr>buffer := take (fin p) (buffer p) @ take k (input p) @ drop (fin p + k) (buffer p), fin := fin p + k, input := drop k (input p)\<rparr>))"
    using f False p unfolding line_reader_fill_def Let_def q_def k_def by simp
  show ?thesis
  proof (cases "k = 0")
    case True
    have "0 < capacity p - fin p" using R by (auto simp: LINE_READER_CHUNK_def)
    then have "gives os (capacity p - fin p) (input p) = 0 \<or> input p = []" using True by (auto simp: k_def min_def split: if_splits)
    then have "input p = []" using os \<open>0 < capacity p - fin p\<close> unfolding reliable_def by (metis less_numeral_extra(3))
    then show ?thesis using True f' M R False by (auto simp: text_of_def span_ok_def unread_def)
  next
    case False': False
    have k: "k \<le> capacity p - fin p" "k \<le> length (input p)" by (simp_all add: k_def)
    have r': "r' = p\<lparr>buffer := take (fin p) (buffer p) @ take k (input p) @ drop (fin p + k) (buffer p), fin := fin p + k,
        input := drop k (input p)\<rparr>" "n = k" using f' False' by simp_all
    have s: "start p = 0" "fin p \<le> length (buffer p)" using M R by (auto simp: span_ok_def)
    have u: "unread r' = unread p @ take k (input p)" using k s by (simp add: r' unread_def)
    have "span_ok r'" using k s by (simp add: r' span_ok_def capacity_def)
    then show ?thesis using u M R False False' k r' by (simp add: text_of_def)
  qed
qed

lemma find_newline_Some:
  assumes "find_newline k r = Some i"
  shows "start r + k \<le> i \<and> i < fin r \<and> buffer r ! i = 10 \<and> (\<forall>j. start r + k \<le> j \<longrightarrow> j < i \<longrightarrow> buffer r ! j \<noteq> 10)"
proof -
  obtain t where t: "t < fin r - (start r + k)" "buffer r ! (start r + k + t) = 10" "i = start r + k + t"
      "\<forall>j < t. buffer r ! (start r + k + j) \<noteq> 10"
    using assms by (auto simp: find_newline_def find_Some_iff)
  have "buffer r ! j \<noteq> 10" if "start r + k \<le> j" "j < i" for j
    using t(4) [rule_format, of "j - (start r + k)"] that t(3) by auto
  then show ?thesis using t by auto
qed

lemma find_newline_None:
  assumes "find_newline k r = None" "start r + k \<le> j" "j < fin r"
  shows "buffer r ! j \<noteq> 10"
  using assms by (auto simp: find_newline_def find_None_iff)

lemma takeWhile_first:
  assumes "i < length xs" "xs ! i = (10 :: byte)" "\<forall>j < i. xs ! j \<noteq> 10"
  shows "takeWhile (\<lambda>b. b \<noteq> 10) xs = take i xs" "dropWhile (\<lambda>b. b \<noteq> 10) xs = drop i xs"
proof -
  show 1: "takeWhile (\<lambda>b. b \<noteq> 10) xs = take i xs"
    using assms takeWhile_eq_take_P_nth [of i xs "\<lambda>b. b \<noteq> 10"] by simp
  show "dropWhile (\<lambda>b. b \<noteq> 10) xs = drop i xs"
    using assms(1) by (simp add: dropWhile_eq_drop 1)
qed

text \<open>The line that ends at a newline in the buffer.\<close>

lemma line_found:
  assumes ok: "span_ok r" and i: "start r \<le> i" "i < fin r" "buffer r ! i = 10" "\<forall>j. start r \<le> j \<longrightarrow> j < i \<longrightarrow> buffer r ! j \<noteq> 10"
  defines "q \<equiv> r\<lparr>line_end := (if i > start r \<and> buffer r ! (i - 1) = 13 then i - 1 else i), next_line := i + 1, pending := True\<rparr>"
  shows "reader_ok q \<and> text_of q = text_of r \<and> text_of r \<noteq> [] \<and> pending q"
proof -
  let ?u = "unread r" and ?rest = "if eof r then [] else input r" and ?k = "i - start r"
  have nth: "?u ! j = buffer r ! (start r + j)" if "j < fin r - start r" for j using that ok by (auto simp: unread_def span_ok_def)
  have k: "?k < length ?u" using i length_unread [OF ok] by simp
  have u: "?u ! ?k = 10" "\<forall>j < ?k. ?u ! j \<noteq> 10" using i nth by auto
  define T where "T = ?u @ ?rest"
  let ?t = T
  have t: "?k < length ?t" "?t ! ?k = 10" "\<forall>j < ?k. ?t ! j \<noteq> 10" using k u by (auto simp: nth_append T_def)
  have inset: "10 \<in> set ?t" using t by (metis nth_mem)
  note W = takeWhile_first [OF t]
  have tk: "take ?k ?t = take ?k ?u" using k by (simp add: T_def)
  have "last (take ?k ?u) = buffer r ! (i - 1)" if "start r < i"
  proof -
    have ne: "take ?k ?u \<noteq> []" using that k by auto
    have "last (take ?k ?u) = ?u ! (?k - 1)" using that k by (simp add: last_conv_nth [OF ne])
    then show ?thesis using that nth [of "?k - 1"] i by simp
  qed
  then have f: "first_line ?t = take (line_end q - start r) ?u"
    using i k by (auto simp: first_line_def inset W tk Let_def q_def butlast_take Suc_diff_le)
  have a: "after_line ?t = drop (next_line q - start r) ?u @ ?rest"
    using i k unfolding after_line_def by (simp add: inset W q_def tl_drop drop_Suc [symmetric] Suc_diff_le) (simp add: T_def)
  have e: "unread q = ?u" "text_of q = ?t" "text_of r = ?t" by (simp_all add: q_def unread_def text_of_def T_def)
  have "reader_ok q" unfolding reader_ok_def e using ok i f a inset by (auto simp: q_def span_ok_def)
  then show ?thesis using e inset by (auto simp: q_def)
qed

lemma scan_lines_ok:
  assumes "reliable os" "span_ok r" "k \<le> fin r - start r" "\<forall>j. start r \<le> j \<longrightarrow> j < start r + k \<longrightarrow> buffer r ! j \<noteq> 10" "\<not> pending r"
  shows "reader_ok (snd (scan_lines os k r)) \<and> text_of (snd (scan_lines os k r)) = text_of r
    \<and> fst (scan_lines os k r) = (text_of r \<noteq> []) \<and> pending (snd (scan_lines os k r)) = (text_of r \<noteq> [])"
  using assms
proof (induction os k r rule: scan_lines.induct)
  case (1 os k r)
  show ?case
  proof (cases "find_newline k r")
    case (Some i)
    note F = find_newline_Some [OF Some]
    have "\<forall>j. start r \<le> j \<longrightarrow> j < i \<longrightarrow> buffer r ! j \<noteq> 10" using F "1.prems"(4) by (metis not_le)
    moreover have "start r \<le> i" using F by linarith
    ultimately show ?thesis
      using line_found [OF "1.prems"(2), of i] F by (simp add: scan_lines.simps [of os k r] Some Let_def)
  next
    case None
    obtain n r' where f: "line_reader_fill os r = (n, r')" by fastforce
    note F = fill_ok [OF "1.prems"(1,2) f]
    have none: "buffer r ! j \<noteq> 10" if "start r \<le> j" "j < fin r" for j
      using that find_newline_None [OF None, of j] "1.prems"(4) by (metis not_le)
    have no10: "10 \<notin> set (unread r)"
      using none "1.prems"(2) by (auto simp: in_set_conv_nth unread_def span_ok_def)
    obtain u where u: "unread r' = unread r @ u" "length u = n" using F by blast
    show ?thesis
    proof (cases "n = 0")
      case False
      have len: "fin r - start r \<le> fin r' - start r'" using u length_unread [of r] length_unread [of r'] F "1.prems"(2) by simp
      have "buffer r' ! j \<noteq> 10" if "start r' \<le> j" "j < start r' + (fin r - start r)" for j
      proof -
        have "j - start r' < length (unread r)" using that length_unread [OF "1.prems"(2)] by simp
        then have "unread r' ! (j - start r') \<in> set (unread r)" by (simp add: u nth_append)
        moreover have "unread r' ! (j - start r') = buffer r' ! j" using that len F by (auto simp: unread_def span_ok_def)
        ultimately show ?thesis using no10 by metis
      qed
      from "1.IH" [OF None refl f [symmetric] refl False "1.prems"(1)] F len this "1.prems"(5) False
      show ?thesis by (simp add: scan_lines.simps [of os k r] None f)
    next
      case True
      then have e: "unread r' = unread r" "text_of r' = unread r'" using u F by auto
      show ?thesis
      proof (cases "fin r' = start r'")
        case t: True
        then have "text_of r' = []" using e by (simp add: unread_def)
        then show ?thesis using t True F "1.prems"(5) by (simp add: scan_lines.simps [of os k r] None f reader_ok_def)
      next
        case t: False
        let ?q = "r'\<lparr>line_end := fin r', next_line := fin r', pending := True\<rparr>"
        have q: "unread ?q = unread r'" "text_of ?q = text_of r'" by (simp_all add: unread_def text_of_def)
        have l: "length (unread r') = fin r' - start r'" using F length_unread by blast
        have rest: "(if eof r' then [] else input r') = []" using e(2) by (simp add: text_of_def)
        have rest': "\<not> eof r' \<Longrightarrow> input r' = []" using rest by simp
        have "text_of r' \<noteq> []" using e(2) l t F by (auto simp: span_ok_def)
        then have "reader_ok ?q"
          using no10 e l rest' F unfolding reader_ok_def q by (auto simp: first_line_def after_line_def span_ok_def)
        then show ?thesis using t True F q \<open>text_of r' \<noteq> []\<close> by (simp add: scan_lines.simps [of os k r] None f)
      qed
    qed
  qed
qed

lemma has_line_ok:
  assumes os: "reliable os" and ok: "reader_ok r" and h: "line_reader_has_line os r = (b, r')"
  shows "reader_ok r' \<and> text_of r' = text_of r \<and> b = (text_of r \<noteq> []) \<and> pending r' = (text_of r \<noteq> [])"
proof (cases "pending r")
  case True
  then show ?thesis using ok h by (auto simp: line_reader_has_line_def reader_ok_def)
next
  case False
  then show ?thesis using scan_lines_ok [OF os, of r 0] ok h by (auto simp: line_reader_has_line_def reader_ok_def)
qed

subsection \<open>The reader against the text\<close>

datatype read_op = Has_line | Line | Bytes int | Everything

text \<open>What each call does, and what it does to a text: \<open>Some\<close> for the bytes handed out, and whether there is a line.\<close>

fun read_do :: "kernel \<Rightarrow> (nat \<Rightarrow> bool) \<Rightarrow> read_op \<Rightarrow> LineReader \<Rightarrow> (bool + byte list option) \<times> LineReader" where
  "read_do os al Has_line r = (let (b, r) = io_stdin_has_line os r in (Inl b, r))"
| "read_do os al Line r = (let (l, r) = io_stdin_take_line os al r in (Inr l, r))"
| "read_do os al (Bytes k) r = (let (l, r) = io_stdin_take_bytes os al k r in (Inr l, r))"
| "read_do os al Everything r = (let (l, r) = io_stdin_read_all os al r in (Inr l, r))"

fun read_spec :: "read_op \<Rightarrow> byte list \<Rightarrow> (bool + byte list option) \<times> byte list" where
  "read_spec Has_line t = (Inl (t \<noteq> []), t)"
| "read_spec Line t = (Inr (Some (first_line t)), after_line t)"
| "read_spec (Bytes k) t = (Inr (Some (take (nat k) t)), drop (nat k) t)"
| "read_spec Everything t = (Inr (Some t), [])"

lemma text_split: "text_of r = unread r @ (if eof r then [] else input r)"
  by (rule text_of_def)

lemma take_line_ok:
  assumes os: "reliable os" and ok: "reader_ok r" and al: "\<forall>n. al n"
  shows "\<exists>r'. line_reader_take_line os al r = (Some (first_line (text_of r)), r') \<and> reader_ok r' \<and> text_of r' = after_line (text_of r)"
proof -
  obtain b q where h: "line_reader_has_line os r = (b, q)" by fastforce
  note H = has_line_ok [OF os ok h]
  show ?thesis
  proof (cases "text_of r = []")
    case True
    then show ?thesis using h H al by (simp add: line_reader_take_line_def first_line_def after_line_def)
  next
    case False
    then have p: "pending q" "b" "reader_ok q" "text_of q = text_of r" using H by auto
    then have q: "start q \<le> line_end q" "line_end q \<le> next_line q" "next_line q \<le> fin q" "span_ok q"
      "first_line (text_of r) = take (line_end q - start q) (unread q)"
      "after_line (text_of r) = drop (next_line q - start q) (unread q) @ (if eof q then [] else input q)"
      by (auto simp: reader_ok_def)
    let ?q = "q\<lparr>start := next_line q, pending := False\<rparr>"
    have "take (line_end q - start q) (unread q) = take (line_end q - start q) (drop (start q) (buffer q))"
      using q by (simp add: unread_def min_def)
    moreover have "unread ?q = drop (next_line q - start q) (unread q)"
      using q by (simp add: unread_def drop_take)
    ultimately show ?thesis
      using h p q al by (auto simp: line_reader_take_line_def reader_ok_def span_ok_def text_split)
  qed
qed

lemma fill_to_ok:
  assumes "reliable os" "span_ok r" "\<not> pending r"
  shows "span_ok (fill_to os n r) \<and> text_of (fill_to os n r) = text_of r \<and> \<not> pending (fill_to os n r)
    \<and> (n \<le> fin (fill_to os n r) - start (fill_to os n r) \<or> text_of r = unread (fill_to os n r))"
  using assms
proof (induction os n r rule: fill_to.induct)
  case (1 os n r)
  obtain m r' where f: "line_reader_fill os r = (m, r')" by fastforce
  note F = fill_ok [OF "1.prems"(1,2) f]
  show ?case
  proof (cases "fin r - start r < n")
    case True
    show ?thesis
    proof (cases "m = 0")
      case m: True
      then have "text_of r = unread r'" using F by metis
      then show ?thesis using m True F f "1.prems" by (simp add: fill_to.simps [of os n r])
    next
      case False
      then show ?thesis using "1.IH" [OF True f [symmetric] refl False "1.prems"(1)] True F f "1.prems"
        by (simp add: fill_to.simps [of os n r])
    qed
  qed (use "1.prems" in \<open>simp add: fill_to.simps [of os n r]\<close>)
qed

lemma fill_all_ok:
  assumes "reliable os" "span_ok r" "\<not> pending r"
  shows "span_ok (fill_all os r) \<and> text_of (fill_all os r) = text_of r \<and> \<not> pending (fill_all os r) \<and> text_of r = unread (fill_all os r)"
  using assms
proof (induction os r rule: fill_all.induct)
  case (1 os r)
  obtain m r' where f: "line_reader_fill os r = (m, r')" by fastforce
  note F = fill_ok [OF "1.prems"(1,2) f]
  show ?case
  proof (cases "m = 0")
    case True
    then have "text_of r = unread r'" using F by metis
    then show ?thesis using True F f "1.prems" by (simp add: fill_all.simps [of os r])
  next
    case False
    then show ?thesis using "1.IH" [OF f [symmetric] refl False "1.prems"(1)] F f "1.prems" by (simp add: fill_all.simps [of os r])
  qed
qed

lemma forget_pending: "reader_ok r \<Longrightarrow> span_ok (r\<lparr>pending := False\<rparr>) \<and> text_of (r\<lparr>pending := False\<rparr>) = text_of r"
  by (simp add: reader_ok_def span_ok_def text_of_def unread_def)

text \<open>Handing out the first \<open>n\<close> bytes that the buffer holds.\<close>

lemma hand_out:
  assumes "span_ok r" "\<not> pending r" "n \<le> fin r - start r"
  shows "take n (drop (start r) (buffer r)) = take n (text_of r)"
    "reader_ok (r\<lparr>start := start r + n\<rparr>)" "text_of (r\<lparr>start := start r + n\<rparr>) = drop n (text_of r)"
proof -
  have l: "n \<le> length (unread r)" using assms length_unread by simp
  have "take n (unread r) = take n (drop (start r) (buffer r))" using assms(3) by (simp add: unread_def min_def)
  then show "take n (drop (start r) (buffer r)) = take n (text_of r)" using l by (simp add: text_of_def)
  have "unread (r\<lparr>start := start r + n\<rparr>) = drop n (unread r)" by (simp add: unread_def drop_take add.commute)
  then show "text_of (r\<lparr>start := start r + n\<rparr>) = drop n (text_of r)" using l by (simp add: text_of_def)
  show "reader_ok (r\<lparr>start := start r + n\<rparr>)" using assms by (auto simp: reader_ok_def span_ok_def)
qed

lemma read_do_ok:
  assumes os: "reliable os" and al: "\<forall>n. al n" and ok: "reader_ok r"
  shows "fst (read_do os al op r) = fst (read_spec op (text_of r)) \<and> reader_ok (snd (read_do os al op r))
    \<and> text_of (snd (read_do os al op r)) = snd (read_spec op (text_of r))"
proof (cases op)
  case Has_line
  obtain b q where "line_reader_has_line os r = (b, q)" by fastforce
  then show ?thesis using Has_line has_line_ok [OF os ok] by (auto simp: io_stdin_has_line_def)
next
  case Line
  then show ?thesis using take_line_ok [OF os ok al] by (auto simp: io_stdin_take_line_def)
next
  case (Bytes k)
  define w where "w = (if k > 0 then nat k else 0)"
  define q where "q = fill_to os w (r\<lparr>pending := False\<rparr>)"
  note P = forget_pending [OF ok]
  have Q: "span_ok q" "text_of q = text_of r" "\<not> pending q" "w \<le> fin q - start q \<or> text_of r = unread q"
    using fill_to_ok [OF os, of "r\<lparr>pending := False\<rparr>" w] P by (auto simp: q_def)
  have t: "take (min (fin q - start q) w) (text_of r) = take (nat k) (text_of r)"
    "drop (min (fin q - start q) w) (text_of r) = drop (nat k) (text_of r)"
    using Q(4) length_unread [OF Q(1)] by (auto simp: w_def min_def)
  show ?thesis
    using Bytes al hand_out [OF Q(1,3), of "min (fin q - start q) w"] Q(2)
    by (simp add: io_stdin_take_bytes_def Let_def w_def [symmetric] q_def [symmetric] t)
next
  case Everything
  define q where "q = fill_all os (r\<lparr>pending := False\<rparr>)"
  note P = forget_pending [OF ok]
  have Q: "span_ok q" "text_of q = text_of r" "\<not> pending q" "text_of r = unread q"
    using fill_all_ok [OF os, of "r\<lparr>pending := False\<rparr>"] P by (auto simp: q_def)
  have "start q + (fin q - start q) = fin q" using Q(1) by (simp add: span_ok_def)
  then show ?thesis
    using Everything al hand_out [OF Q(1,3), of "fin q - start q"] Q length_unread [OF Q(1)]
    by (simp add: io_stdin_read_all_def Let_def q_def [symmetric])
qed

fun read_run :: "kernel \<Rightarrow> (nat \<Rightarrow> bool) \<Rightarrow> read_op list \<Rightarrow> LineReader \<Rightarrow> (bool + byte list option) list" where
  "read_run os al [] r = []"
| "read_run os al (op # ops) r = (let (x, r) = read_do os al op r in x # read_run os al ops r)"

fun spec_run :: "read_op list \<Rightarrow> byte list \<Rightarrow> (bool + byte list option) list" where
  "spec_run [] t = []"
| "spec_run (op # ops) t = (let (x, t) = read_spec op t in x # spec_run ops t)"

definition open_reader :: "byte list \<Rightarrow> LineReader" where
  "open_reader text = \<lparr>buffer = [], start = 0, fin = 0, line_end = 0, next_line = 0, pending = False, eof = False, input = text\<rparr>"

lemma open_reader_ok [simp]: "reader_ok (open_reader text)" "text_of (open_reader text) = text"
  by (simp_all add: open_reader_def reader_ok_def span_ok_def text_of_def unread_def)

lemma read_run_spec: "reliable os \<Longrightarrow> \<forall>n. al n \<Longrightarrow> reader_ok r \<Longrightarrow> read_run os al ops r = spec_run ops (text_of r)"
proof (induction ops arbitrary: r)
  case (Cons op ops)
  then show ?case using read_do_ok [OF Cons.prems, of op] by (simp add: case_prod_unfold Let_def)
qed simp

text \<open>C25. However the kernel cuts the input into reads, any sequence of calls on a reader (is there a line, take
  a line, take so many bytes, take everything) gives what the calls give on the input as one text:
  lines end at \<open>\n\<close> or \<open>\r\n\<close>, also where the two bytes come in different reads; a last line without
  a newline is a line; asking for a line twice skips none; no byte is lost or repeated between calls.\<close>

theorem reader_refines_text:
  assumes "reliable os" and "\<forall>n. al n"
  shows "read_run os al ops (open_reader text) = spec_run ops text"
  using read_run_spec [OF assms, of "open_reader text" ops] by simp

definition byte_by_byte :: kernel where
  "byte_by_byte = \<lparr>gives = \<lambda>room rest. 1, grants = \<lambda>n. True\<rparr>"

theorem reader_refines_text_witness:
  "read_run byte_by_byte (\<lambda>n. True) [Has_line, Line, Bytes 1, Line, Everything, Has_line] (open_reader [104, 105, 13, 10, 97, 98, 10, 99])
    = [Inl True, Inr (Some [104, 105]), Inr (Some [97]), Inr (Some [98]), Inr (Some [99]), Inl False]"
proof -
  have "reliable byte_by_byte" by (simp add: reliable_def byte_by_byte_def)
  from reader_refines_text [OF this, of "\<lambda>n. True"] show ?thesis by (simp add: first_line_def after_line_def Let_def del: read_run.simps)
qed

end
