(* ===== verification/File_Lines.thy ===== *)
theory File_Lines
  imports Line_Reader
begin

text \<open>
  The table of files read by line of \<open>runtime/program_support.c\<close> (\<open>fs_lines_open\<close> to
  \<open>fs_lines_take_line\<close>): a handle names a slot and the generation it was opened in.  What \<open>open\<close> finds
  is a parameter: the file's bytes, or nothing.  The set of descriptors to wait on (\<open>poll_clear\<close> to
  \<open>io_stdin_ready\<close>) is here as well, with the kernel's \<open>poll\<close> as a parameter.
\<close>

subsection \<open>Definitions\<close>

definition FS_LINES_SLOT_BITS :: nat where "FS_LINES_SLOT_BITS = 16"
definition FS_LINES_MAX_SLOTS :: nat where "FS_LINES_MAX_SLOTS = 2 ^ FS_LINES_SLOT_BITS - 1"

record FsLinesSlot =
  reader :: LineReader
  generation :: nat
  opened :: bool

definition sizeof_FsLinesSlot :: nat where "sizeof_FsLinesSlot = 72"

definition fs_lines_reader :: "int \<Rightarrow> FsLinesSlot list \<Rightarrow> nat option" where
  "fs_lines_reader h t =
     (if h < 0 then None
      else let slot = nat h mod 2 ^ FS_LINES_SLOT_BITS; gen = nat h div 2 ^ FS_LINES_SLOT_BITS in
           if slot \<ge> length t then None
           else if \<not> opened (t ! slot) \<or> generation (t ! slot) \<noteq> gen then None
           else Some slot)"

definition fs_lines_close :: "int \<Rightarrow> FsLinesSlot list \<Rightarrow> FsLinesSlot list" where
  "fs_lines_close h t =
     (case fs_lines_reader h t of
        None \<Rightarrow> t
      | Some i \<Rightarrow> t[i := \<lparr>reader = open_reader [], generation = (generation (t ! i) + 1) mod 2 ^ 15, opened = False\<rparr>])"

definition fs_lines_open :: "kernel \<Rightarrow> byte list option \<Rightarrow> FsLinesSlot list \<Rightarrow> int \<times> FsLinesSlot list" where
  "fs_lines_open os file t =
     (case file of
        None \<Rightarrow> (- 1, t)
      | Some bytes \<Rightarrow>
          let slot = length (takeWhile opened t); n = length t;
              put = (\<lambda>t. (int (generation (t ! slot) * 2 ^ FS_LINES_SLOT_BITS + slot),
                          t[slot := (t ! slot)\<lparr>reader := open_reader bytes, opened := True\<rparr>]))
          in if slot = n
             then if slot \<ge> FS_LINES_MAX_SLOTS then (- 1, t)
                  else let grown = min (if n \<noteq> 0 then n * 2 else 8) FS_LINES_MAX_SLOTS in
                       if \<not> grants os (grown * sizeof_FsLinesSlot) then (- 1, t)
                       else put (t @ replicate (grown - n) \<lparr>reader = open_reader [], generation = 0, opened = False\<rparr>)
             else put t)"

definition fs_lines_has_line :: "kernel \<Rightarrow> int \<Rightarrow> FsLinesSlot list \<Rightarrow> bool \<times> FsLinesSlot list" where
  "fs_lines_has_line os h t =
     (case fs_lines_reader h t of
        None \<Rightarrow> (False, t)
      | Some i \<Rightarrow> let (b, r) = line_reader_has_line os (reader (t ! i)); t = t[i := (t ! i)\<lparr>reader := r\<rparr>]
                  in if b then (True, t) else (False, fs_lines_close h t))"

definition fs_lines_take_line :: "kernel \<Rightarrow> (nat \<Rightarrow> bool) \<Rightarrow> int \<Rightarrow> FsLinesSlot list \<Rightarrow> byte list option \<times> FsLinesSlot list" where
  "fs_lines_take_line os al h t =
     (case fs_lines_reader h t of
        None \<Rightarrow> (if al 1 then Some [] else None, t)
      | Some i \<Rightarrow> let (l, r) = line_reader_take_line os al (reader (t ! i)) in (l, t[i := (t ! i)\<lparr>reader := r\<rparr>]))"

text \<open>Descriptors to wait on.  \<open>ready\<close> is the kernel's answer for each position of the set, or \<open>None\<close> when
  the time ran out.\<close>

definition POLL_MAX :: nat where "POLL_MAX = 64"

definition stdin_has_buffered :: "LineReader \<Rightarrow> bool" where
  "stdin_has_buffered r \<longleftrightarrow> fin r > start r \<or> eof r"

definition position :: "('x \<Rightarrow> bool) \<Rightarrow> 'x list \<Rightarrow> int" where
  "position P xs = (let k = length (takeWhile (\<lambda>x. \<not> P x) xs) in if k < length xs then int k else - 1)"

definition poll_wait_on :: "(int list \<Rightarrow> int \<Rightarrow> bool list option) \<Rightarrow> LineReader \<Rightarrow> int list \<Rightarrow> int \<Rightarrow> int" where
  "poll_wait_on ready r fds ms =
     (let i = position (\<lambda>fd. fd = 0 \<and> stdin_has_buffered r) fds in
      if i \<ge> 0 then i
      else case ready fds ms of None \<Rightarrow> - 1 | Some events \<Rightarrow> position (\<lambda>b. b) events)"

definition poll_clear :: "int list \<Rightarrow> int list" where
  "poll_clear fds = []"

definition poll_add :: "int \<Rightarrow> int list \<Rightarrow> int \<times> int list" where
  "poll_add fd fds = (if length fds \<ge> POLL_MAX then (- 1, fds) else (int (length fds), fds @ [fd]))"

definition poll_wait :: "(int list \<Rightarrow> int \<Rightarrow> bool list option) \<Rightarrow> LineReader \<Rightarrow> int \<Rightarrow> int list \<Rightarrow> int" where
  "poll_wait ready r ms fds = poll_wait_on ready r fds (if ms < 0 then 0 else ms)"

definition io_stdin_ready :: "(int list \<Rightarrow> int \<Rightarrow> bool list option) \<Rightarrow> LineReader \<Rightarrow> int \<Rightarrow> bool" where
  "io_stdin_ready ready r ms \<longleftrightarrow> poll_wait_on ready r [0] (if ms < 0 then 0 else ms) \<ge> 0"

subsection \<open>Handles and files\<close>

definition slot_of :: "int \<Rightarrow> nat" where "slot_of h = nat h mod 2 ^ FS_LINES_SLOT_BITS"
definition gen_of :: "int \<Rightarrow> nat" where "gen_of h = nat h div 2 ^ FS_LINES_SLOT_BITS"
definition handle_of :: "nat \<Rightarrow> nat \<Rightarrow> int" where "handle_of gen slot = int (gen * 2 ^ FS_LINES_SLOT_BITS + slot)"

text \<open>The files being read: what is left of each, by its handle.\<close>

definition files :: "FsLinesSlot list \<Rightarrow> int \<Rightarrow> byte list option" where
  "files t h = map_option (\<lambda>i. text_of (reader (t ! i))) (fs_lines_reader h t)"

definition table_ok :: "FsLinesSlot list \<Rightarrow> bool" where
  "table_ok t \<longleftrightarrow> length t \<le> FS_LINES_MAX_SLOTS
     \<and> (\<forall>s \<in> set t. reader_ok (reader s) \<and> generation s < 2 ^ 15)"

lemma reader_eq:
  "fs_lines_reader h t = (if 0 \<le> h \<and> slot_of h < length t \<and> opened (t ! slot_of h) \<and> generation (t ! slot_of h) = gen_of h
     then Some (slot_of h) else None)"
  by (simp add: fs_lines_reader_def Let_def slot_of_def gen_of_def)

lemma handle_split: "slot < 2 ^ FS_LINES_SLOT_BITS \<Longrightarrow> slot_of (handle_of gen slot) = slot \<and> gen_of (handle_of gen slot) = gen \<and> 0 \<le> handle_of gen slot"
  by (simp add: slot_of_def gen_of_def handle_of_def FS_LINES_SLOT_BITS_def nat_int del: of_nat_add of_nat_mult)

lemma handle_join: "0 \<le> h \<Longrightarrow> handle_of (gen_of h) (slot_of h) = h"
  unfolding handle_of_def gen_of_def slot_of_def by (simp add: mult.commute)

lemma handle_inj: "0 \<le> h \<Longrightarrow> 0 \<le> h' \<Longrightarrow> slot_of h = slot_of h' \<Longrightarrow> gen_of h = gen_of h' \<Longrightarrow> h = h'"
  by (metis handle_join)

text \<open>A table with another reader in a slot that stays as open as it was.\<close>

lemma reader_slot: "fs_lines_reader h t = Some i \<Longrightarrow> 0 \<le> h \<and> i = slot_of h \<and> i < length t \<and> opened (t ! i) \<and> generation (t ! i) = gen_of h"
  by (auto simp: reader_eq split: if_split_asm)

lemma reader_unique: "fs_lines_reader h t = Some i \<Longrightarrow> fs_lines_reader h' t = Some i \<Longrightarrow> h' = h"
  by (metis reader_slot handle_inj)

lemma files_reader:
  assumes i: "fs_lines_reader h t = Some i"
  shows "files (t[i := (t ! i)\<lparr>reader := r\<rparr>]) = (files t)(h \<mapsto> text_of r)"
proof
  fix h'
  note s = reader_slot [OF i]
  have e: "fs_lines_reader h' (t[i := (t ! i)\<lparr>reader := r\<rparr>]) = fs_lines_reader h' t"
    using s by (cases "slot_of h' = i") (simp_all add: reader_eq)
  show "files (t[i := (t ! i)\<lparr>reader := r\<rparr>]) h' = ((files t)(h \<mapsto> text_of r)) h'"
  proof (cases "h' = h")
    case True
    then show ?thesis using i s e by (simp add: files_def)
  next
    case False
    then have "fs_lines_reader h' t \<noteq> Some i" using reader_unique [OF i] by blast
    then show ?thesis using False e by (cases "fs_lines_reader h' t") (simp_all add: files_def)
  qed
qed

lemma files_close: "files (fs_lines_close h t) = (files t)(h := None)"
proof (cases "fs_lines_reader h t")
  case None
  then show ?thesis by (auto simp: fs_lines_close_def files_def)
next
  case (Some i)
  note s = reader_slot [OF Some]
  define u where "u = t[i := \<lparr>reader = open_reader [], generation = (generation (t ! i) + 1) mod 2 ^ 15, opened = False\<rparr>]"
  have "files u h' = ((files t)(h := None)) h'" for h'
  proof (cases "slot_of h' = i")
    case True
    then have "fs_lines_reader h' u = None" using s by (simp add: reader_eq u_def)
    moreover have "h' \<noteq> h \<Longrightarrow> fs_lines_reader h' t = None"
      using reader_unique [OF Some, of h'] reader_slot [of h' t] True by (cases "fs_lines_reader h' t") auto
    ultimately show ?thesis by (auto simp: files_def)
  next
    case False
    then show ?thesis using s by (auto simp: files_def u_def reader_eq)
  qed
  then show ?thesis by (auto simp: fs_lines_close_def Some u_def)
qed

lemma files_put:
  assumes i: "i < length t" "\<not> opened (t ! i)" "length t \<le> FS_LINES_MAX_SLOTS"
    and h: "h = handle_of (generation (t ! i)) i"
  shows "files t h = None \<and> files (t[i := (t ! i)\<lparr>reader := r, opened := True\<rparr>]) = (files t)(h \<mapsto> text_of r)"
proof -
  have "i < 2 ^ FS_LINES_SLOT_BITS" using i by (simp add: FS_LINES_MAX_SLOTS_def FS_LINES_SLOT_BITS_def)
  then have s: "slot_of h = i" "gen_of h = generation (t ! i)" "0 \<le> h"
    using handle_split [of i "generation (t ! i)"] by (simp_all add: h)
  let ?u = "t[i := (t ! i)\<lparr>reader := r, opened := True\<rparr>]"
  have n: "fs_lines_reader h t = None" using i s by (simp add: reader_eq)
  have "files ?u h' = ((files t)(h \<mapsto> text_of r)) h'" for h'
  proof (cases "slot_of h' = i")
    case True
    have "fs_lines_reader h' t = None" using i True by (simp add: reader_eq)
    moreover have "fs_lines_reader h' ?u = (if h' = h then Some i else None)"
    proof (cases "h' = h")
      case same: True
      then show ?thesis using i s by (simp add: reader_eq)
    next
      case other: False
      then have "0 \<le> h' \<Longrightarrow> gen_of h' \<noteq> generation (t ! i)" using handle_inj [of h' h] s True by metis
      then show ?thesis using i True other by (auto simp: reader_eq)
    qed
    ultimately show ?thesis using i by (simp add: files_def)
  next
    case False
    then have "fs_lines_reader h' ?u = fs_lines_reader h' t" "h' \<noteq> h" using s by (auto simp: reader_eq)
    then show ?thesis using False reader_slot [of h' t] by (cases "fs_lines_reader h' t") (auto simp: files_def)
  qed
  then show ?thesis using n by (auto simp: files_def)
qed

lemma files_more: "\<forall>s \<in> set ext. \<not> opened s \<Longrightarrow> files (t @ ext) = files t"
  by (auto simp: files_def reader_eq fun_eq_iff nth_append)

lemma table_upd: "table_ok t \<Longrightarrow> reader_ok (reader s) \<Longrightarrow> generation s < 2 ^ 15 \<Longrightarrow> table_ok (t[i := s])"
  by (auto simp: table_ok_def dest!: set_update_subset_insert [THEN subsetD])

lemma table_nth: "table_ok t \<Longrightarrow> i < length t \<Longrightarrow> reader_ok (reader (t ! i)) \<and> generation (t ! i) < 2 ^ 15"
  by (auto simp: table_ok_def)

lemma close_ok: "table_ok t \<Longrightarrow> table_ok (fs_lines_close h t)"
  by (auto simp: fs_lines_close_def intro: table_upd split: option.splits)

lemma open_ok:
  assumes t: "table_ok t" and o: "fs_lines_open os content t = (h, t')"
  shows "table_ok t' \<and> (if h = - 1 then files t' = files t
    else 0 \<le> h \<and> h < 2 ^ 31 \<and> files t h = None \<and> files t' = (files t)(h \<mapsto> the content))"
proof -
  have put: ?thesis if u: "table_ok u" "files u = files t" "i < length u" "\<not> opened (u ! i)"
    "(h, t') = (handle_of (generation (u ! i)) i, u[i := (u ! i)\<lparr>reader := open_reader bytes, opened := True\<rparr>])" "content = Some bytes"
    for u i bytes
  proof -
    have len: "length u \<le> FS_LINES_MAX_SLOTS" using u(1) by (simp add: table_ok_def)
    have g: "generation (u ! i) < 2 ^ 15" using table_nth [OF u(1,3)] by simp
    have i: "i < 2 ^ 16 - 1" using len u(3) by (simp add: FS_LINES_MAX_SLOTS_def FS_LINES_SLOT_BITS_def)
    have "generation (u ! i) * 2 ^ 16 + i < 2 ^ 31" using g i by simp
    then have "0 \<le> h \<and> h < 2 ^ 31" using u(5) by (simp add: handle_of_def FS_LINES_SLOT_BITS_def)
    moreover have "table_ok t'" using u(5) g by (auto intro: table_upd [OF u(1)])
    ultimately show ?thesis using files_put [OF u(3,4) len, of h "open_reader bytes"] u(2,5,6) by auto
  qed
  show ?thesis
  proof (cases content)
    case None
    then show ?thesis using o t by (auto simp: fs_lines_open_def)
  next
    case (Some bytes)
    define i where "i = length (takeWhile opened t)"
    show ?thesis
    proof (cases "i = length t")
      case False
      then have il: "i < length t" using length_takeWhile_le [of opened t] by (simp add: i_def)
      then have "\<not> opened (t ! i)" unfolding i_def by (rule nth_length_takeWhile)
      then show ?thesis using o False Some by (intro put [OF t refl il]) (auto simp: fs_lines_open_def Let_def i_def [symmetric] handle_of_def)
    next
      case True
      define g where "g = min (if length t \<noteq> 0 then length t * 2 else 8) FS_LINES_MAX_SLOTS"
      define u where "u = t @ replicate (g - length t) \<lparr>reader = open_reader [], generation = 0, opened = False\<rparr>"
      show ?thesis
      proof (cases "length t \<ge> FS_LINES_MAX_SLOTS \<or> \<not> grants os (g * sizeof_FsLinesSlot)")
        case fail: True
        then have "(h, t') = (- 1, t)"
          using o True Some unfolding g_def
          by (cases "length t \<ge> FS_LINES_MAX_SLOTS") (simp_all add: fs_lines_open_def Let_def i_def [symmetric] split del: if_split)
        then show ?thesis using t by simp
      next
        case ok: False
        then have g: "length t < g" "g \<le> FS_LINES_MAX_SLOTS" by (auto simp: g_def min_def FS_LINES_MAX_SLOTS_def FS_LINES_SLOT_BITS_def split: if_splits)
        have "table_ok u" using t g by (auto simp: table_ok_def u_def)
        moreover have "files u = files t" unfolding u_def by (rule files_more) auto
        moreover have "i < length u" "\<not> opened (u ! i)" using g True by (auto simp: u_def nth_append)
        moreover have "(h, t') = (handle_of (generation (u ! i)) i, u[i := (u ! i)\<lparr>reader := open_reader bytes, opened := True\<rparr>])"
          using o ok True Some unfolding u_def g_def by (simp add: fs_lines_open_def Let_def i_def [symmetric] handle_of_def split del: if_split)
        ultimately show ?thesis using put Some by blast
      qed
    qed
  qed
qed

subsection \<open>The table against the files\<close>

datatype file_op = Open "byte list option" | Close int | More int | Take int

datatype file_answer = Handle int | Done | Pending bool | Bytes_out "byte list option"

fun file_do :: "kernel \<Rightarrow> (nat \<Rightarrow> bool) \<Rightarrow> file_op \<Rightarrow> FsLinesSlot list \<Rightarrow> file_answer \<times> FsLinesSlot list" where
  "file_do os al (Open f) t = (let (h, t) = fs_lines_open os f t in (Handle h, t))"
| "file_do os al (Close h) t = (Done, fs_lines_close h t)"
| "file_do os al (More h) t = (let (b, t) = fs_lines_has_line os h t in (Pending b, t))"
| "file_do os al (Take h) t = (let (l, t) = fs_lines_take_line os al h t in (Bytes_out l, t))"

text \<open>What a call may answer and leave, on the open files alone: a handle is any number not in use.\<close>

fun file_spec :: "file_op \<Rightarrow> (int \<rightharpoonup> byte list) \<Rightarrow> file_answer \<Rightarrow> (int \<rightharpoonup> byte list) \<Rightarrow> bool" where
  "file_spec (Open f) m (Handle h) m' =
     (if h = - 1 then m' = m else 0 \<le> h \<and> h < 2 ^ 31 \<and> m h = None \<and> f \<noteq> None \<and> m' = m(h := f))"
| "file_spec (Close h) m Done m' = (m' = m(h := None))"
| "file_spec (More h) m (Pending b) m' =
     (case m h of None \<Rightarrow> \<not> b \<and> m' = m | Some t \<Rightarrow> b = (t \<noteq> []) \<and> m' = (if b then m else m(h := None)))"
| "file_spec (Take h) m (Bytes_out l) m' =
     (case m h of None \<Rightarrow> l = Some [] \<and> m' = m | Some t \<Rightarrow> l = Some (first_line t) \<and> m' = m(h \<mapsto> after_line t))"
| "file_spec _ _ _ _ = False"

lemma set_reader_ok:
  assumes "table_ok t" "fs_lines_reader h t = Some i" "reader_ok r"
  shows "table_ok (t[i := (t ! i)\<lparr>reader := r\<rparr>])"
  using assms table_nth [OF assms(1)] reader_slot [OF assms(2)] by (intro table_upd) auto

lemma file_do_ok:
  assumes os: "reliable os" and al: "\<forall>n. al n" and t: "table_ok t" and d: "file_do os al op t = (x, t')"
  shows "table_ok t' \<and> file_spec op (files t) x (files t')"
proof (cases op)
  case (Open f)
  obtain h u where o: "fs_lines_open os f t = (h, u)" by fastforce
  have "f = None \<Longrightarrow> h = - 1" using o by (simp add: fs_lines_open_def)
  then show ?thesis using open_ok [OF t o] Open d o by (cases f) (auto split: if_split_asm)
next
  case (Close h)
  then show ?thesis using d close_ok [OF t] files_close by auto
next
  case (More h)
  show ?thesis
  proof (cases "fs_lines_reader h t")
    case None
    then show ?thesis using More d t by (auto simp: fs_lines_has_line_def files_def)
  next
    case (Some i)
    obtain b r where h: "line_reader_has_line os (reader (t ! i)) = (b, r)" by fastforce
    have "reader_ok (reader (t ! i))" using table_nth [OF t] reader_slot [OF Some] by blast
    note H = has_line_ok [OF os this h]
    define u where "u = t[i := (t ! i)\<lparr>reader := r\<rparr>]"
    have m: "files t h = Some (text_of (reader (t ! i)))" by (simp add: files_def Some)
    have u: "table_ok u" "files u = files t" using set_reader_ok [OF t Some] files_reader [OF Some] H m by (auto simp: u_def)
    have "(x, t') = (Pending b, if b then u else fs_lines_close h u)" using More d Some h by (auto simp: fs_lines_has_line_def Let_def u_def)
    then show ?thesis using More u H m close_ok files_close by auto
  qed
next
  case (Take h)
  show ?thesis
  proof (cases "fs_lines_reader h t")
    case None
    then show ?thesis using Take d t al by (auto simp: fs_lines_take_line_def files_def)
  next
    case (Some i)
    have "reader_ok (reader (t ! i))" using table_nth [OF t] reader_slot [OF Some] by blast
    from take_line_ok [OF os this al] obtain r where
      r: "line_reader_take_line os al (reader (t ! i)) = (Some (first_line (text_of (reader (t ! i)))), r)"
        "reader_ok r" "text_of r = after_line (text_of (reader (t ! i)))" by blast
    have "files t h = Some (text_of (reader (t ! i)))" by (simp add: files_def Some)
    then show ?thesis using Take d Some r set_reader_ok [OF t Some r(2)] files_reader [OF Some, of r]
      by (auto simp: fs_lines_take_line_def Let_def)
  qed
qed

fun file_run :: "kernel \<Rightarrow> (nat \<Rightarrow> bool) \<Rightarrow> file_op list \<Rightarrow> FsLinesSlot list \<Rightarrow> file_answer list \<times> FsLinesSlot list" where
  "file_run os al [] t = ([], t)"
| "file_run os al (op # ops) t = (let (x, t) = file_do os al op t; (xs, t) = file_run os al ops t in (x # xs, t))"

inductive file_trace :: "file_op list \<Rightarrow> (int \<rightharpoonup> byte list) \<Rightarrow> file_answer list \<Rightarrow> (int \<rightharpoonup> byte list) \<Rightarrow> bool" where
  file_nil: "file_trace [] m [] m"
| file_step: "file_spec op m x m' \<Longrightarrow> file_trace ops m' xs m'' \<Longrightarrow> file_trace (op # ops) m (x # xs) m''"

lemma file_run_ok:
  assumes "reliable os" "\<forall>n. al n" "table_ok t" "file_run os al ops t = (xs, t')"
  shows "table_ok t' \<and> file_trace ops (files t) xs (files t')"
  using assms(3,4)
proof (induction ops arbitrary: t xs)
  case (Cons op ops)
  obtain x u where d: "file_do os al op t = (x, u)" by fastforce
  obtain ys v where r: "file_run os al ops u = (ys, v)" by fastforce
  note D = file_do_ok [OF assms(1,2) Cons.prems(1) d]
  have e: "xs = x # ys" "t' = v" using Cons.prems(2) d r by auto
  note IH = Cons.IH [OF conjunct1 [OF D] r [folded e(2)]]
  show ?case unfolding e(1) using IH file_step [OF conjunct2 [OF D]] by blast
qed (auto intro: file_nil)

text \<open>C26. From the empty table, any sequence of opens, closes, questions and reads is a run over a map
  from handles to the text each file has left: an open file gets a handle no open file has, between 0 and
  \<open>2^31 - 1\<close>; a line is taken from its own file only, the other files stay as they are; a file whose end
  was seen is closed; a handle not open has no line and closing it does nothing; the table never holds
  more than 65535 slots.\<close>

theorem files_refine_map:
  assumes "reliable os" and "\<forall>n. al n" and "file_run os al ops [] = (xs, t)"
  shows "table_ok t \<and> file_trace ops (\<lambda>h. None) xs (files t)"
proof -
  have "table_ok []" "files [] = (\<lambda>h. None)" by (simp_all add: table_ok_def files_def reader_eq fun_eq_iff)
  then show ?thesis using file_run_ok [OF assms(1,2) _ assms(3)] by metis
qed

inductive_cases file_traceE: "file_trace (op # ops) m xs m''"

fun_cases spec_openE: "file_spec (Open f) m x m'"
fun_cases spec_moreE: "file_spec (More h) m x m'"
fun_cases spec_takeE: "file_spec (Take h) m x m'"

definition sample_ops :: "file_op list" where
  "sample_ops = [Open (Some [104, 105, 10, 106]), Take 0, More 0, Take 0, More 0, Take 0]"

theorem files_refine_map_witness:
  "fst (file_run byte_by_byte (\<lambda>n. True) sample_ops [])
    = [Handle 0, Bytes_out (Some [104, 105]), Pending True, Bytes_out (Some [106]), Pending False, Bytes_out (Some [])]"
proof -
  obtain xs t where run: "file_run byte_by_byte (\<lambda>n. True) sample_ops [] = (xs, t)" by fastforce
  have "fst (fs_lines_open byte_by_byte (Some f) []) = 0" for f
    by (simp add: fs_lines_open_def FS_LINES_MAX_SLOTS_def FS_LINES_SLOT_BITS_def byte_by_byte_def Let_def)
  then have "x = 0" if "fs_lines_open byte_by_byte (Some f) [] = (x, u)" for f x u using that by (metis fst_conv)
  then have first: "hd xs = Handle 0" using run by (auto simp: sample_ops_def split: prod.splits)
  have "reliable byte_by_byte" by (simp add: reliable_def byte_by_byte_def)
  from files_refine_map [OF this _ run] have "file_trace sample_ops (\<lambda>h. None) xs (files t)" by simp
  then have "xs = [Handle 0, Bytes_out (Some [104, 105]), Pending True, Bytes_out (Some [106]), Pending False, Bytes_out (Some [])]"
    unfolding sample_ops_def using first
    by (elim file_traceE spec_openE spec_moreE spec_takeE) (auto simp: first_line_def after_line_def elim!: file_trace.cases)
  then show ?thesis by (simp add: run)
qed

text \<open>The generation of a slot wraps: after \<open>2 ^ 15\<close> files have come and gone in a slot, the handle of the
  first is the handle of the next one, and an iterator kept past its end reads it.\<close>

fun reopen :: "kernel \<Rightarrow> byte list \<Rightarrow> nat \<Rightarrow> FsLinesSlot list \<Rightarrow> FsLinesSlot list" where
  "reopen os f 0 t = t"
| "reopen os f (Suc k) t = (let (h, t) = fs_lines_open os (Some f) t in reopen os f k (fs_lines_close h t))"

lemma open_close_first:
  assumes "table_ok (s # t)" "\<not> opened s"
  shows "(let (h, u) = fs_lines_open os (Some f) (s # t) in fs_lines_close h u)
    = \<lparr>reader = open_reader [], generation = (generation s + 1) mod 2 ^ 15, opened = False\<rparr> # t"
proof -
  have "fs_lines_open os (Some f) (s # t) = (int (generation s * 2 ^ FS_LINES_SLOT_BITS), s\<lparr>reader := open_reader f, opened := True\<rparr> # t)"
    using assms(2) by (simp add: fs_lines_open_def)
  moreover have "slot_of (handle_of (generation s) 0) = 0 \<and> gen_of (handle_of (generation s) 0) = generation s \<and> 0 \<le> handle_of (generation s) 0"
    by (rule handle_split) simp
  ultimately show ?thesis by (simp add: fs_lines_close_def reader_eq handle_of_def)
qed

lemma reopen_first:
  assumes "table_ok (s # t)" "\<not> opened s" "generation s < 2 ^ 15" "k > 0"
  shows "reopen os f k (s # t) = \<lparr>reader = open_reader [], generation = (generation s + k) mod 2 ^ 15, opened = False\<rparr> # t"
  using assms
proof (induction k arbitrary: s)
  case (Suc k)
  let ?s = "\<lparr>reader = open_reader [], generation = (generation s + 1) mod 2 ^ 15, opened = False\<rparr>"
  have e: "reopen os f (Suc k) (s # t) = reopen os f k (?s # t)"
    using open_close_first [OF Suc.prems(1,2), of os f] by (simp add: case_prod_unfold Let_def)
  have "table_ok (?s # t)" using Suc.prems(1) by (simp add: table_ok_def)
  then have IH: "k > 0 \<Longrightarrow> reopen os f k (?s # t)
      = \<lparr>reader = open_reader [], generation = ((generation s + 1) mod 2 ^ 15 + k) mod 2 ^ 15, opened = False\<rparr> # t"
    using Suc.IH [of ?s] by simp
  show ?case
  proof (cases "k = 0")
    case True
    then show ?thesis using e by simp
  next
    case False
    have "((generation s + 1) mod 2 ^ 15 + k) mod 2 ^ 15 = (generation s + Suc k) mod 2 ^ 15" by (subst mod_add_left_eq) simp
    then show ?thesis using e IH False by (simp only:)
  qed
qed simp

theorem stale_handle_lives_again:
  assumes "fs_lines_open os (Some first) [s] = (h, t)" "table_ok [s]" "\<not> opened s"
  shows "files (snd (fs_lines_open os (Some other) (reopen os first (2 ^ 15 - 1) (fs_lines_close h t)))) h = Some other"
proof -
  have h: "h = handle_of (generation s) 0" and g: "generation s < 2 ^ 15" using assms by (auto simp: fs_lines_open_def handle_of_def table_ok_def)
  have c: "fs_lines_close h t = [\<lparr>reader = open_reader [], generation = (generation s + 1) mod 2 ^ 15, opened = False\<rparr>]" (is "_ = [?s]")
    using open_close_first [OF assms(2,3), of os first] assms(1) by simp
  have "table_ok [?s]" using assms(2) by (simp add: table_ok_def)
  have "((generation s + 1) mod 2 ^ 15 + (2 ^ 15 - 1)) mod 2 ^ 15 = (generation s + 2 ^ 15) mod 2 ^ 15" by (subst mod_add_left_eq) simp
  then have wrap: "((generation s + 1) mod 2 ^ 15 + (2 ^ 15 - 1)) mod 2 ^ 15 = generation s" using g by (simp only: mod_add_self2 mod_less)
  from reopen_first [OF \<open>table_ok [?s]\<close>, of "2 ^ 15 - 1" os first]
  have r: "reopen os first (2 ^ 15 - 1) (fs_lines_close h t) = [\<lparr>reader = open_reader [], generation = generation s, opened = False\<rparr>]"
    unfolding c by (simp only: LineReader.simps FsLinesSlot.simps wrap) simp
  have s: "slot_of h = 0 \<and> gen_of h = generation s \<and> 0 \<le> h" unfolding h by (rule handle_split) simp
  show ?thesis unfolding r using s by (simp add: fs_lines_open_def files_def reader_eq)
qed

end
