(* ===== verification/Tasks.thy ===== *)
theory Tasks
  imports Prelude
begin

text \<open>
  Tasks and scopes of \<open>runtime/program_support.c\<close> (\<open>prismio_task_make\<close> to \<open>prismio_task_release\<close>):
  the handle with its reference count, the start on a thread of its own, the wait, and the scope that
  waits for all it started.  The code of the spawned functions is a parameter; what \<open>calloc\<close>,
  \<open>realloc\<close> and the thread library answer is an argument of each call.  A call that has to wait for a
  thread is \<open>Blocked\<close>, and is called again; one that reads or writes a freed handle is \<open>Touches_freed\<close>.
\<close>

subsection \<open>Definitions\<close>

definition PRISMIO_RK_INT :: int where "PRISMIO_RK_INT = 0"
definition PRISMIO_RK_PTR :: int where "PRISMIO_RK_PTR = 1"
definition PRISMIO_RK_VOID :: int where "PRISMIO_RK_VOID = 2"

record code =
  call_i :: "addr \<Rightarrow> addr list \<Rightarrow> int"
  call_p :: "addr \<Rightarrow> addr list \<Rightarrow> addr"

record PrismioTask =
  entry :: addr
  rkind :: int
  nargs :: int
  args :: "addr list"
  result_i :: int
  result_p :: addr
  joined :: bool
  started :: bool
  threaded :: bool
  refs :: int

text \<open>\<open>upto\<close> is how far the loop of \<open>prismio_scope_end\<close> has come.\<close>

record PrismioScope =
  members :: "addr list"
  scap :: nat
  upto :: nat

text \<open>\<open>running\<close> has the threads made and not yet over; \<open>runs\<close> counts how often the body of a task has run.\<close>

record tasks =
  blocks :: "addr \<rightharpoonup> PrismioTask"
  scopes :: "addr \<rightharpoonup> PrismioScope"
  threads_on :: bool
  running :: "addr set"
  runs :: "addr \<Rightarrow> nat"

datatype 'r outcome = Blocked tasks | Returns 'r tasks | Panics string | Touches_freed

fun then_do :: "'r outcome \<Rightarrow> ('r \<Rightarrow> tasks \<Rightarrow> 'q outcome) \<Rightarrow> 'q outcome" where
  "then_do (Returns r s) f = f r s"
| "then_do (Blocked s) f = Blocked s"
| "then_do (Panics e) f = Panics e"
| "then_do Touches_freed f = Touches_freed"

definition put_task :: "addr \<Rightarrow> PrismioTask \<Rightarrow> tasks \<Rightarrow> tasks" where
  "put_task t b s = s\<lparr>blocks := (blocks s)(t \<mapsto> b)\<rparr>"

definition prismio_task_start_failed :: "string \<Rightarrow> 'r outcome" where
  "prismio_task_start_failed reason = Panics (''panic: could not start a task: '' @ reason)"

definition prismio_task_invoke :: "code \<Rightarrow> PrismioTask \<Rightarrow> PrismioTask" where
  "prismio_task_invoke C b =
     (let xs = take (if nargs b = 0 then 0 else if nargs b = 1 then 1 else if nargs b = 2 then 2 else 3) (args b) in
      if rkind b = PRISMIO_RK_PTR then b\<lparr>result_p := call_p C (entry b) xs\<rparr>
      else if rkind b = PRISMIO_RK_VOID then b
      else b\<lparr>result_i := call_i C (entry b) xs\<rparr>)"

definition run_body :: "code \<Rightarrow> addr \<Rightarrow> PrismioTask \<Rightarrow> tasks \<Rightarrow> tasks" where
  "run_body C t b s = (put_task t (prismio_task_invoke C b) s)\<lparr>runs := (runs s)(t := runs s t + 1)\<rparr>"

text \<open>What the new thread does, up to its end.  Its arena set-up and clean-up are in the theory of arenas.\<close>

definition prismio_task_entry :: "code \<Rightarrow> addr \<Rightarrow> tasks \<Rightarrow> unit outcome" where
  "prismio_task_entry C t s =
     (case blocks s t of None \<Rightarrow> Touches_freed
      | Some b \<Rightarrow> Returns () ((run_body C t b s)\<lparr>running := running s - {t}\<rparr>))"

definition prismio_task_make :: "addr \<Rightarrow> addr \<Rightarrow> int \<Rightarrow> int \<Rightarrow> addr \<Rightarrow> addr \<Rightarrow> addr \<Rightarrow> tasks \<Rightarrow> addr outcome" where
  "prismio_task_make got fn rk n a0 a1 a2 s =
     (if got = 0 then prismio_task_start_failed ''out of memory''
      else Returns got ((put_task got \<lparr>entry = fn, rkind = rk, nargs = (if n < 0 then 0 else if n > 3 then 3 else n), args = [a0, a1, a2],
             result_i = 0, result_p = 0, joined = False, started = False, threaded = False, refs = 1\<rparr> s)\<lparr>runs := (runs s)(got := 0)\<rparr>))"

definition prismio_task_begin :: "string option \<Rightarrow> addr \<Rightarrow> tasks \<Rightarrow> int outcome" where
  "prismio_task_begin err t s =
     (case blocks s t of None \<Rightarrow> Touches_freed
      | Some b \<Rightarrow>
          if started b then Returns 0 s
          else let s = s\<lparr>threads_on := True\<rparr> in
               case err of Some e \<Rightarrow> prismio_task_start_failed e
               | None \<Rightarrow> Returns 1 ((put_task t (b\<lparr>started := True, threaded := True\<rparr>) s)\<lparr>running := insert t (running s)\<rparr>))"

definition prismio_task_spawn :: "addr \<Rightarrow> string option \<Rightarrow> addr \<Rightarrow> int \<Rightarrow> int \<Rightarrow> addr \<Rightarrow> addr \<Rightarrow> addr \<Rightarrow> tasks \<Rightarrow> addr outcome" where
  "prismio_task_spawn got err fn rk n a0 a1 a2 s =
     then_do (prismio_task_make got fn rk n a0 a1 a2 s) (\<lambda>t s. then_do (prismio_task_begin err t s) (\<lambda>_ s. Returns t s))"

definition prismio_future_new :: "addr \<Rightarrow> addr \<Rightarrow> int \<Rightarrow> int \<Rightarrow> addr \<Rightarrow> addr \<Rightarrow> addr \<Rightarrow> tasks \<Rightarrow> addr outcome" where
  "prismio_future_new got fn rk n a0 a1 a2 s = prismio_task_make got fn rk n a0 a1 a2 s"

definition prismio_task_await :: "code \<Rightarrow> addr \<Rightarrow> tasks \<Rightarrow> addr outcome" where
  "prismio_task_await C t s =
     (if t = 0 then Returns 0 s
      else case blocks s t of None \<Rightarrow> Touches_freed
      | Some b \<Rightarrow>
          if joined b then Returns t s
          else if \<not> started b
          then let b = b\<lparr>started := True\<rparr>; s = run_body C t b s
               in Returns t (put_task t ((prismio_task_invoke C b)\<lparr>joined := True\<rparr>) s)
          else if threaded b \<and> t \<in> running s then Blocked s
          else Returns t (put_task t (b\<lparr>joined := True\<rparr>) s))"

definition prismio_scope_new :: "addr \<Rightarrow> tasks \<Rightarrow> addr outcome" where
  "prismio_scope_new got s =
     (if got = 0 then prismio_task_start_failed ''out of memory''
      else Returns got (s\<lparr>scopes := (scopes s)(got \<mapsto> \<lparr>members = [], scap = 0, upto = 0\<rparr>)\<rparr>))"

definition prismio_scope_add :: "(nat \<Rightarrow> bool) \<Rightarrow> addr \<Rightarrow> addr \<Rightarrow> tasks \<Rightarrow> unit outcome" where
  "prismio_scope_add al sc t s =
     (case scopes s sc of None \<Rightarrow> Touches_freed
      | Some c \<Rightarrow>
          let full = length (members c) = scap c; cap = (if \<not> full then scap c else if scap c \<noteq> 0 then scap c * 2 else 4) in
          if full \<and> \<not> al (cap * 8) then prismio_task_start_failed ''out of memory''
          else case blocks s t of None \<Rightarrow> Touches_freed
          | Some b \<Rightarrow> Returns () ((put_task t (b\<lparr>refs := refs b + 1\<rparr>) s)
              \<lparr>scopes := (scopes s)(sc \<mapsto> c\<lparr>members := members c @ [t], scap := cap\<rparr>)\<rparr>))"

definition prismio_scope_spawn :: "(nat \<Rightarrow> bool) \<Rightarrow> addr \<Rightarrow> addr \<Rightarrow> string option \<Rightarrow> addr \<Rightarrow> int \<Rightarrow> int \<Rightarrow> addr \<Rightarrow> addr \<Rightarrow> addr \<Rightarrow> tasks \<Rightarrow> addr outcome" where
  "prismio_scope_spawn al sc got err fn rk n a0 a1 a2 s =
     then_do (prismio_task_make got fn rk n a0 a1 a2 s) (\<lambda>t s. then_do (prismio_task_begin err t s) (\<lambda>_ s.
       if sc \<noteq> 0 then then_do (prismio_scope_add al sc t s) (\<lambda>_ s. Returns t s) else Returns t s))"

definition prismio_task_start :: "(nat \<Rightarrow> bool) \<Rightarrow> addr \<Rightarrow> string option \<Rightarrow> addr \<Rightarrow> tasks \<Rightarrow> addr outcome" where
  "prismio_task_start al sc err t s =
     (if t = 0 then Returns 0 s
      else then_do (prismio_task_begin err t s) (\<lambda>begun s.
        if begun \<noteq> 0 \<and> sc \<noteq> 0 then then_do (prismio_scope_add al sc t s) (\<lambda>_ s. Returns t s) else Returns t s))"

definition prismio_task_release :: "addr \<Rightarrow> tasks \<Rightarrow> unit outcome" where
  "prismio_task_release t s =
     (if t = 0 then Returns () s
      else case blocks s t of None \<Rightarrow> Touches_freed
      | Some b \<Rightarrow> if refs b - 1 \<le> 0 then Returns () (s\<lparr>blocks := (blocks s)(t := None)\<rparr>)
                  else Returns () (put_task t (b\<lparr>refs := refs b - 1\<rparr>) s))"

fun end_loop :: "code \<Rightarrow> addr \<Rightarrow> PrismioScope \<Rightarrow> addr list \<Rightarrow> tasks \<Rightarrow> unit outcome" where
  "end_loop C sc c [] s = Returns () s"
| "end_loop C sc c (t # ts) s =
     then_do (prismio_task_await C t s) (\<lambda>_ s. then_do (prismio_task_release t s) (\<lambda>_ s.
       let c = c\<lparr>upto := upto c + 1\<rparr> in end_loop C sc c ts (s\<lparr>scopes := (scopes s)(sc \<mapsto> c)\<rparr>)))"

definition prismio_scope_end :: "code \<Rightarrow> addr \<Rightarrow> tasks \<Rightarrow> unit outcome" where
  "prismio_scope_end C sc s =
     (if sc = 0 then Returns () s
      else case scopes s sc of None \<Rightarrow> Touches_freed
      | Some c \<Rightarrow> then_do (end_loop C sc c (drop (upto c) (members c)) s) (\<lambda>_ s. Returns () (s\<lparr>scopes := (scopes s)(sc := None)\<rparr>)))"

definition prismio_task_join :: "code \<Rightarrow> addr \<Rightarrow> tasks \<Rightarrow> int outcome" where
  "prismio_task_join C h s = then_do (prismio_task_await C h s) (\<lambda>t s. Returns (if t \<noteq> 0 then result_i (the (blocks s t)) else 0) s)"

definition prismio_task_join_p :: "code \<Rightarrow> addr \<Rightarrow> tasks \<Rightarrow> addr outcome" where
  "prismio_task_join_p C h s = then_do (prismio_task_await C h s) (\<lambda>t s. Returns (if t \<noteq> 0 then result_p (the (blocks s t)) else 0) s)"

definition prismio_task_join_v :: "code \<Rightarrow> addr \<Rightarrow> tasks \<Rightarrow> unit outcome" where
  "prismio_task_join_v C h s = then_do (prismio_task_await C h s) (\<lambda>t s. Returns () s)"

subsection \<open>Programs\<close>

text \<open>A program of tasks: what it may do next, with the handles \<open>B\<close> its bindings own.  A binding gives its
  handle up only when the task is joined or a scope still holds it, which is what the compiler checks
  before it emits the release; an address given by \<open>calloc\<close> is of no live block.\<close>

definition held_by :: "PrismioScope \<Rightarrow> addr \<Rightarrow> nat" where
  "held_by c t = count_list (drop (upto c) (members c)) t"

definition holds :: "(addr \<rightharpoonup> PrismioScope) \<Rightarrow> addr \<Rightarrow> nat" where
  "holds S t = (\<Sum>sc \<in> dom S. held_by (the (S sc)) t)"

inductive step :: "code \<Rightarrow> tasks \<times> addr set \<Rightarrow> tasks \<times> addr set \<Rightarrow> bool" for C where
  step_spawn: "blocks s got = None \<Longrightarrow> prismio_task_spawn got err fn rk n a0 a1 a2 s = Returns t s' \<Longrightarrow> step C (s, B) (s', insert t B)"
| step_future: "blocks s got = None \<Longrightarrow> prismio_future_new got fn rk n a0 a1 a2 s = Returns t s' \<Longrightarrow> step C (s, B) (s', insert t B)"
| step_scope_new: "scopes s got = None \<Longrightarrow> prismio_scope_new got s = Returns sc s' \<Longrightarrow> step C (s, B) (s', B)"
| step_scope_spawn: "blocks s got = None \<Longrightarrow> sc = 0 \<or> sc \<in> dom (scopes s) \<Longrightarrow>
    prismio_scope_spawn al sc got err fn rk n a0 a1 a2 s = Returns t s' \<Longrightarrow> step C (s, B) (s', insert t B)"
| step_start: "t \<in> B \<Longrightarrow> sc = 0 \<or> sc \<in> dom (scopes s) \<Longrightarrow> prismio_task_start al sc err t s = Returns t' s' \<Longrightarrow> step C (s, B) (s', B)"
| step_join: "t \<in> B \<Longrightarrow> prismio_task_await C t s = Returns t' s' \<Longrightarrow> step C (s, B) (s', B)"
| step_release: "t \<in> B \<Longrightarrow> joined (the (blocks s t)) \<or> 0 < holds (scopes s) t \<Longrightarrow>
    prismio_task_release t s = Returns u s' \<Longrightarrow> step C (s, B) (s', B - {t})"
| step_scope_end: "sc \<in> dom (scopes s) \<Longrightarrow> prismio_scope_end C sc s = Returns u s' \<or> prismio_scope_end C sc s = Blocked s' \<Longrightarrow> step C (s, B) (s', B)"
| step_thread: "t \<in> running s \<Longrightarrow> prismio_task_entry C t s = Returns u s' \<Longrightarrow> step C (s, B) (s', B)"

definition no_tasks :: tasks where
  "no_tasks = \<lparr>blocks = Map.empty, scopes = Map.empty, threads_on = False, running = {}, runs = \<lambda>_. 0\<rparr>"

text \<open>What is true of one task, from its count of references \<open>k\<close>, the number of scopes that hold it \<open>h\<close>,
  whether its thread is running \<open>r\<close>, and how often its body ran \<open>n\<close>.\<close>

definition task_ok :: "code \<Rightarrow> nat \<Rightarrow> nat \<Rightarrow> bool \<Rightarrow> nat \<Rightarrow> PrismioTask \<Rightarrow> bool" where
  "task_ok C k h r n b \<longleftrightarrow> refs b = int k \<and> 0 < k \<and> 0 \<le> nargs b \<and> nargs b \<le> 3 \<and> (r \<longrightarrow> started b \<and> threaded b \<and> \<not> joined b) \<and> (joined b \<longrightarrow> started b)
     \<and> (0 < h \<longrightarrow> started b) \<and> n = (if started b \<and> \<not> r then 1 else 0) \<and> (started b \<and> \<not> r \<longrightarrow> prismio_task_invoke C b = b)"

definition tasks_ok :: "code \<Rightarrow> tasks \<times> addr set \<Rightarrow> bool" where
  "tasks_ok C x \<longleftrightarrow> (case x of (s, B) \<Rightarrow> blocks s 0 = None \<and> scopes s 0 = None \<and> finite (dom (scopes s))
     \<and> (\<forall>c \<in> ran (scopes s). upto c \<le> length (members c))
     \<and> (\<forall>t. case blocks s t of
              None \<Rightarrow> t \<notin> B \<and> t \<notin> running s \<and> holds (scopes s) t = 0
            | Some b \<Rightarrow> task_ok C ((if t \<in> B then 1 else 0) + holds (scopes s) t) (holds (scopes s) t) (t \<in> running s) (runs s t) b))"

lemma invoke_upd [simp]:
  "prismio_task_invoke C (prismio_task_invoke C b) = prismio_task_invoke C b"
  "prismio_task_invoke C (b\<lparr>joined := j\<rparr>) = (prismio_task_invoke C b)\<lparr>joined := j\<rparr>"
  "prismio_task_invoke C (b\<lparr>started := j\<rparr>) = (prismio_task_invoke C b)\<lparr>started := j\<rparr>"
  "prismio_task_invoke C (b\<lparr>refs := r\<rparr>) = (prismio_task_invoke C b)\<lparr>refs := r\<rparr>"
  by (simp_all add: prismio_task_invoke_def Let_def)

lemma invoke_fields [simp]:
  "joined (prismio_task_invoke C b) = joined b" "started (prismio_task_invoke C b) = started b"
  "threaded (prismio_task_invoke C b) = threaded b" "refs (prismio_task_invoke C b) = refs b"
  "nargs (prismio_task_invoke C b) = nargs b" "rkind (prismio_task_invoke C b) = rkind b"
  "entry (prismio_task_invoke C b) = entry b" "args (prismio_task_invoke C b) = args b"
  by (simp_all add: prismio_task_invoke_def Let_def)

lemma put_task_simps [simp]:
  "blocks (put_task t b s) = (blocks s)(t \<mapsto> b)" "scopes (put_task t b s) = scopes s"
  "running (put_task t b s) = running s" "runs (put_task t b s) = runs s"
  by (simp_all add: put_task_def)

lemma holds_new: "finite (dom S) \<Longrightarrow> S sc = None \<Longrightarrow> holds (S(sc \<mapsto> c')) t = holds S t + held_by c' t"
proof -
  assume f: "finite (dom S)" and n: "S sc = None"
  have "(\<Sum>x \<in> dom S. held_by (the ((S(sc \<mapsto> c')) x)) t) = holds S t"
    unfolding holds_def using n by (intro sum.cong) auto
  then show ?thesis using f n by (simp add: holds_def domIff)
qed

lemma holds_del: "finite (dom S) \<Longrightarrow> S sc = Some c \<Longrightarrow> holds (S(sc := None)) t + held_by c t = holds S t"
  using holds_new [of "S(sc := None)" sc c t] by (simp add: fun_upd_idem)

lemma holds_upd: "finite (dom S) \<Longrightarrow> S sc = Some c \<Longrightarrow> holds (S(sc \<mapsto> c')) t + held_by c t = holds S t + held_by c' t"
  using holds_new [of "S(sc := None)" sc c' t] holds_del [of S sc c t] by simp

definition here :: "code \<Rightarrow> tasks \<Rightarrow> addr set \<Rightarrow> addr \<Rightarrow> bool" where
  "here C s B t \<longleftrightarrow> (case blocks s t of
      None \<Rightarrow> t \<notin> B \<and> t \<notin> running s \<and> holds (scopes s) t = 0
    | Some b \<Rightarrow> task_ok C ((if t \<in> B then 1 else 0) + holds (scopes s) t) (holds (scopes s) t) (t \<in> running s) (runs s t) b)"

lemma tasks_ok_here: "tasks_ok C (s, B) \<longleftrightarrow> blocks s 0 = None \<and> scopes s 0 = None \<and> finite (dom (scopes s))
    \<and> (\<forall>c \<in> ran (scopes s). upto c \<le> length (members c)) \<and> (\<forall>t. here C s B t)"
  by (simp add: tasks_ok_def here_def)

lemma here_None: "blocks s t = None \<Longrightarrow> here C s B t \<longleftrightarrow> t \<notin> B \<and> t \<notin> running s \<and> holds (scopes s) t = 0"
  by (simp add: here_def)

lemma here_Some: "blocks s t = Some b \<Longrightarrow> here C s B t \<longleftrightarrow>
    task_ok C ((if t \<in> B then 1 else 0) + holds (scopes s) t) (holds (scopes s) t) (t \<in> running s) (runs s t) b"
  by (simp add: here_def)

lemma make_ok:
  assumes ok: "tasks_ok C (s, B)" and n: "blocks s got = None" and r: "prismio_task_make got fn rk n a0 a1 a2 s = Returns t s'"
  shows "t = got \<and> t \<noteq> 0 \<and> tasks_ok C (s', insert t B) \<and> scopes s' = scopes s \<and> blocks s' t \<noteq> None"
proof -
  have g: "got \<noteq> 0" "t = got" using r by (auto simp: prismio_task_make_def prismio_task_start_failed_def split: if_splits)
  have "here C s B got" using ok by (simp add: tasks_ok_here)
  then have h: "got \<notin> B" "got \<notin> running s" "holds (scopes s) got = 0" using n by (simp_all add: here_None)
  have "here C s' (insert got B) x" for x
  proof (cases "x = got")
    case True
    then show ?thesis using r g h by (auto simp: prismio_task_make_def here_def task_ok_def)
  next
    case False
    have "here C s B x" using ok by (simp add: tasks_ok_here)
    then show ?thesis using r g False by (auto simp: prismio_task_make_def here_def split: option.splits)
  qed
  then show ?thesis using ok r g by (auto simp: prismio_task_make_def tasks_ok_here)
qed

text \<open>Changing one live task, with everything else left.\<close>

lemma change_ok:
  assumes ok: "tasks_ok C (s, B)" and b: "blocks s t = Some b"
    and s': "blocks s' = (blocks s)(t \<mapsto> b')" "scopes s' = scopes s" "running s' - {t} = running s - {t}" "\<forall>x. x \<noteq> t \<longrightarrow> runs s' x = runs s x"
    and t: "task_ok C ((if t \<in> B then 1 else 0) + holds (scopes s) t) (holds (scopes s) t) (t \<in> running s') (runs s' t) b'"
  shows "tasks_ok C (s', B)"
proof -
  have "here C s' B x" for x
  proof (cases "x = t")
    case True
    then show ?thesis using t s' by (simp add: here_Some)
  next
    case False
    have r: "x \<in> running s' \<longleftrightarrow> x \<in> running s" using s'(3) False by blast
    have "here C s B x" using ok by (simp add: tasks_ok_here)
    then show ?thesis using s' r False by (cases "blocks s x") (simp_all add: here_def)
  qed
  moreover have "t \<noteq> 0" using ok b by (metis tasks_ok_here option.distinct(1))
  ultimately show ?thesis using ok s' by (simp add: tasks_ok_here)
qed

lemma live_ok: "tasks_ok C (s, B) \<Longrightarrow> blocks s t = Some b \<Longrightarrow>
    task_ok C ((if t \<in> B then 1 else 0) + holds (scopes s) t) (holds (scopes s) t) (t \<in> running s) (runs s t) b"
  by (simp add: tasks_ok_here here_Some [symmetric])

lemma begin_ok:
  assumes ok: "tasks_ok C (s, B)" and r: "prismio_task_begin err t s = Returns k s'"
  shows "tasks_ok C (s', B) \<and> scopes s' = scopes s \<and> (\<exists>b. blocks s' t = Some b \<and> started b)"
proof (cases "blocks s t")
  case None
  then show ?thesis using r by (simp add: prismio_task_begin_def)
next
  case (Some b)
  note T = live_ok [OF ok Some]
  show ?thesis
  proof (cases "started b")
    case True
    then show ?thesis using r ok Some by (simp add: prismio_task_begin_def)
  next
    case False
    then have s': "s' = (put_task t (b\<lparr>started := True, threaded := True\<rparr>) (s\<lparr>threads_on := True\<rparr>))\<lparr>running := insert t (running s)\<rparr>"
      using r Some by (auto simp: prismio_task_begin_def prismio_task_start_failed_def Let_def split: option.splits)
    have "tasks_ok C (s', B)" using T False by (intro change_ok [OF ok Some]) (auto simp: s' task_ok_def split: if_splits)
    then show ?thesis by (simp add: s')
  qed
qed

lemma await_ok:
  assumes ok: "tasks_ok C (s, B)" and r: "prismio_task_await C t s = Returns k s'"
  shows "tasks_ok C (s', B) \<and> scopes s' = scopes s \<and> k = t \<and> (t \<noteq> 0 \<longrightarrow> (\<exists>b. blocks s' t = Some b \<and> joined b))"
proof (cases "t = 0 \<or> blocks s t = None")
  case True
  then show ?thesis using r ok by (cases "t = 0") (auto simp: prismio_task_await_def)
next
  case False
  then obtain b where b: "blocks s t = Some b" "t \<noteq> 0" by auto
  note T = live_ok [OF ok b(1)]
  consider "joined b" | "\<not> joined b" "\<not> started b" | "\<not> joined b" "started b" "\<not> (threaded b \<and> t \<in> running s)"
    using r b by (auto simp: prismio_task_await_def split: if_splits)
  then show ?thesis
  proof cases
    case 1
    then show ?thesis using r ok b by (auto simp: prismio_task_await_def)
  next
    case 2
    let ?b = "b\<lparr>started := True\<rparr>"
    have s': "s' = put_task t ((prismio_task_invoke C ?b)\<lparr>joined := True\<rparr>) (run_body C t ?b s)" "k = t"
      using 2 r b by (auto simp: prismio_task_await_def Let_def)
    have "tasks_ok C (s', B)" using T 2 by (intro change_ok [OF ok b(1)]) (auto simp: s' run_body_def task_ok_def split: if_splits)
    then show ?thesis by (simp add: s' run_body_def)
  next
    case 3
    then have s': "s' = put_task t (b\<lparr>joined := True\<rparr>) s" "k = t" using r b by (auto simp: prismio_task_await_def)
    have "tasks_ok C (s', B)" using T 3 by (intro change_ok [OF ok b(1)]) (auto simp: s' task_ok_def)
    then show ?thesis by (simp add: s')
  qed
qed

lemma await_blocked: "prismio_task_await C t s = Blocked s' \<Longrightarrow> s' = s \<and> t \<in> running s"
  by (auto simp: prismio_task_await_def Let_def split: if_splits option.splits)

lemma thread_ok:
  assumes ok: "tasks_ok C (s, B)" and t: "t \<in> running s"
  shows "\<exists>s'. prismio_task_entry C t s = Returns () s' \<and> tasks_ok C (s', B)"
proof -
  have "here C s B t" using ok by (simp add: tasks_ok_here)
  then obtain b where b: "blocks s t = Some b" using t by (cases "blocks s t") (auto simp: here_None)
  note T = live_ok [OF ok b]
  have "tasks_ok C ((run_body C t b s)\<lparr>running := running s - {t}\<rparr>, B)"
    using T t by (intro change_ok [OF ok b]) (auto simp: run_body_def task_ok_def)
  then show ?thesis using b by (simp add: prismio_task_entry_def)
qed

lemma add_ok:
  assumes ok: "tasks_ok C (s, B)" and r: "prismio_scope_add al sc t s = Returns u s'" and b: "blocks s t = Some b" "started b"
  shows "tasks_ok C (s', B)"
proof -
  obtain c where c: "scopes s sc = Some c" using r by (auto simp: prismio_scope_add_def split: option.splits)
  define cap where "cap = (if length (members c) \<noteq> scap c then scap c else if scap c \<noteq> 0 then scap c * 2 else 4)"
  define c' where "c' = c\<lparr>members := members c @ [t], scap := cap\<rparr>"
  have s': "s' = (put_task t (b\<lparr>refs := refs b + 1\<rparr>) s)\<lparr>scopes := (scopes s)(sc \<mapsto> c')\<rparr>"
    using r unfolding prismio_scope_add_def c b(1) option.case Let_def cap_def [symmetric] c'_def
    by (auto simp: prismio_task_start_failed_def split: if_split_asm)
  have fin: "finite (dom (scopes s))" "upto c \<le> length (members c)" using ok c by (auto simp: tasks_ok_here ran_def)
  have h: "holds (scopes s') x = holds (scopes s) x + (if x = t then 1 else 0)" for x
    using holds_upd [OF fin(1) c, of c' x] fin(2) by (simp add: s' held_by_def c'_def)
  have "here C s' B x" for x
  proof (cases "x = t")
    case True
    then show ?thesis using live_ok [OF ok b(1)] b h [of t] by (auto simp: here_Some s' task_ok_def split: if_splits)
  next
    case False
    have "here C s B x" using ok by (simp add: tasks_ok_here)
    then show ?thesis using h [of x] False by (cases "blocks s x") (simp_all add: here_def s')
  qed
  moreover have "\<forall>c \<in> ran (scopes s'). upto c \<le> length (members c)"
    using ok fin by (auto simp: tasks_ok_here s' ran_def c'_def)
  moreover have "sc \<noteq> 0" "t \<noteq> 0" using ok c b by (metis tasks_ok_here option.distinct(1))+
  ultimately show ?thesis using ok fin by (simp add: tasks_ok_here s')
qed

text \<open>A reference given up: one of the bindings', or one of a scope's whose loop goes on.\<close>

lemma let_go_ok:
  assumes ok: "tasks_ok C (s, B)" and r: "prismio_task_release t s = Returns u s1" and b: "blocks s t = Some b"
    and s': "s' = s1\<lparr>scopes := S\<rparr>" and S: "S 0 = None" "finite (dom S)" "\<forall>c \<in> ran S. upto c \<le> length (members c)"
    and B': "\<forall>x. (if x \<in> B then 1 else 0) + holds (scopes s) x = (if x \<in> B' then 1 else 0) + holds S x + (if x = t then 1 else (0 :: nat))"
    and h: "0 < holds S t \<longrightarrow> 0 < holds (scopes s) t" and sub: "\<forall>x. x \<noteq> t \<longrightarrow> holds S x = holds (scopes s) x"
    and j: "joined b \<or> 0 < holds S t"
  shows "tasks_ok C (s', B')"
proof -
  note T = live_ok [OF ok b]
  have t0: "t \<noteq> 0" using ok b by (metis tasks_ok_here option.distinct(1))
  have s1: "s1 = (if refs b - 1 \<le> 0 then s\<lparr>blocks := (blocks s)(t := None)\<rparr> else put_task t (b\<lparr>refs := refs b - 1\<rparr>) s)"
    using r b t0 by (auto simp: prismio_task_release_def split: if_splits)
  have "here C s' B' x" for x
  proof (cases "x = t")
    case True
    have k: "refs b = int ((if t \<in> B' then 1 else 0) + holds S t) + 1" using T B' [rule_format, of t] by (auto simp: task_ok_def split: if_splits)
    show ?thesis
    proof (cases "refs b - 1 \<le> 0")
      case gone: True
      then have "t \<notin> B'" "holds S t = 0" using k by (auto split: if_splits)
      moreover have "t \<notin> running s" using j T calculation(2) by (simp add: task_ok_def)
      ultimately show ?thesis using True gone by (simp add: here_def s' s1)
    next
      case kept: False
      then have "task_ok C ((if t \<in> B' then 1 else 0) + holds S t) (holds S t) (t \<in> running s) (runs s t) (b\<lparr>refs := refs b - 1\<rparr>)"
        using k T h unfolding task_ok_def by (auto split: if_splits)
      then show ?thesis using True kept by (simp add: here_def s' s1)
    qed
  next
    case False
    have "here C s B x" using ok by (simp add: tasks_ok_here)
    moreover have "x \<in> B' \<longleftrightarrow> x \<in> B" using B' [rule_format, of x] sub [rule_format, of x] False by (auto split: if_splits)
    ultimately show ?thesis using False sub by (cases "blocks s x") (simp_all add: here_def s' s1)
  qed
  then show ?thesis using ok S t0 by (simp add: tasks_ok_here s' s1)
qed

lemma await_live:
  assumes "tasks_ok C (s, B)" "blocks s t = Some b"
  shows "(\<exists>s'. prismio_task_await C t s = Returns t s') \<or> prismio_task_await C t s = Blocked s \<and> t \<in> running s"
  using assms by (auto simp: prismio_task_await_def Let_def tasks_ok_here)

lemma release_live: "blocks s t = Some b \<Longrightarrow> \<exists>s'. prismio_task_release t s = Returns () s' \<and> scopes s' = scopes s \<and> running s' = running s"
  by (simp add: prismio_task_release_def)

text \<open>One turn of the loop of \<open>prismio_scope_end\<close>.\<close>

lemma turn_ok:
  assumes ok: "tasks_ok C (s, B)" and c: "scopes s sc = Some c" and d: "drop (upto c) (members c) = t # ts"
    and a: "prismio_task_await C t s = Returns k s1" and r: "prismio_task_release t s1 = Returns u s2"
  shows "tasks_ok C (s2\<lparr>scopes := (scopes s2)(sc \<mapsto> c\<lparr>upto := upto c + 1\<rparr>)\<rparr>, B)"
proof -
  let ?c = "c\<lparr>upto := upto c + 1\<rparr>"
  have fin: "finite (dom (scopes s))" using ok by (simp add: tasks_ok_here)
  have "drop (upto c + 1) (members c) = ts" using d by (metis Suc_eq_plus1 drop_Suc tl_drop list.sel(3))
  then have cnt: "held_by c x = held_by ?c x + (if x = t then 1 else 0)" for x by (simp add: held_by_def d)
  have h: "holds (scopes s) x = holds ((scopes s)(sc \<mapsto> ?c)) x + (if x = t then 1 else 0)" for x
    using holds_upd [OF fin c, of ?c x] cnt [of x] by simp
  have ht: "0 < holds (scopes s) t" using h [of t] by simp
  have "here C s B t" using ok by (simp add: tasks_ok_here)
  then obtain b0 where b0: "blocks s t = Some b0" using ht by (cases "blocks s t") (simp_all add: here_None)
  then have t0: "t \<noteq> 0" using ok by (metis tasks_ok_here option.distinct(1))
  note A = await_ok [OF ok a]
  then obtain b where b: "blocks s1 t = Some b" "joined b" using t0 by auto
  have s2: "scopes s2 = scopes s" using release_live [OF b(1)] r A by auto
  have len: "upto c < length (members c)" using d by (metis drop_eq_Nil list.distinct(1) not_le)
  have "\<forall>c \<in> ran ((scopes s)(sc \<mapsto> ?c)). upto c \<le> length (members c)"
    using ok len by (auto simp: tasks_ok_here ran_def)
  moreover have "((scopes s)(sc \<mapsto> ?c)) 0 = None" using ok c by (cases "sc = 0") (simp_all add: tasks_ok_here)
  ultimately show ?thesis
    using A b(2) h fin ht s2 by (intro let_go_ok [OF conjunct1 [OF A] r b(1)]) (auto simp: s2)
qed

lemma await_running: "prismio_task_await C t s = Returns k s' \<Longrightarrow> running s' = running s"
  by (auto simp: prismio_task_await_def Let_def run_body_def split: if_split_asm option.split_asm)

lemma release_running: "prismio_task_release t s = Returns u s' \<Longrightarrow> running s' = running s"
  by (auto simp: prismio_task_release_def split: if_split_asm option.split_asm)

lemma end_loop_running: "end_loop C sc c ts s = Returns u s' \<or> end_loop C sc c ts s = Blocked s' \<Longrightarrow> running s' = running s"
proof (induction ts arbitrary: s c)
  case (Cons t ts)
  show ?case
  proof (cases "prismio_task_await C t s")
    case (Returns k s1)
    note a = Returns
    then show ?thesis
    proof (cases "prismio_task_release t s1")
      case (Returns v s2)
      have "running s2 = running s" using await_running [OF a] release_running [OF Returns] by simp
      then show ?thesis using Cons.IH Cons.prems a Returns by (fastforce simp: Let_def)
    qed (use Cons.prems in \<open>auto simp: prismio_task_release_def split: if_split_asm option.split_asm\<close>)
  qed (use Cons.prems await_blocked in auto)
qed simp

lemma end_loop_ok:
  assumes "tasks_ok C (s, B)" "scopes s sc = Some c" "drop (upto c) (members c) = ts"
  shows "case end_loop C sc c ts s of
      Returns u s' \<Rightarrow> tasks_ok C (s', B) \<and> (\<exists>c'. scopes s' sc = Some c' \<and> drop (upto c') (members c') = []) \<and> set ts \<inter> running s' = {}
    | Blocked s' \<Rightarrow> tasks_ok C (s', B) \<and> (\<exists>t \<in> set ts. t \<in> running s')
    | _ \<Rightarrow> False"
  using assms
proof (induction ts arbitrary: s c)
  case Nil
  then show ?case by auto
next
  case (Cons t ts)
  have fin: "finite (dom (scopes s))" using Cons.prems(1) by (simp add: tasks_ok_here)
  have "held_by c t > 0" using Cons.prems(3) by (simp add: held_by_def)
  then have "0 < holds (scopes s) t"
    using holds_del [OF fin Cons.prems(2), of t] by simp
  moreover have "here C s B t" using Cons.prems(1) by (simp add: tasks_ok_here)
  ultimately obtain b where b: "blocks s t = Some b" by (cases "blocks s t") (simp_all add: here_None)
  have t0: "t \<noteq> 0" using b Cons.prems(1) by (metis tasks_ok_here option.distinct(1))
  consider s1 where "prismio_task_await C t s = Returns t s1" | "prismio_task_await C t s = Blocked s" "t \<in> running s"
    using await_live [OF Cons.prems(1) b] by blast
  then show ?case
  proof cases
    case 2
    then show ?thesis using Cons.prems(1) by simp
  next
    case 1
    note A = await_ok [OF Cons.prems(1) 1]
    then obtain b1 where b1: "blocks s1 t = Some b1" "joined b1" using t0 by auto
    then have nr: "t \<notin> running s1" using live_ok [OF conjunct1 [OF A] b1(1)] by (auto simp: task_ok_def)
    obtain s2 where s2: "prismio_task_release t s1 = Returns () s2" "scopes s2 = scopes s1" "running s2 = running s1"
      using release_live [OF b1(1)] by blast
    let ?c = "c\<lparr>upto := upto c + 1\<rparr>" and ?s = "s2\<lparr>scopes := (scopes s2)(sc \<mapsto> c\<lparr>upto := upto c + 1\<rparr>)\<rparr>"
    have T: "tasks_ok C (?s, B)" by (rule turn_ok [OF Cons.prems 1 s2(1)])
    have "drop (upto ?c) (members ?c) = ts" using Cons.prems(3) by (simp, metis drop_Suc tl_drop list.sel(3))
    from Cons.IH [OF T _ this] have IH: "case end_loop C sc ?c ts ?s of
      Returns u s' \<Rightarrow> tasks_ok C (s', B) \<and> (\<exists>c'. scopes s' sc = Some c' \<and> drop (upto c') (members c') = []) \<and> set ts \<inter> running s' = {}
    | Blocked s' \<Rightarrow> tasks_ok C (s', B) \<and> (\<exists>t \<in> set ts. t \<in> running s') | _ \<Rightarrow> False" by simp
    have e: "end_loop C sc c (t # ts) s = end_loop C sc ?c ts ?s" using 1 s2(1) by (simp add: Let_def)
    have run: "end_loop C sc ?c ts ?s = Returns u s' \<Longrightarrow> t \<notin> running s'" for u s'
      using end_loop_running [of C sc ?c ts ?s u s'] nr s2(3) by simp
    show ?thesis
    proof (cases "end_loop C sc ?c ts ?s")
      case (Returns u s')
      then show ?thesis using IH run [OF Returns] unfolding e by simp
    next
      case (Blocked s')
      then show ?thesis using IH unfolding e by simp
    qed (use IH in simp_all)
  qed
qed

lemma bound_live: "tasks_ok C (s, B) \<Longrightarrow> t \<in> B \<or> t \<in> running s \<or> 0 < holds (scopes s) t \<Longrightarrow> \<exists>b. blocks s t = Some b"
  by (cases "blocks s t") (auto simp: tasks_ok_here here_def dest!: spec [where x = t])

lemma scope_new_ok:
  assumes ok: "tasks_ok C (s, B)" and n: "scopes s got = None" and r: "prismio_scope_new got s = Returns sc s'"
  shows "tasks_ok C (s', B)"
proof -
  let ?S = "(scopes s)(got \<mapsto> \<lparr>members = [], scap = 0, upto = 0\<rparr>)"
  have s': "s' = s\<lparr>scopes := ?S\<rparr>" "got \<noteq> 0" using r by (auto simp: prismio_scope_new_def prismio_task_start_failed_def split: if_splits)
  have "finite (dom (scopes s))" using ok by (simp add: tasks_ok_here)
  then have h: "holds ?S x = holds (scopes s) x" for x using holds_new [where S = "scopes s", OF _ n] by (simp add: held_by_def)
  have "here C s' B x" for x
  proof -
    have "here C s B x" using ok by (simp add: tasks_ok_here)
    then show ?thesis by (cases "blocks s x") (simp_all add: here_def s' h)
  qed
  then show ?thesis using ok s' by (auto simp: tasks_ok_here ran_def)
qed

lemma scope_gone_ok:
  assumes ok: "tasks_ok C (s, B)" and c: "scopes s sc = Some c" "drop (upto c) (members c) = []"
  shows "tasks_ok C (s\<lparr>scopes := (scopes s)(sc := None)\<rparr>, B)"
proof -
  have "finite (dom (scopes s))" using ok by (simp add: tasks_ok_here)
  then have h: "holds ((scopes s)(sc := None)) x = holds (scopes s) x" for x using holds_del [where S = "scopes s", OF _ c(1)] c(2) by (simp add: held_by_def)
  have "here C (s\<lparr>scopes := (scopes s)(sc := None)\<rparr>) B x" for x
  proof -
    have "here C s B x" using ok by (simp add: tasks_ok_here)
    then show ?thesis by (cases "blocks s x") (simp_all add: here_def h)
  qed
  then show ?thesis using ok by (auto simp: tasks_ok_here ran_def)
qed

lemma scope_end_ok:
  assumes ok: "tasks_ok C (s, B)" and c: "scopes s sc = Some c"
  shows "case prismio_scope_end C sc s of
      Returns u s' \<Rightarrow> tasks_ok C (s', B) \<and> set (drop (upto c) (members c)) \<inter> running s = {} \<and> scopes s' sc = None \<and> running s' = running s
    | Blocked s' \<Rightarrow> tasks_ok C (s', B) \<and> set (drop (upto c) (members c)) \<inter> running s' \<noteq> {} \<and> running s' = running s
    | _ \<Rightarrow> False"
proof -
  have sc: "sc \<noteq> 0" using ok c by (metis tasks_ok_here option.distinct(1))
  note L = end_loop_ok [OF ok c refl]
  show ?thesis
  proof (cases "end_loop C sc c (drop (upto c) (members c)) s")
    case (Returns u s')
    then obtain c' where "scopes s' sc = Some c'" "drop (upto c') (members c') = []" "tasks_ok C (s', B)"
      "set (drop (upto c) (members c)) \<inter> running s' = {}" using L by auto
    then show ?thesis using Returns sc c scope_gone_ok end_loop_running [OF disjI1, OF Returns] by (auto simp: prismio_scope_end_def)
  next
    case (Blocked s')
    then show ?thesis using L sc c end_loop_running [OF disjI2, OF Blocked] by (auto simp: prismio_scope_end_def)
  qed (use L in auto)
qed

lemma then_do_Returns: "then_do x f = Returns r s' \<longleftrightarrow> (\<exists>q s. x = Returns q s \<and> f q s = Returns r s')"
  by (cases x) auto

lemma spawn_ok:
  assumes ok: "tasks_ok C (s, B)" and n: "blocks s got = None" and r: "prismio_scope_spawn al sc got err fn rk n' x y z s = Returns t s'"
  shows "tasks_ok C (s', insert t B)"
proof -
  from r obtain t1 s1 k s2 where m: "prismio_task_make got fn rk n' x y z s = Returns t1 s1" "prismio_task_begin err t1 s1 = Returns k s2"
    "sc = 0 \<longrightarrow> t = t1 \<and> s' = s2" "sc \<noteq> 0 \<longrightarrow> t = t1 \<and> (\<exists>u. prismio_scope_add al sc t1 s2 = Returns u s')"
    by (auto simp: prismio_scope_spawn_def then_do_Returns split: if_split_asm)
  note M = make_ok [OF ok n m(1)]
  have "tasks_ok C (s1, insert t1 B)" using M by blast
  note Bg = begin_ok [OF this m(2)]
  then obtain b where "blocks s2 t1 = Some b" "started b" by auto
  then show ?thesis using m Bg add_ok [of C s2 "insert t1 B" al sc t1 _ s'] by (cases "sc = 0") auto
qed

lemma start_ok:
  assumes ok: "tasks_ok C (s, B)" and r: "prismio_task_start al sc err t s = Returns t' s'"
  shows "tasks_ok C (s', B)"
proof (cases "t = 0")
  case True
  then show ?thesis using r ok by (simp add: prismio_task_start_def)
next
  case False
  with r obtain k s1 where m: "prismio_task_begin err t s = Returns k s1" "s' = s1 \<or> (\<exists>u. prismio_scope_add al sc t s1 = Returns u s')"
    by (auto simp: prismio_task_start_def then_do_Returns split: if_split_asm)
  note Bg = begin_ok [OF ok m(1)]
  then obtain b where "blocks s1 t = Some b" "started b" by auto
  then show ?thesis using m Bg add_ok [of C s1 B al sc t _ s'] by auto
qed

lemma release_ok:
  assumes ok: "tasks_ok C (s, B)" and t: "t \<in> B" "joined (the (blocks s t)) \<or> 0 < holds (scopes s) t" and r: "prismio_task_release t s = Returns u s'"
  shows "tasks_ok C (s', B - {t})"
proof -
  obtain b where b: "blocks s t = Some b" using bound_live [OF ok] t(1) by blast
  have s: "s' = s'\<lparr>scopes := scopes s\<rparr>" using release_live [OF b] r by auto
  show ?thesis using ok t b by (intro let_go_ok [OF ok r b s]) (auto simp: tasks_ok_here)
qed

lemma task_step_ok: "step C x y \<Longrightarrow> tasks_ok C x \<Longrightarrow> tasks_ok C y"
proof (induction rule: step.induct)
  case (step_spawn s got err fn rk n a0 a1 a2 t s' B)
  then have "prismio_scope_spawn (\<lambda>_. True) 0 got err fn rk n a0 a1 a2 s = Returns t s'"
    by (simp add: prismio_task_spawn_def prismio_scope_spawn_def)
  then show ?case using spawn_ok step_spawn by blast
next
  case (step_future s got fn rk n a0 a1 a2 t s' B)
  then show ?case using make_ok unfolding prismio_future_new_def by blast
next
  case (step_scope_new s got sc s' B)
  then show ?case using scope_new_ok by blast
next
  case (step_scope_spawn s got sc al err fn rk n a0 a1 a2 t s' B)
  then show ?case using spawn_ok by blast
next
  case (step_start t B sc s al err t' s')
  then show ?case using start_ok by blast
next
  case (step_join t B s t' s')
  then show ?case using await_ok by blast
next
  case (step_release t B s u s')
  then show ?case using release_ok by blast
next
  case (step_scope_end sc s u s' B)
  then obtain c where "scopes s sc = Some c" by auto
  from scope_end_ok [OF step_scope_end.prems this] show ?case using step_scope_end.hyps(2) by auto
next
  case (step_thread t s u s' B)
  then show ?case using thread_ok by force
qed

lemma program_ok: "(step C)\<^sup>*\<^sup>* (no_tasks, {}) x \<Longrightarrow> tasks_ok C x"
  by (induction rule: rtranclp_induct) (auto simp: task_step_ok tasks_ok_here here_def no_tasks_def holds_def)

subsection \<open>Properties\<close>

text \<open>C27. A handle is freed when the last of its owners, bindings and scopes in whatever order, lets go of it, and not
  before its thread is over: in every run of a program that gives a handle up only once it is joined
  or while a scope holds it, no thread writes its result into a freed handle, and no join, start, release or
  scope end reads one.\<close>

theorem tasks_never_touch_freed:
  assumes "(step C)\<^sup>*\<^sup>* (no_tasks, {}) (s, B)"
  shows "(\<forall>t \<in> running s. prismio_task_entry C t s \<noteq> Touches_freed)
    \<and> (\<forall>t \<in> B. prismio_task_await C t s \<noteq> Touches_freed \<and> prismio_task_release t s \<noteq> Touches_freed \<and> prismio_task_begin err t s \<noteq> Touches_freed)
    \<and> (\<forall>sc \<in> dom (scopes s). prismio_scope_end C sc s \<noteq> Touches_freed)"
proof -
  note ok = program_ok [OF assms]
  have "prismio_task_entry C t s \<noteq> Touches_freed" if "t \<in> running s" for t using thread_ok [OF ok that] by auto
  moreover have "prismio_task_await C t s \<noteq> Touches_freed \<and> prismio_task_release t s \<noteq> Touches_freed \<and> prismio_task_begin err t s \<noteq> Touches_freed"
    if tB: "t \<in> B" for t
  proof -
    obtain b where b: "blocks s t = Some b" using bound_live [OF ok, of t] tB by blast
    show ?thesis using await_live [OF ok b] release_live [OF b] b
      by (auto simp: prismio_task_begin_def prismio_task_start_failed_def Let_def split: option.splits)
  qed
  moreover have "prismio_scope_end C sc s \<noteq> Touches_freed" if "sc \<in> dom (scopes s)" for sc
    using scope_end_ok [OF ok, of sc] that by (auto split: outcome.splits)
  ultimately show ?thesis by blast
qed

text \<open>What a spawned function is called with, and what it gives.\<close>

definition arguments :: "PrismioTask \<Rightarrow> addr list" where
  "arguments b = take (nat (nargs b)) (args b)"

text \<open>Wherever it is run, on a thread of its own or on the thread that awaits it, the body of a task runs
  exactly once, with the arguments it was made with, however often the task is started and joined:
  every join that returns answers with what the function of its kind gave.\<close>

theorem join_gives_result:
  assumes "(step C)\<^sup>*\<^sup>* (no_tasks, {}) (s, B)" and "t \<in> B" and "prismio_task_await C t s = Returns h s'"
  shows "h = t \<and> runs s' t = 1 \<and> (let b = the (blocks s t) in
      (rkind b = PRISMIO_RK_PTR \<longrightarrow> prismio_task_join_p C t s = Returns (call_p C (entry b) (arguments b)) s')
    \<and> (rkind b = PRISMIO_RK_INT \<longrightarrow> prismio_task_join C t s = Returns (call_i C (entry b) (arguments b)) s'))"
proof -
  note ok = program_ok [OF assms(1)]
  obtain b where b: "blocks s t = Some b" using bound_live [OF ok] assms(2) by blast
  have t0: "t \<noteq> 0" using ok b by (metis tasks_ok_here option.distinct(1))
  note A = await_ok [OF ok assms(3)]
  then obtain b' where b': "blocks s' t = Some b'" "joined b'" using t0 by auto
  note T = live_ok [OF ok b] and T' = live_ok [OF conjunct1 [OF A] b'(1)]
  have f: "entry b' = entry b" "args b' = args b" "nargs b' = nargs b" "rkind b' = rkind b"
    using assms(3) b b' t0 by (auto simp: prismio_task_await_def Let_def run_body_def split: if_splits)
  have inv: "prismio_task_invoke C b' = b'" "runs s' t = 1" using T' b'(2) by (auto simp: task_ok_def)
  have n: "nargs b = 0 \<or> nargs b = 1 \<or> nargs b = 2 \<or> nargs b = 3" using T by (auto simp: task_ok_def)
  then have a: "take (if nargs b' = 0 then 0 else if nargs b' = 1 then 1 else if nargs b' = 2 then 2 else 3) (args b') = arguments b"
    by (auto simp: arguments_def f)
  have "rkind b = PRISMIO_RK_PTR \<Longrightarrow> result_p b' = call_p C (entry b) (arguments b)"
    using arg_cong [OF inv(1), of result_p] by (simp only: prismio_task_invoke_def Let_def a) (simp add: f)
  moreover have "rkind b = PRISMIO_RK_INT \<Longrightarrow> result_i b' = call_i C (entry b) (arguments b)"
    using arg_cong [OF inv(1), of result_i] by (simp only: prismio_task_invoke_def Let_def a)
      (simp add: f PRISMIO_RK_INT_def PRISMIO_RK_PTR_def PRISMIO_RK_VOID_def)
  ultimately show ?thesis using assms(3) A b b' inv t0 by (simp add: prismio_task_join_p_def prismio_task_join_def)
qed

text \<open>C28. The end of a scope waits for its tasks and for nothing else: it returns exactly when no thread of a task it still
  holds is running, and then the scope and its references are gone; it never panics.\<close>

theorem scope_end_waits:
  assumes "(step C)\<^sup>*\<^sup>* (no_tasks, {}) (s, B)" and "scopes s sc = Some c"
  shows "if set (drop (upto c) (members c)) \<inter> running s = {}
    then (\<exists>s'. prismio_scope_end C sc s = Returns () s' \<and> scopes s' sc = None)
    else (\<exists>s'. prismio_scope_end C sc s = Blocked s' \<and> set (drop (upto c) (members c)) \<inter> running s' \<noteq> {})"
  using scope_end_ok [OF program_ok [OF assms(1)] assms(2)] by (cases "prismio_scope_end C sc s") auto

text \<open>A scope starts a task at 16, whose binding goes away first; the scope's end waits for it.  A second task is a
  future, awaited by its binding.\<close>

definition doubling :: code where
  "doubling = \<lparr>call_i = \<lambda>f xs. 2 * int (xs ! 0), call_p = \<lambda>f xs. 0\<rparr>"

definition spawned :: PrismioTask where
  "spawned = \<lparr>entry = 4096, rkind = 0, nargs = 1, args = [21, 0, 0], result_i = 0, result_p = 0, joined = False, started = True, threaded = True, refs = 1\<rparr>"

definition scope_open :: tasks where
  "scope_open = \<lparr>blocks = [16 \<mapsto> spawned], scopes = [64 \<mapsto> \<lparr>members = [16], scap = 4, upto = 0\<rparr>],
     threads_on = True, running = {16}, runs = \<lambda>_. 0\<rparr>"

definition future_made :: tasks where
  "future_made = \<lparr>blocks = [8 \<mapsto> spawned\<lparr>started := False, threaded := False\<rparr>], scopes = Map.empty, threads_on = False, running = {}, runs = \<lambda>_. 0\<rparr>"

lemma future_reached: "(step doubling)\<^sup>*\<^sup>* (no_tasks, {}) (future_made, {8})"
proof -
  have "prismio_future_new 8 4096 0 1 21 0 0 no_tasks = Returns 8 future_made"
    by (simp add: prismio_future_new_def prismio_task_make_def no_tasks_def future_made_def put_task_def spawned_def fun_eq_iff)
  then have "step doubling (no_tasks, {}) (future_made, insert 8 {})" by (intro step_future) (simp add: no_tasks_def)
  then show ?thesis by simp
qed

lemma scope_reached: "(step doubling)\<^sup>*\<^sup>* (no_tasks, {}) (scope_open, {})"
proof -
  let ?s1 = "no_tasks\<lparr>scopes := [64 \<mapsto> \<lparr>members = [], scap = 0, upto = 0\<rparr>]\<rparr>"
  let ?s2 = "scope_open\<lparr>blocks := [16 \<mapsto> spawned\<lparr>refs := 2\<rparr>]\<rparr>"
  have 1: "step doubling (no_tasks, {}) (?s1, {})"
    by (rule step_scope_new [of _ 64 64]) (simp_all add: no_tasks_def prismio_scope_new_def)
  have 2: "step doubling (?s1, {}) (?s2, insert 16 {})"
    by (rule step_scope_spawn [of _ 16 64 "\<lambda>_. True" None 4096 0 1 21 0 0])
      (simp_all add: no_tasks_def scope_open_def spawned_def prismio_scope_spawn_def prismio_task_make_def prismio_task_begin_def
        prismio_scope_add_def put_task_def Let_def fun_eq_iff)
  have 3: "step doubling (?s2, {16}) (scope_open, {16} - {16})"
    by (rule step_release [where u = "()"]) (simp_all add: scope_open_def spawned_def holds_def held_by_def prismio_task_release_def put_task_def)
  show ?thesis
    using rtranclp.rtrancl_into_rtrancl [OF rtranclp.rtrancl_into_rtrancl [OF r_into_rtranclp [of "step doubling", OF 1] 2] 3 [simplified]] by simp
qed

theorem tasks_never_touch_freed_witness:
  "prismio_task_entry doubling 16 scope_open \<noteq> Touches_freed \<and> prismio_scope_end doubling 64 scope_open \<noteq> Touches_freed"
  using tasks_never_touch_freed [OF scope_reached] by (simp add: scope_open_def)

theorem join_gives_result_witness: "\<exists>s'. prismio_task_join doubling 8 future_made = Returns 42 s' \<and> runs s' 8 = 1"
proof -
  obtain s' where a: "prismio_task_await doubling 8 future_made = Returns 8 s'"
    by (simp add: prismio_task_await_def future_made_def spawned_def Let_def)
  from join_gives_result [OF future_reached _ a] show ?thesis
    by (simp add: future_made_def spawned_def PRISMIO_RK_INT_def PRISMIO_RK_PTR_def doubling_def arguments_def)
qed

theorem scope_end_waits_witness: "\<exists>s'. prismio_scope_end doubling 64 scope_open = Blocked s' \<and> 16 \<in> running s'"
  using scope_end_waits [OF scope_reached, of 64 "\<lparr>members = [16], scap = 4, upto = 0\<rparr>"]
  by (simp add: scope_open_def)

end
