(* ===== verification/Spawn_Quote.thy ===== *)
theory Spawn_Quote
  imports Prelude
begin

text \<open>
  Command lines and argument vectors of \<open>runtime/program_support.c\<close>: \<open>command_quote_arg\<close> for a shell
  line, the builder of a spawn (\<open>spawn_builder_reset\<close> to \<open>spawn_vector\<close>), and the Windows command line
  (\<open>spawn_quote_into\<close>, \<open>spawn_command_line\<close>).  A C string is the list of its bytes before the NUL.
  The programs that read these lines are not part of the repository: they are functions that the
  properties assume to follow the documented rules, given as relations.
\<close>

subsection \<open>Definitions\<close>

text \<open>The loop over the bytes with \<open>slashes\<close> backslashes counted and not yet written.\<close>

fun quote_loop :: "nat \<Rightarrow> byte list \<Rightarrow> byte list" where
  "quote_loop slashes [] = replicate (slashes * 2) 92"
| "quote_loop slashes (c # cs) =
     (if c = 92 then quote_loop (slashes + 1) cs
      else replicate (if c = 34 then slashes * 2 + 1 else slashes) 92 @ c # quote_loop 0 cs)"

fun shell_loop :: "byte list \<Rightarrow> byte list" where
  "shell_loop [] = []"
| "shell_loop (c # cs) = (if c = 34 \<or> c = 92 \<or> c = 36 \<or> c = 96 then [92] else []) @ c # shell_loop cs"

text \<open>The length is an \<open>int\<close>; a refused block is written through untested.\<close>

definition command_quote_arg :: "bool \<Rightarrow> (nat \<Rightarrow> bool) \<Rightarrow> byte list \<Rightarrow> rt_error + byte list" where
  "command_quote_arg windows al arg =
     (let n = i32 (int (length arg)) in
      if \<not> al (u64 (i32 (i32 (n * 2) + 3))) then Inl Null_store
      else let cs = take (nat n) arg in
           Inr ([34] @ (if windows then quote_loop 0 cs else shell_loop cs) @ [34]))"

record builder =
  g_spawn_program :: "byte list option"
  g_spawn_argv :: "byte list list"
  g_spawn_cap :: nat

definition spawn_builder_reset :: builder where
  "spawn_builder_reset = \<lparr>g_spawn_program = None, g_spawn_argv = [], g_spawn_cap = 0\<rparr>"

definition spawn_dup :: "(nat \<Rightarrow> bool) \<Rightarrow> byte list \<Rightarrow> byte list option" where
  "spawn_dup al text = (if al (length text + 1) then Some text else None)"

definition proc_spawn_begin :: "(nat \<Rightarrow> bool) \<Rightarrow> byte list option \<Rightarrow> builder" where
  "proc_spawn_begin al program =
     spawn_builder_reset\<lparr>g_spawn_program := spawn_dup al (case program of Some p \<Rightarrow> p | None \<Rightarrow> [])\<rparr>"

definition proc_spawn_arg :: "(nat \<Rightarrow> bool) \<Rightarrow> byte list option \<Rightarrow> builder \<Rightarrow> builder" where
  "proc_spawn_arg al argument b =
     (case argument of None \<Rightarrow> b
      | Some text \<Rightarrow>
          let full = length (g_spawn_argv b) = g_spawn_cap b;
              grown = (if g_spawn_cap b \<noteq> 0 then g_spawn_cap b * 2 else 8)
          in if full \<and> \<not> al (grown * 8) then b
             else let b = (if full then b\<lparr>g_spawn_cap := grown\<rparr> else b) in
                  case spawn_dup al text of None \<Rightarrow> b
                  | Some copy \<Rightarrow> b\<lparr>g_spawn_argv := g_spawn_argv b @ [copy]\<rparr>)"

text \<open>The vector ends in a null, here \<open>None\<close>.\<close>

definition spawn_vector :: "(nat \<Rightarrow> bool) \<Rightarrow> builder \<Rightarrow> byte list option list option" where
  "spawn_vector al b =
     (if \<not> al ((length (g_spawn_argv b) + 2) * 8) then None
      else Some ([Some (case g_spawn_program b of Some p \<Rightarrow> p | None \<Rightarrow> [])] @ map Some (g_spawn_argv b) @ [None]))"

definition needs_quoting :: "byte \<Rightarrow> bool" where
  "needs_quoting c \<longleftrightarrow> c = 32 \<or> c = 9 \<or> c = 10 \<or> c = 11 \<or> c = 34"

definition spawn_quote_into :: "byte list \<Rightarrow> byte list \<Rightarrow> byte list" where
  "spawn_quote_into out argument =
     (let bare = argument \<noteq> [] \<and> \<not> list_ex needs_quoting argument in
      if bare then out @ argument else out @ [34] @ quote_loop 0 argument @ [34])"

definition spawn_bound :: "builder \<Rightarrow> nat" where
  "spawn_bound b = 1 + (length (case g_spawn_program b of Some p \<Rightarrow> p | None \<Rightarrow> []) * 2 + 3)
     + sum_list (map (\<lambda>a. length a * 2 + 4) (g_spawn_argv b))"

definition spawn_command_line :: "(nat \<Rightarrow> bool) \<Rightarrow> builder \<Rightarrow> byte list option" where
  "spawn_command_line al b =
     (if \<not> al (spawn_bound b) then None
      else let line = spawn_quote_into [] (case g_spawn_program b of Some p \<Rightarrow> p | None \<Rightarrow> [])
           in Some (fold (\<lambda>argument line. spawn_quote_into (line @ [32]) argument) (g_spawn_argv b) line))"

subsection \<open>The readers\<close>

text \<open>How \<open>CommandLineToArgvW\<close> and the C start-up code of a Windows program split a line, as Microsoft
  documents it.  \<open>Between\<close> arguments; \<open>Within\<close> one, with whether a quote is open and the bytes so far.
  What two quotes in a row mean inside a quoted part differs between versions and is left open.\<close>

datatype place = Between | Within bool "byte list"

inductive reads :: "place \<Rightarrow> byte list \<Rightarrow> byte list list \<Rightarrow> bool" where
  reads_none: "reads Between [] []"
| reads_blank: "c = 32 \<or> c = 9 \<Longrightarrow> reads Between cs as \<Longrightarrow> reads Between (c # cs) as"
| reads_first: "c \<noteq> 32 \<Longrightarrow> c \<noteq> 9 \<Longrightarrow> reads (Within False []) (c # cs) as \<Longrightarrow> reads Between (c # cs) as"
| reads_last: "reads (Within q w) [] [w]"
| reads_stop: "c = 32 \<or> c = 9 \<Longrightarrow> reads Between cs as \<Longrightarrow> reads (Within False w) (c # cs) (w # as)"
| reads_even: "q \<longrightarrow> cs = [] \<or> hd cs \<noteq> 34 \<Longrightarrow> reads (Within (\<not> q) (w @ replicate n 92)) cs as \<Longrightarrow>
    reads (Within q w) (replicate (n * 2) 92 @ 34 # cs) as"
| reads_odd: "reads (Within q (w @ replicate n 92 @ [34])) cs as \<Longrightarrow> reads (Within q w) (replicate (n * 2 + 1) 92 @ 34 # cs) as"
| reads_slashes: "0 < n \<Longrightarrow> cs = [] \<or> hd cs \<noteq> 34 \<and> hd cs \<noteq> 92 \<Longrightarrow> reads (Within q (w @ replicate n 92)) cs as \<Longrightarrow>
    reads (Within q w) (replicate n 92 @ cs) as"
| reads_plain: "c \<noteq> 92 \<Longrightarrow> c \<noteq> 34 \<Longrightarrow> q \<or> c \<noteq> 32 \<and> c \<noteq> 9 \<Longrightarrow> reads (Within q (w @ [c])) cs as \<Longrightarrow> reads (Within q w) (c # cs) as"

text \<open>The first word of the line is the program, with no escapes: up to the next quote, or up to a blank.\<close>

inductive reads_line :: "byte list \<Rightarrow> byte list list \<Rightarrow> bool" where
  line_quoted: "34 \<notin> set p \<Longrightarrow> cs = [] \<or> hd cs = 32 \<or> hd cs = 9 \<Longrightarrow> reads Between cs as \<Longrightarrow> reads_line (34 # p @ 34 # cs) (p # as)"
| line_bare: "p \<noteq> [] \<Longrightarrow> hd p \<noteq> 34 \<Longrightarrow> 32 \<notin> set p \<Longrightarrow> 9 \<notin> set p \<Longrightarrow> cs = [] \<or> hd cs = 32 \<or> hd cs = 9 \<Longrightarrow> reads Between cs as \<Longrightarrow>
    reads_line (p @ cs) (p # as)"

definition splits_lines :: "(byte list \<Rightarrow> byte list list) \<Rightarrow> bool" where
  "splits_lines argv \<longleftrightarrow> (\<forall>line as. reads_line line as \<longrightarrow> argv line = as)"

text \<open>How the shell of POSIX reads what is between double quotes: a backslash before one of the four special
  bytes stands for that byte; other bytes stand for themselves.\<close>

inductive dquoted :: "byte list \<Rightarrow> byte list \<Rightarrow> bool" where
  dq_nil: "dquoted [] []"
| dq_escape: "c = 34 \<or> c = 92 \<or> c = 36 \<or> c = 96 \<Longrightarrow> dquoted cs ds \<Longrightarrow> dquoted (92 # c # cs) (c # ds)"
| dq_plain: "c \<noteq> 34 \<Longrightarrow> c \<noteq> 92 \<Longrightarrow> c \<noteq> 36 \<Longrightarrow> c \<noteq> 96 \<Longrightarrow> dquoted cs ds \<Longrightarrow> dquoted (c # cs) (c # ds)"

definition expands_words :: "(byte list \<Rightarrow> byte list) \<Rightarrow> bool" where
  "expands_words sh \<longleftrightarrow> (\<forall>cs ds. dquoted cs ds \<longrightarrow> sh (34 # cs @ [34]) = ds)"

subsection \<open>Lemmas\<close>

lemma shell_loop_dquoted: "dquoted (shell_loop cs) cs"
  by (induction cs) (auto intro: dquoted.intros)

lemma shell_loop_length: "length (shell_loop cs) \<le> 2 * length cs"
  by (induction cs) auto

lemma quote_loop_length: "length (quote_loop s cs) \<le> 2 * s + 2 * length cs"
  by (induction s cs rule: quote_loop.induct) auto

text \<open>With the quote open and \<open>s\<close> backslashes seen and not yet decided, the loop's text reads back.\<close>

lemma quote_loop_reads:
  assumes "tail = [] \<or> hd tail \<noteq> 34" "reads (Within False (w @ replicate s 92 @ cs)) tail as"
  shows "reads (Within True w) (quote_loop s cs @ 34 # tail) as"
  using assms
proof (induction s cs arbitrary: w rule: quote_loop.induct)
  case (1 slashes)
  then show ?case using reads_even [of True tail w slashes as] by simp
next
  case (2 slashes c cs)
  show ?case
  proof (cases "c = 92")
    case True
    then have "reads (Within False (w @ replicate (slashes + 1) 92 @ cs)) tail as"
      using "2.prems"(2) by (simp add: replicate_append_same [symmetric])
    then show ?thesis using "2.IH"(1) [OF True "2.prems"(1)] True by simp
  next
    case False
    have IH: "reads (Within True (w @ replicate slashes 92 @ [c])) (quote_loop 0 cs @ 34 # tail) as"
      using "2.IH"(2) [OF False "2.prems"(1), of "w @ replicate slashes 92 @ [c]"] "2.prems"(2) by simp
    show ?thesis
    proof (cases "c = 34")
      case True
      then show ?thesis using reads_odd [of True w slashes "quote_loop 0 cs @ 34 # tail" as] IH by simp
    next
      case nq: False
      have p: "reads (Within True (w @ replicate slashes 92)) (c # quote_loop 0 cs @ 34 # tail) as"
        using IH False nq by (intro reads_plain) auto
      show ?thesis
      proof (cases "slashes = 0")
        case True
        then show ?thesis using p False nq by simp
      next
        case s: False
        then show ?thesis using reads_slashes [of slashes "c # quote_loop 0 cs @ 34 # tail" True w as] p False nq by simp
      qed
    qed
  qed
qed

text \<open>A bare argument: no blank and no quote, so its backslashes are all literal.\<close>

lemma bare_reads:
  assumes "list_all (\<lambda>c. \<not> needs_quoting c) cs" "tail = [] \<or> hd tail = 32" "reads (Within False (w @ cs)) tail as"
  shows "reads (Within False w) (cs @ tail) as"
  using assms
proof (induction "length cs" arbitrary: cs w rule: less_induct)
  case less
  show ?case
  proof (cases cs)
    case Nil
    then show ?thesis using less.prems by simp
  next
    case (Cons c ds)
    show ?thesis
    proof (cases "c = 92")
      case False
      then have "reads (Within False (w @ [c])) (ds @ tail) as" using less Cons by simp
      then show ?thesis using False less.prems(1) Cons by (auto intro: reads_plain simp: needs_quoting_def)
    next
      case True
      define k where "k = length (takeWhile (\<lambda>c. c = 92) cs)"
      define ds where "ds = dropWhile (\<lambda>c. c = 92) cs"
      have "takeWhile (\<lambda>c. c = 92) cs = replicate k 92" unfolding k_def by (induction cs) auto
      then have cs: "cs = replicate k 92 @ ds" unfolding ds_def by (metis takeWhile_dropWhile_id)
      have k: "0 < k" using True Cons by (simp add: k_def)
      have d: "list_all (\<lambda>c. \<not> needs_quoting c) ds" using less.prems(1) by (simp add: cs)
      have "ds \<noteq> [] \<Longrightarrow> hd ds \<noteq> 92" using hd_dropWhile [of "\<lambda>c. c = 92" cs] unfolding ds_def by blast
      moreover have "ds \<noteq> [] \<Longrightarrow> hd ds \<noteq> 34" using d by (cases ds) (auto simp: needs_quoting_def)
      ultimately have d': "ds = [] \<or> hd ds \<noteq> 34 \<and> hd ds \<noteq> 92" by blast
      have len: "length ds < length cs" using k by (simp add: cs)
      have "reads (Within False (w @ replicate k 92)) (ds @ tail) as"
        using less.hyps [OF len d less.prems(2), of "w @ replicate k 92"] less.prems(3) by (simp add: cs)
      moreover have "ds @ tail = [] \<or> hd (ds @ tail) \<noteq> 34 \<and> hd (ds @ tail) \<noteq> 92" using d' less.prems(2) by (cases ds) auto
      ultimately show ?thesis using reads_slashes [of k "ds @ tail" False w as] k by (simp add: cs)
    qed
  qed
qed

lemma quote_into_append: "spawn_quote_into out a = out @ spawn_quote_into [] a"
  by (simp add: spawn_quote_into_def Let_def)

lemma quote_into_length: "length (spawn_quote_into [] a) \<le> 2 * length a + 2"
  using quote_loop_length [of 0 a] by (auto simp: spawn_quote_into_def Let_def)

lemma arg_reads:
  assumes "tail = [] \<or> hd tail = 32" "reads (Within False a) tail as"
  shows "reads Between (spawn_quote_into [] a @ tail) as"
proof (cases "a \<noteq> [] \<and> \<not> list_ex needs_quoting a")
  case True
  then have n: "list_all (\<lambda>c. \<not> needs_quoting c) a" by (auto simp: list_all_iff list_ex_iff)
  obtain c cs where a: "a = c # cs" using True by (cases a) auto
  have "reads (Within False []) (a @ tail) as" using bare_reads [OF n assms(1), of "[]"] assms(2) by simp
  then show ?thesis using True n reads_first [of c "cs @ tail" as] by (auto simp: spawn_quote_into_def a needs_quoting_def)
next
  case False
  have t: "tail = [] \<or> hd tail \<noteq> 34" using assms(1) by auto
  have "reads (Within True []) (quote_loop 0 a @ 34 # tail) as" using quote_loop_reads [OF t, of "[]" 0 a] assms(2) by simp
  then have "reads (Within False []) (34 # quote_loop 0 a @ 34 # tail) as" using reads_even [of False _ "[]" 0] by simp
  then have "reads Between (34 # quote_loop 0 a @ 34 # tail) as" by (intro reads_first) simp_all
  then show ?thesis using False by (auto simp: spawn_quote_into_def Let_def)
qed

definition args_text :: "byte list list \<Rightarrow> byte list" where
  "args_text as = concat (map (\<lambda>a. 32 # spawn_quote_into [] a) as)"

lemma args_text_Cons: "args_text (a # as) = 32 # spawn_quote_into [] a @ args_text as"
  by (simp add: args_text_def)

lemma args_text_hd: "args_text as = [] \<or> hd (args_text as) = 32"
  by (cases as) (simp_all add: args_text_def)

lemma args_read: "reads (Within False w) (args_text as) (w # as) \<and> reads Between (args_text as) as"
proof (induction as arbitrary: w)
  case Nil
  then show ?case by (simp add: args_text_def reads_last reads_none)
next
  case (Cons a as)
  have "reads Between (spawn_quote_into [] a @ args_text as) (a # as)" using arg_reads [OF args_text_hd] Cons by blast
  then show ?case unfolding args_text_Cons by (auto intro: reads_stop reads_blank)
qed

lemma command_line_text: "fold (\<lambda>a line. spawn_quote_into (line @ [32]) a) as line = line @ args_text as"
proof (induction as arbitrary: line)
  case (Cons a as)
  then show ?case by (simp add: args_text_Cons quote_into_append [of "line @ [32]"])
qed (simp add: args_text_def)

lemma args_text_length: "length (args_text as) \<le> sum_list (map (\<lambda>a. length a * 2 + 4) as)"
proof (induction as)
  case (Cons a as)
  then show ?case using quote_into_length [of a] by (simp add: args_text_Cons)
qed (simp add: args_text_def)

definition plain_program :: "byte list \<Rightarrow> bool" where
  "plain_program p \<longleftrightarrow> 34 \<notin> set p \<and> (p \<noteq> [] \<longrightarrow> last p \<noteq> 92)"

lemma quote_loop_plain: "34 \<notin> set p \<Longrightarrow> (if p = [] then s = 0 else last p \<noteq> 92) \<Longrightarrow> quote_loop s p = replicate s 92 @ p"
proof (induction s p rule: quote_loop.induct)
  case (2 s c cs)
  show ?case
  proof (cases "c = 92")
    case True
    then have "cs \<noteq> []" using "2.prems" by auto
    then show ?thesis using "2.IH"(1) [OF True] "2.prems" True by (simp add: replicate_append_same [symmetric])
  next
    case False
    then show ?thesis using "2.IH"(2) [OF False] "2.prems" by (cases cs) (auto split: if_splits)
  qed
qed simp

lemma program_reads:
  assumes "plain_program p" "cs = [] \<or> hd cs = 32 \<or> hd cs = 9" "reads Between cs as"
  shows "reads_line (spawn_quote_into [] p @ cs) (p # as)"
proof (cases "p \<noteq> [] \<and> \<not> list_ex needs_quoting p")
  case True
  then have n: "\<forall>c \<in> set p. \<not> needs_quoting c" by (auto simp: list_ex_iff)
  then have "32 \<notin> set p" "9 \<notin> set p" "hd p \<noteq> 34" using True by (auto simp: needs_quoting_def dest: hd_in_set)
  then show ?thesis using True assms line_bare [of p cs as] by (simp add: spawn_quote_into_def)
next
  case False
  have "quote_loop 0 p = p" using assms(1) quote_loop_plain [of p 0] by (auto simp: plain_program_def)
  then show ?thesis using False assms line_quoted [of p cs as] by (auto simp: spawn_quote_into_def Let_def plain_program_def)
qed

definition build_spawn :: "(nat \<Rightarrow> bool) \<Rightarrow> byte list \<Rightarrow> byte list list \<Rightarrow> builder" where
  "build_spawn al p as = fold (\<lambda>a b. proc_spawn_arg al (Some a) b) as (proc_spawn_begin al (Some p))"

lemma build_spawn_parts:
  assumes "\<forall>n. al n"
  shows "g_spawn_program (build_spawn al p as) = Some p \<and> g_spawn_argv (build_spawn al p as) = as"
proof -
  have "g_spawn_program (fold (\<lambda>a b. proc_spawn_arg al (Some a) b) as b) = g_spawn_program b
    \<and> g_spawn_argv (fold (\<lambda>a b. proc_spawn_arg al (Some a) b) as b) = g_spawn_argv b @ as" for b
    using assms by (induction as arbitrary: b) (simp_all add: proc_spawn_arg_def spawn_dup_def Let_def)
  then show ?thesis using assms by (simp add: build_spawn_def proc_spawn_begin_def spawn_builder_reset_def spawn_dup_def)
qed

subsection \<open>Properties\<close>

text \<open>C29. A spawned program gets the arguments it was given.  Whatever bytes the arguments have (blanks, quotes,
  backslashes before quotes or at the end, nothing at all), the Windows command line splits back into the program and
  exactly these arguments, and it fits the block whose size \<open>spawn_command_line\<close> computed beforehand; the
  vector of the other systems is the program and the arguments with a null after them.  The program's own name
  must have no quote and not end in a backslash, as the first word of a line knows no escapes.\<close>

theorem spawn_arguments_arrive:
  assumes "splits_lines argv" and "\<forall>n. al n" and "plain_program p"
  shows "(\<exists>line. spawn_command_line al (build_spawn al p as) = Some line \<and> argv line = p # as
      \<and> length line + 1 \<le> spawn_bound (build_spawn al p as))
    \<and> spawn_vector al (build_spawn al p as) = Some (map Some (p # as) @ [None])"
proof -
  note B = build_spawn_parts [OF assms(2), of p as]
  have line: "spawn_command_line al (build_spawn al p as) = Some (spawn_quote_into [] p @ args_text as)"
    by (simp add: spawn_command_line_def command_line_text B assms(2))
  have "reads_line (spawn_quote_into [] p @ args_text as) (p # as)"
    using program_reads [OF assms(3) _ conjunct2 [OF args_read]] args_text_hd by blast
  then have "argv (spawn_quote_into [] p @ args_text as) = p # as" using assms(1) by (simp add: splits_lines_def)
  moreover have "length (spawn_quote_into [] p @ args_text as) + 1 \<le> spawn_bound (build_spawn al p as)"
    using quote_into_length [of p] args_text_length [of as] by (simp add: spawn_bound_def B)
  ultimately show ?thesis using line by (simp add: spawn_vector_def B assms(2))
qed

text \<open>A reader of lines and a reader of quoted words, by the documented rules.\<close>

fun scan :: "place \<Rightarrow> nat \<Rightarrow> byte list \<Rightarrow> byte list list" where
  "scan Between s [] = []"
| "scan Between s (c # cs) =
     (if c = 32 \<or> c = 9 then scan Between 0 cs else if c = 92 then scan (Within False []) 1 cs
      else if c = 34 then scan (Within True []) 0 cs else scan (Within False [c]) 0 cs)"
| "scan (Within q w) s [] = [w @ replicate s 92]"
| "scan (Within q w) s (c # cs) =
     (if c = 92 then scan (Within q w) (s + 1) cs
      else if c = 34 then if even s then scan (Within (\<not> q) (w @ replicate (s div 2) 92)) 0 cs
                          else scan (Within q (w @ replicate (s div 2) 92 @ [34])) 0 cs
      else if \<not> q \<and> (c = 32 \<or> c = 9) then (w @ replicate s 92) # scan Between 0 cs
      else scan (Within q (w @ replicate s 92 @ [c])) 0 cs)"

lemma scan_slashes: "scan (Within q w) s (replicate n 92 @ cs) = scan (Within q w) (s + n) cs"
  by (induction n arbitrary: s) simp_all

lemma scan_settle: "cs = [] \<or> hd cs \<noteq> 34 \<and> hd cs \<noteq> 92 \<Longrightarrow> scan (Within q (w @ replicate n 92)) 0 cs = scan (Within q w) n cs"
  by (cases cs) simp_all

lemma scan_reads: "reads pl cs as \<Longrightarrow> scan pl 0 cs = as"
  by (induction rule: reads.induct) (auto simp: scan_slashes scan_settle)

definition sample_argv :: "byte list \<Rightarrow> byte list list" where
  "sample_argv line = (if line \<noteq> [] \<and> hd line = 34
     then takeWhile (\<lambda>c. c \<noteq> 34) (tl line) # scan Between 0 (tl (dropWhile (\<lambda>c. c \<noteq> 34) (tl line)))
     else takeWhile (\<lambda>c. c \<noteq> 32 \<and> c \<noteq> 9) line # scan Between 0 (dropWhile (\<lambda>c. c \<noteq> 32 \<and> c \<noteq> 9) line))"

lemma word_split:
  assumes "\<forall>c \<in> set p. P c" "cs = [] \<or> \<not> P (hd cs)"
  shows "takeWhile P (p @ cs) = p" "dropWhile P (p @ cs) = cs"
  using assms by (cases cs; simp add: takeWhile_append dropWhile_append)+

lemma sample_argv_splits: "splits_lines sample_argv"
  unfolding splits_lines_def
proof (intro allI impI)
  fix line as
  assume "reads_line line as"
  then show "sample_argv line = as"
  proof cases
    case (line_quoted p cs ws)
    have "takeWhile (\<lambda>c. c \<noteq> 34) (p @ 34 # cs) = p" "dropWhile (\<lambda>c. c \<noteq> 34) (p @ 34 # cs) = 34 # cs"
      using line_quoted by (intro word_split; auto)+
    then show ?thesis using line_quoted scan_reads [of Between cs ws] by (simp add: sample_argv_def)
  next
    case (line_bare p cs ws)
    have "takeWhile (\<lambda>c. c \<noteq> 32 \<and> c \<noteq> 9) (p @ cs) = p" "dropWhile (\<lambda>c. c \<noteq> 32 \<and> c \<noteq> 9) (p @ cs) = cs"
      using line_bare by (intro word_split; auto)+
    then show ?thesis using line_bare scan_reads [of Between cs ws] by (simp add: sample_argv_def)
  qed
qed

theorem spawn_arguments_arrive_witness:
  "map_option sample_argv (spawn_command_line (\<lambda>n. True) (build_spawn (\<lambda>n. True) [97, 32, 98] [[99, 92], [], [34, 92, 92, 34, 32], [120, 32, 92]]))
    = Some [[97, 32, 98], [99, 92], [], [34, 92, 92, 34, 32], [120, 32, 92]]"
  using spawn_arguments_arrive [OF sample_argv_splits, of "\<lambda>n. True" "[97, 32, 98]"] by (force simp: plain_program_def)

text \<open>A quoted argument of a shell line comes out of the reader as it was: on POSIX the shell reads it back
  from between its double quotes, with no expansion; on Windows it is the one argument after the program;
  and on both the text and its NUL fit the \<open>2 n + 3\<close> bytes asked for.\<close>

theorem quoted_argument_arrives:
  assumes "expands_words sh" and "splits_lines argv" and "\<forall>n. al n" and "length arg < 2 ^ 30 - 2"
  shows "(\<exists>q. command_quote_arg False al arg = Inr q \<and> sh q = arg \<and> length q + 1 \<le> 2 * length arg + 3)
    \<and> (\<exists>q. command_quote_arg True al arg = Inr q \<and> argv (112 # 32 # q) = [[112], arg] \<and> length q + 1 \<le> 2 * length arg + 3)"
proof -
  have n: "take (nat (i32 (int (length arg)))) arg = arg" using assms(4) by (simp add: is_int32_def)
  have posix: "command_quote_arg False al arg = Inr (34 # shell_loop arg @ [34])"
    and win: "command_quote_arg True al arg = Inr (34 # quote_loop 0 arg @ [34])"
    using assms(3) n by (simp_all add: command_quote_arg_def Let_def)
  have "sh (34 # shell_loop arg @ [34]) = arg" using assms(1) shell_loop_dquoted [of arg] by (simp add: expands_words_def)
  moreover have "reads Between (34 # quote_loop 0 arg @ [34]) [arg]"
    using quote_loop_reads [of "[]" "[]" 0 arg "[arg]"] reads_last [of False arg] reads_even [of False "quote_loop 0 arg @ [34]" "[]" 0 "[arg]"]
    by (intro reads_first) simp_all
  then have "reads_line ([112] @ 32 # 34 # quote_loop 0 arg @ [34]) [[112], arg]" by (intro line_bare) (auto intro: reads_blank)
  then have "argv (112 # 32 # 34 # quote_loop 0 arg @ [34]) = [[112], arg]" using assms(2) by (simp add: splits_lines_def)
  ultimately show ?thesis using posix win shell_loop_length [of arg] quote_loop_length [of 0 arg] by simp
qed

fun dq_value :: "byte list \<Rightarrow> byte list" where
  "dq_value [] = []"
| "dq_value [c] = [c]"
| "dq_value (c # d # cs) = (if c = 92 \<and> (d = 34 \<or> d = 92 \<or> d = 36 \<or> d = 96) then d # dq_value cs else c # dq_value (d # cs))"

lemma dq_value_dquoted: "dquoted cs ds \<Longrightarrow> dq_value cs = ds"
proof (induction rule: dquoted.induct)
  case (dq_plain c cs ds)
  then show ?case by (cases cs) auto
qed auto

definition sample_sh :: "byte list \<Rightarrow> byte list" where
  "sample_sh q = dq_value (butlast (tl q))"

theorem quoted_argument_arrives_witness:
  "(case command_quote_arg False (\<lambda>n. True) [36, 97, 92, 34] of Inr q \<Rightarrow> sample_sh q = [36, 97, 92, 34] | Inl _ \<Rightarrow> False)"
proof -
  have "expands_words sample_sh" by (simp add: expands_words_def sample_sh_def dq_value_dquoted)
  from quoted_argument_arrives [OF this sample_argv_splits, of "\<lambda>n. True" "[36, 97, 92, 34]"] show ?thesis by auto
qed

end
