(* ===== verification/Paths.thy ===== *)
theory Paths
  imports Prelude "HOL-Library.Multiset"
begin

text \<open>
  Paths and directory listings of \<open>runtime/program_support.c\<close>: \<open>get_directory\<close>, \<open>join_path\<close>,
  \<open>make_directory\<close>, the modules of a directory (\<open>compare_names\<close> to \<open>list_modules\<close>) and the listing handed
  out one entry at a time (\<open>fs_list_push\<close> to \<open>fs_list_end\<close>).  A C string is the list of its bytes before
  the NUL.  What a directory holds, what \<open>mkdir\<close> does and the C library's \<open>qsort\<close> are parameters; \<open>al\<close>
  says which sizes the allocators grant.
\<close>

subsection \<open>Definitions\<close>

definition strrchr :: "byte \<Rightarrow> byte list \<Rightarrow> nat option" where
  "strrchr c s = (if c \<in> set s then Some (length s - 1 - length (takeWhile (\<lambda>b. b \<noteq> c) (rev s))) else None)"

definition later :: "nat option \<Rightarrow> nat option \<Rightarrow> nat option" where
  "later a b = (case a of None \<Rightarrow> b | Some i \<Rightarrow> (case b of None \<Rightarrow> a | Some j \<Rightarrow> if i > j then a else b))"

definition get_directory :: "(nat \<Rightarrow> bool) \<Rightarrow> byte list \<Rightarrow> rt_error + byte list" where
  "get_directory al path =
     (case later (strrchr 47 path) (strrchr 92 path) of
        None \<Rightarrow> if al 2 then Inr [46] else Inl Null_store
      | Some i \<Rightarrow> let n = i32 (int i) in if al (u64 (n + 1)) then Inr (take (nat n) path) else Inl Null_store)"

definition join_path :: "byte \<Rightarrow> (nat \<Rightarrow> bool) \<Rightarrow> byte list \<Rightarrow> byte list \<Rightarrow> rt_error + byte list" where
  "join_path sep al directory filename =
     (if \<not> al (u64 (i32 (int (length directory) + 1 + int (length filename) + 1))) then Inl Null_store
      else Inr (map (\<lambda>c. if c = 47 \<or> c = 92 then sep else c) (directory @ [sep] @ filename)))"

text \<open>The calls of \<open>mkdir\<close>, one per separator after the start and one for the whole path.\<close>

fun mkdir_parents :: "(byte list \<Rightarrow> 'fs \<Rightarrow> 'fs) \<Rightarrow> byte list \<Rightarrow> nat list \<Rightarrow> 'fs \<Rightarrow> 'fs" where
  "mkdir_parents mkdir work [] fs = fs"
| "mkdir_parents mkdir work (i # js) fs =
     mkdir_parents mkdir work js
       (if (work ! i = 47 \<or> work ! i = 92) \<and> i > 0 then mkdir (take i work) fs else fs)"

definition make_directory ::
  "bool \<Rightarrow> (byte list \<Rightarrow> 'fs \<Rightarrow> 'fs) \<Rightarrow> (byte list \<Rightarrow> 'fs \<Rightarrow> bool) \<Rightarrow> (nat \<Rightarrow> bool) \<Rightarrow> byte list option \<Rightarrow> 'fs \<Rightarrow> int \<times> 'fs" where
  "make_directory windows mkdir is_directory al path fs =
     (case path of None \<Rightarrow> (1, fs)
      | Some work \<Rightarrow>
          if work = [] \<or> \<not> al (length work + 1) then (1, fs)
          else let start = (if windows \<and> length work > 2 \<and> work ! 1 = 58 then 3 else 0);
                   start = (if work ! 0 = 47 \<or> work ! 0 = 92 then 1 else start);
                   fs = mkdir work (mkdir_parents mkdir work [start..<length work] fs)
               in (if is_directory work fs then 0 else 1, fs))"

fun compare_names :: "byte list \<Rightarrow> byte list \<Rightarrow> int" where
  "compare_names [] [] = 0"
| "compare_names [] (d # ds) = - 1"
| "compare_names (c # cs) [] = 1"
| "compare_names (c # cs) (d # ds) = (if c < d then - 1 else if d < c then 1 else compare_names cs ds)"

definition ends_in :: "byte list \<Rightarrow> byte list \<Rightarrow> bool" where
  "ends_in suffix s \<longleftrightarrow> length suffix \<le> length s \<and> drop (length s - length suffix) s = suffix"

definition dot_psm :: "byte list" where "dot_psm = [46, 112, 115, 109]"
definition dot_plib :: "byte list" where "dot_plib = [46, 112, 108, 105, 98]"

definition append_module_name :: "(nat \<Rightarrow> bool) \<Rightarrow> byte list \<Rightarrow> byte list list \<times> nat \<Rightarrow> rt_error + (byte list list \<times> nat)" where
  "append_module_name al filename found =
     (let (names, cap) = found in
      if length filename \<le> 4 \<or> (\<not> ends_in dot_psm filename \<and> \<not> ends_in dot_plib filename) then Inr found
      else if hd filename = 46 then Inr found
      else let stem = take (length filename - (if ends_in dot_psm filename then 4 else 5)) filename in
           if stem \<in> set names then Inr found
           else let full = length names = cap; cap' = (if \<not> full then cap else if cap \<noteq> 0 then cap * 2 else 16) in
                if full \<and> \<not> al (cap' * 8) then Inl (Exit ''prismio: out of memory listing modules'')
                else if \<not> al (length stem + 1) then Inl Null_store
                else Inr (names @ [stem], cap'))"

fun scan_entries :: "bool \<Rightarrow> (nat \<Rightarrow> bool) \<Rightarrow> (byte list \<times> bool) list \<Rightarrow> byte list list \<times> nat \<Rightarrow> rt_error + (byte list list \<times> nat)" where
  "scan_entries windows al [] found = Inr found"
| "scan_entries windows al ((name, directory) # es) found =
     (if windows \<and> directory then scan_entries windows al es found
      else andthen (append_module_name al name found) (scan_entries windows al es))"

definition join_lines :: "byte list list \<Rightarrow> byte list" where
  "join_lines names = (case names of [] \<Rightarrow> [] | x # xs \<Rightarrow> fold (\<lambda>s text. text @ [10] @ s) xs x)"

text \<open>An unreadable directory is \<open>None\<close>; an entry comes with whether it is a directory itself.\<close>

definition list_modules ::
  "bool \<Rightarrow> (nat \<Rightarrow> bool) \<Rightarrow> (byte list list \<Rightarrow> byte list list) \<Rightarrow> (byte list \<times> bool) list option \<Rightarrow> rt_error + byte list" where
  "list_modules windows al qsort entries =
     andthen (scan_entries windows al (case entries of Some es \<Rightarrow> es | None \<Rightarrow> []) ([], 0)) (\<lambda>(names, cap).
       let names = (if length names > 1 then qsort names else names);
           total = 1 + sum_list (map (\<lambda>s. length s + 1) names)
       in if \<not> al total then Inl Null_store else Inr (join_lines names))"

definition fs_list_end :: "byte list list \<Rightarrow> byte list list" where
  "fs_list_end names = []"

text \<open>Whether to go on, the names so far and the capacity.\<close>

definition fs_list_push :: "(nat \<Rightarrow> bool) \<Rightarrow> byte list \<Rightarrow> byte list list \<times> nat \<Rightarrow> bool \<times> byte list list \<times> nat" where
  "fs_list_push al name found =
     (let (names, cap) = found in
      if name = [46] \<or> name = [46, 46] then (True, found)
      else let full = length names = cap; cap' = (if \<not> full then cap else if cap \<noteq> 0 then cap * 2 else 16) in
           if full \<and> \<not> al (cap' * 8) then (False, found)
           else if \<not> al (length name + 1) then (False, names, cap')
           else (True, names @ [name], cap'))"

fun push_entries :: "(nat \<Rightarrow> bool) \<Rightarrow> byte list list \<Rightarrow> byte list list \<times> nat \<Rightarrow> byte list list" where
  "push_entries al [] found = fst found"
| "push_entries al (name # es) found = (let (ok, found) = fs_list_push al name found in if ok then push_entries al es found else fst found)"

definition fs_list_begin ::
  "(nat \<Rightarrow> bool) \<Rightarrow> (byte list list \<Rightarrow> byte list list) \<Rightarrow> byte list list option \<Rightarrow> byte list list \<Rightarrow> int \<times> byte list list" where
  "fs_list_begin al qsort entries old =
     (let names = fs_list_end old in
      case entries of None \<Rightarrow> (- 1, names)
      | Some es \<Rightarrow> let names = push_entries al es (names, 0); names = (if length names > 1 then qsort names else names)
                   in (int (length names), names))"

definition fs_list_name :: "(nat \<Rightarrow> bool) \<Rightarrow> int \<Rightarrow> byte list list \<Rightarrow> byte list option" where
  "fs_list_name al index names =
     (let name = (if index \<ge> 0 \<and> index < int (length names) then names ! nat index else []) in
      if al (length name + 1) then Some name else None)"

subsection \<open>The order of names\<close>

text \<open>What the C standard says of \<open>qsort\<close>: the same elements, in the order of the comparison.\<close>

definition sorts_names :: "(byte list list \<Rightarrow> byte list list) \<Rightarrow> bool" where
  "sorts_names qsort \<longleftrightarrow> (\<forall>xs. mset (qsort xs) = mset xs \<and> sorted_wrt (\<lambda>a b. compare_names a b \<le> 0) (qsort xs))"

lemma compare_refl [simp]: "compare_names a a = 0"
  by (induction a) auto

lemma compare_zero [simp]: "compare_names a b = 0 \<longleftrightarrow> a = b"
  by (induction a b rule: compare_names.induct) auto

lemma compare_range: "compare_names a b \<in> {- 1, 0, 1}"
  by (induction a b rule: compare_names.induct) auto

lemma compare_swap: "compare_names b a = - compare_names a b"
  by (induction a b rule: compare_names.induct) auto

lemma compare_trans: "compare_names a b < 0 \<Longrightarrow> compare_names b c < 0 \<Longrightarrow> compare_names a c < 0"
proof (induction a b arbitrary: c rule: compare_names.induct)
  case (4 x cs y ds)
  then show ?case by (cases c) (auto split: if_split_asm)
next
  case (2 d ds)
  then show ?case by (cases c) auto
qed auto

lemma sorted_strict:
  assumes "distinct xs" "sorted_wrt (\<lambda>a b. compare_names a b \<le> 0) xs"
  shows "sorted_wrt (\<lambda>a b. compare_names a b < 0) xs"
  using assms by (induction xs) (auto simp: order_less_le)

lemma strict_unique:
  assumes "sorted_wrt (\<lambda>a b. compare_names a b < 0) xs" "sorted_wrt (\<lambda>a b. compare_names a b < 0) ys" "set xs = set ys"
  shows "xs = ys"
  using assms
proof (induction xs arbitrary: ys)
  case (Cons x xs)
  then obtain y zs where ys: "ys = y # zs" by (cases ys) auto
  have "x = y"
  proof (rule ccontr)
    assume "x \<noteq> y"
    then have "compare_names x y < 0" "compare_names y x < 0" using Cons.prems ys by auto
    then show False using compare_swap [of x y] by simp
  qed
  moreover have "x \<notin> set xs" "y \<notin> set zs" using Cons.prems ys by auto
  ultimately have "set xs = set zs" using Cons.prems(3) ys by auto
  then show ?case using Cons.IH [of zs] Cons.prems ys \<open>x = y\<close> by simp
qed simp

lemma qsort_names:
  assumes "sorts_names qsort" "distinct xs"
  shows "set (qsort xs) = set xs \<and> distinct (qsort xs) \<and> sorted_wrt (\<lambda>a b. compare_names a b < 0) (qsort xs)"
proof -
  have m: "mset (qsort xs) = mset xs" using assms(1) by (simp add: sorts_names_def)
  then have "set (qsort xs) = set xs" "distinct (qsort xs)" using assms(2) mset_eq_setD mset_eq_imp_distinct_iff by blast+
  then show ?thesis using assms(1) sorted_strict unfolding sorts_names_def by blast
qed

subsection \<open>Modules\<close>

text \<open>The module a file name stands for.\<close>

definition module_of :: "byte list \<Rightarrow> byte list option" where
  "module_of f = (if length f \<le> 4 \<or> hd f = 46 then None
     else if ends_in dot_psm f then Some (take (length f - 4) f)
     else if ends_in dot_plib f then Some (take (length f - 5) f) else None)"

definition modules_in :: "bool \<Rightarrow> (byte list \<times> bool) set \<Rightarrow> byte list set" where
  "modules_in windows es = {m. \<exists>f d. (f, d) \<in> es \<and> \<not> (windows \<and> d) \<and> module_of f = Some m}"

lemma append_module:
  assumes "\<forall>n. al n" "distinct names"
  shows "\<exists>names' cap'. append_module_name al f (names, cap) = Inr (names', cap') \<and> distinct names'
    \<and> set names' = set names \<union> (case module_of f of None \<Rightarrow> {} | Some m \<Rightarrow> {m})"
  using assms by (auto simp: append_module_name_def module_of_def Let_def)

lemma scan_entries_ok:
  assumes "\<forall>n. al n" "distinct names"
  shows "\<exists>names' cap'. scan_entries w al es (names, cap) = Inr (names', cap') \<and> distinct names'
    \<and> set names' = set names \<union> modules_in w (set es)"
  using assms(2)
proof (induction es arbitrary: names cap)
  case Nil
  then show ?case by (auto simp: modules_in_def)
next
  case (Cons e es)
  obtain f d where e: "e = (f, d)" by (cases e)
  show ?case
  proof (cases "w \<and> d")
    case True
    moreover have "modules_in w (set (e # es)) = modules_in w (set es)" using True by (auto simp: modules_in_def e)
    ultimately show ?thesis using Cons.IH [OF Cons.prems, of cap] by (simp add: e)
  next
    case False
    obtain n1 c1 where 1: "append_module_name al f (names, cap) = Inr (n1, c1)" "distinct n1"
      "set n1 = set names \<union> (case module_of f of None \<Rightarrow> {} | Some m \<Rightarrow> {m})"
      using append_module [OF assms(1) Cons.prems] by blast
    have "modules_in w (set (e # es)) = (case module_of f of None \<Rightarrow> {} | Some m \<Rightarrow> {m}) \<union> modules_in w (set es)"
      using False by (auto simp: modules_in_def e split: option.splits)
    moreover have "scan_entries w al (e # es) (names, cap) = scan_entries w al es (n1, c1)" using False 1(1) by (auto simp: e)
    ultimately show ?thesis using Cons.IH [OF 1(2), of c1] 1(3) by (auto simp: Un_assoc)
  qed
qed

text \<open>C30. The modules of a directory do not depend on the order in which the system lists its files: the result is one
  line per module, sorted by byte value, each module once also when its source and its library are both there; and two
  directories with the same files give the same text.\<close>

theorem list_modules_sorted:
  assumes "sorts_names qsort" and "\<forall>n. al n"
  shows "\<exists>names. list_modules windows al qsort (Some es) = Inr (join_lines names) \<and> set names = modules_in windows (set es)
      \<and> sorted_wrt (\<lambda>a b. compare_names a b < 0) names
      \<and> (\<forall>es'. set es' = set es \<longrightarrow> list_modules windows al qsort (Some es') = Inr (join_lines names))"
proof -
  have run: "\<exists>names. list_modules windows al qsort (Some fs) = Inr (join_lines names) \<and> set names = modules_in windows (set fs)
      \<and> sorted_wrt (\<lambda>a b. compare_names a b < 0) names" for fs
  proof -
    obtain names cap where n: "scan_entries windows al fs ([], 0) = Inr (names, cap)" "distinct names" "set names = modules_in windows (set fs)"
      using scan_entries_ok [OF assms(2), of "[]" windows fs 0] by auto
    show ?thesis
    proof (cases "length names > 1")
      case True
      then show ?thesis using n qsort_names [OF assms(1) n(2)] assms(2) by (auto simp: list_modules_def Let_def)
    next
      case False
      then have "sorted_wrt (\<lambda>a b. compare_names a b < 0) names" by (cases names rule: remdups_adj.cases) auto
      then show ?thesis using n False assms(2) by (auto simp: list_modules_def Let_def)
    qed
  qed
  then obtain names where 1: "list_modules windows al qsort (Some es) = Inr (join_lines names)" "set names = modules_in windows (set es)"
      "sorted_wrt (\<lambda>a b. compare_names a b < 0) names" by blast
  have "list_modules windows al qsort (Some es') = Inr (join_lines names)" if "set es' = set es" for es'
    using run [of es'] 1 that strict_unique [of _ names] by metis
  then show ?thesis using 1 by blast
qed

text \<open>An insertion sort by the comparison, as one \<open>qsort\<close>.\<close>

fun insert_name :: "byte list \<Rightarrow> byte list list \<Rightarrow> byte list list" where
  "insert_name x [] = [x]"
| "insert_name x (y # ys) = (if compare_names x y \<le> 0 then x # y # ys else y # insert_name x ys)"

definition sort_names :: "byte list list \<Rightarrow> byte list list" where
  "sort_names xs = foldr insert_name xs []"

lemma insert_name_mset: "mset (insert_name x ys) = add_mset x (mset ys)"
  by (induction ys) auto

lemma compare_le_trans: "compare_names a b \<le> 0 \<Longrightarrow> compare_names b c \<le> 0 \<Longrightarrow> compare_names a c \<le> 0"
  using compare_trans [of a b c] by (cases "a = b"; cases "b = c") (auto simp: order_less_le)

lemma insert_name_sorted: "sorted_wrt (\<lambda>a b. compare_names a b \<le> 0) ys \<Longrightarrow> sorted_wrt (\<lambda>a b. compare_names a b \<le> 0) (insert_name x ys)"
proof (induction ys)
  case (Cons y ys)
  have "set (insert_name x ys) = insert x (set ys)" using insert_name_mset [of x ys] by (metis mset_eq_setD set_mset_mset set_mset_add_mset_insert)
  moreover have "\<not> compare_names x y \<le> 0 \<Longrightarrow> compare_names y x \<le> 0" using compare_swap [of x y] by simp
  ultimately show ?case using Cons by (auto intro: compare_le_trans)
qed simp

lemma sort_names_sorts: "sorts_names sort_names"
proof -
  have "mset (sort_names xs) = mset xs \<and> sorted_wrt (\<lambda>a b. compare_names a b \<le> 0) (sort_names xs)" for xs
    by (induction xs) (auto simp: sort_names_def insert_name_mset insert_name_sorted)
  then show ?thesis by (simp add: sorts_names_def)
qed

theorem list_modules_sorted_witness:
  "list_modules False (\<lambda>n. True) sort_names (Some [([98, 46, 112, 115, 109], False), ([97, 46, 112, 108, 105, 98], False), ([46, 95, 46, 112, 115, 109], False), ([97, 46, 112, 115, 109], False)])
    = Inr [97, 10, 98]"
proof -
  let ?es = "[([97, 46, 112, 115, 109], False), ([98, 46, 112, 115, 109], False), ([97, 46, 112, 108, 105, 98], False), ([46, 95, 46, 112, 115, 109], False)]"
  have "list_modules False (\<lambda>n. True) sort_names (Some ?es) = Inr [97, 10, 98]"
    by (simp add: list_modules_def append_module_name_def ends_in_def dot_psm_def dot_plib_def sort_names_def join_lines_def)
  moreover have "set [([98, 46, 112, 115, 109], False), ([97, 46, 112, 108, 105, 98], False), ([46, 95, 46, 112, 115, 109], False), ([97, 46, 112, 115, 109], False)] = set ?es"
    by auto
  ultimately show ?thesis using list_modules_sorted [OF sort_names_sorts, of "\<lambda>n. True" False ?es] by metis
qed

subsection \<open>Listings\<close>

definition real_entry :: "byte list \<Rightarrow> bool" where
  "real_entry f \<longleftrightarrow> f \<noteq> [46] \<and> f \<noteq> [46, 46]"

lemma push_entries_ok: "\<forall>n. al n \<Longrightarrow> push_entries al es (names, cap) = names @ filter real_entry es"
  by (induction es arbitrary: names cap) (auto simp: fs_list_push_def real_entry_def Let_def)

text \<open>C0. A listing has every entry of the directory but \<open>.\<close> and \<open>..\<close>, in the order of their bytes, whatever an earlier
  listing left; the count is the number of names, each index below it gives its name and every other index, also a
  negative one, the empty string; and the end of the listing leaves none.\<close>

theorem listing_complete:
  assumes "sorts_names qsort" and "\<forall>n. al n" and "fs_list_begin al qsort (Some es) old = (n, names)"
  shows "n = int (length names) \<and> mset names = mset (filter real_entry es) \<and> sorted_wrt (\<lambda>a b. compare_names a b \<le> 0) names
    \<and> fs_list_name al i names = Some (if 0 \<le> i \<and> i < n then names ! nat i else [])
    \<and> fs_list_name al i (fs_list_end names) = Some []"
proof -
  have e: "names = (if length (filter real_entry es) > 1 then qsort (filter real_entry es) else filter real_entry es)" "n = int (length names)"
    using assms(3) push_entries_ok [OF assms(2), of es "[]" 0] by (auto simp: fs_list_begin_def fs_list_end_def Let_def)
  have "sorted_wrt (\<lambda>a b. compare_names a b \<le> 0) (filter real_entry es)" if "\<not> length (filter real_entry es) > 1"
    using that by (cases "filter real_entry es" rule: remdups_adj.cases) auto
  then show ?thesis using e assms(1,2) by (auto simp: sorts_names_def fs_list_name_def fs_list_end_def)
qed

theorem listing_complete_witness:
  "fs_list_begin (\<lambda>n. True) sort_names (Some [[46], [98], [46, 46], [97, 10]]) [[99]] = (2, [[97, 10], [98]])
    \<and> fs_list_name (\<lambda>n. True) 1 [[97, 10], [98]] = Some [98]"
proof -
  have "fs_list_begin (\<lambda>n. True) sort_names (Some [[46], [98], [46, 46], [97, 10]]) [[99]] = (2, [[97, 10], [98]])"
    by (simp add: fs_list_begin_def fs_list_end_def fs_list_push_def sort_names_def)
  from listing_complete [OF sort_names_sorts _ this, of 1] this show ?thesis by simp
qed

text \<open>A name that could not be copied ends the listing early, and the count does not tell.\<close>

lemma listing_cut_short:
  "fs_list_begin (\<lambda>n. n \<noteq> 4) sort_names (Some [[97], [98, 98, 98], [99]]) [] = (1, [[97]])"
  by (simp add: fs_list_begin_def fs_list_end_def fs_list_push_def)

subsection \<open>Paths\<close>

definition is_sep :: "byte \<Rightarrow> bool" where
  "is_sep c \<longleftrightarrow> c = 47 \<or> c = 92"

lemma strrchr_split: "c \<notin> set ys \<Longrightarrow> strrchr c (xs @ c # ys) = Some (length xs)"
proof -
  assume "c \<notin> set ys"
  then have "takeWhile (\<lambda>b. b \<noteq> c) (rev ys @ c # rev xs) = rev ys" by (subst takeWhile_append2) auto
  then show ?thesis by (simp add: strrchr_def)
qed

lemma strrchr_none: "c \<notin> set xs \<Longrightarrow> strrchr c xs = None"
  by (simp add: strrchr_def)

text \<open>The directory of a joined path is the directory it was joined from, with the host's separators: for a file name
  without separators, on either host, \<open>get_directory\<close> undoes \<open>join_path\<close>; and no foreign separator is left in the
  path.\<close>

theorem join_then_directory:
  assumes "sep = 47 \<or> sep = 92" and "\<forall>n. al n" and "\<forall>c \<in> set f. \<not> is_sep c" and "length d < 2 ^ 31"
  shows "\<exists>p. join_path sep al d f = Inr p \<and> get_directory al p = Inr (map (\<lambda>c. if is_sep c then sep else c) d)
    \<and> (\<forall>c \<in> set p. is_sep c \<longrightarrow> c = sep)"
proof -
  let ?m = "map (\<lambda>c. if is_sep c then sep else c)"
  have f: "?m f = f" using assms(3) by (simp add: map_idI)
  have p: "join_path sep al d f = Inr (?m d @ sep # f)" using assms(1,2) f by (simp add: join_path_def is_sep_def)
  define other where "other = (if sep = 47 then 92 else (47 :: byte))"
  have os: "other \<noteq> sep" "is_sep other" "is_sep sep" using assms(1) by (auto simp: other_def is_sep_def)
  then have no: "other \<notin> set (?m d @ sep # f)" "sep \<notin> set f" using assms(3) by (auto split: if_splits)
  have "later (strrchr 47 (?m d @ sep # f)) (strrchr 92 (?m d @ sep # f)) = Some (length d)"
    using strrchr_split [OF no(2), of "?m d"] strrchr_none [OF no(1)] assms(1) by (cases "sep = 47") (simp_all add: later_def other_def)
  then have "get_directory al (?m d @ sep # f) = Inr (?m d)" using assms(2,4) by (simp add: get_directory_def is_int32_def)
  moreover have "\<forall>c \<in> set (?m d @ sep # f). is_sep c \<longrightarrow> c = sep" using assms(3) by (auto simp: is_sep_def)
  ultimately show ?thesis using p by blast
qed

theorem join_then_directory_witness:
  "(case join_path 92 (\<lambda>n. True) [97, 47, 98] [99] of Inl e \<Rightarrow> False | Inr p \<Rightarrow> get_directory (\<lambda>n. True) p = Inr [97, 92, 98])"
  using join_then_directory [of 92 "\<lambda>n. True" "[99]" "[97, 47, 98]"] by (auto simp: is_sep_def)

text \<open>What \<open>mkdir\<close> promises: directories stay, and a path that may be made is one when all above it are.\<close>

definition makes_directories :: "(byte list \<Rightarrow> 'fs \<Rightarrow> 'fs) \<Rightarrow> (byte list \<Rightarrow> 'fs \<Rightarrow> bool) \<Rightarrow> (byte list \<Rightarrow> bool) \<Rightarrow> bool" where
  "makes_directories mkdir isdir may \<longleftrightarrow> (\<forall>p q fs. isdir q fs \<longrightarrow> isdir q (mkdir p fs))
     \<and> (\<forall>p fs. p \<noteq> [] \<longrightarrow> may p \<longrightarrow> (\<forall>i. 0 < i \<longrightarrow> i < length p \<longrightarrow> is_sep (p ! i) \<longrightarrow> isdir (take i p) fs) \<longrightarrow> isdir p (mkdir p fs))"

lemma mkdir_parents_ok:
  assumes m: "makes_directories mkdir isdir may" and may: "\<forall>i. may (take i work)"
    and below: "\<forall>i < k. 0 < i \<longrightarrow> is_sep (work ! i) \<longrightarrow> isdir (take i work) fs" and k: "k \<le> length work"
  shows "\<forall>i < length work. 0 < i \<longrightarrow> is_sep (work ! i) \<longrightarrow> isdir (take i work) (mkdir_parents mkdir work [k..<length work] fs)"
  using k below
proof (induction "length work - k" arbitrary: k fs)
  case 0
  then show ?case by simp
next
  case (Suc n)
  define fs' where "fs' = (if (work ! k = 47 \<or> work ! k = 92) \<and> k > 0 then mkdir (take k work) fs else fs)"
  have k: "k < length work" using Suc.hyps(2) by simp
  have "isdir (take i work) fs'" if i: "i < k + 1" "0 < i" "is_sep (work ! i)" for i
  proof (cases "i = k")
    case False
    then show ?thesis using Suc.prems(2) i m by (simp add: fs'_def makes_directories_def)
  next
    case True
    have "\<forall>j. 0 < j \<longrightarrow> j < length (take k work) \<longrightarrow> is_sep (take k work ! j) \<longrightarrow> isdir (take j (take k work)) fs"
      using Suc.prems(2) by (auto simp: min_def)
    moreover have "take k work \<noteq> []" using k i True by auto
    ultimately have "isdir (take k work) (mkdir (take k work) fs)" using m may unfolding makes_directories_def by blast
    then show ?thesis using i True by (simp add: fs'_def is_sep_def)
  qed
  then have "\<forall>i < k + 1. 0 < i \<longrightarrow> is_sep (work ! i) \<longrightarrow> isdir (take i work) fs'" by blast
  from Suc.hyps(1) [OF _ _ this] k Suc.hyps(2)
  show ?case by (simp add: upt_conv_Cons fs'_def)
qed

text \<open>Making a directory makes every missing parent: on a POSIX host, for a relative or an absolute path, also with
  separators doubled or at the end, when each directory on the way may be made the answer is 0, and the path and all
  its parents are directories.\<close>

theorem make_directory_makes_parents:
  assumes "makes_directories mkdir isdir may" and "\<forall>i. may (take i path)" and "\<forall>n. al n" and "path \<noteq> []"
  shows "\<exists>fs'. make_directory False mkdir isdir al (Some path) fs = (0, fs') \<and> isdir path fs'
    \<and> (\<forall>i < length path. 0 < i \<longrightarrow> is_sep (path ! i) \<longrightarrow> isdir (take i path) fs')"
proof -
  define start where "start = (if path ! 0 = 47 \<or> path ! 0 = 92 then 1 else 0 :: nat)"
  define fs1 where "fs1 = mkdir_parents mkdir path [start..<length path] fs"
  have "start \<le> length path" "\<forall>i < start. 0 < i \<longrightarrow> is_sep (path ! i) \<longrightarrow> isdir (take i path) fs"
    using assms(4) by (cases path; simp add: start_def)+
  from mkdir_parents_ok [OF assms(1,2) this(2,1)]
  have p: "\<forall>i < length path. 0 < i \<longrightarrow> is_sep (path ! i) \<longrightarrow> isdir (take i path) fs1" by (simp add: fs1_def)
  have "may path" using assms(2) [rule_format, of "length path"] by simp
  then have "isdir path (mkdir path fs1)" using assms(1,4) p unfolding makes_directories_def by blast
  moreover have "\<forall>i < length path. 0 < i \<longrightarrow> is_sep (path ! i) \<longrightarrow> isdir (take i path) (mkdir path fs1)"
    using p assms(1) unfolding makes_directories_def by blast
  moreover have "make_directory False mkdir isdir al (Some path) fs = (if isdir path (mkdir path fs1) then 0 else 1, mkdir path fs1)"
    using assms(3,4) by (simp add: make_directory_def Let_def fs1_def start_def)
  ultimately show ?thesis by auto
qed

definition plain_mkdir :: "byte list \<Rightarrow> byte list list \<Rightarrow> byte list list" where
  "plain_mkdir p fs = (if list_all (\<lambda>i. 0 < i \<longrightarrow> is_sep (p ! i) \<longrightarrow> take i p \<in> set fs) [0..<length p] then p # fs else fs)"

theorem make_directory_makes_parents_witness:
  "fst (make_directory False plain_mkdir (\<lambda>p fs. p \<in> set fs) (\<lambda>n. True) (Some [47, 97, 47, 47, 98, 47]) []) = 0"
proof -
  have "makes_directories plain_mkdir (\<lambda>p fs. p \<in> set fs) (\<lambda>p. True)"
    by (auto simp: makes_directories_def plain_mkdir_def list_all_iff)
  from make_directory_makes_parents [OF this, where path = "[47, 97, 47, 47, 98, 47]" and al = "\<lambda>n. True" and fs = "[]"] show ?thesis by auto
qed

end
