(* ===== verification/Process.thy ===== *)
theory Process
  imports Spawn_Quote Line_Reader
begin

text \<open>
  Starting a program on a POSIX host and talking to it (\<open>spawn_stream\<close>, \<open>proc_spawn_run\<close>, \<open>proc_write\<close>,
  \<open>proc_read_all\<close>, \<open>proc_read_some\<close> of \<open>runtime/program_support.c\<close>).  The state is the table of open
  descriptors, each with its close-on-exec mark, and the children with the table each was born with.  The
  answers of the kernel are a parameter.
\<close>

subsection \<open>Definitions\<close>

definition PRISMIO_STDIO_INHERIT :: int where "PRISMIO_STDIO_INHERIT = 0"
definition PRISMIO_STDIO_PIPE :: int where "PRISMIO_STDIO_PIPE = 1"
definition PRISMIO_STDIO_DISCARD :: int where "PRISMIO_STDIO_DISCARD = 2"

record PrismioSpawnOut =
  handle :: int
  stdin_fd :: int
  stdout_fd :: int
  stderr_fd :: int
  error :: int

definition ENOMEM :: int where "ENOMEM = 12"

type_synonym fd_table = "int \<rightharpoonup> bool"

text \<open>A failing call answers its error number, never 0.\<close>

record answers =
  init_actions :: "int option"
  open_null :: "fd_table \<Rightarrow> int + int"
  make_pipe :: "fd_table \<Rightarrow> int + (int \<times> int)"
  set_cloexec :: "int \<Rightarrow> int option"
  add_dup2 :: "(int \<times> int) list \<Rightarrow> int"
  spawnp :: "(int \<times> int) list \<Rightarrow> byte list option list \<Rightarrow> int + int"

record child =
  child_pid :: int
  dups :: "(int \<times> int) list"
  vector :: "byte list option list"
  born_with :: fd_table

record procs =
  fds :: fd_table
  actions :: "(int \<times> int) list"
  children :: "child list"

definition close_fd :: "int \<Rightarrow> procs \<Rightarrow> procs" where
  "close_fd fd s = (if fd \<ge> 0 then s\<lparr>fds := (fds s)(fd := None)\<rparr> else s)"

definition adddup2 :: "answers \<Rightarrow> int \<Rightarrow> int \<Rightarrow> procs \<Rightarrow> int \<times> procs" where
  "adddup2 K fd target s = (let e = add_dup2 K (actions s @ [(fd, target)]) in
     (e, if e = 0 then s\<lparr>actions := actions s @ [(fd, target)]\<rparr> else s))"

text \<open>The answer, the child's end and the parent's end.\<close>

definition spawn_stream :: "answers \<Rightarrow> int \<Rightarrow> int \<Rightarrow> bool \<Rightarrow> procs \<Rightarrow> (int \<times> int \<times> int) \<times> procs" where
  "spawn_stream K mode target writable s =
     (if mode = PRISMIO_STDIO_INHERIT then ((0, - 1, - 1), s)
      else if mode = PRISMIO_STDIO_DISCARD
      then case open_null K (fds s) of
          Inl e \<Rightarrow> ((e, - 1, - 1), s)
        | Inr null_fd \<Rightarrow> let (e, s) = adddup2 K null_fd target (s\<lparr>fds := (fds s)(null_fd \<mapsto> False)\<rparr>) in ((e, null_fd, - 1), s)
      else case make_pipe K (fds s) of
          Inl e \<Rightarrow> ((e, - 1, - 1), s)
        | Inr (r, w) \<Rightarrow>
            let child_end = (if writable then w else r); parent_end = (if writable then r else w);
                s = s\<lparr>fds := (fds s)(r \<mapsto> False, w \<mapsto> False)\<rparr>
            in case set_cloexec K parent_end of
                Some e \<Rightarrow> ((e, - 1, - 1), close_fd w (close_fd r s))
              | None \<Rightarrow> let (e, s) = adddup2 K child_end target (s\<lparr>fds := (fds s)(parent_end \<mapsto> True)\<rparr>)
                        in ((e, child_end, parent_end), s))"

definition next_stream :: "answers \<Rightarrow> int \<Rightarrow> int \<Rightarrow> int \<Rightarrow> bool \<Rightarrow> procs \<Rightarrow> (int \<times> int \<times> int) \<times> procs" where
  "next_stream K failure mode target writable s =
     (if failure = 0 then spawn_stream K mode target writable s else ((failure, - 1, - 1), s))"

definition proc_spawn_run ::
  "answers \<Rightarrow> (nat \<Rightarrow> bool) \<Rightarrow> int \<Rightarrow> int \<Rightarrow> int \<Rightarrow> PrismioSpawnOut option \<Rightarrow> builder \<Rightarrow> procs \<Rightarrow> (int \<times> PrismioSpawnOut option \<times> builder) \<times> procs" where
  "proc_spawn_run K al stdin_mode stdout_mode stderr_mode out b s =
     (if out = None then ((- 1, None, b), s)
      else let out = \<lparr>handle = - 1, stdin_fd = - 1, stdout_fd = - 1, stderr_fd = - 1, error = 0\<rparr> in
      case init_actions K of Some e \<Rightarrow> ((- 1, Some (out\<lparr>error := e\<rparr>), spawn_builder_reset), s)
      | None \<Rightarrow>
          let s = s\<lparr>actions := []\<rparr>;
              ((failure, child_in, parent_in), s) = spawn_stream K stdin_mode 0 False s;
              ((failure, child_out, parent_out), s) = next_stream K failure stdout_mode 1 True s;
              ((failure, child_err, parent_err), s) = next_stream K failure stderr_mode 2 True s;
              ((failure, pid), s) =
                (if failure \<noteq> 0 then ((failure, - 1), s)
                 else case spawn_vector al b of None \<Rightarrow> ((ENOMEM, - 1), s)
                 | Some v \<Rightarrow> (case spawnp K (actions s) v of Inl e \<Rightarrow> ((e, - 1), s)
                     | Inr pid \<Rightarrow> ((0, pid), s\<lparr>children := \<lparr>child_pid = pid, dups = actions s, vector = v, born_with = fds s\<rparr> # children s\<rparr>)));
              s = close_fd child_err (close_fd child_out (close_fd child_in s))
          in if failure \<noteq> 0
             then ((- 1, Some (out\<lparr>error := failure\<rparr>), spawn_builder_reset), close_fd parent_err (close_fd parent_out (close_fd parent_in s)))
             else ((0, Some (out\<lparr>handle := pid, stdin_fd := parent_in, stdout_fd := parent_out, stderr_fd := parent_err\<rparr>), spawn_builder_reset), s))"

text \<open>Writing: what each \<open>write\<close> answers, in turn; \<open>None\<close> when the last one given does not end the loop.  The
  kernel is handed the bytes from offset \<open>written\<close> on, never takes more than the count it is given, and
  \<open>sent\<close> is what it has taken so far.\<close>

datatype write_answer = Interrupted | Failed | Took nat

fun write_loop :: "write_answer list \<Rightarrow> byte list \<Rightarrow> int \<Rightarrow> int \<Rightarrow> byte list \<Rightarrow> (int \<times> byte list) option" where
  "write_loop ws bytes len written sent =
     (if written < len
      then case ws of [] \<Rightarrow> None
        | w # ws \<Rightarrow> (case w of
            Interrupted \<Rightarrow> write_loop ws bytes len written sent
          | Failed \<Rightarrow> Some (- 1, sent)
          | Took n \<Rightarrow> let buf = drop (nat written) bytes; count = nat (len - written); n = min n count in
                      if n = 0 then Some (written, sent)
                      else write_loop ws bytes len (written + int n) (sent @ take n (take count buf)))
      else Some (written, sent))"

declare write_loop.simps [simp del]

definition proc_write :: "write_answer list \<Rightarrow> int \<Rightarrow> byte list option \<Rightarrow> int \<Rightarrow> (int \<times> byte list) option" where
  "proc_write ws fd bytes len =
     (if fd < 0 \<or> bytes = None \<or> len < 0 then Some (- 1, []) else write_loop ws (the bytes) len 0 [])"

function read_loop :: "kernel \<Rightarrow> (nat \<Rightarrow> bool) \<Rightarrow> nat \<Rightarrow> byte list \<Rightarrow> byte list \<Rightarrow> byte list option" where
  "read_loop os al cap filled text =
     (if length filled + 1 \<ge> cap \<and> \<not> al (cap * 2) then None
      else let cap = (if length filled + 1 \<ge> cap then cap * 2 else cap);
               room = cap - length filled - 1; n = min (gives os room text) (min room (length text))
           in if n = 0 then Some filled else read_loop os al cap (filled @ take n text) (drop n text))"
  by pat_completeness auto
termination
  by (relation "measure (\<lambda>(os, al, c, f, r). length r)") auto

declare read_loop.simps [simp del]

definition proc_read_all :: "kernel \<Rightarrow> (nat \<Rightarrow> bool) \<Rightarrow> int \<Rightarrow> byte list \<Rightarrow> byte list option" where
  "proc_read_all os al fd text =
     (if \<not> al 4096 then None else if fd \<ge> 0 then read_loop os al 4096 [] text else Some [])"

definition proc_read_some :: "kernel \<Rightarrow> (nat \<Rightarrow> bool) \<Rightarrow> int \<Rightarrow> int \<Rightarrow> byte list \<Rightarrow> byte list option \<times> byte list" where
  "proc_read_some os al fd mx rest =
     (let room = nat (if mx < 1 then 1 else mx);
          n = (if fd \<ge> 0 \<and> grants os room then min (gives os room rest) (min room (length rest)) else 0)
      in (if al (n + 1) then Some (take n rest) else None, drop n rest))"

subsection \<open>Descriptors\<close>

text \<open>What the kernel promises: a new descriptor is not negative and of no open one; a failure has a number that is not 0.\<close>

definition new_descriptors :: "answers \<Rightarrow> bool" where
  "new_descriptors K \<longleftrightarrow>
     (\<forall>T. case open_null K T of Inl e \<Rightarrow> e \<noteq> 0 | Inr fd \<Rightarrow> 0 \<le> fd \<and> T fd = None)
   \<and> (\<forall>T. case make_pipe K T of Inl e \<Rightarrow> e \<noteq> 0 | Inr (r, w) \<Rightarrow> 0 \<le> r \<and> 0 \<le> w \<and> r \<noteq> w \<and> T r = None \<and> T w = None)
   \<and> (\<forall>fd. set_cloexec K fd \<noteq> Some 0) \<and> (\<forall>as v. spawnp K as v \<noteq> Inl 0)"

text \<open>The table with a child's end and a parent's end more.\<close>

definition with_ends :: "int \<Rightarrow> int \<Rightarrow> fd_table \<Rightarrow> fd_table" where
  "with_ends c p T = (\<lambda>x. if 0 \<le> x \<and> x = p then Some True else if 0 \<le> x \<and> x = c then Some False else T x)"

definition is_pipe :: "int \<Rightarrow> bool" where
  "is_pipe mode \<longleftrightarrow> mode \<noteq> PRISMIO_STDIO_INHERIT \<and> mode \<noteq> PRISMIO_STDIO_DISCARD"

definition stream_made :: "int \<Rightarrow> int \<Rightarrow> int \<Rightarrow> int \<Rightarrow> int \<Rightarrow> procs \<Rightarrow> procs \<Rightarrow> bool" where
  "stream_made mode target e c p s s' \<longleftrightarrow> fds s' = with_ends c p (fds s) \<and> children s' = children s
     \<and> (c = - 1 \<or> 0 \<le> c \<and> fds s c = None) \<and> (p = - 1 \<or> 0 \<le> p \<and> fds s p = None \<and> c \<noteq> p)
     \<and> (e = 0 \<longrightarrow> (0 \<le> p \<longleftrightarrow> is_pipe mode) \<and> (0 \<le> c \<longleftrightarrow> mode \<noteq> PRISMIO_STDIO_INHERIT)
          \<and> actions s' = actions s @ (if 0 \<le> c then [(c, target)] else []))"

lemma with_ends_none [simp]: "with_ends (- 1) (- 1) T = T"
  by (rule ext) (auto simp: with_ends_def)

lemma spawn_stream_ok:
  assumes K: "new_descriptors K" and r: "spawn_stream K mode target w s = ((e, c, p), s')"
  shows "stream_made mode target e c p s s'"
proof -
  consider "mode = PRISMIO_STDIO_INHERIT" | "mode = PRISMIO_STDIO_DISCARD" "mode \<noteq> PRISMIO_STDIO_INHERIT" | "is_pipe mode"
    by (auto simp: is_pipe_def)
  then show ?thesis
  proof cases
    case 1
    then show ?thesis using r by (auto simp: spawn_stream_def stream_made_def is_pipe_def)
  next
    case 2
    have "case open_null K (fds s) of Inl e \<Rightarrow> e \<noteq> 0 | Inr fd \<Rightarrow> 0 \<le> fd \<and> fds s fd = None"
      using K by (simp add: new_descriptors_def)
    then show ?thesis using r 2
      by (auto simp: spawn_stream_def stream_made_def is_pipe_def adddup2_def Let_def with_ends_def fun_eq_iff split: sum.splits if_splits)
  next
    case 3
    have m: "case make_pipe K (fds s) of Inl e \<Rightarrow> e \<noteq> 0 | Inr (r, w) \<Rightarrow> 0 \<le> r \<and> 0 \<le> w \<and> r \<noteq> w \<and> fds s r = None \<and> fds s w = None"
      using K by (simp add: new_descriptors_def)
    show ?thesis
    proof (cases "make_pipe K (fds s)")
      case (Inl e1)
      then show ?thesis using m r 3 by (auto simp: spawn_stream_def stream_made_def is_pipe_def)
    next
      case (Inr rw)
      obtain a b where ab: "rw = (a, b)" by (cases rw)
      have f: "0 \<le> a" "0 \<le> b" "a \<noteq> b" "fds s a = None" "fds s b = None" using m Inr ab by auto
      have nz: "set_cloexec K x \<noteq> Some 0" for x using K by (simp add: new_descriptors_def)
      show ?thesis
      proof (cases "set_cloexec K (if w then a else b)")
        case None
        then show ?thesis using r 3 Inr ab f
          by (cases w) (auto simp: spawn_stream_def stream_made_def is_pipe_def adddup2_def Let_def with_ends_def fun_eq_iff split: if_splits)
      next
        case (Some e1)
        then have "(e, c, p) = (e1, - 1, - 1)" "s' = close_fd b (close_fd a (s\<lparr>fds := (fds s)(a \<mapsto> False, b \<mapsto> False)\<rparr>))"
          using r 3 Inr ab unfolding spawn_stream_def is_pipe_def by (auto simp: Let_def)
        moreover have "fds (close_fd b (close_fd a (s\<lparr>fds := (fds s)(a \<mapsto> False, b \<mapsto> False)\<rparr>))) = fds s"
          using f by (auto simp: close_fd_def fun_eq_iff)
        ultimately show ?thesis using nz [of "if w then a else b"] Some by (auto simp: stream_made_def close_fd_def)
      qed
    qed
  qed
qed

lemma next_stream_ok:
  assumes "new_descriptors K" "next_stream K f mode target w s = ((e, c, p), s')"
  shows "(f = 0 \<longrightarrow> stream_made mode target e c p s s') \<and> (f \<noteq> 0 \<longrightarrow> e = f \<and> c = - 1 \<and> p = - 1 \<and> s' = s)"
  using assms spawn_stream_ok by (auto simp: next_stream_def)

text \<open>The parent's ends, each with its mark, and nothing else.\<close>

definition with_parents :: "int set \<Rightarrow> fd_table \<Rightarrow> fd_table" where
  "with_parents P T = (\<lambda>x. if x \<in> P then Some True else T x)"

definition ends_of :: "PrismioSpawnOut \<Rightarrow> int set" where
  "ends_of out = {stdin_fd out, stdout_fd out, stderr_fd out} - {- 1}"

definition fresh_end :: "fd_table \<Rightarrow> int \<Rightarrow> int \<Rightarrow> bool" where
  "fresh_end T c p \<longleftrightarrow> (c = - 1 \<or> 0 \<le> c \<and> T c = None) \<and> (p = - 1 \<or> 0 \<le> p \<and> T p = None \<and> c \<noteq> p)"

lemma next_stream_table:
  assumes "new_descriptors K" "next_stream K f mode target w s = ((e, c, p), s')"
  shows "fds s' = with_ends c p (fds s) \<and> children s' = children s \<and> fresh_end (fds s) c p"
  using next_stream_ok [OF assms] by (cases "f = 0") (simp_all add: stream_made_def fresh_end_def)

definition shut :: "int \<Rightarrow> fd_table \<Rightarrow> fd_table" where
  "shut fd T = (\<lambda>x. if 0 \<le> x \<and> x = fd then None else T x)"

lemma close_fd_simps [simp]:
  "fds (close_fd fd s) = shut fd (fds s)" "children (close_fd fd s) = children s"
  by (auto simp: close_fd_def shut_def fun_eq_iff)

lemma with_ends_None: "with_ends c p T x = None \<longleftrightarrow> T x = None \<and> (0 \<le> x \<longrightarrow> x \<noteq> c \<and> x \<noteq> p)"
  by (auto simp: with_ends_def)

lemma three_ends:
  assumes f: "fresh_end T c1 p1" "fresh_end (with_ends c1 p1 T) c2 p2" "fresh_end (with_ends c2 p2 (with_ends c1 p1 T)) c3 p3"
  defines "T3 \<equiv> with_ends c3 p3 (with_ends c2 p2 (with_ends c1 p1 T))" and "P \<equiv> {p1, p2, p3} - {- 1}"
  shows "shut c3 (shut c2 (shut c1 T3)) = with_parents P T" and "\<forall>fd \<in> P. T fd = None \<and> 0 \<le> fd \<and> T3 fd = Some True"
    and "shut p3 (shut p2 (shut p1 (with_parents P T))) = T"
proof -
  have f1: "c1 = - 1 \<or> 0 \<le> c1 \<and> T c1 = None" "p1 = - 1 \<or> 0 \<le> p1 \<and> T p1 = None \<and> c1 \<noteq> p1" using f(1) unfolding fresh_end_def by blast+
  have f2: "c2 = - 1 \<or> 0 \<le> c2 \<and> T c2 = None \<and> c2 \<noteq> c1 \<and> c2 \<noteq> p1" "p2 = - 1 \<or> 0 \<le> p2 \<and> T p2 = None \<and> p2 \<noteq> c1 \<and> p2 \<noteq> p1 \<and> c2 \<noteq> p2"
    using f(2) unfolding fresh_end_def with_ends_None by blast+
  have f3: "c3 = - 1 \<or> 0 \<le> c3 \<and> T c3 = None \<and> c3 \<noteq> c1 \<and> c3 \<noteq> p1 \<and> c3 \<noteq> c2 \<and> c3 \<noteq> p2"
    "p3 = - 1 \<or> 0 \<le> p3 \<and> T p3 = None \<and> p3 \<noteq> c1 \<and> p3 \<noteq> p1 \<and> p3 \<noteq> c2 \<and> p3 \<noteq> p2 \<and> c3 \<noteq> p3"
    using f(3) unfolding fresh_end_def with_ends_None by blast+
  have neg: "\<not> 0 \<le> (- 1 :: int)" by simp
  have P: "fd \<in> P \<longleftrightarrow> 0 \<le> fd \<and> (fd = p1 \<or> fd = p2 \<or> fd = p3)" for fd
    unfolding P_def using f1(2) f2(2) f3(2) neg by blast
  have pn: "T fd = None" if "fd \<in> P" for fd using that f1(2) f2(2) f3(2) unfolding P_def by auto
  have cn: "T fd = None \<and> fd \<notin> P" if "0 \<le> fd" "fd = c1 \<or> fd = c2 \<or> fd = c3" for fd
    using that f1 f2 f3 neg unfolding P by metis
  have t3: "T3 x = (if x \<in> P then Some True else if 0 \<le> x \<and> (x = c1 \<or> x = c2 \<or> x = c3) then Some False else T x)" for x
  proof (cases "x \<in> P")
    case True
    then have "0 \<le> x" "x = p1 \<or> x = p2 \<or> x = p3" "x \<noteq> c1" "x \<noteq> c2" "x \<noteq> c3" using P [of x] cn [of x] by blast+
    then show ?thesis using True unfolding T3_def with_ends_def by auto
  next
    case False
    then have "\<not> (0 \<le> x \<and> x = p1)" "\<not> (0 \<le> x \<and> x = p2)" "\<not> (0 \<le> x \<and> x = p3)" using P [of x] by blast+
    then show ?thesis using False unfolding T3_def with_ends_def by auto
  qed
  show "shut c3 (shut c2 (shut c1 T3)) = with_parents P T"
    by (rule ext) (use cn in \<open>auto simp: shut_def with_parents_def t3\<close>)
  show "\<forall>fd \<in> P. T fd = None \<and> 0 \<le> fd \<and> T3 fd = Some True" using pn P t3 by simp
  show "shut p3 (shut p2 (shut p1 (with_parents P T))) = T"
    by (rule ext) (use pn P in \<open>auto simp: shut_def with_parents_def\<close>)
qed

text \<open>C31. Starting a program leaks no descriptor, whatever fails.  When it fails, the descriptors open afterwards are
  those from before and the caller is given none; when it succeeds, there are more only the parent's ends of the
  streams asked to be pipes, the caller is given exactly these, and every one of them was marked close-on-exec when
  the child was born, so no child holds the other end of its own pipe; the builder is empty again.\<close>

theorem spawn_leaks_no_descriptor:
  assumes "new_descriptors K" and "proc_spawn_run K al m0 m1 m2 (Some out0) b s = ((r, Some out, b'), s')"
  shows "b' = spawn_builder_reset \<and>
    (if r = 0 then fds s' = with_parents (ends_of out) (fds s) \<and> (\<forall>fd \<in> ends_of out. fds s fd = None)
        \<and> (0 \<le> stdin_fd out \<longleftrightarrow> is_pipe m0) \<and> (0 \<le> stdout_fd out \<longleftrightarrow> is_pipe m1) \<and> (0 \<le> stderr_fd out \<longleftrightarrow> is_pipe m2)
        \<and> (\<exists>c. children s' = c # children s \<and> (\<forall>fd \<in> ends_of out. born_with c fd = Some True) \<and> Some (vector c) = spawn_vector al b)
     else fds s' = fds s \<and> ends_of out = {} \<and> children s' = children s)"
proof -
  obtain e1 c1 p1 s1 where S1: "spawn_stream K m0 0 False (s\<lparr>actions := []\<rparr>) = ((e1, c1, p1), s1)" by (metis prod.exhaust)
  obtain e2 c2 p2 s2 where S2: "next_stream K e1 m1 1 True s1 = ((e2, c2, p2), s2)" by (metis prod.exhaust)
  obtain e3 c3 p3 s3 where S3: "next_stream K e2 m2 2 True s2 = ((e3, c3, p3), s3)" by (metis prod.exhaust)
  have S1': "next_stream K 0 m0 0 False (s\<lparr>actions := []\<rparr>) = ((e1, c1, p1), s1)" using S1 by (simp add: next_stream_def)
  note T1 = next_stream_table [OF assms(1) S1', simplified] and T2 = next_stream_table [OF assms(1) S2] and T3 = next_stream_table [OF assms(1) S3]
  have T: "fds s3 = with_ends c3 p3 (with_ends c2 p2 (with_ends c1 p1 (fds s)))" "children s3 = children s" using T1 T2 T3 by simp_all
  define P where "P = {p1, p2, p3} - {- 1}"
  have F: "fresh_end (fds s) c1 p1" "fresh_end (with_ends c1 p1 (fds s)) c2 p2" "fresh_end (with_ends c2 p2 (with_ends c1 p1 (fds s))) c3 p3"
    using T1 T2 T3 by simp_all
  note E = three_ends [OF F, folded T P_def]
  show ?thesis
  proof (cases "init_actions K")
    case (Some e)
    then show ?thesis using assms(2) by (auto simp: proc_spawn_run_def Let_def ends_of_def)
  next
    case None
    define s4 where "s4 = close_fd c3 (close_fd c2 (close_fd c1 s3))"
    have s4: "fds s4 = with_parents P (fds s)" "children s4 = children s" using E(1) T by (simp_all add: s4_def)
    define o0 where "o0 = \<lparr>handle = - 1, stdin_fd = - 1, stdout_fd = - 1, stderr_fd = - 1, error = 0\<rparr>"
    have fail: ?thesis if "proc_spawn_run K al m0 m1 m2 (Some out0) b s
        = ((- 1, Some (o0\<lparr>error := e\<rparr>), spawn_builder_reset), close_fd p3 (close_fd p2 (close_fd p1 s4)))" for e
      using that assms(2) E(3) s4 by (auto simp: ends_of_def o0_def)
    show ?thesis
    proof (cases "e3 = 0")
      case False
      show ?thesis by (rule fail [of e3]) (simp add: proc_spawn_run_def Let_def None S1 S2 S3 False s4_def o0_def)
    next
      case e3: True
      show ?thesis
      proof (cases "spawn_vector al b")
        case no: None
        show ?thesis by (rule fail [of ENOMEM]) (simp add: proc_spawn_run_def Let_def None S1 S2 S3 e3 no s4_def o0_def ENOMEM_def)
      next
        case v: (Some v)
        show ?thesis
        proof (cases "spawnp K (actions s3) v")
          case (Inl e)
          then have "e \<noteq> 0" using assms(1) by (auto simp: new_descriptors_def)
          then show ?thesis by (intro fail [of e]) (simp add: proc_spawn_run_def Let_def None S1 S2 S3 e3 v Inl s4_def o0_def)
        next
          case (Inr pid)
          define c where "c = \<lparr>child_pid = pid, dups = actions s3, vector = v, born_with = fds s3\<rparr>"
          have run: "r = 0" "b' = spawn_builder_reset" "out = o0\<lparr>handle := pid, stdin_fd := p1, stdout_fd := p2, stderr_fd := p3\<rparr>"
            "fds s' = fds s4" "children s' = c # children s4"
            using assms(2) by (auto simp: proc_spawn_run_def Let_def None S1 S2 S3 e3 v Inr s4_def o0_def c_def)
          have e: "e2 = 0" "e1 = 0" using next_stream_ok [OF assms(1) S3] next_stream_ok [OF assms(1) S2] e3 by auto
          have pipes: "0 \<le> p1 \<longleftrightarrow> is_pipe m0" "0 \<le> p2 \<longleftrightarrow> is_pipe m1" "0 \<le> p3 \<longleftrightarrow> is_pipe m2"
            using next_stream_ok [OF assms(1) S1'] next_stream_ok [OF assms(1) S2] next_stream_ok [OF assms(1) S3] e e3
            by (simp_all add: stream_made_def)
          have "ends_of out = P" by (simp add: run ends_of_def P_def)
          then show ?thesis using run s4 E(2) pipes v by (simp add: c_def o0_def T)
        qed
      qed
    qed
  qed
qed

text \<open>A kernel that opens the two lowest free descriptors from 3 on, and refuses the third pipe.\<close>

definition low_fd :: "fd_table \<Rightarrow> int" where
  "low_fd T = (if T 3 = None then 3 else if T 4 = None then 4 else if T 5 = None then 5 else if T 6 = None then 6 else - 1)"

definition sample_kernel :: answers where
  "sample_kernel = \<lparr>init_actions = None, open_null = \<lambda>T. if low_fd T < 0 then Inl 24 else Inr (low_fd T),
     make_pipe = \<lambda>T. let r = low_fd T; w = low_fd (T(r \<mapsto> False)) in if r < 0 \<or> w < 0 then Inl 24 else Inr (r, w),
     set_cloexec = \<lambda>fd. None, add_dup2 = \<lambda>as. 0, spawnp = \<lambda>as v. Inr 100\<rparr>"

lemma low_fd_free: "low_fd T < 0 \<or> 0 \<le> low_fd T \<and> T (low_fd T) = None"
  by (simp add: low_fd_def)

lemma sample_kernel_fresh: "new_descriptors sample_kernel"
proof -
  have "let w = low_fd (T(low_fd T \<mapsto> False)) in w < 0 \<or> w \<noteq> low_fd T \<and> T w = None" for T
    using low_fd_free [of "T(low_fd T \<mapsto> False)"] by (auto simp: Let_def split: if_splits)
  then have w: "low_fd (T(low_fd T \<mapsto> False)) < 0 \<or> low_fd (T(low_fd T \<mapsto> False)) \<noteq> low_fd T \<and> T (low_fd (T(low_fd T \<mapsto> False))) = None" for T
    by (simp add: Let_def)
  have 1: "\<not> low_fd T < 0 \<Longrightarrow> 0 \<le> low_fd T \<and> T (low_fd T) = None" for T using low_fd_free [of T] by blast
  have 2: "\<not> low_fd (T(low_fd T \<mapsto> False)) < 0 \<Longrightarrow>
      low_fd T \<noteq> low_fd (T(low_fd T \<mapsto> False)) \<and> T (low_fd (T(low_fd T \<mapsto> False))) = None" for T using w [of T] by auto
  have 3: "\<not> x < 0 \<Longrightarrow> 0 \<le> x" for x :: int by simp
  show ?thesis
    unfolding new_descriptors_def sample_kernel_def by (simp add: Let_def del: not_less) (use 1 2 3 in metis)
qed

definition no_procs :: procs where
  "no_procs = \<lparr>fds = [0 \<mapsto> False, 1 \<mapsto> False, 2 \<mapsto> False], actions = [], children = []\<rparr>"

definition no_out :: PrismioSpawnOut where
  "no_out = \<lparr>handle = 0, stdin_fd = 0, stdout_fd = 0, stderr_fd = 0, error = 0\<rparr>"

theorem spawn_leaks_no_descriptor_witness:
  "\<exists>out b' s'. proc_spawn_run sample_kernel (\<lambda>n. True) 0 1 2 (Some no_out) spawn_builder_reset no_procs = ((0, Some out, b'), s') \<and> fds s' = with_parents {3} (fds no_procs)
     \<and> (\<exists>c. children s' = [c] \<and> born_with c 3 = Some True)"
proof -
  define sa where "sa = no_procs\<lparr>fds := (fds no_procs)(3 \<mapsto> False, 4 \<mapsto> False, 3 \<mapsto> True), actions := [(4, 1)]\<rparr>"
  define sb where "sb = no_procs\<lparr>fds := (fds no_procs)(3 \<mapsto> False, 4 \<mapsto> False, 3 \<mapsto> True, 5 \<mapsto> False), actions := [(4, 1), (5, 2)]\<rparr>"
  note S = next_stream_def spawn_stream_def PRISMIO_STDIO_INHERIT_def PRISMIO_STDIO_DISCARD_def sample_kernel_def low_fd_def no_procs_def adddup2_def Let_def
  have s1: "next_stream sample_kernel 0 1 1 True (no_procs\<lparr>actions := []\<rparr>) = ((0, 4, 3), sa)" by (simp add: S sa_def)
  have s2: "next_stream sample_kernel 0 2 2 True sa = ((0, 5, - 1), sb)" by (simp add: S sa_def sb_def)
  have k: "init_actions sample_kernel = None" "spawnp sample_kernel as v = Inr 100" for as v by (simp_all add: sample_kernel_def)
  have "spawn_stream sample_kernel 0 0 False (no_procs\<lparr>actions := []\<rparr>) = ((0, - 1, - 1), no_procs\<lparr>actions := []\<rparr>)"
    by (simp add: spawn_stream_def PRISMIO_STDIO_INHERIT_def)
  then have "\<exists>out b' s'. proc_spawn_run sample_kernel (\<lambda>n. True) 0 1 2 (Some no_out) spawn_builder_reset no_procs = ((0, Some out, b'), s') \<and> ends_of out = {3}"
    by (simp add: proc_spawn_run_def Let_def s1 s2 spawn_vector_def ends_of_def k) auto
  then obtain out b' s' where run: "proc_spawn_run sample_kernel (\<lambda>n. True) 0 1 2 (Some no_out) spawn_builder_reset no_procs = ((0, Some out, b'), s')"
    and e: "ends_of out = {3}" by blast
  show ?thesis using spawn_leaks_no_descriptor [OF sample_kernel_fresh run] run e by (auto simp: no_procs_def)
qed

subsection \<open>Text through a pipe\<close>

lemma write_loop_took: "k < len \<Longrightarrow> min n (nat (len - k)) \<noteq> 0 \<Longrightarrow>
    write_loop (Took n # ws) bytes len k sent
      = write_loop ws bytes len (k + int (min n (nat (len - k)))) (sent @ take (min n (nat (len - k))) (take (nat (len - k)) (drop (nat k) bytes)))"
  by (subst write_loop.simps) (simp only: list.case write_answer.case Let_def if_True if_False)

lemma write_loop_ok:
  assumes "write_loop ws bytes len k out = Some (r, sent)" "0 \<le> k" "k \<le> len" "out = take (nat k) bytes"
  shows "(\<exists>n. sent = take n bytes) \<and> (r = - 1 \<longrightarrow> Failed \<in> set ws)
    \<and> (r \<noteq> - 1 \<longrightarrow> 0 \<le> r \<and> r \<le> len \<and> sent = take (nat r) bytes \<and> (r < len \<longrightarrow> Took 0 \<in> set ws))"
  using assms
proof (induction ws bytes len k out arbitrary: sent rule: write_loop.induct)
  case (1 ws bytes len k out)
  show ?case
  proof (cases "k < len")
    case False
    then show ?thesis using "1.prems" by (auto simp: write_loop.simps [of ws])
  next
    case True
    then obtain w us where ws: "ws = w # us" using "1.prems"(1) by (cases ws) (auto simp: write_loop.simps [of "[]"])
    show ?thesis
    proof (cases w)
      case Interrupted
      have "write_loop us bytes len k out = Some (r, sent)" using "1.prems"(1) True ws Interrupted by (subst (asm) write_loop.simps) simp
      from "1.IH"(1) [OF True ws Interrupted this "1.prems"(2-4)] show ?thesis unfolding ws by auto
    next
      case Failed
      then show ?thesis using "1.prems" True ws by (auto simp: write_loop.simps [of "Failed # us"])
    next
      case (Took n)
      show ?thesis
      proof (cases "n = 0")
        case n: True
        then show ?thesis using "1.prems" True ws Took by (auto simp: write_loop.simps [of "Took 0 # us"])
      next
        case n: False
        define c where "c = nat (len - k)"
        define m where "m = min n c"
        define buf where "buf = drop (nat k) bytes"
        have m: "m \<noteq> 0" "k + int m \<le> len" "m \<le> c" using n True by (auto simp: m_def c_def)
        have "write_loop us bytes len (k + int m) (out @ take m (take c buf)) = Some (r, sent)"
          using "1.prems"(1) write_loop_took [OF True m(1) [unfolded m_def c_def], of us bytes out] by (simp only: ws Took m_def c_def buf_def)
        moreover have "nat (k + int m) = nat k + m" using "1.prems"(2) by simp
        then have "out @ take m (take c buf) = take (nat (k + int m)) bytes"
          using m(3) "1.prems"(4) by (simp add: buf_def take_add min_def)
        ultimately show ?thesis
          using "1.IH"(2) [OF True ws Took buf_def c_def m_def m(1)] m(2) "1.prems"(2) unfolding ws by auto
      qed
    qed
  qed
qed

lemma read_loop_ok:
  assumes "reliable os" "\<forall>n. al n" "length filled < cap"
  shows "read_loop os al cap filled body = Some (filled @ body)"
  using assms
proof (induction os al cap filled body rule: read_loop.induct)
  case (1 os al cap filled body)
  define cap' where "cap' = (if length filled + 1 \<ge> cap then cap * 2 else cap)"
  define room where "room = cap' - length filled - 1"
  define n where "n = min (gives os room body) (min room (length body))"
  have room: "0 < room" using "1.prems"(3) by (auto simp: room_def cap'_def)
  have e: "read_loop os al cap filled body = (if n = 0 then Some filled else read_loop os al cap' (filled @ take n body) (drop n body))"
  proof -
    have "al (cap * 2)" using "1.prems"(2) by simp
    then show ?thesis
      by (subst read_loop.simps) (simp only: Let_def cap'_def [symmetric] room_def [symmetric] n_def [symmetric] simp_thms if_False)
  qed
  show ?case
  proof (cases "n = 0")
    case True
    then have "gives os room body = 0 \<or> body = []" using room by (auto simp: n_def min_def split: if_splits)
    then have "body = []" using "1.prems"(1) room unfolding reliable_def by (metis less_numeral_extra(3))
    then show ?thesis using e True by simp
  next
    case False
    have "\<not> (cap \<le> length filled + 1 \<and> \<not> al (cap * 2))" using "1.prems"(2) by simp
    moreover have "length (filled @ take n body) < cap'" using room by (simp add: n_def room_def)
    ultimately have "read_loop os al cap' (filled @ take n body) (drop n body) = Some ((filled @ take n body) @ drop n body)"
      using "1.IH" [OF _ cap'_def room_def n_def False "1.prems"(1,2)] by blast
    then show ?thesis using e False by simp
  qed
qed

text \<open>C32. Text goes through a pipe whole.  However the kernel cuts the writes and the reads and how often a write is
  interrupted, when \<open>proc_write\<close> answers the length it was given, every byte was sent, once and in order, and
  \<open>proc_read_all\<close> at the other end returns exactly them; a short count means exactly that many bytes went out
  and the kernel took nothing at the end; only a failed write gives -1, and even then what went out is the
  beginning of the text.  What was sent is what each call of \<open>write\<close> took from the bytes it was handed.\<close>

theorem pipe_carries_text:
  assumes "reliable os" and "\<forall>n. al n" and "0 \<le> fd" and "0 \<le> fd'" and "proc_write ws fd (Some bytes) (int (length bytes)) = Some (r, sent)"
  shows "proc_read_all os al fd' sent = Some sent \<and> (\<exists>n. sent = take n bytes) \<and> (r = - 1 \<longrightarrow> Failed \<in> set ws)
    \<and> (r \<noteq> - 1 \<longrightarrow> sent = take (nat r) bytes \<and> 0 \<le> r \<and> (r < int (length bytes) \<longrightarrow> Took 0 \<in> set ws))
    \<and> (r = int (length bytes) \<longrightarrow> sent = bytes)"
proof -
  have "write_loop ws bytes (int (length bytes)) 0 [] = Some (r, sent)" using assms(3,5) by (simp add: proc_write_def)
  note W = write_loop_ok [OF this]
  have "proc_read_all os al fd' sent = Some sent"
    unfolding proc_read_all_def using read_loop_ok [OF assms(1,2), of "[]" 4096 sent] assms(2) [rule_format, of 4096] assms(4) by simp
  then show ?thesis using W by auto
qed

theorem pipe_carries_text_witness:
  "\<exists>sent. proc_write [Took 1, Interrupted, Took 5] 4 (Some [104, 105, 10]) 3 = Some (3, sent) \<and> proc_read_all byte_by_byte (\<lambda>n. True) 3 sent = Some [104, 105, 10]"
proof -
  have w: "proc_write [Took 1, Interrupted, Took 5] 4 (Some [104, 105, 10]) (int (length [104, 105, 10 :: byte])) = Some (3, [104, 105, 10])"
    by (simp add: proc_write_def write_loop.simps)
  have "reliable byte_by_byte" by (simp add: reliable_def byte_by_byte_def)
  from pipe_carries_text [OF this _ _ _ w, of "\<lambda>n. True" 3] w show ?thesis by simp
qed

end
