(* ===== verification/Plib.thy ===== *)
theory Plib
  imports Prelude
begin

text \<open>
  The compiled-library container of \<open>runtime/build_driver.c\<close>, PLIB version 3: the bytes a toolchain writes
  (\<open>write_u32_le\<close>, \<open>emit_stdlib_plib\<close>), the reader that checks and registers one (\<open>read_u32_le\<close>,
  \<open>plib_read_sections\<close>, \<open>compiler_plib_interface\<close>), and the section a build takes out of it
  (\<open>plib_section_for_target\<close>, \<open>extract_plib_bitcode\<close>).  Files are lists of bytes on a disk, a map from
  paths.  The messages are constructors.  The compiler and clang runs that make a section's code are a
  parameter.  The offsets and lengths that \<open>fseek\<close> and \<open>ftell\<close> pass as \<open>long\<close> are numbers here, which is
  what they are where \<open>long\<close> has 64 bits and a file is shorter than \<open>2 ^ 63\<close> bytes; the 32-bit \<open>long\<close> of
  Windows, with libraries of 2 GB and more, is not modelled.
\<close>

subsection \<open>Definitions\<close>

definition PRISMIO_PLIB_MAX :: nat where "PRISMIO_PLIB_MAX = 128"
definition PRISMIO_PLIB_SECTIONS_MAX :: nat where "PRISMIO_PLIB_SECTIONS_MAX = 16"
definition PRISMIO_PLIB_TRIPLE_MAX :: nat where "PRISMIO_PLIB_TRIPLE_MAX = 127"

record PrismioPlibSection =
  triple :: "byte list"
  bitcode_offset :: nat
  bitcode_size :: nat
  verify_bitcode_offset :: nat
  verify_bitcode_size :: nat

definition sizeof_PrismioPlibSection :: nat where "sizeof_PrismioPlibSection = 160"

record PrismioPlib =
  module :: "byte list"
  path :: "byte list"
  sections :: "PrismioPlibSection list"

datatype plib_error = No_error | Cannot_open | Not_a_plib | Invalid_header | Truncated_name | Wrong_module | Truncated_interface
  | Out_of_memory | Truncated_table | Invalid_section nat | Two_sections "byte list" | Wrong_length | Too_many

record plibs =
  prismio_plibs :: "PrismioPlib list"
  prismio_plib_error :: plib_error

type_synonym disk = "byte list \<rightharpoonup> byte list"

definition code_limit :: nat where "code_limit = 512 * 1024 * 1024"
definition interface_limit :: nat where "interface_limit = 64 * 1024 * 1024"

text \<open>The C string in a buffer.\<close>

definition cstr :: "byte list \<Rightarrow> byte list" where
  "cstr bs = takeWhile (\<lambda>b. b \<noteq> 0) bs"

text \<open>The shifts are by whole bytes and never meet, so they are products and sums.\<close>

definition read_u32_le :: "byte list \<Rightarrow> nat" where
  "read_u32_le p = unat (p ! 0) + unat (p ! 1) * 2 ^ 8 + unat (p ! 2) * 2 ^ 16 + unat (p ! 3) * 2 ^ 24"

definition read_u64_le :: "byte list \<Rightarrow> nat" where
  "read_u64_le p = fold (\<lambda>i v. (v * 2 ^ 8 + unat (p ! i)) mod 2 ^ 64) [7, 6, 5, 4, 3, 2, 1, 0] 0"

definition write_u32_le :: "nat \<Rightarrow> byte list" where
  "write_u32_le v = map (\<lambda>i. word_of_nat (v div 2 ^ (8 * i) mod 256)) [0..<4]"

definition write_u64_le :: "nat \<Rightarrow> byte list" where
  "write_u64_le v = map (\<lambda>i. word_of_nat (v div 2 ^ (8 * i) mod 256)) [0..<8]"

definition plib_empty :: "(nat \<Rightarrow> bool) \<Rightarrow> rt_error + byte list" where
  "plib_empty al = (if al 1 then Inr [] else Inl Null_store)"

primrec plib_read_sections :: "byte list \<Rightarrow> nat \<Rightarrow> nat \<Rightarrow> PrismioPlibSection list \<Rightarrow> plib_error + (PrismioPlibSection list \<times> nat)" where
  "plib_read_sections file offset 0 out = Inr (out, offset)"
| "plib_read_sections file offset (Suc n) out =
     (let header = take 20 (drop offset file) in
      if length header \<noteq> 20 then Inl Truncated_table
      else let triple_len = read_u32_le header; code_len = read_u64_le (drop 4 header); verify_len = read_u64_le (drop 12 header);
               name = take triple_len (drop (offset + 20) file)
           in if triple_len > PRISMIO_PLIB_TRIPLE_MAX \<or> code_len = 0 \<or> code_len > code_limit
                \<or> verify_len = 0 \<or> verify_len > code_limit \<or> length name \<noteq> triple_len
              then Inl (Invalid_section (length out))
              else if cstr name \<in> triple ` set out then Inl (Two_sections (cstr name))
              else let at = offset + 20 + triple_len in
                   plib_read_sections file (at + code_len + verify_len) n
                     (out @ [\<lparr>triple = cstr name, bitcode_offset = at, bitcode_size = code_len,
                              verify_bitcode_offset = at + code_len, verify_bitcode_size = verify_len\<rparr>]))"

definition plib_magic :: "byte list" where
  "plib_magic = [80, 82, 80, 76, 73, 66, 51, 10]"

definition plib_fail :: "plib_error \<Rightarrow> byte list \<Rightarrow> plibs \<Rightarrow> byte list \<times> plibs" where
  "plib_fail e text s = (text, s\<lparr>prismio_plib_error := e\<rparr>)"

definition compiler_plib_module_registered :: "byte list \<Rightarrow> plibs \<Rightarrow> bool" where
  "compiler_plib_module_registered m s \<longleftrightarrow> (\<exists>e \<in> set (prismio_plibs s). module e = m)"

text \<open>After the header is accepted: the interface, the sections and the registration.\<close>

definition plib_register :: "(nat \<Rightarrow> bool) \<Rightarrow> byte list \<Rightarrow> byte list \<Rightarrow> byte list \<Rightarrow> PrismioPlibSection list \<Rightarrow> plibs \<Rightarrow> rt_error + (byte list \<times> plibs)" where
  "plib_register al p m interface secs s =
     (if compiler_plib_module_registered m s then Inr (interface, s)
      else if length (prismio_plibs s) \<ge> PRISMIO_PLIB_MAX then Inr (plib_fail Too_many [] s)
      else if \<not> al (length m + 1) \<or> \<not> al (length p + 1) then Inl Null_store
      else Inr (interface, s\<lparr>prismio_plibs := prismio_plibs s @ [\<lparr>module = m, path = p, sections = secs\<rparr>]\<rparr>))"

definition plib_body :: "(nat \<Rightarrow> bool) \<Rightarrow> byte list \<Rightarrow> byte list \<Rightarrow> byte list \<Rightarrow> nat \<Rightarrow> nat \<Rightarrow> nat \<Rightarrow> plibs \<Rightarrow> rt_error + (byte list \<times> plibs)" where
  "plib_body al file p m module_len interface_len section_count s =
     (let interface = take interface_len (drop (24 + module_len) file) in
      if \<not> al (interface_len + 1) then andthen (plib_empty al) (\<lambda>e. Inr (plib_fail Truncated_interface e s))
      else if length interface \<noteq> interface_len then Inr (plib_fail Truncated_interface [] s)
      else if \<not> al (section_count * sizeof_PrismioPlibSection) then Inr (plib_fail Out_of_memory [] s)
      else case plib_read_sections file (24 + module_len + interface_len) section_count [] of
          Inl e \<Rightarrow> Inr (plib_fail e [] s)
        | Inr (secs, endof) \<Rightarrow>
            if length file \<noteq> endof then Inr (plib_fail Wrong_length [] s)
            else plib_register al p m (cstr interface) secs s)"

definition compiler_plib_interface :: "(nat \<Rightarrow> bool) \<Rightarrow> disk \<Rightarrow> byte list \<Rightarrow> byte list \<Rightarrow> plibs \<Rightarrow> rt_error + (byte list \<times> plibs)" where
  "compiler_plib_interface al D p expected_module s =
     (let s = s\<lparr>prismio_plib_error := No_error\<rparr>; refuse = (\<lambda>e. andthen (plib_empty al) (\<lambda>t. Inr (plib_fail e t s))) in
      case D p of None \<Rightarrow> refuse Cannot_open
      | Some file \<Rightarrow>
          let header = take 24 file in
          if length header \<noteq> 24 \<or> take 8 header \<noteq> plib_magic then refuse Not_a_plib
          else let module_len = read_u32_le (drop 8 header); interface_len = read_u64_le (drop 12 header);
                   section_count = read_u32_le (drop 20 header)
               in if module_len = 0 \<or> module_len > 255 \<or> interface_len > interface_limit
                    \<or> section_count = 0 \<or> section_count > PRISMIO_PLIB_SECTIONS_MAX
                  then refuse Invalid_header
                  else let name = take module_len (drop 24 file) in
                    if length name \<noteq> module_len then refuse Truncated_name
                    else if cstr name \<noteq> expected_module then refuse Wrong_module
                    else plib_body al file p (cstr name) module_len interface_len section_count s)"

definition compiler_plib_error :: "plibs \<Rightarrow> plib_error" where
  "compiler_plib_error s = prismio_plib_error s"

text \<open>The target is the triple asked for, or empty for the host.\<close>

definition plib_section_for_target :: "byte list \<Rightarrow> PrismioPlib \<Rightarrow> PrismioPlibSection option" where
  "plib_section_for_target target e = find (\<lambda>s. triple s = target) (sections e)"

function copy_loop :: "byte list \<Rightarrow> nat \<Rightarrow> byte list option" where
  "copy_loop file left =
     (if left > 0
      then let want = (if left < 16384 then left else 16384); got = take want file in
           if length got \<noteq> want then None else map_option (\<lambda>bs. got @ bs) (copy_loop (drop want file) (left - want))
      else Some [])"
  by pat_completeness auto
termination
  by (relation "measure snd") auto

declare copy_loop.simps [simp del]

definition extract_plib_bitcode :: "bool \<Rightarrow> byte list \<Rightarrow> (byte list \<Rightarrow> bool) \<Rightarrow> PrismioPlib \<Rightarrow> byte list \<Rightarrow> disk \<Rightarrow> int \<times> disk" where
  "extract_plib_bitcode verify target writable e output D =
     (case plib_section_for_target target e of None \<Rightarrow> (1, D)
      | Some sec \<Rightarrow>
          let offset = (if verify then verify_bitcode_offset sec else bitcode_offset sec);
              n = (if verify then verify_bitcode_size sec else bitcode_size sec)
          in case D (path e) of None \<Rightarrow> (1, D(output := None))
             | Some file \<Rightarrow>
                 if \<not> writable output then (1, D(output := None))
                 else case copy_loop (drop offset file) n of
                     None \<Rightarrow> (1, D(output := None))
                   | Some bs \<Rightarrow> (0, D(output \<mapsto> bs)))"

text \<open>Writing one: \<open>made\<close> is the code of the module, plainly and under \<open>--verify\<close>, or nothing when a run failed.\<close>

definition plib_bytes :: "byte list \<Rightarrow> byte list \<Rightarrow> byte list \<Rightarrow> byte list \<Rightarrow> byte list" where
  "plib_bytes logical interface code verify_code =
     (let header = plib_magic @ write_u32_le (length logical) @ write_u64_le (length interface) @ write_u32_le 1;
          section_header = write_u32_le 0 @ write_u64_le (length code) @ write_u64_le (length verify_code)
      in header @ logical @ interface @ section_header @ code @ verify_code)"

definition emit_stdlib_plib ::
  "(byte list \<Rightarrow> bool) \<Rightarrow> (bool \<Rightarrow> byte list option) \<Rightarrow> byte list \<Rightarrow> byte list \<Rightarrow> byte list \<Rightarrow> disk \<Rightarrow> bool \<times> disk" where
  "emit_stdlib_plib writable made source output logical D =
     (case D source of None \<Rightarrow> (True, D)
      | Some interface \<Rightarrow> (case made False of None \<Rightarrow> (True, D)
      | Some code \<Rightarrow> (case made True of None \<Rightarrow> (True, D)
      | Some verify_code \<Rightarrow>
          if \<not> writable output then (True, D(output := None))
          else (False, D(output \<mapsto> plib_bytes logical interface code verify_code)))))"

subsection \<open>Numbers\<close>

lemma length_write [simp]: "length (write_u32_le v) = 4" "length (write_u64_le v) = 8"
  by (simp_all add: write_u32_le_def write_u64_le_def)

lemma word_of_nat_mod: "(word_of_nat (x mod 256) :: byte) = word_of_nat x"
  by (rule word_unat_eq_iff [THEN iffD2]) (simp add: unat_of_nat)

lemma le_bytes_map: "le_bytes n v = map (\<lambda>i. word_of_nat (v div 2 ^ (8 * i) mod 256)) [0..<n]"
proof (induction n arbitrary: v)
  case (Suc n)
  have "map (\<lambda>i. word_of_nat (v div 2 ^ (8 * i) mod 256) :: byte) [0..<Suc n]
      = word_of_nat (v mod 256) # map (\<lambda>i. word_of_nat (v div 2 ^ (8 * Suc i) mod 256)) [0..<n]"
    by (simp add: map_upt_Suc del: upt_Suc)
  also have "\<dots> = le_bytes (Suc n) v"
    unfolding le_bytes.simps Suc.IH by (simp add: word_of_nat_mod div_mult2_eq power_add)
  finally show ?case by simp
qed simp

lemma eight: "8 \<le> length p \<Longrightarrow> \<exists>a b c d e f g h q. p = a # b # c # d # e # f # g # h # q"
  by (auto simp: numeral_eq_Suc Suc_le_length_iff)

lemma fold_le_nat: "length bs \<le> 8 \<Longrightarrow> foldr (\<lambda>b v. (v * 2 ^ 8 + unat b) mod 2 ^ 64) bs 0 = le_nat bs"
proof (induction bs)
  case (Cons b bs)
  have "le_nat (b # bs) < 256 ^ length (b # bs)" by (rule le_nat_bound)
  also have "\<dots> \<le> 256 ^ 8" using Cons.prems by (intro power_increasing) auto
  finally have "(le_nat bs * 2 ^ 8 + unat b) mod 2 ^ 64 = le_nat (b # bs)" by (simp add: mult.commute add.commute)
  then show ?case using Cons by simp
qed simp

lemma read_u64: "8 \<le> length p \<Longrightarrow> read_u64_le p = le_nat (take 8 p)"
proof -
  assume "8 \<le> length p"
  then obtain a b c d e f g h q where p: "p = a # b # c # d # e # f # g # h # q" using eight by blast
  have idx: "p ! 0 = a" "p ! 1 = b" "p ! 2 = c" "p ! 3 = d" "p ! 4 = e" "p ! 5 = f" "p ! 6 = g" "p ! 7 = h" by (simp_all add: p)
  have "read_u64_le p = foldr (\<lambda>b v. (v * 2 ^ 8 + unat b) mod 2 ^ 64) [a, b, c, d, e, f, g, h] 0"
    by (simp only: read_u64_le_def idx fold_simps foldr_Cons foldr_Nil o_apply id_apply)
  also have "\<dots> = le_nat [a, b, c, d, e, f, g, h]" by (rule fold_le_nat) simp
  also have "[a, b, c, d, e, f, g, h] = take 8 p" by (simp add: p)
  finally show ?thesis .
qed

lemma read_u32: "4 \<le> length p \<Longrightarrow> read_u32_le p = le_nat (take 4 p)"
proof -
  assume "4 \<le> length p"
  then obtain a b c d q where p: "p = a # b # c # d # q" by (auto simp: numeral_eq_Suc Suc_le_length_iff)
  show ?thesis by (simp add: p read_u32_le_def algebra_simps)
qed

lemma u32_bytes: "v < 2 ^ 32 \<Longrightarrow> read_u32_le (write_u32_le v @ bs) = v"
  by (subst read_u32) (simp_all add: write_u32_le_def le_bytes_map [symmetric] le_nat_le_bytes)

lemma u64_bytes: "v < 2 ^ 64 \<Longrightarrow> read_u64_le (write_u64_le v @ bs) = v"
  by (subst read_u64) (simp_all add: write_u64_le_def le_bytes_map [symmetric] le_nat_le_bytes)

subsection \<open>What a registered library is\<close>

definition code_of :: "bool \<Rightarrow> PrismioPlibSection \<Rightarrow> nat \<times> nat" where
  "code_of verify s = (if verify then (verify_bitcode_offset s, verify_bitcode_size s) else (bitcode_offset s, bitcode_size s))"

definition section_in :: "byte list \<Rightarrow> PrismioPlibSection \<Rightarrow> bool" where
  "section_in file s \<longleftrightarrow> 0 < bitcode_size s \<and> 0 < verify_bitcode_size s \<and> length (triple s) \<le> PRISMIO_PLIB_TRIPLE_MAX
     \<and> bitcode_offset s + bitcode_size s \<le> verify_bitcode_offset s \<and> verify_bitcode_offset s + verify_bitcode_size s \<le> length file"

text \<open>Where a section's code stands: after what came before it, its name and its lengths.\<close>

fun laid_out :: "nat \<Rightarrow> PrismioPlibSection list \<Rightarrow> nat \<Rightarrow> bool" where
  "laid_out offset [] endof = (offset = endof)"
| "laid_out offset (s # ss) endof = (offset + 20 \<le> bitcode_offset s \<and> 0 < bitcode_size s \<and> 0 < verify_bitcode_size s
     \<and> length (triple s) \<le> PRISMIO_PLIB_TRIPLE_MAX \<and> verify_bitcode_offset s = bitcode_offset s + bitcode_size s
     \<and> laid_out (verify_bitcode_offset s + verify_bitcode_size s) ss endof)"

lemma length_cstr: "length (cstr bs) \<le> length bs"
  by (simp add: cstr_def length_takeWhile_le)

lemma read_sections_laid_out:
  assumes "plib_read_sections file offset n out = Inr (secs, endof)" "distinct (map triple out)"
  shows "\<exists>new. secs = out @ new \<and> length new = n \<and> laid_out offset new endof \<and> distinct (map triple secs)"
  using assms
proof (induction n arbitrary: offset out)
  case 0
  then show ?case by simp
next
  case (Suc n)
  define tl cl vl where "tl = read_u32_le (take 20 (drop offset file))" and "cl = read_u64_le (drop 4 (take 20 (drop offset file)))"
    and "vl = read_u64_le (drop 12 (take 20 (drop offset file)))"
  define name where "name = take tl (drop (offset + 20) file)"
  define s where "s = \<lparr>triple = cstr name, bitcode_offset = offset + 20 + tl, bitcode_size = cl,
     verify_bitcode_offset = offset + 20 + tl + cl, verify_bitcode_size = vl\<rparr>"
  have r: "plib_read_sections file (offset + 20 + tl + cl + vl) n (out @ [s]) = Inr (secs, endof)" "tl \<le> PRISMIO_PLIB_TRIPLE_MAX"
    "cl \<noteq> 0" "vl \<noteq> 0" "cstr name \<notin> triple ` set out" "length name = tl"
    using Suc.prems(1) by (auto simp: Let_def tl_def cl_def vl_def name_def s_def split: if_split_asm)
  have "distinct (map triple (out @ [s]))" using Suc.prems(2) r(5) by (simp add: s_def)
  from Suc.IH [OF r(1) this] obtain new where "secs = (out @ [s]) @ new" "length new = n"
    "laid_out (offset + 20 + tl + cl + vl) new endof" "distinct (map triple secs)" by blast
  then show ?case using r length_cstr [of name] by (intro exI [of _ "s # new"]) (auto simp: s_def)
qed

lemma laid_out_end: "laid_out offset ss endof \<Longrightarrow> offset \<le> endof"
  by (induction ss arbitrary: offset) fastforce+

lemma laid_out_in: "laid_out offset ss endof \<Longrightarrow> endof \<le> length file \<Longrightarrow> s \<in> set ss \<Longrightarrow> section_in file s"
proof (induction ss arbitrary: offset)
  case (Cons a ss)
  have "laid_out (verify_bitcode_offset a + verify_bitcode_size a) ss endof" using Cons.prems(1) unfolding laid_out.simps by blast
  then have "verify_bitcode_offset a + verify_bitcode_size a \<le> endof" by (rule laid_out_end)
  with Cons.prems(2) have "verify_bitcode_offset a + verify_bitcode_size a \<le> length file" by (rule order_trans [rotated])
  then show ?case using Cons by (cases "s = a") (auto simp: section_in_def)
qed simp

text \<open>What the registry says of a file, on the disk the file was read from.\<close>

definition plib_ok :: "disk \<Rightarrow> PrismioPlib \<Rightarrow> bool" where
  "plib_ok D e \<longleftrightarrow> (\<exists>file. D (path e) = Some file \<and> 0 < length (sections e) \<and> length (sections e) \<le> PRISMIO_PLIB_SECTIONS_MAX
     \<and> distinct (map triple (sections e)) \<and> (\<forall>s \<in> set (sections e). section_in file s) \<and> 0 < length file)"

definition registry_ok :: "disk \<Rightarrow> plibs \<Rightarrow> bool" where
  "registry_ok D s \<longleftrightarrow> length (prismio_plibs s) \<le> PRISMIO_PLIB_MAX \<and> distinct (map module (prismio_plibs s)) \<and> (\<forall>e \<in> set (prismio_plibs s). plib_ok D e)"

lemma copy_loop_all: "n \<le> length bytes \<Longrightarrow> copy_loop bytes n = Some (take n bytes)"
proof (induction bytes n rule: copy_loop.induct)
  case (1 bytes n)
  show ?case
  proof (cases "n > 0")
    case True
    define w where "w = (if n < 16384 then n else 16384 :: nat)"
    have w: "w \<le> n" "0 < w" using True by (auto simp: w_def)
    have "copy_loop (drop w bytes) (n - w) = Some (take (n - w) (drop w bytes))"
      using "1.IH" [OF True w_def refl] "1.prems" w by simp
    moreover have "take n bytes = take w bytes @ take (n - w) (drop w bytes)" using w by (metis le_add_diff_inverse take_add)
    ultimately show ?thesis using True "1.prems" w by (subst copy_loop.simps) (simp add: w_def [symmetric] Let_def)
  qed (simp add: copy_loop.simps)
qed

lemma extract_section:
  assumes "plib_ok D e" "plib_section_for_target target e = Some sec"
  shows "\<exists>file. D (path e) = Some file \<and> extract_plib_bitcode verify target (\<lambda>_. True) e output D
      = (0, D(output \<mapsto> take (snd (code_of verify sec)) (drop (fst (code_of verify sec)) file)))
    \<and> 0 < snd (code_of verify sec) \<and> fst (code_of verify sec) + snd (code_of verify sec) \<le> length file"
proof -
  obtain bytes where f: "D (path e) = Some bytes" "\<forall>s \<in> set (sections e). section_in bytes s" using assms(1) by (auto simp: plib_ok_def)
  have "sec \<in> set (sections e)" using assms(2) by (auto simp: plib_section_for_target_def find_Some_iff)
  then have i: "section_in bytes sec" using f(2) by blast
  then have c: "0 < snd (code_of verify sec) \<and> fst (code_of verify sec) + snd (code_of verify sec) \<le> length bytes"
    by (auto simp: section_in_def code_of_def)
  then have "copy_loop (drop (fst (code_of verify sec)) bytes) (snd (code_of verify sec))
      = Some (take (snd (code_of verify sec)) (drop (fst (code_of verify sec)) bytes))"
    by (intro copy_loop_all) auto
  then show ?thesis using assms(2) f(1) c by (auto simp: extract_plib_bitcode_def Let_def code_of_def split: if_splits)
qed

lemma plib_empty_Inr: "plib_empty al = Inr t \<Longrightarrow> t = []"
  by (simp add: plib_empty_def split: if_splits)

lemma read_sections_error: "plib_read_sections fl offset n out = Inl err \<Longrightarrow> err \<noteq> No_error"
  by (induction n arbitrary: offset out) (auto simp: Let_def split: if_split_asm)

lemma plib_body_sound:
  assumes ok: "registry_ok D s" and D: "D p = Some file" and e: "prismio_plib_error s = No_error" and n: "0 < n" "n \<le> PRISMIO_PLIB_SECTIONS_MAX"
    and r: "plib_body al file p m ml il n s = Inr (text, s')"
  shows "registry_ok D s' \<and> (if prismio_plib_error s' = No_error then compiler_plib_module_registered m s' \<and> text = cstr (take il (drop (24 + ml) file))
    else text = [] \<and> prismio_plibs s' = prismio_plibs s)"
proof -
  have fail: ?thesis if "(text, s') = plib_fail err [] s" "err \<noteq> No_error" for err
    using that ok by (simp add: plib_fail_def registry_ok_def)
  show ?thesis
  proof (cases "al (il + 1) \<and> length (take il (drop (24 + ml) file)) = il \<and> al (n * sizeof_PrismioPlibSection)")
    case False
    then show ?thesis using r fail [of Truncated_interface] fail [of Out_of_memory]
      by (auto simp: plib_body_def Let_def andthen_Inr dest!: plib_empty_Inr split: if_split_asm)
  next
    case True
    show ?thesis
    proof (cases "plib_read_sections file (24 + ml + il) n []")
      case (Inl err)
      have "err \<noteq> No_error" by (rule read_sections_error [OF Inl])
      then show ?thesis using r True Inl fail [of err] by (simp add: plib_body_def Let_def)
    next
      case (Inr x)
      obtain secs endof where x: "x = (secs, endof)" by (cases x)
      obtain L: "length secs = n" "laid_out (24 + ml + il) secs endof" "distinct (map triple secs)"
        using read_sections_laid_out [of "file" "24 + ml + il" n "[]" secs endof] Inr x by auto
      show ?thesis
      proof (cases "length file = endof")
        case False
        then show ?thesis using r True Inr x fail [of Wrong_length] by (simp add: plib_body_def Let_def)
      next
        case len: True
        let ?e = "\<lparr>module = m, path = p, sections = secs\<rparr>"
        have "0 < length file" using laid_out_end [OF L(2)] len by simp
        then have "file \<noteq> []" by auto
        then have pe: "plib_ok D ?e" using D L n laid_out_in [OF L(2)] len by (simp add: plib_ok_def)
        have "Inr (text, s') = plib_register al p m (cstr (take il (drop (24 + ml) file))) secs s"
          using r True Inr x len by (simp add: plib_body_def Let_def)
        then show ?thesis using ok e pe
          by (auto simp: plib_register_def plib_fail_def registry_ok_def compiler_plib_module_registered_def split: if_split_asm)
      qed
    qed
  qed
qed

subsection \<open>Properties\<close>

text \<open>C33. The registry of compiled libraries never holds a section outside its file.  Whatever bytes a file has (cut short,
  extended, with false lengths, counts or names), reading it either registers the expected module, and then every
  section of every registered library lies inside its file, no two are for one target, and taking one out
  succeeds and writes exactly the bytes of the file from the section's offset (of its plain or its checked code) on,
  as many as its size says; or it leaves an error and an empty text and registers nothing.  No module is
  registered twice and there are never more than 128.\<close>

theorem plib_reader_sound:
  assumes "registry_ok D s" and "compiler_plib_interface al D p m s = Inr (text, s')"
  shows "registry_ok D s'
    \<and> (if compiler_plib_error s' = No_error then compiler_plib_module_registered m s' else text = [] \<and> prismio_plibs s' = prismio_plibs s)
    \<and> (\<forall>e \<in> set (prismio_plibs s'). \<forall>sec. plib_section_for_target target e = Some sec \<longrightarrow>
         (\<exists>file. D (path e) = Some file \<and> fst (code_of verify sec) + snd (code_of verify sec) \<le> length file
           \<and> extract_plib_bitcode verify target (\<lambda>_. True) e output D
             = (0, D(output \<mapsto> take (snd (code_of verify sec)) (drop (fst (code_of verify sec)) file)))))"
proof -
  let ?s = "s\<lparr>prismio_plib_error := No_error\<rparr>"
  have ok: "registry_ok D ?s" using assms(1) by (simp add: registry_ok_def)
  have refuse: "registry_ok D s' \<and> (if prismio_plib_error s' = No_error then compiler_plib_module_registered m s' else text = [] \<and> prismio_plibs s' = prismio_plibs s)"
    if "andthen (plib_empty al) (\<lambda>t. Inr (plib_fail err t ?s)) = Inr (text, s')" "err \<noteq> No_error" for err
    using that ok by (auto simp: andthen_Inr plib_fail_def registry_ok_def dest!: plib_empty_Inr)
  have R: "registry_ok D s' \<and> (if prismio_plib_error s' = No_error then compiler_plib_module_registered m s' else text = [] \<and> prismio_plibs s' = prismio_plibs s)"
  proof (cases "D p")
    case None
    then show ?thesis using assms(2) refuse [of Cannot_open] by (simp add: compiler_plib_interface_def Let_def)
  next
    case (Some bytes)
    define h where "h = take 24 bytes"
    define ml il n where "ml = read_u32_le (drop 8 h)" and "il = read_u64_le (drop 12 h)" and "n = read_u32_le (drop 20 h)"
    define name where "name = take ml (drop 24 bytes)"
    have r: "Inr (text, s') = (if length h \<noteq> 24 \<or> take 8 h \<noteq> plib_magic then andthen (plib_empty al) (\<lambda>t. Inr (plib_fail Not_a_plib t ?s))
        else if ml = 0 \<or> ml > 255 \<or> il > interface_limit \<or> n = 0 \<or> n > PRISMIO_PLIB_SECTIONS_MAX
        then andthen (plib_empty al) (\<lambda>t. Inr (plib_fail Invalid_header t ?s))
        else if length name \<noteq> ml then andthen (plib_empty al) (\<lambda>t. Inr (plib_fail Truncated_name t ?s))
        else if cstr name \<noteq> m then andthen (plib_empty al) (\<lambda>t. Inr (plib_fail Wrong_module t ?s))
        else plib_body al bytes p (cstr name) ml il n ?s)"
      using assms(2) unfolding compiler_plib_interface_def Let_def Some option.case h_def ml_def il_def n_def name_def by simp
    show ?thesis
    proof (cases "length h \<noteq> 24 \<or> take 8 h \<noteq> plib_magic \<or> ml = 0 \<or> ml > 255 \<or> il > interface_limit \<or> n = 0 \<or> n > PRISMIO_PLIB_SECTIONS_MAX
        \<or> length name \<noteq> ml \<or> cstr name \<noteq> m")
      case True
      then obtain err where "andthen (plib_empty al) (\<lambda>t. Inr (plib_fail err t ?s)) = Inr (text, s')" "err \<noteq> No_error"
        using r by (metis plib_error.distinct(1,3,5,7,9,11))
      then show ?thesis by (rule refuse)
    next
      case False
      then have "plib_body al bytes p m ml il n ?s = Inr (text, s')" using r by simp
      from plib_body_sound [OF ok Some _ _ _ this] False show ?thesis by (auto split: if_split_asm)
    qed
  qed
  have "\<exists>file. D (path e) = Some file \<and> fst (code_of verify sec) + snd (code_of verify sec) \<le> length file
      \<and> extract_plib_bitcode verify target (\<lambda>_. True) e output D
        = (0, D(output \<mapsto> take (snd (code_of verify sec)) (drop (fst (code_of verify sec)) file)))"
    if "e \<in> set (prismio_plibs s')" "plib_section_for_target target e = Some sec" for e sec
  proof -
    have "plib_ok D e" using R that(1) by (simp add: registry_ok_def)
    from extract_section [OF this that(2), of verify "output"] show ?thesis by blast
  qed
  then show ?thesis using R by (simp add: compiler_plib_error_def)
qed

lemma plib_parts:
  assumes "length logical < 2 ^ 32" "length interface < 2 ^ 64"
    and f_def: "f = plib_bytes logical interface code vcode"
  shows "take 24 f = plib_magic @ write_u32_le (length logical) @ write_u64_le (length interface) @ write_u32_le 1"
    and "length f = 24 + length logical + length interface + 20 + length code + length vcode"
    and "take (length logical) (drop 24 f) = logical"
    and "take (length interface) (drop (24 + length logical) f) = interface"
    and "drop (24 + length logical + length interface) f = write_u32_le 0 @ write_u64_le (length code) @ write_u64_le (length vcode) @ code @ vcode"
proof -
  define H where "H = plib_magic @ write_u32_le (length logical) @ write_u64_le (length interface) @ write_u32_le 1"
  define R where "R = write_u32_le 0 @ write_u64_le (length code) @ write_u64_le (length vcode) @ code @ vcode"
  have f: "f = H @ logical @ interface @ R" by (simp add: f_def plib_bytes_def Let_def H_def R_def)
  have H: "length H = 24" by (simp add: H_def plib_magic_def)
  show "take 24 f = plib_magic @ write_u32_le (length logical) @ write_u64_le (length interface) @ write_u32_le 1"
    unfolding H_def [symmetric] by (simp add: f H)
  show "length f = 24 + length logical + length interface + 20 + length code + length vcode" by (simp add: f H R_def)
  show "take (length logical) (drop 24 f) = logical" by (simp add: f H)
  show "take (length interface) (drop (24 + length logical) f) = interface" by (simp add: f H)
  show "drop (24 + length logical + length interface) f = write_u32_le 0 @ write_u64_le (length code) @ write_u64_le (length vcode) @ code @ vcode"
    unfolding R_def [symmetric] by (simp add: f H)
qed

lemma sections_written:
  assumes "drop offset f = write_u32_le 0 @ write_u64_le (length code) @ write_u64_le (length vcode) @ code @ vcode"
    and "0 < length code" "length code \<le> code_limit" "0 < length vcode" "length vcode \<le> code_limit"
  shows "plib_read_sections f offset 1 [] = Inr ([\<lparr>triple = [], bitcode_offset = offset + 20, bitcode_size = length code,
      verify_bitcode_offset = offset + 20 + length code, verify_bitcode_size = length vcode\<rparr>], offset + 20 + length code + length vcode)"
proof -
  have lim: "length code < 2 ^ 64" "length vcode < 2 ^ 64" using assms(3,5) by (simp_all add: code_limit_def)
  let ?h = "write_u32_le 0 @ write_u64_le (length code) @ write_u64_le (length vcode)"
  have h: "take 20 (drop offset f) = ?h" by (simp add: assms(1))
  have r: "read_u32_le ?h = 0" "read_u64_le (drop 4 ?h) = length code" "read_u64_le (drop 12 ?h) = length vcode"
    using u32_bytes [of 0 "write_u64_le (length code) @ write_u64_le (length vcode)"] u64_bytes [OF lim(1), of "write_u64_le (length vcode)"]
      u64_bytes [OF lim(2), of "[]"] by simp_all
  have "length ?h = 20" by simp
  then show ?thesis
    using assms(2-5) by (simp only: One_nat_def plib_read_sections.simps Let_def h r) (simp add: cstr_def PRISMIO_PLIB_TRIPLE_MAX_def)
qed

lemma plib_written_accepted:
  assumes "\<forall>n. al n" and "D output = Some (plib_bytes logical interface code vcode)"
    and "0 \<notin> set logical" and "0 < length logical" and "length logical \<le> 255" and "length interface \<le> interface_limit"
    and "0 < length code" and "length code \<le> code_limit" and "0 < length vcode" and "length vcode \<le> code_limit"
    and "\<not> compiler_plib_module_registered logical s" and "length (prismio_plibs s) < PRISMIO_PLIB_MAX"
  shows "\<exists>e. compiler_plib_interface al D output logical s
      = Inr (cstr interface, s\<lparr>prismio_plib_error := No_error, prismio_plibs := prismio_plibs s @ [e]\<rparr>)
    \<and> module e = logical \<and> (\<forall>verify out. extract_plib_bitcode verify [] (\<lambda>_. True) e out D = (0, D(out \<mapsto> (if verify then vcode else code))))"
proof -
  define f where "f = plib_bytes logical interface code vcode"
  have D: "D output = Some f" using assms(2) by (simp add: f_def)
  have lim: "length logical < 2 ^ 32" "length interface < 2 ^ 64" using assms(5,6) by (simp_all add: interface_limit_def)
  note P = plib_parts [OF lim f_def]
  define o1 where "o1 = 24 + length logical + length interface"
  define sec where "sec = \<lparr>triple = [], bitcode_offset = o1 + 20, bitcode_size = length code,
      verify_bitcode_offset = o1 + 20 + length code, verify_bitcode_size = length vcode\<rparr>"
  define e where "e = \<lparr>module = logical, path = output, sections = [sec]\<rparr>"
  have secs: "plib_read_sections f o1 1 [] = Inr ([sec], length f)"
    unfolding o1_def sec_def P(2) by (rule sections_written [OF P(5) assms(7-10)])
  have body: "plib_body al f output logical (length logical) (length interface) 1 (s\<lparr>prismio_plib_error := No_error\<rparr>)
      = Inr (cstr interface, s\<lparr>prismio_plib_error := No_error, prismio_plibs := prismio_plibs s @ [e]\<rparr>)"
  proof -
    have "plib_register al output logical (cstr interface) [sec] (s\<lparr>prismio_plib_error := No_error\<rparr>)
        = Inr (cstr interface, s\<lparr>prismio_plib_error := No_error, prismio_plibs := prismio_plibs s @ [e]\<rparr>)"
      using assms(11,12) by (simp add: plib_register_def e_def compiler_plib_module_registered_def assms(1))
    then show ?thesis
      unfolding plib_body_def Let_def P(4) o1_def [symmetric] secs by (simp add: assms(1))
  qed
  let ?h = "plib_magic @ write_u32_le (length logical) @ write_u64_le (length interface) @ write_u32_le 1"
  have hd: "length ?h = 24" "take 8 ?h = plib_magic" by (simp_all add: plib_magic_def)
  have fields: "read_u32_le (drop 8 ?h) = length logical" "read_u64_le (drop 12 ?h) = length interface" "read_u32_le (drop 20 ?h) = 1"
    using u32_bytes [OF lim(1), of "write_u64_le (length interface) @ write_u32_le 1"] u64_bytes [OF lim(2), of "write_u32_le 1"]
      u32_bytes [of 1 "[]"] by (simp_all add: plib_magic_def)
  have name: "cstr logical = logical" unfolding cstr_def takeWhile_eq_all_conv using assms(3) by metis
  have "compiler_plib_interface al D output logical s
      = Inr (cstr interface, s\<lparr>prismio_plib_error := No_error, prismio_plibs := prismio_plibs s @ [e]\<rparr>)"
    unfolding compiler_plib_interface_def Let_def D option.case P(1) fields P(3) name
    using assms(4,5,6) hd body by (simp add: PRISMIO_PLIB_SECTIONS_MAX_def)
  moreover have "extract_plib_bitcode verify [] (\<lambda>_. True) e out D = (0, D(out \<mapsto> (if verify then vcode else code)))" for verify out
  proof -
    have t: "plib_section_for_target [] e = Some sec" by (simp add: plib_section_for_target_def e_def sec_def)
    have c: "drop (o1 + 20) f = code @ vcode" using arg_cong [OF P(5), of "drop 20"] by (simp add: o1_def)
    then have "drop (o1 + 20 + length code) f = vcode" by (metis append_eq_conv_conj drop_drop add.commute)
    then show ?thesis using t c copy_loop_all [of "length code" "code @ vcode"] copy_loop_all [of "length vcode" vcode]
      by (simp add: extract_plib_bitcode_def e_def D sec_def)
  qed
  ultimately show ?thesis by (intro exI [of _ e]) (simp add: e_def)
qed

text \<open>C34. What a toolchain packs is what a build gets.  A library written by \<open>emit_stdlib_plib\<close> is accepted by the reader under
  its own name, its interface comes back, and the code taken out for the host is byte for byte the code the compiler made:
  the plain one in a plain build, the verifying one in a verifying build.\<close>

theorem plib_round_trip:
  assumes "\<forall>n. al n" and "D source = Some interface" and "made False = Some code" and "made True = Some vcode"
    and "0 \<notin> set logical" and "0 < length logical" and "length logical \<le> 255" and "length interface \<le> interface_limit"
    and "0 < length code" and "length code \<le> code_limit" and "0 < length vcode" and "length vcode \<le> code_limit"
    and "\<not> compiler_plib_module_registered logical s" and "length (prismio_plibs s) < PRISMIO_PLIB_MAX"
  shows "\<exists>D' s' e. emit_stdlib_plib (\<lambda>_. True) made source output logical D = (False, D')
    \<and> compiler_plib_interface al D' output logical s = Inr (cstr interface, s')
    \<and> prismio_plibs s' = prismio_plibs s @ [e] \<and> module e = logical \<and> compiler_plib_error s' = No_error
    \<and> extract_plib_bitcode verify [] (\<lambda>_. True) e out D' = (0, D'(out \<mapsto> (if verify then vcode else code)))"
proof -
  define D' where "D' = D(output \<mapsto> plib_bytes logical interface code vcode)"
  have D': "D' output = Some (plib_bytes logical interface code vcode)" by (simp add: D'_def)
  have emit: "emit_stdlib_plib (\<lambda>_. True) made source output logical D = (False, D')"
    using assms(2-4) by (simp add: emit_stdlib_plib_def D'_def)
  obtain e where e: "compiler_plib_interface al D' output logical s
      = Inr (cstr interface, s\<lparr>prismio_plib_error := No_error, prismio_plibs := prismio_plibs s @ [e]\<rparr>)"
    "module e = logical" "\<forall>verify out. extract_plib_bitcode verify [] (\<lambda>_. True) e out D' = (0, D'(out \<mapsto> (if verify then vcode else code)))"
    using plib_written_accepted [of al D' "output" logical interface code vcode s, OF assms(1) D' assms(5-14)] by blast
  show ?thesis
    using emit e by (intro exI [of _ D'] exI [of _ "s\<lparr>prismio_plib_error := No_error, prismio_plibs := prismio_plibs s @ [e]\<rparr>"] exI [of _ e])
      (simp add: compiler_plib_error_def)
qed

definition no_plibs :: plibs where
  "no_plibs = \<lparr>prismio_plibs = [], prismio_plib_error = No_error\<rparr>"

theorem plib_round_trip_witness:
  "\<exists>D' s' e. emit_stdlib_plib (\<lambda>_. True) (\<lambda>v. Some (if v then [2, 2] else [1])) [115] [111] [115, 116, 100] [[115] \<mapsto> [102, 110]] = (False, D')
    \<and> compiler_plib_interface (\<lambda>_. True) D' [111] [115, 116, 100] no_plibs = Inr ([102, 110], s') \<and> prismio_plibs s' = [e]
    \<and> extract_plib_bitcode True [] (\<lambda>_. True) e [120] D' = (0, D'([120] \<mapsto> [2, 2]))"
  using plib_round_trip [of "\<lambda>_. True" "[[115] \<mapsto> [102, 110]]" "[115]" "[102, 110]" "\<lambda>v. Some (if v then [2, 2] else [1])" "[1]" "[2, 2]"
      "[115, 116, 100]" no_plibs "[111]" True "[120]"]
  by (auto simp: cstr_def interface_limit_def code_limit_def no_plibs_def compiler_plib_module_registered_def PRISMIO_PLIB_MAX_def)

theorem plib_reader_sound_witness:
  "\<exists>s'. compiler_plib_interface (\<lambda>_. True) [[111] \<mapsto> plib_bytes [109] [102, 110] [1] [2, 2]] [111] [109] no_plibs = Inr ([102, 110], s')
    \<and> registry_ok [[111] \<mapsto> plib_bytes [109] [102, 110] [1] [2, 2]] s' \<and> compiler_plib_module_registered [109] s'"
proof -
  let ?D = "[[111] \<mapsto> plib_bytes [109] [102, 110] [1] [2, 2]]"
  obtain e where r: "compiler_plib_interface (\<lambda>_. True) ?D [111] [109] no_plibs
      = Inr (cstr [102, 110], no_plibs\<lparr>prismio_plib_error := No_error, prismio_plibs := prismio_plibs no_plibs @ [e]\<rparr>)"
    using plib_written_accepted [of "\<lambda>_. True" ?D "[111]" "[109]" "[102, 110]" "[1]" "[2, 2]" no_plibs]
    by (auto simp: interface_limit_def code_limit_def no_plibs_def compiler_plib_module_registered_def PRISMIO_PLIB_MAX_def)
  have "registry_ok ?D no_plibs" by (simp add: registry_ok_def no_plibs_def)
  from plib_reader_sound [OF this r] r show ?thesis by (auto simp: cstr_def compiler_plib_error_def)
qed

end
