(* ===== verification/View_Rows.thy ===== *)
theory View_Rows
  imports DataView List_Release
begin

text \<open>
  A data view holds, in one array per field, what the rows of its list held: adding a column reads each
  row once and changes nothing else, and turning the view back into a list gives the rows again, with
  the bytes that no field covers zeroed.
\<close>

subsection \<open>The invariant of a view\<close>

definition field_of :: "RtDataColumn \<Rightarrow> byte list \<Rightarrow> byte list" where
  "field_of c r = take (nat (csize c)) (drop (nat (coffset c)) r)"

text \<open>A column of the view of rows \<open>xs\<close>: its field lies inside an element, and its array is a block of its
  own that holds the field of each row.\<close>

definition column_ok :: "owned \<Rightarrow> mem \<Rightarrow> byte list list \<Rightarrow> int \<Rightarrow> RtDataColumn \<Rightarrow> bool" where
  "column_ok B m xs es c \<longleftrightarrow> 0 \<le> coffset c \<and> 0 < csize c \<and> coffset c + csize c \<le> es
     \<and> (xs \<noteq> [] \<longrightarrow> (\<exists>w. B (cdata c) = Some (w, length xs * nat (csize c)))
          \<and> cells m (cdata c) (nat (csize c)) (length xs) = map (field_of c) xs)"

definition built :: "RtDataColumn list \<Rightarrow> nat" where
  "built cs = length (filter (\<lambda>c. cdata c \<noteq> 0) cs)"

definition view_ok :: "owned \<Rightarrow> ('a, 'b) vrt_scheme \<Rightarrow> addr \<Rightarrow> byte list list \<Rightarrow> bool" where
  "view_ok B s vp xs \<longleftrightarrow> (let v = views s vp in
     vp \<noteq> 0 \<and> (\<exists>w. B vp = Some (w, sizeof_RtDataView)) \<and> (\<exists>w. B (columns_at v) = Some (w, sizeof_RtDataColumn * nat (field_count v)))
     \<and> 0 < field_count v \<and> field_count v < 2 ^ 31 \<and> length (columns v) = nat (field_count v) \<and> vlen v = int (length xs) \<and> vlen v < 2 ^ 31
     \<and> 0 < velem_size v \<and> velem_size v < 2 ^ 31 \<and> (\<forall>r \<in> set xs. length r = nat (velem_size v))
     \<and> (\<forall>c \<in> set (columns v). (xs = [] \<longrightarrow> cdata c = 0) \<and> (cdata c \<noteq> 0 \<or> csize c \<noteq> 0 \<longrightarrow> column_ok B (rmem s) xs (velem_size v) c))
     \<and> (xs \<noteq> [] \<longrightarrow> built_fields v = int (built (columns v))))"

text \<open>The rows of the source, each in memory the program holds, and their bytes.\<close>

definition rows_held :: "owned \<Rightarrow> ('a, 'b) vrt_scheme \<Rightarrow> addr \<Rightarrow> nat \<Rightarrow> nat \<Rightarrow> bool" where
  "rows_held B s lp es n \<longleftrightarrow> list_ok B (lhdr s) lp \<and> n = nat (len (lhdr s lp)) \<and> (\<forall>i < n. row_at lp i s \<noteq> 0 \<longrightarrow> within B (row_at lp i s) es)"

definition rows :: "('a, 'b) vrt_scheme \<Rightarrow> addr \<Rightarrow> nat \<Rightarrow> nat \<Rightarrow> byte list list" where
  "rows s lp es n = map (\<lambda>i. peek (rmem s) (row_at lp i s) es) [0..<n]"

lemma length_rows [simp]: "length (rows s lp es n) = n"
  by (simp add: rows_def)

lemma nth_rows: "i < n \<Longrightarrow> rows s lp es n ! i = peek (rmem s) (row_at lp i s) es"
  by (simp add: rows_def)

lemma upd_view_fields [simp]: "hp (upd_view vp f s) = hp s" "lhdr (upd_view vp f s) = lhdr s" "cycs (upd_view vp f s) = cycs s"
  "views (upd_view vp f s) = (views s)(vp := f (views s vp))" "vrt.more (upd_view vp f s) = vrt.more s"
  by (simp_all add: upd_view_def)

lemma more_views:
  fixes s s' :: "('a, 'b) vrt_scheme"
  assumes "rt.more s' = rt.more s"
  shows "lhdr s' = lhdr s" "cycs s' = cycs s" "views s' = views s"
  using assms by (cases s; cases s'; simp)+

lemma rt_poke_views [simp]: "views (rt_poke a bs s) = views s"
  by (simp add: rt_poke_def)

lemma rt_free_views [simp]: "views (rt_free S p s) = views s"
  by (simp add: rt_free_def)

lemma row_at_hdr: "lhdr s' = lhdr s \<Longrightarrow> rmem s' = rmem s \<Longrightarrow> row_at lp i s' = row_at lp i s"
  by (simp add: row_at_def Let_def ptr_get_def)

text \<open>Rows stay where they are as long as the list's blocks keep their bytes.\<close>

lemma kept_row_at:
  assumes h: "rows_held B s lp es n" and k: "rt_kept B s s'" "lhdr s' = lhdr s" and i: "i < n"
  shows "row_at lp i s' = row_at lp i s"
proof (cases "elem_size (lhdr s lp) = 0")
  case True
  have ok: "list_ok B (lhdr s) lp" and n: "i < nat (len (lhdr s lp))" using h i by (auto simp: rows_held_def)
  show ?thesis
    using kept_elems [OF ok k] ptr_get_elems [of s lp "int i"] ptr_get_elems [of s' lp "int i"] True k(2) n by (simp add: row_at_def Let_def)
qed (simp add: row_at_def Let_def k(2))

lemma kept_rows:
  assumes h: "rows_held B s lp es n" and k: "rt_kept B s s'" "lhdr s' = lhdr s" and i: "i < n" and z: "row_at lp i s \<noteq> 0"
  shows "peek (rmem s') (row_at lp i s') es = peek (rmem s) (row_at lp i s) es"
  using kept_row_at [OF h k i] within_kept [OF _ k(1)] h i z by (simp add: rows_held_def)

lemma column_ok_kept:
  assumes ok: "column_ok B m xs es c" and k: "\<And>a w n. B a = Some (w, n) \<Longrightarrow> B' a = Some (w, n) \<and> peek m' a n = peek m a n"
  shows "column_ok B' m' xs es c"
proof (cases "xs = []")
  case False
  then obtain w where w: "B (cdata c) = Some (w, length xs * nat (csize c))" using ok by (auto simp: column_ok_def)
  show ?thesis using ok k [OF w] cells_cong [of m' "cdata c" "length xs" "nat (csize c)" m "cdata c"] by (auto simp: column_ok_def)
qed (use ok in \<open>auto simp: column_ok_def\<close>)

lemma field_of_peek:
  assumes "0 \<le> off" "0 < w" "off + w \<le> es"
  shows "field_of \<lparr>cdata = d, coffset = off, csize = w\<rparr> (peek m r (nat es)) = peek m (r + nat off) (nat w)"
proof -
  have "nat es = nat off + nat w + (nat es - nat off - nat w)" using assms by linarith
  then have "peek m r (nat es) = peek m r (nat off + nat w + (nat es - nat off - nat w))" by simp
  then show ?thesis by (simp add: field_of_def peek_add add.assoc)
qed


subsection \<open>Adding a column\<close>

lemma within_sub: "within B p n \<Longrightarrow> p \<le> q \<Longrightarrow> q + k \<le> p + n \<Longrightarrow> within B q k"
  by (fastforce simp: within_def)

lemma kept_poke_block:
  assumes wf: "owned_wf (B(d \<mapsto> (v, n)))" and d: "B d = None" and q: "d \<le> q" "q + length bs \<le> d + n"
  shows "rt_kept B s (rt_poke q bs s)"
  unfolding rt_kept_def kept_def
proof (intro allI impI)
  fix a u j assume a: "B a = Some (u, j)"
  then have "a \<noteq> d" using d by auto
  then have "apart a j d n" using wf a unfolding owned_wf_def by (metis fun_upd_apply)
  then have "apart a j q (length bs)" using q by (auto elim: apart_sub)
  then show "peek (mem (hp (rt_poke q bs s))) a j = peek (mem (hp s)) a j" by (simp add: rt_poke_def peek_poke_apart)
qed

lemma built_update: "i < length cs \<Longrightarrow> cdata (cs ! i) = 0 \<Longrightarrow> built (cs[i := c]) = built cs + (if cdata c \<noteq> 0 then 1 else 0)"
  by (induction cs arbitrary: i) (auto simp: built_def nth_Cons split: nat.splits)

definition fits :: "RtDataView \<Rightarrow> int \<Rightarrow> int \<Rightarrow> int \<Rightarrow> bool" where
  "fits v field off w \<longleftrightarrow> 0 \<le> field \<and> field < field_count v \<and> 0 \<le> off \<and> 0 < w \<and> off + w \<le> velem_size v"

text \<open>What adding a column may do: one of the reported errors, each only for its cause, or a view with that
  column, with all that the program held before still held and unchanged.\<close>

definition column_outcome :: "'a seam \<Rightarrow> (owned \<Rightarrow> ('a, 'b) vrt_scheme \<Rightarrow> bool) \<Rightarrow> owned \<Rightarrow> ('a, 'b) vrt_scheme \<Rightarrow> addr \<Rightarrow> byte list list \<Rightarrow> int \<Rightarrow> int \<Rightarrow> int \<Rightarrow> ('a, 'b) vres \<Rightarrow> bool" where
  "column_outcome S rinv B s vp xs field off w r \<longleftrightarrow> (let v = views s vp in case r of
       Inl e \<Rightarrow>
         e = data_view_fail ''column added outside construction'' \<and> source v = 0
         \<or> e = data_view_fail ''field index out of range'' \<and> \<not> (0 \<le> field \<and> field < field_count v)
         \<or> e = data_view_fail ''field layout outside element'' \<and> \<not> (0 \<le> off \<and> 0 < w \<and> off + w \<le> velem_size v)
         \<or> e = data_view_fail ''field column added twice'' \<and> cdata (columns v ! nat field) \<noteq> 0
         \<or> e = data_view_fail ''null row in source list'' \<and> (\<exists>j < length xs. row_at (source v) j s = 0)
         \<or> e = Null_store \<and> xs \<noteq> [] \<and> fst (rt_alloc S (length xs * nat w) s) = 0
     | Inr s' \<Rightarrow> source v \<noteq> 0 \<and> fits v field off w \<and> cdata (columns v ! nat field) = 0
         \<and> (\<exists>B'. rinv B' s' \<and> view_ok B' s' vp xs \<and> rt_kept B s s' \<and> (\<forall>a x. B a = Some x \<longrightarrow> B' a = Some x)) \<and> lhdr s' = lhdr s
         \<and> (\<exists>d. views s' = (views s)(vp := v\<lparr>columns := (columns v)[nat field := \<lparr>cdata = d, coffset = off, csize = w\<rparr>],
                built_fields := built_fields v + 1\<rparr>)))"

lemma rows_held_view [simp]: "rows_held B (upd_view vp f s) lp es n = rows_held B s lp es n"
  by (simp add: rows_held_def row_at_def ptr_get_def Let_def)

lemma row_at_view [simp]: "row_at lp i (upd_view vp f s) = row_at lp i s"
  by (simp add: row_at_def ptr_get_def Let_def)

lemma rt_kept_view [simp]: "rt_kept B (upd_view vp f s) s' = rt_kept B s s'" "rt_kept B s (upd_view vp f s') = rt_kept B s s'"
  by (simp_all add: rt_kept_def)

lemma more_view: "rt.more s' = rt.more s \<Longrightarrow> rt.more (upd_view vp f s') = rt.more (upd_view vp f s)"
  by (cases s; cases s') (simp add: upd_view_def)

text \<open>The view with a new column \<open>c\<close>, over more blocks.\<close>

lemma view_ok_column:
  assumes ok: "view_ok B s vp xs" and f: "fits (views s vp) field off w" "cdata (columns (views s vp) ! nat field) = 0"
    and k: "rt_kept B s s'" "\<And>a x. B a = Some x \<Longrightarrow> B' a = Some x"
    and c: "(d = 0) = (xs = [])" "column_ok B' (rmem s') xs (velem_size (views s vp)) \<lparr>cdata = d, coffset = off, csize = w\<rparr>"
    and v: "views s' vp = (views s vp)\<lparr>columns := (columns (views s vp))[nat field := \<lparr>cdata = d, coffset = off, csize = w\<rparr>],
      built_fields := built_fields (views s vp) + 1\<rparr>"
  shows "view_ok B' s' vp xs"
proof -
  let ?v = "views s vp" and ?c = "\<lparr>cdata = d, coffset = off, csize = w\<rparr>"
  have i: "nat field < length (columns ?v)" using ok f(1) by (auto simp: view_ok_def Let_def fits_def)
  have old: "column_ok B' (rmem s') xs (velem_size ?v) x" if "column_ok B (rmem s) xs (velem_size ?v) x" for x
    by (rule column_ok_kept [OF that]) (use k in \<open>auto simp: rt_kept_def kept_def\<close>)
  have sub: "x = ?c \<or> x \<in> set (columns ?v)" if "x \<in> set ((columns ?v)[nat field := ?c])" for x
    using that set_update_subset_insert [of "columns ?v" "nat field" ?c] by auto
  have old_cs: "(xs = [] \<longrightarrow> cdata x = 0) \<and> (cdata x \<noteq> 0 \<or> csize x \<noteq> 0 \<longrightarrow> column_ok B' (rmem s') xs (velem_size ?v) x)"
    if "x \<in> set (columns ?v)" for x using that ok old [of x] unfolding view_ok_def Let_def by blast
  have cs: "(xs = [] \<longrightarrow> cdata x = 0) \<and> (cdata x \<noteq> 0 \<or> csize x \<noteq> 0 \<longrightarrow> column_ok B' (rmem s') xs (velem_size ?v) x)"
    if "x \<in> set ((columns ?v)[nat field := ?c])" for x
  proof -
    from sub [OF that] show ?thesis by (rule disjE) (use that c old_cs in auto)
  qed
  have b: "built ((columns ?v)[nat field := ?c]) = built (columns ?v) + (if xs = [] then 0 else 1)"
    using built_update [OF i f(2)] c(1) by auto
  show ?thesis using ok k(2) cs b unfolding view_ok_def Let_def v by (auto 0 3)
qed

text \<open>The runtime's contract with the views beside the list headers.\<close>

locale view_rt = list_rt S rinv for S :: "'a seam" and rinv :: "owned \<Rightarrow> ('a, 'b) vrt_scheme \<Rightarrow> bool" +
  assumes rinv_view: "rinv B (upd_view vp f s) = rinv B s"
begin

text \<open>A new view is well formed and has no columns yet.\<close>

lemma view_begin_ok:
  fixes s :: "('a, 'b) vrt_scheme"
  assumes inv: "rinv B s" and nf: "nf < 2 ^ 31" "es < 2 ^ 31" and xs: "len (lhdr s lp) = int (length xs)" "length xs < 2 ^ 31" "\<forall>r \<in> set xs. length r = nat es"
    and r: "data_view_begin S lp nf es s = Inr (vp, s')"
  shows "\<exists>B'. rinv B' s' \<and> view_ok B' s' vp xs \<and> rt_kept B s s' \<and> (\<forall>a x. B a = Some x \<longrightarrow> B' a = Some x) \<and> lhdr s' = lhdr s
    \<and> source (views s' vp) = lp \<and> built (columns (views s' vp)) = 0"
proof -
  obtain v s1 where a1: "rt_alloc S sizeof_RtDataView s = (v, s1)" by fastforce
  obtain c s2 where a2: "rt_alloc S (sizeof_RtDataColumn * nat nf) s1 = (c, s2)" by fastforce
  define d where "d = \<lparr>source = lp, columns_at = c, columns = replicate (nat nf) \<lparr>cdata = 0, coffset = 0, csize = 0\<rparr>, vlen = len (lhdr s2 lp),
      field_count = nf, built_fields = 0, velem_size = es, varena = int (rt_arena_slot s2)\<rparr>"
  have R: "v \<noteq> 0" "c \<noteq> 0" "vp = v" "s' = upd_view v (\<lambda>_. d) s2" "0 < nf" "0 < es"
    using r a1 a2 by (auto simp: data_view_begin_def Let_def d_def split: if_splits)
  note L1 = rt_alloc_law [OF inv _ _ a1]
  obtain u where 1: "rt_kept B s s1" "rt.more s1 = rt.more s" "fresh_block B v 40" "rinv (B(v \<mapsto> (u, 40))) s1"
    using L1 R(1) by (auto simp: sizeof_RtDataView_def)
  have n: "0 < sizeof_RtDataColumn * nat nf" "sizeof_RtDataColumn * nat nf < 2 ^ 63" using R(5) nf by (auto simp: sizeof_RtDataColumn_def)
  obtain w where 2: "rt_kept (B(v \<mapsto> (u, 40))) s1 s2" "rt.more s2 = rt.more s1" "fresh_block (B(v \<mapsto> (u, 40))) c (sizeof_RtDataColumn * nat nf)"
      "rinv (B(v \<mapsto> (u, 40), c \<mapsto> (w, sizeof_RtDataColumn * nat nf))) s2"
    using rt_alloc_law [OF 1(4) n a2] R(2) by auto
  let ?B = "B(v \<mapsto> (u, 40), c \<mapsto> (w, sizeof_RtDataColumn * nat nf))"
  have Bv: "B v = None" using 1(3) by (simp add: fresh_block_def)
  have "(B(v \<mapsto> (u, 40))) c = None" using 2(3) unfolding fresh_block_def by blast
  then have Bc: "B c = None" "c \<noteq> v" by (auto split: if_splits)
  have ext: "\<forall>a x. B a = Some x \<longrightarrow> ?B a = Some x" using Bv Bc by auto
  have h: "lhdr s2 = lhdr s" using more_views [OF 1(2)] more_views [OF 2(2)] by simp
  have "rt_kept B s1 s2" by (rule rt_kept_sub [OF 2(1)]) (use Bv in auto)
  then have k: "rt_kept B s s'" using 1(1) by (auto simp: R(4) intro: rt_kept_trans)
  have dv: "views s' vp = d" by (simp add: R(3,4))
  have "view_ok ?B s' vp xs" unfolding view_ok_def Let_def dv
    using R xs nf h Bc by (simp add: d_def sizeof_RtDataView_def built_def)
  moreover have "rinv ?B s'" using 2(4) by (simp add: R(4) rinv_view)
  ultimately show ?thesis using k ext h dv by (intro exI [of _ ?B]) (simp add: R(4) d_def built_def)
qed

lemma gather_ok:
  fixes s s0 :: "('a, 'b) vrt_scheme"
  assumes "rinv (B(d \<mapsto> (v, n * w))) s" "rt_kept B s0 s" "rt.more s = rt.more s0" "cells (rmem s) d w i = map F [0..<i]" "i + k = n"
    and d: "B d = None" and h: "rows_held B s0 lp es n" and w: "off + w \<le> es"
    and F: "\<And>i. F i = peek (rmem s0) (row_at lp i s0 + off) w"
  shows "case gather lp d off w k i s of
      Inl e \<Rightarrow> e = data_view_fail ''null row in source list'' \<and> (\<exists>j < n. row_at lp j s0 = 0)
    | Inr s' \<Rightarrow> rinv (B(d \<mapsto> (v, n * w))) s' \<and> rt_kept B s0 s' \<and> rt.more s' = rt.more s0 \<and> cells (rmem s') d w n = map F [0..<n]
        \<and> (\<forall>j < n. i \<le> j \<longrightarrow> row_at lp j s0 \<noteq> 0)"
  using assms(1-5)
proof (induction k arbitrary: i s)
  case (Suc k)
  have h': "lhdr s = lhdr s0" using more_fields(1) [OF Suc.prems(3)] .
  have i: "i < n" using Suc.prems(5) by simp
  have r: "row_at lp i s = row_at lp i s0" using kept_row_at [OF h Suc.prems(2) h' i] .
  show ?case
  proof (cases "row_at lp i s0 = 0")
    case True
    then show ?thesis using r i by auto
  next
    case False
    let ?a = "row_at lp i s0 + off"
    have wi: "within B (row_at lp i s0) es" using h i False by (simp add: rows_held_def)
    then have wa: "within B ?a w" by (rule within_sub) (use w in auto)
    have same: "peek (rmem s) ?a w = F i" using within_kept [OF wa Suc.prems(2)] by (simp add: F)
    have wf: "owned_wf (B(d \<mapsto> (v, n * w)))" using rinv_wf [OF Suc.prems(1)] .
    have lim: "d \<le> d + i * w" "d + i * w + w \<le> d + n * w" using cell_end [OF i, of w] by auto
    have "B(d := None) = B" using d by auto
    then have "apart ?a w d (n * w)" using within_apart [OF wf] wa by simp
    then have ap: "apart ?a w (d + i * w) w" using lim by (auto elim: apart_sub)
    let ?s = "rt_poke (d + i * w) (F i) s"
    have len: "length (F i) = w" by (simp add: F)
    have e: "upd_mem (\<lambda>m. memcpy m (d + i * w) (row_at lp i s + off) w) s = ?s"
      by (rule upd_mem_poke) (use ap same r in \<open>auto simp: apart_def intro!: memcpy_eq [THEN trans]\<close>)
    have 1: "rinv (B(d \<mapsto> (v, n * w))) ?s" by (rule rt_write_law [OF Suc.prems(1), of d v "n * w"]) (use lim len in simp_all)
    have 2: "rt_kept B s0 ?s"
      using Suc.prems(2) kept_poke_block [OF wf d lim(1), of "F i" s] lim(2) len by (auto intro: rt_kept_trans)
    have 3: "rt.more ?s = rt.more s0" using Suc.prems(3) by (simp add: rt_poke_def)
    have 4: "cells (rmem ?s) d w (Suc i) = map F [0..<Suc i]"
      using cells_push [OF len, of "rmem s" d i] Suc.prems(4) by (simp add: rmem_poke)
    have g: "gather lp d off w (Suc k) i s = gather lp d off w k (Suc i) ?s" using r False e by (simp add: Let_def)
    have nz: "\<forall>j < n. i \<le> j \<longrightarrow> row_at lp j s0 \<noteq> 0" if "\<forall>j < n. Suc i \<le> j \<longrightarrow> row_at lp j s0 \<noteq> 0"
      using False that by (metis Suc_leI le_neq_implies_less)
    have 5: "Suc i + k = n" using Suc.prems(5) by simp
    show ?thesis unfolding g using Suc.IH [OF 1 2 3 4 5] nz by (auto simp del: gather.simps fun_upd_apply split: sum.splits)
  qed
qed (use assms(5) in auto)

lemma add_column_ok:
  fixes s :: "('a, 'b) vrt_scheme"
  assumes inv: "rinv B s" and ok: "view_ok B s vp xs"
    and h: "source (views s vp) \<noteq> 0 \<Longrightarrow> rows_held B s (source (views s vp)) (nat (velem_size (views s vp))) (length xs)
      \<and> rows s (source (views s vp)) (nat (velem_size (views s vp))) (length xs) = xs"
    and ow: "is_int32 (off + w)"
  shows "column_outcome S rinv B s vp xs field off w (data_view_add_column S vp field off w s)"
proof -
  define v where "v = views s vp"
  have V: "vp \<noteq> 0" "vlen v = int (length xs)" "vlen v < 2 ^ 31" "velem_size v < 2 ^ 31" using ok by (auto simp: view_ok_def Let_def v_def)
  show ?thesis
  proof (cases "source v \<noteq> 0 \<and> fits v field off w \<and> cdata (columns v ! nat field) = 0")
    case False
    then show ?thesis using V(1) ow
      by (auto simp: data_view_add_column_def column_outcome_def Let_def v_def [symmetric] fits_def)
  next
    case True
    then have F: "0 \<le> field" "field < field_count v" "0 \<le> off" "0 < w" "off + w \<le> velem_size v" by (auto simp: fits_def)
    let ?c = "\<lambda>d. \<lparr>cdata = d, coffset = off, csize = w\<rparr>"
    let ?put = "\<lambda>d. upd_view vp (\<lambda>v. v\<lparr>columns := (columns v)[nat field := ?c d]\<rparr>)"
    let ?built = "upd_view vp (\<lambda>v. v\<lparr>built_fields := built_fields v + 1\<rparr>)"
    show ?thesis
    proof (cases "xs = []")
      case e: True
      have r: "data_view_add_column S vp field off w s = Inr (?built (?put 0 s))"
        using True F V ow e by (simp add: data_view_add_column_def Let_def v_def [symmetric])
      have "view_ok B (?built (?put 0 s)) vp xs"
        by (rule view_ok_column [OF ok, of field off w _ B 0]) (use True F e in \<open>auto simp: v_def rt_kept_def kept_def column_ok_def\<close>)
      moreover have "rinv B (?built (?put 0 s))" using inv by (simp add: rinv_view)
      ultimately show ?thesis using True unfolding r column_outcome_def Let_def v_def [symmetric]
        by (auto simp: rt_kept_def kept_def v_def)
    next
      case ne: False
      let ?n = "length xs" and ?w = "nat w" and ?lp = "source v"
      obtain d s1 where al: "rt_alloc S (?n * ?w) s = (d, s1)" by fastforce
      have "?n < 2 ^ 31" "?w < 2 ^ 31" using V F by auto
      then have "?n * ?w < 2 ^ 31 * 2 ^ 31" by (intro mult_strict_mono) auto
      then have nw: "0 < ?n * ?w" "?n * ?w < 2 ^ 63" using ne F by auto
      note L = rt_alloc_law [OF inv nw al]
      have H: "rows_held B s ?lp (nat (velem_size v)) ?n" "rows s ?lp (nat (velem_size v)) ?n = xs" using h True by (auto simp: v_def)
      show ?thesis
      proof (cases "d = 0")
        case True': True
        have "data_view_add_column S vp field off w s = Inl Null_store"
          using True True' F V ow ne al by (simp add: data_view_add_column_def Let_def v_def [symmetric])
        then show ?thesis using True' ne al by (simp add: column_outcome_def)
      next
        case False
        then obtain u where f: "fresh_block B d (?n * ?w)" "rinv (B(d \<mapsto> (u, ?n * ?w))) s1" and k: "rt_kept B s s1" "rt.more s1 = rt.more s"
          using L by auto
        have Bd: "B d = None" using f(1) by (simp add: fresh_block_def)
        let ?B = "B(d \<mapsto> (u, ?n * ?w))" and ?s = "?put d s1"
        define FF where "FF i = peek (rmem s) (row_at ?lp i s + nat off) ?w" for i
        have vs: "views s1 = views s" "lhdr s1 = lhdr s" using more_views [OF k(2)] by auto
        have in': "rinv ?B ?s" "rt_kept B (?put d s) ?s" "rt.more ?s = rt.more (?put d s)" "cells (rmem ?s) d ?w 0 = map FF [0..<0]"
            "rows_held B (?put d s) ?lp (nat (velem_size v)) ?n" "nat off + ?w \<le> nat (velem_size v)"
            "\<And>i. FF i = peek (rmem (?put d s)) (row_at ?lp i (?put d s) + nat off) ?w"
          using f(2) k(1) more_view [OF k(2)] H(1) F by (simp_all add: rinv_view FF_def cells_def)
        note G = gather_ok [OF in'(1-4) _ Bd in'(5-7), of ?n, simplified add_0 refl simp_thms]
        have G: "case gather ?lp d (nat off) ?w ?n 0 ?s of
            Inl e \<Rightarrow> e = data_view_fail ''null row in source list'' \<and> (\<exists>j < ?n. row_at ?lp j s = 0)
          | Inr s' \<Rightarrow> rinv ?B s' \<and> rt_kept B s s' \<and> rt.more s' = rt.more (?put d s) \<and> cells (rmem s') d ?w ?n = map FF [0..<?n]
              \<and> (\<forall>j < ?n. 0 \<le> j \<longrightarrow> row_at ?lp j s \<noteq> 0)"
          using G by (cases "gather ?lp d (nat off) ?w ?n 0 ?s") auto
        have r: "data_view_add_column S vp field off w s
            = andthen (gather ?lp d (nat off) ?w ?n 0 ?s) (\<lambda>s. Inr (?built s))"
          using True False F V ow ne al by (simp add: data_view_add_column_def Let_def v_def [symmetric])
        show ?thesis
        proof (cases "gather ?lp d (nat off) ?w ?n 0 ?s")
          case (Inl e)
          then show ?thesis using G r by (simp add: column_outcome_def v_def [symmetric])
        next
          case (Inr s2)
          then have s2: "rinv ?B s2" "rt_kept B s s2" "rt.more s2 = rt.more (?put d s)" "cells (rmem s2) d ?w ?n = map FF [0..<?n]"
            using G by auto
          have fs: "map FF [0..<?n] = map (field_of (?c d)) xs"
          proof (rule nth_equalityI)
            fix i assume "i < length (map FF [0..<?n])"
            then have i: "i < ?n" by simp
            then have "xs ! i = peek (rmem s) (row_at ?lp i s) (nat (velem_size v))" using nth_rows [OF i, of s ?lp "nat (velem_size v)"] H(2) by simp
            then show "map FF [0..<?n] ! i = map (field_of (?c d)) xs ! i" using i F by (simp add: FF_def field_of_peek)
          qed simp
          have v2: "views s2 = views (?put d s)" "lhdr s2 = lhdr s" using more_views [OF s2(3)] by auto
          have vb: "views (?built s2) vp = v\<lparr>columns := (columns v)[nat field := ?c d], built_fields := built_fields v + 1\<rparr>"
            by (simp add: v2(1) v_def)
          have co: "column_ok ?B (rmem (?built s2)) xs (velem_size v) (?c d)" using s2(4) F fs by (simp add: column_ok_def)
          have ext: "\<forall>a x. B a = Some x \<longrightarrow> ?B a = Some x" using Bd by auto
          have "view_ok ?B (?built s2) vp xs"
          proof (rule view_ok_column [OF ok])
            show "fits (views s vp) field off w" "cdata (columns (views s vp) ! nat field) = 0" using True by (simp_all add: v_def)
            show "rt_kept B s (?built s2)" using s2(2) by simp
            show "(d = 0) = (xs = [])" using False ne by simp
          qed (use ext co vb in \<open>simp_all only: v_def\<close>)
          moreover have "rinv ?B (?built s2)" using s2(1) by (simp add: rinv_view)
          ultimately have "\<exists>B'. rinv B' (?built s2) \<and> view_ok B' (?built s2) vp xs \<and> rt_kept B s (?built s2) \<and> (\<forall>a x. B a = Some x \<longrightarrow> B' a = Some x)"
            using s2(2) ext by (intro exI [of _ ?B]) simp
          then show ?thesis using True v2 unfolding r Inr column_outcome_def Let_def v_def [symmetric]
            by (auto simp: v_def)
        qed
      qed
    qed
  qed
qed

end

subsection \<open>Rows again\<close>

definition covers :: "RtDataColumn \<Rightarrow> nat \<Rightarrow> bool" where
  "covers c t \<longleftrightarrow> coffset c \<le> int t \<and> int t < coffset c + csize c"

text \<open>A row with the bytes that no column covers zeroed.\<close>

definition rebuild :: "RtDataColumn list \<Rightarrow> nat \<Rightarrow> byte list \<Rightarrow> byte list" where
  "rebuild cs es r = map (\<lambda>t. if \<exists>c \<in> set cs. covers c t then r ! t else 0) [0..<es]"

lemma poke_inside:
  assumes "off + length bs \<le> es"
  shows "poke m (row + off) bs = poke m row (take off (peek m row es) @ bs @ drop (off + length bs) (peek m row es))"
proof
  fix x
  have "x = row + (x - row)" if "row \<le> x" using that by simp
  then show "poke m (row + off) bs x = poke m row (take off (peek m row es) @ bs @ drop (off + length bs) (peek m row es)) x"
    using assms by (auto simp: poke_def nth_append peek_def)
qed

lemma scatter_ok:
  assumes "\<And>c. c \<in> set cs \<Longrightarrow> csize c \<noteq> 0 \<Longrightarrow> 0 \<le> coffset c \<and> 0 < csize c \<and> nat (coffset c) + nat (csize c) \<le> length r
      \<and> peek m (cdata c + i * nat (csize c)) (nat (csize c)) = field_of c r
      \<and> apart row (length r) (cdata c + i * nat (csize c)) (nat (csize c))"
    and "length b = length r" "peek m row (length r) = b"
  shows "\<exists>b'. scatter cs row i m = poke m row b' \<and> length b' = length r
    \<and> (\<forall>t < length r. b' ! t = (if \<exists>c \<in> set cs. covers c t then r ! t else b ! t))"
  using assms
proof (induction cs arbitrary: m b)
  case Nil
  have "scatter [] row i m = poke m row b" using Nil.prems(3) by (auto simp: poke_same)
  then show ?case using Nil.prems(2) by (intro exI [of _ b]) simp
next
  case (Cons c cs)
  let ?w = "nat (csize c)" and ?o = "nat (coffset c)"
  show ?case
  proof (cases "csize c = 0")
    case True
    have "memcpy m (row + ?o) (cdata c + i * 0) 0 = m" by (subst memcpy_eq) (auto simp: poke_def peek_def fun_eq_iff)
    moreover have "\<not> covers c t" for t using True by (simp add: covers_def)
    ultimately show ?thesis using Cons.IH [of m b] Cons.prems True by auto
  next
    case False
    then have C: "0 \<le> coffset c" "0 < csize c" "?o + ?w \<le> length r"
      "peek m (cdata c + i * ?w) ?w = field_of c r" "apart row (length r) (cdata c + i * ?w) ?w" using Cons.prems(1) [of c] by auto
    let ?f = "field_of c r" and ?b = "take ?o b @ field_of c r @ drop (?o + ?w) b"
    have lf: "length ?f = ?w" using C by (simp add: field_of_def)
    have lb: "length ?b = length r" using C lf Cons.prems(2) by simp
    have "apart (row + ?o) ?w (cdata c + i * ?w) ?w" using C(3,5) by (auto elim: apart_sub)
    then have "memcpy m (row + ?o) (cdata c + i * ?w) ?w = poke m (row + ?o) ?f"
      using C(4) by (subst memcpy_eq) (auto simp: apart_def)
    also have "\<dots> = poke m row ?b" using poke_inside [of ?o ?f "length r" m row] C(3) lf Cons.prems(3) by simp
    finally have e: "scatter (c # cs) row i m = scatter cs row i (poke m row ?b)" by simp
    have bt: "?b ! t = (if covers c t then r ! t else b ! t)" if "t < length r" for t
      using that C lf Cons.prems(2) by (auto simp: covers_def nth_append field_of_def)
    have p: "peek (poke m row ?b) row (length r) = ?b" using lb poke_same_len by metis
    have "\<exists>b'. scatter cs row i (poke m row ?b) = poke (poke m row ?b) row b' \<and> length b' = length r
      \<and> (\<forall>t < length r. b' ! t = (if \<exists>c \<in> set cs. covers c t then r ! t else ?b ! t))"
    proof (rule Cons.IH [OF _ lb p])
      fix x assume x: "x \<in> set cs" "csize x \<noteq> 0"
      then have X: "0 \<le> coffset x \<and> 0 < csize x \<and> nat (coffset x) + nat (csize x) \<le> length r
          \<and> peek m (cdata x + i * nat (csize x)) (nat (csize x)) = field_of x r
          \<and> apart row (length r) (cdata x + i * nat (csize x)) (nat (csize x))" using Cons.prems(1) [of x] by simp
      then have "peek (poke m row ?b) (cdata x + i * nat (csize x)) (nat (csize x)) = peek m (cdata x + i * nat (csize x)) (nat (csize x))"
        using lb by (intro peek_poke_apart) (simp add: apart_sym)
      then show "0 \<le> coffset x \<and> 0 < csize x \<and> nat (coffset x) + nat (csize x) \<le> length r
          \<and> peek (poke m row ?b) (cdata x + i * nat (csize x)) (nat (csize x)) = field_of x r
          \<and> apart row (length r) (cdata x + i * nat (csize x)) (nat (csize x))" using X by simp
    qed
    then obtain b' where b': "scatter cs row i (poke m row ?b) = poke (poke m row ?b) row b'" "length b' = length r"
      "\<And>t. t < length r \<Longrightarrow> b' ! t = (if \<exists>c \<in> set cs. covers c t then r ! t else ?b ! t)" by blast
    have "poke (poke m row ?b) row b' = poke m row b'" using lb b'(2) by (simp add: poke_overwrite)
    then show ?thesis using e b' bt by (intro exI [of _ b']) auto
  qed
qed

lemma scatter_zeroed:
  assumes "\<And>c. c \<in> set cs \<Longrightarrow> csize c \<noteq> 0 \<Longrightarrow> 0 \<le> coffset c \<and> 0 < csize c \<and> nat (coffset c) + nat (csize c) \<le> length r
      \<and> peek m (cdata c + i * nat (csize c)) (nat (csize c)) = field_of c r
      \<and> apart row (length r) (cdata c + i * nat (csize c)) (nat (csize c))"
  shows "scatter cs row i (memset m row 0 (length r)) = poke m row (rebuild cs (length r) r)"
proof -
  let ?z = "replicate (length r) 0 :: byte list"
  have "\<exists>b'. scatter cs row i (poke m row ?z) = poke (poke m row ?z) row b' \<and> length b' = length r
    \<and> (\<forall>t < length r. b' ! t = (if \<exists>c \<in> set cs. covers c t then r ! t else ?z ! t))"
  proof (rule scatter_ok)
    fix c assume c: "c \<in> set cs" "csize c \<noteq> 0"
    then have C: "0 \<le> coffset c \<and> 0 < csize c \<and> nat (coffset c) + nat (csize c) \<le> length r
      \<and> peek m (cdata c + i * nat (csize c)) (nat (csize c)) = field_of c r
      \<and> apart row (length r) (cdata c + i * nat (csize c)) (nat (csize c))" by (rule assms)
    then have "peek (poke m row ?z) (cdata c + i * nat (csize c)) (nat (csize c)) = peek m (cdata c + i * nat (csize c)) (nat (csize c))"
      by (intro peek_poke_apart) (simp add: apart_sym)
    then show "0 \<le> coffset c \<and> 0 < csize c \<and> nat (coffset c) + nat (csize c) \<le> length r
      \<and> peek (poke m row ?z) (cdata c + i * nat (csize c)) (nat (csize c)) = field_of c r
      \<and> apart row (length r) (cdata c + i * nat (csize c)) (nat (csize c))" using C by simp
  qed (simp_all add: poke_same_len)
  then obtain b' where b': "scatter cs row i (poke m row ?z) = poke (poke m row ?z) row b'" "length b' = length r"
    "\<And>t. t < length r \<Longrightarrow> b' ! t = (if \<exists>c \<in> set cs. covers c t then r ! t else ?z ! t)" by blast
  have "b' = rebuild cs (length r) r" by (rule nth_equalityI) (use b'(2,3) in \<open>simp_all add: rebuild_def\<close>)
  then show ?thesis using b'(1,2) by (simp add: memset_eq poke_overwrite)
qed


subsection \<open>A new list\<close>

text \<open>A list beside what the program held: none of its blocks is among those.\<close>

definition beside :: "owned \<Rightarrow> owned \<Rightarrow> (addr \<Rightarrow> RtList) \<Rightarrow> addr \<Rightarrow> bool" where
  "beside B B' L lp \<longleftrightarrow> (\<forall>a x. B a = Some x \<longrightarrow> others B' (L lp) lp a = Some x)"

definition empty_list :: "int \<Rightarrow> int \<Rightarrow> RtList \<Rightarrow> bool" where
  "empty_list c es l \<longleftrightarrow> len l = 0 \<and> lcap l = c \<and> elem_size l = es \<and> elem_own l = AIF_ELEM_NONE \<and> grave l = [] \<and> grave_at l = 0"

lemma beside_only:
  assumes b: "beside B B1 (lhdr s) lp" and o: "only_list B1 s lp B2 s'"
  shows "beside B B2 (lhdr s') lp" "rt_kept B s s'"
proof -
  show "beside B B2 (lhdr s') lp" using assms by (fastforce simp: beside_def only_list_def)
  show "rt_kept B s s'" using o b by (auto simp: only_list_def beside_def intro: rt_kept_sub)
qed

context list_rt
begin

lemma list_new_cap_ok:
  assumes inv: "rinv B s" and slot: "rt_arena_slot s = 0" and c: "0 < c" "c < 2 ^ 31" and es: "0 < es" "es < 2 ^ 31"
    and r: "list_new_cap S c es s = Inr (lp, s')"
  shows "empty_list c es (lhdr s' lp) \<and> rt_kept B s s' \<and> cycs s' = cycs s \<and> lrt.more s' = lrt.more s \<and> (\<forall>x. x \<noteq> lp \<longrightarrow> lhdr s' x = lhdr s x)
    \<and> (data (lhdr s' lp) \<noteq> 0 \<longrightarrow> (\<exists>B'. rinv B' s' \<and> list_ok B' (lhdr s') lp \<and> beside B B' (lhdr s') lp))"
proof -
  define n where "n = nat c * nat es"
  have "nat c < 2 ^ 31" "nat es < 2 ^ 31" using c es by auto
  then have "n < 2 ^ 31 * 2 ^ 31" unfolding n_def by (intro mult_strict_mono) auto
  then have n: "0 < n" "n < 2 ^ 62" using c es by (auto simp: n_def)
  show ?thesis
  proof (cases "n \<le> RT_LIST_FUSED_MAX \<and> rt_arena_hint_state s \<le> 0")
    case True
    obtain f s1 where al: "rt_base_alloc S (RT_LIST_FUSED_HDR + n) s = (f, s1)" by fastforce
    have f: "f \<noteq> 0" and lp: "lp = f" and s': "s' = upd_hdr f (\<lambda>_. \<lparr>data = f + RT_LIST_FUSED_HDR, len = 0, lcap = c, elem_own = AIF_ELEM_NONE,
        elem_release = 0, larena = 0, elem_size = es, grave_at = 0, grave = [], grave_cap = 0, fused = True\<rparr>) s1"
      using r True slot n c es al by (auto simp: list_new_cap_def Let_def n_def split: if_splits)
    have hdr: "RT_LIST_FUSED_HDR = 64" by (simp add: RT_LIST_FUSED_HDR_def sizeof_RtList_def)
    note L = base_alloc_law [OF inv _ _ al [unfolded hdr]]
    have k: "rt_kept B s s1" "rt.more s1 = rt.more s" "fresh_block B f (64 + n)" "rinv (B(f \<mapsto> (Seam, 64 + n))) s1"
      using L n f by auto
    have ok: "list_ok (B(f \<mapsto> (Seam, 64 + n))) (lhdr s') lp" using f c es by (simp add: s' lp list_ok_def Let_def list_stride_def n_def hdr)
    have "beside B (B(f \<mapsto> (Seam, 64 + n))) (lhdr s') lp" using k(3) by (auto simp: beside_def others_def own_blocks_def s' lp fresh_block_def)
    moreover have "rinv (B(f \<mapsto> (Seam, 64 + n))) s'" using k(4) by (simp add: s' rinv_hdr)
    moreover have "rt_kept B s s'" using k(1) by (simp add: s' rt_kept_def)
    ultimately show ?thesis using ok more_fields [OF k(2)] by (auto simp: s' lp empty_list_def)
  next
    case False
    obtain p s1 where al: "rt_alloc S sizeof_RtList s = (p, s1)" by fastforce
    obtain d s2 where al2: "rt_alloc S n s1 = (d, s2)" by fastforce
    have p: "p \<noteq> 0" and lp: "lp = p" and s': "s' = upd_hdr p (\<lambda>_. \<lparr>data = d, len = 0, lcap = c, elem_own = AIF_ELEM_NONE,
        elem_release = 0, larena = int (rt_arena_slot s1), elem_size = es, grave_at = 0, grave = [], grave_cap = 0, fused = False\<rparr>) s2"
      using r False slot n c es al al2 by (auto simp: list_new_cap_def Let_def n_def split: if_splits)
    obtain u where k1: "rt_kept B s s1" "rt.more s1 = rt.more s" "fresh_block B p 64" "rinv (B(p \<mapsto> (u, 64))) s1" and u: "u = Seam"
    proof (cases "rt_arena_hint_state s > 0")
      case True
      then have "rt_base_alloc S 64 s = (p, s1)" using al slot
        by (auto simp: rt_alloc_def arena_alloc_def rt_arena_slot_def arena_current_slot_def Let_def sizeof_RtList_def split: if_splits)
      then show thesis using base_alloc_law [OF inv, of 64 p s1] p by (intro that [of Seam]) auto
    next
      case False
      then have "rt_base_alloc S 64 s = (p, s1)" using al by (simp add: rt_alloc_def sizeof_RtList_def)
      then show thesis using base_alloc_law [OF inv, of 64 p s1] p by (intro that [of Seam]) auto
    qed
    let ?B = "B(p \<mapsto> (Seam, 64))"
    have inv1: "rinv ?B s1" using k1(4) u by simp
    have d: "rt_kept ?B s1 s2 \<and> rt.more s2 = rt.more s1 \<and> (d \<noteq> 0 \<longrightarrow> fresh_block ?B d n \<and> (\<exists>v. rinv (?B(d \<mapsto> (v, n))) s2
        \<and> (rt_arena_slot s1 = 0 \<longrightarrow> v = Seam)))"
    proof (cases "rt_arena_slot s1 = 0")
      case True
      then have "rt_base_alloc S n s1 = (d, s2)" using al2
        by (auto simp: rt_alloc_def arena_alloc_def rt_arena_slot_def arena_current_slot_def Let_def split: if_splits)
      then show ?thesis using base_alloc_law [OF inv1 n(1)] n by fastforce
    next
      case False
      then show ?thesis using rt_alloc_law [OF inv1 n(1) _ al2] n by auto
    qed
    have Bp: "B p = None" using k1(3) by (simp add: fresh_block_def)
    have "rt_kept B s1 s2" by (rule rt_kept_sub [of ?B]) (use d Bp in auto)
    then have "rt_kept B s s2" using k1(1) by (blast intro: rt_kept_trans)
    then have kk: "rt_kept B s s'" by (simp add: s' rt_kept_def)
    have "\<exists>B'. rinv B' s' \<and> list_ok B' (lhdr s') lp \<and> beside B B' (lhdr s') lp" if d0: "d \<noteq> 0"
    proof -
      note fd = mp [OF conjunct2 [OF conjunct2 [OF d]] d0]
      from conjunct2 [OF fd] obtain v where v: "rinv (?B(d \<mapsto> (v, n))) s2" "rt_arena_slot s1 = 0 \<longrightarrow> v = Seam" by (elim exE conjE)
      have "?B d = None" using conjunct1 [OF fd] unfolding fresh_block_def by (elim conjE)
      then have Bd: "B d = None" "d \<noteq> p" by (auto split: if_splits)
      have "list_ok (?B(d \<mapsto> (v, n))) (lhdr s') lp" using p c es d0 Bd(2) v(2) by (simp add: s' lp list_ok_def Let_def list_stride_def n_def)
      moreover have "beside B (?B(d \<mapsto> (v, n))) (lhdr s') lp" using Bp Bd by (auto simp: beside_def others_def own_blocks_def s' lp)
      moreover have "rinv (?B(d \<mapsto> (v, n))) s'" using v(1) by (simp only: s' rinv_hdr)
      ultimately show ?thesis by blast
    qed
    moreover have "lhdr s2 = lhdr s" "cycs s2 = cycs s" "lrt.more s2 = lrt.more s"
      using more_fields [OF k1(2)] more_fields [of s2 s1] d by simp_all
    ultimately show ?thesis using kk unfolding lp by (simp add: s' empty_list_def)
  qed
qed

lemma list_new_cap_error:
  "list_new_cap S c es s = Inl e \<Longrightarrow> e = Null_store"
  by (auto simp: list_new_cap_def Let_def split: if_splits prod.splits)

lemma frees_hdr [simp]: "lhdr (fold (rt_free S) ps s) = lhdr s"
  by (induction ps arbitrary: s) auto

text \<open>Blocks given back one after the other.\<close>

lemma frees_ok:
  assumes "rinv B s" "seam_blocks B ps"
  shows "rinv (without B (set ps)) (fold (rt_free S) ps s) \<and> rt_kept (without B (set ps)) s (fold (rt_free S) ps s)
    \<and> lhdr (fold (rt_free S) ps s) = lhdr s \<and> cycs (fold (rt_free S) ps s) = cycs s \<and> lrt.more (fold (rt_free S) ps s) = lrt.more s"
  using assms
proof (induction ps arbitrary: B s)
  case Nil
  then show ?case by (simp add: rt_kept_def kept_def)
next
  case (Cons p ps)
  obtain k where k: "B p = Some (Seam, k)" using Cons.prems(2) by (auto simp: seam_blocks_def)
  note F = free_one [OF Cons.prems(1) k]
  have "seam_blocks (without B {p}) ps" using Cons.prems(2) by (auto simp: seam_blocks_def without_def)
  note I = Cons.IH [OF F(1) this]
  have "rt_kept (without B (set (p # ps))) s (rt_free S p s)"
    by (rule rt_kept_sub [OF F(2)]) (auto simp: without_def split: if_splits)
  then show ?case using I by (auto simp: without_without intro: rt_kept_trans)
qed

end


subsection \<open>The rows of a view\<close>

text \<open>The blocks of a view, in the order in which it gives them back; none where the view lies in a region.\<close>

definition view_blocks :: "addr \<Rightarrow> RtDataView \<Rightarrow> addr list" where
  "view_blocks vp v = (if varena v \<noteq> 0 then [] else rev (filter (\<lambda>d. d \<noteq> 0) (map cdata (columns v))) @ [columns_at v, vp])"

definition new_rows :: "'a seam \<Rightarrow> RtDataView \<Rightarrow> ('a, 'b) lrt_scheme \<Rightarrow> ('a, 'b) lnew" where
  "new_rows S v s = list_new_with_capacity_inline S (vlen v) (velem_size v) s"

text \<open>What turning a view back into a list may do: a store through null, only where memory for the list was
  refused, or a list of its rebuilt rows, with all else kept and then each of the view's blocks given to the
  allocator once: over the plain C library none of them is live any more.\<close>

definition list_outcome_of :: "'a seam \<Rightarrow> (owned \<Rightarrow> ('a, 'b) vrt_scheme \<Rightarrow> bool) \<Rightarrow> owned \<Rightarrow> ('a, 'b) vrt_scheme \<Rightarrow> addr \<Rightarrow> byte list list \<Rightarrow> rt_error + addr \<times> ('a, 'b) vrt_scheme \<Rightarrow> bool" where
  "list_outcome_of S rinv B s vp xs r \<longleftrightarrow> (let v = views s vp; F = set (view_blocks vp v) in case r of
       Inl e \<Rightarrow> e = Null_store \<and> (case new_rows S v s of Inl _ \<Rightarrow> True | Inr (lp, s1) \<Rightarrow> data (lhdr s1 lp) = 0)
     | Inr (lp, s') \<Rightarrow> (\<exists>t. s' = fold (rt_free S) (view_blocks vp v) t \<and> rt_kept B s t)
         \<and> (S = plain_seam \<longrightarrow> (\<forall>a \<in> F. live (hp s') a = None))
         \<and> (data (lhdr s' lp) = 0 \<longrightarrow> xs = []) \<and> (data (lhdr s' lp) \<noteq> 0 \<longrightarrow>
         elems s' lp = map (rebuild (columns v) (nat (velem_size v))) xs \<and> rt_kept (without B F) s s' \<and> (\<forall>x. x \<noteq> lp \<longrightarrow> lhdr s' x = lhdr s x)
         \<and> (\<exists>B'. rinv B' s' \<and> list_ok B' (lhdr s') lp \<and> beside (without B F) B' (lhdr s') lp \<and> (\<forall>a \<in> F. B' a = None))))"

lemma plain_frees_live:
  fixes s :: "('a, 'b) rt_scheme"
  shows "a \<in> set ps \<Longrightarrow> a \<noteq> 0 \<Longrightarrow> live (hp (fold (rt_free plain_seam) ps s)) a = None"
proof (induction ps arbitrary: s)
  case (Cons p ps)
  have keep: "live (hp t) a = None \<Longrightarrow> live (hp (fold (rt_free plain_seam) ps t)) a = None" for t :: "('a, 'b) rt_scheme"
    by (induction ps arbitrary: t) (simp_all add: rt_free_def plain_seam_def plain_rt_free_def tmp_free_def)
  have "live (hp (rt_free plain_seam a s)) a = None"
    using Cons.prems(2) by (simp add: rt_free_def plain_seam_def plain_rt_free_def tmp_free_def)
  then show ?case using Cons keep by (cases "p = a") auto
qed simp

context view_rt
begin

text \<open>Writing one row at the end of the new list.\<close>

lemma row_back:
  fixes s s0 :: "('a, 'b) vrt_scheme"
  assumes inv: "rinv B1 s" "list_ok B1 (lhdr s) lp" "beside B B1 (lhdr s) lp" and k: "rt_kept B s0 s"
    and v: "view_ok B s0 vp xs" "views s = views s0" and es: "elem_size (lhdr s lp) = velem_size (views s0 vp)"
    and i: "len (lhdr s lp) = int i" "i < length xs" "i < nat (lcap (lhdr s lp))" and d: "data (lhdr s lp) \<noteq> 0"
  defines "row \<equiv> data (lhdr s lp) + i * nat (elem_size (lhdr s lp))" and "n \<equiv> nat (velem_size (views s0 vp))"
  shows "upd_mem (\<lambda>m. scatter (columns (views s0 vp)) row i (memset m row 0 n)) s
    = rt_poke row (rebuild (columns (views s0 vp)) n (xs ! i)) s"
proof (rule upd_mem_poke)
  let ?v = "views s0 vp"
  have len: "length (xs ! i) = n" using v(1) i(2) by (simp add: view_ok_def Let_def n_def)
  have w: "list_stride (lhdr s lp) = n" "nat (elem_size (lhdr s lp)) = n"
    using v(1) es by (auto simp: list_stride_def n_def view_ok_def Let_def)
  obtain b u j where b: "B1 b = Some (u, j)" "b = lp \<or> b = data (lhdr s lp)" "b \<le> data (lhdr s lp)"
    "data (lhdr s lp) + nat (lcap (lhdr s lp)) * list_stride (lhdr s lp) \<le> b + j" "fused (lhdr s lp) \<longleftrightarrow> b = lp"
    using list_ok_block [OF inv(2) d] by metis
  have "row + n \<le> data (lhdr s lp) + nat (lcap (lhdr s lp)) * n" using cell_end [OF i(3), of n] by (simp add: row_def w)
  then have rb: "b \<le> row" "row + n \<le> b + j" using b(3,4) by (auto simp: row_def w)
  have "scatter (columns ?v) row i (memset (rmem s) row 0 (length (xs ! i)))
      = poke (rmem s) row (rebuild (columns ?v) (length (xs ! i)) (xs ! i))"
  proof (rule scatter_zeroed)
    fix c assume c: "c \<in> set (columns ?v)" "csize c \<noteq> 0"
    let ?w = "nat (csize c)"
    have ne: "xs \<noteq> []" using i(2) by auto
    have ok: "column_ok B (rmem s0) xs (velem_size ?v) c" using v(1) c by (auto simp: view_ok_def Let_def)
    then obtain x where x: "B (cdata c) = Some (x, length xs * ?w)"
      and cs: "cells (rmem s0) (cdata c) ?w (length xs) = map (field_of c) xs" using ne by (auto simp: column_ok_def)
    have "others B1 (lhdr s lp) lp (cdata c) = Some (x, length xs * ?w)" using inv(3) x by (simp add: beside_def)
    then have x1: "B1 (cdata c) = Some (x, length xs * ?w)" "cdata c \<noteq> b"
      using b(2,5) by (auto simp: others_def own_blocks_def split: if_splits)
    have lim: "i * ?w + ?w \<le> length xs * ?w" by (rule cell_end) (rule i(2))
    have "apart b j (cdata c) (length xs * ?w)" using rinv_wf [OF inv(1)] x1 b(1) unfolding owned_wf_def by metis
    then have ap: "apart row (length (xs ! i)) (cdata c + i * ?w) ?w" using rb lim by (auto elim: apart_sub simp: len)
    have "within B (cdata c + i * ?w) ?w" unfolding within_def
      by (intro exI [of _ "cdata c"] exI [of _ x] exI [of _ "length xs * ?w"]) (use x lim in simp)
    then have "peek (rmem s) (cdata c + i * ?w) ?w = peek (rmem s0) (cdata c + i * ?w) ?w" using within_kept k by blast
    also have "\<dots> = cells (rmem s0) (cdata c) ?w (length xs) ! i" using i(2) by simp
    also have "\<dots> = field_of c (xs ! i)" using cs i(2) by simp
    finally show "0 \<le> coffset c \<and> 0 < csize c \<and> nat (coffset c) + ?w \<le> length (xs ! i)
        \<and> peek (rmem s) (cdata c + i * ?w) ?w = field_of c (xs ! i) \<and> apart row (length (xs ! i)) (cdata c + i * ?w) ?w"
      using ok ap len by (auto simp: column_ok_def n_def nat_add_distrib [symmetric])
  qed
  then show "scatter (columns ?v) row i (memset (rmem s) row 0 n) = poke (rmem s) row (rebuild (columns ?v) n (xs ! i))" by (simp add: len)
qed

lemma rows_back_ok:
  fixes s s0 :: "('a, 'b) vrt_scheme"
  assumes v: "view_ok B s0 vp xs"
    and "rinv B1 s" "list_ok B1 (lhdr s) lp" "beside B B1 (lhdr s) lp" "rt_kept B s0 s"
    and "views s = views s0" "elem_size (lhdr s lp) = velem_size (views s0 vp)"
    and "len (lhdr s lp) = int i" "i + k = length xs" "length xs \<le> nat (lcap (lhdr s lp))" "data (lhdr s lp) \<noteq> 0"
    and "elems s lp = map (rebuild (columns (views s0 vp)) (nat (velem_size (views s0 vp)))) (take i xs)"
  shows "\<exists>s'. rows_back S vp lp k i s = Inr s' \<and> (\<exists>B'. rinv B' s' \<and> list_ok B' (lhdr s') lp \<and> beside B B' (lhdr s') lp)
    \<and> rt_kept B s0 s' \<and> views s' = views s0 \<and> (\<forall>x. x \<noteq> lp \<longrightarrow> lhdr s' x = lhdr s x) \<and> cycs s' = cycs s
    \<and> elems s' lp = map (rebuild (columns (views s0 vp)) (nat (velem_size (views s0 vp)))) xs"
  using assms(2-)
proof (induction k arbitrary: i B1 s)
  case 0
  then show ?case by auto
next
  case (Suc k)
  let ?l = "lhdr s lp" and ?v = "views s0 vp"
  let ?n = "nat (velem_size ?v)" and ?row = "data ?l + i * nat (elem_size ?l)"
  define bs where "bs = rebuild (columns ?v) ?n (xs ! i)"
  have i: "i < length xs" "i < nat (lcap ?l)" using Suc.prems(8,9) by auto
  have V: "0 < velem_size ?v" "length xs < 2 ^ 31" using v by (auto simp: view_ok_def Let_def)
  have w: "list_stride ?l = ?n" "nat (elem_size ?l) = ?n" using V Suc.prems(6) by (auto simp: list_stride_def)
  have nlen: "i32 (int i + 1) = int (Suc i)" using i(1) V(2) by (subst i32_id) (auto simp: is_int32_def)
  note E = row_back [OF Suc.prems(1-4) v Suc.prems(5,6,7) i Suc.prems(10), folded bs_def]
  let ?s1 = "upd_hdr lp (\<lambda>l. l\<lparr>len := int (Suc i)\<rparr>) s"
  let ?s2 = "upd_hdr lp (\<lambda>l. l\<lparr>len := int (Suc i)\<rparr>) (rt_poke ?row bs s)"
  have push: "list_push_slot S lp (velem_size ?v) s = Inr (?row, ?s1)"
  proof -
    have "\<not> len ?l \<ge> lcap ?l" "elem_size ?l \<noteq> 0" "i32 (len ?l + 1) = int (Suc i)" using Suc.prems(6,7) i V nlen by auto
    then show ?thesis using Suc.prems(7) by (simp add: list_push_slot_def Let_def slot_at_def upd_hdr_def)
  qed
  have s2: "upd_mem (\<lambda>m. scatter (columns ?v) ?row i (memset m ?row 0 ?n)) ?s1 = ?s2"
  proof -
    have "upd_mem f ?s1 = upd_hdr lp (\<lambda>l. l\<lparr>len := int (Suc i)\<rparr>) (upd_mem f s)" for f :: "mem \<Rightarrow> mem"
      by (simp add: upd_mem_def upd_hdr_def)
    then show ?thesis using E by simp
  qed
  have lb: "length bs = ?n" by (simp add: bs_def rebuild_def)
  have "i * ?n + ?n \<le> nat (lcap ?l) * ?n" using cell_end [OF i(2)] by simp
  then have "list_now rinv B1 s lp (cells (poke (rmem s) ?row bs) (data ?l) (list_stride ?l) (nat (int (Suc i)))) ?s2"
    by (intro edit_ok [OF Suc.prems(1,2)]) (use i lb in \<open>auto simp: w\<close>)
  moreover have "cells (poke (rmem s) ?row bs) (data ?l) (list_stride ?l) (nat (int (Suc i))) = elems s lp @ [bs]"
    using cells_push [OF lb, of "rmem s" "data ?l" i] Suc.prems(7) by (simp add: w elems_def Let_def del: of_nat_Suc)
  ultimately obtain B2 where B2: "rinv B2 ?s2" "list_ok B2 (lhdr ?s2) lp" "only_list B1 s lp B2 ?s2" and el: "elems ?s2 lp = elems s lp @ [bs]"
    unfolding list_now_def by metis
  note bd = beside_only [OF Suc.prems(3) B2(3)]
  have row0: "?row \<noteq> 0" "views ?s1 vp = ?v" using Suc.prems(5,10) by (auto simp: upd_hdr_def)
  obtain row where row: "?row = row" by simp
  have st: "rows_back S vp lp (Suc k) i s = rows_back S vp lp k (Suc i) ?s2"
    using push s2 row0(1) Suc.prems(5) unfolding row by (simp add: Let_def)
  have "\<exists>s'. rows_back S vp lp k (Suc i) ?s2 = Inr s' \<and> (\<exists>B'. rinv B' s' \<and> list_ok B' (lhdr s') lp \<and> beside B B' (lhdr s') lp)
    \<and> rt_kept B s0 s' \<and> views s' = views s0 \<and> (\<forall>x. x \<noteq> lp \<longrightarrow> lhdr s' x = lhdr ?s2 x) \<and> cycs s' = cycs ?s2
    \<and> elems s' lp = map (rebuild (columns ?v) ?n) xs"
  proof (rule Suc.IH [OF B2(1,2) bd(1)])
    show "rt_kept B s0 ?s2" using Suc.prems(4) bd(2) by (rule rt_kept_trans)
    show "views ?s2 = views s0" using Suc.prems(5) by (simp add: upd_hdr_def rt_poke_def)
    show "elems ?s2 lp = map (rebuild (columns ?v) ?n) (take (Suc i) xs)"
      using el Suc.prems(11) i(1) by (simp add: take_Suc_conv_app_nth bs_def)
  qed (use Suc.prems i in simp_all)
  then show ?case unfolding st by simp
qed

lemma rows_back_null:
  fixes s :: "('a, 'b) vrt_scheme"
  assumes "data (lhdr s lp) = 0" "len (lhdr s lp) = 0" "0 < lcap (lhdr s lp)" "elem_size (lhdr s lp) \<noteq> 0"
  shows "rows_back S vp lp (Suc k) 0 s = Inl Null_store"
  using assms by (simp add: list_push_slot_def Let_def slot_at_def)

lemma to_list_ok:
  fixes s :: "('a, 'b) vrt_scheme"
  assumes inv: "rinv B s" and ok: "view_ok B s vp xs" and src: "source (views s vp) = 0" and slot: "rt_arena_slot s = 0"
    and sb: "seam_blocks B (view_blocks vp (views s vp))"
  shows "list_outcome_of S rinv B s vp xs (data_view_to_list S R m vp s)"
proof -
  define v where "v = views s vp"
  let ?es = "nat (velem_size v)" and ?F = "set (view_blocks vp v)" and ?ys = "map (rebuild (columns v) (nat (velem_size v))) xs"
  have V: "vp \<noteq> 0" "vlen v = int (length xs)" "length xs < 2 ^ 31" "0 < velem_size v" "velem_size v < 2 ^ 31"
    using ok by (auto simp: view_ok_def Let_def v_def)
  define c where "c = (if vlen v > 0 then vlen v else 4)"
  have c: "0 < c" "c < 2 ^ 31" "length xs \<le> nat c" using V by (auto simp: c_def)
  have t: "data_view_to_list S R m vp s = andthen (list_new_cap S c (velem_size v) s) (\<lambda>(lp, s).
      andthen (rows_back S vp lp (length xs) 0 s) (\<lambda>s. andthen (data_view_release S R m vp s) (\<lambda>s. Inr (lp, s))))"
    using V src by (simp add: data_view_to_list_def Let_def v_def list_new_with_capacity_inline_def c_def)
  have new: "new_rows S (views s vp) s = list_new_cap S c (velem_size v) s"
    by (simp add: new_rows_def list_new_with_capacity_inline_def c_def v_def)
  have live0: "S = plain_seam \<longrightarrow> (\<forall>a \<in> ?F. live (hp (fold (rt_free S) (view_blocks vp v) t)) a = None)" for t :: "('a, 'b) vrt_scheme"
  proof (intro impI ballI)
    fix a assume S: "S = plain_seam" "a \<in> ?F"
    then obtain k where "B a = Some (Seam, k)" using sb unfolding seam_blocks_def v_def by blast
    then have "a \<noteq> 0" using owned_null [OF rinv_wf [OF inv]] by (cases "a = 0") auto
    then show "live (hp (fold (rt_free S) (view_blocks vp v) t)) a = None" unfolding S(1) by (intro plain_frees_live S(2))
  qed
  show ?thesis
  proof (cases "list_new_cap S c (velem_size v) s")
    case (Inl e)
    then show ?thesis using list_new_cap_error [OF Inl] new by (simp add: list_outcome_of_def t)
  next
    case (Inr r)
    then obtain lp s1 where r: "list_new_cap S c (velem_size v) s = Inr (lp, s1)" by (cases r) auto
    from list_new_cap_ok [OF inv slot c(1,2) V(4,5) r]
    have N: "empty_list c (velem_size v) (lhdr s1 lp)" "rt_kept B s s1" "lrt.more s1 = lrt.more s"
        "\<forall>x. x \<noteq> lp \<longrightarrow> lhdr s1 x = lhdr s x" "cycs s1 = cycs s"
      and I: "data (lhdr s1 lp) \<noteq> 0 \<Longrightarrow> \<exists>B'. rinv B' s1 \<and> list_ok B' (lhdr s1) lp \<and> beside B B' (lhdr s1) lp" by auto
    have vs: "views s1 = views s" using N(3) by (cases s; cases s1) simp
    have E: "len (lhdr s1 lp) = 0" "lcap (lhdr s1 lp) = c" "elem_size (lhdr s1 lp) = velem_size v" using N(1) by (auto simp: empty_list_def)
    show ?thesis
    proof (cases "data (lhdr s1 lp) = 0")
      case True
      have sim: "data_view_release S R m vp s1 = Inr s'' \<Longrightarrow> lhdr s'' = lhdr s1" for s''
        using vs src V(1) by (auto simp: data_view_release_def Let_def v_def [symmetric] split: if_splits)
      show ?thesis
      proof (cases "xs = []")
        case e: True
        define s'' where "s'' = fold (rt_free S) (view_blocks vp v) s1"
        have s3: "data_view_release S R m vp s1 = Inr s''"
          using V(1) vs src by (simp add: data_view_release_def Let_def v_def view_blocks_def s''_def)
        have "data_view_to_list S R m vp s = Inr (lp, s'')" using e t r s3 by simp
        then show ?thesis using e True N(2) live0 [folded s''_def] sim [OF s3] by (auto simp: list_outcome_of_def Let_def v_def s''_def)
      next
        case False
        then obtain k where "length xs = Suc k" by (cases xs) auto
        then have "data_view_to_list S R m vp s = Inl Null_store"
          using rows_back_null [OF True] E c(1) V(4) t r by simp
        then show ?thesis using True new r by (simp add: list_outcome_of_def)
      qed
    next
      case False
      then obtain B1 where B1: "rinv B1 s1" "list_ok B1 (lhdr s1) lp" "beside B B1 (lhdr s1) lp" using I by blast
      have "\<exists>s'. rows_back S vp lp (length xs) 0 s1 = Inr s' \<and> (\<exists>B'. rinv B' s' \<and> list_ok B' (lhdr s') lp \<and> beside B B' (lhdr s') lp)
        \<and> rt_kept B s s' \<and> views s' = views s \<and> (\<forall>x. x \<noteq> lp \<longrightarrow> lhdr s' x = lhdr s1 x) \<and> cycs s' = cycs s1 \<and> elems s' lp = ?ys"
        unfolding v_def
        by (rule rows_back_ok [OF ok B1 N(2)]) (use vs E V c False in \<open>simp_all add: v_def elems_def Let_def cells_def\<close>)
      then obtain s2 B2 where s2: "rows_back S vp lp (length xs) 0 s1 = Inr s2" "rinv B2 s2" "list_ok B2 (lhdr s2) lp" "beside B B2 (lhdr s2) lp"
        "rt_kept B s s2" "views s2 = views s" "\<forall>x. x \<noteq> lp \<longrightarrow> lhdr s2 x = lhdr s x" "cycs s2 = cycs s" "elems s2 lp = ?ys"
        using N(4,5) by auto
      have sub: "B a = Some x \<Longrightarrow> B2 a = Some x \<and> a \<notin> own_blocks (lhdr s2 lp) lp" for a x
        using s2(4) unfolding beside_def others_def by (metis option.distinct(1))
      have sb2: "seam_blocks B2 (view_blocks vp v)" using sb sub by (fastforce simp: seam_blocks_def v_def)
      have dis: "?F \<inter> own_blocks (lhdr s2 lp) lp = {}" using sb sub by (fastforce simp: seam_blocks_def v_def)
      define s3 where "s3 = fold (rt_free S) (view_blocks vp v) s2"
      have rel: "data_view_release S R m vp s2 = Inr s3"
        using V(1) src s2(6) by (simp add: data_view_release_def Let_def v_def view_blocks_def s3_def)
      note F = frees_ok [OF s2(2) sb2, folded s3_def]
      have fd: "data_view_to_list S R m vp s = Inr (lp, s3)" using t r s2(1) rel by simp
      have ok3: "list_ok (without B2 ?F) (lhdr s3) lp" using list_ok_without [OF s2(3) dis] F by simp
      have "elems s3 lp = elems s2 lp" by (rule kept_elems [OF list_ok_without [OF s2(3) dis]]) (use F in auto)
      moreover have "beside (without B ?F) (without B2 ?F) (lhdr s3) lp"
        using s2(4) F by (auto simp: beside_def others_def without_def split: if_splits)
      moreover have "rt_kept (without B ?F) s s3"
      proof -
        have "rt_kept (without B ?F) s2 s3"
          by (rule rt_kept_sub [of "without B2 ?F"]) (use F sub in \<open>auto simp: without_def split: if_splits\<close>)
        then show ?thesis using rt_kept_without [OF s2(5)] by (blast intro: rt_kept_trans)
      qed
      moreover have "\<forall>a \<in> ?F. without B2 ?F a = None" by (simp add: without_def)
      moreover have "\<forall>x. x \<noteq> lp \<longrightarrow> lhdr s3 x = lhdr s x" using s2(7) F by simp
      ultimately have "elems s3 lp = ?ys \<and> rt_kept (without B ?F) s s3 \<and> (\<forall>x. x \<noteq> lp \<longrightarrow> lhdr s3 x = lhdr s x)
        \<and> (\<exists>B'. rinv B' s3 \<and> list_ok B' (lhdr s3) lp \<and> beside (without B ?F) B' (lhdr s3) lp \<and> (\<forall>a \<in> ?F. B' a = None))"
        using F ok3 s2(9) by auto
      moreover have "xs = []" if "data (lhdr s3 lp) = 0"
      proof -
        have "lcap (lhdr s3 lp) = 0" using ok3 that by (auto simp: list_ok_def Let_def split: if_splits)
        then have "len (lhdr s3 lp) = 0" using list_okD(2,3) [OF ok3] by linarith
        then have "elems s3 lp = []" by (simp add: elems_def Let_def cells_def)
        then show ?thesis using calculation by simp
      qed
      moreover have "(\<exists>t. s3 = fold (rt_free S) (view_blocks vp v) t \<and> rt_kept B s t) \<and> (S = plain_seam \<longrightarrow> (\<forall>a \<in> ?F. live (hp s3) a = None))"
        using s2(5) live0 [of s2, folded s3_def] unfolding s3_def by blast
      ultimately show ?thesis unfolding fd list_outcome_of_def Let_def v_def by simp
    qed
  qed
qed

end


lemma rt_inv_view: "rt_inv hinv B (upd_view vp f s) = rt_inv hinv B s"
proof -
  have a: "arena_of w (upd_view vp f s) = arena_of w s" for w by (auto simp: arena_of_def upd_view_def split: option.splits)
  then have c: "chunks w (upd_view vp f s) = chunks w s" for w by (simp add: chunks_def)
  then have k: "chunk_set (upd_view vp f s) = chunk_set s" by (simp add: chunk_set_def fun_eq_iff)
  have r: "in_region (upd_view vp f s) = in_region s" using a by (simp add: in_region_def fun_eq_iff)
  show ?thesis unfolding rt_inv_def arenas_ok_def held_ok_def a c r k upd_view_fields ..
qed

sublocale seam_spec \<subseteq> views: view_rt S "rt_inv inv :: owned \<Rightarrow> ('a, 'b) vrt_scheme \<Rightarrow> bool"
  by unfold_locales (rule rt_inv_view)

context seam_spec
begin

lemma view_rt_laws: "view_rt S (rt_inv inv :: owned \<Rightarrow> ('a, 'b) vrt_scheme \<Rightarrow> bool)"
  by (rule views.view_rt_axioms)

end

subsection \<open>The properties\<close>

text \<open>C21. Adding a column keeps a view well formed, on every allocator that keeps its contract: each column
  built so far lies inside an element and has a block of its own with that field of every row, in
  order.  Everything the program held is still held, with the same bytes, the source list included.  Each
  reported error happens only for its cause, and no other failure is possible but a refused
  allocation.\<close>

theorem data_view_column_sound:
  assumes "seam_spec S hinv" and "rt_inv hinv B s" and "view_ok B s vp xs"
    and "source (views s vp) \<noteq> 0 \<longrightarrow> rows_held B s (source (views s vp)) (nat (velem_size (views s vp))) (length xs)
      \<and> rows s (source (views s vp)) (nat (velem_size (views s vp))) (length xs) = xs"
    and "is_int32 (off + w)"
  shows "column_outcome S (rt_inv hinv) B s vp xs field off w (data_view_add_column S vp field off w s)"
  using view_rt.add_column_ok [OF seam_spec.view_rt_laws [OF assms(1)] assms(2,3)] assms(4,5) by blast

lemma rebuild_covered: "length r = es \<Longrightarrow> \<forall>t < es. \<exists>c \<in> set cs. covers c t \<Longrightarrow> rebuild cs es r = r"
  by (rule nth_equalityI) (auto simp: rebuild_def)

text \<open>C22. Rows turned into columns come back: outside an arena hint, materialising a finished view of rows \<open>xs\<close>
  gives a new list of those rows, the bytes that no column covers zeroed, so exactly \<open>xs\<close> where the
  columns cover every byte.  All else is kept, and then each of the view's blocks goes to the
  allocator's free once, whether or not the list got memory: over the plain C library none of them is live
  afterwards, and the invariant, which counts every block of the heap, holds without them.  The only failure is
  a refused allocation of the list.\<close>

theorem data_view_rows_return:
  assumes "seam_spec S hinv" and "rt_inv hinv B s" and "view_ok B s vp xs" and "source (views s vp) = 0"
    and "rt_arena_slot s = 0" and "seam_blocks B (view_blocks vp (views s vp))"
  shows "list_outcome_of S (rt_inv hinv) B s vp xs (data_view_to_list S R m vp s)
    \<and> ((\<forall>t < nat (velem_size (views s vp)). \<exists>c \<in> set (columns (views s vp)). covers c t) \<longrightarrow>
       map (rebuild (columns (views s vp)) (nat (velem_size (views s vp)))) xs = xs)"
proof -
  have "length r = nat (velem_size (views s vp))" if "r \<in> set xs" for r using assms(3) that by (simp add: view_ok_def Let_def)
  then show ?thesis
    using view_rt.to_list_ok [OF seam_spec.view_rt_laws [OF assms(1)] assms(2-)] by (auto simp: map_idI rebuild_covered)
qed

text \<open>Two rows of two bytes in a list at 4096, a view at 8192 with its array of columns at 12288.\<close>

definition row_state :: "addr set \<Rightarrow> RtDataView \<Rightarrow> unit vrt" where
  "row_state A v =
    \<lparr>hp = \<lparr>mem = poke (poke (\<lambda>_. 0) 4160 [1, 2, 3, 4]) 16384 [1, 2, 3, 4],
       live = (\<lambda>a. if a \<in> A then Some 96 else None), pick = \<lambda>lv n. if lv = (\<lambda>a. if a \<in> A then Some 96 else None) \<and> n \<le> 96 then (20480, 96) else (0, 0),
       repick = \<lambda>_ _ _. (0, 0), self = 0, worker = \<lambda>_. False, threads_enabled = False\<rparr>,
     arena_main_state = no_arena, arena_worker_state = \<lambda>_. no_arena, rt_arena_hint = 0, rt_worker_arena_hint = \<lambda>_. 0,
     lhdr = \<lambda>_. \<lparr>data = 4160, len = 2, lcap = 2, elem_own = 0, elem_release = 0, larena = 0, elem_size = 2, grave_at = 0, grave = [],
       grave_cap = 0, fused = True\<rparr>,
     cycs = no_cycles, views = \<lambda>_. v\<rparr>"

abbreviation row_view :: "addr \<Rightarrow> RtDataColumn \<Rightarrow> int \<Rightarrow> RtDataView" where
  "row_view lp c b \<equiv> \<lparr>source = lp, columns_at = 12288, columns = [c], vlen = 2, field_count = 1, built_fields = b, velem_size = 2, varena = 0\<rparr>"

abbreviation row_blocks :: owned where
  "row_blocks \<equiv> [4096 \<mapsto> (Seam, 80), 8192 \<mapsto> (Seam, 40), 12288 \<mapsto> (Seam, 16), 16384 \<mapsto> (Seam, 4)]"

lemma row_state_inv: "rt_inv plain_inv row_blocks (row_state {4096, 8192, 12288, 16384} v)"
proof -
  let ?s = "row_state {4096, 8192, 12288, 16384} v"
  have "plain_inv row_blocks (hp ?s)"
    by (intro plain_invI) (auto simp: row_state_def libc_ok_def live_wf_def placed_def apart_def split: if_splits)
  then show ?thesis
    by (rule rt_inv_no_arena) (auto simp: chunks_def arena_of_def row_state_def no_arena_def split: option.splits if_splits)
qed


lemma row_state_facts [simp]:
  "views (row_state A v) = (\<lambda>_. v)" "rt_arena_slot (row_state A v) = 0" "rt_arena_hint_state (row_state A v) = 0"
  "lhdr (row_state A v) a = \<lparr>data = 4160, len = 2, lcap = 2, elem_own = 0, elem_release = 0, larena = 0, elem_size = 2, grave_at = 0,
     grave = [], grave_cap = 0, fused = True\<rparr>"
  "rmem (row_state A v) = poke (poke (\<lambda>_. 0) 4160 [1, 2, 3, 4]) 16384 [1, 2, 3, 4]"
  by (simp_all add: row_state_def rt_arena_slot_def rt_arena_hint_state_def state_key_def on_worker_def prismio_memory_threads_are_enabled_def)

lemma row_state_alloc: "n \<le> 96 \<Longrightarrow> fst (rt_base_alloc plain_seam n (row_state A v)) = 20480"
  "n \<le> 96 \<Longrightarrow> fst (rt_alloc plain_seam n (row_state A v)) = 20480"
  by (simp_all add: rt_alloc_def) (simp_all add: rt_base_alloc_def plain_seam_def plain_rt_base_alloc_def malloc_def row_state_def Let_def)

lemma row_state_rows:
  "rows_held row_blocks (row_state A v) 4096 2 2" "rows (row_state A v) 4096 2 2 = [[1, 2], [3, 4]]"
  "list_ok row_blocks (lhdr (row_state A v)) 4096" "peek (rmem (row_state A v)) 16384 4 = [1, 2, 3, 4]"
proof -
  have u: "[0..<2] = [0, 1 :: nat]" "[0..<4] = [0, 1, 2, 3 :: nat]" by (simp_all add: upt_conv_Cons)
  show ok: "list_ok row_blocks (lhdr (row_state A v)) 4096" by (simp add: list_ok_def Let_def list_stride_def)
  have "within row_blocks (4160 + i * 2) 2" if "i < 2" for i
    unfolding within_def by (intro exI [of _ 4096] exI [of _ Seam] exI [of _ 80]) (use that in simp)
  then show "rows_held row_blocks (row_state A v) 4096 2 2" using ok by (simp add: rows_held_def row_at_def Let_def slot_at_def)
  show "rows (row_state A v) 4096 2 2 = [[1, 2], [3, 4]]"
    by (simp add: rows_def row_at_def Let_def slot_at_def u peek_def poke_def nth_Cons')
  show "peek (rmem (row_state A v)) 16384 4 = [1, 2, 3, 4]" by (simp add: peek_def u poke_def nth_Cons')
qed

theorem data_view_column_sound_witness:
  "\<exists>s'. data_view_add_column plain_seam 8192 0 0 2
      (row_state {4096, 8192, 12288, 16384} (row_view 4096 \<lparr>cdata = 0, coffset = 0, csize = 0\<rparr> 0)) = Inr s'
    \<and> (\<exists>B. view_ok B s' 8192 [[1, 2], [3, 4]])"
proof -
  let ?v = "row_view 4096 \<lparr>cdata = 0, coffset = 0, csize = 0\<rparr> 0"
  let ?s = "row_state {4096, 8192, 12288, 16384} ?v"
  have ok: "view_ok row_blocks ?s 8192 [[1, 2], [3, 4]]"
    by (simp add: view_ok_def Let_def sizeof_RtDataView_def sizeof_RtDataColumn_def built_def)
  have nz: "row_at 4096 j ?s = 4160 + j * 2" for j by (simp add: row_at_def Let_def slot_at_def)
  have "column_outcome plain_seam (rt_inv plain_inv) row_blocks ?s 8192 [[1, 2], [3, 4]] 0 0 2 (data_view_add_column plain_seam 8192 0 0 2 ?s)"
    by (rule data_view_column_sound [OF plain.seam_spec_axioms row_state_inv ok])
      (use row_state_rows [of "{4096, 8192, 12288, 16384}" ?v] in \<open>simp_all add: is_int32_def numeral_2_eq_2\<close>)
  moreover have "fst (rt_alloc plain_seam (length [[1, 2], [3, 4 :: nat]] * nat 2) ?s) \<noteq> 0" by (simp add: row_state_alloc)
  ultimately show ?thesis unfolding column_outcome_def Let_def by (auto simp: nz split: sum.splits)
qed

theorem data_view_rows_return_witness:
  "\<exists>lp s'. data_view_to_list plain_seam (\<lambda>f p s. Inr s) 0 8192
      (row_state {4096, 8192, 12288, 16384} (row_view 0 \<lparr>cdata = 16384, coffset = 0, csize = 2\<rparr> 1)) = Inr (lp, s')
    \<and> elems s' lp = [[1, 2], [3, 4]] \<and> (\<forall>a \<in> {8192, 12288, 16384}. live (hp s') a = None)"
proof -
  let ?v = "row_view 0 \<lparr>cdata = 16384, coffset = 0, csize = 2\<rparr> 1"
  let ?s = "row_state {4096, 8192, 12288, 16384} ?v"
  have u: "[0..<2] = [0, 1 :: nat]" by (simp add: upt_conv_Cons)
  have "cells (rmem ?s) 16384 2 2 = [[1, 2], [3, 4]]" by (simp add: cells_def u peek_def poke_def nth_Cons')
  then have ok: "view_ok row_blocks ?s 8192 [[1, 2], [3, 4]]"
    by (simp add: view_ok_def Let_def sizeof_RtDataView_def sizeof_RtDataColumn_def built_def column_ok_def field_of_def numeral_2_eq_2)
  have sb: "seam_blocks row_blocks (view_blocks 8192 (views ?s 8192))" by (simp add: seam_blocks_def view_blocks_def)
  have new: "case new_rows plain_seam ?v ?s of Inl _ \<Rightarrow> False | Inr (lp, s1) \<Rightarrow> data (lhdr s1 lp) \<noteq> 0"
    using row_state_alloc(1) [of 68 "{4096, 8192, 12288, 16384}" ?v]
    by (auto simp: new_rows_def list_new_with_capacity_inline_def list_new_cap_def Let_def RT_LIST_FUSED_HDR_def RT_LIST_FUSED_MAX_def
        sizeof_RtList_def split: prod.splits)
  have r: "list_outcome_of plain_seam (rt_inv plain_inv) row_blocks ?s 8192 [[1, 2], [3, 4]]
      (data_view_to_list plain_seam (\<lambda>f p s. Inr s) 0 8192 ?s)
    \<and> ((\<forall>t < nat (velem_size (views ?s 8192)). \<exists>c \<in> set (columns (views ?s 8192)). covers c t) \<longrightarrow>
       map (rebuild (columns (views ?s 8192)) (nat (velem_size (views ?s 8192)))) [[1, 2], [3, 4]] = [[1, 2], [3, 4]])"
    by (rule data_view_rows_return [OF plain.seam_spec_axioms row_state_inv ok _ _ sb]) simp_all
  have m: "map (rebuild (columns ?v) 2) [[1, 2], [3, 4]] = [[1, 2], [3, 4]]" using r by (auto simp: covers_def)
  from r have o: "list_outcome_of plain_seam (rt_inv plain_inv) row_blocks ?s 8192 [[1, 2], [3, 4]]
      (data_view_to_list plain_seam (\<lambda>f p s. Inr s) 0 8192 ?s)" by blast
  show ?thesis
  proof (cases "data_view_to_list plain_seam (\<lambda>f p s. Inr s) 0 8192 ?s")
    case (Inl e)
    then show ?thesis using o new by (auto simp: list_outcome_of_def split: sum.splits)
  next
    case (Inr q)
    then show ?thesis using o m by (cases q) (auto simp: list_outcome_of_def Let_def view_blocks_def)
  qed
qed

end
