(* ===== verification/Build_Files.thy ===== *)
theory Build_Files
  imports Plib Paths Spawn_Quote
begin

text \<open>
  What the build driver does with files (\<open>file_exists\<close> to \<open>fs_rename\<close> of \<open>runtime/program_support.c\<close>,
  \<open>path_file_name\<close> to \<open>compiler_publish_file\<close> and the FNV hashes of \<open>runtime/build_driver.c\<close>).  Files are on
  a disk, a map from paths to bytes; a file that cannot be read is absent.  The host is a record of
  answers that nothing changes: which blocks the allocator grants, which paths open for writing and
  how much of a text then fits, which renames and removals succeed, the environment and the process id.
  Directories are not part of the disk.
\<close>

subsection \<open>Definitions\<close>

type_synonym bytes = "byte list"

definition ascii :: "string \<Rightarrow> bytes" where
  "ascii s = map of_char s"

record host =
  h_sep :: byte
  h_windows :: bool
  h_pid :: nat
  h_env :: "bytes \<Rightarrow> bytes option"
  h_exe_dir :: "bytes option"
  h_al :: "nat \<Rightarrow> bool"
  h_open :: "bytes \<Rightarrow> bool"
  h_fits :: "bytes \<Rightarrow> bytes \<Rightarrow> nat"
  h_moves :: "bytes \<Rightarrow> bytes \<Rightarrow> bool"
  h_removes :: "bytes \<Rightarrow> bool"

text \<open>A block that is written without a test of what \<open>malloc\<close> returned, and \<open>snprintf\<close> into \<open>n\<close> bytes.\<close>

definition need :: "host \<Rightarrow> nat \<Rightarrow> 'a \<Rightarrow> rt_error + 'a" where
  "need h n x = (if h_al h n then Inr x else Inl Null_store)"

definition snprintf :: "nat \<Rightarrow> bytes \<Rightarrow> bytes" where
  "snprintf n s = take (n - 1) s"

definition file_exists :: "bytes \<Rightarrow> disk \<Rightarrow> bool" where
  "file_exists p D \<longleftrightarrow> D p \<noteq> None"

definition put_file :: "host \<Rightarrow> bytes \<Rightarrow> bytes \<Rightarrow> disk \<Rightarrow> disk" where
  "put_file h p content D = D(p \<mapsto> take (h_fits h p content) content)"

definition write_file :: "host \<Rightarrow> bytes option \<Rightarrow> bytes option \<Rightarrow> disk \<Rightarrow> int \<times> disk" where
  "write_file h dest content D =
     (let content = (case content of None \<Rightarrow> [] | Some c \<Rightarrow> c) in
      case dest of None \<Rightarrow> (1, D)
      | Some p \<Rightarrow>
          if p = [] \<or> \<not> h_open h p then (1, D)
          else (if h_fits h p content \<ge> length content then 0 else 1, put_file h p content D))"

definition read_file :: "host \<Rightarrow> bytes \<Rightarrow> disk \<Rightarrow> rt_error + bytes" where
  "read_file h p D =
     (case D p of None \<Rightarrow> need h 1 []
      | Some bs \<Rightarrow> if h_al h (length bs + 1) then Inr (cstr bs) else need h 1 [])"

definition delete_file :: "host \<Rightarrow> bytes \<Rightarrow> disk \<Rightarrow> int \<times> disk" where
  "delete_file h p D =
     (if p = [] then (0, D) else if D p \<noteq> None \<and> h_removes h p then (0, D(p := None)) else (1, D))"

definition fs_append_file :: "host \<Rightarrow> bytes option \<Rightarrow> bytes \<Rightarrow> int \<Rightarrow> disk \<Rightarrow> int \<times> disk" where
  "fs_append_file h dest content n D =
     (case dest of None \<Rightarrow> (1, D)
      | Some p \<Rightarrow>
          if p = [] \<or> n < 0 \<or> \<not> h_open h p then (1, D)
          else let added = take (nat n) content; old = (case D p of None \<Rightarrow> [] | Some bs \<Rightarrow> bs)
               in (if h_fits h p added \<ge> nat n then 0 else 1, D(p \<mapsto> old @ take (h_fits h p added) added)))"

definition fs_rename :: "host \<Rightarrow> bytes \<Rightarrow> bytes \<Rightarrow> disk \<Rightarrow> int \<times> disk" where
  "fs_rename h old new D =
     (if old = [] \<or> new = [] then (1, D)
      else if D old \<noteq> None \<and> h_moves h old new then (0, D(old := None, new := D old))
      else (1, D))"

definition write_text_file :: "host \<Rightarrow> bytes \<Rightarrow> bytes \<Rightarrow> disk \<Rightarrow> int \<times> disk" where
  "write_text_file h p content D = (if \<not> h_open h p then (1, D) else (0, put_file h p content D))"

definition after :: "nat option \<Rightarrow> nat" where
  "after i = (case i of None \<Rightarrow> 0 | Some k \<Rightarrow> k + 1)"

definition path_file_name :: "bytes \<Rightarrow> bytes" where
  "path_file_name p = drop (after (later (strrchr 47 p) (strrchr 92 p))) p"

definition path_without_extension :: "host \<Rightarrow> bytes \<Rightarrow> rt_error + bytes" where
  "path_without_extension h p =
     (let filename = path_file_name p;
          n = i32 (int (case strrchr 46 filename of None \<Rightarrow> length p | Some d \<Rightarrow> length p - length filename + d))
      in need h (u64 (n + 1)) (take (nat n) p))"

definition compiler_default_exe_path :: "host \<Rightarrow> bytes \<Rightarrow> rt_error + bytes" where
  "compiler_default_exe_path h source_path =
     andthen (path_without_extension h source_path) (\<lambda>stem.
       if h_windows h then need h (length stem + 5) (stem @ ascii ''.exe'') else need h (length stem + 1) stem)"

text \<open>\<open>%.*s\<close> with a precision, which does not count when it is negative.\<close>

definition prefix_of :: "int \<Rightarrow> bytes \<Rightarrow> bytes" where
  "prefix_of n s = (if n < 0 then s else take (nat n) s)"

definition compiler_temp_path :: "host \<Rightarrow> bytes \<Rightarrow> bytes \<Rightarrow> rt_error + bytes" where
  "compiler_temp_path h base_path suffix =
     andthen (get_directory (h_al h) base_path) (\<lambda>directory.
       let filename = path_file_name base_path;
           stem_len = i32 (int (case strrchr 46 filename of None \<Rightarrow> length filename | Some d \<Rightarrow> d));
           dir = (if directory \<noteq> [46] then directory @ [h_sep h] else []);
           size = i32 (int (length dir) + 9 + stem_len + 1 + int (length suffix) + 1)
       in need h (u64 size) (dir @ ascii ''.prismio-'' @ prefix_of stem_len filename @ [45] @ suffix))"

definition compiler_temp_path_for :: "host \<Rightarrow> bytes \<Rightarrow> bytes \<Rightarrow> rt_error + bytes" where
  "compiler_temp_path_for h source_path suffix = compiler_temp_path h source_path suffix"

definition compiler_temp_private_path :: "host \<Rightarrow> bytes \<Rightarrow> bytes \<Rightarrow> rt_error + bytes" where
  "compiler_temp_private_path h source_path suffix =
     compiler_temp_path h source_path (snprintf 128 (decimal (h_pid h) @ [45] @ suffix))"

text \<open>Publishing, with every disk that another process can see meanwhile, from the first to the last: opening
  the temporary truncates it, its bytes arrive one after the other, and \<open>rename\<close> replaces the destination
  in one step.\<close>

definition write_text_steps :: "host \<Rightarrow> bytes \<Rightarrow> bytes \<Rightarrow> disk \<Rightarrow> int \<times> disk list" where
  "write_text_steps h p content D =
     (if \<not> h_open h p then (1, [D])
      else (0, map (\<lambda>k. D(p \<mapsto> take k content)) [0..<Suc (min (h_fits h p content) (length content))]))"

definition compiler_publish_file :: "host \<Rightarrow> bytes \<Rightarrow> bytes \<Rightarrow> disk \<Rightarrow> rt_error + (int \<times> disk list)" where
  "compiler_publish_file h old new D =
     andthen (read_file h old D) (\<lambda>content.
       let len = length new + 32 in
       andthen (need h len (snprintf len (new @ [46] @ decimal (h_pid h) @ ascii ''.tmp''))) (\<lambda>tmp.
         let (result, Ds) = write_text_steps h tmp content D in
         if result \<noteq> 0 then Inr (result, D # Ds)
         else let (moved, D') = fs_rename h tmp new (last Ds)
              in if moved = 0 then Inr (0, D # Ds @ [D'])
                 else Inr (1, D # Ds @ [D', snd (delete_file h tmp D')])))"

definition compiler_temp_ir_path :: "host \<Rightarrow> bytes \<Rightarrow> rt_error + bytes" where
  "compiler_temp_ir_path h source_path = compiler_temp_path h source_path (snprintf 32 (decimal (h_pid h) @ ascii ''.ll''))"

definition compiler_temp_obj_path :: "host \<Rightarrow> bytes \<Rightarrow> bytes \<Rightarrow> rt_error + bytes" where
  "compiler_temp_obj_path h exe_file role =
     compiler_temp_path h exe_file (snprintf 96 (role @ [45] @ decimal (h_pid h) @ ascii ''.obj''))"

text \<open>Hashes.  The text form stops at a NUL and leaves out carriage returns.\<close>

definition PRISMIO_FNV_OFFSET :: "64 word" where "PRISMIO_FNV_OFFSET = 1469598103934665603"
definition PRISMIO_FNV_PRIME :: "64 word" where "PRISMIO_FNV_PRIME = 1099511628211"

definition fnv_step :: "byte \<Rightarrow> 64 word \<Rightarrow> 64 word" where
  "fnv_step b hash = (hash XOR ucast b) * PRISMIO_FNV_PRIME"

definition fnv1a_bytes :: "64 word \<Rightarrow> bytes \<Rightarrow> 64 word" where
  "fnv1a_bytes hash s = fold (\<lambda>b hash. if b = 13 then hash else fnv_step b hash) (cstr s) hash"

definition fnv1a_raw :: "64 word \<Rightarrow> bytes \<Rightarrow> 64 word" where
  "fnv1a_raw hash s = fold fnv_step s hash"

function hash_chunks :: "64 word \<Rightarrow> bytes \<Rightarrow> 64 word" where
  "hash_chunks hash bs = (if bs = [] then hash else hash_chunks (fold fnv_step (take 16384 bs) hash) (drop 16384 bs))"
  by pat_completeness auto
termination by (relation "measure (\<lambda>(hash, bs). length bs)") auto

declare hash_chunks.simps [simp del]

definition file_content_hash :: "bytes \<Rightarrow> disk \<Rightarrow> 64 word option" where
  "file_content_hash p D = map_option (hash_chunks PRISMIO_FNV_OFFSET) (D p)"

text \<open>\<open>%016llx\<close>, and \<open>strtoull\<close> in base 16.\<close>

definition hex_digit :: "nat \<Rightarrow> byte" where
  "hex_digit n = word_of_nat (if n < 10 then 48 + n else 87 + n)"

definition hex16 :: "64 word \<Rightarrow> bytes" where
  "hex16 w = map (\<lambda>i. hex_digit (unat w div 16 ^ (15 - i) mod 16)) [0..<16]"

definition hex_val :: "byte \<Rightarrow> nat option" where
  "hex_val c = (let n = unat c in
     if 48 \<le> n \<and> n \<le> 57 then Some (n - 48)
     else if 97 \<le> n \<and> n \<le> 102 then Some (n - 87)
     else if 65 \<le> n \<and> n \<le> 70 then Some (n - 55) else None)"

definition is_space :: "byte \<Rightarrow> bool" where
  "is_space c \<longleftrightarrow> c = 32 \<or> 9 \<le> c \<and> c \<le> 13"

definition hex_number :: "bytes \<Rightarrow> nat" where
  "hex_number s = foldl (\<lambda>n c. 16 * n + the (hex_val c)) 0 (takeWhile (\<lambda>c. hex_val c \<noteq> None) s)"

definition strtoull16 :: "bytes \<Rightarrow> 64 word" where
  "strtoull16 s =
     (let s = dropWhile is_space s;
          minus = s \<noteq> [] \<and> hd s = 45;
          s = (if s \<noteq> [] \<and> (hd s = 45 \<or> hd s = 43) then tl s else s);
          s = (if length s \<ge> 3 \<and> s ! 0 = 48 \<and> (s ! 1 = 120 \<or> s ! 1 = 88) \<and> hex_val (s ! 2) \<noteq> None then drop 2 s else s);
          n = hex_number s
      in if n \<ge> 2 ^ 64 then - 1 else if minus then - word_of_nat n else word_of_nat n)"


subsection \<open>Hashes\<close>

lemma hash_chunks_raw: "hash_chunks hash bs = fnv1a_raw hash bs"
proof (induction hash bs rule: hash_chunks.induct)
  case (1 hash bs)
  show ?case
  proof (cases "bs = []")
    case False
    have "hash_chunks hash bs = fold fnv_step (drop 16384 bs) (fold fnv_step (take 16384 bs) hash)"
      using 1 False by (simp add: hash_chunks.simps [of hash bs] fnv1a_raw_def)
    also have "\<dots> = fold fnv_step (take 16384 bs @ drop 16384 bs) hash" by (simp only: fold_append o_apply)
    finally show ?thesis by (simp add: fnv1a_raw_def)
  qed (simp add: hash_chunks.simps fnv1a_raw_def)
qed

lemma file_content_hash_eq: "file_content_hash p D = map_option (fnv1a_raw PRISMIO_FNV_OFFSET) (D p)"
  by (simp add: file_content_hash_def hash_chunks_raw [abs_def])

lemma unat_below: "unat (w :: 64 word) < 2 ^ 64"
  using unsigned_less [of w] by simp

lemma hex_digit_val: "n < 16 \<Longrightarrow> hex_val (hex_digit n) = Some n \<and> hex_digit n \<noteq> 32 \<and> hex_digit n \<noteq> 45 \<and> hex_digit n \<noteq> 43
    \<and> hex_digit n \<noteq> 120 \<and> hex_digit n \<noteq> 88 \<and> \<not> is_space (hex_digit n) \<and> hex_digit n \<noteq> 10 \<and> hex_digit n \<noteq> 13 \<and> hex_digit n \<noteq> 0"
proof -
  have "\<forall>n \<in> set [0..<16]. hex_val (hex_digit n) = Some n \<and> hex_digit n \<noteq> 32 \<and> hex_digit n \<noteq> 45 \<and> hex_digit n \<noteq> 43
    \<and> hex_digit n \<noteq> 120 \<and> hex_digit n \<noteq> 88 \<and> \<not> is_space (hex_digit n) \<and> hex_digit n \<noteq> 10 \<and> hex_digit n \<noteq> 13 \<and> hex_digit n \<noteq> 0" by code_simp
  then show "n < 16 \<Longrightarrow> ?thesis" by simp
qed

lemma length_hex16 [simp]: "length (hex16 w) = 16"
  by (simp add: hex16_def)

lemma hex16_digits: "c \<in> set (hex16 w) \<Longrightarrow> hex_val c \<noteq> None \<and> c \<noteq> 32 \<and> c \<noteq> 45 \<and> c \<noteq> 43 \<and> c \<noteq> 120 \<and> c \<noteq> 88 \<and> \<not> is_space c
    \<and> c \<noteq> 10 \<and> c \<noteq> 13 \<and> c \<noteq> 0"
  using hex_digit_val by (fastforce simp: hex16_def)

lemma hex_value: "foldl (\<lambda>n c. 16 * n + the (hex_val c)) 0 (map (\<lambda>i. hex_digit (n div 16 ^ (k - 1 - i) mod 16)) [0..<k]) = n mod 16 ^ k"
proof (induction k arbitrary: n)
  case (Suc k)
  have "n div 16 ^ (k - i) = n div 16 div 16 ^ (k - 1 - i)" if "i < k" for i
  proof -
    have "k - i = Suc (k - 1 - i)" using that by simp
    then show ?thesis by (simp add: div_mult2_eq)
  qed
  then have m: "map (\<lambda>i. hex_digit (n div 16 ^ (Suc k - 1 - i) mod 16)) [0..<k] = map (\<lambda>i. hex_digit (n div 16 div 16 ^ (k - 1 - i) mod 16)) [0..<k]"
    by simp
  have "foldl (\<lambda>n c. 16 * n + the (hex_val c)) 0 (map (\<lambda>i. hex_digit (n div 16 ^ (Suc k - 1 - i) mod 16)) [0..<Suc k])
      = 16 * (n div 16 mod 16 ^ k) + n mod 16"
    unfolding upt_Suc_append [OF le0] map_append foldl_append m Suc.IH using hex_digit_val [of "n mod 16"] by simp
  also have "\<dots> = n mod 16 ^ Suc k" by (simp add: mod_mult2_eq)
  finally show ?case .
qed simp

lemma hex_number_hex16: "rest = [] \<or> hex_val (hd rest) = None \<Longrightarrow> hex_number (hex16 w @ rest) = unat w"
proof -
  assume "rest = [] \<or> hex_val (hd rest) = None"
  then have "takeWhile (\<lambda>c. hex_val c \<noteq> None) (hex16 w @ rest) = hex16 w"
    using hex16_digits by (subst takeWhile_append2) (auto simp: takeWhile_eq_Nil_iff)
  then have "hex_number (hex16 w @ rest) = unat w mod 16 ^ 16"
    using hex_value [of "unat w" 16] by (simp add: hex_number_def hex16_def)
  then show ?thesis using unat_below [of w] by simp
qed

lemma hex16_read: "strtoull16 (hex16 w @ 32 # rest) = w"
proof -
  obtain c cs where c: "hex16 w = c # cs" using length_hex16 [of w] by (cases "hex16 w") auto
  have cs: "length cs = 15" using length_hex16 [of w] c by simp
  have h: "\<not> is_space c" "c \<noteq> 45" "c \<noteq> 43" using hex16_digits [of c w] c by auto
  have "cs ! 0 \<in> set (hex16 w)" using c cs by simp
  then have n: "cs ! 0 \<noteq> 120" "cs ! 0 \<noteq> 88" using hex16_digits by auto
  have s: "dropWhile is_space (hex16 w @ 32 # rest) = hex16 w @ 32 # rest" using c h by simp
  have "hex_number (hex16 w @ 32 # rest) = unat w" by (rule hex_number_hex16) (simp add: hex_val_def)
  moreover have "(hex16 w @ 32 # rest) ! 1 = cs ! 0" using c cs by (simp add: nth_append)
  ultimately show ?thesis
    using unat_below [of w] n h c unfolding strtoull16_def s by (simp add: Let_def)
qed

lemma hex16_inject: "hex16 v = hex16 w \<Longrightarrow> v = w"
  by (metis hex16_read)

text \<open>A checkout with CRLF line ends hashes like one with LF.\<close>

lemma fnv1a_bytes_cr: "fnv1a_bytes hash (filter (\<lambda>b. b \<noteq> 13) s) = fnv1a_bytes hash s"
proof -
  have c: "cstr (filter (\<lambda>b. b \<noteq> 13) s) = filter (\<lambda>b. b \<noteq> 13) (cstr s)" by (induction s) (simp_all add: cstr_def)
  have "fold (\<lambda>b hash. if b = 13 then hash else fnv_step b hash) (filter (\<lambda>b. b \<noteq> 13) bs) hash
      = fold (\<lambda>b hash. if b = 13 then hash else fnv_step b hash) bs hash" for bs hash
    by (induction bs arbitrary: hash) simp_all
  then show ?thesis by (simp only: fnv1a_bytes_def c)
qed

subsection \<open>Publishing a file\<close>

lemma decimal_nonempty [simp]: "decimal n \<noteq> []"
  by (simp add: decimal.simps [of n])

definition publish_tmp :: "host \<Rightarrow> bytes \<Rightarrow> bytes" where
  "publish_tmp h new = new @ [46] @ decimal (h_pid h) @ ascii ''.tmp''"

lemma publish_tmp_fits:
  assumes "h_pid h < 2 ^ 31"
  shows "snprintf (length new + 32) (new @ [46] @ decimal (h_pid h) @ ascii ''.tmp'') = publish_tmp h new"
proof -
  have "h_pid h < 10 ^ 10" using assms by simp
  then have "length (decimal (h_pid h)) \<le> 10" by (rule decimal_length) simp
  then show ?thesis by (simp add: snprintf_def publish_tmp_def ascii_def)
qed

definition read_back :: "host \<Rightarrow> bytes \<Rightarrow> disk \<Rightarrow> bytes" where
  "read_back h p D = (case D p of None \<Rightarrow> [] | Some bs \<Rightarrow> if h_al h (length bs + 1) then cstr bs else [])"

lemma read_file_Inr: "read_file h p D = Inr content \<Longrightarrow> content = read_back h p D"
  by (auto simp: read_file_def read_back_def need_def split: option.splits if_split_asm)

text \<open>The last of the steps is what writing the file gives.\<close>

lemma write_text_steps_last: "write_text_file h p content D = (let (r, Ds) = write_text_steps h p content D in (r, last Ds))"
  by (simp add: write_text_file_def write_text_steps_def put_file_def min_def)

lemma write_text_steps_ok:
  assumes "write_text_steps h p content D = (r, Ds)"
  shows "Ds \<noteq> []" "r = 0 \<longleftrightarrow> h_open h p" "E \<in> set Ds \<Longrightarrow> q \<noteq> p \<Longrightarrow> E q = D q"
    "r = 0 \<Longrightarrow> last Ds p = Some (take (h_fits h p content) content)"
  using assms by (auto simp: write_text_steps_def min_def split: if_splits)

text \<open>C35. A reader of \<open>new\<close> finds, at every moment of \<open>compiler_publish_file\<close>, the file that was there before, or
  after the one last step of a run that answers 0 the published body, and nothing in between: of all the
  disks that the run passes through (the temporary truncated, any part of it written, the rename, the removal), only
  the last of a successful run differs at \<open>new\<close>.  With any other answer \<open>new\<close> keeps what it held throughout.  No
  other file ever changes but the temporary, whose name carries the process id and which a successful run
  leaves behind nowhere.  The published body is \<open>old\<close> as a C string; it is all of it where the disk takes the
  whole body, since a short write is not noticed (\<open>publish_half_written\<close>), and it is empty where \<open>old\<close> cannot be
  read (\<open>publish_of_nothing\<close>).\<close>

theorem publish_replaces_or_keeps:
  assumes "compiler_publish_file h old new D = Inr (r, Ds)" and "h_pid h < 2 ^ 31"
  shows "hd Ds = D \<and> (\<forall>i < length Ds. (Ds ! i) new =
       (if r = 0 \<and> Suc i = length Ds then Some (take (h_fits h (publish_tmp h new) (read_back h old D)) (read_back h old D)) else D new))
    \<and> (\<forall>E \<in> set Ds. \<forall>p. p \<noteq> new \<longrightarrow> p \<noteq> publish_tmp h new \<longrightarrow> E p = D p)
    \<and> (r = 0 \<longrightarrow> last Ds (publish_tmp h new) = None)
    \<and> (\<forall>bs. r = 0 \<and> D old = Some bs \<and> 0 \<notin> set bs \<and> h_al h (length bs + 1) \<and> length bs \<le> h_fits h (publish_tmp h new) bs
         \<longrightarrow> last Ds new = Some bs)"
proof -
  define tmp where "tmp = publish_tmp h new"
  define body where "body = read_back h old D"
  have n: "tmp \<noteq> new" "tmp \<noteq> []" by (simp_all add: tmp_def publish_tmp_def ascii_def)
  obtain r0 Ws where w: "write_text_steps h tmp body D = (r0, Ws)" by (metis surj_pair)
  note W = write_text_steps_ok [OF w]
  obtain moved D1 where m: "fs_rename h tmp new (last Ws) = (moved, D1)" by (metis surj_pair)
  have run: "r = r0 \<and> r0 \<noteq> 0 \<and> Ds = D # Ws \<or> r0 = 0 \<and> moved = 0 \<and> r = 0 \<and> Ds = D # Ws @ [D1]
      \<or> r0 = 0 \<and> moved \<noteq> 0 \<and> r = 1 \<and> Ds = D # Ws @ [D1, snd (delete_file h tmp D1)]"
    using assms(1) w m unfolding compiler_publish_file_def Let_def publish_tmp_fits [OF assms(2)]
    by (auto simp: andthen_Inr need_def tmp_def body_def dest!: read_file_Inr split: if_split_asm)
  have Wn: "E new = D new" if "E \<in> set Ws" for E using W(3) [OF that] n(1) by metis
  have lW: "last Ws \<in> set Ws" using W(1) by simp
  have D1: "moved = 0 \<Longrightarrow> D1 = (last Ws)(tmp := None, new := last Ws tmp)" "moved \<noteq> 0 \<Longrightarrow> D1 = last Ws"
    using m n by (auto simp: fs_rename_def split: if_splits)
  have del: "snd (delete_file h tmp E) q = E q" if "q \<noteq> tmp" for E q using that by (simp add: delete_file_def)
  have other: "E p = D p" if E: "E \<in> set Ds" and p: "p \<noteq> new" "p \<noteq> tmp" for E p
  proof -
    have "F p = D p" if "F \<in> set Ws" for F using W(3) [OF that] p(2) by blast
    moreover from this lW have "D1 p = D p" using D1 p by (cases "moved = 0") auto
    ultimately show ?thesis using run E del [OF p(2)] by auto
  qed
  have at: "(Ds ! i) new = (if r = 0 \<and> Suc i = length Ds then Some (take (h_fits h tmp body) body) else D new)" if i: "i < length Ds" for i
  proof -
    consider (refused) "r \<noteq> 0" "Ds = D # Ws" | (fin) "r0 = 0" "moved = 0" "r = 0" "Ds = D # Ws @ [D1]"
      | (kept) "moved \<noteq> 0" "r = 1" "Ds = D # Ws @ [D1, snd (delete_file h tmp D1)]"
      using run by blast
    then show ?thesis
    proof cases
      case refused
      have "Ds ! i \<in> set Ds" using i by simp
      then show ?thesis using refused Wn by auto
    next
      case fin
      show ?thesis
      proof (cases "Suc i = length Ds")
        case True
        then have "Ds ! i = D1" using fin(4) by (simp add: nth_append)
        then show ?thesis using True fin D1(1) W(4) n(1) by simp
      next
        case False
        then have "i < length (D # Ws)" using i fin(4) by simp
        then have "Ds ! i = (D # Ws) ! i" "(D # Ws) ! i \<in> set (D # Ws)" using fin(4) by (simp_all only: append_Cons [symmetric] nth_append nth_mem if_True)
        then show ?thesis using False Wn by auto
      qed
    next
      case kept
      have "Ds ! i \<in> set Ds" using i by simp
      moreover have "D1 new = D new" "snd (delete_file h tmp D1) new = D1 new" using D1(2) kept(1) Wn [OF lW] del n(1) by auto
      ultimately show ?thesis using kept Wn by auto
    qed
  qed
  have ne: "Ds \<noteq> []" using run by auto
  have last: "last Ds new = Some (take (h_fits h tmp body) body)" if "r = 0"
    using at [of "length Ds - 1"] ne that by (simp add: last_conv_nth)
  have "last Ds tmp = None" if "r = 0"
  proof -
    have "moved = 0" "Ds = D # Ws @ [D1]" using run that by auto
    then show ?thesis using D1(1) n(1) by simp
  qed
  moreover have "last Ds new = Some bs"
    if "r = 0 \<and> D old = Some bs \<and> 0 \<notin> set bs \<and> h_al h (length bs + 1) \<and> length bs \<le> h_fits h tmp bs" for bs
  proof -
    have "cstr bs = bs" unfolding cstr_def using that by (intro takeWhile_eq_all_conv [THEN iffD2]) auto
    then have "body = bs" using that by (simp add: body_def read_back_def)
    then show ?thesis using last that by simp
  qed
  moreover have "hd Ds = D" using run by auto
  ultimately show ?thesis using at other unfolding tmp_def body_def by blast
qed

definition sample_host :: host where
  "sample_host = \<lparr>h_sep = 47, h_windows = False, h_pid = 7, h_env = (\<lambda>_. None), h_exe_dir = None, h_al = (\<lambda>_. True),
     h_open = (\<lambda>_. True), h_fits = (\<lambda>_ c. length c), h_moves = (\<lambda>_ _. True), h_removes = (\<lambda>_. True)\<rparr>"

lemma publish_runs:
  assumes "h_pid h < 2 ^ 31" "\<And>n. h_al h n" "\<And>p. h_open h p" "\<And>p q. h_moves h p q" "new \<noteq> []"
  shows "\<exists>Ds. compiler_publish_file h old new D = Inr (0, Ds)"
proof -
  have n: "publish_tmp h new \<noteq> []" by (simp add: publish_tmp_def ascii_def)
  obtain body where t: "read_file h old D = Inr body" using assms(2) by (cases "D old") (simp_all add: read_file_def need_def)
  obtain r0 Ws where w: "write_text_steps h (publish_tmp h new) body D = (r0, Ws)" by (metis surj_pair)
  note W = write_text_steps_ok [OF w]
  have "r0 = 0" using W(2) assms(3) by blast
  moreover have "fst (fs_rename h (publish_tmp h new) new (last Ws)) = 0"
    using W(4) [OF calculation] assms(4,5) n by (simp add: fs_rename_def)
  ultimately show ?thesis
    using t w assms(2) unfolding compiler_publish_file_def Let_def publish_tmp_fits [OF assms(1)]
    by (auto simp: need_def split: prod.splits)
qed

theorem publish_replaces_or_keeps_witness:
  "\<exists>Ds. compiler_publish_file sample_host [97] [98] [[97] \<mapsto> [1, 2], [98] \<mapsto> [3]] = Inr (0, Ds) \<and> last Ds [98] = Some [1, 2]
     \<and> (\<forall>E \<in> set (butlast Ds). E [98] = Some [3])"
proof -
  let ?D = "[[97] \<mapsto> [1, 2], [98] \<mapsto> [3]] :: disk"
  have p: "h_pid sample_host < 2 ^ 31" by (simp add: sample_host_def)
  obtain Ds where Ds: "compiler_publish_file sample_host [97] [98] ?D = Inr (0, Ds)"
    using publish_runs [OF p, of "[98]" "[97]" ?D] by (auto simp: sample_host_def)
  note R = publish_replaces_or_keeps [OF Ds p]
  have "last Ds [98] = Some [1, 2]" using R by (auto simp: sample_host_def)
  moreover have "E [98] = Some [3]" if E: "E \<in> set (butlast Ds)" for E
  proof -
    obtain i where i: "i < length (butlast Ds)" "E = butlast Ds ! i" using E by (metis in_set_conv_nth)
    then have "i < length Ds" "Suc i \<noteq> length Ds" "E = Ds ! i" by (simp_all add: nth_butlast)
    then show ?thesis using R by auto
  qed
  ultimately show ?thesis using Ds by blast
qed

text \<open>A disk that takes one byte of two: the answer is 0, and half of the text is published.  A source that is not
  there: the answer is 0, and the destination is emptied.\<close>

lemma publish_half_written:
  "\<exists>Ds. compiler_publish_file (sample_host\<lparr>h_fits := \<lambda>_ _. 1\<rparr>) [97] [98] [[97] \<mapsto> [1, 2], [98] \<mapsto> [3]] = Inr (0, Ds) \<and> last Ds [98] = Some [1]"
  by (simp add: compiler_publish_file_def read_file_def cstr_def need_def write_text_steps_def fs_rename_def sample_host_def snprintf_def
      decimal.simps ascii_def numeral_2_eq_2 Let_def)

lemma publish_of_nothing:
  "\<exists>Ds. compiler_publish_file sample_host [97] [98] [[98] \<mapsto> [3]] = Inr (0, Ds) \<and> last Ds [98] = Some []"
  by (simp add: compiler_publish_file_def read_file_def cstr_def need_def write_text_steps_def fs_rename_def sample_host_def snprintf_def
      decimal.simps ascii_def Let_def)

subsection \<open>File names\<close>

definition no_sep :: "bytes \<Rightarrow> bool" where
  "no_sep s \<longleftrightarrow> 47 \<notin> set s \<and> 92 \<notin> set s"

lemma no_sep_simps [simp]:
  "no_sep []" "no_sep (c # s) \<longleftrightarrow> c \<noteq> 47 \<and> c \<noteq> 92 \<and> no_sep s" "no_sep (s @ t) \<longleftrightarrow> no_sep s \<and> no_sep t"
  by (auto simp: no_sep_def)

lemma no_sep_take: "no_sep s \<Longrightarrow> no_sep (take n s)"
  by (auto simp: no_sep_def dest: in_set_takeD)

lemma strrchr_at: "strrchr c s = Some i \<Longrightarrow> i < length s \<and> s ! i = c"
proof (cases "c \<in> set s")
  case True
  assume "strrchr c s = Some i"
  moreover obtain xs ys where "s = xs @ c # ys" "c \<notin> set ys" using split_list_last [OF True] by blast
  ultimately show ?thesis using strrchr_split [of c ys xs] by (auto simp: nth_append)
qed (simp add: strrchr_def)

lemma last_sep:
  assumes "is_sep s" "no_sep y"
  shows "later (strrchr 47 (x @ s # y)) (strrchr 92 (x @ s # y)) = Some (length x)"
proof -
  have "i < length x" if "strrchr c (x @ s # y) = Some i" "is_sep c" "c \<noteq> s" for c i
  proof (rule ccontr)
    assume i: "\<not> i < length x"
    have at: "i < length (x @ s # y)" "(x @ s # y) ! i = c" using strrchr_at [OF that(1)] by auto
    have "i \<noteq> length x" using at(2) that(3) by auto
    then have "i - Suc (length x) < length y" "y ! (i - Suc (length x)) = c" using i at by (auto simp: nth_append nth_Cons')
    then show False using assms(2) that(2) nth_mem [of "i - Suc (length x)" y] by (auto simp: no_sep_def is_sep_def)
  qed
  note o = this [of 47] this [of 92]
  show ?thesis
    using o assms strrchr_split [of s y x] by (cases "s = 47") (auto simp: is_sep_def later_def no_sep_def split: option.splits)
qed

lemma path_file_name_split [simp]: "is_sep s \<Longrightarrow> no_sep y \<Longrightarrow> path_file_name (x @ s # y) = y"
  by (simp add: path_file_name_def last_sep after_def)

lemma path_file_name_id [simp]: "no_sep y \<Longrightarrow> path_file_name y = y"
  by (simp add: path_file_name_def no_sep_def strrchr_none later_def after_def)

lemma path_cases:
  obtains "no_sep p" | x s y where "p = x @ s # y" "is_sep s" "no_sep y"
proof (cases "\<exists>c \<in> set p. is_sep c")
  case True
  then show thesis using split_list_last_prop [of p is_sep] that(2) by (auto simp: is_sep_def no_sep_def)
qed (use that(1) in \<open>auto simp: is_sep_def no_sep_def\<close>)

lemma no_sep_file_name [simp]: "no_sep (path_file_name p)"
  by (cases p rule: path_cases) auto

lemma length_file_name: "length (path_file_name p) \<le> length p"
  by (cases p rule: path_cases) auto

definition stem :: "bytes \<Rightarrow> bytes" where
  "stem p = (let f = path_file_name p in case strrchr 46 f of None \<Rightarrow> f | Some d \<Rightarrow> take d f)"

lemma no_sep_stem [simp]: "no_sep (stem p)"
  by (simp add: stem_def Let_def no_sep_take split: option.splits)

lemma stem_role:
  assumes "path_without_extension h (path_file_name p) = Inr r" "length p < 2 ^ 31"
  shows "r = stem p"
proof -
  have "length (path_file_name p) < 2 ^ 31" using length_file_name [of p] assms(2) by linarith
  moreover have "d < length (path_file_name p)" if "strrchr 46 (path_file_name p) = Some d" for d using strrchr_at [OF that] by simp
  ultimately show ?thesis
    using assms(1) by (fastforce simp: path_without_extension_def Let_def need_def stem_def is_int32_def split: option.splits if_split_asm)
qed

text \<open>Every temporary of a build is a hidden file.\<close>

definition hidden :: "bytes \<Rightarrow> bool" where
  "hidden p \<longleftrightarrow> (\<exists>f. path_file_name p = 46 # f)"

lemma no_sep_prefix_of: "no_sep s \<Longrightarrow> no_sep (prefix_of n s)"
  by (simp add: prefix_of_def no_sep_take)

lemma compiler_temp_path_hidden:
  assumes "compiler_temp_path h base suffix = Inr p" "is_sep (h_sep h)" "no_sep suffix"
  shows "hidden p"
proof -
  let ?n = "i32 (int (case strrchr 46 (path_file_name base) of None \<Rightarrow> length (path_file_name base) | Some d \<Rightarrow> d))"
  obtain d where "p = (if d \<noteq> [46] then d @ [h_sep h] else []) @ ascii ''.prismio-'' @ prefix_of ?n (path_file_name base) @ [45] @ suffix"
    using assms(1) unfolding compiler_temp_path_def andthen_Inr Let_def need_def by (metis sum.inject(2) sum.simps(4))
  then have "\<exists>dir y. p = dir @ 46 # y \<and> no_sep y \<and> (dir = [] \<or> (\<exists>x. dir = x @ [h_sep h]))"
    using assms(3) by (intro exI [of _ "if d \<noteq> [46] then d @ [h_sep h] else []"] exI [of _ "ascii ''prismio-'' @ prefix_of ?n (path_file_name base) @ [45] @ suffix"])
      (simp add: ascii_def no_sep_prefix_of)
  then obtain dir y where "p = dir @ 46 # y" "no_sep y" "dir = [] \<or> (\<exists>x. dir = x @ [h_sep h])" by blast
  then show ?thesis using assms(2) by (auto simp: hidden_def)
qed

lemma compiler_temp_path_length:
  assumes "compiler_temp_path h base suffix = Inr p"
  shows "length p \<le> 2 * length base + length suffix + 12"
proof -
  obtain d where d: "get_directory (h_al h) base = Inr d"
    using assms unfolding compiler_temp_path_def andthen_Inr by blast
  then have "length d \<le> length base + 1"
    by (auto simp: get_directory_def Let_def split: option.splits if_split_asm)
  then show ?thesis
    using assms length_file_name [of base] by (auto simp: compiler_temp_path_def d Let_def need_def prefix_of_def ascii_def split: if_split_asm)
qed

lemma decimal_bytes: "c \<in> set (decimal n) \<Longrightarrow> c \<noteq> 45 \<and> c \<noteq> 47 \<and> c \<noteq> 92 \<and> c \<noteq> 0 \<and> c \<noteq> 106 \<and> c \<noteq> 115 \<and> c \<noteq> 100"
  using decimal_digits [of c n] by auto

lemma no_sep_decimal [simp]: "no_sep (decimal n)"
  using decimal_bytes by (auto simp: no_sep_def)

lemma no_sep_hex16 [simp]: "no_sep (hex16 w)"
proof -
  have "\<forall>n \<in> set [0..<16]. hex_digit n \<noteq> 47 \<and> hex_digit n \<noteq> 92" by code_simp
  then have "n < 16 \<Longrightarrow> hex_digit n \<noteq> 47 \<and> hex_digit n \<noteq> 92" for n by simp
  then show ?thesis by (fastforce simp: no_sep_def hex16_def)
qed

end
