(* ===== verification/Object_Cache.thy ===== *)
theory Object_Cache
  imports Build_Files
begin

text \<open>
  The object cache of \<open>runtime/build_driver.c\<close> (\<open>object_cache_disabled\<close> to \<open>compile_native_sources\<close>): an entry
  named by a hash of the source, the flags and the response files, beside it the list of every file the
  compile read with the hash it had, and the compile that uses or fills an entry.  The command
  line is built as the code builds it; what running it does is a parameter, \<open>run\<close>.
  \<open>flag_files\<close> stands for \<open>g_native_flag_files\<close>, \<open>clang\<close> for \<open>native_clang_command()\<close>.
\<close>

subsection \<open>Definitions\<close>

definition object_cache_disabled :: "host \<Rightarrow> bool" where
  "object_cache_disabled h \<longleftrightarrow> h_env h (ascii ''PRISMIO_OBJ_CACHE'') = Some [48]"

definition env_or :: "host \<Rightarrow> string \<Rightarrow> bytes \<Rightarrow> bytes" where
  "env_or h name other = (case h_env h (ascii name) of None \<Rightarrow> other | Some v \<Rightarrow> if v = [] then other else v)"

definition object_cache_dir :: "host \<Rightarrow> rt_error + bytes" where
  "object_cache_dir h =
     (let named = env_or h ''PRISMIO_OBJ_CACHE_DIR'' [] in
      if named \<noteq> [] then need h (length named + 1) named
      else let base = (if h_windows h then env_or h ''TEMP'' (env_or h ''TMP'' [46]) else env_or h ''TMPDIR'' (ascii ''/tmp''))
           in join_path (h_sep h) (h_al h) base (ascii ''prismio-objcache''))"

text \<open>Of making a directory the copy of its name and the answer are modelled, since directories are not on the
  disk.  The answer is 0 whatever \<open>mkdir\<close> says, so the caller's branch for a failure is never taken.\<close>

definition ensure_directory_exists :: "host \<Rightarrow> bytes \<Rightarrow> rt_error + int" where
  "ensure_directory_exists h directory = (if directory = [] \<or> directory = [46] then Inr 0 else need h (length directory + 1) 0)"

lemma ensure_directory_always: "ensure_directory_exists h directory = Inr r \<Longrightarrow> r = 0"
  by (auto simp: ensure_directory_exists_def need_def split: if_splits)

fun hash_flag_files :: "bytes list \<Rightarrow> disk \<Rightarrow> 64 word \<Rightarrow> 64 word option" where
  "hash_flag_files [] D hash = Some hash"
| "hash_flag_files (p # ps) D hash =
     (case file_content_hash p D of None \<Rightarrow> None | Some fh \<Rightarrow> hash_flag_files ps D (fnv1a_bytes hash (hex16 fh)))"

definition native_object_entry :: "host \<Rightarrow> bytes list \<Rightarrow> bytes \<Rightarrow> bytes \<Rightarrow> bytes \<Rightarrow> disk \<Rightarrow> rt_error + bytes option" where
  "native_object_entry h flag_files role source_path flags D =
     (case file_content_hash source_path D of None \<Rightarrow> Inr None
      | Some source_hash \<Rightarrow>
          let hash = fnv1a_bytes (fnv1a_bytes (fnv1a_bytes PRISMIO_FNV_OFFSET role) flags) (hex16 source_hash) in
          case hash_flag_files flag_files D hash of None \<Rightarrow> Inr None
          | Some hash \<Rightarrow>
              andthen (object_cache_dir h) (\<lambda>dir.
                andthen (ensure_directory_exists h dir) (\<lambda>failed.
                  if failed \<noteq> 0 then Inr None
                  else andthen (join_path (h_sep h) (h_al h) dir (snprintf 160 (role @ [45] @ hex16 hash @ ascii ''.obj''))) (\<lambda>p.
                    Inr (Some p)))))"

definition native_deps_path :: "host \<Rightarrow> bytes \<Rightarrow> bytes option" where
  "native_deps_path h entry = (if h_al h (length entry + 6) then Some (entry @ ascii ''.deps'') else None)"

text \<open>The lines \<open>fgets\<close> gives with a buffer of \<open>Suc n\<close> bytes.\<close>

definition line_length :: "nat \<Rightarrow> bytes \<Rightarrow> nat" where
  "line_length n bs = min n (let k = length (takeWhile (\<lambda>b. b \<noteq> 10) bs) in if k < length bs then k + 1 else k)"

function fgets_lines :: "nat \<Rightarrow> bytes \<Rightarrow> bytes list" where
  "fgets_lines n bs =
     (if bs = [] then [] else let k = max 1 (line_length n bs) in take k bs # fgets_lines n (drop k bs))"
  by pat_completeness auto
termination by (relation "measure (\<lambda>(n, bs). length bs)") (auto simp: Let_def)

declare fgets_lines.simps [simp del]

definition strip_line_end :: "bytes \<Rightarrow> bytes" where
  "strip_line_end l = rev (dropWhile (\<lambda>b. b = 10 \<or> b = 13) (rev l))"

definition deps_line_current :: "disk \<Rightarrow> bytes \<Rightarrow> bool" where
  "deps_line_current D l =
     (let l = strip_line_end (cstr l) in
      \<not> (length l < 18 \<or> l ! 16 \<noteq> 32)
      \<and> (case file_content_hash (drop 17 l) D of None \<Rightarrow> False | Some now \<Rightarrow> now = strtoull16 l))"

definition native_deps_current :: "host \<Rightarrow> bytes \<Rightarrow> disk \<Rightarrow> bool" where
  "native_deps_current h entry D =
     (case native_deps_path h entry of None \<Rightarrow> False
      | Some deps \<Rightarrow> (case D deps of None \<Rightarrow> False
          | Some bs \<Rightarrow> list_all (deps_line_current D) (fgets_lines 4199 bs) \<and> fgets_lines 4199 bs \<noteq> []))"

definition add_byte :: "bytes \<Rightarrow> byte \<Rightarrow> bytes" where
  "add_byte acc c = (if length acc < 4095 then acc @ [c] else acc)"

definition flush :: "bytes \<Rightarrow> bytes list" where
  "flush acc = (if acc = [] then [] else [acc])"

definition blank :: "byte \<Rightarrow> bool" where
  "blank c \<longleftrightarrow> c = 32 \<or> c = 9 \<or> c = 10 \<or> c = 13"

text \<open>The prerequisites of a make rule, with the path read so far.\<close>

function dep_words :: "bytes \<Rightarrow> bytes \<Rightarrow> bytes list" where
  "dep_words acc s =
     (case s of [] \<Rightarrow> flush acc
      | c # cs \<Rightarrow>
          if c = 92 \<and> cs \<noteq> [] \<and> hd cs = 10 then flush acc @ dep_words [] (tl cs)
          else if c = 92 \<and> length cs \<ge> 2 \<and> cs ! 0 = 13 \<and> cs ! 1 = 10 then flush acc @ dep_words [] (drop 2 cs)
          else if c = 92 \<and> cs \<noteq> [] \<and> hd cs = 32 then dep_words (add_byte acc 32) (tl cs)
          else if c = 36 \<and> cs \<noteq> [] \<and> hd cs = 36 then dep_words (add_byte acc 36) (tl cs)
          else if blank c then flush acc @ dep_words [] cs
          else dep_words (add_byte acc c) cs)"
  by pat_completeness auto
termination by (relation "measure (\<lambda>(acc, s). length s)") auto

declare dep_words.simps [simp del]

text \<open>The lines for the paths up to one that cannot be read, and whether all could.\<close>

fun dep_lines :: "disk \<Rightarrow> bytes list \<Rightarrow> bytes \<times> bool" where
  "dep_lines D [] = ([], True)"
| "dep_lines D (p # ps) =
     (case file_content_hash p D of None \<Rightarrow> ([], False)
      | Some hash \<Rightarrow> let (ls, ok) = dep_lines D ps in (hex16 hash @ [32] @ p @ [10] @ ls, ok))"

fun after_colon :: "bytes \<Rightarrow> bytes option" where
  "after_colon (c # d # s) = (if c = 58 \<and> d = 32 then Some s else after_colon (d # s))"
| "after_colon s = None"

definition record_lines :: "host \<Rightarrow> bytes \<Rightarrow> bytes \<Rightarrow> bytes \<Rightarrow> disk \<Rightarrow> int \<times> disk" where
  "record_lines h tmp deps p D =
     (if \<not> h_open h tmp then (1, snd (delete_file h tmp D))
      else let (ls, ok) = dep_lines (D(tmp \<mapsto> [])) (dep_words [] p);
               failed = \<not> ok \<or> h_fits h tmp ls < length ls;
               D = put_file h tmp ls D
           in if failed then (1, snd (delete_file h tmp D))
              else let (moved, D) = fs_rename h tmp deps D
                   in (0, if moved = 0 then D else snd (delete_file h tmp D)))"

definition native_deps_record :: "host \<Rightarrow> bytes \<Rightarrow> bytes \<Rightarrow> disk \<Rightarrow> rt_error + (int \<times> disk)" where
  "native_deps_record h entry depfile D =
     andthen (read_file h depfile D) (\<lambda>content.
       case after_colon content of None \<Rightarrow> Inr (1, D)
       | Some p \<Rightarrow>
           case native_deps_path h entry of None \<Rightarrow> Inr (1, D)
           | Some deps \<Rightarrow>
               let tmp_len = length deps + 32 in
               if \<not> h_al h tmp_len then Inr (1, D)
               else Inr (record_lines h (snprintf tmp_len (deps @ ascii ''.tmp-'' @ decimal (h_pid h))) deps p D))"

definition object_cache_temp_path :: "host \<Rightarrow> bytes \<Rightarrow> rt_error + bytes" where
  "object_cache_temp_path h entry =
     (let k = after (later (strrchr 47 entry) (strrchr 92 entry)); name = drop k entry; len = k + length name + 32
      in need h len (snprintf len (take k entry @ ascii ''.tmp-'' @ decimal (h_pid h) @ [45] @ name)))"

definition native_command :: "bytes \<Rightarrow> bytes \<Rightarrow> bytes \<Rightarrow> bytes \<Rightarrow> bytes \<Rightarrow> bytes" where
  "native_command clang flags q_dep q_src q_out =
     clang @ [32] @ flags @ ascii '' -MD -MF '' @ q_dep @ ascii '' -c '' @ q_src @ ascii '' -o '' @ q_out"

definition signed_decimal :: "int \<Rightarrow> bytes" where
  "signed_decimal i = (if i < 0 then 45 # decimal (nat (- i)) else decimal (nat i))"

text \<open>What a compile leaves: the status, the object, whether it lives in the cache, and the disk.\<close>

type_synonym compiled = "int \<times> bytes \<times> bool \<times> disk"

definition run_compile ::
  "host \<Rightarrow> bytes \<Rightarrow> (bytes \<Rightarrow> disk \<Rightarrow> int \<times> disk) \<Rightarrow> bytes \<Rightarrow> bytes \<Rightarrow> bytes \<Rightarrow> disk \<Rightarrow> rt_error + (int \<times> bytes option \<times> disk)" where
  "run_compile h clang run source flags out D =
     (let dep = (if h_al h (length out + 3) then Some (out @ ascii ''.d'') else None) in
      andthen (command_quote_arg (h_windows h) (h_al h) source) (\<lambda>q_src.
        andthen (command_quote_arg (h_windows h) (h_al h) out) (\<lambda>q_out.
          case dep of None \<Rightarrow> Inr (1, None, D)
          | Some d \<Rightarrow>
              andthen (command_quote_arg (h_windows h) (h_al h) d) (\<lambda>q_dep.
                if \<not> h_al h (length clang + length flags + length q_src + length q_out + length q_dep + 64) then Inr (1, dep, D)
                else let (status, D) = run (native_command clang flags q_dep q_src q_out) D
                     in Inr (if status \<noteq> 0 then 1 else 0, dep, D)))))"

text \<open>The finished object goes into the cache when its files could be recorded and it could be moved.\<close>

definition install_object :: "host \<Rightarrow> bytes option \<Rightarrow> bytes option \<Rightarrow> bytes \<Rightarrow> disk \<Rightarrow> rt_error + (bytes \<times> bool \<times> disk)" where
  "install_object h entry dep out D =
     (case (entry, dep) of
        (Some e, Some d) \<Rightarrow>
          andthen (native_deps_record h e d D) (\<lambda>(failed, D).
            if failed \<noteq> 0 then Inr (out, False, D)
            else let (moved, D) = fs_rename h out e D in Inr (if moved = 0 then (e, True, D) else (out, False, D)))
      | _ \<Rightarrow> Inr (out, False, D))"

definition compile_native_source ::
  "host \<Rightarrow> bytes \<Rightarrow> bytes list \<Rightarrow> (bytes \<Rightarrow> disk \<Rightarrow> int \<times> disk) \<Rightarrow> bytes \<Rightarrow> bytes \<Rightarrow> int \<Rightarrow> bytes \<Rightarrow> disk \<Rightarrow> rt_error + compiled" where
  "compile_native_source h clang flag_files run source flags index exe_file D =
     andthen (path_without_extension h (path_file_name source)) (\<lambda>role.
       andthen (if object_cache_disabled h then Inr None else native_object_entry h flag_files role source flags D) (\<lambda>entry.
         case entry of
           Some e \<Rightarrow>
             if file_exists e D \<and> native_deps_current h e D then Inr (0, e, True, D)
             else andthen (object_cache_temp_path h e) (\<lambda>out.
               andthen (run_compile h clang run source flags out D) (\<lambda>(result, dep, D).
                 andthen (if result = 0 then install_object h entry dep out D else Inr (out, False, D)) (\<lambda>(obj, cached, D).
                   Inr (result, obj, cached, case dep of None \<Rightarrow> D | Some d \<Rightarrow> snd (delete_file h d D)))))
         | None \<Rightarrow>
             andthen (compiler_temp_obj_path h exe_file (snprintf 160 (ascii ''native'' @ signed_decimal index @ [45] @ role))) (\<lambda>out.
               andthen (run_compile h clang run source flags out D) (\<lambda>(result, dep, D).
                 Inr (result, out, False, case dep of None \<Rightarrow> D | Some d \<Rightarrow> snd (delete_file h d D))))))"

text \<open>One source after the other, up to the first that fails: the status, the objects and whether each is cached.\<close>

fun compile_each ::
  "host \<Rightarrow> bytes \<Rightarrow> bytes list \<Rightarrow> (bytes \<Rightarrow> disk \<Rightarrow> int \<times> disk) \<Rightarrow> bytes \<Rightarrow> bytes \<Rightarrow> nat \<Rightarrow> bytes list \<Rightarrow> disk \<Rightarrow> rt_error + (int \<times> (bytes \<times> bool) list \<times> disk)" where
  "compile_each h clang ff run flags exe i [] D = Inr (0, [], D)"
| "compile_each h clang ff run flags exe i (src # srcs) D =
     andthen (compile_native_source h clang ff run src flags (int i) exe D) (\<lambda>(result, obj, cached, D).
       if result \<noteq> 0 then Inr (result, [(obj, cached)], D)
       else andthen (compile_each h clang ff run flags exe (Suc i) srcs D) (\<lambda>(result, objs, D).
              Inr (result, (obj, cached) # objs, D)))"

definition native_compile_flags :: "host \<Rightarrow> bytes \<Rightarrow> bytes \<Rightarrow> bool \<Rightarrow> bool \<Rightarrow> bytes \<Rightarrow> bytes option" where
  "native_compile_flags h target min_os freestanding debug_info declared =
     (let bare = (if freestanding then ascii '' -ffreestanding -fno-pic -fno-stack-protector''
            @ ascii '' -ffunction-sections -fdata-sections'' @ ascii '' -fno-asynchronous-unwind-tables -fno-unwind-tables'' else []);
          len = length target + length min_os + length declared + length bare + 16
      in if h_al h len then Some (snprintf len (target @ min_os @ ascii ''-O2'' @ bare @ (if debug_info then ascii '' -g'' else []) @ declared))
         else None)"

definition compile_native_sources ::
  "host \<Rightarrow> bytes \<Rightarrow> bytes list \<Rightarrow> (bytes \<Rightarrow> disk \<Rightarrow> int \<times> disk) \<Rightarrow> bytes option \<Rightarrow> bytes \<Rightarrow> bytes list \<Rightarrow> disk \<Rightarrow> rt_error + (int \<times> (bytes \<times> bool) list \<times> disk)" where
  "compile_native_sources h clang ff run flags exe srcs D =
     (if srcs = [] then Inr (0, [], D)
      else case flags of None \<Rightarrow> Inr (1, [], D) | Some f \<Rightarrow> compile_each h clang ff run f exe 0 srcs D)"

subsection \<open>The list of files, from clang's make rule to the entry\<close>

text \<open>How clang writes the rule: spaces and dollars of a path escaped, a path after a space or on a line of its own.\<close>

definition escape :: "bytes \<Rightarrow> bytes" where
  "escape p = concat (map (\<lambda>c. if c = 32 then [92, 32] else if c = 36 then [36, 36] else [c]) p)"

fun dep_text :: "(bytes \<times> bytes) list \<Rightarrow> bytes" where
  "dep_text [] = [10]"
| "dep_text ((sep, p) # items) = sep @ escape p @ dep_text items"

definition make_rule :: "bytes \<Rightarrow> (bytes \<times> bytes) list \<Rightarrow> bytes" where
  "make_rule out items = escape out @ 58 # dep_text items"

fun dep_path :: "bytes \<Rightarrow> bool" where
  "dep_path [] \<longleftrightarrow> True"
| "dep_path (c # cs) \<longleftrightarrow> c \<notin> {0, 9, 10, 13, 35} \<and> (c = 92 \<longrightarrow> cs \<noteq> [] \<and> hd cs \<noteq> 32) \<and> dep_path cs"

definition item_ok :: "bytes \<times> bytes \<Rightarrow> bool" where
  "item_ok item \<longleftrightarrow> (fst item = [32] \<or> fst item = [32, 92, 10, 32, 32]) \<and> snd item \<noteq> [] \<and> length (snd item) \<le> 4095 \<and> dep_path (snd item)"

definition dep_line :: "disk \<Rightarrow> bytes \<Rightarrow> bytes" where
  "dep_line D p = hex16 (the (file_content_hash p D)) @ [32] @ p @ [10]"

lemma escape_simps [simp]:
  "escape [] = []" "escape (c # cs) = (if c = 32 then [92, 32] else if c = 36 then [36, 36] else [c]) @ escape cs"
  by (simp_all add: escape_def)

lemma after_colon_escape: "after_colon (escape s @ 58 # 32 # r) = Some r"
proof (induction s)
  case (Cons c s)
  obtain d ds where d: "escape s @ 58 # 32 # r = d # ds" by (cases "escape s @ 58 # 32 # r") auto
  then have "d \<noteq> 32" by (cases s) (auto split: if_split_asm)
  then show ?case using Cons.IH by (auto simp: d)
qed simp

lemma dep_words_blank: "blank c \<Longrightarrow> dep_words acc (c # cs) = flush acc @ dep_words [] cs"
  by (auto simp: dep_words.simps [of acc "c # cs"] blank_def)

lemma dep_words_escape:
  assumes "dep_path p" "length acc + length p \<le> 4095" "rest \<noteq> []" "hd rest = 32 \<or> hd rest = 10"
  shows "dep_words acc (escape p @ rest) = dep_words (acc @ p) rest"
  using assms(1,2)
proof (induction p arbitrary: acc)
  case (Cons c cs)
  have IH: "dep_words (acc @ [c]) (escape cs @ rest) = dep_words (acc @ c # cs) rest" using Cons.IH [of "acc @ [c]"] Cons.prems by simp
  have room: "add_byte acc c = acc @ [c]" using Cons.prems(2) by (simp add: add_byte_def)
  consider "c = 32" | "c = 36" | "c = 92" | "c \<noteq> 32" "c \<noteq> 36" "c \<noteq> 92" by auto
  then show ?case
  proof cases
    case 3
    then obtain d ds where d: "cs = d # ds" "d \<noteq> 32" "d \<noteq> 10" "d \<noteq> 13" using Cons.prems(1) by (cases cs) auto
    have "dep_words acc (92 # escape cs @ rest) = dep_words (add_byte acc 92) (escape cs @ rest)"
      using d by (subst dep_words.simps) (simp add: blank_def)
    then show ?thesis using 3 IH room by simp
  next
    case 4
    then have "dep_words acc (c # escape cs @ rest) = dep_words (add_byte acc c) (escape cs @ rest)"
      using Cons.prems(1) by (subst dep_words.simps) (simp add: blank_def)
    then show ?thesis using 4 IH room by simp
  qed (use IH room in \<open>simp_all add: dep_words.simps [of acc "_ # _"]\<close>)
qed simp

lemma dep_text_hd: "\<forall>i \<in> set items. item_ok i \<Longrightarrow> dep_text items \<noteq> [] \<and> (hd (dep_text items) = 32 \<or> hd (dep_text items) = 10)"
  by (cases items) (auto simp: item_ok_def)

lemma dep_words_text: "\<forall>i \<in> set items. item_ok i \<Longrightarrow> dep_words acc (dep_text items) = flush acc @ map snd items"
proof (induction items arbitrary: acc)
  case Nil
  have "dep_words [] [] = []" by (simp add: dep_words.simps flush_def)
  then show ?case by (simp add: dep_words_blank blank_def)
next
  case (Cons i items)
  obtain sep p where i: "i = (sep, p)" by (cases i)
  have p: "item_ok (sep, p)" and ok: "\<forall>i \<in> set items. item_ok i" using Cons.prems i by auto
  have w: "dep_words acc (sep @ s) = flush acc @ dep_words [] s" for s
    using p by (auto simp: item_ok_def dep_words_blank blank_def flush_def dep_words.simps [of "[]" "92 # _"])
  have "dep_words [] (escape p @ dep_text items) = dep_words p (dep_text items)"
    using dep_words_escape [of p "[]" "dep_text items"] p dep_text_hd [OF ok] by (simp add: item_ok_def)
  then show ?case using Cons.IH [OF ok, of p] p by (simp add: i w item_ok_def flush_def)
qed

lemma make_rule_read:
  assumes "items \<noteq> []" "\<forall>i \<in> set items. item_ok i"
  shows "\<exists>s. after_colon (make_rule out items) = Some s \<and> dep_words [] s = map snd items"
proof -
  obtain s where s: "dep_text items = 32 # s" using assms by (cases items) (auto simp: item_ok_def)
  have "dep_words [] (32 # s) = dep_words [] s" by (simp add: dep_words_blank blank_def flush_def)
  then show ?thesis using dep_words_text [OF assms(2), of "[]"] s after_colon_escape [of out s] by (simp add: make_rule_def flush_def)
qed

lemma dep_lines_all: "\<forall>p \<in> set ps. D p \<noteq> None \<Longrightarrow> dep_lines D ps = (concat (map (dep_line D) ps), True)"
  by (induction ps) (auto simp: dep_line_def file_content_hash_eq)

lemma dep_lines_ok: "dep_lines D ps = (ls, True) \<Longrightarrow> \<forall>p \<in> set ps. D p \<noteq> None"
  by (induction ps arbitrary: ls) (auto simp: file_content_hash_eq split: option.splits prod.splits)

lemma fgets_lines_line:
  assumes "10 \<notin> set l" "length l < n"
  shows "fgets_lines n (l @ 10 # rest) = (l @ [10]) # fgets_lines n rest"
proof -
  have "takeWhile (\<lambda>b. b \<noteq> 10) (l @ 10 # rest) = l" using assms(1) by (subst takeWhile_append2) auto
  then have "line_length n (l @ 10 # rest) = length l + 1" using assms(2) by (simp add: line_length_def)
  then show ?thesis by (simp add: fgets_lines.simps [of n "l @ 10 # rest"])
qed

lemma dep_path_chars: "dep_path p \<Longrightarrow> c \<in> set p \<Longrightarrow> c \<noteq> 0 \<and> c \<noteq> 10 \<and> c \<noteq> 13"
  by (induction p) auto

lemma fgets_dep_lines:
  "\<forall>p \<in> set ps. dep_path p \<and> length p \<le> 4095 \<Longrightarrow> fgets_lines 4199 (concat (map (dep_line D) ps)) = map (dep_line D) ps"
proof (induction ps)
  case Nil
  show ?case by (simp add: fgets_lines.simps)
next
  case (Cons p ps)
  let ?l = "hex16 (the (file_content_hash p D)) @ 32 # p"
  have "10 \<notin> set ?l" using Cons.prems dep_path_chars hex16_digits by fastforce
  then have "fgets_lines 4199 (?l @ 10 # concat (map (dep_line D) ps)) = (?l @ [10]) # fgets_lines 4199 (concat (map (dep_line D) ps))"
    using Cons.prems by (intro fgets_lines_line) auto
  moreover have "concat (map (dep_line D) (p # ps)) = ?l @ 10 # concat (map (dep_line D) ps)" "dep_line D p = ?l @ [10]"
    by (simp_all add: dep_line_def)
  moreover have "fgets_lines 4199 (concat (map (dep_line D) ps)) = map (dep_line D) ps" using Cons by simp
  ultimately show ?case by (simp only: list.map)
qed

lemma strip_line_end_line: "l \<noteq> [] \<Longrightarrow> last l \<noteq> 10 \<Longrightarrow> last l \<noteq> 13 \<Longrightarrow> strip_line_end (l @ [10]) = l"
  by (cases l rule: rev_cases) (simp_all add: strip_line_end_def)

lemma dep_line_current:
  assumes "dep_path p" "p \<noteq> []" "D p \<noteq> None"
  shows "deps_line_current D' (dep_line D p) \<longleftrightarrow> file_content_hash p D' = file_content_hash p D"
proof -
  obtain w where w: "file_content_hash p D = Some w" using assms(3) by (auto simp: file_content_hash_eq)
  let ?l = "hex16 w @ 32 # p"
  have z: "\<forall>c \<in> set (?l @ [10]). c \<noteq> 0" and "\<forall>c \<in> set ?l. c \<noteq> 10 \<and> c \<noteq> 13"
    using assms(1) dep_path_chars hex16_digits by fastforce+
  moreover have "last ?l \<in> set ?l" by (rule last_in_set) simp
  ultimately have "strip_line_end (?l @ [10]) = ?l" by (intro strip_line_end_line) blast+
  moreover have "cstr (?l @ [10]) = ?l @ [10]" using z unfolding cstr_def takeWhile_eq_all_conv by blast
  ultimately have c: "cstr (?l @ [10]) = ?l @ [10]" "strip_line_end (?l @ [10]) = ?l" by blast+
  have "deps_line_current D' (?l @ [10])
      \<longleftrightarrow> (case file_content_hash p D' of None \<Rightarrow> False | Some now \<Rightarrow> now = strtoull16 ?l)"
    unfolding deps_line_current_def c using assms(2) by (simp add: nth_append Let_def Suc_le_eq)
  then show ?thesis using w by (simp add: dep_line_def hex16_read split: option.splits)
qed

definition deps_name :: "bytes \<Rightarrow> bytes" where
  "deps_name e = e @ ascii ''.deps''"

definition deps_tmp :: "host \<Rightarrow> bytes \<Rightarrow> bytes" where
  "deps_tmp h e = deps_name e @ ascii ''.tmp-'' @ decimal (h_pid h)"

lemma deps_names [simp]: "deps_tmp h e \<noteq> deps_name e" "deps_name e \<noteq> []" "deps_tmp h e \<noteq> []" "deps_name e \<noteq> e"
  by (simp_all add: deps_tmp_def deps_name_def ascii_def)

lemma native_deps_path_eq: "native_deps_path h e = (if h_al h (length e + 6) then Some (deps_name e) else None)"
  by (simp add: native_deps_path_def deps_name_def)

lemma deps_tmp_fits:
  assumes "h_pid h < 2 ^ 31"
  shows "snprintf (length (deps_name e) + 32) (deps_name e @ ascii ''.tmp-'' @ decimal (h_pid h)) = deps_tmp h e"
proof -
  have "h_pid h < 10 ^ 10" using assms by simp
  then have "length (decimal (h_pid h)) \<le> 10" by (rule decimal_length) simp
  then show ?thesis by (simp add: snprintf_def deps_tmp_def ascii_def)
qed

lemma rule_no_nul:
  assumes "0 \<notin> set out" "\<forall>i \<in> set items. item_ok i"
  shows "cstr (make_rule out items) = make_rule out items"
proof -
  have e: "0 \<in> set (escape p) \<Longrightarrow> 0 \<in> set p" for p by (induction p) (auto split: if_split_asm)
  have "0 \<notin> set (dep_text items)" using assms(2)
  proof (induction items rule: dep_text.induct)
    case (2 sep p items)
    then show ?case using e [of p] dep_path_chars [of p 0] by (auto simp: item_ok_def)
  qed simp
  then show ?thesis using assms(1) e [of out] unfolding cstr_def takeWhile_eq_all_conv make_rule_def by auto
qed

lemma delete_file_other: "q \<noteq> p \<Longrightarrow> snd (delete_file h p D) q = D q"
  by (simp add: delete_file_def)

lemma record_lines_frame:
  assumes "record_lines h tmp deps s D = (f, D')" "tmp \<noteq> deps"
  shows "(\<forall>p. p \<noteq> deps \<longrightarrow> p \<noteq> tmp \<longrightarrow> D' p = D p) \<and> (f \<noteq> 0 \<longrightarrow> D' deps = D deps)"
  using assms by (auto simp: record_lines_def Let_def put_file_def fs_rename_def delete_file_other split: if_split_asm prod.splits)

lemma record_lines_ok:
  assumes "record_lines h tmp deps s D = (0, D')" "tmp \<noteq> deps" "tmp \<noteq> []" "deps \<noteq> []" "\<And>a b. h_moves h a b"
    "tmp \<notin> set (dep_words [] s)"
  shows "(\<forall>p \<in> set (dep_words [] s). D p \<noteq> None) \<and> D' deps = Some (concat (map (dep_line D) (dep_words [] s)))"
proof -
  obtain ls where ls: "dep_lines (D(tmp \<mapsto> [])) (dep_words [] s) = (ls, True)" "length ls \<le> h_fits h tmp ls" "D' deps = Some ls"
    using assms(1-5)
    by (auto simp: record_lines_def Let_def put_file_def fs_rename_def split: if_split_asm prod.splits)
  have r: "\<forall>p \<in> set (dep_words [] s). (D(tmp \<mapsto> [])) p \<noteq> None" by (rule dep_lines_ok [OF ls(1)])
  have "dep_line (D(tmp \<mapsto> [])) p = dep_line D p" if "p \<in> set (dep_words [] s)" for p
    using that assms(6) by (auto simp: dep_line_def file_content_hash_eq)
  then have m: "map (dep_line (D(tmp \<mapsto> []))) (dep_words [] s) = map (dep_line D) (dep_words [] s)" by simp
  moreover have "ls = concat (map (dep_line (D(tmp \<mapsto> []))) (dep_words [] s))" using dep_lines_all [OF r] ls(1) by (simp del: fun_upd_apply)
  ultimately have "D' deps = Some (concat (map (dep_line D) (dep_words [] s)))" using ls(3) by (simp only:)
  then show ?thesis using r assms(6) by (auto split: if_split_asm)
qed

lemma record_unfold:
  assumes "native_deps_record h e depfile D = Inr (f, D')" "h_pid h < 2 ^ 31"
  obtains "f = 1" "D' = D" | s where "after_colon (read_back h depfile D) = Some s" "record_lines h (deps_tmp h e) (deps_name e) s D = (f, D')"
  using assms(1) unfolding native_deps_record_def native_deps_path_eq andthen_Inr Let_def
  by (auto simp: deps_tmp_fits [OF assms(2)] dest!: read_file_Inr split: option.splits if_split_asm)

lemma record_frame:
  assumes "native_deps_record h e depfile D = Inr (f, D')" "h_pid h < 2 ^ 31"
  shows "(\<forall>p. p \<noteq> deps_name e \<longrightarrow> p \<noteq> deps_tmp h e \<longrightarrow> D' p = D p) \<and> (f \<noteq> 0 \<longrightarrow> D' (deps_name e) = D (deps_name e))"
  using assms record_lines_frame by (elim record_unfold) auto

lemma record_ok:
  assumes "native_deps_record h e depfile D = Inr (0, D')" "h_pid h < 2 ^ 31" "\<And>a b. h_moves h a b"
    "D depfile = Some (make_rule out items)" "0 \<notin> set out" "items \<noteq> []" "\<forall>i \<in> set items. item_ok i"
    "deps_tmp h e \<notin> snd ` set items"
  shows "(\<forall>p \<in> snd ` set items. D p \<noteq> None) \<and> D' (deps_name e) = Some (concat (map (dep_line D) (map snd items)))"
  using assms(1,2)
proof (rule record_unfold)
  fix s assume s: "after_colon (read_back h depfile D) = Some s" and l: "record_lines h (deps_tmp h e) (deps_name e) s D = (0, D')"
  have "read_back h depfile D = make_rule out items"
    using s rule_no_nul [OF assms(5,7)] by (auto simp: read_back_def assms(4) split: if_split_asm)
  then have "dep_words [] s = map snd items" using make_rule_read [OF assms(6,7), of out] s by auto
  then show ?thesis using record_lines_ok [OF l] assms(3,8) by simp
qed simp

text \<open>A host on which every request for memory, disk and a new name is granted.\<close>

definition calm :: "host \<Rightarrow> bool" where
  "calm h \<longleftrightarrow> h_pid h < 2 ^ 31 \<and> (\<forall>n. h_al h n) \<and> (\<forall>p. h_open h p) \<and> (\<forall>p c. length c \<le> h_fits h p c) \<and> (\<forall>a b. h_moves h a b)"

lemma calm_sample: "calm sample_host"
  by (simp add: calm_def sample_host_def)

lemma record_succeeds:
  assumes "calm h" "D depfile = Some (make_rule out items)" "0 \<notin> set out" "items \<noteq> []" "\<forall>i \<in> set items. item_ok i"
    "\<forall>p \<in> snd ` set items. D p \<noteq> None"
  shows "\<exists>D'. native_deps_record h e depfile D = Inr (0, D')"
proof -
  have pid: "h_pid h < 2 ^ 31" using assms(1) by (simp add: calm_def)
  obtain s where s: "after_colon (make_rule out items) = Some s" "dep_words [] s = map snd items" using make_rule_read [OF assms(4,5)] by blast
  have "\<forall>p \<in> set (map snd items). (D(deps_tmp h e \<mapsto> [])) p \<noteq> None" using assms(6) by simp
  then show ?thesis
    using assms(1) dep_lines_all [of "map snd items" "D(deps_tmp h e \<mapsto> [])"]
    unfolding native_deps_record_def native_deps_path_eq Let_def
    by (auto simp: read_file_def assms(2) rule_no_nul [OF assms(3,5)] calm_def s deps_tmp_fits [OF pid] record_lines_def Let_def not_less [symmetric]
        split: prod.splits)
qed

lemma list_current:
  assumes "D' (deps_name e) = Some (concat (map (dep_line D) ps))" "ps \<noteq> []"
    "\<forall>p \<in> set ps. dep_path p \<and> p \<noteq> [] \<and> length p \<le> 4095 \<and> D p \<noteq> None"
  shows "native_deps_current h e D' \<longleftrightarrow> h_al h (length e + 6) \<and> (\<forall>p \<in> set ps. file_content_hash p D' = file_content_hash p D)"
proof -
  have "fgets_lines 4199 (concat (map (dep_line D) ps)) = map (dep_line D) ps" using assms(3) by (intro fgets_dep_lines) auto
  moreover have "deps_line_current D' (dep_line D p) \<longleftrightarrow> file_content_hash p D' = file_content_hash p D" if "p \<in> set ps" for p
    using that assms(3) by (intro dep_line_current) auto
  ultimately show ?thesis
    using assms(2) by (auto simp: native_deps_current_def native_deps_path_eq assms(1) list_all_iff)
qed

text \<open>C36. The list an entry keeps says exactly what clang reported: once \<open>native_deps_record\<close> has turned the make
  rule of a compile into \<open><entry>.deps\<close>, a later \<open>native_deps_current\<close>, by any process and on any disk that
  still has that list, answers that the entry is current if and only if every file of the rule, spaces and
  dollars in its path included, has the content hash it had when it was recorded.\<close>

theorem recorded_list_judges:
  assumes "native_deps_record h e depfile D = Inr (0, D')" and "h_pid h < 2 ^ 31" and "\<And>a b. h_moves h a b"
    and "D depfile = Some (make_rule out items)" and "0 \<notin> set out" and "items \<noteq> []" and "\<forall>i \<in> set items. item_ok i"
    and "deps_tmp h e \<notin> snd ` set items"
    and "D2 (deps_name e) = D' (deps_name e)" and "h_al h2 (length e + 6)"
  shows "native_deps_current h2 e D2 \<longleftrightarrow> (\<forall>p \<in> snd ` set items. file_content_hash p D2 = file_content_hash p D)"
proof -
  have "\<forall>p \<in> set (map snd items). dep_path p \<and> p \<noteq> [] \<and> length p \<le> 4095" using assms(7) by (auto simp: item_ok_def)
  then show ?thesis
    using record_ok [OF assms(1-8)] list_current [of D2 e D "map snd items" h2] assms(6,9,10) by simp
qed

definition sample_items :: "(bytes \<times> bytes) list" where
  "sample_items = [([32], [97, 32, 36]), ([32, 92, 10, 32, 32], [98])]"

definition sample_built :: disk where
  "sample_built = [[100] \<mapsto> make_rule [111] sample_items, [97, 32, 36] \<mapsto> [1], [98] \<mapsto> []]"

theorem recorded_list_judges_witness:
  "case native_deps_record sample_host [101] [100] sample_built of Inl _ \<Rightarrow> False
   | Inr (f, D') \<Rightarrow> f = 0 \<and> native_deps_current sample_host [101] D' \<and> \<not> native_deps_current sample_host [101] (D'([98] \<mapsto> [2]))"
proof -
  have h: "h_pid sample_host < 2 ^ 31" "\<And>a b. h_moves sample_host a b" "h_al sample_host n" for n by (simp_all add: sample_host_def)
  have i: "sample_items \<noteq> []" "\<forall>i \<in> set sample_items. item_ok i" "sample_built [100] = Some (make_rule [111] sample_items)"
    by (simp_all add: sample_items_def item_ok_def sample_built_def)
  obtain D' where r: "native_deps_record sample_host [101] [100] sample_built = Inr (0, D')"
    using record_succeeds [of sample_host sample_built "[100]" "[111]" sample_items "[101]"] calm_sample i by (auto simp: sample_items_def sample_built_def)
  have t: "deps_tmp sample_host [101] \<notin> snd ` set sample_items" by (simp add: deps_tmp_def deps_name_def sample_items_def)
  have D': "D' [97, 32, 36] = Some [1]" "D' [98] = Some []" "[98] \<noteq> deps_name [101]"
    using record_frame [OF r h(1)] by (simp_all add: deps_tmp_def deps_name_def sample_built_def ascii_def)
  have "file_content_hash [98] (D'([98] \<mapsto> [2])) \<noteq> file_content_hash [98] sample_built"
    by (simp add: file_content_hash_eq sample_built_def fnv1a_raw_def fnv_step_def PRISMIO_FNV_OFFSET_def PRISMIO_FNV_PRIME_def)
  then show ?thesis
    using recorded_list_judges [of sample_host "[101]" "[100]" sample_built D' "[111]" sample_items D' sample_host]
      recorded_list_judges [of sample_host "[101]" "[100]" sample_built D' "[111]" sample_items "D'([98] \<mapsto> [2])" sample_host] D' r h i t
    by (simp add: sample_items_def file_content_hash_eq sample_built_def)
qed

end
