(* ===== verification/Cache_Runs.thy ===== *)
theory Cache_Runs
  imports Object_Cache "HOL-Library.Sublist"
begin

text \<open>
  What the object cache promises over any number of builds: the object a compile answers with is the one
  clang would make of the files as they are now.  clang is a parameter, described by what a successful run
  writes (\<open>clang_writes\<close>) and on what the object depends (\<open>clang_reads\<close>); a history of builds and edits is
  the relation \<open>cache_run\<close>, which keeps the set of all disks there have been.
\<close>

subsection \<open>What is assumed of a build and of clang\<close>

definition plain :: "bytes \<Rightarrow> bool" where
  "plain s \<longleftrightarrow> 0 \<notin> set s \<and> 13 \<notin> set s"

text \<open>The cache directory with the separator after it; every build of a history agrees on it.\<close>

definition base_ok :: "bytes \<Rightarrow> bool" where
  "base_ok base \<longleftrightarrow> base \<noteq> [] \<and> is_sep (last base) \<and> 0 \<notin> set base \<and> length base < 2 ^ 28"

definition builds_in :: "bytes \<Rightarrow> host \<Rightarrow> bool" where
  "builds_in base h \<longleftrightarrow> is_sep (h_sep h) \<and> h_pid h < 2 ^ 31 \<and> (\<forall>a b. h_moves h a b)
     \<and> (\<forall>dir. object_cache_dir h = Inr dir \<longrightarrow> map (\<lambda>c. if c = 47 \<or> c = 92 then h_sep h else c) (dir @ [h_sep h]) = base)"

definition request_ok :: "bytes \<Rightarrow> bytes \<Rightarrow> bool" where
  "request_ok source flags \<longleftrightarrow> length source < 2 ^ 31 \<and> plain source \<and> plain flags
     \<and> length (stem source) \<le> 138 \<and> (\<forall>t. stem source \<noteq> 46 # t)"

text \<open>No two sources of a history have the same stem: the key does not hold the path.\<close>

definition requests_ok :: "(bytes \<times> bytes) set \<Rightarrow> bool" where
  "requests_ok R \<longleftrightarrow> (\<forall>(s, f) \<in> R. request_ok s f) \<and> (\<forall>(s, f) \<in> R. \<forall>(s', f') \<in> R. stem s = stem s' \<longrightarrow> s = s')"

definition content_hash :: "disk \<Rightarrow> bytes \<Rightarrow> 64 word" where
  "content_hash D p = the (file_content_hash p D)"

definition key_text :: "bytes list \<Rightarrow> bytes \<Rightarrow> bytes \<Rightarrow> disk \<Rightarrow> bytes" where
  "key_text ff source flags D =
     stem source @ flags @ hex16 (content_hash D source) @ concat (map (\<lambda>p. hex16 (content_hash D p)) ff)"

definition no_collision :: "bytes \<Rightarrow> (bytes \<times> bytes) set \<Rightarrow> bytes list \<Rightarrow> disk set \<Rightarrow> bool" where
  "no_collision base R ff Hs \<longleftrightarrow>
     inj_on (fnv1a_raw PRISMIO_FNV_OFFSET)
       ({key_text ff s f D | s f D. (s, f) \<in> R \<and> D \<in> Hs} \<union> {c. \<exists>D \<in> Hs. \<exists>p. \<not> prefix base p \<and> D p = Some c})"

text \<open>A run of clang changes the object and the rule only; when it answers 0 it has written both.  A path of 2 GB would not
  survive the quoting.\<close>

definition clang_writes ::
  "host \<Rightarrow> bytes \<Rightarrow> (bytes \<Rightarrow> disk \<Rightarrow> int \<times> disk) \<Rightarrow> (bytes \<Rightarrow> bytes \<Rightarrow> disk \<Rightarrow> bytes) \<Rightarrow> (bytes \<Rightarrow> bytes \<Rightarrow> disk \<Rightarrow> bytes list) \<Rightarrow> (bytes \<times> bytes) set \<Rightarrow> disk set \<Rightarrow> bool" where
  "clang_writes h clang run obj deps R Hs \<longleftrightarrow>
     (\<forall>(source, flags) \<in> R. \<forall>D \<in> Hs. \<forall>out q_src q_out q_dep status D'.
        length out < 2 ^ 30 \<longrightarrow> command_quote_arg (h_windows h) (h_al h) source = Inr q_src \<longrightarrow> command_quote_arg (h_windows h) (h_al h) out = Inr q_out \<longrightarrow>
        command_quote_arg (h_windows h) (h_al h) (out @ ascii ''.d'') = Inr q_dep \<longrightarrow>
        run (native_command clang flags q_dep q_src q_out) D = (status, D') \<longrightarrow>
        (\<forall>p. p \<noteq> out \<longrightarrow> p \<noteq> out @ ascii ''.d'' \<longrightarrow> D' p = D p)
        \<and> (status = 0 \<longrightarrow> D' out = Some (obj source flags D)
            \<and> (\<exists>items. items \<noteq> [] \<and> (\<forall>i \<in> set items. item_ok i) \<and> map snd items = deps source flags D
                 \<and> D' (out @ ascii ''.d'') = Some (make_rule out items))))"

definition clang_reads ::
  "bytes \<Rightarrow> bytes list \<Rightarrow> (bytes \<Rightarrow> bytes \<Rightarrow> disk \<Rightarrow> bytes) \<Rightarrow> (bytes \<Rightarrow> bytes \<Rightarrow> disk \<Rightarrow> bytes list) \<Rightarrow> (bytes \<times> bytes) set \<Rightarrow> disk set \<Rightarrow> bool" where
  "clang_reads base ff obj deps R Hs \<longleftrightarrow>
     (\<forall>p \<in> set ff. \<not> prefix base p)
     \<and> (\<forall>(source, flags) \<in> R. \<forall>D \<in> Hs. (\<forall>p \<in> set (deps source flags D). \<not> prefix base p)
          \<and> (\<forall>D' \<in> Hs. (\<forall>p \<in> set (deps source flags D) \<union> set ff. D' p = D p) \<longrightarrow> obj source flags D' = obj source flags D))"

definition entry_path :: "bytes \<Rightarrow> bytes \<Rightarrow> 64 word \<Rightarrow> bytes" where
  "entry_path base role w = base @ role @ 45 # hex16 w @ ascii ''.obj''"

definition role_ok :: "bytes \<Rightarrow> bool" where
  "role_ok role \<longleftrightarrow> no_sep role \<and> (\<forall>t. role \<noteq> 46 # t)"

text \<open>Builds, one after the other, by any process, and what users do in between: anything outside the cache, and in it no
  more than removing files.\<close>

inductive cache_run ::
  "host set \<Rightarrow> bytes \<Rightarrow> bytes \<Rightarrow> (bytes \<Rightarrow> disk \<Rightarrow> int \<times> disk) \<Rightarrow> bytes list \<Rightarrow> (bytes \<times> bytes) set \<Rightarrow> disk set \<Rightarrow> disk \<Rightarrow> bool"
  for H base clang run ff R where
  start: "(\<And>role w. role_ok role \<Longrightarrow> D (entry_path base role w) = None) \<Longrightarrow> cache_run H base clang run ff R {D} D"
| edit: "cache_run H base clang run ff R Hs D
    \<Longrightarrow> (\<And>role w. role_ok role \<Longrightarrow> (D' (entry_path base role w) = D (entry_path base role w) \<or> D' (entry_path base role w) = None)
          \<and> (D' (deps_name (entry_path base role w)) = D (deps_name (entry_path base role w)) \<or> D' (deps_name (entry_path base role w)) = None))
    \<Longrightarrow> cache_run H base clang run ff R (insert D' Hs) D'"
| build: "cache_run H base clang run ff R Hs D \<Longrightarrow> h \<in> H \<Longrightarrow> (source, flags) \<in> R \<Longrightarrow> length exe < 2 ^ 28
    \<Longrightarrow> compile_native_source h clang ff run source flags i exe D = Inr (r, ob, cached, D')
    \<Longrightarrow> cache_run H base clang run ff R (insert D' Hs) D'"


subsection \<open>Keys and entries\<close>

definition object_key :: "bytes list \<Rightarrow> bytes \<Rightarrow> bytes \<Rightarrow> bytes \<Rightarrow> disk \<Rightarrow> 64 word option" where
  "object_key ff role source flags D =
     (case file_content_hash source D of None \<Rightarrow> None
      | Some sh \<Rightarrow> hash_flag_files ff D (fnv1a_bytes (fnv1a_bytes (fnv1a_bytes PRISMIO_FNV_OFFSET role) flags) (hex16 sh)))"

lemma fnv_plain: "plain s \<Longrightarrow> fnv1a_bytes hash s = fnv1a_raw hash s"
proof -
  assume p: "plain s"
  then have "cstr s = s" unfolding cstr_def takeWhile_eq_all_conv plain_def by metis
  moreover have "fold (\<lambda>b hash. if b = 13 then hash else fnv_step b hash) s hash = fold fnv_step s hash"
    using p by (intro fold_cong) (auto simp: plain_def)
  ultimately show ?thesis by (simp add: fnv1a_bytes_def fnv1a_raw_def)
qed

lemma plain_hex16 [simp]: "plain (hex16 w)"
  using hex16_digits by (auto simp: plain_def)

lemma fnv_append: "fnv1a_raw (fnv1a_raw hash a) b = fnv1a_raw hash (a @ b)"
  by (simp add: fnv1a_raw_def)

lemma hash_flag_files_Some:
  "hash_flag_files ff D hash = Some w \<Longrightarrow> w = fnv1a_raw hash (concat (map (\<lambda>p. hex16 (content_hash D p)) ff)) \<and> (\<forall>p \<in> set ff. D p \<noteq> None)"
  by (induction ff arbitrary: hash) (auto simp: fnv1a_raw_def fnv_plain [unfolded fnv1a_raw_def] content_hash_def file_content_hash_eq split: option.splits)

lemma stem_chars: "c \<in> set (stem p) \<Longrightarrow> c \<in> set p"
  by (auto simp: stem_def Let_def path_file_name_def split: option.splits dest!: in_set_dropD in_set_takeD)

lemma object_key_text:
  assumes "object_key ff (stem s) s f D = Some w" "request_ok s f"
  shows "w = fnv1a_raw PRISMIO_FNV_OFFSET (key_text ff s f D) \<and> D s \<noteq> None \<and> (\<forall>p \<in> set ff. D p \<noteq> None)"
proof -
  have "plain (stem s)" "plain f" using assms(2) stem_chars by (auto simp: request_ok_def plain_def)
  note p = this
  obtain sh where sh: "file_content_hash s D = Some sh" using assms(1) by (cases "file_content_hash s D") (simp_all add: object_key_def)
  have h: "content_hash D s = sh" "D s \<noteq> None" using sh by (auto simp: content_hash_def file_content_hash_eq)
  have "hash_flag_files ff D (fnv1a_raw PRISMIO_FNV_OFFSET ((stem s @ f) @ hex16 sh)) = Some w"
    using assms(1) sh p by (simp only: object_key_def option.case fnv_plain fnv_append plain_hex16)
  from hash_flag_files_Some [OF this] show ?thesis unfolding key_text_def h(1) fnv_append append_assoc using h(2) by blast
qed

lemma hexes_equal: "concat (map (\<lambda>x. hex16 (f x)) xs) = concat (map (\<lambda>x. hex16 (g x)) xs) \<Longrightarrow> x \<in> set xs \<Longrightarrow> f x = g x"
  by (induction xs) (auto dest: hex16_inject)

lemma length_hexes: "length (concat (map (\<lambda>x. hex16 (f x)) xs)) = 16 * length xs"
  by (induction xs) auto

lemma key_text_inject:
  assumes "key_text ff s f D = key_text ff s f' D'"
  shows "f = f' \<and> (\<forall>p \<in> insert s (set ff). content_hash D p = content_hash D' p)"
proof -
  let ?k = "\<lambda>D. concat (map (\<lambda>p. hex16 (content_hash D p)) (s # ff))"
  have "f @ ?k D = f' @ ?k D'" using assms by (simp add: key_text_def)
  moreover have "length (?k D) = length (?k D')" by (simp only: length_hexes)
  ultimately have e: "f = f'" "?k D = ?k D'" unfolding append_eq_append_conv [OF disjI2, OF \<open>length (?k D) = length (?k D')\<close>] by blast+
  have "content_hash D p = content_hash D' p" if "p \<in> insert s (set ff)" for p
    by (rule hexes_equal [OF e(2)]) (use that in simp)
  then show ?thesis using e(1) by blast
qed

lemma same_content:
  assumes "no_collision base R ff Hs" "D \<in> Hs" "D' \<in> Hs" "\<not> prefix base p" "D p \<noteq> None" "D' p \<noteq> None" "content_hash D p = content_hash D' p"
  shows "D p = D' p"
proof -
  obtain c c' where c: "D p = Some c" "D' p = Some c'" using assms(5,6) by auto
  then have "fnv1a_raw PRISMIO_FNV_OFFSET c = fnv1a_raw PRISMIO_FNV_OFFSET c'" using assms(7) by (simp add: content_hash_def file_content_hash_eq)
  then have "c = c'"
    by (rule inj_onD [OF assms(1) [unfolded no_collision_def]]) (use assms(2-4) c in blast)+
  then show ?thesis using c by simp
qed

text \<open>The key determines everything a compile depends on, apart from the files clang lists.\<close>

lemma same_key:
  assumes "requests_ok R" "no_collision base R ff Hs" "\<forall>p \<in> set ff. \<not> prefix base p"
    "(s, f) \<in> R" "(s', f') \<in> R" "D \<in> Hs" "D' \<in> Hs" "stem s = stem s'"
    "object_key ff (stem s) s f D = Some w" "object_key ff (stem s') s' f' D' = Some w"
  shows "s' = s \<and> f' = f \<and> (\<forall>p \<in> set ff. D' p = D p)"
proof -
  have s: "s' = s" and r: "request_ok s f" "request_ok s' f'" using assms(1,4,5,8) by (fastforce simp: requests_ok_def)+
  note k = object_key_text [OF assms(9) r(1)] object_key_text [OF assms(10) r(2)]
  have "key_text ff s f D = key_text ff s' f' D'"
  proof (rule inj_onD [OF assms(2) [unfolded no_collision_def]])
    show "fnv1a_raw PRISMIO_FNV_OFFSET (key_text ff s f D) = fnv1a_raw PRISMIO_FNV_OFFSET (key_text ff s' f' D')"
      by (rule trans [OF k(1) [THEN conjunct1, symmetric] k(2) [THEN conjunct1]])
  qed (rule UnI1, use assms(4-7) in blast)+
  from key_text_inject [OF this [unfolded s]] have e: "f = f'" "\<forall>p \<in> set ff. content_hash D p = content_hash D' p" by blast+
  have "D p = D' p" if "p \<in> set ff" for p
    by (rule same_content [OF assms(2,6,7)]) (use that k e assms(3) in blast)+
  then show ?thesis using s e(1) by simp
qed

subsection \<open>Names in the cache directory\<close>

definition entry_name :: "bytes \<Rightarrow> 64 word \<Rightarrow> bytes" where
  "entry_name role w = role @ 45 # hex16 w @ ascii ''.obj''"

lemma entry_path_name: "entry_path base role w = base @ entry_name role w"
  by (simp add: entry_path_def entry_name_def)

lemma file_name_in_base: "base_ok base \<Longrightarrow> no_sep y \<Longrightarrow> path_file_name (base @ y) = y"
  using path_file_name_split [of "last base" y "butlast base"] append_butlast_last_id [of base]
  by (metis append.assoc append_Cons append_Nil base_ok_def)

lemma no_sep_entry_name: "no_sep role \<Longrightarrow> no_sep (entry_name role w) \<and> no_sep (entry_name role w @ ascii ''.deps'')"
  by (simp add: entry_name_def ascii_def)

lemma entry_not_hidden:
  assumes "base_ok base" "role_ok role"
  shows "\<not> hidden (entry_path base role w)" "\<not> hidden (deps_name (entry_path base role w))"
proof -
  have n: "no_sep role" and d: "\<And>t. entry_name role w \<noteq> 46 # t" "\<And>t. entry_name role w @ ascii ''.deps'' \<noteq> 46 # t"
    using assms(2) by (auto simp: role_ok_def entry_name_def append_eq_Cons_conv)
  show "\<not> hidden (entry_path base role w)"
    using file_name_in_base [OF assms(1), of "entry_name role w"] no_sep_entry_name [OF n, of w] d by (simp add: hidden_def entry_path_name)
  show "\<not> hidden (deps_name (entry_path base role w))"
    using file_name_in_base [OF assms(1), of "entry_name role w @ ascii ''.deps''"] no_sep_entry_name [OF n, of w] d
    by (simp add: hidden_def entry_path_name deps_name_def)
qed

lemma entry_last: "last (entry_path base role w) = 106" "last (deps_name (entry_path base role w)) = 115"
  by (simp_all add: entry_path_def deps_name_def ascii_def)

lemma tmp_last: "last (deps_tmp h e) \<noteq> 106 \<and> last (deps_tmp h e) \<noteq> 115"
  using decimal_bytes [of "last (decimal (h_pid h))" "h_pid h"] by (simp add: deps_tmp_def)

lemma tmp_not_entry:
  "deps_tmp h e \<noteq> entry_path base role w" "deps_tmp h e \<noteq> deps_name (entry_path base role w)"
  "entry_path base role w \<noteq> deps_name (entry_path base role' w')"
proof -
  show "deps_tmp h e \<noteq> entry_path base role w" "deps_tmp h e \<noteq> deps_name (entry_path base role w)"
    using tmp_last [of h e] entry_last [of base] by metis+
  have "(106 :: byte) \<noteq> 115" by simp
  then show "entry_path base role w \<noteq> deps_name (entry_path base role' w')" using entry_last [of base] by metis
qed

lemma deps_name_inject [simp]: "deps_name e = deps_name e' \<longleftrightarrow> e = e'"
  by (simp add: deps_name_def)

lemma entry_path_inject: "entry_path base role w = entry_path base role' w' \<longleftrightarrow> role = role' \<and> w = w'"
proof
  assume "entry_path base role w = entry_path base role' w'"
  then have "role @ (45 # hex16 w @ ascii ''.obj'') = role' @ (45 # hex16 w' @ ascii ''.obj'')" by (simp add: entry_path_def)
  moreover have "length (45 # hex16 w @ ascii ''.obj'') = length (45 # hex16 w' @ ascii ''.obj'')" by simp
  ultimately have "role = role'" "hex16 w = hex16 w'" by (simp_all add: append_eq_append_conv)
  then show "role = role' \<and> w = w'" using hex16_inject by blast
qed simp

lemma hidden_d: "hidden p \<Longrightarrow> hidden (p @ ascii ''.d'')"
  by (cases p rule: path_cases) (auto simp: hidden_def ascii_def)

lemma role_ok_stem: "request_ok s f \<Longrightarrow> role_ok (stem s)"
  by (simp add: request_ok_def role_ok_def)

lemma base_sep: "base_ok base \<Longrightarrow> \<exists>x s. base = x @ [s] \<and> is_sep s"
  unfolding base_ok_def by (metis append_butlast_last_id)

lemma object_cache_temp:
  assumes "base_ok base" "role_ok role" "h_pid h < 2 ^ 31" "object_cache_temp_path h (entry_path base role w) = Inr out"
  shows "hidden out \<and> prefix base out \<and> last out = 106 \<and> length out \<le> length base + length role + 37 \<and> (0 \<notin> set role \<longrightarrow> 0 \<notin> set out)"
proof -
  let ?n = "entry_name role w"
  obtain x s where b: "base = x @ [s]" "is_sep s" using base_sep [OF assms(1)] by blast
  have n: "no_sep ?n" using no_sep_entry_name [of role w] assms(2) by (simp add: role_ok_def)
  have k: "after (later (strrchr 47 (base @ ?n)) (strrchr 92 (base @ ?n))) = length base"
    using last_sep [OF b(2) n, of x] by (simp add: b after_def)
  have "h_pid h < 10 ^ 10" using assms(3) by simp
  then have ten: "length (decimal (h_pid h)) \<le> 10" by (rule decimal_length) simp
  then have "out = base @ ascii ''.tmp-'' @ decimal (h_pid h) @ [45] @ ?n"
    using assms(4) by (simp add: object_cache_temp_path_def entry_path_name k Let_def need_def snprintf_def ascii_def split: if_split_asm)
  moreover have "path_file_name (base @ ascii ''.tmp-'' @ decimal (h_pid h) @ [45] @ ?n) = ascii ''.tmp-'' @ decimal (h_pid h) @ [45] @ ?n"
    by (rule file_name_in_base [OF assms(1)]) (simp add: n ascii_def)
  moreover have "0 \<notin> set (decimal (h_pid h))" "0 \<notin> set (hex16 w)" using decimal_bytes hex16_digits by blast+
  ultimately show ?thesis using assms(1) ten by (auto simp: hidden_def ascii_def base_ok_def entry_name_def)
qed

lemma native_object_entry_path:
  assumes "native_object_entry h ff (stem s) s f D = Inr (Some e)" "builds_in base h" "request_ok s f"
  shows "\<exists>w. object_key ff (stem s) s f D = Some w \<and> e = entry_path base (stem s) w"
proof -
  obtain w where w: "object_key ff (stem s) s f D = Some w"
    and e: "andthen (object_cache_dir h) (\<lambda>dir. andthen (ensure_directory_exists h dir) (\<lambda>failed. if failed \<noteq> 0 then Inr None else
                  andthen (join_path (h_sep h) (h_al h) dir (snprintf 160 (stem s @ [45] @ hex16 w @ ascii ''.obj''))) (\<lambda>p. Inr (Some p)))) = Inr (Some e)"
    using assms(1) by (auto simp: native_object_entry_def object_key_def Let_def split: option.splits)
  obtain dir where dir: "object_cache_dir h = Inr dir" "join_path (h_sep h) (h_al h) dir (snprintf 160 (stem s @ [45] @ hex16 w @ ascii ''.obj'')) = Inr e"
    using e by (auto simp: andthen_Inr split: if_split_asm)
  have "snprintf 160 (stem s @ [45] @ hex16 w @ ascii ''.obj'') = entry_name (stem s) w"
    using assms(3) by (auto simp: snprintf_def entry_name_def request_ok_def ascii_def)
  moreover have "map (\<lambda>c. if c = 47 \<or> c = 92 then h_sep h else c) (entry_name (stem s) w) = entry_name (stem s) w"
    using no_sep_entry_name [OF no_sep_stem, of s w] by (intro map_idI) (auto simp: no_sep_def)
  ultimately have "e = base @ entry_name (stem s) w"
    using dir assms(2) by (auto simp: join_path_def builds_in_def split: if_split_asm)
  then show ?thesis using w by (simp add: entry_path_name)
qed

subsection \<open>One build\<close>

definition good_deps :: "disk \<Rightarrow> bytes list \<Rightarrow> bool" where
  "good_deps D ps \<longleftrightarrow> ps \<noteq> [] \<and> (\<forall>p \<in> set ps. dep_path p \<and> p \<noteq> [] \<and> length p \<le> 4095 \<and> D p \<noteq> None)"

lemma run_compile_ok:
  assumes "run_compile h clang run s f out D = Inr (r, dep, D1)" "clang_writes h clang run obj deps R Hs" "(s, f) \<in> R" "D \<in> Hs" "length out < 2 ^ 30"
  shows "(dep = None \<or> dep = Some (out @ ascii ''.d'')) \<and> (\<forall>p. p \<noteq> out \<longrightarrow> p \<noteq> out @ ascii ''.d'' \<longrightarrow> D1 p = D p)
    \<and> (r = 0 \<longrightarrow> dep = Some (out @ ascii ''.d'') \<and> D1 out = Some (obj s f D)
       \<and> (\<exists>items. items \<noteq> [] \<and> (\<forall>i \<in> set items. item_ok i) \<and> map snd items = deps s f D
            \<and> D1 (out @ ascii ''.d'') = Some (make_rule out items)))"
proof -
  obtain q_src q_out where q: "command_quote_arg (h_windows h) (h_al h) s = Inr q_src" "command_quote_arg (h_windows h) (h_al h) out = Inr q_out"
    using assms(1) unfolding run_compile_def Let_def andthen_Inr by blast
  consider "r = 1" "dep = None \<or> dep = Some (out @ ascii ''.d'')" "D1 = D"
    | q_dep status where "command_quote_arg (h_windows h) (h_al h) (out @ ascii ''.d'') = Inr q_dep"
        "run (native_command clang f q_dep q_src q_out) D = (status, D1)" "r = (if status \<noteq> 0 then 1 else 0)" "dep = Some (out @ ascii ''.d'')"
    using assms(1) q unfolding run_compile_def Let_def by (auto simp: andthen_Inr split: if_split_asm prod.splits)
  then show ?thesis
  proof cases
    case 2
    then show ?thesis using assms(2-5) q unfolding clang_writes_def by (fastforce split: if_split_asm)
  qed auto
qed

lemma install_ok:
  assumes "install_object h (Some e) (Some d) out D = Inr (ob, c, D')" "h_pid h < 2 ^ 31" "\<forall>a b. h_moves h a b"
    "D out = Some x" "D d = Some (make_rule out items)" "0 \<notin> set out" "items \<noteq> []" "\<forall>i \<in> set items. item_ok i"
    "deps_tmp h e \<notin> snd ` set items" "out \<notin> {[], e, deps_name e, deps_tmp h e}" "e \<notin> {[], deps_name e, deps_tmp h e}"
  shows "(\<forall>p. p \<notin> {e, deps_name e, deps_tmp h e, out} \<longrightarrow> D' p = D p)
    \<and> (ob = out \<and> D' out = Some x \<and> D' e = D e \<and> D' (deps_name e) = D (deps_name e)
       \<or> ob = e \<and> D' e = Some x \<and> good_deps D (map snd items) \<and> D' (deps_name e) = Some (concat (map (dep_line D) (map snd items))))"
proof -
  obtain failed D1 where r: "native_deps_record h e d D = Inr (failed, D1)"
    and i: "(if failed \<noteq> 0 then Inr (out, False, D1) else let (moved, D) = fs_rename h out e D1 in Inr (if moved = 0 then (e, True, D) else (out, False, D)))
        = (Inr (ob, c, D') :: rt_error + bytes \<times> bool \<times> disk)"
    using assms(1) by (auto simp: install_object_def andthen_Inr)
  note f = record_frame [OF r assms(2)]
  have o: "D1 out = Some x" "D1 e = D e" using f assms(4,10,11) by auto
  show ?thesis
  proof (cases "failed = 0")
    case True
    have k: "(\<forall>p \<in> snd ` set items. D p \<noteq> None) \<and> D1 (deps_name e) = Some (concat (map (dep_line D) (map snd items)))"
      using record_ok [of h e d D D1 out items] r True assms(2-9) by blast
    moreover from this have "good_deps D (map snd items)" using assms(7,8) by (auto simp: good_deps_def item_ok_def)
    moreover have "ob = e" "D' = D1(out := None, e := Some x)"
      using i True o assms(3,10,11) by (auto simp: fs_rename_def)
    ultimately show ?thesis using f assms(10,11) by auto
  next
    case False
    then have "ob = out" "D' = D1" using i by simp_all
    then show ?thesis using f o False by simp
  qed
qed

definition fresh ::
  "(bytes \<Rightarrow> bytes \<Rightarrow> disk \<Rightarrow> bytes) \<Rightarrow> (bytes \<Rightarrow> bytes \<Rightarrow> disk \<Rightarrow> bytes list) \<Rightarrow> bytes list \<Rightarrow> bytes \<Rightarrow> bytes \<Rightarrow> disk \<Rightarrow> 64 word \<Rightarrow> bytes \<Rightarrow> disk \<Rightarrow> bool" where
  "fresh obj deps ff s f D w e D' \<longleftrightarrow> object_key ff (stem s) s f D = Some w \<and> D' e = Some (obj s f D)
     \<and> good_deps D (deps s f D) \<and> D' (deps_name e) = Some (concat (map (dep_line D) (deps s f D)))"

lemma hidden_other: "hidden p \<Longrightarrow> \<not> hidden q \<Longrightarrow> q \<noteq> p"
  by blast

lemma dep_lines_same:
  assumes "\<forall>p \<in> set ps. D1 p = D p"
  shows "map (dep_line D1) ps = map (dep_line D) ps" "good_deps D1 ps \<longleftrightarrow> good_deps D ps"
  using assms by (auto simp: dep_line_def file_content_hash_eq good_deps_def)

text \<open>A compile through the cache: the entry is left as it was, or it is fresh.\<close>

lemma compile_miss:
  assumes out: "object_cache_temp_path h e = Inr out" "e = entry_path base (stem s) w" "object_key ff (stem s) s f D = Some w"
    and run: "run_compile h clang run s f out D = Inr (r, dep, D1)"
    and inst: "(if r = 0 then install_object h (Some e) dep out D1 else Inr (out, False, D1)) = Inr (ob, c, D2)"
    and ok: "base_ok base" "builds_in base h" "request_ok s f" "(s, f) \<in> R" "D \<in> Hs" "clang_writes h clang run obj deps R Hs"
      "clang_reads base ff obj deps R Hs"
  shows "(\<forall>p. \<not> hidden p \<or> \<not> prefix base p \<longrightarrow> p \<notin> {e, deps_name e, deps_tmp h e} \<longrightarrow> D2 p = D p)
    \<and> (D2 e = D e \<and> D2 (deps_name e) = D (deps_name e) \<or> fresh obj deps ff s f D w e D2)
    \<and> (dep = None \<or> dep = Some (out @ ascii ''.d''))
    \<and> (r = 0 \<longrightarrow> D2 ob = Some (obj s f D) \<and> ob \<noteq> out @ ascii ''.d'')"
proof -
  have role: "role_ok (stem s)" and pid: "h_pid h < 2 ^ 31" and mv: "\<forall>a b. h_moves h a b"
    using ok(2,3) role_ok_stem by (auto simp: builds_in_def)
  have "0 \<notin> set (stem s)" using ok(3) stem_chars by (auto simp: request_ok_def plain_def)
  then have o: "hidden out" "prefix base out" "0 \<notin> set out" "last out = 106" using object_cache_temp [OF ok(1) role pid] out(1,2) by auto
  have "length out \<le> length base + length (stem s) + 37" using object_cache_temp [OF ok(1) role pid] out(1,2) by auto
  moreover have "length base < 2 ^ 28" "length (stem s) \<le> 138" using ok(1,3) by (simp_all add: base_ok_def request_ok_def)
  ultimately have lo: "length out < 2 ^ 30" by simp
  have nh: "\<not> hidden e" "\<not> hidden (deps_name e)" using entry_not_hidden [OF ok(1) role] out(2) by auto
  have hd: "hidden (out @ ascii ''.d'')" by (rule hidden_d [OF o(1)])
  have po: "prefix base (out @ ascii ''.d'')" using o(2) by (rule prefix_prefix)
  note rc = run_compile_ok [OF run ok(6,4,5) lo]
  have d1: "D1 p = D p" if "\<not> hidden p \<or> \<not> prefix base p" for p
    by (rule rc [THEN conjunct2, THEN conjunct1, rule_format]) (use that o(1,2) hd po in metis)+
  show ?thesis
  proof (cases "r = 0")
    case False
    then have "D2 = D1" using inst by simp
    then show ?thesis using rc [THEN conjunct1] d1 nh False by metis
  next
    case True
    obtain items where items: "dep = Some (out @ ascii ''.d'')" "D1 out = Some (obj s f D)" "items \<noteq> []" "\<forall>i \<in> set items. item_ok i"
      "map snd items = deps s f D" "D1 (out @ ascii ''.d'') = Some (make_rule out items)" using rc True by blast
    have outside: "\<forall>p \<in> set (deps s f D). \<not> prefix base p" using ok(4,5,7) unfolding clang_reads_def by blast
    have tb: "prefix base (deps_tmp h e)" by (simp add: out(2) entry_path_def deps_tmp_def deps_name_def)
    have t: "deps_tmp h e \<notin> snd ` set items" using outside tb items(5) by (metis list.set_map)
    have ne: "out \<noteq> deps_tmp h e" "e \<notin> {[], deps_name e, deps_tmp h e}"
    proof -
      have "e \<noteq> []" using out(2) by (simp add: entry_path_def)
      then show "e \<notin> {[], deps_name e, deps_tmp h e}"
        using tmp_not_entry(1) [of h e base "stem s" w] out(2) deps_names(4) [of e] by (metis insertE singletonD)
      show "out \<noteq> deps_tmp h e" using tmp_last o(4) by metis
    qed
    have i: "install_object h (Some e) (Some (out @ ascii ''.d'')) out D1 = Inr (ob, c, D2)" using inst True items(1) by simp
    have oe: "out \<notin> {[], e, deps_name e, deps_tmp h e}" using o(1) nh ne(1) by (auto simp: hidden_def)
    note io = install_ok [OF i pid mv items(2,6) o(3) items(3,4) t oe ne(2)]
    have same: "\<forall>p \<in> set (deps s f D). D1 p = D p"
      by (intro ballI, rule rc [THEN conjunct2, THEN conjunct1, rule_format]) (use outside o(2) po in metis)+
    have e1: "D1 e = D e" "D1 (deps_name e) = D (deps_name e)" using d1 nh by blast+
    have frame: "D2 p = D p" if "\<not> hidden p \<or> \<not> prefix base p" "p \<notin> {e, deps_name e, deps_tmp h e}" for p
      using io [THEN conjunct1, rule_format, of p] d1 [OF that(1)] that o(1,2) by (cases "p = out") auto
    have "(D2 e = D e \<and> D2 (deps_name e) = D (deps_name e) \<or> fresh obj deps ff s f D w e D2) \<and> D2 ob = Some (obj s f D) \<and> ob \<noteq> out @ ascii ''.d''"
      using io [THEN conjunct2]
    proof (elim disjE conjE)
      assume "ob = out" "D2 out = Some (obj s f D)" "D2 e = D1 e" "D2 (deps_name e) = D1 (deps_name e)"
      then show ?thesis using e1 by (simp add: ascii_def)
    next
      assume k: "ob = e" "D2 e = Some (obj s f D)" "good_deps D1 (map snd items)" "D2 (deps_name e) = Some (concat (map (dep_line D1) (map snd items)))"
      then have "fresh obj deps ff s f D w e D2" using items(5) dep_lines_same [OF same] out(3) by (simp add: fresh_def)
      then show ?thesis using k(1,2) nh(1) hd by blast
    qed
    then show ?thesis using frame items(1) by blast
  qed
qed

definition kept :: "bytes \<Rightarrow> disk \<Rightarrow> disk \<Rightarrow> bool" where
  "kept e D D' \<longleftrightarrow> D' e = D e \<and> D' (deps_name e) = D (deps_name e)"

lemma entries_kept:
  assumes "\<forall>p. \<not> hidden p \<or> \<not> prefix base p \<longrightarrow> p \<notin> {e, deps_name e, deps_tmp h e} \<longrightarrow> D' p = D p"
    "base_ok base" "role_ok role" "e = entry_path base role' w'" "e \<noteq> entry_path base role w"
  shows "kept (entry_path base role w) D D'"
  using assms(1) entry_not_hidden [OF assms(2,3), of w] assms(5) tmp_not_entry(1,2) [of h e base role w] tmp_not_entry(3) [of base role w role' w']
    tmp_not_entry(3) [of base role' w' role w]
  unfolding kept_def by (metis assms(4) deps_name_inject insertE singletonD)

lemma no_sep_signed: "no_sep (signed_decimal i)"
  by (simp add: signed_decimal_def)

lemma uncached_hidden:
  assumes "compiler_temp_obj_path h exe (snprintf 160 (ascii ''native'' @ signed_decimal i @ [45] @ stem s)) = Inr out" "is_sep (h_sep h)"
  shows "hidden out \<and> length out \<le> 2 * length exe + 107"
proof -
  let ?u = "snprintf 160 (ascii ''native'' @ signed_decimal i @ [45] @ stem s)"
  let ?s = "snprintf 96 (?u @ [45] @ decimal (h_pid h) @ ascii ''.obj'')"
  have p: "compiler_temp_path h exe ?s = Inr out" using assms(1) by (simp only: compiler_temp_obj_path_def)
  have "no_sep ?s" by (simp add: snprintf_def no_sep_take no_sep_signed ascii_def)
  moreover have "length ?s \<le> 95" by (simp add: snprintf_def del: take_append)
  ultimately show ?thesis using compiler_temp_path_hidden [OF p assms(2)] compiler_temp_path_length [OF p] by simp
qed

lemma after_delete:
  assumes "dep = None \<or> dep = Some d" "D' = (case dep of None \<Rightarrow> D2 | Some d \<Rightarrow> snd (delete_file h d D2))" "p \<noteq> d"
  shows "D' p = D2 p"
  using assms delete_file_other by auto

lemma compile_step:
  assumes c: "compile_native_source h clang ff run s f i exe D = Inr (r, ob, cached, D')"
    and ok: "base_ok base" "builds_in base h" "request_ok s f" "(s, f) \<in> R" "D \<in> Hs" "clang_writes h clang run obj deps R Hs"
      "clang_reads base ff obj deps R Hs" "length exe < 2 ^ 28"
  shows "(\<forall>role w. role_ok role \<longrightarrow> kept (entry_path base role w) D D'
            \<or> role = stem s \<and> fresh obj deps ff s f D w (entry_path base role w) D')
    \<and> (r = 0 \<longrightarrow> D' ob = Some (obj s f D)
         \<or> (\<exists>w. object_key ff (stem s) s f D = Some w \<and> ob = entry_path base (stem s) w \<and> D' = D \<and> D ob \<noteq> None \<and> native_deps_current h ob D))"
proof -
  have len: "length s < 2 ^ 31" and sep: "is_sep (h_sep h)" using ok(2,3) by (auto simp: request_ok_def builds_in_def)
  obtain role entry where role: "path_without_extension h (path_file_name s) = Inr role"
    and entry: "(if object_cache_disabled h then Inr None else native_object_entry h ff role s f D) = Inr entry"
    using c unfolding compile_native_source_def andthen_Inr by blast
  have role: "path_without_extension h (path_file_name s) = Inr (stem s)" and rs: "role = stem s" using role stem_role [OF role len] by simp_all
  note c = c [unfolded compile_native_source_def role rs [symmetric] andthen_simps entry]
  show ?thesis
  proof (cases entry)
    case None
    obtain out dep D1 where out: "compiler_temp_obj_path h exe (snprintf 160 (ascii ''native'' @ signed_decimal i @ [45] @ stem s)) = Inr out"
      and rc: "run_compile h clang run s f out D = Inr (r, dep, D1)" and D': "ob = out" "D' = (case dep of None \<Rightarrow> D1 | Some d \<Rightarrow> snd (delete_file h d D1))"
      using c rs by (auto simp: None andthen_Inr)
    have h: "hidden out" "hidden (out @ ascii ''.d'')" "length out < 2 ^ 30" using uncached_hidden [OF out sep] hidden_d ok(8) by auto
    note k = run_compile_ok [OF rc ok(6,4,5) h(3)]
    have n: "D' p = D1 p" if "p \<noteq> out @ ascii ''.d''" for p using after_delete [OF k [THEN conjunct1] D'(2) that] .
    have "D' p = D p" if "\<not> hidden p" for p
    proof -
      have "p \<noteq> out" "p \<noteq> out @ ascii ''.d''" using that h by blast+
      then show ?thesis using n k [THEN conjunct2, THEN conjunct1, rule_format] by simp
    qed
    then have "kept (entry_path base role w) D D'" if "role_ok role" for role w
      using entry_not_hidden [OF ok(1) that, of w] by (simp add: kept_def)
    moreover have "r = 0 \<longrightarrow> D' ob = Some (obj s f D)" using k n [of out] D'(1) by (simp add: ascii_def)
    ultimately show ?thesis by blast
  next
    case (Some e)
    then have "native_object_entry h ff (stem s) s f D = Inr (Some e)" using entry rs by (simp split: if_split_asm)
    then obtain w where w: "object_key ff (stem s) s f D = Some w" "e = entry_path base (stem s) w"
      using native_object_entry_path [OF _ ok(2,3)] by blast
    show ?thesis
    proof (cases "file_exists e D \<and> native_deps_current h e D")
      case True
      then have "ob = e" "D' = D" using c by (auto simp: Some)
      then show ?thesis using True w by (auto simp: kept_def file_exists_def)
    next
      case False
      obtain out dep D1 D2 where out: "object_cache_temp_path h e = Inr out" and rc: "run_compile h clang run s f out D = Inr (r, dep, D1)"
        and inst: "(if r = 0 then install_object h (Some e) dep out D1 else Inr (out, False, D1)) = Inr (ob, cached, D2)"
        and D': "D' = (case dep of None \<Rightarrow> D2 | Some d \<Rightarrow> snd (delete_file h d D2))"
        using c [unfolded Some option.case] False by (auto simp: andthen_Inr)
      note m = compile_miss [OF out w(2,1) rc inst ok(1-7)]
      have hd: "hidden (out @ ascii ''.d'')"
        using object_cache_temp [OF ok(1) role_ok_stem [OF ok(3)] _ out [unfolded w(2)]] ok(2) hidden_d by (simp add: builds_in_def)
      have n: "D' p = D2 p" if "p \<noteq> out @ ascii ''.d''" for p
        using after_delete [OF m [THEN conjunct2, THEN conjunct2, THEN conjunct1] D' that] .
      have nh: "D' p = D2 p" if "\<not> hidden p" for p by (rule n) (use hd that in metis)
      have "kept (entry_path base role v) D D' \<or> role = stem s \<and> fresh obj deps ff s f D v (entry_path base role v) D'" if r: "role_ok role" for role v
      proof -
        have same: "D' (entry_path base role v) = D2 (entry_path base role v)" "D' (deps_name (entry_path base role v)) = D2 (deps_name (entry_path base role v))"
          using nh entry_not_hidden [OF ok(1) r, of v] by blast+
        show ?thesis
        proof (cases "e = entry_path base role v")
          case True
          then have "role = stem s" "v = w" using w(2) by (simp_all add: entry_path_inject)
          then show ?thesis using m [THEN conjunct2, THEN conjunct1] same True by (auto simp: kept_def fresh_def)
        next
          case False
          then show ?thesis using entries_kept [OF m [THEN conjunct1] ok(1) r w(2)] same by (simp add: kept_def)
        qed
      qed
      moreover have "r = 0 \<longrightarrow> D' ob = Some (obj s f D)" using m n by auto
      ultimately show ?thesis by blast
    qed
  qed
qed

subsection \<open>A history of builds\<close>

definition entries_sound ::
  "bytes \<Rightarrow> (bytes \<Rightarrow> bytes \<Rightarrow> disk \<Rightarrow> bytes) \<Rightarrow> (bytes \<Rightarrow> bytes \<Rightarrow> disk \<Rightarrow> bytes list) \<Rightarrow> bytes list \<Rightarrow> (bytes \<times> bytes) set \<Rightarrow> disk set \<Rightarrow> disk \<Rightarrow> bool" where
  "entries_sound base obj deps ff R Hs D \<longleftrightarrow>
     (\<forall>role w. role_ok role \<longrightarrow> D (entry_path base role w) \<noteq> None \<longrightarrow> D (deps_name (entry_path base role w)) \<noteq> None
        \<longrightarrow> (\<exists>s f D0. (s, f) \<in> R \<and> D0 \<in> Hs \<and> stem s = role \<and> fresh obj deps ff s f D0 w (entry_path base role w) D))"

lemma cache_run_now: "cache_run H base clang run ff R Hs D \<Longrightarrow> D \<in> Hs"
  by (induction rule: cache_run.induct) simp_all

lemma fresh_kept: "fresh obj deps ff s f D0 w e D \<Longrightarrow> D' e = D e \<Longrightarrow> D' (deps_name e) = D (deps_name e) \<Longrightarrow> fresh obj deps ff s f D0 w e D'"
  by (simp add: fresh_def)

lemma entries_sound_step:
  assumes "entries_sound base obj deps ff R Hs D" "Hs \<subseteq> Hs'"
    "\<And>role w. role_ok role \<Longrightarrow> D' (entry_path base role w) \<noteq> None \<Longrightarrow> D' (deps_name (entry_path base role w)) \<noteq> None
      \<Longrightarrow> kept (entry_path base role w) D D'
        \<or> (\<exists>s f. (s, f) \<in> R \<and> D \<in> Hs' \<and> stem s = role \<and> fresh obj deps ff s f D w (entry_path base role w) D')"
  shows "entries_sound base obj deps ff R Hs' D'"
  unfolding entries_sound_def
proof (intro allI impI)
  fix role w
  let ?e = "entry_path base role w"
  assume r: "role_ok role" and d: "D' ?e \<noteq> None" "D' (deps_name ?e) \<noteq> None"
  from assms(3) [OF this]
  show "\<exists>s f D0. (s, f) \<in> R \<and> D0 \<in> Hs' \<and> stem s = role \<and> fresh obj deps ff s f D0 w ?e D'"
  proof
    assume k: "kept ?e D D'"
    then have "D ?e \<noteq> None" "D (deps_name ?e) \<noteq> None" using d by (simp_all add: kept_def)
    then obtain s f D0 where "(s, f) \<in> R" "D0 \<in> Hs" "stem s = role" "fresh obj deps ff s f D0 w ?e D"
      using assms(1) r unfolding entries_sound_def by blast
    then show ?thesis using fresh_kept [of obj deps ff s f D0 w ?e D D'] k assms(2) unfolding kept_def by blast
  qed blast
qed

lemma cache_run_sound:
  assumes "cache_run H base clang run ff R Hs D"
    and ok: "Hs \<subseteq> Hs0" "requests_ok R" "base_ok base" "\<forall>h \<in> H. builds_in base h \<and> clang_writes h clang run obj deps R Hs0"
      "clang_reads base ff obj deps R Hs0"
  shows "entries_sound base obj deps ff R Hs D"
  using assms(1,2)
proof (induction rule: cache_run.induct)
  case (start D)
  then show ?case by (simp add: entries_sound_def)
next
  case (edit Hs D D')
  have k: "kept (entry_path base role w) D D'" if "role_ok role" "D' (entry_path base role w) \<noteq> None" "D' (deps_name (entry_path base role w)) \<noteq> None" for role w
    using edit.hyps(2) [OF that(1), of w] that(2,3) by (auto simp: kept_def)
  have "entries_sound base obj deps ff R Hs D" using edit.IH edit.prems by blast
  then show ?case by (rule entries_sound_step) (use k in blast)+
next
  case (build Hs D h s f exe i r ob cached D')
  have D: "D \<in> Hs" using build.hyps(1) by (rule cache_run_now)
  have h: "builds_in base h" "clang_writes h clang run obj deps R Hs0" "D \<in> Hs0" using ok(4) build.hyps(2) build.prems D by blast+
  have r: "request_ok s f" using ok(2) build.hyps(3) by (auto simp: requests_ok_def)
  note st = compile_step [OF build.hyps(5) ok(3) h(1) r build.hyps(3) h(3) h(2) ok(5) build.hyps(4), THEN conjunct1, rule_format]
  have "entries_sound base obj deps ff R Hs D" using build.IH build.prems by blast
  then show ?case
  proof (rule entries_sound_step)
    fix role w
    assume "role_ok role"
    from st [OF this, of w] show "kept (entry_path base role w) D D'
        \<or> (\<exists>s f. (s, f) \<in> R \<and> D \<in> insert D' Hs \<and> stem s = role \<and> fresh obj deps ff s f D w (entry_path base role w) D')"
      using D build.hyps(3) by blast
  qed blast
qed

text \<open>C37. The object cache is sound: however many builds, by whatever processes, and edits of sources, headers and
  response files have gone before, a compile that answers 0 names an object that holds what clang would make
  of the source, its headers and the response files as they are on the disk now, whether it ran clang or answered
  from the cache.  The hypotheses say what is asked of the surroundings: renames inside the cache directory
  succeed, no two different texts that were hashed have one hash, no two sources share a stem, and clang's object
  depends on the files it lists.\<close>

theorem object_cache_sound:
  assumes "cache_run H base clang run ff R Hs D"
    and "requests_ok R" and "base_ok base" and "\<forall>h \<in> H. builds_in base h \<and> clang_writes h clang run obj deps R Hs"
    and "clang_reads base ff obj deps R Hs" and "no_collision base R ff Hs"
    and "h \<in> H" and "(source, flags) \<in> R" and "length exe < 2 ^ 28"
    and "compile_native_source h clang ff run source flags i exe D = Inr (0, object, cached, D')"
  shows "D' object = Some (obj source flags D)"
proof -
  have D: "D \<in> Hs" using assms(1) by (rule cache_run_now)
  have ok: "request_ok source flags" using assms(2,8) by (auto simp: requests_ok_def)
  have es: "entries_sound base obj deps ff R Hs D" by (rule cache_run_sound [OF assms(1) subset_refl assms(2-5)])
  consider "D' object = Some (obj source flags D)"
    | w where "object_key ff (stem source) source flags D = Some w" "object = entry_path base (stem source) w" "D' = D" "D object \<noteq> None"
        "native_deps_current h object D"
    using compile_step [OF assms(10,3) _ ok assms(8) D _ assms(5,9)] assms(4,7) by blast
  then show ?thesis
  proof cases
    case 2
    have "D (deps_name object) \<noteq> None" using 2(5) by (auto simp: native_deps_current_def native_deps_path_eq split: option.splits if_split_asm)
    then obtain s f D0 where s: "(s, f) \<in> R" "D0 \<in> Hs" "stem s = stem source" "fresh obj deps ff s f D0 w object D"
      using es role_ok_stem [OF ok] 2(2,4) unfolding entries_sound_def by blast
    have ffo: "\<forall>p \<in> set ff. \<not> prefix base p" using assms(5) by (simp add: clang_reads_def)
    have "object_key ff (stem s) s f D0 = Some w" using s(4) by (simp add: fresh_def)
    from same_key [OF assms(2,6) ffo s(1) assms(8) s(2) D s(3) this 2(1)]
    have k: "source = s" "flags = f" "\<forall>p \<in> set ff. D p = D0 p" by auto
    have g: "good_deps D0 (deps s f D0)" "D (deps_name object) = Some (concat (map (dep_line D0) (deps s f D0)))" "D object = Some (obj s f D0)"
      using s(4) by (auto simp: fresh_def)
    have cur: "\<forall>p \<in> set (deps s f D0). file_content_hash p D = file_content_hash p D0"
      using list_current [of D object D0 "deps s f D0" h] g(1,2) 2(5) by (simp add: good_deps_def)
    have out: "\<forall>p \<in> set (deps s f D0). \<not> prefix base p" using assms(5) s(1,2) unfolding clang_reads_def by blast
    have same: "D p = D0 p" if p: "p \<in> set (deps s f D0)" for p
    proof (rule same_content [OF assms(6) D s(2)])
      show "D0 p \<noteq> None" using g(1) p by (simp add: good_deps_def)
      moreover have "map_option (fnv1a_raw PRISMIO_FNV_OFFSET) (D p) = map_option (fnv1a_raw PRISMIO_FNV_OFFSET) (D0 p)"
        using cur p by (simp add: file_content_hash_eq)
      ultimately show "D p \<noteq> None" by (cases "D p") auto
      show "content_hash D p = content_hash D0 p" "\<not> prefix base p" using cur out p by (simp_all add: content_hash_def)
    qed
    have "\<forall>p \<in> set (deps s f D0) \<union> set ff. D p = D0 p" using k(3) same by blast
    then have "obj s f D = obj s f D0" using assms(5) s(1,2) D unfolding clang_reads_def by blast
    then show ?thesis using g(3) k 2(3) by simp
  qed
qed

subsection \<open>A second build\<close>

lemma calm_simps: "calm h \<Longrightarrow> h_al h n \<and> h_pid h < 2 ^ 31 \<and> h_moves h a b"
  by (simp add: calm_def)

lemma key_readable:
  assumes "D s \<noteq> None" "\<forall>p \<in> set ff. D p \<noteq> None"
  shows "\<exists>w. object_key ff role s f D = Some w"
proof -
  have "hash_flag_files ff D hash \<noteq> None" for hash using assms(2)
    by (induction ff arbitrary: hash) (auto simp: file_content_hash_eq)
  then show ?thesis using assms(1) by (auto simp: object_key_def file_content_hash_eq)
qed

lemma key_same:
  assumes "D2 s = D s" "\<forall>p \<in> set ff. D2 p = D p"
  shows "object_key ff role s f D2 = object_key ff role s f D"
proof -
  have "hash_flag_files ff D2 hash = hash_flag_files ff D hash" for hash using assms(2)
    by (induction ff arbitrary: hash) (auto simp: file_content_hash_eq split: option.splits)
  moreover have "file_content_hash s D2 = file_content_hash s D" using assms(1) by (simp add: file_content_hash_eq)
  ultimately show ?thesis by (simp add: object_key_def split: option.split)
qed

lemma calm_entry:
  assumes "calm h" "builds_in base h" "request_ok s f" "object_key ff (stem s) s f D = Some w"
  shows "native_object_entry h ff (stem s) s f D = Inr (Some (entry_path base (stem s) w))"
proof -
  have "\<exists>dir. object_cache_dir h = Inr dir" using assms(1) by (simp add: object_cache_dir_def Let_def need_def join_path_def calm_def)
  then obtain dir where dir: "object_cache_dir h = Inr dir" by blast
  have "ensure_directory_exists h dir = Inr 0" using assms(1) by (simp add: ensure_directory_exists_def need_def calm_def)
  then obtain e where "native_object_entry h ff (stem s) s f D = Inr (Some e)"
    using assms(1,4) dir by (auto simp: native_object_entry_def object_key_def Let_def join_path_def calm_def split: option.splits)
  then show ?thesis using native_object_entry_path [OF _ assms(2,3)] assms(4) by fastforce
qed

lemma calm_role:
  assumes "calm h" "length s < 2 ^ 31"
  shows "path_without_extension h (path_file_name s) = Inr (stem s)"
proof -
  obtain r where "path_without_extension h (path_file_name s) = Inr r" using assms(1) by (auto simp: path_without_extension_def Let_def need_def calm_def)
  then show ?thesis using stem_role assms(2) by blast
qed

lemma miss_cases:
  assumes "calm h" "builds_in base h" "\<not> object_cache_disabled h" "request_ok s f" "object_key ff (stem s) s f D = Some w"
    "D (entry_path base (stem s) w) = None" "compile_native_source h clang ff run s f i exe D = Inr (r, ob, cached, D')"
  obtains out dep D1 D2 where "object_cache_temp_path h (entry_path base (stem s) w) = Inr out" "run_compile h clang run s f out D = Inr (r, dep, D1)"
    "(if r = 0 then install_object h (Some (entry_path base (stem s) w)) dep out D1 else Inr (out, False, D1)) = Inr (ob, cached, D2)"
    "D' = (case dep of None \<Rightarrow> D2 | Some d \<Rightarrow> snd (delete_file h d D2))"
proof -
  have len: "length s < 2 ^ 31" using assms(4) by (simp add: request_ok_def)
  show thesis
    using assms(3,6,7) that
    unfolding compile_native_source_def calm_role [OF assms(1) len] andthen_simps if_not_P [OF assms(3)] calm_entry [OF assms(1,2,4,5)]
    by (auto simp: andthen_Inr file_exists_def)
qed

lemma calm_install:
  assumes "calm h" "D d = Some (make_rule out items)" "0 \<notin> set out" "items \<noteq> []" "\<forall>i \<in> set items. item_ok i"
    "\<forall>p \<in> snd ` set items. D p \<noteq> None" "D out = Some x" "out \<notin> {[], deps_name e, deps_tmp h e}" "e \<noteq> []"
    "install_object h (Some e) (Some d) out D = Inr (ob, c, D')"
  shows "ob = e \<and> c \<and> D' e = Some x"
proof -
  obtain D1 where r: "native_deps_record h e d D = Inr (0, D1)" using record_succeeds [OF assms(1-6)] by blast
  have "D1 out = Some x" using record_frame [OF r] calm_simps [OF assms(1)] assms(7,8) by auto
  then show ?thesis using assms(8,9,10) calm_simps [OF assms(1)] by (auto simp: install_object_def r fs_rename_def)
qed

text \<open>C38. The object cache saves the second compile: where nothing was cached for a source, a compile that answers 0
  puts its object into the cache, and from then on any process that compiles the same source with the same
  flags, on a disk where the source, the response files, the files clang listed and the entry are as they were,
  is answered with that object; clang does not run, and nothing on the disk changes.\<close>

theorem object_cache_reuses:
  assumes "calm h" and "builds_in base h" and "\<not> object_cache_disabled h" and "calm h2" and "builds_in base h2" and "\<not> object_cache_disabled h2"
    and "base_ok base" and "request_ok source flags"
    and "clang_writes h clang run obj deps {(source, flags)} {D}" and "clang_reads base ff obj deps {(source, flags)} {D}"
    and "\<forall>w. D (entry_path base (stem source) w) = None" and "D source \<noteq> None" and "\<forall>p \<in> set ff \<union> set (deps source flags D). D p \<noteq> None"
    and "compile_native_source h clang ff run source flags i exe D = Inr (0, object, cached, D')"
    and "D2 object = D' object" and "D2 (deps_name object) = D' (deps_name object)"
    and "\<forall>p \<in> insert source (set ff \<union> set (deps source flags D)). D2 p = D p"
  shows "cached \<and> compile_native_source h2 clang2 ff run2 source flags i2 exe2 D2 = Inr (0, object, True, D2)"
proof -
  let ?e = "\<lambda>w. entry_path base (stem source) w"
  have len: "length source < 2 ^ 31" using assms(8) by (simp add: request_ok_def)
  obtain w where w: "object_key ff (stem source) source flags D = Some w" using key_readable assms(12,13) by blast
  have e: "D (?e w) = None" using assms(11) by blast
  obtain out dep D1 D3 where out: "object_cache_temp_path h (?e w) = Inr out" and rc: "run_compile h clang run source flags out D = Inr (0, dep, D1)"
    and inst: "(if (0 :: int) = 0 then install_object h (Some (?e w)) dep out D1 else Inr (out, False, D1)) = Inr (object, cached, D3)"
    and D': "D' = (case dep of None \<Rightarrow> D3 | Some d \<Rightarrow> snd (delete_file h d D3))"
    using miss_cases [OF assms(1,2,3,8) w e assms(14)] .
  have pid: "h_pid h < 2 ^ 31" using calm_simps [OF assms(1)] by blast
  have role: "role_ok (stem source)" by (rule role_ok_stem [OF assms(8)])
  have "0 \<notin> set (stem source)" using assms(8) stem_chars by (auto simp: request_ok_def plain_def)
  then have o: "hidden out" "prefix base out" "0 \<notin> set out" "last out = 106" "length out \<le> length base + length (stem source) + 37"
    using object_cache_temp [OF assms(7) role pid out] by auto
  have "length base < 2 ^ 28" "length (stem source) \<le> 138" using assms(7,8) by (simp_all add: base_ok_def request_ok_def)
  then have lo: "length out < 2 ^ 30" using o(5) by simp
  note rk = run_compile_ok [OF rc assms(9) insertI1 insertI1 lo]
  obtain items where items: "dep = Some (out @ ascii ''.d'')" "D1 out = Some (obj source flags D)" "items \<noteq> []" "\<forall>i \<in> set items. item_ok i"
    "map snd items = deps source flags D" "D1 (out @ ascii ''.d'') = Some (make_rule out items)" using rk by blast
  have po: "prefix base (out @ ascii ''.d'')" using o(2) by (rule prefix_prefix)
  have outside: "\<forall>p \<in> set (deps source flags D). \<not> prefix base p" using assms(10) by (auto simp: clang_reads_def)
  have same: "D1 p = D p" if "p \<in> set (deps source flags D)" for p
    by (rule rk [THEN conjunct2, THEN conjunct1, rule_format]) (use outside that o(2) po in metis)+
  have "set (deps source flags D) = snd ` set items" by (metis items(5) list.set_map)
  then have rd: "\<forall>p \<in> snd ` set items. D1 p \<noteq> None" using same assms(13) by simp
  have nh: "\<not> hidden (?e w)" "\<not> hidden (deps_name (?e w))" using entry_not_hidden [OF assms(7) role] by blast+
  have "out \<notin> {[], deps_name (?e w), deps_tmp h (?e w)}" using o(1,4) nh tmp_last [of h "?e w"] by (auto simp: hidden_def)
  moreover have "?e w \<noteq> []" by (simp add: entry_path_def)
  moreover have "install_object h (Some (?e w)) (Some (out @ ascii ''.d'')) out D1 = Inr (object, cached, D3)" using inst items(1) by simp
  ultimately have ob: "object = ?e w" "cached" "D3 (?e w) = Some (obj source flags D)"
    using calm_install [OF assms(1) items(6) o(3) items(3,4) rd items(2)] by blast+
  have "fresh obj deps ff source flags D w (?e w) D3"
    using compile_miss [OF out refl w rc inst assms(7,2,8) insertI1 insertI1 assms(9,10), THEN conjunct2, THEN conjunct1] e ob(3) by auto
  moreover have "D' p = D3 p" if "\<not> hidden p" for p
    using D' items(1) delete_file_other [of p "out @ ascii ''.d''" h D3] hidden_d [OF o(1)] that by auto
  ultimately have fr: "fresh obj deps ff source flags D w (?e w) D2" using assms(15,16) nh ob(1) by (simp add: fresh_def)
  have "native_deps_current h2 (?e w) D2"
    using list_current [of D2 "?e w" D "deps source flags D" h2] fr assms(17) calm_simps [OF assms(4)]
    by (simp add: fresh_def good_deps_def file_content_hash_eq)
  moreover have "object_key ff (stem source) source flags D2 = Some w" using key_same [of D2 source D ff] assms(17) w by simp
  note e2 = calm_entry [OF assms(4,5,8) this]
  moreover have "file_exists (?e w) D2" using fr by (simp add: file_exists_def fresh_def)
  ultimately show ?thesis
    unfolding compile_native_source_def calm_role [OF assms(4) len] andthen_simps if_not_P [OF assms(6)] e2 using ob(1,2) by simp
qed

subsection \<open>A sample history\<close>

fun unquote :: "bytes \<Rightarrow> bytes" where
  "unquote [] = []"
| "unquote [c] = (if c = 92 then [] else [c])"
| "unquote (c # d # s) = (if c = 92 then d # unquote s else c # unquote (d # s))"

definition sample_obj :: "bytes \<Rightarrow> bytes \<Rightarrow> disk \<Rightarrow> bytes" where
  "sample_obj s f D = 79 # (case D s of None \<Rightarrow> [] | Some c \<Rightarrow> c)"

definition sample_run :: "bytes \<Rightarrow> disk \<Rightarrow> int \<times> disk" where
  "sample_run cmd D =
     (let n = (length cmd - 28) div 2; out = unquote (take n (drop (length cmd - n - 1) cmd))
      in (0, D(out \<mapsto> sample_obj [97] [] D, out @ ascii ''.d'' \<mapsto> make_rule out [([32], [97])])))"

definition sample_base :: bytes where
  "sample_base = ascii ''/tmp/prismio-objcache/''"

definition sample_disk :: disk where
  "sample_disk = [[97] \<mapsto> [1]]"

lemma unquote_shell: "unquote (shell_loop s) = s"
proof (induction s)
  case (Cons c s)
  then show ?case by (cases "shell_loop s") (auto split: if_split_asm)
qed simp

lemma shell_loop_append: "shell_loop (s @ t) = shell_loop s @ shell_loop t"
  by (induction s) simp_all

lemma sample_quote: "length s < 2 ^ 31 \<Longrightarrow> command_quote_arg False (h_al sample_host) s = Inr ([34] @ shell_loop s @ [34])"
  by (simp add: command_quote_arg_def sample_host_def is_int32_def Let_def)

lemma middle: "take (length x) (drop (length p) (p @ x @ y)) = x"
  by simp

lemma sample_writes: "clang_writes sample_host [99] sample_run sample_obj (\<lambda>_ _ _. [[97]]) {([97], [])} Hs"
proof -
  have "sample_run (native_command [99] [] ([34] @ shell_loop (out @ ascii ''.d'') @ [34]) [34, 97, 34] ([34] @ shell_loop out @ [34])) D
      = (0, D(out \<mapsto> sample_obj [97] [] D, out @ ascii ''.d'' \<mapsto> make_rule out [([32], [97])]))" for out D
  proof -
    let ?x = "shell_loop out"
    let ?pre = "[99, 32] @ ascii '' -MD -MF '' @ [34] @ shell_loop (out @ ascii ''.d'') @ [34] @ ascii '' -c '' @ [34, 97, 34] @ ascii '' -o '' @ [34]"
    have cmd: "native_command [99] [] ([34] @ shell_loop (out @ ascii ''.d'') @ [34]) [34, 97, 34] ([34] @ ?x @ [34]) = ?pre @ ?x @ [34]"
      by (simp add: native_command_def)
    have pre: "length ?pre = length ?x + 27" by (simp add: shell_loop_append ascii_def)
    have l: "length (?pre @ ?x @ [34]) = 2 * length ?x + 28" by (simp add: shell_loop_append ascii_def)
    have n: "(length (?pre @ ?x @ [34]) - 28) div 2 = length ?x" "length (?pre @ ?x @ [34]) - length ?x - 1 = length ?pre" unfolding l pre by simp_all
    have x: "take (length ?x) (drop (length ?pre) (?pre @ ?x @ [34])) = ?x" by (rule middle)
    show ?thesis unfolding cmd sample_run_def Let_def n x unquote_shell ..
  qed
  note r = this
  have w: "D'' = D(out \<mapsto> sample_obj [97] [] D, out @ ascii ''.d'' \<mapsto> make_rule out [([32], [97])])"
    if "length out < 2 ^ 30" "command_quote_arg False (h_al sample_host) [97] = Inr q_src" "command_quote_arg False (h_al sample_host) out = Inr q_out"
      "command_quote_arg False (h_al sample_host) (out @ ascii ''.d'') = Inr q_dep" "sample_run (native_command [99] [] q_dep q_src q_out) D = (status, D'')"
    for out q_src q_out q_dep status D D''
  proof -
    have "q_src = [34] @ shell_loop [97] @ [34]" "q_out = [34] @ shell_loop out @ [34]" "q_dep = [34] @ shell_loop (out @ ascii ''.d'') @ [34]"
      using that(1-4) sample_quote [of "[97]"] sample_quote [of out] sample_quote [of "out @ ascii ''.d''"] by (simp_all add: ascii_def)
    moreover have "[34 :: byte] @ shell_loop [97] @ [34] = [34, 97, 34]" by simp
    ultimately show ?thesis using that(5) r [of out D] by (simp only: prod.inject)
  qed
  have i: "item_ok ([32], [97])" by (simp add: item_ok_def)
  have win: "h_windows sample_host = False" by (simp add: sample_host_def)
  have "(\<forall>p. p \<noteq> out \<longrightarrow> p \<noteq> out @ ascii ''.d'' \<longrightarrow> D'' p = D p)
      \<and> (status = 0 \<longrightarrow> D'' out = Some (sample_obj [97] [] D)
         \<and> (\<exists>items. items \<noteq> [] \<and> (\<forall>i \<in> set items. item_ok i) \<and> map snd items = [[97]] \<and> D'' (out @ ascii ''.d'') = Some (make_rule out items)))"
    if "length out < 2 ^ 30" "command_quote_arg False (h_al sample_host) [97] = Inr q_src" "command_quote_arg False (h_al sample_host) out = Inr q_out"
      "command_quote_arg False (h_al sample_host) (out @ ascii ''.d'') = Inr q_dep" "sample_run (native_command [99] [] q_dep q_src q_out) D = (status, D'')"
    for out q_src q_out q_dep status D D''
    unfolding w [OF that] using i by (auto simp: ascii_def intro!: exI [of _ "[([32], [97])]"])
  then show ?thesis unfolding clang_writes_def win Ball_def singleton_iff by blast
qed

lemma calm_compiles:
  assumes "calm h" "builds_in base h" "\<not> object_cache_disabled h" "request_ok s f" "object_key ff (stem s) s f D = Some w"
    "D (entry_path base (stem s) w) = None" "\<And>cmd D. fst (run cmd D) = 0"
  shows "\<exists>ob cached D'. compile_native_source h clang ff run s f i exe D = Inr (0, ob, cached, D')"
proof -
  let ?e = "entry_path base (stem s) w"
  have len: "length s < 2 ^ 31" using assms(4) by (simp add: request_ok_def)
  have al: "h_al h n" for n using calm_simps [OF assms(1)] by blast
  obtain out where out: "object_cache_temp_path h ?e = Inr out" by (simp add: object_cache_temp_path_def Let_def need_def al)
  have "\<exists>D1. run_compile h clang run s f out D = Inr (0, Some (out @ ascii ''.d''), D1)"
    unfolding run_compile_def Let_def command_quote_arg_def using al assms(7) by (simp add: split_beta)
  then obtain D1 where rc: "run_compile h clang run s f out D = Inr (0, Some (out @ ascii ''.d''), D1)" ..
  have "\<exists>p. native_deps_record h ?e (out @ ascii ''.d'') D1 = Inr p"
    unfolding native_deps_record_def native_deps_path_eq Let_def by (simp add: read_file_def need_def al split: option.split)
  then obtain f' D2 where "native_deps_record h ?e (out @ ascii ''.d'') D1 = Inr (f', D2)" by auto
  then have "\<exists>x. install_object h (Some ?e) (Some (out @ ascii ''.d'')) out D1 = Inr x" by (simp add: install_object_def split_beta) metis
  then obtain x where "install_object h (Some ?e) (Some (out @ ascii ''.d'')) out D1 = Inr x" ..
  then show ?thesis
    unfolding compile_native_source_def calm_role [OF assms(1) len] andthen_simps if_not_P [OF assms(3)] calm_entry [OF assms(1,2,4,5)]
    using assms(6) out rc by (cases x) (simp add: file_exists_def)
qed

lemma outside_kept:
  assumes "calm h" "builds_in base h" "\<not> object_cache_disabled h" "request_ok s f" "object_key ff (stem s) s f D = Some w"
    "D (entry_path base (stem s) w) = None" "compile_native_source h clang ff run s f i exe D = Inr (r, ob, cached, D')"
    "base_ok base" "clang_writes h clang run obj deps {(s, f)} {D}" "clang_reads base ff obj deps {(s, f)} {D}" "\<not> prefix base p"
  shows "D' p = D p"
proof -
  let ?e = "entry_path base (stem s) w"
  obtain out dep D1 D2 where m: "object_cache_temp_path h ?e = Inr out" "run_compile h clang run s f out D = Inr (r, dep, D1)"
    "(if r = 0 then install_object h (Some ?e) dep out D1 else Inr (out, False, D1)) = Inr (ob, cached, D2)"
    "D' = (case dep of None \<Rightarrow> D2 | Some d \<Rightarrow> snd (delete_file h d D2))" by (rule miss_cases [OF assms(1-7)])
  note c = compile_miss [OF m(1) refl assms(5) m(2,3) assms(8,2,4) insertI1 insertI1 assms(9,10)]
  have pe: "p \<notin> {?e, deps_name ?e, deps_tmp h ?e}" using assms(11) by (auto simp: entry_path_def deps_name_def deps_tmp_def)
  have "prefix base out" using object_cache_temp [OF assms(8) role_ok_stem [OF assms(4)] _ m(1)] calm_simps [OF assms(1)] by blast
  then have "p \<noteq> out @ ascii ''.d''" using assms(11) prefix_prefix by blast
  then have "D' p = D2 p" using after_delete [OF c [THEN conjunct2, THEN conjunct2, THEN conjunct1] m(4)] by blast
  then show ?thesis using c [THEN conjunct1] pe assms(11) by simp
qed

lemma sample_ok:
  "builds_in sample_base sample_host" "\<not> object_cache_disabled sample_host" "base_ok sample_base" "request_ok [97] []" "stem [97] = [97]"
  "clang_reads sample_base [] sample_obj (\<lambda>_ _ _. [[97]]) {([97], [])} Hs" "\<not> prefix sample_base [97]"
proof -
  show "builds_in sample_base sample_host"
    by (simp add: builds_in_def sample_host_def is_sep_def object_cache_dir_def env_or_def join_path_def Let_def sample_base_def ascii_def)
  show "\<not> object_cache_disabled sample_host" by (simp add: object_cache_disabled_def sample_host_def)
  show "base_ok sample_base" by (simp add: base_ok_def sample_base_def is_sep_def ascii_def)
  show s: "stem [97] = [97]" by (simp add: stem_def strrchr_def)
  then show "request_ok [97] []" by (simp add: request_ok_def plain_def)
  show n: "\<not> prefix sample_base [97]" by (simp add: sample_base_def ascii_def)
  then show "clang_reads sample_base [] sample_obj (\<lambda>_ _ _. [[97]]) {([97], [])} Hs" by (simp add: clang_reads_def sample_obj_def)
qed

lemma sample_entry: "sample_disk (entry_path sample_base [97] w) = None"
  by (simp add: sample_disk_def entry_path_def sample_base_def ascii_def)

text \<open>The first compile of the sample, and the disk it leaves.\<close>

lemma sample_compiles:
  obtains ob cached D' where "compile_native_source sample_host [99] [] sample_run [97] [] 0 [] sample_disk = Inr (0, ob, cached, D')"
    "\<And>p. \<not> prefix sample_base p \<Longrightarrow> D' p = sample_disk p"
proof -
  obtain w where w: "object_key [] (stem [97]) [97] [] sample_disk = Some w"
    using key_readable [of sample_disk "[97]" "[]" "stem [97]" "[]"] by (auto simp: sample_disk_def)
  have e: "sample_disk (entry_path sample_base (stem [97]) w) = None" using sample_entry sample_ok(5) by simp
  have "fst (sample_run cmd D) = 0" for cmd D by (simp add: sample_run_def Let_def)
  then obtain ob cached D' where c: "compile_native_source sample_host [99] [] sample_run [97] [] 0 [] sample_disk = Inr (0, ob, cached, D')"
    using calm_compiles [OF calm_sample sample_ok(1,2,4) w e, of sample_run "[99]" 0 "[]"] by blast
  show thesis
    by (rule that [OF c]) (rule outside_kept [OF calm_sample sample_ok(1,2,4) w e c sample_ok(3) sample_writes sample_ok(6)])
qed

theorem object_cache_reuses_witness:
  "\<exists>ob D'. compile_native_source sample_host [99] [] sample_run [97] [] 0 [] sample_disk = Inr (0, ob, True, D')
     \<and> compile_native_source (sample_host\<lparr>h_pid := 8\<rparr>) [99] [] (\<lambda>_ D. (1, D)) [97] [] 5 [] D' = Inr (0, ob, True, D')"
proof -
  have h2: "calm (sample_host\<lparr>h_pid := 8\<rparr>)" "builds_in sample_base (sample_host\<lparr>h_pid := 8\<rparr>)" "\<not> object_cache_disabled (sample_host\<lparr>h_pid := 8\<rparr>)"
    by (simp_all add: sample_host_def calm_def builds_in_def is_sep_def object_cache_dir_def env_or_def join_path_def Let_def sample_base_def
        ascii_def object_cache_disabled_def)
  obtain ob cached D' where c: "compile_native_source sample_host [99] [] sample_run [97] [] 0 [] sample_disk = Inr (0, ob, cached, D')"
    "\<And>p. \<not> prefix sample_base p \<Longrightarrow> D' p = sample_disk p" by (rule sample_compiles) blast
  have "cached \<and> compile_native_source (sample_host\<lparr>h_pid := 8\<rparr>) [99] [] (\<lambda>_ D. (1, D)) [97] [] 5 [] D' = Inr (0, ob, True, D')"
    by (rule object_cache_reuses [OF calm_sample sample_ok(1,2) h2 sample_ok(3,4) sample_writes sample_ok(6) _ _ _ c(1)])
      (use sample_entry sample_ok(5,7) c(2) in \<open>auto simp: sample_disk_def\<close>)
  then show ?thesis using c(1) by auto
qed

lemma sample_hashes: "fnv1a_raw PRISMIO_FNV_OFFSET ([97] @ [] @ hex16 (fnv1a_raw PRISMIO_FNV_OFFSET [1]) @ []) \<noteq> fnv1a_raw PRISMIO_FNV_OFFSET [1]"
proof -
  have one: "fnv1a_raw PRISMIO_FNV_OFFSET [1] = 4953162257141659110"
    by (simp add: fnv1a_raw_def fnv_step_def PRISMIO_FNV_OFFSET_def PRISMIO_FNV_PRIME_def)
  have "[0..<16] = [0, 1, 2, 3, 4, 5, 6, 7, 8, 9, 10, 11, 12, 13, 14, 15]" by (simp add: upt_rec)
  then have "hex16 4953162257141659110 = [52, 52, 98, 100, 50, 97, 100, 52, 55, 51, 99, 99, 102, 53, 101, 54]" by (simp add: hex16_def hex_digit_def)
  then show ?thesis unfolding one
    by (simp add: fnv1a_raw_def fnv_step_def PRISMIO_FNV_OFFSET_def PRISMIO_FNV_PRIME_def)
qed

theorem object_cache_sound_witness:
  "\<exists>Hs D ob. cache_run {sample_host} sample_base [99] sample_run [] {([97], [])} Hs D
     \<and> compile_native_source sample_host [99] [] sample_run [97] [] 1 [] D = Inr (0, ob, True, D) \<and> D ob = Some [79, 1]"
proof -
  let ?R = "{([97], [])} :: (bytes \<times> bytes) set"
  obtain ob cached D where c: "compile_native_source sample_host [99] [] sample_run [97] [] 0 [] sample_disk = Inr (0, ob, cached, D)"
    "\<And>p. \<not> prefix sample_base p \<Longrightarrow> D p = sample_disk p" by (rule sample_compiles) blast
  let ?Hs = "{D, sample_disk}"
  have "cache_run {sample_host} sample_base [99] sample_run [] ?R {sample_disk} sample_disk"
    by (rule cache_run.start) (simp add: sample_disk_def entry_path_def sample_base_def ascii_def)
  then have run: "cache_run {sample_host} sample_base [99] sample_run [] ?R ?Hs D"
    by (rule cache_run.build [where h = sample_host and source = "[97]" and flags = "[]"]) (use c(1) in simp_all)
  have hit: "compile_native_source sample_host [99] [] sample_run [97] [] 1 [] D = Inr (0, ob, True, D)"
    by (rule object_cache_reuses [OF calm_sample sample_ok(1,2) calm_sample sample_ok(1,2) sample_ok(3,4) sample_writes sample_ok(6) _ _ _ c(1), THEN conjunct2])
      (use sample_entry sample_ok(5,7) c(2) in \<open>auto simp: sample_disk_def\<close>)
  let ?k = "[97] @ [] @ hex16 (fnv1a_raw PRISMIO_FNV_OFFSET [1]) @ []"
  have a: "D' [97] = Some [1]" if "D' \<in> ?Hs" for D'
    using that c(2) [OF sample_ok(7)] by (auto simp: sample_disk_def)
  have k: "key_text [] [97] [] D' = ?k" if "D' \<in> ?Hs" for D'
    using a [OF that] by (simp add: key_text_def sample_ok(5) content_hash_def file_content_hash_eq)
  have x: "x = [1]" if "D' \<in> ?Hs" "\<not> prefix sample_base p" "D' p = Some x" for D' p x
    using that c(2) [OF that(2)] by (auto simp: sample_disk_def split: if_split_asm)
  have "inj_on (fnv1a_raw PRISMIO_FNV_OFFSET) {?k, [1]}" using sample_hashes by (simp only: inj_on_insert inj_on_empty) auto
  then have nc: "no_collision sample_base ?R [] ?Hs"
    unfolding no_collision_def by (rule inj_on_subset) (use k x in blast)
  have "D ob = Some (sample_obj [97] [] D)"
    by (rule object_cache_sound [OF run _ sample_ok(3) _ sample_ok(6) nc _ _ _ hit]) (use sample_ok sample_writes in \<open>auto simp: requests_ok_def\<close>)
  then show ?thesis using run hit c(2) [OF sample_ok(7)] by (auto simp: sample_obj_def sample_disk_def)
qed

end
