(* ===== verification/Module_IR.thy ===== *)
theory Module_IR
  imports Build_Files
begin

text \<open>
  The LLVM module as \<open>runtime/llvm-api-backend.c\<close> sees it when it links and splits programs: functions and
  global variables in their order, each with a name, a linkage and attributes; a body is the list of its
  instructions and an instruction the list of its operands.  An operand is a global value, a constant built
  from operands, or something that names no global.  Blocks, types and the meaning of instructions do not matter
  to the code modelled here.
\<close>

subsection \<open>Definitions\<close>

datatype operand = Global nat | Const "operand list" | Plain

datatype linkage = External_linkage | Available_externally | Internal_linkage | Private_linkage | Appending_linkage | Other_linkage nat

record inst =
  i_call :: bool
  i_ops :: "operand list"

text \<open>Index \<open>- 1\<close> of the attributes is the function's own, \<open>0\<close> its result, \<open>i\<close> its parameter \<open>i\<close>.\<close>

record gvalue =
  g_id :: nat
  g_name :: bytes
  g_link :: linkage
  g_hidden :: bool

record ir_function = gvalue +
  f_body :: "inst list option"
  f_params :: nat
  f_attrs :: "int \<Rightarrow> bytes \<Rightarrow> bytes option"

record ir_global = gvalue +
  v_const :: bool
  v_init :: "operand option"

record ir_module =
  funs :: "ir_function list"
  vars :: "ir_global list"

fun named_in :: "operand \<Rightarrow> nat list" where
  "named_in (Global v) = [v]"
| "named_in (Const ops) = concat (map named_in ops)"
| "named_in Plain = []"

text \<open>The use list of a value: the instruction of a function, or a constant.\<close>

datatype user = In_function nat | In_constant

definition operand_users :: "nat \<Rightarrow> nat \<Rightarrow> operand \<Rightarrow> user list" where
  "operand_users v f op =
     (case op of Global w \<Rightarrow> if w = v then [In_function f] else [] | _ \<Rightarrow> if v \<in> set (named_in op) then [In_constant] else [])"

definition body_of :: "ir_function \<Rightarrow> inst list" where
  "body_of f = (case f_body f of None \<Rightarrow> [] | Some is \<Rightarrow> is)"

definition function_users :: "nat \<Rightarrow> ir_function \<Rightarrow> user list" where
  "function_users v f = concat (map (\<lambda>i. concat (map (operand_users v (g_id f)) (i_ops i))) (body_of f))"

definition global_users :: "nat \<Rightarrow> ir_global \<Rightarrow> user list" where
  "global_users v g = (case v_init g of None \<Rightarrow> [] | Some op \<Rightarrow> if v \<in> set (named_in op) then [In_constant] else [])"

definition users_of :: "ir_module \<Rightarrow> nat \<Rightarrow> user list" where
  "users_of m v = concat (map (function_users v) (funs m)) @ concat (map (global_users v) (vars m))"

definition is_local_linkage :: "linkage \<Rightarrow> bool" where
  "is_local_linkage l \<longleftrightarrow> l = Internal_linkage \<or> l = Private_linkage"

definition set_attr :: "int \<Rightarrow> bytes \<Rightarrow> bytes option \<Rightarrow> ir_function \<Rightarrow> ir_function" where
  "set_attr i key a f = f\<lparr>f_attrs := (f_attrs f)(i := (f_attrs f i)(key := a))\<rparr>"

text \<open>Removing a function that nothing names.\<close>

definition delete_function :: "nat \<Rightarrow> ir_module \<Rightarrow> ir_module" where
  "delete_function v m = m\<lparr>funs := filter (\<lambda>f. g_id f \<noteq> v) (funs m)\<rparr>"

definition fun_ids :: "ir_module \<Rightarrow> nat list" where
  "fun_ids m = map g_id (funs m)"

definition var_ids :: "ir_module \<Rightarrow> nat list" where
  "var_ids m = map g_id (vars m)"

text \<open>Values have identities of their own, and operands name values of the module.\<close>

definition names_known :: "ir_module \<Rightarrow> bool" where
  "names_known m \<longleftrightarrow>
     (\<forall>f \<in> set (funs m). \<forall>i \<in> set (body_of f). \<forall>op \<in> set (i_ops i). set (named_in op) \<subseteq> set (fun_ids m @ var_ids m))
     \<and> (\<forall>g \<in> set (vars m). \<forall>op. v_init g = Some op \<longrightarrow> set (named_in op) \<subseteq> set (fun_ids m @ var_ids m))"

definition module_ok :: "ir_module \<Rightarrow> bool" where
  "module_ok m \<longleftrightarrow> distinct (fun_ids m @ var_ids m) \<and> names_known m"

subsection \<open>Lemmas\<close>

lemma in_operand_users: "u \<in> set (operand_users v f op) \<Longrightarrow> v \<in> set (named_in op) \<and> (u = In_function f \<and> op = Global v \<or> u = In_constant \<and> (\<forall>w. op \<noteq> Global w))"
  by (auto simp: operand_users_def split: operand.splits if_split_asm)

lemma named_operand_users: "v \<in> set (named_in op) \<Longrightarrow> operand_users v f op \<noteq> []"
  by (cases op) (auto simp: operand_users_def)

lemma body_users:
  assumes "f \<in> set (funs m)" "i \<in> set (body_of f)" "op \<in> set (i_ops i)" "v \<in> set (named_in op)"
  shows "In_constant \<in> set (users_of m v) \<or> op = Global v \<and> In_function (g_id f) \<in> set (users_of m v)"
proof -
  obtain u where u: "u \<in> set (operand_users v (g_id f) op)" using named_operand_users [OF assms(4), of "g_id f"] by (meson list.set_sel(1))
  then have "u \<in> set (users_of m v)" using assms(1-3) unfolding users_of_def function_users_def by fastforce
  then show ?thesis using in_operand_users [OF u] by auto
qed

lemma init_users: "g \<in> set (vars m) \<Longrightarrow> v_init g = Some op \<Longrightarrow> v \<in> set (named_in op) \<Longrightarrow> In_constant \<in> set (users_of m v)"
  unfolding users_of_def global_users_def by fastforce


lemma delete_function_same [simp]: "vars (delete_function v m) = vars m" "funs (delete_function v m) = filter (\<lambda>f. g_id f \<noteq> v) (funs m)"
  by (simp_all add: delete_function_def)

text \<open>A declaration uses nothing.\<close>

lemma users_of_delete:
  assumes "\<And>f. f \<in> set (funs m) \<Longrightarrow> g_id f = v \<Longrightarrow> f_body f = None"
  shows "users_of (delete_function v m) w = users_of m w"
proof -
  have "concat (map (function_users w) (filter (\<lambda>f. g_id f \<noteq> v) fs)) = concat (map (function_users w) fs)" if "set fs \<subseteq> set (funs m)" for fs
    using that assms by (induction fs) (auto simp: function_users_def body_of_def)
  then show ?thesis by (simp add: users_of_def)
qed

end
