(* ===== verification/Partition.thy ===== *)
theory Partition
  imports Module_IR
begin

text \<open>
  Splitting a program into partitions that are lowered to machine code by threads of their own
  (\<open>codegen_thread_budget\<close> to \<open>emit_partitioned\<close> of \<open>runtime/llvm-api-backend.c\<close>).  The whole program is optimised as
  one module; every function is then given to one partition, locals that cross a boundary become hidden globals,
  and each thread emits its own functions.  Reading the bitcode back and lowering a module are LLVM's: the
  module a thread hands to it is the result, \<open>lower\<close> says whether it could be lowered.
\<close>

subsection \<open>Definitions\<close>

definition CODEGEN_MIN_PARTITION_INSTRUCTIONS :: nat where "CODEGEN_MIN_PARTITION_INSTRUCTIONS = 5000"
definition CODEGEN_MAX_PARTITIONS :: int where "CODEGEN_MAX_PARTITIONS = 8"

definition partition_key :: bytes where
  "partition_key = ascii ''prismio-partition''"

text \<open>\<open>env\<close> is \<open>PRISMIO_CODEGEN_THREADS\<close>, \<open>atoi\<close> the C library's, \<open>cpus\<close> the processors of the machine.\<close>

definition codegen_thread_budget :: "bytes option \<Rightarrow> (bytes \<Rightarrow> int) \<Rightarrow> int \<Rightarrow> int" where
  "codegen_thread_budget env atoi cpus =
     (case env of
        Some (c # cs) \<Rightarrow> let n = atoi (c # cs) in if n < 1 then 1 else if n > 64 then 64 else n
      | _ \<Rightarrow> let n = (if cpus < 1 then 1 else cpus) in if n > CODEGEN_MAX_PARTITIONS then CODEGEN_MAX_PARTITIONS else n)"

definition function_instruction_count :: "ir_function \<Rightarrow> 32 word" where
  "function_instruction_count f = word_of_nat (length (body_of f))"

definition is_declaration :: "ir_function \<Rightarrow> bool" where
  "is_declaration f \<longleftrightarrow> f_body f = None"

text \<open>\<open>special\<close>: the module has an alias, an ifunc or inline assembly.\<close>

definition codegen_partition_count :: "bytes option \<Rightarrow> (bytes \<Rightarrow> int) \<Rightarrow> int \<Rightarrow> bool \<Rightarrow> ir_module \<Rightarrow> int" where
  "codegen_partition_count env atoi cpus special m =
     (if special then 1
      else let budget = codegen_thread_budget env atoi cpus in
      if budget < 2 then 1
      else let total = fold (\<lambda>f t. t + ucast (function_instruction_count f)) (filter (\<lambda>f. \<not> is_declaration f) (funs m)) (0 :: 64 word);
               parts = unat total div CODEGEN_MIN_PARTITION_INSTRUCTIONS;
               parts = (case env of Some (c # cs) \<Rightarrow> nat budget | _ \<Rightarrow> parts)
           in if parts < 2 then 1 else if parts > nat budget then budget else int parts)"

definition function_partition :: "ir_function \<Rightarrow> int" where
  "function_partition f =
     (case f_attrs f (- 1) partition_key of None \<Rightarrow> - 1
      | Some v \<Rightarrow> foldl (\<lambda>n c. i32 (i32 (n * 10) + (sint c - 48))) 0 v)"

definition set_function_partition :: "int \<Rightarrow> ir_function \<Rightarrow> ir_function" where
  "set_function_partition p f = set_attr (- 1) partition_key (Some (snprintf 16 (decimal (nat p)))) f"

text \<open>Items are the function's identity, its weight and its place in the module.\<close>

type_synonym item = "nat \<times> 32 word \<times> 32 word"

definition partition_item_heavier_first :: "item \<Rightarrow> item \<Rightarrow> int" where
  "partition_item_heavier_first x y =
     (let (_, wx, ox) = x; (_, wy, oy) = y in
      if wx \<noteq> wy then (if wx > wy then - 1 else 1) else if ox < oy then - 1 else if ox > oy then 1 else 0)"

definition partition_items :: "ir_module \<Rightarrow> item list" where
  "partition_items m =
     (let fs = filter (\<lambda>f. \<not> is_declaration f) (funs m) in
      map (\<lambda>(k, f). (g_id f, function_instruction_count f + 1, word_of_nat k)) (zip [0..<length fs] fs))"

text \<open>The first of the lightest partitions, over \<open>load[0..<n]\<close>.\<close>

definition lightest :: "64 word list \<Rightarrow> nat" where
  "lightest load = fold (\<lambda>p best. if load ! p < load ! best then p else best) [1..<length load] 0"

fun give_out :: "item list \<Rightarrow> 64 word list \<Rightarrow> (nat \<rightharpoonup> int) \<Rightarrow> 64 word list \<times> (nat \<rightharpoonup> int)" where
  "give_out [] load owner = (load, owner)"
| "give_out ((f, w, _) # items) load owner =
     (let p = lightest load in give_out items (load[p := load ! p + ucast w]) (owner(f \<mapsto> int p)))"

definition assign_partitions :: "(nat \<Rightarrow> bool) \<Rightarrow> (item list \<Rightarrow> item list) \<Rightarrow> int \<Rightarrow> ir_module \<Rightarrow> ir_module option" where
  "assign_partitions al qsort partitions m =
     (let items = partition_items m in
      if \<not> al (16 * max 1 (length items)) \<or> \<not> al (8 * nat partitions) then None
      else let (_, owner) = give_out (qsort items) (replicate (nat partitions) 0) Map.empty
           in Some (m\<lparr>funs := map (\<lambda>f. case owner (g_id f) of None \<Rightarrow> f | Some p \<Rightarrow> set_function_partition p f) (funs m)\<rparr>))"

definition partition_of :: "ir_module \<Rightarrow> nat \<Rightarrow> int" where
  "partition_of m v = (case find (\<lambda>f. g_id f = v) (funs m) of None \<Rightarrow> - 1 | Some f \<Rightarrow> function_partition f)"

fun users_loop :: "ir_module \<Rightarrow> int \<Rightarrow> user list \<Rightarrow> int" where
  "users_loop m seen [] = seen"
| "users_loop m seen (In_constant # us) = - 2"
| "users_loop m seen (In_function f # us) =
     (let p = partition_of m f in
      if seen = - 1 then users_loop m p us else if seen \<noteq> p then - 2 else users_loop m seen us)"

definition users_partition :: "ir_module \<Rightarrow> nat \<Rightarrow> int" where
  "users_partition m v = users_loop m (- 1) (users_of m v)"

definition promote_to_hidden_global :: "nat \<Rightarrow> 'a gvalue_scheme \<Rightarrow> 'a gvalue_scheme" where
  "promote_to_hidden_global index v =
     v\<lparr>g_name := (if g_name v = [] then snprintf 48 (ascii ''__prismio.part.anon.'' @ decimal index) else g_name v),
       g_link := External_linkage, g_hidden := True\<rparr>"

text \<open>Promotion changes names and linkages, which the use lists do not depend on.\<close>

definition promote_function :: "ir_module \<Rightarrow> nat \<Rightarrow> ir_function \<Rightarrow> ir_function" where
  "promote_function m index f =
     (if is_declaration f \<or> \<not> is_local_linkage (g_link f) then f
      else let users = users_partition m (g_id f) in
           if users = - 1 \<or> users = function_partition f then f else promote_to_hidden_global index f)"

definition promote_variable :: "ir_module \<Rightarrow> nat \<Rightarrow> ir_global \<Rightarrow> ir_global" where
  "promote_variable m index g =
     (if v_init g = None \<or> \<not> is_local_linkage (g_link g) then g
      else if v_const g then g
      else if users_partition m (g_id g) \<ge> - 1 then g
      else promote_to_hidden_global index g)"

definition promote_cross_partition_locals :: "ir_module \<Rightarrow> ir_module" where
  "promote_cross_partition_locals m =
     m\<lparr>funs := map (\<lambda>(k, f). promote_function m k f) (zip [0..<length (funs m)] (funs m)),
       vars := map (\<lambda>(k, g). promote_variable m (length (funs m) + k) g) (zip [0..<length (vars m)] (vars m))\<rparr>"

definition delete_function_body :: "ir_function \<Rightarrow> ir_function" where
  "delete_function_body f = f\<lparr>f_body := None\<rparr>"

definition strip_function :: "int \<Rightarrow> ir_function \<Rightarrow> ir_function" where
  "strip_function p f =
     (let owner = function_partition f; f = set_attr (- 1) partition_key None f in
      if owner < 0 \<or> owner = p then f
      else let f = delete_function_body f in if is_local_linkage (g_link f) then f else f\<lparr>g_link := External_linkage\<rparr>)"

text \<open>Local declarations left behind are deleted, unless one is still used.\<close>

fun drop_local_declarations :: "ir_function list \<Rightarrow> ir_module \<Rightarrow> unit + ir_module" where
  "drop_local_declarations [] m = Inr m"
| "drop_local_declarations (f # fs) m =
     (if is_declaration f \<and> is_local_linkage (g_link f)
      then if users_of m (g_id f) \<noteq> [] then Inl () else drop_local_declarations fs (delete_function (g_id f) m)
      else drop_local_declarations fs m)"

definition strip_variable :: "int \<Rightarrow> ir_global \<Rightarrow> ir_global list" where
  "strip_variable p g =
     (if p \<noteq> 0 \<and> v_init g \<noteq> None \<and> \<not> is_local_linkage (g_link g)
      then if g_link g = Appending_linkage then [] else [g\<lparr>v_init := None, g_link := External_linkage\<rparr>]
      else [g])"

definition emit_one_partition :: "ir_module \<Rightarrow> int \<Rightarrow> unit + ir_module" where
  "emit_one_partition m p =
     (let m = m\<lparr>funs := map (strip_function p) (funs m)\<rparr> in
      case drop_local_declarations (funs m) m of Inl e \<Rightarrow> Inl e
      | Inr m \<Rightarrow> Inr (m\<lparr>vars := concat (map (strip_variable p) (vars m))\<rparr>))"

definition ir_partition_object_path :: "bytes \<Rightarrow> int \<Rightarrow> nat \<Rightarrow> bytes" where
  "ir_partition_object_path obj_path p n =
     snprintf n (if p = 0 then obj_path else obj_path @ ascii ''.p'' @ decimal (nat p) @ ascii ''.o'')"

text \<open>The threads share nothing but the bitcode, so the order they run in does not show: the objects, or the paths
  that are removed when one partition failed.\<close>

definition emit_partitioned ::
  "(nat \<Rightarrow> bool) \<Rightarrow> (item list \<Rightarrow> item list) \<Rightarrow> (ir_module \<Rightarrow> bool) \<Rightarrow> ir_module \<Rightarrow> int \<Rightarrow> bytes \<Rightarrow> bytes list + (bytes \<times> ir_module) list" where
  "emit_partitioned al qsort lower m partitions obj_path =
     (case assign_partitions al qsort partitions m of None \<Rightarrow> Inl []
      | Some m \<Rightarrow>
          let m = promote_cross_partition_locals m;
              jobs = map (\<lambda>p. (ir_partition_object_path obj_path (int p) 1200, emit_one_partition m (int p))) [0..<nat partitions]
          in if \<not> al (1768 * nat partitions) then Inl []
             else if \<exists>(path, r) \<in> set jobs. \<not> (\<exists>m. r = Inr m \<and> lower m) then Inl (map fst jobs)
             else Inr (map (\<lambda>(dest, r). (dest, projr r)) jobs))"

subsection \<open>The attribute that carries the partition\<close>

lemma digit_value: "n < 10 \<Longrightarrow> sint (word_of_nat (48 + n) :: byte) = 48 + int n"
proof -
  have "\<forall>n \<in> set [0..<10]. sint (word_of_nat (48 + n) :: byte) = 48 + int n" by (simp add: upt_rec)
  then show "n < 10 \<Longrightarrow> ?thesis" by simp
qed

lemma decimal_read: "n < 2 ^ 31 \<Longrightarrow> foldl (\<lambda>n c. i32 (i32 (n * 10) + (sint c - 48))) 0 (decimal n) = int n"
proof (induction n rule: decimal.induct)
  case (1 n)
  show ?case
  proof (cases "n < 10")
    case True
    then show ?thesis using digit_value [of n] by (simp add: decimal.simps [of n] is_int32_def)
  next
    case False
    have ih: "foldl (\<lambda>n c. i32 (i32 (n * 10) + (sint c - 48))) 0 (decimal (n div 10)) = int (n div 10)"
      using 1 False by simp
    have d: "sint (word_of_nat (48 + n mod 10) :: byte) = 48 + int (n mod 10)" by (rule digit_value) simp
    have s: "int (n div 10) * 10 + int (n mod 10) = int n" by (simp add: zdiv_int zmod_int mult.commute)
    have "0 \<le> int (n div 10) * 10" "int (n div 10) * 10 \<le> int n" using s by simp_all
    then have r: "is_int32 (int (n div 10) * 10)" "is_int32 (int n)" using 1(2) by (simp_all add: is_int32_def)
    show ?thesis using False by (simp add: decimal.simps [of n] ih d i32_id [OF r(1)] s i32_id [OF r(2)] del: of_nat_add)
  qed
qed

lemma function_partition_set:
  assumes "0 \<le> p" "p < 2 ^ 31"
  shows "function_partition (set_function_partition p f) = p"
proof -
  have "nat p < 10 ^ 10" using assms by simp
  then have "length (decimal (nat p)) \<le> 10" by (rule decimal_length) simp
  then have "snprintf 16 (decimal (nat p)) = decimal (nat p)" by (simp add: snprintf_def)
  then show ?thesis using decimal_read [of "nat p"] assms by (simp add: function_partition_def set_function_partition_def set_attr_def)
qed

lemma set_function_partition_same [simp]:
  "g_id (set_function_partition p f) = g_id f" "f_body (set_function_partition p f) = f_body f"
  "g_link (set_function_partition p f) = g_link f" "g_name (set_function_partition p f) = g_name f"
  by (simp_all add: set_function_partition_def set_attr_def)

subsection \<open>Balance\<close>

lemma lightest_least:
  assumes "load \<noteq> []"
  shows "lightest load < length load \<and> (\<forall>p < length load. load ! lightest load \<le> load ! p)"
proof -
  let ?f = "\<lambda>p best. if load ! p < load ! best then p else best"
  have "fold ?f [1..<k] 0 < max 1 k \<and> (\<forall>p < max 1 k. load ! fold ?f [1..<k] 0 \<le> load ! p)" for k
  proof (induction k)
    case (Suc k)
    show ?case
    proof (cases "k = 0")
      case False
      then show ?thesis using Suc by (force simp: less_Suc_eq not_less)
    qed simp
  qed simp
  from this [of "length load"] show ?thesis using assms by (simp add: lightest_def Suc_le_eq max_def split: if_split_asm)
qed

definition weight :: "ir_function \<Rightarrow> nat" where
  "weight f = unat (function_instruction_count f + 1)"

text \<open>The weights given to partition \<open>p\<close> so far.\<close>

definition given :: "item list \<Rightarrow> (nat \<rightharpoonup> int) \<Rightarrow> nat \<Rightarrow> nat" where
  "given items owner p = sum_list (map (\<lambda>(f, w, _). unat w) (filter (\<lambda>(f, _). owner f = Some (int p)) items))"

lemma given_other: "f \<notin> fst ` set items \<Longrightarrow> given items (owner(f \<mapsto> q)) p = given items owner p"
  by (induction items) (auto simp: given_def)

lemma unat_add_room:
  assumes "unat (a :: 64 word) + unat (w :: 32 word) < 2 ^ 64"
  shows "unat (a + ucast w) = unat a + unat w"
proof -
  have "unat w < 2 ^ LENGTH(32)" by (rule unsigned_less)
  then have "unat w < 2 ^ 64" by simp
  then have "unat (ucast w :: 64 word) = unat w" by (simp add: unsigned_ucast_eq take_bit_nat_eq_self)
  then show ?thesis using assms by (simp add: unat_word_ariths)
qed

lemma give_out_balanced:
  assumes "give_out items load owner = (load', owner')" "load \<noteq> []" "distinct (map fst (past @ items))"
    "\<forall>p < length load. unat (load ! p) = given past owner p"
    "\<forall>p < length load. \<forall>q < length load. given past owner p \<le> given past owner q + W"
    "\<forall>(f, w, _) \<in> set (past @ items). unat w \<le> W"
    "sum_list (map (\<lambda>(f, w, _). unat w) (past @ items)) < 2 ^ 64"
    "\<forall>(f, _) \<in> set past. \<exists>p < length load. owner f = Some (int p)" "dom owner \<subseteq> fst ` set past"
  shows "(\<forall>p < length load. \<forall>q < length load. given (past @ items) owner' p \<le> given (past @ items) owner' q + W)
    \<and> (\<forall>(f, _) \<in> set (past @ items). \<exists>p < length load. owner' f = Some (int p)) \<and> dom owner' \<subseteq> fst ` set (past @ items)"
  using assms
proof (induction items arbitrary: load owner past)
  case Nil
  then show ?case by simp
next
  case (Cons it items)
  obtain f w k where it [simp]: "it = (f, w, k)" by (cases it)
  let ?p = "lightest load"
  let ?load = "load[?p := load ! ?p + ucast w]"
  let ?owner = "owner(f \<mapsto> int ?p)"
  have p: "?p < length load" "\<forall>q < length load. load ! ?p \<le> load ! q" using lightest_least [OF Cons.prems(2)] by auto
  have fd: "f \<notin> fst ` set past" using Cons.prems(3) it by (auto simp: image_iff)
  have g: "given (past @ [it]) ?owner q = given past owner q + (if q = ?p then unat w else 0)" for q
    using given_other [OF fd, of owner "int ?p" q] by (simp add: given_def it)
  have "given past owner ?p \<le> sum_list (map (\<lambda>(f, w, _). unat w) past)"
    unfolding given_def by (induction "past") auto
  then have room: "unat (load ! ?p) + unat w < 2 ^ 64" using Cons.prems(4,7) p(1) it by simp
  have L: "\<forall>q < length load. unat (?load ! q) = given (past @ [it]) ?owner q"
    using Cons.prems(4) g unat_add_room [OF room] p(1) by (simp add: nth_list_update)
  have le: "given past owner ?p \<le> given past owner q" if "q < length load" for q
    using p Cons.prems(4) that by (simp add: word_le_nat_alt)
  have w: "unat w \<le> W" using Cons.prems(6) it by simp
  have B: "\<forall>q < length load. \<forall>r < length load. given (past @ [it]) ?owner q \<le> given (past @ [it]) ?owner r + W"
  proof (intro allI impI)
    fix q r
    assume "q < length load" "r < length load"
    then show "given (past @ [it]) ?owner q \<le> given (past @ [it]) ?owner r + W"
      using Cons.prems(5) [rule_format, of q r] le [of r] w unfolding g by (cases "q = ?p"; cases "r = ?p") simp_all
  qed
  have "give_out items ?load ?owner = (load', owner')" using Cons.prems(1) by (simp add: it Let_def)
  moreover have "?load \<noteq> []" using Cons.prems(2) by simp
  moreover have "\<forall>(f, _) \<in> set (past @ [it]). \<exists>q < length load. ?owner f = Some (int q)"
    using Cons.prems(8) p(1) by (auto simp: it)
  moreover have "dom ?owner \<subseteq> fst ` set (past @ [it])" using Cons.prems(9) by (auto simp: it)
  ultimately show ?case using Cons.IH [of ?load ?owner "past @ [it]"] Cons.prems(3,6,7) L B
    by (simp del: fun_upd_apply)
qed

definition defined :: "ir_module \<Rightarrow> ir_function list" where
  "defined m = filter (\<lambda>f. \<not> is_declaration f) (funs m)"

definition part_load :: "ir_module \<Rightarrow> int \<Rightarrow> nat" where
  "part_load m p = sum_list (map weight (filter (\<lambda>f. function_partition f = p) (defined m)))"

definition owned_by :: "(nat \<rightharpoonup> int) \<Rightarrow> ir_function \<Rightarrow> ir_function" where
  "owned_by owner f = (case owner (g_id f) of None \<Rightarrow> f | Some p \<Rightarrow> set_function_partition p f)"

lemma owned_by_same [simp]:
  "g_id (owned_by owner f) = g_id f" "f_body (owned_by owner f) = f_body f" "g_link (owned_by owner f) = g_link f" "g_name (owned_by owner f) = g_name f"
  by (simp_all add: owned_by_def split: option.split)

lemma same_body: "f_body f = f_body g \<Longrightarrow> is_declaration f = is_declaration g \<and> body_of f = body_of g \<and> weight f = weight g"
  by (simp add: is_declaration_def body_of_def weight_def function_instruction_count_def)

lemma sum_list_mset: "mset xs = mset ys \<Longrightarrow> sum_list (map (h :: 'a \<Rightarrow> nat) xs) = sum_list (map h ys)"
  by (metis mset_map sum_mset_sum_list)

lemma given_mset: "mset xs = mset ys \<Longrightarrow> given xs owner p = given ys owner p"
  unfolding given_def by (rule sum_list_mset) (simp add: mset_filter)

lemma given_pairs: "given items owner p = sum_list (map (\<lambda>(f, w). unat w) (filter (\<lambda>(f, w). owner f = Some (int p)) (map (\<lambda>(f, w, _). (f, w)) items)))"
  unfolding given_def by (induction items) auto

lemma items_pairs: "map (\<lambda>(f, w, _). (f, w)) (partition_items m) = map (\<lambda>f. (g_id f, function_instruction_count f + 1)) (defined m)"
proof -
  let ?fs = "filter (\<lambda>f. \<not> is_declaration f) (funs m)"
  have "map (\<lambda>(f, w, _). (f, w)) (partition_items m) = map ((\<lambda>f. (g_id f, function_instruction_count f + 1)) \<circ> snd) (zip [0..<length ?fs] ?fs)"
    unfolding partition_items_def Let_def by (simp add: case_prod_beta comp_def)
  also have "\<dots> = map (\<lambda>f. (g_id f, function_instruction_count f + 1)) (map snd (zip [0..<length ?fs] ?fs))" by (simp only: map_map)
  finally show ?thesis by (simp add: defined_def)
qed

lemma items_ids: "map fst (partition_items m) = map g_id (defined m)"
  using arg_cong [OF items_pairs [of m], of "map fst"] by (simp add: case_prod_beta comp_def)

lemma items_weights: "map (\<lambda>(f, w, _). unat w) (partition_items m) = map weight (defined m)"
  using arg_cong [OF items_pairs [of m], of "map (\<lambda>(f, w). unat w)"] by (simp add: case_prod_beta' comp_def weight_def [abs_def])

lemma weight_below: "weight f < 2 ^ 32"
proof -
  have "weight f < 2 ^ LENGTH(32)" unfolding weight_def by (rule unsigned_less)
  then show ?thesis by simp
qed

lemma sum_list_below: "(\<And>x. x \<in> set xs \<Longrightarrow> h x \<le> (b :: nat)) \<Longrightarrow> sum_list (map h xs) \<le> length xs * b"
  by (induction xs) (simp_all add: add_mono)

lemma assign_unfold:
  assumes "assign_partitions al qsort n m = Some m'" "0 < n" "distinct (fun_ids m)" "length (funs m) < 2 ^ 32" "\<And>xs. mset (qsort xs) = mset xs"
  obtains owner where "m' = m\<lparr>funs := map (owned_by owner) (funs m)\<rparr>"
    "\<And>f. f \<in> set (defined m) \<Longrightarrow> \<exists>p < nat n. owner (g_id f) = Some (int p)" "dom owner \<subseteq> g_id ` set (defined m)"
    "\<And>W p q. \<forall>f \<in> set (defined m). weight f \<le> W \<Longrightarrow> p < nat n \<Longrightarrow> q < nat n \<Longrightarrow> given (partition_items m) owner p \<le> given (partition_items m) owner q + W"
proof -
  let ?items = "qsort (partition_items m)"
  obtain load owner where g: "give_out ?items (replicate (nat n) 0) Map.empty = (load, owner)" and m': "m' = m\<lparr>funs := map (owned_by owner) (funs m)\<rparr>"
    using assms(1) by (auto simp: assign_partitions_def owned_by_def [abs_def] Let_def split: if_split_asm prod.splits)
  have ms: "mset ?items = mset (partition_items m)" by (rule assms(5))
  then have st: "set ?items = set (partition_items m)" by (rule mset_eq_setD)
  have "distinct (map g_id (defined m))" using assms(3) by (simp add: fun_ids_def defined_def distinct_map_filter)
  then have d: "distinct (map fst ?items)" using ms items_ids [of m] by (metis mset_eq_imp_distinct_iff mset_map)
  have "sum_list (map (\<lambda>(f, w, _). unat w) ?items) = sum_list (map weight (defined m))"
    using sum_list_mset [OF ms] items_weights [of m] by simp
  also have "\<dots> \<le> length (defined m) * 2 ^ 32" using weight_below by (intro sum_list_below) (simp add: less_imp_le)
  also have "\<dots> \<le> length (funs m) * 2 ^ 32" by (simp add: defined_def)
  also have "\<dots> < 2 ^ 32 * 2 ^ 32" using assms(4) by simp
  finally have s: "sum_list (map (\<lambda>(f, w, _). unat w) ?items) < 2 ^ 64" by simp
  have len: "length (replicate (nat n) (0 :: 64 word)) = nat n" "replicate (nat n) (0 :: 64 word) \<noteq> []" using assms(2) by simp_all
  have b: "(\<forall>p < nat n. \<forall>q < nat n. given ?items owner p \<le> given ?items owner q + W)
      \<and> (\<forall>(f, _) \<in> set ?items. \<exists>p < nat n. owner f = Some (int p)) \<and> dom owner \<subseteq> fst ` set ?items"
    if "\<forall>f \<in> set (defined m). weight f \<le> W" for W
  proof -
    have "\<forall>w \<in> set (map (\<lambda>(f, w, _). unat w) (partition_items m)). w \<le> W" unfolding items_weights using that by auto
    then have "\<forall>(f, w, _) \<in> set ?items. unat w \<le> W" unfolding st by auto
    then show ?thesis
      using give_out_balanced [OF g len(2), of "[]" W] d s unfolding len(1) by (simp add: given_def)
  qed
  have ids: "fst ` set ?items = g_id ` set (defined m)" unfolding st by (metis items_ids list.set_map)
  have w32: "\<forall>f \<in> set (defined m). weight f \<le> 2 ^ 32" using weight_below by (simp add: less_imp_le)
  show thesis
  proof (rule that [OF m'])
    show "\<exists>p < nat n. owner (g_id f) = Some (int p)" if "f \<in> set (defined m)" for f
    proof -
      have "g_id f \<in> fst ` set ?items" using that ids by simp
      then show ?thesis using b [OF w32] by fastforce
    qed
    show "dom owner \<subseteq> g_id ` set (defined m)" using b [OF w32] ids by simp
    show "given (partition_items m) owner p \<le> given (partition_items m) owner q + W"
      if "\<forall>f \<in> set (defined m). weight f \<le> W" "p < nat n" "q < nat n" for W p q
      using b [OF that(1)] that(2,3) given_mset [OF ms] by simp
  qed
qed

lemma assign_result:
  assumes "assign_partitions al qsort n m = Some m'" and "0 < n" and "n < 2 ^ 31" and "distinct (fun_ids m)" and "length (funs m) < 2 ^ 32"
    and "\<And>xs. mset (qsort xs) = mset xs" and "\<forall>f \<in> set (funs m). function_partition f = - 1"
  shows "(\<forall>f \<in> set (funs m'). if is_declaration f then function_partition f = - 1 else 0 \<le> function_partition f \<and> function_partition f < n)
    \<and> (\<forall>W p q. (\<forall>f \<in> set (defined m). weight f \<le> W) \<longrightarrow> 0 \<le> p \<and> p < n \<longrightarrow> 0 \<le> q \<and> q < n \<longrightarrow> part_load m' p \<le> part_load m' q + W)"
proof -
  obtain owner where m': "m' = m\<lparr>funs := map (owned_by owner) (funs m)\<rparr>"
    and own: "\<And>f. f \<in> set (defined m) \<Longrightarrow> \<exists>p < nat n. owner (g_id f) = Some (int p)" "dom owner \<subseteq> g_id ` set (defined m)"
    and bal: "\<And>W p q. \<forall>f \<in> set (defined m). weight f \<le> W \<Longrightarrow> p < nat n \<Longrightarrow> q < nat n
      \<Longrightarrow> given (partition_items m) owner p \<le> given (partition_items m) owner q + W"
    by (rule assign_unfold [OF assms(1,2,4,5,6)]) blast
  have part: "function_partition (owned_by owner f) = (case owner (g_id f) of None \<Rightarrow> - 1 | Some p \<Rightarrow> p)" if "f \<in> set (funs m)" for f
  proof (cases "owner (g_id f)")
    case None
    then show ?thesis using assms(7) that by (simp add: owned_by_def)
  next
    case (Some p)
    then obtain f' where "f' \<in> set (defined m)" "g_id f' = g_id f" using own(2) by force
    then obtain k where "k < nat n" "p = int k" using own(1) [of f'] Some by auto
    then show ?thesis using Some function_partition_set [of p f] assms(3) by (simp add: owned_by_def)
  qed
  have none: "owner (g_id f) = None" if "f \<in> set (funs m)" "is_declaration f" for f
  proof (rule ccontr)
    assume "owner (g_id f) \<noteq> None"
    then obtain f' where "f' \<in> set (defined m)" "g_id f' = g_id f" using own(2) by force
    then have "f' = f" using assms(4) that(1) by (auto simp: defined_def fun_ids_def distinct_map inj_on_def)
    then show False using \<open>f' \<in> set (defined m)\<close> that(2) by (simp add: defined_def)
  qed
  have "part_load m' (int p) = given (partition_items m) owner p" if "p < nat n" for p
  proof -
    have "filter (\<lambda>f. function_partition f = int p) (map (owned_by owner) (defined m)) = map (owned_by owner) (filter (\<lambda>f. owner (g_id f) = Some (int p)) (defined m))"
      unfolding filter_map using part by (intro arg_cong [where f = "map _"] filter_cong) (auto simp: defined_def split: option.splits)
    moreover have "defined m' = map (owned_by owner) (defined m)"
      unfolding defined_def m' using same_body [OF owned_by_same(2)] by (simp add: filter_map comp_def)
    ultimately have "part_load m' (int p) = sum_list (map weight (filter (\<lambda>f. owner (g_id f) = Some (int p)) (defined m)))"
      unfolding part_load_def using same_body [OF owned_by_same(2)] by (simp add: comp_def)
    also have "\<dots> = given (partition_items m) owner p"
      unfolding given_pairs items_pairs by (simp add: filter_map comp_def weight_def [abs_def])
    finally show ?thesis .
  qed
  note load = this
  have "part_load m' p \<le> part_load m' q + W" if "\<forall>f \<in> set (defined m). weight f \<le> W" "0 \<le> p \<and> p < n" "0 \<le> q \<and> q < n" for W p q
    using bal [OF that(1), of "nat p" "nat q"] load [of "nat p"] load [of "nat q"] that(2,3) by simp
  moreover have "if is_declaration f then function_partition f = - 1 else 0 \<le> function_partition f \<and> function_partition f < n" if f: "f \<in> set (funs m')" for f
  proof -
    obtain g where g: "g \<in> set (funs m)" "f = owned_by owner g" using f m' by auto
    show ?thesis
    proof (cases "is_declaration g")
      case True
      then show ?thesis using part [OF g(1)] none [OF g(1)] g(2) same_body [OF owned_by_same(2)] by simp
    next
      case False
      then have "g \<in> set (defined m)" using g(1) by (simp add: defined_def)
      then show ?thesis using own(1) [of g] part [OF g(1)] g(2) same_body [OF owned_by_same(2)] False assms(2) by auto
    qed
  qed
  ultimately show ?thesis by blast
qed

text \<open>C40. \<open>assign_partitions\<close> gives every function with a body to one of the partitions and no declaration to any, and
  the loads it leaves are balanced to within one function, whatever permutation the sort of the C library
  returns: no partition has more than the weight of the heaviest function above any other.\<close>

theorem assign_balanced:
  assumes "assign_partitions al qsort n m = Some m'" and "0 < n" and "n < 2 ^ 31" and "distinct (fun_ids m)" and "length (funs m) < 2 ^ 32"
    and "\<And>xs. mset (qsort xs) = mset xs" and "\<forall>f \<in> set (funs m). function_partition f = - 1"
  shows "(\<forall>f \<in> set (funs m'). if is_declaration f then function_partition f = - 1 else 0 \<le> function_partition f \<and> function_partition f < n)
    \<and> (\<forall>W p q. (\<forall>f \<in> set (defined m). weight f \<le> W) \<longrightarrow> 0 \<le> p \<and> p < n \<longrightarrow> 0 \<le> q \<and> q < n \<longrightarrow> part_load m' p \<le> part_load m' q + W)"
  by (rule assign_result [OF assms])

subsection \<open>Splitting and linking\<close>

definition defines_value :: "ir_module \<Rightarrow> nat \<Rightarrow> bool" where
  "defines_value m v \<longleftrightarrow> (\<exists>f \<in> set (funs m). g_id f = v \<and> f_body f \<noteq> None) \<or> (\<exists>g \<in> set (vars m). g_id g = v \<and> v_init g \<noteq> None)"

definition exports_value :: "ir_module \<Rightarrow> nat \<Rightarrow> bool" where
  "exports_value m v \<longleftrightarrow> (\<exists>f \<in> set (funs m). g_id f = v \<and> f_body f \<noteq> None \<and> \<not> is_local_linkage (g_link f))
     \<or> (\<exists>g \<in> set (vars m). g_id g = v \<and> v_init g \<noteq> None \<and> \<not> is_local_linkage (g_link g))"

definition imports_value :: "ir_module \<Rightarrow> nat \<Rightarrow> bool" where
  "imports_value m v \<longleftrightarrow> (\<exists>f \<in> set (funs m). g_id f = v \<and> f_body f = None \<and> \<not> is_local_linkage (g_link f))
     \<or> (\<exists>g \<in> set (vars m). g_id g = v \<and> v_init g = None \<and> \<not> is_local_linkage (g_link g))"

definition mentions :: "ir_module \<Rightarrow> nat set" where
  "mentions m = {v. \<exists>f \<in> set (funs m). \<exists>i \<in> set (body_of f). \<exists>op \<in> set (i_ops i). v \<in> set (named_in op)}
     \<union> {v. \<exists>g \<in> set (vars m). \<exists>op. v_init g = Some op \<and> v \<in> set (named_in op)}"

definition splittable :: "ir_module \<Rightarrow> bool" where
  "splittable m \<longleftrightarrow> module_ok m \<and> length (funs m) < 2 ^ 32 \<and> (\<forall>f \<in> set (funs m). function_partition f = - 1 \<and> (is_declaration f \<longrightarrow> \<not> is_local_linkage (g_link f)))
     \<and> (\<forall>g \<in> set (vars m). g_link g = Appending_linkage \<longrightarrow> g_id g \<notin> mentions m)"

definition split_ok :: "ir_module \<Rightarrow> int \<Rightarrow> bool" where
  "split_ok m n \<longleftrightarrow> distinct (fun_ids m @ var_ids m)
     \<and> (\<forall>f \<in> set (funs m). if is_declaration f then function_partition f = - 1 \<and> \<not> is_local_linkage (g_link f)
          else 0 \<le> function_partition f \<and> function_partition f < n)
     \<and> (\<forall>g \<in> set (vars m). g_link g = Appending_linkage \<longrightarrow> g_id g \<notin> mentions m)"

lemma users_loop_one:
  assumes "users_loop m seen us = r" "r \<noteq> - 2" "\<And>f. In_function f \<in> set us \<Longrightarrow> 0 \<le> partition_of m f"
  shows "In_constant \<notin> set us \<and> (\<forall>f. In_function f \<in> set us \<longrightarrow> partition_of m f = r) \<and> (seen \<noteq> - 1 \<longrightarrow> r = seen)"
  using assms
proof (induction m seen us rule: users_loop.induct)
  case (3 m seen f us)
  have p: "0 \<le> partition_of m f" using "3.prems"(3) by simp
  show ?case
  proof (cases "seen = - 1")
    case True
    then show ?thesis using "3.IH"(1) [OF refl True] "3.prems" p by (auto simp: Let_def)
  next
    case False
    then have "seen = partition_of m f" using "3.prems"(1,2) by (simp add: Let_def split: if_split_asm)
    then show ?thesis using "3.IH"(2) [OF refl False] "3.prems" False by (auto simp: Let_def)
  qed
qed auto

lemma same_id: "distinct (fun_ids m) \<Longrightarrow> f \<in> set (funs m) \<Longrightarrow> g \<in> set (funs m) \<Longrightarrow> g_id f = g_id g \<Longrightarrow> f = g"
  by (auto simp: fun_ids_def distinct_map inj_on_def)

lemma partition_of_member: "distinct (fun_ids m) \<Longrightarrow> f \<in> set (funs m) \<Longrightarrow> partition_of m (g_id f) = function_partition f"
proof -
  assume d: "distinct (fun_ids m)" "f \<in> set (funs m)"
  then obtain g where g: "find (\<lambda>x. g_id x = g_id f) (funs m) = Some g" by (metis (mono_tags, lifting) find_None_iff2 option.exhaust)
  then have "g \<in> set (funs m)" "g_id g = g_id f" by (auto simp: find_Some_iff)
  then have "g = f" using d by (auto simp: fun_ids_def distinct_map inj_on_def)
  then show ?thesis using g by (simp add: partition_of_def)
qed

lemma function_user: "In_function k \<in> set (users_of m v) \<Longrightarrow> \<exists>f \<in> set (funs m). g_id f = k \<and> \<not> is_declaration f"
proof -
  assume a: "In_function k \<in> set (users_of m v)"
  have "In_function k \<notin> set (global_users v g)" for g by (simp add: global_users_def split: option.split)
  then obtain f where f: "f \<in> set (funs m)" "In_function k \<in> set (function_users v f)" using a by (auto simp: users_of_def)
  then obtain i op where i: "i \<in> set (body_of f)" "In_function k \<in> set (operand_users v (g_id f) op)" by (auto simp: function_users_def)
  then have "k = g_id f" using in_operand_users [OF i(2)] by auto
  moreover have "\<not> is_declaration f" using i(1) by (cases "f_body f") (auto simp: is_declaration_def body_of_def)
  ultimately show ?thesis using f(1) by blast
qed

lemma users_one_partition:
  assumes "split_ok m n" "users_partition m v \<noteq> - 2"
  shows "In_constant \<notin> set (users_of m v) \<and> (\<forall>f \<in> set (funs m). In_function (g_id f) \<in> set (users_of m v) \<longrightarrow> function_partition f = users_partition m v)"
proof -
  have d: "distinct (fun_ids m)" using assms(1) by (simp add: split_ok_def)
  have "0 \<le> partition_of m k" if "In_function k \<in> set (users_of m v)" for k
    using function_user [OF that] partition_of_member [OF d] assms(1) by (fastforce simp: split_ok_def)
  from users_loop_one [OF refl _ this, of "- 1"] assms(2) partition_of_member [OF d] show ?thesis
    by (fastforce simp: users_partition_def)
qed

lemma map_zip_same:
  assumes "\<And>k x. h (P k x) = h x"
  shows "map h (map (\<lambda>(k, x). P k x) (zip [0..<length xs] xs)) = map h xs"
proof -
  have "map h (map (\<lambda>(k, x). P k x) (zip [0..<length xs] xs)) = map (\<lambda>kx. h (snd kx)) (zip [0..<length xs] xs)"
    unfolding map_map using assms by (intro map_cong) auto
  also have "\<dots> = map h (map snd (zip [0..<length xs] xs))" by (simp only: map_map comp_def)
  finally show ?thesis by simp
qed

lemma promote_function_same [simp]:
  "g_id (promote_function m k f) = g_id f" "f_body (promote_function m k f) = f_body f" "function_partition (promote_function m k f) = function_partition f"
  by (simp_all add: promote_function_def promote_to_hidden_global_def Let_def function_partition_def)

lemma promote_variable_same [simp]:
  "g_id (promote_variable m k g) = g_id g" "v_init (promote_variable m k g) = v_init g" "v_const (promote_variable m k g) = v_const g"
  by (simp_all add: promote_variable_def promote_to_hidden_global_def)

lemma promoted_fun: "f \<in> set (funs (promote_cross_partition_locals m)) \<Longrightarrow> \<exists>k. \<exists>f1 \<in> set (funs m). f = promote_function m k f1"
  by (force simp: promote_cross_partition_locals_def in_set_zip)

lemma promoted_var: "g \<in> set (vars (promote_cross_partition_locals m)) \<Longrightarrow> \<exists>k. \<exists>g1 \<in> set (vars m). g = promote_variable m k g1"
  by (force simp: promote_cross_partition_locals_def in_set_zip)

lemma promoted_ids: "fun_ids (promote_cross_partition_locals m) = fun_ids m" "var_ids (promote_cross_partition_locals m) = var_ids m"
  unfolding fun_ids_def var_ids_def promote_cross_partition_locals_def by (simp_all del: map_map add: map_zip_same)

lemma function_users_same: "g_id f = g_id f' \<Longrightarrow> f_body f = f_body f' \<Longrightarrow> function_users v f = function_users v f'"
  by (simp add: function_users_def body_of_def)

lemma promoted_users: "users_of (promote_cross_partition_locals m) v = users_of m v"
proof -
  have "map (function_users v) (funs (promote_cross_partition_locals m)) = map (function_users v) (funs m)"
    unfolding promote_cross_partition_locals_def by (simp del: map_map add: map_zip_same function_users_same [OF promote_function_same(1,2)])
  moreover have "map (global_users v) (vars (promote_cross_partition_locals m)) = map (global_users v) (vars m)"
    unfolding promote_cross_partition_locals_def by (simp del: map_map add: map_zip_same global_users_def)
  ultimately show ?thesis by (simp add: users_of_def)
qed

text \<open>What a local that was not promoted can still be used by.\<close>

lemma unpromoted_function:
  assumes "split_ok m n" "f \<in> set (funs (promote_cross_partition_locals m))" "is_local_linkage (g_link f)" "\<not> is_declaration f"
  shows "In_constant \<notin> set (users_of m (g_id f)) \<and> (\<forall>h \<in> set (funs m). In_function (g_id h) \<in> set (users_of m (g_id f)) \<longrightarrow> function_partition h = function_partition f)"
proof -
  obtain k f1 where f1: "f1 \<in> set (funs m)" "f = promote_function m k f1" using promoted_fun [OF assms(2)] by blast
  have nd: "\<not> is_declaration f1" using assms(4) f1(2) by (simp add: is_declaration_def)
  have u: "users_partition m (g_id f1) = - 1 \<or> users_partition m (g_id f1) = function_partition f1"
    using assms(3) nd unfolding f1(2) promote_function_def
    by (auto simp: Let_def promote_to_hidden_global_def is_local_linkage_def split: if_split_asm)
  have own: "0 \<le> function_partition f1" using assms(1) f1(1) nd by (auto simp: split_ok_def)
  have one: "In_constant \<notin> set (users_of m (g_id f1)) \<and> (\<forall>h \<in> set (funs m). In_function (g_id h) \<in> set (users_of m (g_id f1)) \<longrightarrow> function_partition h = users_partition m (g_id f1))"
    using u own by (intro users_one_partition [OF assms(1)]) auto
  have "function_partition h = function_partition f1" if h: "h \<in> set (funs m)" "In_function (g_id h) \<in> set (users_of m (g_id f1))" for h
  proof -
    obtain h' where h': "h' \<in> set (funs m)" "g_id h' = g_id h" "\<not> is_declaration h'" using function_user [OF h(2)] by blast
    then have "h' = h" using h(1) assms(1) by (intro same_id [of m]) (simp_all add: split_ok_def)
    then have "0 \<le> function_partition h" using h'(3) h(1) assms(1) by (auto simp: split_ok_def)
    then show ?thesis using one h u by auto
  qed
  then show ?thesis using one f1(2) by simp
qed

lemma unpromoted_variable:
  assumes "split_ok m n" "g \<in> set (vars (promote_cross_partition_locals m))" "is_local_linkage (g_link g)" "v_init g \<noteq> None" "\<not> v_const g"
  shows "In_constant \<notin> set (users_of m (g_id g))
    \<and> (\<forall>h \<in> set (funs m). \<forall>h' \<in> set (funs m). In_function (g_id h) \<in> set (users_of m (g_id g)) \<longrightarrow> In_function (g_id h') \<in> set (users_of m (g_id g))
         \<longrightarrow> function_partition h = function_partition h')"
proof -
  obtain k g1 where g1: "g1 \<in> set (vars m)" "g = promote_variable m k g1" using promoted_var [OF assms(2)] by blast
  have "v_init g1 \<noteq> None" "\<not> v_const g1" using assms(4,5) g1(2) by simp_all
  then have "users_partition m (g_id g1) \<noteq> - 2"
    using assms(3) unfolding g1(2) promote_variable_def
    by (auto simp: promote_to_hidden_global_def is_local_linkage_def split: if_split_asm)
  from users_one_partition [OF assms(1) this] show ?thesis using g1(2) by simp
qed

lemma strip_function_same [simp]: "g_id (strip_function p f) = g_id f"
  by (simp add: strip_function_def Let_def set_attr_def delete_function_body_def)

lemma strip_keeps: "function_partition f < 0 \<or> function_partition f = p \<Longrightarrow> f_body (strip_function p f) = f_body f \<and> g_link (strip_function p f) = g_link f"
  by (simp add: strip_function_def Let_def set_attr_def)

lemma strip_drops:
  assumes "0 \<le> function_partition f" "function_partition f \<noteq> p"
  shows "f_body (strip_function p f) = None \<and> g_link (strip_function p f) = (if is_local_linkage (g_link f) then g_link f else External_linkage)"
  using assms by (simp add: strip_function_def Let_def set_attr_def delete_function_body_def)

lemma declaration_users: "is_declaration f \<Longrightarrow> function_users v f = []"
  by (simp add: function_users_def body_of_def is_declaration_def)

lemma drop_declarations:
  assumes "\<forall>f \<in> set fs. is_declaration f \<and> is_local_linkage (g_link f) \<longrightarrow> users_of m (g_id f) = [] \<and> (\<forall>g \<in> set (funs m). g_id g = g_id f \<longrightarrow> is_declaration g)"
  shows "\<exists>m'. drop_local_declarations fs m = Inr m' \<and> vars m' = vars m
    \<and> set (funs m') = {g \<in> set (funs m). \<forall>f \<in> set fs. is_declaration f \<and> is_local_linkage (g_link f) \<longrightarrow> g_id g \<noteq> g_id f}"
  using assms
proof (induction fs arbitrary: m)
  case (Cons f fs)
  show ?case
  proof (cases "is_declaration f \<and> is_local_linkage (g_link f)")
    case True
    let ?m = "delete_function (g_id f) m"
    have u: "users_of ?m v = users_of m v" for v
    proof (rule users_of_delete)
      show "f_body g = None" if "g \<in> set (funs m)" "g_id g = g_id f" for g using Cons.prems True that by (simp add: is_declaration_def)
    qed
    have "\<forall>g \<in> set fs. is_declaration g \<and> is_local_linkage (g_link g) \<longrightarrow> users_of ?m (g_id g) = [] \<and> (\<forall>h \<in> set (funs ?m). g_id h = g_id g \<longrightarrow> is_declaration h)"
    proof (intro ballI impI conjI)
      fix g assume g: "g \<in> set fs" "is_declaration g \<and> is_local_linkage (g_link g)"
      then have p: "users_of m (g_id g) = [] \<and> (\<forall>h \<in> set (funs m). g_id h = g_id g \<longrightarrow> is_declaration h)" by (intro Cons.prems [rule_format]) simp_all
      then show "users_of ?m (g_id g) = []" unfolding u by (rule conjunct1)
      show "is_declaration h" if "h \<in> set (funs ?m)" "g_id h = g_id g" for h using p that by simp
    qed
    from Cons.IH [OF this] obtain m' where m': "drop_local_declarations fs ?m = Inr m'" "vars m' = vars ?m"
      "set (funs m') = {g \<in> set (funs ?m). \<forall>f \<in> set fs. is_declaration f \<and> is_local_linkage (g_link f) \<longrightarrow> g_id g \<noteq> g_id f}" by blast
    have "drop_local_declarations (f # fs) m = Inr m'" using True Cons.prems m'(1) by simp
    moreover have "set (funs m') = {g \<in> set (funs m). \<forall>f \<in> set (f # fs). is_declaration f \<and> is_local_linkage (g_link f) \<longrightarrow> g_id g \<noteq> g_id f}"
      unfolding m'(3) using True by simp
    ultimately show ?thesis using m'(2) by simp
  next
    case False
    then have e: "drop_local_declarations (f # fs) m = drop_local_declarations fs m" unfolding drop_local_declarations.simps by (rule if_not_P)
    have ball: "(\<forall>g \<in> set (f # fs). is_declaration g \<and> is_local_linkage (g_link g) \<longrightarrow> Q g) \<longleftrightarrow> (\<forall>g \<in> set fs. is_declaration g \<and> is_local_linkage (g_link g) \<longrightarrow> Q g)" for Q
      using False by auto
    show ?thesis unfolding e ball by (rule Cons.IH [OF Cons.prems [unfolded ball]])
  qed
qed simp

definition part_funs :: "ir_module \<Rightarrow> int \<Rightarrow> ir_function set" where
  "part_funs m p = {f \<in> strip_function p ` set (funs m). \<not> (is_declaration f \<and> is_local_linkage (g_link f))}"

lemma split_ids:
  assumes "split_ok m n"
  shows "distinct (fun_ids (promote_cross_partition_locals m))" "distinct (map g_id (map (strip_function p) (funs (promote_cross_partition_locals m))))"
proof -
  show d: "distinct (fun_ids (promote_cross_partition_locals m))" using assms by (simp add: promoted_ids split_ok_def)
  have "map g_id (map (strip_function p) (funs (promote_cross_partition_locals m))) = fun_ids (promote_cross_partition_locals m)"
    by (simp add: fun_ids_def comp_def)
  then show "distinct (map g_id (map (strip_function p) (funs (promote_cross_partition_locals m))))" using d by simp
qed

lemma user_of_body: "In_function (g_id f) \<in> set (function_users v f) \<Longrightarrow> f \<in> set (funs m) \<Longrightarrow> In_function (g_id f) \<in> set (users_of m v)"
  by (auto simp: users_of_def)

text \<open>The thread of partition \<open>p\<close> finds no local declaration that is still used.\<close>

lemma emit_succeeds:
  assumes "split_ok m n"
  shows "\<exists>mp. emit_one_partition (promote_cross_partition_locals m) p = Inr mp \<and> set (funs mp) = part_funs (promote_cross_partition_locals m) p
    \<and> vars mp = concat (map (strip_variable p) (vars (promote_cross_partition_locals m)))"
proof -
  let ?M = "promote_cross_partition_locals m"
  let ?S = "?M\<lparr>funs := map (strip_function p) (funs ?M)\<rparr>"
  have unused: "users_of ?S (g_id f) = []" if f: "f \<in> set (funs ?S)" "is_declaration f" "is_local_linkage (g_link f)" for f
  proof -
    obtain f2 where f2: "f2 \<in> set (funs ?M)" "f = strip_function p f2" using f(1) by auto
    obtain k f1 where f1: "f1 \<in> set (funs m)" "f2 = promote_function m k f1" using promoted_fun [OF f2(1)] by blast
    have part: "function_partition f2 \<noteq> p \<and> 0 \<le> function_partition f2"
    proof (rule ccontr)
      assume "\<not> ?thesis"
      then have "function_partition f2 < 0 \<or> function_partition f2 = p" by auto
      from strip_keeps [OF this] have "f_body f2 = None" "is_local_linkage (g_link f2)" using f(2,3) f2(2) by (simp_all add: is_declaration_def)
      then have d1: "is_declaration f1" using f1(2) by (simp add: is_declaration_def)
      then have "f2 = f1" using f1(2) by (simp add: promote_function_def)
      then have "is_declaration f1" "is_local_linkage (g_link f1)" using d1 \<open>is_local_linkage (g_link f2)\<close> by simp_all
      then show False using assms f1(1) by (auto simp: split_ok_def)
    qed
    have nd: "\<not> is_declaration f2"
    proof
      assume "is_declaration f2"
      then have "is_declaration f1" using f1(2) by (simp add: is_declaration_def)
      then show False using assms f1 part by (fastforce simp: split_ok_def)
    qed
    have loc: "is_local_linkage (g_link f2)" using strip_drops [of f2 p] part f(3) f2(2) by (auto simp: is_local_linkage_def split: if_split_asm)
    note one = unpromoted_function [OF assms f2(1) loc nd]
    show ?thesis
    proof (rule ccontr)
      assume "users_of ?S (g_id f) \<noteq> []"
      then obtain u where u: "u \<in> set (users_of ?S (g_id f))" by (meson list.set_sel(1))
      then consider h2 where "h2 \<in> set (funs ?M)" "u \<in> set (function_users (g_id f) (strip_function p h2))"
        | g where "g \<in> set (vars ?M)" "u \<in> set (global_users (g_id f) g)" by (auto simp: users_of_def)
      then show False
      proof cases
        case 1
        have keep: "function_partition h2 < 0 \<or> function_partition h2 = p"
        proof (rule ccontr)
          assume "\<not> ?thesis"
          then have "is_declaration (strip_function p h2)" using strip_drops [of h2 p] by (simp add: is_declaration_def)
          then show False using declaration_users 1(2) by simp
        qed
        then have same: "function_users (g_id f) (strip_function p h2) = function_users (g_id f) h2"
          using strip_keeps by (intro function_users_same) simp_all
        then have "u \<in> set (users_of ?M (g_id f))" using 1 by (auto simp: users_of_def)
        then have um: "u \<in> set (users_of m (g_id f))" by (simp only: promoted_users)
        obtain k h where h: "h \<in> set (funs m)" "h2 = promote_function m k h" using promoted_fun [OF 1(1)] by blast
        have "u = In_constant \<or> u = In_function (g_id h)" using 1(2) same h(2) by (auto simp: function_users_def dest!: in_operand_users)
        moreover have "u \<noteq> In_constant" using one um f2(2) by auto
        ultimately have uh: "u = In_function (g_id h)" by blast
        then have "function_partition h = function_partition f2" using one um h(1) f2(2) by auto
        then show False using keep part h(2) by auto
      next
        case 2
        then have "u = In_constant" by (auto simp: global_users_def split: option.splits if_split_asm)
        moreover have "u \<in> set (users_of ?M (g_id f))" using 2 by (auto simp: users_of_def)
        then have "u \<in> set (users_of m (g_id f))" by (simp only: promoted_users)
        ultimately show False using one f2(2) by simp
      qed
    qed
  qed
  have same: "g = f" if "f \<in> set (funs ?S)" "g \<in> set (funs ?S)" "g_id g = g_id f" for f g
    using split_ids(2) [OF assms, of p] that unfolding distinct_map [of g_id] by (auto dest: inj_onD)
  then have "\<forall>f \<in> set (funs ?S). is_declaration f \<and> is_local_linkage (g_link f) \<longrightarrow> users_of ?S (g_id f) = []
      \<and> (\<forall>g \<in> set (funs ?S). g_id g = g_id f \<longrightarrow> is_declaration g)" using unused by blast
  from drop_declarations [OF this] obtain m' where m': "drop_local_declarations (funs ?S) ?S = Inr m'" "vars m' = vars ?S"
    "set (funs m') = {g \<in> set (funs ?S). \<forall>f \<in> set (funs ?S). is_declaration f \<and> is_local_linkage (g_link f) \<longrightarrow> g_id g \<noteq> g_id f}" by blast
  have "set (funs m') = {f \<in> set (funs ?S). \<not> (is_declaration f \<and> is_local_linkage (g_link f))}" unfolding m'(3) using same by blast
  then have "set (funs m') = part_funs ?M p" unfolding part_funs_def by simp
  then show ?thesis using m'(1,2) by (simp add: emit_one_partition_def Let_def)
qed

definition parts_of :: "ir_module \<Rightarrow> (int \<Rightarrow> ir_module) \<Rightarrow> bool" where
  "parts_of M P \<longleftrightarrow> (\<forall>p. set (funs (P p)) = part_funs M p \<and> vars (P p) = concat (map (strip_variable p) (vars M)))"

lemma part_function:
  assumes "parts_of M P" "f2 \<in> set (funs M)" "0 \<le> function_partition f2" "\<not> is_declaration f2"
  shows "strip_function (function_partition f2) f2 \<in> set (funs (P (function_partition f2)))"
    "f_body (strip_function (function_partition f2) f2) = f_body f2" "g_link (strip_function (function_partition f2) f2) = g_link f2"
  using assms strip_keeps [of f2 "function_partition f2"] by (auto simp: parts_of_def part_funs_def is_declaration_def)

lemma part_function_id:
  assumes "parts_of M P" "distinct (fun_ids M @ var_ids M)" "f2 \<in> set (funs M)" "f \<in> set (funs (P q))" "g_id f = g_id f2"
  shows "f = strip_function q f2"
proof -
  obtain h where h: "h \<in> set (funs M)" "f = strip_function q h" using assms(1,4) by (auto simp: parts_of_def part_funs_def)
  then have "h = f2" using assms(2,3,5) by (intro same_id [of M]) auto
  then show ?thesis using h by simp
qed

lemma stripped_variable: "g \<in> set (strip_variable p h) \<Longrightarrow> g_id g = g_id h"
  by (auto simp: strip_variable_def split: if_split_asm)

lemma part_variable_id:
  assumes "parts_of M P" "distinct (fun_ids M @ var_ids M)" "g2 \<in> set (vars M)" "g \<in> set (vars (P q))" "g_id g = g_id g2"
  shows "g \<in> set (strip_variable q g2)"
proof -
  obtain h where h: "h \<in> set (vars M)" "g \<in> set (strip_variable q h)" using assms(1,4) by (auto simp: parts_of_def)
  then have "g_id h = g_id g2" using stripped_variable assms(5) by metis
  then have "h = g2" using assms(2,3) h(1) by (auto simp: var_ids_def distinct_map inj_on_def)
  then show ?thesis using h by simp
qed

lemma part_ids_apart:
  assumes "parts_of M P" "distinct (fun_ids M @ var_ids M)" "f \<in> set (funs (P q))" "g \<in> set (vars (P q))"
  shows "g_id f \<noteq> g_id g"
proof -
  obtain h where "h \<in> set (funs M)" "g_id f = g_id h" using assms(1,3) by (auto simp: parts_of_def part_funs_def)
  moreover obtain k where "k \<in> set (vars M)" "g_id g = g_id k" using assms(1,4) stripped_variable by (fastforce simp: parts_of_def)
  ultimately show ?thesis using assms(2) by (auto simp: fun_ids_def var_ids_def)
qed

lemma fun_var_apart: "distinct (fun_ids M @ var_ids M) \<Longrightarrow> f \<in> set (funs M) \<Longrightarrow> g \<in> set (vars M) \<Longrightarrow> g_id f \<noteq> g_id g"
  by (auto simp: fun_ids_def var_ids_def)

lemma part_var_origin: "parts_of M P \<Longrightarrow> g \<in> set (vars (P q)) \<Longrightarrow> \<exists>h \<in> set (vars M). g_id g = g_id h"
  using stripped_variable by (fastforce simp: parts_of_def)

lemma part_fun_origin: "parts_of M P \<Longrightarrow> f \<in> set (funs (P q)) \<Longrightarrow> \<exists>h \<in> set (funs M). g_id f = g_id h"
  by (auto simp: parts_of_def part_funs_def)

lemma exports_function:
  assumes "parts_of M P" "distinct (fun_ids M @ var_ids M)" "f2 \<in> set (funs M)" "0 \<le> function_partition f2" "\<not> is_declaration f2" "\<not> is_local_linkage (g_link f2)"
  shows "exports_value (P q) (g_id f2) \<longleftrightarrow> q = function_partition f2"
proof
  assume "exports_value (P q) (g_id f2)"
  then consider f where "f \<in> set (funs (P q))" "g_id f = g_id f2" "f_body f \<noteq> None" | g where "g \<in> set (vars (P q))" "g_id g = g_id f2"
    by (auto simp: exports_value_def)
  then show "q = function_partition f2"
  proof cases
    case 1
    then have "f_body (strip_function q f2) \<noteq> None" using part_function_id [OF assms(1-3)] by blast
    then show ?thesis using strip_drops [of f2 q] assms(4) by (cases "function_partition f2 = q") auto
  next
    case 2
    then show ?thesis using part_var_origin [OF assms(1)] fun_var_apart [OF assms(2,3)] by metis
  qed
next
  assume q: "q = function_partition f2"
  note pf = part_function [OF assms(1,3,4,5)]
  then have "f_body (strip_function q f2) \<noteq> None" "\<not> is_local_linkage (g_link (strip_function q f2))" using q assms(5,6) by (simp_all add: is_declaration_def)
  then show "exports_value (P q) (g_id f2)" using pf(1) q unfolding exports_value_def by (intro disjI1 bexI [of _ "strip_function q f2"]) simp_all
qed

lemma exports_variable:
  assumes "parts_of M P" "distinct (fun_ids M @ var_ids M)" "g2 \<in> set (vars M)" "v_init g2 \<noteq> None" "\<not> is_local_linkage (g_link g2)"
  shows "exports_value (P q) (g_id g2) \<longleftrightarrow> q = 0"
proof
  assume "exports_value (P q) (g_id g2)"
  then consider g where "g \<in> set (vars (P q))" "g_id g = g_id g2" "v_init g \<noteq> None" | f where "f \<in> set (funs (P q))" "g_id f = g_id g2"
    by (auto simp: exports_value_def)
  then show "q = 0"
  proof cases
    case 1
    then have "g \<in> set (strip_variable q g2)" using part_variable_id [OF assms(1-3)] by blast
    then show ?thesis using assms(4,5) 1(3) by (auto simp: strip_variable_def split: if_split_asm)
  next
    case 2
    then show ?thesis using part_fun_origin [OF assms(1)] fun_var_apart [OF assms(2) _ assms(3)] by metis
  qed
next
  assume q: "q = 0"
  have "g2 \<in> set (strip_variable 0 g2)" by (simp add: strip_variable_def)
  then have "g2 \<in> set (vars (P 0))" using assms(1,3) by (auto simp: parts_of_def)
  then show "exports_value (P q) (g_id g2)" using q assms(4,5) unfolding exports_value_def by blast
qed

lemma part_mention:
  assumes "split_ok m n" "parts_of (promote_cross_partition_locals m) P" "v \<in> mentions (P p)"
  shows "In_constant \<in> set (users_of m v) \<or> (\<exists>h \<in> set (funs m). function_partition h = p \<and> In_function (g_id h) \<in> set (users_of m v))"
proof -
  let ?M = "promote_cross_partition_locals m"
  consider f i op where "f \<in> set (funs (P p))" "i \<in> set (body_of f)" "op \<in> set (i_ops i)" "v \<in> set (named_in op)"
    | g op where "g \<in> set (vars (P p))" "v_init g = Some op" "v \<in> set (named_in op)"
    using assms(3) by (auto simp: mentions_def)
  then show ?thesis
  proof cases
    case 1
    then obtain h2 where h2: "h2 \<in> set (funs ?M)" "f = strip_function p h2" using assms(2) by (auto simp: parts_of_def part_funs_def)
    obtain k h where h: "h \<in> set (funs m)" "h2 = promote_function m k h" using promoted_fun [OF h2(1)] by blast
    have keep: "function_partition h2 < 0 \<or> function_partition h2 = p"
    proof (rule ccontr)
      assume "\<not> ?thesis"
      then have "f_body f = None" using strip_drops [of h2 p] h2(2) by simp
      then show False using 1(2) by (simp add: body_of_def)
    qed
    have b: "body_of f = body_of h" using strip_keeps [OF keep] h2(2) h(2) by (simp add: body_of_def)
    have "\<not> is_declaration h" using 1(2) unfolding b by (cases "f_body h") (auto simp: body_of_def is_declaration_def)
    then have "function_partition h = p" using keep h assms(1) by (auto simp: split_ok_def)
    then show ?thesis using body_users [OF h(1), of i op v] 1(2-4) b h(1) by auto
  next
    case 2
    then obtain g2 where g2: "g2 \<in> set (vars ?M)" "g \<in> set (strip_variable p g2)" using assms(2) by (auto simp: parts_of_def)
    obtain k g1 where g1: "g1 \<in> set (vars m)" "g2 = promote_variable m k g1" using promoted_var [OF g2(1)] by blast
    have "v_init g1 = Some op" using g2(2) g1(2) 2(2) by (auto simp: strip_variable_def split: if_split_asm)
    then show ?thesis using init_users [OF g1(1)] 2(3) by blast
  qed
qed

lemma users_mention: "users_of m v \<noteq> [] \<Longrightarrow> v \<in> mentions m"
proof -
  assume "users_of m v \<noteq> []"
  then obtain u where "u \<in> set (users_of m v)" by (meson list.set_sel(1))
  then consider f i op where "f \<in> set (funs m)" "i \<in> set (body_of f)" "op \<in> set (i_ops i)" "u \<in> set (operand_users v (g_id f) op)"
    | g where "g \<in> set (vars m)" "u \<in> set (global_users v g)" by (auto simp: users_of_def function_users_def)
  then show ?thesis
  proof cases
    case 1
    then show ?thesis using in_operand_users [OF 1(4)] unfolding mentions_def by blast
  next
    case 2
    then show ?thesis unfolding mentions_def global_users_def by (auto split: option.splits if_split_asm)
  qed
qed

lemma split_links:
  assumes s: "split_ok m n" "0 < n" and P: "parts_of (promote_cross_partition_locals m) P" and v: "v \<in> mentions (P p)" "defines_value m v"
  shows "defines_value (P p) v \<or> imports_value (P p) v \<and> (\<exists>!q. 0 \<le> q \<and> q < n \<and> exports_value (P q) v)"
proof -
  let ?M = "promote_cross_partition_locals m"
  have d: "distinct (fun_ids ?M @ var_ids ?M)" using s(1) by (simp add: promoted_ids split_ok_def)
  note m = part_mention [OF s(1) P v(1)]
  consider f1 where "f1 \<in> set (funs m)" "g_id f1 = v" "f_body f1 \<noteq> None" | g1 where "g1 \<in> set (vars m)" "g_id g1 = v" "v_init g1 \<noteq> None"
    using v(2) by (auto simp: defines_value_def)
  then show ?thesis
  proof cases
    case 1
    then obtain k where f2: "promote_function m k f1 \<in> set (funs ?M)" by (force simp: promote_cross_partition_locals_def in_set_conv_nth set_zip)
    let ?f = "promote_function m k f1"
    have nd: "\<not> is_declaration ?f" using 1(3) by (simp add: is_declaration_def)
    have q: "0 \<le> function_partition ?f" "function_partition ?f < n" using s(1) 1 by (auto simp: split_ok_def is_declaration_def)
    show ?thesis
    proof (cases "function_partition ?f = p")
      case True
      note pf = part_function [OF P f2 q(1) nd]
      have "f_body (strip_function p ?f) \<noteq> None" using pf(2) True 1(3) by simp
      then have "defines_value (P p) v" using pf(1) True 1(2) unfolding defines_value_def by (intro disjI1 bexI [of _ "strip_function p ?f"]) simp_all
      then show ?thesis ..
    next
      case False
      have nl: "\<not> is_local_linkage (g_link ?f)"
      proof
        assume "is_local_linkage (g_link ?f)"
        from unpromoted_function [OF s(1) f2 this nd] m show False using False 1(2) by auto
      qed
      note sd = strip_drops [OF q(1) False]
      have "strip_function p ?f \<in> part_funs ?M p" using f2 sd nl by (auto simp: part_funs_def is_local_linkage_def)
      then have "imports_value (P p) v" using P sd nl 1(2) unfolding imports_value_def parts_of_def
        by (intro disjI1 bexI [of _ "strip_function p ?f"]) (simp_all add: is_local_linkage_def)
      moreover have "\<exists>!q. 0 \<le> q \<and> q < n \<and> exports_value (P q) v"
        using exports_function [OF P d f2 q(1) nd nl] q 1(2) by auto
      ultimately show ?thesis by blast
    qed
  next
    case 2
    then obtain k where g2: "promote_variable m k g1 \<in> set (vars ?M)" by (force simp: promote_cross_partition_locals_def in_set_conv_nth set_zip)
    let ?g = "promote_variable m k g1"
    have ini: "v_init ?g \<noteq> None" using 2(3) by simp
    show ?thesis
    proof (cases "is_local_linkage (g_link ?g) \<or> p = 0")
      case True
      then have "?g \<in> set (strip_variable p ?g)" by (auto simp: strip_variable_def)
      then have "?g \<in> set (vars (P p))" using P g2 by (auto simp: parts_of_def)
      then have "defines_value (P p) v" using ini 2(2) unfolding defines_value_def by (intro disjI2 bexI [of _ ?g]) simp_all
      then show ?thesis ..
    next
      case False
      have "g_link ?g \<noteq> Appending_linkage"
      proof
        assume a: "g_link ?g = Appending_linkage"
        then have "g_link g1 = Appending_linkage" by (auto simp: promote_variable_def promote_to_hidden_global_def split: if_split_asm)
        moreover have "users_of m v \<noteq> []" using m by auto
        ultimately show False using users_mention [of m v] s(1) 2(1,2) by (auto simp: split_ok_def)
      qed
      then have "?g\<lparr>v_init := None, g_link := External_linkage\<rparr> \<in> set (strip_variable p ?g)" using False ini by (simp add: strip_variable_def)
      then have "?g\<lparr>v_init := None, g_link := External_linkage\<rparr> \<in> set (vars (P p))" using P g2 by (auto simp: parts_of_def)
      then have "imports_value (P p) v" using 2(2) unfolding imports_value_def
        by (intro disjI2 bexI [of _ "?g\<lparr>v_init := None, g_link := External_linkage\<rparr>"]) (simp_all add: is_local_linkage_def)
      moreover have "\<exists>!q. 0 \<le> q \<and> q < n \<and> exports_value (P q) v"
        using exports_variable [OF P d g2 ini] False 2(2) s(2) by auto
      ultimately show ?thesis by blast
    qed
  qed
qed

lemma assigned_same:
  assumes "m' = m\<lparr>funs := map (owned_by owner) (funs m)\<rparr>"
  shows "fun_ids m' = fun_ids m" "var_ids m' = var_ids m" "mentions m' = mentions m" "defines_value m' v = defines_value m v"
proof -
  show "fun_ids m' = fun_ids m" "var_ids m' = var_ids m" using assms by (simp_all add: fun_ids_def var_ids_def comp_def)
  have "body_of (owned_by owner f) = body_of f" for f by (simp add: body_of_def)
  then show "mentions m' = mentions m" using assms by (simp add: mentions_def)
  show "defines_value m' v = defines_value m v" using assms by (simp add: defines_value_def)
qed

lemma assigned_split_ok:
  assumes "splittable m" "0 < n" "n < 2 ^ 31" "\<And>xs. mset (qsort xs) = mset xs" "\<And>k. al k"
  obtains m' owner where "assign_partitions al qsort n m = Some m'" "m' = m\<lparr>funs := map (owned_by owner) (funs m)\<rparr>" "split_ok m' n"
proof -
  have d: "distinct (fun_ids m)" "length (funs m) < 2 ^ 32" "\<forall>f \<in> set (funs m). function_partition f = - 1"
    using assms(1) by (auto simp: splittable_def module_ok_def)
  have "assign_partitions al qsort n m \<noteq> None" using assms(5) by (simp add: assign_partitions_def Let_def split_beta)
  then obtain m' where m': "assign_partitions al qsort n m = Some m'" by blast
  obtain owner where o: "m' = m\<lparr>funs := map (owned_by owner) (funs m)\<rparr>" by (rule assign_unfold [OF m' assms(2) d(1,2) assms(4)]) blast
  note parts = assign_result [OF m' assms(2,3) d(1,2) assms(4) d(3), THEN conjunct1]
  note same = assigned_same [OF o]
  have "distinct (fun_ids m' @ var_ids m')" using assms(1) by (simp add: same splittable_def module_ok_def)
  moreover have "\<not> is_local_linkage (g_link f)" if f: "f \<in> set (funs m')" "is_declaration f" for f
  proof -
    obtain g where "g \<in> set (funs m)" "f = owned_by owner g" using f(1) o by auto
    then show ?thesis using f(2) assms(1) by (auto simp: splittable_def is_declaration_def)
  qed
  moreover have "vars m' = vars m" using o by simp
  ultimately have "split_ok m' n" using parts assms(1) by (auto simp: split_ok_def splittable_def same)
  then show thesis using that m' o by blast
qed

lemma ex1_nat:
  assumes "\<exists>!q :: int. 0 \<le> q \<and> q < n \<and> Q q"
  shows "\<exists>!q. q < nat n \<and> Q (int q)"
proof -
  obtain r where r: "0 \<le> r \<and> r < n \<and> Q r" and u: "\<And>q. 0 \<le> q \<and> q < n \<and> Q q \<Longrightarrow> q = r" using assms by blast
  show ?thesis
  proof (rule ex1I [of _ "nat r"])
    show "q = nat r" if "q < nat n \<and> Q (int q)" for q using u [of "int q"] that by auto
  qed (use r in auto)
qed

lemma parts_exist: "split_ok m n \<Longrightarrow> parts_of (promote_cross_partition_locals m) (\<lambda>p. projr (emit_one_partition (promote_cross_partition_locals m) p))"
  using emit_succeeds [of m n] unfolding parts_of_def by (metis sum.sel(2))

text \<open>C39. Splitting a program into partitions changes nothing that the linker or the program can see.  When no
  allocation and no lowering fails, every thread emits its partition (none finds a local that is still called),
  each function is emitted by exactly one of them, and the objects link: what a partition uses and the program
  defines is defined in that partition, or declared there and exported by exactly one.  A variable that can be
  written has one copy: it is exported once, or a single partition uses it.\<close>

theorem partitions_link:
  assumes "splittable m" and "0 < n" and "n < 2 ^ 31" and "\<And>xs. mset (qsort xs) = mset xs" and "\<And>k. al k" and "\<And>M. lower M"
  shows "\<exists>objs. emit_partitioned al qsort lower m n obj_path = Inr objs \<and> length objs = nat n
    \<and> (\<forall>f \<in> set (defined m). \<exists>!p. p < nat n \<and> (\<exists>f' \<in> set (funs (snd (objs ! p))). g_id f' = g_id f \<and> f_body f' = f_body f))
    \<and> (\<forall>p < nat n. \<forall>v \<in> mentions (snd (objs ! p)). defines_value m v \<longrightarrow> defines_value (snd (objs ! p)) v
         \<or> imports_value (snd (objs ! p)) v \<and> (\<exists>!q. q < nat n \<and> exports_value (snd (objs ! q)) v))
    \<and> (\<forall>g \<in> set (vars m). v_init g \<noteq> None \<and> \<not> v_const g \<longrightarrow> (\<exists>!q. q < nat n \<and> exports_value (snd (objs ! q)) (g_id g))
         \<or> (\<forall>p < nat n. \<forall>q < nat n. g_id g \<in> mentions (snd (objs ! p)) \<longrightarrow> g_id g \<in> mentions (snd (objs ! q)) \<longrightarrow> p = q))"
proof -
  obtain m1 owner where m1: "assign_partitions al qsort n m = Some m1" and o: "m1 = m\<lparr>funs := map (owned_by owner) (funs m)\<rparr>" and s: "split_ok m1 n"
    by (rule assigned_split_ok [OF assms(1-5)])
  let ?M = "promote_cross_partition_locals m1"
  let ?P = "\<lambda>p. projr (emit_one_partition ?M p)"
  let ?objs = "map (\<lambda>p. (ir_partition_object_path obj_path (int p) 1200, ?P (int p))) [0..<nat n]"
  note same = assigned_same [OF o]
  have P: "parts_of ?M ?P" by (rule parts_exist [OF s])
  have "\<exists>mp. emit_one_partition ?M p = Inr mp" for p using emit_succeeds [OF s] by blast
  then have e: "emit_partitioned al qsort lower m n obj_path = Inr ?objs"
    using assms(5,6) m1 by (auto simp: emit_partitioned_def Let_def)
  have at: "snd (?objs ! p) = ?P (int p)" if "p < nat n" for p using that by simp
  have once: "\<exists>!q. q < nat n \<and> Q (int q)" if "\<exists>!q. 0 \<le> q \<and> q < n \<and> Q q" for Q
    using that by (rule ex1_nat)
  have d: "distinct (fun_ids ?M @ var_ids ?M)" using s by (simp add: promoted_ids split_ok_def)
  have fns: "\<exists>!p. p < nat n \<and> (\<exists>f' \<in> set (funs (?P (int p))). g_id f' = g_id f \<and> f_body f' = f_body f)" if f: "f \<in> set (defined m)" for f
  proof (rule once)
    let ?f1 = "owned_by owner f"
    have f1: "?f1 \<in> set (funs m1)" "\<not> is_declaration ?f1" using f o by (auto simp: defined_def is_declaration_def)
    then obtain k where f2: "promote_function m1 k ?f1 \<in> set (funs ?M)" by (force simp: promote_cross_partition_locals_def in_set_conv_nth set_zip)
    let ?f = "promote_function m1 k ?f1"
    have nd: "\<not> is_declaration ?f" "f_body ?f \<noteq> None" using f1(2) by (simp_all add: is_declaration_def)
    have q: "0 \<le> function_partition ?f" "function_partition ?f < n" using s f1 by (auto simp: split_ok_def)
    note pf = part_function [OF P f2 q(1) nd(1)]
    have "p = function_partition ?f" if "f' \<in> set (funs (?P p))" "g_id f' = g_id f" "f_body f' = f_body f" for p f'
    proof (rule ccontr)
      assume "p \<noteq> function_partition ?f"
      then have "f_body (strip_function p ?f) = None" using strip_drops [OF q(1), of p] by simp
      moreover have "f' = strip_function p ?f" using that(2) by (intro part_function_id [OF P d f2 that(1)]) simp
      ultimately show False using that(3) nd(2) by simp
    qed
    moreover have "\<exists>f' \<in> set (funs (?P (function_partition ?f))). g_id f' = g_id f \<and> f_body f' = f_body f"
      using pf by (intro bexI [of _ "strip_function (function_partition ?f) ?f"]) simp_all
    ultimately show "\<exists>!p. 0 \<le> p \<and> p < n \<and> (\<exists>f' \<in> set (funs (?P p)). g_id f' = g_id f \<and> f_body f' = f_body f)"
      using q by (intro ex1I [of _ "function_partition ?f"]) blast+
  qed
  have uses: "defines_value (?P (int p)) v \<or> imports_value (?P (int p)) v \<and> (\<exists>!q. q < nat n \<and> exports_value (?P (int q)) v)"
    if "v \<in> mentions (?P (int p))" "defines_value m v" for p v
    using split_links [OF s assms(2) P that(1)] that(2) once [of "\<lambda>q. exports_value (?P q) v"] by (auto simp: same(4))
  have copy: "(\<exists>!q. q < nat n \<and> exports_value (?P (int q)) (g_id g))
      \<or> (\<forall>p < nat n. \<forall>q < nat n. g_id g \<in> mentions (?P (int p)) \<longrightarrow> g_id g \<in> mentions (?P (int q)) \<longrightarrow> p = q)"
    if g: "g \<in> set (vars m)" "v_init g \<noteq> None" "\<not> v_const g" for g
  proof -
    have g1: "g \<in> set (vars m1)" using g(1) o by simp
    then obtain k where g2: "promote_variable m1 k g \<in> set (vars ?M)" by (force simp: promote_cross_partition_locals_def in_set_conv_nth set_zip)
    let ?g = "promote_variable m1 k g"
    show ?thesis
    proof (cases "is_local_linkage (g_link ?g)")
      case True
      have un: "In_constant \<notin> set (users_of m1 (g_id g))" "\<forall>h \<in> set (funs m1). \<forall>h' \<in> set (funs m1). In_function (g_id h) \<in> set (users_of m1 (g_id g))
          \<longrightarrow> In_function (g_id h') \<in> set (users_of m1 (g_id g)) \<longrightarrow> function_partition h = function_partition h'"
        using unpromoted_variable [OF s g2 True] g(2,3) unfolding promote_variable_same by blast+
      have one: "p = q" if mn: "g_id g \<in> mentions (?P (int p))" "g_id g \<in> mentions (?P (int q))" for p q
      proof -
        obtain h h' where "h \<in> set (funs m1)" "function_partition h = int p" "In_function (g_id h) \<in> set (users_of m1 (g_id g))"
          "h' \<in> set (funs m1)" "function_partition h' = int q" "In_function (g_id h') \<in> set (users_of m1 (g_id g))"
          using part_mention [OF s P mn(1)] part_mention [OF s P mn(2)] un(1) by blast
        then have "int p = int q" using un(2) by metis
        then show ?thesis by simp
      qed
      show ?thesis by (intro disjI2 allI impI) (rule one)
    next
      case False
      show ?thesis
        using exports_variable [OF P d g2 _ False] g(2) assms(2) once [of "\<lambda>q. exports_value (?P q) (g_id g)"] by auto
    qed
  qed
  have eq: "(\<exists>!q. q < nat n \<and> Q (snd (?objs ! q))) \<longleftrightarrow> (\<exists>!q. q < nat n \<and> Q (?P (int q)))" for Q
    using at by (intro arg_cong [where f = Ex1] ext) auto
  show ?thesis
  proof (intro exI [of _ ?objs] conjI ballI allI impI)
    show "emit_partitioned al qsort lower m n obj_path = Inr ?objs" by (rule e)
    show "length ?objs = nat n" by simp
    show "\<exists>!p. p < nat n \<and> (\<exists>f' \<in> set (funs (snd (?objs ! p))). g_id f' = g_id f \<and> f_body f' = f_body f)" if "f \<in> set (defined m)" for f
      by (rule iffD2 [OF eq [of "\<lambda>M. \<exists>f' \<in> set (funs M). g_id f' = g_id f \<and> f_body f' = f_body f"] fns [OF that]])
    show "defines_value (snd (?objs ! p)) v \<or> imports_value (snd (?objs ! p)) v \<and> (\<exists>!q. q < nat n \<and> exports_value (snd (?objs ! q)) v)"
      if "p < nat n" "v \<in> mentions (snd (?objs ! p))" "defines_value m v" for p v
      unfolding eq [of "\<lambda>M. exports_value M v"] at [OF that(1)] by (rule uses) (use that(2,3) at [OF that(1)] in metis)+
    show "(\<exists>!q. q < nat n \<and> exports_value (snd (?objs ! q)) (g_id g))
        \<or> (\<forall>p < nat n. \<forall>q < nat n. g_id g \<in> mentions (snd (?objs ! p)) \<longrightarrow> g_id g \<in> mentions (snd (?objs ! q)) \<longrightarrow> p = q)"
      if g: "g \<in> set (vars m)" "v_init g \<noteq> None \<and> \<not> v_const g" for g
      using copy [OF g(1) conjunct1 [OF g(2)] conjunct2 [OF g(2)]]
    proof (elim disjE)
      assume "\<exists>!q. q < nat n \<and> exports_value (?P (int q)) (g_id g)"
      then show ?thesis by (intro disjI1) (rule iffD2 [OF eq [of "\<lambda>M. exports_value M (g_id g)"]])
    next
      assume a: "\<forall>p < nat n. \<forall>q < nat n. g_id g \<in> mentions (?P (int p)) \<longrightarrow> g_id g \<in> mentions (?P (int q)) \<longrightarrow> p = q"
      have "p = q" if pq: "p < nat n" "q < nat n" "g_id g \<in> mentions (snd (?objs ! p))" "g_id g \<in> mentions (snd (?objs ! q))" for p q
        using a [rule_format, OF pq(1,2)] pq(3,4) unfolding at [OF pq(1)] at [OF pq(2)] by blast
      then show ?thesis by (intro disjI2 allI impI)
    qed
  qed
qed

subsection \<open>A sample\<close>

definition sample_function :: "nat \<Rightarrow> linkage \<Rightarrow> inst list option \<Rightarrow> ir_function" where
  "sample_function v l body = \<lparr>g_id = v, g_name = [word_of_nat (97 + v)], g_link = l, g_hidden = False, f_body = body, f_params = 0, f_attrs = (\<lambda>_ _. None)\<rparr>"

definition sample_use :: "operand \<Rightarrow> inst" where
  "sample_use op = \<lparr>i_call = True, i_ops = [op]\<rparr>"

text \<open>A program that calls a local helper and a function of the runtime; both bodies write one local counter, and a table of
  constants holds the helper's address.\<close>

definition sample_module :: ir_module where
  "sample_module = \<lparr>
     funs = [sample_function 0 External_linkage (Some [sample_use (Global 1), sample_use (Global 3), sample_use (Global 2)]),
             sample_function 1 Internal_linkage (Some [sample_use (Global 3), sample_use (Const [Global 4])]),
             sample_function 2 External_linkage None],
     vars = [\<lparr>g_id = 3, g_name = [], g_link = Internal_linkage, g_hidden = False, v_const = False, v_init = Some Plain\<rparr>,
             \<lparr>g_id = 4, g_name = [116], g_link = Private_linkage, g_hidden = False, v_const = True, v_init = Some (Const [Global 1])\<rparr>]\<rparr>"

lemma splittable_sample: "splittable sample_module"
  by (auto simp: splittable_def module_ok_def names_known_def sample_module_def sample_function_def sample_use_def fun_ids_def var_ids_def body_of_def
      function_partition_def is_declaration_def is_local_linkage_def)

theorem partitions_link_witness:
  "\<exists>objs. emit_partitioned (\<lambda>_. True) (\<lambda>xs. xs) (\<lambda>_. True) sample_module 2 [111] = Inr objs \<and> length objs = nat 2
    \<and> (\<forall>f \<in> set (defined sample_module). \<exists>!p. p < nat 2 \<and> (\<exists>f' \<in> set (funs (snd (objs ! p))). g_id f' = g_id f \<and> f_body f' = f_body f))
    \<and> (\<forall>p < nat 2. \<forall>v \<in> mentions (snd (objs ! p)). defines_value sample_module v \<longrightarrow> defines_value (snd (objs ! p)) v
         \<or> imports_value (snd (objs ! p)) v \<and> (\<exists>!q. q < nat 2 \<and> exports_value (snd (objs ! q)) v))
    \<and> (\<forall>g \<in> set (vars sample_module). v_init g \<noteq> None \<and> \<not> v_const g \<longrightarrow> (\<exists>!q. q < nat 2 \<and> exports_value (snd (objs ! q)) (g_id g))
         \<or> (\<forall>p < nat 2. \<forall>q < nat 2. g_id g \<in> mentions (snd (objs ! p)) \<longrightarrow> g_id g \<in> mentions (snd (objs ! q)) \<longrightarrow> p = q))"
  by (rule partitions_link [OF splittable_sample]) simp_all

theorem assign_balanced_witness:
  "\<exists>m'. assign_partitions (\<lambda>_. True) (\<lambda>xs. xs) 2 sample_module = Some m' \<and> part_load m' 0 \<le> part_load m' 1 + 4
     \<and> (\<forall>f \<in> set (funs m'). if is_declaration f then function_partition f = - 1 else 0 \<le> function_partition f \<and> function_partition f < 2)"
proof -
  obtain m' where m': "assign_partitions (\<lambda>_. True) (\<lambda>xs. xs) 2 sample_module = Some m'" by (simp add: assign_partitions_def Let_def split_beta)
  have s: "distinct (fun_ids sample_module)" "length (funs sample_module) < 2 ^ 32" "\<forall>f \<in> set (funs sample_module). function_partition f = - 1"
    using splittable_sample by (auto simp: splittable_def module_ok_def)
  have "\<forall>f \<in> set (defined sample_module). weight f \<le> 4"
    by (simp add: defined_def sample_module_def sample_function_def is_declaration_def weight_def function_instruction_count_def body_of_def)
  then show ?thesis using assign_balanced [OF m' _ _ s(1,2) refl s(3)] m' by auto
qed

end
