(* ===== verification/Library_Symbols.thy ===== *)
theory Library_Symbols
  imports Module_IR
begin

unbundle bit_operations_syntax

text \<open>
  What a program needs of the library modules it is linked with (\<open>library_symbol_hash\<close> to \<open>library_symbols_close\<close> of
  \<open>runtime/llvm-api-backend.c\<close> and the first half of \<open>link_library_modules_lazy\<close>).  All definitions of the
  libraries go into an open-addressing table by name, the first one of a name winning; a work list then finds
  what the program reaches through them.  Whether LLVM can read the body of a function is the parameter \<open>readable\<close>.
\<close>

subsection \<open>Definitions\<close>

text \<open>The table of the definitions, the stack of the values whose bodies have not been looked at, and the functions LLVM
  has read the bodies of.\<close>

record lib_symbol =
  y_name :: bytes
  y_value :: nat
  y_module :: nat
  y_needed :: bool

record lib_symbols =
  slots :: "lib_symbol option list"
  y_count :: nat
  todo :: "nat list"
  materialized :: "nat list"

definition library_symbol_hash :: "bytes \<Rightarrow> 64 word" where
  "library_symbol_hash name = fnv1a_raw PRISMIO_FNV_OFFSET name"

definition first_slot :: "lib_symbols \<Rightarrow> bytes \<Rightarrow> nat" where
  "first_slot t name = unat (library_symbol_hash name AND word_of_nat (length (slots t) - 1))"

definition next_slot :: "lib_symbols \<Rightarrow> nat \<Rightarrow> nat" where
  "next_slot t i = (i + 1) AND (length (slots t) - 1)"

text \<open>A search that has seen every slot and found neither the name nor an empty one would go round for ever.\<close>

fun find_probe :: "nat \<Rightarrow> lib_symbols \<Rightarrow> bytes \<Rightarrow> nat \<Rightarrow> rt_error + nat option" where
  "find_probe 0 t name i = Inl Fuel"
| "find_probe (Suc n) t name i =
     (case slots t ! i of None \<Rightarrow> Inr None
      | Some s \<Rightarrow> if y_name s = name then Inr (Some i) else find_probe n t name (next_slot t i))"

definition library_symbol_find :: "lib_symbols \<Rightarrow> bytes \<Rightarrow> rt_error + nat option" where
  "library_symbol_find t name =
     (if slots t = [] \<or> name = [] then Inr None else find_probe (length (slots t)) t name (first_slot t name))"

fun free_probe :: "nat \<Rightarrow> lib_symbols \<Rightarrow> nat \<Rightarrow> rt_error + nat" where
  "free_probe 0 t i = Inl Fuel"
| "free_probe (Suc n) t i = (case slots t ! i of None \<Rightarrow> Inr i | Some s \<Rightarrow> free_probe n t (next_slot t i))"

definition library_symbol_add :: "lib_symbols \<Rightarrow> nat \<times> bytes \<Rightarrow> nat \<Rightarrow> rt_error + lib_symbols" where
  "library_symbol_add t value k =
     (let (v, name) = value in
      if name = [] then Inr t
      else andthen (library_symbol_find t name) (\<lambda>found.
        if found \<noteq> None then Inr t
        else andthen (free_probe (length (slots t)) t (first_slot t name)) (\<lambda>i.
          Inr (t\<lparr>slots := (slots t)[i := Some \<lparr>y_name = name, y_value = v, y_module = k, y_needed = False\<rparr>], y_count := y_count t + 1\<rparr>))))"

definition set_needed :: "nat \<Rightarrow> lib_symbols \<Rightarrow> lib_symbols" where
  "set_needed i t = t\<lparr>slots := (slots t)[i := map_option (\<lambda>s. s\<lparr>y_needed := True\<rparr>) (slots t ! i)]\<rparr>"

definition needed_at :: "lib_symbols \<Rightarrow> nat \<Rightarrow> bool" where
  "needed_at t i = (case slots t ! i of None \<Rightarrow> False | Some s \<Rightarrow> y_needed s)"

definition value_at :: "lib_symbols \<Rightarrow> nat \<Rightarrow> nat" where
  "value_at t i = (case slots t ! i of None \<Rightarrow> 0 | Some s \<Rightarrow> y_value s)"

definition library_symbol_need :: "bytes \<Rightarrow> lib_symbols \<Rightarrow> rt_error + lib_symbols" where
  "library_symbol_need name t =
     andthen (library_symbol_find t name) (\<lambda>found.
       case found of None \<Rightarrow> Inr t
       | Some i \<Rightarrow> if needed_at t i then Inr t else Inr ((set_needed i t)\<lparr>todo := value_at t i # todo t\<rparr>))"

text \<open>The globals a value names, through constants nested at most 32 deep; \<open>nm\<close> gives the name of a global.\<close>

fun library_symbols_named_by :: "(nat \<Rightarrow> bytes) \<Rightarrow> operand \<Rightarrow> nat \<Rightarrow> lib_symbols \<Rightarrow> rt_error + lib_symbols"
  and library_symbols_named_by_all :: "(nat \<Rightarrow> bytes) \<Rightarrow> operand list \<Rightarrow> nat \<Rightarrow> lib_symbols \<Rightarrow> rt_error + lib_symbols" where
  "library_symbols_named_by nm (Global v) depth t = (if depth > 32 then Inr t else library_symbol_need (nm v) t)"
| "library_symbols_named_by nm (Const ops) depth t = (if depth > 32 then Inr t else library_symbols_named_by_all nm ops (depth + 1) t)"
| "library_symbols_named_by nm Plain depth t = Inr t"
| "library_symbols_named_by_all nm [] depth t = Inr t"
| "library_symbols_named_by_all nm (op # ops) depth t =
     andthen (library_symbols_named_by nm op depth t) (library_symbols_named_by_all nm ops depth)"

text \<open>What is looked at when a value is taken from the stack.\<close>

definition find_var :: "ir_module list \<Rightarrow> nat \<Rightarrow> ir_global option" where
  "find_var mods v = find (\<lambda>g. g_id g = v) (concat (map vars mods))"

definition find_fun :: "ir_module list \<Rightarrow> nat \<Rightarrow> ir_function option" where
  "find_fun mods v = find (\<lambda>f. g_id f = v) (concat (map funs mods))"

definition name_of :: "ir_module list \<Rightarrow> nat \<Rightarrow> bytes" where
  "name_of mods v =
     (case find_fun mods v of Some f \<Rightarrow> g_name f | None \<Rightarrow> (case find_var mods v of Some g \<Rightarrow> g_name g | None \<Rightarrow> []))"

definition look_at :: "(nat \<Rightarrow> bool) \<Rightarrow> ir_module list \<Rightarrow> nat \<Rightarrow> lib_symbols \<Rightarrow> rt_error + (bool \<times> lib_symbols)" where
  "look_at readable mods v t =
     (case find_var mods v of
        Some g \<Rightarrow> (case v_init g of None \<Rightarrow> Inr (True, t)
          | Some op \<Rightarrow> andthen (library_symbols_named_by (name_of mods) op 0 t) (\<lambda>t. Inr (True, t)))
      | None \<Rightarrow> (case find_fun mods v of None \<Rightarrow> Inr (True, t)
          | Some f \<Rightarrow> if \<not> readable v then Inr (False, t)
              else andthen (library_symbols_named_by_all (name_of mods) (concat (map i_ops (body_of f))) 0 (t\<lparr>materialized := v # materialized t\<rparr>)) (\<lambda>t. Inr (True, t))))"

text \<open>Fuel counts the values taken from the stack; each symbol of the table is taken at most once.\<close>

fun library_symbols_close :: "nat \<Rightarrow> (nat \<Rightarrow> bool) \<Rightarrow> ir_module list \<Rightarrow> lib_symbols \<Rightarrow> rt_error + (int \<times> lib_symbols)" where
  "library_symbols_close fuel readable mods t =
     (case todo t of [] \<Rightarrow> Inr (0, t)
      | v # vs \<Rightarrow>
          (case fuel of 0 \<Rightarrow> Inl Fuel
           | Suc fuel \<Rightarrow>
               andthen (look_at readable mods v (t\<lparr>todo := vs\<rparr>)) (\<lambda>(ok, t).
                 if ok then library_symbols_close fuel readable mods t else Inr (1, t))))"

declare library_symbols_close.simps [simp del]

fun add_all :: "nat \<Rightarrow> (nat \<times> bytes) list \<Rightarrow> lib_symbols \<Rightarrow> rt_error + lib_symbols" where
  "add_all k [] t = Inr t"
| "add_all k (v # vs) t = andthen (library_symbol_add t v k) (add_all k vs)"

definition definitions_of :: "ir_module \<Rightarrow> (nat \<times> bytes) list" where
  "definitions_of m = map (\<lambda>f. (g_id f, g_name f)) (filter (\<lambda>f. f_body f \<noteq> None) (funs m))
     @ map (\<lambda>g. (g_id g, g_name g)) (filter (\<lambda>g. v_init g \<noteq> None) (vars m))"

fun add_modules :: "nat \<Rightarrow> ir_module list \<Rightarrow> lib_symbols \<Rightarrow> rt_error + lib_symbols" where
  "add_modules k [] t = Inr t"
| "add_modules k (m # ms) t = andthen (add_all k (definitions_of m) t) (add_modules (k + 1) ms)"

function table_cap :: "nat \<Rightarrow> nat \<Rightarrow> nat" where
  "table_cap cap n = (if cap = 0 \<or> n \<le> cap then cap else table_cap (cap * 2) n)"
  by pat_completeness auto
termination by (relation "measure (\<lambda>(cap, n). n - cap)") auto

declare table_cap.simps [simp del]

text \<open>The functions of the program: a definition hides the library's, an unused declaration goes, a used one is a root.\<close>

fun program_functions :: "ir_function list \<Rightarrow> ir_module \<Rightarrow> lib_symbols \<Rightarrow> rt_error + (ir_module \<times> lib_symbols)" where
  "program_functions [] dm t = Inr (dm, t)"
| "program_functions (f # fs) dm t =
     andthen (library_symbol_find t (g_name f)) (\<lambda>found.
       case found of None \<Rightarrow> program_functions fs dm t
       | Some i \<Rightarrow>
           if f_body f \<noteq> None then program_functions fs dm (set_needed i t)
           else if users_of dm (g_id f) = [] then program_functions fs (delete_function (g_id f) dm) t
           else andthen (library_symbol_need (g_name f) t) (program_functions fs dm))"

fun need_all :: "bytes list \<Rightarrow> lib_symbols \<Rightarrow> rt_error + lib_symbols" where
  "need_all [] t = Inr t"
| "need_all (n # ns) t = andthen (library_symbol_need n t) (need_all ns)"

definition appending_inits :: "ir_module list \<Rightarrow> operand list" where
  "appending_inits mods =
     concat (map (\<lambda>g. case v_init g of None \<Rightarrow> [] | Some op \<Rightarrow> [op]) (filter (\<lambda>g. g_link g = Appending_linkage) (concat (map vars mods))))"


text \<open>The table as the link fills it and the closure leaves it; the fuel is the number of symbols.\<close>

definition no_symbols :: "nat \<Rightarrow> lib_symbols" where
  "no_symbols cap = \<lparr>slots = replicate cap None, y_count = 0, todo = [], materialized = []\<rparr>"

definition globals_of :: "ir_module list \<Rightarrow> nat" where
  "globals_of mods = sum_list (map (\<lambda>m. length (funs m) + length (vars m)) mods)"

definition library_roots :: "ir_module \<Rightarrow> ir_module list \<Rightarrow> rt_error + (ir_module \<times> lib_symbols)" where
  "library_roots dm mods =
     andthen (add_modules 0 mods (no_symbols (table_cap 64 (globals_of mods * 2)))) (\<lambda>t.
     andthen (program_functions (funs dm) dm t) (\<lambda>(dm, t).
     andthen (need_all (map g_name (filter (\<lambda>g. v_init g = None) (vars dm))) t) (\<lambda>t.
     andthen (library_symbols_named_by_all (name_of mods) (appending_inits mods) 0 t) (\<lambda>t. Inr (dm, t)))))"

definition library_needs :: "(nat \<Rightarrow> bool) \<Rightarrow> ir_module \<Rightarrow> ir_module list \<Rightarrow> rt_error + (int \<times> ir_module \<times> lib_symbols)" where
  "library_needs readable dm mods =
     andthen (library_roots dm mods) (\<lambda>(dm, t).
     andthen (library_symbols_close (y_count t) readable mods t) (\<lambda>(r, t). Inr (r, dm, t)))"

subsection \<open>The table\<close>

definition probe_at :: "lib_symbols \<Rightarrow> bytes \<Rightarrow> nat \<Rightarrow> nat" where
  "probe_at t name d = (first_slot t name + d) mod length (slots t)"

definition other_name :: "lib_symbols \<Rightarrow> bytes \<Rightarrow> nat \<Rightarrow> bool" where
  "other_name t name i \<longleftrightarrow> (\<exists>s. slots t ! i = Some s \<and> y_name s \<noteq> name)"

definition table_ok :: "lib_symbols \<Rightarrow> bool" where
  "table_ok t \<longleftrightarrow> (\<exists>k. length (slots t) = 2 ^ k) \<and> y_count t < length (slots t)
     \<and> card {i. i < length (slots t) \<and> slots t ! i \<noteq> None} = y_count t
     \<and> (\<forall>i s. i < length (slots t) \<longrightarrow> slots t ! i = Some s \<longrightarrow> y_name s \<noteq> []
          \<and> (\<exists>d < length (slots t). i = probe_at t (y_name s) d \<and> (\<forall>x < d. other_name t (y_name s) (probe_at t (y_name s) x))))"

lemma table_okD:
  assumes "table_ok t"
  shows "\<exists>k. length (slots t) = 2 ^ k" "y_count t < length (slots t)" "0 < length (slots t)" "slots t \<noteq> []"
    "card {i. i < length (slots t) \<and> slots t ! i \<noteq> None} = y_count t"
  using assms by (auto simp: table_ok_def)

lemma table_ok_path:
  assumes "table_ok t" "i < length (slots t)" "slots t ! i = Some s"
  shows "y_name s \<noteq> []" "\<exists>d < length (slots t). i = probe_at t (y_name s) d \<and> (\<forall>x < d. other_name t (y_name s) (probe_at t (y_name s) x))"
  using assms by (auto simp: table_ok_def)

lemma first_slot_lt: "0 < length (slots t) \<Longrightarrow> first_slot t name < length (slots t)"
proof -
  assume "0 < length (slots t)"
  moreover have "unat (word_of_nat (length (slots t) - 1) :: 64 word) = take_bit 64 (length (slots t) - 1)" by (simp add: unsigned_of_nat)
  ultimately have "unat (word_of_nat (length (slots t) - 1) :: 64 word) < length (slots t)"
    using take_bit_nat_less_eq_self [of 64 "length (slots t) - 1"] by linarith
  moreover have "unat (library_symbol_hash name AND word_of_nat (length (slots t) - 1)) \<le> unat (word_of_nat (length (slots t) - 1) :: 64 word)"
    unfolding word_le_nat_alt [symmetric] by (rule word_and_le1)
  ultimately show ?thesis unfolding first_slot_def by linarith
qed

lemma next_slot_mod: "length (slots t) = 2 ^ k \<Longrightarrow> next_slot t i = (i + 1) mod 2 ^ k"
  unfolding next_slot_def by (metis mask_eq_exp_minus_1 take_bit_eq_mask take_bit_eq_mod)

lemma probe_at_0: "0 < length (slots t) \<Longrightarrow> probe_at t name 0 = first_slot t name"
  by (simp add: probe_at_def first_slot_lt)

lemma probe_at_Suc: "length (slots t) = 2 ^ k \<Longrightarrow> next_slot t (probe_at t name d) = probe_at t name (Suc d)"
  by (simp add: next_slot_mod probe_at_def mod_Suc_eq)

lemma probe_at_covers:
  assumes "i < length (slots t)"
  shows "\<exists>d < length (slots t). probe_at t name d = i"
proof -
  let ?n = "length (slots t)" and ?h = "first_slot t name"
  have h: "?h < ?n" using assms by (intro first_slot_lt) linarith
  show ?thesis
  proof (cases "?h \<le> i")
    case True
    then show ?thesis using assms by (intro exI [of _ "i - ?h"]) (simp add: probe_at_def)
  next
    case False
    then have "(?h + (?n - ?h + i)) mod ?n = i" using assms h by simp
    then show ?thesis using False h assms by (intro exI [of _ "?n - ?h + i"]) (simp add: probe_at_def)
  qed
qed

text \<open>A search stops at the first slot of its path that is empty or has the name.\<close>

lemma find_probe_stops:
  assumes "length (slots t) = 2 ^ k" "\<forall>x < d. other_name t name (probe_at t name (b + x))" "\<not> other_name t name (probe_at t name (b + d))" "d < n"
  shows "find_probe n t name (probe_at t name b) = Inr (case slots t ! probe_at t name (b + d) of None \<Rightarrow> None | Some s \<Rightarrow> Some (probe_at t name (b + d)))"
  using assms(2-4)
proof (induction n arbitrary: b d)
  case (Suc n)
  show ?case
  proof (cases d)
    case 0
    then show ?thesis using Suc.prems by (auto simp: other_name_def split: option.split)
  next
    case (Suc e)
    then have "\<forall>x < e. other_name t name (probe_at t name (Suc b + x))" "\<not> other_name t name (probe_at t name (Suc b + e))"
      using Suc.prems(1,2) by auto
    moreover obtain s where "slots t ! probe_at t name b = Some s" "y_name s \<noteq> name" using Suc.prems(1) Suc by (force simp: other_name_def)
    ultimately show ?thesis using Suc.IH [of e "Suc b"] Suc.prems(3) Suc by (simp add: probe_at_Suc [OF assms(1)] cong: option.case_cong)
  qed
qed simp

lemma free_probe_stops:
  assumes "length (slots t) = 2 ^ k" "\<forall>x < d. slots t ! probe_at t name (b + x) \<noteq> None" "slots t ! probe_at t name (b + d) = None" "d < n"
  shows "free_probe n t (probe_at t name b) = Inr (probe_at t name (b + d))"
  using assms(2-4)
proof (induction n arbitrary: b d)
  case (Suc n)
  show ?case
  proof (cases d)
    case 0
    then show ?thesis using Suc.prems by simp
  next
    case (Suc e)
    then have "\<forall>x < e. slots t ! probe_at t name (Suc b + x) \<noteq> None" "slots t ! probe_at t name (Suc b + e) = None"
      using Suc.prems(1,2) by auto
    moreover have "slots t ! probe_at t name b \<noteq> None" using Suc.prems(1) Suc by force
    ultimately show ?thesis using Suc.IH [of e "Suc b"] Suc.prems(3) Suc by (auto simp: probe_at_Suc [OF assms(1)])
  qed
qed simp

lemma empty_slot: "table_ok t \<Longrightarrow> \<exists>i < length (slots t). slots t ! i = None"
proof (rule ccontr)
  assume t: "table_ok t" and "\<not> (\<exists>i < length (slots t). slots t ! i = None)"
  then have "{i. i < length (slots t) \<and> slots t ! i \<noteq> None} = {..<length (slots t)}" by auto
  then show False using table_okD [OF t] by simp
qed

lemma first_hit:
  assumes "table_ok t"
  shows "\<exists>d < length (slots t). \<not> other_name t name (probe_at t name d) \<and> (\<forall>x < d. other_name t name (probe_at t name x))"
proof -
  let ?P = "\<lambda>d. d < length (slots t) \<and> \<not> other_name t name (probe_at t name d)"
  obtain i where i: "i < length (slots t)" "slots t ! i = None" using empty_slot [OF assms] by blast
  then obtain d where "d < length (slots t)" "probe_at t name d = i" using probe_at_covers by blast
  then have "?P d" using i by (simp add: other_name_def)
  then have l: "?P (LEAST d. ?P d)" by (rule LeastI)
  moreover have "\<forall>x < (LEAST d. ?P d). other_name t name (probe_at t name x)"
    using not_less_Least [of _ ?P] l by (meson less_trans)
  ultimately show ?thesis by blast
qed

text \<open>The table is a map from names to symbols.\<close>

definition lookup_symbol :: "lib_symbols \<Rightarrow> bytes \<Rightarrow> lib_symbol option" where
  "lookup_symbol t name = (case library_symbol_find t name of Inr (Some i) \<Rightarrow> slots t ! i | _ \<Rightarrow> None)"

lemma find_spec:
  assumes "table_ok t"
  shows "library_symbol_find t name = Inr None \<and> (\<forall>s. Some s \<in> set (slots t) \<longrightarrow> y_name s \<noteq> name)
    \<or> (\<exists>i s. library_symbol_find t name = Inr (Some i) \<and> i < length (slots t) \<and> slots t ! i = Some s \<and> y_name s = name)"
proof (cases "name = []")
  case True
  then show ?thesis using assms table_ok_path(1) by (fastforce simp: library_symbol_find_def in_set_conv_nth)
next
  case False
  obtain k where k: "length (slots t) = 2 ^ k" using table_okD(1) [OF assms] by blast
  obtain d where d: "d < length (slots t)" "\<not> other_name t name (probe_at t name d)" "\<forall>x < d. other_name t name (probe_at t name x)"
    using first_hit [OF assms] by blast
  let ?i = "probe_at t name d"
  have f: "library_symbol_find t name = Inr (case slots t ! ?i of None \<Rightarrow> None | Some s \<Rightarrow> Some ?i)"
    using find_probe_stops [OF k, of d name 0] d False table_okD(3,4) [OF assms]
    by (simp add: library_symbol_find_def probe_at_0 cong: option.case_cong)
  show ?thesis
  proof (cases "slots t ! ?i")
    case (Some s)
    then have "y_name s = name" using d(2) by (simp add: other_name_def)
    then show ?thesis using f Some table_okD(3) [OF assms] by (auto simp: probe_at_def)
  next
    case None
    have "y_name s \<noteq> name" if s: "Some s \<in> set (slots t)" for s
    proof
      assume n: "y_name s = name"
      obtain j where j: "j < length (slots t)" "slots t ! j = Some s" using s by (auto simp: in_set_conv_nth)
      obtain e where e: "j = probe_at t name e" "\<forall>x < e. other_name t name (probe_at t name x)"
        using table_ok_path(2) [OF assms j] n by auto
      have "\<not> other_name t name (probe_at t name e)" using e(1) j(2) n by (simp add: other_name_def)
      then have "e = d" using d(2,3) e(2) by (meson nat_neq_iff)
      then show False using None e(1) j(2) by simp
    qed
    then show ?thesis using f None by simp
  qed
qed

lemma find_lookup:
  assumes "table_ok t"
  obtains (absent) "library_symbol_find t name = Inr None" "lookup_symbol t name = None"
  | (present) i s where "library_symbol_find t name = Inr (Some i)" "i < length (slots t)" "slots t ! i = Some s" "lookup_symbol t name = Some s" "y_name s = name"
  using find_spec [OF assms, of name] unfolding lookup_symbol_def by auto

lemma slot_unique:
  assumes "table_ok t" "i < length (slots t)" "slots t ! i = Some s"
  shows "library_symbol_find t (y_name s) = Inr (Some i)"
proof -
  obtain k where k: "length (slots t) = 2 ^ k" using table_okD(1) [OF assms(1)] by blast
  obtain d where d: "d < length (slots t)" "i = probe_at t (y_name s) d" "\<forall>x < d. other_name t (y_name s) (probe_at t (y_name s) x)"
    using table_ok_path(2) [OF assms] by blast
  have "\<not> other_name t (y_name s) (probe_at t (y_name s) d)" using assms(3) d(2) by (simp add: other_name_def)
  then show ?thesis
    using find_probe_stops [OF k, of d "y_name s" 0] d assms(3) table_ok_path(1) [OF assms] table_okD(3,4) [OF assms(1)]
    by (simp add: library_symbol_find_def probe_at_0)
qed

lemma lookup_symbol_mem: "table_ok t \<Longrightarrow> lookup_symbol t name = Some s \<longleftrightarrow> Some s \<in> set (slots t) \<and> y_name s = name"
proof
  assume t: "table_ok t" and "lookup_symbol t name = Some s"
  then show "Some s \<in> set (slots t) \<and> y_name s = name" by (cases rule: find_lookup [OF t, of name]) (auto simp: in_set_conv_nth)
next
  assume t: "table_ok t" and "Some s \<in> set (slots t) \<and> y_name s = name"
  then obtain i where "i < length (slots t)" "slots t ! i = Some s" "y_name s = name" by (auto simp: in_set_conv_nth)
  then show "lookup_symbol t name = Some s" using slot_unique [OF t] by (auto simp: lookup_symbol_def)
qed


lemma lookup_symbol_at: "table_ok t \<Longrightarrow> lookup_symbol t name = Some s \<longleftrightarrow> (\<exists>i < length (slots t). slots t ! i = Some s \<and> y_name s = name)"
  by (auto simp: lookup_symbol_mem in_set_conv_nth)

lemma slot_same: "table_ok t \<Longrightarrow> i < length (slots t) \<Longrightarrow> slots t ! i = Some s \<Longrightarrow> j < length (slots t) \<Longrightarrow> slots t ! j = Some s' \<Longrightarrow> y_name s' = y_name s \<Longrightarrow> i = j"
  using slot_unique [of t i s] slot_unique [of t j s'] by simp

lemma probe_at_slots: "length (slots t') = length (slots t) \<Longrightarrow> probe_at t' name d = probe_at t name d"
  by (simp add: probe_at_def first_slot_def)

lemma other_name_needed: "i < length (slots t) \<Longrightarrow> other_name (set_needed i t) name j = other_name t name j"
  by (cases "i = j"; cases "slots t ! i") (auto simp: other_name_def set_needed_def)

lemma set_needed_same [simp]:
  "length (slots (set_needed i t)) = length (slots t)" "y_count (set_needed i t) = y_count t" "todo (set_needed i t) = todo t"
  "materialized (set_needed i t) = materialized t"
  by (simp_all add: set_needed_def)

lemma set_needed_nth: "j < length (slots t) \<Longrightarrow> slots (set_needed i t) ! j = (if i = j then map_option (\<lambda>s. s\<lparr>y_needed := True\<rparr>) (slots t ! j) else slots t ! j)"
  by (simp add: set_needed_def nth_list_update)

lemma set_needed_ok:
  assumes "table_ok t" "i < length (slots t)"
  shows "table_ok (set_needed i t)"
proof -
  have "{j. j < length (slots t) \<and> slots (set_needed i t) ! j \<noteq> None} = {j. j < length (slots t) \<and> slots t ! j \<noteq> None}"
    by (auto simp: set_needed_nth split: if_split_asm)
  moreover have "y_name s \<noteq> [] \<and> (\<exists>d < length (slots t). j = probe_at t (y_name s) d \<and> (\<forall>x < d. other_name t (y_name s) (probe_at t (y_name s) x)))"
    if j: "j < length (slots t)" "slots (set_needed i t) ! j = Some s" for j s
  proof -
    obtain s' where "slots t ! j = Some s'" "y_name s' = y_name s" using j by (cases "i = j") (auto simp: set_needed_nth)
    then show ?thesis using table_ok_path [OF assms(1) j(1)] by metis
  qed
  ultimately show ?thesis using table_okD [OF assms(1)] by (simp add: table_ok_def probe_at_slots [of "set_needed i t" t] other_name_needed assms(2))
qed

lemma option_same: "(\<And>x. a = Some x \<longleftrightarrow> b = Some x) \<Longrightarrow> a = b"
  by (cases a; cases b) auto

lemma lookup_set_needed:
  assumes "table_ok t" "i < length (slots t)" "slots t ! i = Some s"
  shows "lookup_symbol (set_needed i t) name = (if name = y_name s then Some (s\<lparr>y_needed := True\<rparr>) else lookup_symbol t name)"
proof (rule option_same)
  fix x
  note at = lookup_symbol_at [OF assms(1)] lookup_symbol_at [OF set_needed_ok [OF assms(1,2)]]
  have "lookup_symbol (set_needed i t) name = Some x \<longleftrightarrow> (if name = y_name s then x = s\<lparr>y_needed := True\<rparr> else lookup_symbol t name = Some x)"
  proof
    assume "lookup_symbol (set_needed i t) name = Some x"
    then obtain j where j: "j < length (slots t)" "slots (set_needed i t) ! j = Some x" "y_name x = name" unfolding at by auto
    show "if name = y_name s then x = s\<lparr>y_needed := True\<rparr> else lookup_symbol t name = Some x"
      using j assms(2,3) slot_same [OF assms, of j x] by (cases "i = j") (auto simp: at set_needed_nth)
  next
    assume r: "if name = y_name s then x = s\<lparr>y_needed := True\<rparr> else lookup_symbol t name = Some x"
    show "lookup_symbol (set_needed i t) name = Some x"
    proof (cases "name = y_name s")
      case True
      then show ?thesis using r assms(2,3) unfolding at by (intro exI [of _ i]) (simp add: set_needed_nth)
    next
      case False
      then obtain j where "j < length (slots t)" "slots t ! j = Some x" "y_name x = name" using r at by auto
      then show ?thesis using False assms(3) unfolding at by (intro exI [of _ j]) (auto simp: set_needed_nth)
    qed
  qed
  then show "lookup_symbol (set_needed i t) name = Some x \<longleftrightarrow> (if name = y_name s then Some (s\<lparr>y_needed := True\<rparr>) else lookup_symbol t name) = Some x"
    by auto
qed

text \<open>Adding a definition: the first one of a name stays.\<close>

lemma first_empty:
  assumes "table_ok t"
  shows "\<exists>d < length (slots t). slots t ! probe_at t name d = None \<and> (\<forall>x < d. slots t ! probe_at t name x \<noteq> None)"
proof -
  let ?P = "\<lambda>d. d < length (slots t) \<and> slots t ! probe_at t name d = None"
  obtain i where i: "i < length (slots t)" "slots t ! i = None" using empty_slot [OF assms] by blast
  then obtain d where "d < length (slots t)" "probe_at t name d = i" using probe_at_covers by blast
  then have "?P d" using i by simp
  then have l: "?P (LEAST d. ?P d)" by (rule LeastI)
  moreover have "\<forall>x < (LEAST d. ?P d). slots t ! probe_at t name x \<noteq> None" using not_less_Least [of _ ?P] l by (meson less_trans)
  ultimately show ?thesis by blast
qed

definition fresh_symbol :: "nat \<Rightarrow> nat \<Rightarrow> bytes \<Rightarrow> lib_symbol" where
  "fresh_symbol k v name = \<lparr>y_name = name, y_value = v, y_module = k, y_needed = False\<rparr>"

lemma library_symbol_add_ok:
  assumes "table_ok t" "y_count t + 1 < length (slots t)"
  obtains t' where "library_symbol_add t (v, name) k = Inr t'" "table_ok t'" "length (slots t') = length (slots t)" "y_count t' \<le> y_count t + 1"
    "todo t' = todo t" "materialized t' = materialized t"
    "\<And>n. lookup_symbol t' n = (if n = name \<and> name \<noteq> [] \<and> lookup_symbol t name = None then Some (fresh_symbol k v name) else lookup_symbol t n)"
proof (cases rule: find_lookup [OF assms(1), of name, case_names absent present])
  case (present i s)
  then have "library_symbol_add t (v, name) k = Inr t" by (simp add: library_symbol_add_def)
  then show thesis using present assms by (intro that [of t]) auto
next
  case absent
  show thesis
  proof (cases "name = []")
    case True
    then show thesis using assms by (intro that [of t]) (auto simp: library_symbol_add_def)
  next
    case False
    obtain k2 where k2: "length (slots t) = 2 ^ k2" using table_okD(1) [OF assms(1)] by blast
    obtain d where d: "d < length (slots t)" "slots t ! probe_at t name d = None" "\<forall>x < d. slots t ! probe_at t name x \<noteq> None"
      using first_empty [OF assms(1)] by blast
    define i where "i = probe_at t name d"
    have i: "i < length (slots t)" "slots t ! i = None" using d table_okD(3) [OF assms(1)] by (simp_all add: i_def probe_at_def)
    let ?s = "fresh_symbol k v name"
    define u where "u = t\<lparr>slots := (slots t)[i := Some ?s], y_count := y_count t + 1\<rparr>"
    have us: "slots u = (slots t)[i := Some ?s]" "y_count u = y_count t + 1" "todo u = todo t" "materialized u = materialized t" by (simp_all add: u_def)
    have absent_at: "y_name s \<noteq> name" if "j < length (slots t)" "slots t ! j = Some s" for j s
      using slot_unique [OF assms(1) that] absent(1) by auto
    have "library_symbol_add t (v, name) k = Inr u"
      using absent(1) False free_probe_stops [OF k2, of d name 0 "length (slots t)"] d table_okD(3) [OF assms(1)]
      by (simp add: library_symbol_add_def probe_at_0 i_def fresh_symbol_def u_def)
    moreover have ok: "table_ok u"
    proof -
      have p: "probe_at u n e = probe_at t n e" for n e by (rule probe_at_slots) (simp add: us)
      have "{j. j < length (slots t) \<and> slots u ! j \<noteq> None} = insert i {j. j < length (slots t) \<and> slots t ! j \<noteq> None}"
        using i by (auto simp: us nth_list_update)
      then have c: "card {j. j < length (slots t) \<and> slots u ! j \<noteq> None} = y_count t + 1"
        using table_okD(5) [OF assms(1)] i by simp
      have o: "other_name t n j \<Longrightarrow> other_name u n j" for n j
        using i by (cases "j = i") (auto simp: other_name_def us)
      have lt: "probe_at t n x < length (slots t)" for n x using table_okD(3) [OF assms(1)] by (simp add: probe_at_def)
      have "y_name s \<noteq> [] \<and> (\<exists>e < length (slots t). j = probe_at t (y_name s) e \<and> (\<forall>x < e. other_name u (y_name s) (probe_at t (y_name s) x)))"
        if j: "j < length (slots t)" "slots u ! j = Some s" for j s
      proof (cases "j = i")
        case True
        then have s: "s = ?s" using j i by (simp add: us)
        have "other_name u name (probe_at t name x)" if "x < d" for x
          using d(3) that absent_at [OF lt [of name x]] by (intro o) (auto simp: other_name_def)
        then show ?thesis using True d(1) False unfolding s i_def by (auto simp: fresh_symbol_def)
      next
        case False
        then have "slots t ! j = Some s" using j by (simp add: us)
        from table_ok_path [OF assms(1) j(1) this] show ?thesis using o by blast
      qed
      then show ?thesis using assms(2) k2 c by (simp add: table_ok_def p us)
    qed
    moreover have "lookup_symbol u n = (if n = name then Some ?s else lookup_symbol t n)" for n
    proof -
      have "lookup_symbol u n = Some x \<longleftrightarrow> (if n = name then x = ?s else lookup_symbol t n = Some x)" for x
      proof -
        have "lookup_symbol u n = Some x \<longleftrightarrow> (\<exists>j < length (slots t). (if j = i then x = ?s else slots t ! j = Some x) \<and> y_name x = n)"
          unfolding lookup_symbol_at [OF ok] using i by (auto simp: us nth_list_update)
        also have "\<dots> \<longleftrightarrow> (if n = name then x = ?s else lookup_symbol t n = Some x)"
        proof (cases "n = name")
          case True
          then show ?thesis using absent_at i by (auto simp: fresh_symbol_def)
        next
          case False
          then show ?thesis using i unfolding lookup_symbol_at [OF assms(1)] by (auto simp: fresh_symbol_def) (metis option.distinct(1))
        qed
        finally show ?thesis .
      qed
      then show ?thesis by (intro option_same) auto
    qed
    ultimately show thesis using False absent(2) by (intro that [of u]) (simp_all add: us)
  qed
qed


text \<open>All definitions of the libraries, in the order they are linked.\<close>

fun symbols_of :: "nat \<Rightarrow> ir_module list \<Rightarrow> (bytes \<times> lib_symbol) list" where
  "symbols_of k [] = []"
| "symbols_of k (m # ms) = map (\<lambda>(v, name). (name, fresh_symbol k v name)) (filter (\<lambda>(v, name). name \<noteq> []) (definitions_of m)) @ symbols_of (k + 1) ms"

lemma definitions_count: "length (definitions_of m) \<le> length (funs m) + length (vars m)"
  unfolding definitions_of_def by (simp add: add_mono)

lemma add_all_ok:
  assumes "table_ok t" "y_count t + length vs < length (slots t)"
  obtains t' where "add_all k vs t = Inr t'" "table_ok t'" "length (slots t') = length (slots t)" "y_count t' \<le> y_count t + length vs"
    "todo t' = todo t" "materialized t' = materialized t"
    "lookup_symbol t' = map_of (map (\<lambda>(v, name). (name, fresh_symbol k v name)) (filter (\<lambda>(v, name). name \<noteq> []) vs)) ++ lookup_symbol t"
  using assms
proof (induction vs arbitrary: t thesis)
  case Nil
  then show ?case by (auto simp: map_add_def split: option.split)
next
  case (Cons p vs)
  obtain v name where p: "p = (v, name)" by (cases p)
  obtain u where u: "library_symbol_add t (v, name) k = Inr u" "table_ok u" "length (slots u) = length (slots t)" "y_count u \<le> y_count t + 1"
    "todo u = todo t" "materialized u = materialized t"
    "\<And>n. lookup_symbol u n = (if n = name \<and> name \<noteq> [] \<and> lookup_symbol t name = None then Some (fresh_symbol k v name) else lookup_symbol t n)"
    using library_symbol_add_ok [OF Cons.prems(2), of v name k] Cons.prems(3) by auto
  have "y_count u + length vs < length (slots u)" using u Cons.prems(3) by simp
  then obtain t' where t': "add_all k vs u = Inr t'" "table_ok t'" "length (slots t') = length (slots u)" "y_count t' \<le> y_count u + length vs"
    "todo t' = todo u" "materialized t' = materialized u"
    "lookup_symbol t' = map_of (map (\<lambda>(v, name). (name, fresh_symbol k v name)) (filter (\<lambda>(v, name). name \<noteq> []) vs)) ++ lookup_symbol u"
    using Cons.IH [of u] u(2) by blast
  show ?case
    using Cons.prems(1) [of t'] t' u p by (auto simp: fun_eq_iff map_add_def split: option.split)
qed

lemma add_modules_ok:
  assumes "table_ok t" "y_count t + globals_of ms < length (slots t)"
  obtains t' where "add_modules k ms t = Inr t'" "table_ok t'" "length (slots t') = length (slots t)"
    "todo t' = todo t" "materialized t' = materialized t" "lookup_symbol t' = map_of (symbols_of k ms) ++ lookup_symbol t"
  using assms
proof (induction ms arbitrary: t k thesis)
  case Nil
  then show ?case by (auto simp: map_add_def split: option.split)
next
  case (Cons m ms)
  have l: "y_count t + length (definitions_of m) + globals_of ms < length (slots t)"
    using Cons.prems(3) definitions_count [of m] by (simp add: globals_of_def)
  then obtain u where u: "add_all k (definitions_of m) t = Inr u" "table_ok u" "length (slots u) = length (slots t)"
    "y_count u \<le> y_count t + length (definitions_of m)" "todo u = todo t" "materialized u = materialized t"
    "lookup_symbol u = map_of (map (\<lambda>(v, name). (name, fresh_symbol k v name)) (filter (\<lambda>(v, name). name \<noteq> []) (definitions_of m))) ++ lookup_symbol t"
    using add_all_ok [OF Cons.prems(2), of "definitions_of m" k] by auto
  then obtain t' where t': "add_modules (k + 1) ms u = Inr t'" "table_ok t'" "length (slots t') = length (slots u)"
    "todo t' = todo u" "materialized t' = materialized u" "lookup_symbol t' = map_of (symbols_of (k + 1) ms) ++ lookup_symbol u"
    using Cons.IH [of "k + 1" u] l by auto
  show ?case by (rule Cons.prems(1) [of t']) (use t' u in \<open>simp_all add: map_add_assoc\<close>)
qed

lemma table_cap_ok: "0 < cap \<Longrightarrow> cap = 2 ^ k \<Longrightarrow> n \<le> table_cap cap n \<and> cap \<le> table_cap cap n \<and> (\<exists>j. table_cap cap n = 2 ^ j)"
proof (induction cap n arbitrary: k rule: table_cap.induct)
  case (1 cap n)
  show ?case
  proof (cases "n \<le> cap")
    case True
    then have e: "table_cap cap n = cap" by (subst table_cap.simps) simp
    show ?thesis unfolding e using 1(3) True by auto
  next
    case False
    then have e: "table_cap cap n = table_cap (cap * 2) n" using 1(2) by (subst table_cap.simps) simp
    have "n \<le> table_cap (cap * 2) n \<and> cap * 2 \<le> table_cap (cap * 2) n \<and> (\<exists>j. table_cap (cap * 2) n = 2 ^ j)"
      by (rule 1(1) [of "Suc k"]) (use 1(2,3) False in simp_all)
    then show ?thesis unfolding e by (auto intro: order_trans [of cap "cap * 2"])
  qed
qed

lemma no_symbols_ok:
  assumes "cap = 2 ^ k"
  shows "table_ok (no_symbols cap)" "lookup_symbol (no_symbols cap) = Map.empty"
proof -
  have "{i. i < cap \<and> replicate cap (None :: lib_symbol option) ! i \<noteq> None} = {}" by auto
  then have "card {i. i < cap \<and> replicate cap (None :: lib_symbol option) ! i \<noteq> None} = 0" by (simp only: card.empty)
  then show ok: "table_ok (no_symbols cap)" using assms by (auto simp: table_ok_def no_symbols_def)
  show "lookup_symbol (no_symbols cap) = Map.empty"
  proof
    fix n
    show "lookup_symbol (no_symbols cap) n = None"
      using lookup_symbol_mem [OF ok, of n] by (cases "lookup_symbol (no_symbols cap) n") (auto simp: no_symbols_def)
  qed
qed

text \<open>The table of the link: the first definition of a name, and no search in it goes round.\<close>

lemma filled_table:
  obtains t where "add_modules 0 mods (no_symbols (table_cap 64 (globals_of mods * 2))) = Inr t" "table_ok t" "todo t = []" "materialized t = []"
    "lookup_symbol t = map_of (symbols_of 0 mods)"
proof -
  let ?cap = "table_cap 64 (globals_of mods * 2)"
  have "globals_of mods * 2 \<le> ?cap \<and> 64 \<le> ?cap \<and> (\<exists>j. ?cap = 2 ^ j)" by (rule table_cap_ok [of _ 6]) simp_all
  then obtain j where j: "?cap = 2 ^ j" and c: "globals_of mods * 2 \<le> ?cap" "64 \<le> ?cap" by blast
  note e = no_symbols_ok [OF j]
  have "y_count (no_symbols ?cap) + globals_of mods < length (slots (no_symbols ?cap))" using c by (simp add: no_symbols_def)
  from add_modules_ok [OF e(1) this, of 0] obtain t where t: "add_modules 0 mods (no_symbols ?cap) = Inr t" "table_ok t"
    "todo t = todo (no_symbols ?cap)" "materialized t = materialized (no_symbols ?cap)" "lookup_symbol t = map_of (symbols_of 0 mods) ++ lookup_symbol (no_symbols ?cap)"
    by blast
  have "todo t = []" "materialized t = []" using t(3,4) by (simp_all add: no_symbols_def)
  then show thesis using that [OF t(1,2)] t(5) e(2) by simp
qed

subsection \<open>What is needed\<close>

definition value_named :: "lib_symbols \<Rightarrow> bytes \<Rightarrow> nat option" where
  "value_named t n = map_option y_value (lookup_symbol t n)"

definition needed_names :: "lib_symbols \<Rightarrow> bytes set" where
  "needed_names t = {n. \<exists>s. lookup_symbol t n = Some s \<and> y_needed s}"

lemma needed_at_lookup: "slots t ! i = Some s \<Longrightarrow> needed_at t i = y_needed s" "slots t ! i = Some s \<Longrightarrow> value_at t i = y_value s"
  by (simp_all add: needed_at_def value_at_def)

lemma set_needed_names:
  assumes "table_ok t" "i < length (slots t)" "slots t ! i = Some s"
  shows "value_named (set_needed i t) = value_named t" "needed_names (set_needed i t) = insert (y_name s) (needed_names t)"
proof -
  have l: "lookup_symbol t (y_name s) = Some s" using assms lookup_symbol_at [OF assms(1)] by blast
  show "value_named (set_needed i t) = value_named t" using l by (auto simp: fun_eq_iff value_named_def lookup_set_needed [OF assms])
  show "needed_names (set_needed i t) = insert (y_name s) (needed_names t)" by (auto simp: needed_names_def lookup_set_needed [OF assms])
qed

lemma todo_update: "table_ok (t\<lparr>todo := x\<rparr>) = table_ok t" "lookup_symbol (t\<lparr>todo := x\<rparr>) = lookup_symbol t"
  "table_ok (t\<lparr>materialized := y\<rparr>) = table_ok t" "lookup_symbol (t\<lparr>materialized := y\<rparr>) = lookup_symbol t"
proof -
  have p: "first_slot (t\<lparr>todo := x\<rparr>) = first_slot t" "first_slot (t\<lparr>materialized := y\<rparr>) = first_slot t" by (simp_all add: first_slot_def fun_eq_iff)
  have q: "next_slot (t\<lparr>todo := x\<rparr>) = next_slot t" "next_slot (t\<lparr>materialized := y\<rparr>) = next_slot t" by (simp_all add: next_slot_def fun_eq_iff)
  show "table_ok (t\<lparr>todo := x\<rparr>) = table_ok t" "table_ok (t\<lparr>materialized := y\<rparr>) = table_ok t"
    by (simp_all add: table_ok_def probe_at_def other_name_def p)
  have "find_probe n (t\<lparr>todo := x\<rparr>) name i = find_probe n t name i" "find_probe n (t\<lparr>materialized := y\<rparr>) name i = find_probe n t name i" for n name i
    by (induction n arbitrary: i) (simp_all add: q split: option.split)
  then show "lookup_symbol (t\<lparr>todo := x\<rparr>) = lookup_symbol t" "lookup_symbol (t\<lparr>materialized := y\<rparr>) = lookup_symbol t"
    by (simp_all add: fun_eq_iff lookup_symbol_def library_symbol_find_def p split: sum.split option.split)
qed

lemma todo_update_names [simp]:
  "value_named (t\<lparr>todo := x\<rparr>) = value_named t" "needed_names (t\<lparr>todo := x\<rparr>) = needed_names t"
  "value_named (t\<lparr>materialized := y\<rparr>) = value_named t" "needed_names (t\<lparr>materialized := y\<rparr>) = needed_names t"
  by (simp_all add: value_named_def needed_names_def todo_update fun_eq_iff)

lemma needed_known: "needed_names t \<subseteq> dom (value_named t)"
  by (auto simp: needed_names_def value_named_def)

lemma find_value: "table_ok t \<Longrightarrow> library_symbol_find t n = Inr None \<longleftrightarrow> value_named t n = None"
  by (cases rule: find_lookup [of t n]) (auto simp: value_named_def)

lemma library_symbol_need_ok:
  assumes "table_ok t"
  obtains t' where "library_symbol_need n t = Inr t'" "table_ok t'" "value_named t' = value_named t" "y_count t' = y_count t" "materialized t' = materialized t"
    "needed_names t' = needed_names t \<union> ({n} \<inter> dom (value_named t))"
    "todo t' = (if n \<in> dom (value_named t) - needed_names t then [the (value_named t n)] else []) @ todo t"
proof (cases rule: find_lookup [OF assms, of n, case_names absent present])
  case absent
  then show thesis using assms by (intro that [of t]) (auto simp: library_symbol_need_def value_named_def)
next
  case (present i s)
  show thesis
  proof (cases "y_needed s")
    case True
    then show thesis using present assms
      by (intro that [of t]) (auto simp: library_symbol_need_def value_named_def needed_names_def needed_at_lookup)
  next
    case False
    then show thesis using present assms set_needed_ok [OF assms present(2)] set_needed_names [OF assms present(2,3)]
      by (intro that [of "(set_needed i t)\<lparr>todo := value_at t i # todo t\<rparr>"])
        (auto simp: library_symbol_need_def todo_update needed_at_lookup value_named_def needed_names_def)
  qed
qed

lemma need_all_ok:
  assumes "table_ok t"
  obtains t' where "need_all ns t = Inr t'" "table_ok t'" "value_named t' = value_named t" "y_count t' = y_count t" "materialized t' = materialized t"
    "needed_names t' = needed_names t \<union> (set ns \<inter> dom (value_named t))"
    "set (todo t') = set (todo t) \<union> the ` value_named t ` (needed_names t' - needed_names t)"
    "length (todo t') = length (todo t) + card (needed_names t' - needed_names t)"
  using assms
proof (induction ns arbitrary: t thesis)
  case Nil
  then show ?case by simp
next
  case (Cons n ns)
  obtain u where u: "library_symbol_need n t = Inr u" "table_ok u" "value_named u = value_named t" "y_count u = y_count t" "materialized u = materialized t"
    "needed_names u = needed_names t \<union> ({n} \<inter> dom (value_named t))"
    "todo u = (if n \<in> dom (value_named t) - needed_names t then [the (value_named t n)] else []) @ todo t"
    by (rule library_symbol_need_ok [OF Cons.prems(2), of n])
  obtain t' where t': "need_all ns u = Inr t'" "table_ok t'" "value_named t' = value_named u" "y_count t' = y_count u" "materialized t' = materialized u"
    "needed_names t' = needed_names u \<union> (set ns \<inter> dom (value_named u))"
    "set (todo t') = set (todo u) \<union> the ` value_named u ` (needed_names t' - needed_names u)"
    "length (todo t') = length (todo u) + card (needed_names t' - needed_names u)"
    using Cons.IH [OF _ u(2)] by blast
  let ?new = "{n} \<inter> dom (value_named t) - needed_names t" and ?more = "needed_names t' - needed_names u"
  have split: "needed_names t' - needed_names t = ?new \<union> ?more" "?new \<inter> ?more = {}" using t'(6) u(3,6) by auto
  have "?more \<subseteq> set ns" using t'(6) by auto
  then have fin: "finite ?more" by (rule finite_subset) simp
  show ?case
  proof (rule Cons.prems(1) [of t'])
    show "set (todo t') = set (todo t) \<union> the ` value_named t ` (needed_names t' - needed_names t)"
      unfolding split t'(7) u(7) using u(3) by auto
    show "length (todo t') = length (todo t) + card (needed_names t' - needed_names t)"
    proof (cases "n \<in> dom (value_named t) - needed_names t")
      case True
      then have e: "?new = {n}" and "n \<notin> ?more" using u(6) by auto
      then show ?thesis using True fin unfolding split(1) e t'(8) u(7) by simp
    next
      case False
      then have e: "?new = {}" by auto
      show ?thesis unfolding split(1) e t'(8) u(7) using False by (simp only: if_False Un_empty_left append_Nil)
    qed
  qed (use t' u in auto)
qed


text \<open>The globals that are found in an operand, and all of them when no constant is nested deeper than the code follows.\<close>

fun named_within :: "nat \<Rightarrow> operand \<Rightarrow> nat list" where
  "named_within d (Global v) = (if d > 32 then [] else [v])"
| "named_within d (Const ops) = (if d > 32 then [] else concat (map (named_within (d + 1)) ops))"
| "named_within d Plain = []"

fun nesting :: "operand \<Rightarrow> nat" where
  "nesting (Const ops) = Suc (foldr (\<lambda>op n. max (nesting op) n) ops 0)"
| "nesting _ = 0"

lemma nesting_member: "op \<in> set ops \<Longrightarrow> nesting op \<le> foldr (\<lambda>op n. max (nesting op) n) ops 0"
  by (induction ops) auto

lemma named_within_all: "d + nesting op \<le> 32 \<Longrightarrow> named_within d op = named_in op"
proof (induction d op rule: named_within.induct)
  case (2 d ops)
  have "named_within (d + 1) op = named_in op" if "op \<in> set ops" for op
    using 2 that nesting_member [OF that] by simp
  then show ?case using 2(2) by (simp cong: map_cong)
qed simp_all

lemma need_all_append: "need_all (ms @ ns) t = andthen (need_all ms t) (need_all ns)"
proof (induction ms arbitrary: t)
  case (Cons m ms)
  then show ?case by (cases "library_symbol_need m t") simp_all
qed simp

lemma named_by_need_all:
  "library_symbols_named_by nm op d t = need_all (map nm (named_within d op)) t"
  "library_symbols_named_by_all nm ops d t = need_all (map nm (concat (map (named_within d) ops))) t"
proof (induction nm op d t and nm ops d t rule: library_symbols_named_by_library_symbols_named_by_all.induct)
  case (1 nm v depth t)
  then show ?case by (cases "library_symbol_need (nm v) t") simp_all
next
  case (5 nm op ops depth t)
  have "library_symbols_named_by_all nm ops depth = need_all (map nm (concat (map (named_within depth) ops)))" by (rule ext) (rule 5(2))
  then show ?case using 5(1) by (simp add: need_all_append)
qed (simp_all add: map_concat comp_def)

definition names_read :: "ir_module list \<Rightarrow> nat \<Rightarrow> bytes list" where
  "names_read mods v =
     (case find_var mods v of
        Some g \<Rightarrow> (case v_init g of None \<Rightarrow> [] | Some op \<Rightarrow> map (name_of mods) (named_within 0 op))
      | None \<Rightarrow> (case find_fun mods v of None \<Rightarrow> []
          | Some f \<Rightarrow> map (name_of mods) (concat (map (named_within 0) (concat (map i_ops (body_of f)))))))"

definition is_code :: "ir_module list \<Rightarrow> nat \<Rightarrow> bool" where
  "is_code mods v \<longleftrightarrow> find_var mods v = None \<and> find_fun mods v \<noteq> None"

lemma look_at_need_all:
  "look_at readable mods v t =
     (if is_code mods v \<and> \<not> readable v then Inr (False, t)
      else andthen (need_all (names_read mods v) (if is_code mods v then t\<lparr>materialized := v # materialized t\<rparr> else t)) (\<lambda>t. Inr (True, t)))"
  by (simp add: look_at_def is_code_def names_read_def named_by_need_all split: option.split)

text \<open>The symbols a program reaches: \<open>V\<close> is the first definition of each name, \<open>B\<close> what the program defines itself.\<close>

inductive reached :: "ir_module list \<Rightarrow> (bytes \<rightharpoonup> nat) \<Rightarrow> bytes set \<Rightarrow> bytes set \<Rightarrow> bytes \<Rightarrow> bool" for mods V B R where
  root: "n \<in> R \<Longrightarrow> n \<in> dom V \<Longrightarrow> n \<notin> B \<Longrightarrow> reached mods V B R n"
| named: "reached mods V B R n \<Longrightarrow> V n = Some v \<Longrightarrow> m \<in> set (names_read mods v) \<Longrightarrow> m \<in> dom V \<Longrightarrow> m \<notin> B \<Longrightarrow> reached mods V B R m"

text \<open>While the stack is emptied: a needed symbol is on it or has all it reads needed.\<close>

definition closing :: "ir_module list \<Rightarrow> (bytes \<rightharpoonup> nat) \<Rightarrow> bytes set \<Rightarrow> bytes set \<Rightarrow> lib_symbols \<Rightarrow> bool" where
  "closing mods V B R t \<longleftrightarrow>
     table_ok t \<and> value_named t = V \<and> B \<subseteq> needed_names t \<and> R \<inter> dom V \<subseteq> needed_names t
     \<and> (\<forall>n \<in> needed_names t - B. reached mods V B R n
          \<and> (the (V n) \<in> set (todo t) \<or> set (names_read mods (the (V n))) \<inter> dom V \<subseteq> needed_names t \<and> (is_code mods (the (V n)) \<longrightarrow> the (V n) \<in> set (materialized t))))
     \<and> set (todo t) \<subseteq> (\<lambda>n. the (V n)) ` (needed_names t - B)
     \<and> set (materialized t) \<subseteq> (\<lambda>n. the (V n)) ` (needed_names t - B) \<inter> Collect (is_code mods)"

lemma closing_step:
  assumes "closing mods V B R t" "todo t = v # vs" "is_code mods v \<longrightarrow> readable v"
  obtains t' where "look_at readable mods v (t\<lparr>todo := vs\<rparr>) = Inr (True, t')" "closing mods V B R t'" "materialized t' = (if is_code mods v then [v] else []) @ materialized t"
    "length (todo t') + card (dom V - needed_names t') < length (todo t) + card (dom V - needed_names t) \<or> infinite (dom V)"
proof -
  let ?t = "if is_code mods v then t\<lparr>todo := vs, materialized := v # materialized t\<rparr> else t\<lparr>todo := vs\<rparr>"
  note c = assms(1) [unfolded closing_def]
  have s: "table_ok ?t" "value_named ?t = V" "needed_names ?t = needed_names t" "todo ?t = vs" using c by (simp_all add: todo_update)
  obtain t' where t': "need_all (names_read mods v) ?t = Inr t'" "table_ok t'" "value_named t' = V" "materialized t' = materialized ?t"
    "needed_names t' = needed_names t \<union> (set (names_read mods v) \<inter> dom V)"
    "set (todo t') = set vs \<union> the ` V ` (needed_names t' - needed_names t)"
    "length (todo t') = length vs + card (needed_names t' - needed_names t)"
    using need_all_ok [OF s(1), of "names_read mods v"] unfolding s by metis
  have l: "look_at readable mods v (t\<lparr>todo := vs\<rparr>) = Inr (True, t')" using assms(3) t'(1) by (auto simp: look_at_need_all split: if_split_asm)
  obtain n0 where n0: "n0 \<in> needed_names t - B" "v = the (V n0)" using c assms(2) by auto
  have dom: "needed_names t \<subseteq> dom V" using needed_known [of t] c by simp
  have new: "reached mods V B R m" if "m \<in> needed_names t' - needed_names t" for m
  proof -
    have m: "m \<in> set (names_read mods v)" "m \<in> dom V" "m \<notin> B" using that t'(5) c by auto
    have "V n0 = Some v" using n0 dom by fastforce
    moreover have "reached mods V B R n0" using n0 c by blast
    ultimately show ?thesis using m reached.named by blast
  qed
  have "closing mods V B R t'"
    unfolding closing_def
  proof (intro conjI ballI)
    show "table_ok t'" "value_named t' = V" by (rule t')+
    show "B \<subseteq> needed_names t'" "R \<inter> dom V \<subseteq> needed_names t'" using c t'(5) by auto
    have old: "the (V n) \<in> set (todo t) \<or> set (names_read mods (the (V n))) \<inter> dom V \<subseteq> needed_names t \<and> (is_code mods (the (V n)) \<longrightarrow> the (V n) \<in> set (materialized t))"
      if "n \<in> needed_names t" "n \<notin> B" for n using c that by blast
    fix n assume n: "n \<in> needed_names t' - B"
    show "reached mods V B R n" using n new c by blast
    show "the (V n) \<in> set (todo t') \<or> set (names_read mods (the (V n))) \<inter> dom V \<subseteq> needed_names t' \<and> (is_code mods (the (V n)) \<longrightarrow> the (V n) \<in> set (materialized t'))"
    proof (cases "n \<in> needed_names t")
      case True
      show ?thesis
      proof (cases "the (V n) = v")
        case True
        then show ?thesis using t'(4,5) by auto
      next
        case False
        then show ?thesis using old [OF True] n assms(2) t'(4,5,6) by auto
      qed
    next
      case False
      then show ?thesis using n t'(6) by auto
    qed
  next
    show "set (todo t') \<subseteq> (\<lambda>n. the (V n)) ` (needed_names t' - B)"
    proof
      fix w assume "w \<in> set (todo t')"
      then consider "w \<in> set vs" | m where "m \<in> needed_names t' - needed_names t" "w = the (V m)" using t'(6) by auto
      then show "w \<in> (\<lambda>n. the (V n)) ` (needed_names t' - B)"
      proof cases
        case 1
        then show ?thesis using c assms(2) t'(5) by auto
      next
        case 2
        then show ?thesis using c by auto
      qed
    qed
    have "(\<lambda>n. the (V n)) ` (needed_names t - B) \<subseteq> (\<lambda>n. the (V n)) ` (needed_names t' - B)" by (rule image_mono) (use t'(5) in blast)
    moreover have "set (materialized t) \<subseteq> (\<lambda>n. the (V n)) ` (needed_names t - B) \<inter> Collect (is_code mods)" using c by (elim conjE)
    ultimately have "set (materialized t) \<subseteq> (\<lambda>n. the (V n)) ` (needed_names t' - B) \<inter> Collect (is_code mods)" by (meson Int_mono order_refl subset_trans)
    moreover have "v \<in> (\<lambda>n. the (V n)) ` (needed_names t' - B)" using n0 t'(5) by auto
    ultimately show "set (materialized t') \<subseteq> (\<lambda>n. the (V n)) ` (needed_names t' - B) \<inter> Collect (is_code mods)"
      unfolding t'(4) by (cases "is_code mods v") simp_all
  qed
  moreover have "length (todo t') + card (dom V - needed_names t') < length (todo t) + card (dom V - needed_names t)" if "finite (dom V)"
  proof -
    have d: "dom V - needed_names t = (dom V - needed_names t') \<union> (needed_names t' - needed_names t)" using t'(5) by auto
    have "card (dom V - needed_names t) = card (dom V - needed_names t') + card (needed_names t' - needed_names t)"
      unfolding d using that t'(5) by (subst card_Un_disjoint) (auto intro: finite_subset [of _ "dom V"])
    then show ?thesis using t'(7) assms(2) by simp
  qed
  moreover have "materialized t' = (if is_code mods v then [v] else []) @ materialized t" using t'(4) by simp
  ultimately show thesis using that l by blast
qed


lemma closing_done:
  assumes "closing mods V B R t" "todo t = []"
  shows "needed_names t - B = Collect (reached mods V B R)" "set (materialized t) = {v. is_code mods v \<and> (\<exists>n. reached mods V B R n \<and> V n = Some v)}"
proof -
  note c = assms(1) [unfolded closing_def assms(2)]
  have "n \<in> needed_names t" if "reached mods V B R n" for n
    using that
  proof (induction rule: reached.induct)
    case (root n)
    then show ?case using c by blast
  next
    case (named n v m)
    have "n \<notin> B" using named.hyps(1) by (cases rule: reached.cases) auto
    then have "set (names_read mods (the (V n))) \<inter> dom V \<subseteq> needed_names t" using named.IH c by auto
    then show ?case using named.hyps by auto
  qed
  moreover have "n \<notin> B" if "reached mods V B R n" for n using that by (cases rule: reached.cases) auto
  moreover have "reached mods V B R n" if "n \<in> needed_names t - B" for n using that c by blast
  ultimately show e: "needed_names t - B = Collect (reached mods V B R)" by blast
  have dom: "needed_names t \<subseteq> dom V" using needed_known [of t] c by simp
  have val: "V n = Some (the (V n))" if "reached mods V B R n" for n using that e dom by fastforce
  have "set (materialized t) \<subseteq> (\<lambda>n. the (V n)) ` Collect (reached mods V B R) \<inter> Collect (is_code mods)" using c unfolding e by blast
  moreover have "v \<in> set (materialized t)" if "is_code mods v" "reached mods V B R n" "V n = Some v" for n v
  proof -
    have "n \<in> needed_names t - B" using e that(2) by simp
    then have "is_code mods (the (V n)) \<longrightarrow> the (V n) \<in> set (materialized t)" using c by auto
    then show ?thesis using that by simp
  qed
  ultimately show "set (materialized t) = {v. is_code mods v \<and> (\<exists>n. reached mods V B R n \<and> V n = Some v)}" using val by blast
qed

lemma closure_ok:
  assumes "closing mods V B R t" "finite (dom V)" "length (todo t) + card (dom V - needed_names t) \<le> fuel" "set (materialized t) \<subseteq> Collect readable"
  shows "(\<exists>t'. library_symbols_close fuel readable mods t = Inr (0, t') \<and> closing mods V B R t' \<and> todo t' = [] \<and> set (materialized t') \<subseteq> Collect readable)
    \<or> (\<exists>t' n v. library_symbols_close fuel readable mods t = Inr (1, t') \<and> reached mods V B R n \<and> V n = Some v \<and> is_code mods v \<and> \<not> readable v)"
  using assms(1,3,4)
proof (induction fuel arbitrary: t)
  case 0
  then show ?case by (simp add: library_symbols_close.simps)
next
  case (Suc fuel)
  show ?case
  proof (cases "todo t")
    case Nil
    then show ?thesis using Suc.prems by (simp add: library_symbols_close.simps)
  next
    case (Cons v vs)
    show ?thesis
    proof (cases "is_code mods v \<and> \<not> readable v")
      case True
      note c = Suc.prems(1) [unfolded closing_def]
      obtain n where n: "n \<in> needed_names t - B" "v = the (V n)" using c Cons by auto
      then have "reached mods V B R n" using c by blast
      moreover have "V n = Some v" using n needed_known [of t] c by fastforce
      moreover obtain u where "library_symbols_close (Suc fuel) readable mods t = Inr (1, u)"
        using True Cons by (simp add: library_symbols_close.simps [of "Suc fuel"] look_at_need_all)
      ultimately show ?thesis using True by blast
    next
      case False
      then have r: "is_code mods v \<longrightarrow> readable v" by blast
      obtain t' where t': "look_at readable mods v (t\<lparr>todo := vs\<rparr>) = Inr (True, t')" "closing mods V B R t'"
        "materialized t' = (if is_code mods v then [v] else []) @ materialized t"
        "length (todo t') + card (dom V - needed_names t') < length (todo t) + card (dom V - needed_names t) \<or> infinite (dom V)"
        by (rule closing_step [OF Suc.prems(1) Cons, of readable, OF r])
      have "length (todo t') + card (dom V - needed_names t') \<le> fuel" using t'(4) assms(2) Suc.prems(2) by simp
      moreover have "set (materialized t') \<subseteq> Collect readable" using t'(3) Suc.prems(3) r by auto
      moreover have "library_symbols_close (Suc fuel) readable mods t = library_symbols_close fuel readable mods t'"
        using Cons t'(1) by (simp add: library_symbols_close.simps [of "Suc fuel"])
      ultimately show ?thesis using Suc.IH [OF t'(2)] by simp
    qed
  qed
qed

subsection \<open>The roots\<close>

definition own_definitions :: "ir_module \<Rightarrow> bytes set" where
  "own_definitions dm = g_name ` {f \<in> set (funs dm). f_body f \<noteq> None}"

definition used_declarations :: "ir_module \<Rightarrow> bytes set" where
  "used_declarations dm = g_name ` {f \<in> set (funs dm). f_body f = None \<and> users_of dm (g_id f) \<noteq> []}"

definition root_names :: "ir_module \<Rightarrow> ir_module list \<Rightarrow> bytes set" where
  "root_names dm mods = used_declarations dm \<union> g_name ` {g \<in> set (vars dm). v_init g = None}
     \<union> name_of mods ` {v. \<exists>op \<in> set (appending_inits mods). v \<in> set (named_within 0 op)}"

definition first_values :: "ir_module list \<Rightarrow> bytes \<rightharpoonup> nat" where
  "first_values mods = map_option y_value \<circ> map_of (symbols_of 0 mods)"

abbreviation declared_and_used :: "(nat \<Rightarrow> user list) \<Rightarrow> ir_function list \<Rightarrow> bytes set" where
  "declared_and_used us fs \<equiv> g_name ` {f \<in> set fs. f_body f = None \<and> us (g_id f) \<noteq> []}"

lemma find_none: "table_ok t \<Longrightarrow> value_named t n = None \<Longrightarrow> library_symbol_find t n = Inr None"
  by (simp add: find_value)

lemma find_some:
  assumes "table_ok t" "n \<in> dom (value_named t)"
  obtains i s where "library_symbol_find t n = Inr (Some i)" "i < length (slots t)" "slots t ! i = Some s" "y_name s = n"
  using assms by (cases rule: find_lookup [OF assms(1), of n]) (auto simp: value_named_def)

definition program_visited :: "(nat \<Rightarrow> user list) \<Rightarrow> (bytes \<rightharpoonup> nat) \<Rightarrow> ir_function list \<Rightarrow> ir_module \<Rightarrow> lib_symbols \<Rightarrow> lib_symbols \<Rightarrow> bool" where
  "program_visited us V fs dm t t' \<longleftrightarrow>
     program_functions fs dm t = Inr (dm\<lparr>funs := filter (\<lambda>f. \<not> (f \<in> set fs \<and> f_body f = None \<and> g_name f \<in> dom V \<and> us (g_id f) = [])) (funs dm)\<rparr>, t')
     \<and> table_ok t' \<and> value_named t' = V \<and> y_count t' = y_count t \<and> materialized t' = materialized t
     \<and> needed_names t' = needed_names t \<union> (g_name ` {f \<in> set fs. f_body f \<noteq> None} \<union> declared_and_used us fs) \<inter> dom V
     \<and> set (todo t') = set (todo t) \<union> the ` V ` (declared_and_used us fs \<inter> dom V - needed_names t)
     \<and> length (todo t') + card (dom V - needed_names t') \<le> length (todo t) + card (dom V - needed_names t)"

lemma program_functions_ok:
  assumes "table_ok t" "\<And>v. users_of dm v = us v" "value_named t = V" "distinct fs" "set fs \<subseteq> set (funs dm)" "distinct (fun_ids dm)" "finite (dom V)"
    "\<And>f g. f \<in> set fs \<Longrightarrow> g \<in> set fs \<Longrightarrow> g_name f = g_name g \<Longrightarrow> g_name f \<in> dom V \<Longrightarrow> f_body f = None \<longleftrightarrow> f_body g = None"
  shows "\<exists>t'. program_visited us V fs dm t t'"
  using assms(1-6,8)
proof (induction fs arbitrary: dm t)
  case Nil
  then show ?case by (simp add: program_visited_def)
next
  case (Cons f fs)
  have names: "\<And>f g. f \<in> set fs \<Longrightarrow> g \<in> set fs \<Longrightarrow> g_name f = g_name g \<Longrightarrow> g_name f \<in> dom V \<Longrightarrow> f_body f = None \<longleftrightarrow> f_body g = None"
    using Cons.prems(7) by simp
  have rest: "distinct fs" "set fs \<subseteq> set (funs dm)" "f \<in> set (funs dm)" "f \<notin> set fs" using Cons.prems(4,5) by simp_all
  have IH: "\<exists>t'. program_visited us V fs dm' t1 t'"
    if "table_ok t1" "\<And>v. users_of dm' v = us v" "value_named t1 = V" "set fs \<subseteq> set (funs dm')" "distinct (fun_ids dm')" for dm' t1
    by (rule Cons.IH [OF that(1,2,3) rest(1) that(4,5)]) (rule names)
  show ?case
  proof (cases "g_name f \<in> dom V")
    case False
    then have "library_symbol_find t (g_name f) = Inr None" using Cons.prems(1,3) by (intro find_none) auto
    then have e: "program_functions (f # fs) dm t = program_functions fs dm t" by simp
    have s: "(g_name ` {g \<in> set (f # fs). f_body g \<noteq> None} \<union> declared_and_used us (f # fs)) \<inter> dom V = (g_name ` {g \<in> set fs. f_body g \<noteq> None} \<union> declared_and_used us fs) \<inter> dom V"
      "declared_and_used us (f # fs) \<inter> dom V = declared_and_used us fs \<inter> dom V"
      using False by auto
    have fl: "filter (\<lambda>g. \<not> (g \<in> set (f # fs) \<and> f_body g = None \<and> g_name g \<in> dom V \<and> us (g_id g) = [])) (funs dm)
        = filter (\<lambda>g. \<not> (g \<in> set fs \<and> f_body g = None \<and> g_name g \<in> dom V \<and> us (g_id g) = [])) (funs dm)"
      using False by (intro filter_cong) auto
    show ?thesis unfolding program_visited_def e s fl by (rule IH [unfolded program_visited_def]) (use Cons.prems(1,2,3,6) rest(2) in simp_all)
  next
    case True
    then obtain i s where i: "library_symbol_find t (g_name f) = Inr (Some i)" "i < length (slots t)" "slots t ! i = Some s" "y_name s = g_name f"
      using find_some [OF Cons.prems(1), of "g_name f"] Cons.prems(3) by blast
    consider (defined) "f_body f \<noteq> None" | (unused) "f_body f = None" "us (g_id f) = []" | (used) "f_body f = None" "us (g_id f) \<noteq> []" by blast
    then show ?thesis
    proof cases
      case defined
      let ?u = "set_needed i t"
      note u = set_needed_ok [OF Cons.prems(1) i(2)] set_needed_names [OF Cons.prems(1) i(2,3)]
      have e: "program_functions (f # fs) dm t = program_functions fs dm ?u" using i(1) defined by simp
      have fl: "filter (\<lambda>g. \<not> (g \<in> set (f # fs) \<and> f_body g = None \<and> g_name g \<in> dom V \<and> us (g_id g) = [])) (funs dm)
        = filter (\<lambda>g. \<not> (g \<in> set fs \<and> f_body g = None \<and> g_name g \<in> dom V \<and> us (g_id g) = [])) (funs dm)"
        using defined by (intro filter_cong) auto
      obtain t' where t': "program_functions fs dm ?u = Inr (dm\<lparr>funs := filter (\<lambda>f. \<not> (f \<in> set fs \<and> f_body f = None \<and> g_name f \<in> dom V \<and> us (g_id f) = [])) (funs dm)\<rparr>, t')"
        "table_ok t'" "value_named t' = V" "y_count t' = y_count ?u" "materialized t' = materialized ?u"
        "needed_names t' = needed_names ?u \<union> (g_name ` {f \<in> set fs. f_body f \<noteq> None} \<union> declared_and_used us fs) \<inter> dom V"
        "set (todo t') = set (todo ?u) \<union> the ` V ` (declared_and_used us fs \<inter> dom V - needed_names ?u)"
        "length (todo t') + card (dom V - needed_names t') \<le> length (todo ?u) + card (dom V - needed_names ?u)"
        using IH [OF u(1) Cons.prems(2) trans [OF u(2) Cons.prems(3)] rest(2) Cons.prems(6)] unfolding program_visited_def by (elim exE conjE)
      have out: "g_name f \<notin> declared_and_used us fs"
      proof
        assume "g_name f \<in> declared_and_used us fs"
        then obtain g where "g \<in> set fs" "f_body g = None" "g_name f = g_name g" by auto
        then show False using Cons.prems(7) [of f g] defined True by simp
      qed
      have less: "card (dom V - needed_names ?u) \<le> card (dom V - needed_names t)" using u(3) assms(7) by (intro card_mono) auto
      have gd: "g_name ` {g \<in> set (f # fs). f_body g \<noteq> None} = insert (g_name f) (g_name ` {g \<in> set fs. f_body g \<noteq> None})"
        "declared_and_used us (f # fs) = declared_and_used us fs" using defined by auto
      have "declared_and_used us fs \<inter> dom V - needed_names ?u = declared_and_used us fs \<inter> dom V - needed_names t" using u(3) i(4) out by auto
      moreover have "needed_names t' = needed_names t \<union> (insert (g_name f) (g_name ` {g \<in> set fs. f_body g \<noteq> None}) \<union> declared_and_used us fs) \<inter> dom V"
        unfolding t'(6) u(3) using i(4) True by auto
      ultimately show ?thesis unfolding program_visited_def e fl gd using t' less by (intro exI [of _ t'] conjI) simp_all
    next
      case unused
      let ?dm = "delete_function (g_id f) dm"
      have e: "program_functions (f # fs) dm t = program_functions fs ?dm t" using i(1) unused Cons.prems(2) by simp
      have one: "g = f" if "g \<in> set (funs dm)" "g_id g = g_id f" for g
        using Cons.prems(6) rest(3) that by (auto simp: fun_ids_def distinct_map inj_on_def)
      have us: "\<And>v. users_of ?dm v = us v" unfolding Cons.prems(2) [symmetric] by (rule users_of_delete) (use one unused(1) in blast)
      have r: "filter (\<lambda>g. g_id g \<noteq> g_id f) (funs dm) = filter (\<lambda>g. g \<noteq> f) (funs dm)" using one by (intro filter_cong) auto
      have fl: "filter (\<lambda>g. \<not> (g \<in> set (f # fs) \<and> f_body g = None \<and> g_name g \<in> dom V \<and> us (g_id g) = [])) (funs dm)
        = filter (\<lambda>g. \<not> (g \<in> set fs \<and> f_body g = None \<and> g_name g \<in> dom V \<and> us (g_id g) = [])) (filter (\<lambda>g. g_id g \<noteq> g_id f) (funs dm))"
        unfolding r using unused True by (auto intro: filter_cong)
      have s: "declared_and_used us (f # fs) = declared_and_used us fs" "{g \<in> set (f # fs). f_body g \<noteq> None} = {g \<in> set fs. f_body g \<noteq> None}" using unused by auto
      have "set fs \<subseteq> set (funs ?dm)" "distinct (fun_ids ?dm)" using rest Cons.prems(6) by (auto simp: r fun_ids_def distinct_map_filter)
      from IH [OF Cons.prems(1) us Cons.prems(3) this] show ?thesis unfolding program_visited_def e fl s by (simp add: delete_function_def)
    next
      case used
      obtain u where u: "library_symbol_need (g_name f) t = Inr u" "table_ok u" "value_named u = value_named t" "y_count u = y_count t" "materialized u = materialized t"
        "needed_names u = needed_names t \<union> ({g_name f} \<inter> dom (value_named t))"
        "todo u = (if g_name f \<in> dom (value_named t) - needed_names t then [the (value_named t (g_name f))] else []) @ todo t"
        by (rule library_symbol_need_ok [OF Cons.prems(1), of "g_name f"])
      have e: "program_functions (f # fs) dm t = program_functions fs dm u" using i(1) used Cons.prems(2) u(1) by simp
      have fl: "filter (\<lambda>g. \<not> (g \<in> set (f # fs) \<and> f_body g = None \<and> g_name g \<in> dom V \<and> us (g_id g) = [])) (funs dm)
        = filter (\<lambda>g. \<not> (g \<in> set fs \<and> f_body g = None \<and> g_name g \<in> dom V \<and> us (g_id g) = [])) (funs dm)"
        using used by (intro filter_cong) auto
      obtain t' where t': "program_functions fs dm u = Inr (dm\<lparr>funs := filter (\<lambda>f. \<not> (f \<in> set fs \<and> f_body f = None \<and> g_name f \<in> dom V \<and> us (g_id f) = [])) (funs dm)\<rparr>, t')"
        "table_ok t'" "value_named t' = V" "y_count t' = y_count u" "materialized t' = materialized u"
        "needed_names t' = needed_names u \<union> (g_name ` {f \<in> set fs. f_body f \<noteq> None} \<union> declared_and_used us fs) \<inter> dom V"
        "set (todo t') = set (todo u) \<union> the ` V ` (declared_and_used us fs \<inter> dom V - needed_names u)"
        "length (todo t') + card (dom V - needed_names t') \<le> length (todo u) + card (dom V - needed_names u)"
        using IH [OF u(2) Cons.prems(2) trans [OF u(3) Cons.prems(3)] rest(2) Cons.prems(6)] unfolding program_visited_def by (elim exE conjE)
      have du: "declared_and_used us (f # fs) = insert (g_name f) (declared_and_used us fs)" "{g \<in> set (f # fs). f_body g \<noteq> None} = {g \<in> set fs. f_body g \<noteq> None}"
        using used by auto
      have step: "length (todo u) + card (dom V - needed_names u) \<le> length (todo t) + card (dom V - needed_names t)"
      proof (cases "g_name f \<in> needed_names t")
        case False
        then have "dom V - needed_names t = insert (g_name f) (dom V - needed_names u)" "g_name f \<notin> dom V - needed_names u"
          using True u(6) Cons.prems(3) by auto
        then show ?thesis using False True u(7) Cons.prems(3) assms(7) by simp
      next
        case True
        then have "needed_names u = needed_names t" using u(6) by auto
        then show ?thesis using True u(7) by simp
      qed
      have tu: "set (todo u) = set (todo t) \<union> the ` V ` ({g_name f} - needed_names t)" "needed_names u = insert (g_name f) (needed_names t)"
        using u(6,7) True Cons.prems(3) by (auto split: if_split_asm)
      have tt: "set (todo t') = set (todo t) \<union> the ` V ` (insert (g_name f) (declared_and_used us fs) \<inter> dom V - needed_names t)"
        unfolding t'(7) tu using True by auto
      have "needed_names t' = needed_names t \<union> (g_name ` {g \<in> set fs. f_body g \<noteq> None} \<union> insert (g_name f) (declared_and_used us fs)) \<inter> dom V"
        unfolding t'(6) tu(2) using True by auto
      then show ?thesis unfolding program_visited_def e fl du using t'(1-5,8) tt u(4,5) step by (intro exI [of _ t'] conjI) simp_all
    qed
  qed
qed


lemma symbol_count:
  assumes "table_ok t"
  shows "finite (dom (value_named t))" "card (dom (value_named t)) \<le> y_count t"
proof -
  let ?I = "{i. i < length (slots t) \<and> slots t ! i \<noteq> None}"
  have "dom (value_named t) \<subseteq> (\<lambda>i. y_name (the (slots t ! i))) ` ?I"
  proof
    fix n assume "n \<in> dom (value_named t)"
    then obtain s where "lookup_symbol t n = Some s" by (auto simp: value_named_def)
    then obtain i where "i < length (slots t)" "slots t ! i = Some s" "y_name s = n" using lookup_symbol_at [OF assms] by blast
    then show "n \<in> (\<lambda>i. y_name (the (slots t ! i))) ` ?I" by force
  qed
  then show "finite (dom (value_named t))" "card (dom (value_named t)) \<le> y_count t"
    using surj_card_le [of ?I "dom (value_named t)"] finite_subset [OF _ finite_imageI [of ?I]] table_okD(5) [OF assms] by simp_all
qed

lemma symbols_named: "(n, s) \<in> set (symbols_of k mods) \<Longrightarrow> n \<noteq> []"
  by (induction k mods rule: symbols_of.induct) auto

lemma first_values_named: "n \<in> dom (first_values mods) \<Longrightarrow> n \<noteq> []"
  using symbols_named by (auto simp: first_values_def dest!: map_of_SomeD)

text \<open>No two functions of a module have one name.\<close>

definition names_apart :: "ir_module \<Rightarrow> bool" where
  "names_apart m \<longleftrightarrow> distinct (fun_ids m) \<and> (\<forall>f \<in> set (funs m). \<forall>g \<in> set (funs m). g_name f = g_name g \<longrightarrow> g_name f \<noteq> [] \<longrightarrow> f = g)"

definition without_unused :: "ir_module \<Rightarrow> (bytes \<rightharpoonup> nat) \<Rightarrow> ir_module" where
  "without_unused dm V = dm\<lparr>funs := filter (\<lambda>f. \<not> (f \<in> set (funs dm) \<and> f_body f = None \<and> g_name f \<in> dom V \<and> users_of dm (g_id f) = [])) (funs dm)\<rparr>"

lemma library_roots_ok:
  fixes dm mods
  assumes "names_apart dm"
  defines "V \<equiv> first_values mods"
  obtains t where "library_roots dm mods = Inr (without_unused dm V, t)" "closing mods V (own_definitions dm \<inter> dom V) (root_names dm mods) t"
    "finite (dom V)" "length (todo t) + card (dom V - needed_names t) \<le> y_count t" "materialized t = []"
proof -
  let ?B = "own_definitions dm \<inter> dom V" and ?U = "declared_and_used (users_of dm) (funs dm)"
  obtain t0 where t0: "add_modules 0 mods (no_symbols (table_cap 64 (globals_of mods * 2))) = Inr t0" "table_ok t0" "todo t0 = []" "materialized t0 = []"
    "lookup_symbol t0 = map_of (symbols_of 0 mods)" by (rule filled_table)
  have V: "value_named t0 = V" by (simp add: V_def first_values_def value_named_def t0(5) fun_eq_iff)
  have none: "needed_names t0 = {}"
  proof -
    have "\<not> y_needed s" if "(n, s) \<in> set (symbols_of k ms)" for n s k ms
      using that by (induction k ms rule: symbols_of.induct) (auto simp: fresh_symbol_def)
    then show ?thesis by (auto simp: needed_names_def t0(5) dest!: map_of_SomeD)
  qed
  note fin = symbol_count [OF t0(2), unfolded V]
  have apart: "f_body f = None \<longleftrightarrow> f_body g = None" if "f \<in> set (funs dm)" "g \<in> set (funs dm)" "g_name f = g_name g" "g_name f \<in> dom V" for f g
    using assms(1) that first_values_named [of "g_name f" mods] unfolding names_apart_def V_def by metis
  have "\<exists>t1. program_visited (users_of dm) V (funs dm) dm t0 t1"
    by (rule program_functions_ok [OF t0(2) refl V _ subset_refl _ fin(1) apart]) (use assms(1) in \<open>simp_all add: names_apart_def fun_ids_def distinct_map\<close>)
  then obtain t1 where t1: "program_functions (funs dm) dm t0 = Inr (without_unused dm V, t1)" "table_ok t1" "value_named t1 = V" "y_count t1 = y_count t0"
    "materialized t1 = materialized t0" "needed_names t1 = (own_definitions dm \<union> ?U) \<inter> dom V" "set (todo t1) = the ` V ` (?U \<inter> dom V)"
    "length (todo t1) + card (dom V - needed_names t1) \<le> card (dom V)"
    unfolding program_visited_def without_unused_def own_definitions_def by (auto simp: none t0(3))
  define ns where "ns = map g_name (filter (\<lambda>g. v_init g = None) (vars dm)) @ map (name_of mods) (concat (map (named_within 0) (appending_inits mods)))"
  obtain t where t: "need_all ns t1 = Inr t" "table_ok t" "value_named t = V" "y_count t = y_count t1" "materialized t = materialized t1"
    "needed_names t = needed_names t1 \<union> (set ns \<inter> dom V)" "set (todo t) = set (todo t1) \<union> the ` V ` (needed_names t - needed_names t1)"
    "length (todo t) = length (todo t1) + card (needed_names t - needed_names t1)"
    using need_all_ok [OF t1(2), of ns] unfolding t1(3) by metis
  have R: "root_names dm mods = ?U \<union> set ns" unfolding root_names_def used_declarations_def ns_def by auto
  have "library_roots dm mods = Inr (without_unused dm V, t)"
    using t(1) by (simp only: library_roots_def named_by_need_all t0(1) t1(1) ns_def need_all_append andthen_simps prod.case without_unused_def ir_module.simps)
      (auto simp: andthen_def split: sum.splits)
  moreover have "closing mods V ?B (root_names dm mods) t"
  proof -
    have sub: "needed_names t \<subseteq> dom V" using t(6) t1(6) by auto
    have out: "n \<notin> ?B" if "n \<in> ?U" for n using that apart unfolding own_definitions_def by fastforce
    have B: "?B \<subseteq> needed_names t1" "?B \<subseteq> needed_names t" using t1(6) t(6) by auto
    have new: "n \<in> root_names dm mods \<and> the (V n) \<in> set (todo t)" if "n \<in> needed_names t - ?B" for n
    proof (cases "n \<in> needed_names t1")
      case True
      then have "n \<in> ?U \<inter> dom V" using that t1(6) by auto
      then show ?thesis using R t(7) t1(7) by auto
    next
      case False
      then show ?thesis using that R t(6,7) by auto
    qed
    have "set (todo t) \<subseteq> (\<lambda>n. the (V n)) ` (needed_names t - ?B)"
    proof
      fix v assume "v \<in> set (todo t)"
      then consider n where "n \<in> ?U \<inter> dom V" "v = the (V n)" | n where "n \<in> needed_names t - needed_names t1" "v = the (V n)"
        using t(7) t1(7) by auto
      then show "v \<in> (\<lambda>n. the (V n)) ` (needed_names t - ?B)"
      proof cases
        case 1
        then have "n \<in> needed_names t - ?B" using out t(6) t1(6) by auto
        then show ?thesis using 1 by blast
      next
        case 2
        then show ?thesis using B by blast
      qed
    qed
    moreover have "root_names dm mods \<inter> dom V \<subseteq> needed_names t" using R t(6) t1(6) by auto
    moreover have "reached mods V ?B (root_names dm mods) n" if "n \<in> needed_names t - ?B" for n
      using new [OF that] that sub by (auto intro: reached.root)
    ultimately show ?thesis using t(2,3,5) t1(5) t0(4) B(2) new unfolding closing_def by simp
  qed
  moreover have "length (todo t) + card (dom V - needed_names t) \<le> y_count t"
  proof -
    have d: "dom V - needed_names t1 = (dom V - needed_names t) \<union> (needed_names t - needed_names t1)" using t(6) by auto
    have "card (dom V - needed_names t1) = card (dom V - needed_names t) + card (needed_names t - needed_names t1)"
      unfolding d using t(6) fin(1) by (subst card_Un_disjoint) (auto intro: finite_subset [of _ "dom V"])
    then show ?thesis using t(4,8) t1(4,8) fin(2) by simp
  qed
  ultimately show thesis using that fin(1) t(5) t1(5) t0(4) by simp
qed

text \<open>What is linked from the libraries is exactly what the program reaches.  Whatever the program and the
  modules are, the analysis ends: no search of the table goes round and each symbol is looked at once.  It fails
  only when the body of a reached function cannot be read.  Otherwise a symbol is marked needed if and only
  if the program defines it itself or it is reached, from a declaration the program uses or an appending
  global of a library, through the first definition of each name; bodies are read of the reached functions and of no
  others, and only declarations the program never uses are dropped.\<close>

theorem library_closure_exact:
  fixes dm mods
  assumes "names_apart dm"
  defines "V \<equiv> first_values mods"
  defines "reach \<equiv> reached mods V (own_definitions dm \<inter> dom V) (root_names dm mods)"
  shows "\<exists>r t. library_needs readable dm mods = Inr (r, without_unused dm V, t)
    \<and> (if \<exists>n v. reach n \<and> V n = Some v \<and> is_code mods v \<and> \<not> readable v then r = 1
       else r = 0 \<and> (\<forall>n. map_option y_value (lookup_symbol t n) = V n)
         \<and> (\<forall>n s. lookup_symbol t n = Some s \<longrightarrow> (y_needed s \<longleftrightarrow> n \<in> own_definitions dm \<or> reach n))
         \<and> set (materialized t) = {v. is_code mods v \<and> (\<exists>n. reach n \<and> V n = Some v)})"
proof -
  let ?B = "own_definitions dm \<inter> dom V"
  obtain t0 where t0: "library_roots dm mods = Inr (without_unused dm V, t0)" "closing mods V ?B (root_names dm mods) t0"
    "finite (dom V)" "length (todo t0) + card (dom V - needed_names t0) \<le> y_count t0" "materialized t0 = []"
    unfolding V_def by (rule library_roots_ok [OF assms(1)])
  have "set (materialized t0) \<subseteq> Collect readable" using t0(5) by simp
  from closure_ok [OF t0(2,3,4) this]
  consider (good) t where "library_symbols_close (y_count t0) readable mods t0 = Inr (0, t)" "closing mods V ?B (root_names dm mods) t" "todo t = []"
      "set (materialized t) \<subseteq> Collect readable"
    | (bad) t n v where "library_symbols_close (y_count t0) readable mods t0 = Inr (1, t)" "reach n" "V n = Some v" "is_code mods v" "\<not> readable v"
    unfolding reach_def by blast
  then show ?thesis
  proof cases
    case good
    have d: "needed_names t - ?B = Collect reach" "set (materialized t) = {v. is_code mods v \<and> (\<exists>n. reach n \<and> V n = Some v)}"
      using closing_done [OF good(2,3)] unfolding reach_def by blast+
    have B: "?B \<subseteq> needed_names t" and val: "value_named t = V" using good(2) by (simp_all add: closing_def)
    have "y_needed s \<longleftrightarrow> n \<in> own_definitions dm \<or> reach n" if "lookup_symbol t n = Some s" for n s
    proof -
      have "n \<in> dom V" using that val by (auto simp: value_named_def)
      moreover have "y_needed s \<longleftrightarrow> n \<in> needed_names t" using that by (simp add: needed_names_def)
      ultimately show ?thesis using d(1) B by blast
    qed
    moreover have "map_option y_value (lookup_symbol t n) = V n" for n using fun_cong [OF val, of n] by (simp add: value_named_def)
    moreover have "\<not> (\<exists>n v. reach n \<and> V n = Some v \<and> is_code mods v \<and> \<not> readable v)" using d(2) good(4) by blast
    ultimately show ?thesis using t0(1) good(1) d(2) by (simp add: library_needs_def)
  next
    case bad
    then show ?thesis using t0(1) by (auto simp: library_needs_def)
  qed
qed


subsection \<open>A program and its libraries\<close>

definition lib_function :: "nat \<Rightarrow> string \<Rightarrow> linkage \<Rightarrow> nat list option \<Rightarrow> ir_function" where
  "lib_function v name l calls = \<lparr>g_id = v, g_name = ascii name, g_link = l, g_hidden = False,
     f_body = map_option (map (\<lambda>w. \<lparr>i_call = True, i_ops = [Global w]\<rparr>)) calls, f_params = 0, f_attrs = (\<lambda>_ _. None)\<rparr>"

text \<open>The program calls \<open>f\<close> and defines \<open>p\<close>; \<open>f\<close> of the second module calls its own static \<open>h\<close>, which calls \<open>b\<close> of the
  third.  The first module has a static \<open>h\<close> as well.\<close>

definition main_program :: ir_module where
  "main_program = \<lparr>funs = [lib_function 0 ''main'' External_linkage (Some [1]), lib_function 1 ''f'' External_linkage None,
     lib_function 2 ''a'' External_linkage None, lib_function 3 ''p'' External_linkage (Some [])], vars = []\<rparr>"

definition main_libraries :: "ir_module list" where
  "main_libraries =
     [\<lparr>funs = [lib_function 10 ''h'' Internal_linkage (Some [11]), lib_function 11 ''a'' External_linkage (Some [])], vars = []\<rparr>,
      \<lparr>funs = [lib_function 20 ''f'' External_linkage (Some [21, 23]), lib_function 21 ''h'' Internal_linkage (Some [22]), lib_function 22 ''b'' External_linkage None,
         lib_function 23 ''p'' External_linkage None], vars = []\<rparr>,
      \<lparr>funs = [lib_function 30 ''b'' External_linkage (Some []), lib_function 31 ''p'' External_linkage (Some [30])], vars = []\<rparr>]"


lemma main_program_apart: "names_apart main_program"
  by (simp add: names_apart_def main_program_def lib_function_def fun_ids_def ascii_def)

theorem library_closure_exact_witness:
  "\<exists>r t. library_needs (\<lambda>_. True) main_program main_libraries = Inr (r, without_unused main_program (first_values main_libraries), t)
    \<and> r = 0 \<and> (\<forall>n s. lookup_symbol t n = Some s \<longrightarrow> (y_needed s \<longleftrightarrow> n \<in> own_definitions main_program
         \<or> reached main_libraries (first_values main_libraries) (own_definitions main_program \<inter> dom (first_values main_libraries)) (root_names main_program main_libraries) n))"
  using library_closure_exact [OF main_program_apart, where mods = main_libraries and readable = "\<lambda>_. True"] by auto

text \<open>Static functions share the table by name with everything else: \<open>f\<close> calls the \<open>h\<close> of its own module, but the \<open>h\<close> of the
  first module is looked at, and what only the second one calls is never found.\<close>

lemma same_name_local_missed:
  "case library_needs (\<lambda>_. True) main_program main_libraries of Inl e \<Rightarrow> False
   | Inr (r, dm, t) \<Rightarrow> r = 0 \<and> set (materialized t) = {20, 10, 11} \<and> needed_at t (the (projr (library_symbol_find t (ascii ''a''))))
       \<and> \<not> needed_at t (the (projr (library_symbol_find t (ascii ''b''))))"
  by code_simp

end
