(* ===== verification/Spec2Isabelle.thy ===== *)
theory Spec2Isabelle
  imports Libc_Sort Slab_Threads Recycler Ledger Arena_Inv String_Search String_Build Cycles_Run Profile RefCount List_Release Slices DataView Channels File_Lines Tasks Spawn_Quote Paths Process Plib View_Rows Cache_Runs Partition Library_Symbols
begin

text \<open>
  A verification development for the C code of Prismio, which lies under \<open>runtime/\<close>: the run-time library that every
  compiled program links, and the two parts of the compiler's C half that decide something themselves, the
  build driver with its caches and containers, and the splitting and merging of modules in the backend.

  \<^bold>\<open>The program and its parts.\<close>  A Prismio program is LLVM code that calls \<open>runtime/lang_runtime.c\<close>
  (memory, strings, lists, reference counts, data views, the access profile) and
  \<open>runtime/program_support.c\<close> (the host services of the standard library: input by line, channels, tasks,
  child processes, paths).  A program built for no operating system links
  \<open>runtime/freestanding/libc.c\<close> in place of the C library.  The compiler itself is written in Prismio.  Of its
  C half, \<open>runtime/build_driver.c\<close> drives clang, keeps compiled objects for later builds, publishes results and reads and
  writes compiled libraries; \<open>runtime/llvm-api-backend.c\<close> stands between the compiler and LLVM, finds what a program
  needs of the libraries and splits a program into partitions that are compiled side by side.

  Everything that allocates goes through one seam, \<open>rt_base_alloc\<close>, \<open>rt_base_realloc\<close> and \<open>rt_free\<close>.  Four
  implementations stand behind it, one per build.  Above the seam the arenas hand out memory that dies
  with a region, \<open>rt_alloc\<close> chooses between the two by the hint in force, and strings, lists, reference
  counts and views are built on \<open>rt_alloc\<close>.

  \<^bold>\<open>How state is modelled.\<close>  \<open>Prelude\<close> has the flat byte memory (\<open>peek\<close>, \<open>poke\<close>, \<open>load64\<close>, \<open>store64\<close>), C integers
  with their wrap-around written out (\<open>i32\<close>, \<open>u64\<close>), and run-time failures as values.  A heap (\<open>Heap\<close>) is a
  record of that memory and the C library's allocator; each component extends the record by its own
  globals, in the order of the files: \<open>slab_heap\<close>, \<open>recycle_heap\<close> and \<open>verify_heap\<close> behind the seam, \<open>rt\<close>
  for the arenas over any seam, \<open>lrt\<close> with the headers of lists, \<open>vrt\<close> with those of views.  Chains, element
  blocks, strings, object headers and columns lie in the byte memory, so aliasing and overlap mean what
  they mean in C.  A trap, an abort or a store through null is an error value.  An operation under a lock
  is one step; where several threads meet, a step relation interleaves the operations of all of them.

  \<^bold>\<open>Theories, in order of import, and what their lemmas show.\<close>

  \<^item> \<open>Prelude\<close>, \<open>Heap\<close>: the vocabulary; the locale \<open>seam_spec\<close>, the contract of an allocator in terms of what a
    program owns (\<open>owned\<close>): a new block is apart from all of that, its bytes are kept, a refusal changes
    nothing.  \<open>plain\<close> interprets it on the C library with exact accounts: in \<open>plain_inv\<close> the blocks the C library has
    out are those the program holds, no more, so a block that is not given back breaks the invariant.
  \<^item> \<open>Libc\<close>, \<open>Libc_Sort\<close> (\<open>freestanding/libc.c\<close>): word-at-a-time copies, fills and comparisons equal the byte
    ones; heapsort refines an algorithm on lists and sorts.  Locale \<open>comparator\<close>, interpreted on the order
    of names.
  \<^item> \<open>Chains\<close>, \<open>Slab\<close>, \<open>Slab_Inv\<close>, \<open>Slab_Threads\<close> (\<open>slab_*\<close>): each block cut from a span is held in exactly one
    place; all threads' operations keep that, and \<open>slab\<close> interprets \<open>seam_spec\<close>.
  \<^item> \<open>Recycler\<close> (\<open>recycle_*\<close>, Windows) and \<open>Ledger\<close> (\<open>aif_verify_*\<close>, \<open>--verify\<close>): the other two seams,
    interpretations \<open>recycle\<close> and \<open>verify\<close>; the ledger adds up and answers a second release with a violation.
  \<^item> \<open>Arena\<close>, \<open>Arena_Inv\<close> (\<open>arena_*\<close>, \<open>rt_alloc\<close>): regions over any seam.  Locale \<open>rt_spec\<close>, with a sublocale from
    \<open>seam_spec\<close>: what the rest of the runtime is proved against, once for the four builds.  \<open>rt_inv\<close> keeps the accounts
    exact above the seam: each block the runtime holds is the program's or belongs to a chunk of a stack or of the
    pool (\<open>all_held\<close>, \<open>chunk_set\<close>).
  \<^item> \<open>Strings\<close>, \<open>String_Build\<close>, \<open>String_Search\<close> (\<open>str_*\<close>): builders against lists of bytes, the consuming append
    with parts that point into its base, integer text and its value, one hash for both multiplications,
    the first occurrence found by the packed-pair scan.
  \<^item> \<open>Cycles\<close>, \<open>Cycles_Walk\<close>, \<open>Cycles_Scan\<close>, \<open>Cycles_Collect\<close>, \<open>Cycles_Run\<close> (\<open>cyc_*\<close>): trial deletion as sets and
    edge counts; no reachable object is freed, every garbage cycle is.
  \<^item> \<open>Profile\<close> (\<open>rt_prof_*\<close>): the probing tables are finite maps of event counts (locale \<open>probed\<close>, twice).
  \<^item> \<open>RefCount\<close> (\<open>rc_*\<close>): the count in the header, and that the last release frees object and cold block.
  \<^item> \<open>Lists\<close>, \<open>List_Cells\<close>, \<open>List_Inv\<close>, \<open>List_Ops\<close>, \<open>List_Release\<close>, \<open>List_Views\<close>, \<open>Slices\<close> (\<open>list_*\<close>, \<open>mem_*\<close>): the block
    as a list of cells; reading, growing and storing refine the operations on lists; teardown frees what the
    list owns.  Locale \<open>list_rt\<close>, with a sublocale from \<open>seam_spec\<close>.
  \<^item> \<open>DataView\<close>, \<open>View_Rows\<close> (\<open>data_view_*\<close>): rows to one array per field and back, with a well-formed view in between.
    Locale \<open>view_rt\<close>.
  \<^item> \<open>Channels\<close> (\<open>chan_*\<close>): each ring is a bounded queue (locale \<open>bounded_queue\<close>, interpreted as \<open>ptr\<close> and
    \<open>byt\<close>); no sleeper waits for something that is already there.
  \<^item> \<open>Line_Reader\<close>, \<open>File_Lines\<close> (\<open>line_reader_*\<close>, \<open>fs_lines_*\<close>, \<open>poll_*\<close>): however the kernel cuts the input, the reader
    gives its lines; the table of handles is a finite map of open files.
  \<^item> \<open>Tasks\<close> (\<open>prismio_task_*\<close>, \<open>prismio_scope_*\<close>): reference counts of handles shared by threads, joins, scopes.
  \<^item> \<open>Spawn_Quote\<close>, \<open>Process\<close> (\<open>spawn_*\<close>, \<open>proc_*\<close>): quoting undone by the documented readers, the descriptors of
    a child, pipes with every write and read cut anywhere.
  \<^item> \<open>Paths\<close> (\<open>get_directory\<close> to \<open>fs_list_end\<close>): directory names, parents, sorted listings.
  \<^item> \<open>Plib\<close> (\<open>plib_*\<close> and \<open>emit_stdlib_plib\<close> of \<open>build_driver.c\<close>): the reader accepts only what it has checked, and
    what the writer wrote; extraction gives the bytes of the section.
  \<^item> \<open>Build_Files\<close> (files, temporary names, \<open>compiler_publish_file\<close>, hashes): a disk maps paths to bytes; publication is the list
    of the disks it passes through, and a reader of the target never sees a text that is not whole.
  \<^item> \<open>Object_Cache\<close>, \<open>Cache_Runs\<close> (\<open>native_*\<close>, \<open>object_cache_*\<close>, \<open>compile_native_source\<close>): the files clang read are recorded and
    judged again; over all histories of builds and edits the cache gives what a compile would, and is used.
  \<^item> \<open>Module_IR\<close>: what the backend asks LLVM about a module, as data: functions, variables, bodies, who names whom.
  \<^item> \<open>Partition\<close> (\<open>assign_partitions\<close> to \<open>emit_partitioned\<close>): the parts of a split program link, the loads are even.
  \<^item> \<open>Library_Symbols\<close> (\<open>library_symbol_*\<close>): the table by name and the work list mark exactly what the program reaches
    through the libraries (\<open>library_closure_exact\<close>), and \<open>same_name_local_missed\<close> shows what that leaves out.

  The properties follow the same order of importance: memory safety of what every program uses, then
  functional behaviour, then the host services.  A property over the runtime's memory is stated for any
  seam that keeps its contract, and its witness runs the code on the plain one.

  \<^bold>\<open>Bounds and fuel.\<close>  Loops over chains, windows, bytes and table slots are structural or have a measure.  The
  walks of the cycle collector recurse along the graph and take fuel; more than twice the number of live
  objects is enough, which \<open>cyc_collect_ok\<close> proves.  The release of a list follows lists of lists; \<open>list_release\<close>
  takes one unit per level.  The work list of the library symbols takes one unit per symbol and a search of its
  table one per slot, which \<open>library_closure_exact\<close> proves enough.  The needle search ends because each round moves its start.  The limits of
  the code are kept as constants with its names (128 libraries of at most 16 sections, 65535 open files,
  512 recycled blocks, 8192 profile slots).  A loop on a C string stops at the end of the address space.

  \<^bold>\<open>Parameters.\<close>  What is not under \<open>runtime/\<close> is an argument: the placement decisions of \<open>malloc\<close>, \<open>mmap\<close> and
  thread creation, the answers of the kernel to \<open>read\<close>, \<open>write\<close>, \<open>poll\<close>, \<open>mkdir\<close> and \<open>fork\<close>, the generated functions
  that release an element, the programs that read a command line, the compiler and clang runs that make a
  library's code or an object and report the files they read, which opens, writes, renames and removals the disk allows
  (record \<open>host\<close>), whether LLVM can read a body, and how it lowers a module.

  \<^bold>\<open>Not modelled.\<close>  Most of \<open>llvm-api-backend.c\<close> and all of \<open>llvm_bridge.cpp\<close> forward to LLVM, a C++ library that is not
  here; of the lazy linking of libraries, the declarations put into the program and the links themselves.  The rest
  of \<open>build_driver.c\<close> builds command lines, runs tools and moves files.  Of \<open>program_support.c\<close>, single system calls (metadata,
  environment, clocks, waiting for a child) and the Win32 halves; of \<open>lang_runtime.c\<close>, text of doubles, which is
  \<open>snprintf\<close> and \<open>strtod\<close>, and the text of trap messages.  Weak memory is not modelled: an atomic operation or a
  critical section is one step.  Offsets and sizes of files pass through \<open>long\<close>, taken as 64 bits; on Windows it has 32.
  The accounts of blocks are exact over the plain C library; behind the slab, recycler and ledger seams, which keep blocks
  for later, the invariants say where blocks may be and not that none is lost.
\<close>

end
